(* ===== verification/Prelude.thy ===== *)
theory Prelude
  imports Main "HOL-Library.Monad_Syntax"
begin

text \<open>
  Shared vocabulary of the development: 32 bit unsigned arithmetic as the code's
  \<^verbatim>\<open>uint32_t\<close> has it (natural numbers below \<open>2 ^ 32\<close>, every operation
  reduced modulo \<open>2 ^ 32\<close>), division that faults on a zero divisor, the option
  monad in which \<open>None\<close> stands for undefined behaviour or a loop that never
  ends, the loop combinator \<open>foldo\<close>, and the answer lists
  (\<^verbatim>\<open>AN_Type\<close>) that the object library reports errors in.
\<close>

named_theorems u32_simps \<open>rewriting of 32 bit arithmetic that does not wrap\<close>

section \<open>Unsigned 32 bit arithmetic\<close>

abbreviation u32_mod :: nat where
  "u32_mod \<equiv> 4294967296"

definition add32 :: "nat \<Rightarrow> nat \<Rightarrow> nat" where
  "add32 a b = (a + b) mod u32_mod"

definition sub32 :: "nat \<Rightarrow> nat \<Rightarrow> nat" where
  "sub32 a b = (a + (u32_mod - b mod u32_mod)) mod u32_mod"

definition mul32 :: "nat \<Rightarrow> nat \<Rightarrow> nat" where
  "mul32 a b = (a * b) mod u32_mod"

definition div32 :: "nat \<Rightarrow> nat \<Rightarrow> nat option" where
  "div32 a b = (if b = 0 then None else Some (a div b))"

definition mod32 :: "nat \<Rightarrow> nat \<Rightarrow> nat option" where
  "mod32 a b = (if b = 0 then None else Some (a mod b))"

lemma add32_exact [u32_simps]: "a + b < u32_mod \<Longrightarrow> add32 a b = a + b"
  by (simp add: add32_def)

lemma sub32_exact [u32_simps]: "b \<le> a \<Longrightarrow> a < u32_mod \<Longrightarrow> sub32 a b = a - b"
proof -
  assume "b \<le> a" "a < u32_mod"
  then have "a + (u32_mod - b mod u32_mod) = (a - b) + u32_mod" by simp
  with \<open>a < u32_mod\<close> show ?thesis by (simp add: sub32_def)
qed

lemma sub32_wraps: "a < b \<Longrightarrow> b < u32_mod \<Longrightarrow> sub32 a b = a + u32_mod - b"
  by (simp add: sub32_def)

lemma mul32_exact [u32_simps]: "a * b < u32_mod \<Longrightarrow> mul32 a b = a * b"
  by (simp add: mul32_def)

lemma add32_less [simp]: "add32 a b < u32_mod"
  by (simp add: add32_def)

lemma sub32_less [simp]: "sub32 a b < u32_mod"
  by (simp add: sub32_def)

lemma div32_pos [u32_simps]: "0 < b \<Longrightarrow> div32 a b = Some (a div b)"
  by (simp add: div32_def)

lemma mod32_pos [u32_simps]: "0 < b \<Longrightarrow> mod32 a b = Some (a mod b)"
  by (simp add: mod32_def)

lemma dvd_diffE:
  fixes a i s :: nat
  assumes "a \<le> i" "s dvd (i - a)"
  obtains k where "i = a + s * k"
  using assms by (auto simp: dvd_def) (metis le_add_diff_inverse)

section \<open>Loops with a body that may fault\<close>

fun foldo :: "('a \<Rightarrow> 's \<Rightarrow> 's option) \<Rightarrow> 'a list \<Rightarrow> 's \<Rightarrow> 's option" where
  "foldo f [] s = Some s"
| "foldo f (x # xs) s = do { s' \<leftarrow> f x s; foldo f xs s' }"

text \<open>
  The rule for such loops: an invariant that relates the elements already visited to
  the state, kept by every iteration, gives the result of the whole loop.
\<close>

lemma foldo_invariant:
  assumes "I [] s"
    and "\<And>prev x s. x \<in> set xs \<Longrightarrow> I prev s \<Longrightarrow> \<exists>s'. f x s = Some s' \<and> I (prev @ [x]) s'"
  shows "\<exists>s'. foldo f xs s = Some s' \<and> I xs s'"
proof -
  have "\<exists>s'. foldo f ys s = Some s' \<and> I (prev @ ys) s'" if "I prev s" "set ys \<subseteq> set xs" for prev ys s
    using that
  proof (induction ys arbitrary: prev s)
    case Nil
    then show ?case by simp
  next
    case (Cons y ys)
    then obtain s1 where s1: "f y s = Some s1" "I (prev @ [y]) s1"
      using assms(2)[of y prev s] by auto
    from Cons.IH[OF s1(2)] Cons.prems(2) s1(1) show ?case by auto
  qed
  from this[OF assms(1), of xs] show ?thesis by simp
qed

lemma foldo_append: "foldo f (xs @ ys) s = do { s' \<leftarrow> foldo f xs s; foldo f ys s' }"
proof (induction xs arbitrary: s)
  case Nil
  show ?case by simp
next
  case (Cons x xs)
  then show ?case by (cases "f x s") simp_all
qed

section \<open>Searching lists\<close>

lemma find_SomeD: "find P xs = Some x \<Longrightarrow> x \<in> set xs \<and> P x"
  by (auto simp: find_Some_iff)

lemma find_map_eq: "(\<And>x. P x = Q (f x)) \<Longrightarrow> map_option f (find P xs) = find Q (map f xs)"
  by (induction xs) auto

lemma find_eq_NoneD: "find P xs = None \<longleftrightarrow> (\<forall>x\<in>set xs. \<not> P x)"
  by (auto simp: find_None_iff)

section \<open>Characters\<close>

definition tolower :: "char \<Rightarrow> char" where
  "tolower c = (let n = of_char c :: nat in if 65 \<le> n \<and> n \<le> 90 then char_of (n + 32) else c)"

section \<open>Answer lists\<close>

text \<open>
  \<^verbatim>\<open>lList **answer_list\<close>: \<open>None\<close> is the null pointer the callers pass when they
  do not want to hear of errors; otherwise the list of the messages of quality error
  added so far. Answers of other qualities play no role in the functions modelled here.
\<close>

type_synonym answer_list = "string list option"

definition answer_list_add :: "answer_list \<Rightarrow> string \<Rightarrow> answer_list" where
  "answer_list_add al msg = map_option (\<lambda>ms. ms @ [msg]) al"

definition answer_list_has_error :: "answer_list \<Rightarrow> bool" where
  "answer_list_has_error al = (case al of None \<Rightarrow> False | Some ms \<Rightarrow> ms \<noteq> [])"

end
