(* ===== verification/Range.thy ===== *)
theory Range
  imports Prelude
begin

text \<open>
  The range lists of \<^verbatim>\<open>source/libs/sgeobj/sge_range.cc\<close>: lists of
  \<open>min\<close>-\<open>max\<close>-\<open>step\<close> triples (\<^verbatim>\<open>RN_Type\<close>) that stand for sets of array task ids.
  This theory holds the data and one definition per function of the file, in the
  order in which they call each other. A list pointer is \<open>range list option\<close>, with
  \<open>None\<close> for \<^verbatim>\<open>nullptr\<close>. A function that divides by a step, or whose loop
  may run forever when an id wraps around, returns in the option monad: \<open>None\<close> is
  the division by zero or the endless loop. Memory allocation never fails in the
  model, so the branches on a failed \<^verbatim>\<open>lCreateList\<close> or \<^verbatim>\<open>lCreateElem\<close> do
  not appear.
\<close>

section \<open>Data\<close>

record range =
  RN_min :: nat
  RN_max :: nat
  RN_step :: nat

type_synonym range_list = "range list option"

definition elems :: "range_list \<Rightarrow> range list" where
  \<comment> \<open>what \<^verbatim>\<open>for_each_ep\<close> walks over: a null list has no elements\<close>
  "elems p = (case p of None \<Rightarrow> [] | Some l \<Rightarrow> l)"

lemma elems_simps [simp]: "elems None = []" "elems (Some l) = l"
  by (simp_all add: elems_def)

definition lPSortList :: "range list \<Rightarrow> range list" where
  \<comment> \<open>\<^verbatim>\<open>lPSortList(l, "%I+", RN_min)\<close>: ascending by \<^verbatim>\<open>RN_min\<close>\<close>
  "lPSortList l = sort_key RN_min l"

section \<open>Single ranges\<close>

definition range_get_all_ids :: "range option \<Rightarrow> nat \<times> nat \<times> nat" where
  "range_get_all_ids r =
     (case r of None \<Rightarrow> (0, 0, 0) | Some r \<Rightarrow> (RN_min r, RN_max r, RN_step r))"

definition range_set_all_ids :: "range \<Rightarrow> nat \<Rightarrow> nat \<Rightarrow> nat \<Rightarrow> range" where
  "range_set_all_ids r mn mx step =
     r\<lparr>RN_min := mn, RN_max := mx, RN_step := (if mn \<noteq> mx then step else 1)\<rparr>"

definition lCreateElem_RN :: range where
  "lCreateElem_RN = \<lparr>RN_min = 0, RN_max = 0, RN_step = 0\<rparr>"

definition range_correct_end :: "range \<Rightarrow> range" where
  "range_correct_end r =
     (let (start, end', step) = range_get_all_ids (Some r) in
      if step > 0 then
        (if sub32 end' start mod step \<noteq> 0 then
           let factor = sub32 end' start div step;
               end'' = add32 start (mul32 factor step)
           in range_set_all_ids (range_set_all_ids r start end'' step) start end'' step
         else range_set_all_ids r start end' step)
      else range_set_all_ids r start end' (sub32 end' start))"

definition range_is_overlapping :: "range \<Rightarrow> range \<Rightarrow> bool" where
  "range_is_overlapping r1 r2 =
     (let (start1, end1, step1) = range_get_all_ids (Some r1);
          (start2, end2, step2) = range_get_all_ids (Some r2)
      in end1 \<ge> start2)"

definition range_get_number_of_ids :: "range \<Rightarrow> nat option" where
  "range_get_number_of_ids r =
     (let (start, end', step) = range_get_all_ids (Some r) in
      do { q \<leftarrow> div32 (sub32 end' start) step; Some (add32 1 q) })"

definition range_containes_id_less_than :: "range option \<Rightarrow> nat \<Rightarrow> bool" where
  "range_containes_id_less_than r i =
     (case r of None \<Rightarrow> False
      | Some r \<Rightarrow> (let (start, end', step) = range_get_all_ids (Some r) in start < i))"

definition range_is_id_within :: "range option \<Rightarrow> nat \<Rightarrow> bool option" where
  "range_is_id_within r i =
     (case r of None \<Rightarrow> Some False
      | Some r \<Rightarrow>
         (let (start, end', step) = range_get_all_ids (Some r) in
          if i \<ge> start \<and> i \<le> end' then
            do { m \<leftarrow> mod32 (sub32 i start) step; Some (m = 0) }
          else Some False))"

section \<open>Queries on range lists\<close>

definition range_list_initialize :: "range_list \<Rightarrow> range_list" where
  "range_list_initialize p = (case p of Some l \<Rightarrow> Some [] | None \<Rightarrow> Some [])"

definition range_list_get_number_of_ids :: "range_list \<Rightarrow> nat option" where
  "range_list_get_number_of_ids p =
     foldo (\<lambda>r ret. do { n \<leftarrow> range_get_number_of_ids r; Some (add32 ret n) }) (elems p) 0"

definition range_list_is_empty :: "range_list \<Rightarrow> bool option" where
  "range_list_is_empty p = do { n \<leftarrow> range_list_get_number_of_ids p; Some (n = 0) }"

definition range_list_get_first_id :: "range_list \<Rightarrow> answer_list \<Rightarrow> nat \<times> answer_list" where
  "range_list_get_first_id p al =
     (case elems p of
        [] \<Rightarrow> (0, answer_list_add al ''range_list containes no elements'')
      | r # _ \<Rightarrow> (let (start, end', step) = range_get_all_ids (Some r) in (start, al)))"

definition range_list_get_last_id :: "range_list \<Rightarrow> answer_list \<Rightarrow> nat \<times> answer_list" where
  "range_list_get_last_id p al =
     (case rev (elems p) of
        [] \<Rightarrow> (0, answer_list_add al ''range_list containes no elements'')
      | r # _ \<Rightarrow> (let (start, end', step) = range_get_all_ids (Some r) in (end', al)))"

fun range_list_within_loop :: "range list \<Rightarrow> nat \<Rightarrow> bool option" where
  "range_list_within_loop [] i = Some False"
| "range_list_within_loop (r # rs) i =
     do { b \<leftarrow> range_is_id_within (Some r) i;
          if b then Some True else range_list_within_loop rs i }"

definition range_list_is_id_within :: "range_list \<Rightarrow> nat \<Rightarrow> bool option" where
  "range_list_is_id_within p i = range_list_within_loop (elems p) i"

definition range_list_containes_id_less_than :: "range_list \<Rightarrow> nat \<Rightarrow> bool" where
  "range_list_containes_id_less_than p i =
     list_ex (\<lambda>r. range_containes_id_less_than (Some r) i) (elems p)"

section \<open>Joining neighbours\<close>

text \<open>
  The body of the loop for two neighbours: \<open>Some\<close> the joined range when one of the
  four conditions holds, \<open>None\<close> when both stay.
\<close>

definition join_sequenced :: "range \<Rightarrow> range \<Rightarrow> range option" where
  "join_sequenced r1 r2 =
     (let (start1, end1, step1) = range_get_all_ids (Some r1);
          (start2, end2, step2) = range_get_all_ids (Some r2)
      in
      if add32 end1 step1 = start2 \<and> step1 = step2 then
        Some (range_set_all_ids r1 start1 end2 step2)
      else if start1 = end1 \<and> step1 = 1 \<and> end1 = sub32 start2 step2 then
        Some (range_set_all_ids r1 start1 end2 step2)
      else if start2 = end2 \<and> step2 = 1 \<and> add32 end1 step1 = end2 then
        Some (range_set_all_ids r1 start1 end2 step1)
      else if start1 = end1 \<and> start2 = end2 \<and> step1 = step2 \<and> step1 = 1 then
        Some (range_set_all_ids r1 start1 start2 (sub32 start2 start1))
      else None)"

fun compress_loop :: "range list \<Rightarrow> range list" where
  "compress_loop [] = []"
| "compress_loop [r] = [r]"
| "compress_loop (r1 # r2 # rs) =
     (case join_sequenced r1 r2 of
        Some r \<Rightarrow> compress_loop (r # rs)
      | None \<Rightarrow> r1 # compress_loop (r2 # rs))"

definition range_list_compress :: "range_list \<Rightarrow> range_list" where
  "range_list_compress p = map_option compress_loop p"

section \<open>Removing and inserting one id\<close>

text \<open>What remains of the range that holds the id, branch by branch.\<close>

definition remove_id_from :: "nat \<Rightarrow> range \<Rightarrow> range list" where
  "remove_id_from i r =
     (let (start, end', step) = range_get_all_ids (Some r) in
      if i = start \<and> (i = end' \<or> add32 i step > end') then []
      else if i = start then [range_set_all_ids r (add32 start step) end' step]
      else if i = end' then [range_set_all_ids r start (sub32 end' step) step]
      else [range_set_all_ids r start (sub32 i step) step,
            range_set_all_ids lCreateElem_RN (add32 i step) end' step])"

fun remove_id_loop :: "nat \<Rightarrow> range list \<Rightarrow> range list option" where
  "remove_id_loop i [] = Some []"
| "remove_id_loop i (r # rs) =
     do { b \<leftarrow> range_is_id_within (Some r) i;
          if b then Some (remove_id_from i r @ rs)
          else do { rs' \<leftarrow> remove_id_loop i rs; Some (r # rs') } }"

definition range_list_remove_id :: "nat \<Rightarrow> range_list \<Rightarrow> range_list option" where
  "range_list_remove_id i p =
     (case p of
        None \<Rightarrow> Some None
      | Some l \<Rightarrow>
          do { l' \<leftarrow> remove_id_loop i l;
               Some (if l' = [] then None else Some l') })"

text \<open>
  The insertion walks the list from its end. \<open>insert_id_at\<close> is the part of the loop
  body behind the label 2: \<open>rng\<close> is \<^verbatim>\<open>range\<close> (\<open>None\<close> in front of the
  list) and \<open>after\<close> starts with \<^verbatim>\<open>next_range\<close>; the result replaces the list from
  \<^verbatim>\<open>range\<close> on. In \<open>insert_id_loop\<close> the elements in front of \<^verbatim>\<open>range\<close> are
  in reverse order.
\<close>

definition insert_id_at :: "nat \<Rightarrow> range option \<Rightarrow> range list \<Rightarrow> range list option" where
  "insert_id_at i rng after =
     (let cur = (case rng of None \<Rightarrow> [] | Some r \<Rightarrow> [r]);
          single = range_set_all_ids lCreateElem_RN i i 1;
          (start, end', step) = range_get_all_ids rng;
          (next_start, next_end, next_step) =
            range_get_all_ids (case after of [] \<Rightarrow> None | n # _ \<Rightarrow> Some n);
          has_next = (after \<noteq> [])
      in
      if has_next \<and> i > next_start then
        do { m \<leftarrow> mod32 (sub32 i next_start) next_step;
             if m = 0 then Some (cur @ after)
             else do { factor \<leftarrow> div32 (sub32 i next_start) next_step;
                       let prev_id = add32 next_start (mul32 factor next_step);
                           next_id = add32 next_start (mul32 (add32 factor 1) next_step)
                       in Some (cur @
                            range_set_all_ids (hd after) next_start prev_id next_step #
                            single #
                            range_set_all_ids lCreateElem_RN next_id next_end next_step #
                            tl after) } }
      else if (rng \<noteq> None \<and> end' = i) \<or> (has_next \<and> next_start = i) then Some (cur @ after)
      else if rng \<noteq> None \<and> add32 end' step = i then
        Some (map (\<lambda>r. range_set_all_ids r start i step) cur @ after)
      else if has_next \<and> sub32 next_start next_step = i then
        Some (cur @ range_set_all_ids (hd after) i next_end next_step # tl after)
      else Some (cur @ single # after))"

fun insert_id_loop :: "nat \<Rightarrow> range list \<Rightarrow> range list \<Rightarrow> range list option" where
  "insert_id_loop i [] after = Some (after @ [range_set_all_ids lCreateElem_RN i i 1])"
| "insert_id_loop i (r # before) after =
     (if i < RN_max r then
        (if before \<noteq> [] then insert_id_loop i before (r # after)
         else insert_id_at i None (r # after))
      else do { l \<leftarrow> insert_id_at i (Some r) after; Some (rev before @ l) })"

definition range_list_insert_id :: "nat \<Rightarrow> range_list \<Rightarrow> range_list option" where
  "range_list_insert_id i p =
     do { l \<leftarrow> insert_id_loop i (rev (lPSortList (elems p))) []; Some (Some l) }"


section \<open>Walking over the ids of a range\<close>

text \<open>
  \<^verbatim>\<open>for (; start <= end; start += step)\<close>: the ids in the order the loop visits
  them, \<open>None\<close> when the loop never ends (a step of 0, or a step that takes
  \<^verbatim>\<open>start\<close> past \<open>2 ^ 32\<close> and back below \<^verbatim>\<open>end\<close>).
\<close>

partial_function (option) id_loop :: "nat \<Rightarrow> nat \<Rightarrow> nat \<Rightarrow> nat list option" where
  "id_loop start end' step =
     (if start \<le> end' then
        do { xs \<leftarrow> id_loop (add32 start step) end' step; Some (start # xs) }
      else Some [])"

declare id_loop.simps [code]

definition range_id_loop :: "range \<Rightarrow> nat list option" where
  "range_id_loop r =
     (let (start, end', step) = range_get_all_ids (Some r) in id_loop start end' step)"

definition range_list_insert_range :: "range \<Rightarrow> range_list \<Rightarrow> range_list option" where
  "range_list_insert_range r p =
     do { xs \<leftarrow> range_id_loop r; foldo range_list_insert_id xs p }"

section \<open>Sorting, removing duplicates, compressing\<close>

text \<open>
  The loops that take ranges which overlap their predecessor out of the sorted list.
  \<open>drop_overlapping\<close> is the inner loop for one \<^verbatim>\<open>range1\<close>: the elements that stay
  behind it and the elements chained into \<^verbatim>\<open>tmp_list\<close>.
\<close>

fun drop_overlapping :: "bool \<Rightarrow> range \<Rightarrow> range list \<Rightarrow> range list \<times> range list" where
  "drop_overlapping correct_end r1 [] = ([], [])"
| "drop_overlapping correct_end r1 (r2 # rs) =
     (let r2' = (if correct_end then range_correct_end r2 else r2) in
      if range_is_overlapping r1 r2' then
        (let (stay, tmp) = drop_overlapping correct_end r1 rs in (stay, r2' # tmp))
      else (r2' # rs, []))"

lemma length_drop_overlapping:
  "length (fst (drop_overlapping c r1 rs)) \<le> length rs"
  by (induction c r1 rs rule: drop_overlapping.induct)
    (auto simp: Let_def split: prod.splits)

function split_overlapping :: "bool \<Rightarrow> range list \<Rightarrow> range list \<times> range list" where
  "split_overlapping correct_end [] = ([], [])"
| "split_overlapping correct_end (r1 # rs) =
     (let r1' = (if correct_end then range_correct_end r1 else r1);
          (stay, tmp) = drop_overlapping correct_end r1' rs;
          (stay', tmp') = split_overlapping correct_end stay
      in (r1' # stay', tmp @ tmp'))"
  by pat_completeness auto
termination
proof (relation "measure (\<lambda>(c, rs). length rs)", goal_cases)
  case (2 c r1 rs r1' a stay tmp)
  then show ?case
    using length_drop_overlapping[of c r1' rs] by (metis case_prod_conv fst_conv in_measure
        length_Cons less_Suc_eq_le)
qed simp

definition range_list_sort_uniq_compress :: "bool \<Rightarrow> range_list \<Rightarrow> range_list option" where
  "range_list_sort_uniq_compress correct_end p =
     (case p of
        None \<Rightarrow> Some None
      | Some l \<Rightarrow>
          (let (stay, tmp) = split_overlapping correct_end (lPSortList l) in
           do { p' \<leftarrow> foldo range_list_insert_range tmp (Some stay);
                Some (range_list_compress p') }))"

section \<open>Set operations\<close>

definition range_list_calculate_union_set ::
    "range_list \<Rightarrow> answer_list \<Rightarrow> range_list \<Rightarrow> range_list \<Rightarrow> (range_list \<times> answer_list) option" where
  "range_list_calculate_union_set range_list al l1 l2 =
     (if l1 \<noteq> None \<or> l2 \<noteq> None then
        do { p \<leftarrow> range_list_sort_uniq_compress True (if l1 \<noteq> None then l1 else l2);
             if answer_list_has_error al then
               Some (None, answer_list_add al ''unable to calculate union set'')
             else if l1 \<noteq> None \<and> l2 \<noteq> None then
               do { p' \<leftarrow> foldo range_list_insert_range (elems l2) p;
                    Some (range_list_compress p', al) }
             else Some (p, al) }
      else Some (range_list, al))"

text \<open>
  The removal loop of the difference looks at the answer list after every id; the list
  had no error when the loop was entered and the removal adds none.
\<close>

definition range_list_remove_range :: "range \<Rightarrow> range_list \<Rightarrow> range_list option" where
  "range_list_remove_range r p =
     do { xs \<leftarrow> range_id_loop r; foldo range_list_remove_id xs p }"

definition range_list_calculate_difference_set ::
    "range_list \<Rightarrow> answer_list \<Rightarrow> range_list \<Rightarrow> range_list \<Rightarrow> (range_list \<times> answer_list) option" where
  "range_list_calculate_difference_set range_list al l1 l2 =
     (if l1 \<noteq> None then
        do { p \<leftarrow> range_list_sort_uniq_compress True l1;
             if answer_list_has_error al then
               Some (None, answer_list_add al ''unable to calculate union set'')
             else if l2 \<noteq> None then
               do { p' \<leftarrow> foldo range_list_remove_range (elems l2) p;
                    Some (range_list_compress p', al) }
             else Some (p, al) }
      else Some (range_list, al))"

definition intersect_id :: "range_list \<Rightarrow> nat \<Rightarrow> range_list \<Rightarrow> range_list option" where
  \<comment> \<open>the loop body: append the id when the second list holds it\<close>
  "intersect_id l2 start p =
     do { b \<leftarrow> range_list_is_id_within l2 start;
          Some (if b then Some (elems p @ [range_set_all_ids lCreateElem_RN start start 1])
                else p) }"

definition intersect_range :: "range_list \<Rightarrow> range \<Rightarrow> range_list \<Rightarrow> range_list option" where
  \<comment> \<open>the loop over the ids of one range of the first list\<close>
  "intersect_range l2 r p = do { xs \<leftarrow> range_id_loop r; foldo (intersect_id l2) xs p }"

definition range_list_calculate_intersection_set ::
    "range_list \<Rightarrow> range_list \<Rightarrow> range_list option" where
  "range_list_calculate_intersection_set l1 l2 =
     (if l1 \<noteq> None \<and> l2 \<noteq> None then
        do { p \<leftarrow> foldo (intersect_range l2) (elems l1) None;
             Some (range_list_compress p) }
      else Some None)"

section \<open>Moving the first ids to another list\<close>

partial_function (option) move_ids_loop ::
    "nat \<Rightarrow> nat \<Rightarrow> nat \<Rightarrow> nat \<times> range_list \<Rightarrow> (nat \<times> range_list) option" where
  "move_ids_loop i mx step st =
     (if i \<le> mx then
        do { p \<leftarrow> range_list_insert_id i (snd st);
             let n' = sub32 (fst st) 1; st' = (n', range_list_compress p) in
             (if n' = 0 then Some st' else move_ids_loop (add32 i step) mx step st') }
      else Some st)"

definition range_list_move_first_n_ids ::
    "range_list \<Rightarrow> range_list \<Rightarrow> nat \<Rightarrow> (range_list \<times> range_list) option" where
  "range_list_move_first_n_ids p p2 n =
     (case p of
        None \<Rightarrow> Some (p, p2)
      | Some l \<Rightarrow>
          do { (n', p2') \<leftarrow> foldo (\<lambda>r st. move_ids_loop (RN_min r) (RN_max r) (RN_step r) st) l (n, p2);
               p' \<leftarrow> foldo range_list_remove_range (elems p2') p;
               Some (p', p2') })"

section \<open>Building a list while parsing\<close>

text \<open>
  \<^verbatim>\<open>expand_range_list\<close>. \<open>swallow_covered\<close> is the inner loop that removes the
  elements a widened range covers; it steps to the next element both after the removal
  and at the end of its body.
\<close>

fun swallow_covered :: "nat \<Rightarrow> range \<Rightarrow> range list \<Rightarrow> range \<times> range list" where
  "swallow_covered rmin rr [] = (rr, [])"
| "swallow_covered rmin rr [ep] =
     (if rmin < RN_min ep then (rr, [])
      else if rmin \<le> RN_max ep then (rr\<lparr>RN_min := RN_min ep\<rparr>, [])
      else (rr, [ep]))"
| "swallow_covered rmin rr (ep # ep2 # rest) =
     (if rmin < RN_min ep then
        (let (rr', rest') = swallow_covered rmin rr rest in (rr', ep2 # rest'))
      else if rmin \<le> RN_max ep then (rr\<lparr>RN_min := RN_min ep\<rparr>, ep2 # rest)
      else (rr, ep # ep2 # rest))"

fun expand_loop :: "range \<Rightarrow> range list \<Rightarrow> range list \<Rightarrow> range list" where
  "expand_loop r before [] = rev before @ [r]"
| "expand_loop r before (ep # rest) =
     (let rmin = RN_min r; rmax = RN_max r; rstep = RN_step r in
      if rstep \<noteq> RN_step ep \<or> rstep > 1 \<or> RN_step ep > 1 then r # rev before @ ep # rest
      else if rmin > RN_max ep then r # rev before @ ep # rest
      else if rmax < RN_min ep then expand_loop r (ep # before) rest
      else if rmax \<le> RN_max ep \<and> rmin \<ge> RN_min ep then rev before @ ep # rest
      else if rmin < RN_min ep then
        (let ep' = ep\<lparr>RN_max := (if rmax > RN_max ep then rmax else RN_max ep), RN_min := rmin\<rparr>;
             (rr, rest') = swallow_covered rmin ep' rest
         in rev before @ rr # rest')
      else rev before @ ep\<lparr>RN_max := rmax\<rparr> # rest)"

definition expand_range_list :: "range \<Rightarrow> range_list \<Rightarrow> range_list" where
  "expand_range_list r p = Some (expand_loop r [] (elems p))"

end
