(* ===== verification/Range_Correct.thy ===== *)
theory Range_Correct
  imports Range
begin

text \<open>
  Correctness of the range lists: the set of ids a list stands for, the invariant the
  functions of \<^verbatim>\<open>sge_range.cc\<close> keep (ascending, disjoint, every end on the step
  grid, ids below \<open>2 ^ 31\<close> so that no loop over ids wraps around), and for every
  operation that it does not fault, keeps the invariant and computes the set operation
  it is named after.
\<close>

section \<open>Arithmetic progressions\<close>

definition ap :: "nat \<Rightarrow> nat \<Rightarrow> nat \<Rightarrow> nat set" where
  "ap a b s = {i. a \<le> i \<and> i \<le> b \<and> s dvd (i - a)}"

lemma ap_code [code]: "ap a b s = set (filter (\<lambda>i. s dvd (i - a)) [a..<Suc b])"
  by (auto simp: ap_def)

lemma ap_single [simp]: "ap a a s = {a}"
  by (auto simp: ap_def)

lemma ap_empty [simp]: "b < a \<Longrightarrow> ap a b s = {}"
  by (auto simp: ap_def)

lemma ap_bounds: "i \<in> ap a b s \<Longrightarrow> a \<le> i \<and> i \<le> b"
  by (simp add: ap_def)

lemma finite_ap [simp]: "finite (ap a b s)"
  by (rule finite_subset[of _ "{..b}"]) (auto simp: ap_def)

lemma ap_split:
  assumes "0 < s" "a \<le> b" "b \<le> c" "s dvd (b - a)"
  shows "ap a c s = ap a b s \<union> ap (b + s) c s"
proof -
  obtain k where b: "b = a + s * k" using dvd_diffE[OF assms(2,4)] .
  have "i \<le> b \<or> b + s \<le> i \<and> s dvd (i - (b + s))" if h: "a \<le> i" "s dvd (i - a)" for i
  proof -
    obtain j where i: "i = a + s * j" using dvd_diffE[OF h] .
    show ?thesis
    proof (cases "j \<le> k")
      case True
      then show ?thesis by (simp add: i b)
    next
      case False
      then obtain m where "j = Suc (k + m)" using less_iff_Suc_add[of k j] by auto
      then have "i = b + s + s * m" by (simp add: i b algebra_simps)
      then show ?thesis by simp
    qed
  qed
  moreover have "s dvd (i - a)" if h: "b + s \<le> i" "s dvd (i - (b + s))" for i
  proof -
    obtain j where "i = b + s + s * j" using dvd_diffE[OF h] .
    then have "i - a = s * (k + Suc j)" by (simp add: b algebra_simps)
    then show ?thesis by simp
  qed
  ultimately show ?thesis
    using assms by (auto simp: ap_def)
qed

lemma card_ap:
  assumes "0 < s" "a \<le> b"
  shows "card (ap a b s) = 1 + (b - a) div s"
proof -
  have "ap a b s = (\<lambda>k. a + k * s) ` {..(b - a) div s}"
  proof (intro equalityI subsetI)
    fix i assume "i \<in> ap a b s"
    then have i: "a \<le> i" "i \<le> b" "s dvd (i - a)" by (auto simp: ap_def)
    then obtain k where k: "i - a = s * k" by (auto simp: dvd_def)
    then have "k \<le> (b - a) div s"
      using i assms(1) by (metis diff_le_mono div_le_mono nonzero_mult_div_cancel_left not_less_zero)
    moreover have "i = a + k * s" using k i by (simp add: mult.commute)
    ultimately show "i \<in> (\<lambda>k. a + k * s) ` {..(b - a) div s}" by auto
  next
    fix i assume "i \<in> (\<lambda>k. a + k * s) ` {..(b - a) div s}"
    then obtain k where k: "k \<le> (b - a) div s" "i = a + k * s" by auto
    then have "k * s \<le> b - a"
      by (meson div_times_less_eq_dividend le_trans mult_le_mono1)
    with k assms show "i \<in> ap a b s" by (auto simp: ap_def)
  qed
  moreover have "inj_on (\<lambda>k. a + k * s) {..(b - a) div s}"
    using assms(1) by (auto simp: inj_on_def)
  ultimately show ?thesis by (simp add: card_image)
qed

section \<open>The ids of a list and the invariant\<close>

definition range_ids :: "range \<Rightarrow> nat set" where
  "range_ids r = ap (RN_min r) (RN_max r) (RN_step r)"

definition list_ids :: "range list \<Rightarrow> nat set" where
  "list_ids l = (\<Union>r\<in>set l. range_ids r)"

definition ids :: "range_list \<Rightarrow> nat set" where
  "ids p = list_ids (elems p)"

abbreviation id_limit :: nat where
  "id_limit \<equiv> 2147483648"

definition wf_range :: "range \<Rightarrow> bool" where
  "wf_range r \<longleftrightarrow>
     0 < RN_step r \<and> RN_min r \<le> RN_max r \<and> RN_max r < id_limit \<and>
     RN_step r dvd (RN_max r - RN_min r) \<and> (RN_min r = RN_max r \<longrightarrow> RN_step r = 1)"

fun wf_from :: "nat \<Rightarrow> range list \<Rightarrow> bool" where
  "wf_from lo [] = True"
| "wf_from lo (r # rs) = (lo \<le> RN_min r \<and> wf_range r \<and> wf_from (Suc (RN_max r)) rs)"

fun wf_end :: "nat \<Rightarrow> range list \<Rightarrow> nat" where
  "wf_end lo [] = lo"
| "wf_end lo (r # rs) = wf_end (Suc (RN_max r)) rs"

definition wf_ranges :: "range_list \<Rightarrow> bool" where
  "wf_ranges p = wf_from 0 (elems p)"

lemma list_ids_simps [simp]:
  "list_ids [] = {}"
  "list_ids (r # rs) = range_ids r \<union> list_ids rs"
  "list_ids (xs @ ys) = list_ids xs \<union> list_ids ys"
  "list_ids (rev xs) = list_ids xs"
  by (auto simp: list_ids_def)

lemma ids_simps [simp]: "ids None = {}" "ids (Some l) = list_ids l"
  by (simp_all add: ids_def)

lemma ids_null_if_empty: "ids (if l = [] then None else Some l) = list_ids l"
  by simp

lemma wf_ranges_simps [simp]: "wf_ranges None" "wf_ranges (Some l) = wf_from 0 l"
  by (simp_all add: wf_ranges_def)

lemma finite_list_ids [simp]: "finite (list_ids l)"
  by (simp add: list_ids_def range_ids_def)

lemma finite_ids [simp]: "finite (ids p)"
  by (simp add: ids_def)

lemma wf_from_append:
  "wf_from lo (xs @ ys) \<longleftrightarrow> wf_from lo xs \<and> wf_from (wf_end lo xs) ys"
  by (induction xs arbitrary: lo) auto

lemma wf_end_append [simp]: "wf_end lo (xs @ ys) = wf_end (wf_end lo xs) ys"
  by (induction xs arbitrary: lo) auto

lemma wf_from_mono: "wf_from lo l \<Longrightarrow> lo' \<le> lo \<Longrightarrow> wf_from lo' l"
  by (cases l) auto

lemma range_ids_bounds: "i \<in> range_ids r \<Longrightarrow> RN_min r \<le> i \<and> i \<le> RN_max r"
  by (auto simp: range_ids_def ap_def)

lemma wf_from_ids_ge: "wf_from lo l \<Longrightarrow> i \<in> list_ids l \<Longrightarrow> lo \<le> i"
proof (induction l arbitrary: lo)
  case Nil
  then show ?case by simp
next
  case (Cons r rs)
  from Cons.prems(2) consider "i \<in> range_ids r" | "i \<in> list_ids rs" by auto
  then show ?case
  proof cases
    case 1
    then show ?thesis using Cons.prems range_ids_bounds[of i r] by auto
  next
    case 2
    with Cons have "Suc (RN_max r) \<le> i" by auto
    then show ?thesis using Cons.prems by (auto simp: wf_range_def)
  qed
qed

lemma wf_from_ids_lt: "wf_from lo l \<Longrightarrow> i \<in> list_ids l \<Longrightarrow> i < id_limit"
  by (induction l arbitrary: lo) (auto simp: wf_range_def dest: range_ids_bounds)

lemma wf_from_elem: "wf_from lo l \<Longrightarrow> r \<in> set l \<Longrightarrow> wf_range r \<and> lo \<le> RN_min r"
proof (induction l arbitrary: lo)
  case (Cons a rs)
  then show ?case by (auto simp: wf_range_def dest!: Cons.IH)
qed simp

lemma wf_range_no_wrap: "wf_range r \<Longrightarrow> RN_max r + RN_step r < u32_mod"
proof -
  assume r: "wf_range r"
  have "RN_step r \<le> RN_max r \<or> RN_step r = 1"
    using r dvd_imp_le[of "RN_step r" "RN_max r - RN_min r"] by (auto simp: wf_range_def)
  then show ?thesis using r by (auto simp: wf_range_def)
qed

lemma wf_from_sorted: "wf_from lo l \<Longrightarrow> sorted (map RN_min l)"
proof (induction l arbitrary: lo)
  case (Cons r rs)
  then have "\<forall>x\<in>set rs. RN_min r \<le> RN_min x"
    by (auto simp: wf_range_def dest: wf_from_elem)
  with Cons show ?case by auto
qed simp

lemma lPSortList_wf [simp]: "wf_from lo l \<Longrightarrow> lPSortList l = l"
  by (simp add: lPSortList_def wf_from_sorted sort_key_id_if_sorted)

lemma range_set_all_ids_sel [simp]:
  "RN_min (range_set_all_ids r a b s) = a"
  "RN_max (range_set_all_ids r a b s) = b"
  "RN_step (range_set_all_ids r a b s) = (if a \<noteq> b then s else 1)"
  by (simp_all add: range_set_all_ids_def)

lemma range_ids_set [simp]: "range_ids (range_set_all_ids r a b s) = ap a b s"
  by (cases "a = b") (simp_all add: range_ids_def)

lemma wf_range_set:
  "wf_range (range_set_all_ids r a b s) \<longleftrightarrow> a \<le> b \<and> b < id_limit \<and> (a < b \<longrightarrow> 0 < s \<and> s dvd (b - a))"
  by (auto simp: wf_range_def)

lemma range_get_all_ids_simps [simp]:
  "range_get_all_ids None = (0, 0, 0)"
  "range_get_all_ids (Some r) = (RN_min r, RN_max r, RN_step r)"
  by (simp_all add: range_get_all_ids_def)


section \<open>Membership and counting\<close>

lemma range_is_id_within_correct:
  "wf_range r \<Longrightarrow> range_is_id_within (Some r) i = Some (i \<in> range_ids r)"
  by (auto simp: range_is_id_within_def range_ids_def ap_def wf_range_def u32_simps
      dvd_eq_mod_eq_0)

lemma within_loop_correct:
  "wf_from lo l \<Longrightarrow> range_list_within_loop l i = Some (i \<in> list_ids l)"
  by (induction l arbitrary: lo) (auto simp: range_is_id_within_correct)

lemma range_list_is_id_within_correct:
  "wf_ranges p \<Longrightarrow> range_list_is_id_within p i = Some (i \<in> ids p)"
  by (auto simp: range_list_is_id_within_def wf_ranges_def ids_def intro: within_loop_correct)

lemma range_get_number_of_ids_correct:
  assumes "wf_range r"
  shows "range_get_number_of_ids r = Some (card (range_ids r))"
proof -
  have "1 + (RN_max r - RN_min r) div RN_step r < u32_mod"
    using assms div_le_dividend[of "RN_max r - RN_min r" "RN_step r"] unfolding wf_range_def
    by linarith
  with assms show ?thesis
    by (simp add: range_get_number_of_ids_def range_ids_def card_ap wf_range_def u32_simps)
qed

lemma list_ids_disjoint: "wf_from lo (r # rs) \<Longrightarrow> range_ids r \<inter> list_ids rs = {}"
  using wf_from_ids_ge[of "Suc (RN_max r)" rs] range_ids_bounds[of _ r] by fastforce

lemma card_list_ids_le: "wf_from lo l \<Longrightarrow> card (list_ids l) \<le> id_limit"
proof -
  assume "wf_from lo l"
  then have "list_ids l \<subseteq> {..<id_limit}" using wf_from_ids_lt by blast
  then show ?thesis using card_mono[of "{..<id_limit}" "list_ids l"] by simp
qed

lemma number_of_ids_loop:
  assumes "wf_from lo l" "n + card (list_ids l) < u32_mod"
  shows "foldo (\<lambda>r ret. do { n \<leftarrow> range_get_number_of_ids r; Some (add32 ret n) }) l n
         = Some (n + card (list_ids l))"
  using assms
proof (induction l arbitrary: lo n)
  case Nil
  then show ?case by simp
next
  case (Cons r rs)
  have card: "card (list_ids (r # rs)) = card (range_ids r) + card (list_ids rs)"
    using list_ids_disjoint[OF Cons.prems(1)] by (simp add: card_Un_disjoint range_ids_def)
  have "foldo (\<lambda>r ret. do { n \<leftarrow> range_get_number_of_ids r; Some (add32 ret n) }) rs
          (n + card (range_ids r)) = Some (n + card (range_ids r) + card (list_ids rs))"
    using Cons.IH[of "Suc (RN_max r)" "n + card (range_ids r)"] Cons.prems card by simp
  then show ?case
    using Cons.prems card by (simp add: range_get_number_of_ids_correct u32_simps)
qed

lemma range_list_get_number_of_ids_correct:
  "wf_ranges p \<Longrightarrow> range_list_get_number_of_ids p = Some (card (ids p))"
  using number_of_ids_loop[of 0 "elems p" 0] card_list_ids_le[of 0 "elems p"]
  by (simp add: range_list_get_number_of_ids_def wf_ranges_def ids_def)

lemma range_ids_nonempty: "wf_range r \<Longrightarrow> RN_min r \<in> range_ids r \<and> RN_max r \<in> range_ids r"
  by (auto simp: wf_range_def range_ids_def ap_def)

lemma range_list_is_empty_correct:
  "wf_ranges p \<Longrightarrow> range_list_is_empty p = Some (ids p = {})"
  by (simp add: range_list_is_empty_def range_list_get_number_of_ids_correct)

lemma list_ids_empty_iff: "wf_from lo l \<Longrightarrow> list_ids l = {} \<longleftrightarrow> l = []"
  by (cases l) (auto dest: range_ids_nonempty)

text \<open>The first id is the least one and the last id the greatest.\<close>

lemma range_list_get_first_id_correct:
  assumes "wf_ranges p" "ids p \<noteq> {}"
  shows "fst (range_list_get_first_id p al) = Min (ids p)"
proof -
  obtain r rs where p: "elems p = r # rs"
    using assms by (cases "elems p") (auto simp: ids_def)
  have wf: "wf_from 0 (r # rs)" using assms p by (simp add: wf_ranges_def)
  have "RN_min r \<le> i" if "i \<in> ids p" for i
    using that wf wf_from_ids_ge[of "Suc (RN_max r)" rs i] range_ids_bounds[of i r]
    by (auto simp: ids_def p wf_range_def)
  moreover have "RN_min r \<in> ids p"
    using wf range_ids_nonempty by (auto simp: ids_def p)
  ultimately have "Min (ids p) = RN_min r" by (intro Min_eqI) auto
  then show ?thesis by (simp add: range_list_get_first_id_def p)
qed

lemma wf_from_last_ge: "wf_from lo (rs @ [r]) \<Longrightarrow> i \<in> list_ids (rs @ [r]) \<Longrightarrow> i \<le> RN_max r"
proof (induction rs arbitrary: lo)
  case Nil
  then show ?case by (auto dest: range_ids_bounds)
next
  case (Cons a rs)
  then have "Suc (RN_max a) \<le> RN_max r"
    using wf_from_elem[of "Suc (RN_max a)" "rs @ [r]" r] by (auto simp: wf_range_def)
  with Cons show ?case by (auto dest: range_ids_bounds)
qed

lemma range_list_get_last_id_correct:
  assumes "wf_ranges p" "ids p \<noteq> {}"
  shows "fst (range_list_get_last_id p al) = Max (ids p)"
proof -
  obtain rs r where p: "elems p = rs @ [r]"
    using assms by (cases "elems p" rule: rev_cases) (auto simp: ids_def)
  have wf: "wf_from 0 (rs @ [r])" using assms p by (simp add: wf_ranges_def)
  have "i \<le> RN_max r" if "i \<in> ids p" for i
    using that wf_from_last_ge[OF wf] by (simp add: ids_def p)
  moreover have "RN_max r \<in> ids p"
    using wf range_ids_nonempty by (auto simp: ids_def p wf_from_append)
  ultimately have "Max (ids p) = RN_max r" by (intro Max_eqI) auto
  then show ?thesis by (simp add: range_list_get_last_id_def p)
qed

section \<open>Walking over the ids\<close>

lemma id_loop_correct:
  assumes "0 < s" "b + s < u32_mod"
  shows "\<exists>xs. id_loop a b s = Some xs \<and> set xs = ap a b s \<and> sorted_wrt (<) xs"
proof (induction "b + s - a" arbitrary: a rule: less_induct)
  case less
  show ?case
  proof (cases "a \<le> b")
    case True
    then have add: "add32 a s = a + s" using assms by (simp add: u32_simps)
    obtain xs where xs: "id_loop (a + s) b s = Some xs" "set xs = ap (a + s) b s" "sorted_wrt (<) xs"
      using less.hyps[of "a + s"] True assms by fastforce
    have "ap a b s = {a} \<union> ap (a + s) b s"
      using ap_split[of s a a b] True assms by simp
    moreover have "\<forall>i\<in>ap (a + s) b s. a < i" using assms by (auto simp: ap_def)
    ultimately show ?thesis
      using True xs add by (subst id_loop.simps) auto
  next
    case False
    then show ?thesis by (subst id_loop.simps) simp
  qed
qed

lemma range_id_loop_correct:
  assumes "wf_range r"
  obtains xs where "range_id_loop r = Some xs" "set xs = range_ids r" "sorted_wrt (<) xs"
  using id_loop_correct[of "RN_step r" "RN_max r" "RN_min r"] wf_range_no_wrap[OF assms] assms
  by (auto simp: range_id_loop_def range_ids_def wf_range_def)

text \<open>A loop that runs one operation on every id of every range of a list.\<close>

lemma nested_id_loop:
  assumes wf: "\<And>r. r \<in> set l \<Longrightarrow> wf_range r"
    and inv: "I {} p"
    and step: "\<And>A i p. i \<in> list_ids l \<Longrightarrow> I A p \<Longrightarrow> \<exists>p'. f i p = Some p' \<and> I (insert i A) p'"
  shows "\<exists>p'. foldo (\<lambda>r p. do { xs \<leftarrow> range_id_loop r; foldo f xs p }) l p = Some p' \<and> I (list_ids l) p'"
proof (rule foldo_invariant[where I = "\<lambda>prev p. I (list_ids prev) p"])
  show "I (list_ids []) p" using inv by simp
next
  fix prev r p assume r: "r \<in> set l" and I: "I (list_ids prev) p"
  obtain xs where xs: "range_id_loop r = Some xs" "set xs = range_ids r"
    using range_id_loop_correct[OF wf[OF r]] .
  have "\<exists>p'. foldo f xs p = Some p' \<and> I (list_ids prev \<union> set xs) p'"
  proof (rule foldo_invariant[where I = "\<lambda>ys p. I (list_ids prev \<union> set ys) p"])
    show "I (list_ids prev \<union> set []) p" using I by simp
  next
    fix ys i q assume "i \<in> set xs" "I (list_ids prev \<union> set ys) q"
    moreover have "i \<in> list_ids l" using \<open>i \<in> set xs\<close> xs r by (auto simp: list_ids_def)
    ultimately show "\<exists>s'. f i q = Some s' \<and> I (list_ids prev \<union> set (ys @ [i])) s'"
      using step[of i "list_ids prev \<union> set ys" q] by (simp only: set_append set_simps Un_insert_right Un_empty_right)
  qed
  then show "\<exists>s'. (do { xs \<leftarrow> range_id_loop r; foldo f xs p }) = Some s' \<and> I (list_ids (prev @ [r])) s'"
    using xs by simp
qed


section \<open>Compressing\<close>

lemma dvd_chain:
  fixes a b c s :: nat
  assumes "a \<le> b" "s dvd (b - a)" "s dvd (c - (b + s))" "b + s \<le> c"
  shows "s dvd (c - a)"
proof -
  have "c - a = (b - a) + s + (c - (b + s))" using assms by simp
  then show ?thesis using assms by (metis dvd_add dvd_refl)
qed

text \<open>Two neighbours on one grid join to one range with the same ids.\<close>

lemma join_ranges:
  assumes "wf_range r1" "wf_range r2" "0 < s"
    and "range_ids r1 = ap (RN_min r1) (RN_max r1) s" "range_ids r2 = ap (RN_min r2) (RN_max r2) s"
    and "RN_min r2 = RN_max r1 + s"
    and "s dvd (RN_max r1 - RN_min r1)" "s dvd (RN_max r2 - RN_min r2)"
  shows "wf_range (range_set_all_ids r (RN_min r1) (RN_max r2) s)
    \<and> ap (RN_min r1) (RN_max r2) s = range_ids r1 \<union> range_ids r2"
proof
  show "wf_range (range_set_all_ids r (RN_min r1) (RN_max r2) s)"
    using assms dvd_chain[of "RN_min r1" "RN_max r1" s "RN_max r2"]
    by (auto simp: wf_range_set wf_range_def)
  show "ap (RN_min r1) (RN_max r2) s = range_ids r1 \<union> range_ids r2"
    using assms ap_split[of s "RN_min r1" "RN_max r1" "RN_max r2"] by (auto simp: wf_range_def)
qed

lemma sub32_below:
  assumes "a = sub32 b s" "a < b" "b < id_limit" "s < id_limit"
  shows "b = a + s"
proof -
  have "s \<le> b"
  proof (rule ccontr)
    assume "\<not> s \<le> b"
    then have "sub32 b s = b + u32_mod - s" using assms by (simp add: sub32_wraps)
    then show False using assms by linarith
  qed
  then show ?thesis using assms by (simp add: u32_simps)
qed

lemma wf_range_step_lt: "wf_range r \<Longrightarrow> RN_step r < id_limit"
  using dvd_imp_le[of "RN_step r" "RN_max r - RN_min r"] by (auto simp: wf_range_def)

lemma join_sequenced_correct:
  assumes wf: "wf_range r1" "wf_range r2" "RN_max r1 < RN_min r2"
    and join: "join_sequenced r1 r2 = Some r"
  shows "wf_range r \<and> RN_min r = RN_min r1 \<and> RN_max r = RN_max r2
    \<and> range_ids r = range_ids r1 \<union> range_ids r2"
proof -
  have lim: "RN_min r2 \<le> RN_max r2" "RN_max r2 < id_limit" using wf by (auto simp: wf_range_def)
  have add: "add32 (RN_max r1) (RN_step r1) = RN_max r1 + RN_step r1"
    using wf_range_no_wrap[OF wf(1)] by (simp add: u32_simps)
  have *: ?thesis
    if s: "0 < s" "RN_min r2 = RN_max r1 + s"
      and on1: "RN_min r1 = RN_max r1 \<or> s = RN_step r1" and on2: "RN_min r2 = RN_max r2 \<or> s = RN_step r2"
      and r: "r = range_set_all_ids r1 (RN_min r1) (RN_max r2) s" for s
  proof -
    have "range_ids r1 = ap (RN_min r1) (RN_max r1) s" "s dvd (RN_max r1 - RN_min r1)"
      using on1 wf(1) by (auto simp: range_ids_def wf_range_def)
    moreover have "range_ids r2 = ap (RN_min r2) (RN_max r2) s" "s dvd (RN_max r2 - RN_min r2)"
      using on2 wf(2) by (auto simp: range_ids_def wf_range_def)
    ultimately show ?thesis
      using join_ranges[OF wf(1,2) s(1) _ _ s(2), of r1] by (simp add: r)
  qed
  from join consider
      "RN_max r1 + RN_step r1 = RN_min r2" "RN_step r1 = RN_step r2"
      "r = range_set_all_ids r1 (RN_min r1) (RN_max r2) (RN_step r2)"
    | "RN_min r1 = RN_max r1" "RN_max r1 = sub32 (RN_min r2) (RN_step r2)"
      "r = range_set_all_ids r1 (RN_min r1) (RN_max r2) (RN_step r2)"
    | "RN_min r2 = RN_max r2" "RN_max r1 + RN_step r1 = RN_max r2"
      "r = range_set_all_ids r1 (RN_min r1) (RN_max r2) (RN_step r1)"
    | "RN_min r1 = RN_max r1" "RN_min r2 = RN_max r2"
      "r = range_set_all_ids r1 (RN_min r1) (RN_min r2) (sub32 (RN_min r2) (RN_min r1))"
    unfolding join_sequenced_def by (auto simp: add split: if_splits)
  then show ?thesis
  proof cases
    case 1
    then show ?thesis using *[of "RN_step r2"] wf by (auto simp: wf_range_def)
  next
    case 2
    have "RN_min r2 = RN_max r1 + RN_step r2"
      using sub32_below[OF 2(2) wf(3)] lim wf_range_step_lt[OF wf(2)] by simp
    then show ?thesis using *[of "RN_step r2"] 2(1,3) wf(2) by (auto simp: wf_range_def)
  next
    case 3
    then show ?thesis using *[of "RN_step r1"] wf by (auto simp: wf_range_def)
  next
    case 4
    have "sub32 (RN_min r2) (RN_min r1) = RN_min r2 - RN_min r1"
      using 4(1) wf(3) lim by (simp add: u32_simps)
    then show ?thesis using *[of "RN_min r2 - RN_min r1"] 4 wf by (auto simp: wf_range_def)
  qed
qed

lemma compress_loop_correct:
  "wf_from lo l \<Longrightarrow> wf_from lo (compress_loop l) \<and> list_ids (compress_loop l) = list_ids l"
proof (induction l arbitrary: lo rule: compress_loop.induct)
  case (3 r1 r2 rs)
  show ?case
  proof (cases "join_sequenced r1 r2")
    case None
    then show ?thesis using 3 by auto
  next
    case (Some r)
    have "wf_range r \<and> RN_min r = RN_min r1 \<and> RN_max r = RN_max r2
        \<and> range_ids r = range_ids r1 \<union> range_ids r2"
      using join_sequenced_correct[OF _ _ _ Some] "3.prems" by simp
    then show ?thesis using "3.IH"(2)[OF Some, of lo] "3.prems" Some by (simp add: Un_assoc)
  qed
qed auto

lemma range_list_compress_correct:
  "wf_ranges p \<Longrightarrow> wf_ranges (range_list_compress p) \<and> ids (range_list_compress p) = ids p"
  by (cases p) (simp_all add: range_list_compress_def compress_loop_correct)

lemma length_compress_loop: "length (compress_loop l) \<le> length l"
  by (induction l rule: compress_loop.induct) (auto split: option.splits)

section \<open>Removing an id\<close>

lemma remove_inner:
  assumes wf: "wf_range r" and i: "i \<in> range_ids r" "RN_min r < i" "i < RN_max r"
  shows "range_ids r - {i} = ap (RN_min r) (i - RN_step r) (RN_step r) \<union> ap (i + RN_step r) (RN_max r) (RN_step r)"
    and "RN_min r \<le> i - RN_step r" "RN_step r dvd (i - RN_step r - RN_min r)" "RN_step r \<le> i"
    and "i + RN_step r \<le> RN_max r" "RN_step r dvd (RN_max r - (i + RN_step r))"
proof -
  let ?a = "RN_min r" and ?b = "RN_max r" and ?s = "RN_step r"
  have s: "0 < ?s" using wf by (simp add: wf_range_def)
  obtain k where k: "i = ?a + ?s * k"
    using i dvd_diffE[of ?a i ?s] by (auto simp: range_ids_def ap_def)
  obtain m where m: "?b = ?a + ?s * m"
    using wf dvd_diffE[of ?a ?b ?s] by (auto simp: wf_range_def)
  obtain k' where k': "k = Suc k'" using i k by (cases k) auto
  obtain d where d: "m = Suc (k + d)"
    using i k m s less_iff_Suc_add[of k m] by (metis add_less_cancel_left nat_mult_less_cancel_disj)
  show 1: "?a \<le> i - ?s" "?s dvd (i - ?s - ?a)" "?s \<le> i"
    by (simp_all add: k k' algebra_simps)
  show 2: "i + ?s \<le> ?b" "?s dvd (?b - (i + ?s))"
    by (simp_all add: k m d algebra_simps)
  have "range_ids r = ap ?a (i - ?s) ?s \<union> ap i ?b ?s"
    using ap_split[of ?s ?a "i - ?s" ?b] 1 i(3) s by (simp add: range_ids_def)
  also have "ap i ?b ?s = {i} \<union> ap (i + ?s) ?b ?s"
    using ap_split[of ?s i i ?b] i(3) s by simp
  finally show "range_ids r - {i} = ap ?a (i - ?s) ?s \<union> ap (i + ?s) ?b ?s"
    using s ap_bounds[of i ?a "i - ?s" ?s] ap_bounds[of i "i + ?s" ?b ?s] i(2) by auto
qed


lemma wf_range_step_le:
  assumes "wf_range r" "RN_min r < RN_max r"
  shows "RN_min r + RN_step r \<le> RN_max r" "RN_step r dvd (RN_max r - (RN_min r + RN_step r))"
    "RN_step r dvd (RN_max r - RN_step r - RN_min r)"
proof -
  show le: "RN_min r + RN_step r \<le> RN_max r"
    using assms dvd_imp_le[of "RN_step r" "RN_max r - RN_min r"] by (auto simp: wf_range_def)
  then show "RN_step r dvd (RN_max r - (RN_min r + RN_step r))"
      "RN_step r dvd (RN_max r - RN_step r - RN_min r)"
    using assms dvd_diff_nat[of "RN_step r" "RN_max r - RN_min r" "RN_step r"]
    by (auto simp: wf_range_def add.commute)
qed

lemma remove_first:
  assumes "wf_range r" "RN_min r < RN_max r"
  shows "range_ids r - {RN_min r} = ap (RN_min r + RN_step r) (RN_max r) (RN_step r)"
  using ap_split[of "RN_step r" "RN_min r" "RN_min r" "RN_max r"] assms
  by (auto simp: range_ids_def wf_range_def dest: ap_bounds)

lemma remove_last:
  assumes "wf_range r" "RN_min r < RN_max r"
  shows "range_ids r - {RN_max r} = ap (RN_min r) (RN_max r - RN_step r) (RN_step r)"
proof -
  have le: "RN_min r + RN_step r \<le> RN_max r" "0 < RN_step r"
    using wf_range_step_le[OF assms] assms(1) by (auto simp: wf_range_def)
  have "range_ids r = ap (RN_min r) (RN_max r - RN_step r) (RN_step r) \<union> {RN_max r}"
    using ap_split[of "RN_step r" "RN_min r" "RN_max r - RN_step r" "RN_max r"]
      wf_range_step_le[OF assms] le by (simp add: range_ids_def)
  then show ?thesis
    using le ap_bounds[of "RN_max r" "RN_min r" "RN_max r - RN_step r" "RN_step r"] by auto
qed

text \<open>What the loop body leaves of the range that holds the id.\<close>

lemma remove_id_from_correct:
  assumes r: "wf_range r" and i: "i \<in> range_ids r"
  shows "list_ids (remove_id_from i r) = range_ids r - {i}
    \<and> wf_from (RN_min r) (remove_id_from i r)
    \<and> wf_end (RN_min r) (remove_id_from i r) \<le> Suc (RN_max r)"
proof -
  let ?a = "RN_min r" and ?b = "RN_max r" and ?s = "RN_step r"
  have b: "?a \<le> i" "i \<le> ?b" "?s dvd (i - ?a)" "0 < ?s" "?b < id_limit" "?s < id_limit"
    using i r wf_range_step_lt by (auto simp: range_ids_def ap_def wf_range_def)
  have add: "add32 i ?s = i + ?s" using b by (simp add: u32_simps)
  consider "?a = ?b" "i = ?a" | "?a < ?b" "i = ?a" | "?a < ?b" "i = ?b" | "?a < i" "i < ?b"
    using b by linarith
  then show ?thesis
  proof cases
    case 1
    then show ?thesis by (simp add: remove_id_from_def range_ids_def)
  next
    case 2
    then show ?thesis
      using add b wf_range_step_le[OF r 2(1)] remove_first[OF r 2(1)]
      by (simp add: remove_id_from_def wf_range_set)
  next
    case 3
    have le: "?a + ?s \<le> ?b" "?s dvd (?b - ?s - ?a)" using wf_range_step_le[OF r 3(1)] by auto
    have "sub32 ?b ?s = ?b - ?s" using b le by (simp add: u32_simps)
    moreover have "?a \<le> ?b - ?s" "?b - ?s < id_limit" using b le by auto
    ultimately show ?thesis
      using 3 b le remove_last[OF r 3(1)] by (simp add: remove_id_from_def wf_range_set)
  next
    case 4
    note inner = remove_inner[OF r i 4]
    have "sub32 i ?s = i - ?s" using b inner by (simp add: u32_simps)
    moreover have "i - ?s < id_limit" "Suc (i - ?s) \<le> i + ?s" using b by linarith+
    ultimately show ?thesis
      using 4 b add inner by (simp add: remove_id_from_def wf_range_set)
  qed
qed

lemma remove_id_loop_correct:
  assumes "wf_from lo l"
  obtains l' where "remove_id_loop i l = Some l'" "wf_from lo l'" "list_ids l' = list_ids l - {i}"
  using assms
proof (induction l arbitrary: lo thesis)
  case Nil
  then show ?case by simp
next
  case (Cons r rs)
  then have r: "wf_range r" "lo \<le> RN_min r" "wf_from (Suc (RN_max r)) rs" by auto
  show ?case
  proof (cases "i \<in> range_ids r")
    case True
    note c = remove_id_from_correct[OF r(1) True]
    have "i \<notin> list_ids rs" using list_ids_disjoint[OF Cons.prems(2)] True by auto
    then have "list_ids (remove_id_from i r @ rs) = list_ids (r # rs) - {i}" using c by auto
    moreover have "wf_from (RN_min r) (remove_id_from i r @ rs)"
      using c r(3) by (auto simp: wf_from_append intro: wf_from_mono)
    ultimately show ?thesis
      using Cons.prems(1) True r wf_from_mono by (simp add: range_is_id_within_correct)
  next
    case False
    obtain rs' where rs': "remove_id_loop i rs = Some rs'" "wf_from (Suc (RN_max r)) rs'"
        "list_ids rs' = list_ids rs - {i}"
      using Cons.IH[OF _ r(3)] .
    then show ?thesis
      using Cons.prems(1)[of "r # rs'"] r False by (auto simp: range_is_id_within_correct)
  qed
qed

lemma range_list_remove_id_correct:
  assumes "wf_ranges p"
  obtains p' where "range_list_remove_id i p = Some p'" "ids p' = ids p - {i}" "wf_ranges p'"
    "p' \<noteq> Some []"
proof (cases p)
  case None
  then show ?thesis using that[of None] by (simp add: range_list_remove_id_def)
next
  case (Some l)
  then have "wf_from 0 l" using assms by simp
  then obtain l' where l': "remove_id_loop i l = Some l'" "wf_from 0 l'" "list_ids l' = list_ids l - {i}"
    by (rule remove_id_loop_correct)
  have "range_list_remove_id i p = Some (if l' = [] then None else Some l')"
    using Some l'(1) by (simp add: range_list_remove_id_def)
  moreover have "ids (if l' = [] then None else Some l') = ids p - {i}"
    by (simp only: ids_null_if_empty l'(3) Some ids_simps)
  moreover have "wf_ranges (if l' = [] then None else Some l')" using l'(2) by simp
  ultimately show ?thesis by (rule that) simp
qed

section \<open>Inserting an id\<close>

lemma split_off_grid:
  assumes wf: "wf_range n" and i: "RN_min n < i" "i < RN_max n" and off: "\<not> RN_step n dvd (i - RN_min n)"
    and f: "factor = (i - RN_min n) div RN_step n"
    and p: "prev_id = RN_min n + factor * RN_step n"
    and q: "next_id = RN_min n + Suc factor * RN_step n"
  shows "range_ids n = ap (RN_min n) prev_id (RN_step n) \<union> ap next_id (RN_max n) (RN_step n)"
    and "RN_min n \<le> prev_id" "prev_id < i" "i < next_id" "next_id \<le> RN_max n"
    and "RN_step n dvd (prev_id - RN_min n)" "RN_step n dvd (RN_max n - next_id)"
proof -
  let ?a = "RN_min n" and ?b = "RN_max n" and ?s = "RN_step n"
  have s: "0 < ?s" using wf by (simp add: wf_range_def)
  have m: "0 < (i - ?a) mod ?s" using off by (simp add: dvd_eq_mod_eq_0)
  have eq: "i - ?a = factor * ?s + (i - ?a) mod ?s" by (simp add: f)
  have lt: "(i - ?a) mod ?s < ?s" using s by simp
  show 1: "?a \<le> prev_id" "prev_id < i" "?s dvd (prev_id - ?a)" using p eq m i by auto
  show 2: "i < next_id" using q eq lt i by simp
  obtain k where k: "?b = ?a + ?s * k"
    using wf dvd_diffE[of ?a ?b ?s] by (auto simp: wf_range_def)
  have "factor * ?s < ?s * k" using 1 p k i by linarith
  then have "factor < k" by (simp add: mult.commute)
  then obtain d where "k = Suc (factor + d)" using less_iff_Suc_add[of factor k] by auto
  then have b: "?b = next_id + ?s * d" by (simp add: k q algebra_simps)
  then show 3: "next_id \<le> ?b" "?s dvd (?b - next_id)" by auto
  have "next_id = prev_id + ?s" by (simp add: p q)
  then show "range_ids n = ap ?a prev_id ?s \<union> ap next_id ?b ?s"
    using ap_split[OF s 1(1) _ 1(3), of ?b] 3 2 1 by (simp add: range_ids_def)
qed

lemma insert_split_correct:
  assumes wf: "wf_from lo (n # rest)" and i: "RN_min n < i" "i < RN_max n"
    and off: "\<not> RN_step n dvd (i - RN_min n)"
  defines "factor \<equiv> (i - RN_min n) div RN_step n"
  defines "prev_id \<equiv> add32 (RN_min n) (mul32 factor (RN_step n))"
  defines "next_id \<equiv> add32 (RN_min n) (mul32 (add32 factor 1) (RN_step n))"
  shows "wf_from lo (range_set_all_ids n (RN_min n) prev_id (RN_step n) #
           range_set_all_ids lCreateElem_RN i i 1 #
           range_set_all_ids lCreateElem_RN next_id (RN_max n) (RN_step n) # rest) \<and>
    ap (RN_min n) prev_id (RN_step n) \<union> ap next_id (RN_max n) (RN_step n) = range_ids n"
proof -
  have n: "wf_range n" "RN_max n < id_limit" "0 < RN_step n"
    using wf by (auto simp: wf_range_def)
  note sp = split_off_grid[OF n(1) i off factor_def[THEN meta_eq_to_obj_eq] refl refl]
  have lims: "RN_min n + factor * RN_step n < id_limit" "RN_min n + Suc factor * RN_step n < id_limit"
    using sp(3,5) i n by auto
  have "factor < id_limit"
    using div_le_dividend[of "i - RN_min n" "RN_step n"] i n unfolding factor_def by linarith
  then have p: "prev_id = RN_min n + factor * RN_step n" "next_id = RN_min n + Suc factor * RN_step n"
    using lims by (auto simp: prev_id_def next_id_def u32_simps)
  show ?thesis
    using sp wf n i unfolding p[symmetric] by (auto simp: wf_range_set)
qed

text \<open>
  The cases of the placement. In front of \<open>after\<close>, whose first range ends behind the id:
  inside that range, at its start, one step before it, or in the gap.
\<close>

lemma insert_inside:
  assumes wf: "wf_from lo (n # rest)" and i: "RN_min n < i" "i < RN_max n"
  obtains X where "insert_id_at i rng (n # rest) = Some ((case rng of None \<Rightarrow> [] | Some r \<Rightarrow> [r]) @ X)"
    "wf_from lo X" "list_ids X = insert i (list_ids (n # rest))"
proof -
  have n: "wf_range n" "0 < RN_step n" "RN_max n < id_limit" using wf by (auto simp: wf_range_def)
  have sub: "sub32 i (RN_min n) = i - RN_min n" using i n by (simp add: u32_simps)
  have at: "insert_id_at i rng (n # rest) =
     (if RN_step n dvd (i - RN_min n) then Some ((case rng of None \<Rightarrow> [] | Some r \<Rightarrow> [r]) @ n # rest)
      else let factor = (i - RN_min n) div RN_step n in
        Some ((case rng of None \<Rightarrow> [] | Some r \<Rightarrow> [r]) @
          range_set_all_ids n (RN_min n) (add32 (RN_min n) (mul32 factor (RN_step n))) (RN_step n) #
          range_set_all_ids lCreateElem_RN i i 1 #
          range_set_all_ids lCreateElem_RN (add32 (RN_min n) (mul32 (add32 factor 1) (RN_step n)))
            (RN_max n) (RN_step n) # rest))"
    using i n by (simp add: insert_id_at_def sub u32_simps dvd_eq_mod_eq_0 Let_def split: prod.splits)
  show ?thesis
  proof (cases "RN_step n dvd (i - RN_min n)")
    case True
    then have "i \<in> range_ids n" using i by (auto simp: range_ids_def ap_def)
    then have "insert i (list_ids (n # rest)) = list_ids (n # rest)" by auto
    with that[of "n # rest"] True at wf show ?thesis by simp
  next
    case False
    note sp = insert_split_correct[OF wf i False]
    show ?thesis
      by (rule that, simp only: at Let_def if_not_P[OF False])
        (use sp in \<open>auto simp: insert_commute\<close>)
  qed
qed


lemma range_ids_extend_up:
  assumes "wf_range r" "i = RN_max r + RN_step r" "i < id_limit"
  shows "wf_range (range_set_all_ids r (RN_min r) i (RN_step r)) \<and>
    ap (RN_min r) i (RN_step r) = insert i (range_ids r)"
  using join_ranges[of r "range_set_all_ids r i i 1" "RN_step r" r] assms
  by (auto simp: wf_range_set wf_range_def range_ids_def)

lemma range_ids_extend_down:
  assumes "wf_range n" "RN_min n = i + RN_step n"
  shows "wf_range (range_set_all_ids n i (RN_max n) (RN_step n)) \<and>
    ap i (RN_max n) (RN_step n) = insert i (range_ids n)"
  using join_ranges[of "range_set_all_ids n i i 1" n "RN_step n" n] assms
  by (auto simp: wf_range_set wf_range_def range_ids_def)

lemma insert_after_range:
  assumes wf: "wf_from lo (r # after)" and i: "RN_max r < i" "i < id_limit"
    and gap: "\<And>n rest. after = n # rest \<Longrightarrow> i < RN_min n"
  obtains X where "insert_id_at i (Some r) after = Some X" "wf_from lo X"
    "list_ids X = insert i (list_ids (r # after))"
proof -
  have r: "wf_range r" "lo \<le> RN_min r" and after: "wf_from (Suc (RN_max r)) after" using wf by auto
  have add: "add32 (RN_max r) (RN_step r) = RN_max r + RN_step r"
    using wf_range_no_wrap[OF r(1)] by (simp add: u32_simps)
  have after_i: "wf_from (Suc i) after" using after gap by (cases after) auto
  show ?thesis
  proof (cases "RN_max r + RN_step r = i")
    case True
    have "insert_id_at i (Some r) after = Some (range_set_all_ids r (RN_min r) i (RN_step r) # after)"
      using i gap True add by (cases after) (auto simp: insert_id_at_def split: prod.splits)
    then show ?thesis
      by (rule that) (use range_ids_extend_up[OF r(1) True[symmetric] i(2)] r after_i in simp_all)
  next
    case False
    show ?thesis
    proof (cases after)
      case Nil
      have "insert_id_at i (Some r) after = Some (r # range_set_all_ids lCreateElem_RN i i 1 # after)"
        using i False add Nil by (simp add: insert_id_at_def)
      then show ?thesis by (rule that) (use r i Nil in \<open>auto simp: wf_range_set\<close>)
    next
      case (Cons n rest)
      have n: "wf_range n" "i < RN_min n" "RN_min n < id_limit" using after gap Cons by (auto simp: wf_range_def)
      show ?thesis
      proof (cases "sub32 (RN_min n) (RN_step n) = i")
        case True
        then have eq: "RN_min n = i + RN_step n"
          using sub32_below[of i "RN_min n" "RN_step n"] n wf_range_step_lt[OF n(1)] by auto
        have "insert_id_at i (Some r) after =
            Some (r # range_set_all_ids n i (RN_max n) (RN_step n) # rest)"
          using i n False True add Cons by (simp add: insert_id_at_def)
        then show ?thesis
          by (rule that) (use range_ids_extend_down[OF n(1) eq] r i Cons after in simp_all)
      next
        case no: False
        have "insert_id_at i (Some r) after = Some (r # range_set_all_ids lCreateElem_RN i i 1 # after)"
          using i n False no add Cons by (simp add: insert_id_at_def)
        then show ?thesis by (rule that) (use r i after_i in \<open>auto simp: wf_range_set\<close>)
      qed
    qed
  qed
qed

lemma insert_in_front:
  assumes wf: "wf_from lo (n # rest)" and i: "lo \<le> i" "i < RN_min n" "i < id_limit"
  obtains X where "insert_id_at i None (n # rest) = Some X" "wf_from lo X"
    "list_ids X = insert i (list_ids (n # rest))"
proof -
  have n: "wf_range n" "RN_min n < id_limit" using wf by (auto simp: wf_range_def)
  show ?thesis
  proof (cases "sub32 (RN_min n) (RN_step n) = i")
    case True
    then have eq: "RN_min n = i + RN_step n"
      using sub32_below[of i "RN_min n" "RN_step n"] n i wf_range_step_lt[OF n(1)] by auto
    have "insert_id_at i None (n # rest) = Some (range_set_all_ids n i (RN_max n) (RN_step n) # rest)"
      using i True by (simp add: insert_id_at_def)
    then show ?thesis
      by (rule that) (use range_ids_extend_down[OF n(1) eq] i wf in simp_all)
  next
    case False
    have "insert_id_at i None (n # rest) = Some (range_set_all_ids lCreateElem_RN i i 1 # n # rest)"
      using i False by (simp add: insert_id_at_def)
    then show ?thesis by (rule that) (use wf i in \<open>auto simp: wf_range_set\<close>)
  qed
qed

text \<open>The id is already the end of the current or the start of the next range.\<close>

lemma insert_present:
  assumes "(\<exists>r. rng = Some r \<and> RN_max r = i \<and> wf_range r) \<or> (\<exists>n rest. after = n # rest \<and> RN_min n = i \<and> wf_range n)"
    and "\<And>n rest. after = n # rest \<Longrightarrow> i \<le> RN_min n"
    and cur: "cur = (case rng of None \<Rightarrow> [] | Some r \<Rightarrow> [r])"
  shows "insert_id_at i rng after = Some (cur @ after) \<and> i \<in> list_ids (cur @ after)"
proof -
  have "\<not> (after \<noteq> [] \<and> RN_min (hd after) < i)"
    using assms(2) by (cases after) auto
  then show ?thesis
    using assms(1) cur range_ids_nonempty
    by (cases rng; cases after) (auto simp: insert_id_at_def split: prod.splits)
qed

lemma insert_id_at_correct:
  assumes wf: "wf_from lo (cur @ after)" and cur: "cur = (case rng of None \<Rightarrow> [] | Some r \<Rightarrow> [r])"
    and le: "\<And>r. rng = Some r \<Longrightarrow> RN_max r \<le> i" and none: "rng = None \<Longrightarrow> after \<noteq> [] \<and> lo \<le> i"
    and lt: "\<And>n rest. after = n # rest \<Longrightarrow> i < RN_max n" and lim: "i < id_limit"
  obtains X where "insert_id_at i rng after = Some X" "wf_from lo X"
    "list_ids X = insert i (list_ids (cur @ after))"
proof (cases "\<exists>n rest. after = n # rest \<and> RN_min n < i")
  case True
  then obtain n rest where n: "after = n # rest" "RN_min n < i" by blast
  have "wf_from lo cur" "wf_from (wf_end lo cur) (n # rest)" using wf n by (auto simp: wf_from_append)
  then obtain X where "insert_id_at i rng after = Some (cur @ X)" "wf_from (wf_end lo cur) X"
      "list_ids X = insert i (list_ids (n # rest))"
    using insert_inside[OF _ n(2) lt[OF n(1)], of "wf_end lo cur" rest rng] n(1) cur by metis
  then show ?thesis using \<open>wf_from lo cur\<close> by (intro that[of "cur @ X"]) (simp_all add: wf_from_append n)
next
  case False
  then have out: "\<And>n rest. after = n # rest \<Longrightarrow> i \<le> RN_min n" by (metis leI)
  show ?thesis
  proof (cases "(\<exists>r. rng = Some r \<and> RN_max r = i) \<or> (\<exists>n rest. after = n # rest \<and> RN_min n = i)")
    case True
    have "(\<exists>r. rng = Some r \<and> RN_max r = i \<and> wf_range r) \<or> (\<exists>n rest. after = n # rest \<and> RN_min n = i \<and> wf_range n)"
      using True wf cur by (cases rng) auto
    from insert_present[OF this out cur] wf show ?thesis
      by (intro that[of "cur @ after"]) (simp_all add: insert_absorb)
  next
    case new: False
    have strict: "\<And>n rest. after = n # rest \<Longrightarrow> i < RN_min n" using out new le_neq_implies_less by blast
    show ?thesis
    proof (cases rng)
      case None
      then obtain n rest where n: "after = n # rest" using none by (cases after) auto
      obtain X where "insert_id_at i None (n # rest) = Some X" "wf_from lo X"
          "list_ids X = insert i (list_ids (n # rest))"
        using insert_in_front[of lo n rest i] wf cur None n none strict[OF n] lim by auto
      then show ?thesis using that n None cur by simp
    next
      case (Some r)
      then have "RN_max r < i" using le new le_neq_implies_less by blast
      then obtain X where "insert_id_at i (Some r) after = Some X" "wf_from lo X"
          "list_ids X = insert i (list_ids (r # after))"
        using insert_after_range[of lo r after i] wf cur Some strict lim by auto
      then show ?thesis using that Some cur by simp
    qed
  qed
qed


lemma insert_id_loop_correct:
  assumes "wf_from 0 (rev bs @ after)" "bs \<noteq> [] \<or> after = []" "i < id_limit"
    and "\<And>n rest. after = n # rest \<Longrightarrow> i < RN_max n"
  obtains X where "insert_id_loop i bs after = Some X" "wf_from 0 X"
    "list_ids X = insert i (list_ids (rev bs @ after))"
  using assms
proof (induction bs arbitrary: after thesis)
  case Nil
  then show ?case by (auto simp: wf_range_set)
next
  case (Cons r before)
  have wf: "wf_from 0 (rev before @ [r] @ after)" using Cons.prems(2) by simp
  show ?case
  proof (cases "i < RN_max r")
    case True
    show ?thesis
    proof (cases "before = []")
      case empty: True
      obtain X where "insert_id_at i None (r # after) = Some X" "wf_from 0 X"
          "list_ids X = insert i (list_ids ([] @ r # after))"
        using insert_id_at_correct[of 0 "[]" "r # after" None i] wf empty True Cons.prems(4) by auto
      then show ?thesis using Cons.prems(1) True empty by simp
    next
      case False
      have "wf_from 0 (rev before @ r # after)" "before \<noteq> [] \<or> r # after = []"
        using wf False by simp_all
      then obtain X where "insert_id_loop i before (r # after) = Some X" "wf_from 0 X"
          "list_ids X = insert i (list_ids (rev before @ r # after))"
        using Cons.IH[of "r # after"] Cons.prems(4) True by blast
      then show ?thesis using Cons.prems(1)[of X] True False by simp
    qed
  next
    case False
    define lo where "lo = wf_end 0 (rev before)"
    have wf': "wf_from 0 (rev before)" "wf_from lo ([r] @ after)"
      using wf by (auto simp: wf_from_append lo_def)
    obtain X where X: "insert_id_at i (Some r) after = Some X" "wf_from lo X"
        "list_ids X = insert i (list_ids ([r] @ after))"
      using insert_id_at_correct[OF wf'(2), of "Some r" i] False Cons.prems(4,5) by auto
    have "wf_from 0 (rev before @ X)" using wf' X by (simp add: wf_from_append lo_def)
    then show ?thesis
      using X False by (intro Cons.prems(1)[of "rev before @ X"]) (simp_all add: Un_assoc)
  qed
qed

lemma range_list_insert_id_correct:
  assumes "wf_ranges p" "i < id_limit"
  obtains l where "range_list_insert_id i p = Some (Some l)" "wf_from 0 l"
    "list_ids l = insert i (ids p)"
proof -
  have wf: "wf_from 0 (elems p)" using assms(1) by (simp add: wf_ranges_def)
  have "rev (elems p) \<noteq> [] \<or> [] = ([] :: range list)" by simp
  then obtain X where "insert_id_loop i (rev (elems p)) [] = Some X" "wf_from 0 X"
      "list_ids X = insert i (list_ids (elems p))"
    using insert_id_loop_correct[of "rev (elems p)" "[]" i] wf assms(2) by auto
  then show ?thesis
    using wf by (intro that) (simp_all add: range_list_insert_id_def ids_def)
qed

section \<open>Sorting and removing duplicates\<close>

text \<open>
  The ranges the sort function accepts: any step but no wrap-around. Their ids are those
  of the range with its end corrected.
\<close>

definition sane_range :: "range \<Rightarrow> bool" where
  "sane_range r \<longleftrightarrow> RN_min r \<le> RN_max r \<and> RN_max r < id_limit \<and> 0 < RN_step r"

lemma wf_sane: "wf_range r \<Longrightarrow> sane_range r"
  by (simp add: wf_range_def sane_range_def)

lemma range_correct_end_correct:
  assumes "sane_range r"
  shows "wf_range (range_correct_end r) \<and> range_ids (range_correct_end r) = range_ids r
    \<and> RN_min (range_correct_end r) = RN_min r \<and> RN_max (range_correct_end r) \<le> RN_max r"
proof -
  let ?a = "RN_min r" and ?b = "RN_max r" and ?s = "RN_step r"
  have s: "?a \<le> ?b" "?b < id_limit" "0 < ?s" using assms by (auto simp: sane_range_def)
  define f where "f = (?b - ?a) div ?s"
  have fs: "f * ?s \<le> ?b - ?a" by (simp add: f_def)
  then have e: "add32 ?a (mul32 f ?s) = ?a + f * ?s" using s by (simp add: u32_simps)
  have "ap ?a ?b ?s = ap ?a (?a + f * ?s) ?s \<union> ap (?a + f * ?s + ?s) ?b ?s"
    using s fs by (intro ap_split) auto
  moreover have "?b < ?a + f * ?s + ?s"
    using s mod_less_divisor[of ?s "?b - ?a"] div_mult_mod_eq[of "?b - ?a" ?s] unfolding f_def by linarith
  ultimately have ids: "ap ?a ?b ?s = ap ?a (?a + f * ?s) ?s" by simp
  have eq: "range_correct_end r =
      range_set_all_ids r ?a (if (?b - ?a) mod ?s \<noteq> 0 then ?a + f * ?s else ?b) ?s"
    using s e by (simp add: range_correct_end_def range_set_all_ids_def Let_def u32_simps f_def)
  show ?thesis
  proof (cases "(?b - ?a) mod ?s \<noteq> 0")
    case True
    then show ?thesis using s fs ids eq by (auto simp: wf_range_set range_ids_def)
  next
    case False
    then show ?thesis using s eq by (auto simp: wf_range_set range_ids_def dvd_eq_mod_eq_0)
  qed
qed

lemma range_correct_end_wf: "wf_range r \<Longrightarrow> range_correct_end r = r"
  by (auto simp: range_correct_end_def wf_range_def u32_simps dvd_eq_mod_eq_0 range_set_all_ids_def)


definition sane_list :: "range list \<Rightarrow> bool" where
  "sane_list l \<longleftrightarrow> (\<forall>r\<in>set l. sane_range r)"

lemma sane_list_simps [simp]:
  "sane_list []" "sane_list (r # rs) \<longleftrightarrow> sane_range r \<and> sane_list rs"
  by (auto simp: sane_list_def)

lemma wf_from_sane: "wf_from lo l \<Longrightarrow> sane_list l"
  by (auto simp: sane_list_def dest: wf_from_elem wf_sane)

lemma drop_overlapping_correct:
  assumes "sane_list rs" "sorted (map RN_min rs)" "drop_overlapping True r1 rs = (stay, tmp)"
  shows "list_ids stay \<union> list_ids tmp = list_ids rs" "\<forall>t\<in>set tmp. wf_range t"
    "sane_list stay" "sorted (map RN_min stay)"
    "stay \<noteq> [] \<longrightarrow> RN_max r1 < RN_min (hd stay)"
proof -
  have "list_ids stay \<union> list_ids tmp = list_ids rs \<and> (\<forall>t\<in>set tmp. wf_range t) \<and>
    sane_list stay \<and> sorted (map RN_min stay) \<and> (stay \<noteq> [] \<longrightarrow> RN_max r1 < RN_min (hd stay))"
    using assms
  proof (induction rs arbitrary: stay tmp)
    case Nil
    then show ?case by simp
  next
    case (Cons r2 rs)
    have c: "wf_range (range_correct_end r2)" "range_ids (range_correct_end r2) = range_ids r2"
        "RN_min (range_correct_end r2) = RN_min r2"
      using Cons.prems(1) range_correct_end_correct[of r2] by auto
    show ?case
    proof (cases "RN_max r1 \<ge> RN_min r2")
      case True
      obtain st tm where st: "drop_overlapping True r1 rs = (st, tm)" by fastforce
      then have eq: "stay = st" "tmp = range_correct_end r2 # tm"
        using Cons.prems(3) True c by (auto simp: range_is_overlapping_def)
      have "sane_list rs" "sorted (map RN_min rs)" using Cons.prems by auto
      from Cons.IH[OF this st] c eq show ?thesis by (auto simp: Un_left_commute)
    next
      case False
      then have "stay = range_correct_end r2 # rs" "tmp = []"
        using Cons.prems(3) c by (auto simp: range_is_overlapping_def)
      then show ?thesis using c Cons.prems(1,2) False by (simp add: wf_sane)
    qed
  qed
  then show "list_ids stay \<union> list_ids tmp = list_ids rs" "\<forall>t\<in>set tmp. wf_range t"
    "sane_list stay" "sorted (map RN_min stay)"
    "stay \<noteq> [] \<longrightarrow> RN_max r1 < RN_min (hd stay)" by blast+
qed

lemma split_overlapping_correct:
  assumes "sane_list l" "sorted (map RN_min l)" "l \<noteq> [] \<longrightarrow> lo \<le> RN_min (hd l)"
  shows "wf_from lo (fst (split_overlapping True l)) \<and>
    (\<forall>t\<in>set (snd (split_overlapping True l)). wf_range t) \<and>
    list_ids (fst (split_overlapping True l)) \<union> list_ids (snd (split_overlapping True l)) = list_ids l"
  using assms
proof (induction "length l" arbitrary: l lo rule: less_induct)
  case less
  show ?case
  proof (cases l)
    case Nil
    then show ?thesis by simp
  next
    case (Cons r1 rs)
    define r1' where "r1' = range_correct_end r1"
    obtain stay tmp where st: "drop_overlapping True r1' rs = (stay, tmp)" by fastforce
    obtain stay' tmp' where st': "split_overlapping True stay = (stay', tmp')" by fastforce
    have r1: "wf_range r1'" "range_ids r1' = range_ids r1" "RN_min r1' = RN_min r1"
      using less.prems(1) Cons range_correct_end_correct[of r1] by (auto simp: r1'_def)
    have rs: "sane_list rs" "sorted (map RN_min rs)" using less.prems Cons by auto
    note d = drop_overlapping_correct[OF rs st]
    have "length stay < length l"
      using length_drop_overlapping[of True r1' rs] st Cons by simp
    from less.hyps[OF this d(3,4), of "Suc (RN_max r1')"] d(5) st'
    have IH: "wf_from (Suc (RN_max r1')) stay'" "\<forall>t\<in>set tmp'. wf_range t"
        "list_ids stay' \<union> list_ids tmp' = list_ids stay" by (auto simp: Suc_le_eq)
    have eq: "split_overlapping True l = (r1' # stay', tmp @ tmp')"
      using st st' by (simp add: Cons r1'_def)
    have "list_ids (r1' # stay') \<union> list_ids (tmp @ tmp') = list_ids l"
      using IH(3) d(1) r1(2) by (auto simp: Cons)
    then show ?thesis using eq IH d(2) r1 less.prems(3) Cons by auto
  qed
qed

text \<open>Every id of a range is inserted in turn.\<close>

lemma insert_ranges_correct:
  assumes "\<And>r. r \<in> set l \<Longrightarrow> wf_range r" "wf_ranges (Some s)"
  obtains p' where "foldo range_list_insert_range l (Some s) = Some (Some p')" "wf_from 0 p'"
    "list_ids p' = list_ids s \<union> list_ids l"
proof -
  let ?I = "\<lambda>A p. \<exists>l'. p = Some l' \<and> wf_from 0 l' \<and> list_ids l' = list_ids s \<union> A"
  have "\<exists>p'. foldo (\<lambda>r p. do { xs \<leftarrow> range_id_loop r; foldo range_list_insert_id xs p }) l (Some s) = Some p'
      \<and> ?I (list_ids l) p'"
  proof (rule nested_id_loop)
    show "?I {} (Some s)" using assms(2) by simp
  next
    fix A i p assume i: "i \<in> list_ids l" and I: "?I A p"
    have "i < id_limit" using i assms(1) by (fastforce simp: list_ids_def wf_range_def dest: range_ids_bounds)
    moreover have "wf_ranges p" using I by auto
    ultimately obtain l' where "range_list_insert_id i p = Some (Some l')" "wf_from 0 l'"
        "list_ids l' = insert i (ids p)"
      using range_list_insert_id_correct by blast
    then show "\<exists>p'. range_list_insert_id i p = Some p' \<and> ?I (insert i A) p'" using I by auto
  qed (use assms in auto)
  then show ?thesis using that by (auto simp: range_list_insert_range_def[abs_def])
qed

lemma range_list_sort_uniq_compress_correct:
  assumes "sane_list (elems p)"
  obtains p' where "range_list_sort_uniq_compress True p = Some p'" "wf_ranges p'" "ids p' = ids p"
    "p' = None \<longleftrightarrow> p = None"
proof (cases p)
  case None
  then show ?thesis using that[of None] by (simp add: range_list_sort_uniq_compress_def)
next
  case (Some l)
  define s where "s = lPSortList l"
  have set_s: "set s = set l" by (simp add: s_def lPSortList_def)
  have s: "sane_list s" "sorted (map RN_min s)"
    using assms Some set_s by (auto simp: sane_list_def s_def lPSortList_def)
  obtain stay tmp where st: "split_overlapping True s = (stay, tmp)" by fastforce
  have d: "wf_from 0 stay" "\<forall>t\<in>set tmp. wf_range t" "list_ids stay \<union> list_ids tmp = list_ids s"
    using split_overlapping_correct[OF s, of 0] st by auto
  obtain q where q: "foldo range_list_insert_range tmp (Some stay) = Some (Some q)" "wf_from 0 q"
      "list_ids q = list_ids stay \<union> list_ids tmp"
    using insert_ranges_correct[of tmp stay] d by auto
  have "list_ids s = list_ids l" using set_s by (simp add: list_ids_def)
  then have "list_ids (compress_loop q) = list_ids l" "wf_from 0 (compress_loop q)"
    using compress_loop_correct[OF q(2)] q(3) d(3) by simp_all
  moreover have "range_list_sort_uniq_compress True p = Some (Some (compress_loop q))"
    using Some st q(1) by (simp add: range_list_sort_uniq_compress_def s_def range_list_compress_def)
  ultimately show ?thesis
    using that[of "Some (compress_loop q)"] by (simp add: Some)
qed

section \<open>Set operations\<close>

lemma range_list_calculate_union_set_correct:
  assumes "wf_ranges l1" "wf_ranges l2" "\<not> answer_list_has_error al"
  obtains p where "range_list_calculate_union_set None al l1 l2 = Some (p, al)" "wf_ranges p"
    "ids p = ids l1 \<union> ids l2"
proof (cases "l1 = None \<and> l2 = None")
  case True
  then show ?thesis using that[of None] by (simp add: range_list_calculate_union_set_def)
next
  case False
  define src where "src = (if l1 \<noteq> None then l1 else l2)"
  have "sane_list (elems src)" using assms by (auto simp: src_def wf_ranges_def intro: wf_from_sane)
  then obtain p where p: "range_list_sort_uniq_compress True src = Some p" "wf_ranges p" "ids p = ids src"
      "p = None \<longleftrightarrow> src = None"
    by (rule range_list_sort_uniq_compress_correct)
  show ?thesis
  proof (cases "l1 \<noteq> None \<and> l2 \<noteq> None")
    case both: True
    then obtain s where s: "p = Some s" using p(4) by (auto simp: src_def)
    have "\<And>r. r \<in> set (elems l2) \<Longrightarrow> wf_range r" using assms(2) wf_from_elem by (auto simp: wf_ranges_def)
    then obtain q where q: "foldo range_list_insert_range (elems l2) (Some s) = Some (Some q)"
        "wf_from 0 q" "list_ids q = list_ids s \<union> list_ids (elems l2)"
      using insert_ranges_correct[of "elems l2" s] p(2) s by auto
    have "range_list_calculate_union_set None al l1 l2 = Some (Some (compress_loop q), al)"
      using both p(1) q(1) s assms(3)
      by (auto simp: range_list_calculate_union_set_def src_def range_list_compress_def)
    then show ?thesis
      by (rule that) (use compress_loop_correct[OF q(2)] q(3) p(3) s both in \<open>simp_all add: src_def ids_def\<close>)
  next
    case one: False
    then have "range_list_calculate_union_set None al l1 l2 = Some (p, al)"
      using False p(1) assms(3) by (auto simp: range_list_calculate_union_set_def src_def)
    then show ?thesis by (rule that) (use one p in \<open>auto simp: src_def\<close>)
  qed
qed

lemma remove_ranges_correct:
  assumes "\<And>r. r \<in> set l \<Longrightarrow> wf_range r" "wf_ranges p"
  obtains p' where "foldo range_list_remove_range l p = Some p'" "wf_ranges p'" "ids p' = ids p - list_ids l"
proof -
  let ?I = "\<lambda>A q. wf_ranges q \<and> ids q = ids p - A"
  have "\<exists>p'. foldo (\<lambda>r p. do { xs \<leftarrow> range_id_loop r; foldo range_list_remove_id xs p }) l p = Some p'
      \<and> ?I (list_ids l) p'"
  proof (rule nested_id_loop)
    show "?I {} p" using assms(2) by simp
  next
    fix A i q assume I: "?I A q"
    then obtain q' where "range_list_remove_id i q = Some q'" "ids q' = ids q - {i}" "wf_ranges q'"
      using range_list_remove_id_correct by blast
    then show "\<exists>p'. range_list_remove_id i q = Some p' \<and> ?I (insert i A) p'" using I by auto
  qed (use assms in auto)
  then show ?thesis using that by (auto simp: range_list_remove_range_def[abs_def])
qed

lemma range_list_calculate_difference_set_correct:
  assumes "wf_ranges l1" "wf_ranges l2" "\<not> answer_list_has_error al"
  obtains p where "range_list_calculate_difference_set None al l1 l2 = Some (p, al)" "wf_ranges p"
    "ids p = ids l1 - ids l2"
proof (cases "l1 = None")
  case True
  then show ?thesis using that[of None] by (simp add: range_list_calculate_difference_set_def)
next
  case False
  have "sane_list (elems l1)" using assms by (auto simp: wf_ranges_def intro: wf_from_sane)
  then obtain p where p: "range_list_sort_uniq_compress True l1 = Some p" "wf_ranges p" "ids p = ids l1"
    by (rule range_list_sort_uniq_compress_correct)
  show ?thesis
  proof (cases "l2 = None")
    case True
    then have "range_list_calculate_difference_set None al l1 l2 = Some (p, al)"
      using False p(1) assms(3) by (auto simp: range_list_calculate_difference_set_def)
    then show ?thesis by (rule that) (use True p in auto)
  next
    case two: False
    have "\<And>r. r \<in> set (elems l2) \<Longrightarrow> wf_range r" using assms(2) wf_from_elem by (auto simp: wf_ranges_def)
    then obtain q where q: "foldo range_list_remove_range (elems l2) p = Some q" "wf_ranges q"
        "ids q = ids p - list_ids (elems l2)"
      using remove_ranges_correct[OF _ p(2)] by blast
    have "range_list_calculate_difference_set None al l1 l2 = Some (range_list_compress q, al)"
      using False two p(1) q(1) assms(3) by (auto simp: range_list_calculate_difference_set_def)
    then show ?thesis
      by (rule that) (use range_list_compress_correct[OF q(2)] q(3) p(3) in \<open>simp_all add: ids_def\<close>)
  qed
qed

text \<open>
  The intersection appends single ids in the order of the first list, which ascends: the
  result stays well formed without sorting.
\<close>

lemma wf_from_snoc:
  "wf_from 0 l \<Longrightarrow> (\<forall>x\<in>list_ids l. x < i) \<Longrightarrow> i < id_limit \<Longrightarrow>
    wf_from 0 (l @ [range_set_all_ids r i i 1])"
proof (cases l rule: rev_cases)
  case (snoc xs x)
  moreover assume "wf_from 0 l" "\<forall>x\<in>list_ids l. x < i" "i < id_limit"
  ultimately show ?thesis
    using range_ids_nonempty[of x] by (auto simp: wf_from_append wf_range_set Suc_le_eq)
qed (auto simp: wf_range_set)

lemma intersect_ids:
  assumes "wf_ranges l2" "sorted_wrt (<) xs" "\<forall>x\<in>set xs. x < id_limit"
    and "wf_ranges p" "\<forall>x\<in>ids p. \<forall>y\<in>set xs. x < y"
  obtains p' where "foldo (intersect_id l2) xs p = Some p'" "wf_ranges p'" "ids p' = ids p \<union> (set xs \<inter> ids l2)"
  using assms(2-)
proof (induction xs arbitrary: p thesis)
  case Nil
  then show ?case by simp
next
  case (Cons x xs)
  define q where "q = (if x \<in> ids l2 then Some (elems p @ [range_set_all_ids lCreateElem_RN x x 1]) else p)"
  have step: "intersect_id l2 x p = Some q"
    using assms(1) by (simp add: intersect_id_def range_list_is_id_within_correct q_def)
  have q: "ids q = ids p \<union> ({x} \<inter> ids l2)" by (auto simp: q_def ids_def)
  have wf: "wf_ranges q"
    using Cons.prems wf_from_snoc[of "elems p" x] by (auto simp: q_def wf_ranges_def ids_def)
  have lt: "\<forall>a\<in>ids q. \<forall>y\<in>set xs. a < y" using Cons.prems q by auto
  obtain p' where p': "foldo (intersect_id l2) xs q = Some p'" "wf_ranges p'" "ids p' = ids q \<union> (set xs \<inter> ids l2)"
    using Cons.IH[OF _ _ _ wf lt] Cons.prems(2,3) by auto
  show ?case
  proof (rule Cons.prems(1)[OF _ p'(2)])
    show "ids p' = ids p \<union> (set (x # xs) \<inter> ids l2)" using p'(3) q by auto
  qed (use p'(1) step in simp)
qed

lemma intersect_ranges:
  assumes "wf_ranges l2" "wf_from lo l" "wf_ranges p" "\<forall>x\<in>ids p. x < lo"
  obtains p' where "foldo (intersect_range l2) l p = Some p'" "wf_ranges p'"
    "ids p' = ids p \<union> (list_ids l \<inter> ids l2)"
  using assms(2-)
proof (induction l arbitrary: lo p thesis)
  case Nil
  then show ?case by simp
next
  case (Cons r rs)
  have r: "wf_range r" "lo \<le> RN_min r" "wf_from (Suc (RN_max r)) rs" using Cons.prems by auto
  obtain xs where xs: "range_id_loop r = Some xs" "set xs = range_ids r" "sorted_wrt (<) xs"
    using range_id_loop_correct[OF r(1)] .
  have "\<forall>x\<in>set xs. x < id_limit" using xs r by (auto simp: wf_range_def dest: range_ids_bounds)
  moreover have "\<forall>x\<in>ids p. \<forall>y\<in>set xs. x < y"
    using Cons.prems(4) xs r range_ids_bounds by (metis less_le_trans)
  ultimately obtain q where q': "foldo (intersect_id l2) xs p = Some q" "wf_ranges q"
      "ids q = ids p \<union> (set xs \<inter> ids l2)"
    using intersect_ids[OF assms(1) xs(3) _ Cons.prems(3)] by blast
  then have q: "intersect_range l2 r p = Some q" "ids q = ids p \<union> (range_ids r \<inter> ids l2)"
    using xs(1,2) by (auto simp: intersect_range_def)
  have "\<forall>x\<in>ids q. x < Suc (RN_max r)"
    using q(2) Cons.prems(4) r range_ids_bounds[of _ r] by (fastforce simp: wf_range_def)
  then obtain p' where p': "foldo (intersect_range l2) rs q = Some p'" "wf_ranges p'"
      "ids p' = ids q \<union> (list_ids rs \<inter> ids l2)"
    using Cons.IH[OF _ r(3) q'(2)] by blast
  show ?case
  proof (rule Cons.prems(1)[OF _ p'(2)])
    show "ids p' = ids p \<union> (list_ids (r # rs) \<inter> ids l2)" using p'(3) q(2) by auto
  qed (use p'(1) q(1) in simp)
qed

lemma range_list_calculate_intersection_set_correct:
  assumes "wf_ranges l1" "wf_ranges l2"
  obtains p where "range_list_calculate_intersection_set l1 l2 = Some p" "wf_ranges p"
    "ids p = ids l1 \<inter> ids l2"
proof (cases "l1 \<noteq> None \<and> l2 \<noteq> None")
  case True
  obtain q where q: "foldo (intersect_range l2) (elems l1) None = Some q" "wf_ranges q"
      "ids q = ids None \<union> (list_ids (elems l1) \<inter> ids l2)"
    using intersect_ranges[OF assms(2), of 0 "elems l1" None] assms(1) by (auto simp: wf_ranges_def)
  have "range_list_calculate_intersection_set l1 l2 = Some (range_list_compress q)"
    using True q(1) by (auto simp: range_list_calculate_intersection_set_def)
  then show ?thesis
    by (rule that) (use range_list_compress_correct[OF q(2)] q(3) in \<open>simp_all add: ids_def\<close>)
next
  case False
  then have "range_list_calculate_intersection_set l1 l2 = Some None" "ids l1 \<inter> ids l2 = {}"
    by (auto simp: range_list_calculate_intersection_set_def)
  then show ?thesis by (intro that) auto
qed

end
