(* ===== verification/IdLists.thy ===== *)
theory IdLists
  imports Range_Correct
begin

text \<open>
  The interface between the job's id lists and the range lists below them. A client
  sees a list of ids through the set it stands for, an invariant and a bound on ids;
  the laws say that every operation returns, keeps the invariant and changes the set as
  its name says. The second locale adds the binary operations, with rules in the form
  the client's straight-line code needs: a call followed by a continuation. The
  interpretation at the end discharges the laws for \<^verbatim>\<open>sge_range.cc\<close>.
\<close>

section \<open>One list\<close>

locale id_list =
  fixes ids :: "'p \<Rightarrow> nat set"
    and wf :: "'p \<Rightarrow> bool"
    and lim :: nat
    and within :: "'p \<Rightarrow> nat \<Rightarrow> bool option"
    and ins :: "nat \<Rightarrow> 'p \<Rightarrow> 'p option"
    and del :: "nat \<Rightarrow> 'p \<Rightarrow> 'p option"
    and norm :: "'p \<Rightarrow> 'p"
    and count :: "'p \<Rightarrow> nat option"
  assumes within: "wf p \<Longrightarrow> within p i = Some (i \<in> ids p)"
    and ins: "wf p \<Longrightarrow> i < lim \<Longrightarrow> \<exists>q. ins i p = Some q \<and> wf q \<and> ids q = insert i (ids p)"
    and del: "wf p \<Longrightarrow> \<exists>q. del i p = Some q \<and> wf q \<and> ids q = ids p - {i}"
    and norm: "wf p \<Longrightarrow> wf (norm p) \<and> ids (norm p) = ids p"
    and count: "wf p \<Longrightarrow> count p = Some (card (ids p))"
    and bounded: "wf p \<Longrightarrow> i \<in> ids p \<Longrightarrow> i < lim"
begin

lemma ins_norm:
  assumes "wf p" "i < lim"
  obtains q where "ins i p = Some q" "wf (norm q)" "ids (norm q) = insert i (ids p)"
  using ins[OF assms] norm by auto

lemma del_norm:
  assumes "wf p"
  obtains q where "del i p = Some q" "wf (norm q)" "ids (norm q) = ids p - {i}"
  using del[OF assms, of i] norm by auto

text \<open>The pattern of the hold functions: put an id into a list or take it out.\<close>

lemma toggle_norm:
  assumes "wf p" "i < lim"
  obtains q where "(if b then ins i p else del i p) = Some q" "wf (norm q)"
    "ids (norm q) = (if b then insert i (ids p) else ids p - {i})"
proof (cases b)
  case True
  from ins_norm[OF assms] obtain q where "ins i p = Some q" "wf (norm q)" "ids (norm q) = insert i (ids p)" .
  with True show ?thesis by (intro that) auto
next
  case False
  from del_norm[OF assms(1)] obtain q where "del i p = Some q" "wf (norm q)" "ids (norm q) = ids p - {i}" .
  with False show ?thesis by (intro that) auto
qed

lemma card_ids_le: "wf p \<Longrightarrow> finite (ids p) \<and> card (ids p) \<le> lim"
proof -
  assume "wf p"
  then have "ids p \<subseteq> {..<lim}" using bounded by auto
  then show ?thesis
    using card_mono[of "{..<lim}" "ids p"] finite_subset[of "ids p" "{..<lim}"] by simp
qed

end

section \<open>Two lists\<close>

locale id_list_sets = id_list +
  fixes inter :: "'p \<Rightarrow> 'p \<Rightarrow> 'p option"
    and diff :: "'p \<Rightarrow> 'p \<Rightarrow> 'p option"
    and union :: "'p \<Rightarrow> 'p \<Rightarrow> 'p option"
  assumes inter: "wf p \<Longrightarrow> wf q \<Longrightarrow> \<exists>r. inter p q = Some r \<and> wf r \<and> ids r = ids p \<inter> ids q"
    and diff: "wf p \<Longrightarrow> wf q \<Longrightarrow> \<exists>r. diff p q = Some r \<and> wf r \<and> ids r = ids p - ids q"
    and union: "wf p \<Longrightarrow> wf q \<Longrightarrow> \<exists>r. union p q = Some r \<and> wf r \<and> ids r = ids p \<union> ids q"
begin

lemma inter_bind:
  assumes "wf p" "wf q"
    and "\<And>r. wf r \<Longrightarrow> ids r = ids p \<inter> ids q \<Longrightarrow> \<exists>x. k r = Some x \<and> P x"
  shows "\<exists>x. Option.bind (inter p q) k = Some x \<and> P x"
  using inter[OF assms(1,2)] assms(3) by auto

lemma diff_bind:
  assumes "wf p" "wf q"
    and "\<And>r. wf r \<Longrightarrow> ids r = ids p - ids q \<Longrightarrow> \<exists>x. k r = Some x \<and> P x"
  shows "\<exists>x. Option.bind (diff p q) k = Some x \<and> P x"
  using diff[OF assms(1,2)] assms(3) by auto

lemma union_bind:
  assumes "wf p" "wf q"
    and "\<And>r. wf r \<Longrightarrow> ids r = ids p \<union> ids q \<Longrightarrow> \<exists>x. k r = Some x \<and> P x"
  shows "\<exists>x. Option.bind (union p q) k = Some x \<and> P x"
  using union[OF assms(1,2)] assms(3) by auto

end

section \<open>Range lists provide it\<close>

text \<open>The binary operations into a null list, without an error pending.\<close>

definition diff_set :: "range_list \<Rightarrow> range_list \<Rightarrow> range_list option" where
  "diff_set l1 l2 = map_option fst (range_list_calculate_difference_set None None l1 l2)"

definition union_set :: "range_list \<Rightarrow> range_list \<Rightarrow> range_list option" where
  "union_set l1 l2 = map_option fst (range_list_calculate_union_set None (Some []) l1 l2)"

lemma no_error [simp]: "\<not> answer_list_has_error None" "\<not> answer_list_has_error (Some [])"
  by (simp_all add: answer_list_has_error_def)

lemma wf_ranges_bounded: "wf_ranges p \<Longrightarrow> i \<in> ids p \<Longrightarrow> i < id_limit"
  by (auto simp: wf_ranges_def ids_def dest: wf_from_ids_lt)

interpretation rl: id_list_sets ids wf_ranges id_limit range_list_is_id_within
  range_list_insert_id range_list_remove_id range_list_compress range_list_get_number_of_ids
  range_list_calculate_intersection_set diff_set union_set
proof unfold_locales
  fix p q :: range_list and i :: nat
  show "wf_ranges p \<Longrightarrow> range_list_is_id_within p i = Some (i \<in> ids p)"
    by (rule range_list_is_id_within_correct)
  show "wf_ranges p \<Longrightarrow> i < id_limit \<Longrightarrow>
      \<exists>q. range_list_insert_id i p = Some q \<and> wf_ranges q \<and> ids q = insert i (ids p)"
    by (rule range_list_insert_id_correct) auto
  show "wf_ranges p \<Longrightarrow> \<exists>q. range_list_remove_id i p = Some q \<and> wf_ranges q \<and> ids q = ids p - {i}"
    by (rule range_list_remove_id_correct) auto
  show "wf_ranges p \<Longrightarrow> wf_ranges (range_list_compress p) \<and> ids (range_list_compress p) = ids p"
    by (rule range_list_compress_correct)
  show "wf_ranges p \<Longrightarrow> range_list_get_number_of_ids p = Some (card (ids p))"
    by (rule range_list_get_number_of_ids_correct)
  show "wf_ranges p \<Longrightarrow> i \<in> ids p \<Longrightarrow> i < id_limit"
    by (rule wf_ranges_bounded)
  show "wf_ranges p \<Longrightarrow> wf_ranges q \<Longrightarrow>
      \<exists>r. range_list_calculate_intersection_set p q = Some r \<and> wf_ranges r \<and> ids r = ids p \<inter> ids q"
    by (rule range_list_calculate_intersection_set_correct[of p q]) auto
  show "wf_ranges p \<Longrightarrow> wf_ranges q \<Longrightarrow> \<exists>r. diff_set p q = Some r \<and> wf_ranges r \<and> ids r = ids p - ids q"
    by (rule range_list_calculate_difference_set_correct[of p q None]) (auto simp: diff_set_def)
  show "wf_ranges p \<Longrightarrow> wf_ranges q \<Longrightarrow> \<exists>r. union_set p q = Some r \<and> wf_ranges r \<and> ids r = ids p \<union> ids q"
    by (rule range_list_calculate_union_set_correct[of p q "Some []"]) (auto simp: union_set_def)
qed

end
