(* ===== verification/Range_Props.thy ===== *)
theory Range_Props
  imports IdLists
begin

text \<open>
  What \<^verbatim>\<open>sge_range.cc\<close> promises, stated over the set of ids a list stands for: the
  queries answer for that set, the updates change it as their names say, every list they
  return is again in normal form, and none of them faults or runs forever.
\<close>

abbreviation rng :: "nat \<Rightarrow> nat \<Rightarrow> nat \<Rightarrow> range" where
  "rng a b s \<equiv> \<lparr>RN_min = a, RN_max = b, RN_step = s\<rparr>"

lemma wf_example [simp]:
  "wf_range (rng a b s) \<longleftrightarrow>
     0 < s \<and> a \<le> b \<and> b < id_limit \<and> s dvd (b - a) \<and> (a = b \<longrightarrow> s = 1)"
  by (simp add: wf_range_def)

lemmas range_eval = range_get_all_ids_def range_set_all_ids_def lCreateElem_RN_def range_list_compress_def
  join_sequenced_def remove_id_from_def range_list_remove_id_def insert_id_at_def range_list_insert_id_def
  id_loop.simps range_id_loop_def range_list_remove_range_def range_list_move_first_n_ids_def
  move_ids_loop.simps lPSortList_def range_is_id_within_def add32_def sub32_def mul32_def div32_def mod32_def Let_def

section \<open>Updates of one id\<close>

text \<open>C4. \<open>range_list_insert_id\<close> on a list in normal form returns a list in normal form that
  stands for the old ids and the new one, whatever range the id falls into, extends or splits.\<close>

theorem insert_id_adds_id:
  assumes "wf_ranges p" "i < id_limit"
  shows "\<exists>q. range_list_insert_id i p = Some q \<and> wf_ranges q \<and> ids q = insert i (ids p)"
  using assms by (rule rl.ins)

theorem insert_id_adds_id_witness:
  "\<exists>q. range_list_insert_id 4 (Some [rng 1 7 2, rng 9 9 1]) = Some q \<and> wf_ranges q \<and>
     ids q = insert 4 (ids (Some [rng 1 7 2, rng 9 9 1]))"
  by (rule insert_id_adds_id) simp_all

text \<open>\<open>range_list_remove_id\<close> returns a list in normal form that stands for the old ids
  without the given one; an id that is not in the list changes nothing of the set.\<close>

lemma remove_id_drops_id:
  assumes "wf_ranges p"
  shows "\<exists>q. range_list_remove_id i p = Some q \<and> wf_ranges q \<and> ids q = ids p - {i}"
  using assms by (rule rl.del)

section \<open>Queries\<close>

text \<open>The queries agree with the set: membership, number of ids, emptiness, and the first
  and the last id as least and greatest element.\<close>

lemma queries_correct:
  assumes "wf_ranges p"
  shows "range_list_is_id_within p i = Some (i \<in> ids p) \<and>
    range_list_get_number_of_ids p = Some (card (ids p)) \<and>
    range_list_is_empty p = Some (ids p = {}) \<and>
    (ids p \<noteq> {} \<longrightarrow> fst (range_list_get_first_id p al) = Min (ids p) \<and>
       fst (range_list_get_last_id p al) = Max (ids p))"
  using assms rl.within rl.count range_list_is_empty_correct range_list_get_first_id_correct
    range_list_get_last_id_correct by simp

section \<open>Normal form\<close>

text \<open>\<open>range_list_sort_uniq_compress\<close> turns any list of ranges with positive steps, in any
  order, overlapping or with ends that their steps miss, into a list in normal form that stands
  for the same ids.\<close>

lemma sort_uniq_compress_normalises:
  assumes "sane_list (elems p)"
  shows "\<exists>q. range_list_sort_uniq_compress True p = Some q \<and> wf_ranges q \<and> ids q = ids p"
  using assms by (rule range_list_sort_uniq_compress_correct) auto

text \<open>\<open>range_list_compress\<close> keeps the set of ids and the normal form, and never has more
  ranges than before.\<close>

lemma compress_keeps_ids:
  assumes "wf_ranges p"
  shows "wf_ranges (range_list_compress p) \<and> ids (range_list_compress p) = ids p \<and>
    length (elems (range_list_compress p)) \<le> length (elems p)"
  using rl.norm[OF assms] length_compress_loop by (cases p) (simp_all add: range_list_compress_def)

section \<open>Set operations\<close>

text \<open>\<open>range_list_calculate_union_set\<close> returns the union, in normal form and without an
  error, for all combinations of null, empty and filled arguments.\<close>

lemma calculate_union_set_is_union:
  assumes "wf_ranges l1" "wf_ranges l2" "\<not> answer_list_has_error al"
  shows "\<exists>p. range_list_calculate_union_set None al l1 l2 = Some (p, al) \<and> wf_ranges p \<and>
    ids p = ids l1 \<union> ids l2"
  using assms by (rule range_list_calculate_union_set_correct) blast

text \<open>\<open>range_list_calculate_difference_set\<close> returns the set difference in normal form.\<close>

lemma calculate_difference_set_is_difference:
  assumes "wf_ranges l1" "wf_ranges l2" "\<not> answer_list_has_error al"
  shows "\<exists>p. range_list_calculate_difference_set None al l1 l2 = Some (p, al) \<and> wf_ranges p \<and>
    ids p = ids l1 - ids l2"
  using assms by (rule range_list_calculate_difference_set_correct) blast

text \<open>\<open>range_list_calculate_intersection_set\<close> returns the intersection in normal form.\<close>

lemma calculate_intersection_set_is_intersection:
  assumes "wf_ranges l1" "wf_ranges l2"
  shows "\<exists>p. range_list_calculate_intersection_set l1 l2 = Some p \<and> wf_ranges p \<and>
    ids p = ids l1 \<inter> ids l2"
  using assms by (rule rl.inter)

section \<open>Moving ids\<close>

text \<open>\<open>range_list_move_first_n_ids\<close> moves more than \<open>n\<close> ids when the source has several
  ranges: its \<^verbatim>\<open>break\<close> leaves only the loop over one range, and the counter wraps around in the
  next. Asked for one id of 1-2,5-6 it moves three.\<close>

lemma move_first_n_ids_moves_too_many:
  "range_list_move_first_n_ids (Some [rng 1 2 1, rng 5 6 1]) None 1 =
     Some (Some [rng 2 2 1], Some [rng 1 5 4, rng 6 6 1])"
  by (simp add: range_eval)

end
