(* ===== verification/JobTasks.thy ===== *)
theory JobTasks
  imports IdLists "HOL-Library.Word"
begin

text \<open>
  The array tasks of a job, \<^verbatim>\<open>source/libs/sgeobj/sge_job.cc\<close>. A pending task is
  only an id in one of five range lists of the job: \<^verbatim>\<open>JB_ja_n_h_ids\<close> (not held)
  or one or more of the lists of the four hold kinds. A task gets an element in
  \<^verbatim>\<open>JB_ja_tasks\<close> when it is enrolled. This theory holds the job's state and
  one definition per function; functions that divide by a step or walk over ids
  return in the option monad, as in \<open>Range\<close>.
\<close>

unbundle bit_operations_syntax

section \<open>Data\<close>

type_synonym flags = "32 word"

record pe_task =
  PET_id :: string
  PET_status :: flags

record ja_task =
  JAT_task_number :: nat
  JAT_status :: flags
  JAT_state :: flags
  JAT_hold :: flags
  JAT_task_list :: "pe_task list"

record job =
  JB_ja_structure :: range_list
  JB_ja_n_h_ids :: range_list
  JB_ja_u_h_ids :: range_list
  JB_ja_o_h_ids :: range_list
  JB_ja_s_h_ids :: range_list
  JB_ja_a_h_ids :: range_list
  JB_ja_tasks :: "ja_task list option"
  JB_ja_template :: "ja_task list"

definition JIDLE :: flags where "JIDLE = 0x0"
definition JHELD :: flags where "JHELD = 0x10"
definition JQUEUED :: flags where "JQUEUED = 0x40"
definition JWAITING :: flags where "JWAITING = 0x800"
definition JFINISHED :: flags where "JFINISHED = 0x10000"

definition MINUS_H_TGT_USER :: flags where "MINUS_H_TGT_USER = 1"
definition MINUS_H_TGT_OPERATOR :: flags where "MINUS_H_TGT_OPERATOR = 2"
definition MINUS_H_TGT_SYSTEM :: flags where "MINUS_H_TGT_SYSTEM = 4"
definition MINUS_H_TGT_JA_AD :: flags where "MINUS_H_TGT_JA_AD = 8"
definition MINUS_H_TGT_ALL :: flags where "MINUS_H_TGT_ALL = 15"

lemmas hold_masks = MINUS_H_TGT_USER_def MINUS_H_TGT_OPERATOR_def MINUS_H_TGT_SYSTEM_def
  MINUS_H_TGT_JA_AD_def MINUS_H_TGT_ALL_def

text \<open>The five id lists as the attribute names the loops of the code index.\<close>

datatype id_attr = N_H | U_H | O_H | S_H | A_H

fun get_ids :: "id_attr \<Rightarrow> job \<Rightarrow> range_list" where
  "get_ids N_H j = JB_ja_n_h_ids j"
| "get_ids U_H j = JB_ja_u_h_ids j"
| "get_ids O_H j = JB_ja_o_h_ids j"
| "get_ids S_H j = JB_ja_s_h_ids j"
| "get_ids A_H j = JB_ja_a_h_ids j"

fun set_ids :: "id_attr \<Rightarrow> range_list \<Rightarrow> job \<Rightarrow> job" where
  "set_ids N_H p j = j\<lparr>JB_ja_n_h_ids := p\<rparr>"
| "set_ids U_H p j = j\<lparr>JB_ja_u_h_ids := p\<rparr>"
| "set_ids O_H p j = j\<lparr>JB_ja_o_h_ids := p\<rparr>"
| "set_ids S_H p j = j\<lparr>JB_ja_s_h_ids := p\<rparr>"
| "set_ids A_H p j = j\<lparr>JB_ja_a_h_ids := p\<rparr>"

fun hold_mask :: "id_attr \<Rightarrow> flags" where
  "hold_mask N_H = MINUS_H_TGT_ALL"
| "hold_mask U_H = MINUS_H_TGT_USER"
| "hold_mask O_H = MINUS_H_TGT_OPERATOR"
| "hold_mask S_H = MINUS_H_TGT_SYSTEM"
| "hold_mask A_H = MINUS_H_TGT_JA_AD"

definition tasks :: "job \<Rightarrow> ja_task list" where
  "tasks j = (case JB_ja_tasks j of None \<Rightarrow> [] | Some ts \<Rightarrow> ts)"

section \<open>Range lists of an object\<close>

definition object_delete_range_id :: "id_attr \<Rightarrow> nat \<Rightarrow> job \<Rightarrow> job option" where
  "object_delete_range_id rnm i j =
     do { p \<leftarrow> range_list_remove_id i (get_ids rnm j);
          Some (set_ids rnm (range_list_compress p) j) }"

definition object_set_range_id :: "nat \<Rightarrow> nat \<Rightarrow> nat \<Rightarrow> range_list \<Rightarrow> range_list" where
  "object_set_range_id start end' step p =
     (case elems p of
        [] \<Rightarrow> Some [lCreateElem_RN\<lparr>RN_min := start, RN_max := end', RN_step := step\<rparr>]
      | r # rs \<Rightarrow> Some (r\<lparr>RN_min := start, RN_max := end', RN_step := step\<rparr> # rs))"

section \<open>Hold state of pending tasks\<close>

definition accumulate_flag :: "job \<Rightarrow> nat \<Rightarrow> id_attr \<Rightarrow> flags \<Rightarrow> flags option" where
  "accumulate_flag j i a ret =
     do { b \<leftarrow> range_list_is_id_within (get_ids a j) i;
          Some (if b then ret OR hold_mask a else ret) }"

definition job_accumulate_hold_flags :: "job \<Rightarrow> nat \<Rightarrow> flags option" where
  "job_accumulate_hold_flags j i = foldo (accumulate_flag j i) [U_H, O_H, S_H, A_H] 0"

definition job_get_ja_task_hold_state :: "job \<Rightarrow> nat \<Rightarrow> flags option" where
  "job_get_ja_task_hold_state j i = job_accumulate_hold_flags j i"

definition job_is_enrolled :: "job \<Rightarrow> nat \<Rightarrow> bool option" where
  "job_is_enrolled j i =
     foldo (\<lambda>a ret.
       if ret then do { b \<leftarrow> range_list_is_id_within (get_ids a j) i; Some (\<not> b) }
       else Some False) [N_H, U_H, O_H, S_H, A_H] True"

definition job_is_ja_task_defined :: "job \<Rightarrow> nat \<Rightarrow> bool option" where
  "job_is_ja_task_defined j i = range_list_is_id_within (JB_ja_structure j) i"

section \<open>Task templates\<close>

text \<open>
  The template functions return a pointer to the first element of
  \<^verbatim>\<open>JB_ja_template\<close> after changing it in place: the job with the changed template
  and the template itself, \<open>None\<close> when the job has none.
\<close>

definition job_get_ja_task_template_pending :: "job \<Rightarrow> nat \<Rightarrow> job \<times> ja_task option" where
  "job_get_ja_task_template_pending j i =
     (case JB_ja_template j of
        [] \<Rightarrow> (j, None)
      | t # ts \<Rightarrow>
          (let t' = t\<lparr>JAT_state := JQUEUED OR JWAITING, JAT_task_number := i\<rparr>
           in (j\<lparr>JB_ja_template := t' # ts\<rparr>, Some t')))"

definition job_get_ja_task_template_hold :: "job \<Rightarrow> nat \<Rightarrow> flags \<Rightarrow> job \<times> ja_task option" where
  "job_get_ja_task_template_hold j i hold_state =
     (let (j', t) = job_get_ja_task_template_pending j i in
      case t of
        None \<Rightarrow> (j', None)
      | Some t \<Rightarrow>
          (let t1 = t\<lparr>JAT_task_number := i, JAT_hold := hold_state, JAT_status := JIDLE\<rparr>;
               state = JQUEUED OR JWAITING;
               state' = (if JAT_hold t1 \<noteq> 0 then state OR JHELD else state);
               t2 = t1\<lparr>JAT_state := state'\<rparr>
           in (j'\<lparr>JB_ja_template := t2 # tl (JB_ja_template j')\<rparr>, Some t2)))"

definition job_get_ja_task_template :: "job \<Rightarrow> nat \<Rightarrow> (job \<times> ja_task option) option" where
  "job_get_ja_task_template j i =
     do { h \<leftarrow> job_get_ja_task_hold_state j i; Some (job_get_ja_task_template_hold j i h) }"

section \<open>Enrolling and unenrolling\<close>

definition job_search_task :: "job \<Rightarrow> nat \<Rightarrow> ja_task option" where
  "job_search_task j i = find (\<lambda>t. JAT_task_number t = i) (tasks j)"

definition job_enroll :: "job \<Rightarrow> nat \<Rightarrow> (job \<times> ja_task option) option" where
  \<comment> \<open>with no template \<^verbatim>\<open>lGetElemDescr\<close>, \<^verbatim>\<open>lCreateList\<close> and \<^verbatim>\<open>lCopyElem\<close> give null, \<^verbatim>\<open>lSetList\<close>
     leaves the null list and \<^verbatim>\<open>lAppendElem\<close> appends nothing\<close>
  "job_enroll j i =
     do { j1 \<leftarrow> object_delete_range_id N_H i j;
          (case job_search_task j1 i of
             Some t \<Rightarrow> Some (j1, Some t)
           | None \<Rightarrow>
               (let (j2, template) = job_get_ja_task_template_pending j1 i in
                case template of
                  None \<Rightarrow> Some (j2, None)
                | Some t \<Rightarrow> Some (j2\<lparr>JB_ja_tasks := Some (tasks j2 @ [t])\<rparr>, Some t))) }"

definition job_unenroll :: "job \<Rightarrow> nat option \<Rightarrow> job option" where
  \<comment> \<open>the task pointer is the position of the element in \<^verbatim>\<open>JB_ja_tasks\<close>\<close>
  "job_unenroll j pos =
     (case (pos, JB_ja_tasks j) of
        (None, _) \<Rightarrow> Some j
      | (_, None) \<Rightarrow> Some j
      | (Some k, Some ts) \<Rightarrow>
          do { p \<leftarrow> range_list_insert_id (JAT_task_number (ts ! k)) (JB_ja_n_h_ids j);
               let ts' = take k ts @ drop (Suc k) ts in
               Some (j\<lparr>JB_ja_n_h_ids := range_list_compress p,
                       JB_ja_tasks := (if ts' = [] then None else Some ts')\<rparr>) })"

definition job_create_task :: "job \<Rightarrow> nat \<Rightarrow> (job \<times> ja_task option) option" where
  "job_create_task j i =
     do { b \<leftarrow> job_is_ja_task_defined j i;
          if b then job_enroll j i else Some (j, None) }"

definition job_delete_not_enrolled_ja_task :: "job \<Rightarrow> nat \<Rightarrow> job option" where
  "job_delete_not_enrolled_ja_task j i =
     foldo (\<lambda>a j. object_delete_range_id a i j) [N_H, U_H, O_H, S_H, A_H] j"

section \<open>Setting and reading the hold state\<close>

definition set_hold_in_list :: "nat \<Rightarrow> flags \<Rightarrow> id_attr \<Rightarrow> job \<Rightarrow> job option" where
  \<comment> \<open>one iteration of the loop over the five lists\<close>
  "set_hold_in_list i new_hold_state a j =
     (let wanted = (new_hold_state AND hold_mask a \<noteq> 0);
          do_insert = (if a = N_H then \<not> wanted else wanted)
      in
      do { p \<leftarrow> (if do_insert then range_list_insert_id i (get_ids a j)
                 else range_list_remove_id i (get_ids a j));
           Some (set_ids a (range_list_compress p) j) })"

definition set_task_hold :: "flags \<Rightarrow> ja_task \<Rightarrow> ja_task" where
  "set_task_hold h t =
     t\<lparr>JAT_hold := h,
       JAT_state := (if h \<noteq> 0 then JAT_state t OR JHELD else JAT_state t AND NOT JHELD)\<rparr>"

fun update_first :: "('a \<Rightarrow> bool) \<Rightarrow> ('a \<Rightarrow> 'a) \<Rightarrow> 'a list \<Rightarrow> 'a list" where
  "update_first P f [] = []"
| "update_first P f (x # xs) = (if P x then f x # xs else x # update_first P f xs)"

definition job_set_hold_state :: "job \<Rightarrow> nat \<Rightarrow> flags \<Rightarrow> job option" where
  "job_set_hold_state j i new_hold_state =
     do { e \<leftarrow> job_is_enrolled j i;
          if \<not> e then foldo (set_hold_in_list i new_hold_state) [N_H, U_H, O_H, S_H, A_H] j
          else
            Some (j\<lparr>JB_ja_tasks :=
              map_option (update_first (\<lambda>t. JAT_task_number t = i) (set_task_hold new_hold_state))
                (JB_ja_tasks j)\<rparr>) }"

definition job_get_hold_state :: "job \<Rightarrow> nat \<Rightarrow> flags option" where
  "job_get_hold_state j i =
     do { e \<leftarrow> job_is_enrolled j i;
          if e then
            (case job_search_task j i of
               Some t \<Rightarrow> Some (JAT_hold t AND MINUS_H_TGT_ALL)
             | None \<Rightarrow> Some 0)
          else job_accumulate_hold_flags j i }"


section \<open>Counting tasks\<close>

definition job_get_not_enrolled_ja_tasks :: "job \<Rightarrow> nat option" where
  "job_get_not_enrolled_ja_tasks j =
     do { (uo_ids, al1) \<leftarrow> range_list_calculate_union_set None (Some []) (JB_ja_u_h_ids j) (JB_ja_o_h_ids j);
          (uos_ids, al2) \<leftarrow> range_list_calculate_union_set None al1 uo_ids (JB_ja_s_h_ids j);
          (uosa_ids, al3) \<leftarrow> range_list_calculate_union_set None al2 uos_ids (JB_ja_a_h_ids j);
          n \<leftarrow> range_list_get_number_of_ids (JB_ja_n_h_ids j);
          m \<leftarrow> range_list_get_number_of_ids uosa_ids;
          Some (add32 (add32 0 n) m) }"

definition job_get_enrolled_ja_tasks :: "job \<Rightarrow> nat" where
  "job_get_enrolled_ja_tasks j = length (tasks j)"

definition job_get_ja_tasks :: "job \<Rightarrow> nat option" where
  "job_get_ja_tasks j =
     do { n \<leftarrow> job_get_not_enrolled_ja_tasks j;
          Some (add32 (add32 0 n) (job_get_enrolled_ja_tasks j)) }"

definition job_get_submit_task_ids :: "job \<Rightarrow> nat \<times> nat \<times> nat" where
  "job_get_submit_task_ids j =
     (case elems (JB_ja_structure j) of
        [] \<Rightarrow> (1, 1, 1)
      | r # _ \<Rightarrow> (RN_min r, RN_max r, if RN_step r \<noteq> 0 then RN_step r else 1))"

definition job_set_submit_task_ids :: "job \<Rightarrow> nat \<Rightarrow> nat \<Rightarrow> nat \<Rightarrow> job" where
  "job_set_submit_task_ids j start end' step =
     j\<lparr>JB_ja_structure := object_set_range_id start end' step (JB_ja_structure j)\<rparr>"

definition job_get_submit_ja_tasks :: "job \<Rightarrow> nat option" where
  "job_get_submit_ja_tasks j =
     (let (start, end', step) = job_get_submit_task_ids j in
      do { q \<leftarrow> div32 (sub32 end' start) step; Some (add32 q 1) })"

definition is_rescheduled :: "ja_task \<Rightarrow> bool" where
  "is_rescheduled t \<longleftrightarrow>
     JAT_status t = JIDLE \<and> JAT_state t AND JQUEUED \<noteq> 0 \<and> JAT_state t AND JWAITING \<noteq> 0"

definition job_count_rescheduled_ja_tasks :: "job \<Rightarrow> bool \<Rightarrow> nat" where
  "job_count_rescheduled_ja_tasks j count_all =
     (if count_all then length (filter is_rescheduled (tasks j))
      else (case find is_rescheduled (tasks j) of Some _ \<Rightarrow> 1 | None \<Rightarrow> 0))"

definition job_count_pending_tasks :: "job \<Rightarrow> bool \<Rightarrow> nat option" where
  "job_count_pending_tasks j count_all =
     (if count_all then
        do { n \<leftarrow> range_list_get_number_of_ids (JB_ja_n_h_ids j);
             Some (add32 n (job_count_rescheduled_ja_tasks j True)) }
      else if JB_ja_n_h_ids j \<noteq> None \<or> job_count_rescheduled_ja_tasks j False \<noteq> 0 then Some 1
      else Some 0)"

definition job_list_register_new_job :: "nat \<Rightarrow> nat \<Rightarrow> bool \<Rightarrow> nat" where
  \<comment> \<open>the first argument is the number of jobs in the list\<close>
  "job_list_register_new_job n max_jobs force_registration =
     (if max_jobs > 0 \<and> \<not> force_registration \<and> max_jobs \<le> n then 1 else 0)"

section \<open>Smallest and biggest task ids\<close>

definition extreme :: "bool \<Rightarrow> nat \<Rightarrow> nat \<Rightarrow> nat" where
  "extreme find_min a b = (if find_min then min a b else max a b)"

definition extreme_step :: "bool \<Rightarrow> nat \<Rightarrow> nat \<Rightarrow> nat" where
  "extreme_step find_min ret i =
     (if ret > 0 \<and> i > 0 then extreme find_min ret i else if i > 0 then i else ret)"

definition job_get_extreme_unenrolled_task_id :: "job \<Rightarrow> bool \<Rightarrow> nat" where
  "job_get_extreme_unenrolled_task_id j find_min =
     (let get = (\<lambda>a. fst (if find_min then range_list_get_first_id (get_ids a j) None
                          else range_list_get_last_id (get_ids a j) None));
          ret = extreme_step find_min (extreme_step find_min
                  (extreme_step find_min (get N_H) (get U_H)) (get O_H)) (get S_H)
      in if ret = 0 \<and> get A_H > 0 then extreme find_min ret (get A_H)
         else if get A_H > 0 then get A_H
         else ret)"

definition job_get_smallest_unenrolled_task_id :: "job \<Rightarrow> nat" where
  "job_get_smallest_unenrolled_task_id j = job_get_extreme_unenrolled_task_id j True"

definition job_get_biggest_unenrolled_task_id :: "job \<Rightarrow> nat" where
  "job_get_biggest_unenrolled_task_id j = job_get_extreme_unenrolled_task_id j False"

definition job_get_smallest_enrolled_task_id :: "job \<Rightarrow> nat" where
  "job_get_smallest_enrolled_task_id j =
     (case tasks j of
        [] \<Rightarrow> 0
      | t # ts \<Rightarrow> fold (\<lambda>t ret. min ret (JAT_task_number t)) ts (JAT_task_number t))"

definition job_get_biggest_enrolled_task_id :: "job \<Rightarrow> nat" where
  "job_get_biggest_enrolled_task_id j =
     (case rev (tasks j) of
        [] \<Rightarrow> 0
      | t # ts \<Rightarrow> fold (\<lambda>t ret. max ret (JAT_task_number t)) ts (JAT_task_number t))"

section \<open>Initialising and checking the id lists\<close>

definition job_initialize_id_lists :: "job \<Rightarrow> answer_list \<Rightarrow> job \<times> answer_list \<times> int" where
  \<comment> \<open>\<^verbatim>\<open>lCopyList\<close> of a null list is null, which the code takes for a lack of memory\<close>
  "job_initialize_id_lists j al =
     (case JB_ja_structure j of
        None \<Rightarrow> (j, answer_list_add al ''MSG_MEM_MEMORYALLOCFAILED_S'', -1)
      | Some l \<Rightarrow>
          (j\<lparr>JB_ja_n_h_ids := Some l, JB_ja_u_h_ids := None, JB_ja_o_h_ids := None,
             JB_ja_s_h_ids := None, JB_ja_a_h_ids := None\<rparr>, al, 0))"

fun check_no_zero :: "bool \<Rightarrow> range list \<Rightarrow> (range list \<times> bool) option" where
  \<comment> \<open>the loop over one list: ends are corrected up to the first range that holds 0;
     \<open>False\<close> when there is such a range\<close>
  "check_no_zero correct [] = Some ([], True)"
| "check_no_zero correct (r # rs) =
     (let r' = (if correct then range_correct_end r else r) in
      do { b \<leftarrow> range_is_id_within (Some r') 0;
           if b then Some (r' # rs, False)
           else do { (rs', ok) \<leftarrow> check_no_zero correct rs; Some (r' # rs', ok) } })"

definition check_no_zero_ptr :: "bool \<Rightarrow> range_list \<Rightarrow> (range_list \<times> bool) option" where
  "check_no_zero_ptr correct p =
     (case p of
        None \<Rightarrow> Some (None, True)
      | Some l \<Rightarrow> do { (l', ok) \<leftarrow> check_no_zero correct l; Some (Some l', ok) })"

definition check_list_no_zero :: "id_attr \<Rightarrow> job \<times> bool \<Rightarrow> (job \<times> bool) option" where
  "check_list_no_zero a st =
     (let (j, ok) = st in
      if \<not> ok then Some (j, False)
      else do { (p, ok') \<leftarrow> check_no_zero_ptr True (get_ids a j); Some (set_ids a p j, ok') })"

definition job_check_correct_id_sublists :: "job \<Rightarrow> answer_list \<Rightarrow> (job \<times> answer_list) option" where
  "job_check_correct_id_sublists j al =
     do { (s, ok0) \<leftarrow> check_no_zero_ptr False (JB_ja_structure j);
          (j1, ok) \<leftarrow> foldo check_list_no_zero [N_H, U_H, S_H, O_H, A_H] (j, ok0);
          if \<not> ok then Some (j1, answer_list_add al ''MSG_JOB_NULLNOTALLOWEDT'')
          else
            do { has_x_ids \<leftarrow> foldo (\<lambda>a ret.
                   do { e \<leftarrow> range_list_is_empty (get_ids a j1); Some (ret \<or> \<not> e) })
                   [N_H, U_H, S_H, O_H, A_H] False;
                 no_structure \<leftarrow> range_list_is_empty (JB_ja_structure j1);
                 Some (if no_structure then (j1, answer_list_add al ''MSG_JOB_NOIDNOTALLOWED'')
                       else if \<not> has_x_ids then
                         (let (j2, al', _) = job_initialize_id_lists j1 al in (j2, al'))
                       else (j1, al)) } }"

section \<open>Lists for every combination of holds\<close>

definition hold_state_of :: "flags list" where
  "hold_state_of =
     [0,
      MINUS_H_TGT_USER,
      MINUS_H_TGT_OPERATOR,
      MINUS_H_TGT_SYSTEM,
      MINUS_H_TGT_JA_AD,
      MINUS_H_TGT_USER OR MINUS_H_TGT_OPERATOR,
      MINUS_H_TGT_USER OR MINUS_H_TGT_SYSTEM,
      MINUS_H_TGT_USER OR MINUS_H_TGT_JA_AD,
      MINUS_H_TGT_OPERATOR OR MINUS_H_TGT_SYSTEM,
      MINUS_H_TGT_OPERATOR OR MINUS_H_TGT_JA_AD,
      MINUS_H_TGT_SYSTEM OR MINUS_H_TGT_JA_AD,
      MINUS_H_TGT_USER OR MINUS_H_TGT_OPERATOR OR MINUS_H_TGT_SYSTEM,
      MINUS_H_TGT_USER OR MINUS_H_TGT_OPERATOR OR MINUS_H_TGT_JA_AD,
      MINUS_H_TGT_USER OR MINUS_H_TGT_SYSTEM OR MINUS_H_TGT_JA_AD,
      MINUS_H_TGT_OPERATOR OR MINUS_H_TGT_SYSTEM OR MINUS_H_TGT_JA_AD,
      MINUS_H_TGT_USER OR MINUS_H_TGT_OPERATOR OR MINUS_H_TGT_SYSTEM OR MINUS_H_TGT_JA_AD]"

definition job_create_hold_id_lists :: "job \<Rightarrow> (range_list list \<times> flags list) option" where
  "job_create_hold_id_lists j =
     (let u = JB_ja_u_h_ids j; o' = JB_ja_o_h_ids j; s = JB_ja_s_h_ids j; a = JB_ja_a_h_ids j in
      do { list0 \<leftarrow> range_list_calculate_intersection_set u o';
           list1 \<leftarrow> range_list_calculate_intersection_set u s;
           list2 \<leftarrow> range_list_calculate_intersection_set u a;
           list3 \<leftarrow> range_list_calculate_intersection_set o' s;
           list4 \<leftarrow> range_list_calculate_intersection_set o' a;
           list5 \<leftarrow> range_list_calculate_intersection_set s a;
           list6 \<leftarrow> range_list_calculate_intersection_set list0 list3;
           list7 \<leftarrow> range_list_calculate_intersection_set list0 list4;
           list8 \<leftarrow> range_list_calculate_intersection_set list1 list5;
           list9 \<leftarrow> range_list_calculate_intersection_set list3 list5;
           id15 \<leftarrow> range_list_calculate_intersection_set list6 list7;
           id14 \<leftarrow> diff_set list9 id15;
           id13 \<leftarrow> diff_set list8 id15;
           id12 \<leftarrow> diff_set list7 id15;
           id11 \<leftarrow> diff_set list6 id15;
           list10 \<leftarrow> diff_set list5 list8;
           id10 \<leftarrow> diff_set list10 id14;
           list11 \<leftarrow> diff_set list4 list7;
           id9 \<leftarrow> diff_set list11 id14;
           list12 \<leftarrow> diff_set list3 list6;
           id8 \<leftarrow> diff_set list12 id14;
           list13 \<leftarrow> diff_set list2 list7;
           id7 \<leftarrow> diff_set list13 id13;
           list14 \<leftarrow> diff_set list1 list6;
           id6 \<leftarrow> diff_set list14 id13;
           list15 \<leftarrow> diff_set list0 list6;
           id5 \<leftarrow> diff_set list15 id12;
           list16 \<leftarrow> diff_set a list2;
           list17 \<leftarrow> diff_set list16 list11;
           id4 \<leftarrow> diff_set list17 id10;
           list18 \<leftarrow> diff_set s list1;
           list19 \<leftarrow> diff_set list18 list12;
           id3 \<leftarrow> diff_set list19 id10;
           list20 \<leftarrow> diff_set o' list0;
           list21 \<leftarrow> diff_set list20 list12;
           id2 \<leftarrow> diff_set list21 id9;
           list22 \<leftarrow> diff_set u list0;
           list23 \<leftarrow> diff_set list22 list14;
           id1 \<leftarrow> diff_set list23 id7;
           Some ([JB_ja_n_h_ids j, id1, id2, id3, id4, id5, id6, id7, id8, id9, id10, id11, id12,
                  id13, id14, id15], hold_state_of) })"

end
