(* ===== verification/JobTasks_Correct.thy ===== *)
theory JobTasks_Correct
  imports JobTasks
begin

text \<open>
  What the job functions guarantee. The invariant \<open>job_inv\<close> says that the five id lists
  are well formed, that no task is both held and not held, and that a task is either
  enrolled or an id of a list, never both. The lemmas show which functions keep it, that
  the total number of tasks is conserved, that the hold state written is the hold state
  read, and that the sixteen lists of \<open>job_create_hold_id_lists\<close> split the held tasks
  exactly by their hold state.
\<close>

unbundle bit_operations_syntax

section \<open>Well-formed jobs\<close>

definition wf_job :: "job \<Rightarrow> bool" where
  "wf_job j \<longleftrightarrow> (\<forall>a. wf_ranges (get_ids a j))"

definition held_ids :: "job \<Rightarrow> nat set" where
  "held_ids j = ids (JB_ja_u_h_ids j) \<union> ids (JB_ja_o_h_ids j) \<union> ids (JB_ja_s_h_ids j) \<union> ids (JB_ja_a_h_ids j)"

definition unenrolled :: "job \<Rightarrow> nat set" where
  "unenrolled j = ids (JB_ja_n_h_ids j) \<union> held_ids j"

definition enrolled :: "job \<Rightarrow> nat list" where
  "enrolled j = map JAT_task_number (tasks j)"

definition job_inv :: "job \<Rightarrow> bool" where
  "job_inv j \<longleftrightarrow> wf_job j \<and> ids (JB_ja_n_h_ids j) \<inter> held_ids j = {} \<and>
     distinct (enrolled j) \<and> set (enrolled j) \<inter> unenrolled j = {} \<and> set (enrolled j) \<subseteq> {..<id_limit}"

lemma all_attr: "(\<forall>a. P a) \<longleftrightarrow> P N_H \<and> P U_H \<and> P O_H \<and> P S_H \<and> P A_H"
  by (metis id_attr.exhaust)

lemma get_set_ids [simp]: "get_ids a (set_ids b p j) = (if a = b then p else get_ids a j)"
  by (cases a; cases b) simp_all

lemma set_ids_frame [simp]:
  "JB_ja_structure (set_ids a p j) = JB_ja_structure j"
  "JB_ja_tasks (set_ids a p j) = JB_ja_tasks j"
  "JB_ja_template (set_ids a p j) = JB_ja_template j"
  by (cases a; simp)+

lemma wf_jobD [dest]: "wf_job j \<Longrightarrow> wf_ranges (get_ids a j)"
  by (simp add: wf_job_def)

lemma wf_job_lists:
  assumes "wf_job j"
  shows "wf_ranges (JB_ja_n_h_ids j)" "wf_ranges (JB_ja_u_h_ids j)" "wf_ranges (JB_ja_o_h_ids j)"
    "wf_ranges (JB_ja_s_h_ids j)" "wf_ranges (JB_ja_a_h_ids j)"
  using assms by (auto simp: wf_job_def all_attr)

text \<open>
  The hold state of an id, read off the sets: the reference for the functions that
  compute it from the lists.
\<close>

definition hold_of :: "job \<Rightarrow> nat \<Rightarrow> flags" where
  "hold_of j i =
     (if i \<in> ids (JB_ja_u_h_ids j) then 1 else 0) OR (if i \<in> ids (JB_ja_o_h_ids j) then 2 else 0) OR
     (if i \<in> ids (JB_ja_s_h_ids j) then 4 else 0) OR (if i \<in> ids (JB_ja_a_h_ids j) then 8 else 0)"

lemma job_accumulate_hold_flags_correct:
  "wf_job j \<Longrightarrow> job_accumulate_hold_flags j i = Some (hold_of j i)"
  by (simp add: job_accumulate_hold_flags_def accumulate_flag_def rl.within wf_job_lists hold_of_def
      hold_masks)

lemma job_is_enrolled_correct:
  "wf_job j \<Longrightarrow> job_is_enrolled j i = Some (i \<notin> unenrolled j)"
  by (auto simp: job_is_enrolled_def rl.within wf_job_lists unenrolled_def held_ids_def)

section \<open>The sixteen hold lists\<close>

lemma job_create_hold_id_lists_sets:
  assumes "wf_job j"
  shows "\<exists>r. job_create_hold_id_lists j = Some r \<and>
    (let u = ids (JB_ja_u_h_ids j); p = ids (JB_ja_o_h_ids j); s = ids (JB_ja_s_h_ids j);
         a = ids (JB_ja_a_h_ids j) in
     (\<forall>l\<in>set (fst r). wf_ranges l) \<and> snd r = hold_state_of \<and>
     map ids (fst r) =
       [ids (JB_ja_n_h_ids j), u - p - s - a, p - u - s - a, s - u - p - a, a - u - p - s,
        u \<inter> p - s - a, u \<inter> s - p - a, u \<inter> a - p - s, p \<inter> s - u - a, p \<inter> a - u - s,
        s \<inter> a - u - p, u \<inter> p \<inter> s - a, u \<inter> p \<inter> a - s, u \<inter> s \<inter> a - p, p \<inter> s \<inter> a - u,
        u \<inter> p \<inter> s \<inter> a])"
  unfolding job_create_hold_id_lists_def Let_def
  apply ((rule rl.inter_bind rl.diff_bind, (assumption | rule wf_job_lists[OF assms])+)+)
  apply (rule exI, rule conjI, rule refl)
  apply (simp add: wf_job_lists[OF assms])
  apply (intro conjI; blast)
  done


text \<open>Which of the sixteen sets an id lies in is decided by its hold state.\<close>

lemma hold_state_of_num: "hold_state_of = [0, 1, 2, 4, 8, 3, 5, 9, 6, 10, 12, 7, 11, 13, 14, 15]"
  by (simp add: hold_state_of_def hold_masks)

lemma hold_flags_cases:
  fixes u p s a :: bool
  shows "list_all2 (\<lambda>f P.
      ((if u then 1 else 0) OR (if p then 2 else 0) OR (if s then 4 else 0) OR (if a then 8 else 0) = f) = P)
    hold_state_of
    [\<not> u \<and> \<not> p \<and> \<not> s \<and> \<not> a, u \<and> \<not> p \<and> \<not> s \<and> \<not> a, p \<and> \<not> u \<and> \<not> s \<and> \<not> a, s \<and> \<not> u \<and> \<not> p \<and> \<not> a,
     a \<and> \<not> u \<and> \<not> p \<and> \<not> s, u \<and> p \<and> \<not> s \<and> \<not> a, u \<and> s \<and> \<not> p \<and> \<not> a, u \<and> a \<and> \<not> p \<and> \<not> s,
     p \<and> s \<and> \<not> u \<and> \<not> a, p \<and> a \<and> \<not> u \<and> \<not> s, s \<and> a \<and> \<not> u \<and> \<not> p, u \<and> p \<and> s \<and> \<not> a,
     u \<and> p \<and> a \<and> \<not> s, u \<and> s \<and> a \<and> \<not> p, p \<and> s \<and> a \<and> \<not> u, u \<and> p \<and> s \<and> a]"
  unfolding hold_state_of_num by (cases u; cases p; cases s; cases a) simp_all

text \<open>
  The list for the hold state at position \<open>k\<close> holds exactly the ids whose accumulated
  hold flags are that state.
\<close>

lemma job_create_hold_id_lists_correct:
  assumes "wf_job j"
  obtains ls where "job_create_hold_id_lists j = Some (ls, hold_state_of)" "length ls = 16"
    "ids (ls ! 0) = ids (JB_ja_n_h_ids j)"
    "\<And>k i. 0 < k \<Longrightarrow> k < 16 \<Longrightarrow> i \<in> ids (ls ! k) \<longleftrightarrow> hold_of j i = hold_state_of ! k"
proof -
  obtain ls where ls: "job_create_hold_id_lists j = Some (ls, hold_state_of)"
    and sets: "let u = ids (JB_ja_u_h_ids j); p = ids (JB_ja_o_h_ids j); s = ids (JB_ja_s_h_ids j);
         a = ids (JB_ja_a_h_ids j) in
     map ids ls =
       [ids (JB_ja_n_h_ids j), u - p - s - a, p - u - s - a, s - u - p - a, a - u - p - s,
        u \<inter> p - s - a, u \<inter> s - p - a, u \<inter> a - p - s, p \<inter> s - u - a, p \<inter> a - u - s,
        s \<inter> a - u - p, u \<inter> p \<inter> s - a, u \<inter> p \<inter> a - s, u \<inter> s \<inter> a - p, p \<inter> s \<inter> a - u,
        u \<inter> p \<inter> s \<inter> a]"
    using job_create_hold_id_lists_sets[OF assms] by (auto simp: Let_def)
  have len: "length ls = 16" using arg_cong[OF sets[unfolded Let_def], of length] by simp
  have all2: "list_all2 (\<lambda>f S. (hold_of j i = f) = (i \<in> S)) (tl hold_state_of) (tl (map ids ls))" for i
    using hold_flags_cases[of "i \<in> ids (JB_ja_u_h_ids j)" "i \<in> ids (JB_ja_o_h_ids j)"
        "i \<in> ids (JB_ja_s_h_ids j)" "i \<in> ids (JB_ja_a_h_ids j)"]
    unfolding sets[unfolded Let_def] hold_state_of_num hold_of_def by (simp add: conj_commute conj_left_commute)
  have nth: "(hold_of j i = tl hold_state_of ! k) = (i \<in> tl (map ids ls) ! k)" if "k < 15" for i k
    using list_all2_nthD[OF all2[of i], of k] that by (simp add: hold_state_of_num)
  show ?thesis
  proof (rule that[OF ls len])
    show "ids (ls ! 0) = ids (JB_ja_n_h_ids j)"
      using arg_cong[OF sets[unfolded Let_def], of hd] len by (cases ls) simp_all
    fix k :: nat and i assume k: "0 < k" "k < 16"
    then show "i \<in> ids (ls ! k) \<longleftrightarrow> hold_of j i = hold_state_of ! k"
      using nth[of "k - 1" i] len by (simp add: nth_tl hold_state_of_num)
  qed
qed

section \<open>Writing and reading hold states\<close>

definition same_rest :: "job \<Rightarrow> job \<Rightarrow> bool" where
  \<comment> \<open>everything but the five id lists is the same\<close>
  "same_rest j j' \<longleftrightarrow> JB_ja_structure j' = JB_ja_structure j \<and> JB_ja_tasks j' = JB_ja_tasks j \<and>
     JB_ja_template j' = JB_ja_template j"

definition holds_in :: "flags \<Rightarrow> id_attr \<Rightarrow> bool" where
  \<comment> \<open>does the list hold the ids with this hold state?\<close>
  "holds_in h a \<longleftrightarrow> (if a = N_H then h AND MINUS_H_TGT_ALL = 0 else h AND hold_mask a \<noteq> 0)"

definition lists_set :: "id_attr set \<Rightarrow> flags \<Rightarrow> nat \<Rightarrow> job \<Rightarrow> job \<Rightarrow> bool" where
  \<comment> \<open>the lists in \<open>as\<close> hold the id as the hold state says, nothing else changed\<close>
  "lists_set as h i j j' \<longleftrightarrow> wf_job j' \<and> same_rest j j' \<and>
     (\<forall>b. ids (get_ids b j') =
       (if b \<in> as then (if holds_in h b then insert i (ids (get_ids b j)) else ids (get_ids b j) - {i})
        else ids (get_ids b j)))"

lemma set_hold_in_list_correct:
  assumes "wf_job j" "i < id_limit"
  obtains j' where "set_hold_in_list i h a j = Some j'" "lists_set {a} h i j j'"
proof -
  obtain q where q: "(if holds_in h a then range_list_insert_id i (get_ids a j)
        else range_list_remove_id i (get_ids a j)) = Some q" "wf_ranges (range_list_compress q)"
      "ids (range_list_compress q) =
        (if holds_in h a then insert i (ids (get_ids a j)) else ids (get_ids a j) - {i})"
    using rl.toggle_norm[OF wf_jobD[OF assms(1)] assms(2)] .
  have "set_hold_in_list i h a j = Some (set_ids a (range_list_compress q) j)"
    using q(1) by (auto simp: set_hold_in_list_def holds_in_def split: if_splits)
  moreover have "lists_set {a} h i j (set_ids a (range_list_compress q) j)"
    using q(2,3) assms(1) by (simp add: lists_set_def wf_job_def same_rest_def)
  ultimately show ?thesis by (rule that)
qed

lemma lists_set_trans:
  "lists_set as h i j j1 \<Longrightarrow> lists_set bs h i j1 j2 \<Longrightarrow> as \<inter> bs = {} \<Longrightarrow> lists_set (as \<union> bs) h i j j2"
  unfolding lists_set_def same_rest_def by auto

lemma set_hold_loop:
  assumes "wf_job j" "i < id_limit" "distinct as"
  obtains j' where "foldo (set_hold_in_list i h) as j = Some j'" "lists_set (set as) h i j j'"
  using assms
proof (induction as arbitrary: j thesis)
  case Nil
  then show ?case by (simp add: lists_set_def same_rest_def)
next
  case (Cons a as)
  obtain j1 where j1: "set_hold_in_list i h a j = Some j1" "lists_set {a} h i j j1"
    using set_hold_in_list_correct[OF Cons.prems(2,3)] .
  then have "wf_job j1" by (simp add: lists_set_def)
  then obtain j2 where j2: "foldo (set_hold_in_list i h) as j1 = Some j2" "lists_set (set as) h i j1 j2"
    using Cons.IH[of j1] Cons.prems(3,4) by auto
  show ?case
    using Cons.prems(1)[of j2] lists_set_trans[OF j1(2) j2(2)] j1(1) j2(1) Cons.prems(4) by simp
qed

lemma unenrolled_bounded: "wf_job j \<Longrightarrow> i \<in> unenrolled j \<Longrightarrow> i < id_limit"
  using rl.bounded wf_job_lists by (metis Un_iff held_ids_def unenrolled_def)

text \<open>
  The pending branch of \<open>job_set_hold_state\<close>: afterwards each list holds the id exactly
  when the new hold state says so, and every other id is where it was.
\<close>

lemma job_set_hold_state_pending:
  assumes "wf_job j" "i \<in> unenrolled j"
  obtains j' where "job_set_hold_state j i h = Some j'" "lists_set UNIV h i j j'"
proof -
  have all: "set [N_H, U_H, O_H, S_H, A_H] = UNIV" using id_attr.exhaust by auto
  have dist: "distinct [N_H, U_H, O_H, S_H, A_H]" by simp
  obtain j' where "foldo (set_hold_in_list i h) [N_H, U_H, O_H, S_H, A_H] j = Some j'"
      "lists_set (set [N_H, U_H, O_H, S_H, A_H]) h i j j'"
    by (rule set_hold_loop[OF assms(1) unenrolled_bounded[OF assms] dist])
  then show ?thesis
    using assms by (intro that) (simp_all only: all job_set_hold_state_def job_is_enrolled_correct
        bind.bind_lunit simp_thms if_True)
qed

lemma hold_of_bits:
  "hold_of j i AND 1 \<noteq> 0 \<longleftrightarrow> i \<in> ids (JB_ja_u_h_ids j)"
  "hold_of j i AND 2 \<noteq> 0 \<longleftrightarrow> i \<in> ids (JB_ja_o_h_ids j)"
  "hold_of j i AND 4 \<noteq> 0 \<longleftrightarrow> i \<in> ids (JB_ja_s_h_ids j)"
  "hold_of j i AND 8 \<noteq> 0 \<longleftrightarrow> i \<in> ids (JB_ja_a_h_ids j)"
  by (simp_all add: hold_of_def)


lemma and_single_bit:
  fixes h :: flags
  shows "m = 2 ^ n \<Longrightarrow> (if h AND m \<noteq> 0 then m else 0) = h AND m"
  by (rule bit_word_eqI) (auto simp: bit_and_iff bit_exp_iff and_exp_eq_0_iff_not_bit)

lemma hold_bits_join:
  fixes h :: flags
  shows "(if h AND 1 \<noteq> 0 then 1 else 0) OR (if h AND 2 \<noteq> 0 then 2 else 0) OR
    (if h AND 4 \<noteq> 0 then 4 else 0) OR (if h AND 8 \<noteq> 0 then 8 else 0) = h AND 15"
proof -
  have "h AND 15 = h AND (1 OR 2 OR 4 OR 8)" by simp
  also have "\<dots> = (h AND 1) OR (h AND 2) OR (h AND 4) OR (h AND 8)"
    by (simp only: bit.conj_disj_distrib or.assoc)
  finally have all: "h AND 15 = (h AND 1) OR (h AND 2) OR (h AND 4) OR (h AND 8)" .
  have b1: "(if h AND 1 \<noteq> 0 then 1 else 0) = h AND 1" by (rule and_single_bit[of 1 0]) simp
  have b2: "(if h AND 2 \<noteq> 0 then 2 else 0) = h AND 2" by (rule and_single_bit[of 2 1]) simp
  have b4: "(if h AND 4 \<noteq> 0 then 4 else 0) = h AND 4" by (rule and_single_bit[of 4 2]) simp
  have b8: "(if h AND 8 \<noteq> 0 then 8 else 0) = h AND 8" by (rule and_single_bit[of 8 3]) simp
  show ?thesis by (simp only: all b1 b2 b4 b8)
qed

lemma lists_set_other:
  "lists_set UNIV h i j j' \<Longrightarrow> k \<noteq> i \<Longrightarrow> k \<in> ids (get_ids b j') \<longleftrightarrow> k \<in> ids (get_ids b j)"
  by (auto simp: lists_set_def)

lemma lists_set_hold_of:
  assumes "lists_set UNIV h i j j'"
  shows "hold_of j' i = h AND 15" "k \<noteq> i \<Longrightarrow> hold_of j' k = hold_of j k"
    "i \<in> ids (JB_ja_n_h_ids j') \<longleftrightarrow> h AND 15 = 0" "i \<in> unenrolled j'"
proof -
  have in_list: "i \<in> ids (get_ids b j') \<longleftrightarrow> holds_in h b" for b
    using assms by (auto simp: lists_set_def)
  note lists = in_list[of U_H] in_list[of O_H] in_list[of S_H] in_list[of A_H] in_list[of N_H]
  show hold: "hold_of j' i = h AND 15"
    using hold_bits_join[of h] lists by (simp add: hold_of_def holds_in_def hold_masks)
  show n_h: "i \<in> ids (JB_ja_n_h_ids j') \<longleftrightarrow> h AND 15 = 0"
    using lists by (simp add: holds_in_def hold_masks)
  show "k \<noteq> i \<Longrightarrow> hold_of j' k = hold_of j k"
    using lists_set_other[OF assms, of k U_H] lists_set_other[OF assms, of k O_H]
      lists_set_other[OF assms, of k S_H] lists_set_other[OF assms, of k A_H]
    by (simp add: hold_of_def)
  show "i \<in> unenrolled j'"
  proof (cases "h AND 15 = 0")
    case True
    then show ?thesis using n_h by (simp add: unenrolled_def)
  next
    case False
    then have "hold_of j' i \<noteq> 0" using hold by simp
    then show ?thesis by (auto simp: hold_of_def unenrolled_def held_ids_def split: if_splits)
  qed
qed

lemma lists_set_unenrolled:
  assumes "lists_set UNIV h i j j'" "i \<in> unenrolled j"
  shows "unenrolled j' = unenrolled j"
proof -
  have "k \<in> unenrolled j' \<longleftrightarrow> k \<in> unenrolled j" for k
  proof (cases "k = i")
    case True
    then show ?thesis using lists_set_hold_of(4)[OF assms(1)] assms(2) by simp
  next
    case False
    note other = lists_set_other[OF assms(1) this]
    from other[of N_H] other[of U_H] other[of O_H] other[of S_H] other[of A_H]
    show ?thesis by (simp add: unenrolled_def held_ids_def)
  qed
  then show ?thesis by blast
qed

lemma held_iff_hold_of: "i \<in> held_ids j \<longleftrightarrow> hold_of j i \<noteq> 0"
  by (auto simp: hold_of_def held_ids_def)

lemma job_set_hold_state_inv:
  assumes "job_inv j" "i \<in> unenrolled j" "job_set_hold_state j i h = Some j'"
  shows "job_inv j'" "unenrolled j' = unenrolled j" "tasks j' = tasks j"
    "job_get_hold_state j' i = Some (h AND 15)"
    "k \<noteq> i \<Longrightarrow> job_get_hold_state j' k = job_get_hold_state j k"
proof -
  have wf: "wf_job j" using assms(1) by (simp add: job_inv_def)
  have set: "lists_set UNIV h i j j'"
    using job_set_hold_state_pending[OF wf assms(2)] assms(3) by (metis option.inject)
  have wf': "wf_job j'" and rest: "same_rest j j'" using set by (auto simp: lists_set_def)
  show un: "unenrolled j' = unenrolled j" using lists_set_unenrolled[OF set assms(2)] .
  show ts: "tasks j' = tasks j" using rest by (simp add: same_rest_def tasks_def)
  have "k \<notin> ids (JB_ja_n_h_ids j') \<inter> held_ids j'" for k
  proof (cases "k = i")
    case True
    then show ?thesis using lists_set_hold_of[OF set] held_iff_hold_of[of i j'] by auto
  next
    case False
    then show ?thesis
      using assms(1) lists_set_hold_of(2)[OF set False] lists_set_other[OF set False, of N_H]
      by (auto simp: job_inv_def held_iff_hold_of)
  qed
  then show "job_inv j'"
    using assms(1) wf' un ts by (auto simp: job_inv_def enrolled_def)
  show "job_get_hold_state j' i = Some (h AND 15)"
    using wf' un assms(2) lists_set_hold_of(1)[OF set]
    by (simp add: job_get_hold_state_def job_is_enrolled_correct job_accumulate_hold_flags_correct)
  show "k \<noteq> i \<Longrightarrow> job_get_hold_state j' k = job_get_hold_state j k"
    using wf wf' un ts lists_set_hold_of(2)[OF set]
    by (simp add: job_get_hold_state_def job_is_enrolled_correct job_accumulate_hold_flags_correct
        job_search_task_def)
qed

section \<open>Enrolling, unenrolling and deleting tasks\<close>

lemma object_delete_range_id_correct:
  assumes "wf_job j"
  obtains j' where "object_delete_range_id a i j = Some j'" "wf_job j'" "same_rest j j'"
    "\<forall>b. ids (get_ids b j') = (if b = a then ids (get_ids b j) - {i} else ids (get_ids b j))"
proof -
  obtain q where q: "range_list_remove_id i (get_ids a j) = Some q" "wf_ranges (range_list_compress q)"
      "ids (range_list_compress q) = ids (get_ids a j) - {i}"
    using rl.del_norm[OF wf_jobD[OF assms]] .
  show ?thesis
  proof (rule that)
    show "object_delete_range_id a i j = Some (set_ids a (range_list_compress q) j)"
      using q(1) by (simp add: object_delete_range_id_def)
  qed (use q assms in \<open>simp_all add: wf_job_def same_rest_def\<close>)
qed

lemma job_search_task_None: "i \<notin> set (enrolled j) \<Longrightarrow> job_search_task j i = None"
  by (auto simp: job_search_task_def enrolled_def find_None_iff)

lemma template_pending_Cons:
  "JB_ja_template j \<noteq> [] \<Longrightarrow> \<exists>t ts. job_get_ja_task_template_pending j i =
     (j\<lparr>JB_ja_template := t # ts\<rparr>, Some t) \<and> JAT_task_number t = i \<and> JAT_state t = JQUEUED OR JWAITING"
proof -
  assume "JB_ja_template j \<noteq> []"
  then obtain t ts where "JB_ja_template j = t # ts" by (cases "JB_ja_template j") simp_all
  then show ?thesis
    by (intro exI[of _ "t\<lparr>JAT_state := JQUEUED OR JWAITING, JAT_task_number := i\<rparr>"] exI[of _ ts])
      (simp add: job_get_ja_task_template_pending_def Let_def)
qed

text \<open>
  Enrolling a task that is neither held nor enrolled takes its id out of the list of ids
  without hold and appends an element with its number: the task is in exactly one place.
\<close>

lemma job_enroll_new:
  assumes inv: "job_inv j" and ih: "i \<notin> held_ids j" and new: "i \<notin> set (enrolled j)"
    and lim: "i < id_limit" and t: "JB_ja_template j \<noteq> []"
  obtains j' t where "job_enroll j i = Some (j', Some t)" "job_inv j'"
    "unenrolled j' = unenrolled j - {i}" "tasks j' = tasks j @ [t]" "JAT_task_number t = i"
    "JAT_state t = JQUEUED OR JWAITING"
proof -
  have wf: "wf_job j" using inv by (simp add: job_inv_def)
  obtain j1 where j1: "object_delete_range_id N_H i j = Some j1" "wf_job j1" "same_rest j j1"
      and ids1: "\<forall>b. ids (get_ids b j1) = (if b = N_H then ids (get_ids b j) - {i} else ids (get_ids b j))"
    using object_delete_range_id_correct[OF wf] .
  have lists: "ids (JB_ja_n_h_ids j1) = ids (JB_ja_n_h_ids j) - {i}" "held_ids j1 = held_ids j"
    using ids1 by (simp_all add: all_attr held_ids_def)
  have ts: "tasks j1 = tasks j" using j1(3) by (simp add: same_rest_def tasks_def)
  from new have none: "job_search_task j1 i = None"
    using ts by (intro job_search_task_None) (simp add: enrolled_def)
  obtain t ts' where tmpl: "job_get_ja_task_template_pending j1 i = (j1\<lparr>JB_ja_template := t # ts'\<rparr>, Some t)"
      and num: "JAT_task_number t = i" "JAT_state t = JQUEUED OR JWAITING"
    using template_pending_Cons[of j1 i] t j1(3) by (auto simp: same_rest_def)
  define j' where "j' = j1\<lparr>JB_ja_template := t # ts', JB_ja_tasks := Some (tasks j @ [t])\<rparr>"
  have un: "unenrolled j' = unenrolled j - {i}"
    using lists ih by (auto simp: unenrolled_def j'_def held_ids_def)
  have ts2: "tasks j' = tasks j @ [t]" by (simp add: j'_def tasks_def)
  have en: "enrolled j' = enrolled j @ [i]" using num by (simp add: enrolled_def ts2)
  have held': "held_ids j' = held_ids j" using lists(2) by (simp add: held_ids_def j'_def)
  have nh': "ids (JB_ja_n_h_ids j') = ids (JB_ja_n_h_ids j) - {i}" using lists(1) by (simp add: j'_def)
  have wf': "wf_job j'" using j1(2) by (simp add: wf_job_def all_attr j'_def)
  have "job_inv j'"
    using inv un en held' nh' wf' new lim by (auto simp: job_inv_def)
  moreover have "job_enroll j i = Some (j', Some t)"
    using j1(1) none tmpl ts by (simp add: job_enroll_def j'_def tasks_def)
  ultimately show ?thesis using that num un ts2 by simp
qed

lemma job_enroll_correct:
  assumes inv: "job_inv j" and i: "i \<in> ids (JB_ja_n_h_ids j)" and t: "JB_ja_template j \<noteq> []"
  obtains j' t where "job_enroll j i = Some (j', Some t)" "job_inv j'"
    "unenrolled j' = unenrolled j - {i}" "tasks j' = tasks j @ [t]" "JAT_task_number t = i"
    "JAT_state t = JQUEUED OR JWAITING"
proof -
  have wf: "wf_job j" using inv by (simp add: job_inv_def)
  have iu: "i \<in> unenrolled j" and ih: "i \<notin> held_ids j"
    using inv i by (auto simp: job_inv_def unenrolled_def)
  then have "i \<notin> set (enrolled j)" using inv by (auto simp: job_inv_def)
  from job_enroll_new[OF inv ih this unenrolled_bounded[OF wf iu] t] that show ?thesis by blast
qed

text \<open>Enrolling a task that is enrolled already gives the element back.\<close>

lemma job_enroll_again:
  assumes inv: "job_inv j" and i: "i \<in> set (enrolled j)"
  obtains j' t where "job_enroll j i = Some (j', Some t)" "job_inv j'"
    "unenrolled j' = unenrolled j" "tasks j' = tasks j"
proof -
  have wf: "wf_job j" using inv by (simp add: job_inv_def)
  obtain j1 where j1: "object_delete_range_id N_H i j = Some j1" "wf_job j1" "same_rest j j1"
      and ids1: "\<forall>b. ids (get_ids b j1) = (if b = N_H then ids (get_ids b j) - {i} else ids (get_ids b j))"
    using object_delete_range_id_correct[OF wf] .
  have ts: "tasks j1 = tasks j" using j1(3) by (simp add: same_rest_def tasks_def)
  have "i \<notin> ids (JB_ja_n_h_ids j)" using inv i by (auto simp: job_inv_def unenrolled_def)
  then have lists: "ids (JB_ja_n_h_ids j1) = ids (JB_ja_n_h_ids j)" "held_ids j1 = held_ids j"
    using ids1 by (simp_all add: all_attr held_ids_def)
  then have "unenrolled j1 = unenrolled j" by (simp add: unenrolled_def)
  moreover from this have "job_inv j1" using inv j1(2) lists ts by (simp add: job_inv_def enrolled_def)
  moreover obtain t where "job_search_task j1 i = Some t"
    using i ts by (cases "job_search_task j1 i") (auto simp: job_search_task_def enrolled_def find_None_iff)
  then have "job_enroll j i = Some (j1, Some t)" using j1(1) by (simp add: job_enroll_def)
  ultimately show ?thesis using that ts by blast
qed

lemma job_unenroll_correct:
  assumes inv: "job_inv j" and ts: "JB_ja_tasks j = Some ts" and k: "k < length ts"
  obtains j' where "job_unenroll j (Some k) = Some j'" "job_inv j'"
    "unenrolled j' = insert (JAT_task_number (ts ! k)) (unenrolled j)"
    "tasks j' = take k ts @ drop (Suc k) ts"
    "JAT_task_number (ts ! k) \<in> ids (JB_ja_n_h_ids j')"
proof -
  let ?i = "JAT_task_number (ts ! k)"
  let ?ts = "take k ts @ drop (Suc k) ts"
  have wf: "wf_job j" using inv by (simp add: job_inv_def)
  have split: "ts = take k ts @ ts ! k # drop (Suc k) ts" using k by (rule id_take_nth_drop)
  have en: "enrolled j = map JAT_task_number (take k ts) @ ?i # map JAT_task_number (drop (Suc k) ts)"
    using arg_cong[OF split, of "map JAT_task_number"] ts by (simp add: enrolled_def tasks_def)
  have lt: "?i < id_limit" and new: "?i \<notin> unenrolled j"
    using inv en by (auto simp: job_inv_def)
  obtain q where q: "range_list_insert_id ?i (JB_ja_n_h_ids j) = Some q"
      "wf_ranges (range_list_compress q)" "ids (range_list_compress q) = insert ?i (ids (JB_ja_n_h_ids j))"
    using rl.ins_norm[OF wf_job_lists(1)[OF wf] lt] .
  define j' where "j' = j\<lparr>JB_ja_n_h_ids := range_list_compress q,
      JB_ja_tasks := (if ?ts = [] then None else Some ?ts)\<rparr>"
  have eq: "job_unenroll j (Some k) = Some j'" using q(1) ts by (simp add: job_unenroll_def j'_def Let_def)
  have ts': "tasks j' = ?ts" by (simp add: tasks_def j'_def)
  have held: "held_ids j' = held_ids j" by (simp add: held_ids_def j'_def)
  have nh: "ids (JB_ja_n_h_ids j') = insert ?i (ids (JB_ja_n_h_ids j))" using q(3) by (simp add: j'_def)
  have un: "unenrolled j' = insert ?i (unenrolled j)" using held nh by (simp add: unenrolled_def)
  have wf': "wf_job j'" using wf q(2) by (simp add: wf_job_def all_attr j'_def)
  have en': "enrolled j' = map JAT_task_number (take k ts) @ map JAT_task_number (drop (Suc k) ts)"
    by (simp add: enrolled_def ts')
  have "job_inv j'"
    using inv wf' held nh un en' en new by (auto simp: job_inv_def unenrolled_def)
  then show ?thesis by (rule that[OF eq _ un ts']) (simp add: nh)
qed

lemma delete_loop:
  assumes "wf_job j"
  obtains j' where "foldo (\<lambda>a j. object_delete_range_id a i j) as j = Some j'" "wf_job j'" "same_rest j j'"
    "\<forall>b. ids (get_ids b j') = (if b \<in> set as then ids (get_ids b j) - {i} else ids (get_ids b j))"
  using assms
proof (induction as arbitrary: j thesis)
  case Nil
  then show ?case by (simp add: same_rest_def)
next
  case (Cons a as)
  obtain j1 where j1: "object_delete_range_id a i j = Some j1" "wf_job j1" "same_rest j j1"
      "\<forall>b. ids (get_ids b j1) = (if b = a then ids (get_ids b j) - {i} else ids (get_ids b j))"
    using object_delete_range_id_correct[OF Cons.prems(2)] .
  obtain j2 where j2: "foldo (\<lambda>a j. object_delete_range_id a i j) as j1 = Some j2" "wf_job j2" "same_rest j1 j2"
      "\<forall>b. ids (get_ids b j2) = (if b \<in> set as then ids (get_ids b j1) - {i} else ids (get_ids b j1))"
    by (rule Cons.IH[OF _ j1(2)])
  show ?case
    by (rule Cons.prems(1)[of j2]) (use j1 j2 in \<open>simp_all add: same_rest_def\<close>)
qed

lemma job_delete_not_enrolled_correct:
  assumes "job_inv j"
  obtains j' where "job_delete_not_enrolled_ja_task j i = Some j'" "job_inv j'"
    "unenrolled j' = unenrolled j - {i}" "tasks j' = tasks j"
proof -
  have wf: "wf_job j" using assms by (simp add: job_inv_def)
  obtain j' where j': "job_delete_not_enrolled_ja_task j i = Some j'" "wf_job j'" "same_rest j j'"
      and lists: "\<forall>b. ids (get_ids b j') =
        (if b \<in> set [N_H, U_H, O_H, S_H, A_H] then ids (get_ids b j) - {i} else ids (get_ids b j))"
    unfolding job_delete_not_enrolled_ja_task_def using delete_loop[OF wf] .
  have ids': "ids (JB_ja_n_h_ids j') = ids (JB_ja_n_h_ids j) - {i}" "held_ids j' = held_ids j - {i}"
    using lists by (auto simp: all_attr held_ids_def)
  then have un: "unenrolled j' = unenrolled j - {i}" by (auto simp: unenrolled_def)
  have ts: "tasks j' = tasks j" using j'(3) by (simp add: same_rest_def tasks_def)
  have "job_inv j'"
    unfolding job_inv_def enrolled_def ts un ids' using assms(1) j'(2) by (auto simp: job_inv_def enrolled_def)
  then show ?thesis by (rule that[OF j'(1) _ un ts])
qed

section \<open>Counting\<close>

lemma unenrolled_finite: "wf_job j \<Longrightarrow> finite (unenrolled j)"
  by (simp add: unenrolled_def held_ids_def)

lemma job_get_not_enrolled_ja_tasks_correct:
  assumes "job_inv j"
  shows "job_get_not_enrolled_ja_tasks j = Some (card (unenrolled j))"
proof -
  have wf: "wf_job j" and disj: "ids (JB_ja_n_h_ids j) \<inter> held_ids j = {}"
    using assms by (simp_all add: job_inv_def)
  note wfs = wf_job_lists[OF wf]
  obtain p where p: "range_list_calculate_union_set None (Some []) (JB_ja_u_h_ids j) (JB_ja_o_h_ids j) =
      Some (p, Some [])" "wf_ranges p" "ids p = ids (JB_ja_u_h_ids j) \<union> ids (JB_ja_o_h_ids j)"
    using range_list_calculate_union_set_correct[OF wfs(2,3) no_error(2)] .
  obtain q where q: "range_list_calculate_union_set None (Some []) p (JB_ja_s_h_ids j) =
      Some (q, Some [])" "wf_ranges q" "ids q = ids p \<union> ids (JB_ja_s_h_ids j)"
    using range_list_calculate_union_set_correct[OF p(2) wfs(4) no_error(2)] .
  obtain r where r: "range_list_calculate_union_set None (Some []) q (JB_ja_a_h_ids j) =
      Some (r, Some [])" "wf_ranges r" "ids r = ids q \<union> ids (JB_ja_a_h_ids j)"
    using range_list_calculate_union_set_correct[OF q(2) wfs(5) no_error(2)] .
  have held: "ids r = held_ids j" using p(3) q(3) r(3) by (simp add: held_ids_def)
  have card: "card (ids (JB_ja_n_h_ids j)) + card (held_ids j) = card (unenrolled j)"
    using disj by (simp add: unenrolled_def card_Un_disjoint held_ids_def)
  have "card (ids (JB_ja_n_h_ids j)) \<le> id_limit" "card (ids r) \<le> id_limit - 0"
    using rl.card_ids_le[OF wfs(1)] rl.card_ids_le[OF r(2)] by simp_all
  have "unenrolled j \<subseteq> {..<id_limit}" using unenrolled_bounded[OF wf] by auto
  then have "card (unenrolled j) \<le> id_limit" using card_mono[of "{..<id_limit}"] by fastforce
  then have "add32 (add32 0 (card (ids (JB_ja_n_h_ids j)))) (card (held_ids j)) = card (unenrolled j)"
    using card by (simp add: u32_simps)
  then show ?thesis
    unfolding job_get_not_enrolled_ja_tasks_def
    by (simp add: p(1) q(1) r(1) rl.count[OF wfs(1)] rl.count[OF r(2)] held)
qed

lemma job_get_ja_tasks_correct:
  assumes "job_inv j"
  shows "job_get_ja_tasks j = Some (card (unenrolled j) + length (tasks j))"
proof -
  have wf: "wf_job j" using assms by (simp add: job_inv_def)
  have sub: "unenrolled j \<union> set (enrolled j) \<subseteq> {..<id_limit}"
    using assms unenrolled_bounded[OF wf] by (auto simp: job_inv_def)
  have "length (tasks j) = card (set (enrolled j))"
    using assms distinct_card[of "enrolled j"] by (simp add: job_inv_def enrolled_def)
  moreover have "card (unenrolled j) + card (set (enrolled j)) = card (unenrolled j \<union> set (enrolled j))"
    using assms unenrolled_finite[OF wf] by (intro card_Un_disjoint[symmetric]) (auto simp: job_inv_def)
  moreover have "card (unenrolled j \<union> set (enrolled j)) \<le> id_limit"
    using card_mono[OF _ sub] by simp
  ultimately show ?thesis
    by (simp add: job_get_ja_tasks_def job_get_not_enrolled_ja_tasks_correct[OF assms]
        job_get_enrolled_ja_tasks_def u32_simps)
qed

section \<open>Hold state of enrolled tasks\<close>

lemma find_update_first:
  "find P xs = Some x \<Longrightarrow> P (f x) \<Longrightarrow> find P (update_first P f xs) = Some (f x)"
  by (induction xs) (auto split: if_splits)

lemma map_update_first: "(\<And>x. P x \<Longrightarrow> g (f x) = g x) \<Longrightarrow> map g (update_first P f xs) = map g xs"
  by (induction xs) auto

lemma set_task_hold_sel [simp]:
  "JAT_task_number (set_task_hold h t) = JAT_task_number t" "JAT_hold (set_task_hold h t) = h"
  by (simp_all add: set_task_hold_def)

lemma set_task_hold_state:
  "JAT_state (set_task_hold h t) AND JHELD \<noteq> 0 \<longleftrightarrow> h \<noteq> 0"
proof -
  have "(x AND NOT m) AND m = 0" "(x OR m) AND m = m" for x m :: flags
    by (auto intro!: bit_word_eqI simp: bit_simps)
  then have "(x AND NOT JHELD) AND JHELD = 0" "(x OR JHELD) AND JHELD = JHELD" for x by blast+
  moreover have "JHELD \<noteq> 0" by (simp add: JHELD_def)
  ultimately show ?thesis by (simp add: set_task_hold_def)
qed

lemma job_set_hold_state_enrolled:
  assumes inv: "job_inv j" and i: "job_search_task j i = Some t"
  obtains j' where "job_set_hold_state j i h = Some j'" "job_inv j'" "enrolled j' = enrolled j"
    "unenrolled j' = unenrolled j" "job_search_task j' i = Some (set_task_hold h t)"
    "job_get_hold_state j' i = Some (h AND 15)"
proof -
  have wf: "wf_job j" using inv by (simp add: job_inv_def)
  obtain ts where ts: "JB_ja_tasks j = Some ts" and f: "find (\<lambda>t. JAT_task_number t = i) ts = Some t"
    using i by (cases "JB_ja_tasks j") (auto simp: job_search_task_def tasks_def)
  have num: "JAT_task_number t = i" and mem: "t \<in> set ts"
    using f by (auto simp: find_Some_iff) 
  then have "i \<in> set (enrolled j)" using ts by (auto simp: enrolled_def tasks_def)
  then have out: "i \<notin> unenrolled j" using inv by (auto simp: job_inv_def)
  define us where "us = update_first (\<lambda>t. JAT_task_number t = i) (set_task_hold h) ts"
  define j' where "j' = j\<lparr>JB_ja_tasks := Some us\<rparr>"
  have eq: "job_set_hold_state j i h = Some j'"
    using ts out wf by (simp add: job_set_hold_state_def job_is_enrolled_correct j'_def us_def)
  have en: "enrolled j' = enrolled j"
    using ts by (simp add: enrolled_def tasks_def j'_def us_def map_update_first)
  have un: "unenrolled j' = unenrolled j" "held_ids j' = held_ids j"
    by (simp_all add: unenrolled_def held_ids_def j'_def)
  have wf': "wf_job j'" using wf by (simp add: wf_job_def all_attr j'_def)
  have inv': "job_inv j'" using inv en un wf' by (simp add: job_inv_def j'_def)
  have search: "job_search_task j' i = Some (set_task_hold h t)"
    using find_update_first[OF f, of "set_task_hold h"] num
    by (simp add: job_search_task_def tasks_def j'_def us_def)
  have "job_get_hold_state j' i = Some (h AND 15)"
    using out un search wf' by (simp add: job_get_hold_state_def job_is_enrolled_correct hold_masks)
  then show ?thesis by (rule that[OF eq inv' en un(1) search])
qed

section \<open>Smallest and biggest enrolled ids\<close>

lemma fold_min: "fold (\<lambda>t ret. min ret (f t)) ts (a::nat) = Min (insert a (f ` set ts))"
proof (induction ts arbitrary: a)
  case (Cons t ts)
  have "insert (min a (f t)) (f ` set ts) = (if a \<le> f t then insert a (f ` set ts) else insert (f t) (f ` set ts))"
    by (simp add: min_def)
  then show ?case
    using Cons by (cases "ts = []") (simp_all add: min.assoc min.left_commute)
qed simp

lemma fold_max: "fold (\<lambda>t ret. max ret (f t)) ts (a::nat) = Max (insert a (f ` set ts))"
proof (induction ts arbitrary: a)
  case (Cons t ts)
  then show ?case by (cases "ts = []") (simp_all add: max.assoc max.left_commute)
qed simp

lemma job_get_enrolled_ids_correct:
  assumes "tasks j \<noteq> []"
  shows "job_get_smallest_enrolled_task_id j = Min (set (enrolled j))"
    "job_get_biggest_enrolled_task_id j = Max (set (enrolled j))"
proof -
  obtain t ts where t: "tasks j = t # ts" using assms by (cases "tasks j") auto
  show "job_get_smallest_enrolled_task_id j = Min (set (enrolled j))"
    by (simp add: job_get_smallest_enrolled_task_id_def t fold_min enrolled_def)
  obtain t ts where t: "rev (tasks j) = t # ts" using assms by (cases "tasks j" rule: rev_cases) auto
  have "set (enrolled j) = JAT_task_number ` set (rev (tasks j))" by (simp add: enrolled_def)
  then show "job_get_biggest_enrolled_task_id j = Max (set (enrolled j))"
    by (simp add: job_get_biggest_enrolled_task_id_def t fold_max)
qed

section \<open>The life of the tasks of a job\<close>

text \<open>
  A new job has its submitted ids in the list of tasks that are not held. From there on
  tasks are enrolled, put back, deleted and held in any order.
\<close>

definition known_ids :: "job \<Rightarrow> nat set" where
  "known_ids j = unenrolled j \<union> set (enrolled j)"

lemma job_initialize_id_lists_correct:
  assumes "wf_ranges (JB_ja_structure j)" "JB_ja_structure j \<noteq> None" "JB_ja_tasks j = None"
  obtains j' where "job_initialize_id_lists j al = (j', al, 0)" "job_inv j'"
    "unenrolled j' = ids (JB_ja_structure j)" "held_ids j' = {}" "JB_ja_structure j' = JB_ja_structure j"
    "tasks j' = []" "JB_ja_template j' = JB_ja_template j"
proof -
  obtain l where l: "JB_ja_structure j = Some l" using assms(2) by auto
  define j' where "j' = j\<lparr>JB_ja_n_h_ids := Some l, JB_ja_u_h_ids := None, JB_ja_o_h_ids := None,
             JB_ja_s_h_ids := None, JB_ja_a_h_ids := None\<rparr>"
  have "job_initialize_id_lists j al = (j', al, 0)" by (simp add: job_initialize_id_lists_def l j'_def)
  then show ?thesis
    by (rule that) (use assms l in \<open>simp_all add: j'_def job_inv_def wf_job_def all_attr unenrolled_def
        held_ids_def enrolled_def tasks_def\<close>)
qed

inductive job_step :: "job \<Rightarrow> job \<Rightarrow> bool" where
  enroll: "i \<notin> held_ids j \<Longrightarrow> job_create_task j i = Some (j', t) \<Longrightarrow> job_step j j'"
| unenroll: "k < length (tasks j) \<Longrightarrow> job_unenroll j (Some k) = Some j' \<Longrightarrow> job_step j j'"
| delete: "job_delete_not_enrolled_ja_task j i = Some j' \<Longrightarrow> job_step j j'"
| hold: "i \<in> known_ids j \<Longrightarrow> job_set_hold_state j i h = Some j' \<Longrightarrow> job_step j j'"

inductive_cases job_stepE: "job_step j j'"

definition job_start :: "job \<Rightarrow> job \<Rightarrow> bool" where
  "job_start j0 j \<longleftrightarrow> wf_ranges (JB_ja_structure j0) \<and> JB_ja_structure j0 \<noteq> None \<and>
     JB_ja_tasks j0 = None \<and> JB_ja_template j0 \<noteq> [] \<and> (\<exists>al. job_initialize_id_lists j0 al = (j, al, 0))"

lemma enroll_frame:
  assumes "job_enroll j i = Some (j', t)"
  shows "JB_ja_structure j' = JB_ja_structure j" "JB_ja_template j \<noteq> [] \<Longrightarrow> JB_ja_template j' \<noteq> []"
  using assms
  by (auto simp: job_enroll_def object_delete_range_id_def job_get_ja_task_template_pending_def Let_def
      split: option.splits list.splits bind_splits)

lemma unenroll_frame:
  assumes "job_unenroll j k = Some j'"
  shows "JB_ja_structure j' = JB_ja_structure j" "JB_ja_template j' = JB_ja_template j"
  using assms by (auto simp: job_unenroll_def Let_def split: option.splits bind_splits if_splits)

lemma foldo_frame:
  assumes "foldo f as s = Some s'" "\<And>a s s'. f a s = Some s' \<Longrightarrow> g s' = g s"
  shows "g s' = g s"
  using assms by (induction as arbitrary: s) (auto split: bind_splits)

lemma delete_frame:
  assumes "job_delete_not_enrolled_ja_task j i = Some j'"
  shows "JB_ja_structure j' = JB_ja_structure j" "JB_ja_template j' = JB_ja_template j"
proof -
  have frame: "JB_ja_structure j' = JB_ja_structure j" "JB_ja_template j' = JB_ja_template j"
    if "object_delete_range_id a i j = Some j'" for a j j'
    using that by (auto simp: object_delete_range_id_def bind_eq_Some_conv)
  note loop = foldo_frame[OF assms[unfolded job_delete_not_enrolled_ja_task_def]]
  show "JB_ja_structure j' = JB_ja_structure j" by (rule loop) (rule frame(1))
  show "JB_ja_template j' = JB_ja_template j" by (rule loop) (rule frame(2))
qed

lemma set_hold_in_list_frame:
  assumes "set_hold_in_list i h a j = Some j'"
  shows "JB_ja_structure j' = JB_ja_structure j" "JB_ja_template j' = JB_ja_template j"
  using assms by (auto simp: set_hold_in_list_def Let_def bind_eq_Some_conv)

lemma hold_frame:
  assumes "job_set_hold_state j i h = Some j'"
  shows "JB_ja_structure j' = JB_ja_structure j" "JB_ja_template j' = JB_ja_template j"
proof -
  let ?loop = "foldo (set_hold_in_list i h) [N_H, U_H, O_H, S_H, A_H] j"
  obtain e where "job_is_enrolled j i = Some e" and e: "e \<Longrightarrow> \<exists>ts. j' = j\<lparr>JB_ja_tasks := ts\<rparr>"
      "\<not> e \<Longrightarrow> ?loop = Some j'"
    using assms unfolding job_set_hold_state_def
    by (cases "job_is_enrolled j i") (auto simp del: foldo.simps split: if_splits)
  show "JB_ja_structure j' = JB_ja_structure j"
  proof (cases e)
    case True
    then show ?thesis using e(1) by auto
  next
    case False
    from foldo_frame[OF e(2)[OF this], of JB_ja_structure] set_hold_in_list_frame(1) show ?thesis by blast
  qed
  show "JB_ja_template j' = JB_ja_template j"
  proof (cases e)
    case True
    then show ?thesis using e(1) by auto
  next
    case False
    from foldo_frame[OF e(2)[OF this], of JB_ja_template] set_hold_in_list_frame(2) show ?thesis by blast
  qed
qed

lemma search_enrolled: "i \<in> set (enrolled j) \<Longrightarrow> \<exists>t. job_search_task j i = Some t"
  by (cases "job_search_task j i") (auto simp: job_search_task_def enrolled_def find_None_iff)

text \<open>
  One step keeps the invariant and adds no task id that was not submitted.
\<close>

lemma job_create_task_inv:
  assumes inv: "job_inv j" and st: "wf_ranges (JB_ja_structure j)" and t: "JB_ja_template j \<noteq> []"
    and i: "i \<notin> held_ids j" and c: "job_create_task j i = Some (j', r)"
  shows "job_inv j' \<and> JB_ja_template j' \<noteq> [] \<and> JB_ja_structure j' = JB_ja_structure j \<and>
    known_ids j' \<subseteq> known_ids j \<union> ids (JB_ja_structure j)"
proof (cases "i \<in> ids (JB_ja_structure j)")
  case True
  then have e: "job_enroll j i = Some (j', r)"
    using c st by (simp add: job_create_task_def job_is_ja_task_defined_def range_list_is_id_within_correct)
  have "i < id_limit" using True st rl.bounded by blast
  have "job_inv j' \<and> unenrolled j' \<subseteq> unenrolled j \<and> set (enrolled j') \<subseteq> insert i (set (enrolled j))"
  proof (cases "i \<in> set (enrolled j)")
    case True
    then obtain j1 t1 where "job_enroll j i = Some (j1, Some t1)" "job_inv j1"
        "unenrolled j1 = unenrolled j" "tasks j1 = tasks j"
      by (rule job_enroll_again[OF inv])
    with e show ?thesis by (auto simp: enrolled_def)
  next
    case False
    obtain j1 t1 where "job_enroll j i = Some (j1, Some t1)" "job_inv j1"
        "unenrolled j1 = unenrolled j - {i}" "tasks j1 = tasks j @ [t1]" "JAT_task_number t1 = i"
      using job_enroll_new[OF inv i False \<open>i < id_limit\<close> t] .
    with e show ?thesis by (auto simp: enrolled_def)
  qed
  then show ?thesis using enroll_frame[OF e] t True by (auto simp: known_ids_def)
qed (use assms in \<open>simp add: job_create_task_def job_is_ja_task_defined_def range_list_is_id_within_correct\<close>)

lemma job_step_inv:
  assumes "job_step j j'" "job_inv j" "JB_ja_template j \<noteq> []" "wf_ranges (JB_ja_structure j)"
  shows "job_inv j' \<and> JB_ja_template j' \<noteq> [] \<and> JB_ja_structure j' = JB_ja_structure j \<and>
    known_ids j' \<subseteq> known_ids j \<union> ids (JB_ja_structure j)"
  using assms(1)
proof cases
  case (enroll i t)
  then show ?thesis using job_create_task_inv assms by blast
next
  case (unenroll k)
  then obtain ts where ts: "JB_ja_tasks j = Some ts" "k < length ts"
    by (cases "JB_ja_tasks j") (auto simp: tasks_def)
  obtain j'' where j'': "job_unenroll j (Some k) = Some j''" "job_inv j''"
      "unenrolled j'' = insert (JAT_task_number (ts ! k)) (unenrolled j)"
      "tasks j'' = take k ts @ drop (Suc k) ts"
    using job_unenroll_correct[OF assms(2) ts] .
  have "set (enrolled j'') \<subseteq> set (enrolled j)" "JAT_task_number (ts ! k) \<in> set (enrolled j)"
    using ts set_take_subset[of k ts] set_drop_subset[of "Suc k" ts]
    by (auto simp: enrolled_def j''(4) tasks_def[of j])
  with j'' unenroll show ?thesis
    using unenroll_frame[OF unenroll(2)] assms(3) by (auto simp: known_ids_def)
next
  case (delete i)
  obtain j'' where "job_delete_not_enrolled_ja_task j i = Some j''" "job_inv j''"
      "unenrolled j'' = unenrolled j - {i}" "tasks j'' = tasks j"
    using job_delete_not_enrolled_correct[OF assms(2)] .
  with delete show ?thesis
    using delete_frame[OF delete] assms(3) by (auto simp: known_ids_def enrolled_def)
next
  case (hold i h)
  have "job_inv j' \<and> unenrolled j' = unenrolled j \<and> enrolled j' = enrolled j"
  proof (cases "i \<in> unenrolled j")
    case True
    with job_set_hold_state_inv[OF assms(2) True hold(2)] show ?thesis by (simp add: enrolled_def)
  next
    case False
    then obtain t where "job_search_task j i = Some t"
      using hold(1) search_enrolled by (auto simp: known_ids_def)
    from job_set_hold_state_enrolled[OF assms(2) this, of h] hold(2) show ?thesis by auto
  qed
  then show ?thesis using hold_frame[OF hold(2)] assms(3) by (simp add: known_ids_def)
qed

lemma job_reachable_inv:
  assumes "job_start j0 j" "job_step\<^sup>*\<^sup>* j j'"
  shows "job_inv j' \<and> JB_ja_template j' \<noteq> [] \<and> JB_ja_structure j' = JB_ja_structure j0 \<and>
    known_ids j' \<subseteq> ids (JB_ja_structure j0)"
  using assms(2)
proof (induction rule: rtranclp_induct)
  case base
  have start: "wf_ranges (JB_ja_structure j0)" "JB_ja_structure j0 \<noteq> None" "JB_ja_tasks j0 = None"
    and tmpl: "JB_ja_template j0 \<noteq> []" and "\<exists>al. job_initialize_id_lists j0 al = (j, al, 0)"
    using assms(1) by (auto simp: job_start_def)
  then obtain al where al: "job_initialize_id_lists j0 al = (j, al, 0)" by auto
  obtain j1 where j1: "job_initialize_id_lists j0 al = (j1, al, 0)" "job_inv j1"
    "unenrolled j1 = ids (JB_ja_structure j0)" "held_ids j1 = {}" "JB_ja_structure j1 = JB_ja_structure j0"
    "tasks j1 = []" "JB_ja_template j1 = JB_ja_template j0"
    using job_initialize_id_lists_correct[OF start] .
  then have "j1 = j" using al by simp
  with j1 tmpl show ?case by (simp add: known_ids_def enrolled_def)
next
  case (step j1 j2)
  moreover have "wf_ranges (JB_ja_structure j0)" using assms(1) by (simp add: job_start_def)
  ultimately show ?case using job_step_inv[OF step(2)] by auto
qed

end
