(* ===== verification/JobTasks_Props.thy ===== *)
theory JobTasks_Props
  imports JobTasks_Correct Range_Props "HOL-Library.Code_Target_Nat"
begin

text \<open>
  The properties of the job's array tasks: the invariant over every sequence of operations,
  what enrolling, unenrolling, deleting and holding do to the tasks, the counts, the hold
  lists, and the smallest and biggest task ids.
\<close>

unbundle bit_operations_syntax

definition example_task :: ja_task where
  "example_task = \<lparr>JAT_task_number = 0, JAT_status = 0, JAT_state = 0, JAT_hold = 0, JAT_task_list = []\<rparr>"

definition example_job :: job where
  \<comment> \<open>tasks 1-5, 9-12 and 20: 3 and 4 are held by the user, 4 by the system, 20 is enrolled\<close>
  "example_job = \<lparr>JB_ja_structure = Some [rng 1 20 1],
     JB_ja_n_h_ids = Some [rng 1 2 1, rng 5 5 1, rng 9 12 1], JB_ja_u_h_ids = Some [rng 3 4 1],
     JB_ja_o_h_ids = None, JB_ja_s_h_ids = Some [rng 4 4 1], JB_ja_a_h_ids = None,
     JB_ja_tasks = Some [example_task\<lparr>JAT_task_number := 20\<rparr>], JB_ja_template = [example_task]\<rparr>"

lemma example_sets:
  "unenrolled example_job = {1, 2, 3, 4, 5, 9, 10, 11, 12}" "held_ids example_job = {3, 4}"
  "ids (JB_ja_n_h_ids example_job) = {1, 2, 5, 9, 10, 11, 12}"
  "enrolled example_job = [20]"
  by (auto simp: unenrolled_def held_ids_def example_job_def range_ids_def ap_code upt_rec enrolled_def tasks_def)

lemma example_inv: "job_inv example_job"
  unfolding job_inv_def example_sets by (simp add: wf_job_def all_attr example_job_def)

section \<open>The invariant\<close>

text \<open>C1. From the initial id lists of a job with a task template on, any sequence of
  \<open>job_create_task\<close> for ids that are not held at that moment, of \<open>job_unenroll\<close> for elements
  of the task list, of \<open>job_delete_not_enrolled_ja_task\<close> for any id and of
  \<open>job_set_hold_state\<close> for tasks the job has leaves the job consistent: no task is both held
  and not held, no task is both enrolled and pending, the enrolled numbers are distinct, and
  every task is one of those submitted. The functions do not check these conditions themselves:
  \<open>held_task_is_enrolled\<close> below shows what enrolling a held task does.\<close>

theorem job_tasks_stay_consistent:
  assumes "job_start j0 j" "job_step\<^sup>*\<^sup>* j j'"
  shows "ids (JB_ja_n_h_ids j') \<inter> held_ids j' = {} \<and> set (enrolled j') \<inter> unenrolled j' = {} \<and>
    distinct (enrolled j') \<and> unenrolled j' \<union> set (enrolled j') \<subseteq> ids (JB_ja_structure j0)"
  using job_reachable_inv[OF assms] by (auto simp: job_inv_def known_ids_def)

definition fresh_job :: job where
  "fresh_job = example_job\<lparr>JB_ja_tasks := None, JB_ja_n_h_ids := None, JB_ja_u_h_ids := None, JB_ja_s_h_ids := None\<rparr>"

definition started_job :: job where
  "started_job = fresh_job\<lparr>JB_ja_n_h_ids := Some [rng 1 20 1]\<rparr>"

lemma fresh_start: "job_start fresh_job started_job"
  by (simp add: job_start_def fresh_job_def example_job_def started_job_def job_initialize_id_lists_def)

theorem job_tasks_stay_consistent_witness:
  "\<exists>j'. job_step started_job j' \<and> 3 \<in> set (enrolled j') \<and> set (enrolled j') \<inter> unenrolled j' = {}"
proof -
  have in_list: "3 \<in> ids (JB_ja_n_h_ids started_job)"
    by (simp add: started_job_def fresh_job_def example_job_def range_ids_def ap_def)
  have "job_inv started_job" "JB_ja_template started_job \<noteq> []"
    using job_reachable_inv[OF fresh_start, of started_job] by auto
  then obtain j' t where j': "job_enroll started_job 3 = Some (j', Some t)"
      "tasks j' = tasks started_job @ [t]" "JAT_task_number t = 3"
    using job_enroll_correct[OF _ in_list] by metis
  have "job_create_task started_job 3 = Some (j', Some t)"
    using j'(1) by (simp add: job_create_task_def job_is_ja_task_defined_def range_list_is_id_within_correct
        started_job_def fresh_job_def example_job_def range_ids_def ap_def)
  moreover have "3 \<notin> held_ids started_job"
    by (simp add: held_ids_def started_job_def fresh_job_def example_job_def)
  ultimately have step: "job_step started_job j'" by (rule job_step.enroll[rotated])
  then have "job_step\<^sup>*\<^sup>* started_job j'" by (rule r_into_rtranclp)
  from job_tasks_stay_consistent[OF fresh_start this] step j' show ?thesis
    by (intro exI[of _ j']) (simp add: enrolled_def)
qed

text \<open>\<open>job_enroll\<close> takes the id out of the list of tasks without hold only, and neither it nor
  \<open>job_create_task\<close> looks at the hold lists: a held task that is enrolled stays in them, so that
  it is enrolled and pending at once and counted twice. The order that starts a task tests the
  list first, the order that removes an immediate job does not.\<close>

lemma held_task_is_enrolled:
  "\<exists>j' t. job_create_task example_job 3 = Some (j', Some t) \<and> job_get_ja_tasks example_job = Some 10 \<and>
     enrolled j' = [20, 3] \<and> job_is_enrolled j' 3 = Some False \<and> job_get_ja_tasks j' = Some 11"
proof -
  have "case job_create_task example_job 3 of Some (j', Some t) \<Rightarrow>
      job_get_ja_tasks example_job = Some 10 \<and> enrolled j' = [20, 3] \<and>
      job_is_enrolled j' 3 = Some False \<and> job_get_ja_tasks j' = Some 11 | _ \<Rightarrow> False"
    by code_simp
  then show ?thesis by (auto split: option.splits)
qed

section \<open>Enrolling, unenrolling, deleting\<close>

text \<open>C2. \<open>job_enroll\<close> on a pending task that is not held appends an element with its number in
  the state queued and waiting, takes the id out of the pending ids, and keeps the number of
  tasks of the job.\<close>

theorem job_enroll_moves_task:
  assumes "job_inv j" "i \<in> ids (JB_ja_n_h_ids j)" "JB_ja_template j \<noteq> []"
  shows "\<exists>j' t. job_enroll j i = Some (j', Some t) \<and> job_inv j' \<and> unenrolled j' = unenrolled j - {i} \<and>
    tasks j' = tasks j @ [t] \<and> JAT_task_number t = i \<and> JAT_state t = JQUEUED OR JWAITING \<and>
    job_get_ja_tasks j' = job_get_ja_tasks j"
proof -
  obtain j' t where j': "job_enroll j i = Some (j', Some t)" "job_inv j'"
    "unenrolled j' = unenrolled j - {i}" "tasks j' = tasks j @ [t]" "JAT_task_number t = i"
    "JAT_state t = JQUEUED OR JWAITING"
    using job_enroll_correct[OF assms] .
  have wf: "wf_job j" using assms(1) by (simp add: job_inv_def)
  have "card (unenrolled j) = Suc (card (unenrolled j - {i}))"
    by (rule card.remove[OF unenrolled_finite[OF wf]]) (use assms(2) in \<open>simp add: unenrolled_def\<close>)
  then have "job_get_ja_tasks j' = job_get_ja_tasks j"
    using job_get_ja_tasks_correct assms(1) j' by simp
  with j' show ?thesis by blast
qed

theorem job_enroll_moves_task_witness:
  "\<exists>j' t. job_enroll example_job 9 = Some (j', Some t) \<and> unenrolled j' = {1, 2, 3, 4, 5, 10, 11, 12} \<and>
     JAT_task_number t = 9"
proof -
  have "{1, 2, 3, 4, 5, 9, 10, 11, 12} - {9} = {1, 2, 3, 4, 5, 10, 11, 12::nat}" by auto
  moreover have "JB_ja_template example_job \<noteq> []" by (simp add: example_job_def)
  ultimately show ?thesis
    using job_enroll_moves_task[of example_job 9] example_inv by (auto simp: example_sets)
qed

text \<open>\<open>job_unenroll\<close> takes the element out of the task list and puts its id back among the
  ids that are not held; the job keeps its number of tasks.\<close>

lemma job_unenroll_moves_task:
  assumes "job_inv j" "JB_ja_tasks j = Some ts" "k < length ts"
  shows "\<exists>j'. job_unenroll j (Some k) = Some j' \<and> job_inv j' \<and> tasks j' = take k ts @ drop (Suc k) ts \<and>
    unenrolled j' = insert (JAT_task_number (ts ! k)) (unenrolled j) \<and>
    JAT_task_number (ts ! k) \<in> ids (JB_ja_n_h_ids j') \<and> job_get_ja_tasks j' = job_get_ja_tasks j"
proof -
  obtain j' where j': "job_unenroll j (Some k) = Some j'" "job_inv j'"
    "unenrolled j' = insert (JAT_task_number (ts ! k)) (unenrolled j)"
    "tasks j' = take k ts @ drop (Suc k) ts" "JAT_task_number (ts ! k) \<in> ids (JB_ja_n_h_ids j')"
    using job_unenroll_correct[OF assms] .
  have wf: "wf_job j" using assms(1) by (simp add: job_inv_def)
  have "JAT_task_number (ts ! k) \<in> set (enrolled j)" using assms(2,3) by (simp add: enrolled_def tasks_def)
  then have "JAT_task_number (ts ! k) \<notin> unenrolled j" using assms(1) by (auto simp: job_inv_def)
  then have "card (unenrolled j') = Suc (card (unenrolled j))"
    using unenrolled_finite[OF wf] j'(3) by simp
  moreover have "length (tasks j) = Suc (length (tasks j'))"
    using assms(2,3) j'(4) by (simp add: tasks_def[of j])
  ultimately have "job_get_ja_tasks j' = job_get_ja_tasks j"
    using job_get_ja_tasks_correct assms(1) j'(2) by simp
  with j' show ?thesis by blast
qed

text \<open>\<open>job_delete_not_enrolled_ja_task\<close> removes exactly the given id from the pending ids,
  held or not, and touches no enrolled task.\<close>

lemma job_delete_not_enrolled_removes_id:
  assumes "job_inv j"
  shows "\<exists>j'. job_delete_not_enrolled_ja_task j i = Some j' \<and> job_inv j' \<and>
    unenrolled j' = unenrolled j - {i} \<and> tasks j' = tasks j"
  by (rule job_delete_not_enrolled_correct[OF assms]) blast

section \<open>Counts\<close>

text \<open>\<open>job_get_not_enrolled_ja_tasks\<close> counts every pending task once, however many of the
  hold lists it is in, and \<open>job_get_ja_tasks\<close> adds the enrolled ones without wrap-around.\<close>

lemma job_get_ja_tasks_counts_tasks:
  assumes "job_inv j"
  shows "job_get_not_enrolled_ja_tasks j = Some (card (unenrolled j)) \<and>
    job_get_ja_tasks j = Some (card (unenrolled j) + length (tasks j))"
  using job_get_not_enrolled_ja_tasks_correct[OF assms] job_get_ja_tasks_correct[OF assms] by simp

section \<open>Hold states\<close>

text \<open>C3. For a pending task, \<open>job_get_hold_state\<close> reads back what \<open>job_set_hold_state\<close> wrote,
  restricted to the four hold kinds; the set of pending tasks and the hold state of every
  other task stay as they were.\<close>

theorem job_hold_state_round_trip:
  assumes "job_inv j" "i \<in> unenrolled j"
  shows "\<exists>j'. job_set_hold_state j i h = Some j' \<and> job_inv j' \<and> unenrolled j' = unenrolled j \<and>
    tasks j' = tasks j \<and> job_get_hold_state j' i = Some (h AND MINUS_H_TGT_ALL) \<and>
    (\<forall>k. k \<noteq> i \<longrightarrow> job_get_hold_state j' k = job_get_hold_state j k)"
proof -
  have "wf_job j" using assms(1) by (simp add: job_inv_def)
  then obtain j' where j': "job_set_hold_state j i h = Some j'"
    using job_set_hold_state_pending[OF _ assms(2)] by metis
  from job_set_hold_state_inv[OF assms j'] j' show ?thesis by (auto simp: hold_masks)
qed

theorem job_hold_state_round_trip_witness:
  "\<exists>j'. job_set_hold_state example_job 4 6 = Some j' \<and> job_get_hold_state j' 4 = Some 6 \<and>
     job_get_hold_state j' 3 = job_get_hold_state example_job 3"
  using job_hold_state_round_trip[OF example_inv, of 4 6] by (auto simp: example_sets hold_masks)

text \<open>For an enrolled task the hold state is kept in the task, whose state carries the held
  flag exactly when some hold is set; reading it gives back what was written.\<close>

lemma job_hold_state_enrolled_round_trip:
  assumes "job_inv j" "job_search_task j i = Some t"
  shows "\<exists>j' t'. job_set_hold_state j i h = Some j' \<and> job_inv j' \<and> enrolled j' = enrolled j \<and>
    unenrolled j' = unenrolled j \<and> job_search_task j' i = Some t' \<and> JAT_hold t' = h \<and>
    (JAT_state t' AND JHELD \<noteq> 0 \<longleftrightarrow> h \<noteq> 0) \<and> job_get_hold_state j' i = Some (h AND MINUS_H_TGT_ALL)"
proof -
  obtain j' where "job_set_hold_state j i h = Some j'" "job_inv j'" "enrolled j' = enrolled j"
    "unenrolled j' = unenrolled j" "job_search_task j' i = Some (set_task_hold h t)"
    "job_get_hold_state j' i = Some (h AND 15)"
    using job_set_hold_state_enrolled[OF assms] .
  then show ?thesis
    by (intro exI[of _ j'] exI[of _ "set_task_hold h t"]) (simp add: set_task_hold_state hold_masks)
qed

text \<open>\<open>job_create_hold_id_lists\<close> returns, for each of the sixteen hold states, the list of
  exactly the ids whose accumulated hold flags are that state.\<close>

lemma hold_id_lists_partition:
  assumes "job_inv j"
  shows "\<exists>ls. job_create_hold_id_lists j = Some (ls, hold_state_of) \<and> length ls = 16 \<and>
    ids (ls ! 0) = ids (JB_ja_n_h_ids j) \<and>
    (\<forall>k i. 0 < k \<longrightarrow> k < 16 \<longrightarrow>
       (i \<in> ids (ls ! k) \<longleftrightarrow> job_accumulate_hold_flags j i = Some (hold_state_of ! k)))"
proof -
  have wf: "wf_job j" using assms by (simp add: job_inv_def)
  then show ?thesis
    by (rule job_create_hold_id_lists_correct) (auto simp: job_accumulate_hold_flags_correct[OF wf])
qed

section \<open>Extreme ids\<close>

text \<open>The smallest and the biggest enrolled task id are the least and the greatest number in
  the task list.\<close>

lemma enrolled_ids_extreme:
  assumes "tasks j \<noteq> []"
  shows "job_get_smallest_enrolled_task_id j = Min (set (enrolled j)) \<and>
    job_get_biggest_enrolled_task_id j = Max (set (enrolled j))"
  using job_get_enrolled_ids_correct[OF assms] by simp

text \<open>\<open>job_get_smallest_unenrolled_task_id\<close> is wrong as soon as a task is held by the array
  dependency: with tasks 1-9 not held and 10 so held it answers 10, with only such tasks 0.\<close>

lemma smallest_unenrolled_task_id_wrong:
  "let j = example_job\<lparr>JB_ja_n_h_ids := Some [rng 1 9 1], JB_ja_u_h_ids := None, JB_ja_s_h_ids := None,
             JB_ja_a_h_ids := Some [rng 10 10 1]\<rparr> in
   job_get_smallest_unenrolled_task_id j = 10 \<and> Min (unenrolled j) = 1 \<and>
   job_get_smallest_unenrolled_task_id (j\<lparr>JB_ja_n_h_ids := None\<rparr>) = 0"
  by (simp add: job_get_smallest_unenrolled_task_id_def job_get_extreme_unenrolled_task_id_def
      range_list_get_first_id_def example_job_def extreme_step_def extreme_def unenrolled_def held_ids_def
      range_ids_def ap_code upt_rec)

end
