(* ===== verification/FifoLock.thy ===== *)
theory FifoLock
  imports Main
begin

text \<open>
  The reader/writer lock of \<^verbatim>\<open>source/libs/uti/sge_lock_fifo.cc\<close>. Waiting threads sit in a
  ring buffer of \<^verbatim>\<open>FIFO_LOCK_QUEUE_LENGTH\<close> slots, each with its own condition variable;
  threads that find the ring full wait outside on one condition. Everything between two waits
  happens under the mutex of the lock, so the model has one definition per such section and a
  step relation that interleaves the sections of any number of requests. A waiting thread may
  wake up at any time, as POSIX allows; what it does then is decided by the flags of the lock.
  The calls of the thread library succeed in the model.
\<close>

section \<open>Data\<close>

definition FIFO_LOCK_QUEUE_LENGTH :: nat where
  "FIFO_LOCK_QUEUE_LENGTH = 512"

record sge_fifo_elem =
  is_reader :: bool
  is_signaled :: bool

record sge_fifo_rw_lock =
  array :: "sge_fifo_elem list"
  head :: nat
  tail :: nat
  qsize :: nat
  reader_active :: int
  reader_waiting :: int
  writer_active :: int
  writer_waiting :: int
  waiting :: int
  signaled :: int

text \<open>Where a request for the lock is: not made or released, waiting outside the queue, waiting in
  a slot of the queue, or holding the lock.\<close>

datatype request = Idle | Outside bool | Queued bool nat | Active bool

section \<open>Operations\<close>

definition sge_fifo_lock_init :: sge_fifo_rw_lock where
  "sge_fifo_lock_init =
     \<lparr>array = replicate FIFO_LOCK_QUEUE_LENGTH \<lparr>is_reader = False, is_signaled = False\<rparr>,
      head = 0, tail = 0, qsize = FIFO_LOCK_QUEUE_LENGTH,
      reader_active = 0, reader_waiting = 0, writer_active = 0, writer_waiting = 0,
      waiting = 0, signaled = 0\<rparr>"

definition queue_full :: "sge_fifo_rw_lock \<Rightarrow> bool" where
  "queue_full l \<longleftrightarrow> reader_waiting l + writer_waiting l = int FIFO_LOCK_QUEUE_LENGTH"

definition do_wait_in_queue :: "bool \<Rightarrow> sge_fifo_rw_lock \<Rightarrow> bool" where
  "do_wait_in_queue rd l \<longleftrightarrow>
     (if rd then writer_active l + writer_waiting l + signaled l > 0
      else writer_active l + reader_active l + signaled l > 0)"

definition inc_waiting :: "bool \<Rightarrow> sge_fifo_rw_lock \<Rightarrow> sge_fifo_rw_lock" where
  "inc_waiting rd l =
     (if rd then l\<lparr>reader_waiting := reader_waiting l + 1\<rparr> else l\<lparr>writer_waiting := writer_waiting l + 1\<rparr>)"

definition dec_waiting :: "bool \<Rightarrow> sge_fifo_rw_lock \<Rightarrow> sge_fifo_rw_lock" where
  "dec_waiting rd l =
     (if rd then l\<lparr>reader_waiting := reader_waiting l - 1\<rparr> else l\<lparr>writer_waiting := writer_waiting l - 1\<rparr>)"

definition inc_active :: "bool \<Rightarrow> sge_fifo_rw_lock \<Rightarrow> sge_fifo_rw_lock" where
  "inc_active rd l =
     (if rd then l\<lparr>reader_active := reader_active l + 1\<rparr> else l\<lparr>writer_active := writer_active l + 1\<rparr>)"

definition dec_active :: "bool \<Rightarrow> sge_fifo_rw_lock \<Rightarrow> sge_fifo_rw_lock" where
  "dec_active rd l =
     (if rd then l\<lparr>reader_active := reader_active l - 1\<rparr> else l\<lparr>writer_active := writer_active l - 1\<rparr>)"

definition next_pos :: "sge_fifo_rw_lock \<Rightarrow> nat \<Rightarrow> nat" where
  "next_pos l p = (if p + 1 = qsize l then 0 else p + 1)"

definition signal_slot :: "nat \<Rightarrow> sge_fifo_rw_lock \<Rightarrow> sge_fifo_rw_lock" where
  \<comment> \<open>\<^verbatim>\<open>pthread_cond_signal\<close> makes the thread of the slot run soon; here a waiting thread may wake at any time\<close>
  "signal_slot p l =
     l\<lparr>array := (array l)[p := (array l ! p)\<lparr>is_signaled := True\<rparr>], signaled := signaled l + 1\<rparr>"

definition wait_in_queue :: "bool \<Rightarrow> sge_fifo_rw_lock \<Rightarrow> sge_fifo_rw_lock \<times> request" where
  "wait_in_queue rd l =
     (let index = tail l;
          l1 = l\<lparr>tail := next_pos l (tail l)\<rparr>;
          l2 = l1\<lparr>array := (array l1)[index := \<lparr>is_reader = rd, is_signaled = False\<rparr>]\<rparr>
      in (inc_waiting rd l2, Queued rd index))"

definition sge_fifo_lock_internal :: "bool \<Rightarrow> sge_fifo_rw_lock \<Rightarrow> sge_fifo_rw_lock \<times> request" where
  \<comment> \<open>from taking the mutex to the first wait or to the return\<close>
  "sge_fifo_lock_internal rd l =
     (if queue_full l then (l\<lparr>waiting := waiting l + 1\<rparr>, Outside rd)
      else if do_wait_in_queue rd l then wait_in_queue rd l
      else (inc_active rd l, Active rd))"

definition resume_outside :: "bool \<Rightarrow> sge_fifo_rw_lock \<Rightarrow> sge_fifo_rw_lock \<times> request" where
  \<comment> \<open>waking up from the wait for a place in the queue\<close>
  "resume_outside rd l = sge_fifo_lock_internal rd (l\<lparr>waiting := waiting l - 1\<rparr>)"

definition leave_queue :: "bool \<Rightarrow> sge_fifo_rw_lock \<Rightarrow> sge_fifo_rw_lock" where
  \<comment> \<open>from the end of the waiting loop to the return\<close>
  "leave_queue rd l =
     (let index = head l;
          l1 = l\<lparr>head := next_pos l (head l)\<rparr>;
          l2 = (if is_reader (array l1 ! index) \<and> reader_waiting l1 > 0 \<and> is_reader (array l1 ! head l1)
                then signal_slot (head l1) l1 else l1);
          l3 = l2\<lparr>array := (array l2)[index := \<lparr>is_reader = False, is_signaled = False\<rparr>]\<rparr>
      in inc_active rd l3)"

definition resume_queued :: "bool \<Rightarrow> nat \<Rightarrow> sge_fifo_rw_lock \<Rightarrow> sge_fifo_rw_lock \<times> request" where
  \<comment> \<open>waking up in a slot of the queue\<close>
  "resume_queued rd index l =
     (let l1 = dec_waiting rd l in
      if \<not> is_signaled (array l1 ! index) then (inc_waiting rd l1, Queued rd index)
      else (leave_queue rd (l1\<lparr>signaled := signaled l1 - 1\<rparr>), Active rd))"

definition sge_fifo_try_lock :: "bool \<Rightarrow> sge_fifo_rw_lock \<Rightarrow> sge_fifo_rw_lock \<times> request" where
  "sge_fifo_try_lock rd l =
     (let queue_already_full = queue_full l;
          someone_blocks_us =
            (if rd then writer_active l + writer_waiting l > 0
             else writer_active l + reader_active l + signaled l > 0)
      in if queue_already_full \<or> someone_blocks_us then (l, Idle)
         else sge_fifo_lock_internal rd l)"

definition sge_fifo_ulock :: "bool \<Rightarrow> sge_fifo_rw_lock \<Rightarrow> sge_fifo_rw_lock" where
  "sge_fifo_ulock rd l =
     (let l1 = dec_active rd l in
      if reader_active l1 + writer_active l1 + signaled l1 = 0 \<and> reader_waiting l1 + writer_waiting l1 > 0
      then signal_slot (head l1) l1 else l1)"

definition sge_fifo_get_details :: "sge_fifo_rw_lock \<Rightarrow> int \<times> int \<times> int \<times> int \<times> int \<times> int" where
  "sge_fifo_get_details l =
     (reader_active l, reader_waiting l, writer_active l, writer_waiting l, waiting l, signaled l)"

section \<open>Interleaving\<close>

type_synonym fifo_state = "sge_fifo_rw_lock \<times> (nat \<Rightarrow> request)"

inductive fifo_step :: "fifo_state \<Rightarrow> fifo_state \<Rightarrow> bool" where
  lock: "pcs t = Idle \<Longrightarrow> sge_fifo_lock_internal rd l = (l', pc) \<Longrightarrow> fifo_step (l, pcs) (l', pcs(t := pc))"
| try_lock: "pcs t = Idle \<Longrightarrow> sge_fifo_try_lock rd l = (l', pc) \<Longrightarrow> fifo_step (l, pcs) (l', pcs(t := pc))"
| wake_outside: "pcs t = Outside rd \<Longrightarrow> resume_outside rd l = (l', pc) \<Longrightarrow> fifo_step (l, pcs) (l', pcs(t := pc))"
| wake_queued: "pcs t = Queued rd i \<Longrightarrow> resume_queued rd i l = (l', pc) \<Longrightarrow> fifo_step (l, pcs) (l', pcs(t := pc))"
| unlock: "pcs t = Active rd \<Longrightarrow> fifo_step (l, pcs) (sge_fifo_ulock rd l, pcs(t := Idle))"

inductive_cases fifo_stepE: "fifo_step s s'"

definition fifo_start :: fifo_state where
  "fifo_start = (sge_fifo_lock_init, \<lambda>t. Idle)"

section \<open>The specification: a queue and the holders\<close>

type_synonym spec_state = "(nat \<times> bool) list \<times> (nat \<times> bool) set"

definition compatible :: "bool \<Rightarrow> (nat \<times> bool) set \<Rightarrow> bool" where
  \<comment> \<open>may a reader, or a writer, join these holders?\<close>
  "compatible rd H \<longleftrightarrow> (if rd then \<forall>h\<in>H. snd h else H = {})"

inductive spec_step :: "spec_state \<Rightarrow> spec_state \<Rightarrow> bool" where
  direct: "compatible rd H \<Longrightarrow> spec_step ([], H) ([], insert (t, rd) H)"
| queue: "spec_step (q, H) (q @ [(t, rd)], H)"
| grant: "compatible rd H \<Longrightarrow> spec_step ((t, rd) # q, H) (q, insert (t, rd) H)"
| release: "h \<in> H \<Longrightarrow> spec_step (q, H) (q, H - {h})"
| stutter: "spec_step s s"

end
