(* ===== verification/FifoLock_Correct.thy ===== *)
theory FifoLock_Correct
  imports FifoLock
begin

text \<open>
  The invariant of the lock, in three parts: the ring buffer holds the queue of waiting
  requests, the counters count the requests, and the protocol says who may hold the lock while
  whom is waiting. Every section keeps it, and every step is a step of the specification.
\<close>

section \<open>Positions in the ring\<close>

abbreviation N :: nat where
  "N \<equiv> FIFO_LOCK_QUEUE_LENGTH"

lemma N_pos [simp]: "0 < N" "Suc 0 < N"
  by (simp_all add: FIFO_LOCK_QUEUE_LENGTH_def)

definition slot :: "nat \<Rightarrow> nat \<Rightarrow> nat" where
  "slot h k = (h + k) mod N"

lemma slot_less [simp]: "slot h k < N"
  by (simp add: slot_def)

lemma slot_0 [simp]: "h < N \<Longrightarrow> slot h 0 = h"
  by (simp add: slot_def)

lemma slot_inj: "k < N \<Longrightarrow> k' < N \<Longrightarrow> slot h k = slot h k' \<longleftrightarrow> k = k'"
proof
  assume k: "k < N" "k' < N" and eq: "slot h k = slot h k'"
  have *: "a = b" if "a < N" "b < N" "a \<le> b" "(h + a) mod N = (h + b) mod N" for a b
  proof -
    have "N dvd (h + b) - (h + a)" using that(3,4) by (metis mod_eq_dvd_iff_nat add_le_cancel_left)
    then have "N dvd b - a" by simp
    then show ?thesis using that by (metis dvd_imp_le le_neq_implies_less less_imp_diff_less not_less zero_less_diff)
  qed
  show "k = k'"
    using *[of k k'] *[of k' k] k eq unfolding slot_def by (cases "k \<le> k'") auto
qed simp

lemma slot_Suc: "slot (slot h 1) k = slot h (Suc k)"
  by (simp add: slot_def mod_add_left_eq mod_simps)

lemma next_pos_slot: "qsize l = N \<Longrightarrow> p < N \<Longrightarrow> next_pos l p = slot p 1"
  by (auto simp: next_pos_def slot_def mod_Suc)

lemma slot_slot: "slot (slot h k) (Suc 0) = slot h (Suc k)"
  by (simp add: slot_def mod_Suc_eq)

section \<open>The invariant\<close>

definition ring_inv :: "sge_fifo_rw_lock \<Rightarrow> (nat \<times> bool) list \<Rightarrow> bool" where
  "ring_inv l q \<longleftrightarrow> qsize l = N \<and> length (array l) = N \<and> head l < N \<and>
     tail l = slot (head l) (length q) \<and> length q \<le> N \<and>
     (\<forall>k<length q. is_reader (array l ! slot (head l) k) = snd (q ! k)) \<and>
     (\<forall>k<length q. is_signaled (array l ! slot (head l) k) \<longleftrightarrow> k = 0 \<and> signaled l = 1) \<and>
     reader_waiting l = int (length (filter snd q)) \<and>
     writer_waiting l = int (length (filter (\<lambda>x. \<not> snd x) q))"

definition place_inv :: "sge_fifo_rw_lock \<Rightarrow> (nat \<Rightarrow> request) \<Rightarrow> (nat \<times> bool) list \<Rightarrow> bool" where
  "place_inv l pcs q \<longleftrightarrow> distinct (map fst q) \<and>
     (\<forall>k<length q. pcs (fst (q ! k)) = Queued (snd (q ! k)) (slot (head l) k)) \<and>
     (\<forall>t rd i. pcs t = Queued rd i \<longrightarrow> t \<in> fst ` set q)"

definition holders :: "(nat \<Rightarrow> request) \<Rightarrow> (nat \<times> bool) set" where
  "holders pcs = {(t, rd). pcs t = Active rd}"

definition count_inv :: "sge_fifo_rw_lock \<Rightarrow> (nat \<Rightarrow> request) \<Rightarrow> bool" where
  "count_inv l pcs \<longleftrightarrow> finite {t. pcs t \<noteq> Idle} \<and>
     reader_active l = int (card {t. pcs t = Active True}) \<and>
     writer_active l = int (card {t. pcs t = Active False}) \<and>
     waiting l = int (card {t. \<exists>rd. pcs t = Outside rd})"

definition protocol :: "sge_fifo_rw_lock \<Rightarrow> (nat \<times> bool) list \<Rightarrow> bool" where
  "protocol l q \<longleftrightarrow>
     (signaled l = 0 \<or> signaled l = 1) \<and> 0 \<le> reader_active l \<and> 0 \<le> writer_active l \<and>
     writer_active l \<le> 1 \<and> (writer_active l = 1 \<longrightarrow> reader_active l = 0) \<and>
     (signaled l = 1 \<longrightarrow> q \<noteq> [] \<and> writer_active l = 0 \<and> (\<not> snd (hd q) \<longrightarrow> reader_active l = 0)) \<and>
     (signaled l = 0 \<and> q \<noteq> [] \<longrightarrow> writer_active l = 1 \<or> (reader_active l > 0 \<and> \<not> snd (hd q)))"

definition fifo_inv :: "fifo_state \<Rightarrow> (nat \<times> bool) list \<Rightarrow> bool" where
  "fifo_inv s q \<longleftrightarrow> ring_inv (fst s) q \<and> place_inv (fst s) (snd s) q \<and> count_inv (fst s) (snd s) \<and>
     protocol (fst s) q"

lemma ring_waiting: "ring_inv l q \<Longrightarrow> reader_waiting l + writer_waiting l = int (length q)"
  using sum_length_filter_compl[of snd q] by (simp add: ring_inv_def flip: of_nat_add)

lemma fifo_inv_start: "fifo_inv fifo_start []"
  by (simp add: fifo_inv_def fifo_start_def ring_inv_def place_inv_def count_inv_def protocol_def
      sge_fifo_lock_init_def)

section \<open>Counting requests\<close>

lemma card_upd:
  fixes P :: "request \<Rightarrow> bool"
  assumes "finite {t. pcs t \<noteq> Idle}" "\<not> P Idle"
  shows "int (card {u. P ((pcs(t := pc)) u)}) =
    int (card {u. P (pcs u)}) + (if P pc then 1 else 0) - (if P (pcs t) then 1 else 0)"
proof -
  have fin: "finite {u. P (pcs u)}" using assms by (elim rev_finite_subset) auto
  define A where "A = {u. P (pcs u)} - {t}"
  have A: "finite A" "t \<notin> A" using fin by (auto simp: A_def)
  have "{u. P ((pcs(t := pc)) u)} = (if P pc then insert t A else A)" by (auto simp: A_def)
  moreover have "{u. P (pcs u)} = (if P (pcs t) then insert t A else A)" by (auto simp: A_def)
  ultimately show ?thesis using A by simp
qed

lemma finite_upd: "finite {u. pcs u \<noteq> Idle} \<Longrightarrow> finite {u. (pcs(t := pc)) u \<noteq> Idle}"
  by (rule finite_subset[of _ "insert t {u. pcs u \<noteq> Idle}"]) auto

lemma count_inv_upd:
  assumes "count_inv l pcs"
    and "reader_active l' = reader_active l + of_bool (pc = Active True) - of_bool (pcs t = Active True)"
    and "writer_active l' = writer_active l + of_bool (pc = Active False) - of_bool (pcs t = Active False)"
    and "waiting l' = waiting l + of_bool (\<exists>rd. pc = Outside rd) - of_bool (\<exists>rd. pcs t = Outside rd)"
  shows "count_inv l' (pcs(t := pc))"
proof -
  have fin: "finite {t. pcs t \<noteq> Idle}" using assms(1) by (simp add: count_inv_def)
  show ?thesis
    using assms card_upd[OF fin, of "\<lambda>p. p = Active True" t pc] card_upd[OF fin, of "\<lambda>p. p = Active False" t pc]
      card_upd[OF fin, of "\<lambda>p. \<exists>rd. p = Outside rd" t pc] finite_upd[OF fin, of t pc]
    unfolding count_inv_def by (simp del: fun_upd_apply)
qed

lemma active_counted:
  assumes "count_inv l pcs" "pcs t = Active rd"
  shows "if rd then reader_active l > 0 else writer_active l > 0"
proof -
  have "finite {t. pcs t = Active rd}"
    using assms(1) unfolding count_inv_def by (auto elim: rev_finite_subset)
  then have "card {t. pcs t = Active rd} > 0" using assms(2) by (auto simp: card_gt_0_iff)
  then show ?thesis using assms(1) by (cases rd) (auto simp: count_inv_def)
qed

definition not_active :: "request \<Rightarrow> bool" where
  "not_active pc \<longleftrightarrow> (case pc of Active _ \<Rightarrow> False | _ \<Rightarrow> True)"

lemma not_active_simps [simp]:
  "not_active Idle" "not_active (Outside rd)" "not_active (Queued rd i)" "\<not> not_active (Active rd)"
  by (simp_all add: not_active_def)

lemma holders_upd:
  "not_active (pcs t) \<Longrightarrow> holders (pcs(t := Active rd)) = insert (t, rd) (holders pcs)"
  "not_active (pcs t) \<Longrightarrow> not_active pc \<Longrightarrow> holders (pcs(t := pc)) = holders pcs"
  "pcs t = Active rd \<Longrightarrow> holders (pcs(t := Idle)) = holders pcs - {(t, rd)}"
  unfolding holders_def by (auto split: if_splits)

lemma compatible_holders:
  assumes "count_inv l pcs"
  shows "compatible rd (holders pcs) \<longleftrightarrow>
    (if rd then writer_active l = 0 else writer_active l = 0 \<and> reader_active l = 0)"
proof -
  have fin: "finite {t. pcs t = Active b}" for b
    using assms unfolding count_inv_def by (auto elim: rev_finite_subset)
  have "(\<forall>h\<in>holders pcs. snd h) \<longleftrightarrow> {t. pcs t = Active False} = {}"
    by (auto simp: holders_def) (metis (full_types))
  moreover have "holders pcs = {} \<longleftrightarrow> {t. pcs t = Active False} = {} \<and> {t. pcs t = Active True} = {}"
    by (auto simp: holders_def) (metis (full_types))
  ultimately show ?thesis
    using assms card_0_eq[OF fin] by (auto simp: count_inv_def compatible_def)
qed

section \<open>Entering\<close>

definition off_queue :: "request \<Rightarrow> bool" where
  "off_queue pc \<longleftrightarrow> (case pc of Queued _ _ \<Rightarrow> False | _ \<Rightarrow> True)"

lemma off_queue_simps [simp]:
  "off_queue Idle" "off_queue (Outside rd)" "\<not> off_queue (Queued rd i)" "off_queue (Active rd)"
  by (simp_all add: off_queue_def)

lemma place_inv_notin: "place_inv l pcs q \<Longrightarrow> off_queue (pcs t) \<Longrightarrow> t \<notin> fst ` set q"
  unfolding place_inv_def by (auto simp: in_set_conv_nth) (metis fst_conv off_queue_simps(3))

lemma place_inv_upd:
  assumes "place_inv l pcs q" "off_queue (pcs t)" "off_queue pc" "head l' = head l"
  shows "place_inv l' (pcs(t := pc)) q"
proof -
  have "fst (q ! k) \<noteq> t" if "k < length q" for k
    using place_inv_notin[OF assms(1,2)] that by (metis image_eqI nth_mem)
  moreover have "pc \<noteq> Queued rd i" for rd i using assms(3) by auto
  ultimately show ?thesis using assms(1,4) unfolding place_inv_def by simp
qed

lemma enter_full:
  assumes "fifo_inv (l, pcs) q" "pcs t = Idle"
  shows "fifo_inv (l\<lparr>waiting := waiting l + 1\<rparr>, pcs(t := Outside rd)) q"
  using assms place_inv_upd[of l pcs q t "Outside rd"] count_inv_upd[of l pcs _ "Outside rd" t]
  by (simp add: fifo_inv_def ring_inv_def protocol_def)

lemma enter_direct_queue_empty:
  assumes "ring_inv l q" "protocol l q" "\<not> do_wait_in_queue rd l"
  shows "q = []" "if rd then writer_active l = 0 else writer_active l = 0 \<and> reader_active l = 0"
    "signaled l = 0"
proof -
  have ww: "writer_waiting l = int (length (filter (\<lambda>x. \<not> snd x) q))" using assms(1) by (simp add: ring_inv_def)
  have p: "signaled l = 0 \<or> signaled l = 1" "0 \<le> reader_active l" "0 \<le> writer_active l"
    "signaled l = 0 \<and> q \<noteq> [] \<longrightarrow> writer_active l = 1 \<or> (reader_active l > 0 \<and> \<not> snd (hd q))"
    using assms(2) by (auto simp: protocol_def)
  show sg: "signaled l = 0" using p assms(3) ww by (cases rd) (auto simp: do_wait_in_queue_def)
  show act: "if rd then writer_active l = 0 else writer_active l = 0 \<and> reader_active l = 0"
    using p assms(3) ww by (cases rd) (auto simp: do_wait_in_queue_def)
  show "q = []"
  proof (rule ccontr)
    assume "q \<noteq> []"
    then have hd: "writer_active l = 1 \<or> (reader_active l > 0 \<and> \<not> snd (hd q))" using p(4) sg by simp
    have "0 \<le> writer_waiting l" using ww by simp
    then have "rd \<Longrightarrow> writer_waiting l = 0" using assms(3) p(3) sg by (simp add: do_wait_in_queue_def)
    then have "rd \<Longrightarrow> snd (hd q)" using ww \<open>q \<noteq> []\<close> by (cases q) (auto split: if_splits)
    then show False using hd act by (cases rd) auto
  qed
qed

lemma inc_active_sel [simp]:
  "array (inc_active rd l) = array l" "head (inc_active rd l) = head l" "tail (inc_active rd l) = tail l"
  "qsize (inc_active rd l) = qsize l" "reader_waiting (inc_active rd l) = reader_waiting l"
  "writer_waiting (inc_active rd l) = writer_waiting l" "waiting (inc_active rd l) = waiting l"
  "signaled (inc_active rd l) = signaled l"
  "reader_active (inc_active rd l) = reader_active l + of_bool rd"
  "writer_active (inc_active rd l) = writer_active l + of_bool (\<not> rd)"
  by (simp_all add: inc_active_def)

lemma dec_active_sel [simp]:
  "array (dec_active rd l) = array l" "head (dec_active rd l) = head l" "tail (dec_active rd l) = tail l"
  "qsize (dec_active rd l) = qsize l" "reader_waiting (dec_active rd l) = reader_waiting l"
  "writer_waiting (dec_active rd l) = writer_waiting l" "waiting (dec_active rd l) = waiting l"
  "signaled (dec_active rd l) = signaled l"
  "reader_active (dec_active rd l) = reader_active l - of_bool rd"
  "writer_active (dec_active rd l) = writer_active l - of_bool (\<not> rd)"
  by (simp_all add: dec_active_def)

lemma inc_waiting_sel [simp]:
  "array (inc_waiting rd l) = array l" "head (inc_waiting rd l) = head l" "tail (inc_waiting rd l) = tail l"
  "qsize (inc_waiting rd l) = qsize l" "reader_active (inc_waiting rd l) = reader_active l"
  "writer_active (inc_waiting rd l) = writer_active l" "waiting (inc_waiting rd l) = waiting l"
  "signaled (inc_waiting rd l) = signaled l"
  "reader_waiting (inc_waiting rd l) = reader_waiting l + of_bool rd"
  "writer_waiting (inc_waiting rd l) = writer_waiting l + of_bool (\<not> rd)"
  by (simp_all add: inc_waiting_def)

lemma dec_waiting_sel [simp]:
  "array (dec_waiting rd l) = array l" "head (dec_waiting rd l) = head l" "tail (dec_waiting rd l) = tail l"
  "qsize (dec_waiting rd l) = qsize l" "reader_active (dec_waiting rd l) = reader_active l"
  "writer_active (dec_waiting rd l) = writer_active l" "waiting (dec_waiting rd l) = waiting l"
  "signaled (dec_waiting rd l) = signaled l"
  "reader_waiting (dec_waiting rd l) = reader_waiting l - of_bool rd"
  "writer_waiting (dec_waiting rd l) = writer_waiting l - of_bool (\<not> rd)"
  by (simp_all add: dec_waiting_def)

lemma inc_dec_waiting: "inc_waiting rd (dec_waiting rd l) = l"
  by (simp add: inc_waiting_def dec_waiting_def)

lemma enter_direct:
  assumes "fifo_inv (l, pcs) q" "pcs t = Idle" "\<not> do_wait_in_queue rd l"
  shows "fifo_inv (inc_active rd l, pcs(t := Active rd)) q \<and> q = [] \<and> compatible rd (holders pcs)"
proof -
  have inv: "ring_inv l q" "place_inv l pcs q" "count_inv l pcs" "protocol l q"
    using assms(1) by (simp_all add: fifo_inv_def)
  note free = enter_direct_queue_empty[OF inv(1,4) assms(3)]
  have "protocol (inc_active rd l) q" using inv(4) free by (cases rd) (auto simp: protocol_def)
  moreover have "ring_inv (inc_active rd l) q" using inv(1) by (simp add: ring_inv_def)
  moreover have "count_inv (inc_active rd l) (pcs(t := Active rd))"
    by (rule count_inv_upd[OF inv(3)]) (use assms(2) in \<open>simp_all\<close>)
  moreover have "place_inv (inc_active rd l) (pcs(t := Active rd)) q"
    by (rule place_inv_upd[OF inv(2)]) (use assms(2) in \<open>simp_all\<close>)
  ultimately show ?thesis
    using free compatible_holders[OF inv(3), of rd] by (simp add: fifo_inv_def)
qed

lemma enter_queue:
  assumes "fifo_inv (l, pcs) q" "pcs t = Idle" "do_wait_in_queue rd l" "length q < N"
    and w: "wait_in_queue rd l = (l', pc)"
  shows "fifo_inv (l', pcs(t := pc)) (q @ [(t, rd)]) \<and> not_active pc"
proof -
  have inv: "ring_inv l q" "place_inv l pcs q" "count_inv l pcs" "protocol l q"
    using assms(1) by (simp_all add: fifo_inv_def)
  let ?h = "head l" and ?n = "length q"
  have sz: "qsize l = N" "tail l = slot ?h ?n" "length (array l) = N"
    using inv(1) by (simp_all add: ring_inv_def)
  have pc: "pc = Queued rd (slot ?h ?n)" using w sz by (simp add: wait_in_queue_def Let_def)
  have l': "head l' = ?h" "tail l' = slot ?h (Suc ?n)" "qsize l' = N" "signaled l' = signaled l"
    "array l' = (array l)[slot ?h ?n := \<lparr>is_reader = rd, is_signaled = False\<rparr>]"
    "reader_active l' = reader_active l" "writer_active l' = writer_active l" "waiting l' = waiting l"
    "reader_waiting l' = reader_waiting l + of_bool rd" "writer_waiting l' = writer_waiting l + of_bool (\<not> rd)"
    using w sz by (auto simp: wait_in_queue_def Let_def next_pos_slot slot_slot)
  have other: "slot ?h ?n \<noteq> slot ?h k" if "k < ?n" for k
    using slot_inj[of ?n k ?h] that assms(4) by simp
  have empty: "signaled l = 1 \<Longrightarrow> q \<noteq> []" using inv(4) by (simp add: protocol_def)
  have "ring_inv l' (q @ [(t, rd)])"
    using inv(1) l' sz other assms(4) empty
    by (auto simp: ring_inv_def nth_append less_Suc_eq)
  moreover have "t \<notin> fst ` set q" using place_inv_notin[OF inv(2)] assms(2) by simp
  then have "place_inv l' (pcs(t := pc)) (q @ [(t, rd)])"
    using inv(2) l'(1) pc unfolding place_inv_def
    by (auto simp: nth_append less_Suc_eq)
  moreover have "count_inv l' (pcs(t := pc))"
    by (rule count_inv_upd[OF inv(3)]) (use l' pc assms(2) in \<open>simp_all\<close>)
  moreover have "protocol l' (q @ [(t, rd)])"
  proof (cases "q = []")
    case True
    then have "writer_waiting l = 0" using inv(1) by (simp add: ring_inv_def)
    then show ?thesis using True inv(4) assms(3) l' by (cases rd) (auto simp: protocol_def do_wait_in_queue_def)
  next
    case False
    then show ?thesis using inv(4) l' by (simp add: protocol_def)
  qed
  ultimately show ?thesis using pc by (simp add: fifo_inv_def)
qed

text \<open>A request that enters is granted at once with nobody waiting, or joins the end of the queue,
  or waits outside.\<close>

lemma enter_correct:
  assumes "fifo_inv (l, pcs) q" "pcs t = Idle" "sge_fifo_lock_internal rd l = (l', pc)"
  shows "\<exists>q'. fifo_inv (l', pcs(t := pc)) q' \<and> spec_step (q, holders pcs) (q', holders (pcs(t := pc)))"
proof -
  have ring: "ring_inv l q" using assms(1) by (simp add: fifo_inv_def)
  have na: "not_active (pcs t)" using assms(2) by simp
  consider (full) "queue_full l" | (wait) "\<not> queue_full l" "do_wait_in_queue rd l"
    | (direct) "\<not> queue_full l" "\<not> do_wait_in_queue rd l" by blast
  then show ?thesis
  proof cases
    case full
    then have "(l', pc) = (l\<lparr>waiting := waiting l + 1\<rparr>, Outside rd)"
      using assms(3) by (simp add: sge_fifo_lock_internal_def)
    then show ?thesis
      using enter_full[OF assms(1,2)] holders_upd(2)[of pcs t, OF na] spec_step.stutter
      by (intro exI[of _ q]) simp
  next
    case wait
    then have "length q < N" using ring_waiting[OF ring] ring by (auto simp: queue_full_def ring_inv_def)
    moreover have "wait_in_queue rd l = (l', pc)" using wait assms(3) by (simp add: sge_fifo_lock_internal_def)
    ultimately show ?thesis
      using enter_queue[OF assms(1,2) wait(2)] holders_upd(2)[of pcs t, OF na] spec_step.queue by metis
  next
    case direct
    then have "(l', pc) = (inc_active rd l, Active rd)" using assms(3) by (simp add: sge_fifo_lock_internal_def)
    then show ?thesis
      using enter_direct[OF assms(1,2) direct(2)] holders_upd(1)[of pcs t, OF na] spec_step.direct by auto
  qed
qed

lemma resume_outside_correct:
  assumes "fifo_inv (l, pcs) q" "pcs t = Outside rd" "resume_outside rd l = (l', pc)"
  shows "\<exists>q'. fifo_inv (l', pcs(t := pc)) q' \<and> spec_step (q, holders pcs) (q', holders (pcs(t := pc)))"
proof -
  let ?l = "l\<lparr>waiting := waiting l - 1\<rparr>" and ?pcs = "pcs(t := Idle)"
  have "fifo_inv (?l, ?pcs) q"
    using assms(1,2) place_inv_upd[of l pcs q t Idle ?l] count_inv_upd[of l pcs ?l Idle t]
    by (simp add: fifo_inv_def ring_inv_def protocol_def)
  moreover have "holders ?pcs = holders pcs" using assms(2) by (intro holders_upd(2)) simp_all
  ultimately show ?thesis
    using enter_correct[of ?l ?pcs q t rd l' pc] assms(3) by (simp add: resume_outside_def)
qed

lemma try_lock_correct:
  assumes "fifo_inv (l, pcs) q" "pcs t = Idle" "sge_fifo_try_lock rd l = (l', pc)"
  shows "\<exists>q'. fifo_inv (l', pcs(t := pc)) q' \<and> spec_step (q, holders pcs) (q', holders (pcs(t := pc)))"
proof (cases "(l', pc) = (l, Idle)")
  case True
  then have "pcs(t := pc) = pcs" "l' = l" using assms(2) by auto
  then show ?thesis using assms(1) spec_step.stutter by auto
next
  case False
  then have "sge_fifo_lock_internal rd l = (l', pc)"
    using assms(3) by (auto simp: sge_fifo_try_lock_def Let_def split: if_splits)
  from enter_correct[OF assms(1,2) this] show ?thesis .
qed

section \<open>Leaving the queue and unlocking\<close>

text \<open>Only the first of the queue is ever signaled.\<close>

lemma signaled_is_first:
  assumes "fifo_inv (l, pcs) q" "pcs t = Queued rd i" "is_signaled (array l ! i)"
  obtains q0 where "q = (t, rd) # q0" "signaled l = 1" "i = head l"
proof -
  have ring: "ring_inv l q" and place: "place_inv l pcs q" using assms(1) by (simp_all add: fifo_inv_def)
  obtain k where k: "k < length q" "fst (q ! k) = t"
    using assms(2) place unfolding place_inv_def by (metis (no_types) image_iff in_set_conv_nth)
  then have i: "rd = snd (q ! k)" "i = slot (head l) k" using place assms(2) by (auto simp: place_inv_def)
  then have "k = 0" "signaled l = 1" using ring assms(3) k by (auto simp: ring_inv_def)
  moreover have "head l < N" using ring by (simp add: ring_inv_def)
  ultimately show ?thesis using k i that by (cases q) auto
qed

lemma leave_queue_sel:
  assumes "ring_inv l ((t, rd) # q)" "signaled l = 1"
  defines "l' \<equiv> leave_queue rd ((dec_waiting rd l)\<lparr>signaled := signaled l - 1\<rparr>)"
    and "chain \<equiv> rd \<and> q \<noteq> [] \<and> snd (hd q)"
  shows "head l' = slot (head l) 1" "tail l' = tail l" "qsize l' = qsize l" "signaled l' = of_bool chain"
    "reader_active l' = reader_active l + of_bool rd" "writer_active l' = writer_active l + of_bool (\<not> rd)"
    "waiting l' = waiting l"
    "reader_waiting l' = int (length (filter snd q))"
    "writer_waiting l' = int (length (filter (\<lambda>x. \<not> snd x) q))"
    "array l' = (let h = head l; h1 = slot h 1;
       a = (if chain then (array l)[h1 := (array l ! h1)\<lparr>is_signaled := True\<rparr>] else array l) in
       a[h := \<lparr>is_reader = False, is_signaled = False\<rparr>])"
proof -
  have ring: "qsize l = N" "head l < N" "is_reader (array l ! head l) = rd"
    "reader_waiting l = int (length (filter snd ((t, rd) # q)))"
    "writer_waiting l = int (length (filter (\<lambda>x. \<not> snd x) ((t, rd) # q)))"
    using assms(1) unfolding ring_inv_def by (auto dest: spec[of _ 0])
  have next_r: "q \<noteq> [] \<Longrightarrow> is_reader (array l ! slot (head l) 1) = snd (hd q)"
    using assms(1) unfolding ring_inv_def by (cases q) (auto dest: spec[of _ 1])
  have np: "next_pos l' (head l) = slot (head l) 1" if "qsize l' = qsize l" for l'
    using that ring next_pos_slot by simp
  have readers: "q \<noteq> [] \<Longrightarrow> snd (hd q) \<Longrightarrow> filter snd q \<noteq> []" by (cases q) auto
  have cond: "(rd \<and> 0 < length (filter snd q) \<and> is_reader (array l ! slot (head l) 1)) \<longleftrightarrow> chain"
    using next_r readers unfolding chain_def by (cases "q = []") auto
  show "head l' = slot (head l) 1" "tail l' = tail l" "qsize l' = qsize l"
    "reader_active l' = reader_active l + of_bool rd" "writer_active l' = writer_active l + of_bool (\<not> rd)"
    "waiting l' = waiting l"
    "reader_waiting l' = int (length (filter snd q))"
    "writer_waiting l' = int (length (filter (\<lambda>x. \<not> snd x) q))"
    using ring np by (simp_all add: l'_def leave_queue_def Let_def signal_slot_def)
  show "signaled l' = of_bool chain"
    using ring np cond assms(2) by (auto simp: l'_def leave_queue_def Let_def signal_slot_def)
  show "array l' = (let h = head l; h1 = slot h 1;
       a = (if chain then (array l)[h1 := (array l ! h1)\<lparr>is_signaled := True\<rparr>] else array l) in
       a[h := \<lparr>is_reader = False, is_signaled = False\<rparr>])"
    using ring np cond by (auto simp: l'_def leave_queue_def Let_def signal_slot_def)
qed

lemma leave_queue_inv:
  assumes inv: "fifo_inv (l, pcs) ((t, rd) # q)" and sg: "signaled l = 1"
  defines "l' \<equiv> leave_queue rd ((dec_waiting rd l)\<lparr>signaled := signaled l - 1\<rparr>)"
  shows "fifo_inv (l', pcs(t := Active rd)) q"
proof -
  let ?h = "head l"
  have ring: "ring_inv l ((t, rd) # q)" and place: "place_inv l pcs ((t, rd) # q)"
    and cnt: "count_inv l pcs" and prot: "protocol l ((t, rd) # q)"
    using inv by (simp_all add: fifo_inv_def)
  note sel = leave_queue_sel[OF ring sg, folded l'_def]
  have h: "?h < N" "length (array l) = N" "length q < N" using ring by (simp_all add: ring_inv_def)
  have slots: "slot ?h (Suc k) \<noteq> ?h" "slot ?h (Suc k) = slot ?h 1 \<longleftrightarrow> k = 0" if "k < length q" for k
    using slot_inj[of "Suc k" 0 ?h] slot_inj[of "Suc k" 1 ?h] that h by auto
  have elems: "is_reader (array l ! slot ?h (Suc k)) = snd (q ! k)" "\<not> is_signaled (array l ! slot ?h (Suc k))"
    if "k < length q" for k
    using ring that unfolding ring_inv_def by (auto dest: spec[of _ "Suc k"])
  have old: "array l' ! slot ?h (Suc k) =
      (if k = 0 \<and> rd \<and> q \<noteq> [] \<and> snd (hd q) then (array l ! slot ?h 1)\<lparr>is_signaled := True\<rparr>
       else array l ! slot ?h (Suc k))" if "k < length q" for k
    using that slots[OF that] h by (auto simp: sel(10) Let_def nth_list_update)
  have "ring_inv l' q"
    unfolding ring_inv_def
    using ring h elems old
    by (auto simp: sel slot_Suc[simplified] ring_inv_def) (auto simp: sel(10) Let_def)
  moreover have "place_inv l' (pcs(t := Active rd)) q"
  proof -
    have "t \<notin> fst ` set q" and d: "distinct (map fst q)" using place by (auto simp: place_inv_def)
    then have ne: "fst (q ! k) \<noteq> t" if "k < length q" for k using that by (metis image_eqI nth_mem)
    have at: "pcs (fst (q ! k)) = Queued (snd (q ! k)) (slot ?h (Suc k))" if "k < length q" for k
      using place that unfolding place_inv_def by (auto dest: spec[of _ "Suc k"])
    have "\<forall>u rd i. pcs u = Queued rd i \<longrightarrow> u \<in> fst ` set ((t, rd) # q)"
      using place by (simp add: place_inv_def)
    then show ?thesis
      unfolding place_inv_def using d ne at by (auto simp: sel slot_Suc[simplified])
  qed
  moreover have "count_inv l' (pcs(t := Active rd))"
  proof (rule count_inv_upd[OF cnt])
    have "pcs t = Queued rd (slot ?h 0)" using place by (auto simp: place_inv_def)
    then show "reader_active l' = reader_active l + of_bool (Active rd = Active True) - of_bool (pcs t = Active True)"
      "writer_active l' = writer_active l + of_bool (Active rd = Active False) - of_bool (pcs t = Active False)"
      "waiting l' = waiting l + of_bool (\<exists>r. Active rd = Outside r) - of_bool (\<exists>rd. pcs t = Outside rd)"
      by (simp_all add: sel)
  qed
  moreover have "protocol l' q" using prot sg by (cases rd) (auto simp: protocol_def sel)
  ultimately show ?thesis by (simp add: fifo_inv_def)
qed

lemma resume_queued_correct:
  assumes "fifo_inv (l, pcs) q" "pcs t = Queued rd i" "resume_queued rd i l = (l', pc)"
  shows "\<exists>q'. fifo_inv (l', pcs(t := pc)) q' \<and> spec_step (q, holders pcs) (q', holders (pcs(t := pc)))"
proof (cases "is_signaled (array l ! i)")
  case False
  then have "l' = l" "pcs(t := pc) = pcs"
    using assms(2,3) by (auto simp: resume_queued_def Let_def inc_dec_waiting)
  then show ?thesis using assms(1) spec_step.stutter by auto
next
  case True
  obtain q0 where q: "q = (t, rd) # q0" and sg: "signaled l = 1"
    using signaled_is_first[OF assms(1,2) True] .
  have l': "l' = leave_queue rd ((dec_waiting rd l)\<lparr>signaled := signaled l - 1\<rparr>)" "pc = Active rd"
    using assms(3) True by (auto simp: resume_queued_def Let_def)
  have inv: "fifo_inv (l', pcs(t := Active rd)) q0"
    using leave_queue_inv[of l pcs t rd q0] assms(1) q sg l'(1) by simp
  have cnt: "count_inv l pcs" and prot: "protocol l q" using assms(1) by (simp_all add: fifo_inv_def)
  have "compatible rd (holders pcs)"
    using prot sg q by (cases rd) (auto simp: compatible_holders[OF cnt] protocol_def)
  moreover have "holders (pcs(t := Active rd)) = insert (t, rd) (holders pcs)"
    using assms(2) by (intro holders_upd(1)) simp
  ultimately have "spec_step (q, holders pcs) (q0, holders (pcs(t := Active rd)))"
    using spec_step.grant[of rd "holders pcs" t q0] q by simp
  then show ?thesis using inv l'(2) by blast
qed

lemma signal_slot_sel [simp]:
  "head (signal_slot p l) = head l" "tail (signal_slot p l) = tail l" "qsize (signal_slot p l) = qsize l"
  "reader_active (signal_slot p l) = reader_active l" "writer_active (signal_slot p l) = writer_active l"
  "reader_waiting (signal_slot p l) = reader_waiting l" "writer_waiting (signal_slot p l) = writer_waiting l"
  "waiting (signal_slot p l) = waiting l" "signaled (signal_slot p l) = signaled l + 1"
  "array (signal_slot p l) = (array l)[p := (array l ! p)\<lparr>is_signaled := True\<rparr>]"
  by (simp_all add: signal_slot_def)

lemma ring_inv_signal:
  assumes "ring_inv l q" "signaled l = 0"
  shows "ring_inv (signal_slot (head l) l) q"
proof -
  have h: "head l < N" "length (array l) = N" "length q \<le> N" using assms(1) by (simp_all add: ring_inv_def)
  have "head l = slot (head l) k \<longleftrightarrow> k = 0" if "k < length q" for k
    using slot_inj[of k 0 "head l"] that h by auto
  then show ?thesis
    using assms h by (auto simp: ring_inv_def nth_list_update)
qed

lemma sge_fifo_ulock_correct:
  assumes "fifo_inv (l, pcs) q" "pcs t = Active rd"
  shows "fifo_inv (sge_fifo_ulock rd l, pcs(t := Idle)) q"
proof -
  let ?d = "dec_active rd l" and ?l = "sge_fifo_ulock rd l"
  have inv: "ring_inv l q" "place_inv l pcs q" "count_inv l pcs" "protocol l q"
    using assms(1) by (simp_all add: fifo_inv_def)
  have act: "if rd then reader_active l > 0 else writer_active l > 0"
    using active_counted[OF inv(3) assms(2)] .
  have ring: "ring_inv ?d q" using inv(1) by (simp add: ring_inv_def)
  have wait: "reader_waiting ?d + writer_waiting ?d > 0 \<longleftrightarrow> q \<noteq> []" using ring_waiting[OF ring] by simp
  have cnt: "count_inv l' (pcs(t := Idle))"
    if "reader_active l' = reader_active ?d" "writer_active l' = writer_active ?d" "waiting l' = waiting l" for l'
    using that assms(2) by (intro count_inv_upd[OF inv(3)]) auto
  have place: "place_inv l' (pcs(t := Idle)) q" if "head l' = head l" for l'
    using that assms(2) by (intro place_inv_upd[OF inv(2)]) auto
  show ?thesis
  proof (cases "reader_active ?d + writer_active ?d + signaled ?d = 0 \<and> reader_waiting ?d + writer_waiting ?d > 0")
    case True
    then have l: "?l = signal_slot (head ?d) ?d" unfolding sge_fifo_ulock_def Let_def by simp
    have zero: "signaled l = 0" "reader_active ?d = 0" "writer_active ?d = 0"
      using True inv(4) act by (cases rd; auto simp: protocol_def)+
    have "protocol ?l q" using zero True wait by (simp add: l protocol_def)
    then show ?thesis
      using ring_inv_signal[OF ring] zero cnt[of ?l] place[of ?l] by (simp add: fifo_inv_def l)
  next
    case False
    then have l: "?l = ?d" unfolding sge_fifo_ulock_def Let_def by (simp only: if_False)
    have "protocol ?d q"
      using inv(4) act False wait by (cases rd) (auto simp: protocol_def)
    then show ?thesis using ring cnt[of ?d] place[of ?d] by (simp add: fifo_inv_def l)
  qed
qed

section \<open>Simulation and reachable states\<close>

lemma fifo_step_simulates:
  assumes "fifo_step s s'" "fifo_inv s q"
  shows "\<exists>q'. fifo_inv s' q' \<and> spec_step (q, holders (snd s)) (q', holders (snd s'))"
  using assms(1)
proof cases
  case (lock pcs t rd l l' pc)
  then show ?thesis using enter_correct[of l pcs q t rd l' pc] assms(2) by simp
next
  case (try_lock pcs t rd l l' pc)
  then show ?thesis using try_lock_correct[of l pcs q t rd l' pc] assms(2) by simp
next
  case (wake_outside pcs t rd l l' pc)
  then show ?thesis using resume_outside_correct[of l pcs q t rd l' pc] assms(2) by simp
next
  case (wake_queued pcs t rd i l l' pc)
  then show ?thesis using resume_queued_correct[of l pcs q t rd i l' pc] assms(2) by simp
next
  case (unlock pcs t rd l)
  have "(t, rd) \<in> holders pcs" using unlock by (simp add: holders_def)
  then have "spec_step (q, holders pcs) (q, holders pcs - {(t, rd)})" by (rule spec_step.release)
  then show ?thesis
    using sge_fifo_ulock_correct[of l pcs q t rd] unlock assms(2) holders_upd(3)[of pcs t rd] by auto
qed

lemma fifo_reachable:
  assumes "fifo_step\<^sup>*\<^sup>* fifo_start s"
  shows "\<exists>q. fifo_inv s q \<and> spec_step\<^sup>*\<^sup>* ([], {}) (q, holders (snd s))"
  using assms
proof (induction rule: rtranclp_induct)
  case base
  then show ?case using fifo_inv_start by (auto simp: fifo_start_def holders_def)
next
  case (step s s')
  then obtain q where q: "fifo_inv s q" "spec_step\<^sup>*\<^sup>* ([], {}) (q, holders (snd s))" by auto
  obtain q' where "fifo_inv s' q'" "spec_step (q, holders (snd s)) (q', holders (snd s'))"
    using fifo_step_simulates[OF step(2) q(1)] by auto
  then show ?case using q(2) by (meson rtranclp.rtrancl_into_rtrancl)
qed

section \<open>Every waiting request can be served\<close>

text \<open>The steps the waiting requests depend on: holders release the lock and the signaled request
  wakes up. No new request takes part.\<close>

inductive serve_step :: "fifo_state \<Rightarrow> fifo_state \<Rightarrow> bool" where
  serve_wake: "pcs t = Queued rd i \<Longrightarrow> is_signaled (array l ! i) \<Longrightarrow> resume_queued rd i l = (l', pc) \<Longrightarrow>
    serve_step (l, pcs) (l', pcs(t := pc))"
| serve_unlock: "pcs t = Active rd \<Longrightarrow> serve_step (l, pcs) (sge_fifo_ulock rd l, pcs(t := Idle))"

lemma serve_is_fifo_step: "serve_step s s' \<Longrightarrow> fifo_step s s'"
  by (auto elim!: serve_step.cases intro: fifo_step.intros)

lemma signaled_can_wake:
  assumes "fifo_inv (l, pcs) q" "signaled l = 1"
  obtains u ru q0 where "q = (u, ru) # q0"
    "serve_step (l, pcs) (leave_queue ru ((dec_waiting ru l)\<lparr>signaled := signaled l - 1\<rparr>), pcs(u := Active ru))"
proof -
  have ring: "ring_inv l q" and place: "place_inv l pcs q" and "protocol l q"
    using assms(1) by (simp_all add: fifo_inv_def)
  then have "q \<noteq> []" using assms(2) by (simp add: protocol_def)
  then obtain u ru q0 where q: "q = (u, ru) # q0" by (cases q) auto
  then have u: "pcs u = Queued ru (slot (head l) 0)" using place by (auto simp: place_inv_def)
  have sg: "is_signaled (array l ! slot (head l) 0)" using ring q assms(2) unfolding ring_inv_def by auto
  have "resume_queued ru (slot (head l) 0) l =
      (leave_queue ru ((dec_waiting ru l)\<lparr>signaled := signaled l - 1\<rparr>), Active ru)"
    using sg by (simp add: resume_queued_def Let_def)
  from serve_step.serve_wake[of pcs u, OF u sg this] show ?thesis by (rule that[OF q])
qed

lemma unlock_fewer_active:
  assumes "count_inv l pcs" "pcs u = Active ru"
  shows "nat (reader_active (sge_fifo_ulock ru l) + writer_active (sge_fifo_ulock ru l)) <
    nat (reader_active l + writer_active l)"
proof -
  have "0 \<le> reader_active l" "0 \<le> writer_active l" using assms(1) by (simp_all add: count_inv_def)
  then show ?thesis
    using active_counted[OF assms] by (cases ru) (auto simp: sge_fifo_ulock_def Let_def)
qed

lemma active_exists:
  assumes "count_inv l pcs" "reader_active l > 0 \<or> writer_active l > 0"
  obtains u ru where "pcs u = Active ru"
proof -
  have "{t. pcs t = Active True} \<noteq> {} \<or> {t. pcs t = Active False} \<noteq> {}"
    using assms unfolding count_inv_def by (metis card.empty less_irrefl of_nat_0)
  then show ?thesis using that by auto
qed

lemma waiting_served:
  assumes "fifo_inv (l, pcs) q" "pcs t = Queued rd i"
  shows "\<exists>s'. serve_step\<^sup>*\<^sup>* (l, pcs) s' \<and> snd s' t = Active rd"
  using assms
proof (induction "(length q, nat (reader_active l + writer_active l))" arbitrary: l pcs q
    rule: wf_induct_rule[OF wf_lex_prod[OF wf_less_than wf_less_than]])
  case 1
  have inv: "place_inv l pcs q" "count_inv l pcs" "protocol l q" using 1(2) by (simp_all add: fifo_inv_def)
  show ?case
  proof (cases "signaled l = 1")
    case True
    obtain u ru q0 where q: "q = (u, ru) # q0"
      and step: "serve_step (l, pcs)
        (leave_queue ru ((dec_waiting ru l)\<lparr>signaled := signaled l - 1\<rparr>), pcs(u := Active ru))"
      using signaled_can_wake[OF 1(2) True] .
    show ?thesis
    proof (cases "u = t")
      case eq: True
      then have "ru = rd" using inv(1) 1(3) q by (auto simp: place_inv_def dest: spec[of _ 0])
      then show ?thesis using r_into_rtranclp[of serve_step, OF step] eq by fastforce
    next
      case False
      have "fifo_inv (leave_queue ru ((dec_waiting ru l)\<lparr>signaled := signaled l - 1\<rparr>), pcs(u := Active ru)) q0"
        using leave_queue_inv[of l pcs u ru q0] 1(2) q True by simp
      from 1(1)[OF _ this] False 1(3) step q show ?thesis
        by (auto intro: converse_rtranclp_into_rtranclp)
    qed
  next
    case False
    have "q \<noteq> []" using inv(1) 1(3) by (auto simp: place_inv_def)
    then have "reader_active l > 0 \<or> writer_active l > 0" using inv(3) False by (auto simp: protocol_def)
    then obtain u ru where u: "pcs u = Active ru" using active_exists[OF inv(2)] by metis
    then have "(pcs(u := Idle)) t = Queued rd i" using 1(3) by auto
    then show ?thesis
      using 1(1)[OF _ sge_fifo_ulock_correct[OF 1(2) u]] unlock_fewer_active[OF inv(2) u]
        serve_step.serve_unlock[of pcs u ru l, OF u]
      by (auto intro: converse_rtranclp_into_rtranclp)
  qed
qed

end
