(* ===== verification/FifoLock_Props.thy ===== *)
theory FifoLock_Props
  imports FifoLock_Correct
begin

text \<open>
  The properties of the reader/writer lock over every interleaving of its users: mutual
  exclusion, first come first served, no request left waiting, and what trying does.
\<close>

abbreviation fifo_reachable_state :: "fifo_state \<Rightarrow> bool" where
  "fifo_reachable_state s \<equiv> fifo_step\<^sup>*\<^sup>* fifo_start s"

text \<open>A run for the examples: request 0 gets the write lock, request 1 waits for a read lock in
  the first slot, request 0 releases the lock.\<close>

definition ex_write :: fifo_state where
  "ex_write = (inc_active False sge_fifo_lock_init, (\<lambda>t. Idle)(0 := Active False))"

definition ex_wait :: fifo_state where
  "ex_wait = (fst (wait_in_queue True (fst ex_write)), (snd ex_write)(1 := Queued True 0))"

definition ex_released :: fifo_state where
  "ex_released = (sge_fifo_ulock False (fst ex_wait), (snd ex_wait)(0 := Idle))"

lemmas ex_eval = sge_fifo_lock_internal_def queue_full_def do_wait_in_queue_def inc_active_def dec_active_def
  inc_waiting_def dec_waiting_def wait_in_queue_def next_pos_def signal_slot_def sge_fifo_ulock_def
  sge_fifo_try_lock_def Let_def sge_fifo_lock_init_def FIFO_LOCK_QUEUE_LENGTH_def

lemma ex_write_reachable: "fifo_reachable_state ex_write"
proof -
  have "fifo_step (sge_fifo_lock_init, \<lambda>t. Idle) (inc_active False sge_fifo_lock_init, (\<lambda>t. Idle)(0 := Active False))"
    by (rule fifo_step.lock[of _ 0 False]) (simp_all add: ex_eval)
  then show ?thesis by (auto simp: fifo_start_def ex_write_def)
qed

lemma ex_wait_step: "fifo_step ex_write ex_wait"
  unfolding ex_wait_def ex_write_def fst_conv snd_conv
  by (rule fifo_step.lock[of _ 1 True]) (simp_all add: ex_eval)

lemma ex_released_step: "fifo_step ex_wait ex_released"
  unfolding ex_released_def ex_wait_def fst_conv snd_conv
  by (rule fifo_step.unlock) (simp add: ex_write_def)

lemma ex_wait_reachable: "fifo_reachable_state ex_wait"
  using ex_write_reachable ex_wait_step by (rule rtranclp.rtrancl_into_rtrancl)

lemma ex_released_reachable: "fifo_reachable_state ex_released"
  using ex_wait_reachable ex_released_step by (rule rtranclp.rtrancl_into_rtrancl)

section \<open>Safety\<close>

text \<open>C5. Mutual exclusion: in every reachable state a request that holds the write lock is the only
  one that holds the lock, and the counters tell the number of holders, with at most one
  writer and at most one signaled request.\<close>

theorem fifo_lock_mutual_exclusion:
  assumes "fifo_reachable_state (l, pcs)"
  shows "(\<forall>t u rd. pcs t = Active False \<longrightarrow> pcs u = Active rd \<longrightarrow> u = t) \<and>
    reader_active l = int (card {t. pcs t = Active True}) \<and>
    writer_active l = int (card {t. pcs t = Active False}) \<and>
    writer_active l \<le> 1 \<and> signaled l \<in> {0, 1}"
proof -
  obtain q where "fifo_inv (l, pcs) q" using fifo_reachable[OF assms] by auto
  then have cnt: "count_inv l pcs" and prot: "protocol l q" by (simp_all add: fifo_inv_def)
  have fin: "finite {t. pcs t = Active False}"
    using cnt unfolding count_inv_def by (auto elim: rev_finite_subset)
  have "u = t" if "pcs t = Active False" "pcs u = Active rd" for t u rd
  proof -
    have "writer_active l = 1" "reader_active l = 0"
      using active_counted[OF cnt that(1)] prot by (auto simp: protocol_def)
    then have rd: "\<not> rd" and "card {t. pcs t = Active False} = 1"
      using active_counted[OF cnt that(2)] cnt by (auto simp: count_inv_def)
    then obtain x where x: "{t. pcs t = Active False} = {x}" using card_1_singletonE by blast
    have "t \<in> {t. pcs t = Active False}" "u \<in> {t. pcs t = Active False}" using that rd by simp_all
    then show ?thesis unfolding x by simp
  qed
  then show ?thesis using cnt prot by (auto simp: count_inv_def protocol_def)
qed

theorem fifo_lock_mutual_exclusion_witness:
  "snd ex_wait 0 = Active False \<and> writer_active (fst ex_wait) \<le> 1 \<and>
   snd ex_wait 1 \<noteq> Active True"
proof -
  have "snd ex_wait 0 = Active False" by (simp add: ex_wait_def ex_write_def)
  then show ?thesis
    using fifo_lock_mutual_exclusion[of "fst ex_wait" "snd ex_wait"] ex_wait_reachable by auto
qed

text \<open>C38. Refinement: the ring buffer of a reachable state holds a queue of requests, and every
  step of the lock is a step of the specification on that queue and the set of holders, in
  which a request is granted the lock only when nobody waits or when it is the first that
  waits, and only when it is compatible with the holders.\<close>

theorem fifo_lock_refines_queue:
  assumes "fifo_reachable_state s" "fifo_step s s'"
  shows "\<exists>q q'. place_inv (fst s) (snd s) q \<and> place_inv (fst s') (snd s') q' \<and>
    spec_step (q, holders (snd s)) (q', holders (snd s'))"
proof -
  obtain q where q: "fifo_inv s q" using fifo_reachable[OF assms(1)] by auto
  obtain q' where "fifo_inv s' q'" "spec_step (q, holders (snd s)) (q', holders (snd s'))"
    using fifo_step_simulates[OF assms(2) q] by auto
  then show ?thesis using q by (auto simp: fifo_inv_def)
qed

theorem fifo_lock_refines_queue_witness:
  "\<exists>q q'. place_inv (fst ex_write) (snd ex_write) q \<and> place_inv (fst ex_wait) (snd ex_wait) q' \<and>
     spec_step (q, holders (snd ex_write)) (q', holders (snd ex_wait))"
  by (rule fifo_lock_refines_queue[OF ex_write_reachable ex_wait_step])

text \<open>No overtaking: when a call gets the lock without waiting, no request is waiting in the
  queue.\<close>

lemma fifo_lock_no_overtaking:
  assumes "fifo_reachable_state (l, pcs)" "pcs t = Idle" "sge_fifo_lock_internal rd l = (l', Active rd)"
  shows "pcs u \<noteq> Queued rd' i"
proof -
  obtain q where inv: "fifo_inv (l, pcs) q" using fifo_reachable[OF assms(1)] by auto
  have "\<not> do_wait_in_queue rd l"
    using assms(3) by (auto simp: sge_fifo_lock_internal_def wait_in_queue_def Let_def split: if_splits)
  then have "q = []" using enter_direct[OF inv assms(2)] by simp
  then show ?thesis using inv by (auto simp: fifo_inv_def place_inv_def)
qed

section \<open>Progress\<close>

text \<open>C39. No request is left waiting: from every reachable state, a request that waits in the queue
  gets the lock it asked for once holders release it and signaled requests wake up, without any
  help of new requests.\<close>

theorem fifo_lock_serves_waiting:
  assumes "fifo_reachable_state (l, pcs)" "pcs t = Queued rd i"
  shows "\<exists>s'. serve_step\<^sup>*\<^sup>* (l, pcs) s' \<and> snd s' t = Active rd"
  using fifo_reachable[OF assms(1)] waiting_served[of l pcs _ t, OF _ assms(2)] by auto

theorem fifo_lock_serves_waiting_witness:
  "\<exists>s'. serve_step\<^sup>*\<^sup>* ex_wait s' \<and> snd s' 1 = Active True"
proof -
  have "snd ex_wait 1 = Queued True 0" by (simp add: ex_wait_def)
  then show ?thesis
    using fifo_lock_serves_waiting[of "fst ex_wait" "snd ex_wait" 1 True 0] ex_wait_reachable by simp
qed

section \<open>Trying\<close>

text \<open>Trying for the write lock never waits: it either gets the lock at once or leaves the lock
  as it was.\<close>

lemma try_write_lock_never_waits:
  "sge_fifo_try_lock False l = (l, Idle) \<or> sge_fifo_try_lock False l = (inc_active False l, Active False)"
  by (auto simp: sge_fifo_try_lock_def sge_fifo_lock_internal_def do_wait_in_queue_def Let_def)

text \<open>Trying for a read lock can wait: between the release of a write lock and the moment the
  signaled reader wakes up, the test of \<open>sge_fifo_try_lock\<close> passes, but the call then queues
  behind that reader.\<close>

lemma try_read_lock_can_wait:
  "\<exists>l'. fifo_step\<^sup>*\<^sup>* fifo_start ex_released \<and> sge_fifo_try_lock True (fst ex_released) = (l', Queued True 1)"
  using ex_released_reachable
  by (simp add: ex_eval ex_released_def ex_wait_def ex_write_def)

end
