(* ===== verification/SimpleList.thy ===== *)
theory SimpleList
  imports Prelude
begin

text \<open>
  The doubly linked lists of \<^verbatim>\<open>source/libs/uti/sge_sl.cc\<close> as the pointer program they are: a
  heap maps addresses to nodes, and every function reads and writes the links of the nodes it
  is given. The functions return in the option monad, where \<open>None\<close> is the use of a pointer to
  no node or a loop that never ends. The address of a new node is an argument, as memory
  allocation always succeeds in the model. The list and the functions passed to it are not
  null; an element pointer may be. The mutex of a list makes each function atomic.
\<close>

section \<open>Data\<close>

type_synonym addr = nat

record 'd sge_sl_elem =
  prev :: "addr option"
  nxt :: "addr option"
  data :: 'd

record sge_sl_list =
  first :: "addr option"
  last_elem :: "addr option"
  elements :: nat

type_synonym 'd heap = "addr \<Rightarrow> 'd sge_sl_elem option"
type_synonym 'd sl_state = "'d heap \<times> sge_sl_list"

datatype sge_sl_direction = SGE_SL_FORWARD | SGE_SL_BACKWARD

section \<open>Nodes\<close>

definition set_next :: "addr \<Rightarrow> addr option \<Rightarrow> 'd heap \<Rightarrow> 'd heap option" where
  "set_next a v h = do { n \<leftarrow> h a; Some (h(a \<mapsto> n\<lparr>nxt := v\<rparr>)) }"

definition set_prev :: "addr \<Rightarrow> addr option \<Rightarrow> 'd heap \<Rightarrow> 'd heap option" where
  "set_prev a v h = do { n \<leftarrow> h a; Some (h(a \<mapsto> n\<lparr>prev := v\<rparr>)) }"

definition set_data :: "addr \<Rightarrow> 'd \<Rightarrow> 'd heap \<Rightarrow> 'd heap option" where
  "set_data a v h = do { n \<leftarrow> h a; Some (h(a \<mapsto> n\<lparr>data := v\<rparr>)) }"

definition sge_sl_elem_create :: "addr \<Rightarrow> 'd \<Rightarrow> 'd heap \<Rightarrow> 'd heap" where
  "sge_sl_elem_create a d h = h(a \<mapsto> \<lparr>prev = None, nxt = None, data = d\<rparr>)"

definition sge_sl_elem_destroy :: "addr option \<Rightarrow> 'd heap \<Rightarrow> 'd heap" where
  "sge_sl_elem_destroy e h = (case e of None \<Rightarrow> h | Some a \<Rightarrow> h(a := None))"

definition sge_sl_elem_data :: "addr option \<Rightarrow> 'd heap \<Rightarrow> 'd option option" where
  \<comment> \<open>the null pointer for no element\<close>
  "sge_sl_elem_data e h = (case e of None \<Rightarrow> Some None | Some a \<Rightarrow> do { n \<leftarrow> h a; Some (Some (data n)) })"

section \<open>Links\<close>

definition sge_sl_dechain :: "addr option \<Rightarrow> 'd sl_state \<Rightarrow> 'd sl_state option" where
  "sge_sl_dechain e st =
     (let (h, l) = st in
      case e of
        None \<Rightarrow> Some (h, l)
      | Some a \<Rightarrow>
          do { n \<leftarrow> h a;
               (h1, l1) \<leftarrow> (case prev n of
                   Some p \<Rightarrow> do { h1 \<leftarrow> set_next p (nxt n) h; Some (h1, l) }
                 | None \<Rightarrow> Some (h, l\<lparr>first := nxt n\<rparr>));
               n1 \<leftarrow> h1 a;
               (h2, l2) \<leftarrow> (case nxt n1 of
                   Some q \<Rightarrow> do { h2 \<leftarrow> set_prev q (prev n1) h1; Some (h2, l1) }
                 | None \<Rightarrow> Some (h1, l1\<lparr>last_elem := prev n1\<rparr>));
               h3 \<leftarrow> set_next a None h2;
               h4 \<leftarrow> set_prev a None h3;
               Some (h4, l2\<lparr>elements := sub32 (elements l2) 1\<rparr>) })"

definition sge_sl_insert_before :: "addr option \<Rightarrow> addr option \<Rightarrow> 'd sl_state \<Rightarrow> 'd sl_state option" where
  "sge_sl_insert_before new_elem e st =
     (let (h, l) = st in
      case (new_elem, e) of
        (Some b, Some a) \<Rightarrow>
          do { n \<leftarrow> h a;
               (h', l') \<leftarrow> (case prev n of
                   None \<Rightarrow>
                     do { h1 \<leftarrow> set_prev a (Some b) h;
                          h2 \<leftarrow> set_next b (Some a) h1;
                          Some (h2, l\<lparr>first := Some b\<rparr>) }
                 | Some p \<Rightarrow>
                     do { h1 \<leftarrow> set_next p (Some b) h;
                          h2 \<leftarrow> set_prev a (Some b) h1;
                          h3 \<leftarrow> set_prev b (Some p) h2;
                          h4 \<leftarrow> set_next b (Some a) h3;
                          Some (h4, l) });
               Some (h', l'\<lparr>elements := add32 (elements l') 1\<rparr>) }
      | _ \<Rightarrow> Some (h, l))"

definition sge_sl_append_after :: "addr option \<Rightarrow> addr option \<Rightarrow> 'd sl_state \<Rightarrow> 'd sl_state option" where
  "sge_sl_append_after new_elem e st =
     (let (h, l) = st in
      case (new_elem, e) of
        (Some b, Some a) \<Rightarrow>
          do { n \<leftarrow> h a;
               (h', l') \<leftarrow> (case nxt n of
                   None \<Rightarrow>
                     do { h1 \<leftarrow> set_next a (Some b) h;
                          h2 \<leftarrow> set_prev b (Some a) h1;
                          Some (h2, l\<lparr>last_elem := Some b\<rparr>) }
                 | Some q \<Rightarrow>
                     do { h1 \<leftarrow> set_next a (Some b) h;
                          h2 \<leftarrow> set_prev q (Some b) h1;
                          h3 \<leftarrow> set_prev b (Some a) h2;
                          h4 \<leftarrow> set_next b (Some q) h3;
                          Some (h4, l) });
               Some (h', l'\<lparr>elements := add32 (elements l') 1\<rparr>) }
      | _ \<Rightarrow> Some (h, l))"

definition link_of :: "sge_sl_direction \<Rightarrow> 'd sge_sl_elem \<Rightarrow> addr option" where
  "link_of dir n = (if dir = SGE_SL_FORWARD then nxt n else prev n)"

definition sge_sl_elem_next :: "addr option \<Rightarrow> sge_sl_direction \<Rightarrow> 'd sl_state \<Rightarrow> addr option option" where
  "sge_sl_elem_next e dir st =
     (let (h, l) = st in
      case e of
        Some a \<Rightarrow> do { n \<leftarrow> h a; Some (link_of dir n) }
      | None \<Rightarrow> Some (if dir = SGE_SL_FORWARD then first l else last_elem l))"

partial_function (option) search_loop ::
    "('d \<Rightarrow> int) \<Rightarrow> sge_sl_direction \<Rightarrow> 'd heap \<Rightarrow> addr option \<Rightarrow> addr option option" where
  \<comment> \<open>the comparison of the key with the data of a node\<close>
  "search_loop cmp dir h cur =
     (case cur of
        None \<Rightarrow> Some None
      | Some a \<Rightarrow>
          do { n \<leftarrow> h a;
               if cmp (data n) \<noteq> 0 then search_loop cmp dir h (link_of dir n) else Some (Some a) })"

definition sge_sl_elem_search ::
    "addr option \<Rightarrow> ('d \<Rightarrow> int) \<Rightarrow> sge_sl_direction \<Rightarrow> 'd sl_state \<Rightarrow> addr option option" where
  "sge_sl_elem_search e cmp dir st =
     do { cur \<leftarrow> sge_sl_elem_next e dir st; search_loop cmp dir (fst st) cur }"

section \<open>Lists\<close>

definition sge_sl_create :: sge_sl_list where
  "sge_sl_create = \<lparr>first = None, last_elem = None, elements = 0\<rparr>"

partial_function (option) destroy_loop :: "'d heap \<Rightarrow> addr option \<Rightarrow> 'd heap option" where
  "destroy_loop h cur =
     (case cur of
        None \<Rightarrow> Some h
      | Some a \<Rightarrow> do { n \<leftarrow> h a; destroy_loop (sge_sl_elem_destroy (Some a) h) (nxt n) })"

definition sge_sl_destroy :: "'d sl_state \<Rightarrow> 'd heap option" where
  "sge_sl_destroy st = destroy_loop (fst st) (first (snd st))"

definition sge_sl_elem_insert :: "addr option \<Rightarrow> sge_sl_direction \<Rightarrow> 'd sl_state \<Rightarrow> 'd sl_state option" where
  "sge_sl_elem_insert new_elem dir st =
     (let (h, l) = st in
      case new_elem of
        None \<Rightarrow> Some (h, l)
      | Some b \<Rightarrow>
          do { (h', l') \<leftarrow>
                 (if dir = SGE_SL_FORWARD then
                    do { h1 \<leftarrow> (case first l of Some f \<Rightarrow> set_prev f (Some b) h | None \<Rightarrow> Some h);
                         h2 \<leftarrow> set_next b (first l) h1;
                         let l1 = l\<lparr>first := Some b\<rparr> in
                         Some (h2, if last_elem l1 = None then l1\<lparr>last_elem := Some b\<rparr> else l1) }
                  else
                    do { h1 \<leftarrow> (case last_elem l of Some f \<Rightarrow> set_next f (Some b) h | None \<Rightarrow> Some h);
                         h2 \<leftarrow> set_prev b (last_elem l) h1;
                         let l1 = l\<lparr>last_elem := Some b\<rparr> in
                         Some (h2, if first l1 = None then l1\<lparr>first := Some b\<rparr> else l1) });
               Some (h', l'\<lparr>elements := add32 (elements l') 1\<rparr>) })"

definition sge_sl_insert :: "addr \<Rightarrow> 'd \<Rightarrow> sge_sl_direction \<Rightarrow> 'd sl_state \<Rightarrow> 'd sl_state option" where
  "sge_sl_insert a d dir st =
     sge_sl_elem_insert (Some a) dir (sge_sl_elem_create a d (fst st), snd st)"

partial_function (option) insert_loop ::
    "('d \<Rightarrow> int) \<Rightarrow> 'd heap \<Rightarrow> addr option \<Rightarrow> addr option \<Rightarrow> (addr option \<times> addr option) option" where
  "insert_loop cmp h lst cur =
     (case cur of
        None \<Rightarrow> Some (lst, None)
      | Some a \<Rightarrow>
          do { n \<leftarrow> h a;
               if cmp (data n) > 0 then insert_loop cmp h (Some a) (nxt n) else Some (lst, Some a) })"

definition sge_sl_insert_search :: "addr \<Rightarrow> 'd \<Rightarrow> ('d \<Rightarrow> 'd \<Rightarrow> int) \<Rightarrow> 'd sl_state \<Rightarrow> 'd sl_state option" where
  "sge_sl_insert_search b d compare st =
     (let h = sge_sl_elem_create b d (fst st); l = snd st in
      do { (lst, current) \<leftarrow> insert_loop (compare d) h None (first l);
           (h', l') \<leftarrow>
             (case (lst, current) of
                (None, None) \<Rightarrow> Some (h, l\<lparr>first := Some b, last_elem := Some b\<rparr>)
              | (None, Some c) \<Rightarrow>
                  do { h1 \<leftarrow> set_prev c (Some b) h;
                       h2 \<leftarrow> set_next b (Some c) h1;
                       Some (h2, l\<lparr>first := Some b\<rparr>) }
              | (Some p, None) \<Rightarrow>
                  do { h1 \<leftarrow> set_next p (Some b) h;
                       h2 \<leftarrow> set_prev b (Some p) h1;
                       Some (h2, l\<lparr>last_elem := Some b\<rparr>) }
              | (Some p, Some c) \<Rightarrow>
                  do { h1 \<leftarrow> set_next p (Some b) h;
                       h2 \<leftarrow> set_prev c (Some b) h1;
                       h3 \<leftarrow> set_prev b (Some p) h2;
                       h4 \<leftarrow> set_next b (Some c) h3;
                       Some (h4, l) });
           Some (h', l'\<lparr>elements := add32 (elements l') 1\<rparr>) })"

definition sge_sl_data :: "sge_sl_direction \<Rightarrow> 'd sl_state \<Rightarrow> 'd option option" where
  "sge_sl_data dir st =
     sge_sl_elem_data (if dir = SGE_SL_FORWARD then first (snd st) else last_elem (snd st)) (fst st)"

definition sge_sl_data_search :: "('d \<Rightarrow> int) \<Rightarrow> sge_sl_direction \<Rightarrow> 'd sl_state \<Rightarrow> 'd option option" where
  "sge_sl_data_search cmp dir st =
     do { e \<leftarrow> sge_sl_elem_search None cmp dir st; sge_sl_elem_data e (fst st) }"

definition sge_sl_delete :: "sge_sl_direction \<Rightarrow> 'd sl_state \<Rightarrow> 'd sl_state option" where
  "sge_sl_delete dir st =
     (let e = (if dir = SGE_SL_FORWARD then first (snd st) else last_elem (snd st)) in
      do { (h, l) \<leftarrow> sge_sl_dechain e st; Some (sge_sl_elem_destroy e h, l) })"

definition sge_sl_delete_search :: "('d \<Rightarrow> int) \<Rightarrow> sge_sl_direction \<Rightarrow> 'd sl_state \<Rightarrow> 'd sl_state option" where
  "sge_sl_delete_search cmp dir st =
     do { e \<leftarrow> sge_sl_elem_search None cmp dir st;
          (h, l) \<leftarrow> sge_sl_dechain e st;
          Some (sge_sl_elem_destroy e h, l) }"

definition sge_sl_get_elem_count :: "'d sl_state \<Rightarrow> nat" where
  "sge_sl_get_elem_count st = elements (snd st)"

partial_function (option) collect_loop :: "'d heap \<Rightarrow> addr option \<Rightarrow> (addr \<times> 'd) list option" where
  \<comment> \<open>the nodes and their data in the order of \<^verbatim>\<open>for_each_sl\<close>\<close>
  "collect_loop h cur =
     (case cur of
        None \<Rightarrow> Some []
      | Some a \<Rightarrow> do { n \<leftarrow> h a; ns \<leftarrow> collect_loop h (nxt n); Some ((a, data n) # ns) })"

definition sge_sl_sort :: "('d list \<Rightarrow> 'd list) \<Rightarrow> 'd sl_state \<Rightarrow> 'd sl_state option" where
  \<comment> \<open>the first argument is \<^verbatim>\<open>qsort\<close> with the comparison function\<close>
  "sge_sl_sort qsort st =
     do { ns \<leftarrow> collect_loop (fst st) (first (snd st));
          h \<leftarrow> foldo (\<lambda>(a, d) h. set_data a d h) (zip (map fst ns) (qsort (map snd ns))) (fst st);
          Some (h, snd st) }"

end
