(* ===== verification/TaskQueue.thy ===== *)
theory TaskQueue
  imports SimpleList
begin

text \<open>
  The task queue of \<^verbatim>\<open>source/libs/uti/sge_tq.cc\<close>, which hands the requests of clients to the
  worker and reader threads of the master daemon. A queue is a list of tasks, the number of
  threads that wait for a task and a condition variable, modelled as the set of threads that
  are blocked on it. \<open>sge_tq_wait_for_task\<close> is two sections of code, before and after its wait;
  everything in a section happens under the mutex of the list. A thread may be woken at any
  time, by a broadcast, by the end of its timeout or by nothing, as POSIX allows. Memory
  allocation succeeds, the queue is not null, and the address of a new list node is an argument.
\<close>

section \<open>Data\<close>

datatype sge_tq_type = SGE_TQ_UNKNOWN | SGE_TQ_GDI_PACKET | SGE_TQ_TYPE1 | SGE_TQ_TYPE2

fun type_value :: "sge_tq_type \<Rightarrow> nat" where
  "type_value SGE_TQ_UNKNOWN = 0"
| "type_value SGE_TQ_GDI_PACKET = 1"
| "type_value SGE_TQ_TYPE1 = 2"
| "type_value SGE_TQ_TYPE2 = 3"

lemma type_value_eq: "type_value x = type_value y \<longleftrightarrow> x = y"
  by (cases x; cases y) simp_all

instantiation sge_tq_type :: linorder
begin

definition less_eq_sge_tq_type :: "sge_tq_type \<Rightarrow> sge_tq_type \<Rightarrow> bool" where
  "less_eq_sge_tq_type x y \<longleftrightarrow> type_value x \<le> type_value y"

definition less_sge_tq_type :: "sge_tq_type \<Rightarrow> sge_tq_type \<Rightarrow> bool" where
  "less_sge_tq_type x y \<longleftrightarrow> type_value x < type_value y"

instance
  by standard (auto simp: less_eq_sge_tq_type_def less_sge_tq_type_def type_value_eq)

end

record 'p sge_tq_task =
  type :: sge_tq_type
  payload :: 'p

record sge_tq_queue =
  list :: sge_sl_list
  cond :: "nat set"
  waiting :: nat

type_synonym 'p tq_state = "'p sge_tq_task heap \<times> sge_tq_queue"

section \<open>Tasks and queues\<close>

definition sge_tq_task_compare_type :: "sge_tq_type \<Rightarrow> 'p sge_tq_task \<Rightarrow> int" where
  \<comment> \<open>the key is a task of which only the type is read\<close>
  "sge_tq_task_compare_type key task2 =
     (if key = SGE_TQ_UNKNOWN then 0
      else if key < type task2 then -1
      else if key > type task2 then 1
      else 0)"

definition sge_tq_task_create :: "sge_tq_type \<Rightarrow> 'p option \<Rightarrow> 'p sge_tq_task option" where
  \<comment> \<open>no task is made for an unknown type or a null pointer\<close>
  "sge_tq_task_create ty d =
     (case d of
        Some p \<Rightarrow> if ty \<noteq> SGE_TQ_UNKNOWN then Some \<lparr>type = ty, payload = p\<rparr> else None
      | None \<Rightarrow> None)"

definition sge_tq_create :: sge_tq_queue where
  "sge_tq_create = \<lparr>list = sge_sl_create, cond = {}, waiting = 0\<rparr>"

definition sge_tq_destroy :: "'p tq_state \<Rightarrow> 'p sge_tq_task heap option" where
  "sge_tq_destroy st = sge_sl_destroy (fst st, list (snd st))"

definition sge_tq_get_task_count :: "'p tq_state \<Rightarrow> nat" where
  "sge_tq_get_task_count st = sge_sl_get_elem_count (fst st, list (snd st))"

definition sge_tq_get_waiting_count :: "'p tq_state \<Rightarrow> nat" where
  "sge_tq_get_waiting_count st = waiting (snd st)"

definition sge_tq_wakeup_waiting :: "sge_tq_queue \<Rightarrow> sge_tq_queue" where
  \<comment> \<open>\<^verbatim>\<open>pthread_cond_broadcast\<close>\<close>
  "sge_tq_wakeup_waiting q = q\<lparr>cond := {}\<rparr>"

definition sge_tq_store_notify :: "addr \<Rightarrow> sge_tq_type \<Rightarrow> 'p option \<Rightarrow> 'p tq_state \<Rightarrow> 'p tq_state option" where
  "sge_tq_store_notify a ty d st =
     (case sge_tq_task_create ty d of
        None \<Rightarrow> Some st
      | Some new_task \<Rightarrow>
          do { (h, l) \<leftarrow> sge_sl_insert a new_task SGE_SL_BACKWARD (fst st, list (snd st));
               let q = (snd st)\<lparr>list := l\<rparr> in
               Some (h, if waiting q > 0 then sge_tq_wakeup_waiting q else q) })"

section \<open>Waiting for a task\<close>

text \<open>A section ends with a thread that waits, or with the result: a task, whose data pointer the
  caller gets, or the null pointer.\<close>

datatype 'p outcome = Waits | Returns "'p sge_tq_task option"

definition find_task :: "sge_tq_type \<Rightarrow> 'p tq_state \<Rightarrow> addr option option" where
  "find_task ty st =
     sge_sl_elem_search None (sge_tq_task_compare_type ty) SGE_SL_FORWARD (fst st, list (snd st))"

definition take_task :: "addr option \<Rightarrow> 'p tq_state \<Rightarrow> ('p tq_state \<times> 'p outcome) option" where
  "take_task elem st =
     (if elem = None then Some (st, Returns None)
      else do { (h, l) \<leftarrow> sge_sl_dechain elem (fst st, list (snd st));
                d \<leftarrow> sge_sl_elem_data elem h;
                Some ((sge_sl_elem_destroy elem h, (snd st)\<lparr>list := l\<rparr>), Returns d) })"

definition sge_tq_wait_for_task ::
    "nat \<Rightarrow> sge_tq_type \<Rightarrow> bool \<Rightarrow> 'p tq_state \<Rightarrow> ('p tq_state \<times> 'p outcome) option" where
  \<comment> \<open>the code up to the first wait: the thread, the type and whether the shutdown has started\<close>
  "sge_tq_wait_for_task t ty shutdown st =
     do { elem \<leftarrow> find_task ty st;
          if elem = None \<and> \<not> shutdown then
            let q = snd st in
            Some ((fst st, q\<lparr>waiting := add32 (waiting q) 1, cond := insert t (cond q)\<rparr>), Waits)
          else take_task elem st }"

definition resume_wait_for_task ::
    "nat \<Rightarrow> sge_tq_type \<Rightarrow> bool \<Rightarrow> 'p tq_state \<Rightarrow> ('p tq_state \<times> 'p outcome) option" where
  \<comment> \<open>the code from the return of a wait to the next wait or the end\<close>
  "resume_wait_for_task t ty shutdown st =
     do { elem \<leftarrow> find_task ty st;
          let q = snd st in
          if elem = None \<and> \<not> shutdown then Some ((fst st, q\<lparr>cond := insert t (cond q)\<rparr>), Waits)
          else take_task elem (fst st, q\<lparr>waiting := sub32 (waiting q) 1, cond := cond q - {t}\<rparr>) }"

section \<open>Moving tasks\<close>

partial_function (option) move_loop ::
    "('d \<Rightarrow> int) \<Rightarrow> 'd heap \<Rightarrow> sge_sl_list \<Rightarrow> sge_sl_list \<Rightarrow> addr option \<Rightarrow> int \<Rightarrow>
     ('d heap \<times> sge_sl_list \<times> sge_sl_list \<times> int) option" where
  \<comment> \<open>the counter is a signed 32 bit number, whose overflow is undefined\<close>
  "move_loop cmp h src dst cur count =
     (case cur of
        None \<Rightarrow> Some (h, src, dst, count)
      | Some thiz \<Rightarrow>
          do { next_elem \<leftarrow> sge_sl_elem_search (Some thiz) cmp SGE_SL_FORWARD (h, src);
               (h1, src1) \<leftarrow> sge_sl_dechain (Some thiz) (h, src);
               (h2, dst1) \<leftarrow> sge_sl_elem_insert (Some thiz) SGE_SL_BACKWARD (h1, dst);
               if count = 2 ^ 31 - 1 then None else move_loop cmp h2 src1 dst1 next_elem (count + 1) })"

definition sge_tq_move_from_to_if ::
    "('p sge_tq_task \<Rightarrow> int) \<Rightarrow> 'p sge_tq_task heap \<Rightarrow> sge_tq_queue \<Rightarrow> sge_tq_queue \<Rightarrow>
     ('p sge_tq_task heap \<times> sge_tq_queue \<times> sge_tq_queue \<times> int) option" where
  "sge_tq_move_from_to_if cmp h src dst =
     do { cur \<leftarrow> sge_sl_elem_search None cmp SGE_SL_FORWARD (h, list src);
          (h', l, l', count) \<leftarrow> move_loop cmp h (list src) (list dst) cur 0;
          Some (h', src\<lparr>list := l\<rparr>, dst\<lparr>list := l'\<rparr>, count) }"

section \<open>Threads\<close>

text \<open>
  Any number of threads that store tasks, wait for them and wake each other. \<open>callers\<close> says which
  threads are inside the loop of \<open>sge_tq_wait_for_task\<close>, and for which type; \<open>stored\<close> and
  \<open>delivered\<close> record the tasks that went in and out, in order. There are fewer than \<open>2 ^ 32\<close>
  threads and tasks at a time.

  Tasks also come from a second queue, \<open>source\<close>, on which no thread waits, as
  \<^verbatim>\<open>ReaderWaitingRequestQueue\<close> for \<^verbatim>\<open>ReaderRequestQueue\<close>: a mirror thread
  (\<^verbatim>\<open>update_sessions_and_move_requests\<close> of \<^verbatim>\<open>ocs_MirrorReaderDataStore.cc\<close>) moves the tasks whose session is
  up to date and then, when it moved any, wakes the waiting threads. Each of its two calls takes the mutex
  by itself; \<open>movers\<close> are the threads between the two.
\<close>

record 'p tq_world =
  state :: "'p tq_state"
  callers :: "nat \<Rightarrow> sge_tq_type option"
  stored :: "'p sge_tq_task list"
  delivered :: "'p sge_tq_task list"
  source :: sge_tq_queue
  movers :: "nat set"

fun returned :: "'p outcome \<Rightarrow> 'p sge_tq_task list" where
  "returned (Returns (Some task)) = [task]"
| "returned _ = []"

definition after_section :: "nat \<Rightarrow> sge_tq_type \<Rightarrow> 'p tq_state \<Rightarrow> 'p outcome \<Rightarrow> 'p tq_world \<Rightarrow> 'p tq_world" where
  "after_section t ty st out w =
     w\<lparr>state := st, callers := (callers w)(t := if out = Waits then Some ty else None),
       delivered := delivered w @ returned out\<rparr>"

definition tq_start :: "'p tq_world" where
  "tq_start = \<lparr>state = (Map.empty, sge_tq_create), callers = Map.empty, stored = [], delivered = [],
     source = sge_tq_create, movers = {}\<rparr>"

inductive tq_step :: "'p tq_world \<Rightarrow> 'p tq_world \<Rightarrow> bool" where
  store: "fst (state w) a = None \<Longrightarrow> sge_tq_get_task_count (state w) < u32_mod - 1 \<Longrightarrow>
    sge_tq_store_notify a ty d (state w) = Some st \<Longrightarrow>
    tq_step w (w\<lparr>state := st,
      stored := stored w @ (case sge_tq_task_create ty d of Some task \<Rightarrow> [task] | None \<Rightarrow> [])\<rparr>)"
| enter: "callers w t = None \<Longrightarrow> sge_tq_get_waiting_count (state w) < u32_mod - 1 \<Longrightarrow>
    sge_tq_wait_for_task t ty shutdown (state w) = Some (st, out) \<Longrightarrow>
    tq_step w (after_section t ty st out w)"
| resume: "callers w t = Some ty \<Longrightarrow> resume_wait_for_task t ty shutdown (state w) = Some (st, out) \<Longrightarrow>
    tq_step w (after_section t ty st out w)"
| wakeup: "tq_step w (w\<lparr>state := (fst (state w), sge_tq_wakeup_waiting (snd (state w)))\<rparr>)"
| store_source: "fst (state w) a = None \<Longrightarrow> sge_tq_get_task_count (fst (state w), source w) < u32_mod - 1 \<Longrightarrow>
    sge_tq_store_notify a ty d (fst (state w), source w) = Some (h, src) \<Longrightarrow>
    tq_step w (w\<lparr>state := (h, snd (state w)), source := src\<rparr>)"
| move: "m \<notin> movers w \<Longrightarrow> collect_loop (fst (state w)) (first (list (source w))) = Some ys \<Longrightarrow>
    sge_tq_get_task_count (state w) + length ys < u32_mod \<Longrightarrow> length ys < 2 ^ 31 \<Longrightarrow>
    sge_tq_move_from_to_if cmp (fst (state w)) (source w) (snd (state w)) = Some (h, src, dst, count) \<Longrightarrow>
    tq_step w (w\<lparr>state := (h, dst), source := src, movers := (if count > 0 then insert m (movers w) else movers w),
      stored := stored w @ filter (\<lambda>task. cmp task = 0) (map snd ys)\<rparr>)"
| move_wakeup: "m \<in> movers w \<Longrightarrow>
    tq_step w (w\<lparr>state := (fst (state w), sge_tq_wakeup_waiting (snd (state w))), movers := movers w - {m}\<rparr>)"

inductive_cases tq_stepE: "tq_step w w'"

end
