(* ===== verification/SimpleList_Correct.thy ===== *)
theory SimpleList_Correct
  imports SimpleList
begin

text \<open>
  The pointer program keeps a doubly linked list: \<open>dll\<close> relates a heap and a list header to the
  sequence of nodes and data they represent. Every operation does to that sequence what its
  name says, keeps all links of both directions, touches no node outside the list, and its
  loops end.
\<close>

section \<open>Segments\<close>

type_synonym 'd nodes = "(addr \<times> 'd) list"

definition head_of :: "'d nodes \<Rightarrow> addr option \<Rightarrow> addr option" where
  "head_of xs n = (case xs of [] \<Rightarrow> n | x # _ \<Rightarrow> Some (fst x))"

definition last_of :: "addr option \<Rightarrow> 'd nodes \<Rightarrow> addr option" where
  "last_of p xs = (if xs = [] then p else Some (fst (last xs)))"

lemma head_of_simps [simp]: "head_of [] n = n" "head_of (x # xs) n = Some (fst x)"
  by (simp_all add: head_of_def)

lemma head_of_append [simp]: "head_of (xs @ ys) n = head_of xs (head_of ys n)"
  by (cases xs) simp_all

lemma last_of_simps [simp]:
  "last_of p [] = p" "last_of p (x # xs) = last_of (Some (fst x)) xs" "last_of p (xs @ [x]) = Some (fst x)"
  by (simp_all add: last_of_def)

lemma last_of_append [simp]: "last_of p (xs @ ys) = last_of (last_of p xs) ys"
  by (simp add: last_of_def)

lemma last_of_None: "last_of None xs = None \<longleftrightarrow> xs = []"
  by (simp add: last_of_def)

lemma head_of_None: "head_of xs None = None \<longleftrightarrow> xs = []"
  by (cases xs) simp_all

lemma head_of_cong: "map fst xs = map fst ys \<Longrightarrow> head_of xs n = head_of ys n"
  by (cases xs; cases ys) simp_all

lemma last_of_cong: "map fst xs = map fst ys \<Longrightarrow> last_of p xs = last_of p ys"
  by (induction xs arbitrary: ys p) auto

fun seg :: "'d heap \<Rightarrow> addr option \<Rightarrow> 'd nodes \<Rightarrow> addr option \<Rightarrow> bool" where
  "seg h p [] n = True"
| "seg h p ((a, d) # xs) n =
     (h a = Some \<lparr>prev = p, nxt = head_of xs n, data = d\<rparr> \<and> seg h (Some a) xs n)"

lemma seg_append [simp]:
  "seg h p (xs @ ys) n \<longleftrightarrow> seg h p xs (head_of ys n) \<and> seg h (last_of p xs) ys n"
proof (induction xs arbitrary: p)
  case (Cons x xs)
  then show ?case by (cases x) auto
qed simp

lemma seg_frame:
  "seg h p xs n \<Longrightarrow> (\<And>a. a \<in> fst ` set xs \<Longrightarrow> h' a = h a) \<Longrightarrow> seg h' p xs n"
proof (induction xs arbitrary: p)
  case (Cons x xs)
  then show ?case by (cases x) auto
qed simp

lemma seg_disjoint:
  assumes "seg h p xs n" "\<forall>b. b \<notin> A \<longrightarrow> h' b = h b" "A \<inter> fst ` set xs = {}"
  shows "seg h' p xs n"
  by (rule seg_frame[OF assms(1)]) (use assms(2,3) in blast)

lemma seg_update: "seg h p xs n \<Longrightarrow> b \<notin> fst ` set xs \<Longrightarrow> seg (h(b \<mapsto> x)) p xs n"
  by (rule seg_disjoint[of h p xs n "{b}"]) auto

lemma seg_in_heap: "seg h p xs n \<Longrightarrow> a \<in> fst ` set xs \<Longrightarrow> h a \<noteq> None"
proof (induction xs arbitrary: p)
  case (Cons x xs)
  then show ?case by (cases x) auto
qed simp

definition dll :: "'d sl_state \<Rightarrow> 'd nodes \<Rightarrow> bool" where
  "dll st xs \<longleftrightarrow> distinct (map fst xs) \<and> length xs < u32_mod \<and>
     first (snd st) = head_of xs None \<and> last_elem (snd st) = last_of None xs \<and>
     elements (snd st) = length xs \<and> seg (fst st) None xs None"

text \<open>Redirecting the last link of a segment, and the first link back.\<close>

lemma relink_next:
  assumes "seg h p ys n" "distinct (map fst ys)"
  obtains h' where "(case last_of None ys of Some a \<Rightarrow> set_next a n' h | None \<Rightarrow> Some h) = Some h'"
    "seg h' p ys n'" "\<forall>a. a \<notin> fst ` set ys \<longrightarrow> h' a = h a"
proof (cases ys rule: rev_cases)
  case Nil
  then show ?thesis using that[of h] by simp
next
  case (snoc xs x)
  obtain a d where x: "x = (a, d)" by (cases x)
  have ha: "h a = Some \<lparr>prev = last_of p xs, nxt = n, data = d\<rparr>" and sx: "seg h p xs (Some a)"
    using assms(1) by (simp_all add: snoc x)
  have "a \<notin> fst ` set xs" using assms(2) by (auto simp: snoc x)
  then have "seg (h(a \<mapsto> \<lparr>prev = last_of p xs, nxt = n', data = d\<rparr>)) p xs (Some a)"
    by (intro seg_frame[OF sx]) auto
  then show ?thesis
    using that[of "h(a \<mapsto> \<lparr>prev = last_of p xs, nxt = n', data = d\<rparr>)"] ha
    by (simp add: snoc x set_next_def)
qed

lemma relink_prev:
  assumes "seg h p zs n" "distinct (map fst zs)"
  obtains h' where "(case head_of zs None of Some a \<Rightarrow> set_prev a p' h | None \<Rightarrow> Some h) = Some h'"
    "seg h' p' zs n" "\<forall>a. a \<notin> fst ` set zs \<longrightarrow> h' a = h a"
proof (cases zs)
  case Nil
  then show ?thesis using that[of h] by simp
next
  case (Cons x xs)
  obtain a d where x: "x = (a, d)" by (cases x)
  have ha: "h a = Some \<lparr>prev = p, nxt = head_of xs n, data = d\<rparr>" and sx: "seg h (Some a) xs n"
    using assms(1) by (simp_all add: Cons x)
  have "a \<notin> fst ` set xs" using assms(2) by (auto simp: Cons x)
  then have "seg (h(a \<mapsto> \<lparr>prev = p', nxt = head_of xs n, data = d\<rparr>)) (Some a) xs n"
    by (intro seg_frame[OF sx]) auto
  then show ?thesis
    using that[of "h(a \<mapsto> \<lparr>prev = p', nxt = head_of xs n, data = d\<rparr>)"] ha
    by (simp add: Cons x set_prev_def)
qed

section \<open>Removing a node\<close>

lemma sge_sl_dechain_correct:
  assumes "dll (h, l) (ys @ (a, d) # zs)"
  obtains h' l' where "sge_sl_dechain (Some a) (h, l) = Some (h', l')" "dll (h', l') (ys @ zs)"
    "h' a = Some \<lparr>prev = None, nxt = None, data = d\<rparr>"
    "\<forall>b. b \<notin> fst ` set (ys @ (a, d) # zs) \<longrightarrow> h' b = h b"
proof -
  have dist: "distinct (map fst ys)" "distinct (map fst zs)" "a \<notin> fst ` set ys" "a \<notin> fst ` set zs"
    "fst ` set ys \<inter> fst ` set zs = {}"
    using assms by (auto simp: dll_def)
  have segs: "seg h None ys (Some a)" "h a = Some \<lparr>prev = last_of None ys, nxt = head_of zs None, data = d\<rparr>"
    "seg h (Some a) zs None"
    using assms by (simp_all add: dll_def)
  have hdr: "first l = head_of ys (Some a)" "last_elem l = last_of (Some a) zs"
    "elements l = Suc (length ys + length zs)" "Suc (length ys + length zs) < u32_mod"
    using assms by (simp_all add: dll_def)
  obtain h1 where h1: "(case last_of None ys of Some p \<Rightarrow> set_next p (head_of zs None) h | None \<Rightarrow> Some h) = Some h1"
      "seg h1 None ys (head_of zs None)" "\<forall>b. b \<notin> fst ` set ys \<longrightarrow> h1 b = h b"
    using relink_next[OF segs(1) dist(1)] .
  have z1: "seg h1 (Some a) zs None" by (rule seg_disjoint[OF segs(3) h1(3) dist(5)])
  obtain h2 where h2: "(case head_of zs None of Some q \<Rightarrow> set_prev q (last_of None ys) h1 | None \<Rightarrow> Some h1) = Some h2"
      "seg h2 (last_of None ys) zs None" "\<forall>b. b \<notin> fst ` set zs \<longrightarrow> h2 b = h1 b"
    using relink_prev[OF z1 dist(2)] .
  have a1: "h1 a = h a" and a2: "h2 a = h a" using dist(3,4) h1(3) h2(3) by auto
  define h' where "h' = h2(a \<mapsto> \<lparr>prev = None, nxt = None, data = d\<rparr>)"
  define l1 where "l1 = (if ys = [] then l\<lparr>first := head_of zs None\<rparr> else l)"
  define l2 where "l2 = (if zs = [] then l1\<lparr>last_elem := last_of None ys\<rparr> else l1)"
  define l' where "l' = l2\<lparr>elements := sub32 (elements l2) 1\<rparr>"
  define n where "n = \<lparr>prev = last_of None ys, nxt = head_of zs None, data = d\<rparr>"
  have n: "h a = Some n" "prev n = last_of None ys" "nxt n = head_of zs None" "data n = d"
    using segs(2) by (simp_all add: n_def)
  have one: "(case prev n of Some p \<Rightarrow> do { h1 \<leftarrow> set_next p (nxt n) h; Some (h1, l) }
      | None \<Rightarrow> Some (h, l\<lparr>first := nxt n\<rparr>)) = Some (h1, l1)"
    unfolding n(2,3) using h1(1) last_of_None[of ys] by (auto simp: l1_def split: option.splits)
  have two: "(case nxt n of Some q \<Rightarrow> do { h2 \<leftarrow> set_prev q (prev n) h1; Some (h2, l1) }
      | None \<Rightarrow> Some (h1, l1\<lparr>last_elem := prev n\<rparr>)) = Some (h2, l2)"
    unfolding n(2,3) using h2(1) head_of_None[of zs] by (auto simp: l2_def split: option.splits)
  have clear: "n\<lparr>nxt := None, prev := None\<rparr> = \<lparr>prev = None, nxt = None, data = d\<rparr>" using n(4) by simp
  have run: "sge_sl_dechain (Some a) (h, l) = Some (h', l')"
    using one two a1 a2 n(1)
    by (simp add: sge_sl_dechain_def set_next_def[of a] set_prev_def[of a] h'_def l'_def clear)
  have "seg h2 None ys (head_of zs None)" by (rule seg_disjoint[OF h1(2) h2(3)]) (use dist(5) in blast)
  then have "seg h' None ys (head_of zs None)" "seg h' (last_of None ys) zs None"
    using dist(3,4) h2(2) by (simp_all add: h'_def seg_update)
  moreover have "elements l' = length (ys @ zs)"
    using hdr(3,4) by (simp add: l'_def l2_def l1_def u32_simps)
  moreover have "first l' = head_of (ys @ zs) None" using hdr(1) by (cases ys) (simp_all add: l'_def l2_def l1_def)
  moreover have "last_elem l' = last_of None (ys @ zs)"
    using hdr(2) by (cases zs) (simp_all add: l'_def l2_def l1_def)
  ultimately have "dll (h', l') (ys @ zs)" using dist hdr(4) by (auto simp: dll_def)
  moreover have "\<forall>b. b \<notin> fst ` set (ys @ (a, d) # zs) \<longrightarrow> h' b = h b"
    using h1(3) h2(3) by (simp add: h'_def image_Un)
  ultimately show ?thesis using that[OF run] by (simp add: h'_def)
qed

section \<open>Adding a node\<close>

text \<open>
  The links around a new node that stands between two segments: its own links lead to the end
  of the first and the start of the second, and theirs lead to it.
\<close>

lemma dll_insert:
  assumes "dll (h, l) (ys @ zs)" "b \<notin> fst ` set (ys @ zs)" "length (ys @ zs) < u32_mod - 1"
    and "seg h' None ys (Some b)" "h' b = Some \<lparr>prev = last_of None ys, nxt = head_of zs None, data = d\<rparr>"
    and "seg h' (Some b) zs None"
    and "first l' = (if ys = [] then Some b else first l)"
    and "last_elem l' = (if zs = [] then Some b else last_elem l)" "elements l' = add32 (elements l) 1"
  shows "dll (h', l') (ys @ (b, d) # zs)"
proof -
  have "first l' = head_of ys (Some b)" using assms(1,7) by (cases ys) (simp_all add: dll_def)
  moreover have "last_elem l' = last_of (Some b) zs" using assms(1,8) by (cases zs) (simp_all add: dll_def)
  moreover have "elements l' = Suc (length (ys @ zs))"
    using assms(1,3,9) by (simp add: dll_def u32_simps)
  moreover have "distinct (map fst (ys @ (b, d) # zs))" using assms(1,2) by (auto simp: dll_def)
  ultimately show ?thesis using assms(3-6) by (simp add: dll_def)
qed

lemma relink_around:
  assumes "dll (h, l) (ys @ zs)" "b \<notin> fst ` set (ys @ zs)"
  obtains h1 h2 where
    "(case last_of None ys of Some p \<Rightarrow> set_next p (Some b) h | None \<Rightarrow> Some h) = Some h1"
    "(case head_of zs None of Some q \<Rightarrow> set_prev q (Some b) h1 | None \<Rightarrow> Some h1) = Some h2"
    "seg h2 None ys (Some b)" "seg h2 (Some b) zs None" "h2 b = h b" "h1 b = h b"
    "\<forall>c. c \<notin> fst ` set (ys @ zs) \<longrightarrow> h2 c = h c"
proof -
  have dist: "distinct (map fst ys)" "distinct (map fst zs)" "fst ` set ys \<inter> fst ` set zs = {}"
    and segs: "seg h None ys (head_of zs None)" "seg h (last_of None ys) zs None"
    using assms(1) by (simp_all add: dll_def)
  obtain h1 where h1: "(case last_of None ys of Some p \<Rightarrow> set_next p (Some b) h | None \<Rightarrow> Some h) = Some h1"
      "seg h1 None ys (Some b)" "\<forall>c. c \<notin> fst ` set ys \<longrightarrow> h1 c = h c"
    using relink_next[OF segs(1) dist(1)] .
  have z1: "seg h1 (last_of None ys) zs None" by (rule seg_disjoint[OF segs(2) h1(3) dist(3)])
  obtain h2 where h2: "(case head_of zs None of Some q \<Rightarrow> set_prev q (Some b) h1 | None \<Rightarrow> Some h1) = Some h2"
      "seg h2 (Some b) zs None" "\<forall>c. c \<notin> fst ` set zs \<longrightarrow> h2 c = h1 c"
    using relink_prev[OF z1 dist(2)] .
  have "seg h2 None ys (Some b)" by (rule seg_disjoint[OF h1(2) h2(3)]) (use dist(3) in blast)
  moreover have "h2 b = h b" "h1 b = h b" "\<forall>c. c \<notin> fst ` set (ys @ zs) \<longrightarrow> h2 c = h c"
    using h1(3) h2(3) assms(2) unfolding set_append image_Un by simp_all
  ultimately show ?thesis using that h1(1) h2(1,2) by blast
qed

text \<open>A node is added in front, at the end, or between two nodes.\<close>

lemma sge_sl_elem_insert_correct:
  fixes h :: "'d heap"
  assumes dll: "dll (h, l) xs" and b: "b \<notin> fst ` set xs" and n: "length xs < u32_mod - 1"
    and hb: "h b = Some \<lparr>prev = None, nxt = None, data = d\<rparr>"
  obtains st where "sge_sl_elem_insert (Some b) dir (h, l) = Some st"
    "dll st (if dir = SGE_SL_FORWARD then (b, d) # xs else xs @ [(b, d)])"
    "\<forall>c. c \<notin> insert b (fst ` set xs) \<longrightarrow> fst st c = h c"
proof (cases dir)
  case SGE_SL_FORWARD
  have hdr: "first l = head_of xs None" "last_elem l = last_of None xs" using dll by (simp_all add: dll_def)
  have b0: "dll (h, l) ([] @ xs)" "b \<notin> fst ` set ([] @ xs)" using dll b by simp_all
  obtain h1 h2 where r: "(case last_of None ([] :: 'd nodes) of Some p \<Rightarrow> set_next p (Some b) h | None \<Rightarrow> Some h) = Some h1"
      and h2: "(case head_of xs None of Some q \<Rightarrow> set_prev q (Some b) h1 | None \<Rightarrow> Some h1) = Some h2"
      "seg h2 None ([] :: 'd nodes) (Some b)" "seg h2 (Some b) xs None" "h2 b = h b" "h1 b = h b"
      "\<forall>c. c \<notin> fst ` set ([] @ xs) \<longrightarrow> h2 c = h c"
    using relink_around[OF b0] .
  have h1: "h1 = h" using r by simp
  define h' where "h' = h2(b \<mapsto> \<lparr>prev = None, nxt = head_of xs None, data = d\<rparr>)"
  define l' where "l' = l\<lparr>first := Some b, last_elem := (if xs = [] then Some b else last_elem l),
      elements := add32 (elements l) 1\<rparr>"
  have "sge_sl_elem_insert (Some b) dir (h, l) = Some (h', l')"
    using SGE_SL_FORWARD h2(4) hb last_of_None[of xs]
    by (simp add: sge_sl_elem_insert_def set_next_def h'_def l'_def hdr h2(1)[unfolded h1])
  moreover have "dll (h', l') ([] @ (b, d) # xs)"
    by (rule dll_insert[of h l "[]" xs b]) (use dll b n h2(3) in \<open>simp_all add: h'_def l'_def seg_update\<close>)
  ultimately show ?thesis
    using that[of "(h', l')"] SGE_SL_FORWARD h2(6) by (simp add: h'_def)
next
  case SGE_SL_BACKWARD
  have hdr: "first l = head_of xs None" "last_elem l = last_of None xs" using dll by (simp_all add: dll_def)
  have b0: "dll (h, l) (xs @ [])" "b \<notin> fst ` set (xs @ [])" using dll b by simp_all
  obtain h0 h1 where h1: "(case last_of None xs of Some p \<Rightarrow> set_next p (Some b) h | None \<Rightarrow> Some h) = Some h0"
      "(case head_of ([] :: 'd nodes) None of Some q \<Rightarrow> set_prev q (Some b) h0 | None \<Rightarrow> Some h0) = Some h1"
      "seg h1 None xs (Some b)" "seg h1 (Some b) ([] :: 'd nodes) None" "h1 b = h b" "h0 b = h b"
      "\<forall>c. c \<notin> fst ` set (xs @ []) \<longrightarrow> h1 c = h c"
    using relink_around[OF b0] .
  have h0: "h0 = h1" using h1(2) by simp
  define h' where "h' = h1(b \<mapsto> \<lparr>prev = last_of None xs, nxt = None, data = d\<rparr>)"
  define l' where "l' = l\<lparr>last_elem := Some b, first := (if xs = [] then Some b else first l),
      elements := add32 (elements l) 1\<rparr>"
  have "sge_sl_elem_insert (Some b) dir (h, l) = Some (h', l')"
    using SGE_SL_BACKWARD h1(5) hb head_of_None[of xs]
    by (simp add: sge_sl_elem_insert_def set_prev_def h'_def l'_def hdr h1(1)[unfolded h0])
  moreover have "dll (h', l') (xs @ (b, d) # [])"
    by (rule dll_insert[of h l xs "[]" b]) (use dll b n h1(3) in \<open>simp_all add: h'_def l'_def seg_update\<close>)
  ultimately show ?thesis
    using that[of "(h', l')"] SGE_SL_BACKWARD h1(7) by (simp add: h'_def)
qed

lemma sge_sl_insert_correct:
  fixes h :: "'d heap"
  assumes dll: "dll (h, l) xs" and b: "b \<notin> fst ` set xs" and n: "length xs < u32_mod - 1"
  obtains st where "sge_sl_insert b d dir (h, l) = Some st"
    "dll st (if dir = SGE_SL_FORWARD then (b, d) # xs else xs @ [(b, d)])"
    "\<forall>c. c \<notin> insert b (fst ` set xs) \<longrightarrow> fst st c = h c"
proof -
  define h0 where "h0 = sge_sl_elem_create b d h"
  have hb: "h0 b = Some \<lparr>prev = None, nxt = None, data = d\<rparr>" by (simp add: h0_def sge_sl_elem_create_def)
  have d0: "dll (h0, l) xs"
    using dll b by (simp add: dll_def h0_def sge_sl_elem_create_def seg_update)
  obtain st where st: "sge_sl_elem_insert (Some b) dir (h0, l) = Some st"
      "dll st (if dir = SGE_SL_FORWARD then (b, d) # xs else xs @ [(b, d)])"
      "\<forall>c. c \<notin> insert b (fst ` set xs) \<longrightarrow> fst st c = h0 c"
    using sge_sl_elem_insert_correct[OF d0 b n hb] .
  show ?thesis
    using that[of st] st by (simp add: sge_sl_insert_def h0_def sge_sl_elem_create_def)
qed

lemma sge_sl_insert_before_correct:
  fixes h :: "'d heap"
  assumes dll: "dll (h, l) (ys @ (a, e) # zs)" and b: "b \<notin> fst ` set (ys @ (a, e) # zs)"
    and n: "length (ys @ (a, e) # zs) < u32_mod - 1"
    and hb: "h b = Some \<lparr>prev = None, nxt = None, data = d\<rparr>"
  shows "\<exists>st. sge_sl_insert_before (Some b) (Some a) (h, l) = Some st \<and> dll st (ys @ (b, d) # (a, e) # zs)"
proof -
  have na: "h a = Some \<lparr>prev = last_of None ys, nxt = head_of zs None, data = e\<rparr>" using dll by (simp add: dll_def)
  have ba: "b \<noteq> a" using b by auto
  obtain h1 h2 where r:
      "(case last_of None ys of Some p \<Rightarrow> set_next p (Some b) h | None \<Rightarrow> Some h) = Some h1"
      "(case head_of ((a, e) # zs) None of Some q \<Rightarrow> set_prev q (Some b) h1 | None \<Rightarrow> Some h1) = Some h2"
      "seg h2 None ys (Some b)" "seg h2 (Some b) ((a, e) # zs) None" "h2 b = h b" "h1 b = h b"
      "\<forall>c. c \<notin> fst ` set (ys @ (a, e) # zs) \<longrightarrow> h2 c = h c"
    using relink_around[OF dll b] .
  define h' where "h' = h2(b \<mapsto> \<lparr>prev = last_of None ys, nxt = Some a, data = d\<rparr>)"
  define l' where "l' = (if ys = [] then l\<lparr>first := Some b\<rparr> else l)\<lparr>elements := add32 (elements l) 1\<rparr>"
  have run: "sge_sl_insert_before (Some b) (Some a) (h, l) = Some (h', l')"
  proof (cases "last_of None ys")
    case None
    then show ?thesis using r(1,2,5) na hb last_of_None[of ys]
      by (simp add: sge_sl_insert_before_def set_next_def h'_def l'_def)
  next
    case (Some p)
    then show ?thesis using r(1,2,5) na hb last_of_None[of ys]
      by (auto simp: sge_sl_insert_before_def set_next_def[of b] set_prev_def[of b] h'_def l'_def)
  qed
  have "dll (h', l') (ys @ (b, d) # (a, e) # zs)"
  proof (rule dll_insert[OF dll b n])
    show "seg h' None ys (Some b)" unfolding h'_def by (rule seg_update[OF r(3)]) (use b in auto)
    show "seg h' (Some b) ((a, e) # zs) None" unfolding h'_def by (rule seg_update[OF r(4)]) (use b in auto)
  qed (simp_all add: h'_def l'_def)
  then show ?thesis using run by blast
qed

lemma sge_sl_append_after_correct:
  fixes h :: "'d heap"
  assumes dll: "dll (h, l) (ys @ (a, e) # zs)" and b: "b \<notin> fst ` set (ys @ (a, e) # zs)"
    and n: "length (ys @ (a, e) # zs) < u32_mod - 1"
    and hb: "h b = Some \<lparr>prev = None, nxt = None, data = d\<rparr>"
  shows "\<exists>st. sge_sl_append_after (Some b) (Some a) (h, l) = Some st \<and> dll st (ys @ (a, e) # (b, d) # zs)"
proof -
  have na: "h a = Some \<lparr>prev = last_of None ys, nxt = head_of zs None, data = e\<rparr>" using dll by (simp add: dll_def)
  have dll': "dll (h, l) ((ys @ [(a, e)]) @ zs)" and b': "b \<notin> fst ` set ((ys @ [(a, e)]) @ zs)"
    and n': "length ((ys @ [(a, e)]) @ zs) < u32_mod - 1" using dll b n by simp_all
  obtain h1 h2 where r:
      "(case last_of None (ys @ [(a, e)]) of Some p \<Rightarrow> set_next p (Some b) h | None \<Rightarrow> Some h) = Some h1"
      "(case head_of zs None of Some q \<Rightarrow> set_prev q (Some b) h1 | None \<Rightarrow> Some h1) = Some h2"
      "seg h2 None (ys @ [(a, e)]) (Some b)" "seg h2 (Some b) zs None" "h2 b = h b" "h1 b = h b"
      "\<forall>c. c \<notin> fst ` set ((ys @ [(a, e)]) @ zs) \<longrightarrow> h2 c = h c"
    using relink_around[OF dll' b'] .
  define h' where "h' = h2(b \<mapsto> \<lparr>prev = Some a, nxt = head_of zs None, data = d\<rparr>)"
  define l' where "l' = (if zs = [] then l\<lparr>last_elem := Some b\<rparr> else l)\<lparr>elements := add32 (elements l) 1\<rparr>"
  have run: "sge_sl_append_after (Some b) (Some a) (h, l) = Some (h', l')"
  proof (cases "head_of zs None")
    case None
    then show ?thesis using r(1,2,5) na hb head_of_None[of zs]
      by (simp add: sge_sl_append_after_def set_prev_def h'_def l'_def)
  next
    case (Some p)
    then show ?thesis using r(1,2,5) na hb head_of_None[of zs]
      by (auto simp: sge_sl_append_after_def set_next_def[of b] set_prev_def[of b] h'_def l'_def)
  qed
  have "dll (h', l') ((ys @ [(a, e)]) @ (b, d) # zs)"
  proof (rule dll_insert[OF dll' b' n'])
    show "seg h' None (ys @ [(a, e)]) (Some b)" unfolding h'_def by (rule seg_update[OF r(3)]) (use b in auto)
    show "seg h' (Some b) zs None" unfolding h'_def by (rule seg_update[OF r(4)]) (use b in auto)
  qed (simp_all add: h'_def l'_def)
  then show ?thesis using run by auto
qed

section \<open>Searching\<close>

lemma search_loop_forward:
  "seg h p xs None \<Longrightarrow>
   search_loop cmp SGE_SL_FORWARD h (head_of xs None) = Some (map_option fst (find (\<lambda>x. cmp (snd x) = 0) xs))"
proof (induction xs arbitrary: p)
  case Nil
  show ?case by (simp add: search_loop.simps)
next
  case (Cons x xs)
  then show ?case by (cases x) (auto simp: search_loop.simps[of _ _ _ "Some _"] link_of_def)
qed

lemma search_loop_backward:
  "seg h None xs n \<Longrightarrow>
   search_loop cmp SGE_SL_BACKWARD h (last_of None xs) = Some (map_option fst (find (\<lambda>x. cmp (snd x) = 0) (rev xs)))"
proof (induction xs arbitrary: n rule: rev_induct)
  case Nil
  show ?case by (simp add: search_loop.simps)
next
  case (snoc x xs)
  then show ?case by (cases x) (auto simp: search_loop.simps[of _ _ _ "Some _"] link_of_def)
qed

lemma sge_sl_elem_search_first:
  assumes "dll st xs"
  shows "sge_sl_elem_search None cmp dir st =
     Some (map_option fst (find (\<lambda>x. cmp (snd x) = 0) (if dir = SGE_SL_FORWARD then xs else rev xs)))"
  using assms
  by (cases dir) (auto simp: dll_def sge_sl_elem_search_def sge_sl_elem_next_def Let_def split_beta
      intro: search_loop_forward search_loop_backward)

lemma sge_sl_elem_search_next:
  assumes "dll st (ys @ (a, d) # zs)"
  shows "sge_sl_elem_search (Some a) cmp SGE_SL_FORWARD st =
     Some (map_option fst (find (\<lambda>x. cmp (snd x) = 0) zs))"
  using assms
  by (auto simp: dll_def sge_sl_elem_search_def sge_sl_elem_next_def Let_def split_beta link_of_def
      intro: search_loop_forward)

lemma seg_data: "seg h p xs n \<Longrightarrow> (a, d) \<in> set xs \<Longrightarrow> sge_sl_elem_data (Some a) h = Some (Some d)"
proof (induction xs arbitrary: p)
  case (Cons x xs)
  then show ?case by (cases x) (auto simp: sge_sl_elem_data_def)
qed simp

lemma sge_sl_data_search_correct:
  assumes "dll st xs"
  shows "sge_sl_data_search cmp dir st =
     Some (map_option snd (find (\<lambda>x. cmp (snd x) = 0) (if dir = SGE_SL_FORWARD then xs else rev xs)))"
proof (cases "find (\<lambda>x. cmp (snd x) = 0) (if dir = SGE_SL_FORWARD then xs else rev xs)")
  case None
  then show ?thesis
    using sge_sl_elem_search_first[OF assms, of cmp dir] by (simp add: sge_sl_data_search_def sge_sl_elem_data_def)
next
  case (Some x)
  then have "x \<in> set xs" by (auto simp: find_Some_iff split: if_splits) (metis length_rev nth_mem set_rev)
  then have "sge_sl_elem_data (Some (fst x)) (fst st) = Some (Some (snd x))"
    using assms by (intro seg_data[of "fst st" None xs None]) (simp_all add: dll_def)
  then show ?thesis
    using Some sge_sl_elem_search_first[OF assms, of cmp dir] by (simp add: sge_sl_data_search_def)
qed

section \<open>Inserting in order\<close>

lemma sorted_insert:
  assumes total: "\<forall>x y. compare x y > 0 \<longrightarrow> compare y x \<le> 0"
    and trans: "\<forall>x y z. compare x y \<le> 0 \<longrightarrow> compare y z \<le> 0 \<longrightarrow> compare x z \<le> 0"
    and sorted: "sorted_wrt (\<lambda>x y. compare x y \<le> (0 :: int)) (map snd xs)"
  shows "sorted_wrt (\<lambda>x y. compare x y \<le> 0)
    (map snd (takeWhile (\<lambda>x. compare d (snd x) > 0) xs @ (b, d) # dropWhile (\<lambda>x. compare d (snd x) > 0) xs))"
  using sorted
proof (induction xs)
  case Nil
  show ?case by simp
next
  case (Cons x xs)
  show ?case
  proof (cases "compare d (snd x) > 0")
    case True
    then have "compare (snd x) d \<le> 0" using total by blast
    moreover have "\<forall>y\<in>set xs. compare (snd x) (snd y) \<le> 0" using Cons.prems by auto
    moreover have "set (takeWhile (\<lambda>x. compare d (snd x) > 0) xs) \<subseteq> set xs"
      "set (dropWhile (\<lambda>x. compare d (snd x) > 0) xs) \<subseteq> set xs"
      by (auto dest: set_takeWhileD set_dropWhileD)
    ultimately have "\<forall>y\<in>set (takeWhile (\<lambda>x. compare d (snd x) > 0) xs @ (b, d) #
        dropWhile (\<lambda>x. compare d (snd x) > 0) xs). compare (snd x) (snd y) \<le> 0"
      by auto
    moreover have "sorted_wrt (\<lambda>x y. compare x y \<le> 0)
        (map snd (takeWhile (\<lambda>x. compare d (snd x) > 0) xs @ (b, d) # dropWhile (\<lambda>x. compare d (snd x) > 0) xs))"
      by (rule Cons.IH) (use Cons.prems in simp)
    ultimately show ?thesis using True by (simp add: ball_Un)
  next
    case False
    then have "compare d (snd x) \<le> 0" by simp
    moreover have "\<forall>y\<in>set xs. compare (snd x) (snd y) \<le> 0" using Cons.prems by auto
    ultimately have "\<forall>y\<in>set xs. compare d (snd y) \<le> 0" using trans by blast
    then show ?thesis using False Cons.prems by auto
  qed
qed

lemma insert_loop_correct:
  "seg h p xs None \<Longrightarrow>
   insert_loop cmp h p (head_of xs None) =
     Some (last_of p (takeWhile (\<lambda>x. cmp (snd x) > 0) xs), head_of (dropWhile (\<lambda>x. cmp (snd x) > 0) xs) None)"
proof (induction xs arbitrary: p)
  case Nil
  show ?case by (simp add: insert_loop.simps)
next
  case (Cons x xs)
  then show ?case by (cases x) (auto simp: insert_loop.simps[of _ _ _ "Some _"])
qed

lemma sge_sl_insert_search_correct:
  fixes h :: "'d heap"
  assumes dll: "dll (h, l) xs" and b: "b \<notin> fst ` set xs" and n: "length xs < u32_mod - 1"
  shows "\<exists>st. sge_sl_insert_search b d compare (h, l) = Some st \<and>
     dll st (takeWhile (\<lambda>x. compare d (snd x) > 0) xs @ (b, d) # dropWhile (\<lambda>x. compare d (snd x) > 0) xs)"
proof -
  define ys where "ys = takeWhile (\<lambda>x. compare d (snd x) > 0) xs"
  define zs where "zs = dropWhile (\<lambda>x. compare d (snd x) > 0) xs"
  have xs: "xs = ys @ zs" by (simp add: ys_def zs_def)
  define h0 where "h0 = sge_sl_elem_create b d h"
  have hb: "h0 b = Some \<lparr>prev = None, nxt = None, data = d\<rparr>" by (simp add: h0_def sge_sl_elem_create_def)
  have d0: "dll (h0, l) xs"
    using dll b by (simp add: dll_def h0_def sge_sl_elem_create_def seg_update)
  have loop: "insert_loop (compare d) h0 None (first l) = Some (last_of None ys, head_of zs None)"
    using d0 insert_loop_correct[of h0 None xs "compare d"] by (simp add: dll_def ys_def zs_def)
  have d1: "dll (h0, l) (ys @ zs)" and b1: "b \<notin> fst ` set (ys @ zs)" and n1: "length (ys @ zs) < u32_mod - 1"
    using d0 b n by (simp_all add: xs)
  obtain h1 h2 where r:
      "(case last_of None ys of Some p \<Rightarrow> set_next p (Some b) h0 | None \<Rightarrow> Some h0) = Some h1"
      "(case head_of zs None of Some q \<Rightarrow> set_prev q (Some b) h1 | None \<Rightarrow> Some h1) = Some h2"
      "seg h2 None ys (Some b)" "seg h2 (Some b) zs None" "h2 b = h0 b" "h1 b = h0 b"
      "\<forall>c. c \<notin> fst ` set (ys @ zs) \<longrightarrow> h2 c = h0 c"
    using relink_around[OF d1 b1] .
  define h' where "h' = h2(b \<mapsto> \<lparr>prev = last_of None ys, nxt = head_of zs None, data = d\<rparr>)"
  define l' where "l' = l\<lparr>first := if ys = [] then Some b else first l,
      last_elem := if zs = [] then Some b else last_elem l, elements := add32 (elements l) 1\<rparr>"
  have run: "sge_sl_insert_search b d compare (h, l) = Some (h', l')"
  proof (cases "ys = []"; cases "zs = []")
    assume e: "ys = []" "zs = []"
    have "h' = h0" using r(1,2) hb by (simp add: h'_def e fun_upd_idem)
    then show ?thesis using loop
      by (simp add: sge_sl_insert_search_def Let_def flip: h0_def) (simp add: e l'_def)
  next
    assume e: "ys = []" "zs \<noteq> []"
    then obtain c where c: "head_of zs None = Some c" by (cases zs) simp_all
    show ?thesis using loop r(1,2,5) hb
      by (simp add: sge_sl_insert_search_def Let_def c e(1) set_next_def flip: h0_def) (simp add: e c l'_def h'_def)
  next
    assume e: "ys \<noteq> []" "zs = []"
    then obtain p where p: "last_of None ys = Some p" by (simp add: last_of_def)
    show ?thesis using loop r(1,2,5) hb
      by (simp add: sge_sl_insert_search_def Let_def p e(2) set_prev_def flip: h0_def) (simp add: e p l'_def h'_def)
  next
    assume e: "ys \<noteq> []" "zs \<noteq> []"
    then obtain c p where c: "head_of zs None = Some c" "last_of None ys = Some p"
      by (cases zs) (simp_all add: last_of_def)
    show ?thesis using loop r(1,2,5) hb
      by (simp add: sge_sl_insert_search_def Let_def c set_prev_def[of b] set_next_def[of b] flip: h0_def)
        (simp add: e c l'_def h'_def)
  qed
  have "dll (h', l') (ys @ (b, d) # zs)"
  proof (rule dll_insert[OF d1 b1 n1])
    show "seg h' None ys (Some b)" unfolding h'_def by (rule seg_update[OF r(3)]) (use b1 in auto)
    show "seg h' (Some b) zs None" unfolding h'_def by (rule seg_update[OF r(4)]) (use b1 in auto)
  qed (simp_all add: h'_def l'_def)
  then show ?thesis using run unfolding ys_def zs_def by blast
qed

section \<open>Deleting and destroying\<close>

lemma dll_forget: "dll (h, l) xs \<Longrightarrow> a \<notin> fst ` set xs \<Longrightarrow> dll (h(a := None), l) xs"
  unfolding dll_def fst_conv snd_conv
  by (elim conjE, intro conjI; (assumption)?) (erule seg_disjoint[of _ _ _ _ "{a}"]; simp)

lemma sge_sl_delete_correct:
  assumes "dll (h, l) xs"
  shows "\<exists>st. sge_sl_delete dir (h, l) = Some st \<and>
     dll st (if dir = SGE_SL_FORWARD then tl xs else butlast xs)"
proof (cases "xs = []")
  case True
  then show ?thesis
    using assms by (auto simp: sge_sl_delete_def sge_sl_dechain_def sge_sl_elem_destroy_def dll_def)
next
  case False
  define ys where "ys = (if dir = SGE_SL_FORWARD then [] else butlast xs)"
  define zs where "zs = (if dir = SGE_SL_FORWARD then tl xs else [])"
  obtain a d where xs: "xs = ys @ (a, d) # zs"
  proof (cases dir)
    case SGE_SL_FORWARD
    then show ?thesis using that[of "fst (hd xs)" "snd (hd xs)"] False by (simp add: ys_def zs_def)
  next
    case SGE_SL_BACKWARD
    then show ?thesis using that[of "fst (last xs)" "snd (last xs)"] False by (simp add: ys_def zs_def)
  qed
  have e: "(if dir = SGE_SL_FORWARD then first l else last_elem l) = Some a"
    using assms by (simp add: dll_def xs) (simp add: ys_def zs_def)
  obtain h' l' where r: "sge_sl_dechain (Some a) (h, l) = Some (h', l')" "dll (h', l') (ys @ zs)"
    "h' a = Some \<lparr>prev = None, nxt = None, data = d\<rparr>"
    "\<forall>b. b \<notin> fst ` set (ys @ (a, d) # zs) \<longrightarrow> h' b = h b"
    using sge_sl_dechain_correct[OF assms[unfolded xs]] .
  have "dll (h'(a := None), l') (ys @ zs)"
    by (rule dll_forget[OF r(2)]) (use assms in \<open>auto simp: dll_def xs\<close>)
  then show ?thesis
    using e r(1) by (auto simp: sge_sl_delete_def sge_sl_elem_destroy_def ys_def zs_def split: if_splits)
qed

lemma find_split:
  "find P xs = Some x \<Longrightarrow> \<exists>ys zs. xs = ys @ x # zs \<and> P x \<and> (\<forall>y\<in>set ys. \<not> P y)"
proof (induction xs)
  case (Cons y xs)
  show ?case
  proof (cases "P y")
    case True
    then show ?thesis using Cons.prems by (intro exI[of _ "[]"] exI[of _ xs]) simp
  next
    case False
    then obtain ys zs where "xs = ys @ x # zs" "P x" "\<forall>y\<in>set ys. \<not> P y" using Cons by auto
    then show ?thesis using False by (intro exI[of _ "y # ys"] exI[of _ zs]) simp
  qed
qed simp

text \<open>Removing the first element that satisfies a predicate.\<close>

fun remove_first :: "('a \<Rightarrow> bool) \<Rightarrow> 'a list \<Rightarrow> 'a list" where
  "remove_first P [] = []"
| "remove_first P (x # xs) = (if P x then xs else x # remove_first P xs)"

lemma remove_first_none: "\<forall>x\<in>set xs. \<not> P x \<Longrightarrow> remove_first P xs = xs"
  by (induction xs) simp_all

lemma remove_first_split: "P x \<Longrightarrow> \<forall>y\<in>set ys. \<not> P y \<Longrightarrow> remove_first P (ys @ x # zs) = ys @ zs"
  by (induction ys) simp_all

text \<open>
  What the users of a list rely on when they look for an element, unchain it, read its data and
  free it: the search finds the first match, and afterwards the list is the old one without it.
\<close>

locale searchable_list =
  fixes repr :: "'s \<Rightarrow> ('n \<times> 'd) list \<Rightarrow> bool"
    and search :: "('d \<Rightarrow> int) \<Rightarrow> 's \<Rightarrow> 'n option option"
    and dechain :: "'n option \<Rightarrow> 's \<Rightarrow> 's option"
    and elem_data :: "'n option \<Rightarrow> 's \<Rightarrow> 'd option option"
    and destroy :: "'n option \<Rightarrow> 's \<Rightarrow> 's"
  assumes search_first: "repr s xs \<Longrightarrow> search cmp s = Some (map_option fst (find (\<lambda>x. cmp (snd x) = 0) xs))"
    and dechain_none: "dechain None s = Some s"
    and dechain_removes: "repr s (ys @ (a, d) # zs) \<Longrightarrow>
      \<exists>s'. dechain (Some a) s = Some s' \<and> repr s' (ys @ zs) \<and> elem_data (Some a) s' = Some (Some d) \<and>
        repr (destroy (Some a) s') (ys @ zs)"
    and destroy_none: "destroy None s = s"
    and elem_data_none: "elem_data None s = Some None"
begin

lemma take_first_match:
  assumes "repr s xs"
  shows "\<exists>e s'. search cmp s = Some e \<and> (e = None \<longleftrightarrow> find (\<lambda>x. cmp (snd x) = 0) xs = None) \<and>
     dechain e s = Some s' \<and>
     elem_data e s' = Some (map_option snd (find (\<lambda>x. cmp (snd x) = 0) xs)) \<and>
     repr (destroy e s') (remove_first (\<lambda>x. cmp (snd x) = 0) xs)"
proof (cases "find (\<lambda>x. cmp (snd x) = 0) xs")
  case None
  then have "remove_first (\<lambda>x. cmp (snd x) = 0) xs = xs"
    by (intro remove_first_none) (auto simp: find_None_iff)
  then show ?thesis
    using None assms search_first[OF assms] by (simp add: dechain_none elem_data_none destroy_none)
next
  case (Some x)
  obtain ys zs where xs: "xs = ys @ x # zs" "cmp (snd x) = 0" "\<forall>y\<in>set ys. cmp (snd y) \<noteq> 0"
    using find_split[OF Some] by auto
  obtain a d where x: "x = (a, d)" by (cases x)
  have "remove_first (\<lambda>x. cmp (snd x) = 0) xs = ys @ zs"
    unfolding xs(1) by (rule remove_first_split) (use xs(2,3) in simp_all)
  then show ?thesis
    using dechain_removes[OF assms[unfolded xs(1) x]] Some search_first[OF assms, of cmp] by (auto simp: x)
qed

end

interpretation sl: searchable_list dll "\<lambda>cmp. sge_sl_elem_search None cmp SGE_SL_FORWARD" sge_sl_dechain
  "\<lambda>e st. sge_sl_elem_data e (fst st)" "\<lambda>e st. (sge_sl_elem_destroy e (fst st), snd st)"
proof
  fix st :: "'d sl_state" and ys zs a d
  assume a: "dll st (ys @ (a, d) # zs)"
  obtain h l where st: "st = (h, l)" by (cases st)
  obtain h' l' where r: "sge_sl_dechain (Some a) (h, l) = Some (h', l')" "dll (h', l') (ys @ zs)"
    "h' a = Some \<lparr>prev = None, nxt = None, data = d\<rparr>"
    "\<forall>b. b \<notin> fst ` set (ys @ (a, d) # zs) \<longrightarrow> h' b = h b"
    using sge_sl_dechain_correct[OF a[unfolded st]] .
  have "dll (h'(a := None), l') (ys @ zs)"
    by (rule dll_forget[OF r(2)]) (use a in \<open>auto simp: dll_def\<close>)
  then show "\<exists>s'. sge_sl_dechain (Some a) st = Some s' \<and> dll s' (ys @ zs) \<and>
      sge_sl_elem_data (Some a) (fst s') = Some (Some d) \<and>
      dll (sge_sl_elem_destroy (Some a) (fst s'), snd s') (ys @ zs)"
    using r by (simp add: st sge_sl_elem_data_def sge_sl_elem_destroy_def)
qed (simp_all add: sge_sl_elem_search_first sge_sl_dechain_def sge_sl_elem_data_def sge_sl_elem_destroy_def split_beta)

lemma sge_sl_delete_search_correct:
  assumes "dll st xs"
  shows "\<exists>st'. sge_sl_delete_search cmp SGE_SL_FORWARD st = Some st' \<and>
     dll st' (remove_first (\<lambda>x. cmp (snd x) = 0) xs)"
  using sl.take_first_match[OF assms, of cmp] by (auto simp: sge_sl_delete_search_def)

lemma destroy_loop_correct:
  "seg h p xs None \<Longrightarrow> distinct (map fst xs) \<Longrightarrow>
   destroy_loop h (head_of xs None) = Some (\<lambda>a. if a \<in> fst ` set xs then None else h a)"
proof (induction xs arbitrary: h p)
  case Nil
  show ?case by (simp add: destroy_loop.simps)
next
  case (Cons x xs)
  obtain a d where x: "x = (a, d)" by (cases x)
  have "seg h (Some a) xs None" "a \<notin> fst ` set xs" using Cons.prems x by auto
  then have "seg (h(a := None)) (Some a) xs None"
    using seg_disjoint[of h "Some a" xs None "{a}" "h(a := None)"] by simp
  then have "destroy_loop (h(a := None)) (head_of xs None) =
      Some (\<lambda>b. if b \<in> fst ` set xs then None else (h(a := None)) b)"
    by (rule Cons.IH) (use Cons.prems(2) in simp)
  moreover have "h a = Some \<lparr>prev = p, nxt = head_of xs None, data = d\<rparr>" using Cons.prems(1) x by simp
  ultimately have "destroy_loop h (Some a) = Some (\<lambda>b. if b \<in> fst ` set xs then None else (h(a := None)) b)"
    by (simp add: destroy_loop.simps[of h "Some a"] sge_sl_elem_destroy_def)
  also have "(\<lambda>b. if b \<in> fst ` set xs then None else (h(a := None)) b) =
      (\<lambda>b. if b \<in> fst ` set (x # xs) then None else h b)"
    by (rule ext) (simp add: x)
  finally show ?case by (simp add: x)
qed

lemma sge_sl_destroy_correct:
  "dll (h, l) xs \<Longrightarrow> sge_sl_destroy (h, l) = Some (\<lambda>a. if a \<in> fst ` set xs then None else h a)"
  by (auto simp: dll_def sge_sl_destroy_def intro: destroy_loop_correct)

section \<open>Sorting\<close>

lemma collect_loop_correct: "seg h p xs None \<Longrightarrow> collect_loop h (head_of xs None) = Some xs"
proof (induction xs arbitrary: p)
  case Nil
  show ?case by (simp add: collect_loop.simps)
next
  case (Cons x xs)
  then show ?case by (cases x) (auto simp: collect_loop.simps[of _ "Some _"])
qed

lemma set_data_loop:
  "seg h p xs n \<Longrightarrow> distinct (map fst xs) \<Longrightarrow> length ds = length xs \<Longrightarrow>
   \<exists>h'. foldo (\<lambda>(a, d) h. set_data a d h) (zip (map fst xs) ds) h = Some h' \<and>
     seg h' p (zip (map fst xs) ds) n \<and> (\<forall>b. b \<notin> fst ` set xs \<longrightarrow> h' b = h b)"
proof (induction xs arbitrary: h p ds)
  case Nil
  then show ?case by simp
next
  case (Cons x xs)
  obtain a d where x: "x = (a, d)" by (cases x)
  obtain e es where ds: "ds = e # es" using Cons.prems(3) by (cases ds) simp_all
  define h1 where "h1 = h(a \<mapsto> \<lparr>prev = p, nxt = head_of xs n, data = e\<rparr>)"
  have run: "set_data a e h = Some h1" using Cons.prems(1) by (simp add: x set_data_def h1_def)
  have s1: "seg h1 (Some a) xs n"
    unfolding h1_def by (rule seg_update) (use Cons.prems(1,2) x in auto)
  obtain h' where h': "foldo (\<lambda>(a, d) h. set_data a d h) (zip (map fst xs) es) h1 = Some h'"
      "seg h' (Some a) (zip (map fst xs) es) n" "\<forall>b. b \<notin> fst ` set xs \<longrightarrow> h' b = h1 b"
    using Cons.IH[OF s1, of es] Cons.prems(2,3) ds by auto
  have "h' a = h1 a" using h'(3) Cons.prems(2) x by simp
  moreover have "head_of (zip (map fst xs) es) n = head_of xs n"
    using Cons.prems(3) ds by (cases xs; cases es) simp_all
  ultimately show ?case using h' run by (simp add: x ds h1_def)
qed

lemma sge_sl_sort_correct:
  assumes "dll (h, l) xs" "length (qsort (map snd xs)) = length xs"
  shows "\<exists>st. sge_sl_sort qsort (h, l) = Some st \<and> dll st (zip (map fst xs) (qsort (map snd xs)))"
proof -
  define ds where "ds = qsort (map snd xs)"
  have d: "seg h None xs None" "distinct (map fst xs)" "length ds = length xs" "first l = head_of xs None"
    using assms by (simp_all add: dll_def ds_def)
  obtain h' where h': "foldo (\<lambda>(a, d) h. set_data a d h) (zip (map fst xs) ds) h = Some h'"
      "seg h' None (zip (map fst xs) ds) None"
    using set_data_loop[OF d(1-3)] by blast
  have ht: "head_of (zip (map fst xs) ds) None = head_of xs None" "last_of None (zip (map fst xs) ds) = last_of None xs"
    by (rule head_of_cong last_of_cong, use d(3) in simp)+
  have "sge_sl_sort qsort (h, l) = Some (h', l)"
    using collect_loop_correct[OF d(1)] h'(1) by (simp add: sge_sl_sort_def d(4) ds_def)
  moreover have "dll (h', l) (zip (map fst xs) ds)"
    using assms(1) h'(2) ht d(3) by (simp add: dll_def)
  ultimately show ?thesis unfolding ds_def by blast
qed

end
