(* ===== verification/TaskQueue_Correct.thy ===== *)
theory TaskQueue_Correct
  imports TaskQueue SimpleList_Correct
begin

text \<open>
  The task queue rests on the list facts of the interpretation \<open>sl\<close>: a section of
  \<open>sge_tq_wait_for_task\<close> takes the first task of the wanted type. The invariant \<open>tq_inv\<close> of the
  interleaved threads then says that every task is handed out once, those of one type in the
  order in which they were stored, and that no thread sleeps while there is a task for it, unless
  the thread that moved the task into the queue has yet to wake the sleepers.
\<close>

section \<open>One section\<close>

definition wants :: "sge_tq_type \<Rightarrow> 'p sge_tq_task \<Rightarrow> bool" where
  "wants ty task \<longleftrightarrow> ty = SGE_TQ_UNKNOWN \<or> type task = ty"

lemma compare_wants: "sge_tq_task_compare_type ty task = 0 \<longleftrightarrow> wants ty task"
  by (auto simp: sge_tq_task_compare_type_def wants_def)

definition queue_repr :: "'p tq_state \<Rightarrow> (addr \<times> 'p sge_tq_task) list \<Rightarrow> bool" where
  "queue_repr st xs \<longleftrightarrow> dll (fst st, list (snd st)) xs"

lemma queue_repr_cong:
  "list q' = list q \<Longrightarrow> queue_repr (h, q') xs = queue_repr (h, q) xs"
  by (simp add: queue_repr_def)

lemma find_task_correct:
  "queue_repr st xs \<Longrightarrow> find_task ty st = Some (map_option fst (find (\<lambda>x. wants ty (snd x)) xs))"
  unfolding find_task_def queue_repr_def by (simp add: sl.search_first compare_wants)

lemma take_found_task:
  assumes "queue_repr st xs" "find_task ty st = Some e"
  shows "\<exists>h l. take_task e st = Some ((h, (snd st)\<lparr>list := l\<rparr>), Returns (map_option snd (find (\<lambda>x. wants ty (snd x)) xs))) \<and>
     queue_repr (h, (snd st)\<lparr>list := l\<rparr>) (remove_first (\<lambda>x. wants ty (snd x)) xs)"
proof -
  obtain e' st' where r: "sge_sl_elem_search None (sge_tq_task_compare_type ty) SGE_SL_FORWARD (fst st, list (snd st)) = Some e'"
      "e' = None \<longleftrightarrow> find (\<lambda>x. wants ty (snd x)) xs = None"
      "sge_sl_dechain e' (fst st, list (snd st)) = Some st'"
      "sge_sl_elem_data e' (fst st') = Some (map_option snd (find (\<lambda>x. wants ty (snd x)) xs))"
      "dll (sge_sl_elem_destroy e' (fst st'), snd st') (remove_first (\<lambda>x. wants ty (snd x)) xs)"
    using sl.take_first_match[OF assms(1)[unfolded queue_repr_def], of "sge_tq_task_compare_type ty"]
    by (auto simp: compare_wants)
  have e: "e' = e" using r(1) assms(2) by (simp add: find_task_def)
  show ?thesis
  proof (cases e)
    case None
    then have "take_task e st = Some ((fst st, (snd st)\<lparr>list := list (snd st)\<rparr>), Returns None)" by (simp add: take_task_def)
    then show ?thesis
      using r None unfolding e
      by (intro exI[of _ "fst st"] exI[of _ "list (snd st)"])
        (auto simp: sge_sl_dechain_def sge_sl_elem_destroy_def queue_repr_def)
  next
    case (Some a)
    then show ?thesis
      using r unfolding e
      by (intro exI[of _ "sge_sl_elem_destroy e (fst st')"] exI[of _ "snd st'"])
        (auto simp: take_task_def queue_repr_def split_beta)
  qed
qed

text \<open>Nodes of other lists stay as they are.\<close>

lemma dll_frame:
  assumes "dll (h, l) xs" "\<forall>c. c \<notin> A \<longrightarrow> h' c = h c" "A \<inter> fst ` set xs = {}"
  shows "dll (h', l) xs"
  using assms(1) seg_disjoint[OF _ assms(2,3), of None None] by (simp add: dll_def)

lemma take_task_frame:
  assumes "queue_repr st xs" "find_task ty st = Some e" "take_task e st = Some (st', out)" "c \<notin> fst ` set xs"
  shows "fst st' c = fst st c"
proof (cases "find (\<lambda>x. wants ty (snd x)) xs")
  case None
  then show ?thesis using assms find_task_correct[OF assms(1), of ty] by (simp add: take_task_def)
next
  case (Some x)
  then obtain ys a d zs where xs: "xs = ys @ (a, d) # zs" "x = (a, d)"
    using find_split[OF Some] by (cases x) auto
  have e: "e = Some a" using assms(2) find_task_correct[OF assms(1), of ty] Some xs(2) by simp
  obtain h l where "sge_sl_dechain (Some a) (fst st, list (snd st)) = Some (h, l)"
      "\<forall>b. b \<notin> fst ` set (ys @ (a, d) # zs) \<longrightarrow> h b = fst st b"
    using sge_sl_dechain_correct[OF assms(1)[unfolded queue_repr_def xs(1)]] by metis
  with assms(3,4) show ?thesis
    by (auto simp: e xs(1) take_task_def sge_sl_elem_destroy_def bind_eq_Some_conv)
qed

lemma wait_for_task_frame:
  assumes "queue_repr st xs" "sge_tq_wait_for_task t ty shutdown st = Some (st', out)" "c \<notin> fst ` set xs"
  shows "fst st' c = fst st c"
  using assms find_task_correct[OF assms(1), of ty] take_task_frame[OF assms(1)]
  by (auto simp: sge_tq_wait_for_task_def Let_def split: if_splits)

lemma resume_wait_for_task_frame:
  assumes "queue_repr st xs" "resume_wait_for_task t ty shutdown st = Some (st', out)" "c \<notin> fst ` set xs"
  shows "fst st' c = fst st c"
proof -
  define st1 where "st1 = (fst st, (snd st)\<lparr>waiting := sub32 (waiting (snd st)) 1, cond := cond (snd st) - {t}\<rparr>)"
  have s1: "queue_repr st1 xs" using assms(1) by (simp add: st1_def queue_repr_def)
  obtain e where e: "find_task ty st = Some e" "find_task ty st1 = Some e"
    using find_task_correct[OF assms(1), of ty] find_task_correct[OF s1, of ty] by simp
  show ?thesis
    using assms(2) e take_task_frame[OF s1 e(2) _ assms(3), of st' out]
    by (auto simp: resume_wait_for_task_def st1_def Let_def split: if_splits)
qed

text \<open>What a section does to the sequence of tasks and to the waiting threads.\<close>

definition section_result ::
    "sge_tq_type \<Rightarrow> bool \<Rightarrow> (addr \<times> 'p sge_tq_task) list \<Rightarrow> 'p outcome \<times> (addr \<times> 'p sge_tq_task) list" where
  "section_result ty shutdown xs =
     (case find (\<lambda>x. wants ty (snd x)) xs of
        Some x \<Rightarrow> (Returns (Some (snd x)), remove_first (\<lambda>x. wants ty (snd x)) xs)
      | None \<Rightarrow> (if shutdown then Returns None else Waits, xs))"

lemma wait_for_task_correct:
  assumes "queue_repr st xs" "section_result ty shutdown xs = (out, ys)"
  obtains h q where "sge_tq_wait_for_task t ty shutdown st = Some ((h, q), out)" "queue_repr (h, q) ys"
    "waiting q = (if out = Waits then add32 (waiting (snd st)) 1 else waiting (snd st))"
    "cond q = (if out = Waits then insert t (cond (snd st)) else cond (snd st))"
proof (cases "find (\<lambda>x. wants ty (snd x)) xs = None \<and> \<not> shutdown")
  case True
  then show ?thesis
    using assms that[of "fst st" "(snd st)\<lparr>waiting := add32 (waiting (snd st)) 1, cond := insert t (cond (snd st))\<rparr>"]
    by (auto simp: section_result_def sge_tq_wait_for_task_def find_task_correct[OF assms(1)] queue_repr_def Let_def)
next
  case False
  define e where "e = map_option fst (find (\<lambda>x. wants ty (snd x)) xs)"
  have f: "find_task ty st = Some e" unfolding e_def by (rule find_task_correct[OF assms(1)])
  obtain h l where r: "take_task e st = Some ((h, (snd st)\<lparr>list := l\<rparr>), Returns (map_option snd (find (\<lambda>x. wants ty (snd x)) xs)))"
      "queue_repr (h, (snd st)\<lparr>list := l\<rparr>) (remove_first (\<lambda>x. wants ty (snd x)) xs)"
    using take_found_task[OF assms(1) f] by blast
  have "find (\<lambda>x. wants ty (snd x)) xs = None \<Longrightarrow> remove_first (\<lambda>x. wants ty (snd x)) xs = xs"
    by (intro remove_first_none) (auto simp: find_None_iff)
  then have "out = Returns (map_option snd (find (\<lambda>x. wants ty (snd x)) xs))"
      "ys = remove_first (\<lambda>x. wants ty (snd x)) xs"
    using assms(2) False by (auto simp: section_result_def split: option.splits)
  moreover have "\<not> (e = None \<and> \<not> shutdown)" using False by (simp add: e_def)
  ultimately show ?thesis
    using that[of h "(snd st)\<lparr>list := l\<rparr>"] r f by (auto simp: sge_tq_wait_for_task_def)
qed

lemma resume_wait_for_task_correct:
  assumes "queue_repr st xs" "section_result ty shutdown xs = (out, ys)"
  obtains h q where "resume_wait_for_task t ty shutdown st = Some ((h, q), out)" "queue_repr (h, q) ys"
    "waiting q = (if out = Waits then waiting (snd st) else sub32 (waiting (snd st)) 1)"
    "cond q = (if out = Waits then insert t (cond (snd st)) else cond (snd st) - {t})"
proof (cases "find (\<lambda>x. wants ty (snd x)) xs = None \<and> \<not> shutdown")
  case True
  then show ?thesis
    using assms that[of "fst st" "(snd st)\<lparr>cond := insert t (cond (snd st))\<rparr>"]
    by (auto simp: section_result_def resume_wait_for_task_def find_task_correct[OF assms(1)] queue_repr_def Let_def)
next
  case False
  define e where "e = map_option fst (find (\<lambda>x. wants ty (snd x)) xs)"
  define st1 where "st1 = (fst st, (snd st)\<lparr>waiting := sub32 (waiting (snd st)) 1, cond := cond (snd st) - {t}\<rparr>)"
  have s1: "queue_repr st1 xs" using assms(1) by (simp add: st1_def queue_repr_def)
  have f: "find_task ty st = Some e" "find_task ty st1 = Some e"
    unfolding e_def by (rule find_task_correct[OF assms(1)], rule find_task_correct[OF s1])
  obtain h l where r: "take_task e st1 = Some ((h, (snd st1)\<lparr>list := l\<rparr>), Returns (map_option snd (find (\<lambda>x. wants ty (snd x)) xs)))"
      "queue_repr (h, (snd st1)\<lparr>list := l\<rparr>) (remove_first (\<lambda>x. wants ty (snd x)) xs)"
    using take_found_task[OF s1 f(2)] by blast
  have "find (\<lambda>x. wants ty (snd x)) xs = None \<Longrightarrow> remove_first (\<lambda>x. wants ty (snd x)) xs = xs"
    by (intro remove_first_none) (auto simp: find_None_iff)
  then have "out = Returns (map_option snd (find (\<lambda>x. wants ty (snd x)) xs))"
      "ys = remove_first (\<lambda>x. wants ty (snd x)) xs"
    using assms(2) False by (auto simp: section_result_def split: option.splits)
  moreover have "\<not> (e = None \<and> \<not> shutdown)" using False by (simp add: e_def)
  ultimately show ?thesis
    using that[of h "(snd st1)\<lparr>list := l\<rparr>"] r f by (auto simp: resume_wait_for_task_def st1_def Let_def)
qed

lemma store_notify_correct:
  assumes "queue_repr (h, q) xs" "h a = None" "length xs < u32_mod - 1" "sge_tq_task_create ty d = Some task"
  obtains h' q' where "sge_tq_store_notify a ty d (h, q) = Some (h', q')" "queue_repr (h', q') (xs @ [(a, task)])"
    "waiting q' = waiting q" "cond q' = (if waiting q > 0 then {} else cond q)"
    "\<forall>c. c \<notin> insert a (fst ` set xs) \<longrightarrow> h' c = h c"
proof -
  have dll: "dll (h, list q) xs" using assms(1) by (simp add: queue_repr_def)
  then have "seg h None xs None" by (simp add: dll_def)
  then have a: "a \<notin> fst ` set xs" using seg_in_heap assms(2) by metis
  obtain st where st: "sge_sl_insert a task SGE_SL_BACKWARD (h, list q) = Some st"
      "dll st (if SGE_SL_BACKWARD = SGE_SL_FORWARD then (a, task) # xs else xs @ [(a, task)])"
      "\<forall>c. c \<notin> insert a (fst ` set xs) \<longrightarrow> fst st c = h c"
    using sge_sl_insert_correct[OF dll a assms(3)] .
  show ?thesis
    using that[of "fst st" "if waiting q > 0 then q\<lparr>list := snd st, cond := {}\<rparr> else q\<lparr>list := snd st\<rparr>"] st
    by (auto simp: sge_tq_store_notify_def assms(4) queue_repr_def sge_tq_wakeup_waiting_def split_beta Let_def)
qed

section \<open>Moving tasks\<close>

text \<open>One iteration: the node leaves the source and becomes the last node of the destination.\<close>

lemma move_one:
  fixes h :: "'d heap"
  assumes src: "dll (h, src) (ys @ (a, d) # zs)" and dst: "dll (h, dst) ds"
    and disj: "fst ` set (ys @ (a, d) # zs) \<inter> fst ` set ds = {}" and room: "length ds < u32_mod - 1"
  obtains h1 src1 h2 dst1 where "sge_sl_dechain (Some a) (h, src) = Some (h1, src1)"
    "sge_sl_elem_insert (Some a) SGE_SL_BACKWARD (h1, dst) = Some (h2, dst1)"
    "dll (h2, src1) (ys @ zs)" "dll (h2, dst1) (ds @ [(a, d)])"
proof -
  obtain h1 src1 where r: "sge_sl_dechain (Some a) (h, src) = Some (h1, src1)" "dll (h1, src1) (ys @ zs)"
    "h1 a = Some \<lparr>prev = None, nxt = None, data = d\<rparr>"
    "\<forall>b. b \<notin> fst ` set (ys @ (a, d) # zs) \<longrightarrow> h1 b = h b"
    using sge_sl_dechain_correct[OF src] .
  have dst': "dll (h1, dst) ds" by (rule dll_frame[OF dst r(4) disj])
  have na: "a \<notin> fst ` set ds" using disj by auto
  obtain st where st: "sge_sl_elem_insert (Some a) SGE_SL_BACKWARD (h1, dst) = Some st"
      "dll st (if SGE_SL_BACKWARD = SGE_SL_FORWARD then (a, d) # ds else ds @ [(a, d)])"
      "\<forall>c. c \<notin> insert a (fst ` set ds) \<longrightarrow> fst st c = h1 c"
    using sge_sl_elem_insert_correct[OF dst' na room r(3)] .
  have "distinct (map fst (ys @ (a, d) # zs))" using src by (simp add: dll_def)
  then have "insert a (fst ` set ds) \<inter> fst ` set (ys @ zs) = {}" using disj by auto
  then have "dll (fst st, src1) (ys @ zs)" by (rule dll_frame[OF r(2) st(3)])
  then show ?thesis using that[of h1 src1 "fst st" "snd st"] r(1) st(1,2) by simp
qed

lemma move_loop_correct:
  fixes cmp :: "'d \<Rightarrow> int"
  defines "P \<equiv> \<lambda>x :: addr \<times> 'd. cmp (snd x) = 0"
  shows "dll (h, src) (ys @ zs) \<Longrightarrow> dll (h, dst) ds \<Longrightarrow> fst ` set (ys @ zs) \<inter> fst ` set ds = {} \<Longrightarrow>
   length ds + length (filter P zs) < u32_mod \<Longrightarrow> count + int (length (filter P zs)) < 2 ^ 31 \<Longrightarrow>
   \<exists>h' src' dst'. move_loop cmp h src dst (map_option fst (find P zs)) count =
       Some (h', src', dst', count + int (length (filter P zs))) \<and>
     dll (h', src') (ys @ filter (\<lambda>x. \<not> P x) zs) \<and> dll (h', dst') (ds @ filter P zs)"
proof (induction zs arbitrary: h src dst ys ds count)
  case Nil
  then show ?case by (simp add: move_loop.simps)
next
  case (Cons z zs)
  obtain a d where z: "z = (a, d)" by (cases z)
  show ?case
  proof (cases "P z")
    case False
    then show ?thesis using Cons.IH[of h src "ys @ [z]" dst ds count] Cons.prems by simp
  next
    case True
    have src: "dll (h, src) (ys @ (a, d) # zs)" "fst ` set (ys @ (a, d) # zs) \<inter> fst ` set ds = {}"
      using Cons.prems(1,3) z by simp_all
    have room: "length ds < u32_mod - 1" using Cons.prems(4) True by simp
    obtain h1 src1 h2 dst1 where r: "sge_sl_dechain (Some a) (h, src) = Some (h1, src1)"
      "sge_sl_elem_insert (Some a) SGE_SL_BACKWARD (h1, dst) = Some (h2, dst1)"
      "dll (h2, src1) (ys @ zs)" "dll (h2, dst1) (ds @ [(a, d)])"
      using move_one[OF src(1) Cons.prems(2) src(2) room] .
    have nx: "sge_sl_elem_search (Some a) cmp SGE_SL_FORWARD (h, src) = Some (map_option fst (find P zs))"
      unfolding P_def by (rule sge_sl_elem_search_next[OF src(1)])
    have "distinct (map fst (ys @ (a, d) # zs))" using src(1) by (simp add: dll_def)
    then have disj: "fst ` set (ys @ zs) \<inter> fst ` set (ds @ [(a, d)]) = {}" using src(2) by auto
    have "\<exists>h' src' dst'. move_loop cmp h2 src1 dst1 (map_option fst (find P zs)) (count + 1) =
         Some (h', src', dst', count + 1 + int (length (filter P zs))) \<and>
       dll (h', src') (ys @ filter (\<lambda>x. \<not> P x) zs) \<and> dll (h', dst') ((ds @ [(a, d)]) @ filter P zs)"
      by (rule Cons.IH[OF r(3,4) disj]) (use Cons.prems(4,5) True in simp_all)
    then show ?thesis
      using True nx r(1,2) Cons.prems(5)
      by (simp add: z move_loop.simps[of _ _ _ _ "Some a"] add.assoc)
  qed
qed

text \<open>\<open>sge_tq_move_from_to_if\<close> on two queues that share no node: it ends, the source keeps exactly
  the tasks for which the comparison is not zero, the others are appended to the destination in
  their order, and the result is their number.\<close>

lemma move_moves_matching_tasks:
  assumes "dll (h, list src) xs" "dll (h, list dst) ds" "fst ` set xs \<inter> fst ` set ds = {}"
    and "length ds + length (filter (\<lambda>x. cmp (snd x) = 0) xs) < u32_mod"
    and "length (filter (\<lambda>x. cmp (snd x) = 0) xs) < 2 ^ 31"
  shows "\<exists>h' src' dst'. sge_tq_move_from_to_if cmp h src dst =
      Some (h', src', dst', int (length (filter (\<lambda>x. cmp (snd x) = 0) xs))) \<and>
    dll (h', list src') (filter (\<lambda>x. cmp (snd x) \<noteq> 0) xs) \<and>
    dll (h', list dst') (ds @ filter (\<lambda>x. cmp (snd x) = 0) xs)"
proof -
  have s: "sge_sl_elem_search None cmp SGE_SL_FORWARD (h, list src) =
      Some (map_option fst (find (\<lambda>x. cmp (snd x) = 0) xs))"
    by (rule sl.search_first[OF assms(1)])
  have "\<exists>h' l l'. move_loop cmp h (list src) (list dst) (map_option fst (find (\<lambda>x. cmp (snd x) = 0) xs)) 0 =
      Some (h', l, l', 0 + int (length (filter (\<lambda>x. cmp (snd x) = 0) xs))) \<and>
    dll (h', l) ([] @ filter (\<lambda>x. \<not> cmp (snd x) = 0) xs) \<and>
    dll (h', l') (ds @ filter (\<lambda>x. cmp (snd x) = 0) xs)"
    by (rule move_loop_correct) (use assms in simp_all)
  then show ?thesis using s by (auto simp: sge_tq_move_from_to_if_def)
qed

section \<open>Interleaved threads\<close>

definition waiters_inv :: "'p tq_world \<Rightarrow> bool" where
  "waiters_inv w \<longleftrightarrow> finite (dom (callers w)) \<and> card (dom (callers w)) < u32_mod \<and>
     waiting (snd (state w)) = card (dom (callers w)) \<and> cond (snd (state w)) \<subseteq> dom (callers w)"

definition awake_inv :: "'p tq_world \<Rightarrow> (addr \<times> 'p sge_tq_task) list \<Rightarrow> bool" where
  "awake_inv w xs \<longleftrightarrow> movers w = {} \<longrightarrow> (\<forall>t\<in>cond (snd (state w)). \<forall>ty. callers w t = Some ty \<longrightarrow> (\<forall>x\<in>set xs. \<not> wants ty (snd x)))"

definition of_type :: "sge_tq_type \<Rightarrow> 'p sge_tq_task list \<Rightarrow> 'p sge_tq_task list" where
  "of_type ty = filter (\<lambda>task. type task = ty)"

definition order_inv :: "'p tq_world \<Rightarrow> (addr \<times> 'p sge_tq_task) list \<Rightarrow> bool" where
  "order_inv w xs \<longleftrightarrow> (\<forall>ty. of_type ty (stored w) = of_type ty (delivered w) @ of_type ty (map snd xs))"

definition source_inv :: "'p tq_world \<Rightarrow> (addr \<times> 'p sge_tq_task) list \<Rightarrow> bool" where
  \<comment> \<open>the other queue is a list of its own\<close>
  "source_inv w xs \<longleftrightarrow>
     (\<exists>ss. dll (fst (state w), list (source w)) ss \<and> fst ` set xs \<inter> fst ` set ss = {})"

definition tq_inv :: "'p tq_world \<Rightarrow> (addr \<times> 'p sge_tq_task) list \<Rightarrow> bool" where
  "tq_inv w xs \<longleftrightarrow> queue_repr (state w) xs \<and> waiters_inv w \<and> awake_inv w xs \<and> order_inv w xs \<and> source_inv w xs"

lemma source_inv_frame:
  assumes "source_inv w xs" "source w' = source w" "\<forall>c. c \<notin> A \<longrightarrow> fst (state w') c = fst (state w) c"
    and "\<forall>c\<in>A. c \<in> fst ` set xs \<or> fst (state w) c = None" "fst ` set ys \<subseteq> A"
  shows "source_inv w' ys"
proof -
  obtain ss where ss: "dll (fst (state w), list (source w)) ss" "fst ` set xs \<inter> fst ` set ss = {}"
    using assms(1) by (auto simp: source_inv_def)
  then have "seg (fst (state w)) None ss None" by (simp add: dll_def)
  then have "\<forall>c\<in>fst ` set ss. fst (state w) c \<noteq> None" using seg_in_heap by metis
  then have "A \<inter> fst ` set ss = {}" using assms(4) ss(2) by (meson disjoint_iff)
  with dll_frame[OF ss(1) assms(3)] show ?thesis using assms(2,5) by (auto simp: source_inv_def)
qed

lemma of_type_append [simp]: "of_type ty (xs @ ys) = of_type ty xs @ of_type ty ys"
  by (simp add: of_type_def)

lemma of_type_take_first:
  assumes "find (\<lambda>x. wants ty (snd x)) xs = Some x"
  shows "of_type ty' (map snd xs) =
     of_type ty' [snd x] @ of_type ty' (map snd (remove_first (\<lambda>x. wants ty (snd x)) xs))"
proof -
  obtain ys zs where xs: "xs = ys @ x # zs" "wants ty (snd x)" "\<forall>y\<in>set ys. \<not> wants ty (snd y)"
    using find_split[OF assms] by auto
  have r: "remove_first (\<lambda>x. wants ty (snd x)) xs = ys @ zs"
    unfolding xs(1) by (rule remove_first_split) (use xs(2,3) in simp_all)
  have "of_type ty' (map snd ys) = []" if "type (snd x) = ty'"
    using that xs(2,3) by (auto simp: of_type_def filter_empty_conv wants_def)
  then show ?thesis unfolding r unfolding xs(1) by (auto simp: of_type_def)
qed

lemma section_result_fifo:
  assumes "section_result ty shutdown xs = (out, ys)"
  shows "of_type ty' (map snd xs) = of_type ty' (returned out) @ of_type ty' (map snd ys)"
proof (cases "find (\<lambda>x. wants ty (snd x)) xs")
  case None
  then show ?thesis using assms by (auto simp: section_result_def of_type_def)
next
  case (Some x)
  then show ?thesis
    using assms of_type_take_first[OF Some, of ty'] by (auto simp: section_result_def)
qed

lemma set_remove_first: "set (remove_first P zs) \<subseteq> set zs"
  by (induction zs) auto

lemma section_result_subset: "section_result ty shutdown xs = (out, ys) \<Longrightarrow> set ys \<subseteq> set xs"
  using set_remove_first[of "\<lambda>x. wants ty (snd x)" xs]
  by (auto simp: section_result_def split: option.splits)

lemma section_result_waits:
  "section_result ty shutdown xs = (Waits, ys) \<Longrightarrow> ys = xs \<and> (\<forall>x\<in>set xs. \<not> wants ty (snd x))"
  by (auto simp: section_result_def find_None_iff split: option.splits if_splits)

text \<open>The world after a section, whichever of the two it was.\<close>

lemma after_section_inv:
  assumes inv: "tq_inv w xs" and res: "section_result ty shutdown xs = (out, ys)" and q: "queue_repr st ys"
    and cnd: "cond (snd st) = (if out = Waits then insert t (cond (snd (state w))) else cond (snd (state w)) - {t})"
    and wtg: "waiting (snd st) = card (dom ((callers w)(t := if out = Waits then Some ty else None)))"
    and bound: "waiting (snd st) < u32_mod" and frame: "\<And>c. c \<notin> fst ` set xs \<Longrightarrow> fst st c = fst (state w) c"
  shows "tq_inv (after_section t ty st out w) ys"
proof -
  let ?w = "after_section t ty st out w"
  have "queue_repr (state ?w) ys" using q by (simp add: after_section_def)
  moreover have "waiters_inv ?w"
    using inv cnd wtg bound unfolding tq_inv_def waiters_inv_def after_section_def by auto
  moreover have "awake_inv ?w ys"
  proof (cases "out = Waits")
    case True
    then show ?thesis using inv cnd section_result_waits[of ty shutdown xs ys] res
      by (auto simp: tq_inv_def awake_inv_def after_section_def)
  next
    case False
    have "awake_inv w ys" using inv section_result_subset[OF res] unfolding tq_inv_def awake_inv_def by blast
    then show ?thesis unfolding awake_inv_def using False cnd by (simp add: after_section_def) blast
  qed
  moreover have "order_inv ?w ys"
    using inv section_result_fifo[OF res] by (simp add: tq_inv_def order_inv_def after_section_def)
  moreover have "source_inv w xs" using inv by (simp add: tq_inv_def)
  then have "source_inv ?w ys"
    using frame section_result_subset[OF res]
    by (rule_tac source_inv_frame[where A = "fst ` set xs"]) (auto simp: after_section_def)
  ultimately show ?thesis by (simp add: tq_inv_def)
qed

lemma enter_inv:
  assumes inv: "tq_inv w xs" and t: "callers w t = None" and room: "sge_tq_get_waiting_count (state w) < u32_mod - 1"
    and run: "sge_tq_wait_for_task t ty shutdown (state w) = Some (st, out)"
  shows "\<exists>ys. tq_inv (after_section t ty st out w) ys"
proof -
  have q: "queue_repr (state w) xs" and wi: "waiters_inv w" using inv by (simp_all add: tq_inv_def)
  obtain out' ys where res: "section_result ty shutdown xs = (out', ys)" by fastforce
  obtain h q' where r: "sge_tq_wait_for_task t ty shutdown (state w) = Some ((h, q'), out')" "queue_repr (h, q') ys"
    "waiting q' = (if out' = Waits then add32 (waiting (snd (state w))) 1 else waiting (snd (state w)))"
    "cond q' = (if out' = Waits then insert t (cond (snd (state w))) else cond (snd (state w)))"
    using wait_for_task_correct[OF q res] .
  have st: "st = (h, q')" "out = out'" using r(1) run by simp_all
  have nt: "t \<notin> dom (callers w)" "t \<notin> cond (snd (state w))" using wi t by (auto simp: waiters_inv_def)
  have c: "waiting (snd (state w)) = card (dom (callers w))" "finite (dom (callers w))"
    "card (dom (callers w)) < u32_mod - 1"
    using wi room by (simp_all add: waiters_inv_def sge_tq_get_waiting_count_def)
  have "tq_inv (after_section t ty st out w) ys"
    by (rule after_section_inv[OF inv res[folded st(2)]])
      (use r(2-4) c nt st wait_for_task_frame[OF q run] in \<open>auto simp: u32_simps\<close>)
  then show ?thesis by blast
qed

lemma resume_inv:
  assumes inv: "tq_inv w xs" and t: "callers w t = Some ty"
    and run: "resume_wait_for_task t ty shutdown (state w) = Some (st, out)"
  shows "\<exists>ys. tq_inv (after_section t ty st out w) ys"
proof -
  have q: "queue_repr (state w) xs" and wi: "waiters_inv w" using inv by (simp_all add: tq_inv_def)
  obtain out' ys where res: "section_result ty shutdown xs = (out', ys)" by fastforce
  obtain h q' where r: "resume_wait_for_task t ty shutdown (state w) = Some ((h, q'), out')" "queue_repr (h, q') ys"
    "waiting q' = (if out' = Waits then waiting (snd (state w)) else sub32 (waiting (snd (state w))) 1)"
    "cond q' = (if out' = Waits then insert t (cond (snd (state w))) else cond (snd (state w)) - {t})"
    using resume_wait_for_task_correct[OF q res] .
  have st: "st = (h, q')" "out = out'" using r(1) run by simp_all
  have nt: "t \<in> dom (callers w)" using t by auto
  have c: "waiting (snd (state w)) = card (dom (callers w))" "finite (dom (callers w))"
    "card (dom (callers w)) < u32_mod" "card (dom (callers w)) \<noteq> 0"
    using wi nt by (auto simp: waiters_inv_def)
  have upd: "dom ((callers w)(t := if out = Waits then Some ty else None)) =
      (if out = Waits then dom (callers w) else dom (callers w) - {t})"
    using nt by auto
  have "sub32 (card (dom (callers w))) 1 = card (dom (callers w)) - 1" using c(3,4) by (simp add: u32_simps)
  then have w': "waiting q' = card (dom ((callers w)(t := if out = Waits then Some ty else None)))"
    unfolding upd using r(3) c(1,2) nt st(2) by auto
  have "card (dom ((callers w)(t := if out = Waits then Some ty else None))) \<le> card (dom (callers w))"
    unfolding upd using c(2) by (auto intro: card_mono)
  then have b: "waiting q' < u32_mod" using w' c(3) by simp
  have "tq_inv (after_section t ty st out w) ys"
    by (rule after_section_inv[OF inv res[folded st(2)]]) (use r(2,4) st w' b resume_wait_for_task_frame[OF q run] in simp_all)
  then show ?thesis by blast
qed

lemma store_inv:
  assumes inv: "tq_inv w xs" and a: "fst (state w) a = None" and room: "sge_tq_get_task_count (state w) < u32_mod - 1"
    and run: "sge_tq_store_notify a ty d (state w) = Some st"
  shows "\<exists>ys. tq_inv (w\<lparr>state := st,
      stored := stored w @ (case sge_tq_task_create ty d of Some task \<Rightarrow> [task] | None \<Rightarrow> [])\<rparr>) ys"
proof (cases "sge_tq_task_create ty d")
  case None
  then have "st = state w" using run by (simp add: sge_tq_store_notify_def)
  then show ?thesis using inv None by auto
next
  case (Some task)
  obtain h q where hq: "state w = (h, q)" by (cases "state w")
  have q: "queue_repr (h, q) xs" using inv hq by (simp add: tq_inv_def)
  have len: "length xs < u32_mod - 1"
    using q room hq by (simp add: queue_repr_def dll_def sge_tq_get_task_count_def sge_sl_get_elem_count_def)
  have fresh: "h a = None" using a hq by simp
  obtain h' q' where r: "sge_tq_store_notify a ty d (h, q) = Some (h', q')" "queue_repr (h', q') (xs @ [(a, task)])"
    "waiting q' = waiting q" "cond q' = (if waiting q > 0 then {} else cond q)"
    "\<forall>c. c \<notin> insert a (fst ` set xs) \<longrightarrow> h' c = h c"
    using store_notify_correct[OF q fresh len Some] .
  let ?w = "w\<lparr>state := (h', q'), stored := stored w @ [task]\<rparr>"
  have wi: "waiting q = card (dom (callers w))" "finite (dom (callers w))" "cond q \<subseteq> dom (callers w)"
    using inv hq by (simp_all add: tq_inv_def waiters_inv_def)
  have nobody: "cond q' = {}" using r(4) wi by (auto split: if_splits)
  have "queue_repr (state ?w) (xs @ [(a, task)])" using r(2) by simp
  moreover have "waiters_inv ?w" using inv r(3) nobody hq by (simp add: tq_inv_def waiters_inv_def)
  moreover have "awake_inv ?w (xs @ [(a, task)])" using nobody by (simp add: awake_inv_def)
  moreover have "order_inv ?w (xs @ [(a, task)])"
    using inv unfolding tq_inv_def order_inv_def by simp
  moreover have "source_inv w xs" using inv by (simp add: tq_inv_def)
  then have "source_inv ?w (xs @ [(a, task)])"
    by (rule source_inv_frame[where A = "insert a (fst ` set xs)"]) (use r(5) hq fresh in auto)
  ultimately have "tq_inv ?w (xs @ [(a, task)])" by (simp add: tq_inv_def)
  moreover have "st = (h', q')" using r(1) run hq by simp
  ultimately show ?thesis using Some by auto
qed

lemma store_source_inv:
  assumes inv: "tq_inv w xs" and a: "fst (state w) a = None"
    and room: "sge_tq_get_task_count (fst (state w), source w) < u32_mod - 1"
    and run: "sge_tq_store_notify a ty d (fst (state w), source w) = Some (h, src)"
  shows "\<exists>ys. tq_inv (w\<lparr>state := (h, snd (state w)), source := src\<rparr>) ys"
proof (cases "sge_tq_task_create ty d")
  case None
  then have "w\<lparr>state := (h, snd (state w)), source := src\<rparr> = w"
    using run by (cases w) (auto simp: sge_tq_store_notify_def)
  then show ?thesis using inv by metis
next
  case (Some task)
  let ?w = "w\<lparr>state := (h, snd (state w)), source := src\<rparr>"
  obtain ss where ss: "dll (fst (state w), list (source w)) ss" "fst ` set xs \<inter> fst ` set ss = {}"
    using inv by (auto simp: tq_inv_def source_inv_def)
  have q: "queue_repr (fst (state w), source w) ss" using ss(1) by (simp add: queue_repr_def)
  have len: "length ss < u32_mod - 1"
    using ss(1) room by (simp add: dll_def sge_tq_get_task_count_def sge_sl_get_elem_count_def)
  obtain h' q' where r: "sge_tq_store_notify a ty d (fst (state w), source w) = Some (h', q')"
    "queue_repr (h', q') (ss @ [(a, task)])" "\<forall>c. c \<notin> insert a (fst ` set ss) \<longrightarrow> h' c = fst (state w) c"
    by (rule store_notify_correct[OF q a len Some])
  have hq: "h' = h" "q' = src" using r(1) run by simp_all
  have d: "dll (fst (state w), list (snd (state w))) xs" using inv by (simp add: tq_inv_def queue_repr_def)
  then have "seg (fst (state w)) None xs None" by (simp add: dll_def)
  then have "a \<notin> fst ` set xs" using seg_in_heap a by metis
  then have disj: "insert a (fst ` set ss) \<inter> fst ` set xs = {}" using ss(2) by auto
  have "dll (h, list (snd (state w))) xs" by (rule dll_frame[OF d _ disj]) (use r(3) hq in simp)
  then have "queue_repr (state ?w) xs" by (simp add: queue_repr_def)
  moreover have "fst ` set xs \<inter> fst ` set (ss @ [(a, task)]) = {}" using disj by (simp add: Int_commute)
  then have "source_inv ?w xs"
    unfolding source_inv_def using r(2) hq
    by (intro exI[of _ "ss @ [(a, task)]"] conjI) (simp_all only: queue_repr_def, simp)
  moreover have "waiters_inv ?w" "awake_inv ?w xs" "order_inv ?w xs"
    using inv by (simp_all add: tq_inv_def waiters_inv_def awake_inv_def order_inv_def)
  ultimately have "tq_inv ?w xs" by (simp add: tq_inv_def)
  then show ?thesis by blast
qed

lemma move_inv:
  assumes inv: "tq_inv w xs" and ys: "collect_loop (fst (state w)) (first (list (source w))) = Some ys"
    and room: "sge_tq_get_task_count (state w) + length ys < u32_mod" "length ys < 2 ^ 31"
    and run: "sge_tq_move_from_to_if cmp (fst (state w)) (source w) (snd (state w)) = Some (h, src, dst, count)"
  shows "\<exists>zs. tq_inv (w\<lparr>state := (h, dst), source := src, movers := (if count > 0 then insert m (movers w) else movers w),
      stored := stored w @ filter (\<lambda>task. cmp task = 0) (map snd ys)\<rparr>) zs"
proof -
  let ?P = "\<lambda>x. cmp (snd x) = 0"
  let ?w = "w\<lparr>state := (h, dst), source := src, movers := (if count > 0 then insert m (movers w) else movers w),
      stored := stored w @ filter (\<lambda>task. cmp task = 0) (map snd ys)\<rparr>"
  have d: "dll (fst (state w), list (snd (state w))) xs" using inv by (simp add: tq_inv_def queue_repr_def)
  obtain ss where ss: "dll (fst (state w), list (source w)) ss" "fst ` set xs \<inter> fst ` set ss = {}"
    using inv by (auto simp: tq_inv_def source_inv_def)
  have "ss = ys" using ss(1) ys collect_loop_correct[of "fst (state w)" None ss] by (simp add: dll_def)
  note ss = ss[unfolded this]
  have fl: "length (filter ?P ys) \<le> length ys" by simp
  have lens: "length xs + length (filter ?P ys) < u32_mod" "length (filter ?P ys) < 2 ^ 31"
    using d room le_less_trans[OF fl] le_less_trans[OF add_left_mono[OF fl]]
    by (simp_all add: dll_def sge_tq_get_task_count_def sge_sl_get_elem_count_def)
  obtain h' src' dst' where r: "sge_tq_move_from_to_if cmp (fst (state w)) (source w) (snd (state w)) =
      Some (h', src', dst', int (length (filter ?P ys)))"
    "dll (h', list src') (filter (\<lambda>x. cmp (snd x) \<noteq> 0) ys)" "dll (h', list dst') (xs @ filter ?P ys)"
    using move_moves_matching_tasks[OF ss(1) d _ lens] ss(2) by blast
  have eq: "h' = h" "src' = src" "dst' = dst" "count = int (length (filter ?P ys))" using r(1) run by simp_all
  have same: "cond dst = cond (snd (state w))" "waiting dst = waiting (snd (state w))"
    using run by (auto simp: sge_tq_move_from_to_if_def bind_eq_Some_conv)
  have "queue_repr (state ?w) (xs @ filter ?P ys)" using r(3) eq by (simp add: queue_repr_def)
  moreover have "source_inv ?w (xs @ filter ?P ys)"
    unfolding source_inv_def
  proof (intro exI conjI)
    show "dll (fst (state ?w), list (source ?w)) (filter (\<lambda>x. cmp (snd x) \<noteq> 0) ys)" using r(2) eq by simp
    have "inj_on fst (set ys)" using ss(1) by (simp add: dll_def distinct_map)
    then have "fst ` set (filter ?P ys) \<inter> fst ` set (filter (\<lambda>x. cmp (snd x) \<noteq> 0) ys) = {}"
      by (subst inj_on_image_Int[symmetric]) auto
    moreover have "fst ` set xs \<inter> fst ` set (filter (\<lambda>x. cmp (snd x) \<noteq> 0) ys) = {}" using ss(2) by auto
    ultimately show "fst ` set (xs @ filter ?P ys) \<inter> fst ` set (filter (\<lambda>x. cmp (snd x) \<noteq> 0) ys) = {}"
      by (simp only: set_append image_Un Int_Un_distrib2 Un_empty_left)
  qed
  moreover have "awake_inv ?w (xs @ filter ?P ys)"
  proof (cases "filter ?P ys = []")
    case True
    then have "count = 0" using eq(4) by simp
    then show ?thesis using inv same True by (simp add: tq_inv_def awake_inv_def)
  next
    case False
    then have "count > 0" using eq(4) by simp
    then show ?thesis by (simp add: awake_inv_def)
  qed
  moreover have "waiters_inv ?w" using inv same by (simp add: tq_inv_def waiters_inv_def)
  moreover have "order_inv ?w (xs @ filter ?P ys)"
    using inv by (simp add: tq_inv_def order_inv_def filter_map comp_def)
  ultimately show ?thesis unfolding tq_inv_def by blast
qed

lemma tq_step_inv: "tq_step w w' \<Longrightarrow> tq_inv w xs \<Longrightarrow> \<exists>ys. tq_inv w' ys"
proof (induction rule: tq_step.induct)
  case (store w a ty d st)
  show ?case by (rule store_inv[OF store(4,1-3)])
next
  case (enter w t ty shutdown st out)
  show ?case by (rule enter_inv[OF enter(4,1-3)])
next
  case (resume w t ty shutdown st out)
  show ?case by (rule resume_inv[OF resume(3,1,2)])
next
  case (wakeup w)
  then have "tq_inv (w\<lparr>state := (fst (state w), sge_tq_wakeup_waiting (snd (state w)))\<rparr>) xs"
    by (simp add: tq_inv_def queue_repr_def waiters_inv_def awake_inv_def order_inv_def source_inv_def
        sge_tq_wakeup_waiting_def)
  then show ?case by blast
next
  case (store_source w a ty d h src)
  show ?case by (rule store_source_inv[OF store_source(4,1-3)])
next
  case (move m w ys cmp h src dst count)
  show ?case by (rule move_inv[OF move(6,2-5)])
next
  case (move_wakeup m w)
  then have "tq_inv (w\<lparr>state := (fst (state w), sge_tq_wakeup_waiting (snd (state w))), movers := movers w - {m}\<rparr>) xs"
    by (simp add: tq_inv_def queue_repr_def waiters_inv_def awake_inv_def order_inv_def source_inv_def
        sge_tq_wakeup_waiting_def)
  then show ?case by blast
qed

lemma tq_start_inv: "tq_inv tq_start []"
  by (simp add: tq_inv_def tq_start_def queue_repr_def dll_def sge_tq_create_def sge_sl_create_def
      waiters_inv_def awake_inv_def order_inv_def of_type_def source_inv_def)

lemma tq_reachable_inv: "tq_step\<^sup>*\<^sup>* tq_start w \<Longrightarrow> \<exists>xs. tq_inv w xs"
proof (induction rule: rtranclp_induct)
  case base
  show ?case using tq_start_inv by blast
next
  case (step w w')
  then show ?case using tq_step_inv by blast
qed

end
