(* ===== verification/TaskQueue_Props.thy ===== *)
theory TaskQueue_Props
  imports TaskQueue_Correct
begin

text \<open>
  The properties of the task queue: tasks leave in order and once, and no thread sleeps while there
  is work for it.
\<close>

section \<open>Runs for the witnesses\<close>

text \<open>A thread stores a task; thread 7 asks for one; thread 7 asks when there is none.\<close>

abbreviation packet :: "string sge_tq_task" where
  "packet \<equiv> \<lparr>type = SGE_TQ_GDI_PACKET, payload = ''req''\<rparr>"

definition stored_one :: "string tq_world" where
  "stored_one = tq_start\<lparr>state := the (sge_tq_store_notify 0 SGE_TQ_GDI_PACKET (Some ''req'') (state tq_start)),
     stored := [packet]\<rparr>"

definition took_one :: "string tq_world" where
  "took_one = (case the (sge_tq_wait_for_task 7 SGE_TQ_GDI_PACKET False (state stored_one)) of
     (st, out) \<Rightarrow> after_section 7 SGE_TQ_GDI_PACKET st out stored_one)"

definition sleeping :: "string tq_world" where
  "sleeping = (case the (sge_tq_wait_for_task 7 SGE_TQ_GDI_PACKET False (state tq_start)) of
     (st, out) \<Rightarrow> after_section 7 SGE_TQ_GDI_PACKET st out tq_start)"

lemmas run_simps = tq_start_def sge_tq_create_def sge_sl_create_def sge_tq_store_notify_def sge_tq_task_create_def
  sge_sl_insert_def sge_sl_elem_insert_def sge_sl_elem_create_def set_next_def set_prev_def
  sge_tq_wait_for_task_def find_task_def sge_sl_elem_search_def sge_sl_elem_next_def search_loop.simps
  link_of_def sge_tq_task_compare_type_def take_task_def sge_sl_dechain_def sge_sl_elem_data_def
  sge_sl_elem_destroy_def after_section_def add32_def sub32_def sge_tq_get_task_count_def
  sge_sl_get_elem_count_def sge_tq_get_waiting_count_def

lemma stored_one_state:
  "sge_tq_store_notify 0 SGE_TQ_GDI_PACKET (Some ''req'') (state tq_start) = Some (state stored_one)"
  by (simp add: stored_one_def run_simps)

lemma took_one_section:
  "\<exists>st. sge_tq_wait_for_task 7 SGE_TQ_GDI_PACKET False (state stored_one) = Some (st, Returns (Some packet)) \<and>
     took_one = after_section 7 SGE_TQ_GDI_PACKET st (Returns (Some packet)) stored_one"
  by (simp add: took_one_def stored_one_def run_simps)

lemma sleeping_section:
  "\<exists>st. sge_tq_wait_for_task 7 SGE_TQ_GDI_PACKET False (state tq_start) = Some (st, Waits) \<and>
     sleeping = after_section 7 SGE_TQ_GDI_PACKET st Waits tq_start"
  by (simp add: sleeping_def run_simps)

lemma stored_one_step: "tq_step tq_start stored_one"
proof -
  have "tq_step tq_start (tq_start\<lparr>state := state stored_one, stored := stored tq_start @
      (case sge_tq_task_create SGE_TQ_GDI_PACKET (Some ''req'') of Some task \<Rightarrow> [task] | None \<Rightarrow> [])\<rparr>)"
    by (rule tq_step.store[OF _ _ stored_one_state]) (simp_all add: run_simps)
  then show ?thesis by (simp add: stored_one_def tq_start_def sge_tq_task_create_def)
qed

lemma took_one_reachable: "tq_step\<^sup>*\<^sup>* tq_start took_one"
proof -
  have "tq_step stored_one took_one"
    using took_one_section tq_step.enter[of stored_one 7 SGE_TQ_GDI_PACKET False]
    by (auto simp: stored_one_def run_simps)
  then show ?thesis using stored_one_step by (meson converse_rtranclp_into_rtranclp r_into_rtranclp)
qed

lemma sleeping_reachable: "tq_step\<^sup>*\<^sup>* tq_start sleeping"
proof -
  obtain st where st: "sge_tq_wait_for_task 7 SGE_TQ_GDI_PACKET False (state tq_start) = Some (st, Waits)"
      "sleeping = after_section 7 SGE_TQ_GDI_PACKET st Waits tq_start"
    using sleeping_section by blast
  have "tq_step tq_start sleeping"
    unfolding st(2) by (rule tq_step.enter[OF _ _ st(1)]) (simp_all add: run_simps)
  then show ?thesis by blast
qed

section \<open>Properties\<close>

text \<open>C6. In every reachable state of the interleaved threads the queue is a well formed list whose
  tasks can be read off its links, its counters count its tasks and the threads inside the
  waiting loop, and for every type the tasks stored so far are the tasks handed out so far, in
  the same order, followed by the tasks still queued: nothing is lost, doubled or overtaken
  within a type.\<close>

theorem tasks_leave_in_order:
  assumes "tq_step\<^sup>*\<^sup>* tq_start w"
  shows "\<exists>xs. collect_loop (fst (state w)) (first (list (snd (state w)))) = Some xs \<and>
    sge_tq_get_task_count (state w) = length xs \<and>
    sge_tq_get_waiting_count (state w) = card (dom (callers w)) \<and>
    (\<forall>ty. of_type ty (stored w) = of_type ty (delivered w) @ of_type ty (map snd xs))"
proof -
  obtain xs where inv: "tq_inv w xs" using tq_reachable_inv[OF assms] by blast
  then have d: "dll (fst (state w), list (snd (state w))) xs" by (simp add: tq_inv_def queue_repr_def)
  then have "collect_loop (fst (state w)) (first (list (snd (state w)))) = Some xs"
    using collect_loop_correct[of "fst (state w)" None xs] by (simp add: dll_def)
  moreover have "sge_tq_get_task_count (state w) = length xs"
    using d by (simp add: dll_def sge_tq_get_task_count_def sge_sl_get_elem_count_def)
  ultimately show ?thesis
    using inv by (auto simp: tq_inv_def order_inv_def waiters_inv_def sge_tq_get_waiting_count_def)
qed

theorem tasks_leave_in_order_witness:
  "stored took_one = [packet] \<and> delivered took_one = [packet] \<and>
   (\<exists>xs. collect_loop (fst (state took_one)) (first (list (snd (state took_one)))) = Some xs \<and>
      sge_tq_get_task_count (state took_one) = length xs \<and>
      of_type SGE_TQ_GDI_PACKET (stored took_one) =
        of_type SGE_TQ_GDI_PACKET (delivered took_one) @ of_type SGE_TQ_GDI_PACKET (map snd xs))"
proof -
  have "stored took_one = [packet]" "delivered took_one = [packet]"
    by (simp_all add: took_one_def stored_one_def run_simps)
  then show ?thesis using tasks_leave_in_order[OF took_one_reachable] by auto
qed

text \<open>C7. No lost wakeup: in every reachable state of the interleaved threads, those that move tasks in
  from another queue included, a thread that is blocked on the condition and has not been woken is
  in the waiting loop for some type, and either a search of the queue for that type finds nothing or
  some thread has moved tasks into the queue and has not yet made its call of
  \<open>sge_tq_wakeup_waiting\<close>, after which no thread is left unwoken.\<close>

theorem no_lost_wakeup:
  assumes "tq_step\<^sup>*\<^sup>* tq_start w" "t \<in> cond (snd (state w))"
  shows "\<exists>ty. callers w t = Some ty \<and>
    (find_task ty (state w) = Some None \<or>
     movers w \<noteq> {} \<and> (\<forall>m\<in>movers w. \<exists>w'. tq_step w w' \<and> movers w' = movers w - {m} \<and> cond (snd (state w')) = {}))"
proof -
  obtain xs where inv: "tq_inv w xs" using tq_reachable_inv[OF assms(1)] by blast
  obtain ty where ty: "callers w t = Some ty" using inv assms(2) by (auto simp: tq_inv_def waiters_inv_def)
  have repr: "queue_repr (state w) xs" using inv by (simp add: tq_inv_def)
  have "find_task ty (state w) = Some None" if "movers w = {}"
  proof -
    have "\<forall>x\<in>set xs. \<not> wants ty (snd x)" using inv assms(2) ty that by (auto simp: tq_inv_def awake_inv_def)
    then have "find (\<lambda>x. wants ty (snd x)) xs = None" by (auto simp: find_None_iff)
    with repr show ?thesis by (simp add: find_task_correct)
  qed
  moreover have "\<exists>w'. tq_step w w' \<and> movers w' = movers w - {m} \<and> cond (snd (state w')) = {}"
    if "m \<in> movers w" for m
    using tq_step.move_wakeup[OF that]
    by (intro exI[of _ "w\<lparr>state := (fst (state w), sge_tq_wakeup_waiting (snd (state w))), movers := movers w - {m}\<rparr>"])
      (simp add: sge_tq_wakeup_waiting_def)
  ultimately show ?thesis using ty by blast
qed

theorem no_lost_wakeup_witness:
  "7 \<in> cond (snd (state sleeping)) \<and>
   (\<exists>ty. callers sleeping 7 = Some ty \<and> find_task ty (state sleeping) = Some None)"
proof -
  have "7 \<in> cond (snd (state sleeping))" "movers sleeping = {}" by (simp_all add: sleeping_def run_simps)
  then show ?thesis using no_lost_wakeup[OF sleeping_reachable, of 7] by simp
qed

end
