(* ===== verification/SimpleList_Props.thy ===== *)
theory SimpleList_Props
  imports SimpleList_Correct "HOL-Library.Multiset"
begin

text \<open>
  The properties of the linked lists: the pointer operations are the operations on sequences
  that they stand for, and a list that is kept in order stays in order.
\<close>

section \<open>Two nodes\<close>

definition two_nodes :: "int sl_state" where
  "two_nodes =
     ([0 \<mapsto> \<lparr>prev = None, nxt = Some 1, data = 3\<rparr>, 1 \<mapsto> \<lparr>prev = Some 0, nxt = None, data = 7\<rparr>],
      \<lparr>first = Some 0, last_elem = Some 1, elements = 2\<rparr>)"

lemma two_nodes_dll: "dll two_nodes [(0, 3), (1, 7)]"
  by (simp add: dll_def two_nodes_def)

section \<open>Operations\<close>

text \<open>C40. A list that represents a sequence of nodes: inserting in front or at the end, deleting the
  first or last element, deleting the first match of a key, reading the data of a match from
  either end, destroying the list and counting give what the sequence operation gives; all links
  of the result are those of its sequence and the loops end.\<close>

theorem list_operations_on_sequences:
  assumes "dll (h, l) xs" "b \<notin> fst ` set xs" "length xs < u32_mod - 1"
  shows "(\<exists>st. sge_sl_insert b d SGE_SL_FORWARD (h, l) = Some st \<and> dll st ((b, d) # xs)) \<and>
    (\<exists>st. sge_sl_insert b d SGE_SL_BACKWARD (h, l) = Some st \<and> dll st (xs @ [(b, d)])) \<and>
    (\<exists>st. sge_sl_delete SGE_SL_FORWARD (h, l) = Some st \<and> dll st (tl xs)) \<and>
    (\<exists>st. sge_sl_delete SGE_SL_BACKWARD (h, l) = Some st \<and> dll st (butlast xs)) \<and>
    (\<exists>st. sge_sl_delete_search cmp SGE_SL_FORWARD (h, l) = Some st \<and>
       dll st (remove_first (\<lambda>x. cmp (snd x) = 0) xs)) \<and>
    sge_sl_data_search cmp dir (h, l) =
      Some (map_option snd (find (\<lambda>x. cmp (snd x) = 0) (if dir = SGE_SL_FORWARD then xs else rev xs))) \<and>
    sge_sl_destroy (h, l) = Some (\<lambda>a. if a \<in> fst ` set xs then None else h a) \<and>
    sge_sl_get_elem_count (h, l) = length xs"
proof (intro conjI)
  show "\<exists>st. sge_sl_insert b d SGE_SL_FORWARD (h, l) = Some st \<and> dll st ((b, d) # xs)"
    by (rule sge_sl_insert_correct[OF assms, of d SGE_SL_FORWARD]) auto
  show "\<exists>st. sge_sl_insert b d SGE_SL_BACKWARD (h, l) = Some st \<and> dll st (xs @ [(b, d)])"
    by (rule sge_sl_insert_correct[OF assms, of d SGE_SL_BACKWARD]) auto
  show "\<exists>st. sge_sl_delete SGE_SL_FORWARD (h, l) = Some st \<and> dll st (tl xs)"
    using sge_sl_delete_correct[OF assms(1), of SGE_SL_FORWARD] by simp
  show "\<exists>st. sge_sl_delete SGE_SL_BACKWARD (h, l) = Some st \<and> dll st (butlast xs)"
    using sge_sl_delete_correct[OF assms(1), of SGE_SL_BACKWARD] by simp
  show "\<exists>st. sge_sl_delete_search cmp SGE_SL_FORWARD (h, l) = Some st \<and>
      dll st (remove_first (\<lambda>x. cmp (snd x) = 0) xs)"
    by (rule sge_sl_delete_search_correct[OF assms(1)])
  show "sge_sl_data_search cmp dir (h, l) =
      Some (map_option snd (find (\<lambda>x. cmp (snd x) = 0) (if dir = SGE_SL_FORWARD then xs else rev xs)))"
    by (rule sge_sl_data_search_correct[OF assms(1)])
  show "sge_sl_destroy (h, l) = Some (\<lambda>a. if a \<in> fst ` set xs then None else h a)"
    by (rule sge_sl_destroy_correct[OF assms(1)])
  show "sge_sl_get_elem_count (h, l) = length xs"
    using assms(1) by (simp add: sge_sl_get_elem_count_def dll_def)
qed

theorem list_operations_on_sequences_witness:
  "(\<exists>st. sge_sl_insert 2 5 SGE_SL_BACKWARD two_nodes = Some st \<and> dll st [(0, 3), (1, 7), (2, 5)]) \<and>
   sge_sl_get_elem_count two_nodes = 2"
  using list_operations_on_sequences[of "fst two_nodes" "snd two_nodes" "[(0, 3), (1, 7)]" 2 5 "\<lambda>x. x - 7" SGE_SL_FORWARD]
    two_nodes_dll by simp

text \<open>Inserting in order: when the comparison is a total preorder and the data of the list are in
  its order, \<open>sge_sl_insert_search\<close> adds the one new node, at a place that keeps the order.\<close>

lemma insert_search_keeps_order:
  assumes "dll (h, l) xs" "b \<notin> fst ` set xs" "length xs < u32_mod - 1"
    and "\<forall>x y. compare x y > 0 \<longrightarrow> compare y x \<le> 0"
    and "\<forall>x y z. compare x y \<le> 0 \<longrightarrow> compare y z \<le> 0 \<longrightarrow> compare x z \<le> 0"
    and "sorted_wrt (\<lambda>x y. compare x y \<le> 0) (map snd xs)"
  shows "\<exists>st ys. sge_sl_insert_search b d compare (h, l) = Some st \<and> dll st ys \<and>
    mset ys = add_mset (b, d) (mset xs) \<and> sorted_wrt (\<lambda>x y. compare x y \<le> 0) (map snd ys)"
proof -
  let ?ys = "takeWhile (\<lambda>x. compare d (snd x) > 0) xs" and ?zs = "dropWhile (\<lambda>x. compare d (snd x) > 0) xs"
  obtain st where st: "sge_sl_insert_search b d compare (h, l) = Some st" "dll st (?ys @ (b, d) # ?zs)"
    using sge_sl_insert_search_correct[OF assms(1-3)] by blast
  have "mset ?ys + mset ?zs = mset xs" unfolding mset_append[symmetric] takeWhile_dropWhile_id ..
  then have "mset (?ys @ (b, d) # ?zs) = add_mset (b, d) (mset xs)" by simp
  moreover have "sorted_wrt (\<lambda>x y. compare x y \<le> 0) (map snd (?ys @ (b, d) # ?zs))"
    by (rule sorted_insert[OF assms(4-6)])
  ultimately show ?thesis using st by blast
qed

text \<open>\<open>sge_sl_sort\<close>, with a \<open>qsort\<close> that permutes its argument into the order of the comparison:
  the nodes of the list stay where they are, and their data are the old data in order.\<close>

lemma sort_orders_list:
  assumes "dll (h, l) xs"
    and "\<forall>ds. mset (qsort ds) = mset ds \<and> sorted_wrt (\<lambda>x y. compare x y \<le> (0 :: int)) (qsort ds)"
  shows "\<exists>st ys. sge_sl_sort qsort (h, l) = Some st \<and> dll st ys \<and> map fst ys = map fst xs \<and>
    mset (map snd ys) = mset (map snd xs) \<and> sorted_wrt (\<lambda>x y. compare x y \<le> 0) (map snd ys)"
proof -
  let ?ds = "qsort (map snd xs)"
  have m: "mset ?ds = mset (map snd xs)" using assms(2) by blast
  then have len: "length ?ds = length xs" using mset_eq_length[OF m] by simp
  obtain st where st: "sge_sl_sort qsort (h, l) = Some st" "dll st (zip (map fst xs) ?ds)"
    using sge_sl_sort_correct[of h l xs qsort, OF assms(1) len] by blast
  have "map fst (zip (map fst xs) ?ds) = map fst xs" "map snd (zip (map fst xs) ?ds) = ?ds"
    using len by simp_all
  then show ?thesis using st m assms(2) by metis
qed

end
