(* ===== verification/EvalExpression.thy ===== *)
theory EvalExpression
  imports Prelude
begin

text \<open>
  The evaluation of resource requests, \<^verbatim>\<open>source/libs/sgeobj/sge_eval_expression.cc\<close>: a
  recursive descent over expressions such as \<^verbatim>\<open>arch=lx*|(sol*&!sol-x86)\<close> with a skip mode
  for the operands that no longer matter. A C string is the list of its characters, the end
  of the list being the terminating zero. The index pointer \<^verbatim>\<open>s\<close> is the rest of the
  expression. The pattern matcher of the C library and the two host name functions of
  \<^verbatim>\<open>sge_hostname.cc\<close> are parameters. The mutually recursive functions take fuel;
  \<open>EvalExpression_Correct\<close> shows that the fuel given is enough for every expression.
\<close>

section \<open>Data\<close>

datatype Type = INT | STR_T | TIME | MEM | BOOL | CSTR | HOST | DOUBLE | RESTR | RSMAP

datatype token_type = T_NOT | T_OR | T_AND | T_BRACEOPEN | T_BRACECLOSE | T_END | T_EXP | T_ERROR

record matchers =
  fnmatch :: "string \<Rightarrow> string \<Rightarrow> int"
  sge_hostmatch :: "string \<Rightarrow> string \<Rightarrow> int"
  sge_hostcmp :: "string \<Rightarrow> string \<Rightarrow> int"

record s_token =
  ty :: Type
  val :: string
  s :: string
  pattern :: string
  has_patterns :: bool
  tt :: token_type
  et :: token_type
  answers :: answer_list

definition MAX_STRING_SIZE :: nat where
  "MAX_STRING_SIZE = 2048"

section \<open>Characters and tokens\<close>

definition indexOfTerminal :: "string \<Rightarrow> token_type option" where
  \<comment> \<open>the token of the first character, \<open>None\<close> for the \<open>-1\<close> of the code; the end of the
     string counts as \<^verbatim>\<open>T_END\<close>\<close>
  "indexOfTerminal cs =
     (case cs of
        [] \<Rightarrow> Some T_END
      | c # _ \<Rightarrow>
          if c = CHR ''!'' then Some T_NOT
          else if c = CHR ''|'' then Some T_OR
          else if c = CHR ''&'' then Some T_AND
          else if c = CHR ''('' then Some T_BRACEOPEN
          else if c = CHR '')'' then Some T_BRACECLOSE
          else if c = CHR '' '' then Some T_END
          else None)"

definition is_pattern :: "char \<Rightarrow> bool" where
  "is_pattern c \<longleftrightarrow> c \<in> {CHR ''*'', CHR ''?'', CHR ''['', CHR '']''}"

definition is_expression :: "string \<Rightarrow> bool" where
  "is_expression cs \<longleftrightarrow>
     (\<exists>c\<in>set cs. c \<in> {CHR ''*'', CHR ''?'', CHR ''['', CHR '']'', CHR ''&'', CHR ''|'', CHR ''!'', CHR ''('', CHR '')''})"

fun pattern_chars :: "string \<Rightarrow> string" where
  \<comment> \<open>the characters up to the next terminal\<close>
  "pattern_chars [] = []"
| "pattern_chars (c # cs) = (if indexOfTerminal (c # cs) = None then c # pattern_chars cs else [])"

definition ParseTerminal :: "s_token \<Rightarrow> s_token option" where
  "ParseTerminal t =
     (case indexOfTerminal (s t) of
        Some k \<Rightarrow> Some (t\<lparr>tt := k, s := tl (s t)\<rparr>)
      | None \<Rightarrow> None)"

definition uncase :: "Type \<Rightarrow> string \<Rightarrow> string" where
  "uncase k cs = (if k = CSTR \<or> k = HOST then map tolower cs else cs)"

definition ParseNonTerminal :: "bool \<Rightarrow> s_token \<Rightarrow> s_token" where
  "ParseNonTerminal skip t =
     (let cs = pattern_chars (s t);
          t1 = t\<lparr>tt := T_EXP, s := drop (length cs) (s t)\<rparr>
      in if \<not> skip then
           t1\<lparr>has_patterns := (\<exists>c\<in>set cs. is_pattern c), pattern := uncase (ty t) cs\<rparr>
         else t1)"

definition NextToken :: "bool \<Rightarrow> s_token \<Rightarrow> s_token" where
  "NextToken skip t0 =
     (let t = t0\<lparr>et := tt t0, s := dropWhile (\<lambda>c. c = CHR '' '') (s t0)\<rparr> in
      if tt t = T_ERROR then t
      else if s t = [] then t\<lparr>tt := T_END\<rparr>
      else case ParseTerminal t of Some t' \<Rightarrow> t' | None \<Rightarrow> ParseNonTerminal skip t)"

definition Error :: "token_type \<Rightarrow> s_token \<Rightarrow> int \<times> s_token" where
  "Error expected t =
     (if tt t \<noteq> T_ERROR then
        (-1, t\<lparr>answers := answer_list_add (answers t) ''MSG_EVAL_EXPRESSION_PARSE_ERROR'',
               et := expected, tt := T_ERROR\<rparr>)
      else (-1, t))"

definition MatchPattern :: "matchers \<Rightarrow> bool \<Rightarrow> s_token \<Rightarrow> int" where
  "MatchPattern lib skip t =
     (if skip then -1
      else
        let match =
          (if has_patterns t then
             (case ty t of
                STR_T \<Rightarrow> fnmatch lib (pattern t) (val t)
              | CSTR \<Rightarrow> fnmatch lib (pattern t) (val t)
              | RESTR \<Rightarrow> fnmatch lib (pattern t) (val t)
              | HOST \<Rightarrow> sge_hostmatch lib (pattern t) (val t)
              | _ \<Rightarrow> -1)
           else
             (case ty t of
                STR_T \<Rightarrow> if pattern t = val t then 0 else 1
              | RESTR \<Rightarrow> if pattern t = val t then 0 else 1
              | CSTR \<Rightarrow> if map tolower (pattern t) = map tolower (val t) then 0 else 1
              | HOST \<Rightarrow> sge_hostcmp lib (pattern t) (val t)
              | _ \<Rightarrow> -1))
        in if match = 0 then 0 else 1)"

definition uncaseValue :: "s_token \<Rightarrow> s_token" where
  "uncaseValue t = t\<lparr>val := uncase (ty t) (val t)\<rparr>"

section \<open>The recursive descent\<close>

function OrExpression :: "nat \<Rightarrow> matchers \<Rightarrow> bool \<Rightarrow> s_token \<Rightarrow> (int \<times> s_token) option"
  and or_loop :: "nat \<Rightarrow> matchers \<Rightarrow> bool \<Rightarrow> int \<Rightarrow> s_token \<Rightarrow> (int \<times> s_token) option"
  and AndExpression :: "nat \<Rightarrow> matchers \<Rightarrow> bool \<Rightarrow> s_token \<Rightarrow> (int \<times> s_token) option"
  and and_loop :: "nat \<Rightarrow> matchers \<Rightarrow> bool \<Rightarrow> int \<Rightarrow> s_token \<Rightarrow> (int \<times> s_token) option"
  and SimpleExpression :: "nat \<Rightarrow> matchers \<Rightarrow> bool \<Rightarrow> s_token \<Rightarrow> (int \<times> s_token) option" where
  "OrExpression 0 lib skip t = None"
| "OrExpression (Suc n) lib skip t =
     do { (match, t1) \<leftarrow> AndExpression n lib skip (NextToken skip t); or_loop n lib skip match t1 }"
| "or_loop 0 lib skip match t = None"
| "or_loop (Suc n) lib skip match t =
     (if tt t = T_OR then
        let t1 = NextToken skip t in
        if match = 0 then
          do { (_, t2) \<leftarrow> AndExpression n lib True t1; or_loop n lib skip match t2 }
        else
          do { (match', t2) \<leftarrow> AndExpression n lib skip t1; or_loop n lib skip match' t2 }
      else Some (match, t))"
| "AndExpression 0 lib skip t = None"
| "AndExpression (Suc n) lib skip t =
     do { (match, t1) \<leftarrow> SimpleExpression n lib skip t; and_loop n lib skip match t1 }"
| "and_loop 0 lib skip match t = None"
| "and_loop (Suc n) lib skip match t =
     (if tt t = T_AND then
        let t1 = NextToken skip t in
        if match \<noteq> 0 then
          do { (_, t2) \<leftarrow> SimpleExpression n lib True t1; and_loop n lib skip match t2 }
        else
          do { (match', t2) \<leftarrow> SimpleExpression n lib skip t1; and_loop n lib skip match' t2 }
      else Some (match, t))"
| "SimpleExpression 0 lib skip t = None"
| "SimpleExpression (Suc n) lib skip t =
     (if tt t = T_ERROR then Some (-1, t)
      else if tt t = T_BRACEOPEN then
        do { (match, t1) \<leftarrow> OrExpression n lib skip t;
             if tt t1 \<noteq> T_BRACECLOSE then Some (Error T_BRACECLOSE t1)
             else Some (match, NextToken skip t1) }
      else if tt t = T_EXP then
        Some (MatchPattern lib skip t, NextToken skip t)
      else if tt t = T_NOT then
        do { (match, t1) \<leftarrow> SimpleExpression n lib skip (NextToken skip t);
             Some (if match = 0 then 1 else 0, t1) }
      else Some (Error (et t) t))"
  by pat_completeness auto
termination
  apply (relation "measure (case_sum (case_sum fst fst) (case_sum fst (case_sum fst fst)))")
  apply simp_all
  done

definition eval_fuel :: "string \<Rightarrow> nat" where
  "eval_fuel expr = 3 * length expr + 3"

definition sge_eval_expression ::
    "matchers \<Rightarrow> Type \<Rightarrow> string option \<Rightarrow> string option \<Rightarrow> answer_list \<Rightarrow> bool \<Rightarrow> bool \<Rightarrow>
       (int \<times> answer_list) option" where
  "sge_eval_expression lib k expr value al use_is_expression is_expr =
     (case (expr, value) of
        (None, Some _) \<Rightarrow> Some (-1, al)
      | (Some _, None) \<Rightarrow> Some (1, al)
      | (None, None) \<Rightarrow> Some (0, al)
      | (Some e, Some v) \<Rightarrow>
          if length v \<ge> MAX_STRING_SIZE then Some (-1, answer_list_add al ''MSG_EVAL_EXPRESSION_LONG_VALUE'')
          else if length e \<ge> MAX_STRING_SIZE then
            Some (-1, answer_list_add al ''MSG_EVAL_EXPRESSION_LONG_EXPRESSION'')
          else
            let token = \<lparr>ty = k, val = v, s = e, pattern = [],
                  has_patterns = (if use_is_expression then is_expr else is_expression e),
                  tt = T_END, et = T_EXP, answers = al\<rparr>
            in if has_patterns token then
                 do { (match, t) \<leftarrow> OrExpression (eval_fuel e) lib False (uncaseValue token);
                      let (match', t') =
                        (if tt t \<noteq> T_END then Error T_END t
                         else if s t \<noteq> [] then Error (et t) t
                         else (match, t))
                      in Some (match', answers t') }
               else Some (MatchPattern lib False (token\<lparr>pattern := e\<rparr>), al))"

end
