(* ===== verification/EvalExpression_Correct.thy ===== *)
theory EvalExpression_Correct
  imports EvalExpression
begin

text \<open>
  The evaluation ends for every expression within the fuel it is given, and for every
  expression of the grammar it computes the boolean meaning of the expression: a disjunction
  of conjunctions of patterns, negations and groups, with any number of blanks before each
  token.
\<close>

section \<open>Termination\<close>

definition work :: "s_token \<Rightarrow> nat" where
  \<comment> \<open>the characters left and the token that was read last\<close>
  "work t = length (s t) + (if tt t = T_END \<or> tt t = T_ERROR then 0 else 1)"

lemma pattern_chars_length: "length (pattern_chars cs) \<le> length cs"
  by (induction cs) auto

lemma pattern_chars_pos: "indexOfTerminal cs = None \<Longrightarrow> 0 < length (pattern_chars cs)"
  by (cases cs) (auto simp: indexOfTerminal_def)

lemma ParseNonTerminal_sel [simp]:
  "s (ParseNonTerminal skip t) = drop (length (pattern_chars (s t))) (s t)"
  "tt (ParseNonTerminal skip t) = T_EXP"
  by (simp_all add: ParseNonTerminal_def Let_def)

lemma indexOfTerminal_Nil [simp]: "indexOfTerminal [] = Some T_END"
  by (simp add: indexOfTerminal_def)

lemma NextToken_cases:
  defines "cs \<equiv> \<lambda>t. dropWhile (\<lambda>c. c = CHR '' '') (s t)"
  shows "tt t = T_ERROR \<Longrightarrow> NextToken skip t = t\<lparr>et := tt t, s := cs t\<rparr>"
    "tt t \<noteq> T_ERROR \<Longrightarrow> cs t = [] \<Longrightarrow> NextToken skip t = t\<lparr>et := tt t, s := [], tt := T_END\<rparr>"
    "tt t \<noteq> T_ERROR \<Longrightarrow> cs t \<noteq> [] \<Longrightarrow> indexOfTerminal (cs t) = Some k \<Longrightarrow>
       NextToken skip t = t\<lparr>et := tt t, s := tl (cs t), tt := k\<rparr>"
    "tt t \<noteq> T_ERROR \<Longrightarrow> indexOfTerminal (cs t) = None \<Longrightarrow>
       NextToken skip t = ParseNonTerminal skip (t\<lparr>et := tt t, s := cs t\<rparr>)"
  by (simp_all add: NextToken_def ParseTerminal_def cs_def Let_def del: dropWhile_eq_Nil_conv)
    (metis indexOfTerminal_Nil option.distinct(1))

lemma NextToken_work: "work (NextToken skip t) \<le> length (s t)"
proof -
  let ?cs = "dropWhile (\<lambda>c. c = CHR '' '') (s t)"
  have len: "length ?cs \<le> length (s t)" by (rule length_dropWhile_le)
  consider "tt t = T_ERROR" | "tt t \<noteq> T_ERROR" "?cs = []"
    | k where "tt t \<noteq> T_ERROR" "?cs \<noteq> []" "indexOfTerminal ?cs = Some k"
    | "tt t \<noteq> T_ERROR" "indexOfTerminal ?cs = None" by (metis not_Some_eq)
  then show ?thesis
  proof cases
    case 1
    then show ?thesis using len by (simp add: NextToken_cases work_def)
  next
    case 2
    then show ?thesis by (simp add: NextToken_cases work_def)
  next
    case (3 k)
    then have "0 < length ?cs" by simp
    then have "length (tl ?cs) + 1 \<le> length (s t)" using len by (simp only: length_tl)
    then show ?thesis by (simp add: NextToken_cases(3)[OF 3] work_def del: length_tl)
  next
    case 4
    then show ?thesis
      using len pattern_chars_pos[OF 4(2)] pattern_chars_length[of ?cs]
      by (simp add: NextToken_cases work_def del: length_greater_0_conv)
  qed
qed

lemma NextToken_less: "tt t \<noteq> T_END \<Longrightarrow> tt t \<noteq> T_ERROR \<Longrightarrow> work (NextToken skip t) < work t"
  using NextToken_work[of skip t] by (simp add: work_def)

lemma Error_work: "work (snd (Error k t)) \<le> work t"
  by (simp add: Error_def work_def)

definition fueled :: "(int \<times> s_token) option \<Rightarrow> nat \<Rightarrow> bool" where
  \<comment> \<open>a result with at most this much work left\<close>
  "fueled r w \<longleftrightarrow> (\<exists>m t. r = Some (m, t) \<and> work t \<le> w)"

lemma fueled_Some [simp]: "fueled (Some (m, t)) w \<longleftrightarrow> work t \<le> w"
  by (simp add: fueled_def)

lemma fueled_mono: "fueled r v \<Longrightarrow> v \<le> w \<Longrightarrow> fueled r w"
  by (auto simp: fueled_def)

lemma fueled_bind:
  assumes "fueled r v" "\<And>m t. work t \<le> v \<Longrightarrow> fueled (f (m, t)) w"
  shows "fueled (r \<bind> f) w"
  using assms by (auto simp: fueled_def)

lemma enough_fuel:
  "3 * length (s t) + 3 \<le> n \<Longrightarrow> fueled (OrExpression n lib skip t) (length (s t))"
  "3 * work t + 1 \<le> n \<Longrightarrow> fueled (or_loop n lib skip m t) (work t)"
  "3 * work t + 2 \<le> n \<Longrightarrow> fueled (AndExpression n lib skip t) (work t)"
  "3 * work t + 1 \<le> n \<Longrightarrow> fueled (and_loop n lib skip m t) (work t)"
  "3 * work t + 1 \<le> n \<Longrightarrow> fueled (SimpleExpression n lib skip t) (work t)"
proof (induction n arbitrary: skip m t)
  case 0
  {
    case 1
    then show ?case by simp
  next
    case 2
    then show ?case by simp
  next
    case 3
    then show ?case by simp
  next
    case 4
    then show ?case by simp
  next
    case 5
    then show ?case by simp
  }
next
  case (Suc n)
  have loop: "fueled (do { (m, u) \<leftarrow> r; f m u }) (work t)"
    if "fueled r (work t1)" "work t1 < work t" "3 * work t \<le> n"
      and "\<And>m u. 3 * work u + 1 \<le> n \<Longrightarrow> fueled (f m u) (work u)"
    for r f t t1
  proof (rule fueled_bind[OF that(1)])
    fix m u assume "work u \<le> work t1"
    with that(2,3) that(4)[of u m] show "fueled (case (m, u) of (m, u) \<Rightarrow> f m u) (work t)"
      by (auto intro: fueled_mono)
  qed
  {
    case 1
    have "3 * work (NextToken skip t) + 2 \<le> n" using 1 NextToken_work[of skip t] by simp
    from Suc.IH(3)[OF this] show ?case
      unfolding OrExpression.simps
    proof (rule fueled_bind)
      fix m u assume u: "work u \<le> work (NextToken skip t)"
      then have le: "3 * work u + 1 \<le> n" "work u \<le> length (s t)" using 1 NextToken_work[of skip t] by simp_all
      from Suc.IH(2)[OF le(1)] le(2) show "fueled (case (m, u) of (m, u) \<Rightarrow> or_loop n lib skip m u) (length (s t))"
        by (auto intro: fueled_mono)
    qed
  next
    case 2
    show ?case
    proof (cases "tt t = T_OR")
      case True
      then have less: "work (NextToken skip t) < work t" by (intro NextToken_less) auto
      then have "3 * work (NextToken skip t) + 2 \<le> n" "3 * work t \<le> n" using 2 by simp_all
      then show ?thesis
        using True loop[OF Suc.IH(3) less] Suc.IH(2) by (simp add: Let_def)
    next
      case False
      then show ?thesis by simp
    qed
  next
    case 3
    then have le: "3 * work t + 1 \<le> n" by simp
    from Suc.IH(5)[OF le] show ?case
      unfolding AndExpression.simps
    proof (rule fueled_bind)
      fix m u assume u: "work u \<le> work t"
      then have "3 * work u + 1 \<le> n" using le by simp
      from Suc.IH(4)[OF this] u show "fueled (case (m, u) of (m, u) \<Rightarrow> and_loop n lib skip m u) (work t)"
        by (auto intro: fueled_mono)
    qed
  next
    case 4
    show ?case
    proof (cases "tt t = T_AND")
      case True
      then have less: "work (NextToken skip t) < work t" by (intro NextToken_less) auto
      then have "3 * work (NextToken skip t) + 1 \<le> n" "3 * work t \<le> n" using 4 by simp_all
      then show ?thesis
        using True loop[OF Suc.IH(5) less] Suc.IH(4) by (simp add: Let_def)
    next
      case False
      then show ?thesis by simp
    qed
  next
    case 5
    consider (paren) "tt t = T_BRACEOPEN" | (neg) "tt t = T_NOT" | (other) "tt t \<noteq> T_BRACEOPEN" "tt t \<noteq> T_NOT"
      by blast
    then show ?case
    proof cases
      case paren
      then have w: "work t = Suc (length (s t))" by (simp add: work_def)
      then have "3 * length (s t) + 3 \<le> n" using 5 by simp
      from Suc.IH(1)[OF this] have "fueled (do { (match, t1) \<leftarrow> OrExpression n lib skip t;
             if tt t1 \<noteq> T_BRACECLOSE then Some (Error T_BRACECLOSE t1)
             else Some (match, NextToken skip t1) }) (work t)"
      proof (rule fueled_bind)
        fix m u assume "work u \<le> length (s t)"
        then have "work u \<le> work t" "length (s u) \<le> work t" using w by (simp_all add: work_def)
        then show "fueled (case (m, u) of (match, t1) \<Rightarrow> if tt t1 \<noteq> T_BRACECLOSE then Some (Error T_BRACECLOSE t1)
             else Some (match, NextToken skip t1)) (work t)"
          using Error_work[of T_BRACECLOSE u] NextToken_work[of skip u]
          by (cases "Error T_BRACECLOSE u") auto
      qed
      then show ?thesis using paren by simp
    next
      case neg
      then have less: "work (NextToken skip t) < work t" by (intro NextToken_less) auto
      then have "3 * work (NextToken skip t) + 1 \<le> n" using 5 by simp
      from fueled_bind[OF Suc.IH(5)[OF this], of _ "work t"] show ?thesis
        using neg less by simp
    next
      case other
      then show ?thesis
        using NextToken_less[of t skip] Error_work[of "et t" t] by (auto simp: Error_def work_def)
    qed
  }
qed

section \<open>The grammar and its meaning\<close>

datatype simple = Pat string | Neg simple | Group "simple list list"

text \<open>An expression is a list of alternatives, each a list of operands that must all match.\<close>

type_synonym expression = "simple list list"

definition plain :: "string \<Rightarrow> bool" where
  "plain p \<longleftrightarrow> p \<noteq> [] \<and> (\<forall>c\<in>set p. indexOfTerminal [c] = None)"

primrec wf_simple :: "simple \<Rightarrow> bool" where
  "wf_simple (Pat p) = plain p"
| "wf_simple (Neg e) = wf_simple e"
| "wf_simple (Group ds) = (ds \<noteq> [] \<and> list_all (\<lambda>es. es \<noteq> [] \<and> list_all id es) (map (map wf_simple) ds))"

primrec sem :: "(string \<Rightarrow> bool) \<Rightarrow> simple \<Rightarrow> bool" where
  "sem M (Pat p) = M p"
| "sem M (Neg e) = (\<not> sem M e)"
| "sem M (Group ds) = list_ex (list_all id) (map (map (sem M)) ds)"

fun sepcat :: "string \<Rightarrow> string list \<Rightarrow> string" where
  "sepcat sep [] = []"
| "sepcat sep (x # xs) = x @ concat (map (\<lambda>y. sep @ y) xs)"

text \<open>Writing an expression with the gap \<open>g\<close> of blanks in front of every token.\<close>

primrec pr :: "string \<Rightarrow> simple \<Rightarrow> string" where
  "pr g (Pat p) = g @ p"
| "pr g (Neg e) = g @ ''!'' @ pr g e"
| "pr g (Group ds) =
     g @ ''('' @ sepcat (g @ ''|'') (map (sepcat (g @ ''&'')) (map (map (pr g)) ds)) @ g @ '')''"

definition pr_and :: "string \<Rightarrow> simple list \<Rightarrow> string" where
  "pr_and g es = sepcat (g @ ''&'') (map (pr g) es)"

definition pr_or :: "string \<Rightarrow> expression \<Rightarrow> string" where
  "pr_or g ds = sepcat (g @ ''|'') (map (pr_and g) ds)"

definition wf_and :: "simple list \<Rightarrow> bool" where
  "wf_and es \<longleftrightarrow> es \<noteq> [] \<and> (\<forall>e\<in>set es. wf_simple e)"

definition wf_or :: "expression \<Rightarrow> bool" where
  "wf_or ds \<longleftrightarrow> ds \<noteq> [] \<and> (\<forall>es\<in>set ds. wf_and es)"

definition sem_or :: "(string \<Rightarrow> bool) \<Rightarrow> expression \<Rightarrow> bool" where
  "sem_or M ds \<longleftrightarrow> (\<exists>es\<in>set ds. \<forall>e\<in>set es. sem M e)"

lemma Group_simps [simp]:
  "wf_simple (Group ds) = wf_or ds" "sem M (Group ds) = sem_or M ds"
  "pr g (Group ds) = g @ ''('' @ pr_or g ds @ g @ '')''"
  by (simp_all add: wf_or_def wf_and_def sem_or_def pr_or_def pr_and_def[abs_def] list_all_iff list_ex_iff comp_def)

declare wf_simple.simps(3) [simp del] sem.simps(3) [simp del] pr.simps(3) [simp del]

section \<open>Reading tokens\<close>

definition blank :: "string \<Rightarrow> bool" where
  "blank g \<longleftrightarrow> (\<forall>c\<in>set g. c = CHR '' '')"

abbreviation strip :: "string \<Rightarrow> string" where
  "strip cs \<equiv> dropWhile (\<lambda>c. c = CHR '' '') cs"

lemma strip_blank [simp]: "blank g \<Longrightarrow> strip (g @ r) = strip r"
  by (simp add: blank_def dropWhile_append2)

definition closing :: "char set \<Rightarrow> string \<Rightarrow> bool" where
  \<comment> \<open>nothing but blanks, or one of these characters comes first\<close>
  "closing S r \<longleftrightarrow> (case strip r of [] \<Rightarrow> True | c # _ \<Rightarrow> c \<in> S)"

abbreviation "after_simple \<equiv> {CHR ''&'', CHR ''|'', CHR '')''}"
abbreviation "after_and \<equiv> {CHR ''|'', CHR '')''}"
abbreviation "after_or \<equiv> {CHR '')''}"

lemma closing_mono: "closing S r \<Longrightarrow> S \<subseteq> S' \<Longrightarrow> closing S' r"
  unfolding closing_def by (cases "strip r") (simp_all add: subsetD del: dropWhile_eq_Nil_conv)

lemma closing_gap [simp]: "blank g \<Longrightarrow> c \<noteq> CHR '' '' \<Longrightarrow> closing S (g @ c # r) \<longleftrightarrow> c \<in> S"
  by (simp add: closing_def)

lemma NextToken_char:
  assumes "tt t \<noteq> T_ERROR" "strip (s t) = c # r" "indexOfTerminal [c] = Some k"
  shows "NextToken skip t = t\<lparr>et := tt t, s := r, tt := k\<rparr>"
proof -
  have "indexOfTerminal (strip (s t)) = Some k" using assms(2,3) by (simp add: indexOfTerminal_def)
  from NextToken_cases(3)[OF assms(1) _ this, of skip] show ?thesis using assms(2) by simp
qed

lemma terminal_chars [simp]:
  "indexOfTerminal ''!'' = Some T_NOT" "indexOfTerminal ''|'' = Some T_OR" "indexOfTerminal ''&'' = Some T_AND"
  "indexOfTerminal ''('' = Some T_BRACEOPEN" "indexOfTerminal '')'' = Some T_BRACECLOSE"
  by (simp_all add: indexOfTerminal_def)

lemma NextToken_closing:
  assumes "tt t \<noteq> T_ERROR" "closing after_simple (s t)"
  shows "NextToken a t = NextToken True t"
proof (cases "strip (s t)")
  case Nil
  then show ?thesis using assms(1) by (simp only: NextToken_cases(2)[OF assms(1) Nil])
next
  case (Cons c r)
  then have "c \<in> after_simple" using assms(2) by (simp add: closing_def)
  then obtain k where "indexOfTerminal [c] = Some k" by fastforce
  from NextToken_char[OF assms(1) Cons this] show ?thesis by simp
qed

lemma NextToken_closing_tt:
  assumes "tt t \<noteq> T_ERROR" "closing S (s t)" "S \<subseteq> after_simple"
  shows "tt (NextToken a t) = T_END \<and> s (NextToken a t) = [] \<or>
    (\<exists>c\<in>S. indexOfTerminal [c] = Some (tt (NextToken a t)))"
proof (cases "strip (s t)")
  case Nil
  then show ?thesis by (simp only: NextToken_cases(2)[OF assms(1) Nil]) simp
next
  case (Cons c r)
  then have c: "c \<in> S" using assms(2) by (simp add: closing_def)
  then obtain k where "indexOfTerminal [c] = Some k" using assms(3) by fastforce
  from NextToken_char[OF assms(1) Cons this] c this show ?thesis by auto
qed

lemma pattern_chars_plain:
  assumes "\<forall>c\<in>set p. indexOfTerminal [c] = None" "closing after_simple r"
  shows "pattern_chars (p @ r) = p"
  using assms(1)
proof (induction p)
  case Nil
  have "indexOfTerminal r \<noteq> None" using assms(2)
    by (cases r) (auto simp: closing_def indexOfTerminal_def split: if_splits)
  then show ?case by (cases r) auto
next
  case (Cons c p)
  then show ?case by (simp add: indexOfTerminal_def split: if_splits)
qed

lemma NextToken_pattern:
  fixes skip :: bool
  assumes "tt t \<noteq> T_ERROR" "plain p" "blank g" "closing after_simple r" "s t = g @ p @ r"
  defines "t' \<equiv> NextToken skip t"
  shows "tt t' = T_EXP" "s t' = r" "ty t' = ty t" "val t' = val t" "answers t' = answers t"
    "\<not> skip \<Longrightarrow> pattern t' = uncase (ty t) p \<and> has_patterns t' = (\<exists>c\<in>set p. is_pattern c)"
proof -
  obtain c p' where p: "p = c # p'" "indexOfTerminal [c] = None" using assms(2) by (cases p) (auto simp: plain_def)
  then have strip: "strip (s t) = p @ r" using assms(3,5) by (auto simp: indexOfTerminal_def)
  have "indexOfTerminal (strip (s t)) = None" using strip p by (simp add: indexOfTerminal_def split: if_splits)
  then have t': "t' = ParseNonTerminal skip (t\<lparr>et := tt t, s := p @ r\<rparr>)"
    using NextToken_cases(4)[OF assms(1)] strip by (simp add: t'_def)
  have pc: "pattern_chars (p @ r) = p" using assms(2,4) by (intro pattern_chars_plain) (auto simp: plain_def)
  show "tt t' = T_EXP" "s t' = r" "ty t' = ty t" "val t' = val t" "answers t' = answers t"
    "\<not> skip \<Longrightarrow> pattern t' = uncase (ty t) p \<and> has_patterns t' = (\<exists>c\<in>set p. is_pattern c)"
    by (simp_all add: t' ParseNonTerminal_def pc Let_def)
qed

section \<open>The evaluation computes the meaning\<close>

definition matches :: "matchers \<Rightarrow> Type \<Rightarrow> string \<Rightarrow> string \<Rightarrow> bool" where
  \<comment> \<open>does the value match one pattern? By the wildcard matcher when the pattern has wildcards,
     by the comparison of the type otherwise\<close>
  "matches lib k v p \<longleftrightarrow>
     (if \<exists>c\<in>set p. is_pattern c then
        (if k = HOST then sge_hostmatch lib (uncase k p) v = 0
         else k \<in> {STR_T, CSTR, RESTR} \<and> fnmatch lib (uncase k p) v = 0)
      else
        (if k = HOST then sge_hostcmp lib (uncase k p) v = 0
         else if k = CSTR then map tolower (uncase k p) = map tolower v
         else k \<in> {STR_T, RESTR} \<and> p = v))"

lemma MatchPattern_matches:
  assumes "pattern t = uncase (ty t) p" "has_patterns t = (\<exists>c\<in>set p. is_pattern c)"
  shows "MatchPattern lib False t = (if matches lib (ty t) (val t) p then 0 else 1)"
  using assms by (cases "ty t") (auto simp: MatchPattern_def matches_def uncase_def)

definition frame :: "s_token \<Rightarrow> s_token \<Rightarrow> bool" where
  "frame t t' \<longleftrightarrow> ty t' = ty t \<and> val t' = val t \<and> answers t' = answers t"

lemma frame_refl [simp]: "frame t t"
  by (simp add: frame_def)

lemma frame_trans: "frame t t1 \<Longrightarrow> frame t1 t2 \<Longrightarrow> frame t t2"
  by (simp add: frame_def)

definition reads :: "bool \<Rightarrow> string \<Rightarrow> s_token \<Rightarrow> (int \<times> s_token) option \<Rightarrow> (bool \<Rightarrow> bool) \<Rightarrow> bool" where
  \<comment> \<open>an evaluation from \<open>t0\<close> that returned has read up to \<open>r\<close> and the first token of \<open>r\<close>;
     unless it skipped, its value is the truth value of \<open>B\<close>\<close>
  "reads skip r t0 res B \<longleftrightarrow>
     (\<forall>m t'. res = Some (m, t') \<longrightarrow>
       (\<exists>t1. t' = NextToken True t1 \<and> s t1 = r \<and> tt t1 \<noteq> T_ERROR \<and> frame t0 t1 \<and>
          (\<not> skip \<longrightarrow> (\<exists>b. B b \<and> m = (if b then 0 else 1)))))"

definition simple_ok :: "matchers \<Rightarrow> string \<Rightarrow> simple \<Rightarrow> bool" where
  "simple_ok lib g e \<longleftrightarrow>
     (\<forall>n skip rskip t0 r. closing after_simple r \<longrightarrow> s t0 = pr g e @ r \<longrightarrow> tt t0 \<noteq> T_ERROR \<longrightarrow>
        (rskip \<longrightarrow> skip) \<longrightarrow>
        reads skip r t0 (SimpleExpression n lib skip (NextToken rskip t0))
          (\<lambda>b. b = sem (matches lib (ty t0) (val t0)) e))"

lemma simple_okD:
  "simple_ok lib g e \<Longrightarrow> closing after_simple r \<Longrightarrow> s t0 = pr g e @ r \<Longrightarrow> tt t0 \<noteq> T_ERROR \<Longrightarrow>
     rskip \<longrightarrow> skip \<Longrightarrow> reads skip r t0 (SimpleExpression n lib skip (NextToken rskip t0))
       (\<lambda>b. b = sem (matches lib (ty t0) (val t0)) e)"
  by (simp add: simple_ok_def)

lemma readsI:
  assumes "\<And>m t'. res = Some (m, t') \<Longrightarrow>
       \<exists>t1. t' = NextToken True t1 \<and> s t1 = r \<and> tt t1 \<noteq> T_ERROR \<and> frame t0 t1 \<and>
          (\<not> skip \<longrightarrow> (\<exists>b. B b \<and> m = (if b then 0 else 1)))"
  shows "reads skip r t0 res B"
  using assms by (simp add: reads_def)

lemma readsE:
  assumes "reads skip r t0 res B" "res = Some (m, t')"
  obtains t1 where "t' = NextToken True t1" "s t1 = r" "tt t1 \<noteq> T_ERROR" "frame t0 t1"
    "\<not> skip \<longrightarrow> (\<exists>b. B b \<and> m = (if b then 0 else 1))"
  using assms unfolding reads_def by blast

lemma SimpleExpression_Pat:
  assumes "plain p" "blank g"
  shows "simple_ok lib g (Pat p)"
  unfolding simple_ok_def
proof (intro allI impI, rule readsI)
  fix n skip rskip t0 r m t'
  assume cl: "closing after_simple r" and st: "s t0 = pr g (Pat p) @ r" and tt: "tt t0 \<noteq> T_ERROR"
    and rs: "rskip \<longrightarrow> skip" and res: "SimpleExpression n lib skip (NextToken rskip t0) = Some (m, t')"
  let ?t = "NextToken rskip t0"
  note tok = NextToken_pattern[OF tt assms cl, of rskip]
  have t: "tt ?t = T_EXP" "s ?t = r" "ty ?t = ty t0" "val ?t = val t0" "answers ?t = answers t0"
    using tok st by simp_all
  obtain n' where "n = Suc n'" using res by (cases n) auto
  then have m: "m = MatchPattern lib skip ?t" and t': "t' = NextToken skip ?t" using res t(1) by auto
  have "t' = NextToken True ?t" unfolding t' using t cl by (intro NextToken_closing) auto
  moreover have "\<exists>b. b = sem (matches lib (ty t0) (val t0)) (Pat p) \<and> m = (if b then 0 else 1)" if "\<not> skip"
    using that rs tok st m MatchPattern_matches[of ?t p lib] by auto
  ultimately show "\<exists>t1. t' = NextToken True t1 \<and> s t1 = r \<and> tt t1 \<noteq> T_ERROR \<and> frame t0 t1 \<and>
      (\<not> skip \<longrightarrow> (\<exists>b. b = sem (matches lib (ty t0) (val t0)) (Pat p) \<and> m = (if b then 0 else 1)))"
    using t by (intro exI[of _ ?t]) (simp add: frame_def)
qed

lemma SimpleExpression_Neg:
  assumes "simple_ok lib g e" "blank g"
  shows "simple_ok lib g (Neg e)"
  unfolding simple_ok_def
proof (intro allI impI, rule readsI)
  fix n skip rskip t0 r m t'
  assume cl: "closing after_simple r" and st: "s t0 = pr g (Neg e) @ r" and tt: "tt t0 \<noteq> T_ERROR"
    and rs: "rskip \<longrightarrow> skip" and res: "SimpleExpression n lib skip (NextToken rskip t0) = Some (m, t')"
  have t: "NextToken rskip t0 = t0\<lparr>et := tt t0, s := pr g e @ r, tt := T_NOT\<rparr>" (is "_ = ?t")
    using st assms(2) by (intro NextToken_char[OF tt, of "CHR ''!''"]) simp_all
  obtain n' m1 where n: "SimpleExpression n' lib skip (NextToken skip ?t) = Some (m1, t')"
      "m = (if m1 = 0 then 1 else 0)"
    using res t by (cases n) (auto simp: bind_eq_Some_conv)
  have "reads skip r ?t (SimpleExpression n' lib skip (NextToken skip ?t))
      (\<lambda>b. b = sem (matches lib (ty ?t) (val ?t)) e)"
    by (rule simple_okD[OF assms(1) cl]) simp_all
  from readsE[OF this n(1)] obtain t1 where "t' = NextToken True t1" "s t1 = r" "tt t1 \<noteq> T_ERROR" "frame ?t t1"
    "\<not> skip \<longrightarrow> (\<exists>b. b = sem (matches lib (ty ?t) (val ?t)) e \<and> m1 = (if b then 0 else 1))" .
  then show "\<exists>t1. t' = NextToken True t1 \<and> s t1 = r \<and> tt t1 \<noteq> T_ERROR \<and> frame t0 t1 \<and>
      (\<not> skip \<longrightarrow> (\<exists>b. b = sem (matches lib (ty t0) (val t0)) (Neg e) \<and> m = (if b then 0 else 1)))"
    using n(2) by (intro exI[of _ t1]) (auto simp: frame_def)
qed

lemma and_loop_reads:
  assumes "\<forall>e\<in>set es. simple_ok lib g e" "blank g"
    and "closing after_and r" "s t0 = concat (map (\<lambda>y. (g @ ''&'') @ y) (map (pr g) es)) @ r"
    and "tt t0 \<noteq> T_ERROR" "\<not> skip \<longrightarrow> m = (if b then 0 else 1)"
  shows "reads skip r t0 (and_loop n lib skip m (NextToken True t0))
    (\<lambda>b'. b' = (b \<and> (\<forall>e\<in>set es. sem (matches lib (ty t0) (val t0)) e)))"
  using assms
proof (induction es arbitrary: t0 m b n)
  case Nil
  have "tt (NextToken True t0) \<noteq> T_AND"
    using NextToken_closing_tt[OF Nil(5), of after_and True] Nil(3,4) by auto
  then show ?case using Nil by (cases n) (auto intro!: readsI exI[of _ t0] exI[of _ b])
next
  case (Cons e es)
  let ?r = "concat (map (\<lambda>y. (g @ ''&'') @ y) (map (pr g) es)) @ r"
  let ?M = "matches lib (ty t0) (val t0)"
  have t: "NextToken True t0 = t0\<lparr>et := tt t0, s := pr g e @ ?r, tt := T_AND\<rparr>" (is "_ = ?t")
    using Cons.prems(2,4) by (intro NextToken_char[OF Cons.prems(5), of "CHR ''&''"]) simp_all
  have cl: "closing after_simple ?r"
  proof (cases es)
    case Nil
    then show ?thesis using closing_mono[OF Cons.prems(3)] by auto
  next
    case (Cons e' es')
    then show ?thesis using \<open>blank g\<close> by simp
  qed
  show ?case
  proof (rule readsI)
    fix m' t' assume res: "and_loop n lib skip m (NextToken True t0) = Some (m', t')"
    define ev where "ev = (if m \<noteq> 0 then True else skip)"
    obtain n' m1 u where n': "SimpleExpression n' lib ev (NextToken skip ?t) = Some (m1, u)"
        "and_loop n' lib skip (if m \<noteq> 0 then m else m1) u = Some (m', t')"
      using res t by (cases n) (auto simp: bind_eq_Some_conv Let_def ev_def split: if_splits)
    have "reads ev ?r ?t (SimpleExpression n' lib ev (NextToken skip ?t))
        (\<lambda>b. b = sem (matches lib (ty ?t) (val ?t)) e)"
      by (rule simple_okD[OF _ cl]) (use Cons.prems(1) in \<open>simp_all add: ev_def\<close>)
    from readsE[OF this n'(1)] obtain t1 where t1: "u = NextToken True t1" "s t1 = ?r" "tt t1 \<noteq> T_ERROR"
        "frame ?t t1" "\<not> ev \<longrightarrow> (\<exists>b. b = sem (matches lib (ty ?t) (val ?t)) e \<and> m1 = (if b then 0 else 1))" .
    have M: "matches lib (ty t1) (val t1) = ?M" using t1(4) by (simp add: frame_def)
    have "\<not> skip \<longrightarrow> (if m \<noteq> 0 then m else m1) = (if b \<and> sem ?M e then 0 else 1)"
      using Cons.prems(6) t1(5) by (auto simp: ev_def split: if_splits)
    then have "reads skip r t1 (and_loop n' lib skip (if m \<noteq> 0 then m else m1) (NextToken True t1))
        (\<lambda>b'. b' = ((b \<and> sem ?M e) \<and> (\<forall>e\<in>set es. sem (matches lib (ty t1) (val t1)) e)))"
      using Cons.prems(1-3) t1 by (intro Cons.IH) auto
    from readsE[OF this n'(2)[unfolded t1(1)]] obtain t2 where "t' = NextToken True t2" "s t2 = r"
        "tt t2 \<noteq> T_ERROR" "frame t1 t2"
        "\<not> skip \<longrightarrow> (\<exists>b'. b' = ((b \<and> sem ?M e) \<and> (\<forall>e\<in>set es. sem ?M e)) \<and> m' = (if b' then 0 else 1))"
      unfolding M .
    then show "\<exists>t1. t' = NextToken True t1 \<and> s t1 = r \<and> tt t1 \<noteq> T_ERROR \<and> frame t0 t1 \<and>
        (\<not> skip \<longrightarrow> (\<exists>b'. b' = (b \<and> (\<forall>e\<in>set (e # es). sem ?M e)) \<and> m' = (if b' then 0 else 1)))"
      using t1(4) by (intro exI[of _ t2]) (auto simp: frame_def)
  qed
qed

lemma closing_list:
  assumes "blank g" "closing S r" "c \<in> S" "c \<noteq> CHR '' ''"
  shows "closing S (concat (map (\<lambda>y. (g @ [c]) @ y) xs) @ r)"
  using assms by (cases xs) simp_all

lemma sepcat_Cons: "sepcat sep (x # xs) @ r = x @ (concat (map (\<lambda>y. sep @ y) xs) @ r)"
  by simp

lemma AndExpression_reads:
  assumes "es \<noteq> []" "\<forall>e\<in>set es. simple_ok lib g e" "blank g"
    and cl: "closing after_and r" and st: "s t0 = pr_and g es @ r" and tt: "tt t0 \<noteq> T_ERROR" "rskip \<longrightarrow> skip"
  shows "reads skip r t0 (AndExpression n lib skip (NextToken rskip t0))
    (\<lambda>b. b = (\<forall>e\<in>set es. sem (matches lib (ty t0) (val t0)) e))"
proof (rule readsI)
  fix m t' assume res: "AndExpression n lib skip (NextToken rskip t0) = Some (m, t')"
  obtain e es' where es: "es = e # es'" using assms(1) by (cases es) auto
  let ?r = "concat (map (\<lambda>y. (g @ ''&'') @ y) (map (pr g) es')) @ r"
  let ?M = "matches lib (ty t0) (val t0)"
  have clr: "closing after_simple ?r"
    using closing_mono[OF cl, of after_simple] by (intro closing_list assms(3)) auto
  obtain n' m1 u where n': "SimpleExpression n' lib skip (NextToken rskip t0) = Some (m1, u)"
      "and_loop n' lib skip m1 u = Some (m, t')"
    using res by (cases n) (auto simp: bind_eq_Some_conv)
  have "reads skip ?r t0 (SimpleExpression n' lib skip (NextToken rskip t0)) (\<lambda>b. b = sem ?M e)"
    by (rule simple_okD[OF _ clr _ tt, of lib g e])
      (use assms(2) st in \<open>simp_all only: es pr_and_def list.map sepcat_Cons list.set ball_simps\<close>)
  from readsE[OF this n'(1)] obtain t1 where t1: "u = NextToken True t1" "s t1 = ?r" "tt t1 \<noteq> T_ERROR"
      "frame t0 t1" "\<not> skip \<longrightarrow> (\<exists>b. b = sem ?M e \<and> m1 = (if b then 0 else 1))" .
  have M: "matches lib (ty t1) (val t1) = ?M" using t1(4) by (simp add: frame_def)
  have "reads skip r t1 (and_loop n' lib skip m1 (NextToken True t1))
      (\<lambda>b'. b' = (sem ?M e \<and> (\<forall>e\<in>set es'. sem (matches lib (ty t1) (val t1)) e)))"
    by (rule and_loop_reads[OF _ assms(3) cl t1(2,3)]) (use assms(2) t1(5) in \<open>auto simp: es\<close>)
  from readsE[OF this n'(2)[unfolded t1(1)]] obtain t2 where "t' = NextToken True t2" "s t2 = r"
      "tt t2 \<noteq> T_ERROR" "frame t1 t2"
      "\<not> skip \<longrightarrow> (\<exists>b'. b' = (sem ?M e \<and> (\<forall>e\<in>set es'. sem ?M e)) \<and> m = (if b' then 0 else 1))"
    unfolding M .
  then show "\<exists>t1. t' = NextToken True t1 \<and> s t1 = r \<and> tt t1 \<noteq> T_ERROR \<and> frame t0 t1 \<and>
      (\<not> skip \<longrightarrow> (\<exists>b. b = (\<forall>e\<in>set es. sem ?M e) \<and> m = (if b then 0 else 1)))"
    using frame_trans[OF t1(4)] by (intro exI[of _ t2]) (simp add: es)
qed

lemma or_loop_reads:
  assumes "\<forall>es\<in>set ds. es \<noteq> [] \<and> (\<forall>e\<in>set es. simple_ok lib g e)" "blank g"
    and "closing after_or r" "s t0 = concat (map (\<lambda>y. (g @ ''|'') @ y) (map (pr_and g) ds)) @ r"
    and "tt t0 \<noteq> T_ERROR" "\<not> skip \<longrightarrow> m = (if b then 0 else 1)"
  shows "reads skip r t0 (or_loop n lib skip m (NextToken True t0))
    (\<lambda>b'. b' = (b \<or> sem_or (matches lib (ty t0) (val t0)) ds))"
  using assms
proof (induction ds arbitrary: t0 m b n)
  case Nil
  have "tt (NextToken True t0) \<noteq> T_OR"
    using NextToken_closing_tt[OF Nil(5), of after_or True] Nil(3,4) by auto
  then show ?case using Nil by (cases n) (auto simp: sem_or_def intro!: readsI exI[of _ t0] exI[of _ b])
next
  case (Cons es ds)
  let ?r = "concat (map (\<lambda>y. (g @ ''|'') @ y) (map (pr_and g) ds)) @ r"
  let ?M = "matches lib (ty t0) (val t0)"
  have t: "NextToken True t0 = t0\<lparr>et := tt t0, s := pr_and g es @ ?r, tt := T_OR\<rparr>" (is "_ = ?t")
    using Cons.prems(2,4) by (intro NextToken_char[OF Cons.prems(5), of "CHR ''|''"]) simp_all
  have cl: "closing after_and ?r"
    using closing_mono[OF Cons.prems(3), of after_and] by (intro closing_list Cons.prems(2)) auto
  have one: "es \<noteq> []" "\<forall>e\<in>set es. simple_ok lib g e" using Cons.prems(1) by simp_all
  show ?case
  proof (rule readsI)
    fix m' t' assume res: "or_loop n lib skip m (NextToken True t0) = Some (m', t')"
    define ev where "ev = (if m = 0 then True else skip)"
    obtain n' m1 u where n': "AndExpression n' lib ev (NextToken skip ?t) = Some (m1, u)"
        "or_loop n' lib skip (if m = 0 then m else m1) u = Some (m', t')"
      using res t by (cases n) (auto simp: bind_eq_Some_conv Let_def ev_def split: if_splits)
    have "reads ev ?r ?t (AndExpression n' lib ev (NextToken skip ?t))
        (\<lambda>b. b = (\<forall>e\<in>set es. sem (matches lib (ty ?t) (val ?t)) e))"
      by (rule AndExpression_reads[OF one Cons.prems(2) cl]) (simp_all add: ev_def)
    from readsE[OF this n'(1)] obtain t1 where t1: "u = NextToken True t1" "s t1 = ?r" "tt t1 \<noteq> T_ERROR"
        "frame ?t t1"
        "\<not> ev \<longrightarrow> (\<exists>b. b = (\<forall>e\<in>set es. sem (matches lib (ty ?t) (val ?t)) e) \<and> m1 = (if b then 0 else 1))" .
    have M: "matches lib (ty t1) (val t1) = ?M" using t1(4) by (simp add: frame_def)
    have "\<not> skip \<longrightarrow> (if m = 0 then m else m1) = (if b \<or> (\<forall>e\<in>set es. sem ?M e) then 0 else 1)"
      using Cons.prems(6) t1(5) by (auto simp: ev_def split: if_splits)
    then have "reads skip r t1 (or_loop n' lib skip (if m = 0 then m else m1) (NextToken True t1))
        (\<lambda>b'. b' = ((b \<or> (\<forall>e\<in>set es. sem ?M e)) \<or> sem_or (matches lib (ty t1) (val t1)) ds))"
      using Cons.prems(1-3) t1 by (intro Cons.IH) auto
    from readsE[OF this n'(2)[unfolded t1(1)]] obtain t2 where "t' = NextToken True t2" "s t2 = r"
        "tt t2 \<noteq> T_ERROR" "frame t1 t2"
        "\<not> skip \<longrightarrow> (\<exists>b'. b' = ((b \<or> (\<forall>e\<in>set es. sem ?M e)) \<or> sem_or ?M ds) \<and> m' = (if b' then 0 else 1))"
      unfolding M .
    then show "\<exists>t1. t' = NextToken True t1 \<and> s t1 = r \<and> tt t1 \<noteq> T_ERROR \<and> frame t0 t1 \<and>
        (\<not> skip \<longrightarrow> (\<exists>b'. b' = (b \<or> sem_or ?M (es # ds)) \<and> m' = (if b' then 0 else 1)))"
      using t1(4) by (intro exI[of _ t2]) (auto simp: frame_def sem_or_def)
  qed
qed

lemma OrExpression_reads:
  assumes "ds \<noteq> []" "\<forall>es\<in>set ds. es \<noteq> [] \<and> (\<forall>e\<in>set es. simple_ok lib g e)" "blank g"
    and cl: "closing after_or r" and st: "s t0 = pr_or g ds @ r" and tt: "tt t0 \<noteq> T_ERROR"
  shows "reads skip r t0 (OrExpression n lib skip t0) (\<lambda>b. b = sem_or (matches lib (ty t0) (val t0)) ds)"
proof (rule readsI)
  fix m t' assume res: "OrExpression n lib skip t0 = Some (m, t')"
  obtain es ds' where ds: "ds = es # ds'" using assms(1) by (cases ds) auto
  let ?r = "concat (map (\<lambda>y. (g @ ''|'') @ y) (map (pr_and g) ds')) @ r"
  let ?M = "matches lib (ty t0) (val t0)"
  have clr: "closing after_and ?r"
    using closing_mono[OF cl, of after_and] by (intro closing_list assms(3)) auto
  obtain n' m1 u where n': "AndExpression n' lib skip (NextToken skip t0) = Some (m1, u)"
      "or_loop n' lib skip m1 u = Some (m, t')"
    using res by (cases n) (auto simp: bind_eq_Some_conv)
  have one: "es \<noteq> []" "\<forall>e\<in>set es. simple_ok lib g e" using assms(2) ds by simp_all
  have "reads skip ?r t0 (AndExpression n' lib skip (NextToken skip t0)) (\<lambda>b. b = (\<forall>e\<in>set es. sem ?M e))"
    by (rule AndExpression_reads[OF one assms(3) clr _ tt])
      (use st in \<open>simp_all only: ds pr_or_def list.map sepcat_Cons simp_thms\<close>)
  from readsE[OF this n'(1)] obtain t1 where t1: "u = NextToken True t1" "s t1 = ?r" "tt t1 \<noteq> T_ERROR"
      "frame t0 t1" "\<not> skip \<longrightarrow> (\<exists>b. b = (\<forall>e\<in>set es. sem ?M e) \<and> m1 = (if b then 0 else 1))" .
  have M: "matches lib (ty t1) (val t1) = ?M" using t1(4) by (simp add: frame_def)
  have "reads skip r t1 (or_loop n' lib skip m1 (NextToken True t1))
      (\<lambda>b'. b' = ((\<forall>e\<in>set es. sem ?M e) \<or> sem_or (matches lib (ty t1) (val t1)) ds'))"
    by (rule or_loop_reads[OF _ assms(3) cl t1(2,3)]) (use assms(2) t1(5) in \<open>auto simp: ds\<close>)
  from readsE[OF this n'(2)[unfolded t1(1)]] obtain t2 where "t' = NextToken True t2" "s t2 = r"
      "tt t2 \<noteq> T_ERROR" "frame t1 t2"
      "\<not> skip \<longrightarrow> (\<exists>b'. b' = ((\<forall>e\<in>set es. sem ?M e) \<or> sem_or ?M ds') \<and> m = (if b' then 0 else 1))"
    unfolding M .
  then show "\<exists>t1. t' = NextToken True t1 \<and> s t1 = r \<and> tt t1 \<noteq> T_ERROR \<and> frame t0 t1 \<and>
      (\<not> skip \<longrightarrow> (\<exists>b. b = sem_or ?M ds \<and> m = (if b then 0 else 1)))"
    using frame_trans[OF t1(4)] by (intro exI[of _ t2]) (auto simp: ds sem_or_def)
qed

lemma SimpleExpression_Group:
  assumes "ds \<noteq> []" "\<forall>es\<in>set ds. es \<noteq> [] \<and> (\<forall>e\<in>set es. simple_ok lib g e)" "blank g"
  shows "simple_ok lib g (Group ds)"
  unfolding simple_ok_def
proof (intro allI impI, rule readsI)
  fix n skip rskip t0 r m t'
  assume cl: "closing after_simple r" and st: "s t0 = pr g (Group ds) @ r" and tt: "tt t0 \<noteq> T_ERROR"
    and rs: "rskip \<longrightarrow> skip" and res: "SimpleExpression n lib skip (NextToken rskip t0) = Some (m, t')"
  let ?r = "g @ '')'' @ r"
  have t: "NextToken rskip t0 = t0\<lparr>et := tt t0, s := pr_or g ds @ ?r, tt := T_BRACEOPEN\<rparr>" (is "_ = ?t")
    using st assms(3) by (intro NextToken_char[OF tt, of "CHR ''(''"]) simp_all
  have "closing after_or ?r" using assms(3) by simp
  then have reads: "reads skip ?r ?t (OrExpression n' lib skip ?t) (\<lambda>b. b = sem_or (matches lib (ty ?t) (val ?t)) ds)" for n'
    by (rule OrExpression_reads[OF assms]) simp_all
  obtain n' m1 u where n': "OrExpression n' lib skip ?t = Some (m1, u)"
      "(if tt u \<noteq> T_BRACECLOSE then Some (Error T_BRACECLOSE u) else Some (m1, NextToken skip u)) = Some (m, t')"
    using res t by (cases n) (auto simp: bind_eq_Some_conv simp del: OrExpression.simps)
  from readsE[OF reads n'(1)] obtain t1 where t1: "u = NextToken True t1" "s t1 = ?r" "tt t1 \<noteq> T_ERROR"
      "frame ?t t1" "\<not> skip \<longrightarrow> (\<exists>b. b = sem_or (matches lib (ty ?t) (val ?t)) ds \<and> m1 = (if b then 0 else 1))" .
  have u: "u = t1\<lparr>et := tt t1, s := r, tt := T_BRACECLOSE\<rparr>"
    unfolding t1(1) using t1(2) assms(3) by (intro NextToken_char[OF t1(3), of "CHR '')''"]) simp_all
  then have "m = m1" "t' = NextToken skip u" using n'(2) by simp_all
  moreover have "NextToken skip u = NextToken True u" using u cl by (intro NextToken_closing) simp_all
  ultimately show "\<exists>t1. t' = NextToken True t1 \<and> s t1 = r \<and> tt t1 \<noteq> T_ERROR \<and> frame t0 t1 \<and>
      (\<not> skip \<longrightarrow> (\<exists>b. b = sem (matches lib (ty t0) (val t0)) (Group ds) \<and> m = (if b then 0 else 1)))"
    using u t1(4,5) by (intro exI[of _ u]) (simp add: frame_def)
qed

lemma SimpleExpression_ok:
  assumes "blank g"
  shows "wf_simple e \<Longrightarrow> simple_ok lib g e"
proof (induction e)
  case (Pat p)
  then show ?case using assms by (intro SimpleExpression_Pat) simp_all
next
  case (Neg e)
  then show ?case using assms by (intro SimpleExpression_Neg) simp_all
next
  case (Group ds)
  then show ?case
    using assms by (intro SimpleExpression_Group) (auto simp: wf_or_def wf_and_def)
qed

text \<open>The evaluation of a written expression, with blanks after it.\<close>

lemma OrExpression_correct:
  assumes "wf_or ds" "blank g" "blank g'" "s t0 = pr_or g ds @ g'" "tt t0 \<noteq> T_ERROR"
    "3 * length (s t0) + 3 \<le> n"
  shows "\<exists>t. OrExpression n lib False t0 = Some (if sem_or (matches lib (ty t0) (val t0)) ds then 0 else 1, t) \<and>
    tt t = T_END \<and> s t = [] \<and> answers t = answers t0"
proof -
  have ok: "ds \<noteq> []" "\<forall>es\<in>set ds. es \<noteq> [] \<and> (\<forall>e\<in>set es. simple_ok lib g e)"
    using assms(1) SimpleExpression_ok[OF assms(2)] by (auto simp: wf_or_def wf_and_def)
  have strip: "strip g' = []" using assms(3) by (simp add: blank_def)
  then have cl: "closing after_or g'" by (simp only: closing_def list.case)
  obtain m t where res: "OrExpression n lib False t0 = Some (m, t)"
    using enough_fuel(1)[OF assms(6), of lib False] by (auto simp: fueled_def)
  from readsE[OF OrExpression_reads[OF ok assms(2) cl assms(4,5)] res]
  obtain t1 where t1: "t = NextToken True t1" "s t1 = g'" "tt t1 \<noteq> T_ERROR" "frame t0 t1"
    "\<not> False \<longrightarrow> (\<exists>b. b = sem_or (matches lib (ty t0) (val t0)) ds \<and> m = (if b then 0 else 1))" .
  have "t = t1\<lparr>et := tt t1, s := [], tt := T_END\<rparr>"
    unfolding t1(1) using strip t1(2) by (intro NextToken_cases(2)[OF t1(3)]) simp
  then show ?thesis using res t1(4,5) by (intro exI[of _ t]) (simp add: frame_def)
qed

section \<open>Termination\<close>

text \<open>The evaluation ends for every type, expression, value and matching function, well formed
  or not: the fuel is never used up.\<close>

lemma eval_expression_ends:
  "\<exists>match al'. sge_eval_expression lib k expr value al use_is_expression is_expr = Some (match, al')"
proof -
  have *: "\<exists>m t. OrExpression (eval_fuel e) lib False (uncaseValue t0) = Some (m, t)" if "s t0 = e" for e t0
    using enough_fuel(1)[of "uncaseValue t0" "eval_fuel e" lib False] that
    by (auto simp: fueled_def eval_fuel_def uncaseValue_def)
  show ?thesis
  proof (cases "\<exists>e v. expr = Some e \<and> value = Some v")
    case True
    then obtain e v where ev: "expr = Some e" "value = Some v" by blast
    obtain m t where "OrExpression (eval_fuel e) lib False (uncaseValue \<lparr>ty = k, val = v, s = e, pattern = [],
        has_patterns = True, tt = T_END, et = T_EXP, answers = al\<rparr>) = Some (m, t)"
      using *[of "\<lparr>ty = k, val = v, s = e, pattern = [],
        has_patterns = True, tt = T_END, et = T_EXP, answers = al\<rparr>" e] by auto
    then show ?thesis
      by (simp add: sge_eval_expression_def ev Let_def split: prod.split)
  next
    case False
    then show ?thesis by (cases expr; cases "value") (simp_all add: sge_eval_expression_def)
  qed
qed

end
