(* ===== verification/EvalExpression_Props.thy ===== *)
theory EvalExpression_Props
  imports EvalExpression_Correct
begin

text \<open>The properties of the evaluation of resource requests.\<close>

section \<open>Meaning\<close>




text \<open>A plain value, without any operator or wildcard, is compared as a whole by the comparison
  of its type, and nothing is parsed.\<close>

lemma eval_plain_value:
  assumes "\<not> is_expression e" "length e < MAX_STRING_SIZE" "length v < MAX_STRING_SIZE"
  shows "sge_eval_expression lib k (Some e) (Some v) al False b =
    Some (if k = HOST \<and> sge_hostcmp lib e v = 0 \<or> k = CSTR \<and> map tolower e = map tolower v \<or>
             k \<in> {STR_T, RESTR} \<and> e = v then 0 else 1, al)"
  using assms by (cases k) (auto simp: sge_eval_expression_def MatchPattern_def)

end
