(* ===== verification/Htable.thy ===== *)
theory Htable
  imports Complex_Main "HOL-Library.Word"
begin

text \<open>
  The hash table of \<^verbatim>\<open>source/libs/uti/sge_htable.cc\<close>: \<open>2 ^ size\<close> chains of buckets that
  grow and shrink with the number of entries, with the functions that copy, hash and compare
  keys as fields of the table, and the ready made functions for the five key types. A chain
  is the list of its buckets, head first. A key pointer is the value it points to; a hash
  value is a signed 32 bit integer. Allocation never fails in the model. The numbers of chains are
  powers of two: the code computes them as \<^verbatim>\<open>1 << size\<close>, an \<^verbatim>\<open>int\<close>, which is the same for sizes below 31.
\<close>

unbundle bit_operations_syntax

section \<open>Data\<close>

type_synonym ('k, 'v) bucket = "'k \<times> 'v"

record ('k, 'v) htable_rec =
  table :: "('k, 'v) bucket list list"
  htsize :: nat
  htmask :: int
  numentries :: int
  dup_func :: "'k \<Rightarrow> 'k"
  hash_func :: "'k \<Rightarrow> int"
  compare_func :: "'k \<Rightarrow> 'k \<Rightarrow> int"

definition HASH_RESIZE_UP_THRESHOLD :: nat where "HASH_RESIZE_UP_THRESHOLD = 0"
definition HASH_RESIZE_DOWN_THRESHOLD :: nat where "HASH_RESIZE_DOWN_THRESHOLD = 1"

section \<open>Operations\<close>

definition chain_of :: "('k, 'v) htable_rec \<Rightarrow> 'k \<Rightarrow> nat" where
  \<comment> \<open>\<^verbatim>\<open>table->hash_func(key) & table->mask\<close>\<close>
  "chain_of ht k = nat (hash_func ht k AND htmask ht)"

definition rehash_bucket ::
    "('k, 'v) htable_rec \<Rightarrow> ('k, 'v) bucket \<Rightarrow> ('k, 'v) bucket list list \<Rightarrow> ('k, 'v) bucket list list" where
  "rehash_bucket ht b tab = (let i = chain_of ht (fst b) in tab[i := b # tab ! i])"

definition sge_htable_resize :: "('k, 'v) htable_rec \<Rightarrow> bool \<Rightarrow> ('k, 'v) htable_rec" where
  "sge_htable_resize ht grow =
     (let otable = table ht; otablesize = 2 ^ htsize ht in
      if \<not> grow \<and> \<not> htsize ht > 2 then ht
      else
        let sz = (if grow then htsize ht + 1 else htsize ht - 1);
            ht1 = ht\<lparr>htsize := sz, htmask := 2 ^ sz - 1\<rparr>
        in ht1\<lparr>table := fold (rehash_bucket ht1) (concat (take otablesize otable)) (replicate (2 ^ sz) [])\<rparr>)"

definition sge_htable_create ::
    "nat \<Rightarrow> ('k \<Rightarrow> 'k) \<Rightarrow> ('k \<Rightarrow> int) \<Rightarrow> ('k \<Rightarrow> 'k \<Rightarrow> int) \<Rightarrow> ('k, 'v) htable_rec" where
  "sge_htable_create sz dup hash compare =
     \<lparr>table = replicate (2 ^ sz) [], htsize = sz, htmask = 2 ^ sz - 1, numentries = 0,
      dup_func = dup, hash_func = hash, compare_func = compare\<rparr>"

definition sge_htable_for_each_ep :: "('k, 'v) htable_rec \<Rightarrow> ('k \<Rightarrow> 'v \<Rightarrow> 'v) \<Rightarrow> ('k, 'v) htable_rec" where
  \<comment> \<open>the procedure gets the address of the data and may replace it\<close>
  "sge_htable_for_each_ep ht proc =
     ht\<lparr>table := map (map (\<lambda>(k, d). (k, proc k d))) (table ht)\<rparr>"

fun chain_replace :: "('k \<Rightarrow> 'k \<Rightarrow> int) \<Rightarrow> 'k \<Rightarrow> 'v \<Rightarrow> ('k, 'v) bucket list \<Rightarrow> ('k, 'v) bucket list option" where
  \<comment> \<open>the loop of \<^verbatim>\<open>sge_htable_store\<close>, \<open>None\<close> when the key is not in the chain\<close>
  "chain_replace cmp key data [] = None"
| "chain_replace cmp key data ((k, d) # bs) =
     (if cmp k key = 0 then Some ((k, data) # bs)
      else map_option (Cons (k, d)) (chain_replace cmp key data bs))"

definition sge_htable_store :: "('k, 'v) htable_rec \<Rightarrow> 'k \<Rightarrow> 'v \<Rightarrow> ('k, 'v) htable_rec" where
  "sge_htable_store ht key data =
     (let i = chain_of ht key in
      case chain_replace (compare_func ht) key data (table ht ! i) of
        Some bs \<Rightarrow> ht\<lparr>table := (table ht)[i := bs]\<rparr>
      | None \<Rightarrow>
          (let ht1 = ht\<lparr>table := (table ht)[i := (dup_func ht key, data) # table ht ! i],
                        numentries := numentries ht + 1\<rparr>
           in if numentries ht1 > push_bit HASH_RESIZE_UP_THRESHOLD (htmask ht1)
              then sge_htable_resize ht1 True else ht1))"

fun chain_lookup :: "('k \<Rightarrow> 'k \<Rightarrow> int) \<Rightarrow> 'k \<Rightarrow> ('k, 'v) bucket list \<Rightarrow> 'v option" where
  "chain_lookup cmp key [] = None"
| "chain_lookup cmp key ((k, d) # bs) = (if cmp k key = 0 then Some d else chain_lookup cmp key bs)"

definition sge_htable_lookup :: "('k, 'v) htable_rec \<Rightarrow> 'k \<Rightarrow> 'v option" where
  "sge_htable_lookup ht key = chain_lookup (compare_func ht) key (table ht ! chain_of ht key)"

fun chain_remove :: "('k \<Rightarrow> 'k \<Rightarrow> int) \<Rightarrow> 'k \<Rightarrow> ('k, 'v) bucket list \<Rightarrow> ('k, 'v) bucket list option" where
  \<comment> \<open>the loop of \<^verbatim>\<open>sge_htable_delete\<close>, \<open>None\<close> when the key is not in the chain\<close>
  "chain_remove cmp key [] = None"
| "chain_remove cmp key ((k, d) # bs) =
     (if cmp k key = 0 then Some bs else map_option (Cons (k, d)) (chain_remove cmp key bs))"

definition sge_htable_delete :: "('k, 'v) htable_rec \<Rightarrow> 'k \<Rightarrow> ('k, 'v) htable_rec" where
  "sge_htable_delete ht key =
     (let i = chain_of ht key in
      case chain_remove (compare_func ht) key (table ht ! i) of
        None \<Rightarrow> ht
      | Some bs \<Rightarrow>
          (let ht1 = ht\<lparr>table := (table ht)[i := bs], numentries := numentries ht - 1\<rparr>
           in if numentries ht1 < drop_bit HASH_RESIZE_DOWN_THRESHOLD (htmask ht1)
              then sge_htable_resize ht1 False else ht1))"

definition sge_htable_get_size :: "('k, 'v) htable_rec option \<Rightarrow> int" where
  "sge_htable_get_size ht = (case ht of None \<Rightarrow> 0 | Some ht \<Rightarrow> numentries ht)"

record htable_statistics =
  st_size :: nat
  st_entries :: int
  st_empty :: nat
  st_max :: nat
  st_avg :: rat

definition sge_htable_statistics :: "('k, 'v) htable_rec \<Rightarrow> htable_statistics" where
  \<comment> \<open>the numbers that the function prints\<close>
  "sge_htable_statistics ht =
     (let sz = 2 ^ htsize ht;
          chains = take sz (table ht);
          (empty, mx) = fold (\<lambda>c (e, m). if c = [] then (e + 1, m) else (e, if length c > m then length c else m))
            chains (0, 0)
      in \<lparr>st_size = sz, st_entries = numentries ht, st_empty = empty, st_max = mx,
          st_avg = (if sz > empty then of_int (numentries ht) / of_nat (sz - empty) else 0)\<rparr>)"

section \<open>Keys\<close>

definition dup_func_uint32_t :: "32 word \<Rightarrow> 32 word" where "dup_func_uint32_t key = key"
definition dup_func_uint64_t :: "64 word \<Rightarrow> 64 word" where "dup_func_uint64_t key = key"
definition dup_func_long :: "64 word \<Rightarrow> 64 word" where "dup_func_long key = key"
definition dup_func_pointer :: "64 word \<Rightarrow> 64 word" where "dup_func_pointer key = key"
definition dup_func_string :: "8 word list \<Rightarrow> 8 word list" where "dup_func_string key = key"

definition hash_func_uint32_t :: "32 word \<Rightarrow> int" where
  "hash_func_uint32_t key = sint key"

definition hash_func_uint64_t :: "64 word \<Rightarrow> int" where
  "hash_func_uint64_t key = sint (ucast key :: 32 word)"

definition hash_func_long :: "64 word \<Rightarrow> int" where
  "hash_func_long key = sint (ucast key :: 32 word)"

definition hash_func_pointer :: "64 word \<Rightarrow> int" where
  "hash_func_pointer key = sint (ucast (signed_drop_bit 7 key) :: 32 word)"

definition hash_string_step :: "8 word \<Rightarrow> 32 word \<Rightarrow> 32 word" where
  "hash_string_step c hash = hash + (push_bit 3 hash + ucast c)"

definition hash_func_string :: "8 word list \<Rightarrow> int" where
  \<comment> \<open>the loop also takes the terminating zero\<close>
  "hash_func_string key = sint (fold hash_string_step (key @ [0]) 0)"

definition hash_compare_uint32_t :: "32 word \<Rightarrow> 32 word \<Rightarrow> int" where
  "hash_compare_uint32_t a b = of_bool (a > b) - of_bool (a < b)"

definition hash_compare_uint64_t :: "64 word \<Rightarrow> 64 word \<Rightarrow> int" where
  "hash_compare_uint64_t a b = of_bool (a > b) - of_bool (a < b)"

definition hash_compare_long :: "64 word \<Rightarrow> 64 word \<Rightarrow> int" where
  "hash_compare_long a b = of_bool (sint a > sint b) - of_bool (sint a < sint b)"

definition hash_compare_pointer :: "64 word \<Rightarrow> 64 word \<Rightarrow> int" where
  "hash_compare_pointer a b = (if a \<noteq> b then 1 else 0)"

fun hash_compare_string :: "8 word list \<Rightarrow> 8 word list \<Rightarrow> int" where
  \<comment> \<open>\<^verbatim>\<open>strcmp\<close>\<close>
  "hash_compare_string [] [] = 0"
| "hash_compare_string [] (d # ds) = -1"
| "hash_compare_string (c # cs) [] = 1"
| "hash_compare_string (c # cs) (d # ds) =
     (if c = d then hash_compare_string cs ds else if c < d then -1 else 1)"

function hash_compute_loop :: "int \<Rightarrow> nat \<Rightarrow> nat" where
  "hash_compute_loop n sz = (if n > 0 then hash_compute_loop (drop_bit 1 n) (sz + 1) else sz)"
  by pat_completeness auto
termination
  by (relation "measure (\<lambda>(n, sz). nat n)") (auto simp: drop_bit_Suc)

declare hash_compute_loop.simps [simp del]

definition hash_compute_size :: "int \<Rightarrow> nat" where
  "hash_compute_size number_of_elem = hash_compute_loop number_of_elem 0"

end
