(* ===== verification/Htable_Correct.thy ===== *)
theory Htable_Correct
  imports Htable
begin

text \<open>
  The hash table implements a finite map. The invariant says that every bucket is in the chain
  its hash value selects and that no key is stored twice; it is kept by every operation, and
  resizing changes neither the entries nor what is found. The interface that clients of the
  table rely on is the locale \<open>dict\<close>; its laws are proved for the table with any lawful key
  functions, and the key functions of the code are lawful.
\<close>

unbundle bit_operations_syntax

section \<open>The interface\<close>

locale key_functions =
  fixes dup :: "'k \<Rightarrow> 'k" and compare :: "'k \<Rightarrow> 'k \<Rightarrow> int"
  assumes dup: "dup k = k"
    and compare: "compare a b = 0 \<longleftrightarrow> a = b"

locale dict =
  fixes inv :: "'t \<Rightarrow> bool"
    and lookup :: "'t \<Rightarrow> 'k \<Rightarrow> 'v option"
    and store :: "'t \<Rightarrow> 'k \<Rightarrow> 'v \<Rightarrow> 't"
    and delete :: "'t \<Rightarrow> 'k \<Rightarrow> 't"
    and count :: "'t \<Rightarrow> int"
  assumes lookup_store: "inv t \<Longrightarrow> lookup (store t k d) k' = (if k' = k then Some d else lookup t k')"
    and lookup_delete: "inv t \<Longrightarrow> lookup (delete t k) k' = (if k' = k then None else lookup t k')"
    and inv_store: "inv t \<Longrightarrow> inv (store t k d)"
    and inv_delete: "inv t \<Longrightarrow> inv (delete t k)"
    and count_dom: "inv t \<Longrightarrow> finite (dom (lookup t)) \<and> count t = int (card (dom (lookup t)))"
begin

text \<open>What follows for any sequence of operations.\<close>

lemma lookup_store_all:
  "inv t \<Longrightarrow> inv (fold (\<lambda>(k, d) t. store t k d) kds t) \<and>
     lookup (fold (\<lambda>(k, d) t. store t k d) kds t) = lookup t ++ map_of (rev kds)"
proof (induction kds arbitrary: t)
  case Nil
  then show ?case by simp
next
  case (Cons kd kds)
  obtain k d where kd: "kd = (k, d)" by (cases kd)
  have "lookup (store t k d) ++ map_of (rev kds) = lookup t ++ map_of (rev ((k, d) # kds))"
    using lookup_store[OF Cons.prems] by (auto simp: map_add_def fun_eq_iff split: option.splits)
  then show ?case using Cons.IH[OF inv_store[OF Cons.prems, of k d]] by (simp only: kd fold_Cons comp_apply prod.case simp_thms)
qed

lemma lookup_delete_all:
  "inv t \<Longrightarrow> inv (fold (\<lambda>k t. delete t k) ks t) \<and>
     lookup (fold (\<lambda>k t. delete t k) ks t) = (lookup t) |` (- set ks)"
proof (induction ks arbitrary: t)
  case Nil
  then show ?case by simp
next
  case (Cons k ks)
  have "lookup (delete t k) = (lookup t)(k := None)" using lookup_delete[OF Cons.prems] by auto
  then show ?case
    using Cons.IH[OF inv_delete[OF Cons.prems, of k]] by (auto simp: restrict_map_def fun_eq_iff)
qed

lemma count_store: "inv t \<Longrightarrow> count (store t k d) = count t + (if lookup t k = None then 1 else 0)"
proof -
  assume t: "inv t"
  have "dom (lookup (store t k d)) = insert k (dom (lookup t))"
    using lookup_store[OF t] by (auto simp: dom_def)
  then show ?thesis
    using count_dom[OF t] count_dom[OF inv_store[OF t, of k d]] by (auto simp: dom_def insert_absorb)
qed

end

section \<open>The invariant and the map\<close>

definition entries :: "('k, 'v) htable_rec \<Rightarrow> ('k, 'v) bucket list" where
  "entries ht = concat (table ht)"

definition ht_map :: "('k, 'v) htable_rec \<Rightarrow> 'k \<Rightarrow> 'v option" where
  "ht_map ht = map_of (entries ht)"

definition ht_shape :: "('k, 'v) htable_rec \<Rightarrow> bool" where
  "ht_shape ht \<longleftrightarrow> length (table ht) = 2 ^ htsize ht \<and> htmask ht = 2 ^ htsize ht - 1 \<and>
     (\<forall>i<length (table ht). \<forall>b\<in>set (table ht ! i). chain_of ht (fst b) = i) \<and>
     distinct (map fst (entries ht)) \<and> numentries ht = int (length (entries ht))"

definition keys_ok :: "('k, 'v) htable_rec \<Rightarrow> bool" where
  "keys_ok ht \<longleftrightarrow> key_functions (dup_func ht) (compare_func ht)"

definition ht_inv :: "('k, 'v) htable_rec \<Rightarrow> bool" where
  "ht_inv ht \<longleftrightarrow> ht_shape ht \<and> keys_ok ht \<and> numentries ht \<le> htmask ht"

lemma chain_of_less: "htmask ht = 2 ^ htsize ht - 1 \<Longrightarrow> chain_of ht k < 2 ^ htsize ht"
proof -
  assume "htmask ht = 2 ^ htsize ht - 1"
  then have "hash_func ht k AND htmask ht = take_bit (htsize ht) (hash_func ht k)"
    by (simp add: take_bit_eq_mask mask_eq_exp_minus_1)
  then have "hash_func ht k AND htmask ht < 2 ^ htsize ht" by simp
  then show ?thesis by (simp add: chain_of_def nat_less_iff)
qed

lemma keys_okD: "keys_ok ht \<Longrightarrow> dup_func ht k = k" "keys_ok ht \<Longrightarrow> compare_func ht a b = 0 \<longleftrightarrow> a = b"
  by (simp_all add: keys_ok_def key_functions_def)

lemma concat_update:
  "i < length xss \<Longrightarrow> \<exists>ys zs. concat xss = ys @ xss ! i @ zs \<and> (\<forall>xs. concat (xss[i := xs]) = ys @ xs @ zs)"
proof (induction xss arbitrary: i)
  case (Cons xs xss)
  show ?case
  proof (cases i)
    case 0
    then show ?thesis by (intro exI[of _ "[]"] exI[of _ "concat xss"]) simp
  next
    case (Suc j)
    then have "j < length xss" using Cons.prems by simp
    from Cons.IH[OF this]
    obtain ys zs where "concat xss = ys @ xss ! j @ zs \<and> (\<forall>xs. concat (xss[j := xs]) = ys @ xs @ zs)" by blast
    then show ?thesis using Suc by (intro exI[of _ "xs @ ys"] exI[of _ zs]) simp
  qed
qed simp

text \<open>All entries of a key are in its chain.\<close>

lemma entries_split:
  fixes k :: 'k
  assumes "ht_shape ht"
  defines "i \<equiv> chain_of ht k"
  obtains ys zs where "entries ht = ys @ table ht ! i @ zs"
    "\<forall>bs. concat ((table ht)[i := bs]) = ys @ bs @ zs" "k \<notin> fst ` set ys" "k \<notin> fst ` set zs"
    "i < length (table ht)"
proof -
  have i: "i < length (table ht)" using assms chain_of_less[of ht k] by (simp add: ht_shape_def)
  obtain ys zs where yz: "entries ht = ys @ table ht ! i @ zs"
      "\<forall>bs. concat ((table ht)[i := bs]) = ys @ bs @ zs"
    using concat_update[OF i] by (auto simp: entries_def)
  have "k \<notin> fst ` (set ys \<union> set zs)"
  proof
    assume "k \<in> fst ` (set ys \<union> set zs)"
    then obtain b where b: "b \<in> set ys \<union> set zs" "fst b = k" by auto
    have "concat ((table ht)[i := []]) = ys @ zs" using yz(2) by simp
    then have "b \<in> set (concat ((table ht)[i := []]))" using b by simp
    then obtain bs where bs: "bs \<in> set ((table ht)[i := []])" "b \<in> set bs" by auto
    obtain j where j: "j < length (table ht)" "bs = (table ht)[i := []] ! j"
      using bs(1) unfolding in_set_conv_nth by auto
    have ji: "j \<noteq> i" using j bs(2) by auto
    then have "b \<in> set (table ht ! j)" using j bs(2) by simp
    then have "chain_of ht (fst b) = j" using assms(1) j(1) by (simp add: ht_shape_def)
    then show False using ji b(2) by (simp add: i_def)
  qed
  then show ?thesis using that yz i by auto
qed

lemma chain_lookup_map_of: "(\<And>a b. cmp a b = 0 \<longleftrightarrow> a = b) \<Longrightarrow> chain_lookup cmp k bs = map_of bs k"
  by (induction bs) auto

lemma sge_htable_lookup_map:
  assumes "ht_shape ht" "keys_ok ht"
  shows "sge_htable_lookup ht k = ht_map ht k"
proof -
  obtain ys zs where e: "entries ht = ys @ table ht ! chain_of ht k @ zs" "k \<notin> fst ` set ys" "k \<notin> fst ` set zs"
    using entries_split[OF assms(1)] .
  then have "map_of ys k = None" "map_of zs k = None" by (simp_all add: map_of_eq_None_iff)
  then have "ht_map ht k = map_of (table ht ! chain_of ht k) k"
    by (auto simp: ht_map_def e(1) map_add_def split: option.splits)
  then show ?thesis
    using chain_lookup_map_of[of "compare_func ht"] keys_okD(2)[OF assms(2)] by (simp add: sge_htable_lookup_def)
qed

lemma chain_replace_correct:
  assumes "\<And>a b. cmp a b = 0 \<longleftrightarrow> a = b"
  shows "chain_replace cmp k d bs = None \<longleftrightarrow> k \<notin> fst ` set bs"
    "chain_replace cmp k d bs = Some bs' \<Longrightarrow> map fst bs' = map fst bs \<and> map_of bs' = (map_of bs)(k \<mapsto> d)"
proof (induction bs arbitrary: bs')
  case Nil
  {
    case 1
    then show ?case by simp
  next
    case 2
    then show ?case by simp
  }
next
  case (Cons b bs)
  {
    case 1
    then show ?case using Cons.IH(1) assms by (cases b) auto
  next
    case 2
    then show ?case using Cons.IH(2) assms by (cases b) (auto split: if_splits)
  }
qed

lemma chain_remove_correct:
  assumes "\<And>a b. cmp a b = 0 \<longleftrightarrow> a = b" "distinct (map fst bs)"
  shows "chain_remove cmp k bs = None \<longleftrightarrow> k \<notin> fst ` set bs"
    "chain_remove cmp k bs = Some bs' \<Longrightarrow> bs' = filter (\<lambda>b. fst b \<noteq> k) bs \<and> length bs = Suc (length bs')"
  using assms(2)
proof (induction bs arbitrary: bs')
  case Nil
  {
    case 1
    then show ?case by simp
  next
    case 2
    then show ?case by simp
  }
next
  case (Cons b bs)
  {
    case 1
    then show ?case using Cons.IH(1) assms(1) by (cases b) auto
  next
    case 2
    have "k \<notin> fst ` set bs \<Longrightarrow> filter (\<lambda>b. fst b \<noteq> k) bs = bs" by (auto simp: filter_id_conv)
    then show ?case using 2 Cons.IH(2) assms(1) by (cases b) (auto split: if_splits)
  }
qed

section \<open>Resizing\<close>

lemma rehash_chains:
  assumes "\<forall>b\<in>set bs. chain_of ht (fst b) < length tab"
  shows "length (fold (rehash_bucket ht) bs tab) = length tab \<and>
    (\<forall>i<length tab. fold (rehash_bucket ht) bs tab ! i = rev (filter (\<lambda>b. chain_of ht (fst b) = i) bs) @ tab ! i)"
  using assms
proof (induction bs arbitrary: tab)
  case Nil
  then show ?case by simp
next
  case (Cons b bs)
  let ?tab = "rehash_bucket ht b tab"
  have len: "length ?tab = length tab" by (simp add: rehash_bucket_def Let_def)
  have "\<forall>b\<in>set bs. chain_of ht (fst b) < length ?tab" using Cons.prems len by simp
  note IH = Cons.IH[OF this, unfolded len]
  have nth: "?tab ! i = (if chain_of ht (fst b) = i then b # tab ! i else tab ! i)" if "i < length tab" for i
    using that by (auto simp: rehash_bucket_def Let_def)
  show ?case using IH nth by auto
qed

lemma concat_replicate_Nil [simp]: "concat (replicate n []) = []"
  by (induction n) simp_all

lemma rehash_mset:
  assumes "\<forall>b\<in>set bs. chain_of ht (fst b) < length tab"
  shows "set (concat (fold (rehash_bucket ht) bs tab)) = set bs \<union> set (concat tab) \<and>
    length (concat (fold (rehash_bucket ht) bs tab)) = length bs + length (concat tab)"
  using assms
proof (induction bs arbitrary: tab)
  case (Cons b bs)
  let ?i = "chain_of ht (fst b)"
  have i: "?i < length tab" using Cons.prems by simp
  obtain ys zs where "concat tab = ys @ tab ! ?i @ zs" "\<forall>xs. concat (tab[?i := xs]) = ys @ xs @ zs"
    using concat_update[OF i] by blast
  then have "set (concat (rehash_bucket ht b tab)) = insert b (set (concat tab))"
    "length (concat (rehash_bucket ht b tab)) = Suc (length (concat tab))"
    by (auto simp: rehash_bucket_def Let_def)
  moreover have "length (rehash_bucket ht b tab) = length tab" by (simp add: rehash_bucket_def Let_def)
  ultimately show ?case using Cons.IH[of "rehash_bucket ht b tab"] Cons.prems by auto
qed simp

lemma distinct_same_set:
  assumes "distinct xs" "set xs = set ys" "length xs = length ys"
  shows "distinct ys"
  using assms by (metis card_distinct distinct_card)

text \<open>
  Resizing keeps the entries, whether the table grows or shrinks: the result has the shape of
  a table of the new size and stands for the same map.
\<close>

lemma sge_htable_resize_correct:
  fixes grow :: bool
  assumes "ht_shape ht"
  defines "ht' \<equiv> sge_htable_resize ht grow"
  shows "ht_shape ht' \<and> ht_map ht' = ht_map ht \<and> numentries ht' = numentries ht \<and>
    dup_func ht' = dup_func ht \<and> compare_func ht' = compare_func ht \<and> hash_func ht' = hash_func ht \<and>
    htsize ht' = (if grow then htsize ht + 1 else if htsize ht > 2 then htsize ht - 1 else htsize ht)"
proof (cases "\<not> grow \<and> \<not> htsize ht > 2")
  case True
  then show ?thesis using assms by (simp add: ht'_def sge_htable_resize_def Let_def)
next
  case False
  define sz where "sz = (if grow then htsize ht + 1 else htsize ht - 1)"
  define ht1 where "ht1 = ht\<lparr>htsize := sz, htmask := 2 ^ sz - 1\<rparr>"
  define tab where "tab = fold (rehash_bucket ht1) (entries ht) (replicate (2 ^ sz) [])"
  have ht': "ht' = ht1\<lparr>table := tab\<rparr>"
    using False assms(1) unfolding ht'_def sge_htable_resize_def Let_def if_not_P[OF False]
    by (simp add: sz_def ht1_def tab_def entries_def ht_shape_def)
  have chain: "chain_of ht' = chain_of ht1" by (simp add: ht' chain_of_def fun_eq_iff)
  have less: "\<forall>b\<in>set (entries ht). chain_of ht1 (fst b) < length (replicate (2 ^ sz) [])"
    using chain_of_less[of ht1] by (simp add: ht1_def)
  have len: "length tab = 2 ^ sz" using rehash_chains[OF less] by (simp add: tab_def)
  have nth: "tab ! i = rev (filter (\<lambda>b. chain_of ht1 (fst b) = i) (entries ht))" if "i < 2 ^ sz" for i
    using rehash_chains[OF less] that by (simp add: tab_def)
  have ms: "set (concat tab) = set (entries ht)" "length (concat tab) = length (entries ht)"
    using rehash_mset[OF less] by (simp_all add: tab_def)
  have dist: "distinct (map fst (entries ht))" using assms(1) by (simp add: ht_shape_def)
  have dist': "distinct (map fst (concat tab))"
    by (rule distinct_same_set[OF dist]) (use ms in \<open>simp_all\<close>)
  have map: "map_of (concat tab) = map_of (entries ht)"
    using ms(1) map_of_eqI[of "concat tab" "entries ht"] dist dist'
    by (metis (no_types, lifting) map_of_eq_Some_iff option.exhaust ext)
  have "ht_shape ht'"
    unfolding ht_shape_def chain
  proof (intro conjI allI impI ballI)
    fix i b assume "i < length (table ht')" "b \<in> set (table ht' ! i)"
    then show "chain_of ht1 (fst b) = i" using nth len by (simp add: ht')
  qed (use assms(1) len ms dist' in \<open>simp_all add: ht' entries_def ht1_def ht_shape_def\<close>)
  moreover have "ht_map ht' = ht_map ht" using map by (simp add: ht_map_def ht' entries_def)
  ultimately show ?thesis using False by (cases grow) (simp_all add: ht' ht1_def sz_def)
qed

section \<open>Storing and deleting\<close>

lemma ht_shape_update:
  assumes "ht_shape ht" "i = chain_of ht k" "\<forall>b\<in>set bs. chain_of ht (fst b) = i"
    and "entries ht = ys @ table ht ! i @ zs" "\<forall>bs. concat ((table ht)[i := bs]) = ys @ bs @ zs"
    and "distinct (map fst (ys @ bs @ zs))" "n = int (length (ys @ bs @ zs))"
  shows "ht_shape (ht\<lparr>table := (table ht)[i := bs], numentries := n\<rparr>)" (is "ht_shape ?ht")
proof -
  have chain: "chain_of ?ht = chain_of ht" by (simp add: chain_of_def fun_eq_iff)
  show ?thesis
    unfolding ht_shape_def chain
  proof (intro conjI allI impI ballI)
    fix j b assume j: "j < length (table ?ht)" "b \<in> set (table ?ht ! j)"
    show "chain_of ht (fst b) = j"
    proof (cases "j = i")
      case True
      then show ?thesis using j assms(3) by simp
    next
      case False
      then show ?thesis using j assms(1) by (simp add: ht_shape_def)
    qed
  qed (use assms in \<open>simp_all add: ht_shape_def entries_def\<close>)
qed

text \<open>Growing keeps the number of entries below the number of chains.\<close>

lemma grow_load:
  assumes "ht_shape ht" "numentries ht \<le> htmask ht + 1"
  shows "numentries (sge_htable_resize ht True) \<le> htmask (sge_htable_resize ht True)"
proof -
  note r = sge_htable_resize_correct[OF assms(1), of True]
  have "htmask (sge_htable_resize ht True) = 2 * 2 ^ htsize ht - 1" using r by (simp add: ht_shape_def)
  moreover have "htmask ht = 2 ^ htsize ht - 1" using assms(1) by (simp add: ht_shape_def)
  moreover have "(1::int) \<le> 2 ^ htsize ht" by simp
  moreover have "numentries (sge_htable_resize ht True) = numentries ht" using r by simp
  ultimately show ?thesis using assms(2) by linarith
qed

lemma shrink_load:
  assumes "ht_shape ht" "numentries ht < drop_bit 1 (htmask ht)"
  shows "numentries (sge_htable_resize ht False) \<le> htmask (sge_htable_resize ht False)"
proof -
  note r = sge_htable_resize_correct[OF assms(1), of False]
  have m: "htmask ht = 2 ^ htsize ht - 1" using assms(1) by (simp add: ht_shape_def)
  have half: "drop_bit 1 (2 ^ Suc n - 1 :: int) = 2 ^ n - 1" for n by (simp add: drop_bit_Suc)
  have n: "numentries (sge_htable_resize ht False) = numentries ht" using r by simp
  show ?thesis
  proof (cases "htsize ht > 2")
    case True
    then obtain k where k: "htsize ht = Suc k" by (cases "htsize ht") auto
    then have "htmask (sge_htable_resize ht False) = 2 ^ k - 1" using r True by (simp add: ht_shape_def)
    then show ?thesis using assms(2) m half[of k] k n by simp
  next
    case False
    have "htmask (sge_htable_resize ht False) = htmask ht" using r m False by (simp add: ht_shape_def)
    moreover have "drop_bit 1 (htmask ht) \<le> htmask ht"
    proof -
      have "0 \<le> htmask ht" using m by simp
      then have "htmask ht div 2 \<le> htmask ht" by linarith
      then show ?thesis by (simp add: drop_bit_Suc)
    qed
    ultimately show ?thesis using assms(2) n by simp
  qed
qed

lemma map_of_filter_key: "map_of (filter (\<lambda>b. fst b \<noteq> k) bs) = (map_of bs)(k := None)"
  by (induction bs) (auto simp: fun_eq_iff)

lemma sge_htable_store_correct:
  assumes "ht_inv ht"
  shows "ht_inv (sge_htable_store ht k d) \<and> ht_map (sge_htable_store ht k d) = (ht_map ht)(k \<mapsto> d)"
proof -
  have sh: "ht_shape ht" and ok: "keys_ok ht" and load: "numentries ht \<le> htmask ht"
    using assms by (simp_all add: ht_inv_def)
  define i where "i = chain_of ht k"
  obtain ys zs where e: "entries ht = ys @ table ht ! i @ zs" and
      c: "\<forall>bs. concat ((table ht)[i := bs]) = ys @ bs @ zs" and
      out: "k \<notin> fst ` set ys" "k \<notin> fst ` set zs" and il: "i < length (table ht)"
    using entries_split[OF sh, of k] unfolding i_def .
  have chain: "\<forall>b\<in>set (table ht ! i). chain_of ht (fst b) = i" using sh il by (simp add: ht_shape_def)
  have dist: "distinct (map fst (ys @ table ht ! i @ zs))" and num: "numentries ht = int (length (entries ht))"
    using sh e by (simp_all add: ht_shape_def)
  have none: "map_of ys k = None" "map_of zs k = None" using out by (simp_all add: map_of_eq_None_iff)
  have frame: "keys_ok ht'" if "dup_func ht' = dup_func ht" "compare_func ht' = compare_func ht" for ht'
    using ok that by (simp add: keys_ok_def)
  show ?thesis
  proof (cases "chain_replace (compare_func ht) k d (table ht ! i)")
    case (Some bs)
    from chain_replace_correct(2)[OF keys_okD(2)[OF ok] Some]
    have bs: "map fst bs = map fst (table ht ! i)" "map_of bs = (map_of (table ht ! i))(k \<mapsto> d)" by simp_all
    have len: "length bs = length (table ht ! i)" using arg_cong[OF bs(1), of length] by simp
    have "fst ` set bs = fst ` set (table ht ! i)" using arg_cong[OF bs(1), of set] by simp
    then have "\<forall>b\<in>set bs. chain_of ht (fst b) = i" using chain by (metis imageE imageI)
    then have "ht_shape (ht\<lparr>table := (table ht)[i := bs], numentries := numentries ht\<rparr>)"
      by (intro ht_shape_update[OF sh i_def _ e c]) (use dist bs num e len in \<open>simp_all\<close>)
    moreover have "map_of (ys @ bs @ zs) = (map_of (ys @ table ht ! i @ zs))(k \<mapsto> d)"
      using none bs(2) by (auto simp: map_add_def fun_eq_iff split: option.splits)
    moreover have "sge_htable_store ht k d = ht\<lparr>table := (table ht)[i := bs]\<rparr>"
      using Some by (simp add: sge_htable_store_def i_def)
    ultimately show ?thesis
      using c e load frame[of "ht\<lparr>table := (table ht)[i := bs]\<rparr>"]
      by (simp add: ht_inv_def ht_map_def entries_def)
  next
    case None
    then have new: "k \<notin> fst ` set (table ht ! i)" using chain_replace_correct(1)[OF keys_okD(2)[OF ok]] by metis
    define ht1 where "ht1 = ht\<lparr>table := (table ht)[i := (k, d) # table ht ! i], numentries := numentries ht + 1\<rparr>"
    have sh1: "ht_shape ht1"
      unfolding ht1_def
      by (rule ht_shape_update[OF sh i_def _ e c]) (use chain dist new out num e in \<open>auto simp: i_def\<close>)
    have map1: "ht_map ht1 = (ht_map ht)(k \<mapsto> d)"
      using none c e by (auto simp: ht_map_def entries_def ht1_def map_add_def fun_eq_iff split: option.splits)
    have store: "sge_htable_store ht k d =
        (if numentries ht1 > htmask ht1 then sge_htable_resize ht1 True else ht1)"
      using None keys_okD(1)[OF ok]
      by (simp add: sge_htable_store_def i_def ht1_def Let_def HASH_RESIZE_UP_THRESHOLD_def)
    show ?thesis
    proof (cases "numentries ht1 > htmask ht1")
      case True
      have "numentries ht1 \<le> htmask ht1 + 1" using load by (simp add: ht1_def)
      then show ?thesis
        using True store sge_htable_resize_correct[OF sh1, of True] grow_load[OF sh1] map1
          frame[of "sge_htable_resize ht1 True"] by (simp add: ht_inv_def ht1_def)
    next
      case False
      then show ?thesis using store sh1 map1 frame[of ht1] by (simp add: ht_inv_def ht1_def)
    qed
  qed
qed

lemma sge_htable_delete_correct:
  assumes "ht_inv ht"
  shows "ht_inv (sge_htable_delete ht k) \<and> ht_map (sge_htable_delete ht k) = (ht_map ht)(k := None)"
proof -
  have sh: "ht_shape ht" and ok: "keys_ok ht" and load: "numentries ht \<le> htmask ht"
    using assms by (simp_all add: ht_inv_def)
  define i where "i = chain_of ht k"
  obtain ys zs where e: "entries ht = ys @ table ht ! i @ zs" and
      c: "\<forall>bs. concat ((table ht)[i := bs]) = ys @ bs @ zs" and
      out: "k \<notin> fst ` set ys" "k \<notin> fst ` set zs" and il: "i < length (table ht)"
    using entries_split[OF sh, of k] unfolding i_def .
  have chain: "\<forall>b\<in>set (table ht ! i). chain_of ht (fst b) = i" using sh il by (simp add: ht_shape_def)
  have dist: "distinct (map fst (ys @ table ht ! i @ zs))" and num: "numentries ht = int (length (entries ht))"
    using sh e by (simp_all add: ht_shape_def)
  have dchain: "distinct (map fst (table ht ! i))" using dist by simp
  have none: "map_of ys k = None" "map_of zs k = None" using out by (simp_all add: map_of_eq_None_iff)
  show ?thesis
  proof (cases "chain_remove (compare_func ht) k (table ht ! i)")
    case None
    then have "k \<notin> fst ` set (table ht ! i)" using chain_remove_correct(1)[OF keys_okD(2)[OF ok] dchain] by metis
    then have "ht_map ht k = None" using out e by (auto simp: ht_map_def map_of_eq_None_iff)
    then have "(ht_map ht)(k := None) = ht_map ht" by auto
    then show ?thesis using None assms by (simp add: sge_htable_delete_def i_def)
  next
    case (Some bs)
    from chain_remove_correct(2)[OF keys_okD(2)[OF ok] dchain Some]
    have bs: "bs = filter (\<lambda>b. fst b \<noteq> k) (table ht ! i)" "length (table ht ! i) = Suc (length bs)" by simp_all
    define ht1 where "ht1 = ht\<lparr>table := (table ht)[i := bs], numentries := numentries ht - 1\<rparr>"
    have "distinct (map fst (ys @ bs @ zs))" using dist by (auto simp: bs(1) distinct_map_filter)
    then have sh1: "ht_shape ht1"
      unfolding ht1_def by (intro ht_shape_update[OF sh i_def _ e c]) (use chain num e bs in \<open>auto\<close>)
    have "map_of bs = (map_of (table ht ! i))(k := None)"
      unfolding bs(1) by (rule map_of_filter_key)
    then have map1: "ht_map ht1 = (ht_map ht)(k := None)"
      using none c e by (auto simp: ht_map_def entries_def ht1_def map_add_def fun_eq_iff split: option.splits)
    have ok1: "keys_ok ht1" using ok by (simp add: keys_ok_def ht1_def)
    have del: "sge_htable_delete ht k =
        (if numentries ht1 < drop_bit 1 (htmask ht1) then sge_htable_resize ht1 False else ht1)"
      using Some by (simp add: sge_htable_delete_def i_def ht1_def Let_def HASH_RESIZE_DOWN_THRESHOLD_def)
    show ?thesis
    proof (cases "numentries ht1 < drop_bit 1 (htmask ht1)")
      case True
      then show ?thesis
        using del sge_htable_resize_correct[OF sh1, of False] shrink_load[OF sh1] map1 ok1
        by (simp add: ht_inv_def keys_ok_def)
    next
      case False
      then show ?thesis using del sh1 map1 ok1 load by (simp add: ht_inv_def ht1_def)
    qed
  qed
qed

section \<open>The table is a map\<close>

lemma ht_map_finite: "ht_shape ht \<Longrightarrow> finite (dom (ht_map ht)) \<and> numentries ht = int (card (dom (ht_map ht)))"
proof -
  assume sh: "ht_shape ht"
  have "dom (ht_map ht) = fst ` set (entries ht)" by (simp add: ht_map_def dom_map_of_conv_image_fst)
  moreover have "card (fst ` set (entries ht)) = length (entries ht)"
    using sh distinct_card[of "map fst (entries ht)"] by (simp add: ht_shape_def)
  ultimately show ?thesis using sh by (simp add: ht_shape_def)
qed

lemma lookup_ht_map: "ht_inv ht \<Longrightarrow> sge_htable_lookup ht = ht_map ht"
  by (rule ext) (simp add: ht_inv_def sge_htable_lookup_map)

interpretation ht: dict ht_inv sge_htable_lookup sge_htable_store sge_htable_delete numentries
proof unfold_locales
  fix t :: "('k, 'v) htable_rec" and k k' d
  assume t: "ht_inv t"
  note st = sge_htable_store_correct[OF t, of k d] and del = sge_htable_delete_correct[OF t, of k]
  show "sge_htable_lookup (sge_htable_store t k d) k' = (if k' = k then Some d else sge_htable_lookup t k')"
    using st t by (simp add: lookup_ht_map)
  show "sge_htable_lookup (sge_htable_delete t k) k' = (if k' = k then None else sge_htable_lookup t k')"
    using del t by (simp add: lookup_ht_map)
  show "ht_inv (sge_htable_store t k d)" "ht_inv (sge_htable_delete t k)" using st del by simp_all
  show "finite (dom (sge_htable_lookup t)) \<and> numentries t = int (card (dom (sge_htable_lookup t)))"
    using t by (simp only: lookup_ht_map[OF t]) (rule ht_map_finite, simp add: ht_inv_def)
qed

lemma sge_htable_create_correct:
  assumes "key_functions dup compare"
  shows "ht_inv (sge_htable_create sz dup hash compare)"
    "sge_htable_lookup (sge_htable_create sz dup hash compare) = Map.empty"
proof -
  let ?ht = "sge_htable_create sz dup hash compare"
  have "ht_shape ?ht" by (simp add: ht_shape_def sge_htable_create_def entries_def)
  then show inv: "ht_inv ?ht" using assms by (simp add: ht_inv_def keys_ok_def sge_htable_create_def)
  show "sge_htable_lookup ?ht = Map.empty"
    unfolding lookup_ht_map[OF inv] by (simp add: ht_map_def entries_def sge_htable_create_def)
qed

section \<open>The key functions of the code\<close>

interpretation k_uint32: key_functions dup_func_uint32_t hash_compare_uint32_t
  by unfold_locales (auto simp: dup_func_uint32_t_def hash_compare_uint32_t_def)

interpretation k_uint64: key_functions dup_func_uint64_t hash_compare_uint64_t
  by unfold_locales (auto simp: dup_func_uint64_t_def hash_compare_uint64_t_def)

interpretation k_long: key_functions dup_func_long hash_compare_long
proof unfold_locales
  fix a b :: "64 word"
  have "sint a = sint b \<longleftrightarrow> a = b" by (rule word_eq_iff_signed[symmetric])
  then show "hash_compare_long a b = 0 \<longleftrightarrow> a = b"
    by (cases "sint a" "sint b" rule: linorder_cases) (auto simp: hash_compare_long_def)
qed (simp add: dup_func_long_def)

interpretation k_pointer: key_functions dup_func_pointer hash_compare_pointer
  by unfold_locales (auto simp: dup_func_pointer_def hash_compare_pointer_def)

lemma hash_compare_string_eq: "hash_compare_string a b = 0 \<longleftrightarrow> a = b"
  by (induction a b rule: hash_compare_string.induct) auto

interpretation k_string: key_functions dup_func_string hash_compare_string
  by unfold_locales (auto simp: dup_func_string_def hash_compare_string_eq)

section \<open>The initial size\<close>

lemma hash_compute_loop_correct:
  "0 < n \<Longrightarrow> \<exists>k. hash_compute_loop n sz = sz + Suc k \<and> 2 ^ k \<le> n \<and> n < 2 ^ Suc k"
proof (induction n sz rule: hash_compute_loop.induct)
  case (1 n sz)
  have half: "drop_bit 1 n = n div 2" by (simp add: drop_bit_Suc)
  show ?case
  proof (cases "n div 2 > 0")
    case True
    then obtain k where "hash_compute_loop (n div 2) (sz + 1) = sz + 1 + Suc k" "2 ^ k \<le> n div 2" "n div 2 < 2 ^ Suc k"
      using 1 half by auto
    moreover from this(2,3) have "2 * 2 ^ k \<le> n" "n < 2 * 2 ^ Suc k" by linarith+
    ultimately show ?thesis
      using "1.prems" half by (intro exI[of _ "Suc k"]) (subst hash_compute_loop.simps, simp)
  next
    case False
    then have "n = 1" using "1.prems" by linarith
    then show ?thesis
      using half by (intro exI[of _ 0]) (simp add: hash_compute_loop.simps)
  qed
qed

end
