(* ===== verification/Htable_Props.thy ===== *)
theory Htable_Props
  imports Htable_Correct
begin

text \<open>The properties of the hash table, for tables with any lawful key functions.\<close>

unbundle bit_operations_syntax

definition string_table :: "(8 word list, nat) htable_rec" where
  \<comment> \<open>a table of one chain with string keys\<close>
  "string_table = sge_htable_create 0 dup_func_string hash_func_string hash_compare_string"

lemma string_table_inv: "ht_inv string_table"
  unfolding string_table_def using k_string.key_functions_axioms by (rule sge_htable_create_correct(1))

section \<open>The table is a map\<close>

text \<open>C37. On a table with fewer than \<open>2 ^ 30\<close> chains, \<open>sge_htable_store\<close> and \<open>sge_htable_delete\<close> change what
  \<open>sge_htable_lookup\<close> finds for their key and for no other, through growing and shrinking of the table, and
  keep the invariant: every entry in its chain, no key twice, fewer entries than chains. The numbers of
  chains they compute, as shifts of an \<^verbatim>\<open>int\<close>, stay below \<open>2 ^ 31\<close>.\<close>

theorem htable_is_map:
  assumes "ht_inv ht" "htsize ht < 30"
  shows "htsize (sge_htable_store ht k d) < 31 \<and> htsize (sge_htable_delete ht k) < 31 \<and>
    ht_inv (sge_htable_store ht k d) \<and> ht_inv (sge_htable_delete ht k) \<and>
    sge_htable_lookup (sge_htable_store ht k d) = (sge_htable_lookup ht)(k \<mapsto> d) \<and>
    sge_htable_lookup (sge_htable_delete ht k) = (sge_htable_lookup ht)(k := None)"
proof -
  have "htsize (sge_htable_store ht k d) \<le> htsize ht + 1" "htsize (sge_htable_delete ht k) \<le> htsize ht"
    by (simp_all add: sge_htable_store_def sge_htable_delete_def sge_htable_resize_def Let_def split: option.splits)
  then show ?thesis
    using ht.inv_store[OF assms(1)] ht.inv_delete[OF assms(1)] ht.lookup_store[OF assms(1)] ht.lookup_delete[OF assms(1)]
      assms(2) by (auto simp: fun_eq_iff)
qed

theorem htable_is_map_witness:
  "sge_htable_lookup (sge_htable_store string_table [97] 5) [97] = Some 5 \<and>
   ht_inv (sge_htable_store string_table [97] 5)"
  using htable_is_map[OF string_table_inv, of "[97]" 5] by (simp add: string_table_def sge_htable_create_def)

text \<open>Resizing, in either direction, moves every bucket to the chain of the new size that its
  hash value selects and loses, adds or duplicates none: the table finds the same data.\<close>

lemma htable_resize_keeps_entries:
  assumes "ht_shape ht"
  shows "ht_shape (sge_htable_resize ht grow) \<and> ht_map (sge_htable_resize ht grow) = ht_map ht \<and>
    numentries (sge_htable_resize ht grow) = numentries ht \<and>
    length (table (sge_htable_resize ht grow)) =
      (if grow then 2 * length (table ht) else if htsize ht > 2 then length (table ht) div 2 else length (table ht))"
proof -
  note r = sge_htable_resize_correct[OF assms, of grow]
  have "length (table ht) = 2 ^ htsize ht" using assms by (simp add: ht_shape_def)
  moreover have "(2::nat) ^ htsize ht div 2 = 2 ^ (htsize ht - 1)" if "htsize ht > 2"
    using that by (cases "htsize ht") auto
  ultimately show ?thesis using r by (auto simp: ht_shape_def)
qed

text \<open>The number of entries reported is the number of different keys stored and never exceeds
  the mask, so a table never has as many entries as chains: it grows with the entry that would
  fill it, while the comments say that it grows when it holds more entries than slots.\<close>

lemma htable_size_counts_keys:
  assumes "ht_inv ht"
  shows "sge_htable_get_size (Some ht) = int (card (dom (sge_htable_lookup ht))) \<and>
    sge_htable_get_size (Some ht) < int (length (table ht)) \<and>
    sge_htable_get_size (Some (sge_htable_store ht k d)) =
      sge_htable_get_size (Some ht) + (if sge_htable_lookup ht k = None then 1 else 0)"
  using ht.count_dom[OF assms] ht.count_store[OF assms, of k d] assms
  by (auto simp: sge_htable_get_size_def ht_inv_def ht_shape_def)

lemma create_store_all:
  assumes "key_functions dup cmp"
  shows "sge_htable_lookup (fold (\<lambda>(k, d) t. sge_htable_store t k d) kds (sge_htable_create sz dup hash cmp)) =
    map_of (rev kds)"
proof -
  note new = sge_htable_create_correct[OF assms, of sz hash]
  have "sge_htable_lookup (fold (\<lambda>(k, d) t. sge_htable_store t k d) kds (sge_htable_create sz dup hash cmp)) =
      sge_htable_lookup (sge_htable_create sz dup hash cmp) ++ map_of (rev kds)"
    using ht.lookup_store_all[OF new(1), of kds] by (rule conjunct2)
  then show ?thesis unfolding new(2) by simp
qed

text \<open>A new table of any initial size with any of the five sets of key functions finds nothing;
  after storing a list of pairs it finds for each key the data stored last. The comparison
  functions tell keys apart that agree in their low 32 bits.\<close>

lemma htable_key_types:
  fixes kds32 :: "(32 word \<times> 'v) list" and kds64 :: "(64 word \<times> 'v) list" and kdss :: "(8 word list \<times> 'v) list"
  shows "sge_htable_lookup (fold (\<lambda>(k, d) t. sge_htable_store t k d) kds32
      (sge_htable_create sz dup_func_uint32_t hash_func_uint32_t hash_compare_uint32_t)) = map_of (rev kds32) \<and>
    sge_htable_lookup (fold (\<lambda>(k, d) t. sge_htable_store t k d) kds64
      (sge_htable_create sz dup_func_uint64_t hash_func_uint64_t hash_compare_uint64_t)) = map_of (rev kds64) \<and>
    sge_htable_lookup (fold (\<lambda>(k, d) t. sge_htable_store t k d) kds64
      (sge_htable_create sz dup_func_long hash_func_long hash_compare_long)) = map_of (rev kds64) \<and>
    sge_htable_lookup (fold (\<lambda>(k, d) t. sge_htable_store t k d) kds64
      (sge_htable_create sz dup_func_pointer hash_func_pointer hash_compare_pointer)) = map_of (rev kds64) \<and>
    sge_htable_lookup (fold (\<lambda>(k, d) t. sge_htable_store t k d) kdss
      (sge_htable_create sz dup_func_string hash_func_string hash_compare_string)) = map_of (rev kdss)"
  by (simp add: create_store_all k_uint32.key_functions_axioms k_uint64.key_functions_axioms
      k_long.key_functions_axioms k_pointer.key_functions_axioms k_string.key_functions_axioms)

text \<open>\<open>hash_compute_size\<close> gives the number of bits of the expected number of entries: a table
  of that size takes them without growing, and the next smaller one would not.\<close>

lemma hash_compute_size_fits:
  assumes "0 < n"
  shows "n \<le> 2 ^ hash_compute_size n - 1 \<and> 2 ^ (hash_compute_size n - 1) \<le> n"
proof -
  obtain k where "hash_compute_size n = Suc k" "2 ^ k \<le> n" "n < 2 ^ Suc k"
    using hash_compute_loop_correct[OF assms, of 0] by (auto simp: hash_compute_size_def)
  then show ?thesis by simp
qed

end
