(* ===== verification/Bitfield.thy ===== *)
theory Bitfield
  imports Main "HOL-Library.Word"
begin

text \<open>
  The bit fields of \<^verbatim>\<open>source/libs/uti/sge_bitfield.cc\<close>, with which the list library marks
  changed attributes. The bits are in a buffer of bytes: eight bytes inside the structure for
  up to \<^verbatim>\<open>fixed_bits\<close> bits, an allocated buffer of just enough bytes otherwise. A null
  pointer is \<open>None\<close>; the functions that return a bool return it with the changed bit field.
  Allocation never fails in the model.
\<close>

unbundle bit_operations_syntax

section \<open>Data\<close>

record bitfield =
  bfsize :: nat
  buf :: "8 word list"

definition fixed_bits :: nat where
  "fixed_bits = 64"

definition sge_bitfield_get_size_bytes :: "nat \<Rightarrow> nat" where
  "sge_bitfield_get_size_bytes sz = sz div 8 + (if sz mod 8 > 0 then 1 else 0)"

section \<open>Operations\<close>

definition sge_bitfield_init :: "nat \<Rightarrow> bitfield" where
  "sge_bitfield_init sz =
     (let char_size = sge_bitfield_get_size_bytes sz in
      \<lparr>bfsize = sz,
       buf = (if sz \<le> fixed_bits then replicate (fixed_bits div 8) 0 else replicate char_size 0)\<rparr>)"

definition sge_bitfield_new :: "nat \<Rightarrow> bitfield" where
  "sge_bitfield_new sz = sge_bitfield_init sz"

definition memcpy_bytes :: "8 word list \<Rightarrow> 8 word list \<Rightarrow> nat \<Rightarrow> 8 word list" where
  \<comment> \<open>the target after \<^verbatim>\<open>memcpy(target, source, n)\<close>\<close>
  "memcpy_bytes target source n = take n source @ drop n target"

definition sge_bitfield_copy :: "bitfield option \<Rightarrow> bitfield option \<Rightarrow> bitfield option \<times> bool" where
  "sge_bitfield_copy source target =
     (case (source, target) of
        (Some s, Some t) \<Rightarrow>
          if bfsize s \<noteq> bfsize t then (target, False)
          else if bfsize s \<le> fixed_bits then (Some (t\<lparr>buf := buf s\<rparr>), True)
          else (Some (t\<lparr>buf := memcpy_bytes (buf t) (buf s) (sge_bitfield_get_size_bytes (bfsize s))\<rparr>), True)
      | _ \<Rightarrow> (target, False))"

definition sge_bitfield_bitwise_copy :: "bitfield option \<Rightarrow> bitfield option \<Rightarrow> bitfield option \<times> bool" where
  "sge_bitfield_bitwise_copy source target =
     (case (source, target) of
        (Some s, Some t) \<Rightarrow>
          let char_size =
            (if bfsize s > bfsize t then sge_bitfield_get_size_bytes (bfsize t)
             else sge_bitfield_get_size_bytes (bfsize s))
          in (Some (t\<lparr>buf := memcpy_bytes (buf t) (buf s) char_size\<rparr>), True)
      | _ \<Rightarrow> (target, False))"

definition sge_bitfield_changed :: "bitfield option \<Rightarrow> bool" where
  "sge_bitfield_changed bf =
     (case bf of
        None \<Rightarrow> False
      | Some b \<Rightarrow> \<exists>c\<in>set (take (sge_bitfield_get_size_bytes (bfsize b)) (buf b)). c \<noteq> 0)"

definition sge_bitfield_reset :: "bitfield option \<Rightarrow> bitfield option \<times> bool" where
  "sge_bitfield_reset bf =
     (case bf of
        None \<Rightarrow> (None, False)
      | Some b \<Rightarrow>
          if bfsize b > fixed_bits then
            (let char_size = sge_bitfield_get_size_bytes (bfsize b) in
             (Some (b\<lparr>buf := memcpy_bytes (buf b) (replicate char_size 0) char_size\<rparr>), True))
          else (Some (b\<lparr>buf := replicate (fixed_bits div 8) 0\<rparr>), True))"

definition sge_bitfield_set :: "bitfield option \<Rightarrow> nat \<Rightarrow> bitfield option \<times> bool" where
  "sge_bitfield_set bf i =
     (case bf of
        None \<Rightarrow> (None, False)
      | Some b \<Rightarrow>
          if i \<ge> bfsize b then (bf, False)
          else
            let byte_offset = i div 8; bit_offset = i mod 8 in
            (Some (b\<lparr>buf := (buf b)[byte_offset := buf b ! byte_offset OR push_bit bit_offset 1]\<rparr>), True))"

definition sge_bitfield_get :: "bitfield option \<Rightarrow> nat \<Rightarrow> bool" where
  \<comment> \<open>the byte is a \<^verbatim>\<open>char\<close>, promoted to \<^verbatim>\<open>int\<close> with its sign before the test\<close>
  "sge_bitfield_get bf i =
     (case bf of
        None \<Rightarrow> False
      | Some b \<Rightarrow> i < bfsize b \<and> sint (buf b ! (i div 8)) AND push_bit (i mod 8) 1 > 0)"

definition sge_bitfield_clear :: "bitfield option \<Rightarrow> nat \<Rightarrow> bitfield option \<times> bool" where
  "sge_bitfield_clear bf i =
     (case bf of
        None \<Rightarrow> (None, False)
      | Some b \<Rightarrow>
          if i \<ge> bfsize b then (bf, False)
          else
            let byte_offset = i div 8; bit_offset = i mod 8 in
            (Some (b\<lparr>buf := (buf b)[byte_offset := buf b ! byte_offset AND (0xff XOR push_bit bit_offset 1)]\<rparr>), True))"

definition sge_bitfield_print :: "bitfield option \<Rightarrow> string" where
  "sge_bitfield_print bf =
     (case bf of
        None \<Rightarrow> []
      | Some b \<Rightarrow> concat (map (\<lambda>i. if sge_bitfield_get bf i then ''1 '' else ''0 '') [0..<bfsize b]))"

end
