(* ===== verification/Bitfield_Props.thy ===== *)
theory Bitfield_Props
  imports Bitfield
begin

text \<open>
  Bit fields as arrays of booleans. The invariant is that the buffer is large enough; a bit
  field is clean when the bits of its last byte beyond its size are zero, which the test for
  changes relies on.
\<close>

unbundle bit_operations_syntax

section \<open>The interface\<close>

locale bit_array =
  fixes inv :: "'b \<Rightarrow> bool"
    and len :: "'b \<Rightarrow> nat"
    and get :: "'b \<Rightarrow> nat \<Rightarrow> bool"
    and set_bit :: "'b \<Rightarrow> nat \<Rightarrow> 'b"
    and clear_bit :: "'b \<Rightarrow> nat \<Rightarrow> 'b"
  assumes set_law: "inv b \<Longrightarrow> i < len b \<Longrightarrow>
      inv (set_bit b i) \<and> len (set_bit b i) = len b \<and> get (set_bit b i) = (get b)(i := True)"
    and clear_law: "inv b \<Longrightarrow> i < len b \<Longrightarrow>
      inv (clear_bit b i) \<and> len (clear_bit b i) = len b \<and> get (clear_bit b i) = (get b)(i := False)"
begin

lemma set_all:
  "inv b \<Longrightarrow> \<forall>i\<in>set is. i < len b \<Longrightarrow>
     inv (fold (\<lambda>i b. set_bit b i) is b) \<and> len (fold (\<lambda>i b. set_bit b i) is b) = len b \<and>
     get (fold (\<lambda>i b. set_bit b i) is b) = (\<lambda>i. i \<in> set is \<or> get b i)"
proof (induction "is" arbitrary: b)
  case Nil
  then show ?case by simp
next
  case (Cons i "is")
  then show ?case using set_law[of b i] Cons.IH[of "set_bit b i"] by (auto simp: fun_eq_iff)
qed

end

section \<open>Bits of a byte\<close>

definition bf_inv :: "bitfield \<Rightarrow> bool" where
  "bf_inv b \<longleftrightarrow>
     length (buf b) = (if bfsize b \<le> fixed_bits then fixed_bits div 8 else sge_bitfield_get_size_bytes (bfsize b))"

definition raw_bit :: "bitfield \<Rightarrow> nat \<Rightarrow> bool" where
  "raw_bit b i = bit (buf b ! (i div 8)) (i mod 8)"

definition clean :: "bitfield \<Rightarrow> bool" where
  "clean b \<longleftrightarrow> (\<forall>i. bfsize b \<le> i \<longrightarrow> i < 8 * sge_bitfield_get_size_bytes (bfsize b) \<longrightarrow> \<not> raw_bit b i)"

lemma and_single_pos:
  fixes x :: int
  shows "(0 < x AND push_bit n 1) \<longleftrightarrow> bit x n"
proof -
  have "x AND push_bit n 1 = (if bit x n then push_bit n 1 else 0)"
    by (rule bit_eqI) (auto simp: bit_simps)
  then show ?thesis by (simp add: push_bit_eq_mult)
qed

lemma get_raw: "sge_bitfield_get (Some b) i \<longleftrightarrow> i < bfsize b \<and> raw_bit b i"
proof -
  have "i mod 8 < 8" by simp
  then have "\<not> 7 \<le> i mod 8 \<or> i mod 8 = 7" by linarith
  then have "bit (sint (buf b ! (i div 8))) (i mod 8) = raw_bit b i"
    by (auto simp: raw_bit_def bit_simps min_def)
  then show ?thesis by (simp only: sge_bitfield_get_def and_single_pos option.case)
qed

lemma size_bytes_bound: "i < sz \<Longrightarrow> i div 8 < sge_bitfield_get_size_bytes sz"
proof -
  assume "i < sz"
  moreover have "sz = 8 * (sz div 8) + sz mod 8" "8 * (i div 8) \<le> i" "sz mod 8 < 8" by simp_all
  ultimately have "sz mod 8 = 0 \<Longrightarrow> i div 8 < sz div 8" "i div 8 < sz div 8 + 1" by linarith+
  then show ?thesis unfolding sge_bitfield_get_size_bytes_def by (cases "sz mod 8 = 0") simp_all
qed

lemma size_bytes_fixed: "sz \<le> fixed_bits \<Longrightarrow> sge_bitfield_get_size_bytes sz \<le> fixed_bits div 8"
  unfolding sge_bitfield_get_size_bytes_def fixed_bits_def by presburger

lemma bf_inv_bytes: "bf_inv b \<Longrightarrow> sge_bitfield_get_size_bytes (bfsize b) \<le> length (buf b)"
  using size_bytes_fixed[of "bfsize b"] by (simp add: bf_inv_def)

lemma bf_inv_byte: "bf_inv b \<Longrightarrow> i < bfsize b \<Longrightarrow> i div 8 < length (buf b)"
  using bf_inv_bytes size_bytes_bound order.strict_trans2 by blast

lemma same_bit_iff: "i div 8 = j div 8 \<and> i mod 8 = j mod 8 \<longleftrightarrow> i = (j::nat)"
  by (metis div_mod_decomp)

text \<open>Setting and clearing change one bit of the buffer.\<close>

lemma byte_update_raw:
  assumes "i div 8 < length (buf b)" "\<And>n. n < 8 \<Longrightarrow> bit c n = (if n = i mod 8 then v else bit (buf b ! (i div 8)) n)"
  shows "raw_bit (b\<lparr>buf := (buf b)[i div 8 := c]\<rparr>) j = (if j = i then v else raw_bit b j)"
proof (cases "j div 8 = i div 8")
  case True
  then show ?thesis using assms same_bit_iff[of j i] by (simp add: raw_bit_def)
next
  case False
  then show ?thesis by (auto simp: raw_bit_def)
qed

definition set_bf :: "bitfield \<Rightarrow> nat \<Rightarrow> bitfield" where
  "set_bf b i = (case fst (sge_bitfield_set (Some b) i) of Some b' \<Rightarrow> b' | None \<Rightarrow> b)"

definition clear_bf :: "bitfield \<Rightarrow> nat \<Rightarrow> bitfield" where
  "clear_bf b i = (case fst (sge_bitfield_clear (Some b) i) of Some b' \<Rightarrow> b' | None \<Rightarrow> b)"

lemma set_bf_correct:
  assumes "bf_inv b" "i < bfsize b"
  shows "sge_bitfield_set (Some b) i = (Some (set_bf b i), True)" "bfsize (set_bf b i) = bfsize b"
    "bf_inv (set_bf b i)" "raw_bit (set_bf b i) j = (if j = i then True else raw_bit b j)"
proof -
  define c where "c = buf b ! (i div 8) OR push_bit (i mod 8) 1"
  have eq: "sge_bitfield_set (Some b) i = (Some (b\<lparr>buf := (buf b)[i div 8 := c]\<rparr>), True)"
    using assms(2) by (simp add: sge_bitfield_set_def Let_def c_def)
  then have b': "set_bf b i = b\<lparr>buf := (buf b)[i div 8 := c]\<rparr>" by (simp add: set_bf_def)
  show "sge_bitfield_set (Some b) i = (Some (set_bf b i), True)" using eq b' by simp
  show "bfsize (set_bf b i) = bfsize b" "bf_inv (set_bf b i)" using assms(1) by (simp_all add: b' bf_inv_def)
  show "raw_bit (set_bf b i) j = (if j = i then True else raw_bit b j)"
    unfolding b' by (rule byte_update_raw[OF bf_inv_byte[OF assms]]) (auto simp: c_def bit_simps)
qed

lemma clear_bf_correct:
  assumes "bf_inv b" "i < bfsize b"
  shows "sge_bitfield_clear (Some b) i = (Some (clear_bf b i), True)" "bfsize (clear_bf b i) = bfsize b"
    "bf_inv (clear_bf b i)" "raw_bit (clear_bf b i) j = (if j = i then False else raw_bit b j)"
proof -
  define c where "c = buf b ! (i div 8) AND (0xff XOR push_bit (i mod 8) 1)"
  have eq: "sge_bitfield_clear (Some b) i = (Some (b\<lparr>buf := (buf b)[i div 8 := c]\<rparr>), True)"
    using assms(2) by (simp add: sge_bitfield_clear_def Let_def c_def)
  then have b': "clear_bf b i = b\<lparr>buf := (buf b)[i div 8 := c]\<rparr>" by (simp add: clear_bf_def)
  show "sge_bitfield_clear (Some b) i = (Some (clear_bf b i), True)" using eq b' by simp
  show "bfsize (clear_bf b i) = bfsize b" "bf_inv (clear_bf b i)" using assms(1) by (simp_all add: b' bf_inv_def)
  have ff: "(0xff :: 8 word) = mask 8" by (simp add: mask_eq_exp_minus_1)
  show "raw_bit (clear_bf b i) j = (if j = i then False else raw_bit b j)"
    unfolding b' by (rule byte_update_raw[OF bf_inv_byte[OF assms]]) (auto simp: c_def ff bit_simps)
qed

interpretation bf: bit_array bf_inv bfsize "\<lambda>b. sge_bitfield_get (Some b)" set_bf clear_bf
proof unfold_locales
  fix b i assume "bf_inv b" "i < bfsize b"
  note s = set_bf_correct[OF this] and c = clear_bf_correct[OF this]
  show "bf_inv (set_bf b i) \<and> bfsize (set_bf b i) = bfsize b \<and>
      sge_bitfield_get (Some (set_bf b i)) = (sge_bitfield_get (Some b))(i := True)"
    using s \<open>i < bfsize b\<close> by (auto simp: fun_eq_iff get_raw)
  show "bf_inv (clear_bf b i) \<and> bfsize (clear_bf b i) = bfsize b \<and>
      sge_bitfield_get (Some (clear_bf b i)) = (sge_bitfield_get (Some b))(i := False)"
    using c \<open>i < bfsize b\<close> by (auto simp: fun_eq_iff get_raw)
qed

section \<open>Changes\<close>

lemma init_correct: "bf_inv (sge_bitfield_init sz)" "\<not> raw_bit (sge_bitfield_init sz) i \<or> 8 * length (buf (sge_bitfield_init sz)) \<le> i"
proof -
  show "bf_inv (sge_bitfield_init sz)" by (simp add: bf_inv_def sge_bitfield_init_def Let_def)
  have zero: "c = 0" if "c \<in> set (buf (sge_bitfield_init sz))" for c
    using that by (auto simp: sge_bitfield_init_def Let_def split: if_splits)
  show "\<not> raw_bit (sge_bitfield_init sz) i \<or> 8 * length (buf (sge_bitfield_init sz)) \<le> i"
  proof (cases "i div 8 < length (buf (sge_bitfield_init sz))")
    case True
    then have "buf (sge_bitfield_init sz) ! (i div 8) = 0" using zero nth_mem by blast
    then show ?thesis by (simp add: raw_bit_def)
  next
    case False
    then show ?thesis by linarith
  qed
qed

text \<open>The bytes the test looks at are zero exactly when no bit in them is set.\<close>

lemma changed_raw:
  assumes "bf_inv b"
  shows "sge_bitfield_changed (Some b) \<longleftrightarrow> (\<exists>i<8 * sge_bitfield_get_size_bytes (bfsize b). raw_bit b i)"
proof -
  let ?n = "sge_bitfield_get_size_bytes (bfsize b)"
  have n: "?n \<le> length (buf b)" using bf_inv_bytes[OF assms] .
  have byte: "c \<noteq> 0 \<longleftrightarrow> (\<exists>m<8. bit c m)" for c :: "8 word" by (auto simp: bit_eq_iff)
  have "sge_bitfield_changed (Some b) \<longleftrightarrow> (\<exists>k<?n. \<exists>m<8. bit (buf b ! k) m)"
    by (auto simp: sge_bitfield_changed_def byte simp flip: nth_image[OF n])
  also have "\<dots> \<longleftrightarrow> (\<exists>i<8 * ?n. raw_bit b i)"
  proof safe
    fix k m assume k: "k < ?n" and m: "m < 8" and "bit (buf b ! k) m"
    then have "raw_bit b (8 * k + m)" by (simp add: raw_bit_def)
    moreover have "8 * k + m < 8 * ?n" using k m by linarith
    ultimately show "\<exists>i<8 * ?n. raw_bit b i" by blast
  next
    fix i assume "i < 8 * ?n" "raw_bit b i"
    then show "\<exists>k<?n. \<exists>m<8. bit (buf b ! k) m"
      by (intro exI[of _ "i div 8"] conjI exI[of _ "i mod 8"]) (auto simp: raw_bit_def less_mult_imp_div_less)
  qed
  finally show ?thesis .
qed

lemma changed_clean:
  assumes "bf_inv b" "clean b"
  shows "sge_bitfield_changed (Some b) \<longleftrightarrow> (\<exists>i. sge_bitfield_get (Some b) i)"
proof -
  have "i < 8 * sge_bitfield_get_size_bytes (bfsize b)" if "i < bfsize b" for i
    using size_bytes_bound[OF that] by linarith
  then show ?thesis
    using assms(2) unfolding changed_raw[OF assms(1)] get_raw clean_def by (meson not_le)
qed


section \<open>Properties\<close>

lemma new_clear: "\<not> sge_bitfield_get (Some (sge_bitfield_new sz)) j"
proof -
  have "j < bfsize (sge_bitfield_init sz) \<Longrightarrow> j < 8 * length (buf (sge_bitfield_init sz))"
    using bf_inv_byte[OF init_correct(1), of j sz] by linarith
  then show ?thesis using init_correct(2)[of sz j] by (auto simp: sge_bitfield_new_def get_raw)
qed

text \<open>A bit field is an array of booleans of its size: it starts with all bits clear, setting
  and clearing a bit succeed and change that bit and no other, and access beyond the size
  fails without changing anything, also when the size is no multiple of eight.\<close>

lemma bitfield_is_bit_array:
  assumes "bf_inv b"
  shows "(i < bfsize b \<longrightarrow>
      (\<exists>b'. sge_bitfield_set (Some b) i = (Some b', True) \<and> bf_inv b' \<and> bfsize b' = bfsize b \<and>
         sge_bitfield_get (Some b') = (sge_bitfield_get (Some b))(i := True)) \<and>
      (\<exists>b'. sge_bitfield_clear (Some b) i = (Some b', True) \<and> bf_inv b' \<and> bfsize b' = bfsize b \<and>
         sge_bitfield_get (Some b') = (sge_bitfield_get (Some b))(i := False))) \<and>
    (i \<ge> bfsize b \<longrightarrow> sge_bitfield_set (Some b) i = (Some b, False) \<and>
       sge_bitfield_clear (Some b) i = (Some b, False) \<and> \<not> sge_bitfield_get (Some b) i) \<and>
    bf_inv (sge_bitfield_new sz) \<and> \<not> sge_bitfield_get (Some (sge_bitfield_new sz)) j"
proof (intro conjI impI)
  assume i: "i < bfsize b"
  show "\<exists>b'. sge_bitfield_set (Some b) i = (Some b', True) \<and> bf_inv b' \<and> bfsize b' = bfsize b \<and>
      sge_bitfield_get (Some b') = (sge_bitfield_get (Some b))(i := True)"
    using bf.set_law[OF assms i] set_bf_correct(1)[OF assms i] by blast
  show "\<exists>b'. sge_bitfield_clear (Some b) i = (Some b', True) \<and> bf_inv b' \<and> bfsize b' = bfsize b \<and>
      sge_bitfield_get (Some b') = (sge_bitfield_get (Some b))(i := False)"
    using bf.clear_law[OF assms i] clear_bf_correct(1)[OF assms i] by blast
next
  assume "i \<ge> bfsize b"
  then show "sge_bitfield_set (Some b) i = (Some b, False)" "sge_bitfield_clear (Some b) i = (Some b, False)"
    "\<not> sge_bitfield_get (Some b) i"
    by (simp_all add: sge_bitfield_set_def sge_bitfield_clear_def sge_bitfield_get_def)
next
  show "bf_inv (sge_bitfield_new sz)" by (simp add: sge_bitfield_new_def init_correct)
  show "\<not> sge_bitfield_get (Some (sge_bitfield_new sz)) j" by (rule new_clear)
qed

text \<open>For a bit field without set bits beyond its size, \<open>sge_bitfield_changed\<close> answers whether
  any bit is set; a new bit field is such and setting, clearing and resetting keep it such.\<close>

lemma changed_iff_bit_set:
  assumes "bf_inv b" "clean b"
  shows "(sge_bitfield_changed (Some b) \<longleftrightarrow> (\<exists>i. sge_bitfield_get (Some b) i)) \<and>
    clean (sge_bitfield_new sz) \<and> (i < bfsize b \<longrightarrow> clean (set_bf b i) \<and> clean (clear_bf b i)) \<and>
    (\<exists>b'. sge_bitfield_reset (Some b) = (Some b', True) \<and> \<not> sge_bitfield_changed (Some b'))"
proof (intro conjI impI)
  show "sge_bitfield_changed (Some b) \<longleftrightarrow> (\<exists>i. sge_bitfield_get (Some b) i)" by (rule changed_clean[OF assms])
  have "8 * sge_bitfield_get_size_bytes sz \<le> 8 * length (buf (sge_bitfield_init sz))"
    using bf_inv_bytes[OF init_correct(1), of sz] by (simp add: sge_bitfield_init_def Let_def)
  then show "clean (sge_bitfield_new sz)"
    using init_correct(2)[of sz] unfolding clean_def sge_bitfield_new_def
    by (metis (no_types, lifting) bitfield.select_convs(1) leD le_less_trans less_le_trans sge_bitfield_init_def)
  assume i: "i < bfsize b"
  show "clean (set_bf b i)" "clean (clear_bf b i)"
    using assms(2) i set_bf_correct(2,4)[OF assms(1) i] clear_bf_correct(2,4)[OF assms(1) i]
    by (auto simp: clean_def)
next
  have "sge_bitfield_get_size_bytes (bfsize b) \<le> length (buf b)" using bf_inv_bytes[OF assms(1)] .
  then show "\<exists>b'. sge_bitfield_reset (Some b) = (Some b', True) \<and> \<not> sge_bitfield_changed (Some b')"
    by (auto simp: sge_bitfield_reset_def sge_bitfield_changed_def Let_def memcpy_bytes_def dest: in_set_takeD)
qed

text \<open>Copying a longer bit field with \<open>sge_bitfield_bitwise_copy\<close> copies whole bytes: the bits
  beyond the size of the target do not stay clear, and the target counts as changed although
  none of its bits is set.\<close>

lemma bitwise_copy_marks_unchanged_field:
  "\<exists>s t. sge_bitfield_set (Some (sge_bitfield_new 8)) 5 = (Some s, True) \<and>
     sge_bitfield_bitwise_copy (Some s) (Some (sge_bitfield_new 3)) = (Some t, True) \<and>
     sge_bitfield_changed (Some t) \<and> (\<forall>i. \<not> sge_bitfield_get (Some t) i)"
proof -
  define s where "s = \<lparr>bfsize = 8, buf = [32, 0, 0, 0, 0, 0, 0, 0 :: 8 word]\<rparr>"
  define t where "t = \<lparr>bfsize = 3, buf = [32, 0, 0, 0, 0, 0, 0, 0 :: 8 word]\<rparr>"
  have rep: "replicate 8 (0 :: 8 word) = [0, 0, 0, 0, 0, 0, 0, 0]" by (simp add: numeral_eq_Suc)
  have "sge_bitfield_set (Some (sge_bitfield_new 8)) 5 = (Some s, True)"
    by (simp add: sge_bitfield_set_def sge_bitfield_new_def sge_bitfield_init_def fixed_bits_def s_def
        Let_def rep)
  moreover have "sge_bitfield_bitwise_copy (Some s) (Some (sge_bitfield_new 3)) = (Some t, True)"
    by (simp add: sge_bitfield_bitwise_copy_def sge_bitfield_new_def sge_bitfield_init_def fixed_bits_def
        s_def t_def Let_def memcpy_bytes_def sge_bitfield_get_size_bytes_def rep)
  moreover have "sge_bitfield_changed (Some t)"
    by (simp add: sge_bitfield_changed_def t_def sge_bitfield_get_size_bytes_def)
  moreover have "\<not> sge_bitfield_get (Some t) i" for i
  proof -
    consider "i = 0" | "i = 1" | "i = 2" | "i \<ge> 3" by linarith
    then show ?thesis by cases (simp_all add: sge_bitfield_get_def t_def)
  qed
  ultimately show ?thesis by blast
qed

end
