(* ===== verification/ResourceUtilization.thy ===== *)
theory ResourceUtilization
  imports Prelude Complex_Main
begin

text \<open>
  The resource diagrams of the scheduler,
  \<^verbatim>\<open>source/libs/sched/sge_resource_utilization.cc\<close>. A diagram is a list of entries
  (\<^verbatim>\<open>RDE_Type\<close>): from its time on, until the time of the next entry, the amount of an entry is in
  use. Times are 64 bit numbers. Amounts are doubles in the code: here they are rational numbers, and
  each addition and subtraction of the code rounds its exact result with \<open>round_double\<close>, to the nearest
  double and to the even one of two; amounts beyond the range of doubles, which would be infinite, are not
  modelled. The comparison of times in \<open>utilization_endtime\<close> is done on doubles in the code and here. Topology strings, which say which cores a binding uses, are a
  type parameter with the operations of their class as arguments; a string is absent (\<open>None\<close>) when
  it is the null pointer or an empty topology. Debug output and the monitoring record are left out.
\<close>

section \<open>Data\<close>

type_synonym rsmap = "(string \<times> nat) list"

record 'b rde =
  RDE_time :: nat
  RDE_amount :: rat
  RDE_resource_map_list :: rsmap
  RDE_binding_inuse :: "'b option"

record 'b rue =
  RUE_name :: string
  RUE_utilized_now :: rat
  RUE_utilized_now_resource_map_list :: rsmap
  RUE_utilized_now_binding_inuse :: "'b option"
  RUE_utilized :: "'b rde list option"
  RUE_utilized_now_nonexclusive :: rat
  RUE_utilized_nonexclusive :: "'b rde list option"

datatype level_tag = QUEUE_TAG | HOST_TAG | GLOBAL_TAG | PE_TAG

text \<open>The class of topology strings: the text of a topology with all its nodes marked as used or
  unused, marking the nodes of one topology in another, and the utilization a binding strategy
  still allows on a host, absent when the caller passes no assignment or no host.\<close>

record 'b topology =
  all_marked :: "'b \<Rightarrow> bool \<Rightarrow> 'b"
  mark_nodes :: "'b option \<Rightarrow> 'b option \<Rightarrow> bool \<Rightarrow> 'b option"
  test_strategy :: "('b option \<Rightarrow> rat) option"

definition u64_max :: nat where
  "u64_max = 2 ^ 64 - 1"

definition DISPATCH_TIME_NOW :: nat where
  "DISPATCH_TIME_NOW = 0"

definition DISPATCH_TIME_QUEUE_END :: nat where
  "DISPATCH_TIME_QUEUE_END = u64_max"

section \<open>Times\<close>

fun bit_length :: "nat \<Rightarrow> nat" where
  "bit_length n = (if n = 0 then 0 else Suc (bit_length (n div 2)))"

declare bit_length.simps [simp del]

definition to_double :: "nat \<Rightarrow> nat" where
  \<comment> \<open>the nearest number with 53 significant bits, the even one when two are equally near\<close>
  "to_double n =
     (let e = bit_length n - 53; q = n div 2 ^ e; r = n mod 2 ^ e in
      if 2 * r < 2 ^ e \<or> (2 * r = 2 ^ e \<and> even q) then q * 2 ^ e else (q + 1) * 2 ^ e)"

definition utilization_endtime :: "nat \<Rightarrow> nat \<Rightarrow> nat" where
  "utilization_endtime start duration =
     (if to_double (to_double start + to_double duration) < to_double u64_max
      then (start + duration) mod 2 ^ 64
      else u64_max)"

section \<open>Amounts\<close>

definition round_half_even :: "rat \<Rightarrow> int" where
  "round_half_even x =
     (let n = \<lfloor>x\<rfloor>; r = x - of_int n in if r < 1 / 2 \<or> (r = 1 / 2 \<and> even n) then n else n + 1)"

definition double_exponent :: "rat \<Rightarrow> int" where
  \<comment> \<open>the exponent of the last of the 53 significant bits, bounded below for the smallest doubles\<close>
  "double_exponent x =
     (let (a, b) = quotient_of \<bar>x\<bar>;
          e = int (bit_length (nat a)) - int (bit_length (nat b));
          l = (if \<bar>x\<bar> \<ge> 2 powi e then e else e - 1)
      in max (l - 52) (- 1074))"

definition round_double :: "rat \<Rightarrow> rat" where
  "round_double x =
     (if x = 0 then 0
      else let ulp = 2 powi double_exponent x in of_int (round_half_even (x / ulp)) * ulp)"

section \<open>Resource maps\<close>

fun set_amount :: "string \<Rightarrow> nat \<Rightarrow> rsmap \<Rightarrow> rsmap" where
  "set_amount x n [] = []"
| "set_amount x n ((y, m) # ids) = (if x = y then (x, n) # ids else (y, m) # set_amount x n ids)"

fun remove_id :: "string \<Rightarrow> rsmap \<Rightarrow> rsmap" where
  "remove_id x [] = []"
| "remove_id x ((y, m) # ids) = (if x = y then ids else (y, m) # remove_id x ids)"

definition rsmap_change :: "bool \<Rightarrow> string \<times> nat \<Rightarrow> rsmap \<Rightarrow> rsmap" where
  "rsmap_change add ep ids =
     (let (x, amount) = ep in
      case map_of ids x of
        None \<Rightarrow> if \<not> add then ids else ids @ [(x, add32 0 amount)]
      | Some in_use \<Rightarrow>
          if add then set_amount x (add32 in_use amount) ids
          else if in_use > amount then set_amount x (in_use - amount) ids
          else remove_id x ids)"

definition utilization_rsmap_set :: "rsmap \<Rightarrow> rsmap \<Rightarrow> bool \<Rightarrow> rsmap" where
  \<comment> \<open>the new map of the entry\<close>
  "utilization_rsmap_set previous change add = fold (rsmap_change add) change previous"

definition utilization_rsmap_equal :: "rsmap \<Rightarrow> rsmap \<Rightarrow> bool" where
  "utilization_rsmap_equal a b \<longleftrightarrow>
     length a = length b \<and> list_all (\<lambda>(x, n). map_of b x = Some n) a"

section \<open>Finding an entry\<close>

fun split_at_time :: "nat \<Rightarrow> 'b rde list \<Rightarrow> 'b rde list \<times> 'b rde list" where
  \<comment> \<open>the entries the search passes, and the rest from where it stops\<close>
  "split_at_time t [] = ([], [])"
| "split_at_time t (e # es) =
     (if t = RDE_time e \<or> t < RDE_time e then ([], e # es)
      else let (pre, post) = split_at_time t es in (e # pre, post))"

definition utilization_find_time_or_prevstart_or_prev ::
    "nat \<Rightarrow> 'b rde list \<Rightarrow> 'b rde option \<times> 'b rde option" where
  "utilization_find_time_or_prevstart_or_prev t d =
     (let (pre, post) = split_at_time t d in
      (case post of e # _ \<Rightarrow> if t = RDE_time e then Some e else None | [] \<Rightarrow> None,
       if pre = [] then None else Some (last pre)))"

section \<open>Normalizing\<close>

definition same_state :: "'b rde \<Rightarrow> 'b rde \<Rightarrow> bool" where
  "same_state p e \<longleftrightarrow> RDE_amount p = RDE_amount e \<and> RDE_binding_inuse p = RDE_binding_inuse e \<and>
     utilization_rsmap_equal (RDE_resource_map_list p) (RDE_resource_map_list e)"

fun normalize_loop :: "'b rde \<Rightarrow> 'b rde list \<Rightarrow> 'b rde list" where
  "normalize_loop p [] = []"
| "normalize_loop p (e # es) =
     (if same_state p e then normalize_loop p es else e # normalize_loop e es)"

definition utilization_normalize :: "'b rde list \<Rightarrow> 'b rde list" where
  "utilization_normalize d =
     (case dropWhile (\<lambda>e. RDE_amount e = 0) d of
        [] \<Rightarrow> []
      | e # es \<Rightarrow> e # normalize_loop e es)"

section \<open>Booking\<close>

text \<open>\<^verbatim>\<open>TopologyString::elem_mark_nodes_as_used_or_unused\<close>: the new value of the attribute, given
  its value and the topology that the caller read from it.\<close>

definition elem_mark_nodes ::
    "'b topology \<Rightarrow> 'b option \<Rightarrow> 'b option \<Rightarrow> 'b option \<Rightarrow> bool \<Rightarrow> 'b option" where
  "elem_mark_nodes tp attr binding_now binding_to_use mark_used =
     (case binding_to_use of
        None \<Rightarrow> attr
      | Some b \<Rightarrow>
          (case binding_now of
             None \<Rightarrow> Some (all_marked tp b mark_used)
           | Some _ \<Rightarrow> mark_nodes tp binding_now binding_to_use mark_used))"

text \<open>What one booking adds: its amount, its binding and its instances of a resource map.\<close>

record 'b booking =
  utilization :: rat
  binding :: "'b option option"
  instances :: "rsmap option"

definition book_entry :: "'b topology \<Rightarrow> 'b booking \<Rightarrow> 'b rde \<Rightarrow> 'b rde" where
  \<comment> \<open>an entry inside the booked time\<close>
  "book_entry tp bk e =
     e\<lparr>RDE_amount := round_double (RDE_amount e + utilization bk),
       RDE_binding_inuse :=
         (case binding bk of
            Some to_use \<Rightarrow> elem_mark_nodes tp (RDE_binding_inuse e) (RDE_binding_inuse e) to_use True
          | None \<Rightarrow> RDE_binding_inuse e),
       RDE_resource_map_list :=
         (case instances bk of
            Some ch \<Rightarrow> utilization_rsmap_set (RDE_resource_map_list e) ch (utilization bk \<ge> 0)
          | None \<Rightarrow> RDE_resource_map_list e)\<rparr>"

definition new_start :: "'b topology \<Rightarrow> 'b booking \<Rightarrow> nat \<Rightarrow> 'b rde option \<Rightarrow> 'b rde" where
  "new_start tp bk start_time prev =
     \<lparr>RDE_time = start_time,
      RDE_amount = round_double (utilization bk + (case prev of Some p \<Rightarrow> RDE_amount p | None \<Rightarrow> 0)),
      RDE_resource_map_list =
        (case instances bk of
           Some ch \<Rightarrow> utilization_rsmap_set (case prev of Some p \<Rightarrow> RDE_resource_map_list p | None \<Rightarrow> [])
             ch (utilization bk \<ge> 0)
         | None \<Rightarrow> []),
      RDE_binding_inuse =
        (case binding bk of
           Some to_use \<Rightarrow> elem_mark_nodes tp None
             (case prev of Some p \<Rightarrow> RDE_binding_inuse p | None \<Rightarrow> None) to_use True
         | None \<Rightarrow> None)\<rparr>"

definition new_end :: "'b topology \<Rightarrow> 'b booking \<Rightarrow> nat \<Rightarrow> 'b rde \<Rightarrow> 'b rde" where
  "new_end tp bk end_time prev =
     \<lparr>RDE_time = end_time,
      RDE_amount = round_double (RDE_amount prev - utilization bk),
      RDE_resource_map_list =
        (case instances bk of
           Some ch \<Rightarrow> utilization_rsmap_set (RDE_resource_map_list prev) ch (\<not> utilization bk \<ge> 0)
         | None \<Rightarrow> []),
      RDE_binding_inuse =
        (case binding bk of
           Some to_use \<Rightarrow> elem_mark_nodes tp None (RDE_binding_inuse prev) to_use False
         | None \<Rightarrow> None)\<rparr>"

fun book_loop :: "'b topology \<Rightarrow> 'b booking \<Rightarrow> nat \<Rightarrow> 'b rde \<Rightarrow> 'b rde list \<Rightarrow> 'b rde list" where
  \<comment> \<open>the entries behind the start: those up to the end are booked, and the end is put in\<close>
  "book_loop tp bk end_time prev [] = [new_end tp bk end_time prev]"
| "book_loop tp bk end_time prev (e # es) =
     (if end_time = RDE_time e then e # es
      else if end_time < RDE_time e then new_end tp bk end_time prev # e # es
      else let e' = book_entry tp bk e in e' # book_loop tp bk end_time e' es)"

definition book_diagram ::
    "'b topology \<Rightarrow> 'b booking \<Rightarrow> nat \<Rightarrow> nat \<Rightarrow> 'b rde list \<Rightarrow> 'b rde list" where
  "book_diagram tp bk start_time end_time d =
     (let (pre, post) = split_at_time start_time d;
          (start, rest) =
            (case post of
               e # es \<Rightarrow> if start_time = RDE_time e then (book_entry tp bk e, es)
                         else (new_start tp bk start_time (if pre = [] then None else Some (last pre)), post)
             | [] \<Rightarrow> (new_start tp bk start_time (if pre = [] then None else Some (last pre)), []))
      in utilization_normalize (pre @ start # book_loop tp bk end_time start rest))"

definition utilization_add ::
    "'b topology \<Rightarrow> nat \<Rightarrow> 'b rue \<Rightarrow> nat \<Rightarrow> nat \<Rightarrow> rat \<Rightarrow> level_tag \<Rightarrow> bool \<Rightarrow> bool \<Rightarrow>
     'b option list \<Rightarrow> rsmap \<Rightarrow> 'b rue" where
  \<comment> \<open>the second argument is \<^verbatim>\<open>sconf_get_max_reservations()\<close>\<close>
  "utilization_add tp max_reservations cr start_time duration u level for_job implicit_non_exclusive
     binding_touse rsmap_inuse =
     (let diagram = (if implicit_non_exclusive then RUE_utilized_nonexclusive cr else RUE_utilized cr) in
      if for_job \<and> (max_reservations = 0 \<or> duration = 0) \<and> diagram = None then cr
      else
        let end_time = utilization_endtime start_time duration;
            handle_binding = (level = HOST_TAG \<and> RUE_name cr = ''slots'' \<and> binding_touse \<noteq> []);
            to_use = fold (\<lambda>b now. mark_nodes tp now b True) binding_touse None;
            handle_rsmap = ((level = HOST_TAG \<or> level = GLOBAL_TAG) \<and> rsmap_inuse \<noteq> []);
            bk = \<lparr>utilization = u, binding = (if handle_binding then Some to_use else None),
                  instances = (if handle_rsmap then Some rsmap_inuse else None)\<rparr>;
            d' = book_diagram tp bk start_time end_time (case diagram of None \<Rightarrow> [] | Some d \<Rightarrow> d)
        in if implicit_non_exclusive then cr\<lparr>RUE_utilized_nonexclusive := Some d'\<rparr>
           else cr\<lparr>RUE_utilized := Some d'\<rparr>)"

section \<open>The highest utilization of a window\<close>

definition increase_util_depending_on_binding :: "'b topology \<Rightarrow> 'b option \<Rightarrow> rat \<Rightarrow> rat \<Rightarrow> rat" where
  "increase_util_depending_on_binding tp binding_inuse util tot =
     (case test_strategy tp of
        Some strategy \<Rightarrow> max util (round_double (tot - strategy binding_inuse))
      | None \<Rightarrow> util)"

definition entry_util :: "'b topology \<Rightarrow> rat \<Rightarrow> 'b rde \<Rightarrow> rat" where
  \<comment> \<open>the amount of an entry, raised when it has a binding\<close>
  "entry_util tp tot e =
     (if RDE_binding_inuse e \<noteq> None
      then increase_util_depending_on_binding tp (RDE_binding_inuse e) (RDE_amount e) tot
      else RDE_amount e)"

definition queue_end_entry :: "'b rde list option \<Rightarrow> 'b rde option option" where
  \<comment> \<open>the entry that holds at the end: the last one, or the one before it when the last stands at
     the greatest time; \<open>None\<close> when that one is missing\<close>
  "queue_end_entry diagram =
     (case diagram of
        None \<Rightarrow> Some None
      | Some d \<Rightarrow>
          if d = [] then Some None
          else if RDE_time (last d) \<noteq> u64_max then Some (Some (last d))
          else if butlast d = [] then None
          else Some (Some (last (butlast d))))"

definition utilization_queue_end ::
    "'b topology \<Rightarrow> 'b rue \<Rightarrow> rat \<Rightarrow> bool \<Rightarrow> 'b option \<Rightarrow> (rat \<times> 'b option) option" where
  "utilization_queue_end tp cr tot for_excl_request binding_inuse =
     do { ep \<leftarrow> queue_end_entry (RUE_utilized cr);
          let r = (case ep of Some e \<Rightarrow> (entry_util tp tot e, RDE_binding_inuse e) | None \<Rightarrow> (0, None)) in
          do { (m, str) \<leftarrow>
                 (if for_excl_request then
                    do { ep' \<leftarrow> queue_end_entry (RUE_utilized_nonexclusive cr);
                         Some (case ep' of
                           Some e \<Rightarrow> if entry_util tp tot e > fst r
                                     then (entry_util tp tot e, RDE_binding_inuse e) else r
                         | None \<Rightarrow> r) }
                  else Some r);
               Some (m, if str \<noteq> None then str else binding_inuse) } }"

fun max_loop ::
    "'b topology \<Rightarrow> rat \<Rightarrow> nat \<Rightarrow> rat \<Rightarrow> 'b option \<Rightarrow> 'b rde list \<Rightarrow> rat \<times> 'b option" where
  \<comment> \<open>the entries behind the first, up to the end time\<close>
  "max_loop tp tot end_time m combined [] = (m, combined)"
| "max_loop tp tot end_time m combined (e # es) =
     (if end_time > RDE_time e then
        let combined' = (if RDE_binding_inuse e \<noteq> None then mark_nodes tp combined (RDE_binding_inuse e) True
                         else combined);
            candidate = (if RDE_binding_inuse e \<noteq> None
                         then increase_util_depending_on_binding tp combined' (RDE_amount e) tot
                         else RDE_amount e)
        in max_loop tp tot end_time (if candidate > m then candidate else m) combined' es
      else (m, combined))"

definition diagram_max ::
    "'b topology \<Rightarrow> rat \<Rightarrow> nat \<Rightarrow> nat \<Rightarrow> 'b option \<Rightarrow> 'b rde list \<Rightarrow> rat \<times> 'b option" where
  "diagram_max tp tot start_time end_time combined d =
     (let (pre, post) = split_at_time start_time d;
          first_entry = (\<lambda>e. (entry_util tp tot e,
            if RDE_binding_inuse e \<noteq> None then RDE_binding_inuse e else combined))
      in case post of
           e # es \<Rightarrow>
             if start_time = RDE_time e then
               (let (m, c) = first_entry e in max_loop tp tot end_time m c es)
             else if pre \<noteq> [] then
               (let (m, c) = first_entry (last pre) in max_loop tp tot end_time m c post)
             else max_loop tp tot end_time 0 combined post
         | [] \<Rightarrow>
             if pre \<noteq> [] then
               (let (m, c) = first_entry (last pre) in max_loop tp tot end_time m c [])
             else (0, combined))"

definition utilization_max ::
    "'b topology \<Rightarrow> 'b rue \<Rightarrow> nat \<Rightarrow> nat \<Rightarrow> rat \<Rightarrow> bool \<Rightarrow> 'b option \<Rightarrow> (rat \<times> 'b option) option" where
  "utilization_max tp cr start_time duration tot for_excl_request combined =
     (let end_time = utilization_endtime start_time duration in
      if start_time = DISPATCH_TIME_NOW then
        let b = RUE_utilized_now_binding_inuse cr;
            m = (if b \<noteq> None then increase_util_depending_on_binding tp b (RUE_utilized_now cr) tot
                 else RUE_utilized_now cr)
        in Some (if for_excl_request then max (RUE_utilized_now_nonexclusive cr) m else m, combined)
      else if start_time = DISPATCH_TIME_QUEUE_END then
        utilization_queue_end tp cr tot for_excl_request combined
      else
        let diagram = (\<lambda>d. case d of None \<Rightarrow> [] | Some es \<Rightarrow> es);
            (m, c) = diagram_max tp tot start_time end_time combined (diagram (RUE_utilized cr));
            (m', c') = diagram_max tp tot start_time end_time None (diagram (RUE_utilized_nonexclusive cr))
        in Some (if for_excl_request \<and> m' > m then (m', c') else (m, c)))"

definition utilization_fits_duration ::
    "'b topology \<Rightarrow> 'b rue \<Rightarrow> nat \<Rightarrow> nat \<Rightarrow> rat \<Rightarrow> rat \<Rightarrow> bool \<Rightarrow> 'b option \<Rightarrow> (bool \<times> 'b option) option" where
  "utilization_fits_duration tp cr start duration max_util tot for_excl_request binding_inuse =
     do { (peak, candidate_binding) \<leftarrow> utilization_max tp cr start duration tot for_excl_request None;
          Some (if peak > max_util then (False, binding_inuse) else (True, candidate_binding)) }"

section \<open>The first time below a limit\<close>

text \<open>The search walks backwards: the list is the diagram in reverse, \<open>ahead\<close> what the previous
  iteration has read of this entry already.\<close>

fun below_loop ::
    "'b topology \<Rightarrow> rat \<Rightarrow> rat \<Rightarrow> rat option \<Rightarrow> 'b option \<Rightarrow> 'b rde list \<Rightarrow> nat \<times> 'b option" where
  "below_loop tp tot max_util ahead combined [] = (DISPATCH_TIME_NOW, combined)"
| "below_loop tp tot max_util ahead combined (e # ps) =
     (let b = RDE_binding_inuse e;
          (util, combined') =
            (case ahead of
               None \<Rightarrow> (entry_util tp tot e, if b \<noteq> None then b else combined)
             | Some u \<Rightarrow> (u, if b \<noteq> None then mark_nodes tp combined b True else combined))
      in
      if util \<le> max_util then
        (case ps of
           [] \<Rightarrow> (DISPATCH_TIME_NOW, combined')
         | p # _ \<Rightarrow>
             let pb = RDE_binding_inuse p;
                 u = (if pb \<noteq> None
                      then increase_util_depending_on_binding tp (mark_nodes tp pb combined' True) (RDE_amount p) tot
                      else RDE_amount p)
             in if u > max_util then (RDE_time e, combined')
                else below_loop tp tot max_util (Some u) combined' ps)
      else below_loop tp tot max_util ahead combined' ps)"

fun window_loop ::
    "(nat \<Rightarrow> (bool \<times> 'b option) option) \<Rightarrow> nat \<Rightarrow> nat \<Rightarrow> 'b option \<Rightarrow> 'b rde list \<Rightarrow> (nat \<times> 'b option) option" where
  \<comment> \<open>the first entry between now and the time found so far at which the job fits\<close>
  "window_loop fits now when combined [] = Some (when, combined)"
| "window_loop fits now when combined (e # es) =
     (if RDE_time e \<le> now then window_loop fits now when combined es
      else if RDE_time e \<ge> when then Some (when, combined)
      else do { (ok, b) \<leftarrow> fits (RDE_time e);
                if ok then Some (RDE_time e, b) else window_loop fits now when combined es })"

definition utilization_below ::
    "'b topology \<Rightarrow> (nat \<times> nat) option \<Rightarrow> 'b rue \<Rightarrow> rat \<Rightarrow> rat \<Rightarrow> bool \<Rightarrow> 'b option \<Rightarrow> (nat \<times> 'b option) option" where
  \<comment> \<open>the second argument is the assignment: its \<^verbatim>\<open>now\<close> and its \<^verbatim>\<open>duration\<close>\<close>
  "utilization_below tp a cr max_util tot for_excl_request combined =
     (let entries = (\<lambda>d. case d of None \<Rightarrow> [] | Some es \<Rightarrow> es);
          (when1, c1) = below_loop tp tot max_util None combined (rev (entries (RUE_utilized cr)));
          (when2, c2) = below_loop tp tot max_util None None (rev (entries (RUE_utilized_nonexclusive cr)));
          (when, c) = (if for_excl_request \<and> when2 > when1 then (when2, c2) else (when1, c1))
      in
      case a of
        None \<Rightarrow> Some (when, c)
      | Some (now, duration) \<Rightarrow>
          if when \<noteq> DISPATCH_TIME_NOW \<and> duration > 0 then
            do { (ok, b) \<leftarrow> utilization_fits_duration tp cr now duration max_util tot for_excl_request c;
                 (earlier, b') \<leftarrow>
                   (if ok then Some (now, b)
                    else window_loop (\<lambda>t. utilization_fits_duration tp cr t duration max_util tot for_excl_request c)
                           now when c (entries (RUE_utilized cr)));
                 Some (if earlier < when then earlier else when, b') }
          else Some (when, c))"

end
