(* ===== verification/ResourceUtilization_Correct.thy ===== *)
theory ResourceUtilization_Correct
  imports ResourceUtilization
begin

text \<open>
  A diagram stands for the function \<open>usage\<close> from times to amounts. Booking adds its amount inside
  the booked time and nothing outside, and keeps the entries in order and the diagram normal;
  the maximum of a window is the maximum of the function, and the first time below a limit is one
  from which the function stays below it.
\<close>

section \<open>Times\<close>

lemma to_double_le: "to_double n \<le> 3 * n"
proof -
  let ?e = "bit_length n - 53"
  have n: "n div 2 ^ ?e * 2 ^ ?e + n mod 2 ^ ?e = n" by (rule div_mult_mod_eq)
  show ?thesis
  proof (cases "2 * (n mod 2 ^ ?e) < 2 ^ ?e")
    case True
    then have "to_double n = n div 2 ^ ?e * 2 ^ ?e" by (simp add: to_double_def Let_def)
    then show ?thesis using n by simp
  next
    case False
    have "to_double n \<le> (n div 2 ^ ?e + 1) * 2 ^ ?e" by (auto simp: to_double_def Let_def)
    also have "\<dots> = n div 2 ^ ?e * 2 ^ ?e + 2 ^ ?e" by simp
    also have "\<dots> \<le> n div 2 ^ ?e * 2 ^ ?e + 2 * (n mod 2 ^ ?e)" using False by simp
    also have "\<dots> \<le> 3 * n" using n by simp
    finally show ?thesis .
  qed
qed

lemma endtime_bound: "utilization_endtime s d \<le> u64_max"
proof -
  have "(s + d) mod 2 ^ 64 \<le> u64_max" unfolding u64_max_def by simp
  then show ?thesis unfolding utilization_endtime_def by (simp split: if_split)
qed

lemma endtime_later:
  assumes "s < 2 ^ 63" "0 < d" "d < 2 ^ 63"
  shows "s < utilization_endtime s d"
  using assms by (auto simp: utilization_endtime_def u64_max_def)

lemma bit_length_le: "n < 2 ^ k \<Longrightarrow> bit_length n \<le> k"
proof (induction n arbitrary: k rule: bit_length.induct)
  case (1 n)
  show ?case
  proof (cases "n = 0")
    case False
    then obtain j where j: "k = Suc j" using "1.prems" by (cases k) auto
    then have "n div 2 < 2 ^ j" using "1.prems" by (simp add: less_mult_imp_div_less mult.commute)
    then show ?thesis using "1.IH"[OF False, of j] False j by (subst bit_length.simps) simp
  qed (simp add: bit_length.simps)
qed

lemma bit_length_gt: "n < 2 ^ bit_length n"
proof (induction n rule: bit_length.induct)
  case (1 n)
  show ?case
  proof (cases "n = 0")
    case False
    then have "n div 2 < 2 ^ bit_length (n div 2)" by (rule "1.IH")
    then show ?thesis using False by (subst bit_length.simps) auto
  qed simp
qed

lemma bit_length_ge: "0 < n \<Longrightarrow> 2 ^ (bit_length n - 1) \<le> n"
proof (induction n rule: bit_length.induct)
  case (1 n)
  show ?case
  proof (cases "n div 2 = 0")
    case True
    then have "n = 1" using "1.prems" by auto
    then show ?thesis by (simp add: bit_length.simps)
  next
    case False
    then have "2 ^ (bit_length (n div 2) - 1) \<le> n div 2" using "1.IH" "1.prems" by simp
    moreover have "bit_length n - 1 = Suc (bit_length (n div 2) - 1)"
      using False "1.prems" by (subst bit_length.simps) (simp add: bit_length.simps[of "n div 2"])
    ultimately show ?thesis by simp
  qed
qed

lemma to_double_big:
  assumes "2 ^ 64 \<le> n"
  shows "2 ^ 64 \<le> to_double n"
proof -
  let ?e = "bit_length n - 53"
  have big: "64 < bit_length n"
  proof (rule ccontr)
    assume "\<not> ?thesis"
    then have "n < 2 ^ 64"
      using bit_length_gt[of n] power_increasing[of "bit_length n" 64 "2 :: nat"] by linarith
    then show False using assms by simp
  qed
  have "(2 :: nat) ^ 64 \<le> 2 ^ (bit_length n - 1)" by (rule power_increasing) (use big in simp_all)
  also have "\<dots> = 2 ^ (bit_length n - 1 - ?e) * 2 ^ ?e" by (subst power_add[symmetric]) (use big in simp)
  also have "\<dots> \<le> n div 2 ^ ?e * 2 ^ ?e"
  proof (rule mult_right_mono)
    have "2 ^ (bit_length n - 1 - ?e) = 2 ^ (bit_length n - 1) div (2 :: nat) ^ ?e"
      using big by (subst power_diff) simp_all
    also have "\<dots> \<le> n div 2 ^ ?e" using bit_length_ge[of n] assms by (intro div_le_mono) simp
    finally show "2 ^ (bit_length n - 1 - ?e) \<le> n div 2 ^ ?e" .
  qed simp
  also have "\<dots> \<le> to_double n" by (simp add: to_double_def Let_def)
  finally show ?thesis .
qed

lemma to_double_u64_max: "to_double u64_max = 2 ^ 64"
proof -
  have "bit_length 18446744073709551615 = 64" by (simp add: bit_length.simps)
  then show ?thesis by (simp add: to_double_def u64_max_def Let_def)
qed

text \<open>An infinite duration ends at the greatest time.\<close>

lemma endtime_infinite: "utilization_endtime s u64_max = u64_max"
proof -
  have "2 ^ 64 \<le> to_double (to_double s + to_double u64_max)"
    by (rule to_double_big) (simp add: to_double_u64_max)
  then show ?thesis by (simp add: utilization_endtime_def to_double_u64_max)
qed

section \<open>Rounding of amounts\<close>

lemma round_half_even_int: "round_half_even (of_int z) = z"
  by (simp add: round_half_even_def)

text \<open>Doubles hold integers below \<open>2 ^ 53\<close> exactly.\<close>

lemma round_double_int:
  assumes "\<bar>z\<bar> < 2 ^ 53"
  shows "round_double (of_int z) = of_int z"
proof (cases "z = 0")
  case False
  have q: "quotient_of \<bar>of_int z\<bar> = (\<bar>z\<bar>, 1)"
    using quotient_of_int[of "\<bar>z\<bar>"] by (simp add: of_int_abs[symmetric] del: of_int_abs)
  have "nat \<bar>z\<bar> < 2 ^ 53" using assms by (simp add: nat_less_iff)
  then have "bit_length (nat \<bar>z\<bar>) \<le> 53" by (rule bit_length_le)
  then have "double_exponent (of_int z) \<le> 0"
    unfolding double_exponent_def q by (simp add: Let_def bit_length.simps[of "Suc 0"] bit_length.simps[of 0])
  then obtain k :: nat where k: "double_exponent (of_int z) = - int k"
    by (metis int_nat_eq minus_equation_iff neg_0_le_iff_le)
  have "of_int z / (2 powi (- int k)) = (of_int (z * 2 ^ k) :: rat)"
    by (simp add: power_int_minus field_simps)
  then have "round_double (of_int z) = of_int (z * 2 ^ k) * 2 powi (- int k)"
    unfolding round_double_def Let_def k by (simp only: round_half_even_int) (simp add: False)
  also have "\<dots> = of_int z" by (simp add: power_int_minus)
  finally show ?thesis .
qed (simp add: round_double_def)

lemma round_double_Ints: "x \<in> \<int> \<Longrightarrow> \<bar>x\<bar> < 2 ^ 53 \<Longrightarrow> round_double x = x"
proof (erule Ints_cases)
  fix z :: int
  assume "\<bar>x\<bar> < 2 ^ 53" "x = of_int z"
  then have "of_int \<bar>z\<bar> < (of_int (2 ^ 53) :: rat)" by simp
  then have "\<bar>z\<bar> < 2 ^ 53" by (simp only: of_int_less_iff)
  then show "round_double x = x" using round_double_int \<open>x = of_int z\<close> by simp
qed

text \<open>Amounts to which \<open>u\<close> can be added and from which it can be taken again without rounding.\<close>

definition exact_amounts :: "rat \<Rightarrow> rat set \<Rightarrow> bool" where
  "exact_amounts u A \<longleftrightarrow> (\<forall>a\<in>A. round_double (a + u) = a + u \<and> round_double a = a)"

lemma exact_amountsD:
  "exact_amounts u A \<Longrightarrow> a \<in> A \<Longrightarrow> round_double (a + u) = a + u"
  "exact_amounts u A \<Longrightarrow> a \<in> A \<Longrightarrow> round_double (u + a) = a + u"
  "exact_amounts u A \<Longrightarrow> a \<in> A \<Longrightarrow> round_double a = a"
  by (auto simp: exact_amounts_def add.commute)

lemma exact_amounts_subset: "exact_amounts u A \<Longrightarrow> B \<subseteq> A \<Longrightarrow> exact_amounts u B"
  by (auto simp: exact_amounts_def)

text \<open>A booking of a whole amount into a diagram of whole amounts.\<close>

definition whole_amounts :: "rat \<Rightarrow> 'b rde list \<Rightarrow> bool" where
  "whole_amounts u d \<longleftrightarrow> u \<in> \<int> \<and> \<bar>u\<bar> < 2 ^ 53 \<and> (\<forall>e\<in>set d. RDE_amount e \<in> \<int> \<and> \<bar>RDE_amount e\<bar> + \<bar>u\<bar> < 2 ^ 53)"

lemma whole_amounts_exact: "whole_amounts u d \<Longrightarrow> exact_amounts u (insert 0 (RDE_amount ` set d))"
  unfolding exact_amounts_def whole_amounts_def
  by (auto intro!: round_double_Ints)

section \<open>The function of a diagram\<close>

fun usage_from :: "rat \<Rightarrow> 'b rde list \<Rightarrow> nat \<Rightarrow> rat" where
  "usage_from v [] t = v"
| "usage_from v (e # es) t = (if RDE_time e \<le> t then usage_from (RDE_amount e) es t else v)"

definition usage :: "'b rde list \<Rightarrow> nat \<Rightarrow> rat" where
  "usage d = usage_from 0 d"

definition in_order :: "'b rde list \<Rightarrow> bool" where
  "in_order d \<longleftrightarrow> sorted_wrt (\<lambda>a b. RDE_time a < RDE_time b) d"

lemma in_order_simps [simp]:
  "in_order []" "in_order (e # es) \<longleftrightarrow> (\<forall>x\<in>set es. RDE_time e < RDE_time x) \<and> in_order es"
  by (simp_all add: in_order_def)

lemma in_order_append:
  "in_order (xs @ ys) \<longleftrightarrow> in_order xs \<and> in_order ys \<and> (\<forall>x\<in>set xs. \<forall>y\<in>set ys. RDE_time x < RDE_time y)"
  by (simp add: in_order_def sorted_wrt_append)

lemma usage_before: "\<forall>e\<in>set es. t < RDE_time e \<Longrightarrow> usage_from v es t = v"
  by (cases es) simp_all

lemma usage_append_stop:
  "\<forall>e\<in>set ys. t < RDE_time e \<Longrightarrow> usage_from v (xs @ ys) t = usage_from v xs t"
  by (induction xs arbitrary: v) (simp_all add: usage_before)

definition last_amount :: "rat \<Rightarrow> 'b rde list \<Rightarrow> rat" where
  "last_amount v xs = (if xs = [] then v else RDE_amount (last xs))"

lemma usage_append_pass:
  "\<forall>e\<in>set xs. RDE_time e \<le> t \<Longrightarrow> usage_from v (xs @ ys) t = usage_from (last_amount v xs) ys t"
  by (induction xs arbitrary: v) (simp_all add: last_amount_def)

lemma split_at_time_correct:
  assumes "split_at_time t d = (pre, post)"
  shows "d = pre @ post" "\<forall>e\<in>set pre. RDE_time e < t" "post \<noteq> [] \<Longrightarrow> t \<le> RDE_time (hd post)"
proof -
  have "d = pre @ post \<and> (\<forall>e\<in>set pre. RDE_time e < t) \<and> (post \<noteq> [] \<longrightarrow> t \<le> RDE_time (hd post))"
    using assms
  proof (induction d arbitrary: pre)
    case (Cons e d)
    obtain pre' post' where s: "split_at_time t d = (pre', post')" by fastforce
    show ?case
    proof (cases "t \<le> RDE_time e")
      case True
      then show ?thesis using Cons.prems by (auto simp: le_less)
    next
      case False
      then have "pre = e # pre'" "post = post'" using Cons.prems s by (auto simp: not_le)
      then show ?thesis using Cons.IH[of pre'] s False by auto
    qed
  qed simp
  then show "d = pre @ post" "\<forall>e\<in>set pre. RDE_time e < t" "post \<noteq> [] \<Longrightarrow> t \<le> RDE_time (hd post)"
    by simp_all
qed

lemma split_at_time_post:
  assumes "in_order d" "split_at_time t d = (pre, post)"
  shows "\<forall>e\<in>set post. t \<le> RDE_time e" "in_order pre" "in_order post"
proof -
  note s = split_at_time_correct[OF assms(2)]
  show io: "in_order pre" "in_order post" using assms(1) by (simp_all add: s(1) in_order_append)
  show "\<forall>e\<in>set post. t \<le> RDE_time e"
  proof (cases post)
    case (Cons e es)
    then show ?thesis using s(3) io(2) by fastforce
  qed simp
qed

section \<open>Normalizing\<close>

lemma normalize_loop_subset: "set (normalize_loop p es) \<subseteq> set es"
  by (induction p es rule: normalize_loop.induct) auto

lemma normalize_loop_in_order: "in_order es \<Longrightarrow> in_order (normalize_loop p es)"
proof (induction p es rule: normalize_loop.induct)
  case (2 p e es)
  then show ?case using normalize_loop_subset[of e es] by auto
qed simp

lemma normalize_loop_usage:
  "in_order es \<Longrightarrow> usage_from (RDE_amount p) (normalize_loop p es) t = usage_from (RDE_amount p) es t"
proof (induction p es rule: normalize_loop.induct)
  case (2 p e es)
  show ?case
  proof (cases "same_state p e")
    case True
    then have amt: "RDE_amount p = RDE_amount e" by (simp add: same_state_def)
    show ?thesis
    proof (cases "RDE_time e \<le> t")
      case True
      then show ?thesis using 2 amt \<open>same_state p e\<close> by simp
    next
      case False
      then have "\<forall>x\<in>set es. t < RDE_time x" using 2(3) by auto
      then have "usage_from (RDE_amount p) es t = RDE_amount p" by (rule usage_before)
      then show ?thesis using 2 False \<open>same_state p e\<close> by simp
    qed
  next
    case False
    then show ?thesis using 2 by simp
  qed
qed simp

lemma drop_zero_usage:
  "in_order d \<Longrightarrow> usage_from 0 (dropWhile (\<lambda>e. RDE_amount e = 0) d) t = usage_from 0 d t"
proof (induction d)
  case (Cons e d)
  show ?case
  proof (cases "RDE_amount e = 0 \<and> \<not> RDE_time e \<le> t")
    case True
    then have "\<forall>x\<in>set d. t < RDE_time x" using Cons.prems by auto
    then have "usage_from 0 d t = 0" by (rule usage_before)
    then show ?thesis using Cons True by simp
  next
    case False
    then show ?thesis using Cons by auto
  qed
qed simp

lemma dropWhile_in_order: "in_order d \<Longrightarrow> in_order (dropWhile P d)"
  by (induction d) auto

lemma utilization_normalize_usage: "in_order d \<Longrightarrow> usage (utilization_normalize d) t = usage d t"
proof -
  assume d: "in_order d"
  let ?d = "dropWhile (\<lambda>e. RDE_amount e = 0) d"
  have "usage d t = usage_from 0 ?d t" unfolding usage_def by (rule drop_zero_usage[OF d, symmetric])
  moreover have "usage (utilization_normalize d) t = usage_from 0 ?d t"
  proof (cases ?d)
    case (Cons e es)
    then have "in_order (e # es)" using dropWhile_in_order[OF d, of "\<lambda>e. RDE_amount e = 0"] by simp
    then show ?thesis
      using normalize_loop_usage[of es e t] by (simp add: usage_def utilization_normalize_def Cons)
  next
    case Nil
    then show ?thesis unfolding usage_def utilization_normalize_def Nil by simp
  qed
  ultimately show ?thesis by simp
qed

text \<open>A normal diagram starts with an amount and has no two neighbours in the same state.\<close>

definition normal :: "'b rde list \<Rightarrow> bool" where
  "normal d \<longleftrightarrow> (d \<noteq> [] \<longrightarrow> RDE_amount (hd d) \<noteq> 0) \<and> successively (\<lambda>a b. \<not> same_state a b) d"

lemma normalize_loop_normal: "successively (\<lambda>a b. \<not> same_state a b) (p # normalize_loop p es)"
  by (induction p es rule: normalize_loop.induct) auto

lemma utilization_normalize_normal: "normal (utilization_normalize d)"
proof (cases "dropWhile (\<lambda>e. RDE_amount e = 0) d")
  case (Cons e es)
  then have "RDE_amount e \<noteq> 0" using hd_dropWhile[of "\<lambda>e. RDE_amount e = 0" d] by auto
  then show ?thesis
    using normalize_loop_normal[of e es] by (simp add: normal_def utilization_normalize_def Cons)
next
  case Nil
  then show ?thesis unfolding normal_def utilization_normalize_def Nil by simp
qed

lemma utilization_normalize_in_order: "in_order d \<Longrightarrow> in_order (utilization_normalize d)"
proof (cases "dropWhile (\<lambda>e. RDE_amount e = 0) d")
  case (Cons e es)
  assume d: "in_order d"
  then have "in_order (e # es)" using dropWhile_in_order[OF d, of "\<lambda>e. RDE_amount e = 0"] Cons by simp
  then show ?thesis
    using normalize_loop_subset[of e es] normalize_loop_in_order[of es e]
    by (auto simp: utilization_normalize_def Cons)
next
  case Nil
  then show ?thesis unfolding utilization_normalize_def Nil by simp
qed

section \<open>Booking\<close>

lemma book_entry_simps [simp]:
  "RDE_time (book_entry tp bk e) = RDE_time e" 
  "RDE_amount (book_entry tp bk e) = round_double (RDE_amount e + utilization bk)"
  by (simp_all add: book_entry_def)

lemma new_start_simps [simp]:
  "RDE_time (new_start tp bk t p) = t"
  "RDE_amount (new_start tp bk t p) =
     round_double (utilization bk + (case p of Some p \<Rightarrow> RDE_amount p | None \<Rightarrow> 0))"
  by (simp_all add: new_start_def)

lemma new_end_simps [simp]:
  "RDE_time (new_end tp bk t p) = t" 
  "RDE_amount (new_end tp bk t p) = round_double (RDE_amount p - utilization bk)"
  by (simp_all add: new_end_def)

lemma book_loop_usage:
  "RDE_amount p = v + utilization bk \<Longrightarrow> exact_amounts (utilization bk) (insert v (RDE_amount ` set es)) \<Longrightarrow>
   usage_from (v + utilization bk) (book_loop tp bk end_time p es) t =
     usage_from v es t + (if t < end_time then utilization bk else 0)"
proof (induction tp bk end_time p es arbitrary: v rule: book_loop.induct)
  case (1 tp bk end_time prev)
  then show ?case using exact_amountsD(3)[OF "1.prems"(2)] by simp
next
  case (2 tp bk end_time prev e es)
  consider "end_time = RDE_time e" | "end_time < RDE_time e" | "RDE_time e < end_time" by linarith
  then show ?case
  proof cases
    case 3
    have e: "round_double (RDE_amount e + utilization bk) = RDE_amount e + utilization bk"
      by (rule exact_amountsD(1)[OF "2.prems"(2)]) simp
    have "exact_amounts (utilization bk) (insert (RDE_amount e) (RDE_amount ` set es))"
      by (rule exact_amounts_subset[OF "2.prems"(2)]) auto
    then show ?thesis using 3 "2.IH"[of _ "RDE_amount e"] e by (simp add: Let_def)
  qed (use "2.prems"(1) exact_amountsD(3)[OF "2.prems"(2), of v] in simp_all)
qed

lemma book_loop_in_order:
  "in_order es \<Longrightarrow> \<forall>e\<in>set es. RDE_time p < RDE_time e \<Longrightarrow> RDE_time p < end_time \<Longrightarrow>
   in_order (book_loop tp bk end_time p es) \<and> (\<forall>e\<in>set (book_loop tp bk end_time p es). RDE_time p < RDE_time e)"
proof (induction tp bk end_time p es rule: book_loop.induct)
  case (2 tp bk end_time prev e es)
  consider "end_time = RDE_time e" | "end_time < RDE_time e" | "RDE_time e < end_time" by linarith
  then show ?case
  proof cases
    case 3
    then have "in_order (book_loop tp bk end_time (book_entry tp bk e) es) \<and>
        (\<forall>x\<in>set (book_loop tp bk end_time (book_entry tp bk e) es). RDE_time e < RDE_time x)"
      using "2.IH"[of "book_entry tp bk e"] "2.prems"(1) by simp
    then show ?thesis using 3 "2.prems"(2) by (auto simp: Let_def)
  qed (use "2.prems" in \<open>auto intro: less_trans\<close>)
qed simp

text \<open>The diagram before it is normalized.\<close>

lemma book_diagram_cases:
  assumes "split_at_time s d = (pre, post)" "in_order d"
    and exact: "exact_amounts (utilization bk) (insert 0 (RDE_amount ` set d))"
  obtains start rest where
    "book_diagram tp bk s e d = utilization_normalize (pre @ start # book_loop tp bk e start rest)"
    "RDE_time start = s" "RDE_amount start = usage d s + utilization bk"
    "in_order rest" "\<forall>x\<in>set rest. s < RDE_time x"
    "\<forall>t. s \<le> t \<longrightarrow> usage d t = usage_from (usage d s) rest t"
    "exact_amounts (utilization bk) (insert (usage d s) (RDE_amount ` set rest))"
proof -
  note sp = split_at_time_correct[OF assms(1)] split_at_time_post[OF assms(2,1)]
  have pre: "\<forall>x\<in>set pre. RDE_time x \<le> t" if "s \<le> t" for t using sp(2) that by fastforce
  have u: "usage d t = usage_from (last_amount 0 pre) post t" if "s \<le> t" for t
    unfolding usage_def sp(1) by (rule usage_append_pass[OF pre[OF that]])
  define p where "p = (if pre = [] then None else Some (last pre))"
  have p: "(case p of Some x \<Rightarrow> RDE_amount x | None \<Rightarrow> 0) = last_amount 0 pre"
    by (simp add: p_def last_amount_def)
  show ?thesis
  proof (cases "post \<noteq> [] \<and> s = RDE_time (hd post)")
    case True
    then obtain x xs where post: "post = x # xs" "s = RDE_time x" by (cases post) auto
    have "usage_from (RDE_amount x) xs s = RDE_amount x"
      by (rule usage_before) (use sp(6) post in auto)
    then have us: "usage d s = RDE_amount x" using u[of s] post by simp
    show ?thesis
    proof (rule that[of "book_entry tp bk x" xs])
      show "book_diagram tp bk s e d = utilization_normalize (pre @ book_entry tp bk x # book_loop tp bk e (book_entry tp bk x) xs)"
        unfolding book_diagram_def assms(1) using post by simp
      show "\<forall>t. s \<le> t \<longrightarrow> usage d t = usage_from (usage d s) xs t"
        unfolding us using u post by simp
      show "exact_amounts (utilization bk) (insert (usage d s) (RDE_amount ` set xs))"
        unfolding us by (rule exact_amounts_subset[OF exact]) (use arg_cong[OF sp(1), of set] post in auto)
      show "RDE_amount (book_entry tp bk x) = usage d s + utilization bk"
        unfolding us using exact_amountsD(1)[OF exact, of "RDE_amount x"] arg_cong[OF sp(1), of set] post by simp
    qed (use sp(6) post us in auto)
  next
    case False
    then have later: "\<forall>x\<in>set post. s < RDE_time x"
      using sp(4,6) by (cases post) (auto intro: le_neq_trans)
    then have us: "usage d s = last_amount 0 pre" using u[of s] by (simp add: usage_before)
    show ?thesis
    proof (rule that[of "new_start tp bk s p" post])
      show "book_diagram tp bk s e d = utilization_normalize (pre @ new_start tp bk s p # book_loop tp bk e (new_start tp bk s p) post)"
        unfolding book_diagram_def assms(1) using False by (cases post) (auto simp: p_def)
      show "\<forall>t. s \<le> t \<longrightarrow> usage d t = usage_from (usage d s) post t" unfolding us using u by simp
      have mem: "last_amount 0 pre \<in> insert 0 (RDE_amount ` set d)"
        by (auto simp: last_amount_def sp(1))
      then show "exact_amounts (utilization bk) (insert (usage d s) (RDE_amount ` set post))"
        unfolding us by (intro exact_amounts_subset[OF exact]) (use arg_cong[OF sp(1), of set] in auto)
      show "RDE_amount (new_start tp bk s p) = usage d s + utilization bk"
        using exact_amountsD(2)[OF exact mem] by (simp add: us p)
    qed (use later sp(6) us p in simp_all)
  qed
qed

lemma book_diagram_correct:
  assumes "in_order d" "s < e" "exact_amounts (utilization bk) (insert 0 (RDE_amount ` set d))"
  shows "in_order (book_diagram tp bk s e d)" "normal (book_diagram tp bk s e d)"
    "usage (book_diagram tp bk s e d) t = usage d t + (if s \<le> t \<and> t < e then utilization bk else 0)"
proof -
  obtain pre post where sp: "split_at_time s d = (pre, post)" by fastforce
  note pr = split_at_time_correct[OF sp] split_at_time_post[OF assms(1) sp]
  obtain start rest where b:
    "book_diagram tp bk s e d = utilization_normalize (pre @ start # book_loop tp bk e start rest)"
    "RDE_time start = s" "RDE_amount start = usage d s + utilization bk"
    "in_order rest" "\<forall>x\<in>set rest. s < RDE_time x"
    "\<forall>t. s \<le> t \<longrightarrow> usage d t = usage_from (usage d s) rest t"
    "exact_amounts (utilization bk) (insert (usage d s) (RDE_amount ` set rest))"
    using book_diagram_cases[OF sp assms(1,3), of tp e] .
  define L where "L = book_loop tp bk e start rest"
  have L: "in_order L" "\<forall>x\<in>set L. s < RDE_time x"
    using book_loop_in_order[of rest start e tp bk] b(2,4,5) assms(2) by (simp_all add: L_def)
  have io: "in_order (pre @ start # L)"
    using pr(2,5) L b(2) by (auto simp: in_order_append intro: less_trans)
  show "in_order (book_diagram tp bk s e d)" "normal (book_diagram tp bk s e d)"
    unfolding b(1) L_def[symmetric] by (rule utilization_normalize_in_order[OF io], rule utilization_normalize_normal)
  have "usage (pre @ start # L) t = usage d t + (if s \<le> t \<and> t < e then utilization bk else 0)"
  proof (cases "s \<le> t")
    case True
    have pre: "\<forall>x\<in>set pre. RDE_time x \<le> t" using pr(2) True by (meson less_imp_le order_trans)
    have "usage (pre @ start # L) t = usage_from (last_amount 0 pre) (start # L) t"
      unfolding usage_def by (rule usage_append_pass[OF pre])
    also have "\<dots> = usage_from (RDE_amount start) L t"
      by (simp only: usage_from.simps b(2) True if_True)
    also have "\<dots> = usage_from (usage d s) rest t + (if t < e then utilization bk else 0)"
      unfolding b(3) L_def by (rule book_loop_usage[OF b(3,7)])
    finally show ?thesis using True b(6)[rule_format, OF True] by simp
  next
    case False
    have "usage (pre @ start # L) t = usage_from 0 pre t"
      unfolding usage_def by (rule usage_append_stop) (use False L(2) b(2) in auto)
    moreover have "usage d t = usage_from 0 pre t"
      unfolding usage_def pr(1) by (rule usage_append_stop) (use False pr(4) in auto)
    ultimately show ?thesis using False by simp
  qed
  then show "usage (book_diagram tp bk s e d) t = usage d t + (if s \<le> t \<and> t < e then utilization bk else 0)"
    unfolding b(1) L_def[symmetric] utilization_normalize_usage[OF io] .
qed


text \<open>The two diagrams of a utilization: the jobs that do not share the resource exclusively have one of
  their own.\<close>

definition diagram_of :: "bool \<Rightarrow> 'b rue \<Rightarrow> 'b rde list" where
  "diagram_of ne cr =
     (case (if ne then RUE_utilized_nonexclusive cr else RUE_utilized cr) of None \<Rightarrow> [] | Some d \<Rightarrow> d)"

lemma utilization_add_diagrams:
  fixes cr :: "'b rue"
  assumes "for_job \<Longrightarrow> (max_reservations \<noteq> 0 \<and> duration \<noteq> 0) \<or>
      (if ne then RUE_utilized_nonexclusive cr else RUE_utilized cr) \<noteq> None"
  obtains bk where "utilization bk = u"
    "diagram_of ne (utilization_add tp max_reservations cr s duration u level for_job ne bs ids) =
       book_diagram tp bk s (utilization_endtime s duration) (diagram_of ne cr)"
    "diagram_of (\<not> ne) (utilization_add tp max_reservations cr s duration u level for_job ne bs ids) =
       diagram_of (\<not> ne) cr"
proof -
  define bk where "bk = \<lparr>utilization = u,
    binding = (if level = HOST_TAG \<and> RUE_name cr = ''slots'' \<and> bs \<noteq> []
      then Some (fold (\<lambda>b now. mark_nodes tp now b True) bs None) else None),
    instances = (if (level = HOST_TAG \<or> level = GLOBAL_TAG) \<and> ids \<noteq> [] then Some ids else None)\<rparr>"
  have "\<not> (for_job \<and> (max_reservations = 0 \<or> duration = 0) \<and>
      (if ne then RUE_utilized_nonexclusive cr else RUE_utilized cr) = None)" using assms by auto
  then have add: "utilization_add tp max_reservations cr s duration u level for_job ne bs ids =
    (let d' = book_diagram tp bk s (utilization_endtime s duration) (diagram_of ne cr) in
     if ne then cr\<lparr>RUE_utilized_nonexclusive := Some d'\<rparr> else cr\<lparr>RUE_utilized := Some d'\<rparr>)"
    unfolding utilization_add_def Let_def bk_def diagram_of_def by (simp only: if_False)
  show ?thesis
    by (rule that[of bk]) (simp add: bk_def, unfold add Let_def, simp_all add: diagram_of_def)
qed

section \<open>The highest utilization of a window\<close>

lemma increase_util_ge: "util \<le> increase_util_depending_on_binding tp b util tot"
  by (simp add: increase_util_depending_on_binding_def split: option.split)

lemma entry_util_ge: "RDE_amount e \<le> entry_util tp tot e"
  by (simp add: entry_util_def increase_util_ge)

lemma max_loop_ge: "m \<le> fst (max_loop tp tot end_time m c es)"
proof (induction tp tot end_time m c es rule: max_loop.induct)
  case (2 tp tot end_time m c e es)
  show ?case
  proof (cases "end_time > RDE_time e")
    case True
    show ?thesis using "2.IH"[OF True refl refl] by (simp add: Let_def True split: if_splits)
  qed simp
qed simp

lemma max_loop_bound:
  "v \<le> m \<Longrightarrow> t < end_time \<Longrightarrow> usage_from v es t \<le> fst (max_loop tp tot end_time m c es)"
proof (induction es arbitrary: v m c)
  case (Cons e es)
  show ?case
  proof (cases "end_time > RDE_time e")
    case True
    define c' where "c' = (if RDE_binding_inuse e \<noteq> None then mark_nodes tp c (RDE_binding_inuse e) True else c)"
    define candidate where "candidate =
      (if RDE_binding_inuse e \<noteq> None then increase_util_depending_on_binding tp c' (RDE_amount e) tot else RDE_amount e)"
    let ?m = "if candidate > m then candidate else m"
    have l: "max_loop tp tot end_time m c (e # es) = max_loop tp tot end_time ?m c' es"
      by (simp add: True c'_def candidate_def Let_def)
    have "RDE_amount e \<le> candidate" by (simp add: candidate_def increase_util_ge)
    then have m: "RDE_amount e \<le> ?m" "v \<le> ?m" using Cons.prems(1) by auto
    show ?thesis
    proof (cases "RDE_time e \<le> t")
      case True
      then show ?thesis unfolding l using Cons.IH[OF m(1) Cons.prems(2), of c'] by simp
    next
      case False
      then show ?thesis unfolding l using order_trans[OF m(2) max_loop_ge[of ?m tp tot end_time c' es]] by simp
    qed
  next
    case False
    then show ?thesis using Cons.prems by simp
  qed
qed simp

lemma max_loop_attained:
  assumes "\<forall>e\<in>set es. RDE_binding_inuse e = None"
  shows "fst (max_loop tp tot end_time m c es) = m \<or>
    (\<exists>e\<in>set es. RDE_time e < end_time \<and> RDE_amount e = fst (max_loop tp tot end_time m c es))"
  using assms
proof (induction es arbitrary: m c)
  case (Cons e es)
  show ?case
  proof (cases "end_time > RDE_time e")
    case True
    let ?m = "if RDE_amount e > m then RDE_amount e else m"
    have "max_loop tp tot end_time m c (e # es) = max_loop tp tot end_time ?m c es"
      using Cons.prems True by simp
    then show ?thesis using Cons.IH[of ?m c] Cons.prems True by (auto split: if_splits)
  qed simp
qed simp

lemma usage_from_entry: "in_order es \<Longrightarrow> e \<in> set es \<Longrightarrow> usage_from v es (RDE_time e) = RDE_amount e"
proof (induction es arbitrary: v)
  case (Cons x es)
  show ?case
  proof (cases "e = x")
    case True
    then show ?thesis using Cons.prems(1) by (simp add: usage_before)
  next
    case False
    then have "e \<in> set es" "RDE_time x \<le> RDE_time e" using Cons.prems by (auto intro: less_imp_le)
    then show ?thesis using Cons.IH Cons.prems(1) by simp
  qed
qed simp

text \<open>The search splits the diagram into the amount at the start of the window and the entries behind
  it.\<close>

lemma diagram_max_cases:
  assumes "in_order d"
  obtains m c' rest where
    "diagram_max tp tot s end_time c d = max_loop tp tot end_time m c' rest"
    "set rest \<subseteq> set d" "in_order rest" "\<forall>e\<in>set rest. s < RDE_time e" "usage d s \<le> m"
    "\<forall>t\<ge>s. usage d t = usage_from (usage d s) rest t"
    "(\<forall>e\<in>set d. RDE_binding_inuse e = None) \<longrightarrow> usage d s = m"
proof -
  obtain pre post where split: "split_at_time s d = (pre, post)" by fastforce
  note sp = split_at_time_correct[OF split] split_at_time_post[OF assms split]
  have pre: "\<forall>x\<in>set pre. RDE_time x \<le> t" if "s \<le> t" for t using sp(2) that by fastforce
  have u: "usage d t = usage_from (last_amount 0 pre) post t" if "s \<le> t" for t
    unfolding usage_def sp(1) by (rule usage_append_pass[OF pre[OF that]])
  define fc where "fc = (\<lambda>e :: 'a rde. if RDE_binding_inuse e \<noteq> None then RDE_binding_inuse e else c)"
  show ?thesis
  proof (cases "post \<noteq> [] \<and> s = RDE_time (hd post)")
    case True
    then obtain x xs where post: "post = x # xs" "s = RDE_time x" by (cases post) auto
    have "usage_from (RDE_amount x) xs s = RDE_amount x"
      by (rule usage_before) (use sp(6) post in auto)
    then have us: "usage d s = RDE_amount x" using u[of s] post by simp
    show ?thesis
    proof (rule that[of "entry_util tp tot x" "fc x" xs])
      show "diagram_max tp tot s end_time c d = max_loop tp tot end_time (entry_util tp tot x) (fc x) xs"
        unfolding diagram_max_def split Let_def fc_def using post by simp
      show "\<forall>t\<ge>s. usage d t = usage_from (usage d s) xs t" unfolding us using u post by simp
      show "usage d s \<le> entry_util tp tot x" unfolding us by (rule entry_util_ge)
      show "(\<forall>e\<in>set d. RDE_binding_inuse e = None) \<longrightarrow> usage d s = entry_util tp tot x"
        unfolding us using post sp(1) by (simp add: entry_util_def)
    qed (use sp(1,6) post in auto)
  next
    case False
    then have later: "\<forall>x\<in>set post. s < RDE_time x"
      using sp(4,6) by (cases post) (auto intro: le_neq_trans)
    then have us: "usage d s = last_amount 0 pre" using u[of s] by (simp add: usage_before)
    define m where "m = (if pre = [] then 0 else entry_util tp tot (last pre))"
    define c' where "c' = (if pre = [] then c else fc (last pre))"
    show ?thesis
    proof (rule that[of m c' post])
      show "diagram_max tp tot s end_time c d = max_loop tp tot end_time m c' post"
        unfolding diagram_max_def split Let_def m_def c'_def fc_def using False by (cases post) simp_all
      show "\<forall>t\<ge>s. usage d t = usage_from (usage d s) post t" unfolding us using u by simp
      show "usage d s \<le> m" unfolding us m_def last_amount_def by (simp add: entry_util_ge)
      show "(\<forall>e\<in>set d. RDE_binding_inuse e = None) \<longrightarrow> usage d s = m"
        unfolding us m_def last_amount_def using sp(1) by (simp add: entry_util_def)
    qed (use sp(1,6) later in auto)
  qed
qed

lemma diagram_max_bound:
  assumes "in_order d" "s \<le> t" "t < end_time"
  shows "usage d t \<le> fst (diagram_max tp tot s end_time c d)"
proof -
  obtain m c' rest where r:
    "diagram_max tp tot s end_time c d = max_loop tp tot end_time m c' rest"
    "set rest \<subseteq> set d" "in_order rest" "\<forall>e\<in>set rest. s < RDE_time e" "usage d s \<le> m"
    "\<forall>t\<ge>s. usage d t = usage_from (usage d s) rest t"
    "(\<forall>e\<in>set d. RDE_binding_inuse e = None) \<longrightarrow> usage d s = m"
    using diagram_max_cases[OF assms(1), of tp tot s end_time c] .
  show ?thesis
    unfolding r(1) r(6)[rule_format, OF assms(2)] by (rule max_loop_bound[OF r(5) assms(3)])
qed

lemma diagram_max_attained:
  assumes "in_order d" "s < end_time" "\<forall>e\<in>set d. RDE_binding_inuse e = None"
  shows "\<exists>t. s \<le> t \<and> t < end_time \<and> usage d t = fst (diagram_max tp tot s end_time c d)"
proof -
  obtain m c' rest where r:
    "diagram_max tp tot s end_time c d = max_loop tp tot end_time m c' rest"
    "set rest \<subseteq> set d" "in_order rest" "\<forall>e\<in>set rest. s < RDE_time e" "usage d s \<le> m"
    "\<forall>t\<ge>s. usage d t = usage_from (usage d s) rest t"
    "(\<forall>e\<in>set d. RDE_binding_inuse e = None) \<longrightarrow> usage d s = m"
    using diagram_max_cases[OF assms(1), of tp tot s end_time c] .
  have "\<forall>e\<in>set rest. RDE_binding_inuse e = None" using assms(3) r(2) by auto
  from max_loop_attained[OF this] consider
    "fst (diagram_max tp tot s end_time c d) = m" |
    e where "e \<in> set rest" "RDE_time e < end_time" "RDE_amount e = fst (diagram_max tp tot s end_time c d)"
    unfolding r(1) by blast
  then show ?thesis
  proof cases
    case 1
    then show ?thesis using mp[OF r(7) assms(3)] assms(2) by (intro exI[of _ s]) simp
  next
    case 2
    have le: "s \<le> RDE_time e" using 2(1) r(4) by (simp add: less_imp_le)
    have "usage d (RDE_time e) = RDE_amount e"
      using r(6)[rule_format, OF le] usage_from_entry[OF r(3) 2(1)] by simp
    then show ?thesis using 2 le by (intro exI[of _ "RDE_time e"]) simp
  qed
qed

section \<open>The first time below a limit\<close>

lemma endtime_exact:
  assumes "s + d < 2 ^ 60"
  shows "utilization_endtime s d = s + d"
proof -
  have b: "bit_length 18446744073709551615 = 64" by (simp add: bit_length.simps)
  have "to_double (to_double s + to_double d) \<le> 3 * (3 * s + 3 * d)"
    using to_double_le[of "to_double s + to_double d"] to_double_le[of s] to_double_le[of d] by simp
  also have "\<dots> < to_double u64_max" using assms by (simp add: to_double_def u64_max_def b Let_def)
  finally show ?thesis using assms by (simp add: utilization_endtime_def)
qed

text \<open>What the backward search has found, on the reversed diagram: either everything is below the
  limit, or the time of an entry behind one that is not.\<close>

lemma below_loop_found:
  assumes "ps \<noteq> [] \<Longrightarrow> (case ahead of None \<Rightarrow> entry_util tp tot (hd ps) \<le> mx
             | Some u \<Rightarrow> RDE_amount (hd ps) \<le> u \<and> u \<le> mx)"
  shows "(fst (below_loop tp tot mx ahead c ps) = 0 \<and> (\<forall>e\<in>set ps. RDE_amount e \<le> mx)) \<or>
    (\<exists>qs e p rs. ps = qs @ e # p # rs \<and> fst (below_loop tp tot mx ahead c ps) = RDE_time e \<and>
       (\<forall>x\<in>set (e # qs). RDE_amount x \<le> mx) \<and> (RDE_binding_inuse p = None \<longrightarrow> RDE_amount p > mx))"
  using assms
proof (induction ps arbitrary: ahead c)
  case (Cons e ps)
  define c' where "c' = (case ahead of
      None \<Rightarrow> if RDE_binding_inuse e \<noteq> None then RDE_binding_inuse e else c
    | Some u \<Rightarrow> if RDE_binding_inuse e \<noteq> None then mark_nodes tp c (RDE_binding_inuse e) True else c)"
  have le: "(case ahead of None \<Rightarrow> entry_util tp tot e | Some u \<Rightarrow> u) \<le> mx"
    using Cons.prems by (simp split: option.splits)
  have amt: "RDE_amount e \<le> mx"
    using Cons.prems order_trans[OF entry_util_ge[of e tp tot]] by (auto split: option.splits)
  show ?case
  proof (cases ps)
    case Nil
    then show ?thesis using le amt by (auto simp: DISPATCH_TIME_NOW_def Let_def split: option.splits)
  next
    case (Cons p rs)
    define u where "u = (if RDE_binding_inuse p \<noteq> None
      then increase_util_depending_on_binding tp (mark_nodes tp (RDE_binding_inuse p) c' True) (RDE_amount p) tot
      else RDE_amount p)"
    have u: "RDE_amount p \<le> u" by (simp add: u_def increase_util_ge)
    have step: "below_loop tp tot mx ahead c (e # ps) =
        (if u > mx then (RDE_time e, c') else below_loop tp tot mx (Some u) c' ps)"
      using le unfolding Cons by (subst below_loop.simps(2), cases ahead)
        (simp_all del: below_loop.simps add: Let_def c'_def u_def)
    show ?thesis
    proof (cases "u > mx")
      case True
      then have k: "fst (below_loop tp tot mx ahead c (e # ps)) = RDE_time e \<and> e # ps = [] @ e # p # rs \<and>
          (RDE_binding_inuse p = None \<longrightarrow> RDE_amount p > mx)"
        unfolding step by (auto simp: Cons u_def)
      show ?thesis
        by (rule disjI2, rule exI[of _ "[]"], rule exI[of _ e], rule exI[of _ p], rule exI[of _ rs])
          (use k amt in \<open>auto simp del: below_loop.simps\<close>)
    next
      case False
      have "(fst (below_loop tp tot mx (Some u) c' ps) = 0 \<and> (\<forall>e\<in>set ps. RDE_amount e \<le> mx)) \<or>
        (\<exists>qs e p rs. ps = qs @ e # p # rs \<and> fst (below_loop tp tot mx (Some u) c' ps) = RDE_time e \<and>
           (\<forall>x\<in>set (e # qs). RDE_amount x \<le> mx) \<and> (RDE_binding_inuse p = None \<longrightarrow> RDE_amount p > mx))"
        by (rule Cons.IH) (use u False in \<open>simp add: Cons\<close>)
      then show ?thesis
      proof (elim disjE exE conjE)
        fix qs e' p' rs'
        assume k: "ps = qs @ e' # p' # rs'" "fst (below_loop tp tot mx (Some u) c' ps) = RDE_time e'"
          "\<forall>x\<in>set (e' # qs). RDE_amount x \<le> mx" "RDE_binding_inuse p' = None \<longrightarrow> RDE_amount p' > mx"
        show ?thesis unfolding step
          by (rule disjI2, rule exI[of _ "e # qs"], rule exI[of _ e'], rule exI[of _ p'], rule exI[of _ rs'])
            (use k False amt in \<open>simp del: below_loop.simps\<close>)
      qed (use False amt in \<open>unfold step, simp\<close>)
    qed
  qed
qed (simp add: DISPATCH_TIME_NOW_def)

lemma usage_from_le: "v \<le> mx \<Longrightarrow> \<forall>e\<in>set es. RDE_amount e \<le> mx \<Longrightarrow> usage_from v es t \<le> mx"
  by (induction es arbitrary: v) simp_all

lemma below_loop_correct:
  assumes "in_order d" "0 \<le> mx" "d \<noteq> [] \<Longrightarrow> entry_util tp tot (last d) \<le> mx"
    "w = fst (below_loop tp tot mx None c (rev d))"
  shows "w \<le> t \<Longrightarrow> usage d t \<le> mx"
    "w \<noteq> 0 \<Longrightarrow> w \<in> RDE_time ` set d"
    "w \<noteq> 0 \<Longrightarrow> \<forall>e\<in>set d. RDE_binding_inuse e = None \<Longrightarrow> mx < usage d (w - 1)"
proof -
  have "(w = 0 \<and> (\<forall>e\<in>set (rev d). RDE_amount e \<le> mx)) \<or>
    (\<exists>qs e p rs. rev d = qs @ e # p # rs \<and> w = RDE_time e \<and>
       (\<forall>x\<in>set (e # qs). RDE_amount x \<le> mx) \<and> (RDE_binding_inuse p = None \<longrightarrow> RDE_amount p > mx))"
    unfolding assms(4) by (rule below_loop_found) (use assms(3) in \<open>simp add: hd_rev\<close>)
  then consider "w = 0" "\<forall>e\<in>set d. RDE_amount e \<le> mx" |
    qs e p rs where "rev d = qs @ e # p # rs" "w = RDE_time e" "\<forall>x\<in>set (e # qs). RDE_amount x \<le> mx"
      "RDE_binding_inuse p = None \<longrightarrow> RDE_amount p > mx"
    by (metis set_rev)
  then have "(w \<le> t \<longrightarrow> usage d t \<le> mx) \<and> (w \<noteq> 0 \<longrightarrow> w \<in> RDE_time ` set d) \<and>
    (w \<noteq> 0 \<longrightarrow> (\<forall>e\<in>set d. RDE_binding_inuse e = None) \<longrightarrow> mx < usage d (w - 1))"
  proof cases
    case 1
    then show ?thesis using usage_from_le[OF assms(2)] by (simp add: usage_def)
  next
    case 2
    have d: "d = rev rs @ p # e # rev qs" using arg_cong[OF 2(1), of rev] by simp
    note io = assms(1)[unfolded d in_order_append in_order_simps]
    have "usage d t \<le> mx" if "w \<le> t"
    proof -
      have pre: "\<forall>x\<in>set (rev rs @ [p]). RDE_time x \<le> t"
        using io that unfolding 2(2) by (auto intro: less_imp_le order_trans)
      have "usage d t = usage_from (RDE_amount p) (e # rev qs) t"
        using usage_append_pass[OF pre, of 0 "e # rev qs"] by (simp add: usage_def d last_amount_def)
      also have "\<dots> = usage_from (RDE_amount e) (rev qs) t" using that 2(2) by simp
      also have "\<dots> \<le> mx" by (rule usage_from_le) (use 2(3) in simp_all)
      finally show ?thesis .
    qed
    moreover have "usage d (w - 1) = RDE_amount p" if "w \<noteq> 0"
    proof -
      have lt: "RDE_time p \<le> w - 1" "w - 1 < RDE_time e" using io that unfolding 2(2) by auto
      have pre: "\<forall>x\<in>set (rev rs @ [p]). RDE_time x \<le> w - 1"
        using io lt(1) by (auto intro: less_imp_le order_trans)
      show ?thesis
        using usage_append_pass[OF pre, of 0 "e # rev qs"] lt by (simp add: usage_def d last_amount_def)
    qed
    ultimately show ?thesis using 2(2,4) by (auto simp: d)
  qed
  then show "w \<le> t \<Longrightarrow> usage d t \<le> mx" "w \<noteq> 0 \<Longrightarrow> w \<in> RDE_time ` set d"
    "w \<noteq> 0 \<Longrightarrow> \<forall>e\<in>set d. RDE_binding_inuse e = None \<Longrightarrow> mx < usage d (w - 1)"
    by blast+
qed

text \<open>The peak of a window before the end of the diagram.\<close>

lemma utilization_max_before_end:
  assumes "start \<noteq> DISPATCH_TIME_NOW" "start \<noteq> DISPATCH_TIME_QUEUE_END"
  shows "\<exists>c'. utilization_max tp cr start duration tot for_excl c =
    Some (if for_excl
          then max (fst (diagram_max tp tot start (utilization_endtime start duration) c (diagram_of False cr)))
                   (fst (diagram_max tp tot start (utilization_endtime start duration) None (diagram_of True cr)))
          else fst (diagram_max tp tot start (utilization_endtime start duration) c (diagram_of False cr)), c')"
proof -
  obtain m c1 where 1: "diagram_max tp tot start (utilization_endtime start duration) c (diagram_of False cr) = (m, c1)"
    by fastforce
  obtain m' c2 where 2: "diagram_max tp tot start (utilization_endtime start duration) None (diagram_of True cr) = (m', c2)"
    by fastforce
  have "utilization_max tp cr start duration tot for_excl c = Some (if for_excl \<and> m' > m then (m', c2) else (m, c1))"
    using assms 1 2 unfolding utilization_max_def diagram_of_def Let_def by simp
  then show ?thesis unfolding 1 2 by (auto simp: max_def)
qed

lemma fits_duration_iff:
  assumes "start \<noteq> DISPATCH_TIME_NOW" "start \<noteq> DISPATCH_TIME_QUEUE_END"
  shows "\<exists>b. utilization_fits_duration tp cr start duration mx tot for_excl c =
    Some (fst (diagram_max tp tot start (utilization_endtime start duration) None (diagram_of False cr)) \<le> mx \<and>
          (for_excl \<longrightarrow>
            fst (diagram_max tp tot start (utilization_endtime start duration) None (diagram_of True cr)) \<le> mx), b)"
  using utilization_max_before_end[OF assms, of tp cr duration tot for_excl None]
  unfolding utilization_fits_duration_def by auto

text \<open>A window that is said to fit stays below the limit; without bindings one that stays below it is
  said to fit.\<close>

lemma fits_duration_sound:
  assumes "start \<noteq> DISPATCH_TIME_NOW" "start \<noteq> DISPATCH_TIME_QUEUE_END"
    "in_order (diagram_of False cr)" "in_order (diagram_of True cr)"
    "utilization_fits_duration tp cr start duration mx tot for_excl c = Some (True, b)"
    "start \<le> t" "t < utilization_endtime start duration"
  shows "usage (diagram_of False cr) t \<le> mx" "for_excl \<Longrightarrow> usage (diagram_of True cr) t \<le> mx"
  using fits_duration_iff[OF assms(1,2), of tp cr duration mx tot for_excl c] assms(5)
    order_trans[OF diagram_max_bound[OF assms(3,6,7), of tp tot None]]
    order_trans[OF diagram_max_bound[OF assms(4,6,7), of tp tot None]]
  by auto

lemma fits_duration_complete:
  assumes "start \<noteq> DISPATCH_TIME_NOW" "start \<noteq> DISPATCH_TIME_QUEUE_END"
    "in_order (diagram_of False cr)" "\<forall>e\<in>set (diagram_of False cr). RDE_binding_inuse e = None"
    "start < utilization_endtime start duration"
    "\<forall>t. start \<le> t \<and> t < utilization_endtime start duration \<longrightarrow> usage (diagram_of False cr) t \<le> mx"
  obtains b where "utilization_fits_duration tp cr start duration mx tot False c = Some (True, b)"
proof -
  have "fst (diagram_max tp tot start (utilization_endtime start duration) None (diagram_of False cr)) \<le> mx"
    using diagram_max_attained[OF assms(3,5,4), of tp tot None] assms(6) by auto
  then show ?thesis
    using fits_duration_iff[OF assms(1,2), of tp cr duration mx tot False c] that by auto
qed

lemma window_loop_total:
  assumes "\<And>t. t \<in> RDE_time ` set es \<Longrightarrow> now < t \<Longrightarrow> fits t \<noteq> None"
  shows "window_loop fits now when c es \<noteq> None"
  using assms
proof (induction es)
  case (Cons e es)
  show ?case
  proof (cases "RDE_time e \<le> now \<or> when \<le> RDE_time e")
    case False
    then obtain ok b where "fits (RDE_time e) = Some (ok, b)" using Cons.prems[of "RDE_time e"] by auto
    then show ?thesis using Cons False by auto
  qed (use Cons in auto)
qed simp

lemma window_loop_found:
  assumes "window_loop fits now when c es = Some (w, b)"
  shows "w = when \<or> (now < w \<and> w < when \<and> w \<in> RDE_time ` set es \<and> fits w = Some (True, b))"
  using assms
  by (induction es) (auto split: if_splits bind_splits prod.splits)

lemma window_loop_earliest:
  assumes "window_loop fits now when c es = Some (w, b)" "in_order es"
    "t \<in> RDE_time ` set es" "now < t" "t < w" "w \<le> when"
  shows "\<exists>b. fits t = Some (False, b)"
  using assms
proof (induction es)
  case (Cons e es)
  show ?case
  proof (cases "RDE_time e \<le> now")
    case True
    then show ?thesis using Cons by auto
  next
    case False
    then obtain ok b' where f: "RDE_time e < when" "fits (RDE_time e) = Some (ok, b')"
      using Cons.prems by (fastforce split: if_splits bind_splits)
    show ?thesis
    proof (cases "t = RDE_time e")
      case True
      then show ?thesis using Cons.prems(1,5) f False by (auto split: if_splits)
    next
      case no: False
      then have t: "t \<in> RDE_time ` set es" "RDE_time e < t" using Cons.prems(2,3) by auto
      have "\<not> ok" using Cons.prems(1,5) f False t by (auto split: if_splits)
      then show ?thesis using Cons f False t by simp
    qed
  qed
qed simp

text \<open>The backward search over both diagrams.\<close>

definition backward :: "'b topology \<Rightarrow> 'b rue \<Rightarrow> rat \<Rightarrow> rat \<Rightarrow> bool \<Rightarrow> 'b option \<Rightarrow> nat" where
  "backward tp cr mx tot for_excl c =
     (let w = fst (below_loop tp tot mx None c (rev (diagram_of False cr)));
          w' = fst (below_loop tp tot mx None None (rev (diagram_of True cr)))
      in if for_excl \<and> w' > w then w' else w)"

text \<open>The limit is kept at the end of the diagrams, and both are in order.\<close>

definition below_at_end :: "'b topology \<Rightarrow> 'b rue \<Rightarrow> rat \<Rightarrow> rat \<Rightarrow> bool \<Rightarrow> bool" where
  "below_at_end tp cr mx tot for_excl \<longleftrightarrow> 0 \<le> mx \<and>
     in_order (diagram_of False cr) \<and> in_order (diagram_of True cr) \<and>
     (diagram_of False cr \<noteq> [] \<longrightarrow> entry_util tp tot (last (diagram_of False cr)) \<le> mx) \<and>
     (for_excl \<and> diagram_of True cr \<noteq> [] \<longrightarrow> entry_util tp tot (last (diagram_of True cr)) \<le> mx)"

lemma backward_correct:
  assumes "below_at_end tp cr mx tot for_excl" "backward tp cr mx tot for_excl c \<le> t"
  shows "usage (diagram_of False cr) t \<le> mx" "for_excl \<Longrightarrow> usage (diagram_of True cr) t \<le> mx"
proof -
  define w where "w = fst (below_loop tp tot mx None c (rev (diagram_of False cr)))"
  define w' where "w' = fst (below_loop tp tot mx None None (rev (diagram_of True cr)))"
  have le: "w \<le> t" "for_excl \<Longrightarrow> w' \<le> t"
    using assms(2) by (auto simp: backward_def w_def[symmetric] w'_def[symmetric] Let_def split: if_splits)
  note a = assms(1)[unfolded below_at_end_def]
  show "usage (diagram_of False cr) t \<le> mx"
    by (rule below_loop_correct(1)[OF _ _ _ w_def le(1)]) (use a in auto)
  show "usage (diagram_of True cr) t \<le> mx" if "for_excl"
    by (rule below_loop_correct(1)[OF _ _ _ w'_def le(2)[OF that]]) (use a that in auto)
qed

lemma backward_tight:
  assumes "below_at_end tp cr mx tot for_excl" "backward tp cr mx tot for_excl c \<noteq> 0"
    "\<forall>e\<in>set (diagram_of False cr) \<union> set (diagram_of True cr). RDE_binding_inuse e = None"
  shows "mx < usage (diagram_of False cr) (backward tp cr mx tot for_excl c - 1) \<or>
    (for_excl \<and> mx < usage (diagram_of True cr) (backward tp cr mx tot for_excl c - 1))"
proof -
  define w where "w = fst (below_loop tp tot mx None c (rev (diagram_of False cr)))"
  define w' where "w' = fst (below_loop tp tot mx None None (rev (diagram_of True cr)))"
  note a = assms(1)[unfolded below_at_end_def]
  have b: "backward tp cr mx tot for_excl c = (if for_excl \<and> w' > w then w' else w)"
    by (simp add: backward_def w_def w'_def Let_def)
  have 1: "w \<noteq> 0 \<Longrightarrow> mx < usage (diagram_of False cr) (w - 1)"
    by (rule below_loop_correct(3)[OF _ _ _ w_def]) (use a assms(3) in auto)
  have 2: "for_excl \<Longrightarrow> w' \<noteq> 0 \<Longrightarrow> mx < usage (diagram_of True cr) (w' - 1)"
    by (rule below_loop_correct(3)[OF _ _ _ w'_def]) (use a assms(3) in auto)
  show ?thesis using 1 2 assms(2) unfolding b by (simp split: if_splits)
qed

lemma backward_entry:
  assumes "below_at_end tp cr mx tot for_excl" "backward tp cr mx tot for_excl c \<noteq> 0"
  shows "backward tp cr mx tot for_excl c \<in> RDE_time ` (set (diagram_of False cr) \<union> set (diagram_of True cr))"
proof -
  define w where "w = fst (below_loop tp tot mx None c (rev (diagram_of False cr)))"
  define w' where "w' = fst (below_loop tp tot mx None None (rev (diagram_of True cr)))"
  note a = assms(1)[unfolded below_at_end_def]
  have b: "backward tp cr mx tot for_excl c = (if for_excl \<and> w' > w then w' else w)"
    by (simp add: backward_def w_def w'_def Let_def)
  have 1: "w \<noteq> 0 \<Longrightarrow> w \<in> RDE_time ` set (diagram_of False cr)"
    by (rule below_loop_correct(2)[OF _ _ _ w_def]) (use a in auto)
  have 2: "for_excl \<Longrightarrow> w' \<noteq> 0 \<Longrightarrow> w' \<in> RDE_time ` set (diagram_of True cr)"
    by (rule below_loop_correct(2)[OF _ _ _ w'_def]) (use a in auto)
  show ?thesis using 1 2 assms(2) unfolding b by (auto simp: image_Un split: if_splits)
qed

lemma diagram_of_False: "diagram_of False cr = (case RUE_utilized cr of None \<Rightarrow> [] | Some d \<Rightarrow> d)"
  by (simp add: diagram_of_def)

lemma diagram_of_True: "diagram_of True cr = (case RUE_utilized_nonexclusive cr of None \<Rightarrow> [] | Some d \<Rightarrow> d)"
  by (simp add: diagram_of_def)

lemma utilization_below_cases:
  obtains c' where
    "utilization_below tp None cr mx tot for_excl c = Some (backward tp cr mx tot for_excl c, c')"
    "backward tp cr mx tot for_excl c = DISPATCH_TIME_NOW \<Longrightarrow>
       utilization_below tp (Some (now, duration)) cr mx tot for_excl c = Some (DISPATCH_TIME_NOW, c')"
    "0 < duration \<Longrightarrow> backward tp cr mx tot for_excl c \<noteq> DISPATCH_TIME_NOW \<Longrightarrow>
       utilization_below tp (Some (now, duration)) cr mx tot for_excl c =
         do { (ok, b) \<leftarrow> utilization_fits_duration tp cr now duration mx tot for_excl c';
              (earlier, b') \<leftarrow>
                (if ok then Some (now, b)
                 else window_loop (\<lambda>t. utilization_fits_duration tp cr t duration mx tot for_excl c')
                        now (backward tp cr mx tot for_excl c) c' (diagram_of False cr));
              Some (min earlier (backward tp cr mx tot for_excl c), b') }"
proof -
  obtain w c1 where 1: "below_loop tp tot mx None c (rev (diagram_of False cr)) = (w, c1)" by fastforce
  obtain w' c2 where 2: "below_loop tp tot mx None None (rev (diagram_of True cr)) = (w', c2)" by fastforce
  define c' where "c' = (if for_excl \<and> w' > w then c2 else c1)"
  have b: "backward tp cr mx tot for_excl c = (if for_excl \<and> w' > w then w' else w)"
    unfolding backward_def 1 2 by simp
  have m: "(if e < x then e else x) = min e x" for e x :: nat by (simp add: min_def)
  have pair: "(if for_excl \<and> w' > w then (w', c2) else (w, c1)) = (backward tp cr mx tot for_excl c, c')"
    unfolding b c'_def by simp
  note u = utilization_below_def[of tp _ cr mx tot for_excl c, unfolded Let_def, folded diagram_of_False diagram_of_True,
      unfolded 1 2 prod.case pair m]
  show ?thesis by (rule that[of c']) (simp_all add: u)
qed

text \<open>Times that the clock can reach: far below the greatest time, where the end of a window is exact.\<close>

definition clock_times :: "'b rue \<Rightarrow> nat \<Rightarrow> nat \<Rightarrow> bool" where
  "clock_times cr now duration \<longleftrightarrow> 0 < now \<and> now < 2 ^ 59 \<and> 0 < duration \<and> duration < 2 ^ 59 \<and>
     list_all (\<lambda>e. RDE_time e < 2 ^ 59) (diagram_of False cr @ diagram_of True cr)"

lemma clock_time_cases:
  assumes "clock_times cr now duration" "t = now \<or> t \<in> RDE_time ` set (diagram_of False cr)" "now \<le> t"
  shows "t \<noteq> DISPATCH_TIME_NOW" "t \<noteq> DISPATCH_TIME_QUEUE_END" "utilization_endtime t duration = t + duration"
proof -
  have t: "0 < t" "t < 2 ^ 59" "duration < 2 ^ 59"
    using assms by (auto simp: clock_times_def list_all_iff)
  show "t \<noteq> DISPATCH_TIME_NOW" "t \<noteq> DISPATCH_TIME_QUEUE_END"
    using t by (auto simp: DISPATCH_TIME_NOW_def DISPATCH_TIME_QUEUE_END_def u64_max_def)
  show "utilization_endtime t duration = t + duration" by (rule endtime_exact) (use t in simp)
qed

text \<open>The search for a window always returns. Its result is the time of the backward search, or an
  earlier one at which the window was found to fit, and then none between fits.\<close>

lemma utilization_below_found:
  fixes c :: "'b option" and cr :: "'b rue"
  assumes "below_at_end tp cr mx tot for_excl" "clock_times cr now duration"
  defines "B \<equiv> backward tp cr mx tot for_excl c"
  obtains w b c' where
    "utilization_below tp (Some (now, duration)) cr mx tot for_excl c = Some (w, b)" "w \<le> B"
    "w = B \<or> ((w = now \<or> w \<in> RDE_time ` set (diagram_of False cr)) \<and> now \<le> w \<and>
       (\<exists>b'. utilization_fits_duration tp cr w duration mx tot for_excl c' = Some (True, b')))"
    "\<forall>t. (t = now \<or> t \<in> RDE_time ` set (diagram_of False cr)) \<longrightarrow> now \<le> t \<longrightarrow> t < w \<longrightarrow>
       (\<exists>b'. utilization_fits_duration tp cr t duration mx tot for_excl c' = Some (False, b'))"
proof -
  obtain c' where u:
    "utilization_below tp None cr mx tot for_excl c = Some (B, c')"
    "B = DISPATCH_TIME_NOW \<Longrightarrow>
       utilization_below tp (Some (now, duration)) cr mx tot for_excl c = Some (DISPATCH_TIME_NOW, c')"
    "0 < duration \<Longrightarrow> B \<noteq> DISPATCH_TIME_NOW \<Longrightarrow>
       utilization_below tp (Some (now, duration)) cr mx tot for_excl c =
         do { (ok, b) \<leftarrow> utilization_fits_duration tp cr now duration mx tot for_excl c';
              (earlier, b') \<leftarrow>
                (if ok then Some (now, b)
                 else window_loop (\<lambda>t. utilization_fits_duration tp cr t duration mx tot for_excl c')
                        now B c' (diagram_of False cr));
              Some (min earlier B, b') }"
    using utilization_below_cases[of tp cr mx tot for_excl c now duration] unfolding B_def by blast
  let ?fits = "\<lambda>t. utilization_fits_duration tp cr t duration mx tot for_excl c'"
  have io: "in_order (diagram_of False cr)" using assms(1) by (simp add: below_at_end_def)
  have total: "\<exists>ok b. ?fits t = Some (ok, b)" if "t = now \<or> t \<in> RDE_time ` set (diagram_of False cr)" "now \<le> t" for t
    using fits_duration_iff[OF clock_time_cases(1,2)[OF assms(2) that], of tp cr duration mx tot for_excl c'] by blast
  obtain ok b where now: "?fits now = Some (ok, b)" using total[of now] by blast
  consider "B = DISPATCH_TIME_NOW" | "B \<noteq> DISPATCH_TIME_NOW" ok | "B \<noteq> DISPATCH_TIME_NOW" "\<not> ok" by blast
  then show ?thesis
  proof cases
    case 1
    then show ?thesis using u(2) by (intro that[of B]) (simp_all add: DISPATCH_TIME_NOW_def)
  next
    case 2
    have "utilization_below tp (Some (now, duration)) cr mx tot for_excl c = Some (min now B, b)"
      using u(3)[OF _ 2(1)] assms(2) now 2(2) by (simp add: clock_times_def)
    then show ?thesis using now 2(2) by (intro that[of "min now B" b c']) (auto simp: min_def)
  next
    case 3
    obtain w b' where w: "window_loop ?fits now B c' (diagram_of False cr) = Some (w, b')"
      using window_loop_total[of "diagram_of False cr" now ?fits B c'] total by fastforce
    have "utilization_below tp (Some (now, duration)) cr mx tot for_excl c = Some (min w B, b')"
      using u(3)[OF _ 3(1)] assms(2) now 3(2) w by (simp add: clock_times_def)
    moreover have f: "w = B \<or> (now < w \<and> w < B \<and> w \<in> RDE_time ` set (diagram_of False cr) \<and> ?fits w = Some (True, b'))"
      by (rule window_loop_found[OF w])
    moreover have "\<exists>b. ?fits t = Some (False, b)"
      if "t = now \<or> t \<in> RDE_time ` set (diagram_of False cr)" "now \<le> t" "t < w" for t
      using window_loop_earliest[OF w io, of t] that f now 3(2) by (cases "t = now") auto
    ultimately show ?thesis by (intro that[of w b' c']) auto
  qed
qed

lemma utilization_below_window:
  assumes "below_at_end tp cr mx tot for_excl" "clock_times cr now duration"
    "utilization_below tp (Some (now, duration)) cr mx tot for_excl c = Some (w, b)"
    "w \<le> t" "t < w + duration"
  shows "usage (diagram_of False cr) t \<le> mx" "for_excl \<Longrightarrow> usage (diagram_of True cr) t \<le> mx"
proof -
  have io: "in_order (diagram_of False cr)" "in_order (diagram_of True cr)"
    using assms(1) by (simp_all add: below_at_end_def)
  obtain c' where w: "w = backward tp cr mx tot for_excl c \<or>
      ((w = now \<or> w \<in> RDE_time ` set (diagram_of False cr)) \<and> now \<le> w \<and>
       (\<exists>b'. utilization_fits_duration tp cr w duration mx tot for_excl c' = Some (True, b')))"
    by (rule utilization_below_found[OF assms(1,2), of c]) (use assms(3) in auto)
  then consider "w = backward tp cr mx tot for_excl c" |
    b' where "w = now \<or> w \<in> RDE_time ` set (diagram_of False cr)" "now \<le> w"
      "utilization_fits_duration tp cr w duration mx tot for_excl c' = Some (True, b')" by blast
  then have "usage (diagram_of False cr) t \<le> mx \<and> (for_excl \<longrightarrow> usage (diagram_of True cr) t \<le> mx)"
  proof cases
    case 1
    then show ?thesis using backward_correct[OF assms(1), of c t] assms(4) by blast
  next
    case 2
    have "t < utilization_endtime w duration" using assms(5) clock_time_cases(3)[OF assms(2) 2(1,2)] by simp
    then show ?thesis
      using fits_duration_sound[OF clock_time_cases(1,2)[OF assms(2) 2(1,2)] io 2(3) assms(4)] by blast
  qed
  then show "usage (diagram_of False cr) t \<le> mx" "for_excl \<Longrightarrow> usage (diagram_of True cr) t \<le> mx" by blast+
qed

text \<open>A window can only open where an entry begins, or now.\<close>

lemma window_opens_at_entry:
  assumes "now \<le> s"
  obtains e where "e = now \<or> e \<in> RDE_time ` set d" "now \<le> e" "e \<le> s" "\<forall>t. e \<le> t \<and> t \<le> s \<longrightarrow> usage d t = usage d s"
proof -
  define E where "E = {t \<in> insert now (RDE_time ` set d). t \<le> s}"
  have E: "finite E" "now \<in> E" using assms by (simp_all add: E_def)
  have "usage_from v es t = usage_from v es s"
    if "Max E \<le> t" "t \<le> s" "set es \<subseteq> set d" for t v and es :: "'a rde list"
    using that(3)
  proof (induction es arbitrary: v)
    case (Cons x es)
    have "RDE_time x \<le> s \<longleftrightarrow> RDE_time x \<le> t"
    proof
      assume "RDE_time x \<le> s"
      then have "RDE_time x \<le> Max E" using Cons.prems by (intro Max_ge[OF E(1)]) (simp add: E_def)
      then show "RDE_time x \<le> t" using that(1) by simp
    qed (use that(2) in simp)
    then show ?case using Cons by simp
  qed simp
  then have u: "\<forall>t. Max E \<le> t \<and> t \<le> s \<longrightarrow> usage d t = usage d s" unfolding usage_def by blast
  have "Max E \<in> E" using E by (intro Max_in) auto
  then have m: "Max E = now \<or> Max E \<in> RDE_time ` set d" "Max E \<le> s" unfolding E_def by blast+
  show ?thesis by (rule that[OF m(1) Max_ge[OF E] m(2) u])
qed

lemma utilization_below_earliest:
  assumes "below_at_end tp cr mx tot False" "clock_times cr now duration"
    "utilization_below tp (Some (now, duration)) cr mx tot False c = Some (w, b)"
    "\<forall>e\<in>set (diagram_of False cr). RDE_binding_inuse e = None" "now \<le> s" "s < w"
  shows "\<exists>t. s \<le> t \<and> t < s + duration \<and> mx < usage (diagram_of False cr) t"
proof -
  have io: "in_order (diagram_of False cr)" using assms(1) by (simp add: below_at_end_def)
  obtain c' where none: "\<forall>t. (t = now \<or> t \<in> RDE_time ` set (diagram_of False cr)) \<longrightarrow> now \<le> t \<longrightarrow> t < w \<longrightarrow>
       (\<exists>b'. utilization_fits_duration tp cr t duration mx tot False c' = Some (False, b'))"
    by (rule utilization_below_found[OF assms(1,2), of c]) (use assms(3) in auto)
  obtain e where e: "e = now \<or> e \<in> RDE_time ` set (diagram_of False cr)" "now \<le> e" "e \<le> s"
      "\<forall>t. e \<le> t \<and> t \<le> s \<longrightarrow> usage (diagram_of False cr) t = usage (diagram_of False cr) s"
    using window_opens_at_entry[OF assms(5)] .
  note c = clock_time_cases[OF assms(2) e(1,2)]
  have d: "0 < duration" using assms(2) by (simp add: clock_times_def)
  show ?thesis
  proof (rule ccontr)
    assume "\<not> ?thesis"
    then have below: "usage (diagram_of False cr) t \<le> mx" if "s \<le> t" "t < s + duration" for t
      using that by (meson not_le)
    have fits: "\<forall>t. e \<le> t \<and> t < utilization_endtime e duration \<longrightarrow> usage (diagram_of False cr) t \<le> mx"
    proof (intro allI impI)
      fix t
      assume t: "e \<le> t \<and> t < utilization_endtime e duration"
      show "usage (diagram_of False cr) t \<le> mx"
      proof (cases "s \<le> t")
        case True
        then show ?thesis using below[of t] t e(3) unfolding c(3) by simp
      next
        case False
        then have "usage (diagram_of False cr) t = usage (diagram_of False cr) s"
          using t by (intro e(4)[rule_format]) simp
        then show ?thesis using below[of s] d by simp
      qed
    qed
    have "e < utilization_endtime e duration" unfolding c(3) using d by simp
    from fits_duration_complete[OF c(1,2) io assms(4) this fits, of tp tot c']
    obtain b' where "utilization_fits_duration tp cr e duration mx tot False c' = Some (True, b')" .
    then show False using none e(1,2,3) assms(6) by auto
  qed
qed

end
