(* ===== verification/ResourceUtilization_Props.thy ===== *)
theory ResourceUtilization_Props
  imports ResourceUtilization_Correct
begin

text \<open>
  What the scheduler relies on when it books and searches resource diagrams: booking adds exactly
  the booked amount, the peak of a window is the peak of the diagram, and the time found for a
  reservation is the first one from which the job keeps within the limit.
\<close>

section \<open>Resource maps\<close>

lemma map_of_set_amount: "x \<in> fst ` set ids \<Longrightarrow> map_of (set_amount x n ids) = (map_of ids)(x \<mapsto> n)"
proof (induction x n ids rule: set_amount.induct)
  case (2 x n y m ids)
  show ?case
  proof (cases "x = y")
    case False
    then have "x \<in> fst ` set ids" using "2.prems" by simp
    then show ?thesis using "2.IH"[OF False] False by (auto simp: fun_eq_iff)
  qed (simp add: fun_eq_iff)
qed simp

lemma set_amount_ids: "map fst (set_amount x n ids) = map fst ids"
  by (induction x n ids rule: set_amount.induct) auto

lemma remove_id_subset: "set (map fst (remove_id x ids)) \<subseteq> set (map fst ids)"
  by (induction x ids rule: remove_id.induct) auto

lemma remove_id_distinct: "distinct (map fst ids) \<Longrightarrow> distinct (map fst (remove_id x ids))"
proof (induction x ids rule: remove_id.induct)
  case (2 x y m ids)
  then show ?case using remove_id_subset[of x ids] by auto
qed simp

lemma map_of_remove_id: "distinct (map fst ids) \<Longrightarrow> map_of (remove_id x ids) = (map_of ids)(x := None)"
proof (induction x ids rule: remove_id.induct)
  case (2 x y m ids)
  then show ?case by (auto simp: fun_eq_iff map_of_eq_None_iff)
qed simp

lemma map_of_append_new: "x \<notin> fst ` set ids \<Longrightarrow> map_of (ids @ [(x, n)]) = (map_of ids)(x \<mapsto> n)"
  by (induction ids) (auto simp: fun_eq_iff simp del: map_of_append)

text \<open>What one change does to the amount of its id.\<close>

definition changed :: "bool \<Rightarrow> nat option \<Rightarrow> nat \<Rightarrow> nat option" where
  "changed add in_use amount =
     (if add then Some (add32 (case in_use of None \<Rightarrow> 0 | Some n \<Rightarrow> n) amount)
      else case in_use of None \<Rightarrow> None | Some n \<Rightarrow> if n > amount then Some (n - amount) else None)"

lemma rsmap_change_map:
  assumes "distinct (map fst ids)"
  shows "map_of (rsmap_change add (x, amount) ids) = (map_of ids)(x := changed add (map_of ids x) amount)"
    "distinct (map fst (rsmap_change add (x, amount) ids))"
proof -
  have "map_of (rsmap_change add (x, amount) ids) = (map_of ids)(x := changed add (map_of ids x) amount) \<and>
    distinct (map fst (rsmap_change add (x, amount) ids))"
  proof (cases "map_of ids x")
    case None
    then have "x \<notin> fst ` set ids" by (simp add: map_of_eq_None_iff)
    then show ?thesis using None assms
      by (simp add: rsmap_change_def changed_def map_of_append_new del: map_of_append)
        (simp add: fun_upd_idem)
  next
    case (Some n)
    then have "x \<in> fst ` set ids" by (metis map_of_eq_None_iff option.distinct(1))
    then show ?thesis using Some assms
      by (simp add: rsmap_change_def changed_def map_of_set_amount map_of_remove_id set_amount_ids remove_id_distinct)
  qed
  then show "map_of (rsmap_change add (x, amount) ids) = (map_of ids)(x := changed add (map_of ids x) amount)"
    "distinct (map fst (rsmap_change add (x, amount) ids))" by blast+
qed

lemma utilization_rsmap_set_map:
  assumes "distinct (map fst ids)" "distinct (map fst ch)"
  shows "distinct (map fst (utilization_rsmap_set ids ch add)) \<and>
    map_of (utilization_rsmap_set ids ch add) y =
      (case map_of ch y of None \<Rightarrow> map_of ids y | Some a \<Rightarrow> changed add (map_of ids y) a)"
  using assms
proof (induction ch arbitrary: ids)
  case (Cons ep ch)
  obtain x a where ep: "ep = (x, a)" by (cases ep)
  have "x \<notin> fst ` set ch" using Cons.prems(2) ep by simp
  then have "map_of ch x = None" by (simp add: map_of_eq_None_iff)
  then show ?case
    using Cons.IH[OF rsmap_change_map(2)[OF Cons.prems(1), of add x a]] Cons.prems(2) ep
    by (auto simp: utilization_rsmap_set_def rsmap_change_map(1)[OF Cons.prems(1)] split: option.split)
qed (simp add: utilization_rsmap_set_def)

text \<open>Booking instances of a resource map and giving them back is a round trip: after the booking
  every requested id has the requested amount more, and after the removal of the same request the
  map is the one before, as long as no id is listed twice, no id is listed with amount 0 and the
  counters do not overflow.\<close>

lemma utilization_rsmap_roundtrip:
  assumes "distinct (map fst ids)" "distinct (map fst ch)" "0 \<notin> ran (map_of ids)"
    "\<And>x n a. map_of ids x = Some n \<Longrightarrow> map_of ch x = Some a \<Longrightarrow> n + a < 2 ^ 32"
    "\<And>x a. map_of ch x = Some a \<Longrightarrow> a < 2 ^ 32"
  shows "map_of (utilization_rsmap_set ids ch True) x =
      (case map_of ch x of None \<Rightarrow> map_of ids x
       | Some a \<Rightarrow> Some ((case map_of ids x of None \<Rightarrow> 0 | Some n \<Rightarrow> n) + a)) \<and>
    map_of (utilization_rsmap_set (utilization_rsmap_set ids ch True) ch False) x = map_of ids x"
proof
  note one = utilization_rsmap_set_map[OF assms(1,2), of True]
  have pos: "map_of ids x = Some n \<Longrightarrow> 0 < n" for n using assms(3) by (metis gr0I ranI)
  show b: "map_of (utilization_rsmap_set ids ch True) x =
      (case map_of ch x of None \<Rightarrow> map_of ids x
       | Some a \<Rightarrow> Some ((case map_of ids x of None \<Rightarrow> 0 | Some n \<Rightarrow> n) + a))"
    using one[of x] assms(4,5)[of x] by (auto simp: changed_def add32_def split: option.splits)
  show "map_of (utilization_rsmap_set (utilization_rsmap_set ids ch True) ch False) x = map_of ids x"
    using utilization_rsmap_set_map[OF conjunct1[OF one] assms(2), of False x] pos
    unfolding b by (cases "map_of ch x"; cases "map_of ids x") (simp_all add: changed_def)
qed

section \<open>Booking\<close>

text \<open>C8. Booking a job into a resource diagram that is in order of time adds its amount at exactly the
  times from its start to its end, with an infinite duration from its start to the greatest time, and
  changes the amount at no other time; the entries stay in order of time, and the diagram stays normal:
  it begins with an amount in use and no two neighbours are the same. The other diagram of the
  resource is left alone. The amounts are doubles and the code rounds each sum: the amount of the job
  and the amounts of the diagram are integers that stay below \<open>2 ^ 53\<close> in sum, which holds for slots
  and other counted resources. The start and a finite duration are below \<open>2 ^ 59\<close> microseconds, the
  duration is not 0, and for a job reservations are enabled or the resource has a diagram already.\<close>

theorem utilization_add_books:
  assumes "in_order (diagram_of ne cr)" "s < 2 ^ 59" "0 < duration" "duration < 2 ^ 59 \<or> duration = u64_max"
    "whole_amounts u (diagram_of ne cr)"
    "for_job \<Longrightarrow> max_reservations \<noteq> 0 \<or> (if ne then RUE_utilized_nonexclusive cr else RUE_utilized cr) \<noteq> None"
    "cr' = utilization_add tp max_reservations cr s duration u level for_job ne bs ids"
    "end_time = (if duration = u64_max then u64_max else s + duration)"
  shows "usage (diagram_of ne cr') t = usage (diagram_of ne cr) t + (if s \<le> t \<and> t < end_time then u else 0) \<and>
    in_order (diagram_of ne cr') \<and> normal (diagram_of ne cr') \<and> diagram_of (\<not> ne) cr' = diagram_of (\<not> ne) cr"
proof -
  have e: "utilization_endtime s duration = end_time"
  proof (cases "duration = u64_max")
    case False
    then have "s + duration < 2 ^ 60" using assms(2,4) by simp
    then show ?thesis using False endtime_exact by (simp add: assms(8))
  qed (simp add: assms(8) endtime_infinite)
  obtain bk where bk: "utilization bk = u"
    "diagram_of ne cr' = book_diagram tp bk s end_time (diagram_of ne cr)"
    "diagram_of (\<not> ne) cr' = diagram_of (\<not> ne) cr"
    using utilization_add_diagrams[of for_job max_reservations duration ne cr u tp s level bs ids] assms(3,6)
    unfolding assms(7) e by blast
  have lt: "s < end_time" using assms(2,3,8) by (simp add: u64_max_def)
  have "exact_amounts (utilization bk) (insert 0 (RDE_amount ` set (diagram_of ne cr)))"
    using whole_amounts_exact[OF assms(5)] bk(1) by simp
  note b = book_diagram_correct[OF assms(1) lt this, of tp]
  show ?thesis unfolding bk(2,3) using b bk(1) by simp
qed

definition no_topology :: "unit topology" where
  "no_topology = \<lparr>all_marked = (\<lambda>b _. b), mark_nodes = (\<lambda>now b _. b), test_strategy = None\<rparr>"

definition empty_rue :: "'b rue" where
  "empty_rue = \<lparr>RUE_name = ''slots'', RUE_utilized_now = 0, RUE_utilized_now_resource_map_list = [],
     RUE_utilized_now_binding_inuse = None, RUE_utilized = None, RUE_utilized_now_nonexclusive = 0,
     RUE_utilized_nonexclusive = None\<rparr>"

definition entry_at :: "nat \<Rightarrow> rat \<Rightarrow> 'b rde" where
  "entry_at t a = \<lparr>RDE_time = t, RDE_amount = a, RDE_resource_map_list = [], RDE_binding_inuse = None\<rparr>"

theorem utilization_add_books_witness:
  "usage (diagram_of False (utilization_add no_topology 5 (empty_rue\<lparr>RUE_utilized := Some [entry_at 10 2, entry_at 20 0]\<rparr>)
     15 10 3 QUEUE_TAG True False [] [])) 18 = (5 :: rat)"
proof -
  have "usage (diagram_of False (empty_rue\<lparr>RUE_utilized := Some [entry_at 10 2, entry_at 20 0]\<rparr> :: unit rue)) 18 = 2"
    by (simp add: diagram_of_def usage_def entry_at_def)
  then show ?thesis
    using utilization_add_books[where ne = False and cr = "empty_rue\<lparr>RUE_utilized := Some [entry_at 10 2, entry_at 20 0]\<rparr>"
        and s = 15 and duration = 10 and u = 3 and for_job = True and max_reservations = 5 and tp = no_topology
        and level = QUEUE_TAG and bs = "[]" and ids = "[]" and t = 18, OF _ _ _ _ _ _ refl refl]
    by (simp add: diagram_of_def entry_at_def whole_amounts_def u64_max_def)
qed

section \<open>The peak of a window\<close>

text \<open>C9. The value that \<^verbatim>\<open>utilization_max\<close> returns for a window is at least the amount in use at every
  time of the window, whatever the bindings of the entries add to it; without bindings it is the
  amount in use at some time of the window, so it is the maximum. With an exclusive request both
  diagrams count.\<close>

theorem utilization_max_is_peak:
  assumes "in_order (diagram_of False cr)" "in_order (diagram_of True cr)"
    "0 < start" "start < 2 ^ 59" "0 < duration" "duration < 2 ^ 59"
  shows "\<exists>m c'. utilization_max tp cr start duration tot for_excl c = Some (m, c') \<and>
    (\<forall>t. start \<le> t \<and> t < start + duration \<longrightarrow>
       usage (diagram_of False cr) t \<le> m \<and> (for_excl \<longrightarrow> usage (diagram_of True cr) t \<le> m)) \<and>
    ((\<forall>e\<in>set (diagram_of False cr) \<union> set (diagram_of True cr). RDE_binding_inuse e = None) \<longrightarrow>
       (\<exists>t. start \<le> t \<and> t < start + duration \<and>
         (m = usage (diagram_of False cr) t \<or> (for_excl \<and> m = usage (diagram_of True cr) t))))"
proof -
  have n: "start \<noteq> DISPATCH_TIME_NOW" "start \<noteq> DISPATCH_TIME_QUEUE_END"
    using assms(3,4) by (auto simp: DISPATCH_TIME_NOW_def DISPATCH_TIME_QUEUE_END_def u64_max_def)
  have e: "utilization_endtime start duration = start + duration"
    by (rule endtime_exact) (use assms(4,6) in simp)
  let ?m = "fst (diagram_max tp tot start (start + duration) c (diagram_of False cr))"
  let ?m' = "fst (diagram_max tp tot start (start + duration) None (diagram_of True cr))"
  obtain c' where u: "utilization_max tp cr start duration tot for_excl c =
      Some (if for_excl then max ?m ?m' else ?m, c')"
    using utilization_max_before_end[OF n, of tp cr duration tot for_excl c] unfolding e by blast
  have lt: "start < start + duration" using assms(5) by simp
  show ?thesis
  proof (rule exI[of _ "if for_excl then max ?m ?m' else ?m"], rule exI[of _ c'], intro conjI allI impI)
    show "utilization_max tp cr start duration tot for_excl c = Some (if for_excl then max ?m ?m' else ?m, c')"
      by (rule u)
  next
    fix t
    assume t: "start \<le> t \<and> t < start + duration"
    note b = diagram_max_bound[OF assms(1) conjunct1[OF t] conjunct2[OF t], of tp tot c]
      diagram_max_bound[OF assms(2) conjunct1[OF t] conjunct2[OF t], of tp tot None]
    show "usage (diagram_of False cr) t \<le> (if for_excl then max ?m ?m' else ?m)" using b(1) by (simp add: le_max_iff_disj)
    show "usage (diagram_of True cr) t \<le> (if for_excl then max ?m ?m' else ?m)" if for_excl
      using b(2) that by (simp add: le_max_iff_disj)
  next
    assume nb: "\<forall>e\<in>set (diagram_of False cr) \<union> set (diagram_of True cr). RDE_binding_inuse e = None"
    then show "\<exists>t. start \<le> t \<and> t < start + duration \<and>
        ((if for_excl then max ?m ?m' else ?m) = usage (diagram_of False cr) t \<or>
         (for_excl \<and> (if for_excl then max ?m ?m' else ?m) = usage (diagram_of True cr) t))"
      using diagram_max_attained[OF assms(1) lt, of tp tot c] diagram_max_attained[OF assms(2) lt, of tp tot None]
      by (cases "for_excl \<and> ?m < ?m'") (auto simp: max_def)
  qed
qed

theorem utilization_max_is_peak_witness:
  "\<exists>m c'. utilization_max no_topology (empty_rue\<lparr>RUE_utilized := Some [entry_at 10 2, entry_at 20 5, entry_at 30 0]\<rparr>) 15 10 8 False None
     = Some (m, c') \<and> 5 \<le> m"
proof -
  define cr :: "unit rue" where "cr = empty_rue\<lparr>RUE_utilized := Some [entry_at 10 2, entry_at 20 5, entry_at 30 0]\<rparr>"
  have d: "diagram_of False cr = [entry_at 10 2, entry_at 20 5, entry_at 30 0]" "diagram_of True cr = []"
    by (simp_all add: cr_def diagram_of_def empty_rue_def)
  have "usage (diagram_of False cr) 21 = 5" by (simp add: d usage_def entry_at_def)
  moreover have "in_order (diagram_of False cr)" "in_order (diagram_of True cr)"
    by (simp_all add: d entry_at_def)
  from utilization_max_is_peak[OF this, of 15 10 no_topology 8 False None]
  obtain m c' where "utilization_max no_topology cr 15 10 8 False None = Some (m, c')"
      "\<forall>t. 15 \<le> t \<and> t < 15 + 10 \<longrightarrow> usage (diagram_of False cr) t \<le> m" by auto
  moreover from this(2) have "usage (diagram_of False cr) 21 \<le> m" by (elim allE[of _ 21]) simp
  ultimately show ?thesis unfolding cr_def[symmetric] by simp
qed

section \<open>The first time below a limit\<close>

text \<open>Two jobs that use the resource from 10 to 20 and from 30 to 40.\<close>

definition two_jobs :: "unit rue" where
  "two_jobs = empty_rue\<lparr>RUE_utilized := Some [entry_at 10 2, entry_at 20 0, entry_at 30 2, entry_at 40 0]\<rparr>"

lemma two_jobs_diagrams:
  "diagram_of False two_jobs = [entry_at 10 2, entry_at 20 0, entry_at 30 2, entry_at 40 0]"
  "diagram_of True two_jobs = []"
  by (simp_all add: two_jobs_def diagram_of_def empty_rue_def)

lemma two_jobs_below: "below_at_end no_topology two_jobs 1 8 for_excl"
  by (simp add: below_at_end_def two_jobs_diagrams entry_at_def entry_util_def)

lemma two_jobs_clock: "0 < now \<Longrightarrow> now < 2 ^ 59 \<Longrightarrow> 0 < d \<Longrightarrow> d < 2 ^ 59 \<Longrightarrow> clock_times two_jobs now d"
  by (simp add: clock_times_def two_jobs_diagrams entry_at_def)

text \<open>Without an assignment \<^verbatim>\<open>utilization_below\<close> returns a time from which on, until the end of time, the
  amount in use stays within the limit, provided it is within the limit at the end of the
  diagrams. Without bindings no earlier time will do: the amount just before it is above the
  limit, unless the returned time is the very first one.\<close>

lemma utilization_below_until_end:
  assumes "below_at_end tp cr mx tot for_excl"
  shows "\<exists>w c'. utilization_below tp None cr mx tot for_excl c = Some (w, c') \<and>
    (\<forall>t. w \<le> t \<longrightarrow> usage (diagram_of False cr) t \<le> mx \<and> (for_excl \<longrightarrow> usage (diagram_of True cr) t \<le> mx)) \<and>
    ((\<forall>e\<in>set (diagram_of False cr) \<union> set (diagram_of True cr). RDE_binding_inuse e = None) \<longrightarrow>
     w \<noteq> DISPATCH_TIME_NOW \<longrightarrow>
     mx < usage (diagram_of False cr) (w - 1) \<or> (for_excl \<and> mx < usage (diagram_of True cr) (w - 1)))"
proof -
  obtain c' where u: "utilization_below tp None cr mx tot for_excl c = Some (backward tp cr mx tot for_excl c, c')"
    using utilization_below_cases[of tp cr mx tot for_excl c] by blast
  show ?thesis
    by (rule exI[of _ "backward tp cr mx tot for_excl c"], rule exI[of _ c'], intro conjI allI impI)
      (use u backward_correct[OF assms] backward_tight[OF assms] in \<open>simp_all add: DISPATCH_TIME_NOW_def\<close>)
qed



text \<open>C11. For a resource without bindings, a request that is not exclusive, and diagrams and times as
  for \<open>utilization_below_fits\<close>, the time that
  \<^verbatim>\<open>utilization_below\<close> returns is the earliest one: a job that started at any time between now and
  then would meet a time at which the amount in use is above the limit.\<close>

theorem utilization_below_is_earliest:
  assumes "below_at_end tp cr mx tot False" "clock_times cr now duration"
    "\<forall>e\<in>set (diagram_of False cr). RDE_binding_inuse e = None"
    "utilization_below tp (Some (now, duration)) cr mx tot False c = Some (w, b)" "now \<le> s" "s < w"
  shows "\<exists>t. s \<le> t \<and> t < s + duration \<and> mx < usage (diagram_of False cr) t"
  by (rule utilization_below_earliest[OF assms(1,2,4,3,5,6)])

theorem utilization_below_is_earliest_witness:
  "utilization_below no_topology (Some (12, 5)) two_jobs 1 8 False None = Some (20, None) \<and>
   (\<exists>t. 16 \<le> t \<and> t < 16 + 5 \<and> 1 < usage (diagram_of False two_jobs) t)"
proof
  have e: "utilization_endtime 12 5 = 17" "utilization_endtime 20 5 = 25" by (simp_all add: endtime_exact)
  show b: "utilization_below no_topology (Some (12, 5)) two_jobs 1 8 False None = Some (20, None)"
    by (simp add: utilization_below_def utilization_fits_duration_def utilization_max_def e two_jobs_def empty_rue_def
        entry_at_def entry_util_def diagram_max_def Let_def DISPATCH_TIME_NOW_def DISPATCH_TIME_QUEUE_END_def u64_max_def)
  show "\<exists>t. 16 \<le> t \<and> t < 16 + 5 \<and> 1 < usage (diagram_of False two_jobs) t"
    by (rule utilization_below_is_earliest[OF two_jobs_below _ _ b]) (simp_all add: two_jobs_clock two_jobs_diagrams entry_at_def)
qed

text \<open>When the resource is in use above the limit for ever after the last entry, the search ends
  without a time and returns the number 0 it started with, which is \<^verbatim>\<open>DISPATCH_TIME_NOW\<close>.\<close>

lemma no_time_is_now:
  "\<exists>cr. diagram_of False cr = [entry_at 10 0, entry_at 20 5] \<and>
     utilization_below no_topology (Some (12, 10)) cr 1 8 False None = Some (DISPATCH_TIME_NOW, None) \<and>
     (\<forall>t\<ge>20. usage (diagram_of False cr) t = 5)"
proof -
  define cr :: "unit rue" where "cr = empty_rue\<lparr>RUE_utilized := Some [entry_at 10 0, entry_at 20 5]\<rparr>"
  have "utilization_below no_topology (Some (12, 10)) cr 1 8 False None = Some (DISPATCH_TIME_NOW, None)"
    by (simp add: utilization_below_def cr_def empty_rue_def entry_at_def entry_util_def Let_def)
  then show ?thesis
    by (intro exI[of _ cr]) (simp add: cr_def diagram_of_def empty_rue_def usage_def entry_at_def)
qed

text \<open>For an exclusive request the returned time need not be the earliest one, as only the entries
  of one diagram are tried: a job of ten time units would fit at 20, where the diagram of the
  non-exclusive jobs has room until 100, but the search returns 200.\<close>

lemma utilization_below_exclusive_not_earliest:
  "\<exists>cr. utilization_below no_topology (Some (12, 10)) cr 0 1 True None = Some (200, None) \<and>
     (\<forall>t. usage (diagram_of False cr) t = 0) \<and>
     usage (diagram_of True cr) 12 = 1 \<and> map (usage (diagram_of True cr)) [20..<30] = replicate 10 0"
proof -
  define cr :: "unit rue" where
    "cr = empty_rue\<lparr>RUE_utilized_nonexclusive := Some [entry_at 10 1, entry_at 20 0, entry_at 100 1, entry_at 200 0]\<rparr>"
  have e: "utilization_endtime 12 10 = 22" by (simp add: endtime_exact)
  have d: "diagram_of False cr = []" "diagram_of True cr = [entry_at 10 1, entry_at 20 0, entry_at 100 1, entry_at 200 0]"
    by (simp_all add: cr_def diagram_of_def empty_rue_def)
  have "utilization_below no_topology (Some (12, 10)) cr 0 1 True None = Some (200, None)"
    by (simp add: utilization_below_def utilization_fits_duration_def utilization_max_def e cr_def empty_rue_def
        entry_at_def entry_util_def diagram_max_def Let_def DISPATCH_TIME_NOW_def DISPATCH_TIME_QUEUE_END_def u64_max_def)
  then show ?thesis by (intro exI[of _ cr]) (simp add: d usage_def entry_at_def upt_rec numeral_eq_Suc)
qed

text \<open>A booking without a binding drops the binding that is in use at its start: after a job that
  uses one resource with a binding from 10 to 20, a booking without a binding from 15 to 25 puts
  an entry at 15 that has no binding, although the first job still holds its cores until 20.\<close>

lemma booking_drops_binding:
  assumes "RUE_utilized cr = Some [(entry_at 10 1)\<lparr>RDE_binding_inuse := Some b\<rparr>, entry_at 20 0]"
    "RUE_name cr = ''slots''"
  shows "RUE_utilized (utilization_add tp 1 cr 15 10 1 HOST_TAG True False [] []) =
    Some [(entry_at 10 1)\<lparr>RDE_binding_inuse := Some b\<rparr>, entry_at 15 2, entry_at 20 1, entry_at 25 0]"
proof -
  have e: "utilization_endtime 15 10 = 25" by (simp add: endtime_exact)
  show ?thesis
    by (simp add: utilization_add_def assms e book_diagram_def entry_at_def new_start_def new_end_def book_entry_def
        round_double_Ints
        utilization_normalize_def same_state_def utilization_rsmap_equal_def)
qed

end
