(* ===== verification/HostNames.thy ===== *)
theory HostNames
  imports Prelude
begin

text \<open>
  Host names, host group names and matchers, and how they are compared: the prefixes of
  \<^verbatim>\<open>source/libs/uti/ocs_Pattern.h\<close>, and \<^verbatim>\<open>sge_hostcpy\<close>, \<^verbatim>\<open>sge_hostcmp\<close> and the two matching
  functions of \<^verbatim>\<open>source/libs/uti/sge_hostname.cc\<close>. A string stands for a C string without its
  terminator; the buffers of the source hold \<open>CL_MAXHOSTNAMELEN\<close> characters with it. The two
  settings of the bootstrap file are a record. The pointer comparison at the start of
  \<^verbatim>\<open>sge_hostcmp\<close> only saves time, as equal names compare equal anyway. Of the value of
  \<^verbatim>\<open>strcasecmp\<close> only the sign is promised and used.
\<close>

section \<open>Strings\<close>

definition toupper :: "char \<Rightarrow> char" where
  "toupper c = (let n = of_char c :: nat in if 97 \<le> n \<and> n \<le> 122 then char_of (n - 32) else c)"

fun strcasecmp :: "string \<Rightarrow> string \<Rightarrow> int" where
  "strcasecmp [] [] = 0"
| "strcasecmp [] (_ # _) = - 1"
| "strcasecmp (_ # _) [] = 1"
| "strcasecmp (a # as) (b # bs) =
     (if tolower a = tolower b then strcasecmp as bs
      else int (of_char (tolower a)) - int (of_char (tolower b)))"

definition strncasecmp :: "string \<Rightarrow> string \<Rightarrow> nat \<Rightarrow> int" where
  "strncasecmp a b n = strcasecmp (take n a) (take n b)"

definition sge_strlcpy :: "string \<Rightarrow> nat \<Rightarrow> string" where
  \<comment> \<open>what the destination of the given size holds afterwards\<close>
  "sge_strlcpy src dstsize = take (dstsize - 1) src"

definition sge_strtoupper :: "string \<Rightarrow> nat \<Rightarrow> string" where
  "sge_strtoupper buffer max_len = map toupper (take max_len buffer) @ drop max_len buffer"

definition sge_strtolower :: "string \<Rightarrow> nat \<Rightarrow> string" where
  "sge_strtolower buffer max_len = map tolower (take max_len buffer) @ drop max_len buffer"

section \<open>The three classes of members\<close>

datatype MatcherKind = NONE_M | HOST_M | IP | IP6

datatype MemberClass = GROUP_REFERENCE | MATCHER | LITERAL_HOST

definition MATCHER_PREFIX_HOST :: string where "MATCHER_PREFIX_HOST = ''host:''"

definition MATCHER_PREFIX_IP :: string where "MATCHER_PREFIX_IP = ''ip:''"

definition MATCHER_PREFIX_IP6 :: string where "MATCHER_PREFIX_IP6 = ''ip6:''"

definition is_hgroup_name :: "string \<Rightarrow> bool" where
  "is_hgroup_name name \<longleftrightarrow> (case name of c # _ \<Rightarrow> c = CHR ''@'' | [] \<Rightarrow> False)"

definition matcher_kind :: "string \<Rightarrow> MatcherKind" where
  "matcher_kind s =
     (if strncasecmp s MATCHER_PREFIX_HOST 5 = 0 then HOST_M
      else if strncasecmp s MATCHER_PREFIX_IP6 4 = 0 then IP6
      else if strncasecmp s MATCHER_PREFIX_IP 3 = 0 then IP
      else NONE_M)"

definition is_matcher :: "string \<Rightarrow> bool" where
  "is_matcher s \<longleftrightarrow> matcher_kind s \<noteq> NONE_M"

definition matcher_payload :: "string \<Rightarrow> string option" where
  "matcher_payload s =
     (case matcher_kind s of
        HOST_M \<Rightarrow> Some (drop 5 s)
      | IP6 \<Rightarrow> Some (drop 4 s)
      | IP \<Rightarrow> Some (drop 3 s)
      | NONE_M \<Rightarrow> None)"

definition reference_pattern :: "string \<Rightarrow> string option" where
  "reference_pattern s = (if matcher_kind s = HOST_M then matcher_payload s else Some s)"

definition classify_member :: "string \<Rightarrow> MemberClass" where
  "classify_member s =
     (if is_hgroup_name s then GROUP_REFERENCE else if is_matcher s then MATCHER else LITERAL_HOST)"

section \<open>Copying and comparing\<close>

record Bootstrap =
  ignore_fqdn :: bool
  default_domain :: "string option"

definition CL_MAXHOSTNAMELEN :: nat where
  "CL_MAXHOSTNAMELEN = 256"

definition has_default_domain :: "Bootstrap \<Rightarrow> bool" where
  "has_default_domain bs \<longleftrightarrow>
     (case default_domain bs of None \<Rightarrow> False | Some d \<Rightarrow> strcasecmp d ''NONE'' \<noteq> 0)"

definition sge_hostcpy :: "Bootstrap \<Rightarrow> string \<Rightarrow> string" where
  "sge_hostcpy bs raw =
     (let N = CL_MAXHOSTNAMELEN in
      if is_hgroup_name raw \<or> is_matcher raw then sge_strlcpy raw N
      else
        let dot = CHR ''.'' \<in> set raw in
        if ignore_fqdn bs then take (N - 1) (takeWhile (\<lambda>c. c \<noteq> CHR ''.'') raw)
        else if has_default_domain bs \<and> \<not> dot then
          let copied = take (N - 1) raw; raw_len = length copied in
          if raw_len + 1 < N
          then copied @ ''.'' @ sge_strlcpy (the (default_domain bs)) (N - (raw_len + 1))
          else copied
        else sge_strlcpy raw N)"

definition sge_hostcmp :: "Bootstrap \<Rightarrow> string option \<Rightarrow> string option \<Rightarrow> int" where
  "sge_hostcmp bs h1 h2 =
     (case (h1, h2) of
        (Some a, Some b) \<Rightarrow>
          let a_is_group = (is_hgroup_name a \<or> is_matcher a);
              b_is_group = (is_hgroup_name b \<or> is_matcher b) in
          if a_is_group \<or> b_is_group then strcasecmp a b
          else
            let a_has_dot = CHR ''.'' \<in> set a;
                b_has_dot = CHR ''.'' \<in> set b;
                ignore = (if a_has_dot \<or> b_has_dot then ignore_fqdn bs else False);
                domain = (if \<not> a_has_dot \<or> \<not> b_has_dot then has_default_domain bs else False);
                a_needs_norm = (ignore \<and> a_has_dot \<or> domain \<and> \<not> a_has_dot);
                b_needs_norm = (ignore \<and> b_has_dot \<or> domain \<and> \<not> b_has_dot) in
            if \<not> a_needs_norm \<and> \<not> b_needs_norm then strcasecmp a b
            else strcasecmp (if a_needs_norm then sge_hostcpy bs a else a)
                   (if b_needs_norm then sge_hostcpy bs b else b)
      | _ \<Rightarrow> - 1)"

text \<open>\<^verbatim>\<open>fnmatch\<close> of the C library is an argument.\<close>

definition sge_hostmatch ::
    "Bootstrap \<Rightarrow> (string \<Rightarrow> string \<Rightarrow> int) \<Rightarrow> string option \<Rightarrow> string option \<Rightarrow> int" where
  "sge_hostmatch bs fnm h1 h2 =
     (case (h1, h2) of
        (Some a, Some b) \<Rightarrow> fnm (sge_hostcpy bs a) (sge_hostcpy bs b)
      | _ \<Rightarrow> - 1)"

definition sge_hostmatch_pattern ::
    "Bootstrap \<Rightarrow> (string \<Rightarrow> string \<Rightarrow> int) \<Rightarrow> string option \<Rightarrow> string option \<Rightarrow> int" where
  "sge_hostmatch_pattern bs fnm pat host =
     (case (pat, host) of
        (Some p, Some h) \<Rightarrow>
          fnm (sge_strtolower (sge_strlcpy p (CL_MAXHOSTNAMELEN + 1)) (CL_MAXHOSTNAMELEN + 1))
              (sge_strtolower (sge_hostcpy bs h) (CL_MAXHOSTNAMELEN + 1))
      | _ \<Rightarrow> - 1)"

text \<open>How \<^verbatim>\<open>lGetElemHost\<close> compares two names, in a search without a hash table, and the key of a name
  in the hash table (\<^verbatim>\<open>source/libs/cull/cull_multitype.cc\<close>).\<close>

definition same_host :: "Bootstrap \<Rightarrow> string \<Rightarrow> string \<Rightarrow> bool" where
  "same_host bs s str \<longleftrightarrow> strcasecmp (sge_hostcpy bs s) (sge_hostcpy bs str) = 0"

definition host_hash_key :: "Bootstrap \<Rightarrow> string \<Rightarrow> string" where
  "host_hash_key bs str = sge_strtoupper (sge_hostcpy bs str) CL_MAXHOSTNAMELEN"

section \<open>Keys\<close>

text \<open>Two names are the same host when their keys are equal.\<close>

definition key :: "Bootstrap \<Rightarrow> string \<Rightarrow> string" where
  "key bs n = map tolower (sge_hostcpy bs n)"

lemma of_char_tolower: "of_char (tolower c) = (let n = of_char c :: nat in if 65 \<le> n \<and> n \<le> 90 then n + 32 else n)"
proof -
  have "of_char c < (256 :: nat)" by (rule nat_of_char_less_256)
  then show ?thesis by (simp add: tolower_def Let_def)
qed

lemma strcasecmp_0: "strcasecmp a b = 0 \<longleftrightarrow> map tolower a = map tolower b"
proof (induction a b rule: strcasecmp.induct)
  case (4 a as b bs)
  then show ?case by (auto simp: of_char_eq_iff)
qed simp_all

lemma same_host_key: "same_host bs a b \<longleftrightarrow> key bs a = key bs b"
  by (simp add: same_host_def key_def strcasecmp_0)

lemma toupper_eq: "toupper a = toupper b \<longleftrightarrow> tolower a = tolower b"
proof -
  have n: "of_char a < (256 :: nat)" "of_char b < (256 :: nat)" by (rule nat_of_char_less_256)+
  have up: "of_char (toupper c) = (let n = of_char c :: nat in if 97 \<le> n \<and> n \<le> 122 then n - 32 else n)" for c
  proof -
    have "(of_char c - 32) mod 256 = (of_char c - 32 :: nat)"
      by (rule mod_less) (rule le_less_trans[OF diff_le_self nat_of_char_less_256])
    then show ?thesis by (simp add: toupper_def Let_def)
  qed
  have "toupper a = toupper b \<longleftrightarrow> of_char (toupper a) = (of_char (toupper b) :: nat)"
    by (simp add: of_char_eq_iff)
  also have "\<dots> \<longleftrightarrow> of_char (tolower a) = (of_char (tolower b) :: nat)"
    using n unfolding up of_char_tolower Let_def by (auto simp del: of_char_eq_iff)
  also have "\<dots> \<longleftrightarrow> tolower a = tolower b" by (simp add: of_char_eq_iff)
  finally show ?thesis .
qed

lemma map_toupper_eq: "map toupper a = map toupper b \<longleftrightarrow> map tolower a = map tolower b"
proof (induction a arbitrary: b)
  case (Cons c a)
  then show ?case by (cases b) (simp_all add: toupper_eq)
qed simp

end
