(* ===== verification/HostGroups.thy ===== *)
theory HostGroups
  imports HostNames "HOL-Library.Monad_Syntax"
begin

text \<open>
  Host groups: \<^verbatim>\<open>source/libs/sgeobj/sge_href.cc\<close>, \<^verbatim>\<open>source/libs/sgeobj/sge_hgroup.cc\<close>, the
  matchers of this edition in \<^verbatim>\<open>source/libs/sgeobj/ocs_Matcher.cc\<close>, and the change of a member list in
  \<^verbatim>\<open>source/daemons/qmaster/sge_hgroup_qmaster.cc\<close>. A reference list is the list of its names; an
  empty list and the null pointer behave alike and are both \<open>[]\<close>. An output parameter that may be
  the null pointer is an option. The searches that follow nested groups are partial functions:
  \<open>None\<close> is a call that does not return. Messages in answer lists are left out; the boolean results
  say whether an error was reported. Memory allocation succeeds.
\<close>

section \<open>Data\<close>

record hgroup =
  HGRP_name :: string
  HGRP_host_list :: "string list"
  HGRP_cached_hosts :: "string list"
  HGRP_cache_version :: nat

definition ADMIN_HOSTGROUP :: string where "ADMIN_HOSTGROUP = ''@admin_hosts''"

definition SUBMIT_HOSTGROUP :: string where "SUBMIT_HOSTGROUP = ''@submit_hosts''"

definition EXEC_HOSTGROUP :: string where "EXEC_HOSTGROUP = ''@exec_hosts''"

definition QUEUE_HOSTGROUP_PREFIX :: string where "QUEUE_HOSTGROUP_PREFIX = ''@@''"

section \<open>Reference lists\<close>

definition href_list_locate :: "Bootstrap \<Rightarrow> string list \<Rightarrow> string \<Rightarrow> string option" where
  "href_list_locate bs this name = find (\<lambda>x. same_host bs x name) this"

definition href_list_has_member :: "Bootstrap \<Rightarrow> string list \<Rightarrow> string \<Rightarrow> bool" where
  "href_list_has_member bs this name \<longleftrightarrow> href_list_locate bs this name \<noteq> None"

definition href_list_add :: "Bootstrap \<Rightarrow> string list \<Rightarrow> string \<Rightarrow> string list" where
  "href_list_add bs this name = (if \<not> href_list_has_member bs this name then this @ [name] else this)"

definition add_to :: "Bootstrap \<Rightarrow> string \<Rightarrow> string list option \<Rightarrow> string list option" where
  \<comment> \<open>\<open>href_list_add\<close> into a result list, unless the caller has passed the null pointer\<close>
  "add_to bs name result = map_option (\<lambda>l. href_list_add bs l name) result"

definition href_list_merge :: "Bootstrap \<Rightarrow> string list option \<Rightarrow> string list \<Rightarrow> string list option" where
  "href_list_merge bs this other = fold (add_to bs) other this"

definition compare_member ::
    "Bootstrap \<Rightarrow> string list \<Rightarrow> string \<Rightarrow>
     string list option \<times> string list option \<times> string list option \<times> string list option \<Rightarrow>
     string list option \<times> string list option \<times> string list option \<times> string list option" where
  "compare_member bs list name = (\<lambda>(add_hosts, add_groups, equity_hosts, equity_groups).
     case classify_member name of
       MATCHER \<Rightarrow> (add_hosts, add_groups, equity_hosts, equity_groups)
     | c \<Rightarrow>
         if \<not> href_list_has_member bs list name then
           if c = GROUP_REFERENCE then (add_hosts, add_to bs name add_groups, equity_hosts, equity_groups)
           else (add_to bs name add_hosts, add_groups, equity_hosts, equity_groups)
         else if c = GROUP_REFERENCE then (add_hosts, add_groups, equity_hosts, add_to bs name equity_groups)
         else (add_hosts, add_groups, add_to bs name equity_hosts, equity_groups))"

definition href_list_compare ::
    "Bootstrap \<Rightarrow> string list \<Rightarrow> string list \<Rightarrow>
     string list option \<times> string list option \<times> string list option \<times> string list option \<Rightarrow>
     string list option \<times> string list option \<times> string list option \<times> string list option" where
  "href_list_compare bs this list results = fold (compare_member bs list) this results"

definition href_list_find_diff ::
    "Bootstrap \<Rightarrow> string list \<Rightarrow> string list \<Rightarrow> string list option \<Rightarrow> string list option \<Rightarrow>
     string list option \<Rightarrow> string list option \<Rightarrow>
     string list option \<times> string list option \<times> string list option \<times> string list option" where
  \<comment> \<open>the added hosts, the removed hosts, the added groups and the removed groups\<close>
  "href_list_find_diff bs this list add_hosts rem_hosts add_groups rem_groups =
     (let (ah, ag, _, _) = href_list_compare bs this list (add_hosts, add_groups, None, None);
          (rh, rg, _, _) = href_list_compare bs list this (rem_hosts, rem_groups, None, None)
      in (ah, rh, ag, rg))"

definition href_list_remove_existing :: "Bootstrap \<Rightarrow> string list \<Rightarrow> string list \<Rightarrow> string list" where
  "href_list_remove_existing bs this list =
     fold (\<lambda>name l. case href_list_locate bs l name of None \<Rightarrow> l | Some x \<Rightarrow> remove1 x l) list this"

fun uniq_loop :: "Bootstrap \<Rightarrow> string list \<Rightarrow> string list \<Rightarrow> string list" where
  \<comment> \<open>the names kept so far stand in front, so that the first of several equal ones stays\<close>
  "uniq_loop bs kept [] = kept"
| "uniq_loop bs kept (x # xs) =
     (if href_list_has_member bs kept x then uniq_loop bs kept xs else uniq_loop bs (kept @ [x]) xs)"

definition href_list_make_uniq :: "Bootstrap \<Rightarrow> string list \<Rightarrow> string list" where
  "href_list_make_uniq bs this = uniq_loop bs [] this"

definition Matcher_prepare :: "string \<Rightarrow> string option" where
  \<comment> \<open>matchers are refused in this edition\<close>
  "Matcher_prepare member = None"

definition Matcher_expand :: "string list \<Rightarrow> string list \<Rightarrow> string list option \<Rightarrow> string list option" where
  "Matcher_expand member_list candidates hosts = hosts"

definition href_list_resolve_hostnames ::
    "(string \<Rightarrow> string option) \<Rightarrow> string list \<Rightarrow> bool \<Rightarrow> bool \<times> string list" where
  \<comment> \<open>the first argument is \<^verbatim>\<open>getuniquehostname\<close>: the name the resolver gives, if it knows the host\<close>
  "href_list_resolve_hostnames resolve this ignore_errors =
     (let step = (\<lambda>name. case classify_member name of
            GROUP_REFERENCE \<Rightarrow> (True, name)
          | MATCHER \<Rightarrow> (case Matcher_prepare name of Some stored \<Rightarrow> (True, stored) | None \<Rightarrow> (False, name))
          | LITERAL_HOST \<Rightarrow>
              (case resolve name of Some resolved \<Rightarrow> (True, resolved) | None \<Rightarrow> (ignore_errors, name)))
      in (list_all (fst \<circ> step) this, map (snd \<circ> step) this))"

fun append_names :: "bool \<Rightarrow> string list \<Rightarrow> string \<Rightarrow> string" where
  "append_names is_first [] str = str"
| "append_names is_first (n # ns) str = append_names False ns (str @ (if \<not> is_first then '' '' else []) @ n)"

definition href_list_append_to_dstring :: "string list \<Rightarrow> string \<Rightarrow> string" where
  "href_list_append_to_dstring this str = append_names True this str"

section \<open>Following references\<close>

definition hgroup_list_locate :: "Bootstrap \<Rightarrow> hgroup list \<Rightarrow> string \<Rightarrow> hgroup option" where
  "hgroup_list_locate bs this grp = find (\<lambda>h. same_host bs (HGRP_name h) grp) this"

type_synonym found = "string list option \<times> string list option \<times> string list option"

definition found_member :: "Bootstrap \<Rightarrow> string \<Rightarrow> found \<Rightarrow> found" where
  "found_member bs name = (\<lambda>(hosts, groups, matchers).
     case classify_member name of
       GROUP_REFERENCE \<Rightarrow> (hosts, add_to bs name groups, matchers)
     | MATCHER \<Rightarrow> (hosts, groups, add_to bs name matchers)
     | LITERAL_HOST \<Rightarrow> (add_to bs name hosts, groups, matchers))"

definition candidates_of :: "Bootstrap \<Rightarrow> hgroup list \<Rightarrow> string list" where
  "candidates_of bs master =
     (case hgroup_list_locate bs master EXEC_HOSTGROUP of None \<Rightarrow> [] | Some g \<Rightarrow> HGRP_host_list g)"

definition expand_into :: "bool \<Rightarrow> string list \<Rightarrow> string list \<Rightarrow> found \<Rightarrow> found" where
  "expand_into expand_matchers members candidates = (\<lambda>(hosts, groups, matchers).
     (if hosts \<noteq> None \<and> expand_matchers then Matcher_expand members candidates hosts else hosts, groups, matchers))"

definition found_reference :: "Bootstrap \<Rightarrow> hgroup list \<Rightarrow> bool \<Rightarrow> string \<Rightarrow> found \<Rightarrow> found" where
  "found_reference bs master expand_matchers name fd =
     (case classify_member name of
        GROUP_REFERENCE \<Rightarrow>
          (case hgroup_list_locate bs master name of
             None \<Rightarrow> fd
           | Some g \<Rightarrow> expand_into expand_matchers (HGRP_host_list g) (candidates_of bs master)
                         (fold (found_member bs) (HGRP_host_list g) fd))
      | MATCHER \<Rightarrow> (let (hosts, groups, matchers) = fd in (hosts, groups, add_to bs name matchers))
      | LITERAL_HOST \<Rightarrow> (let (hosts, groups, matchers) = fd in (add_to bs name hosts, groups, matchers)))"

definition href_list_find_references ::
    "Bootstrap \<Rightarrow> hgroup list option \<Rightarrow> bool \<Rightarrow> string list \<Rightarrow> found \<Rightarrow> found" where
  "href_list_find_references bs master expand_matchers this fd =
     (case master of
        None \<Rightarrow> fd
      | Some ms \<Rightarrow> expand_into expand_matchers this (candidates_of bs ms)
                     (fold (found_reference bs ms expand_matchers) this fd))"

partial_function (option) href_list_find_all_references ::
    "Bootstrap \<Rightarrow> hgroup list option \<Rightarrow> bool \<Rightarrow> string list \<Rightarrow> found \<Rightarrow> found option" where
  "href_list_find_all_references bs master expand_matchers this fd =
     (if master = None then Some fd
      else
        let (hosts, used_groups, matchers) = fd;
            (hosts1, groups1, matchers1) =
              href_list_find_references bs master expand_matchers this
                (hosts, Some (case used_groups of None \<Rightarrow> [] | Some g \<Rightarrow> g), matchers);
            result = (\<lambda>(h, g, m). (h, if used_groups = None then None else g, m))
        in if the groups1 \<noteq> [] then
             do { (sub_hosts, sub_groups, sub_matchers) \<leftarrow>
                    href_list_find_all_references bs master expand_matchers (the groups1)
                      (Some [], Some [], if matchers \<noteq> None then Some [] else None);
                  Some (result (href_list_merge bs hosts1 (the sub_hosts), href_list_merge bs groups1 (the sub_groups),
                    href_list_merge bs matchers1 (case sub_matchers of None \<Rightarrow> [] | Some m \<Rightarrow> m))) }
           else Some (result (hosts1, groups1, matchers1)))"

definition href_list_find_effective_diff ::
    "Bootstrap \<Rightarrow> hgroup list option \<Rightarrow> string list \<Rightarrow> string list \<Rightarrow> string list \<Rightarrow> string list \<Rightarrow>
     (string list \<times> string list) option" where
  "href_list_find_effective_diff bs master add_groups rem_groups add_hosts rem_hosts =
     do { add \<leftarrow> (if add_groups \<noteq> [] then
                  do { (h, _, _) \<leftarrow> href_list_find_all_references bs master True add_groups (Some add_hosts, None, None);
                       Some (the h) }
                else Some add_hosts);
          rem \<leftarrow> (if rem_groups \<noteq> [] then
                  do { (h, _, _) \<leftarrow> href_list_find_all_references bs master True rem_groups (Some rem_hosts, None, None);
                       Some (the h) }
                else Some rem_hosts);
          Some (if add \<noteq> [] \<and> rem \<noteq> [] then
                  (let (ah, rh, _, _) = href_list_find_diff bs add rem (Some []) (Some []) None None in (the ah, the rh))
                else (add, rem)) }"

definition found_referencee :: "Bootstrap \<Rightarrow> string \<Rightarrow> hgroup \<Rightarrow> string list \<Rightarrow> string list" where
  "found_referencee bs name h occupants =
     (if href_list_locate bs (HGRP_host_list h) name \<noteq> None then href_list_add bs occupants (HGRP_name h)
      else occupants)"

definition href_list_find_referencees ::
    "Bootstrap \<Rightarrow> hgroup list \<Rightarrow> string list \<Rightarrow> string list \<Rightarrow> string list" where
  "href_list_find_referencees bs master this occupants =
     fold (\<lambda>name occ. if is_hgroup_name name then fold (found_referencee bs name) master occ else occ) this occupants"

partial_function (option) href_list_find_all_referencees ::
    "Bootstrap \<Rightarrow> hgroup list \<Rightarrow> string list \<Rightarrow> string list \<Rightarrow> string list option" where
  "href_list_find_all_referencees bs master this occupants =
     (let occ1 = href_list_find_referencees bs master this occupants in
      if occ1 \<noteq> [] then
        do { sub \<leftarrow> href_list_find_all_referencees bs master occ1 [];
             Some (the (href_list_merge bs (Some occ1) sub)) }
      else Some occ1)"

section \<open>Host groups\<close>

definition hgroup_find_all_references ::
    "Bootstrap \<Rightarrow> hgroup list option \<Rightarrow> bool \<Rightarrow> hgroup \<Rightarrow> found \<Rightarrow> found option" where
  "hgroup_find_all_references bs master expand_matchers this fd =
     (if master = None then Some fd
      else href_list_find_all_references bs master expand_matchers (href_list_add bs [] (HGRP_name this)) fd)"

definition hgroup_find_references :: "Bootstrap \<Rightarrow> hgroup list option \<Rightarrow> hgroup \<Rightarrow> found \<Rightarrow> found" where
  "hgroup_find_references bs master this fd =
     (if master = None then fd
      else href_list_find_references bs master True (href_list_add bs [] (HGRP_name this)) fd)"

definition hgroup_find_all_referencees ::
    "Bootstrap \<Rightarrow> hgroup list \<Rightarrow> hgroup \<Rightarrow> string list \<Rightarrow> string list option" where
  "hgroup_find_all_referencees bs master this occupants =
     href_list_find_all_referencees bs master (href_list_add bs [] (HGRP_name this)) occupants"

text \<open>The cache of resolved hosts. The version counter is static in the code and a state here.\<close>

definition hgroup_update_cache ::
    "Bootstrap \<Rightarrow> hgroup list option \<Rightarrow> hgroup \<Rightarrow> nat \<Rightarrow> (bool \<times> hgroup \<times> nat) option" where
  "hgroup_update_cache bs master h next_version =
     (if master = None then Some (False, h, next_version)
      else do { (hosts, _, _) \<leftarrow> hgroup_find_all_references bs master True h (Some [], None, None);
                let v = add32 next_version 1; version = (if v = 0 then 1 else v) in
                Some (True, h\<lparr>HGRP_cached_hosts := the hosts, HGRP_cache_version := version\<rparr>, version) })"

fun update_caches :: "Bootstrap \<Rightarrow> hgroup list \<Rightarrow> hgroup list \<Rightarrow> nat \<Rightarrow> (bool \<times> hgroup list \<times> nat) option" where
  \<comment> \<open>the groups in front are refreshed already\<close>
  "update_caches bs done [] v = Some (True, done, v)"
| "update_caches bs done (h # hs) v =
     do { (ok, h', v') \<leftarrow> hgroup_update_cache bs (Some (done @ h # hs)) h v;
          (ok', hs', v'') \<leftarrow> update_caches bs (done @ [h']) hs v';
          Some (ok \<and> ok', hs', v'') }"

definition hgroup_list_update_caches :: "Bootstrap \<Rightarrow> hgroup list \<Rightarrow> nat \<Rightarrow> (bool \<times> hgroup list \<times> nat) option" where
  "hgroup_list_update_caches bs master v = update_caches bs [] master v"

definition hgroup_has_host_cache :: "hgroup \<Rightarrow> bool" where
  "hgroup_has_host_cache h \<longleftrightarrow> HGRP_cache_version h \<noteq> 0"

definition hgroup_cache_contains_host :: "Bootstrap \<Rightarrow> hgroup \<Rightarrow> string \<Rightarrow> bool" where
  "hgroup_cache_contains_host bs h hostname \<longleftrightarrow> href_list_locate bs (HGRP_cached_hosts h) hostname \<noteq> None"

definition hgroup_contains_host :: "Bootstrap \<Rightarrow> hgroup list option \<Rightarrow> hgroup \<Rightarrow> string \<Rightarrow> bool option" where
  "hgroup_contains_host bs master h hostname =
     (if hgroup_has_host_cache h then Some (hgroup_cache_contains_host bs h hostname)
      else do { (hosts, _, _) \<leftarrow> hgroup_find_all_references bs master True h (Some [], None, None);
                Some (href_list_locate bs (the hosts) hostname \<noteq> None) })"

definition HGROUP_WHY_MAX_NESTING :: nat where
  "HGROUP_WHY_MAX_NESTING = 32"

fun hgroup_why_named :: "nat \<Rightarrow> Bootstrap \<Rightarrow> hgroup list \<Rightarrow> string \<Rightarrow> hgroup \<Rightarrow> string option" where
  \<comment> \<open>the first argument counts down how deep the recursion may still go\<close>
  "hgroup_why_named 0 bs master hostname h = None"
| "hgroup_why_named (Suc n) bs master hostname h =
     (if list_ex (\<lambda>m. classify_member m = LITERAL_HOST \<and> sge_hostcmp bs (Some m) (Some hostname) = 0) (HGRP_host_list h)
      then Some (HGRP_name h)
      else
        foldr (\<lambda>m rest.
            if classify_member m = GROUP_REFERENCE then
              (case hgroup_list_locate bs master m of
                 None \<Rightarrow> rest
               | Some g \<Rightarrow> (case hgroup_why_named n bs master hostname g of Some x \<Rightarrow> Some x | None \<Rightarrow> rest))
            else rest)
          (HGRP_host_list h) None)"

datatype Route = NOT_A_MEMBER | LITERAL | VIA_GROUP | VIA_MATCHER

definition Matcher_why :: "hgroup \<Rightarrow> string \<Rightarrow> hgroup list \<Rightarrow> Route" where
  \<comment> \<open>no group of this edition has a matcher\<close>
  "Matcher_why h hostname master = NOT_A_MEMBER"

definition hgroup_why :: "Bootstrap \<Rightarrow> hgroup list \<Rightarrow> hgroup \<Rightarrow> string \<Rightarrow> Route \<times> string option" where
  \<comment> \<open>the route, and the group when it is another one\<close>
  "hgroup_why bs master h hostname =
     (case hgroup_why_named (Suc HGROUP_WHY_MAX_NESTING) bs master hostname h of
        Some found_in \<Rightarrow> if found_in = HGRP_name h then (LITERAL, None) else (VIA_GROUP, Some found_in)
      | None \<Rightarrow> (Matcher_why h hostname master, None))"

definition hgroup_split_members ::
    "hgroup \<Rightarrow> string list \<times> string list \<times> string list \<Rightarrow> bool \<times> string list \<times> string list \<times> string list" where
  "hgroup_split_members h = (\<lambda>(hosts, groups, matchers).
     let of_class = (\<lambda>c. filter (\<lambda>m. classify_member m = c) (HGRP_host_list h)) in
     (of_class MATCHER \<noteq> [], hosts @ of_class LITERAL_HOST, groups @ of_class GROUP_REFERENCE,
      matchers @ of_class MATCHER))"

definition hgroup_is_reserved :: "Bootstrap \<Rightarrow> string \<Rightarrow> bool" where
  "hgroup_is_reserved bs name \<longleftrightarrow>
     sge_hostcmp bs (Some name) (Some ADMIN_HOSTGROUP) = 0 \<or>
     sge_hostcmp bs (Some name) (Some SUBMIT_HOSTGROUP) = 0 \<or>
     sge_hostcmp bs (Some name) (Some EXEC_HOSTGROUP) = 0"

definition hgroup_is_system_maintained :: "Bootstrap \<Rightarrow> string \<Rightarrow> bool" where
  "hgroup_is_system_maintained bs name \<longleftrightarrow> sge_hostcmp bs (Some name) (Some EXEC_HOSTGROUP) = 0"

definition hgroup_is_queue_group :: "string \<Rightarrow> bool" where
  "hgroup_is_queue_group name \<longleftrightarrow>
     take (length QUEUE_HOSTGROUP_PREFIX) name = QUEUE_HOSTGROUP_PREFIX"

definition hgroup_queue_group_name :: "string \<Rightarrow> string" where
  "hgroup_queue_group_name cqueue_name = QUEUE_HOSTGROUP_PREFIX @ cqueue_name"

definition hgroup_queue_of_group_name :: "string \<Rightarrow> string option" where
  "hgroup_queue_of_group_name name =
     (if \<not> hgroup_is_queue_group name then None
      else let queue_name = drop (length QUEUE_HOSTGROUP_PREFIX) name in
           if queue_name \<noteq> [] then Some queue_name else None)"

definition hgroup_add_references :: "Bootstrap \<Rightarrow> hgroup \<Rightarrow> string list \<Rightarrow> hgroup" where
  "hgroup_add_references bs h refs =
     h\<lparr>HGRP_host_list := fold (\<lambda>n l. href_list_add bs l n) refs (HGRP_host_list h)\<rparr>"

definition hgroup_list_exists :: "Bootstrap \<Rightarrow> hgroup list option \<Rightarrow> string list \<Rightarrow> bool" where
  "hgroup_list_exists bs this hrefs \<longleftrightarrow>
     (case this of
        None \<Rightarrow> True
      | Some ms \<Rightarrow> list_all (\<lambda>name. is_hgroup_name name \<longrightarrow> hgroup_list_locate bs ms name \<noteq> None) hrefs)"

section \<open>Changing the members of a group\<close>

text \<open>\<^verbatim>\<open>attr_mod_sub_list\<close> of \<^verbatim>\<open>source/daemons/qmaster/sge_utility_qmaster.cc\<close>, for a list whose elements
  hold nothing but their key: \<open>eq\<close> compares two of them. The flags of the sub command say what to do
  with the elements given.\<close>

record SubCommand =
  CHANGE :: bool
  APPEND :: bool
  REMOVE :: bool

function mod_existing ::
    "('a \<Rightarrow> 'a \<Rightarrow> bool) \<Rightarrow> SubCommand \<Rightarrow> bool \<Rightarrow> 'a list \<Rightarrow> 'a list \<Rightarrow> bool \<Rightarrow> bool \<times> 'a list \<times> 'a list \<times> bool" where
  \<comment> \<open>the elements that are found; the loop starts again after each of them. The elements of a member list
     have one field, the host: \<^verbatim>\<open>object_has_differences\<close> compares it with \<^verbatim>\<open>sge_hostcmp\<close>, as the search does, so a
     change never finds a difference and keeps the old element\<close>
  "mod_existing eq sub no_info reduced full changed =
     (case find (\<lambda>r. list_ex (eq r) full) reduced of
        None \<Rightarrow> (True, reduced, full, changed)
      | Some r \<Rightarrow>
          if CHANGE sub then mod_existing eq sub no_info (remove1 r reduced) full changed
          else if APPEND sub then
            (if \<not> no_info then (False, remove1 r reduced, full, changed)
             else mod_existing eq sub no_info (remove1 r reduced) full changed)
          else if REMOVE sub then
            mod_existing eq sub no_info (remove1 r reduced) (remove1 (the (find (eq r) full)) full) True
          else (True, reduced, full, changed))"
  by pat_completeness auto
termination
  by (relation "measure (\<lambda>(eq, sub, no_info, reduced, full, changed). length reduced)")
    (auto dest!: find_SomeD simp: length_remove1 intro!: diff_less intro: length_pos_if_in_set)

declare mod_existing.simps [simp del]

definition attr_mod_sub_list ::
    "('a \<Rightarrow> 'a \<Rightarrow> bool) \<Rightarrow> SubCommand \<Rightarrow> bool \<Rightarrow> 'a list \<Rightarrow> 'a list \<Rightarrow> bool \<times> 'a list \<times> bool" where
  \<comment> \<open>the result, the new list, and whether it was changed\<close>
  "attr_mod_sub_list eq sub no_info delta full =
     (if CHANGE sub \<or> APPEND sub \<or> REMOVE sub then
        let (ret, reduced, full1, changed) = mod_existing eq sub no_info delta full False in
        if ret then
          if \<not> no_info \<and> REMOVE sub then (True, full1, changed)
          else (True, full1 @ reduced, changed \<or> reduced \<noteq> [])
        else (False, full1, changed)
      else (True, delta, True))"

definition delta_is_strict :: "Bootstrap \<Rightarrow> hgroup \<Rightarrow> string list \<Rightarrow> SubCommand \<Rightarrow> bool" where
  \<comment> \<open>\<^verbatim>\<open>hgroup_reserved_delta_is_strict\<close>; it also builds an error message from the nested groups\<close>
  "delta_is_strict bs h delta sub =
     (if HGRP_name h \<noteq> ADMIN_HOSTGROUP \<and> HGRP_name h \<noteq> SUBMIT_HOSTGROUP then True
      else list_all (\<lambda>name.
        let is_member = href_list_locate bs (HGRP_host_list h) name \<noteq> None in
        if APPEND sub \<and> is_member then False else \<not> (REMOVE sub \<and> \<not> is_member)) delta)"

definition hgroup_mod_hostlist ::
    "Bootstrap \<Rightarrow> (string \<Rightarrow> string option) \<Rightarrow> hgroup list \<Rightarrow> hgroup \<Rightarrow> string list \<Rightarrow> SubCommand \<Rightarrow>
     (bool \<times> hgroup \<times> string list \<times> string list \<times> string list) option" where
  \<comment> \<open>the result, the changed group, the added hosts, the removed hosts and the groups that contain it\<close>
  "hgroup_mod_hostlist bs resolve master h list sub =
     (let old = HGRP_host_list h; (ret1, members) = href_list_resolve_hostnames resolve list True in
      if \<not> ret1 \<or> \<not> delta_is_strict bs h members sub then Some (False, h, [], [], [])
      else
        let (_, merged, _) = attr_mod_sub_list (\<lambda>r f. sge_hostcmp bs (Some r) (Some f) = 0) sub False members old;
            new = href_list_make_uniq bs merged;
            h' = h\<lparr>HGRP_host_list := new\<rparr>
        in
        if list_ex hgroup_is_queue_group new then Some (False, h', [], [], [])
        else
          let (ah, rh, ag, rg) = href_list_find_diff bs new old (Some []) (Some []) (Some []) (Some []);
              add_groups = the ag; rem_groups = the rg
          in
          if add_groups \<noteq> [] \<and> \<not> hgroup_list_exists bs (Some master) add_groups
          then Some (False, h', the ah, the rh, [])
          else
            do { (add_hosts, rem_hosts) \<leftarrow>
                   href_list_find_effective_diff bs (Some master) add_groups rem_groups (the ah) (the rh);
                 let (ret2, add_hosts') = href_list_resolve_hostnames resolve add_hosts False in
                 if \<not> ret2 then Some (False, h', add_hosts', rem_hosts, [])
                 else
                   do { occ \<leftarrow> hgroup_find_all_referencees bs master h' [];
                        let occupants = href_list_add bs occ (HGRP_name h') in
                        if list_ex (href_list_has_member bs occupants) add_groups
                        then Some (False, h', add_hosts', rem_hosts, occupants)
                        else
                          do { (before, _, _) \<leftarrow>
                                 href_list_find_all_references bs (Some master) True old (Some [], None, None);
                               (after, _, _) \<leftarrow>
                                 href_list_find_all_references bs (Some master) True new (Some [], None, None);
                               Some (True, h', href_list_remove_existing bs add_hosts' (the before),
                                 href_list_remove_existing bs rem_hosts (the after), occupants) } } })"

section \<open>Deleting a group\<close>

datatype status = STATUS_OK | STATUS_EEXIST | STATUS_EUNKNOWN

definition hgroup_find_referencees ::
    "Bootstrap \<Rightarrow> hgroup list \<Rightarrow> (hgroup \<Rightarrow> string list) \<Rightarrow> hgroup \<Rightarrow> string list \<times> string list" where
  \<comment> \<open>the groups and the cluster queues that refer to the group; the second argument is
     \<^verbatim>\<open>cqueue_list_find_hgroup_references\<close>\<close>
  "hgroup_find_referencees bs master queues_of h =
     (href_list_find_referencees bs master (href_list_add bs [] (HGRP_name h)) [], queues_of h)"

definition hgroup_del ::
    "Bootstrap \<Rightarrow> hgroup list \<Rightarrow> (hgroup \<Rightarrow> string list) \<Rightarrow> bool \<Rightarrow> string \<Rightarrow> status \<times> hgroup list" where
  \<comment> \<open>\<open>spooled\<close> says whether the deletion could be written to the spool database\<close>
  "hgroup_del bs master queues_of spooled name =
     (if hgroup_is_reserved bs name then (STATUS_EEXIST, master)
      else if hgroup_is_queue_group name then (STATUS_EEXIST, master)
      else case hgroup_list_locate bs master name of
          None \<Rightarrow> (STATUS_EUNKNOWN, master)
        | Some h \<Rightarrow>
            let (groups, queues) = hgroup_find_referencees bs master queues_of h in
            if groups \<noteq> [] \<or> queues \<noteq> [] then (STATUS_EUNKNOWN, master)
            else if spooled then (STATUS_OK, remove1 h master)
            else (STATUS_EUNKNOWN, master))"

end
