(* ===== verification/HostNames_Props.thy ===== *)
theory HostNames_Props
  imports HostNames "HOL-Library.Sublist"
begin

text \<open>
  Comparing host names: \<^verbatim>\<open>sge_hostcmp\<close>, the search in a list and the keys of a hash table agree,
  and names that agree belong to the same class of members.
\<close>

lemma tolower_simps [simp]:
  "tolower (CHR ''.'') = CHR ''.''" "tolower (CHR '':'') = CHR '':''" "tolower (CHR ''@'') = CHR ''@''"
  by (simp_all add: tolower_def Let_def)

lemma tolower_eq_at: "tolower c = CHR ''@'' \<longleftrightarrow> c = CHR ''@''"
proof
  assume "tolower c = CHR ''@''"
  then have "of_char (tolower c) = (64 :: nat)" by simp
  then have "of_char c = (64 :: nat)" by (auto simp: of_char_tolower Let_def split: if_splits)
  then have "of_char c = (of_char (CHR ''@'') :: nat)" by simp
  then show "c = CHR ''@''" by (simp only: of_char_eq_iff)
qed simp

section \<open>The shape of a copied name\<close>

lemma hostcpy_special: "is_hgroup_name n \<or> is_matcher n \<Longrightarrow> sge_hostcpy bs n = take 255 n"
  by (simp add: sge_hostcpy_def sge_strlcpy_def CL_MAXHOSTNAMELEN_def Let_def)

lemma hostcpy_shape:
  obtains u w where "sge_hostcpy bs n = u @ w" "prefix u n" "w = [] \<or> hd w = CHR ''.''"
proof -
  have p: "prefix (take k n) n" "prefix (take k (takeWhile Q n)) n" for k and Q :: "char \<Rightarrow> bool"
    using prefix_order.trans[OF take_is_prefix takeWhile_is_prefix] by (auto simp: take_is_prefix)
  have "sge_hostcpy bs n = take 255 n \<or> sge_hostcpy bs n = take 255 (takeWhile (\<lambda>c. c \<noteq> CHR ''.'') n) \<or>
      (\<exists>v. sge_hostcpy bs n = take 255 n @ CHR ''.'' # v)"
    by (simp add: sge_hostcpy_def sge_strlcpy_def CL_MAXHOSTNAMELEN_def Let_def)
  then consider "sge_hostcpy bs n = take 255 n"
    | "sge_hostcpy bs n = take 255 (takeWhile (\<lambda>c. c \<noteq> CHR ''.'') n)"
    | v where "sge_hostcpy bs n = take 255 n @ CHR ''.'' # v" by blast
  then show ?thesis
  proof cases
    case 1
    then show ?thesis using that[of "take 255 n" "[]"] p(1) by simp
  next
    case 2
    then show ?thesis using that[of "take 255 (takeWhile (\<lambda>c. c \<noteq> CHR ''.'') n)" "[]"] p(2) by simp
  next
    case 3
    then show ?thesis using that[of "take 255 n" "CHR ''.'' # v"] p(1) by simp
  qed
qed

lemma hostcpy_length: "length (sge_hostcpy bs n) \<le> 255"
  by (auto simp: sge_hostcpy_def sge_strlcpy_def CL_MAXHOSTNAMELEN_def Let_def)

lemma key_prefix:
  assumes "take (length p) (key bs n) = p" "CHR ''.'' \<notin> set p"
  shows "take (length p) (map tolower n) = p"
proof -
  obtain u w where s: "sge_hostcpy bs n = u @ w" "prefix u n" "w = [] \<or> hd w = CHR ''.''"
    by (rule hostcpy_shape)
  have k: "take (length p) (map tolower u @ map tolower w) = p" using assms(1) by (simp add: key_def s(1))
  have "length p \<le> length u"
  proof (rule ccontr)
    assume "\<not> length p \<le> length u"
    then have lt: "length u < length p" by simp
    have "length p \<le> length (map tolower u @ map tolower w)" using arg_cong[OF k, of length] by simp
    then have "w \<noteq> []" using lt by auto
    then obtain v where w: "w = CHR ''.'' # v" using s(3) by (cases w) auto
    have "p ! length u = take (length p) (map tolower u @ map tolower w) ! length u" by (simp only: k)
    also have "\<dots> = CHR ''.''" using lt by (simp add: w nth_append)
    finally show False using assms(2) nth_mem[OF lt] by simp
  qed
  then have "take (length p) (map tolower u) = p" using k by simp
  moreover obtain v where "n = u @ v" using s(2) by (auto simp: prefix_def)
  ultimately show ?thesis using \<open>length p \<le> length u\<close> by simp
qed

lemma is_hgroup_name_iff: "is_hgroup_name n \<longleftrightarrow> take 1 (map tolower n) = ''@''"
  by (cases n) (simp_all add: is_hgroup_name_def tolower_eq_at)

lemma strncasecmp_0: "length p = k \<Longrightarrow> map tolower p = p \<Longrightarrow> strncasecmp n p k = 0 \<longleftrightarrow> take k (map tolower n) = p"
  by (simp add: strncasecmp_def strcasecmp_0 take_map)

definition prefixes :: "string list" where
  "prefixes = [''host:'', ''ip6:'', ''ip:'']"

lemma is_matcher_iff: "is_matcher n \<longleftrightarrow> (\<exists>p\<in>set prefixes. take (length p) (map tolower n) = p)"
proof -
  have "map tolower ''host:'' = ''host:''" "map tolower ''ip6:'' = ''ip6:''" "map tolower ''ip:'' = ''ip:''"
    by (simp_all add: tolower_def Let_def)
  then show ?thesis
    by (simp add: is_matcher_def matcher_kind_def MATCHER_PREFIX_HOST_def MATCHER_PREFIX_IP6_def MATCHER_PREFIX_IP_def
        strncasecmp_0 prefixes_def numeral_eq_Suc)
qed

lemma is_hgroup_name_key: "is_hgroup_name n \<longleftrightarrow> take 1 (key bs n) = ''@''"
proof
  assume "is_hgroup_name n"
  then show "take 1 (key bs n) = ''@''" by (simp add: key_def hostcpy_special is_hgroup_name_iff take_map[symmetric] min_def)
next
  assume "take 1 (key bs n) = ''@''"
  then show "is_hgroup_name n" unfolding is_hgroup_name_iff using key_prefix[of "''@''" bs n] by simp
qed

lemma is_matcher_key: "is_matcher n \<longleftrightarrow> (\<exists>p\<in>set prefixes. take (length p) (key bs n) = p)"
proof
  assume m: "is_matcher n"
  then obtain p where p: "p \<in> set prefixes" "take (length p) (map tolower n) = p" by (auto simp: is_matcher_iff)
  have "length p \<le> 255" using p(1) by (auto simp: prefixes_def)
  then have "take (length p) (key bs n) = p"
    using m p(2) by (simp add: key_def hostcpy_special take_map[symmetric] min_def)
  then show "\<exists>p\<in>set prefixes. take (length p) (key bs n) = p" using p(1) by blast
next
  assume "\<exists>p\<in>set prefixes. take (length p) (key bs n) = p"
  then obtain p where p: "p \<in> set prefixes" "take (length p) (key bs n) = p" by blast
  have "CHR ''.'' \<notin> set p" using p(1) by (auto simp: prefixes_def)
  then show "is_matcher n" unfolding is_matcher_iff using key_prefix[OF p(2)] p(1) by blast
qed

lemma classify_member_key: "key bs a = key bs b \<Longrightarrow> classify_member a = classify_member b"
  unfolding classify_member_def is_hgroup_name_key[of _ bs] is_matcher_key[of _ bs] by simp

section \<open>The comparisons agree\<close>

lemma hostcpy_plain:
  assumes "\<not> (is_hgroup_name n \<or> is_matcher n)" "length n < 256"
    "CHR ''.'' \<in> set n \<Longrightarrow> \<not> ignore_fqdn bs" "CHR ''.'' \<notin> set n \<Longrightarrow> \<not> has_default_domain bs"
  shows "sge_hostcpy bs n = n"
proof (cases "CHR ''.'' \<in> set n")
  case True
  then show ?thesis using assms by (simp add: sge_hostcpy_def sge_strlcpy_def CL_MAXHOSTNAMELEN_def)
next
  case False
  then have t: "takeWhile (\<lambda>c. c \<noteq> CHR ''.'') n = n" by (auto simp: takeWhile_eq_all_conv)
  show ?thesis unfolding sge_hostcpy_def t using assms False by (simp add: sge_hostcpy_def sge_strlcpy_def CL_MAXHOSTNAMELEN_def)
qed

lemma hostcmp_key:
  assumes "length a < 256" "length b < 256"
  shows "sge_hostcmp bs (Some a) (Some b) = 0 \<longleftrightarrow> key bs a = key bs b"
proof (cases "(is_hgroup_name a \<or> is_matcher a) \<or> (is_hgroup_name b \<or> is_matcher b)")
  case True
  then have c: "sge_hostcmp bs (Some a) (Some b) = 0 \<longleftrightarrow> map tolower a = map tolower b"
    by (simp add: sge_hostcmp_def strcasecmp_0)
  have both: "(is_hgroup_name a \<or> is_matcher a) \<and> (is_hgroup_name b \<or> is_matcher b)"
    if "map tolower a = map tolower b \<or> key bs a = key bs b"
    using that
  proof
    assume e: "map tolower a = map tolower b"
    have "is_hgroup_name a = is_hgroup_name b" "is_matcher a = is_matcher b"
      unfolding is_hgroup_name_iff is_matcher_iff e by simp_all
    then show ?thesis using True by blast
  next
    assume e: "key bs a = key bs b"
    have "is_hgroup_name a = is_hgroup_name b" "is_matcher a = is_matcher b"
      unfolding is_hgroup_name_key[of _ bs] is_matcher_key[of _ bs] e by simp_all
    then show ?thesis using True by blast
  qed
  have "key bs a = map tolower a \<and> key bs b = map tolower b"
    if "(is_hgroup_name a \<or> is_matcher a) \<and> (is_hgroup_name b \<or> is_matcher b)"
    using that assms by (simp add: key_def hostcpy_special)
  then show ?thesis using both unfolding c by metis
next
  case False
  define needs where "needs = (\<lambda>n. ignore_fqdn bs \<and> CHR ''.'' \<in> set n \<or> has_default_domain bs \<and> CHR ''.'' \<notin> set n)"
  have "sge_hostcmp bs (Some a) (Some b) =
      strcasecmp (if needs a then sge_hostcpy bs a else a) (if needs b then sge_hostcpy bs b else b)"
    using False unfolding needs_def sge_hostcmp_def Let_def by auto
  moreover have "(if needs n then sge_hostcpy bs n else n) = sge_hostcpy bs n" if "n = a \<or> n = b" for n
    using that False assms hostcpy_plain[of n bs] by (auto simp: needs_def)
  ultimately show ?thesis by (simp add: key_def strcasecmp_0)
qed

lemma host_hash_key_eq: "host_hash_key bs a = host_hash_key bs b \<longleftrightarrow> key bs a = key bs b"
proof -
  have "host_hash_key bs n = map toupper (sge_hostcpy bs n)" for n
    using hostcpy_length[of bs n] by (simp add: host_hash_key_def sge_strtoupper_def CL_MAXHOSTNAMELEN_def)
  then show ?thesis by (simp add: map_toupper_eq key_def)
qed

text \<open>For names that fit into the buffers, comparing two names with \<^verbatim>\<open>sge_hostcmp\<close>, comparing them in
  a search of a list and comparing their keys in a hash table give the same answer, whatever the
  settings for domains are. A group name, a matcher and a host name never compare equal to each
  other.\<close>

lemma host_comparisons_agree:
  assumes "length a < CL_MAXHOSTNAMELEN" "length b < CL_MAXHOSTNAMELEN"
  shows "(sge_hostcmp bs (Some a) (Some b) = 0 \<longleftrightarrow> same_host bs a b) \<and>
    (same_host bs a b \<longleftrightarrow> host_hash_key bs a = host_hash_key bs b) \<and>
    (same_host bs a b \<longrightarrow> classify_member a = classify_member b)"
  using assms hostcmp_key[of a b bs] classify_member_key[of bs a b]
  by (simp add: CL_MAXHOSTNAMELEN_def same_host_key host_hash_key_eq)

end
