(* ===== verification/HostGroups_Correct.thy ===== *)
theory HostGroups_Correct
  imports HostGroups HostNames_Props
begin

text \<open>
  The references of the groups form a graph on the keys of their names. A search for all
  references ends exactly when no path from its start is infinite, and then finds what is reachable.
  The change of a member list refuses a change that would close a cycle, so the graph stays
  acyclic and every search of the master ends.
\<close>

section \<open>Reference lists as sets of keys\<close>

definition keys :: "Bootstrap \<Rightarrow> string list \<Rightarrow> string set" where
  "keys bs l = key bs ` set l"

definition keys_of :: "Bootstrap \<Rightarrow> MemberClass \<Rightarrow> string list \<Rightarrow> string set" where
  "keys_of bs c l = key bs ` {n \<in> set l. classify_member n = c}"

text \<open>A result list holds names of one class, each once.\<close>

definition proper :: "Bootstrap \<Rightarrow> MemberClass \<Rightarrow> string list \<Rightarrow> bool" where
  "proper bs c l \<longleftrightarrow> distinct (map (key bs) l) \<and> (\<forall>n\<in>set l. classify_member n = c)"

lemma keys_simps [simp]: "keys bs [] = {}" "keys bs (n # l) = insert (key bs n) (keys bs l)"
  "keys bs (l @ l') = keys bs l \<union> keys bs l'"
  by (auto simp: keys_def)

lemma keys_empty_iff [simp]: "keys bs l = {} \<longleftrightarrow> l = []"
  by (simp add: keys_def)

lemma keys_of_simps [simp]: "keys_of bs c [] = {}"
  "keys_of bs c (n # l) = (if classify_member n = c then insert (key bs n) (keys_of bs c l) else keys_of bs c l)"
  by (auto simp: keys_of_def)

lemma keys_of_append [simp]: "keys_of bs c (l @ l') = keys_of bs c l \<union> keys_of bs c l'"
  by (auto simp: keys_of_def)

lemma keys_of_subset: "keys_of bs c l \<subseteq> keys bs l"
  by (auto simp: keys_of_def keys_def)

lemma proper_Nil [simp]: "proper bs c []"
  by (simp add: proper_def)

lemma proper_keys: "proper bs c l \<Longrightarrow> keys_of bs c l = keys bs l"
  by (auto simp: proper_def keys_of_def keys_def)

lemma proper_other: "proper bs c l \<Longrightarrow> c \<noteq> c' \<Longrightarrow> keys_of bs c' l = {}"
  by (auto simp: proper_def keys_of_def)

lemma key_in_keys: "key bs n \<in> keys bs l \<longleftrightarrow> key bs n \<in> keys_of bs (classify_member n) l"
proof
  assume "key bs n \<in> keys bs l"
  then obtain x where "x \<in> set l" "key bs n = key bs x" by (auto simp: keys_def)
  then show "key bs n \<in> keys_of bs (classify_member n) l"
    using classify_member_key[of bs n x] by (auto simp: keys_of_def)
qed (use keys_of_subset in blast)

lemma has_member_iff: "href_list_has_member bs l n \<longleftrightarrow> key bs n \<in> keys bs l"
  by (auto simp: href_list_has_member_def href_list_locate_def find_eq_NoneD same_host_key keys_def intro: rev_image_eqI)

lemma locate_iff: "href_list_locate bs l n \<noteq> None \<longleftrightarrow> key bs n \<in> keys bs l"
  by (simp add: has_member_iff[symmetric] href_list_has_member_def)

lemma href_list_add_keys [simp]: "keys bs (href_list_add bs l n) = insert (key bs n) (keys bs l)"
  by (auto simp: href_list_add_def has_member_iff)

lemma href_list_add_proper:
  "proper bs c l \<Longrightarrow> classify_member n = c \<Longrightarrow> proper bs c (href_list_add bs l n)"
  by (auto simp: href_list_add_def has_member_iff proper_def keys_def)

lemma href_list_add_not_Nil [simp]: "href_list_add bs l n \<noteq> []"
  by (auto simp: href_list_add_def href_list_has_member_def href_list_locate_def)

lemma href_list_add_Nil [simp]: "href_list_add bs [] n = [n]"
  by (simp add: href_list_add_def has_member_iff)

lemma href_list_add_set: "set (href_list_add bs l n) \<subseteq> insert n (set l)"
  by (auto simp: href_list_add_def)

lemma href_list_merge_some:
  "\<exists>l'. href_list_merge bs (Some l) other = Some l' \<and> keys bs l' = keys bs l \<union> keys bs other \<and>
     (proper bs c l \<longrightarrow> proper bs c other \<longrightarrow> proper bs c l') \<and> set l' \<subseteq> set l \<union> set other"
proof (induction other arbitrary: l)
  case (Cons n other)
  have "proper bs c (n # other) \<Longrightarrow> proper bs c other \<and> classify_member n = c" by (auto simp: proper_def)
  moreover have "set (href_list_add bs l n) \<subseteq> insert n (set l)" by (rule href_list_add_set)
  ultimately show ?case
    using Cons.IH[of "href_list_add bs l n"] href_list_add_proper[of bs c l n]
    by (auto simp: href_list_merge_def add_to_def)
qed (simp add: href_list_merge_def)

lemma href_list_merge_none [simp]: "href_list_merge bs None other = None"
  by (induction other) (simp_all add: href_list_merge_def add_to_def)

section \<open>The graph of the groups\<close>

definition edges :: "Bootstrap \<Rightarrow> hgroup list \<Rightarrow> (string \<times> string) set" where
  "edges bs ms = {(key bs (HGRP_name h), k) | h k. h \<in> set ms \<and> k \<in> keys_of bs GROUP_REFERENCE (HGRP_host_list h)}"

definition hosts_at :: "Bootstrap \<Rightarrow> hgroup list \<Rightarrow> string set \<Rightarrow> string set" where
  "hosts_at bs ms ks = (\<Union>h\<in>{h \<in> set ms. key bs (HGRP_name h) \<in> ks}. keys_of bs LITERAL_HOST (HGRP_host_list h))"

definition effective_hosts :: "Bootstrap \<Rightarrow> hgroup list \<Rightarrow> string list \<Rightarrow> string set" where
  "effective_hosts bs ms l =
     keys_of bs LITERAL_HOST l \<union> hosts_at bs ms ((edges bs ms)\<^sup>* `` keys_of bs GROUP_REFERENCE l)"

definition wf_groups :: "Bootstrap \<Rightarrow> hgroup list \<Rightarrow> bool" where
  "wf_groups bs ms \<longleftrightarrow> distinct (map (\<lambda>h. key bs (HGRP_name h)) ms) \<and> list_all (\<lambda>h. is_hgroup_name (HGRP_name h)) ms"

lemma hosts_at_Un: "hosts_at bs ms (A \<union> B) = hosts_at bs ms A \<union> hosts_at bs ms B"
  by (auto simp: hosts_at_def)

lemma hosts_at_empty [simp]: "hosts_at bs ms {} = {}"
  by (simp add: hosts_at_def)

lemma hosts_at_UN: "hosts_at bs ms (\<Union>x\<in>A. f x) = (\<Union>x\<in>A. hosts_at bs ms (f x))"
  by (auto simp: hosts_at_def)

lemma hosts_at_mono: "A \<subseteq> B \<Longrightarrow> hosts_at bs ms A \<subseteq> hosts_at bs ms B"
  by (auto simp: hosts_at_def)

lemma edges_image:
  "edges bs ms `` ks = (\<Union>h\<in>{h \<in> set ms. key bs (HGRP_name h) \<in> ks}. keys_of bs GROUP_REFERENCE (HGRP_host_list h))"
  by (auto simp: edges_def)

lemma keys_of_UN: "keys_of bs c l = (\<Union>n\<in>set l. keys_of bs c [n])"
  by (auto simp: keys_of_def)

lemma finite_edges: "finite (edges bs ms)"
proof -
  have "edges bs ms = (\<Union>h\<in>set ms. {key bs (HGRP_name h)} \<times> keys_of bs GROUP_REFERENCE (HGRP_host_list h))"
    by (auto simp: edges_def)
  then show ?thesis by (simp add: keys_of_def)
qed

lemma locate_group:
  assumes "wf_groups bs ms"
  shows "hgroup_list_locate bs ms n = Some h \<longleftrightarrow> h \<in> set ms \<and> key bs (HGRP_name h) = key bs n"
proof
  assume "hgroup_list_locate bs ms n = Some h"
  then show "h \<in> set ms \<and> key bs (HGRP_name h) = key bs n"
    unfolding hgroup_list_locate_def by (auto dest: find_SomeD simp: same_host_key)
next
  assume h: "h \<in> set ms \<and> key bs (HGRP_name h) = key bs n"
  then have "hgroup_list_locate bs ms n \<noteq> None"
    by (auto simp: hgroup_list_locate_def find_eq_NoneD same_host_key)
  then obtain g where g: "hgroup_list_locate bs ms n = Some g" by blast
  then have "g \<in> set ms" "key bs (HGRP_name g) = key bs (HGRP_name h)"
    using h unfolding hgroup_list_locate_def by (auto dest: find_SomeD simp: same_host_key)
  moreover have "inj_on (\<lambda>h. key bs (HGRP_name h)) (set ms)" using assms by (simp add: wf_groups_def distinct_map)
  ultimately have "g = h" using h by (meson inj_onD)
  then show "hgroup_list_locate bs ms n = Some h" using g by simp
qed

lemma locate_group_None: "hgroup_list_locate bs ms n = None \<longleftrightarrow> (\<forall>h\<in>set ms. key bs (HGRP_name h) \<noteq> key bs n)"
  by (simp add: hgroup_list_locate_def find_eq_NoneD same_host_key)

lemma trancl_image_unfold: "r\<^sup>+ `` S = r `` S \<union> r\<^sup>+ `` (r `` S)"
proof (intro equalityI subsetI)
  fix b
  assume "b \<in> r\<^sup>+ `` S"
  then obtain a c where "a \<in> S" "(a, c) \<in> r" "(c, b) \<in> r\<^sup>*" by (auto dest: tranclD)
  then show "b \<in> r `` S \<union> r\<^sup>+ `` (r `` S)" by (auto dest!: rtranclD)
qed (auto intro: trancl_into_trancl2)

lemma rtrancl_image_unfold: "r\<^sup>* `` S = S \<union> r\<^sup>* `` (r `` S)"
proof (intro equalityI subsetI)
  fix b
  assume "b \<in> r\<^sup>* `` S"
  then obtain a where a: "a \<in> S" "(a, b) \<in> r\<^sup>*" by auto
  from a(2) show "b \<in> S \<union> r\<^sup>* `` (r `` S)" by (rule converse_rtranclE) (use a(1) in auto)
qed (auto intro: converse_rtrancl_into_rtrancl)

lemma acyclic_rank:
  assumes "finite r" "acyclic r"
  obtains f :: "'a \<Rightarrow> nat" where "\<forall>(a, b)\<in>r. f b < f a"
proof (rule that)
  show "\<forall>(a, b)\<in>r. card (r\<^sup>+ `` {b}) < card (r\<^sup>+ `` {a})"
  proof clarify
    fix a b
    assume ab: "(a, b) \<in> r"
    have "finite (r\<^sup>+ `` {a})" using assms(1) by (simp add: finite_Image)
    moreover have "r\<^sup>+ `` {b} \<subset> r\<^sup>+ `` {a}"
    proof
      show "r\<^sup>+ `` {b} \<subseteq> r\<^sup>+ `` {a}" using ab by (auto intro: trancl_into_trancl2)
      have "b \<in> r\<^sup>+ `` {a}" using ab by auto
      moreover have "b \<notin> r\<^sup>+ `` {b}" using assms(2) by (auto simp: acyclic_def)
      ultimately show "r\<^sup>+ `` {b} \<noteq> r\<^sup>+ `` {a}" by blast
    qed
    ultimately show "card (r\<^sup>+ `` {b}) < card (r\<^sup>+ `` {a})" by (rule psubset_card_mono)
  qed
qed

section \<open>Direct references\<close>

text \<open>What a step of the search adds to the hosts and groups found so far.\<close>

definition grows :: "Bootstrap \<Rightarrow> MemberClass \<Rightarrow> string list option \<Rightarrow> string list option \<Rightarrow> string set \<Rightarrow> bool" where
  "grows bs c r r' ks \<longleftrightarrow> (\<forall>l. r = Some l \<longrightarrow> (\<exists>l'. r' = Some l' \<and> keys bs l' = keys bs l \<union> ks \<and>
     (proper bs c l \<longrightarrow> proper bs c l')))"

definition adds :: "Bootstrap \<Rightarrow> found \<Rightarrow> found \<Rightarrow> string set \<Rightarrow> string set \<Rightarrow> bool" where
  "adds bs fd fd' hs gs \<longleftrightarrow>
     grows bs LITERAL_HOST (fst fd) (fst fd') hs \<and> grows bs GROUP_REFERENCE (fst (snd fd)) (fst (snd fd')) gs"

lemma grows_refl [simp]: "grows bs c r r {}"
  by (simp add: grows_def)

lemma grows_trans: "grows bs c r r1 ks \<Longrightarrow> grows bs c r1 r2 ks' \<Longrightarrow> grows bs c r r2 (ks \<union> ks')"
  unfolding grows_def by (auto simp: Un_assoc)

lemma grows_add: "classify_member n = c \<Longrightarrow> grows bs c r (add_to bs n r) {key bs n}"
  by (auto simp: grows_def add_to_def intro: href_list_add_proper)

lemma adds_refl: "adds bs fd fd {} {}"
  by (simp add: adds_def)

lemma adds_trans: "adds bs fd fd1 hs gs \<Longrightarrow> adds bs fd1 fd2 hs' gs' \<Longrightarrow> adds bs fd fd2 (hs \<union> hs') (gs \<union> gs')"
  unfolding adds_def by (blast intro: grows_trans)

lemma adds_fold:
  assumes "\<And>x fd. x \<in> set xs \<Longrightarrow> adds bs fd (f x fd) (hs x) (gs x)"
  shows "adds bs fd (fold f xs fd) (\<Union>x\<in>set xs. hs x) (\<Union>x\<in>set xs. gs x)"
  using assms
proof (induction xs arbitrary: fd)
  case (Cons x xs)
  have "adds bs fd (f x fd) (hs x) (gs x)" by (rule Cons.prems) simp
  from adds_trans[OF this Cons.IH[of "f x fd"]] Cons.prems show ?case by simp
qed (simp add: adds_refl)

lemma add_to_some [simp]: "add_to bs n (Some l) = Some (href_list_add bs l n)"
  by (simp add: add_to_def)

lemma adds_member:
  "adds bs fd (found_member bs m fd)
     (if classify_member m = LITERAL_HOST then {key bs m} else {})
     (if classify_member m = GROUP_REFERENCE then {key bs m} else {})"
  by (cases fd; cases "classify_member m")
    (simp_all add: adds_def found_member_def grows_add)

lemma expand_into_id [simp]: "expand_into e ms cs fd = fd"
  by (cases fd) (simp add: expand_into_def Matcher_expand_def)

lemma UN_keys_of: "(\<Union>m\<in>set l. if classify_member m = c then {key bs m} else {}) = keys_of bs c l"
  by (auto simp: keys_of_def)

lemma adds_members:
  "adds bs fd (fold (found_member bs) l fd) (keys_of bs LITERAL_HOST l) (keys_of bs GROUP_REFERENCE l)"
  unfolding UN_keys_of[symmetric] by (rule adds_fold) (rule adds_member)

lemma adds_reference:
  assumes "wf_groups bs ms"
  shows "adds bs fd (found_reference bs ms e n fd)
     (keys_of bs LITERAL_HOST [n] \<union> hosts_at bs ms (keys_of bs GROUP_REFERENCE [n]))
     (edges bs ms `` keys_of bs GROUP_REFERENCE [n])"
proof (cases "classify_member n")
  case GROUP_REFERENCE
  show ?thesis
  proof (cases "hgroup_list_locate bs ms n")
    case None
    then have "\<forall>h\<in>set ms. key bs (HGRP_name h) \<noteq> key bs n" by (simp add: locate_group_None)
    then have "hosts_at bs ms {key bs n} = {}" "edges bs ms `` {key bs n} = {}"
      by (auto simp: hosts_at_def edges_def)
    then show ?thesis using None GROUP_REFERENCE by (simp add: found_reference_def adds_refl)
  next
    case (Some h)
    then have h: "h \<in> set ms \<and> key bs (HGRP_name h) = key bs n" using locate_group[OF assms] by blast
    have u: "g = h" if "g \<in> set ms" "key bs (HGRP_name g) = key bs n" for g
      using that Some locate_group[OF assms, of n g] by simp
    have "{h \<in> set ms. key bs (HGRP_name h) \<in> {key bs n}} = {h}" using h u by auto
    then have "hosts_at bs ms {key bs n} = keys_of bs LITERAL_HOST (HGRP_host_list h)"
      "edges bs ms `` {key bs n} = keys_of bs GROUP_REFERENCE (HGRP_host_list h)"
      unfolding hosts_at_def edges_image by simp_all
    then show ?thesis
      using adds_members[of bs fd "HGRP_host_list h"] Some GROUP_REFERENCE by (simp add: found_reference_def)
  qed
next
  case MATCHER
  then show ?thesis by (cases fd) (simp add: found_reference_def adds_def)
next
  case LITERAL_HOST
  then show ?thesis by (cases fd) (simp add: found_reference_def adds_def grows_add)
qed

lemma adds_references:
  assumes "wf_groups bs ms"
  shows "adds bs fd (href_list_find_references bs (Some ms) e this fd)
     (keys_of bs LITERAL_HOST this \<union> hosts_at bs ms (keys_of bs GROUP_REFERENCE this))
     (edges bs ms `` keys_of bs GROUP_REFERENCE this)"
proof -
  have "(\<Union>n\<in>set this. keys_of bs LITERAL_HOST [n] \<union> hosts_at bs ms (keys_of bs GROUP_REFERENCE [n])) =
      keys_of bs LITERAL_HOST this \<union> hosts_at bs ms (keys_of bs GROUP_REFERENCE this)"
    unfolding UN_Un_distrib hosts_at_UN[symmetric] keys_of_UN[symmetric] ..
  moreover have "(\<Union>n\<in>set this. edges bs ms `` keys_of bs GROUP_REFERENCE [n]) =
      edges bs ms `` keys_of bs GROUP_REFERENCE this"
    unfolding Image_UN[symmetric] keys_of_UN[symmetric] ..
  moreover have "adds bs fd (fold (found_reference bs ms e) this fd)
     (\<Union>n\<in>set this. keys_of bs LITERAL_HOST [n] \<union> hosts_at bs ms (keys_of bs GROUP_REFERENCE [n]))
     (\<Union>n\<in>set this. edges bs ms `` keys_of bs GROUP_REFERENCE [n])"
    by (rule adds_fold) (rule adds_reference[OF assms])
  ultimately show ?thesis by (simp add: href_list_find_references_def)
qed

section \<open>Where the names come from\<close>

definition within :: "string set \<Rightarrow> found \<Rightarrow> bool" where
  "within N fd \<longleftrightarrow> (case fst fd of None \<Rightarrow> True | Some l \<Rightarrow> set l \<subseteq> N) \<and>
     (case fst (snd fd) of None \<Rightarrow> True | Some l \<Rightarrow> set l \<subseteq> N)"

lemma within_member: "within N fd \<Longrightarrow> n \<in> N \<Longrightarrow> within N (found_member bs n fd)"
  using href_list_add_set[of bs _ n]
  by (cases fd) (auto simp: within_def found_member_def add_to_def split: option.splits MemberClass.splits)

lemma within_fold: "(\<And>x fd. x \<in> set xs \<Longrightarrow> within N fd \<Longrightarrow> within N (f x fd)) \<Longrightarrow> within N fd \<Longrightarrow> within N (fold f xs fd)"
  by (induction xs arbitrary: fd) auto

definition names :: "hgroup list \<Rightarrow> string set" where
  "names ms = (\<Union>h\<in>set ms. set (HGRP_host_list h))"

lemma within_reference:
  assumes "within N fd" "n \<in> N" "names ms \<subseteq> N"
  shows "within N (found_reference bs ms e n fd)"
proof (cases "classify_member n")
  case GROUP_REFERENCE
  show ?thesis
  proof (cases "hgroup_list_locate bs ms n")
    case (Some h)
    then have "h \<in> set ms" unfolding hgroup_list_locate_def by (auto dest: find_SomeD)
    then have "set (HGRP_host_list h) \<subseteq> N" using assms(3) by (auto simp: names_def)
    then have "within N (fold (found_member bs) (HGRP_host_list h) fd)"
      by (intro within_fold within_member assms(1)) auto
    then show ?thesis using Some GROUP_REFERENCE by (simp add: found_reference_def)
  qed (use assms(1) GROUP_REFERENCE in \<open>simp add: found_reference_def\<close>)
next
  case MATCHER
  then show ?thesis using assms(1) by (cases fd) (simp add: found_reference_def within_def)
next
  case LITERAL_HOST
  then show ?thesis using within_member[OF assms(1,2), of bs]
    by (cases fd) (simp add: found_reference_def found_member_def)
qed

lemma within_references:
  "within N fd \<Longrightarrow> set this \<subseteq> N \<Longrightarrow> names ms \<subseteq> N \<Longrightarrow> within N (href_list_find_references bs (Some ms) e this fd)"
  by (auto simp: href_list_find_references_def intro!: within_fold within_reference)

section \<open>All references\<close>

definition reaches :: "Bootstrap \<Rightarrow> hgroup list \<Rightarrow> string list \<Rightarrow> string set" where
  "reaches bs ms l = (edges bs ms)\<^sup>+ `` keys_of bs GROUP_REFERENCE l"

lemma find_references_hosts:
  assumes "wf_groups bs ms"
  obtains hs gs m where "href_list_find_references bs (Some ms) e this (Some l, Some g, m0) = (Some hs, Some gs, m)"
    "set hs \<subseteq> set l \<union> set g \<union> set this \<union> names ms" "set gs \<subseteq> set l \<union> set g \<union> set this \<union> names ms"
    "keys bs hs = keys bs l \<union> keys_of bs LITERAL_HOST this \<union> hosts_at bs ms (keys_of bs GROUP_REFERENCE this)"
    "keys bs gs = keys bs g \<union> edges bs ms `` keys_of bs GROUP_REFERENCE this"
    "proper bs LITERAL_HOST l \<longrightarrow> proper bs LITERAL_HOST hs" "proper bs GROUP_REFERENCE g \<longrightarrow> proper bs GROUP_REFERENCE gs"
proof -
  obtain h gr m where r: "href_list_find_references bs (Some ms) e this (Some l, Some g, m0) = (h, gr, m)"
    by (metis prod_cases3)
  from adds_references[OF assms, of "(Some l, Some g, m0)" e this]
  obtain hs gs where "h = Some hs" "gr = Some gs"
    "keys bs hs = keys bs l \<union> (keys_of bs LITERAL_HOST this \<union> hosts_at bs ms (keys_of bs GROUP_REFERENCE this))"
    "keys bs gs = keys bs g \<union> edges bs ms `` keys_of bs GROUP_REFERENCE this"
    "proper bs LITERAL_HOST l \<longrightarrow> proper bs LITERAL_HOST hs" "proper bs GROUP_REFERENCE g \<longrightarrow> proper bs GROUP_REFERENCE gs"
    unfolding r adds_def grows_def by auto
  moreover have "within (set l \<union> set g \<union> set this \<union> names ms) (h, gr, m)"
    unfolding r[symmetric] by (rule within_references) (auto simp: within_def)
  ultimately show ?thesis using r by (intro that[of hs gs m]) (simp_all add: Un_assoc within_def)
qed

lemma find_all_references_step:
  assumes "wf_groups bs ms" "g0 = None \<or> g0 = Some []"
  obtains hs gs m where
    "set hs \<subseteq> set l \<union> set this \<union> names ms" "set gs \<subseteq> set l \<union> set this \<union> names ms"
    "keys bs hs = keys bs l \<union> keys_of bs LITERAL_HOST this \<union> hosts_at bs ms (keys_of bs GROUP_REFERENCE this)"
    "keys bs gs = edges bs ms `` keys_of bs GROUP_REFERENCE this"
    "proper bs LITERAL_HOST l \<longrightarrow> proper bs LITERAL_HOST hs" "proper bs GROUP_REFERENCE gs"
    "href_list_find_all_references bs (Some ms) e this (Some l, g0, m0) =
       (if gs \<noteq> [] then
          do { (sub_hosts, sub_groups, sub_matchers) \<leftarrow>
                 href_list_find_all_references bs (Some ms) e gs
                   (Some [], Some [], if m0 \<noteq> None then Some [] else None);
               Some (href_list_merge bs (Some hs) (the sub_hosts),
                 if g0 = None then None else href_list_merge bs (Some gs) (the sub_groups),
                 href_list_merge bs m (case sub_matchers of None \<Rightarrow> [] | Some m \<Rightarrow> m)) }
        else Some (Some hs, if g0 = None then None else Some gs, m))"
proof -
  obtain hs gs m where r: "href_list_find_references bs (Some ms) e this (Some l, Some [], m0) = (Some hs, Some gs, m)"
    "set hs \<subseteq> set l \<union> set [] \<union> set this \<union> names ms" "set gs \<subseteq> set l \<union> set [] \<union> set this \<union> names ms"
    "keys bs hs = keys bs l \<union> keys_of bs LITERAL_HOST this \<union> hosts_at bs ms (keys_of bs GROUP_REFERENCE this)"
    "keys bs gs = keys bs [] \<union> edges bs ms `` keys_of bs GROUP_REFERENCE this"
    "proper bs LITERAL_HOST l \<longrightarrow> proper bs LITERAL_HOST hs"
    "proper bs GROUP_REFERENCE [] \<longrightarrow> proper bs GROUP_REFERENCE gs"
    using find_references_hosts[OF assms(1), of e this l "[]" m0] .
  show ?thesis
  proof (rule that[of hs gs m])
    have g: "(case g0 of None \<Rightarrow> [] | Some g \<Rightarrow> g) = []" using assms(2) by auto
    show "href_list_find_all_references bs (Some ms) e this (Some l, g0, m0) =
       (if gs \<noteq> [] then
          do { (sub_hosts, sub_groups, sub_matchers) \<leftarrow>
                 href_list_find_all_references bs (Some ms) e gs
                   (Some [], Some [], if m0 \<noteq> None then Some [] else None);
               Some (href_list_merge bs (Some hs) (the sub_hosts),
                 if g0 = None then None else href_list_merge bs (Some gs) (the sub_groups),
                 href_list_merge bs m (case sub_matchers of None \<Rightarrow> [] | Some m \<Rightarrow> m)) }
        else Some (Some hs, if g0 = None then None else Some gs, m))"
      by (subst href_list_find_all_references.simps) (simp add: Let_def g r(1))
  qed (use r in simp_all)
qed

lemma find_all_references_correct:
  assumes "wf_groups bs ms" "\<forall>(a, b)\<in>edges bs ms. f b < (f a :: nat)" "\<forall>k\<in>keys_of bs GROUP_REFERENCE this. f k < n"
    "g0 = None \<or> g0 = Some []"
  shows "\<exists>hs gs m. href_list_find_all_references bs (Some ms) e this (Some l, g0, m0) = Some (Some hs, gs, m) \<and>
    keys bs hs = keys bs l \<union> effective_hosts bs ms this \<and>
    (proper bs LITERAL_HOST l \<longrightarrow> proper bs LITERAL_HOST hs) \<and>
    set hs \<subseteq> set l \<union> set this \<union> names ms \<and>
    (if g0 = None then gs = None
     else \<exists>g. gs = Some g \<and> keys bs g = reaches bs ms this \<and> proper bs GROUP_REFERENCE g)"
  using assms(3,4)
proof (induction n arbitrary: this l g0 m0 rule: less_induct)
  case (less n)
  let ?G = "keys_of bs GROUP_REFERENCE this" and ?r = "edges bs ms"
  obtain hs gs m where src: "set hs \<subseteq> set l \<union> set this \<union> names ms" "set gs \<subseteq> set l \<union> set this \<union> names ms"
    and st: "keys bs hs = keys bs l \<union> keys_of bs LITERAL_HOST this \<union> hosts_at bs ms ?G"
    "keys bs gs = ?r `` ?G"
    "proper bs LITERAL_HOST l \<longrightarrow> proper bs LITERAL_HOST hs" "proper bs GROUP_REFERENCE gs"
    and run: "href_list_find_all_references bs (Some ms) e this (Some l, g0, m0) =
       (if gs \<noteq> [] then
          do { (sub_hosts, sub_groups, sub_matchers) \<leftarrow>
                 href_list_find_all_references bs (Some ms) e gs
                   (Some [], Some [], if m0 \<noteq> None then Some [] else None);
               Some (href_list_merge bs (Some hs) (the sub_hosts),
                 if g0 = None then None else href_list_merge bs (Some gs) (the sub_groups),
                 href_list_merge bs m (case sub_matchers of None \<Rightarrow> [] | Some m \<Rightarrow> m)) }
        else Some (Some hs, if g0 = None then None else Some gs, m))"
    using find_all_references_step[OF assms(1) less.prems(2), of l this e m0] .
  have eff: "effective_hosts bs ms this = keys_of bs LITERAL_HOST this \<union> hosts_at bs ms ?G \<union> hosts_at bs ms (?r\<^sup>* `` (?r `` ?G))"
    unfolding effective_hosts_def by (subst rtrancl_image_unfold) (simp add: hosts_at_Un Un_assoc)
  have rch: "reaches bs ms this = ?r `` ?G \<union> ?r\<^sup>+ `` (?r `` ?G)"
    unfolding reaches_def by (rule trancl_image_unfold)
  show ?case
  proof (cases "gs = []")
    case True
    then have "?r `` ?G = {}" using st(2) by simp
    then show ?thesis using True run src(1) st eff rch by (auto simp: Un_assoc)
  next
    case False
    have gk: "keys_of bs GROUP_REFERENCE gs = ?r `` ?G" "keys_of bs LITERAL_HOST gs = {}"
      using st(2) proper_keys[OF st(4)] proper_other[OF st(4), of LITERAL_HOST] by simp_all
    have "?G \<noteq> {}" using False st(2) by auto
    then have n: "n - 1 < n" using less.prems(1) by auto
    have "\<forall>k\<in>keys_of bs GROUP_REFERENCE gs. f k < n - 1"
      unfolding gk(1) using assms(2) less.prems(1) by fastforce
    from less.IH[OF n this, of "Some []" "[]" "if m0 \<noteq> None then Some [] else None"]
    obtain sh sg sm where sub: "href_list_find_all_references bs (Some ms) e gs
          (Some [], Some [], if m0 \<noteq> None then Some [] else None) = Some (Some sh, Some sg, sm)"
      "keys bs sh = effective_hosts bs ms gs" "proper bs LITERAL_HOST sh" "set sh \<subseteq> set gs \<union> names ms"
      "keys bs sg = reaches bs ms gs" "proper bs GROUP_REFERENCE sg" by auto
    obtain hs' where h: "href_list_merge bs (Some hs) sh = Some hs'" "keys bs hs' = keys bs hs \<union> keys bs sh"
      "proper bs LITERAL_HOST hs \<longrightarrow> proper bs LITERAL_HOST sh \<longrightarrow> proper bs LITERAL_HOST hs'" "set hs' \<subseteq> set hs \<union> set sh"
      using href_list_merge_some[of bs hs sh LITERAL_HOST] by blast
    obtain gs' where g: "href_list_merge bs (Some gs) sg = Some gs'" "keys bs gs' = keys bs gs \<union> keys bs sg"
      "proper bs GROUP_REFERENCE gs \<longrightarrow> proper bs GROUP_REFERENCE sg \<longrightarrow> proper bs GROUP_REFERENCE gs'"
      using href_list_merge_some[of bs gs sg GROUP_REFERENCE] by blast
    have k: "keys bs hs' = keys bs l \<union> effective_hosts bs ms this" "keys bs gs' = reaches bs ms this"
      unfolding eff rch h(2) g(2) st(1,2) sub(2,5) effective_hosts_def[of bs ms gs] reaches_def[of bs ms gs] gk
      by (simp_all add: Un_assoc)
    have "set hs' \<subseteq> set l \<union> set this \<union> names ms" using h(4) sub(4) src by blast
    then show ?thesis using run False sub(1,3,6) h(1,3) g(1,3) k st(3,4) less.prems(2) by auto
  qed
qed

lemma acc_image: "r `` S \<subseteq> Wellfounded.acc (r\<inverse>) \<Longrightarrow> S \<subseteq> Wellfounded.acc (r\<inverse>)"
proof
  fix k
  assume "r `` S \<subseteq> Wellfounded.acc (r\<inverse>)" "k \<in> S"
  then show "k \<in> Wellfounded.acc (r\<inverse>)" by (intro accI[of k]) auto
qed

text \<open>A search that returns has followed only finite paths.\<close>

lemma find_all_references_returns:
  assumes "href_list_find_all_references bs master e this fd = Some fd'" "master = Some ms" "wf_groups bs ms"
    "fst (snd fd) = None \<or> fst (snd fd) = Some []" "fst fd \<noteq> None"
  shows "keys_of bs GROUP_REFERENCE this \<subseteq> Wellfounded.acc ((edges bs ms)\<inverse>)"
  using assms
proof (induction arbitrary: ms rule: href_list_find_all_references.raw_induct[rotated, consumes 1, case_names step])
  case (step find bs master e this fd fd')
  obtain l g0 m0 where fd: "fd = (Some l, g0, m0)" "g0 = None \<or> g0 = Some []"
    using step.prems(3,4) by (cases fd) auto
  let ?G = "keys_of bs GROUP_REFERENCE this" and ?r = "edges bs ms"
  obtain hs gs m where r: "href_list_find_references bs (Some ms) e this (Some l, Some [], m0) = (Some hs, Some gs, m)"
    "keys bs gs = keys bs [] \<union> ?r `` ?G" "proper bs GROUP_REFERENCE [] \<longrightarrow> proper bs GROUP_REFERENCE gs"
    by (rule find_references_hosts[OF step.prems(2), of e this l "[]" m0])
  have g: "(case g0 of None \<Rightarrow> [] | Some g \<Rightarrow> g) = []" using fd(2) by auto
  have "?r `` ?G \<subseteq> Wellfounded.acc (?r\<inverse>)"
  proof (cases "gs = []")
    case True
    then show ?thesis using r(2) by simp
  next
    case False
    obtain fs where "find bs (Some ms) e gs (Some [], Some [], if m0 \<noteq> None then Some [] else None) = Some fs"
      using step.hyps False unfolding step.prems(1) fd(1) by (auto simp: Let_def g r(1) bind_eq_Some_conv)
    from step.IH[OF this refl step.prems(2)] have "keys_of bs GROUP_REFERENCE gs \<subseteq> Wellfounded.acc (?r\<inverse>)" by simp
    then show ?thesis using r(2,3) proper_keys[of bs GROUP_REFERENCE gs] by simp
  qed
  then show ?case by (rule acc_image)
qed

section \<open>The groups that contain a group\<close>

lemma found_referencee_eq:
  "found_referencee bs n h occ = (if key bs n \<in> keys bs (HGRP_host_list h) then href_list_add bs occ (HGRP_name h) else occ)"
  unfolding found_referencee_def locate_iff ..

lemma found_referencee_fold:
  assumes "list_all (\<lambda>h. is_hgroup_name (HGRP_name h)) ms"
  shows "keys bs (fold (found_referencee bs n) ms occ) =
      keys bs occ \<union> key bs ` HGRP_name ` {h \<in> set ms. key bs n \<in> keys bs (HGRP_host_list h)} \<and>
    (proper bs GROUP_REFERENCE occ \<longrightarrow> proper bs GROUP_REFERENCE (fold (found_referencee bs n) ms occ))"
  using assms
proof (induction ms arbitrary: occ)
  case (Cons h ms)
  have c: "classify_member (HGRP_name h) = GROUP_REFERENCE" using Cons.prems by (simp add: classify_member_def)
  have ms: "list_all (\<lambda>h. is_hgroup_name (HGRP_name h)) ms" using Cons.prems by simp
  show ?case
  proof (cases "key bs n \<in> keys bs (HGRP_host_list h)")
    case True
    then have "{x \<in> set (h # ms). key bs n \<in> keys bs (HGRP_host_list x)} =
        insert h {x \<in> set ms. key bs n \<in> keys bs (HGRP_host_list x)}" by auto
    then show ?thesis using Cons.IH[OF ms, of "href_list_add bs occ (HGRP_name h)"] True
      href_list_add_proper[OF _ c, of bs occ] by (simp add: found_referencee_eq)
  next
    case False
    then have "{x \<in> set (h # ms). key bs n \<in> keys bs (HGRP_host_list x)} =
        {x \<in> set ms. key bs n \<in> keys bs (HGRP_host_list x)}" by auto
    then show ?thesis using Cons.IH[OF ms, of occ] False by (simp add: found_referencee_eq)
  qed
qed simp

lemma find_referencees_keys:
  assumes "wf_groups bs ms"
  shows "keys bs (href_list_find_referencees bs ms this occ) =
      keys bs occ \<union> (edges bs ms)\<inverse> `` keys_of bs GROUP_REFERENCE this \<and>
    (proper bs GROUP_REFERENCE occ \<longrightarrow> proper bs GROUP_REFERENCE (href_list_find_referencees bs ms this occ))"
proof -
  have ms: "list_all (\<lambda>h. is_hgroup_name (HGRP_name h)) ms" using assms by (simp add: wf_groups_def)
  have pre: "key bs ` HGRP_name ` {h \<in> set ms. key bs n \<in> keys bs (HGRP_host_list h)} = (edges bs ms)\<inverse> `` {key bs n}"
    if "is_hgroup_name n" for n
    using that by (auto simp: edges_def key_in_keys classify_member_def)
  show ?thesis
  proof (induction this arbitrary: occ)
    case (Cons n this)
    show ?case
    proof (cases "is_hgroup_name n")
      case True
      let ?occ = "fold (found_referencee bs n) ms occ"
      have f: "href_list_find_referencees bs ms (n # this) occ = href_list_find_referencees bs ms this ?occ"
        using True by (simp add: href_list_find_referencees_def)
      have "keys_of bs GROUP_REFERENCE (n # this) = insert (key bs n) (keys_of bs GROUP_REFERENCE this)"
        using True by (simp add: classify_member_def)
      then show ?thesis
        unfolding f using Cons.IH[of ?occ] found_referencee_fold[OF ms, of bs n occ] pre[OF True] by auto
    next
      case False
      then show ?thesis
        using Cons.IH[of occ] by (simp add: href_list_find_referencees_def classify_member_def)
    qed
  qed (simp add: href_list_find_referencees_def)
qed

lemma find_all_referencees_correct:
  assumes "wf_groups bs ms" "\<forall>(a, b)\<in>edges bs ms. f a < (f b :: nat)" "\<forall>k\<in>keys_of bs GROUP_REFERENCE this. f k < n"
  shows "\<exists>occ. href_list_find_all_referencees bs ms this [] = Some occ \<and>
    keys bs occ = ((edges bs ms)\<inverse>)\<^sup>+ `` keys_of bs GROUP_REFERENCE this"
  using assms(3)
proof (induction n arbitrary: this rule: less_induct)
  case (less n)
  let ?G = "keys_of bs GROUP_REFERENCE this" and ?r = "(edges bs ms)\<inverse>"
  define occ1 where "occ1 = href_list_find_referencees bs ms this []"
  have o: "keys bs occ1 = ?r `` ?G" "proper bs GROUP_REFERENCE occ1"
    using find_referencees_keys[OF assms(1), of this "[]"] by (simp_all add: occ1_def)
  have run: "href_list_find_all_referencees bs ms this [] =
      (if occ1 \<noteq> [] then do { sub \<leftarrow> href_list_find_all_referencees bs ms occ1 [];
             Some (the (href_list_merge bs (Some occ1) sub)) } else Some occ1)"
    by (subst href_list_find_all_referencees.simps) (simp add: occ1_def Let_def)
  have rch: "?r\<^sup>+ `` ?G = ?r `` ?G \<union> ?r\<^sup>+ `` (?r `` ?G)" by (rule trancl_image_unfold)
  show ?case
  proof (cases "occ1 = []")
    case True
    then show ?thesis using run o(1) by (subst rch) simp
  next
    case False
    have gk: "keys_of bs GROUP_REFERENCE occ1 = ?r `` ?G" using o proper_keys[OF o(2)] by simp
    have "?G \<noteq> {}" using False o(1) by auto
    then have n: "n - 1 < n" using less.prems by auto
    have "\<forall>k\<in>keys_of bs GROUP_REFERENCE occ1. f k < n - 1"
      unfolding gk using assms(2) less.prems by fastforce
    from less.IH[OF n this] obtain sub where sub: "href_list_find_all_referencees bs ms occ1 [] = Some sub"
      "keys bs sub = ?r\<^sup>+ `` (?r `` ?G)" unfolding gk by blast
    obtain l' where "href_list_merge bs (Some occ1) sub = Some l'" "keys bs l' = keys bs occ1 \<union> keys bs sub"
      using href_list_merge_some[of bs occ1 sub GROUP_REFERENCE] by blast
    then show ?thesis using run False sub o(1) by (subst rch) auto
  qed
qed

section \<open>Searches in acyclic groups end\<close>

lemma bounded_rank: "finite S \<Longrightarrow> \<exists>n :: nat. \<forall>k\<in>S. f k < n"
  using finite_nat_set_iff_bounded[of "f ` S"] by auto

lemma finite_keys_of: "finite (keys_of bs c l)"
  by (simp add: keys_of_def)

lemma find_all_references_acyclic:
  assumes "wf_groups bs ms" "acyclic (edges bs ms)" "g0 = None \<or> g0 = Some []"
  obtains hs gs m where
    "href_list_find_all_references bs (Some ms) e this (Some l, g0, m0) = Some (Some hs, gs, m)"
    "keys bs hs = keys bs l \<union> effective_hosts bs ms this"
    "proper bs LITERAL_HOST l \<longrightarrow> proper bs LITERAL_HOST hs" "set hs \<subseteq> set l \<union> set this \<union> names ms"
    "if g0 = None then gs = None else \<exists>g. gs = Some g \<and> keys bs g = reaches bs ms this \<and> proper bs GROUP_REFERENCE g"
proof -
  obtain f :: "string \<Rightarrow> nat" where f: "\<forall>(a, b)\<in>edges bs ms. f b < f a"
    using acyclic_rank[OF finite_edges assms(2)] .
  obtain n where "\<forall>k\<in>keys_of bs GROUP_REFERENCE this. f k < n" using bounded_rank[OF finite_keys_of] by blast
  from find_all_references_correct[OF assms(1) f this assms(3), of e l m0] that show ?thesis by blast
qed

lemma find_all_referencees_acyclic:
  assumes "wf_groups bs ms" "acyclic (edges bs ms)"
  obtains occ where "href_list_find_all_referencees bs ms this [] = Some occ"
    "keys bs occ = ((edges bs ms)\<inverse>)\<^sup>+ `` keys_of bs GROUP_REFERENCE this"
proof -
  have "acyclic ((edges bs ms)\<inverse>)" "finite ((edges bs ms)\<inverse>)" using assms(2) finite_edges by (simp_all add: acyclic_converse)
  then obtain f :: "string \<Rightarrow> nat" where f: "\<forall>(a, b)\<in>(edges bs ms)\<inverse>. f b < f a"
    using acyclic_rank[of "(edges bs ms)\<inverse>"] by metis
  obtain n where n: "\<forall>k\<in>keys_of bs GROUP_REFERENCE this. f k < n" using bounded_rank[OF finite_keys_of] by blast
  have "\<forall>(a, b)\<in>edges bs ms. f a < f b" using f by auto
  from find_all_referencees_correct[OF assms(1) this n] that show ?thesis by blast
qed

section \<open>Differences\<close>

lemma keys_of_diff: "keys_of bs c l - keys bs l' = keys_of bs c l - keys_of bs c l'"
proof -
  have "k \<in> keys bs l' \<longleftrightarrow> k \<in> keys_of bs c l'" if "k \<in> keys_of bs c l" for k
    using that key_in_keys[of bs _ l'] by (auto simp: keys_of_def[of bs c l])
  then show ?thesis by blast
qed

lemma compare_grows:
  "href_list_compare bs this list (ah, ag, eh, eg) = (ah', ag', eh', eg') \<Longrightarrow>
   grows bs LITERAL_HOST ah ah' (keys_of bs LITERAL_HOST this - keys_of bs LITERAL_HOST list) \<and>
   grows bs GROUP_REFERENCE ag ag' (keys_of bs GROUP_REFERENCE this - keys_of bs GROUP_REFERENCE list)"
  unfolding keys_of_diff[symmetric]
proof (induction this arbitrary: ah ag eh eg)
  case (Cons n this)
  obtain ah1 ag1 eh1 eg1 where m: "compare_member bs list n (ah, ag, eh, eg) = (ah1, ag1, eh1, eg1)"
    by (metis prod_cases4)
  have "href_list_compare bs this list (ah1, ag1, eh1, eg1) = (ah', ag', eh', eg')"
    using Cons.prems by (simp add: href_list_compare_def m)
  note ih = Cons.IH[OF this]
  have "grows bs LITERAL_HOST ah ah1 (keys_of bs LITERAL_HOST [n] - keys bs list) \<and>
      grows bs GROUP_REFERENCE ag ag1 (keys_of bs GROUP_REFERENCE [n] - keys bs list)"
    using m by (cases "classify_member n"; cases "key bs n \<in> keys bs list")
      (auto simp: compare_member_def has_member_iff grows_add insert_Diff_if)
  moreover have "keys_of bs c (n # this) - keys bs list =
      (keys_of bs c [n] - keys bs list) \<union> (keys_of bs c this - keys bs list)" for c by auto
  ultimately show ?case using ih grows_trans by metis
qed (simp add: href_list_compare_def)

lemma compare_within:
  "href_list_compare bs this list (ah, ag, eh, eg) = (ah', ag', eh', eg') \<Longrightarrow> within N (ah, ag, m) \<Longrightarrow>
   set this \<subseteq> N \<Longrightarrow> within N (ah', ag', m)"
proof (induction this arbitrary: ah ag eh eg)
  case (Cons n this)
  obtain ah1 ag1 eh1 eg1 where m: "compare_member bs list n (ah, ag, eh, eg) = (ah1, ag1, eh1, eg1)"
    by (metis prod_cases4)
  have c: "href_list_compare bs this list (ah1, ag1, eh1, eg1) = (ah', ag', eh', eg')"
    using Cons.prems(1) by (simp add: href_list_compare_def m)
  have "within N (ah1, ag1, m)"
    using m Cons.prems(2,3) within_member[of N "(ah, ag, m)" n bs]
    by (cases "classify_member n") (auto simp: compare_member_def found_member_def split: if_splits)
  then show ?case using Cons.IH[OF c] Cons.prems(3) by simp
qed (simp add: href_list_compare_def)

lemma find_diff_correct:
  assumes "href_list_find_diff bs this list (Some []) (Some []) g g' = (ah, rh, ag, rg)"
  obtains a r where "ah = Some a" "rh = Some r"
    "keys bs a = keys_of bs LITERAL_HOST this - keys_of bs LITERAL_HOST list" "proper bs LITERAL_HOST a"
    "keys bs r = keys_of bs LITERAL_HOST list - keys_of bs LITERAL_HOST this" "proper bs LITERAL_HOST r"
    "g = None \<or> g = Some [] \<Longrightarrow> within (set this) (Some a, ag, None)"
    "grows bs GROUP_REFERENCE g ag (keys_of bs GROUP_REFERENCE this - keys_of bs GROUP_REFERENCE list)"
    "grows bs GROUP_REFERENCE g' rg (keys_of bs GROUP_REFERENCE list - keys_of bs GROUP_REFERENCE this)"
proof -
  obtain x1 y1 where 1: "href_list_compare bs this list (Some [], g, None, None) = (ah, ag, x1, y1)"
    using assms by (auto simp: href_list_find_diff_def split: prod.splits)
  obtain x2 y2 where 2: "href_list_compare bs list this (Some [], g', None, None) = (rh, rg, x2, y2)"
    using assms by (auto simp: href_list_find_diff_def split: prod.splits)
  have w: "g = None \<or> g = Some [] \<Longrightarrow> within (set this) (ah, ag, None)"
    by (rule compare_within[OF 1]) (auto simp: within_def)
  show ?thesis using compare_grows[OF 1] compare_grows[OF 2] w that unfolding grows_def[of bs LITERAL_HOST] by auto
qed

lemma remove_existing_keys:
  "proper bs c this \<Longrightarrow> keys bs (href_list_remove_existing bs this list) = keys bs this - keys bs list \<and>
     proper bs c (href_list_remove_existing bs this list)"
proof (induction list arbitrary: this)
  case (Cons n list)
  show ?case
  proof (cases "href_list_locate bs this n")
    case None
    then have "key bs n \<notin> keys bs this" using locate_iff[of bs this n] by simp
    then show ?thesis using Cons None by (auto simp: href_list_remove_existing_def)
  next
    case (Some x)
    then have x: "x \<in> set this" "key bs x = key bs n"
      unfolding href_list_locate_def by (auto dest: find_SomeD simp: same_host_key)
    have d: "distinct (map (key bs) this)" using Cons.prems by (simp add: proper_def)
    then have dt: "distinct this" by (simp add: distinct_map)
    have "inj_on (key bs) (set this)" using d by (simp add: distinct_map)
    then have "keys bs (remove1 x this) = keys bs this - {key bs n}"
      using inj_on_image_set_diff[of "key bs" "set this" "set this" "{x}"] x
      unfolding keys_def set_remove1_eq[OF dt] by simp
    moreover have "proper bs c (remove1 x this)"
      using Cons.prems d by (auto simp: proper_def distinct_map distinct_remove1 dest: notin_set_remove1 intro: inj_on_diff)
    ultimately show ?thesis using Cons.IH[of "remove1 x this"] Some by (auto simp: href_list_remove_existing_def)
  qed
qed (simp add: href_list_remove_existing_def)

text \<open>Resolving a host again gives the host.\<close>

definition stable :: "Bootstrap \<Rightarrow> (string \<Rightarrow> string option) \<Rightarrow> string list \<Rightarrow> bool" where
  "stable bs resolve l \<longleftrightarrow> list_all (\<lambda>n. classify_member n = LITERAL_HOST \<longrightarrow>
     (case resolve n of None \<Rightarrow> True | Some r \<Rightarrow> key bs r = key bs n)) l"

lemma resolve_stable:
  assumes "proper bs LITERAL_HOST l" "stable bs resolve l" "href_list_resolve_hostnames resolve l ig = (ok, l')"
  shows "keys bs l' = keys bs l" "proper bs LITERAL_HOST l'"
proof -
  have m: "map (key bs) l' = map (key bs) l"
    using assms by (auto simp: proper_def stable_def list_all_iff href_list_resolve_hostnames_def Let_def split: option.splits)
  then show k: "keys bs l' = keys bs l" unfolding keys_def by (metis image_set)
  have "classify_member n = LITERAL_HOST" if n: "n \<in> set l'" for n
  proof -
    have "key bs n \<in> keys bs l" using n k by (auto simp: keys_def)
    then obtain x where "x \<in> set l" "key bs n = key bs x" by (auto simp: keys_def)
    then show ?thesis using classify_member_key[of bs n x] assms(1) by (simp add: proper_def)
  qed
  then show "proper bs LITERAL_HOST l'" using assms(1) m by (simp add: proper_def)
qed

section \<open>Changing the members of a group\<close>

lemma proper_groups_effective:
  "proper bs GROUP_REFERENCE l \<Longrightarrow> effective_hosts bs ms l = hosts_at bs ms ((edges bs ms)\<^sup>* `` keys bs l)"
  by (simp add: effective_hosts_def proper_keys proper_other)

lemma find_more_hosts:
  assumes "wf_groups bs ms" "acyclic (edges bs ms)" "proper bs GROUP_REFERENCE gs" "proper bs LITERAL_HOST hs"
  obtains hs' where
    "(if gs \<noteq> [] then
        do { (h, _, _) \<leftarrow> href_list_find_all_references bs (Some ms) True gs (Some hs, None, None); Some (the h) }
      else Some hs) = Some hs'"
    "keys bs hs' = keys bs hs \<union> hosts_at bs ms ((edges bs ms)\<^sup>* `` keys bs gs)" "proper bs LITERAL_HOST hs'"
    "set hs' \<subseteq> set hs \<union> set gs \<union> names ms"
proof (cases "gs = []")
  case False
  obtain hs' m where "href_list_find_all_references bs (Some ms) True gs (Some hs, None, None) = Some (Some hs', None, m)"
    "keys bs hs' = keys bs hs \<union> effective_hosts bs ms gs" "proper bs LITERAL_HOST hs \<longrightarrow> proper bs LITERAL_HOST hs'"
    "set hs' \<subseteq> set hs \<union> set gs \<union> names ms"
    by (rule find_all_references_acyclic[OF assms(1,2), of None True gs hs None]) auto
  then show ?thesis using False assms(4) proper_groups_effective[OF assms(3), of ms] by (intro that[of hs']) simp_all
qed (use that assms(4) in simp)

lemma effective_diff_correct:
  assumes "wf_groups bs ms" "acyclic (edges bs ms)" "proper bs GROUP_REFERENCE ag" "proper bs GROUP_REFERENCE rg"
    "proper bs LITERAL_HOST ah" "proper bs LITERAL_HOST rh"
  defines "A \<equiv> keys bs ah \<union> hosts_at bs ms ((edges bs ms)\<^sup>* `` keys bs ag)"
    and "R \<equiv> keys bs rh \<union> hosts_at bs ms ((edges bs ms)\<^sup>* `` keys bs rg)"
  obtains a r where "href_list_find_effective_diff bs (Some ms) ag rg ah rh = Some (a, r)"
    "keys bs a = A - R" "proper bs LITERAL_HOST a" "keys bs r = R - A" "proper bs LITERAL_HOST r"
    "set a \<subseteq> set ah \<union> set ag \<union> names ms"
proof -
  obtain a0 where a0: "(if ag \<noteq> [] then
        do { (h, _, _) \<leftarrow> href_list_find_all_references bs (Some ms) True ag (Some ah, None, None); Some (the h) }
      else Some ah) = Some a0" "keys bs a0 = A" "proper bs LITERAL_HOST a0" "set a0 \<subseteq> set ah \<union> set ag \<union> names ms"
    unfolding A_def using find_more_hosts[OF assms(1,2,3,5)] .
  obtain r0 where r0: "(if rg \<noteq> [] then
        do { (h, _, _) \<leftarrow> href_list_find_all_references bs (Some ms) True rg (Some rh, None, None); Some (the h) }
      else Some rh) = Some r0" "keys bs r0 = R" "proper bs LITERAL_HOST r0" "set r0 \<subseteq> set rh \<union> set rg \<union> names ms"
    unfolding R_def using find_more_hosts[OF assms(1,2,4,6)] .
  obtain x y z w where d: "href_list_find_diff bs a0 r0 (Some []) (Some []) None None = (x, y, z, w)"
    by (metis prod_cases4)
  obtain a r where ar: "x = Some a" "y = Some r"
    "keys bs a = keys_of bs LITERAL_HOST a0 - keys_of bs LITERAL_HOST r0" "proper bs LITERAL_HOST a"
    "keys bs r = keys_of bs LITERAL_HOST r0 - keys_of bs LITERAL_HOST a0" "proper bs LITERAL_HOST r"
    "within (set a0) (Some a, z, None)"
    by (rule find_diff_correct[OF d]) auto
  have run: "href_list_find_effective_diff bs (Some ms) ag rg ah rh =
      Some (if a0 \<noteq> [] \<and> r0 \<noteq> [] then (a, r) else (a0, r0))"
    unfolding href_list_find_effective_diff_def a0(1) r0(1) using d ar(1,2) by simp
  have k: "keys_of bs LITERAL_HOST a0 = A" "keys_of bs LITERAL_HOST r0 = R"
    using a0(2,3) r0(2,3) by (simp_all add: proper_keys)
  show ?thesis
  proof (cases "a0 \<noteq> [] \<and> r0 \<noteq> []")
    case True
    have "set a \<subseteq> set a0" using ar(7) by (simp add: within_def)
    then show ?thesis using True run ar a0(4) k by (intro that[of a r]) auto
  next
    case False
    then have "A = {} \<or> R = {}" using a0(2) r0(2) by auto
    then show ?thesis using run False a0 r0 by (intro that[of a0 r0]) auto
  qed
qed

lemma acyclic_Un_star:
  assumes "finite A" "acyclic r" "\<forall>x\<in>A. (x, y) \<notin> r\<^sup>*"
  shows "acyclic (r \<union> {y} \<times> A)"
proof -
  have "acyclic (r \<union> {y} \<times> A) \<and> (\<forall>x. (x, y) \<in> (r \<union> {y} \<times> A)\<^sup>* \<longleftrightarrow> (x, y) \<in> r\<^sup>*)"
    using assms(1,3)
  proof (induction A)
    case (insert a A)
    have ih: "acyclic (r \<union> {y} \<times> A)" "\<forall>x. (x, y) \<in> (r \<union> {y} \<times> A)\<^sup>* \<longleftrightarrow> (x, y) \<in> r\<^sup>*"
      using insert by simp_all
    have e: "r \<union> {y} \<times> insert a A = insert (y, a) (r \<union> {y} \<times> A)" by auto
    have no: "(a, y) \<notin> (r \<union> {y} \<times> A)\<^sup>*" using ih(2) insert.prems by simp
    then show ?case unfolding e using ih by (auto simp: acyclic_insert rtrancl_insert)
  qed (use assms(2) in simp)
  then show ?thesis by blast
qed

text \<open>The master list with a changed or a new group: the old element goes, the new one is appended.\<close>

definition replace_group :: "Bootstrap \<Rightarrow> hgroup list \<Rightarrow> hgroup \<Rightarrow> hgroup list" where
  "replace_group bs ms h = filter (\<lambda>g. key bs (HGRP_name g) \<noteq> key bs (HGRP_name h)) ms @ [h]"

lemma replace_group_wf: "wf_groups bs ms \<Longrightarrow> is_hgroup_name (HGRP_name h) \<Longrightarrow> wf_groups bs (replace_group bs ms h)"
  by (auto simp: wf_groups_def replace_group_def list_all_iff intro: distinct_map_filter)

lemma edges_replace:
  "edges bs (replace_group bs ms h) \<subseteq>
     edges bs ms \<union> {key bs (HGRP_name h)} \<times> keys_of bs GROUP_REFERENCE (HGRP_host_list h)"
  by (auto simp: edges_def replace_group_def)

text \<open>The element that is changed is the stored one, or a new one without members.\<close>

definition is_current :: "Bootstrap \<Rightarrow> hgroup list \<Rightarrow> hgroup \<Rightarrow> bool" where
  "is_current bs ms h \<longleftrightarrow> is_hgroup_name (HGRP_name h) \<and>
     (h \<in> set ms \<or> HGRP_host_list h = [] \<and> hgroup_list_locate bs ms (HGRP_name h) = None)"

lemma mod_existing_sets:
  "mod_existing eq sub no_info reduced full changed = (ret, red, full', ch) \<Longrightarrow>
   set red \<subseteq> set reduced \<and> set full' \<subseteq> set full"
proof (induction eq sub no_info reduced full changed arbitrary: ret red full' ch rule: mod_existing.induct)
  case (1 eq sub no_info reduced full changed)
  note run = "1.prems"[unfolded mod_existing.simps[of eq sub no_info reduced full changed]]
  show ?case
  proof (cases "find (\<lambda>r. list_ex (eq r) full) reduced")
    case None
    then show ?thesis using run by simp
  next
    case (Some r)
    note sub = set_remove1_subset[of r reduced] set_remove1_subset[of "the (find (eq r) full)" full]
    consider "CHANGE sub" | "\<not> CHANGE sub" "APPEND sub" | "\<not> CHANGE sub" "\<not> APPEND sub" "REMOVE sub"
      | "\<not> CHANGE sub" "\<not> APPEND sub" "\<not> REMOVE sub" by blast
    then show ?thesis
    proof cases
      case 1
      then show ?thesis using run Some "1.IH"(1)[OF Some] sub(1) by fastforce
    next
      case 2
      then show ?thesis using run Some "1.IH"(2)[OF Some] sub(1) by (fastforce split: if_splits)
    next
      case 3
      then show ?thesis using run Some "1.IH"(3)[OF Some] sub by fastforce
    qed (use run Some in simp)
  qed
qed

lemma attr_mod_sub_list_set:
  "attr_mod_sub_list eq sub no_info delta full = (ret, new, ch) \<Longrightarrow> set new \<subseteq> set delta \<union> set full"
  using mod_existing_sets[of eq sub no_info delta full False]
  by (cases "mod_existing eq sub no_info delta full False") (fastforce simp: attr_mod_sub_list_def split: if_splits)

lemma uniq_loop_keys:
  "distinct (map (key bs) kept) \<Longrightarrow> distinct (map (key bs) (uniq_loop bs kept xs)) \<and>
     keys bs (uniq_loop bs kept xs) = keys bs kept \<union> keys bs xs \<and> set (uniq_loop bs kept xs) \<subseteq> set kept \<union> set xs"
proof (induction bs kept xs rule: uniq_loop.induct)
  case (2 bs kept x xs)
  show ?case
  proof (cases "href_list_has_member bs kept x")
    case True
    then show ?thesis using 2 by (auto simp: has_member_iff)
  next
    case False
    then have "distinct (map (key bs) (kept @ [x]))" using 2 by (auto simp: has_member_iff keys_def)
    then show ?thesis using 2 False by auto
  qed
qed simp

lemma make_uniq_keys:
  "distinct (map (key bs) (href_list_make_uniq bs l))" "keys bs (href_list_make_uniq bs l) = keys bs l"
  "set (href_list_make_uniq bs l) \<subseteq> set l"
  using uniq_loop_keys[of bs "[]" l] by (simp_all add: href_list_make_uniq_def)

text \<open>What the members of the new list are: names that were stored or that the resolver gave.\<close>

definition canonical :: "Bootstrap \<Rightarrow> (string \<Rightarrow> string option) \<Rightarrow> hgroup list \<Rightarrow> bool" where
  "canonical bs resolve ms \<longleftrightarrow>
     (\<forall>n r. resolve n = Some r \<longrightarrow> resolve r = Some r) \<and> list_all (\<lambda>h. stable bs resolve (HGRP_host_list h)) ms"

definition new_members :: "Bootstrap \<Rightarrow> (string \<Rightarrow> string option) \<Rightarrow> hgroup \<Rightarrow> string list \<Rightarrow> SubCommand \<Rightarrow> string list" where
  "new_members bs resolve h list sub =
     (let members = snd (href_list_resolve_hostnames resolve list True);
          (_, merged, _) = attr_mod_sub_list (\<lambda>r f. sge_hostcmp bs (Some r) (Some f) = 0) sub False members (HGRP_host_list h)
      in href_list_make_uniq bs merged)"

lemma stable_Un: "stable bs resolve l \<Longrightarrow> stable bs resolve l' \<Longrightarrow> set l'' \<subseteq> set l \<union> set l' \<Longrightarrow> stable bs resolve l''"
  unfolding stable_def list_all_iff by blast

lemma resolved_stable:
  assumes "\<forall>n r. resolve n = Some r \<longrightarrow> resolve r = Some r"
  shows "stable bs resolve (snd (href_list_resolve_hostnames resolve l ig))"
  using assms
  by (auto simp: stable_def list_all_iff href_list_resolve_hostnames_def Let_def Matcher_prepare_def
      split: MemberClass.splits option.splits)

lemma new_members_stable:
  assumes "canonical bs resolve ms" "is_current bs ms h"
  shows "stable bs resolve (new_members bs resolve h list sub)"
proof -
  let ?members = "snd (href_list_resolve_hostnames resolve list True)"
  obtain ret merged ch where m: "attr_mod_sub_list (\<lambda>r f. sge_hostcmp bs (Some r) (Some f) = 0) sub False ?members
      (HGRP_host_list h) = (ret, merged, ch)" by (metis prod_cases3)
  have "stable bs resolve ?members" by (rule resolved_stable) (use assms(1) in \<open>simp add: canonical_def\<close>)
  moreover have "stable bs resolve (HGRP_host_list h)"
    using assms by (auto simp: canonical_def is_current_def list_all_iff stable_def)
  ultimately show ?thesis
    by (rule stable_Un) (use attr_mod_sub_list_set[OF m] make_uniq_keys(3)[of bs merged] m in \<open>auto simp: new_members_def\<close>)
qed

definition group_hosts :: "Bootstrap \<Rightarrow> hgroup list \<Rightarrow> string set \<Rightarrow> string set" where
  "group_hosts bs ms gs = hosts_at bs ms ((edges bs ms)\<^sup>* `` gs)"

lemma group_hosts_Un: "group_hosts bs ms (A \<union> B) = group_hosts bs ms A \<union> group_hosts bs ms B"
  by (simp add: group_hosts_def Image_Un hosts_at_Un)

lemma effective_hosts_eq:
  "effective_hosts bs ms l = keys_of bs LITERAL_HOST l \<union> group_hosts bs ms (keys_of bs GROUP_REFERENCE l)"
  by (simp add: effective_hosts_def group_hosts_def)

lemma effective_diff_algebra:
  fixes bs ms new old
  defines "A \<equiv> (keys_of bs LITERAL_HOST new - keys_of bs LITERAL_HOST old) \<union>
      group_hosts bs ms (keys_of bs GROUP_REFERENCE new - keys_of bs GROUP_REFERENCE old)"
    and "R \<equiv> (keys_of bs LITERAL_HOST old - keys_of bs LITERAL_HOST new) \<union>
      group_hosts bs ms (keys_of bs GROUP_REFERENCE old - keys_of bs GROUP_REFERENCE new)"
  shows "A - R - effective_hosts bs ms old = effective_hosts bs ms new - effective_hosts bs ms old"
proof -
  let ?gn = "keys_of bs GROUP_REFERENCE new" and ?go = "keys_of bs GROUP_REFERENCE old"
  have mono: "X \<subseteq> Y \<Longrightarrow> group_hosts bs ms X \<subseteq> group_hosts bs ms Y" for X Y
    using group_hosts_Un[of bs ms X Y] by (simp add: subset_Un_eq)
  have "group_hosts bs ms ?gn \<subseteq> group_hosts bs ms (?gn - ?go) \<union> group_hosts bs ms ?go"
    unfolding group_hosts_Un[symmetric] by (rule mono) blast
  then have "effective_hosts bs ms new \<subseteq> A \<union> effective_hosts bs ms old"
    unfolding effective_hosts_eq A_def by blast
  moreover have "A \<subseteq> effective_hosts bs ms new" "R \<subseteq> effective_hosts bs ms old"
    unfolding effective_hosts_eq A_def R_def using mono[of "?gn - ?go" ?gn] mono[of "?go - ?gn" ?go] by blast+
  ultimately show ?thesis by blast
qed

lemma cycle_refused:
  assumes "acyclic (edges bs ms)" "is_current bs ms h"
    "href_list_find_all_referencees bs ms [HGRP_name h] [] = Some occ"
    "keys bs occ = ((edges bs ms)\<inverse>)\<^sup>+ `` keys_of bs GROUP_REFERENCE [HGRP_name h]"
    "keys bs ag = keys_of bs GROUP_REFERENCE new - keys_of bs GROUP_REFERENCE (HGRP_host_list h)"
    "\<not> list_ex (href_list_has_member bs (href_list_add bs occ (HGRP_name h))) ag"
  shows "acyclic (edges bs (replace_group bs ms (h\<lparr>HGRP_host_list := new\<rparr>)))"
proof -
  let ?k = "key bs (HGRP_name h)" and ?r = "edges bs ms"
  have cls: "classify_member (HGRP_name h) = GROUP_REFERENCE" using assms(2) by (simp add: is_current_def classify_member_def)
  have occ: "keys bs (href_list_add bs occ (HGRP_name h)) = {k. (k, ?k) \<in> ?r\<^sup>*}"
    using assms(4) cls by (auto simp: trancl_converse rtrancl_eq_or_trancl)
  have "(x, ?k) \<notin> ?r\<^sup>*" if x: "x \<in> keys bs ag" for x
    using x assms(6) occ by (auto simp: keys_def[of bs ag] list_ex_iff has_member_iff)
  moreover have "finite (keys bs ag)" by (simp add: keys_def)
  ultimately have ac: "acyclic (?r \<union> {?k} \<times> keys bs ag)" using acyclic_Un_star[OF _ assms(1)] by blast
  have "{?k} \<times> keys_of bs GROUP_REFERENCE (HGRP_host_list h) \<subseteq> ?r"
    using assms(2) by (auto simp: is_current_def edges_def)
  then have "{?k} \<times> keys_of bs GROUP_REFERENCE new \<subseteq> ?r \<union> {?k} \<times> keys bs ag" using assms(5) by auto
  then have "edges bs (replace_group bs ms (h\<lparr>HGRP_host_list := new\<rparr>)) \<subseteq> ?r \<union> {?k} \<times> keys bs ag"
    using edges_replace[of bs ms "h\<lparr>HGRP_host_list := new\<rparr>"] by auto
  then show ?thesis using ac acyclic_subset by blast
qed

lemma exists_keys:
  assumes "proper bs GROUP_REFERENCE gs" "hgroup_list_exists bs (Some ms) gs"
  shows "keys bs gs \<subseteq> (\<lambda>h. key bs (HGRP_name h)) ` set ms"
proof
  fix k
  assume "k \<in> keys bs gs"
  then obtain n where n: "n \<in> set gs" "k = key bs n" by (auto simp: keys_def)
  then have "is_hgroup_name n" using assms(1) by (auto simp: proper_def classify_member_def split: if_splits)
  then have "hgroup_list_locate bs ms n \<noteq> None" using assms(2) n(1) by (simp add: hgroup_list_exists_def list_all_iff)
  then obtain h where "h \<in> set ms" "key bs (HGRP_name h) = key bs n" unfolding locate_group_None by blast
  then show "k \<in> (\<lambda>h. key bs (HGRP_name h)) ` set ms" using n(2) by (metis rev_image_eqI)
qed

lemma effective_search:
  assumes "wf_groups bs ms" "acyclic (edges bs ms)"
  obtains hs m where "href_list_find_all_references bs (Some ms) True l (Some [], None, None) = Some (Some hs, None, m)"
    "keys bs hs = effective_hosts bs ms l" "proper bs LITERAL_HOST hs"
  by (rule find_all_references_acyclic[OF assms, of None True l "[]" None]) (use that in auto)

text \<open>The whole change of a member list: it always returns; when it succeeds, the new list refers to no
  queue group, the groups stay acyclic, and the added and removed hosts are the difference of what
  the two lists stand for.\<close>

lemma mod_hostlist_correct:
  fixes list sub
  assumes "wf_groups bs ms" "acyclic (edges bs ms)" "canonical bs resolve ms" "is_current bs ms h"
  defines "new \<equiv> new_members bs resolve h list sub" and "old \<equiv> HGRP_host_list h"
  shows "\<exists>ret h' add rem occ. hgroup_mod_hostlist bs resolve ms h list sub = Some (ret, h', add, rem, occ) \<and>
    (ret \<longrightarrow> h' = h\<lparr>HGRP_host_list := new\<rparr> \<and> \<not> list_ex hgroup_is_queue_group new \<and>
       keys bs add = effective_hosts bs ms new - effective_hosts bs ms old \<and>
       keys bs rem = effective_hosts bs ms old - effective_hosts bs ms new \<and>
       keys_of bs GROUP_REFERENCE new - keys_of bs GROUP_REFERENCE old \<subseteq> (\<lambda>h. key bs (HGRP_name h)) ` set ms \<and>
       acyclic (edges bs (replace_group bs ms h')))"
proof -
  obtain ret1 members where m1: "href_list_resolve_hostnames resolve list True = (ret1, members)" by fastforce
  obtain x1 merged x2 where m2: "attr_mod_sub_list (\<lambda>r f. sge_hostcmp bs (Some r) (Some f) = 0) sub False members old =
      (x1, merged, x2)" by (metis prod_cases3)
  have new: "new = href_list_make_uniq bs merged"
    unfolding new_def new_members_def m1 snd_conv m2[unfolded old_def] Let_def by simp
  obtain x3 x4 x5 x6 where d: "href_list_find_diff bs new old (Some []) (Some []) (Some []) (Some []) = (x3, x4, x5, x6)"
    by (metis prod_cases4)
  obtain ah rh where d1: "x3 = Some ah" "x4 = Some rh"
    "keys bs ah = keys_of bs LITERAL_HOST new - keys_of bs LITERAL_HOST old" "proper bs LITERAL_HOST ah"
    "keys bs rh = keys_of bs LITERAL_HOST old - keys_of bs LITERAL_HOST new" "proper bs LITERAL_HOST rh"
    and w: "within (set new) (Some ah, x5, None)"
    and g1: "grows bs GROUP_REFERENCE (Some []) x5 (keys_of bs GROUP_REFERENCE new - keys_of bs GROUP_REFERENCE old)"
    and g2: "grows bs GROUP_REFERENCE (Some []) x6 (keys_of bs GROUP_REFERENCE old - keys_of bs GROUP_REFERENCE new)"
    by (rule find_diff_correct[OF d]) auto
  obtain ag where ag: "x5 = Some ag" "keys bs ag = keys_of bs GROUP_REFERENCE new - keys_of bs GROUP_REFERENCE old"
    "proper bs GROUP_REFERENCE ag" using g1 by (auto simp: grows_def)
  obtain rg where rg: "x6 = Some rg" "keys bs rg = keys_of bs GROUP_REFERENCE old - keys_of bs GROUP_REFERENCE new"
    "proper bs GROUP_REFERENCE rg" using g2 by (auto simp: grows_def)
  obtain a0 r0 where e: "href_list_find_effective_diff bs (Some ms) ag rg ah rh = Some (a0, r0)"
    "keys bs a0 = keys bs ah \<union> hosts_at bs ms ((edges bs ms)\<^sup>* `` keys bs ag) -
       (keys bs rh \<union> hosts_at bs ms ((edges bs ms)\<^sup>* `` keys bs rg))" "proper bs LITERAL_HOST a0"
    "keys bs r0 = keys bs rh \<union> hosts_at bs ms ((edges bs ms)\<^sup>* `` keys bs rg) -
       (keys bs ah \<union> hosts_at bs ms ((edges bs ms)\<^sup>* `` keys bs ag))" "proper bs LITERAL_HOST r0"
    "set a0 \<subseteq> set ah \<union> set ag \<union> names ms"
    using effective_diff_correct[OF assms(1,2) ag(3) rg(3) d1(4,6)] .
  obtain ret2 a1 where m3: "href_list_resolve_hostnames resolve a0 False = (ret2, a1)" by fastforce
  have "stable bs resolve a0"
    using e(6) w ag(1) new_members_stable[OF assms(3,4), of list sub, folded new_def] assms(3)
    unfolding stable_def canonical_def names_def within_def list_all_iff by auto blast+
  note a1 = resolve_stable[OF e(3) this m3]
  obtain occ where occ: "href_list_find_all_referencees bs ms [HGRP_name h] [] = Some occ"
    "keys bs occ = ((edges bs ms)\<inverse>)\<^sup>+ `` keys_of bs GROUP_REFERENCE [HGRP_name h]"
    using find_all_referencees_acyclic[OF assms(1,2)] .
  obtain hold m4 where hold: "href_list_find_all_references bs (Some ms) True old (Some [], None, None) = Some (Some hold, None, m4)"
    "keys bs hold = effective_hosts bs ms old" "proper bs LITERAL_HOST hold"
    using effective_search[OF assms(1,2)] .
  obtain hnew m5 where hnew: "href_list_find_all_references bs (Some ms) True new (Some [], None, None) = Some (Some hnew, None, m5)"
    "keys bs hnew = effective_hosts bs ms new" "proper bs LITERAL_HOST hnew"
    using effective_search[OF assms(1,2)] .
  let ?h' = "h\<lparr>HGRP_host_list := new\<rparr>" and ?occ = "href_list_add bs occ (HGRP_name h)"
  let ?add = "href_list_remove_existing bs a1 hold" and ?rem = "href_list_remove_existing bs r0 hnew"
  have refs: "hgroup_find_all_referencees bs ms ?h' [] = Some occ"
    using occ(1) by (simp add: hgroup_find_all_referencees_def)
  have run: "hgroup_mod_hostlist bs resolve ms h list sub =
    (if \<not> ret1 \<or> \<not> delta_is_strict bs h members sub then Some (False, h, [], [], [])
     else if list_ex hgroup_is_queue_group new then Some (False, ?h', [], [], [])
     else if ag \<noteq> [] \<and> \<not> hgroup_list_exists bs (Some ms) ag then Some (False, ?h', ah, rh, [])
     else if \<not> ret2 then Some (False, ?h', a1, r0, [])
     else if list_ex (href_list_has_member bs ?occ) ag then Some (False, ?h', a1, r0, ?occ)
     else Some (True, ?h', ?add, ?rem, ?occ))"
    unfolding hgroup_mod_hostlist_def Let_def m1 prod.case old_def[symmetric] m2 new[symmetric] d d1(1,2) ag(1) rg(1)
      option.sel e(1) bind.bind_lunit m3 refs hold(1) hnew(1)
    by simp
  have "keys bs ?add = effective_hosts bs ms new - effective_hosts bs ms old"
    using remove_existing_keys[OF a1(2), of hold] effective_diff_algebra[of bs new old ms]
    unfolding a1(1) e(2) hold(2) d1(3,5) ag(2) rg(2) group_hosts_def by blast
  moreover have "keys bs ?rem = effective_hosts bs ms old - effective_hosts bs ms new"
    using remove_existing_keys[OF e(5), of hnew] effective_diff_algebra[of bs old new ms]
    unfolding e(4) hnew(2) d1(3,5) ag(2) rg(2) group_hosts_def by blast
  moreover have "acyclic (edges bs (replace_group bs ms ?h'))" if "\<not> list_ex (href_list_has_member bs ?occ) ag"
    using cycle_refused[OF assms(2,4) occ ag(2)[unfolded old_def] that] .
  moreover have "hgroup_mod_hostlist bs resolve ms h list sub = Some (True, ?h', ?add, ?rem, ?occ) \<and>
      \<not> list_ex hgroup_is_queue_group new \<and> \<not> list_ex (href_list_has_member bs ?occ) ag \<and>
      (ag = [] \<or> hgroup_list_exists bs (Some ms) ag) \<or>
    (\<exists>h' add rem occ. hgroup_mod_hostlist bs resolve ms h list sub = Some (False, h', add, rem, occ))"
    unfolding run by auto
  moreover have "keys bs ag \<subseteq> (\<lambda>h. key bs (HGRP_name h)) ` set ms" if "ag = [] \<or> hgroup_list_exists bs (Some ms) ag"
    using that exists_keys[OF ag(3)] by auto
  ultimately show ?thesis unfolding ag(2) by blast
qed

end
