(* ===== verification/HostGroups_Props.thy ===== *)
theory HostGroups_Props
  imports HostGroups_Correct
begin

text \<open>
  What the master relies on when it changes, resolves and deletes host groups.
\<close>

section \<open>The master list\<close>

text \<open>The groups refer only to groups that exist.\<close>

definition closed_groups :: "Bootstrap \<Rightarrow> hgroup list \<Rightarrow> bool" where
  "closed_groups bs ms \<longleftrightarrow> snd ` edges bs ms \<subseteq> (\<lambda>h. key bs (HGRP_name h)) ` set ms"

definition groups_inv :: "Bootstrap \<Rightarrow> (string \<Rightarrow> string option) \<Rightarrow> hgroup list \<Rightarrow> bool" where
  "groups_inv bs resolve ms \<longleftrightarrow>
     wf_groups bs ms \<and> acyclic (edges bs ms) \<and> closed_groups bs ms \<and> canonical bs resolve ms"

text \<open>The requests that change the master list: a group is changed or added, or deleted.\<close>

inductive groups_step :: "Bootstrap \<Rightarrow> (string \<Rightarrow> string option) \<Rightarrow> hgroup list \<Rightarrow> hgroup list \<Rightarrow> bool"
  for bs resolve where
  modify: "is_current bs ms h \<Longrightarrow>
    hgroup_mod_hostlist bs resolve ms h list sub = Some (True, h', add, rem, occ) \<Longrightarrow>
    groups_step bs resolve ms (replace_group bs ms h')"
| delete: "hgroup_del bs ms queues_of spooled name = (STATUS_OK, ms') \<Longrightarrow> groups_step bs resolve ms ms'"

inductive_cases groups_stepE: "groups_step bs resolve ms ms'"

lemma canonical_replace:
  assumes "canonical bs resolve ms" "is_current bs ms h"
  shows "canonical bs resolve (replace_group bs ms (h\<lparr>HGRP_host_list := new_members bs resolve h list sub\<rparr>))"
  using assms new_members_stable[OF assms, of list sub] by (auto simp: canonical_def replace_group_def list_all_iff)

lemma modify_keeps_inv:
  assumes "groups_inv bs resolve ms" "is_current bs ms h"
    "hgroup_mod_hostlist bs resolve ms h list sub = Some (True, h', add, rem, occ)"
  shows "groups_inv bs resolve (replace_group bs ms h')"
proof -
  let ?new = "new_members bs resolve h list sub"
  note inv = assms(1)[unfolded groups_inv_def]
  have c: "h' = h\<lparr>HGRP_host_list := ?new\<rparr>" "acyclic (edges bs (replace_group bs ms h'))"
    "keys_of bs GROUP_REFERENCE ?new - keys_of bs GROUP_REFERENCE (HGRP_host_list h) \<subseteq> (\<lambda>h. key bs (HGRP_name h)) ` set ms"
    using mod_hostlist_correct[of bs ms resolve h list sub] inv assms(2,3) by auto
  have g: "is_hgroup_name (HGRP_name h')" using assms(2) c(1) by (simp add: is_current_def)
  have "keys_of bs GROUP_REFERENCE (HGRP_host_list h) \<subseteq> snd ` edges bs ms"
    using assms(2) by (force simp: is_current_def edges_def)
  then have new: "keys_of bs GROUP_REFERENCE ?new \<subseteq> (\<lambda>h. key bs (HGRP_name h)) ` set ms"
    using c(3) inv unfolding closed_groups_def by blast
  have "snd ` edges bs (replace_group bs ms h') \<subseteq> snd ` edges bs ms \<union> keys_of bs GROUP_REFERENCE ?new"
    using edges_replace[of bs ms h'] c(1) by force
  also have "\<dots> \<subseteq> (\<lambda>h. key bs (HGRP_name h)) ` set ms" using inv new by (auto simp: closed_groups_def)
  also have "\<dots> \<subseteq> (\<lambda>h. key bs (HGRP_name h)) ` set (replace_group bs ms h')" by (auto simp: replace_group_def)
  finally show ?thesis
    using replace_group_wf[of bs ms h'] inv g c(2) canonical_replace[of bs resolve ms h list sub] assms(2) c(1)
    by (simp add: groups_inv_def closed_groups_def)
qed

lemma find_referencees_of:
  assumes "wf_groups bs ms" "is_hgroup_name (HGRP_name h)"
  shows "fst (hgroup_find_referencees bs ms queues_of h) = [] \<longleftrightarrow> key bs (HGRP_name h) \<notin> snd ` edges bs ms"
proof -
  have "keys bs (fst (hgroup_find_referencees bs ms queues_of h)) = (edges bs ms)\<inverse> `` {key bs (HGRP_name h)}"
    using find_referencees_keys[OF assms(1), of "[HGRP_name h]" "[]"] assms(2)
    by (simp add: hgroup_find_referencees_def classify_member_def)
  then show ?thesis using keys_empty_iff[of bs "fst (hgroup_find_referencees bs ms queues_of h)"] by force
qed

lemma delete_keeps_inv:
  assumes "groups_inv bs resolve ms" "hgroup_del bs ms queues_of spooled name = (STATUS_OK, ms')"
  shows "groups_inv bs resolve ms'"
proof -
  note inv = assms(1)[unfolded groups_inv_def]
  have wf: "wf_groups bs ms" using inv by simp
  obtain h where h: "hgroup_list_locate bs ms name = Some h" "fst (hgroup_find_referencees bs ms queues_of h) = []"
    "ms' = remove1 h ms"
    using assms(2) by (auto simp: hgroup_del_def split: if_splits option.splits prod.splits)
  have hin: "h \<in> set ms" using h(1) unfolding hgroup_list_locate_def by (auto dest: find_SomeD)
  then have hg: "is_hgroup_name (HGRP_name h)" using wf by (auto simp: wf_groups_def list_all_iff)
  have sub: "set ms' \<subseteq> set ms" unfolding h(3) by (rule set_remove1_subset)
  then have e: "edges bs ms' \<subseteq> edges bs ms" by (auto simp: edges_def)
  have "key bs (HGRP_name h) \<notin> snd ` edges bs ms" using find_referencees_of[OF wf hg] h(2) by blast
  then have "snd ` edges bs ms' \<subseteq> (\<lambda>h. key bs (HGRP_name h)) ` set ms - {key bs (HGRP_name h)}"
    using e inv by (force simp: closed_groups_def)
  also have "\<dots> \<subseteq> (\<lambda>h. key bs (HGRP_name h)) ` set ms'"
  proof
    fix k
    assume "k \<in> (\<lambda>h. key bs (HGRP_name h)) ` set ms - {key bs (HGRP_name h)}"
    then obtain g where "g \<in> set ms" "k = key bs (HGRP_name g)" "g \<noteq> h" by auto
    moreover from this have "g \<in> set ms'" unfolding h(3) by simp
    ultimately show "k \<in> (\<lambda>h. key bs (HGRP_name h)) ` set ms'" by blast
  qed
  finally have "closed_groups bs ms'" by (simp add: closed_groups_def)
  moreover have "wf_groups bs ms'"
    using wf sub unfolding h(3) by (auto simp: wf_groups_def list_all_iff distinct_map distinct_remove1 intro: inj_on_subset)
  moreover have "canonical bs resolve ms'" using inv sub by (auto simp: canonical_def list_all_iff)
  moreover have "acyclic (edges bs ms')" using e inv acyclic_subset by blast
  ultimately show ?thesis by (simp add: groups_inv_def)
qed

section \<open>The cache of resolved hosts\<close>

definition strip :: "hgroup \<Rightarrow> string \<times> string list" where
  "strip h = (HGRP_name h, HGRP_host_list h)"

lemma strip_edges: "edges bs ms = (\<Union>(n, l)\<in>set (map strip ms). {key bs n} \<times> keys_of bs GROUP_REFERENCE l)"
  by (auto simp: edges_def strip_def)

lemma strip_hosts_at:
  "hosts_at bs ms ks = (\<Union>(n, l)\<in>set (map strip ms). if key bs n \<in> ks then keys_of bs LITERAL_HOST l else {})"
  by (auto simp: hosts_at_def strip_def split: if_splits)

lemma strip_cong:
  assumes "map strip ms = map strip ms'"
  shows "edges bs ms = edges bs ms'" "effective_hosts bs ms l = effective_hosts bs ms' l" "wf_groups bs ms = wf_groups bs ms'"
proof -
  show e: "edges bs ms = edges bs ms'" unfolding strip_edges assms ..
  show "effective_hosts bs ms l = effective_hosts bs ms' l"
    unfolding effective_hosts_def e strip_hosts_at assms ..
  have w: "wf_groups bs ms = (distinct (map (key bs \<circ> fst) (map strip ms)) \<and> list_all (is_hgroup_name \<circ> fst) (map strip ms))"
    for ms
    by (simp add: wf_groups_def strip_def list.pred_map comp_def)
  show "wf_groups bs ms = wf_groups bs ms'" unfolding w[of ms] w[of ms'] assms ..
qed

text \<open>A group whose cache is fresh with respect to the master list.\<close>

definition fresh :: "Bootstrap \<Rightarrow> hgroup list \<Rightarrow> hgroup \<Rightarrow> bool" where
  "fresh bs ms h \<longleftrightarrow> hgroup_has_host_cache h \<and> keys bs (HGRP_cached_hosts h) = effective_hosts bs ms [HGRP_name h]"

lemma update_cache_fresh:
  assumes "wf_groups bs ms" "acyclic (edges bs ms)"
  shows "\<exists>h' v'. hgroup_update_cache bs (Some ms) h v = Some (True, h', v') \<and> strip h' = strip h \<and> fresh bs ms h'"
proof -
  obtain hs m where f: "href_list_find_all_references bs (Some ms) True [HGRP_name h] (Some [], None, None) = Some (Some hs, None, m)"
    "keys bs hs = effective_hosts bs ms [HGRP_name h]"
    by (rule effective_search[OF assms, of "[HGRP_name h]"])
  then show ?thesis
    by (simp add: hgroup_update_cache_def hgroup_find_all_references_def Let_def strip_def fresh_def hgroup_has_host_cache_def)
qed

lemma update_caches_fresh:
  assumes "wf_groups bs ms" "acyclic (edges bs ms)" "map strip (before @ hs) = map strip ms" "list_all (fresh bs ms) before"
  shows "\<exists>ms' v'. update_caches bs before hs v = Some (True, ms', v') \<and> map strip ms' = map strip ms \<and> list_all (fresh bs ms) ms'"
  using assms(3,4)
proof (induction hs arbitrary: before v)
  case (Cons h hs)
  note same = strip_cong[OF Cons.prems(1)]
  obtain h' v' where h': "hgroup_update_cache bs (Some (before @ h # hs)) h v = Some (True, h', v')" "strip h' = strip h"
    "fresh bs (before @ h # hs) h'"
    using update_cache_fresh[of bs "before @ h # hs" h v] assms(1,2) unfolding same by blast
  then have "fresh bs ms h'" using same(2)[of bs "[HGRP_name h']"] by (simp add: fresh_def)
  then have "list_all (fresh bs ms) (before @ [h'])" using Cons.prems(2) by simp
  moreover have "map strip ((before @ [h']) @ hs) = map strip ms" using Cons.prems(1) h'(2) by simp
  ultimately obtain ms' v'' where "update_caches bs (before @ [h']) hs v' = Some (True, ms', v'')"
    "map strip ms' = map strip ms" "list_all (fresh bs ms) ms'"
    using Cons.IH[of "before @ [h']" v'] by blast
  then show ?case using h'(1) by simp
qed simp

lemma contains_host_fresh:
  "fresh bs ms h \<Longrightarrow> hgroup_contains_host bs master h n = Some (key bs n \<in> effective_hosts bs ms [HGRP_name h])"
  by (simp add: fresh_def hgroup_contains_host_def hgroup_cache_contains_host_def locate_iff[simplified])

lemma contains_host_walk:
  assumes "wf_groups bs ms" "acyclic (edges bs ms)" "\<not> hgroup_has_host_cache h"
  shows "hgroup_contains_host bs (Some ms) h n = Some (key bs n \<in> effective_hosts bs ms [HGRP_name h])"
proof -
  obtain hs m where "href_list_find_all_references bs (Some ms) True [HGRP_name h] (Some [], None, None) = Some (Some hs, None, m)"
    "keys bs hs = effective_hosts bs ms [HGRP_name h]"
    by (rule effective_search[OF assms(1,2), of "[HGRP_name h]"])
  then show ?thesis
    using assms(3) by (simp add: hgroup_contains_host_def hgroup_find_all_references_def locate_iff[simplified])
qed

section \<open>Cycles\<close>

lemma acc_no_cycle: "x \<in> Wellfounded.acc r \<Longrightarrow> (x, x) \<notin> r\<^sup>+"
proof (induction rule: acc.induct)
  case (accI x)
  show ?case
  proof
    assume "(x, x) \<in> r\<^sup>+"
    then obtain y where "(y, x) \<in> r" "(x, y) \<in> r\<^sup>*" by (auto dest: tranclD2)
    then have "(y, y) \<in> r\<^sup>+" by auto
    then show False using accI \<open>(y, x) \<in> r\<close> by blast
  qed
qed

section \<open>Properties\<close>

text \<open>Two groups for the witnesses: one host in the first, which is a member of the second.\<close>

definition plain_names :: Bootstrap where
  "plain_names = \<lparr>ignore_fqdn = False, default_domain = None\<rparr>"

definition group_a :: hgroup where
  "group_a = \<lparr>HGRP_name = ''@a'', HGRP_host_list = [''n1''], HGRP_cached_hosts = [], HGRP_cache_version = 0\<rparr>"

definition group_b :: hgroup where
  "group_b = \<lparr>HGRP_name = ''@b'', HGRP_host_list = [''n2'', ''@a''], HGRP_cached_hosts = [], HGRP_cache_version = 0\<rparr>"

definition group_loop :: hgroup where
  "group_loop = \<lparr>HGRP_name = ''@l'', HGRP_host_list = [''@l''], HGRP_cached_hosts = [], HGRP_cache_version = 0\<rparr>"

lemma sample_keys [simp]:
  "key plain_names ''@a'' = ''@a''" "key plain_names ''@b'' = ''@b''" "key plain_names ''@l'' = ''@l''"
  "key plain_names ''n1'' = ''n1''" "key plain_names ''n2'' = ''n2''"
  by code_simp+

lemma sample_classes [simp]:
  "classify_member ''@a'' = GROUP_REFERENCE" "classify_member ''@l'' = GROUP_REFERENCE"
  "classify_member ''n1'' = LITERAL_HOST" "classify_member ''n2'' = LITERAL_HOST"
  by code_simp+

lemma sample_edges: "edges plain_names [group_a, group_b] = {(''@b'', ''@a'')}"
  "edges plain_names [group_loop] = {(''@l'', ''@l'')}"
  by (simp_all add: strip_edges strip_def group_a_def group_b_def group_loop_def)

lemma sample_inv: "groups_inv plain_names Some [group_a, group_b]"
proof -
  have "acyclic (edges plain_names [group_a, group_b])" by (simp add: sample_edges acyclic_insert wf_acyclic)
  moreover have "closed_groups plain_names [group_a, group_b]"
    unfolding closed_groups_def sample_edges by (simp add: group_a_def group_b_def)
  moreover have "wf_groups plain_names [group_a, group_b]"
    by (simp add: wf_groups_def group_a_def group_b_def is_hgroup_name_def)
  moreover have "canonical plain_names Some [group_a, group_b]"
    by (simp add: canonical_def stable_def group_a_def group_b_def)
  ultimately show ?thesis by (simp add: groups_inv_def)
qed

lemmas sample_wf = sample_inv[unfolded groups_inv_def, THEN conjunct1]
  and sample_acyclic = sample_inv[unfolded groups_inv_def, THEN conjunct2, THEN conjunct1]

text \<open>C14. Starting from a list of groups whose refs differ, whose references all exist and contain no
  cycle, no sequence of accepted changes and deletions leaves these invariants, so that every search for the
  hosts of a list of names returns.\<close>

theorem groups_stay_acyclic:
  assumes "groups_inv bs resolve ms" "(groups_step bs resolve)\<^sup>*\<^sup>* ms ms'"
  shows "groups_inv bs resolve ms' \<and>
    (\<exists>r. href_list_find_all_references bs (Some ms') e refs (Some [], None, None) = Some r)"
proof -
  from assms(2,1) have inv: "groups_inv bs resolve ms'"
    by (induction rule: rtranclp_induct) (auto elim!: groups_stepE intro: modify_keeps_inv delete_keeps_inv)
  then show ?thesis
    using find_all_references_acyclic[of bs ms' None e refs "[]" None] unfolding groups_inv_def by blast
qed

theorem groups_stay_acyclic_witness:
  "groups_inv plain_names Some [group_a] \<and>
   (\<exists>r. href_list_find_all_references plain_names (Some [group_a]) True [''@a''] (Some [], None, None) = Some r)"
proof -
  have "hgroup_del plain_names [group_a, group_b] (\<lambda>_. []) True ''@b'' = (STATUS_OK, [group_a])" by code_simp
  then have "(groups_step plain_names Some)\<^sup>*\<^sup>* [group_a, group_b] [group_a]" by (blast intro: groups_step.delete)
  then show ?thesis using groups_stay_acyclic[OF sample_inv] by blast
qed

text \<open>C15. Changing the members of a group always returns. When the change is accepted, the hosts reported
  as added and removed are exactly the hosts that the new member list stands for and the old one does not, and
  the reverse, nested groups included; no member of the new list is the group of a queue. The group is one of
  the master list or a new one without members; the names of the groups are distinct, the groups refer to groups
  that exist and form no cycle, as accepted changes keep them (\<open>groups_stay_acyclic\<close>). The resolver gives the
  same answers throughout, a name it returns resolves to itself, and every stored host resolves to itself
  or not at all: a host that was stored while it could not be resolved, and can be resolved now, would
  be reported under its resolved name.\<close>

theorem mod_hostlist_reports_difference:
  assumes "groups_inv bs resolve ms" "is_current bs ms h"
  shows "\<exists>ret h' add rem occ. hgroup_mod_hostlist bs resolve ms h list sub = Some (ret, h', add, rem, occ) \<and>
    (ret \<longrightarrow> \<not> list_ex hgroup_is_queue_group (HGRP_host_list h') \<and>
       key bs ` set add = effective_hosts bs ms (HGRP_host_list h') - effective_hosts bs ms (HGRP_host_list h) \<and>
       key bs ` set rem = effective_hosts bs ms (HGRP_host_list h) - effective_hosts bs ms (HGRP_host_list h'))"
  using mod_hostlist_correct[of bs ms resolve h list sub] assms unfolding groups_inv_def keys_def by fastforce

theorem mod_hostlist_reports_difference_witness:
  "\<exists>ret h' add rem occ. hgroup_mod_hostlist plain_names Some [group_a, group_b] group_b [''n3'']
     \<lparr>CHANGE = False, APPEND = True, REMOVE = False\<rparr> = Some (ret, h', add, rem, occ)"
proof -
  have "is_current plain_names [group_a, group_b] group_b" by (simp add: is_current_def is_hgroup_name_def group_b_def)
  from mod_hostlist_reports_difference[OF sample_inv this, of "[''n3'']"
      "\<lparr>CHANGE = False, APPEND = True, REMOVE = False\<rparr>"]
  show ?thesis by (elim exE conjE) (intro exI)
qed

text \<open>C16. On groups without a cycle, the search for all references returns the hosts that can be reached
  over nested groups and all groups below the ones named, each once.\<close>

theorem find_all_references_exact:
  assumes "wf_groups bs ms" "acyclic (edges bs ms)"
  shows "\<exists>hosts groups m. href_list_find_all_references bs (Some ms) e refs (Some [], Some [], matchers) =
      Some (Some hosts, Some groups, m) \<and>
    key bs ` set hosts = effective_hosts bs ms refs \<and> distinct (map (key bs) hosts) \<and>
    key bs ` set groups = (edges bs ms)\<^sup>+ `` keys_of bs GROUP_REFERENCE refs \<and> distinct (map (key bs) groups)"
  by (rule find_all_references_acyclic[OF assms, of "Some []" e refs "[]" matchers])
    (auto simp: keys_def reaches_def proper_def)

theorem find_all_references_exact_witness:
  "\<exists>hosts groups m. href_list_find_all_references plain_names (Some [group_a, group_b]) True [''@b''] (Some [], Some [], None) =
      Some (Some hosts, Some groups, m) \<and> distinct (map (key plain_names) hosts)"
  using find_all_references_exact[OF sample_wf sample_acyclic, of True "[''@b'']" None] by blast

text \<open>The search has no guard of its own against cycles: it does not return when one of the refs leads to a
  group that contains itself. (The acceptance of changes keeps such groups out of the master list.)\<close>

lemma find_all_references_needs_acyclic:
  assumes "wf_groups bs ms" "k \<in> keys_of bs GROUP_REFERENCE refs" "(k, c) \<in> (edges bs ms)\<^sup>*" "(c, c) \<in> (edges bs ms)\<^sup>+"
  shows "href_list_find_all_references bs (Some ms) e refs (Some [], Some [], matchers) = None"
proof (rule ccontr)
  assume "href_list_find_all_references bs (Some ms) e refs (Some [], Some [], matchers) \<noteq> None"
  then have "k \<in> Wellfounded.acc ((edges bs ms)\<inverse>)"
    using find_all_references_returns[of bs "Some ms" e refs "(Some [], Some [], matchers)" _ ms] assms(1,2) by auto
  moreover have "(c, k) \<in> ((edges bs ms)\<inverse>)\<^sup>*" using assms(3) by (simp add: rtrancl_converse)
  ultimately have "c \<in> Wellfounded.acc ((edges bs ms)\<inverse>)" by (rule acc_downwards)
  then show False using acc_no_cycle assms(4) by (metis trancl_converse converseI)
qed



text \<open>C19. Refreshing the caches of all groups returns, changes neither names nor members, and afterwards the
  question whether a group contains a host is answered from the cache as the walk over the nested groups
  answers it.\<close>

theorem cached_answers_agree:
  assumes "wf_groups bs ms" "acyclic (edges bs ms)"
  shows "\<exists>ms' v'. hgroup_list_update_caches bs ms v = Some (True, ms', v') \<and>
    map HGRP_name ms' = map HGRP_name ms \<and> map HGRP_host_list ms' = map HGRP_host_list ms \<and>
    (\<forall>h\<in>set ms'. hgroup_has_host_cache h \<and>
       hgroup_contains_host bs (Some ms') h n = hgroup_contains_host bs (Some ms') (h\<lparr>HGRP_cache_version := 0\<rparr>) n \<and>
       hgroup_contains_host bs (Some ms') h n = Some (key bs n \<in> effective_hosts bs ms [HGRP_name h]))"
proof -
  obtain ms' v' where m: "hgroup_list_update_caches bs ms v = Some (True, ms', v')" "map strip ms' = map strip ms"
    "list_all (fresh bs ms) ms'"
    using update_caches_fresh[OF assms, of "[]" ms v] unfolding hgroup_list_update_caches_def by auto
  note same = strip_cong[OF m(2)]
  have "map fst (map strip ms') = map fst (map strip ms)" "map snd (map strip ms') = map snd (map strip ms)" unfolding m(2) by simp_all
  then have "map HGRP_name ms' = map HGRP_name ms" "map HGRP_host_list ms' = map HGRP_host_list ms"
    by (simp_all add: strip_def comp_def)
  moreover have "hgroup_has_host_cache h \<and>
       hgroup_contains_host bs (Some ms') h n = hgroup_contains_host bs (Some ms') (h\<lparr>HGRP_cache_version := 0\<rparr>) n \<and>
       hgroup_contains_host bs (Some ms') h n = Some (key bs n \<in> effective_hosts bs ms [HGRP_name h])" if "h \<in> set ms'" for h
  proof -
    have "fresh bs ms h" using that m(3) by (simp add: list_all_iff)
    moreover have "\<not> hgroup_has_host_cache (h\<lparr>HGRP_cache_version := 0\<rparr>)" by (simp add: hgroup_has_host_cache_def)
    ultimately show ?thesis
      using contains_host_fresh[of bs ms h "Some ms'" n] contains_host_walk[of bs ms' "h\<lparr>HGRP_cache_version := 0\<rparr>" n]
        assms same by (simp add: fresh_def)
  qed
  ultimately show ?thesis using m(1) by blast
qed

theorem cached_answers_agree_witness:
  "\<exists>ms' v'. hgroup_list_update_caches plain_names [group_a, group_b] 4294967295 = Some (True, ms', v') \<and>
    map HGRP_name ms' = [''@a'', ''@b'']"
  using cached_answers_agree[OF sample_wf sample_acyclic, of 4294967295 "''n1''"] by (auto simp: group_a_def group_b_def)

section \<open>Appending members of which one exists\<close>

text \<open>When one of the elements to append exists already, none of the others is appended either, unless the caller
  has asked for no messages. The change of a host group ignores the result, so the request succeeds without
  adding the new hosts.\<close>

lemma append_stops_at_existing:
  assumes "APPEND sub" "\<not> CHANGE sub" "list_ex (\<lambda>r. list_ex (eq r) full) delta"
  shows "attr_mod_sub_list eq sub False delta full = (False, full, False)"
proof -
  have "find (\<lambda>r. list_ex (eq r) full) delta \<noteq> None" using assms(3) by (auto simp: find_eq_NoneD list_ex_iff)
  then show ?thesis using assms(1,2) by (auto simp: attr_mod_sub_list_def mod_existing.simps)
qed

lemma append_with_existing_adds_nothing:
  "new_members plain_names Some group_a [''n1'', ''n3''] \<lparr>CHANGE = False, APPEND = True, REMOVE = False\<rparr> = [''n1'']"
  by code_simp

end
