(* ===== verification/QueueStates.thy ===== *)
theory QueueStates
  imports Prelude "HOL-Library.Word"
begin

text \<open>
  The states of queue instances and of advance reservations: \<^verbatim>\<open>source/libs/sgeobj/sge_qinstance_state.cc\<close>,
  the message lists of \<^verbatim>\<open>source/libs/sgeobj/sge_mesobj.cc\<close>, and the functions of the master daemon that change
  states, in \<^verbatim>\<open>source/daemons/qmaster/sge_qinstance_qmaster.cc\<close>, \<^verbatim>\<open>sge_subordinate_qmaster.cc\<close> and
  \<^verbatim>\<open>sge_advance_reservation_qmaster.cc\<close>. A queue instance is a record of the attributes these functions read
  or write; the reservations and the signals that have been sent are the state of the master. Reporting
  records, mails and events are left out, and so are the tasks, on which slotwise subordination acts.
\<close>

unbundle bit_operations_syntax

section \<open>Data\<close>

record qinstance =
  QU_full_name :: string
  QU_state :: "32 word"
  QU_message_list :: "(32 word \<times> string) list"
  QU_suspended_on_subordinate :: "32 word"
  QU_version :: "32 word"
  QU_initial_state :: "string option"
  QU_calendar :: "string option"
  QU_state_changes :: "(nat \<times> 32 word) list"

definition QI_ALARM :: "32 word" where "QI_ALARM = 1"

definition QI_SUSPEND_ALARM :: "32 word" where "QI_SUSPEND_ALARM = 2"

definition QI_DISABLED :: "32 word" where "QI_DISABLED = 4"

definition QI_SUSPENDED :: "32 word" where "QI_SUSPENDED = 0x100"

definition QI_UNKNOWN :: "32 word" where "QI_UNKNOWN = 0x400"

definition QI_ERROR :: "32 word" where "QI_ERROR = 0x4000"

definition QI_SUSPENDED_ON_SUBORDINATE :: "32 word" where "QI_SUSPENDED_ON_SUBORDINATE = 0x8000"

definition QI_CAL_DISABLED :: "32 word" where "QI_CAL_DISABLED = 0x20000"

definition QI_CAL_SUSPENDED :: "32 word" where "QI_CAL_SUSPENDED = 0x40000"

definition QI_AMBIGUOUS :: "32 word" where "QI_AMBIGUOUS = 0x80000"

definition QI_ORPHANED :: "32 word" where "QI_ORPHANED = 0x100000"

definition QI_FULL :: "32 word" where "QI_FULL = 0x200000"

definition QI_DO_NOTHING :: "32 word" where "QI_DO_NOTHING = 0"

definition QI_DO_DISABLE :: "32 word" where "QI_DO_DISABLE = 4"

definition QI_DO_ENABLE :: "32 word" where "QI_DO_ENABLE = 8"

definition QI_DO_UNSUSPEND :: "32 word" where "QI_DO_UNSUSPEND = 0x80"

definition QI_DO_SUSPEND :: "32 word" where "QI_DO_SUSPEND = 0x100"

definition QI_DO_CLEARERROR :: "32 word" where "QI_DO_CLEARERROR = 0x4000"

definition QI_DO_RESCHEDULE :: "32 word" where "QI_DO_RESCHEDULE = 0x80000"

definition QI_DO_CAL_DISABLE :: "32 word" where "QI_DO_CAL_DISABLE = 0x20000"

definition QI_DO_CAL_SUSPEND :: "32 word" where "QI_DO_CAL_SUSPEND = 0x40000"

definition JOB_DO_ACTION :: "32 word" where "JOB_DO_ACTION = 0x80000000"

definition QUEUE_DO_ACTION :: "32 word" where "QUEUE_DO_ACTION = 0x40000000"

definition QI_TRANSITION_NOTHING :: "32 word" where "QI_TRANSITION_NOTHING = 0"

definition QI_TRANSITION_OPTION :: "32 word" where "QI_TRANSITION_OPTION = 1"

lemmas QI_defs = QI_ALARM_def QI_SUSPEND_ALARM_def QI_DISABLED_def QI_SUSPENDED_def QI_UNKNOWN_def QI_ERROR_def QI_SUSPENDED_ON_SUBORDINATE_def QI_CAL_DISABLED_def QI_CAL_SUSPENDED_def QI_AMBIGUOUS_def QI_ORPHANED_def QI_FULL_def

lemmas QI_DO_defs = QI_DO_NOTHING_def QI_DO_DISABLE_def QI_DO_ENABLE_def QI_DO_UNSUSPEND_def QI_DO_SUSPEND_def QI_DO_CLEARERROR_def QI_DO_RESCHEDULE_def QI_DO_CAL_DISABLE_def QI_DO_CAL_SUSPEND_def JOB_DO_ACTION_def QUEUE_DO_ACTION_def QI_TRANSITION_NOTHING_def QI_TRANSITION_OPTION_def

section \<open>State bits\<close>

definition qinstance_set_state :: "qinstance \<Rightarrow> bool \<Rightarrow> 32 word \<Rightarrow> bool \<times> qinstance" where
  "qinstance_set_state q set_state flag =
     (let old_state = QU_state q; new_state = (if set_state then old_state OR flag else old_state AND NOT flag) in
      if old_state \<noteq> new_state then (True, q\<lparr>QU_state := new_state\<rparr>) else (False, q))"

definition qinstance_has_state :: "qinstance \<Rightarrow> 32 word \<Rightarrow> bool" where
  "qinstance_has_state q flag = (if flag \<noteq> - 1 then QU_state q AND flag \<noteq> 0 else True)"

definition transition_is_valid_for_qinstance :: "32 word \<Rightarrow> bool" where
  "transition_is_valid_for_qinstance transition =
     (let t = (transition AND NOT JOB_DO_ACTION) AND NOT QUEUE_DO_ACTION in
      t = QI_DO_NOTHING \<or> t = QI_DO_DISABLE \<or> t = QI_DO_ENABLE \<or> t = QI_DO_SUSPEND \<or> t = QI_DO_UNSUSPEND \<or>
      t = QI_DO_CLEARERROR \<or> t = QI_DO_RESCHEDULE)"

definition transition_option_is_valid_for_qinstance :: "32 word \<Rightarrow> bool" where
  "transition_option_is_valid_for_qinstance opt \<longleftrightarrow> opt = QI_TRANSITION_NOTHING \<or> opt = QI_TRANSITION_OPTION"

definition state_names :: "(32 word \<times> string) list" where
  "state_names =
     [(QI_ALARM, ''load alarm''), (QI_SUSPEND_ALARM, ''suspend alarm''), (QI_DISABLED, ''disabled''),
      (QI_SUSPENDED, ''suspended''), (QI_UNKNOWN, ''unknown''), (QI_ERROR, ''error''),
      (QI_SUSPENDED_ON_SUBORDINATE, ''suspended on subordinate''), (QI_CAL_DISABLED, ''calendar disabled''),
      (QI_CAL_SUSPENDED, ''calendar suspended''), (QI_AMBIGUOUS, ''configuration ambiguous''),
      (QI_ORPHANED, ''orphaned''),
      (NOT QI_ALARM, ''no load alarm''), (NOT QI_SUSPEND_ALARM, ''no suspend alarm''), (NOT QI_DISABLED, ''enabled''),
      (NOT QI_SUSPENDED, ''unsuspended''), (NOT QI_UNKNOWN, ''not unknown''), (NOT QI_ERROR, ''no error''),
      (NOT QI_SUSPENDED_ON_SUBORDINATE, ''no suspended on subordinate''), (NOT QI_CAL_DISABLED, ''calendar enabled''),
      (NOT QI_CAL_SUSPENDED, ''calendar unsuspended''), (NOT QI_AMBIGUOUS, ''not configuration ambiguous''),
      (NOT QI_ORPHANED, ''not orphaned'')]"

definition qinstance_state_as_string :: "32 word \<Rightarrow> string option" where
  "qinstance_state_as_string flag = map_of state_names flag"

definition letters :: "(char \<times> 32 word) list" where
  "letters =
     [(CHR ''a'', QI_ALARM), (CHR ''A'', QI_SUSPEND_ALARM), (CHR ''C'', QI_CAL_SUSPENDED), (CHR ''D'', QI_CAL_DISABLED),
      (CHR ''d'', QI_DISABLED), (CHR ''u'', QI_UNKNOWN), (CHR ''E'', QI_ERROR), (CHR ''S'', QI_SUSPENDED_ON_SUBORDINATE),
      (CHR ''s'', QI_SUSPENDED), (CHR ''c'', QI_AMBIGUOUS), (CHR ''o'', QI_ORPHANED)]"

fun state_loop :: "32 word \<Rightarrow> string \<Rightarrow> 32 word \<Rightarrow> 32 word option" where
  \<comment> \<open>\<open>None\<close> when a letter is unknown or its state is not in the filter\<close>
  "state_loop filt [] ustate = Some ustate"
| "state_loop filt (c # cs) ustate =
     (case map_of letters c of
        None \<Rightarrow> None
      | Some flag \<Rightarrow>
          if (ustate OR flag) AND NOT filt \<noteq> 0 then None else state_loop filt cs (ustate OR flag))"

definition qinstance_state_from_string :: "string \<Rightarrow> 32 word \<Rightarrow> 32 word" where
  "qinstance_state_from_string sstate filt =
     (case state_loop filt sstate 0 of
        None \<Rightarrow> - 1
      | Some ustate \<Rightarrow> if sstate = [] then - 1 else ustate)"

definition qinstance_state_append_to_dstring :: "qinstance \<Rightarrow> string \<Rightarrow> string" where
  "qinstance_state_append_to_dstring q str =
     str @ map fst (filter (\<lambda>(c, flag). qinstance_has_state q flag) letters)"

definition qinstance_state_set_orphaned :: "qinstance \<Rightarrow> bool \<Rightarrow> bool \<times> qinstance" where
  "qinstance_state_set_orphaned q set_state = qinstance_set_state q set_state QI_ORPHANED"

definition qinstance_state_is_orphaned :: "qinstance \<Rightarrow> bool" where
  "qinstance_state_is_orphaned q = qinstance_has_state q QI_ORPHANED"

definition qinstance_state_set_ambiguous :: "qinstance \<Rightarrow> bool \<Rightarrow> bool \<times> qinstance" where
  "qinstance_state_set_ambiguous q set_state = qinstance_set_state q set_state QI_AMBIGUOUS"

definition qinstance_state_is_ambiguous :: "qinstance \<Rightarrow> bool" where
  "qinstance_state_is_ambiguous q = qinstance_has_state q QI_AMBIGUOUS"

definition qinstance_state_set_alarm :: "qinstance \<Rightarrow> bool \<Rightarrow> bool \<times> qinstance" where
  "qinstance_state_set_alarm q set_state = qinstance_set_state q set_state QI_ALARM"

definition qinstance_state_is_alarm :: "qinstance \<Rightarrow> bool" where
  "qinstance_state_is_alarm q = qinstance_has_state q QI_ALARM"

definition qinstance_state_set_suspend_alarm :: "qinstance \<Rightarrow> bool \<Rightarrow> bool \<times> qinstance" where
  "qinstance_state_set_suspend_alarm q set_state = qinstance_set_state q set_state QI_SUSPEND_ALARM"

definition qinstance_state_is_suspend_alarm :: "qinstance \<Rightarrow> bool" where
  "qinstance_state_is_suspend_alarm q = qinstance_has_state q QI_SUSPEND_ALARM"

definition qinstance_state_set_manual_disabled :: "qinstance \<Rightarrow> bool \<Rightarrow> bool \<times> qinstance" where
  "qinstance_state_set_manual_disabled q set_state = qinstance_set_state q set_state QI_DISABLED"

definition qinstance_state_is_manual_disabled :: "qinstance \<Rightarrow> bool" where
  "qinstance_state_is_manual_disabled q = qinstance_has_state q QI_DISABLED"

definition qinstance_state_set_manual_suspended :: "qinstance \<Rightarrow> bool \<Rightarrow> bool \<times> qinstance" where
  "qinstance_state_set_manual_suspended q set_state = qinstance_set_state q set_state QI_SUSPENDED"

definition qinstance_state_is_manual_suspended :: "qinstance \<Rightarrow> bool" where
  "qinstance_state_is_manual_suspended q = qinstance_has_state q QI_SUSPENDED"

definition qinstance_state_set_unknown :: "bool \<Rightarrow> qinstance \<Rightarrow> bool \<Rightarrow> bool \<times> qinstance" where
  \<comment> \<open>the first argument is \<^verbatim>\<open>mconf_get_simulate_execds\<close>\<close>
  "qinstance_state_set_unknown simulate q set_state =
     (if simulate then qinstance_set_state q False QI_UNKNOWN else qinstance_set_state q set_state QI_UNKNOWN)"

definition qinstance_state_is_unknown :: "qinstance \<Rightarrow> bool" where
  "qinstance_state_is_unknown q = qinstance_has_state q QI_UNKNOWN"

definition qinstance_state_set_error :: "qinstance \<Rightarrow> bool \<Rightarrow> bool \<times> qinstance" where
  "qinstance_state_set_error q set_state = qinstance_set_state q set_state QI_ERROR"

definition qinstance_state_is_error :: "qinstance \<Rightarrow> bool" where
  "qinstance_state_is_error q = qinstance_has_state q QI_ERROR"

definition qinstance_state_set_susp_on_sub :: "qinstance \<Rightarrow> bool \<Rightarrow> bool \<times> qinstance" where
  "qinstance_state_set_susp_on_sub q set_state = qinstance_set_state q set_state QI_SUSPENDED_ON_SUBORDINATE"

definition qinstance_state_is_susp_on_sub :: "qinstance \<Rightarrow> bool" where
  "qinstance_state_is_susp_on_sub q = qinstance_has_state q QI_SUSPENDED_ON_SUBORDINATE"

definition qinstance_state_set_cal_disabled :: "qinstance \<Rightarrow> bool \<Rightarrow> bool \<times> qinstance" where
  "qinstance_state_set_cal_disabled q set_state = qinstance_set_state q set_state QI_CAL_DISABLED"

definition qinstance_state_is_cal_disabled :: "qinstance \<Rightarrow> bool" where
  "qinstance_state_is_cal_disabled q = qinstance_has_state q QI_CAL_DISABLED"

definition qinstance_state_set_cal_suspended :: "qinstance \<Rightarrow> bool \<Rightarrow> bool \<times> qinstance" where
  "qinstance_state_set_cal_suspended q set_state = qinstance_set_state q set_state QI_CAL_SUSPENDED"

definition qinstance_state_is_cal_suspended :: "qinstance \<Rightarrow> bool" where
  "qinstance_state_is_cal_suspended q = qinstance_has_state q QI_CAL_SUSPENDED"

definition qinstance_state_set_full :: "qinstance \<Rightarrow> bool \<Rightarrow> bool \<times> qinstance" where
  "qinstance_state_set_full q set_state = qinstance_set_state q set_state QI_FULL"

definition qinstance_state_is_full :: "qinstance \<Rightarrow> bool" where
  "qinstance_state_is_full q = qinstance_has_state q QI_FULL"

lemmas state_is_defs = qinstance_state_is_orphaned_def qinstance_state_is_ambiguous_def qinstance_state_is_alarm_def qinstance_state_is_suspend_alarm_def qinstance_state_is_manual_disabled_def qinstance_state_is_manual_suspended_def qinstance_state_is_unknown_def qinstance_state_is_error_def qinstance_state_is_susp_on_sub_def qinstance_state_is_cal_disabled_def qinstance_state_is_cal_suspended_def qinstance_state_is_full_def

lemmas state_set_defs = qinstance_state_set_orphaned_def qinstance_state_set_ambiguous_def qinstance_state_set_alarm_def qinstance_state_set_suspend_alarm_def qinstance_state_set_manual_disabled_def qinstance_state_set_manual_suspended_def qinstance_state_set_unknown_def qinstance_state_set_error_def qinstance_state_set_susp_on_sub_def qinstance_state_set_cal_disabled_def qinstance_state_set_cal_suspended_def qinstance_state_set_full_def

section \<open>Messages\<close>

definition qim_list_add :: "(32 word \<times> string) list \<Rightarrow> 32 word \<Rightarrow> string option \<Rightarrow> (32 word \<times> string) list" where
  "qim_list_add l typ message = (case message of None \<Rightarrow> l | Some msg \<Rightarrow> l @ [(typ, msg)])"

definition qim_list_trash_all_of_type_X :: "(32 word \<times> string) list \<Rightarrow> 32 word \<Rightarrow> (32 word \<times> string) list" where
  "qim_list_trash_all_of_type_X l typ = filter (\<lambda>(elem_type, _). elem_type AND typ = 0) l"

definition qinstance_message_add :: "qinstance \<Rightarrow> 32 word \<Rightarrow> string option \<Rightarrow> qinstance" where
  "qinstance_message_add q typ message = q\<lparr>QU_message_list := qim_list_add (QU_message_list q) typ message\<rparr>"

definition qinstance_message_trash_all_of_type_X :: "qinstance \<Rightarrow> 32 word \<Rightarrow> qinstance" where
  "qinstance_message_trash_all_of_type_X q typ =
     q\<lparr>QU_message_list := qim_list_trash_all_of_type_X (QU_message_list q) typ\<rparr>"

definition qinstance_set_error :: "qinstance \<Rightarrow> 32 word \<Rightarrow> string option \<Rightarrow> bool \<Rightarrow> qinstance" where
  "qinstance_set_error q typ message set_error =
     (let q' = snd (qinstance_set_state q set_error typ) in
      if set_error then qinstance_message_add q' typ message else qinstance_message_trash_all_of_type_X q' typ)"

definition qinstance_increase_qversion :: "qinstance \<Rightarrow> qinstance" where
  "qinstance_increase_qversion q = q\<lparr>QU_version := QU_version q + 1\<rparr>"

section \<open>Advance reservations\<close>

datatype ar_state = AR_UNKNOWN | AR_WAITING | AR_RUNNING | AR_EXITED | AR_DELETED | AR_ERROR | AR_WARNING

record ar =
  AR_id :: nat
  AR_state :: ar_state
  AR_qi_errors :: "32 word"
  AR_reserved_queues :: "qinstance list"

definition sge_ar_has_errors :: "ar \<Rightarrow> bool" where
  "sge_ar_has_errors a \<longleftrightarrow> AR_qi_errors a \<noteq> 0"

definition sge_ar_state_set_running :: "ar \<Rightarrow> ar" where
  "sge_ar_state_set_running a =
     (if AR_state a = AR_DELETED \<or> AR_state a = AR_EXITED then a
      else a\<lparr>AR_state := if sge_ar_has_errors a then AR_ERROR else AR_RUNNING\<rparr>)"

definition sge_ar_state_set_waiting :: "ar \<Rightarrow> ar" where
  "sge_ar_state_set_waiting a =
     (if AR_state a = AR_DELETED \<or> AR_state a = AR_EXITED then a
      else a\<lparr>AR_state := if sge_ar_has_errors a then AR_WARNING else AR_WAITING\<rparr>)"

definition sge_ar_state_set_deleted :: "ar \<Rightarrow> ar" where
  "sge_ar_state_set_deleted a = a\<lparr>AR_state := AR_DELETED\<rparr>"

definition sge_ar_state_set_exited :: "ar \<Rightarrow> ar" where
  "sge_ar_state_set_exited a = a\<lparr>AR_state := AR_EXITED\<rparr>"

definition error_message :: "string \<Rightarrow> 32 word \<Rightarrow> string" where
  "error_message name typ =
     ''reserved queue '' @ name @ '' is '' @ (case qinstance_state_as_string typ of None \<Rightarrow> ''(null)'' | Some n \<Rightarrow> n)"

definition ar_set_error :: "string \<Rightarrow> 32 word \<Rightarrow> bool \<Rightarrow> ar \<Rightarrow> ar" where
  \<comment> \<open>the body of the loop of \<open>sge_ar_list_set_error_state\<close>; the first queue of that name is changed\<close>
  "ar_set_error qname error_type set_error a =
     (case List.extract (\<lambda>q. QU_full_name q = qname) (AR_reserved_queues a) of
        None \<Rightarrow> a
      | Some (qs, q, qs') \<Rightarrow>
          let old_errors = AR_qi_errors a;
              new_errors = (if set_error then old_errors + 1 else old_errors - 1);
              q' = qinstance_set_error q error_type (Some (error_message qname error_type)) set_error;
              a' = a\<lparr>AR_qi_errors := new_errors, AR_reserved_queues := qs @ q' # qs'\<rparr>
          in if old_errors = 0 \<or> new_errors = 0 then
               if AR_state a = AR_RUNNING \<or> AR_state a = AR_ERROR then sge_ar_state_set_running a'
               else sge_ar_state_set_waiting a'
             else a')"

definition sge_ar_list_set_error_state :: "ar list \<Rightarrow> string \<Rightarrow> 32 word \<Rightarrow> bool \<Rightarrow> ar list" where
  "sge_ar_list_set_error_state ar_list qname error_type set_error = map (ar_set_error qname error_type set_error) ar_list"

definition copy_error :: "qinstance \<Rightarrow> 32 word \<Rightarrow> 32 word \<times> qinstance \<Rightarrow> 32 word \<times> qinstance" where
  "copy_error master_queue flag = (\<lambda>(errors, q).
     if qinstance_has_state master_queue flag
     then (errors + 1, qinstance_set_error q flag (Some (error_message (QU_full_name q) flag)) True)
     else (errors, q))"

definition ar_initialize_queue_state :: "qinstance \<Rightarrow> 32 word \<Rightarrow> 32 word \<times> qinstance" where
  \<comment> \<open>the part of \<^verbatim>\<open>ar_initialize_resource_booking\<close> that sets up the state of one reserved queue\<close>
  "ar_initialize_queue_state master_queue errors =
     fold (copy_error master_queue)
       [QI_AMBIGUOUS, QI_ALARM, QI_SUSPEND_ALARM, QI_DISABLED, QI_UNKNOWN, QI_ERROR]
       (errors, \<lparr>QU_full_name = QU_full_name master_queue, QU_state = 0, QU_message_list = [],
          QU_suspended_on_subordinate = 0, QU_version = 0, QU_initial_state = None, QU_calendar = None,
          QU_state_changes = []\<rparr>)"

fun ar_initialize_queues :: "qinstance list \<Rightarrow> 32 word \<Rightarrow> qinstance list \<Rightarrow> 32 word \<times> qinstance list" where
  "ar_initialize_queues [] errors done = (errors, done)"
| "ar_initialize_queues (mq # mqs) errors done =
     (let (errors', q) = ar_initialize_queue_state mq errors in ar_initialize_queues mqs errors' (done @ [q]))"

definition ar_initialize_errors :: "qinstance list \<Rightarrow> ar \<Rightarrow> ar" where
  \<comment> \<open>what \<^verbatim>\<open>ar_initialize_resource_booking\<close> does to the error counter and the states, for the queue instances of the
     granted slots; the consumables of the copies are left out\<close>
  "ar_initialize_errors granted a =
     (let (errors, queues) = ar_initialize_queues granted (AR_qi_errors a) [] in
      a\<lparr>AR_qi_errors := errors, AR_reserved_queues := queues\<rparr>)"

section \<open>State changes in the master\<close>

datatype signal = SGE_SIGSTOP | SGE_SIGCONT

record qmaster =
  ars :: "ar list"
  signals :: "(string \<times> signal) list"

definition sge_signal_queue :: "signal \<Rightarrow> qinstance \<Rightarrow> qmaster \<Rightarrow> qmaster" where
  \<comment> \<open>the signal is sent to the execution daemon of the queue instance\<close>
  "sge_signal_queue sig q m = m\<lparr>signals := signals m @ [(QU_full_name q, sig)]\<rparr>"

definition report_error :: "32 word \<Rightarrow> bool \<Rightarrow> bool \<times> qinstance \<Rightarrow> qmaster \<Rightarrow> bool \<times> qinstance \<times> qmaster" where
  "report_error flag set_state = (\<lambda>(changed, q) m.
     (changed, q, if changed then m\<lparr>ars := sge_ar_list_set_error_state (ars m) (QU_full_name q) flag set_state\<rparr> else m))"

definition sge_qmaster_qinstance_state_set_manual_disabled ::
    "qinstance \<Rightarrow> bool \<Rightarrow> qmaster \<Rightarrow> bool \<times> qinstance \<times> qmaster" where
  "sge_qmaster_qinstance_state_set_manual_disabled q set_state m =
     report_error QI_DISABLED set_state (qinstance_state_set_manual_disabled q set_state) m"

definition sge_qmaster_qinstance_state_set_manual_suspended ::
    "qinstance \<Rightarrow> bool \<Rightarrow> qmaster \<Rightarrow> bool \<times> qinstance \<times> qmaster" where
  "sge_qmaster_qinstance_state_set_manual_suspended q set_state m =
     report_error QI_SUSPENDED set_state (qinstance_state_set_manual_suspended q set_state) m"

definition sge_qmaster_qinstance_state_set_unknown ::
    "bool \<Rightarrow> qinstance \<Rightarrow> bool \<Rightarrow> qmaster \<Rightarrow> bool \<times> qinstance \<times> qmaster" where
  "sge_qmaster_qinstance_state_set_unknown simulate q set_state m =
     report_error QI_UNKNOWN (if simulate then False else set_state) (qinstance_state_set_unknown simulate q set_state) m"

definition sge_qmaster_qinstance_state_set_error ::
    "qinstance \<Rightarrow> bool \<Rightarrow> qmaster \<Rightarrow> bool \<times> qinstance \<times> qmaster" where
  "sge_qmaster_qinstance_state_set_error q set_state m =
     report_error QI_ERROR set_state (qinstance_state_set_error q set_state) m"

definition sge_qmaster_qinstance_state_set_ambiguous ::
    "qinstance \<Rightarrow> bool \<Rightarrow> qmaster \<Rightarrow> bool \<times> qinstance \<times> qmaster" where
  "sge_qmaster_qinstance_state_set_ambiguous q set_state m =
     report_error QI_AMBIGUOUS set_state (qinstance_state_set_ambiguous q set_state) m"

definition sge_qmaster_qinstance_state_set_susp_on_sub ::
    "qinstance \<Rightarrow> bool \<Rightarrow> qmaster \<Rightarrow> bool \<times> qinstance \<times> qmaster" where
  "sge_qmaster_qinstance_state_set_susp_on_sub q set_state m =
     (let (changed, q') = qinstance_state_set_susp_on_sub q set_state in (changed, q', m))"

definition sge_qmaster_qinstance_state_set_cal_disabled ::
    "qinstance \<Rightarrow> bool \<Rightarrow> qmaster \<Rightarrow> bool \<times> qinstance \<times> qmaster" where
  "sge_qmaster_qinstance_state_set_cal_disabled q set_state m =
     (let (changed, q') = qinstance_state_set_cal_disabled q set_state in (changed, q', m))"

definition sge_qmaster_qinstance_state_set_cal_suspended ::
    "qinstance \<Rightarrow> bool \<Rightarrow> qmaster \<Rightarrow> bool \<times> qinstance \<times> qmaster" where
  "sge_qmaster_qinstance_state_set_cal_suspended q set_state m =
     (let (changed, q') = qinstance_state_set_cal_suspended q set_state in (changed, q', m))"

definition sge_qmaster_qinstance_state_set_orphaned ::
    "qinstance \<Rightarrow> bool \<Rightarrow> qmaster \<Rightarrow> bool \<times> qinstance \<times> qmaster" where
  "sge_qmaster_qinstance_state_set_orphaned q set_state m =
     (let (changed, q') = qinstance_state_set_orphaned q set_state in (changed, q', m))"

lemmas qmaster_set_defs = sge_qmaster_qinstance_state_set_manual_disabled_def sge_qmaster_qinstance_state_set_manual_suspended_def sge_qmaster_qinstance_state_set_unknown_def sge_qmaster_qinstance_state_set_error_def sge_qmaster_qinstance_state_set_ambiguous_def sge_qmaster_qinstance_state_set_susp_on_sub_def sge_qmaster_qinstance_state_set_cal_disabled_def sge_qmaster_qinstance_state_set_cal_suspended_def sge_qmaster_qinstance_state_set_orphaned_def

definition sge_qmaster_qinstance_set_initial_state :: "qinstance \<Rightarrow> qmaster \<Rightarrow> bool \<times> qinstance \<times> qmaster" where
  "sge_qmaster_qinstance_set_initial_state q m =
     (case QU_initial_state q of
        None \<Rightarrow> (False, q, m)
      | Some state_string \<Rightarrow>
          if state_string = ''default'' then (False, q, m)
          else
            let do_disable = (state_string = ''disabled'') in
            if do_disable \<noteq> qinstance_state_is_manual_disabled q
            then (let (_, q', m') = sge_qmaster_qinstance_state_set_manual_disabled q do_disable m in (True, q', m'))
            else (False, q, m))"

record change_state_t =
  transition :: "32 word"
  state_mask :: "32 word"
  has_state :: "qinstance \<Rightarrow> bool"
  is_state :: bool
  set_state_fun :: "qinstance \<Rightarrow> bool \<Rightarrow> qmaster \<Rightarrow> bool \<times> qinstance \<times> qmaster"
  set_to :: bool

definition transitions :: "change_state_t list" where
  "transitions =
     [\<lparr>transition = QI_DO_CLEARERROR, state_mask = NOT QI_ERROR, has_state = qinstance_state_is_error, is_state = True,
        set_state_fun = sge_qmaster_qinstance_state_set_error, set_to = False\<rparr>,
      \<lparr>transition = QI_DO_ENABLE, state_mask = NOT QI_DISABLED, has_state = qinstance_state_is_manual_disabled, is_state = True,
        set_state_fun = sge_qmaster_qinstance_state_set_manual_disabled, set_to = False\<rparr>,
      \<lparr>transition = QI_DO_DISABLE, state_mask = QI_DISABLED, has_state = qinstance_state_is_manual_disabled, is_state = False,
        set_state_fun = sge_qmaster_qinstance_state_set_manual_disabled, set_to = True\<rparr>,
      \<lparr>transition = QI_DO_SUSPEND, state_mask = QI_SUSPENDED, has_state = qinstance_state_is_manual_suspended, is_state = False,
        set_state_fun = sge_qmaster_qinstance_state_set_manual_suspended, set_to = True\<rparr>,
      \<lparr>transition = QI_DO_UNSUSPEND, state_mask = NOT QI_SUSPENDED, has_state = qinstance_state_is_manual_suspended, is_state = True,
        set_state_fun = sge_qmaster_qinstance_state_set_manual_suspended, set_to = False\<rparr>]"

definition extra_work :: "32 word \<Rightarrow> bool \<Rightarrow> qinstance \<Rightarrow> qmaster \<Rightarrow> bool \<times> qinstance \<times> qmaster" where
  \<comment> \<open>the switch of \<open>qinstance_change_state_on_command\<close>\<close>
  "extra_work t force q m =
     (if t = QI_DO_SUSPEND then
        if \<not> qinstance_state_is_susp_on_sub q \<and> \<not> qinstance_state_is_cal_suspended q \<or> force
        then (True, q, sge_signal_queue SGE_SIGSTOP q m) else (False, q, m)
      else if t = QI_DO_UNSUSPEND then
        if \<not> qinstance_state_is_susp_on_sub q \<and> \<not> qinstance_state_is_cal_suspended q
        then (True, q, sge_signal_queue SGE_SIGCONT q m) else (False, q, m)
      else if t = QI_DO_CLEARERROR then (True, qinstance_message_trash_all_of_type_X q QI_ERROR, m)
      else (True, q, m))"

definition qinstance_change_state_on_command ::
    "qinstance \<Rightarrow> 32 word \<Rightarrow> bool \<Rightarrow> bool \<Rightarrow> bool \<Rightarrow> bool \<Rightarrow> qmaster \<Rightarrow> (bool \<times> qinstance \<times> qmaster) option" where
  \<comment> \<open>\<open>None\<close> when no row of the table is for the transition: the code calls a null pointer. \<open>spooled\<close> is the
     result of \<^verbatim>\<open>sge_event_spool\<close>.\<close>
  "qinstance_change_state_on_command q t force is_operator is_owner spooled m =
     (if is_owner \<or> is_operator then
        case find (\<lambda>row. transition row = t) transitions of
          None \<Rightarrow> None
        | Some row \<Rightarrow>
            if has_state row q = is_state row \<or> force then
              let (did_something, q1, m1) = extra_work t force q m in
              if did_something then
                let (_, q2, m2) = set_state_fun row q1 (set_to row) m1;
                    q3 = qinstance_increase_qversion q2
                in if spooled then Some (True, q3, m2)
                   else if \<not> force then
                     (let (_, q4, m4) = set_state_fun row q3 (\<not> set_to row) m2 in Some (False, q4, m4))
                   else Some (False, q3, m2)
              else Some (True, q1, m1)
            else Some (True, q, m)
      else Some (True, q, m))"

definition qinstance_change_state_on_calender ::
    "qinstance \<Rightarrow> 32 word \<Rightarrow> (nat \<times> 32 word) list \<Rightarrow> qmaster \<Rightarrow> qinstance \<times> qmaster" where
  "qinstance_change_state_on_calender q cal_order state_change_list m =
     (let old_cal_disabled = qinstance_state_is_cal_disabled q;
          old_cal_suspended = qinstance_state_is_cal_suspended q;
          new_cal_disabled = (cal_order = QI_DO_CAL_DISABLE);
          new_cal_suspended = (cal_order = QI_DO_CAL_SUSPEND);
          q0 = q\<lparr>QU_state_changes := state_change_list\<rparr>;
          (q1, m1) = (if old_cal_disabled \<noteq> new_cal_disabled
                      then snd (sge_qmaster_qinstance_state_set_cal_disabled q0 new_cal_disabled m) else (q0, m))
      in if old_cal_suspended \<noteq> new_cal_suspended then
           let (_, q2, m2) = sge_qmaster_qinstance_state_set_cal_suspended q1 new_cal_suspended m1 in
           if qinstance_state_is_susp_on_sub q2 \<or> qinstance_state_is_manual_suspended q2 then (q2, m2)
           else (q2, sge_signal_queue (if new_cal_suspended then SGE_SIGSTOP else SGE_SIGCONT) q2 m2)
         else (q1, m1))"

definition qinstance_remove_calendar :: "qinstance \<Rightarrow> qmaster \<Rightarrow> qinstance \<times> qmaster" where
  \<comment> \<open>the branch of \<^verbatim>\<open>qinstance_modify_attribute\<close> for a calendar attribute that is taken away: the new value is null, and no calendar is found\<close>
  "qinstance_remove_calendar q m =
     (let (_, q1, m1) = sge_qmaster_qinstance_state_set_cal_disabled q False m;
          (_, q2, m2) = sge_qmaster_qinstance_state_set_cal_suspended q1 False m1
      in (q2\<lparr>QU_state_changes := [], QU_calendar := None\<rparr>, m2))"

fun change_all :: "string \<Rightarrow> 32 word \<Rightarrow> (nat \<times> 32 word) list \<Rightarrow> qinstance list \<Rightarrow> qmaster \<Rightarrow> qinstance list \<times> qmaster" where
  "change_all cal_name cal_order changes [] m = ([], m)"
| "change_all cal_name cal_order changes (q # qs) m =
     (let (q', m') = (if QU_calendar q = Some cal_name then qinstance_change_state_on_calender q cal_order changes m else (q, m));
          (qs', m'') = change_all cal_name cal_order changes qs m'
      in (q' # qs', m''))"

definition qinstance_change_state_on_calendar_all ::
    "string \<Rightarrow> 32 word \<Rightarrow> (nat \<times> 32 word) list \<Rightarrow> qinstance list \<Rightarrow> qmaster \<Rightarrow> qinstance list \<times> qmaster" where
  \<comment> \<open>the queue instances of all cluster queues in one list\<close>
  "qinstance_change_state_on_calendar_all cal_name cal_order changes queues m =
     change_all cal_name cal_order changes queues m"

definition qinstance_x_on_subordinate :: "qinstance \<Rightarrow> bool \<Rightarrow> qmaster \<Rightarrow> qinstance \<times> qmaster" where
  "qinstance_x_on_subordinate q suspend m =
     (let sos_counter = (if suspend then QU_suspended_on_subordinate q + 1 else QU_suspended_on_subordinate q - 1);
          q1 = q\<lparr>QU_suspended_on_subordinate := sos_counter\<rparr>;
          send_qinstance_signal = (\<not> (qinstance_state_is_manual_suspended q1 \<or> qinstance_state_is_cal_suspended q1));
          do_action = (if suspend then sos_counter = 1 else sos_counter = 0)
      in if do_action then
           let m1 = (if send_qinstance_signal then sge_signal_queue (if suspend then SGE_SIGSTOP else SGE_SIGCONT) q1 m else m);
               (_, q2, m2) = sge_qmaster_qinstance_state_set_susp_on_sub q1 suspend m1
           in (q2, m2)
         else (q1, m))"

end
