(* ===== verification/QueueStates_Correct.thy ===== *)
theory QueueStates_Correct
  imports QueueStates
begin

text \<open>
  The state bits of a queue instance one by one, and the two invariants that tie the state of a queue
  instance to the rest of the master: the last signal sent to it is a stop exactly when one of the three
  reasons for suspension holds, and the error counters of the reservations count the error bits of
  their queues.
\<close>

section \<open>Single bits\<close>

lemma QI_powers:
  "QI_ALARM = 2 ^ 0" "QI_SUSPEND_ALARM = 2 ^ 1" "QI_DISABLED = 2 ^ 2" "QI_SUSPENDED = 2 ^ 8" "QI_UNKNOWN = 2 ^ 10"
  "QI_ERROR = 2 ^ 14" "QI_SUSPENDED_ON_SUBORDINATE = 2 ^ 15" "QI_CAL_DISABLED = 2 ^ 17" "QI_CAL_SUSPENDED = 2 ^ 18"
  "QI_AMBIGUOUS = 2 ^ 19" "QI_ORPHANED = 2 ^ 20" "QI_FULL = 2 ^ 21"
  by (simp_all add: QI_defs)

lemma has_state_bit:
  assumes "k < 32"
  shows "qinstance_has_state q (2 ^ k) \<longleftrightarrow> bit (QU_state q) k"
proof -
  have "(2 ^ k :: 32 word) \<noteq> - 1"
  proof
    assume e: "(2 ^ k :: 32 word) = - 1"
    have "bit (- 1 :: 32 word) (if k = 0 then 1 else 0)" by simp
    then show False unfolding e[symmetric] by (simp add: bit_exp_iff split: if_splits)
  qed
  then show ?thesis by (simp add: qinstance_has_state_def and_exp_eq_0_iff_not_bit)
qed

lemma state_is_bits:
  "qinstance_state_is_alarm q \<longleftrightarrow> bit (QU_state q) 0"
  "qinstance_state_is_suspend_alarm q \<longleftrightarrow> bit (QU_state q) 1"
  "qinstance_state_is_manual_disabled q \<longleftrightarrow> bit (QU_state q) 2"
  "qinstance_state_is_manual_suspended q \<longleftrightarrow> bit (QU_state q) 8"
  "qinstance_state_is_unknown q \<longleftrightarrow> bit (QU_state q) 10"
  "qinstance_state_is_error q \<longleftrightarrow> bit (QU_state q) 14"
  "qinstance_state_is_susp_on_sub q \<longleftrightarrow> bit (QU_state q) 15"
  "qinstance_state_is_cal_disabled q \<longleftrightarrow> bit (QU_state q) 17"
  "qinstance_state_is_cal_suspended q \<longleftrightarrow> bit (QU_state q) 18"
  "qinstance_state_is_ambiguous q \<longleftrightarrow> bit (QU_state q) 19"
  "qinstance_state_is_orphaned q \<longleftrightarrow> bit (QU_state q) 20"
  "qinstance_state_is_full q \<longleftrightarrow> bit (QU_state q) 21"
  unfolding state_is_defs QI_powers by (rule has_state_bit, simp)+

definition put :: "nat \<Rightarrow> bool \<Rightarrow> qinstance \<Rightarrow> qinstance" where
  "put k b q = q\<lparr>QU_state := (if b then QU_state q OR 2 ^ k else QU_state q AND NOT (2 ^ k))\<rparr>"

lemma put_bit:
  "k < 32 \<Longrightarrow> bit (QU_state (put k b q)) n \<longleftrightarrow> (if n = k then b else bit (QU_state q) n)"
  using bit_imp_le_length[of "QU_state q" n]
  by (auto simp: put_def bit_or_iff bit_and_iff bit_not_iff bit_exp_iff)

lemma put_fields [simp]:
  "QU_full_name (put k b q) = QU_full_name q" "QU_suspended_on_subordinate (put k b q) = QU_suspended_on_subordinate q"
  "QU_message_list (put k b q) = QU_message_list q" "QU_version (put k b q) = QU_version q"
  "QU_initial_state (put k b q) = QU_initial_state q" "QU_calendar (put k b q) = QU_calendar q"
  by (simp_all add: put_def)

lemma put_same: "bit (QU_state q) k = b \<Longrightarrow> put k b q = q"
proof -
  assume b: "bit (QU_state q) k = b"
  have "QU_state (put k b q) = QU_state q"
    by (rule bit_eqI) (use b in \<open>auto simp: put_def bit_or_iff bit_and_iff bit_not_iff bit_exp_iff\<close>)
  then show "put k b q = q" by (simp add: put_def)
qed

lemma set_state_put:
  assumes "k < 32"
  shows "qinstance_set_state q b (2 ^ k) = (bit (QU_state q) k \<noteq> b, put k b q)"
proof (cases "bit (QU_state q) k = b")
  case True
  then have "QU_state (put k b q) = QU_state q" by (simp add: put_same)
  then show ?thesis using True put_same[of q k b] by (simp add: qinstance_set_state_def put_def split: if_splits)
next
  case False
  then have "QU_state (put k b q) \<noteq> QU_state q" using put_bit[OF assms, of b q k] by auto
  then show ?thesis using False by (auto simp: qinstance_set_state_def put_def Let_def)
qed

lemma state_set_bits:
  "qinstance_state_set_alarm q b = (bit (QU_state q) 0 \<noteq> b, put 0 b q)"
  "qinstance_state_set_suspend_alarm q b = (bit (QU_state q) 1 \<noteq> b, put 1 b q)"
  "qinstance_state_set_manual_disabled q b = (bit (QU_state q) 2 \<noteq> b, put 2 b q)"
  "qinstance_state_set_manual_suspended q b = (bit (QU_state q) 8 \<noteq> b, put 8 b q)"
  "qinstance_state_set_error q b = (bit (QU_state q) 14 \<noteq> b, put 14 b q)"
  "qinstance_state_set_susp_on_sub q b = (bit (QU_state q) 15 \<noteq> b, put 15 b q)"
  "qinstance_state_set_cal_disabled q b = (bit (QU_state q) 17 \<noteq> b, put 17 b q)"
  "qinstance_state_set_cal_suspended q b = (bit (QU_state q) 18 \<noteq> b, put 18 b q)"
  "qinstance_state_set_ambiguous q b = (bit (QU_state q) 19 \<noteq> b, put 19 b q)"
  "qinstance_state_set_orphaned q b = (bit (QU_state q) 20 \<noteq> b, put 20 b q)"
  "qinstance_state_set_full q b = (bit (QU_state q) 21 \<noteq> b, put 21 b q)"
  unfolding state_set_defs QI_powers by (rule set_state_put, simp)+

lemma state_set_unknown_bits:
  "qinstance_state_set_unknown sim q b =
     (bit (QU_state q) 10 \<noteq> (if sim then False else b), put 10 (if sim then False else b) q)"
  unfolding qinstance_state_set_unknown_def QI_powers by (simp only: set_state_put[of 10] if_cancel split: if_split) simp

section \<open>Error counters of reservations\<close>

definition tracked :: "nat set" where
  \<comment> \<open>disabled, suspended, unknown, error and ambiguous\<close>
  "tracked = {2, 8, 10, 14, 19}"

definition counted :: "nat set" where
  \<comment> \<open>these, and the two alarms\<close>
  "counted = insert 0 (insert 1 tracked)"

definition errs :: "qinstance \<Rightarrow> nat" where
  "errs q = card {k \<in> counted. bit (QU_state q) k}"

definition qi_errors :: "ar \<Rightarrow> nat" where
  "qi_errors a = sum_list (map errs (AR_reserved_queues a))"

definition state_ok :: "ar \<Rightarrow> bool" where
  "state_ok a \<longleftrightarrow>
     (case AR_state a of
        AR_WAITING \<Rightarrow> \<not> sge_ar_has_errors a
      | AR_RUNNING \<Rightarrow> \<not> sge_ar_has_errors a
      | AR_ERROR \<Rightarrow> sge_ar_has_errors a
      | AR_WARNING \<Rightarrow> sge_ar_has_errors a
      | _ \<Rightarrow> True)"

definition same_errors :: "qinstance \<Rightarrow> qinstance \<Rightarrow> bool" where
  "same_errors q q' \<longleftrightarrow> (\<forall>k\<in>tracked. bit (QU_state q) k = bit (QU_state q') k)"

definition ar_inv :: "qinstance list \<Rightarrow> ar \<Rightarrow> bool" where
  "ar_inv queues a \<longleftrightarrow>
     distinct (map QU_full_name (AR_reserved_queues a)) \<and> length (AR_reserved_queues a) < 2 ^ 29 \<and>
     AR_qi_errors a = of_nat (qi_errors a) \<and> state_ok a \<and>
     (\<forall>rq\<in>set (AR_reserved_queues a). \<forall>q\<in>set queues. QU_full_name rq = QU_full_name q \<longrightarrow> same_errors rq q)"

lemma finite_counted [simp]: "finite counted"
  by (simp add: counted_def tracked_def)

lemma tracked_counted: "tracked \<subseteq> counted"
  by (auto simp: counted_def)

lemma tracked_less: "k \<in> tracked \<Longrightarrow> k < 32"
  by (auto simp: tracked_def)

lemma errs_le: "errs q \<le> 7"
proof -
  have "errs q \<le> card counted" unfolding errs_def by (rule card_mono) auto
  also have "\<dots> \<le> 7" by (simp add: counted_def tracked_def)
  finally show ?thesis .
qed

lemma errs_put:
  assumes "k \<in> counted" "k < 32" "bit (QU_state q) k \<noteq> b"
  shows "errs (put k b q) = (if b then errs q + 1 else errs q - 1)" "\<not> b \<Longrightarrow> 0 < errs q"
proof -
  have p: "{n \<in> counted. bit (QU_state (put k b q)) n} =
      (if b then insert k {n \<in> counted. bit (QU_state q) n} else {n \<in> counted. bit (QU_state q) n} - {k})"
    using assms(1) put_bit[OF assms(2)] by auto
  show "errs (put k b q) = (if b then errs q + 1 else errs q - 1)"
    unfolding errs_def p using assms(1,3) by auto
  show "\<not> b \<Longrightarrow> 0 < errs q" unfolding errs_def using assms(1,3) by (auto simp: card_gt_0_iff)
qed

lemma qi_errors_bound: "length (AR_reserved_queues a) < 2 ^ 29 \<Longrightarrow> qi_errors a < 2 ^ 32"
proof -
  have "sum_list (map errs qs) \<le> 7 * length qs" for qs
    by (induction qs) (use errs_le in \<open>auto simp: add_le_mono\<close>)
  then show "length (AR_reserved_queues a) < 2 ^ 29 \<Longrightarrow> qi_errors a < 2 ^ 32"
    unfolding qi_errors_def using le_less_trans[of _ "7 * length (AR_reserved_queues a)"] by fastforce
qed

lemma of_nat_32_eq_0: "n < 2 ^ 32 \<Longrightarrow> (of_nat n :: 32 word) = 0 \<longleftrightarrow> n = 0"
  by (auto simp: word_of_nat_eq_0_iff dest: dvd_imp_le)

lemma has_errors_iff: "ar_inv queues a \<Longrightarrow> sge_ar_has_errors a \<longleftrightarrow> (\<exists>q\<in>set (AR_reserved_queues a). \<exists>k\<in>counted. bit (QU_state q) k)"
proof -
  assume a: "ar_inv queues a"
  then have "sge_ar_has_errors a \<longleftrightarrow> qi_errors a \<noteq> 0"
    using of_nat_32_eq_0[OF qi_errors_bound[of a]] by (simp add: ar_inv_def sge_ar_has_errors_def)
  also have "\<dots> \<longleftrightarrow> (\<exists>q\<in>set (AR_reserved_queues a). errs q \<noteq> 0)" by (simp add: qi_errors_def)
  also have "\<dots> \<longleftrightarrow> (\<exists>q\<in>set (AR_reserved_queues a). \<exists>k\<in>counted. bit (QU_state q) k)"
    by (auto simp: errs_def)
  finally show ?thesis .
qed

lemma set_error_put:
  assumes "k < 32"
  shows "QU_state (qinstance_set_error q (2 ^ k) msg b) = QU_state (put k b q)"
    "QU_full_name (qinstance_set_error q (2 ^ k) msg b) = QU_full_name q"
  by (simp_all add: qinstance_set_error_def Let_def set_state_put[OF assms] qinstance_message_add_def
      qinstance_message_trash_all_of_type_X_def split: option.split)

lemma errs_cong: "QU_state q = QU_state q' \<Longrightarrow> errs q = errs q'"
  by (simp add: errs_def)

lemma state_ok_running: "state_ok (sge_ar_state_set_running a)"
  by (auto simp: state_ok_def sge_ar_state_set_running_def sge_ar_has_errors_def)

lemma state_ok_waiting: "state_ok (sge_ar_state_set_waiting a)"
  by (auto simp: state_ok_def sge_ar_state_set_waiting_def sge_ar_has_errors_def)

lemma set_running_fields [simp]:
  "AR_reserved_queues (sge_ar_state_set_running a) = AR_reserved_queues a"
  "AR_qi_errors (sge_ar_state_set_running a) = AR_qi_errors a"
  "AR_reserved_queues (sge_ar_state_set_waiting a) = AR_reserved_queues a"
  "AR_qi_errors (sge_ar_state_set_waiting a) = AR_qi_errors a"
  by (simp_all add: sge_ar_state_set_running_def sge_ar_state_set_waiting_def)

lemma same_errors_put:
  assumes "k < 32" "same_errors rq q"
  shows "same_errors (put k b rq) (put k b q)"
  using assms by (simp add: same_errors_def put_bit)

lemma ar_set_error_fields:
  fixes b
  assumes "List.extract (\<lambda>q. QU_full_name q = name) (AR_reserved_queues a) = Some (qs, rq, qs')" "k < 32" "state_ok a"
  defines "a' \<equiv> ar_set_error name (2 ^ k) b a"
  shows "AR_qi_errors a' = (if b then AR_qi_errors a + 1 else AR_qi_errors a - 1)" "state_ok a'"
    "AR_reserved_queues a' = qs @ qinstance_set_error rq (2 ^ k) (Some (error_message name (2 ^ k))) b # qs'"
proof -
  let ?q = "qinstance_set_error rq (2 ^ k) (Some (error_message name (2 ^ k))) b"
  let ?n = "if b then AR_qi_errors a + 1 else AR_qi_errors a - 1"
  let ?a = "a\<lparr>AR_qi_errors := ?n, AR_reserved_queues := qs @ ?q # qs'\<rparr>"
  have e: "a' = (if AR_qi_errors a = 0 \<or> ?n = 0 then
      if AR_state a = AR_RUNNING \<or> AR_state a = AR_ERROR then sge_ar_state_set_running ?a else sge_ar_state_set_waiting ?a
      else ?a)"
    unfolding a'_def ar_set_error_def assms(1) by (simp add: Let_def)
  show "AR_qi_errors a' = ?n" "AR_reserved_queues a' = qs @ ?q # qs'" unfolding e by simp_all
  show "state_ok a'"
  proof (cases "AR_qi_errors a = 0 \<or> ?n = 0")
    case True
    then show ?thesis unfolding e by (simp add: state_ok_running state_ok_waiting)
  next
    case False
    then have "state_ok ?a" using assms(3) by (auto simp: state_ok_def sge_ar_has_errors_def split: ar_state.splits)
    then show ?thesis unfolding e if_not_P[OF False] .
  qed
qed

lemma ar_set_error_inv:
  assumes "ar_inv queues a" "i < length queues" "queues ! i = q" "distinct (map QU_full_name queues)"
    "k \<in> tracked" "bit (QU_state q) k \<noteq> b"
  shows "ar_inv (queues[i := put k b q]) (ar_set_error (QU_full_name q) (2 ^ k) b a)"
proof -
  have k: "k < 32" "k \<in> counted" using assms(5) tracked_less tracked_counted by auto
  have other: "x \<in> set queues \<and> QU_full_name x \<noteq> QU_full_name q \<or> x = put k b q" if x: "x \<in> set (queues[i := put k b q])" for x
  proof -
    obtain j where j: "j < length queues" "x = queues[i := put k b q] ! j" using x by (auto simp: in_set_conv_nth)
    then show ?thesis
      using assms(2-4) nth_eq_iff_index_eq[of "map QU_full_name queues" i j] by (cases "j = i") (auto simp: nth_list_update)
  qed
  have qin: "q \<in> set queues" using assms(2,3) by auto
  show ?thesis
  proof (cases "List.extract (\<lambda>x. QU_full_name x = QU_full_name q) (AR_reserved_queues a)")
    case None
    then have "ar_set_error (QU_full_name q) (2 ^ k) b a = a" by (simp add: ar_set_error_def)
    moreover have "\<forall>rq\<in>set (AR_reserved_queues a). QU_full_name rq \<noteq> QU_full_name q" using None by (simp add: extract_None_iff)
    ultimately show ?thesis using assms(1) other unfolding ar_inv_def by fastforce
  next
    case (Some r)
    then obtain qs rq qs' where ex: "List.extract (\<lambda>x. QU_full_name x = QU_full_name q) (AR_reserved_queues a) = Some (qs, rq, qs')"
      by (cases r) auto
    then have r: "AR_reserved_queues a = qs @ rq # qs'" "QU_full_name rq = QU_full_name q" by (auto simp: extract_Some_iff)
    let ?q = "qinstance_set_error rq (2 ^ k) (Some (error_message (QU_full_name q) (2 ^ k))) b"
    let ?a = "ar_set_error (QU_full_name q) (2 ^ k) b a"
    have ok: "state_ok a" using assms(1) by (simp add: ar_inv_def)
    note f = ar_set_error_fields[OF ex k(1) ok, of b]
    have same: "same_errors rq q" using assms(1) r qin unfolding ar_inv_def by auto
    then have bk: "bit (QU_state rq) k \<noteq> b" using assms(5,6) by (simp add: same_errors_def)
    have e: "errs ?q = (if b then errs rq + 1 else errs rq - 1)" "\<not> b \<Longrightarrow> 0 < errs rq"
      using errs_put[OF k(2,1) bk] errs_cong[OF set_error_put(1)[OF k(1)]] by simp_all
    have "qi_errors ?a = (if b then qi_errors a + 1 else qi_errors a - 1)" "\<not> b \<Longrightarrow> 0 < qi_errors a"
      using e unfolding qi_errors_def f(3) r(1) by auto
    then have "AR_qi_errors ?a = of_nat (qi_errors ?a)"
      using assms(1) unfolding ar_inv_def f(1) by (auto simp: of_nat_diff)
    moreover have "same_errors x y" if "x \<in> set (AR_reserved_queues ?a)" "y \<in> set (queues[i := put k b q])"
      "QU_full_name x = QU_full_name y" for x y
    proof -
      have d: "distinct (map QU_full_name (AR_reserved_queues a))" using assms(1) by (simp add: ar_inv_def)
      have "x = ?q \<or> x \<in> set (AR_reserved_queues a) \<and> QU_full_name x \<noteq> QU_full_name q"
        using that(1) d r unfolding f(3) by (auto simp: image_iff)
      moreover have "same_errors ?q (put k b q)"
        using same_errors_put[OF k(1) same, of b] set_error_put(1)[OF k(1)] by (simp add: same_errors_def)
      ultimately show ?thesis
        using other[OF that(2)] that(3) assms(1) set_error_put(2)[OF k(1)] r(2) unfolding ar_inv_def by fastforce
    qed
    ultimately show ?thesis
      using assms(1) f(2) set_error_put(2)[OF k(1)] unfolding ar_inv_def f(3) r(1) by simp
  qed
qed

section \<open>Changes of one queue instance\<close>

text \<open>What a change of a queue instance and of the reservations keeps, whatever the other queue instances are.\<close>

definition keeps_ars :: "qinstance \<Rightarrow> qinstance \<Rightarrow> ar list \<Rightarrow> ar list \<Rightarrow> bool" where
  "keeps_ars q q' as as' \<longleftrightarrow> QU_full_name q' = QU_full_name q \<and>
     (\<forall>queues i. i < length queues \<longrightarrow> queues ! i = q \<longrightarrow> distinct (map QU_full_name queues) \<longrightarrow>
        list_all (ar_inv queues) as \<longrightarrow> list_all (ar_inv (queues[i := q'])) as')"

lemma keeps_ars_trans:
  assumes "keeps_ars q q1 as as1" "keeps_ars q1 q2 as1 as2"
  shows "keeps_ars q q2 as as2"
  unfolding keeps_ars_def
proof (intro conjI allI impI)
  show "QU_full_name q2 = QU_full_name q" using assms by (simp add: keeps_ars_def)
  fix queues i
  assume i: "i < length queues" "queues ! i = q" "distinct (map QU_full_name queues)" "list_all (ar_inv queues) as"
  have "map QU_full_name (queues[i := q1]) = map QU_full_name queues"
    using i(1,2) assms(1) by (simp add: keeps_ars_def map_update list_update_same_conv)
  moreover have "list_all (ar_inv (queues[i := q1])) as1" using i assms(1) unfolding keeps_ars_def by blast
  ultimately have "list_all (ar_inv ((queues[i := q1])[i := q2])) as2"
    using i assms(2) unfolding keeps_ars_def by (metis length_list_update nth_list_update_eq)
  then show "list_all (ar_inv (queues[i := q2])) as2" by simp
qed

lemma keeps_ars_same:
  assumes "QU_full_name q' = QU_full_name q" "same_errors q q'"
  shows "keeps_ars q q' as as"
  unfolding keeps_ars_def
proof (intro conjI allI impI assms(1))
  fix queues i
  assume i: "i < length queues" "queues ! i = q" "distinct (map QU_full_name queues)" "list_all (ar_inv queues) as"
  have "ar_inv (queues[i := q']) a" if "ar_inv queues a" for a
    using that assms set_update_subset_insert[of queues i q'] i(1,2) nth_mem[OF i(1)]
    unfolding ar_inv_def same_errors_def by (smt (verit) insert_iff subsetD)
  then show "list_all (ar_inv (queues[i := q'])) as" using i(4) by (auto simp: list_all_iff)
qed

lemma keeps_ars_refl [simp]: "keeps_ars q q as as"
  by (rule keeps_ars_same) (simp_all add: same_errors_def)

lemma keeps_ars_put:
  assumes "k \<in> tracked" "bit (QU_state q) k \<noteq> b"
  shows "keeps_ars q (put k b q) as (sge_ar_list_set_error_state as (QU_full_name q) (2 ^ k) b)"
  using ar_set_error_inv[of _ _ _ q k b] assms
  by (simp add: keeps_ars_def sge_ar_list_set_error_state_def list_all_iff)

lemma same_errors_put_other: "k < 32 \<Longrightarrow> k \<notin> tracked \<Longrightarrow> same_errors q (put k b q)"
  by (auto simp: same_errors_def put_bit)

section \<open>Signals\<close>

definition suspended :: "qinstance \<Rightarrow> bool" where
  "suspended q \<longleftrightarrow> qinstance_state_is_manual_suspended q \<or> qinstance_state_is_cal_suspended q \<or>
     qinstance_state_is_susp_on_sub q"

definition stopped :: "string \<Rightarrow> (string \<times> signal) list \<Rightarrow> bool" where
  "stopped name sigs = (case rev (filter (\<lambda>(n, _). n = name) sigs) of [] \<Rightarrow> False | (_, sig) # _ \<Rightarrow> sig = SGE_SIGSTOP)"

lemma stopped_snoc [simp]: "stopped name (sigs @ [(n, sig)]) = (if n = name then sig = SGE_SIGSTOP else stopped name sigs)"
  by (simp add: stopped_def)

definition signal_inv :: "bool \<Rightarrow> (string \<times> signal) list \<Rightarrow> qinstance \<Rightarrow> bool" where
  \<comment> \<open>the first argument says whether the queue instance is stopped only while it is suspended\<close>
  "signal_inv kept sigs q \<longleftrightarrow> (suspended q \<longrightarrow> stopped (QU_full_name q) sigs) \<and>
     (kept \<longrightarrow> stopped (QU_full_name q) sigs \<longrightarrow> suspended q)"

definition only_to :: "string \<Rightarrow> qmaster \<Rightarrow> qmaster \<Rightarrow> bool" where
  \<comment> \<open>no other queue instance has got a signal\<close>
  "only_to name m m' \<longleftrightarrow> (\<forall>n. n \<noteq> name \<longrightarrow> stopped n (signals m') = stopped n (signals m))"

lemma only_to_refl [simp]: "only_to name m m"
  by (simp add: only_to_def)

lemma signal_queue_simps [simp]:
  "ars (sge_signal_queue sig q m) = ars m" "signals (sge_signal_queue sig q m) = signals m @ [(QU_full_name q, sig)]"
  "only_to (QU_full_name q) m (sge_signal_queue sig q m)"
  by (simp_all add: sge_signal_queue_def only_to_def)

lemmas signal_defs = signal_inv_def suspended_def state_is_bits put_bit

text \<open>The two parts of what the change of one queue instance does.\<close>

definition known :: "nat set" where
  \<comment> \<open>the bits that have a meaning\<close>
  "known = {0, 1, 2, 8, 10, 14, 15, 17, 18, 19, 20, 21}"

definition good_change :: "qinstance \<Rightarrow> qmaster \<Rightarrow> qinstance \<Rightarrow> qmaster \<Rightarrow> bool" where
  "good_change q m q' m' \<longleftrightarrow> keeps_ars q q' (ars m) (ars m') \<and> only_to (QU_full_name q) m m' \<and>
     (\<forall>k. k \<notin> known \<longrightarrow> bit (QU_state q') k = bit (QU_state q) k)"

lemma known_put: "k \<in> known \<Longrightarrow> n \<notin> known \<Longrightarrow> bit (QU_state (put k b q)) n = bit (QU_state q) n"
  by (subst put_bit) (auto simp: known_def)

lemma tracked_known: "tracked \<subseteq> known"
  by (auto simp: tracked_def known_def)

lemma good_change_refl [simp]: "good_change q m q m"
  by (simp add: good_change_def)

lemma good_change_trans:
  assumes "good_change q m q1 m1" "good_change q1 m1 q2 m2"
  shows "good_change q m q2 m2"
proof -
  have "QU_full_name q1 = QU_full_name q" using assms(1) by (simp add: good_change_def keeps_ars_def)
  moreover have "keeps_ars q q2 (ars m) (ars m2)" using assms keeps_ars_trans unfolding good_change_def by blast
  ultimately show ?thesis using assms by (simp add: good_change_def only_to_def)
qed

lemma report_error_put:
  assumes "report_error (2 ^ k) b (bit (QU_state q) k \<noteq> b, put k b q) m = (ch, q', m')" "k \<in> tracked"
  shows "q' = put k b q \<and> signals m' = signals m \<and> good_change q m q' m'"
proof -
  have q': "q' = put k b q" and "signals m' = signals m" using assms(1) by (auto simp: report_error_def split: if_splits)
  moreover have "good_change q m q' m'"
    using assms keeps_ars_put[of k q b "ars m"] put_same[of q k b]
    subsetD[OF tracked_known assms(2)]
    by (auto simp: report_error_def good_change_def only_to_def known_put split: if_splits)
  ultimately show ?thesis by blast
qed

definition sets_bit :: "nat \<Rightarrow> bool \<Rightarrow> qinstance \<Rightarrow> qmaster \<Rightarrow> qinstance \<Rightarrow> qmaster \<Rightarrow> bool" where
  "sets_bit k b q m q' m' \<longleftrightarrow> q' = put k b q \<and> signals m' = signals m \<and> good_change q m q' m'"

lemma set_tracked:
  "sge_qmaster_qinstance_state_set_manual_disabled q b m = (ch, q', m') \<Longrightarrow> sets_bit 2 b q m q' m'"
  "sge_qmaster_qinstance_state_set_manual_suspended q b m = (ch, q', m') \<Longrightarrow> sets_bit 8 b q m q' m'"
  "sge_qmaster_qinstance_state_set_error q b m = (ch, q', m') \<Longrightarrow> sets_bit 14 b q m q' m'"
  "sge_qmaster_qinstance_state_set_ambiguous q b m = (ch, q', m') \<Longrightarrow> sets_bit 19 b q m q' m'"
  "sge_qmaster_qinstance_state_set_unknown sim q b m = (ch, q', m') \<Longrightarrow> sets_bit 10 (if sim then False else b) q m q' m'"
  unfolding qmaster_set_defs state_set_bits state_set_unknown_bits QI_powers sets_bit_def
  by (erule report_error_put, simp add: tracked_def)+

lemma good_change_untracked: "k \<in> known \<Longrightarrow> k \<notin> tracked \<Longrightarrow> good_change q m (put k b q) m"
  using same_errors_put_other[of k q b] by (auto simp: good_change_def keeps_ars_same known_put known_def)

lemma set_untracked:
  "sge_qmaster_qinstance_state_set_susp_on_sub q b m = (ch, q', m') \<Longrightarrow> sets_bit 15 b q m q' m' \<and> m' = m"
  "sge_qmaster_qinstance_state_set_cal_disabled q b m = (ch, q', m') \<Longrightarrow> sets_bit 17 b q m q' m' \<and> m' = m"
  "sge_qmaster_qinstance_state_set_cal_suspended q b m = (ch, q', m') \<Longrightarrow> sets_bit 18 b q m q' m' \<and> m' = m"
  "sge_qmaster_qinstance_state_set_orphaned q b m = (ch, q', m') \<Longrightarrow> sets_bit 20 b q m q' m' \<and> m' = m"
  by (auto simp: qmaster_set_defs state_set_bits sets_bit_def tracked_def known_def intro!: good_change_untracked)

text \<open>Changes that do not touch the reasons for suspension.\<close>

definition neutral :: "qinstance \<Rightarrow> qinstance \<Rightarrow> bool" where
  "neutral q q' \<longleftrightarrow> QU_full_name q' = QU_full_name q \<and> suspended q' = suspended q \<and>
     qinstance_state_is_susp_on_sub q' = qinstance_state_is_susp_on_sub q \<and>
     QU_suspended_on_subordinate q' = QU_suspended_on_subordinate q"

lemma neutral_put: "k < 32 \<Longrightarrow> k \<notin> {8, 15, 18} \<Longrightarrow> neutral q (put k b q)"
  by (simp add: neutral_def suspended_def state_is_bits put_bit)

lemma neutral_trans: "neutral q q1 \<Longrightarrow> neutral q1 q2 \<Longrightarrow> neutral q q2"
  by (simp add: neutral_def)

lemma neutral_signal: "neutral q q' \<Longrightarrow> signal_inv kept sigs q \<Longrightarrow> signal_inv kept sigs q'"
  by (simp add: neutral_def signal_inv_def)

definition same_fields :: "qinstance \<Rightarrow> qinstance \<Rightarrow> bool" where
  "same_fields q q' \<longleftrightarrow> QU_full_name q' = QU_full_name q \<and> QU_state q' = QU_state q \<and>
     QU_suspended_on_subordinate q' = QU_suspended_on_subordinate q"

lemma same_fields_neutral: "same_fields q q' \<Longrightarrow> neutral q q'"
  by (simp add: same_fields_def neutral_def suspended_def state_is_bits)

lemma same_fields_good: "same_fields q q' \<Longrightarrow> ars m' = ars m \<Longrightarrow> only_to (QU_full_name q) m m' \<Longrightarrow> good_change q m q' m'"
  by (simp add: same_fields_def good_change_def keeps_ars_same same_errors_def)

lemma same_fields_intros [simp]:
  "same_fields q (qinstance_message_trash_all_of_type_X q typ)" "same_fields q (qinstance_increase_qversion q)"
  "same_fields q q" "same_fields q (q\<lparr>QU_state_changes := changes\<rparr>)"
  by (simp_all add: same_fields_def qinstance_message_trash_all_of_type_X_def qinstance_increase_qversion_def)

lemma extra_work_good:
  assumes "extra_work t force q m = (did, q1, m1)"
  shows "same_fields q q1" "ars m1 = ars m" "only_to (QU_full_name q) m m1"
    "t \<noteq> QI_DO_SUSPEND \<Longrightarrow> t \<noteq> QI_DO_UNSUSPEND \<Longrightarrow> signals m1 = signals m"
    "\<not> did \<Longrightarrow> m1 = m"
    "did \<Longrightarrow> t = QI_DO_SUSPEND \<Longrightarrow> signals m1 = signals m @ [(QU_full_name q, SGE_SIGSTOP)]"
    "did \<Longrightarrow> t = QI_DO_UNSUSPEND \<Longrightarrow> signals m1 = signals m @ [(QU_full_name q, SGE_SIGCONT)] \<and>
       \<not> qinstance_state_is_susp_on_sub q \<and> \<not> qinstance_state_is_cal_suspended q"
  using assms by (auto simp: extra_work_def QI_DO_defs split: if_splits)

text \<open>The row of a transition.\<close>

definition row_bit :: "32 word \<Rightarrow> nat" where
  "row_bit t = (if t = QI_DO_CLEARERROR then 14 else if t = QI_DO_ENABLE \<or> t = QI_DO_DISABLE then 2 else 8)"

lemma row_cases:
  assumes "find (\<lambda>row. transition row = t) transitions = Some row"
  shows "t \<in> {QI_DO_CLEARERROR, QI_DO_ENABLE, QI_DO_DISABLE, QI_DO_SUSPEND, QI_DO_UNSUSPEND}"
    "set_to row = (t = QI_DO_DISABLE \<or> t = QI_DO_SUSPEND)"
    "set_state_fun row q b m = (ch, q', m') \<Longrightarrow> sets_bit (row_bit t) b q m q' m'"
proof -
  show "t \<in> {QI_DO_CLEARERROR, QI_DO_ENABLE, QI_DO_DISABLE, QI_DO_SUSPEND, QI_DO_UNSUSPEND}"
    "set_to row = (t = QI_DO_DISABLE \<or> t = QI_DO_SUSPEND)"
    using assms by (auto simp: transitions_def QI_DO_defs split: if_splits)
  have "set_state_fun row = (if t = QI_DO_CLEARERROR then sge_qmaster_qinstance_state_set_error
      else if t = QI_DO_ENABLE \<or> t = QI_DO_DISABLE then sge_qmaster_qinstance_state_set_manual_disabled
      else sge_qmaster_qinstance_state_set_manual_suspended)"
    using assms by (auto simp: transitions_def QI_DO_defs split: if_splits)
  then show "set_state_fun row q b m = (ch, q', m') \<Longrightarrow> sets_bit (row_bit t) b q m q' m'"
    by (auto simp: row_bit_def dest: set_tracked split: if_splits)
qed

lemma command_cases:
  assumes "qinstance_change_state_on_command q t force op own spooled m = Some (ret, q', m')"
  obtains (none) "q' = q" "m' = m"
  | (skipped) row where "extra_work t force q m = (False, q', m')" "find (\<lambda>row. transition row = t) transitions = Some row"
  | (made) row q1 m1 ch q2 m2 where "extra_work t force q m = (True, q1, m1)"
      "find (\<lambda>row. transition row = t) transitions = Some row" "set_state_fun row q1 (set_to row) m1 = (ch, q2, m2)"
      "q' = qinstance_increase_qversion q2" "m' = m2" "spooled \<or> force"
  | (taken_back) row q1 m1 ch q2 m2 ch' where "extra_work t force q m = (True, q1, m1)"
      "find (\<lambda>row. transition row = t) transitions = Some row" "set_state_fun row q1 (set_to row) m1 = (ch, q2, m2)"
      "set_state_fun row (qinstance_increase_qversion q2) (\<not> set_to row) m2 = (ch', q', m')" "\<not> spooled"
  using assms unfolding qinstance_change_state_on_command_def
  by (auto simp: Let_def split: if_splits option.splits prod.splits)

lemma command_good:
  assumes "qinstance_change_state_on_command q t force op own spooled m = Some (ret, q', m')"
  shows "good_change q m q' m'"
  using assms
proof (cases rule: command_cases)
  case (skipped row)
  then show ?thesis using extra_work_good(1-3)[OF skipped(1)] same_fields_good by blast
next
  case (made row q1 m1 ch q2 m2)
  have "good_change q m q1 m1" using extra_work_good(1-3)[OF made(1)] same_fields_good by blast
  moreover have "good_change q1 m1 q2 m2" using row_cases(3)[OF made(2,3)] unfolding sets_bit_def by blast
  moreover have "good_change q2 m2 q' m'" using made(4,5) by (simp add: same_fields_good)
  ultimately show ?thesis using good_change_trans by blast
next
  case (taken_back row q1 m1 ch q2 m2 ch')
  have "good_change q m q1 m1" using extra_work_good(1-3)[OF taken_back(1)] same_fields_good by blast
  moreover have "good_change q1 m1 q2 m2" using row_cases(3)[OF taken_back(2,3)] unfolding sets_bit_def by blast
  moreover have "good_change q2 m2 (qinstance_increase_qversion q2) m2" by (simp add: same_fields_good)
  moreover have "good_change (qinstance_increase_qversion q2) m2 q' m'" using row_cases(3)[OF taken_back(2,4)] unfolding sets_bit_def by blast
  ultimately show ?thesis using good_change_trans by blast
qed simp

lemma command_signals:
  assumes "qinstance_change_state_on_command q t force op own spooled m = Some (ret, q', m')" "spooled"
    "signal_inv kept (signals m) q"
  shows "signal_inv kept (signals m') q'"
  using assms(1)
proof (cases rule: command_cases)
  case none
  then show ?thesis using assms(3) by simp
next
  case (skipped row)
  then show ?thesis
    using extra_work_good(1,5)[OF skipped(1)] assms(3) neutral_signal same_fields_neutral by blast
next
  case (made row q1 m1 ch q2 m2)
  note w = extra_work_good[OF made(1)]
  have st: "same_fields q q1" "QU_full_name q1 = QU_full_name q" "QU_state q1 = QU_state q"
    "QU_suspended_on_subordinate q1 = QU_suspended_on_subordinate q"
    using w(1) by (simp_all add: same_fields_def)
  have p: "q2 = put (row_bit t) (set_to row) q1" "signals m2 = signals m1"
    using row_cases(3)[OF made(2,3)] by (simp_all add: sets_bit_def)
  have "signal_inv kept (signals m2) q2"
  proof (cases "t = QI_DO_SUSPEND \<or> t = QI_DO_UNSUSPEND")
    case True
    then have "row_bit t = 8" "set_to row = (t = QI_DO_SUSPEND)" using row_cases(2)[OF made(2)] by (auto simp: row_bit_def QI_DO_defs)
    then show ?thesis
      using True w(6,7) assms(3) p st by (auto simp: signal_defs QI_DO_defs)
  next
    case False
    then have "row_bit t \<in> {14, 2}" using row_cases(1)[OF made(2)] by (auto simp: row_bit_def)
    then have "neutral q1 q2" unfolding p(1) by (intro neutral_put) auto
    then show ?thesis
      using False w(4) assms(3) p(2) neutral_signal same_fields_neutral[OF st(1)] by auto
  qed
  then show ?thesis using made(4,5) neutral_signal same_fields_neutral same_fields_intros(2) by blast
next
  case taken_back
  then show ?thesis using assms(2) by simp
qed

lemma calendar_good:
  assumes "qinstance_change_state_on_calender q order changes m = (q', m')"
  shows "good_change q m q' m'" "signal_inv kept (signals m) q \<Longrightarrow> signal_inv kept (signals m') q'"
proof -
  define q0 where "q0 = q\<lparr>QU_state_changes := changes\<rparr>"
  define q1 where "q1 = put 17 (order = QI_DO_CAL_DISABLE) q0"
  have q0: "same_fields q q0" "QU_state q0 = QU_state q" by (simp_all add: q0_def)
  have q1: "(if qinstance_state_is_cal_disabled q \<noteq> (order = QI_DO_CAL_DISABLE)
      then snd (sge_qmaster_qinstance_state_set_cal_disabled q0 (order = QI_DO_CAL_DISABLE) m) else (q0, m)) = (q1, m)"
    using put_same[of q0 17 "order = QI_DO_CAL_DISABLE"] q0(2)
    by (auto simp: q1_def state_is_bits qmaster_set_defs state_set_bits)
  have g1: "good_change q m q1 m"
    using same_fields_good[OF q0(1), of m m] good_change_untracked[of 17 q0 m] unfolding q1_def
    by (auto simp: tracked_def known_def intro: good_change_trans)
  have n1: "neutral q q1" using same_fields_neutral[OF q0(1)] neutral_put[of 17 q0] neutral_trans unfolding q1_def by force
  have c1: "bit (QU_state q1) 18 = bit (QU_state q) 18" by (simp add: q1_def put_bit q0(2))
  note run = assms[unfolded qinstance_change_state_on_calender_def Let_def q0_def[symmetric] q1 prod.case]
  have "good_change q m q' m' \<and> (signal_inv kept (signals m) q \<longrightarrow> signal_inv kept (signals m') q')"
  proof (cases "qinstance_state_is_cal_suspended q = (order = QI_DO_CAL_SUSPEND)")
    case True
    then show ?thesis using run g1 n1 neutral_signal by auto
  next
    case False
    let ?b = "order = QI_DO_CAL_SUSPEND"
    define q2 where "q2 = put 18 ?b q1"
    have g2: "good_change q m q2 m"
      using g1 good_change_untracked[of 18 q1 m] unfolding q2_def by (auto simp: tracked_def known_def intro: good_change_trans)
    have nm: "QU_full_name q2 = QU_full_name q" using n1 by (simp add: neutral_def q2_def)
    have "sge_qmaster_qinstance_state_set_cal_suspended q1 ?b m = (bit (QU_state q1) 18 \<noteq> ?b, q2, m)"
      by (simp only: qmaster_set_defs state_set_bits q2_def Let_def prod.case)
    then have r: "(if qinstance_state_is_susp_on_sub q2 \<or> qinstance_state_is_manual_suspended q2 then (q2, m)
        else (q2, sge_signal_queue (if ?b then SGE_SIGSTOP else SGE_SIGCONT) q2 m)) = (q', m')"
      using run False by (simp only: if_True not_False_eq_True prod.case)
    have gs: "good_change q m q2 (sge_signal_queue sig q2 m)" for sig
      using g2 nm by (simp add: good_change_def only_to_def sge_signal_queue_def)
    have e: "bit (QU_state q) 18 = (\<not> ?b)" using False by (simp add: state_is_bits)
    then have "signal_inv kept (signals m) q \<Longrightarrow> signal_inv kept (signals m') q'"
      using r n1 nm c1 by (cases ?b) (auto simp: neutral_def signal_defs q2_def split: if_splits)
    then show ?thesis using r g2 gs by (auto split: if_splits)
  qed
  then show "good_change q m q' m'" "signal_inv kept (signals m) q \<Longrightarrow> signal_inv kept (signals m') q'" by blast+
qed

lemma subordinate_good:
  assumes "qinstance_x_on_subordinate q suspend m = (q', m')"
  shows "good_change q m q' m'" "signal_inv kept (signals m) q \<Longrightarrow> signal_inv kept (signals m') q'"
proof -
  define c where "c = (if suspend then QU_suspended_on_subordinate q + 1 else QU_suspended_on_subordinate q - 1)"
  define q1 where "q1 = q\<lparr>QU_suspended_on_subordinate := c\<rparr>"
  have q1: "QU_state q1 = QU_state q" "QU_full_name q1 = QU_full_name q" "QU_suspended_on_subordinate q1 = c" by (simp_all add: q1_def)
  have g1: "good_change q m q1 m" by (simp add: good_change_def keeps_ars_same same_errors_def q1)
  note run = assms[unfolded qinstance_x_on_subordinate_def c_def[symmetric] Let_def q1_def[symmetric]]
  have "good_change q m q' m' \<and> (signal_inv kept (signals m) q \<longrightarrow> signal_inv kept (signals m') q')"
  proof (cases "if suspend then c = 1 else c = 0")
    case True
    define m1 where "m1 = (if \<not> (qinstance_state_is_manual_suspended q1 \<or> qinstance_state_is_cal_suspended q1)
      then sge_signal_queue (if suspend then SGE_SIGSTOP else SGE_SIGCONT) q1 m else m)"
    have r: "q' = put 15 suspend q1" "m' = m1" using run True by (auto simp: qmaster_set_defs state_set_bits m1_def split: if_splits)
    have "good_change q1 m (put 15 suspend q1) m" by (rule good_change_untracked) (simp_all add: tracked_def known_def)
    then have g: "good_change q m q' m" using g1 r good_change_trans by blast
    then have "good_change q m q' m'" using r(2) q1(2) by (simp add: good_change_def only_to_def m1_def)
    moreover have "signal_inv kept (signals m') q'" if "signal_inv kept (signals m) q"
      using that r q1 True by (auto simp: signal_defs m1_def split: if_splits)
    ultimately show ?thesis by blast
  next
    case False
    then have r: "q' = q1" "m' = m" using run by (auto split: if_splits)
    then show ?thesis using r g1 q1 by (auto simp: signal_defs)
  qed
  then show "good_change q m q' m'" "signal_inv kept (signals m) q \<Longrightarrow> signal_inv kept (signals m') q'" by blast+
qed

text \<open>The counter of subordination is positive exactly when the state is set, as long as it neither falls
  below 0 nor overflows; the code does not check this.\<close>

lemma subordinate_counter:
  assumes "qinstance_x_on_subordinate q suspend m = (q', m')"
    "qinstance_state_is_susp_on_sub q \<longleftrightarrow> QU_suspended_on_subordinate q \<noteq> 0"
    "if suspend then QU_suspended_on_subordinate q \<noteq> - 1 else QU_suspended_on_subordinate q \<noteq> 0"
  shows "qinstance_state_is_susp_on_sub q' \<longleftrightarrow> QU_suspended_on_subordinate q' \<noteq> 0"
proof -
  have "QU_suspended_on_subordinate q + 1 \<noteq> 0" if suspend using that assms(3) by (simp add: add_eq_0_iff2)
  then show ?thesis
    using assms by (auto simp: qinstance_x_on_subordinate_def qmaster_set_defs state_set_bits state_is_bits put_bit
        Let_def split: if_splits)
qed

text \<open>Taking the calendar away sends no signal: a queue instance that its calendar had suspended stays stopped.\<close>

lemma remove_calendar_good:
  assumes "qinstance_remove_calendar q m = (q', m')"
  shows "good_change q m q' m'"
    "kept \<Longrightarrow> \<not> qinstance_state_is_cal_suspended q \<Longrightarrow> signal_inv kept (signals m) q \<Longrightarrow> signal_inv kept (signals m') q'"
    "\<not> kept \<Longrightarrow> signal_inv kept (signals m) q \<Longrightarrow> signal_inv kept (signals m') q'"
proof -
  define q1 where "q1 = put 17 False q"
  define q2 where "q2 = put 18 False q1"
  have r: "q' = q2\<lparr>QU_state_changes := [], QU_calendar := None\<rparr>" "m' = m"
    using assms by (auto simp: qinstance_remove_calendar_def qmaster_set_defs state_set_bits q1_def q2_def)
  have "same_fields q2 q'" by (simp add: r same_fields_def)
  then have "good_change q2 m q' m'" using r(2) same_fields_good by simp
  moreover have "good_change q m q1 m" "good_change q1 m q2 m"
    unfolding q1_def q2_def by (rule good_change_untracked; simp add: tracked_def known_def)+
  ultimately show "good_change q m q' m'" using good_change_trans by blast
  have "QU_state q' = QU_state q2" "QU_full_name q' = QU_full_name q" by (simp_all add: r q1_def q2_def)
  then show "kept \<Longrightarrow> \<not> qinstance_state_is_cal_suspended q \<Longrightarrow> signal_inv kept (signals m) q \<Longrightarrow> signal_inv kept (signals m') q'"
    "\<not> kept \<Longrightarrow> signal_inv kept (signals m) q \<Longrightarrow> signal_inv kept (signals m') q'"
    by (auto simp: signal_defs q1_def q2_def r(2))
qed

section \<open>New reservations\<close>

lemma copy_error_inv:
  assumes "copy_error mq (2 ^ k) (e, q) = (e', q')" "k < 32"
  shows "QU_full_name q' = QU_full_name q" "bit (QU_state q') n = (bit (QU_state q) n \<or> n = k \<and> bit (QU_state mq) k)"
    "\<not> bit (QU_state q) k \<Longrightarrow> e' = e + (if bit (QU_state mq) k then 1 else 0)"
  using assms set_error_put[OF assms(2)] put_bit[OF assms(2)]
  by (auto simp: copy_error_def has_state_bit split: if_splits)

lemma copy_errors:
  assumes "fold (copy_error mq) (map (\<lambda>k. 2 ^ k) ks) (e, q) = (e', q')" "distinct ks" "\<forall>k\<in>set ks. k < 32 \<and> \<not> bit (QU_state q) k"
  shows "QU_full_name q' = QU_full_name q \<and>
    (\<forall>n. bit (QU_state q') n = (bit (QU_state q) n \<or> n \<in> set ks \<and> bit (QU_state mq) n)) \<and>
    e' = e + of_nat (card {k \<in> set ks. bit (QU_state mq) k})"
  using assms
proof (induction ks arbitrary: e q)
  case (Cons k ks)
  obtain e1 q1 where c: "copy_error mq (2 ^ k) (e, q) = (e1, q1)" by fastforce
  note c' = copy_error_inv[OF c]
  have k: "k < 32" "\<not> bit (QU_state q) k" "k \<notin> set ks" using Cons.prems by auto
  have "\<forall>n\<in>set ks. n < 32 \<and> \<not> bit (QU_state q1) n" using Cons.prems(3) c'(2)[OF k(1)] k(3) by auto
  then have "QU_full_name q' = QU_full_name q1 \<and>
      (\<forall>n. bit (QU_state q') n = (bit (QU_state q1) n \<or> n \<in> set ks \<and> bit (QU_state mq) n)) \<and>
      e' = e1 + of_nat (card {k \<in> set ks. bit (QU_state mq) k})"
    using Cons.IH[of e1 q1] Cons.prems(1,2) c by simp
  moreover have "{n \<in> set (k # ks). bit (QU_state mq) n} =
      (if bit (QU_state mq) k then insert k {n \<in> set ks. bit (QU_state mq) n} else {n \<in> set ks. bit (QU_state mq) n})" by auto
  ultimately show ?case using c'(1)[OF k(1)] c'(2)[OF k(1)] c'(3)[OF k(1,2)] k(3) by (auto simp: ac_simps)
qed simp

lemma initialize_queue_state:
  assumes "ar_initialize_queue_state mq e = (e', q')" "\<not> qinstance_state_is_manual_suspended mq"
  shows "QU_full_name q' = QU_full_name mq" "same_errors q' mq" "e' = e + of_nat (errs q')"
proof -
  let ?ks = "[19, 0, 1, 2, 10, 14] :: nat list"
  have u: "ar_initialize_queue_state mq e = fold (copy_error mq) (map (\<lambda>k. 2 ^ k) ?ks)
      (e, \<lparr>QU_full_name = QU_full_name mq, QU_state = 0, QU_message_list = [],
          QU_suspended_on_subordinate = 0, QU_version = 0, QU_initial_state = None, QU_calendar = None,
          QU_state_changes = []\<rparr>)" (is "_ = fold _ _ (e, ?q)")
    unfolding ar_initialize_queue_state_def QI_powers by simp
  have c: "QU_full_name q' = QU_full_name ?q \<and>
      (\<forall>n. bit (QU_state q') n = (bit (QU_state ?q) n \<or> n \<in> set ?ks \<and> bit (QU_state mq) n)) \<and>
      e' = e + of_nat (card {k \<in> set ?ks. bit (QU_state mq) k})"
    by (rule copy_errors[of mq ?ks e ?q]) (use assms(1) u in auto)
  then show "QU_full_name q' = QU_full_name mq" by simp
  have b: "bit (QU_state q') n = (n \<in> set ?ks \<and> bit (QU_state mq) n)" for n using c by auto
  show "same_errors q' mq" using assms(2) b by (auto simp: same_errors_def tracked_def state_is_bits)
  have "{k \<in> counted. bit (QU_state q') k} = {k \<in> set ?ks. bit (QU_state mq) k}"
    unfolding b counted_def tracked_def by auto
  then show "e' = e + of_nat (errs q')" using c by (simp only: errs_def)
qed

lemma initialize_queues:
  assumes "ar_initialize_queues granted e before = (e', qs)" "\<forall>mq\<in>set granted. \<not> qinstance_state_is_manual_suspended mq"
  shows "\<exists>qs'. qs = before @ qs' \<and> list_all2 (\<lambda>q mq. QU_full_name q = QU_full_name mq \<and> same_errors q mq) qs' granted \<and>
    e' = e + of_nat (sum_list (map errs qs'))"
  using assms
proof (induction granted e before rule: ar_initialize_queues.induct)
  case (2 mq mqs e before)
  obtain e1 q where i: "ar_initialize_queue_state mq e = (e1, q)" by fastforce
  note i' = initialize_queue_state[OF i]
  obtain qs' where "qs = (before @ [q]) @ qs'" "list_all2 (\<lambda>q mq. QU_full_name q = QU_full_name mq \<and> same_errors q mq) qs' mqs"
    "e' = e1 + of_nat (sum_list (map errs qs'))"
    using "2.IH"[OF i[symmetric] refl] "2.prems" i by auto
  then show ?case using i' "2.prems"(2) by (intro exI[of _ "q # qs'"]) (simp add: ac_simps)
qed simp

lemma initialize_booking_inv:
  assumes "distinct (map QU_full_name queues)" "set granted \<subseteq> set queues" "distinct (map QU_full_name granted)"
    "length granted < 2 ^ 29" "\<forall>mq\<in>set granted. \<not> qinstance_state_is_manual_suspended mq" "AR_qi_errors a = 0"
  shows "ar_inv queues (sge_ar_state_set_waiting (ar_initialize_errors granted a))"
proof -
  obtain e qs where i: "ar_initialize_queues granted 0 [] = (e, qs)" by fastforce
  have q: "list_all2 (\<lambda>q mq. QU_full_name q = QU_full_name mq \<and> same_errors q mq) qs granted" "e = of_nat (sum_list (map errs qs))"
    using initialize_queues[OF i assms(5)] by auto
  have n: "map QU_full_name qs = map QU_full_name granted" "length qs = length granted"
    using q(1) by (auto simp: list_all2_conv_all_nth intro: nth_equalityI)
  have "same_errors rq x" if rq: "rq \<in> set qs" and x: "x \<in> set queues" "QU_full_name rq = QU_full_name x" for rq x
  proof -
    obtain j where j: "j < length qs" "rq = qs ! j" using rq by (auto simp: in_set_conv_nth)
    define mq where "mq = granted ! j"
    have mq: "mq \<in> set granted" "QU_full_name rq = QU_full_name mq" "same_errors rq mq"
      using j n(2) list_all2_nthD[OF q(1) j(1)] unfolding mq_def by auto
    have "inj_on QU_full_name (set queues)" using assms(1) by (simp add: distinct_map)
    then have "mq = x" using x mq(1,2) assms(2) by (auto dest: inj_onD)
    then show ?thesis using mq(3) by simp
  qed
  moreover have "ar_initialize_errors granted a = a\<lparr>AR_qi_errors := e, AR_reserved_queues := qs\<rparr>"
    by (simp add: ar_initialize_errors_def assms(6) i)
  ultimately show ?thesis
    using q(2) n assms(3,4) by (auto simp: ar_inv_def state_ok_waiting qi_errors_def)
qed

end
