(* ===== verification/QueueStates_Props.thy ===== *)
theory QueueStates_Props
  imports QueueStates_Correct
begin

text \<open>
  The states of queue instances and reservations in all reachable states of the master, and the letters
  that stand for states.
\<close>

section \<open>Steps of the master\<close>

text \<open>A step changes one queue instance, or adds, starts or ends a reservation. The first argument says what
  is assumed of the steps: that every change is spooled, that no calendar is taken away from a queue
  instance which it has suspended.\<close>

datatype assumption = Spooled | Calendars_kept

type_synonym world = "qinstance list \<times> qmaster"

inductive queue_step :: "assumption set \<Rightarrow> world \<Rightarrow> world \<Rightarrow> bool" for assumed where
  command: "i < length queues \<Longrightarrow>
    qinstance_change_state_on_command (queues ! i) t force op own spooled m = Some (ret, q', m') \<Longrightarrow>
    (Spooled \<in> assumed \<longrightarrow> spooled) \<Longrightarrow> queue_step assumed (queues, m) (queues[i := q'], m')"
| calendar: "i < length queues \<Longrightarrow> qinstance_change_state_on_calender (queues ! i) order changes m = (q', m') \<Longrightarrow>
    queue_step assumed (queues, m) (queues[i := q'], m')"
| no_calendar: "i < length queues \<Longrightarrow> qinstance_remove_calendar (queues ! i) m = (q', m') \<Longrightarrow>
    (Calendars_kept \<in> assumed \<longrightarrow> \<not> qinstance_state_is_cal_suspended (queues ! i)) \<Longrightarrow>
    queue_step assumed (queues, m) (queues[i := q'], m')"
| subordinate: "i < length queues \<Longrightarrow> qinstance_x_on_subordinate (queues ! i) suspend m = (q', m') \<Longrightarrow>
    queue_step assumed (queues, m) (queues[i := q'], m')"
| unknown: "i < length queues \<Longrightarrow> sge_qmaster_qinstance_state_set_unknown sim (queues ! i) b m = (ch, q', m') \<Longrightarrow>
    queue_step assumed (queues, m) (queues[i := q'], m')"
| error: "i < length queues \<Longrightarrow> sge_qmaster_qinstance_state_set_error (queues ! i) b m = (ch, q', m') \<Longrightarrow>
    queue_step assumed (queues, m) (queues[i := q'], m')"
| ambiguous: "i < length queues \<Longrightarrow> sge_qmaster_qinstance_state_set_ambiguous (queues ! i) b m = (ch, q', m') \<Longrightarrow>
    queue_step assumed (queues, m) (queues[i := q'], m')"
| orphaned: "i < length queues \<Longrightarrow> sge_qmaster_qinstance_state_set_orphaned (queues ! i) b m = (ch, q', m') \<Longrightarrow>
    queue_step assumed (queues, m) (queues[i := q'], m')"
| initial: "i < length queues \<Longrightarrow> sge_qmaster_qinstance_set_initial_state (queues ! i) m = (ch, q', m') \<Longrightarrow>
    queue_step assumed (queues, m) (queues[i := q'], m')"
| reserve: "set granted \<subseteq> set queues \<Longrightarrow> distinct (map QU_full_name granted) \<Longrightarrow> length granted < 2 ^ 29 \<Longrightarrow>
    list_all (\<lambda>q. \<not> qinstance_state_is_manual_suspended q) granted \<Longrightarrow> AR_qi_errors a = 0 \<Longrightarrow>
    queue_step assumed (queues, m)
      (queues, m\<lparr>ars := ars m @ [sge_ar_state_set_waiting (ar_initialize_errors granted a)]\<rparr>)"
| start: "j < length (ars m) \<Longrightarrow>
    queue_step assumed (queues, m) (queues, m\<lparr>ars := (ars m)[j := sge_ar_state_set_running (ars m ! j)]\<rparr>)"
| expire: "queue_step assumed (queues, m) (queues, m\<lparr>ars := take j (ars m) @ drop (Suc j) (ars m)\<rparr>)"

inductive_cases queue_stepE: "queue_step assumed w w'"

definition known_bits :: "qinstance \<Rightarrow> bool" where
  "known_bits q \<longleftrightarrow> (\<forall>k. bit (QU_state q) k \<longrightarrow> k \<in> known)"

definition world_inv :: "assumption set \<Rightarrow> world \<Rightarrow> bool" where
  "world_inv assumed = (\<lambda>(queues, m). distinct (map QU_full_name queues) \<and> list_all (ar_inv queues) (ars m) \<and>
     list_all known_bits queues \<and>
     (Spooled \<in> assumed \<longrightarrow> list_all (signal_inv (Calendars_kept \<in> assumed) (signals m)) queues))"

lemma change_keeps_inv:
  assumes "world_inv sp (queues, m)" "i < length queues" "good_change (queues ! i) m q' m'"
    "Spooled \<in> sp \<Longrightarrow> signal_inv (Calendars_kept \<in> sp) (signals m) (queues ! i) \<Longrightarrow> signal_inv (Calendars_kept \<in> sp) (signals m') q'"
  shows "world_inv sp (queues[i := q'], m')"
proof -
  have n: "QU_full_name q' = QU_full_name (queues ! i)" using assms(3) by (simp add: good_change_def keeps_ars_def)
  then have d: "map QU_full_name (queues[i := q']) = map QU_full_name queues"
    using assms(2) by (simp add: map_update list_update_same_conv)
  moreover have "list_all (ar_inv (queues[i := q'])) (ars m')"
    using assms(1-3) unfolding world_inv_def good_change_def keeps_ars_def by auto
  moreover have "signal_inv (Calendars_kept \<in> sp) (signals m') (queues[i := q'] ! j)" if "Spooled \<in> sp" "j < length queues" for j
  proof (cases "j = i")
    case True
    then show ?thesis using assms that by (auto simp: world_inv_def list_all_length)
  next
    case False
    then have "QU_full_name (queues ! j) \<noteq> QU_full_name (queues ! i)"
      using assms(1,2) that(2) nth_eq_iff_index_eq[of "map QU_full_name queues" i j] by (auto simp: world_inv_def)
    then have "stopped (QU_full_name (queues ! j)) (signals m') = stopped (QU_full_name (queues ! j)) (signals m)"
      using assms(3) by (simp add: good_change_def only_to_def)
    moreover have "signal_inv (Calendars_kept \<in> sp) (signals m) (queues ! j)" using assms(1) that by (simp add: world_inv_def list_all_length)
    ultimately show ?thesis using False by (simp add: signal_inv_def)
  qed
  moreover have "known_bits q'"
    using assms(1-3) by (auto simp: world_inv_def list_all_length known_bits_def good_change_def)
  then have "list_all known_bits (queues[i := q'])"
    using assms(1) set_update_subset_insert[of queues i q'] by (auto simp: world_inv_def list_all_iff)
  ultimately show ?thesis using assms(1) by (auto simp: world_inv_def list_all_length)
qed

lemma sets_bit_keeps:
  assumes "sets_bit k b q m q' m'" "k < 32" "k \<notin> {8, 15, 18}"
  shows "good_change q m q' m'" "signal_inv kept (signals m) q \<Longrightarrow> signal_inv kept (signals m') q'"
proof -
  show "good_change q m q' m'" using assms(1) unfolding sets_bit_def by blast
  have "neutral q q'" "signals m' = signals m" using assms neutral_put[OF assms(2,3)] by (simp_all add: sets_bit_def)
  then show "signal_inv kept (signals m) q \<Longrightarrow> signal_inv kept (signals m') q'" using neutral_signal by simp
qed

lemma initial_state_keeps:
  assumes "sge_qmaster_qinstance_set_initial_state q m = (ch, q', m')"
  shows "good_change q m q' m'" "signal_inv kept (signals m) q \<Longrightarrow> signal_inv kept (signals m') q'"
proof -
  have "q' = q \<and> m' = m \<or> (\<exists>b. sets_bit 2 b q m q' m')"
    using assms unfolding sge_qmaster_qinstance_set_initial_state_def
    by (auto simp: Let_def split: option.splits if_splits prod.splits dest: set_tracked(1))
  then show "good_change q m q' m'" "signal_inv kept (signals m) q \<Longrightarrow> signal_inv kept (signals m') q'"
    using sets_bit_keeps[of 2] by auto
qed

lemma queue_step_inv:
  assumes "queue_step sp w w'" "world_inv sp w"
  shows "world_inv sp w'"
  using assms
proof (induction rule: queue_step.induct)
  case (command i queues t force op own spooled m ret q' m')
  show ?case
    by (rule change_keeps_inv[OF command(4,1) command_good[OF command(2)]]) (use command(3) command_signals[OF command(2)] in blast)
next
  case (calendar i queues order changes m q' m')
  show ?case by (rule change_keeps_inv[OF calendar(3,1) calendar_good(1)[OF calendar(2)]]) (rule calendar_good(2)[OF calendar(2)])
next
  case (subordinate i queues suspend m q' m')
  show ?case
    by (rule change_keeps_inv[OF subordinate(3,1) subordinate_good(1)[OF subordinate(2)]]) (rule subordinate_good(2)[OF subordinate(2)])
next
  case (no_calendar i queues m q' m')
  show ?case
    by (rule change_keeps_inv[OF no_calendar(4,1) remove_calendar_good(1)[OF no_calendar(2)]])
      (use no_calendar(3) remove_calendar_good(2,3)[OF no_calendar(2)] in blast)
next
  case (unknown i queues sim b m ch q' m')
  then show ?case using change_keeps_inv sets_bit_keeps[OF set_tracked(5)[OF unknown(2)]] by simp
next
  case (error i queues b m ch q' m')
  then show ?case using change_keeps_inv sets_bit_keeps[OF set_tracked(3)[OF error(2)]] by simp
next
  case (ambiguous i queues b m ch q' m')
  then show ?case using change_keeps_inv sets_bit_keeps[OF set_tracked(4)[OF ambiguous(2)]] by simp
next
  case (orphaned i queues b m ch q' m')
  then show ?case using change_keeps_inv sets_bit_keeps[OF set_untracked(4)[OF orphaned(2), THEN conjunct1]] by simp
next
  case (initial i queues m ch q' m')
  show ?case by (rule change_keeps_inv[OF initial(3,1) initial_state_keeps(1)[OF initial(2)]]) (rule initial_state_keeps(2)[OF initial(2)])
next
  case (reserve granted queues a m)
  then show ?case
    using initialize_booking_inv[of queues granted a] by (simp add: world_inv_def list_all_iff)
next
  case (start j m queues)
  then have "ar_inv queues (sge_ar_state_set_running (ars m ! j))"
    by (simp add: world_inv_def list_all_length ar_inv_def state_ok_running qi_errors_def)
  then show ?case using start set_update_subset_insert[of "ars m" j] by (fastforce simp: world_inv_def list_all_iff)
next
  case (expire queues m j)
  then show ?case using set_take_subset[of j "ars m"] set_drop_subset[of "Suc j" "ars m"]
    by (fastforce simp: world_inv_def list_all_iff)
qed

lemma reachable_inv: "(queue_step sp)\<^sup>*\<^sup>* w w' \<Longrightarrow> world_inv sp w \<Longrightarrow> world_inv sp w'"
  by (induction rule: rtranclp_induct) (auto intro: queue_step_inv)

text \<open>The change of all queue instances of a calendar is a sequence of such steps.\<close>

lemma change_all_steps:
  assumes "change_all name order changes queues m = (queues', m')"
  shows "(queue_step sp)\<^sup>*\<^sup>* (before @ queues, m) (before @ queues', m')"
  using assms
proof (induction queues arbitrary: before m queues' m')
  case (Cons q qs)
  obtain q1 m1 where q1: "(if QU_calendar q = Some name then qinstance_change_state_on_calender q order changes m else (q, m)) = (q1, m1)"
    by fastforce
  then obtain qs1 where q2: "change_all name order changes qs m1 = (qs1, m')" "queues' = q1 # qs1"
    using Cons.prems by (auto split: prod.splits)
  have "(queue_step sp)\<^sup>*\<^sup>* (before @ q # qs, m) (before @ q1 # qs, m1)"
  proof (cases "QU_calendar q = Some name")
    case True
    then show ?thesis
      using queue_step.calendar[of "length before" "before @ q # qs" order changes m q1 m1 sp] q1 by (simp add: r_into_rtranclp)
  qed (use q1 in simp)
  moreover have "(queue_step sp)\<^sup>*\<^sup>* (before @ q1 # qs, m1) (before @ q1 # qs1, m')"
    using Cons.IH[OF q2(1), of "before @ [q1]"] by simp
  ultimately show ?case using q2(2) by simp
qed simp

lemma calendar_all_steps:
  "qinstance_change_state_on_calendar_all name order changes queues m = (queues', m') \<Longrightarrow>
   (queue_step sp)\<^sup>*\<^sup>* (queues, m) (queues', m')"
  using change_all_steps[of name order changes queues m queues' m' sp "[]"] by (simp add: qinstance_change_state_on_calendar_all_def)

text \<open>The master starts with queue instances in their default state, without reservations.\<close>

definition new_queue :: "string \<Rightarrow> qinstance" where
  "new_queue name = \<lparr>QU_full_name = name, QU_state = 0, QU_message_list = [], QU_suspended_on_subordinate = 0,
     QU_version = 0, QU_initial_state = None, QU_calendar = None, QU_state_changes = []\<rparr>"

definition empty_master :: qmaster where
  "empty_master = \<lparr>ars = [], signals = []\<rparr>"

definition reachable :: "assumption set \<Rightarrow> string list \<Rightarrow> qinstance list \<Rightarrow> qmaster \<Rightarrow> bool" where
  "reachable assumed names queues m \<longleftrightarrow> distinct names \<and>
     (queue_step assumed)\<^sup>*\<^sup>* (map new_queue names, empty_master) (queues, m)"

lemma initial_inv: "distinct names \<Longrightarrow> world_inv sp (map new_queue names, empty_master)"
  by (simp add: world_inv_def empty_master_def new_queue_def comp_def list.pred_map list_all_iff known_bits_def signal_inv_def
      suspended_def state_is_bits stopped_def)

lemma reachable_world: "reachable sp names queues m \<Longrightarrow> world_inv sp (queues, m)"
  unfolding reachable_def using reachable_inv initial_inv by blast

section \<open>Letters\<close>

definition letter_bits :: "(char \<times> nat) list" where
  "letter_bits = [(CHR ''a'', 0), (CHR ''A'', 1), (CHR ''C'', 18), (CHR ''D'', 17), (CHR ''d'', 2), (CHR ''u'', 10),
     (CHR ''E'', 14), (CHR ''S'', 15), (CHR ''s'', 8), (CHR ''c'', 19), (CHR ''o'', 20)]"

lemma letters_eq: "letters = map (\<lambda>(c, k). (c, 2 ^ k)) letter_bits"
  by (simp add: letters_def letter_bits_def QI_defs)

lemma letter_bits_distinct: "distinct (map fst letter_bits)" "(c, k) \<in> set letter_bits \<Longrightarrow> k < 32"
  by (auto simp: letter_bits_def)

definition printable :: "32 word" where
  "printable = fold (OR) (map snd letters) 0"

lemma bit_fold_or: "bit (fold (OR) (map (\<lambda>(c, k). 2 ^ k) xs) w :: 32 word) n = (bit w n \<or> n < 32 \<and> n \<in> snd ` set xs)"
proof (induction xs arbitrary: w)
  case (Cons x xs)
  obtain c k where x: "x = (c, k)" by fastforce
  have "bit (2 ^ k OR w) n = (bit w n \<or> n < 32 \<and> n = k)" by (auto simp: bit_or_iff bit_exp_iff)
  then show ?case using Cons.IH[of "2 ^ k OR w"] by (auto simp: x)
qed simp

lemma printable_bit: "bit printable n \<longleftrightarrow> n \<in> snd ` set letter_bits"
proof -
  have "map snd letters = map (\<lambda>(c, k). 2 ^ k) letter_bits" by (simp add: letters_eq comp_def case_prod_unfold)
  then show ?thesis using letter_bits_distinct(2) by (auto simp: printable_def bit_fold_or)
qed

lemma state_loop_print:
  assumes "set xs \<subseteq> set letter_bits" "fold (OR) (map (\<lambda>(c, k). 2 ^ k) xs) w AND NOT filt = 0"
  shows "state_loop filt (map fst xs) w = Some (fold (OR) (map (\<lambda>(c, k). 2 ^ k) xs) w)"
  using assms
proof (induction xs arbitrary: w)
  case (Cons x xs)
  obtain c k where x: "x = (c, k)" by fastforce
  have "map_of letters c = Some (2 ^ k)"
    using map_of_is_SomeI[OF letter_bits_distinct(1), of c k] Cons.prems(1) x unfolding letters_eq map_of_map by simp
  moreover have "(2 ^ k OR w) AND NOT filt = 0"
  proof (rule bit_eqI)
    fix n
    have "\<not> bit (fold (OR) (map (\<lambda>(c, k). 2 ^ k) xs) (2 ^ k OR w) AND NOT filt) n" using Cons.prems(2) x by simp
    then show "bit ((2 ^ k OR w) AND NOT filt) n = bit (0 :: 32 word) n" by (auto simp: bit_and_iff bit_fold_or)
  qed
  ultimately show ?case using Cons.IH[of "2 ^ k OR w"] Cons.prems x by (simp add: or.commute)
qed simp

section \<open>Changes that are taken back\<close>

lemma row_tests:
  assumes "find (\<lambda>row. transition row = t) transitions = Some row"
  shows "has_state row q = bit (QU_state q) (row_bit t)" "is_state row = (\<not> set_to row)" "row_bit t < 32"
  using assms by (auto simp: transitions_def row_bit_def QI_DO_defs state_is_bits split: if_splits)

lemma put_put: "k < 32 \<Longrightarrow> bit (QU_state q) k = b \<Longrightarrow> QU_state q' = QU_state (put k (\<not> b) q) \<Longrightarrow> QU_state (put k b q') = QU_state q"
  by (rule bit_eqI) (simp add: put_bit)

lemma command_unspooled:
  assumes "qinstance_change_state_on_command q t False op own False m = Some (ret, q', m')"
  shows "QU_state q' = QU_state q \<and> (ret \<longrightarrow> q' = q \<and> m' = m)"
proof -
  have "q' = q \<and> m' = m \<or> \<not> ret \<and> (\<exists>row q1 m1 ch q2 m2 ch'. extra_work t False q m = (True, q1, m1) \<and>
      find (\<lambda>row. transition row = t) transitions = Some row \<and> has_state row q = is_state row \<and>
      set_state_fun row q1 (set_to row) m1 = (ch, q2, m2) \<and>
      set_state_fun row (qinstance_increase_qversion q2) (\<not> set_to row) m2 = (ch', q', m'))"
  proof (cases "\<exists>q1 m1. extra_work t False q m = (False, q1, m1)")
    case True
    then have "extra_work t False q m = (False, q, m)" by (auto simp: extra_work_def split: if_splits)
    then show ?thesis using assms unfolding qinstance_change_state_on_command_def by (auto split: if_splits option.splits)
  next
    case False
    then show ?thesis
      using assms unfolding qinstance_change_state_on_command_def by (auto simp: Let_def split: if_splits option.splits prod.splits)
  qed
  then show ?thesis
  proof (elim disjE conjE exE)
    fix row q1 m1 ch q2 m2 ch'
    assume r: "\<not> ret" "extra_work t False q m = (True, q1, m1)" "find (\<lambda>row. transition row = t) transitions = Some row"
      "has_state row q = is_state row" "set_state_fun row q1 (set_to row) m1 = (ch, q2, m2)"
      "set_state_fun row (qinstance_increase_qversion q2) (\<not> set_to row) m2 = (ch', q', m')"
    have q1: "QU_state q1 = QU_state q" using extra_work_good(1)[OF r(2)] by (simp add: same_fields_def)
    have b: "bit (QU_state q1) (row_bit t) = (\<not> set_to row)" using r(4) row_tests[OF r(3)] q1 by simp
    have "q2 = put (row_bit t) (set_to row) q1" using row_cases(3)[OF r(3,5)] unfolding sets_bit_def by blast
    moreover have "q' = put (row_bit t) (\<not> set_to row) (qinstance_increase_qversion q2)"
      using row_cases(3)[OF r(3,6)] unfolding sets_bit_def by blast
    ultimately show ?thesis
      using put_put[OF row_tests(3)[OF r(3)] b] r(1) q1 by (simp add: qinstance_increase_qversion_def)
  qed simp
qed

section \<open>Samples\<close>

definition sample :: qinstance where
  "sample = new_queue ''all.q@n1''"

definition sample_ar :: ar where
  "sample_ar = \<lparr>AR_id = 1, AR_state = AR_UNKNOWN, AR_qi_errors = 0, AR_reserved_queues = []\<rparr>"

definition sample_master :: qmaster where
  "sample_master = empty_master\<lparr>ars := [sge_ar_state_set_waiting (ar_initialize_errors [sample] sample_ar)]\<rparr>"

definition suspended_sample :: "qinstance \<times> qmaster" where
  "suspended_sample = snd (the (qinstance_change_state_on_command sample QI_DO_SUSPEND False True False True empty_master))"

definition failed_sample :: "qinstance \<times> qmaster" where
  "failed_sample = snd (sge_qmaster_qinstance_state_set_error sample True sample_master)"

lemma suspended_sample_reachable: "reachable {Spooled, Calendars_kept} [''all.q@n1''] [fst suspended_sample] (snd suspended_sample)"
proof -
  have "qinstance_change_state_on_command sample QI_DO_SUSPEND False True False True empty_master =
      Some (True, fst suspended_sample, snd suspended_sample)" by code_simp
  then have "queue_step {Spooled, Calendars_kept} ([sample], empty_master) ([sample][0 := fst suspended_sample], snd suspended_sample)"
    by (intro queue_step.command[where i = 0]) auto
  then show ?thesis by (simp add: reachable_def sample_def)
qed

lemma failed_sample_reachable: "reachable {} [''all.q@n1''] [fst failed_sample] (snd failed_sample)"
proof -
  have "queue_step {} ([sample], empty_master) ([sample], sample_master)"
    unfolding sample_master_def
    using queue_step.reserve[of "[sample]" "[sample]" sample_ar "{}" empty_master]
    by (simp add: sample_ar_def sample_def new_queue_def state_is_bits empty_master_def)
  moreover have "sge_qmaster_qinstance_state_set_error sample True sample_master = (True, fst failed_sample, snd failed_sample)"
    by code_simp
  then have "queue_step {} ([sample], sample_master) ([sample][0 := fst failed_sample], snd failed_sample)"
    by (intro queue_step.error[where i = 0]) auto
  ultimately show ?thesis by (simp add: reachable_def sample_def)
qed

section \<open>Properties\<close>

text \<open>C12. In every state that the master reaches from new queue instances by commands, calendars, the removal
  of calendars and subordination, provided that the changes are spooled, the jobs of a queue instance that
  is suspended by an administrator, by its calendar or by another queue are stopped by the last signal sent to
  it. Conversely a queue instance whose jobs are stopped is suspended, provided that no calendar is taken away
  from a queue instance while it suspends it: the code sends no signal then, see
  \<open>removed_calendar_leaves_stopped\<close>.\<close>

theorem suspended_queues_are_stopped:
  assumes "reachable assumed names queues m" "Spooled \<in> assumed" "q \<in> set queues"
  shows "(qinstance_state_is_manual_suspended q \<or> qinstance_state_is_cal_suspended q \<or>
      qinstance_state_is_susp_on_sub q \<longrightarrow> stopped (QU_full_name q) (signals m)) \<and>
    (Calendars_kept \<in> assumed \<and> stopped (QU_full_name q) (signals m) \<longrightarrow>
      qinstance_state_is_manual_suspended q \<or> qinstance_state_is_cal_suspended q \<or> qinstance_state_is_susp_on_sub q)"
  using reachable_world[OF assms(1)] assms(2,3) by (auto simp: world_inv_def list_all_iff signal_inv_def suspended_def)

theorem suspended_queues_are_stopped_witness:
  "reachable {Spooled, Calendars_kept} [''all.q@n1''] [fst suspended_sample] (snd suspended_sample) \<and>
   stopped ''all.q@n1'' (signals (snd suspended_sample))"
proof -
  have "qinstance_state_is_manual_suspended (fst suspended_sample)" "QU_full_name (fst suspended_sample) = ''all.q@n1''"
    by code_simp+
  then show ?thesis
    using suspended_queues_are_stopped[OF suspended_sample_reachable, of "fst suspended_sample"] suspended_sample_reachable by simp
qed

text \<open>A calendar suspends a queue instance and stops its jobs; then the calendar is taken out of the
  configuration of the queue instance, which is no longer suspended, but its jobs are still stopped.\<close>

lemma removed_calendar_leaves_stopped:
  "let (q, m) = qinstance_change_state_on_calender sample QI_DO_CAL_SUSPEND [] empty_master;
       (q', m') = qinstance_remove_calendar q m
   in qinstance_state_is_cal_suspended q \<and> QU_state q' = 0 \<and> stopped (QU_full_name q') (signals m')"
  by code_simp

text \<open>The counter of subordination goes below 0 when a queue instance is released that no queue had
  suspended; the next suspension then brings it to 0 and neither stops the jobs nor sets the state.\<close>

lemma released_counter_wraps:
  "let (q, m) = qinstance_x_on_subordinate sample False empty_master;
       (q', m') = qinstance_x_on_subordinate q True m
   in QU_suspended_on_subordinate q = - 1 \<and> QU_suspended_on_subordinate q' = 0 \<and> QU_state q' = 0 \<and> signals m' = []"
  by code_simp

text \<open>C13. Whether or not changes can be spooled, a reservation that is waiting or running has no reserved queue in an
  error state, a reservation in warning or error has one, and the states that are reported to reservations are the
  same in the copy of the reservation as in the queue instance. This holds as long as no queue instance is
  reserved while an administrator has suspended it.\<close>

theorem reservations_follow_queues:
  assumes "reachable {} names queues m" "a \<in> set (ars m)" "AR_state a \<in> {AR_WAITING, AR_RUNNING, AR_ERROR, AR_WARNING}"
  shows "(AR_state a \<in> {AR_ERROR, AR_WARNING} \<longleftrightarrow>
      (\<exists>rq\<in>set (AR_reserved_queues a). qinstance_state_is_ambiguous rq \<or> qinstance_state_is_alarm rq \<or>
         qinstance_state_is_suspend_alarm rq \<or> qinstance_state_is_manual_disabled rq \<or>
         qinstance_state_is_manual_suspended rq \<or> qinstance_state_is_unknown rq \<or> qinstance_state_is_error rq)) \<and>
    (\<forall>rq\<in>set (AR_reserved_queues a). \<forall>q\<in>set queues. QU_full_name rq = QU_full_name q \<longrightarrow>
       qinstance_state_is_manual_disabled rq = qinstance_state_is_manual_disabled q \<and>
       qinstance_state_is_manual_suspended rq = qinstance_state_is_manual_suspended q \<and>
       qinstance_state_is_unknown rq = qinstance_state_is_unknown q \<and>
       qinstance_state_is_error rq = qinstance_state_is_error q \<and>
       qinstance_state_is_ambiguous rq = qinstance_state_is_ambiguous q)"
proof -
  have a: "ar_inv queues a" using reachable_world[OF assms(1)] assms(2) by (simp add: world_inv_def list_all_iff)
  then have "AR_state a \<in> {AR_ERROR, AR_WARNING} \<longleftrightarrow> sge_ar_has_errors a"
    using assms(3) by (auto simp: ar_inv_def state_ok_def)
  also have "\<dots> \<longleftrightarrow> (\<exists>rq\<in>set (AR_reserved_queues a). qinstance_state_is_ambiguous rq \<or> qinstance_state_is_alarm rq \<or>
         qinstance_state_is_suspend_alarm rq \<or> qinstance_state_is_manual_disabled rq \<or>
         qinstance_state_is_manual_suspended rq \<or> qinstance_state_is_unknown rq \<or> qinstance_state_is_error rq)"
    unfolding has_errors_iff[OF a] by (simp add: counted_def tracked_def state_is_bits disj_ac)
  finally show ?thesis using a by (simp add: ar_inv_def same_errors_def tracked_def state_is_bits)
qed

theorem reservations_follow_queues_witness:
  "AR_state (hd (ars (snd failed_sample))) = AR_WARNING \<and>
   (\<exists>rq\<in>set (AR_reserved_queues (hd (ars (snd failed_sample)))). qinstance_state_is_ambiguous rq \<or> qinstance_state_is_alarm rq \<or>
      qinstance_state_is_suspend_alarm rq \<or> qinstance_state_is_manual_disabled rq \<or>
      qinstance_state_is_manual_suspended rq \<or> qinstance_state_is_unknown rq \<or> qinstance_state_is_error rq)"
proof -
  have "AR_state (hd (ars (snd failed_sample))) = AR_WARNING" "ars (snd failed_sample) \<noteq> []" by code_simp+
  then show ?thesis
    using reservations_follow_queues[OF failed_sample_reachable, of "hd (ars (snd failed_sample))"] by simp
qed

text \<open>The state word of a queue instance never has a bit without a meaning.\<close>

lemma states_stay_known:
  assumes "reachable {} names queues m" "q \<in> set queues"
  shows "QU_state q AND NOT (printable OR QI_FULL) = 0"
proof (rule bit_eqI)
  fix n
  have "known_bits q" using reachable_world[OF assms(1)] assms(2) by (simp add: world_inv_def list_all_iff)
  moreover have "bit QI_FULL n \<longleftrightarrow> n = 21" unfolding QI_powers bit_exp_iff by auto
  then have "n \<in> known \<longleftrightarrow> bit printable n \<or> bit QI_FULL n" by (auto simp: known_def printable_bit letter_bits_def)
  ultimately show "bit (QU_state q AND NOT (printable OR QI_FULL)) n = bit (0 :: 32 word) n"
    by (auto simp: known_bits_def bit_and_iff bit_not_iff bit_or_iff)
qed

text \<open>The letters printed for a queue instance are read back as the same states, when the queue instance has a
  state with a letter and the filter allows its states.\<close>

lemma state_letters_round_trip:
  assumes "QU_state q AND printable \<noteq> 0" "(QU_state q AND printable) AND NOT filt = 0"
  shows "qinstance_state_from_string (qinstance_state_append_to_dstring q []) filt = QU_state q AND printable"
proof -
  let ?xs = "filter (\<lambda>(c, k). bit (QU_state q) k) letter_bits"
  have p: "qinstance_state_append_to_dstring q [] = map fst ?xs"
  proof -
    have "filter (\<lambda>x. qinstance_has_state q (2 ^ snd x)) letter_bits = filter (\<lambda>p. bit (QU_state q) (snd p)) letter_bits"
      by (rule filter_cong) (use has_state_bit[of _ q] letter_bits_distinct(2) in auto)
    then show ?thesis
      by (simp add: qinstance_state_append_to_dstring_def letters_eq filter_map comp_def case_prod_unfold)
  qed
  have w: "fold (OR) (map (\<lambda>(c, k). 2 ^ k) ?xs) 0 = QU_state q AND printable"
    by (rule bit_eqI) (force simp: bit_fold_or bit_and_iff printable_bit)
  have "state_loop filt (map fst ?xs) 0 = Some (QU_state q AND printable)"
    using state_loop_print[of ?xs 0 filt] assms(2) unfolding w by simp
  moreover have "map fst ?xs \<noteq> []" using assms(1) w by (cases ?xs) auto
  ultimately show ?thesis by (simp add: qinstance_state_from_string_def p)
qed

text \<open>C17. A command that is not forced and cannot be spooled, and one of a user without permission, leaves the states of
  the queue instance as they were; it reports success only when nothing at all was changed.\<close>

theorem command_without_effect:
  assumes "qinstance_change_state_on_command q t False op own spooled m = Some (ret, q', m')" "\<not> spooled \<or> \<not> op \<and> \<not> own"
  shows "QU_state q' = QU_state q \<and> (ret \<longrightarrow> q' = q \<and> m' = m)"
proof (cases "op \<or> own")
  case True
  then show ?thesis using assms command_unspooled[of q t op own m ret q' m'] by auto
next
  case False
  then show ?thesis using assms(1) by (simp add: qinstance_change_state_on_command_def)
qed

theorem command_without_effect_witness:
  "QU_state (fst (snd (the (qinstance_change_state_on_command sample QI_DO_DISABLE False True False False sample_master)))) =
     QU_state sample"
proof -
  obtain ret q' m' where r: "qinstance_change_state_on_command sample QI_DO_DISABLE False True False False sample_master = Some (ret, q', m')"
    by (cases "qinstance_change_state_on_command sample QI_DO_DISABLE False True False False sample_master")
      (auto simp: qinstance_change_state_on_command_def transitions_def extra_work_def QI_DO_defs state_is_bits sample_def new_queue_def
        Let_def split: prod.splits)
  then show ?thesis using command_without_effect[OF r] by simp
qed

section \<open>Where the code departs\<close>

text \<open>A queue instance that is suspended by an administrator when it is reserved, or when the master reads the reservation at
  its start, is not counted. When it is resumed the counter of errors wraps around, and the reservation is in error.\<close>

lemma resumed_queue_breaks_reservation:
  "let q = fst suspended_sample;
       m = empty_master\<lparr>ars := [sge_ar_state_set_running (ar_initialize_errors [q] sample_ar)]\<rparr>;
       (_, q', m') = the (qinstance_change_state_on_command q QI_DO_UNSUSPEND False True False True m)
   in AR_state (hd (ars m)) = AR_RUNNING \<and> QU_state q' = 0 \<and> AR_qi_errors (hd (ars m')) = - 1 \<and> AR_state (hd (ars m')) = AR_ERROR"
  by code_simp

text \<open>The rollback after a failure to spool takes the state back but not the signal: the jobs stay stopped in a queue instance
  that is not suspended.\<close>

lemma rollback_keeps_jobs_stopped:
  "let (ret, q', m') = the (qinstance_change_state_on_command sample QI_DO_SUSPEND False True False False empty_master)
   in \<not> ret \<and> \<not> suspended q' \<and> stopped (QU_full_name q') (signals m')"
  by code_simp

text \<open>The command reports success to a user without permission, and when a suspension by the calendar makes it skip the work.\<close>

lemma command_reports_success:
  "qinstance_change_state_on_command q t force False False spooled m = Some (True, q, m)"
  "qinstance_state_is_cal_suspended q \<Longrightarrow> \<not> qinstance_state_is_manual_suspended q \<Longrightarrow>
     qinstance_change_state_on_command q QI_DO_SUSPEND False op own spooled m = Some (True, q, m)"
  by (auto simp: qinstance_change_state_on_command_def transitions_def extra_work_def QI_DO_defs)

end
