(* ===== verification/PackBuffer.thy ===== *)
theory PackBuffer
  imports Prelude "HOL-Library.Word"
begin

text \<open>
  Pack buffers, \<^verbatim>\<open>source/libs/cull/pack.cc\<close>: the byte streams in which components exchange lists. A
  buffer is its allocated memory and the offset of \<^verbatim>\<open>cur_ptr\<close> into it; an access outside of
  the memory is \<open>None\<close>. Allocation succeeds, and fresh memory is filled with zero bytes, which the code
  never reads. Sizes of type \<^verbatim>\<open>size_t\<close> are natural numbers; the comparison of \<^verbatim>\<open>packbuf\<close> is done in
  32 bits as in the code. A double is the 64 bits that represent it.
\<close>

unbundle bit_operations_syntax

section \<open>Data\<close>

type_synonym byte = "8 word"

record sge_pack_buffer =
  mem :: "byte list"
  cur_ptr :: nat
  mem_size :: nat
  bytes_used :: nat
  just_count :: bool
  version :: "32 word"
  auth_info :: "string option"

datatype pack_result = PACK_SUCCESS | PACK_ENOMEM | PACK_FORMAT | PACK_BADARG | PACK_VERSION | PACK_AUTHINFO

definition CHUNK :: nat where "CHUNK = 1024 * 1024"

definition CULL_VERSION :: "32 word" where "CULL_VERSION = 0x10023000"

definition INTSIZE :: nat where "INTSIZE = 4"

definition DOUBLESIZE :: nat where "DOUBLESIZE = 8"

definition bytes_of_string :: "string \<Rightarrow> byte list" where
  "bytes_of_string str = map (\<lambda>c. word_of_nat (of_char c)) str"

definition string_of_bytes :: "byte list \<Rightarrow> string" where
  "string_of_bytes bs = map (\<lambda>b. char_of (unat b)) bs"

definition net_bytes :: "nat \<Rightarrow> 'a::len word \<Rightarrow> byte list" where
  \<comment> \<open>the low \<open>n\<close> bytes in network byte order, as \<^verbatim>\<open>htonl\<close> and \<^verbatim>\<open>htobe64\<close> put them into memory\<close>
  "net_bytes n w = map (\<lambda>i. ucast (drop_bit (8 * i) w)) (rev [0..<n])"

definition host_word :: "byte list \<Rightarrow> 'a::len word" where
  \<comment> \<open>\<^verbatim>\<open>ntohl\<close> and \<^verbatim>\<open>be64toh\<close>\<close>
  "host_word bs = foldl (\<lambda>w b. push_bit 8 w OR ucast b) 0 bs"

definition cleared :: sge_pack_buffer where
  \<comment> \<open>\<^verbatim>\<open>memset\<close> of the structure to 0\<close>
  "cleared = \<lparr>mem = [], cur_ptr = 0, mem_size = 0, bytes_used = 0, just_count = False, version = 0, auth_info = None\<rparr>"

section \<open>Memory\<close>

definition grow :: "nat \<Rightarrow> sge_pack_buffer \<Rightarrow> sge_pack_buffer" where
  \<comment> \<open>\<^verbatim>\<open>sge_realloc\<close> to the new size, and the new \<^verbatim>\<open>cur_ptr\<close>\<close>
  "grow new_size pb = pb\<lparr>mem := mem pb @ replicate (new_size - length (mem pb)) 0, mem_size := new_size, cur_ptr := bytes_used pb\<rparr>"

definition store :: "byte list \<Rightarrow> sge_pack_buffer \<Rightarrow> sge_pack_buffer option" where
  \<comment> \<open>\<^verbatim>\<open>memcpy\<close> to \<^verbatim>\<open>cur_ptr\<close>, which is moved behind the bytes\<close>
  "store bs pb =
     (if cur_ptr pb + length bs \<le> length (mem pb)
      then Some (pb\<lparr>mem := take (cur_ptr pb) (mem pb) @ bs @ drop (cur_ptr pb + length bs) (mem pb),
                    cur_ptr := cur_ptr pb + length bs\<rparr>)
      else None)"

definition load :: "nat \<Rightarrow> sge_pack_buffer \<Rightarrow> byte list option" where
  "load n pb = (if cur_ptr pb + n \<le> length (mem pb) then Some (take n (drop (cur_ptr pb) (mem pb))) else None)"

section \<open>Packing\<close>

definition pack_bytes :: "(sge_pack_buffer \<Rightarrow> sge_pack_buffer) \<Rightarrow> byte list \<Rightarrow> sge_pack_buffer \<Rightarrow> (pack_result \<times> sge_pack_buffer) option" where
  \<comment> \<open>the common shape of the packing functions: grow when necessary, copy, count\<close>
  "pack_bytes enlarge bs pb =
     do { pb1 \<leftarrow> (if \<not> just_count pb then store bs (enlarge pb) else Some pb);
          Some (PACK_SUCCESS, pb1\<lparr>bytes_used := bytes_used pb1 + length bs\<rparr>) }"

definition grow_once :: "nat \<Rightarrow> sge_pack_buffer \<Rightarrow> sge_pack_buffer" where
  "grow_once n pb = (if bytes_used pb + n > mem_size pb then grow (mem_size pb + CHUNK) pb else pb)"

definition packint :: "32 word \<Rightarrow> sge_pack_buffer \<Rightarrow> (pack_result \<times> sge_pack_buffer) option" where
  "packint i pb = pack_bytes (grow_once INTSIZE) (net_bytes INTSIZE i) pb"

definition repackint :: "32 word \<Rightarrow> sge_pack_buffer \<Rightarrow> (pack_result \<times> sge_pack_buffer) option" where
  "repackint i pb =
     do { pb1 \<leftarrow> (if \<not> just_count pb then store (net_bytes INTSIZE i) pb else Some pb); Some (PACK_SUCCESS, pb1) }"

definition packint64 :: "64 word \<Rightarrow> sge_pack_buffer \<Rightarrow> (pack_result \<times> sge_pack_buffer) option" where
  "packint64 i pb = pack_bytes (grow_once (INTSIZE * 2)) (net_bytes (INTSIZE * 2) i) pb"

definition packdouble :: "64 word \<Rightarrow> sge_pack_buffer \<Rightarrow> (pack_result \<times> sge_pack_buffer) option" where
  "packdouble d pb = pack_bytes (grow_once DOUBLESIZE) (net_bytes DOUBLESIZE d) pb"

function grown_size :: "nat \<Rightarrow> nat \<Rightarrow> nat" where
  "grown_size need sz = (if need > sz then grown_size need (sz + CHUNK) else sz)"
  by pat_completeness auto
termination by (relation "measure (\<lambda>(need, sz). need - sz)") (auto simp: CHUNK_def)

declare grown_size.simps [simp del]

definition grow_to :: "nat \<Rightarrow> sge_pack_buffer \<Rightarrow> sge_pack_buffer" where
  "grow_to n pb =
     (if bytes_used pb + n > mem_size pb then grow (grown_size (bytes_used pb + n) (mem_size pb)) pb else pb)"

definition packstr :: "string option \<Rightarrow> sge_pack_buffer \<Rightarrow> (pack_result \<times> sge_pack_buffer) option" where
  "packstr str pb =
     (case str of
        None \<Rightarrow> pack_bytes (grow_once 1) [0] pb
      | Some s \<Rightarrow> (let bs = bytes_of_string s @ [0] in pack_bytes (grow_to (length bs)) bs pb))"

definition packbuf :: "byte list \<Rightarrow> sge_pack_buffer \<Rightarrow> (pack_result \<times> sge_pack_buffer) option" where
  \<comment> \<open>the bytes at \<^verbatim>\<open>buf_ptr\<close>; their number is the argument \<^verbatim>\<open>buf_size\<close>\<close>
  "packbuf buf pb =
     pack_bytes
       (\<lambda>pb. if add32 (length buf) (bytes_used pb mod u32_mod) > mem_size pb mod u32_mod
             then grow (mem_size pb + CHUNK) pb else pb)
       buf pb"

definition init_packbuffer :: "string option \<Rightarrow> nat \<Rightarrow> bool \<Rightarrow> bool \<Rightarrow> (pack_result \<times> sge_pack_buffer) option" where
  \<comment> \<open>the first argument is \<^verbatim>\<open>component_get_auth_info\<close>: \<open>None\<close> when it fails\<close>
  "init_packbuffer auth initial_size only_count with_auth_info =
     (if \<not> only_count then
        if with_auth_info \<and> auth = None then Some (PACK_AUTHINFO, cleared)
        else
          let info = (if with_auth_info then auth else None);
              sz = (if initial_size = 0 then CHUNK else initial_size + 2 * INTSIZE) +
                     (case info of Some s \<Rightarrow> length s + 1 | None \<Rightarrow> 1);
              pb = cleared\<lparr>auth_info := info, mem := replicate sz 0, mem_size := sz, version := CULL_VERSION\<rparr>
          in do { (_, pb1) \<leftarrow> packint 0 pb;
                  (_, pb2) \<leftarrow> packint (version pb1) pb1;
                  (_, pb3) \<leftarrow> packstr (auth_info pb2) pb2;
                  Some (PACK_SUCCESS, pb3) }
      else Some (PACK_SUCCESS, cleared\<lparr>just_count := True\<rparr>))"

section \<open>Unpacking\<close>

definition unpackint :: "sge_pack_buffer \<Rightarrow> (pack_result \<times> 32 word \<times> sge_pack_buffer) option" where
  "unpackint pb =
     (if bytes_used pb + INTSIZE > mem_size pb then Some (PACK_FORMAT, 0, pb)
      else do { bs \<leftarrow> load INTSIZE pb;
                Some (PACK_SUCCESS, host_word bs,
                  pb\<lparr>cur_ptr := cur_ptr pb + INTSIZE, bytes_used := bytes_used pb + INTSIZE\<rparr>) })"

definition unpackint64 :: "sge_pack_buffer \<Rightarrow> (pack_result \<times> 64 word \<times> sge_pack_buffer) option" where
  "unpackint64 pb =
     (if bytes_used pb + INTSIZE * 2 > mem_size pb then Some (PACK_FORMAT, 0, pb)
      else do { bs \<leftarrow> load (INTSIZE * 2) pb;
                Some (PACK_SUCCESS, host_word bs,
                  pb\<lparr>cur_ptr := cur_ptr pb + INTSIZE * 2, bytes_used := bytes_used pb + INTSIZE * 2\<rparr>) })"

definition unpackdouble :: "sge_pack_buffer \<Rightarrow> (pack_result \<times> 64 word \<times> sge_pack_buffer) option" where
  "unpackdouble pb =
     (if bytes_used pb + DOUBLESIZE > mem_size pb then Some (PACK_FORMAT, 0, pb)
      else do { bs \<leftarrow> load (2 * INTSIZE) pb;
                Some (PACK_SUCCESS, host_word bs,
                  pb\<lparr>cur_ptr := cur_ptr pb + DOUBLESIZE, bytes_used := bytes_used pb + DOUBLESIZE\<rparr>) })"

definition unpackstr :: "sge_pack_buffer \<Rightarrow> (pack_result \<times> string option \<times> sge_pack_buffer) option" where
  \<comment> \<open>the string is \<open>None\<close> for the null pointer, also where the code leaves it unset\<close>
  "unpackstr pb =
     (let remaining = mem_size pb - bytes_used pb in
      if remaining < 1 then Some (PACK_FORMAT, None, pb)
      else
        do { c \<leftarrow> load 1 pb;
             if c = [0] then
               Some (PACK_SUCCESS, None, pb\<lparr>cur_ptr := cur_ptr pb + 1, bytes_used := bytes_used pb + 1\<rparr>)
             else
               do { bs \<leftarrow> load remaining pb;
                    if 0 \<notin> set bs then Some (PACK_FORMAT, None, pb)
                    else
                      let text = takeWhile (\<lambda>b. b \<noteq> 0) bs; n = length text + 1 in
                      Some (PACK_SUCCESS, Some (string_of_bytes text),
                        pb\<lparr>cur_ptr := cur_ptr pb + n, bytes_used := bytes_used pb + n\<rparr>) } })"

definition unpackbuf :: "nat \<Rightarrow> sge_pack_buffer \<Rightarrow> (pack_result \<times> byte list \<times> sge_pack_buffer) option" where
  \<comment> \<open>for a size that is not negative; the function has no callers\<close>
  "unpackbuf buf_size pb =
     (if buf_size = 0 then Some (PACK_SUCCESS, [], pb)
      else if buf_size + bytes_used pb > mem_size pb then Some (PACK_FORMAT, [], pb)
      else do { bs \<leftarrow> load buf_size pb;
                Some (PACK_SUCCESS, bs,
                  pb\<lparr>cur_ptr := cur_ptr pb + buf_size, bytes_used := bytes_used pb + buf_size\<rparr>) })"

definition init_packbuffer_from_buffer ::
    "(string option \<Rightarrow> bool) \<Rightarrow> byte list \<Rightarrow> bool \<Rightarrow> (pack_result \<times> sge_pack_buffer) option" where
  \<comment> \<open>the first argument is \<^verbatim>\<open>component_parse_auth_info\<close>, which fills in the identity of the sender; neither
     pointer is null, and \<^verbatim>\<open>buflen\<close>, of 32 bits, is the length of the buffer\<close>
  "init_packbuffer_from_buffer parse_auth_info buf with_auth_info =
     (let pb = cleared\<lparr>mem := buf, mem_size := length buf\<rparr> in
      if length buf > 0 then
        do { (ret1, pad, pb1) \<leftarrow> unpackint pb;
             if ret1 \<noteq> PACK_SUCCESS then Some (ret1, pb1)
             else do { (ret2, ver, pb2) \<leftarrow> unpackint pb1;
               if ret2 \<noteq> PACK_SUCCESS then Some (ret2, pb2)
               else do { (ret3, info, pb3) \<leftarrow> unpackstr pb2;
                 if ret3 \<noteq> PACK_SUCCESS then Some (ret3, pb3)
                 else
                   let pb4 = pb3\<lparr>auth_info := info\<rparr> in
                   if pad \<noteq> 0 \<or> ver \<noteq> CULL_VERSION then Some (PACK_VERSION, pb4)
                   else
                     let pb5 = pb4\<lparr>version := ver\<rparr> in
                     if with_auth_info \<and> \<not> parse_auth_info info then Some (PACK_AUTHINFO, pb5)
                     else Some (PACK_SUCCESS, pb5) } } }
      else Some (PACK_SUCCESS, pb\<lparr>version := CULL_VERSION\<rparr>))"

section \<open>Queries\<close>

definition pb_used :: "sge_pack_buffer \<Rightarrow> nat" where
  "pb_used pb = bytes_used pb"

definition pb_filled :: "sge_pack_buffer \<Rightarrow> bool" where
  "pb_filled pb \<longleftrightarrow> pb_used pb > 2 * INTSIZE"

definition pb_unused :: "sge_pack_buffer \<Rightarrow> nat" where
  "pb_unused pb = mem_size pb - bytes_used pb"

definition cull_pack_strerror :: "pack_result \<Rightarrow> string" where
  "cull_pack_strerror errnum =
     (case errnum of
        PACK_SUCCESS \<Rightarrow> ''packing successful''
      | PACK_ENOMEM \<Rightarrow> ''can't allocate memory''
      | PACK_FORMAT \<Rightarrow> ''invalid input parameter''
      | PACK_BADARG \<Rightarrow> ''bad argument''
      | PACK_VERSION \<Rightarrow> ''wrong cull version''
      | PACK_AUTHINFO \<Rightarrow> ''incorrect authentication information'')"

definition pb_are_equivalent :: "sge_pack_buffer \<Rightarrow> sge_pack_buffer \<Rightarrow> bool" where
  "pb_are_equivalent pb1 pb2 \<longleftrightarrow> bytes_used pb1 = bytes_used pb2 \<and>
     take (bytes_used pb1) (mem pb1) = take (bytes_used pb1) (mem pb2)"

end
