(* ===== verification/PackBuffer_Correct.thy ===== *)
theory PackBuffer_Correct
  imports PackBuffer
begin

text \<open>
  What the packing functions append and the unpacking functions read. The locale \<open>codec\<close> states the
  contract of a pair of functions for one type of values; sequences of values are treated once inside it,
  and it is interpreted on the functions for each type and on values of mixed types.
\<close>

section \<open>Bytes of words\<close>

lemma host_word_snoc: "host_word (bs @ [b]) = push_bit 8 (host_word bs) OR ucast b"
  by (simp add: host_word_def)

lemma length_net_bytes [simp]: "length (net_bytes n w) = n"
  by (simp add: net_bytes_def)

lemma net_bytes_Suc: "net_bytes (Suc n) w = net_bytes n (drop_bit 8 w) @ [ucast w]"
proof -
  have "[0..<Suc n] = 0 # map Suc [0..<n]" by (simp add: upt_conv_Cons map_Suc_upt del: upt_Suc)
  then show ?thesis by (simp add: net_bytes_def rev_map[symmetric] comp_def add.commute del: upt_Suc)
qed

lemma host_word_net_bytes:
  fixes w :: "'a::len word"
  assumes "\<forall>k\<ge>8 * n. \<not> bit w k"
  shows "host_word (net_bytes n w) = w"
  using assms
proof (induction n arbitrary: w)
  case 0
  have "w = 0" by (rule bit_eqI) (use 0 in auto)
  then show ?case by (simp add: host_word_def net_bytes_def)
next
  case (Suc n)
  have "host_word (net_bytes n (drop_bit 8 w)) = drop_bit 8 w"
    by (rule Suc.IH) (use Suc.prems in \<open>auto simp: bit_drop_bit_eq\<close>)
  then have "host_word (net_bytes (Suc n) w) = push_bit 8 (drop_bit 8 w) OR ucast (ucast w :: byte)"
    by (simp add: net_bytes_Suc host_word_snoc)
  also have "\<dots> = w"
    by (rule bit_eqI) (auto simp: bit_or_iff bit_push_bit_iff bit_drop_bit_eq bit_ucast_iff not_le)
  finally show ?case .
qed

lemma host_word_32 [simp]: "host_word (net_bytes INTSIZE (w :: 32 word)) = w"
  by (rule host_word_net_bytes) (auto simp: INTSIZE_def dest: bit_imp_le_length)

lemma host_word_64 [simp]: "host_word (net_bytes (INTSIZE * 2) (w :: 64 word)) = w"
  "host_word (net_bytes DOUBLESIZE (w :: 64 word)) = w"
  by (rule host_word_net_bytes; auto simp: INTSIZE_def DOUBLESIZE_def dest: bit_imp_le_length)+

lemma string_bytes [simp]: "string_of_bytes (bytes_of_string s) = s"
proof -
  have "char_of (unat (word_of_nat (of_char c) :: byte)) = c" for c
    using nat_of_char_less_256[of c] by (simp add: unat_of_nat take_bit_nat_eq_self)
  then show ?thesis by (simp add: string_of_bytes_def bytes_of_string_def comp_def)
qed

lemma byte_zero: "(word_of_nat (of_char c) :: byte) = 0 \<Longrightarrow> c = CHR 0x00"
proof -
  assume "(word_of_nat (of_char c) :: byte) = 0"
  then have "(256 :: nat) dvd of_char c" by (simp add: word_of_nat_eq_0_iff)
  moreover have "of_char c < (256 :: nat)" by (rule nat_of_char_less_256)
  ultimately have "of_char c = (0 :: nat)" by (metis dvd_imp_le linorder_not_less not_gr0)
  then have "of_char c = (of_char (CHR 0x00) :: nat)" by simp
  then show "c = CHR 0x00" by (simp only: of_char_eq_iff)
qed

lemma bytes_no_zero: "CHR 0x00 \<notin> set s \<Longrightarrow> 0 \<notin> set (bytes_of_string s)"
proof
  assume s: "CHR 0x00 \<notin> set s" and "0 \<in> set (bytes_of_string s)"
  then have "0 \<in> (\<lambda>c. word_of_nat (of_char c) :: byte) ` set s" unfolding bytes_of_string_def set_map by simp
  then show False
  proof (rule imageE)
    fix c
    assume c: "0 = (word_of_nat (of_char c) :: byte)" "c \<in> set s"
    then show False using byte_zero[OF c(1)[symmetric]] s by simp
  qed
qed

lemma length_bytes [simp]: "length (bytes_of_string s) = length s"
  by (simp add: bytes_of_string_def)

section \<open>Well-formed buffers\<close>

definition wf_pack :: "sge_pack_buffer \<Rightarrow> bool" where
  "wf_pack pb \<longleftrightarrow> \<not> just_count pb \<and> length (mem pb) = mem_size pb \<and> cur_ptr pb = bytes_used pb \<and> bytes_used pb \<le> mem_size pb"

definition contents :: "sge_pack_buffer \<Rightarrow> byte list" where
  "contents pb = take (bytes_used pb) (mem pb)"

definition rest :: "sge_pack_buffer \<Rightarrow> byte list" where
  "rest pb = drop (bytes_used pb) (mem pb)"

text \<open>The packing functions differ in how they enlarge the memory.\<close>

definition enlarges :: "(sge_pack_buffer \<Rightarrow> sge_pack_buffer) \<Rightarrow> nat \<Rightarrow> sge_pack_buffer \<Rightarrow> bool" where
  "enlarges f n pb \<longleftrightarrow> f pb = pb \<and> bytes_used pb + n \<le> mem_size pb \<or>
     (\<exists>s. f pb = grow s pb \<and> mem_size pb \<le> s \<and> bytes_used pb + n \<le> s \<and> s \<le> bytes_used pb + n + CHUNK)"

definition appends :: "byte list \<Rightarrow> sge_pack_buffer \<Rightarrow> sge_pack_buffer \<Rightarrow> bool" where
  "appends bs pb pb' \<longleftrightarrow> wf_pack pb' \<and> contents pb' = contents pb @ bs \<and> bytes_used pb' = bytes_used pb + length bs \<and>
     mem_size pb' \<le> max (mem_size pb) (bytes_used pb' + CHUNK) \<and> version pb' = version pb \<and> auth_info pb' = auth_info pb"

lemma grow_wf: "wf_pack pb \<Longrightarrow> mem_size pb \<le> s \<Longrightarrow> wf_pack (grow s pb) \<and> contents (grow s pb) = contents pb"
  by (auto simp: wf_pack_def grow_def contents_def)

lemma pack_bytes_appends:
  assumes "wf_pack pb" "enlarges f (length bs) pb"
  shows "\<exists>pb'. pack_bytes f bs pb = Some (PACK_SUCCESS, pb') \<and> appends bs pb pb'"
proof -
  have f: "wf_pack (f pb)" "contents (f pb) = contents pb" "bytes_used (f pb) = bytes_used pb"
    "bytes_used pb + length bs \<le> mem_size (f pb)" "mem_size (f pb) \<le> max (mem_size pb) (bytes_used pb + length bs + CHUNK)"
    "version (f pb) = version pb" "auth_info (f pb) = auth_info pb"
    using assms grow_wf[of pb] by (auto simp: enlarges_def grow_def wf_pack_def)
  have m: "length (mem (f pb)) = mem_size (f pb)" "cur_ptr (f pb) = bytes_used pb" "\<not> just_count (f pb)"
    using f(1,3) by (simp_all add: wf_pack_def)
  let ?mem = "take (bytes_used pb) (mem (f pb)) @ bs @ drop (bytes_used pb + length bs) (mem (f pb))"
  let ?pb = "f pb\<lparr>mem := ?mem, cur_ptr := bytes_used pb + length bs, bytes_used := bytes_used pb + length bs\<rparr>"
  have "\<not> just_count pb" using assms(1) by (simp add: wf_pack_def)
  then have r: "pack_bytes f bs pb = Some (PACK_SUCCESS, ?pb)"
    using f(3,4) m by (simp add: pack_bytes_def store_def)
  have "take (bytes_used pb) (mem (f pb)) = contents pb" "length (contents pb) = bytes_used pb"
    using f(2-4) m(1) assms(1) by (simp_all add: contents_def wf_pack_def)
  moreover have "contents ?pb = take (bytes_used pb + length bs) ?mem" by (simp add: contents_def)
  ultimately have "appends bs pb ?pb" using f m unfolding appends_def by (simp add: wf_pack_def)
  then show ?thesis using r by blast
qed

lemma enlarges_once: "wf_pack pb \<Longrightarrow> n \<le> CHUNK \<Longrightarrow> enlarges (grow_once n) n pb"
  by (auto simp: enlarges_def grow_once_def wf_pack_def)

lemma grown_size_bounds: "need \<le> grown_size need s" "s \<le> grown_size need s" "s \<le> need \<Longrightarrow> grown_size need s \<le> need + CHUNK"
proof (induction need s rule: grown_size.induct)
  case (1 need s)
  { case 1 then show ?case using "1.IH"(1) by (subst grown_size.simps) auto }
  { case 2 then show ?case using "1.IH"(2) by (subst grown_size.simps) auto }
  { case 3
    show ?case
    proof (cases "need > s")
      case True
      show ?thesis
      proof (cases "s + CHUNK \<le> need")
        case True
        then show ?thesis using "1.IH"(3) \<open>need > s\<close> by (subst grown_size.simps) simp
      next
        case False
        then have "grown_size need (s + CHUNK) = s + CHUNK" by (subst grown_size.simps) simp
        then show ?thesis using \<open>need > s\<close> by (subst grown_size.simps) simp
      qed
    qed (subst grown_size.simps, use 3 in simp) }
qed

lemma enlarges_to: "wf_pack pb \<Longrightarrow> enlarges (grow_to n) n pb"
  using grown_size_bounds[where need = "bytes_used pb + n" and s = "mem_size pb"]
  by (auto simp: enlarges_def grow_to_def wf_pack_def intro!: exI[of _ "grown_size (bytes_used pb + n) (mem_size pb)"])

lemma pack_bytes_counts: "just_count pb \<Longrightarrow> pack_bytes f bs pb = Some (PACK_SUCCESS, pb\<lparr>bytes_used := bytes_used pb + length bs\<rparr>)"
  by (simp add: pack_bytes_def)

section \<open>Reading\<close>

lemma wf_load: "wf_pack pb \<Longrightarrow> load n pb = (if n \<le> length (rest pb) then Some (take n (rest pb)) else None)"
  by (auto simp: wf_pack_def load_def rest_def)

definition advance :: "nat \<Rightarrow> sge_pack_buffer \<Rightarrow> sge_pack_buffer" where
  "advance n pb = pb\<lparr>cur_ptr := cur_ptr pb + n, bytes_used := bytes_used pb + n\<rparr>"

lemma wf_advance: "wf_pack pb \<Longrightarrow> n \<le> length (rest pb) \<Longrightarrow> wf_pack (advance n pb) \<and> rest (advance n pb) = drop n (rest pb)"
  by (auto simp: wf_pack_def advance_def rest_def add.commute)

lemma wf_room: "wf_pack pb \<Longrightarrow> bytes_used pb + n > mem_size pb \<longleftrightarrow> length (rest pb) < n"
  "wf_pack pb \<Longrightarrow> mem_size pb - bytes_used pb = length (rest pb)"
  "wf_pack pb \<Longrightarrow> n + bytes_used pb > mem_size pb \<longleftrightarrow> length (rest pb) < n"
  by (auto simp: wf_pack_def rest_def)

lemma unpack_simps:
  assumes "wf_pack pb"
  shows "unpackint pb = Some (if length (rest pb) < INTSIZE then (PACK_FORMAT, 0, pb)
      else (PACK_SUCCESS, host_word (take INTSIZE (rest pb)), advance INTSIZE pb))"
    "unpackint64 pb = Some (if length (rest pb) < INTSIZE * 2 then (PACK_FORMAT, 0, pb)
      else (PACK_SUCCESS, host_word (take (INTSIZE * 2) (rest pb)), advance (INTSIZE * 2) pb))"
    "unpackdouble pb = Some (if length (rest pb) < DOUBLESIZE then (PACK_FORMAT, 0, pb)
      else (PACK_SUCCESS, host_word (take DOUBLESIZE (rest pb)), advance DOUBLESIZE pb))"
    "unpackbuf n pb = Some (if length (rest pb) < n then (PACK_FORMAT, [], pb) else (PACK_SUCCESS, take n (rest pb), advance n pb))"
  unfolding unpackint_def unpackint64_def unpackdouble_def unpackbuf_def wf_room(1,3)[OF assms] wf_load[OF assms] advance_def
  by (auto simp: DOUBLESIZE_def INTSIZE_def)

lemma unpackstr_simp:
  assumes "wf_pack pb"
  shows "unpackstr pb = Some (
    if 0 \<notin> set (rest pb) then (PACK_FORMAT, None, pb)
    else let text = takeWhile (\<lambda>b. b \<noteq> 0) (rest pb) in
      (PACK_SUCCESS, if text = [] then None else Some (string_of_bytes text), advance (length text + 1) pb))"
proof (cases "rest pb")
  case Nil
  then show ?thesis using wf_room(2)[OF assms] by (simp add: unpackstr_def)
next
  case (Cons b bs)
  have l: "load 1 pb = Some [b]" "load (length (rest pb)) pb = Some (rest pb)"
    using wf_load[OF assms] Cons by simp_all
  show ?thesis
    unfolding unpackstr_def wf_room(2)[OF assms] using l Cons by (auto simp: Let_def advance_def)
qed

section \<open>Values and sequences of values\<close>

fun pack_all :: "('a \<Rightarrow> sge_pack_buffer \<Rightarrow> (pack_result \<times> sge_pack_buffer) option) \<Rightarrow> 'a list \<Rightarrow> sge_pack_buffer \<Rightarrow>
    (pack_result \<times> sge_pack_buffer) option" where
  "pack_all pack [] pb = Some (PACK_SUCCESS, pb)"
| "pack_all pack (x # xs) pb =
     do { (ret, pb1) \<leftarrow> pack x pb; if ret \<noteq> PACK_SUCCESS then Some (ret, pb1) else pack_all pack xs pb1 }"

fun unpack_all :: "('k \<Rightarrow> sge_pack_buffer \<Rightarrow> (pack_result \<times> 'a \<times> sge_pack_buffer) option) \<Rightarrow> 'k list \<Rightarrow> sge_pack_buffer \<Rightarrow>
    (pack_result \<times> 'a list \<times> sge_pack_buffer) option" where
  "unpack_all unpack [] pb = Some (PACK_SUCCESS, [], pb)"
| "unpack_all unpack (k # ks) pb =
     do { (ret, x, pb1) \<leftarrow> unpack k pb;
          if ret \<noteq> PACK_SUCCESS then Some (ret, [], pb1)
          else do { (ret', xs, pb2) \<leftarrow> unpack_all unpack ks pb1; Some (ret', x # xs, pb2) } }"

definition room :: "nat \<Rightarrow> sge_pack_buffer \<Rightarrow> bool" where
  "room n pb \<longleftrightarrow> bytes_used pb + n + CHUNK < u32_mod \<and> mem_size pb < u32_mod"

locale codec =
  fixes enc :: "'a \<Rightarrow> byte list"
    and kind :: "'a \<Rightarrow> 'k"
    and norm :: "'a \<Rightarrow> 'a"
    and valid :: "'a \<Rightarrow> bool"
    and pack :: "'a \<Rightarrow> sge_pack_buffer \<Rightarrow> (pack_result \<times> sge_pack_buffer) option"
    and unpack :: "'k \<Rightarrow> sge_pack_buffer \<Rightarrow> (pack_result \<times> 'a \<times> sge_pack_buffer) option"
  assumes pack: "wf_pack pb \<Longrightarrow> valid x \<Longrightarrow> room (length (enc x)) pb \<Longrightarrow>
      \<exists>pb'. pack x pb = Some (PACK_SUCCESS, pb') \<and> appends (enc x) pb pb'"
    and count: "just_count pb \<Longrightarrow> pack x pb = Some (PACK_SUCCESS, pb\<lparr>bytes_used := bytes_used pb + length (enc x)\<rparr>)"
    and unpack: "wf_pack pb \<Longrightarrow> valid x \<Longrightarrow> rest pb = enc x @ r \<Longrightarrow>
      unpack (kind x) pb = Some (PACK_SUCCESS, norm x, advance (length (enc x)) pb)"
    and safe: "wf_pack pb \<Longrightarrow> \<exists>ret x n. unpack k pb = Some (ret, x, advance n pb) \<and> n \<le> length (rest pb)"
begin

definition enc_all :: "'a list \<Rightarrow> byte list" where
  "enc_all xs = concat (map enc xs)"

lemma pack_all_appends:
  "wf_pack pb \<Longrightarrow> list_all valid xs \<Longrightarrow> bytes_used pb + length (enc_all xs) + CHUNK < u32_mod \<Longrightarrow> mem_size pb < u32_mod \<Longrightarrow>
   \<exists>pb'. pack_all pack xs pb = Some (PACK_SUCCESS, pb') \<and> wf_pack pb' \<and> contents pb' = contents pb @ enc_all xs \<and>
     version pb' = version pb \<and> auth_info pb' = auth_info pb"
proof (induction xs arbitrary: pb)
  case (Cons x xs)
  have "room (length (enc x)) pb" using Cons.prems(3,4) by (simp add: room_def enc_all_def)
  then obtain pb1 where p: "pack x pb = Some (PACK_SUCCESS, pb1)" "appends (enc x) pb pb1"
    using pack[of pb x] Cons.prems by auto
  then have "wf_pack pb1" "bytes_used pb1 + length (enc_all xs) + CHUNK < u32_mod" "mem_size pb1 < u32_mod"
    using Cons.prems(3,4) by (auto simp: appends_def enc_all_def)
  then obtain pb' where "pack_all pack xs pb1 = Some (PACK_SUCCESS, pb')" "wf_pack pb'" "contents pb' = contents pb1 @ enc_all xs"
    "version pb' = version pb1" "auth_info pb' = auth_info pb1"
    using Cons.IH[of pb1] Cons.prems(2) by auto
  then show ?case using p by (simp add: appends_def enc_all_def)
qed (simp add: enc_all_def)

lemma pack_all_counts:
  "just_count pb \<Longrightarrow> pack_all pack xs pb = Some (PACK_SUCCESS, pb\<lparr>bytes_used := bytes_used pb + length (enc_all xs)\<rparr>)"
proof (induction xs arbitrary: pb)
  case (Cons x xs)
  then show ?case using count[of pb x] Cons.IH[of "pb\<lparr>bytes_used := bytes_used pb + length (enc x)\<rparr>"] by (simp add: enc_all_def add.assoc)
qed (simp add: enc_all_def)

lemma unpack_all_reads:
  "wf_pack pb \<Longrightarrow> list_all valid xs \<Longrightarrow> rest pb = enc_all xs @ r \<Longrightarrow>
   \<exists>pb'. unpack_all unpack (map kind xs) pb = Some (PACK_SUCCESS, map norm xs, pb') \<and> wf_pack pb' \<and> rest pb' = r"
proof (induction xs arbitrary: pb)
  case (Cons x xs)
  have r: "rest pb = enc x @ (enc_all xs @ r)" using Cons.prems(3) by (simp add: enc_all_def)
  then have u: "unpack (kind x) pb = Some (PACK_SUCCESS, norm x, advance (length (enc x)) pb)"
    using unpack[of pb x] Cons.prems by simp
  have "wf_pack (advance (length (enc x)) pb)" "rest (advance (length (enc x)) pb) = enc_all xs @ r"
    using wf_advance[of pb "length (enc x)"] Cons.prems(1) r by simp_all
  then show ?case using Cons.IH[of "advance (length (enc x)) pb"] Cons.prems(2) u by auto
qed (simp add: enc_all_def)

lemma unpack_all_safe:
  "wf_pack pb \<Longrightarrow> \<exists>ret xs pb'. unpack_all unpack ks pb = Some (ret, xs, pb') \<and> wf_pack pb' \<and> mem pb' = mem pb"
proof (induction ks arbitrary: pb)
  case (Cons k ks)
  obtain ret x n where u: "unpack k pb = Some (ret, x, advance n pb)" "n \<le> length (rest pb)" using safe[OF Cons.prems] by blast
  have w: "wf_pack (advance n pb)" using wf_advance Cons.prems u(2) by blast
  have "mem (advance n pb) = mem pb" by (simp add: advance_def)
  then show ?case using Cons.IH[OF w] u(1) w by (cases "ret = PACK_SUCCESS") auto
qed simp

end

section \<open>The types of the library\<close>

lemma advance_0 [simp]: "advance 0 pb = pb"
  by (simp add: advance_def)

lemma sizes_le: "INTSIZE \<le> CHUNK" "INTSIZE * 2 \<le> CHUNK" "DOUBLESIZE \<le> CHUNK" "1 \<le> CHUNK"
  by (simp_all add: INTSIZE_def DOUBLESIZE_def CHUNK_def)

lemma ex_advance: "f = Some (if b then (r, x, pb) else (r', x', advance n pb)) \<Longrightarrow> (\<not> b \<Longrightarrow> n \<le> length (rest pb)) \<Longrightarrow>
    \<exists>ret x n. f = Some (ret, x, advance n pb) \<and> n \<le> length (rest pb)"
  using advance_0[of pb] by (cases b) (auto intro: exI[of _ 0])

definition enc_str :: "string option \<Rightarrow> byte list" where
  "enc_str s = (case s of None \<Rightarrow> [0] | Some t \<Rightarrow> bytes_of_string t @ [0])"

definition norm_str :: "string option \<Rightarrow> string option" where
  \<comment> \<open>an empty string is read back as the null pointer\<close>
  "norm_str s = (if s = Some [] then None else s)"

definition valid_str :: "string option \<Rightarrow> bool" where
  "valid_str s \<longleftrightarrow> (case s of None \<Rightarrow> True | Some t \<Rightarrow> CHR 0x00 \<notin> set t)"

lemma packbuf_enlarges:
  assumes "wf_pack pb" "length buf \<le> CHUNK" "room (length buf) pb"
  shows "enlarges (\<lambda>pb. if add32 (length buf) (bytes_used pb mod u32_mod) > mem_size pb mod u32_mod
             then grow (mem_size pb + CHUNK) pb else pb) (length buf) pb"
proof -
  have "bytes_used pb \<le> mem_size pb" using assms(1) by (simp add: wf_pack_def)
  then have "add32 (length buf) (bytes_used pb mod u32_mod) = length buf + bytes_used pb" "mem_size pb mod u32_mod = mem_size pb"
    using assms(3) by (simp_all add: room_def add32_exact)
  then show ?thesis using assms(2) \<open>bytes_used pb \<le> mem_size pb\<close> unfolding enlarges_def by auto
qed

lemma text_before_zero: "0 \<notin> set xs \<Longrightarrow> takeWhile (\<lambda>b. b \<noteq> 0) (xs @ 0 # ys) = xs"
  by (induction xs) auto

lemma zero_within: "0 \<in> set xs \<Longrightarrow> length (takeWhile (\<lambda>b. b \<noteq> 0) xs) + 1 \<le> length xs"
  by (induction xs) auto

lemma unpackstr_reads:
  assumes "wf_pack pb" "valid_str s" "rest pb = enc_str s @ r"
  shows "unpackstr pb = Some (PACK_SUCCESS, norm_str s, advance (length (enc_str s)) pb)"
proof (cases s)
  case None
  then show ?thesis using assms by (simp add: unpackstr_simp enc_str_def norm_str_def)
next
  case (Some t)
  then have z: "0 \<notin> set (bytes_of_string t)" using assms(2) bytes_no_zero by (simp add: valid_str_def)
  then have "takeWhile (\<lambda>b. b \<noteq> 0) (bytes_of_string t @ 0 # r) = bytes_of_string t" by (rule text_before_zero)
  moreover have "bytes_of_string t = [] \<longleftrightarrow> t = []" by (simp add: bytes_of_string_def)
  ultimately show ?thesis using assms(1,3) Some by (simp add: unpackstr_simp enc_str_def norm_str_def Let_def)
qed

lemma unpackstr_safe: "wf_pack pb \<Longrightarrow> \<exists>ret x n. unpackstr pb = Some (ret, x, advance n pb) \<and> n \<le> length (rest pb)"
proof -
  assume wf: "wf_pack pb"
  show ?thesis
    unfolding unpackstr_simp[OF wf] Let_def by (intro ex_advance[OF refl] zero_within) simp
qed

interpretation c_int: codec "net_bytes INTSIZE" "\<lambda>_. ()" "\<lambda>i. i" "\<lambda>_. True" packint "\<lambda>_. unpackint"
proof unfold_locales
  fix pb :: sge_pack_buffer and x r
  show "wf_pack pb \<Longrightarrow> \<exists>pb'. packint x pb = Some (PACK_SUCCESS, pb') \<and> appends (net_bytes INTSIZE x) pb pb'"
    unfolding packint_def using pack_bytes_appends[of pb "grow_once INTSIZE" "net_bytes INTSIZE x"] enlarges_once sizes_le by simp
  show "just_count pb \<Longrightarrow> packint x pb = Some (PACK_SUCCESS, pb\<lparr>bytes_used := bytes_used pb + length (net_bytes INTSIZE x)\<rparr>)"
    by (simp add: packint_def pack_bytes_counts)
  show "wf_pack pb \<Longrightarrow> rest pb = net_bytes INTSIZE x @ r \<Longrightarrow>
      unpackint pb = Some (PACK_SUCCESS, x, advance (length (net_bytes INTSIZE x)) pb)"
    by (simp add: unpack_simps)
  show "wf_pack pb \<Longrightarrow> \<exists>ret x n. unpackint pb = Some (ret, x, advance n pb) \<and> n \<le> length (rest pb)"
    unfolding unpack_simps by (rule ex_advance[OF refl]) simp
qed

interpretation c_int64: codec "net_bytes (INTSIZE * 2)" "\<lambda>_. ()" "\<lambda>i. i" "\<lambda>_. True" packint64 "\<lambda>_. unpackint64"
proof unfold_locales
  fix pb :: sge_pack_buffer and x r
  show "wf_pack pb \<Longrightarrow> \<exists>pb'. packint64 x pb = Some (PACK_SUCCESS, pb') \<and> appends (net_bytes (INTSIZE * 2) x) pb pb'"
    unfolding packint64_def
    using pack_bytes_appends[of pb "grow_once (INTSIZE * 2)" "net_bytes (INTSIZE * 2) x"] enlarges_once sizes_le by simp
  show "just_count pb \<Longrightarrow> packint64 x pb = Some (PACK_SUCCESS, pb\<lparr>bytes_used := bytes_used pb + length (net_bytes (INTSIZE * 2) x)\<rparr>)"
    by (simp add: packint64_def pack_bytes_counts)
  show "wf_pack pb \<Longrightarrow> rest pb = net_bytes (INTSIZE * 2) x @ r \<Longrightarrow>
      unpackint64 pb = Some (PACK_SUCCESS, x, advance (length (net_bytes (INTSIZE * 2) x)) pb)"
    by (simp add: unpack_simps)
  show "wf_pack pb \<Longrightarrow> \<exists>ret x n. unpackint64 pb = Some (ret, x, advance n pb) \<and> n \<le> length (rest pb)"
    unfolding unpack_simps by (rule ex_advance[OF refl]) simp
qed

interpretation c_double: codec "net_bytes DOUBLESIZE" "\<lambda>_. ()" "\<lambda>i. i" "\<lambda>_. True" packdouble "\<lambda>_. unpackdouble"
proof unfold_locales
  fix pb :: sge_pack_buffer and x r
  show "wf_pack pb \<Longrightarrow> \<exists>pb'. packdouble x pb = Some (PACK_SUCCESS, pb') \<and> appends (net_bytes DOUBLESIZE x) pb pb'"
    unfolding packdouble_def
    using pack_bytes_appends[of pb "grow_once DOUBLESIZE" "net_bytes DOUBLESIZE x"] enlarges_once sizes_le by simp
  show "just_count pb \<Longrightarrow> packdouble x pb = Some (PACK_SUCCESS, pb\<lparr>bytes_used := bytes_used pb + length (net_bytes DOUBLESIZE x)\<rparr>)"
    by (simp add: packdouble_def pack_bytes_counts)
  show "wf_pack pb \<Longrightarrow> rest pb = net_bytes DOUBLESIZE x @ r \<Longrightarrow>
      unpackdouble pb = Some (PACK_SUCCESS, x, advance (length (net_bytes DOUBLESIZE x)) pb)"
    by (simp add: unpack_simps)
  show "wf_pack pb \<Longrightarrow> \<exists>ret x n. unpackdouble pb = Some (ret, x, advance n pb) \<and> n \<le> length (rest pb)"
    unfolding unpack_simps by (rule ex_advance[OF refl]) simp
qed

interpretation c_str: codec enc_str "\<lambda>_. ()" norm_str valid_str packstr "\<lambda>_. unpackstr"
proof unfold_locales
  fix pb :: sge_pack_buffer and x r
  show "wf_pack pb \<Longrightarrow> \<exists>pb'. packstr x pb = Some (PACK_SUCCESS, pb') \<and> appends (enc_str x) pb pb'"
    using pack_bytes_appends[of pb "grow_once 1" "[0]"] enlarges_once[of pb 1] sizes_le
      pack_bytes_appends[of pb "grow_to (length (the x) + 1)" "bytes_of_string (the x) @ [0]"] enlarges_to[of pb "length (the x) + 1"]
    by (cases x) (simp_all add: packstr_def enc_str_def Let_def)
  show "just_count pb \<Longrightarrow> packstr x pb = Some (PACK_SUCCESS, pb\<lparr>bytes_used := bytes_used pb + length (enc_str x)\<rparr>)"
    by (cases x) (simp_all add: packstr_def enc_str_def pack_bytes_counts Let_def)
qed (use unpackstr_reads unpackstr_safe in blast)+

interpretation c_buf: codec "\<lambda>b. b" length "\<lambda>b. b" "\<lambda>b. length b \<le> CHUNK" packbuf unpackbuf
proof unfold_locales
  fix pb :: sge_pack_buffer and x r :: "byte list" and k
  show "wf_pack pb \<Longrightarrow> length x \<le> CHUNK \<Longrightarrow> room (length x) pb \<Longrightarrow> \<exists>pb'. packbuf x pb = Some (PACK_SUCCESS, pb') \<and> appends x pb pb'"
    unfolding packbuf_def by (rule pack_bytes_appends) (auto intro: packbuf_enlarges)
  show "just_count pb \<Longrightarrow> packbuf x pb = Some (PACK_SUCCESS, pb\<lparr>bytes_used := bytes_used pb + length x\<rparr>)"
    by (simp add: packbuf_def pack_bytes_counts)
  show "wf_pack pb \<Longrightarrow> rest pb = x @ r \<Longrightarrow> unpackbuf (length x) pb = Some (PACK_SUCCESS, x, advance (length x) pb)"
    by (simp add: unpack_simps)
  show "wf_pack pb \<Longrightarrow> \<exists>ret x n. unpackbuf k pb = Some (ret, x, advance n pb) \<and> n \<le> length (rest pb)"
    unfolding unpack_simps by (rule ex_advance[OF refl]) simp
qed

end
