(* ===== verification/PackBuffer_Props.thy ===== *)
theory PackBuffer_Props
  imports PackBuffer_Correct
begin

text \<open>
  Whole messages: a buffer with its header, values of all types, and the buffer of the receiver made of the
  bytes of the sender.
\<close>

section \<open>Values of mixed types\<close>

datatype item = V_int "32 word" | V_int64 "64 word" | V_double "64 word" | V_str "string option" | V_buf "byte list"

datatype item_kind = K_int | K_int64 | K_double | K_str | K_buf nat

fun kind_of :: "item \<Rightarrow> item_kind" where
  "kind_of (V_int i) = K_int"
| "kind_of (V_int64 i) = K_int64"
| "kind_of (V_double d) = K_double"
| "kind_of (V_str t) = K_str"
| "kind_of (V_buf b) = K_buf (length b)"

fun item_bytes :: "item \<Rightarrow> byte list" where
  "item_bytes (V_int i) = net_bytes INTSIZE i"
| "item_bytes (V_int64 i) = net_bytes (INTSIZE * 2) i"
| "item_bytes (V_double d) = net_bytes DOUBLESIZE d"
| "item_bytes (V_str t) = enc_str t"
| "item_bytes (V_buf b) = b"

fun item_read :: "item \<Rightarrow> item" where
  "item_read (V_str t) = V_str (norm_str t)"
| "item_read x = x"

fun item_valid :: "item \<Rightarrow> bool" where
  "item_valid (V_str t) = valid_str t"
| "item_valid (V_buf b) = (length b \<le> CHUNK)"
| "item_valid _ = True"

fun pack_item :: "item \<Rightarrow> sge_pack_buffer \<Rightarrow> (pack_result \<times> sge_pack_buffer) option" where
  "pack_item (V_int i) pb = packint i pb"
| "pack_item (V_int64 i) pb = packint64 i pb"
| "pack_item (V_double d) pb = packdouble d pb"
| "pack_item (V_str t) pb = packstr t pb"
| "pack_item (V_buf b) pb = packbuf b pb"

definition as_item :: "('a \<Rightarrow> item) \<Rightarrow> (pack_result \<times> 'a \<times> sge_pack_buffer) option \<Rightarrow> (pack_result \<times> item \<times> sge_pack_buffer) option" where
  "as_item f = map_option (\<lambda>(ret, x, pb). (ret, f x, pb))"

fun unpack_item :: "item_kind \<Rightarrow> sge_pack_buffer \<Rightarrow> (pack_result \<times> item \<times> sge_pack_buffer) option" where
  "unpack_item K_int pb = as_item V_int (unpackint pb)"
| "unpack_item K_int64 pb = as_item V_int64 (unpackint64 pb)"
| "unpack_item K_double pb = as_item V_double (unpackdouble pb)"
| "unpack_item K_str pb = as_item V_str (unpackstr pb)"
| "unpack_item (K_buf n) pb = as_item V_buf (unpackbuf n pb)"

lemma as_item_Some [simp]: "as_item f (Some (ret, x, pb)) = Some (ret, f x, pb)"
  by (simp add: as_item_def)

lemma as_item_safe: "\<exists>ret x n. g = Some (ret, x, advance n pb) \<and> n \<le> length (rest pb) \<Longrightarrow>
    \<exists>ret x n. as_item f g = Some (ret, x, advance n pb) \<and> n \<le> length (rest pb)"
  by auto

interpretation c_item: codec item_bytes kind_of item_read item_valid pack_item unpack_item
proof unfold_locales
  fix pb :: sge_pack_buffer and x r k
  show "wf_pack pb \<Longrightarrow> item_valid x \<Longrightarrow> room (length (item_bytes x)) pb \<Longrightarrow>
      \<exists>pb'. pack_item x pb = Some (PACK_SUCCESS, pb') \<and> appends (item_bytes x) pb pb'"
    using c_int.pack c_int64.pack c_double.pack c_str.pack c_buf.pack by (cases x) simp_all
  show "just_count pb \<Longrightarrow> pack_item x pb = Some (PACK_SUCCESS, pb\<lparr>bytes_used := bytes_used pb + length (item_bytes x)\<rparr>)"
    using c_int.count c_int64.count c_double.count c_str.count c_buf.count by (cases x) simp_all
  show "wf_pack pb \<Longrightarrow> item_valid x \<Longrightarrow> rest pb = item_bytes x @ r \<Longrightarrow>
      unpack_item (kind_of x) pb = Some (PACK_SUCCESS, item_read x, advance (length (item_bytes x)) pb)"
    using c_int.unpack c_int64.unpack c_double.unpack c_str.unpack c_buf.unpack by (cases x) simp_all
  show "wf_pack pb \<Longrightarrow> \<exists>ret x n. unpack_item k pb = Some (ret, x, advance n pb) \<and> n \<le> length (rest pb)"
    using c_int.safe c_int64.safe c_double.safe c_str.safe c_buf.safe by (cases k) (simp_all add: as_item_safe)
qed


section \<open>The header\<close>

definition header :: "string option \<Rightarrow> byte list" where
  "header info = net_bytes INTSIZE (0 :: 32 word) @ net_bytes INTSIZE CULL_VERSION @ enc_str info"

definition first_size :: "nat \<Rightarrow> string option \<Rightarrow> nat" where
  "first_size initial_size info =
     (if initial_size = 0 then CHUNK else initial_size + 2 * INTSIZE) + (case info of Some t \<Rightarrow> length t + 1 | None \<Rightarrow> 1)"

text \<open>A fresh buffer holds exactly the header.\<close>

lemma init_packbuffer_header:
  assumes "with_auth_info \<longrightarrow> auth \<noteq> None" "info = (if with_auth_info then auth else None)"
    "valid_str info" "length (header info) + CHUNK < u32_mod" "first_size n info < u32_mod"
  shows "\<exists>pb. init_packbuffer auth n False with_auth_info = Some (PACK_SUCCESS, pb) \<and> wf_pack pb \<and> contents pb = header info \<and>
     version pb = CULL_VERSION \<and> auth_info pb = info \<and> mem_size pb < u32_mod"
proof -
  define pb where "pb = cleared\<lparr>auth_info := info, mem := replicate (first_size n info) 0, mem_size := first_size n info, version := CULL_VERSION\<rparr>"
  have wf: "wf_pack pb" "contents pb = []" by (simp_all add: pb_def wf_pack_def contents_def cleared_def)
  have used: "bytes_used pb = 0" by (simp add: pb_def cleared_def)
  have ms: "mem_size pb = first_size n info" "version pb = CULL_VERSION" "auth_info pb = info" by (simp_all add: pb_def cleared_def)
  obtain pb1 where p1: "packint 0 pb = Some (PACK_SUCCESS, pb1)" "appends (net_bytes INTSIZE (0 :: 32 word)) pb pb1"
    using c_int.pack[of pb 0] wf(1) assms(4,5) ms used by (auto simp: room_def header_def)
  then have w1: "wf_pack pb1" "version pb1 = CULL_VERSION" "auth_info pb1 = info" "mem_size pb1 < u32_mod" "bytes_used pb1 = INTSIZE"
    using ms assms(4,5) used by (auto simp: appends_def header_def)
  obtain pb2 where p2: "packint CULL_VERSION pb1 = Some (PACK_SUCCESS, pb2)" "appends (net_bytes INTSIZE CULL_VERSION) pb1 pb2"
    using c_int.pack[of pb1 CULL_VERSION] w1 assms(4) ms by (auto simp: room_def header_def)
  then have w2: "wf_pack pb2" "version pb2 = CULL_VERSION" "auth_info pb2 = info" "mem_size pb2 < u32_mod" "bytes_used pb2 = 2 * INTSIZE"
    using w1 assms(4) by (auto simp: appends_def header_def)
  obtain pb3 where p3: "packstr info pb2 = Some (PACK_SUCCESS, pb3)" "appends (enc_str info) pb2 pb3"
    using c_str.pack[of pb2 info] w1 w2 assms(3,4) ms by (auto simp: room_def header_def)
  have "init_packbuffer auth n False with_auth_info = Some (PACK_SUCCESS, pb3)"
    using assms(1,2) p1(1) p2(1) p3(1) w1(2) w2(3) unfolding init_packbuffer_def Let_def
    by (simp add: pb_def first_size_def)
  moreover have "contents pb3 = header info"
    using p1(2) p2(2) p3(2) wf(2) by (simp add: appends_def header_def)
  moreover have "mem_size pb3 < u32_mod"
    using p3(2) w2(4,5) assms(4) by (auto simp: appends_def header_def)
  ultimately show ?thesis using p3(2) w2 by (auto simp: appends_def)
qed


text \<open>The receiver reads the header back and is left with the values.\<close>

lemma from_buffer_reads_header:
  assumes "valid_str info" "with_auth_info \<longrightarrow> parse (norm_str info)"
  shows "\<exists>pb. init_packbuffer_from_buffer parse (header info @ r) with_auth_info = Some (PACK_SUCCESS, pb) \<and> wf_pack pb \<and> rest pb = r \<and>
     version pb = CULL_VERSION \<and> auth_info pb = norm_str info"
proof -
  define pb where "pb = cleared\<lparr>mem := header info @ r, mem_size := length (header info @ r)\<rparr>"
  have wf: "wf_pack pb" "rest pb = net_bytes INTSIZE (0 :: 32 word) @ net_bytes INTSIZE CULL_VERSION @ enc_str info @ r"
    by (simp_all add: pb_def wf_pack_def rest_def cleared_def header_def)
  define pb1 where "pb1 = advance INTSIZE pb"
  define pb2 where "pb2 = advance INTSIZE pb1"
  define pb3 where "pb3 = advance (length (enc_str info)) pb2"
  have u1: "unpackint pb = Some (PACK_SUCCESS, 0, pb1)" using c_int.unpack[OF wf(1) TrueI wf(2)] by (simp add: pb1_def)
  have w1: "wf_pack pb1" "rest pb1 = net_bytes INTSIZE CULL_VERSION @ enc_str info @ r"
    using wf_advance[OF wf(1), of INTSIZE] wf(2) by (simp_all add: pb1_def)
  have u2: "unpackint pb1 = Some (PACK_SUCCESS, CULL_VERSION, pb2)" using c_int.unpack[OF w1(1) TrueI w1(2)] by (simp add: pb2_def)
  have w2: "wf_pack pb2" "rest pb2 = enc_str info @ r"
    using wf_advance[OF w1(1), of INTSIZE] w1(2) by (simp_all add: pb2_def)
  have u3: "unpackstr pb2 = Some (PACK_SUCCESS, norm_str info, pb3)" using c_str.unpack[OF w2(1) assms(1) w2(2)] by (simp add: pb3_def)
  have w3: "wf_pack pb3" "rest pb3 = r" using wf_advance[OF w2(1), of "length (enc_str info)"] w2(2) by (simp_all add: pb3_def)
  have "header info \<noteq> []" by (simp add: header_def enc_str_def split: option.splits)
  then have "init_packbuffer_from_buffer parse (header info @ r) with_auth_info =
      Some (PACK_SUCCESS, pb3\<lparr>auth_info := norm_str info, version := CULL_VERSION\<rparr>)"
    using u1 u2 u3 assms(2) unfolding init_packbuffer_from_buffer_def pb_def[symmetric] by (simp add: Let_def)
  then show ?thesis using w3 by (simp add: wf_pack_def rest_def)
qed

lemma from_buffer_safe:
  "\<exists>ret pb. init_packbuffer_from_buffer parse buf with_auth_info = Some (ret, pb) \<and> wf_pack pb \<and> mem pb = buf"
proof -
  define pb where "pb = cleared\<lparr>mem := buf, mem_size := length buf\<rparr>"
  have "wf_pack pb" by (simp add: pb_def wf_pack_def cleared_def)
  then obtain r1 pad n1 where u1: "unpackint pb = Some (r1, pad, advance n1 pb)" and w1: "wf_pack (advance n1 pb)"
    using c_int.safe[of pb] wf_advance by blast
  then obtain r2 ver n2 where u2: "unpackint (advance n1 pb) = Some (r2, ver, advance n2 (advance n1 pb))" and
      w2: "wf_pack (advance n2 (advance n1 pb))"
    using c_int.safe[of "advance n1 pb"] wf_advance by blast
  then obtain r3 info n3 where u3: "unpackstr (advance n2 (advance n1 pb)) = Some (r3, info, advance n3 (advance n2 (advance n1 pb)))" and
      w3: "wf_pack (advance n3 (advance n2 (advance n1 pb)))"
    using c_str.safe[of "advance n2 (advance n1 pb)"] wf_advance by blast
  have upd: "wf_pack (p\<lparr>auth_info := a\<rparr>) = wf_pack p" "wf_pack (p\<lparr>version := v\<rparr>) = wf_pack p" for p a v
    by (simp_all add: wf_pack_def)
  have m: "mem pb = buf" "mem (advance n p) = mem p" for n p by (simp_all add: pb_def advance_def)
  show ?thesis
    using w1 w2 w3 \<open>wf_pack pb\<close> unfolding init_packbuffer_from_buffer_def pb_def[symmetric] u1 Let_def
    by (simp add: u1 u2 u3 upd m)
qed


section \<open>Messages\<close>

definition message_size :: "nat \<Rightarrow> string option \<Rightarrow> item list \<Rightarrow> nat" where
  \<comment> \<open>a bound on the memory that packing the message allocates: the memory of the fresh buffer, or the bytes
     of the message and one chunk\<close>
  "message_size n info xs =
     max (first_size n info) (length (header info) + (\<Sum>x\<leftarrow>xs. length (item_bytes x)) + CHUNK)"

lemma message_packed:
  assumes "with_auth_info \<longrightarrow> auth \<noteq> None" "info = (if with_auth_info then auth else None)" "valid_str info"
    "list_all item_valid xs" "message_size n info xs < u32_mod"
  shows "\<exists>pb pb'. init_packbuffer auth n False with_auth_info = Some (PACK_SUCCESS, pb) \<and>
     pack_all pack_item xs pb = Some (PACK_SUCCESS, pb') \<and> wf_pack pb' \<and> contents pb' = header info @ c_item.enc_all xs \<and>
     bytes_used pb = length (header info)"
proof -
  have n: "message_size n info xs = max (first_size n info) (length (header info) + length (c_item.enc_all xs) + CHUNK)"
    by (simp add: message_size_def c_item.enc_all_def length_concat comp_def)
  then obtain pb where pb: "init_packbuffer auth n False with_auth_info = Some (PACK_SUCCESS, pb)" "wf_pack pb" "contents pb = header info"
      "mem_size pb < u32_mod"
    using init_packbuffer_header[OF assms(1-3), of n] assms(5) by auto
  have used: "bytes_used pb = length (header info)" using pb(2) unfolding pb(3)[symmetric] by (simp add: wf_pack_def contents_def)
  then have "bytes_used pb + length (c_item.enc_all xs) + CHUNK < u32_mod" using n assms(5) by simp
  then obtain pb' where "pack_all pack_item xs pb = Some (PACK_SUCCESS, pb')" "wf_pack pb'" "contents pb' = contents pb @ c_item.enc_all xs"
    using c_item.pack_all_appends[OF pb(2) assms(4) _ pb(4)] by blast
  with used show ?thesis using pb by simp
qed

text \<open>C25. What is packed into a fresh buffer is what the receiver unpacks from its bytes: for every
  sequence of integers, doubles, strings without a zero byte and blocks of at most one chunk (1 MiB) whose bytes,
  with the header and one chunk more, are fewer than \<open>2 ^ 32\<close>, as is the memory the buffer starts with, packing
  succeeds, the receiver accepts the header, unpacking the same types gives the same values, in order, except
  that an empty string comes back as the null pointer, and no byte is left. With authentication information,
  the sender has it, as a string without a zero byte, and the receiver accepts it.\<close>

theorem message_round_trip:
  assumes "with_auth_info \<longrightarrow> auth \<noteq> None" "info = (if with_auth_info then auth else None)" "valid_str info"
    "list_all item_valid xs" "message_size n info xs < u32_mod" "with_auth_info \<longrightarrow> parse (norm_str info)"
  shows "\<exists>pb pb' q q'. init_packbuffer auth n False with_auth_info = Some (PACK_SUCCESS, pb) \<and>
     pack_all pack_item xs pb = Some (PACK_SUCCESS, pb') \<and>
     init_packbuffer_from_buffer parse (take (pb_used pb') (mem pb')) with_auth_info = Some (PACK_SUCCESS, q) \<and>
     unpack_all unpack_item (map kind_of xs) q = Some (PACK_SUCCESS, map item_read xs, q') \<and> pb_unused q' = 0"
proof -
  obtain pb pb' where p: "init_packbuffer auth n False with_auth_info = Some (PACK_SUCCESS, pb)"
      "pack_all pack_item xs pb = Some (PACK_SUCCESS, pb')" "contents pb' = header info @ c_item.enc_all xs"
    using message_packed[OF assms(1-5)] by blast
  obtain q where q: "init_packbuffer_from_buffer parse (contents pb') with_auth_info = Some (PACK_SUCCESS, q)"
      "wf_pack q" "rest q = c_item.enc_all xs"
    using from_buffer_reads_header[of info with_auth_info parse, OF assms(3,6)] unfolding p(3) by blast
  obtain q' where "unpack_all unpack_item (map kind_of xs) q = Some (PACK_SUCCESS, map item_read xs, q')" "wf_pack q'" "rest q' = []"
    using c_item.unpack_all_reads[OF q(2) assms(4), of "[]"] q(3) by auto
  then show ?thesis using p(1,2) q(1) by (auto simp: contents_def pb_used_def pb_unused_def rest_def wf_pack_def)
qed

theorem message_round_trip_witness:
  "\<exists>pb pb' q q'. init_packbuffer (Some ''me'') 0 False True = Some (PACK_SUCCESS, pb) \<and>
     pack_all pack_item [V_int 7, V_str (Some []), V_str (Some ''job''), V_double 5, V_buf [1, 0, 2]] pb = Some (PACK_SUCCESS, pb') \<and>
     init_packbuffer_from_buffer (\<lambda>a. a = Some ''me'') (take (pb_used pb') (mem pb')) True = Some (PACK_SUCCESS, q) \<and>
     unpack_all unpack_item [K_int, K_str, K_str, K_double, K_buf 3] q =
       Some (PACK_SUCCESS, [V_int 7, V_str None, V_str (Some ''job''), V_double 5, V_buf [1, 0, 2]], q') \<and> pb_unused q' = 0"
proof -
  let ?xs = "[V_int 7, V_str (Some []), V_str (Some ''job''), V_double 5, V_buf [1, 0, 2]]"
  have "map kind_of ?xs = [K_int, K_str, K_str, K_double, K_buf 3]"
    "map item_read ?xs = [V_int 7, V_str None, V_str (Some ''job''), V_double 5, V_buf [1, 0, 2]]"
    by (simp_all add: norm_str_def)
  moreover have "list_all item_valid ?xs" "message_size 0 (Some ''me'') ?xs < u32_mod"
    by (simp_all add: valid_str_def message_size_def first_size_def header_def enc_str_def CHUNK_def INTSIZE_def DOUBLESIZE_def)
  ultimately show ?thesis
    using message_round_trip[of True "Some ''me''" "Some ''me''" ?xs 0 "\<lambda>a. a = Some ''me''"]
    by (simp only: valid_str_def norm_str_def) simp
qed

text \<open>C26. Whatever bytes arrive and whatever types are read from them, no unpacking function reads
  outside of the received memory, and the memory is left as it is.\<close>

theorem unpack_stays_in_memory:
  "\<exists>ret pb ret' ys pb'. init_packbuffer_from_buffer parse buf with_auth_info = Some (ret, pb) \<and>
     unpack_all unpack_item ks pb = Some (ret', ys, pb') \<and> mem pb' = buf \<and> cur_ptr pb' = bytes_used pb' \<and> bytes_used pb' \<le> length buf"
proof -
  obtain ret pb where p: "init_packbuffer_from_buffer parse buf with_auth_info = Some (ret, pb)" "wf_pack pb" "mem pb = buf"
    using from_buffer_safe by blast
  then obtain ret' ys pb' where "unpack_all unpack_item ks pb = Some (ret', ys, pb')" "wf_pack pb'" "mem pb' = buf"
    using c_item.unpack_all_safe[OF p(2)] by blast
  then show ?thesis using p(1) by (auto simp: wf_pack_def)
qed

text \<open>A buffer that only counts measures exactly the bytes that packing the same values into a real
  buffer adds behind the header.\<close>

lemma just_count_counts_bytes:
  assumes "with_auth_info \<longrightarrow> auth \<noteq> None" "info = (if with_auth_info then auth else None)" "valid_str info"
    "list_all item_valid xs" "message_size n info xs < u32_mod"
  shows "\<exists>c c' pb pb'. init_packbuffer auth n True with_auth_info = Some (PACK_SUCCESS, c) \<and>
     pack_all pack_item xs c = Some (PACK_SUCCESS, c') \<and>
     init_packbuffer auth n False with_auth_info = Some (PACK_SUCCESS, pb) \<and>
     pack_all pack_item xs pb = Some (PACK_SUCCESS, pb') \<and> pb_used pb' = pb_used pb + pb_used c' \<and> mem c' = []"
proof -
  obtain pb pb' where p: "init_packbuffer auth n False with_auth_info = Some (PACK_SUCCESS, pb)"
      "pack_all pack_item xs pb = Some (PACK_SUCCESS, pb')" "wf_pack pb'" "contents pb' = header info @ c_item.enc_all xs"
      "bytes_used pb = length (header info)"
    using message_packed[OF assms] by blast
  define c where "c = cleared\<lparr>just_count := True\<rparr>"
  have c: "init_packbuffer auth n True with_auth_info = Some (PACK_SUCCESS, c)" "just_count c" "bytes_used c = 0" "mem c = []"
    by (simp_all add: init_packbuffer_def c_def cleared_def)
  have "length (contents pb') = bytes_used pb'" using p(3) by (simp add: wf_pack_def contents_def)
  then have "bytes_used pb' = bytes_used pb + length (c_item.enc_all xs)" using p(4,5) by simp
  then show ?thesis using p(1,2) c c_item.pack_all_counts[OF c(2), of xs] by (auto simp: pb_used_def)
qed

section \<open>Limits\<close>

lemma packbuf_large_block_overflows:
  assumes "wf_pack pb" "bytes_used pb = mem_size pb" "length buf > CHUNK" "room (length buf) pb"
  shows "packbuf buf pb = None"
proof -
  have "add32 (length buf) (bytes_used pb mod u32_mod) = length buf + bytes_used pb"
    using assms(2,4) by (simp add: room_def add32_exact)
  moreover have "buf \<noteq> []" using assms(3) by auto
  ultimately show ?thesis using assms by (simp add: packbuf_def pack_bytes_def wf_pack_def grow_def store_def room_def)
qed

lemma fresh_buffer_counts_as_filled:
  assumes "init_packbuffer None 0 False False = Some (PACK_SUCCESS, pb)"
  shows "pb_filled pb"
proof -
  obtain pb' where "init_packbuffer None 0 False False = Some (PACK_SUCCESS, pb')" "wf_pack pb'" "contents pb' = header None"
    using init_packbuffer_header[of False None None 0]
    by (auto simp: valid_str_def first_size_def header_def enc_str_def CHUNK_def INTSIZE_def)
  then have "wf_pack pb" "length (contents pb) = 2 * INTSIZE + 1" using assms by (simp_all add: header_def enc_str_def)
  then show ?thesis by (simp add: pb_filled_def pb_used_def contents_def wf_pack_def)
qed

end
