(* ===== verification/CullDescr.thy ===== *)
theory CullDescr
  imports Prelude "HOL-Library.Word"
begin

text \<open>
  Object types of the list library: the descriptors of \<^verbatim>\<open>source/libs/cull/cull_list.h\<close> and
  \<^verbatim>\<open>ocs_cull_descr.cc\<close>. An array of fields is a list; its terminating entry is left out. A static block is
  known by its fields, a counted descriptor also by its address. \<^verbatim>\<open>share\<close> is the address under which the
  registry keeps a descriptor with the given fields; nothing is assumed about it.
  Allocation succeeds.
\<close>

unbundle bit_operations_syntax

section \<open>Fields\<close>

record lDescr =
  nm :: int
  mt :: "32 word"
  off :: int

type_synonym fields = "lDescr list"

definition NoName :: int where "NoName = - 1"

definition OCS_CULL_ABSENT :: int where "OCS_CULL_ABSENT = - 2147483648"

definition lEndT :: "32 word" where "lEndT = 0"
definition lDoubleT :: "32 word" where "lDoubleT = 1"
definition lUlongT :: "32 word" where "lUlongT = 2"
definition lLongT :: "32 word" where "lLongT = 3"
definition lBoolT :: "32 word" where "lBoolT = 4"
definition lIntT :: "32 word" where "lIntT = 5"
definition lStringT :: "32 word" where "lStringT = 6"
definition lListT :: "32 word" where "lListT = 7"
definition lObjectT :: "32 word" where "lObjectT = 8"
definition lRefT :: "32 word" where "lRefT = 9"
definition lHostT :: "32 word" where "lHostT = 10"
definition lUlong64T :: "32 word" where "lUlong64T = 11"

definition CULL_NO_TRANSFER :: "32 word" where "CULL_NO_TRANSFER = 0x00000800"
definition CULL_DESCR_INTERNED :: "32 word" where "CULL_DESCR_INTERNED = 0x00080000"
definition CULL_IS_REDUCED :: "32 word" where "CULL_IS_REDUCED = 0x00200000"

definition MAX_DESCR_SIZE :: nat where "MAX_DESCR_SIZE = 4 * 50"

definition mt_get_type :: "32 word \<Rightarrow> 32 word" where
  "mt_get_type m = m AND 0x000000FF"

definition mt_do_transfer :: "32 word \<Rightarrow> bool" where
  "mt_do_transfer m \<longleftrightarrow> m AND CULL_NO_TRANSFER = 0"

definition clear_interned :: "32 word \<Rightarrow> 32 word" where
  "clear_interned m = m AND NOT CULL_DESCR_INTERNED"

section \<open>Name spaces\<close>

record lNameSpace =
  lower :: int
  block_size :: int
  descr :: "fields option"

type_synonym name_space = "lNameSpace list option"

definition blocks :: "name_space \<Rightarrow> lNameSpace list" where
  \<comment> \<open>the entries up to the one whose lower bound is 0\<close>
  "blocks ns = (case ns of None \<Rightarrow> [] | Some es \<Rightarrow> takeWhile (\<lambda>e. lower e \<noteq> 0) es)"

definition count_entries :: "fields \<Rightarrow> nat" where
  "count_entries dp = length (takeWhile (\<lambda>f. mt_get_type (mt f) \<noteq> lEndT) dp)"

definition static_index :: "name_space \<Rightarrow> (int \<times> fields) list" where
  \<comment> \<open>the first entry for a field number counts\<close>
  "static_index ns =
     concat (map (\<lambda>e. case descr e of Some (f # fs) \<Rightarrow> if mt_get_type (mt f) \<noteq> lEndT then [(nm f, f # fs)] else []
                                    | _ \<Rightarrow> []) (blocks ns))"

definition ocs_cull_descr_static_for :: "name_space \<Rightarrow> int \<Rightarrow> fields option" where
  "ocs_cull_descr_static_for ns name = map_of (static_index ns) name"

fun static_containing_loop :: "lNameSpace list \<Rightarrow> int \<Rightarrow> (fields \<times> nat) option" where
  "static_containing_loop [] name = None"
| "static_containing_loop (e # es) name =
     (case descr e of
        Some d \<Rightarrow>
          if lower e \<le> name \<and> name < lower e + block_size e then
            (let k = nat (name - lower e) in if k < length d \<and> nm (d ! k) = name then Some (d, k) else None)
          else static_containing_loop es name
      | None \<Rightarrow> static_containing_loop es name)"

definition ocs_cull_descr_static_containing :: "name_space \<Rightarrow> int \<Rightarrow> (fields \<times> nat) option" where
  "ocs_cull_descr_static_containing ns name = static_containing_loop (blocks ns) name"

section \<open>Counted descriptors\<close>

definition same_entries :: "fields \<Rightarrow> fields \<Rightarrow> nat \<Rightarrow> bool" where
  "same_entries a b n \<longleftrightarrow>
     list_all (\<lambda>i. nm (a ! i) = nm (b ! i) \<and> clear_interned (mt (a ! i)) = clear_interned (mt (b ! i)) \<and> off (a ! i) = off (b ! i)) [0..<n]"

definition count_present :: "fields \<Rightarrow> nat \<Rightarrow> nat" where
  "count_present dp n = length (filter (\<lambda>i. off (dp ! i) \<noteq> OCS_CULL_ABSENT) [0..<n])"

definition hash_byte :: "64 word \<Rightarrow> 64 word \<Rightarrow> 64 word" where
  "hash_byte b h = (h XOR b) * 0x100000001b3"

definition hash_value :: "32 word \<Rightarrow> 64 word \<Rightarrow> 64 word" where
  "hash_value v h = fold (\<lambda>b. hash_byte (ucast (drop_bit (8 * b) v AND 0xff))) [0..<4] h"

definition ocs_cull_descr_hash :: "fields \<Rightarrow> nat \<Rightarrow> 64 word" where
  "ocs_cull_descr_hash e n =
     fold (\<lambda>f h. hash_value (word_of_int (off f)) (hash_value (clear_interned (mt f)) (hash_value (word_of_int (nm f)) h)))
       (take n e) 0xcbf29ce484222325"

record cull_descr_header =
  refs :: nat
  hn :: nat
  np :: nat
  hash :: "64 word"
  entries :: fields
  rmap :: "nat list"

definition mark_interned :: "fields \<Rightarrow> fields" where
  "mark_interned e = (case e of [] \<Rightarrow> [] | f # fs \<Rightarrow> f\<lparr>mt := mt f OR CULL_DESCR_INTERNED\<rparr> # fs)"

definition build_rmap :: "fields \<Rightarrow> nat \<Rightarrow> nat \<Rightarrow> nat list option" where
  \<comment> \<open>a slot outside of the map is a write outside of the allocated memory\<close>
  "build_rmap e n npv =
     foldo (\<lambda>pos m. if off (e ! pos) \<noteq> OCS_CULL_ABSENT then
               (let slot = int pos + off (e ! pos) in if 0 \<le> slot \<and> slot < int npv then Some (m[nat slot := pos]) else None)
             else Some m) [0..<n] (replicate npv 0)"

definition alloc_counted :: "fields \<Rightarrow> nat \<Rightarrow> 64 word \<Rightarrow> cull_descr_header option" where
  "alloc_counted dp n h =
     (let npv = count_present dp n; e = mark_interned (take n dp) in
      do { m \<leftarrow> (if npv < n then build_rmap e n npv else Some []);
           Some \<lparr>refs = 1, hn = n, np = npv, hash = h, entries = e, rmap = m\<rparr> })"

section \<open>Descriptors\<close>

datatype descriptor = Static fields | Counted nat cull_descr_header | Plain fields

fun fields_of :: "descriptor \<Rightarrow> fields" where
  "fields_of (Static d) = d"
| "fields_of (Counted a h) = entries h"
| "fields_of (Plain d) = d"

definition ocs_cull_descr_is_counted :: "descriptor \<Rightarrow> bool" where
  "ocs_cull_descr_is_counted dp \<longleftrightarrow> (case fields_of dp of f # fs \<Rightarrow> mt f AND CULL_DESCR_INTERNED \<noteq> 0 | [] \<Rightarrow> False)"

definition static_block_for :: "name_space \<Rightarrow> fields \<Rightarrow> fields option" where
  "static_block_for ns dp = (case dp of f # fs \<Rightarrow> ocs_cull_descr_static_for ns (nm f) | [] \<Rightarrow> None)"

definition ocs_cull_descr_is_static :: "name_space \<Rightarrow> descriptor \<Rightarrow> bool" where
  "ocs_cull_descr_is_static ns dp \<longleftrightarrow>
     \<not> ocs_cull_descr_is_counted dp \<and> (case dp of Static d \<Rightarrow> static_block_for ns d = Some d | _ \<Rightarrow> False)"

definition intern :: "(fields \<Rightarrow> nat) \<Rightarrow> fields \<Rightarrow> descriptor option" where
  \<comment> \<open>\<^verbatim>\<open>ocs_cull_descr_intern\<close>, up to the choice of the address\<close>
  "intern share dp =
     (let n = count_entries dp in
      do { h \<leftarrow> alloc_counted dp n (ocs_cull_descr_hash dp n);
           Some (Counted (share (map (\<lambda>f. f\<lparr>mt := clear_interned (mt f)\<rparr>) (take n dp))) h) })"

definition ocs_cull_descr_acquire :: "name_space \<Rightarrow> (fields \<Rightarrow> nat) \<Rightarrow> descriptor \<Rightarrow> descriptor option" where
  "ocs_cull_descr_acquire ns share dp =
     (if ocs_cull_descr_is_counted dp then Some dp
      else
        let d = fields_of dp; block = static_block_for ns d in
        if ocs_cull_descr_is_static ns dp then Some dp
        else case block of
            Some b \<Rightarrow> (let n = count_entries d in
              if count_entries b = n \<and> same_entries b d n then Some (Static b) else intern share d)
          | None \<Rightarrow> intern share d)"

definition lCountDescr :: "fields \<Rightarrow> nat" where
  "lCountDescr dp = count_entries dp"

definition lCountPresent :: "descriptor \<Rightarrow> nat" where
  "lCountPresent dp =
     (case dp of
        Counted a h \<Rightarrow> if ocs_cull_descr_is_counted dp then np h else count_present (entries h) (count_entries (entries h))
      | _ \<Rightarrow> count_present (fields_of dp) (count_entries (fields_of dp)))"

definition ocs_cull_slot :: "fields \<Rightarrow> nat \<Rightarrow> int" where
  "ocs_cull_slot dp pos = int pos + off (dp ! pos)"

definition ocs_cull_present_fields :: "descriptor \<Rightarrow> (nat \<times> int) list" where
  \<comment> \<open>positions and slots, in the order of the iterator\<close>
  "ocs_cull_present_fields dp =
     (let d = fields_of dp; n = count_entries d;
          walk = map (\<lambda>i. (i, ocs_cull_slot d i)) (filter (\<lambda>i. off (d ! i) \<noteq> OCS_CULL_ABSENT) [0..<n]) in
      case d of
        [] \<Rightarrow> []
      | f # fs \<Rightarrow>
          if mt f AND CULL_IS_REDUCED = 0 then map (\<lambda>i. (i, int i)) [0..<n]
          else if mt f AND CULL_DESCR_INTERNED \<noteq> 0 then
            (case dp of
               Counted a h \<Rightarrow> if np h < hn h then map (\<lambda>i. (rmap h ! i, int i)) [0..<np h] else walk
             | _ \<Rightarrow> walk)
          else walk)"

section \<open>Reduced descriptors\<close>

fun layout_loop :: "fields \<Rightarrow> bool list \<Rightarrow> nat \<Rightarrow> nat \<Rightarrow> (nat \<times> fields) option" where
  "layout_loop (f # fs) (k # ks) pos slot =
     (if k \<and> off f = OCS_CULL_ABSENT then None
      else
        let g = \<lparr>nm = nm f, mt = clear_interned (mt f) OR CULL_IS_REDUCED,
                 off = if k then int slot - int pos else OCS_CULL_ABSENT\<rparr> in
        do { (kept, gs) \<leftarrow> layout_loop fs ks (Suc pos) (if k then Suc slot else slot); Some (kept, g # gs) })"
| "layout_loop _ _ pos slot = Some (slot, [])"

definition ocs_cull_descr_layout :: "fields \<Rightarrow> bool list \<Rightarrow> (nat \<times> fields) option" where
  \<comment> \<open>the number of kept fields and the entries; \<open>None\<close> for the result \<^verbatim>\<open>-1\<close>\<close>
  "ocs_cull_descr_layout src keep =
     (let n = count_entries src in
      if n = 0 \<or> length keep \<noteq> n then None
      else do { (slot, out) \<leftarrow> layout_loop (take n src) keep 0 0;
                Some (slot, if slot = n then map (\<lambda>f. f\<lparr>mt := mt f AND NOT CULL_IS_REDUCED\<rparr>) out else out) })"

definition ocs_cull_descr_build :: "name_space \<Rightarrow> (fields \<Rightarrow> nat) \<Rightarrow> descriptor \<Rightarrow> bool list \<Rightarrow> descriptor option option" where
  \<comment> \<open>the inner \<open>None\<close> is the null pointer\<close>
  "ocs_cull_descr_build ns share src keep =
     (case ocs_cull_descr_layout (fields_of src) keep of
        None \<Rightarrow> Some None
      | Some (kept, out) \<Rightarrow>
          if kept = 0 then Some None
          else if kept = count_entries (fields_of src) then map_option Some (ocs_cull_descr_acquire ns share src)
          else map_option Some (intern share out))"

fun reduce_keep :: "fields \<Rightarrow> int list \<Rightarrow> bool list \<Rightarrow> bool list option" where
  "reduce_keep type [] keep = Some keep"
| "reduce_keep type (name # names) keep =
     (let n = length keep; pos = (if n > 0 then name - nm (type ! 0) else - 1) in
      if pos < 0 \<or> pos \<ge> int n \<or> nm (type ! nat pos) \<noteq> name then None
      else reduce_keep type names (keep[nat pos := True]))"

definition ocs_cull_descr_reduce :: "name_space \<Rightarrow> (fields \<Rightarrow> nat) \<Rightarrow> fields \<Rightarrow> int list \<Rightarrow> descriptor option option" where
  "ocs_cull_descr_reduce ns share type names =
     (case reduce_keep type names (replicate (count_entries type) False) of
        None \<Rightarrow> Some None
      | Some keep \<Rightarrow> ocs_cull_descr_build ns share (Static type) keep)"

end
