(* ===== verification/CullPack.thy ===== *)
theory CullPack
  imports CullDescr PackBuffer
begin

text \<open>
  Packing and unpacking of lists, elements and descriptors, \<^verbatim>\<open>source/libs/cull/cull_pack.cc\<close>. The state is a pack
  buffer and its table of descriptors. \<open>None\<close> is an access outside of the memory or to the wrong member of a
  value. Reference counts, hash tables and statistics are left out. The functions that read nested data take
  fuel, for which the number of unread bytes is enough.
\<close>

section \<open>Data\<close>

datatype cull_elem_kind = FREE_ELEM | BOUND_ELEM | OBJECT_ELEM | TRANS_BOUND_ELEM

datatype lMultiType =
    M_db "64 word" | M_ul "32 word" | M_ul64 "64 word" | M_b bool | M_str "string option" | M_host "string option"
  | M_ref nat | M_glp "lList option" | M_obj "lListElem option"
and lList = lList "string option" descriptor "lListElem list"
and lListElem = lListElem cull_elem_kind descriptor "lMultiType list"

datatype lEnumeration = Enumeration (wpos: int) (wmt: "32 word") (wnm: int) (wep: "lEnumeration list option")

type_synonym what = "lEnumeration list"

type_synonym pstate = "sge_pack_buffer \<times> descriptor list"

type_synonym packer = "pstate \<Rightarrow> (pack_result \<times> pstate) option"

type_synonym 'a unpacker = "pstate \<Rightarrow> ((pack_result + 'a) \<times> pstate) option"

definition WHAT_ALL :: int where "WHAT_ALL = - 1"
definition WHAT_NONE :: int where "WHAT_NONE = - 2"

definition CULL_PACK_FREE_ELEM :: "32 word" where "CULL_PACK_FREE_ELEM = 1"
definition CULL_PACK_BOUND_ELEM :: "32 word" where "CULL_PACK_BOUND_ELEM = 2"
definition CULL_PACK_TRANS_BOUND_ELEM :: "32 word" where "CULL_PACK_TRANS_BOUND_ELEM = 4"
definition CULL_PACK_OBJECT_ELEM :: "32 word" where "CULL_PACK_OBJECT_ELEM = 8"
definition CULL_PACK_DESCR_TYPE_REF :: "32 word" where "CULL_PACK_DESCR_TYPE_REF = 0xFFFFFF00"
definition CULL_PACK_DESCR_TABLE_DEF :: "32 word" where "CULL_PACK_DESCR_TABLE_DEF = 0xFFFFFF01"
definition CULL_PACK_DESCR_TABLE_REF :: "32 word" where "CULL_PACK_DESCR_TABLE_REF = 0xFFFFFF02"
definition CULL_PACK_DESCR_BY_INDEX :: "32 word" where "CULL_PACK_DESCR_BY_INDEX = 0"
definition CULL_PACK_DESCR_BY_FIELD :: "32 word" where "CULL_PACK_DESCR_BY_FIELD = 1"

fun elem_kind_to_wire :: "cull_elem_kind \<Rightarrow> 32 word" where
  "elem_kind_to_wire BOUND_ELEM = CULL_PACK_BOUND_ELEM"
| "elem_kind_to_wire OBJECT_ELEM = CULL_PACK_OBJECT_ELEM"
| "elem_kind_to_wire TRANS_BOUND_ELEM = CULL_PACK_TRANS_BOUND_ELEM"
| "elem_kind_to_wire FREE_ELEM = CULL_PACK_FREE_ELEM"

definition elem_kind_from_wire :: "32 word \<Rightarrow> cull_elem_kind option" where
  "elem_kind_from_wire wire =
     (if wire = CULL_PACK_FREE_ELEM then Some FREE_ELEM
      else if wire = CULL_PACK_BOUND_ELEM then Some BOUND_ELEM
      else if wire = CULL_PACK_TRANS_BOUND_ELEM then Some TRANS_BOUND_ELEM
      else if wire = CULL_PACK_OBJECT_ELEM then Some OBJECT_ELEM
      else None)"

definition zero_value :: "32 word \<Rightarrow> lMultiType" where
  \<comment> \<open>a value of which all bytes are 0, read as the given type\<close>
  "zero_value ty =
     (if ty = lDoubleT then M_db 0 else if ty = lUlong64T then M_ul64 0 else if ty = lBoolT then M_b False
      else if ty = lStringT then M_str None else if ty = lHostT then M_host None else if ty = lRefT then M_ref 0
      else if ty = lListT then M_glp None else if ty = lObjectT then M_obj None else M_ul 0)"

section \<open>Steps of packing\<close>

definition pseq :: "packer \<Rightarrow> packer \<Rightarrow> packer" where
  \<comment> \<open>\<^verbatim>\<open>if ((ret = f) != PACK_SUCCESS) return ret; g\<close>\<close>
  "pseq f g s = do { (ret, s1) \<leftarrow> f s; if ret \<noteq> PACK_SUCCESS then Some (ret, s1) else g s1 }"

definition pdone :: packer where
  "pdone s = Some (PACK_SUCCESS, s)"

fun pall :: "('a \<Rightarrow> packer) \<Rightarrow> 'a list \<Rightarrow> packer" where
  "pall f [] s = Some (PACK_SUCCESS, s)"
| "pall f (x # xs) s = pseq (f x) (pall f xs) s"

lemma pall_cong [fundef_cong]: "xs = ys \<Longrightarrow> (\<And>x. x \<in> set ys \<Longrightarrow> f x = g x) \<Longrightarrow> pall f xs = pall g ys"
proof -
  assume "xs = ys" "\<And>x. x \<in> set ys \<Longrightarrow> f x = g x"
  then have "pall f xs s = pall g ys s" for s by (induction xs arbitrary: ys s) (auto simp: pseq_def split: Option.bind_splits)
  then show ?thesis by (rule ext)
qed

definition lift_pack :: "(sge_pack_buffer \<Rightarrow> (pack_result \<times> sge_pack_buffer) option) \<Rightarrow> packer" where
  "lift_pack f = (\<lambda>(pb, tab). do { (ret, pb1) \<leftarrow> f pb; Some (ret, (pb1, tab)) })"

definition pint :: "32 word \<Rightarrow> packer" where "pint i = lift_pack (packint i)"

definition pstr :: "string option \<Rightarrow> packer" where "pstr t = lift_pack (packstr t)"

section \<open>Packing descriptors\<close>

fun same_ptr :: "descriptor \<Rightarrow> descriptor \<Rightarrow> bool" where
  "same_ptr (Counted a h) (Counted b h') = (a = b)"
| "same_ptr (Static d) (Static d') = (d = d')"
| "same_ptr _ _ = False"

fun table_index :: "descriptor list \<Rightarrow> descriptor \<Rightarrow> nat option" where
  "table_index [] dp = None"
| "table_index (d # tab) dp = (if same_ptr d dp then Some 0 else map_option Suc (table_index tab dp))"

fun field_indices :: "name_space \<Rightarrow> fields \<Rightarrow> fields \<Rightarrow> nat list \<Rightarrow> nat list option" where
  \<comment> \<open>the fields by their index in the type, if all belong to it\<close>
  "field_indices ns type d [] = Some []"
| "field_indices ns type d (pos # ps) =
     (case ocs_cull_descr_static_containing ns (nm (d ! pos)) of
        Some (t, p) \<Rightarrow>
          if t \<noteq> type \<or> mt_get_type (mt (type ! p)) \<noteq> mt_get_type (mt (d ! pos)) then None
          else map_option ((#) p) (field_indices ns type d ps)
      | None \<Rightarrow> None)"

definition pack_field :: "lDescr \<Rightarrow> packer" where
  "pack_field f = pseq (pint (word_of_int (nm f))) (pint (clear_interned (mt f)))"

definition pack_shared_descr :: "name_space \<Rightarrow> descriptor \<Rightarrow> packer" where
  "pack_shared_descr ns dp s =
     (let n = lCountPresent dp; d = fields_of dp; present = map fst (ocs_cull_present_fields dp) in
      if \<not> ocs_cull_descr_is_counted dp then
        pseq (pint CULL_PACK_DESCR_TYPE_REF) (pseq (pint (word_of_int (nm (d ! 0)))) (pint (word_of_nat n))) s
      else
        case table_index (snd s) dp of
          Some k \<Rightarrow> pseq (pint CULL_PACK_DESCR_TABLE_REF) (pint (word_of_nat k)) s
        | None \<Rightarrow>
            let s1 = (fst s, snd s @ [dp]);
                type = (if n > 0 then map_option fst (ocs_cull_descr_static_containing ns (nm (d ! 0))) else None);
                idx = (case type of None \<Rightarrow> None | Some t \<Rightarrow> map_option (Pair t) (field_indices ns t d present))
            in pseq (pint CULL_PACK_DESCR_TABLE_DEF)
                 (case idx of
                    Some (t, ps) \<Rightarrow>
                      pseq (pint CULL_PACK_DESCR_BY_INDEX)
                        (pseq (pint (word_of_int (nm (t ! 0)))) (pseq (pint (word_of_nat n)) (pall (\<lambda>p. pint (word_of_nat p)) ps)))
                  | None \<Rightarrow>
                      pseq (pint CULL_PACK_DESCR_BY_FIELD)
                        (pseq (pint (word_of_nat n)) (pall (\<lambda>p. pack_field (d ! p)) present))) s1)"

definition cull_pack_descr :: "name_space \<Rightarrow> (fields \<Rightarrow> nat) \<Rightarrow> descriptor \<Rightarrow> 32 word \<Rightarrow> packer" where
  "cull_pack_descr ns share dp flags =
     (if flags = 0 then
        (let held = (ocs_cull_descr_is_counted dp \<or> ocs_cull_descr_is_static ns dp) in
         if held then pack_shared_descr ns dp
         else (\<lambda>s. do { shared \<leftarrow> ocs_cull_descr_acquire ns share dp; pack_shared_descr ns shared s }))
      else
        pseq (pint (word_of_nat (lCountPresent dp)))
          (pall (\<lambda>(pos, slot). pack_field (fields_of dp ! pos)) (ocs_cull_present_fields dp)))"

section \<open>Selections\<close>

definition what_pos :: "what \<Rightarrow> int" where
  \<comment> \<open>the position in the first entry; the terminating entry has 0\<close>
  "what_pos w = (case w of [] \<Rightarrow> 0 | e # es \<Rightarrow> wpos e)"

definition lCountWhat :: "what \<Rightarrow> descriptor \<Rightarrow> nat" where
  "lCountWhat w dp = (if what_pos w = WHAT_NONE then 0 else if what_pos w = WHAT_ALL then lCountPresent dp else length w)"

definition ocs_cull_what_fits :: "what \<Rightarrow> descriptor \<Rightarrow> bool" where
  "ocs_cull_what_fits w dp \<longleftrightarrow> what_pos w = WHAT_ALL \<or> what_pos w = WHAT_NONE \<or>
     (let d = fields_of dp; n = lCountDescr d in
      list_all (\<lambda>e. 0 \<le> wpos e \<and> wpos e < int n \<and> nm (d ! nat (wpos e)) = wnm e \<and> off (d ! nat (wpos e)) \<noteq> OCS_CULL_ABSENT) w)"

fun select_keep :: "fields \<Rightarrow> what \<Rightarrow> bool list \<Rightarrow> bool list option" where
  "select_keep d [] keep = Some keep"
| "select_keep d (e # es) keep =
     (let pos = wpos e in
      if pos < 0 \<or> pos \<ge> int (length keep) \<or> wnm e \<noteq> nm (d ! nat pos) \<or> mt_get_type (wmt e) \<noteq> mt_get_type (mt (d ! nat pos)) \<or>
         off (d ! nat pos) = OCS_CULL_ABSENT
      then None else select_keep d es (keep[nat pos := True]))"

definition lPartialDescr :: "what \<Rightarrow> fields \<Rightarrow> fields option" where
  \<comment> \<open>the entries; empty for the selection of nothing, where none are written\<close>
  "lPartialDescr w d =
     (let n = lCountDescr d in
      if what_pos w = WHAT_NONE then Some []
      else do { keep \<leftarrow> (if what_pos w = WHAT_ALL then Some (map (\<lambda>i. off (d ! i) \<noteq> OCS_CULL_ABSENT) [0..<n])
                        else select_keep d (takeWhile (\<lambda>e. mt_get_type (wmt e) \<noteq> lEndT) w) (replicate n False));
                map_option snd (ocs_cull_descr_layout d keep) })"

definition ocs_cull_what_descr :: "name_space \<Rightarrow> (fields \<Rightarrow> nat) \<Rightarrow> what \<Rightarrow> descriptor \<Rightarrow> descriptor option option" where
  \<comment> \<open>without the cache of the last result; the inner \<open>None\<close> is the null pointer\<close>
  "ocs_cull_what_descr ns share w src =
     (if lCountWhat w src = 0 then Some None
      else case lPartialDescr w (fields_of src) of
          None \<Rightarrow> Some None
        | Some out \<Rightarrow> map_option Some (ocs_cull_descr_acquire ns share (Plain out)))"

definition cull_pack_enum_as_descr :: "name_space \<Rightarrow> (fields \<Rightarrow> nat) \<Rightarrow> what \<Rightarrow> descriptor \<Rightarrow> 32 word \<Rightarrow> packer" where
  "cull_pack_enum_as_descr ns share w dp flags s =
     (if \<not> ocs_cull_what_fits w dp then Some (PACK_BADARG, s)
      else if flags = 0 \<and> what_pos w \<noteq> WHAT_NONE then
        do { shared \<leftarrow> ocs_cull_what_descr ns share w dp;
             (case shared of None \<Rightarrow> Some (PACK_ENOMEM, s) | Some d \<Rightarrow> pack_shared_descr ns d s) }
      else
        pseq (pint (word_of_nat (lCountWhat w dp)))
          (if what_pos w = WHAT_ALL then pall (\<lambda>(pos, slot). pack_field (fields_of dp ! pos)) (ocs_cull_present_fields dp)
           else if what_pos w = WHAT_NONE then pdone
           else
             (let reduced = (if lCountWhat w dp < lCountDescr (fields_of dp) then CULL_IS_REDUCED else 0) in
              pall (\<lambda>e. pseq (pint (word_of_int (wnm e))) (pint (clear_interned (wmt e) OR reduced))) w)) s)"

section \<open>Packing values\<close>

definition at_slot :: "'v list \<Rightarrow> int \<Rightarrow> ('v \<Rightarrow> packer) \<Rightarrow> packer" where
  "at_slot cp slot f s = (if 0 \<le> slot \<and> slot < int (length cp) then f (cp ! nat slot) s else None)"

definition flag_matches :: "32 word \<Rightarrow> 32 word \<Rightarrow> bool" where
  \<comment> \<open>if flags are given, only the fields that have one of them\<close>
  "flag_matches flags m \<longleftrightarrow> flags = 0 \<or> m AND flags \<noteq> 0"

definition cull_pack_cont ::
    "(lMultiType \<Rightarrow> what option \<Rightarrow> 32 word \<Rightarrow> packer) \<Rightarrow> lMultiType list \<Rightarrow> descriptor \<Rightarrow> what option \<Rightarrow> 32 word \<Rightarrow> packer" where
  \<comment> \<open>the first argument is \<^verbatim>\<open>cull_pack_switch\<close>\<close>
  "cull_pack_cont switch cp dp w flags =
     (case w of
        None \<Rightarrow>
          pall (\<lambda>(pos, slot).
            let m = mt (fields_of dp ! pos) in
            if flag_matches flags m then
              if mt_do_transfer m then at_slot cp slot (\<lambda>v. switch v None (mt_get_type m))
              else switch (zero_value (mt_get_type m)) None (mt_get_type m)
            else pdone) (ocs_cull_present_fields dp)
      | Some es \<Rightarrow>
          pall (\<lambda>e.
            let m = wmt e in
            if flag_matches flags m then
              if mt_do_transfer m then
                if 0 \<le> wpos e \<and> wpos e < int (length (fields_of dp))
                then at_slot cp (ocs_cull_slot (fields_of dp) (nat (wpos e))) (\<lambda>v. switch v (wep e) (mt_get_type m))
                else (\<lambda>s. None)
              else switch (zero_value (mt_get_type m)) None (mt_get_type m)
            else pdone) es)"

definition pack_type :: "name_space \<Rightarrow> (fields \<Rightarrow> nat) \<Rightarrow> descriptor \<Rightarrow> what option \<Rightarrow> 32 word \<Rightarrow> packer" where
  "pack_type ns share dp w flags =
     (case w of None \<Rightarrow> cull_pack_descr ns share dp flags | Some es \<Rightarrow> cull_pack_enum_as_descr ns share es dp flags)"

lemma cull_pack_cont_cong [fundef_cong]:
  assumes "cp = cp'" "dp = dp'" "w = w'" "flags = flags'"
    "\<And>v w ty. v \<in> set cp' \<or> v = zero_value ty \<Longrightarrow> f v w ty = f' v w ty"
  shows "cull_pack_cont f cp dp w flags = cull_pack_cont f' cp' dp' w' flags'"
proof -
  have a: "at_slot cp i (\<lambda>v. f v w ty) = at_slot cp i (\<lambda>v. f' v w ty)" for i w ty
    using assms(1,5) by (auto simp: at_slot_def fun_eq_iff intro!: nth_mem)
  have z: "f (zero_value ty) w ty = f' (zero_value ty) w ty" for w ty using assms(5) by blast
  show ?thesis unfolding cull_pack_cont_def assms(1-4)[symmetric] a z by (rule refl)
qed


lemma size_zero_value: "size (zero_value ty) \<le> 2"
  by (simp add: zero_value_def)

lemma size_member: "x \<in> set xs \<Longrightarrow> size x < size_list size xs"
  by (induction xs) auto

function (sequential) cull_pack_switch :: "name_space \<Rightarrow> (fields \<Rightarrow> nat) \<Rightarrow> 32 word \<Rightarrow> lMultiType \<Rightarrow> what option \<Rightarrow> 32 word \<Rightarrow> packer"
  and cull_pack_list_partial :: "name_space \<Rightarrow> (fields \<Rightarrow> nat) \<Rightarrow> 32 word \<Rightarrow> lList option \<Rightarrow> what option \<Rightarrow> packer"
  and cull_pack_object :: "name_space \<Rightarrow> (fields \<Rightarrow> nat) \<Rightarrow> 32 word \<Rightarrow> lListElem option \<Rightarrow> what option \<Rightarrow> packer"
  and cull_pack_elem_partial :: "name_space \<Rightarrow> (fields \<Rightarrow> nat) \<Rightarrow> 32 word \<Rightarrow> lListElem \<Rightarrow> what option \<Rightarrow> packer" where
  "cull_pack_switch ns share flags v w ty =
     (if ty = lBoolT then (case v of M_b b \<Rightarrow> pint (if b then 1 else 0) | _ \<Rightarrow> (\<lambda>s. None))
      else if ty = lUlongT then (case v of M_ul i \<Rightarrow> pint i | _ \<Rightarrow> (\<lambda>s. None))
      else if ty = lUlong64T then (case v of M_ul64 i \<Rightarrow> lift_pack (packint64 i) | _ \<Rightarrow> (\<lambda>s. None))
      else if ty = lStringT then (case v of M_str t \<Rightarrow> pstr t | _ \<Rightarrow> (\<lambda>s. None))
      else if ty = lHostT then (case v of M_host t \<Rightarrow> pstr t | _ \<Rightarrow> (\<lambda>s. None))
      else if ty = lListT then (case v of M_glp l \<Rightarrow> cull_pack_list_partial ns share flags l w | _ \<Rightarrow> (\<lambda>s. None))
      else if ty = lObjectT then (case v of M_obj e \<Rightarrow> cull_pack_object ns share flags e w | _ \<Rightarrow> (\<lambda>s. None))
      else if ty = lDoubleT then (case v of M_db d \<Rightarrow> lift_pack (packdouble d) | _ \<Rightarrow> (\<lambda>s. None))
      else if ty = lRefT then pdone
      else (\<lambda>s. Some (PACK_FORMAT, s)))"
| "cull_pack_list_partial ns share flags None w = pint 0"
| "cull_pack_list_partial ns share flags (Some (lList name dp es)) w =
     pseq (pint 1) (pseq (pstr name) (pseq (pack_type ns share dp w flags)
       (pseq (pall (\<lambda>e. pseq (pint 1) (cull_pack_elem_partial ns share flags e w)) es) (pint 0))))"
| "cull_pack_object ns share flags None w = pint 0"
| "cull_pack_object ns share flags (Some (lListElem k dp cp)) w =
     pseq (pint 1) (pseq (pack_type ns share dp w flags) (cull_pack_elem_partial ns share flags (lListElem k dp cp) w))"
| "cull_pack_elem_partial ns share flags (lListElem k dp cp) w =
     pseq (pint (elem_kind_to_wire k))
       (pseq (if k = FREE_ELEM then pack_type ns share dp w flags else pdone)
         (cull_pack_cont (\<lambda>v w ty. cull_pack_switch ns share flags v w ty) cp dp w flags))"
  by pat_completeness auto

termination
proof (relation "measure (\<lambda>x. case x of
    Inl (Inl (ns, share, flags, v, w, ty)) \<Rightarrow> 30 * size v
  | Inl (Inr (ns, share, flags, l, w)) \<Rightarrow> 30 * size_option size l
  | Inr (Inl (ns, share, flags, e, w)) \<Rightarrow> 30 * size_option size e + 6
  | Inr (Inr (ns, share, flags, e, w)) \<Rightarrow> 30 * size e + 35)", goal_cases)
  case (6 ns share flags k dp cp w v w' ty)
  then have "size v < size_list size cp \<or> size v \<le> 2" using size_member[of v cp] size_zero_value[of ty] by blast
  then show ?case by auto
next
  case (4 ns share flags name dp es w e)
  then show ?case using size_member[of e es] by simp
qed simp_all


declare cull_pack_switch.simps [simp del]

definition cull_pack_elem :: "name_space \<Rightarrow> (fields \<Rightarrow> nat) \<Rightarrow> lListElem \<Rightarrow> packer" where
  "cull_pack_elem ns share ep = cull_pack_elem_partial ns share 0 ep None"

definition cull_pack_list :: "name_space \<Rightarrow> (fields \<Rightarrow> nat) \<Rightarrow> lList option \<Rightarrow> packer" where
  "cull_pack_list ns share lp = cull_pack_list_partial ns share 0 lp None"

definition pack_job_delivery :: "name_space \<Rightarrow> (fields \<Rightarrow> nat) \<Rightarrow> lListElem \<Rightarrow> packer" where
  "pack_job_delivery ns share jep = pseq (cull_pack_elem ns share jep) pdone"

section \<open>Steps of unpacking\<close>

definition ubind :: "'a unpacker \<Rightarrow> ('a \<Rightarrow> 'b unpacker) \<Rightarrow> 'b unpacker" where
  \<comment> \<open>\<^verbatim>\<open>if ((ret = m(&x)) != PACK_SUCCESS) return ret; f\<close>\<close>
  "ubind m f s = do { (r, s1) \<leftarrow> m s; (case r of Inl e \<Rightarrow> Some (Inl e, s1) | Inr x \<Rightarrow> f x s1) }"

definition uret :: "'a \<Rightarrow> 'a unpacker" where "uret x s = Some (Inr x, s)"

definition ufail :: "pack_result \<Rightarrow> 'a unpacker" where "ufail e s = Some (Inl e, s)"

definition ufault :: "'a unpacker" where "ufault s = None"

definition lift_unpack :: "(sge_pack_buffer \<Rightarrow> (pack_result \<times> 'a \<times> sge_pack_buffer) option) \<Rightarrow> 'a unpacker" where
  "lift_unpack f = (\<lambda>(pb, tab). do { (ret, x, pb1) \<leftarrow> f pb; Some (if ret = PACK_SUCCESS then Inr x else Inl ret, (pb1, tab)) })"

definition uint32 :: "32 word unpacker" where "uint32 = lift_unpack unpackint"

definition ustr :: "string option unpacker" where "ustr = lift_unpack unpackstr"

definition enter :: "descriptor option option \<Rightarrow> descriptor unpacker" where
  \<comment> \<open>a built descriptor, a null pointer when it cannot be built, entered into the table\<close>
  "enter r = (\<lambda>(pb, tab).
     (case r of
        None \<Rightarrow> None
      | Some None \<Rightarrow> Some (Inl PACK_ENOMEM, (pb, tab))
      | Some (Some d) \<Rightarrow> Some (Inr d, (pb, tab @ [d]))))"

section \<open>Unpacking descriptors\<close>

definition ocs_cull_unpack_prefix_type :: "name_space \<Rightarrow> (int \<times> 32 word) list \<Rightarrow> pack_result + fields option" where
  "ocs_cull_unpack_prefix_type ns dp =
     (if dp = [] then Inr None
      else
        case ocs_cull_descr_static_containing ns (fst (dp ! 0)) of
          None \<Rightarrow> Inr None
        | Some (type, pos) \<Rightarrow>
            if pos \<noteq> 0 then Inr None
            else if \<not> list_all (\<lambda>i. fst (dp ! i) = nm (type ! i) \<and> mt_get_type (snd (dp ! i)) = mt_get_type (mt (type ! i)))
                        [0..<min (length dp) (lCountDescr type)] then Inr None
            else if length dp > lCountDescr type then Inl PACK_FORMAT
            else Inr (Some type))"

fun read_fields :: "nat \<Rightarrow> int option \<Rightarrow> (int \<times> 32 word) list unpacker" where
  "read_fields 0 prev = uret []"
| "read_fields (Suc n) prev =
     ubind uint32 (\<lambda>a. let name = sint a in
       if (case prev of Some p \<Rightarrow> name \<le> p | None \<Rightarrow> False) then ufail PACK_FORMAT
       else ubind uint32 (\<lambda>m. ubind (read_fields n (Some name)) (\<lambda>fs. uret ((name, clear_interned m) # fs))))"

fun keep_named :: "fields \<Rightarrow> (int \<times> 32 word) list \<Rightarrow> bool list \<Rightarrow> bool list option" where
  "keep_named type [] keep = Some keep"
| "keep_named type ((name, m) # fs) keep =
     (let pos = name - nm (type ! 0) in
      if 0 \<le> pos \<and> pos < int (length keep) \<and> nm (type ! nat pos) = name \<and> mt_get_type (mt (type ! nat pos)) = mt_get_type m
      then keep_named type fs (keep[nat pos := True]) else None)"

definition unpack_descr_fields ::
    "name_space \<Rightarrow> (fields \<Rightarrow> nat) \<Rightarrow> 32 word \<Rightarrow> bool \<Rightarrow> descriptor option \<Rightarrow> (descriptor \<times> 32 word) unpacker" where
  \<comment> \<open>a descriptor that lists its fields\<close>
  "unpack_descr_fields ns share n enter_table expected =
     (if unat n > MAX_DESCR_SIZE - 1 then ufail PACK_ENOMEM
      else ubind (read_fields (unat n) None) (\<lambda>dp.
        let wire_reduced = list_ex (\<lambda>f. snd f AND CULL_IS_REDUCED \<noteq> 0) dp;
            prefix = (if \<not> enter_table \<and> \<not> wire_reduced then ocs_cull_unpack_prefix_type ns dp else Inr None);
            unexpected = (\<lambda>type. \<not> enter_table \<and> \<not> wire_reduced \<and>
              (case expected of None \<Rightarrow> False | Some x \<Rightarrow> ocs_cull_descr_is_static ns x \<and> map_option Static type \<noteq> Some x)) in
        case prefix of
          Inl e \<Rightarrow> ufail PACK_FORMAT
        | Inr type \<Rightarrow>
            if unexpected type then ufail PACK_FORMAT
            else case type of
              Some t \<Rightarrow> uret (Static t, n)
            | None \<Rightarrow>
                case (if dp \<noteq> [] then ocs_cull_descr_static_containing ns (fst (dp ! 0)) else None) of
                  None \<Rightarrow> ufail PACK_FORMAT
                | Some (t, first) \<Rightarrow>
                    case keep_named t dp (replicate (lCountDescr t) False) of
                      None \<Rightarrow> ufail PACK_FORMAT
                    | Some keep \<Rightarrow>
                        if enter_table then ubind (enter (ocs_cull_descr_build ns share (Static t) keep)) (\<lambda>d. uret (d, n))
                        else (case ocs_cull_descr_build ns share (Static t) keep of
                                None \<Rightarrow> ufault
                              | Some None \<Rightarrow> ufail PACK_ENOMEM
                              | Some (Some d) \<Rightarrow> uret (d, n))))"

fun read_indices :: "nat \<Rightarrow> int \<Rightarrow> bool list \<Rightarrow> bool list unpacker" where
  "read_indices 0 lst keep = uret keep"
| "read_indices (Suc n) lst keep =
     ubind uint32 (\<lambda>i.
       if unat i \<ge> length keep \<or> uint i \<le> lst then ufail PACK_FORMAT
       else read_indices n (uint i) (keep[unat i := True]))"

definition unpack_descr_indices :: "name_space \<Rightarrow> (fields \<Rightarrow> nat) \<Rightarrow> (descriptor \<times> 32 word) unpacker" where
  \<comment> \<open>a descriptor that lists the indices of its fields in a type\<close>
  "unpack_descr_indices ns share =
     ubind uint32 (\<lambda>type_nm. ubind uint32 (\<lambda>count.
       case ocs_cull_descr_static_for ns (sint type_nm) of
         None \<Rightarrow> ufail PACK_FORMAT
       | Some type \<Rightarrow>
           if unat count > lCountDescr type then ufail PACK_FORMAT
           else ubind (read_indices (unat count) (- 1) (replicate (lCountDescr type) False)) (\<lambda>keep.
             if count = 0 then ufail PACK_FORMAT
             else ubind (enter (ocs_cull_descr_build ns share (Static type) keep)) (\<lambda>d. uret (d, count)))))"

definition table_entry :: "32 word \<Rightarrow> (descriptor \<times> 32 word) unpacker" where
  "table_entry index = (\<lambda>(pb, tab).
     if unat index \<ge> length tab then Some (Inl PACK_FORMAT, (pb, tab))
     else Some (Inr (tab ! unat index, word_of_nat (lCountPresent (tab ! unat index))), (pb, tab)))"

definition cull_unpack_descr ::
    "name_space \<Rightarrow> (fields \<Rightarrow> nat) \<Rightarrow> 32 word \<Rightarrow> descriptor option \<Rightarrow> (descriptor \<times> 32 word) unpacker" where
  "cull_unpack_descr ns share flags expected =
     ubind uint32 (\<lambda>n.
       if n = CULL_PACK_DESCR_TYPE_REF then
         if flags \<noteq> 0 then ufail PACK_FORMAT
         else ubind uint32 (\<lambda>first_nm. ubind uint32 (\<lambda>count.
           case ocs_cull_descr_static_for ns (sint first_nm) of
             None \<Rightarrow> ufail PACK_FORMAT
           | Some block \<Rightarrow>
               if count = 0 \<or> sint count > int (lCountDescr block) then ufail PACK_FORMAT
               else uret (Static block, count)))
       else if n = CULL_PACK_DESCR_TABLE_REF \<or> n = CULL_PACK_DESCR_TABLE_DEF then
         if flags \<noteq> 0 then ufail PACK_FORMAT
         else if n = CULL_PACK_DESCR_TABLE_REF then ubind uint32 table_entry
         else ubind uint32 (\<lambda>kind.
           if kind = CULL_PACK_DESCR_BY_INDEX then unpack_descr_indices ns share
           else if kind \<noteq> CULL_PACK_DESCR_BY_FIELD then ufail PACK_FORMAT
           else ubind uint32 (\<lambda>n. unpack_descr_fields ns share n True expected))
       else unpack_descr_fields ns share n False expected)"

section \<open>Unpacking values\<close>

definition cull_unpack_switch :: "lList option unpacker \<Rightarrow> lListElem option unpacker \<Rightarrow> 32 word \<Rightarrow> lMultiType unpacker" where
  \<comment> \<open>the first two arguments are \<^verbatim>\<open>cull_unpack_list_partial\<close> and \<^verbatim>\<open>cull_unpack_object\<close>\<close>
  "cull_unpack_switch sub_list sub_object ty =
     (if ty = lBoolT then ubind uint32 (\<lambda>i. uret (M_b (i \<noteq> 0)))
      else if ty = lUlongT then ubind uint32 (\<lambda>i. uret (M_ul i))
      else if ty = lUlong64T then ubind (lift_unpack unpackint64) (\<lambda>i. uret (M_ul64 i))
      else if ty = lStringT then ubind ustr (\<lambda>t. uret (M_str t))
      else if ty = lHostT then ubind ustr (\<lambda>t. uret (M_host t))
      else if ty = lListT then ubind sub_list (\<lambda>l. uret (M_glp l))
      else if ty = lObjectT then ubind sub_object (\<lambda>e. uret (M_obj e))
      else if ty = lDoubleT then ubind (lift_unpack unpackdouble) (\<lambda>d. uret (M_db d))
      else if ty = lRefT then uret (M_ref 0)
      else ufail PACK_FORMAT)"

fun read_values ::
    "(32 word \<Rightarrow> lMultiType unpacker) \<Rightarrow> fields \<Rightarrow> 32 word \<Rightarrow> (nat \<times> int) list \<Rightarrow> lMultiType list \<Rightarrow> lMultiType list unpacker" where
  "read_values switch d flags [] cp = uret cp"
| "read_values switch d flags ((pos, slot) # ps) cp =
     (if flag_matches flags (mt (d ! pos)) then
        ubind (switch (mt_get_type (mt (d ! pos)))) (\<lambda>v.
          if 0 \<le> slot \<and> slot < int (length cp) then read_values switch d flags ps (cp[nat slot := v]) else ufault)
      else read_values switch d flags ps cp)"

definition cull_unpack_cont :: "(32 word \<Rightarrow> lMultiType unpacker) \<Rightarrow> descriptor \<Rightarrow> 32 word \<Rightarrow> 32 word \<Rightarrow> lMultiType list unpacker" where
  "cull_unpack_cont switch dp wire_n flags =
     (let n = lCountPresent dp; d = fields_of dp; present = ocs_cull_present_fields dp in
      if unat wire_n > n then ufail PACK_FORMAT
      else read_values switch d flags (take (unat wire_n) present) (map (\<lambda>(pos, slot). zero_value (mt_get_type (mt (d ! pos)))) present))"

definition ocs_cull_unpack_elem ::
    "name_space \<Rightarrow> (fields \<Rightarrow> nat) \<Rightarrow> (32 word \<Rightarrow> lMultiType unpacker) \<Rightarrow> descriptor option \<Rightarrow> 32 word \<Rightarrow> 32 word \<Rightarrow> lListElem unpacker" where
  "ocs_cull_unpack_elem ns share switch dp wire_n flags =
     ubind uint32 (\<lambda>wire.
       case elem_kind_from_wire wire of
         None \<Rightarrow> ufail PACK_FORMAT
       | Some kind \<Rightarrow>
           if kind = FREE_ELEM then
             ubind (cull_unpack_descr ns share flags (if flags \<noteq> 0 then dp else None)) (\<lambda>(d, n).
               ubind (cull_unpack_cont switch d n flags) (\<lambda>cp. uret (lListElem FREE_ELEM d cp)))
           else
             case dp of
               None \<Rightarrow> ufail PACK_BADARG
             | Some d \<Rightarrow> ubind (cull_unpack_cont switch d wire_n flags) (\<lambda>cp. uret (lListElem TRANS_BOUND_ELEM d cp)))"

fun lAppendElem :: "lList \<Rightarrow> lListElem \<Rightarrow> lList option" where
  \<comment> \<open>an element that is chained already aborts the program\<close>
  "lAppendElem (lList name dp es) (lListElem k d cp) =
     (if k = BOUND_ELEM \<or> k = OBJECT_ELEM then None else Some (lList name dp (es @ [lListElem BOUND_ELEM dp cp])))"

fun unpack_elems :: "lListElem unpacker \<Rightarrow> nat \<Rightarrow> 32 word \<Rightarrow> lList \<Rightarrow> lList unpacker" where
  \<comment> \<open>the loop over the elements; \<open>has_more\<close> is \<^verbatim>\<open>has_more_elements\<close>\<close>
  "unpack_elems elem fuel has_more lp =
     (if has_more = 0 then uret lp
      else case fuel of
          0 \<Rightarrow> ufault
        | Suc f \<Rightarrow> ubind elem (\<lambda>ep.
            case lAppendElem lp ep of
              None \<Rightarrow> ufault
            | Some lp1 \<Rightarrow> ubind uint32 (\<lambda>has_more1. unpack_elems elem f has_more1 lp1)))"

declare unpack_elems.simps [simp del]

fun as_object :: "lListElem \<Rightarrow> lListElem" where
  "as_object (lListElem k d cp) = lListElem OBJECT_ELEM d cp"

fun cull_unpack_list_partial :: "name_space \<Rightarrow> (fields \<Rightarrow> nat) \<Rightarrow> 32 word \<Rightarrow> nat \<Rightarrow> lList option unpacker"
  and cull_unpack_object :: "name_space \<Rightarrow> (fields \<Rightarrow> nat) \<Rightarrow> 32 word \<Rightarrow> nat \<Rightarrow> lListElem option unpacker" where
  "cull_unpack_list_partial ns share flags 0 = ufault"
| "cull_unpack_list_partial ns share flags (Suc fuel) =
     ubind uint32 (\<lambda>i.
       if i = 0 then uret None
       else
         ubind ustr (\<lambda>name.
         ubind (cull_unpack_descr ns share flags None) (\<lambda>(dp, wire_n).
         ubind uint32 (\<lambda>has_more.
         ubind (unpack_elems
                 (ocs_cull_unpack_elem ns share
                   (cull_unpack_switch (cull_unpack_list_partial ns share flags fuel) (cull_unpack_object ns share flags fuel))
                   (Some dp) wire_n flags)
                 fuel has_more (lList name dp [])) (\<lambda>lp.
         uret (Some lp))))))"
| "cull_unpack_object ns share flags 0 = ufault"
| "cull_unpack_object ns share flags (Suc fuel) =
     ubind uint32 (\<lambda>i.
       if i = 0 then uret None
       else
         ubind (cull_unpack_descr ns share flags None) (\<lambda>(dp, wire_n).
         ubind (ocs_cull_unpack_elem ns share
                 (cull_unpack_switch (cull_unpack_list_partial ns share flags fuel) (cull_unpack_object ns share flags fuel))
                 (Some dp) wire_n flags) (\<lambda>ep.
         uret (Some (as_object ep)))))"

definition enough :: "pstate \<Rightarrow> nat" where
  \<comment> \<open>fuel for everything that can be in the buffer\<close>
  "enough s = Suc (pb_unused (fst s))"

definition cull_unpack_list :: "name_space \<Rightarrow> (fields \<Rightarrow> nat) \<Rightarrow> lList option unpacker" where
  "cull_unpack_list ns share s = cull_unpack_list_partial ns share 0 (enough s) s"

definition cull_unpack_elem_partial :: "name_space \<Rightarrow> (fields \<Rightarrow> nat) \<Rightarrow> descriptor option \<Rightarrow> 32 word \<Rightarrow> lListElem unpacker" where
  "cull_unpack_elem_partial ns share dp flags s =
     ocs_cull_unpack_elem ns share
       (cull_unpack_switch (cull_unpack_list_partial ns share flags (enough s)) (cull_unpack_object ns share flags (enough s)))
       dp (case dp of Some d \<Rightarrow> word_of_nat (lCountPresent d) | None \<Rightarrow> 0) flags s"

definition cull_unpack_elem :: "name_space \<Rightarrow> (fields \<Rightarrow> nat) \<Rightarrow> descriptor option \<Rightarrow> lListElem unpacker" where
  "cull_unpack_elem ns share dp = cull_unpack_elem_partial ns share dp 0"

end
