(* ===== verification/CullDescr_Correct.thy ===== *)
theory CullDescr_Correct
  imports CullDescr
begin

text \<open>
  What the builder of reduced descriptors produces, and that the three ways in which the iterator walks a
  descriptor visit the same fields: the kept ones, in the order of the type, with slots \<open>0, 1, 2, \<dots>\<close>.
\<close>

section \<open>Flags\<close>

lemma mt_simps [simp]:
  "mt_get_type (clear_interned m) = mt_get_type m"
  "mt_get_type (m OR CULL_IS_REDUCED) = mt_get_type m"
  "mt_get_type (m OR CULL_DESCR_INTERNED) = mt_get_type m"
  "mt_get_type (m AND NOT CULL_IS_REDUCED) = mt_get_type m"
  "mt_do_transfer (clear_interned m) = mt_do_transfer m"
  "mt_do_transfer (m OR CULL_IS_REDUCED) = mt_do_transfer m"
  "mt_do_transfer (m OR CULL_DESCR_INTERNED) = mt_do_transfer m"
  "clear_interned (clear_interned m) = clear_interned m"
  "clear_interned (m OR CULL_DESCR_INTERNED) = clear_interned m"
  "clear_interned (m OR CULL_IS_REDUCED) = clear_interned m OR CULL_IS_REDUCED"
  unfolding mt_get_type_def mt_do_transfer_def clear_interned_def CULL_IS_REDUCED_def CULL_DESCR_INTERNED_def CULL_NO_TRANSFER_def
  by (simp_all add: and.assoc bit.conj_disj_distrib2)


section \<open>Types\<close>

definition plain_field :: "lDescr \<Rightarrow> bool" where
  \<comment> \<open>a field of a static block\<close>
  "plain_field f \<longleftrightarrow> mt_get_type (mt f) \<noteq> lEndT \<and> off f = 0 \<and> clear_interned (mt f) = mt f \<and> mt f AND CULL_IS_REDUCED = 0 \<and>
     0 \<le> nm f \<and> nm f < 2 ^ 31"

definition wf_type :: "fields \<Rightarrow> bool" where
  "wf_type d \<longleftrightarrow> d \<noteq> [] \<and> length d < MAX_DESCR_SIZE \<and> list_all plain_field d \<and> (\<forall>i < length d. nm (d ! i) = nm (d ! 0) + int i)"

definition wf_ns :: "name_space \<Rightarrow> bool" where
  \<comment> \<open>the blocks of field numbers do not overlap, and each is as long as its type\<close>
  "wf_ns ns \<longleftrightarrow> list_all (\<lambda>e. case descr e of None \<Rightarrow> True
       | Some d \<Rightarrow> wf_type d \<and> lower e = nm (d ! 0) \<and> block_size e = int (length d)) (blocks ns) \<and>
     pairwise (\<lambda>d1 d2. \<forall>f \<in> set d1. \<forall>g \<in> set d2. nm f \<noteq> nm g) {d. \<exists>e \<in> set (blocks ns). descr e = Some d}"

definition known_type :: "name_space \<Rightarrow> fields \<Rightarrow> bool" where
  "known_type ns d \<longleftrightarrow> (\<exists>e \<in> set (blocks ns). descr e = Some d)"

lemma known_wf: "wf_ns ns \<Longrightarrow> known_type ns d \<Longrightarrow> wf_type d"
  by (force simp: wf_ns_def known_type_def list_all_iff)

lemma count_entries_all: "list_all (\<lambda>f. mt_get_type (mt f) \<noteq> lEndT) d \<Longrightarrow> count_entries d = length d"
  unfolding count_entries_def by (induction d) auto

lemma count_entries_type: "wf_type d \<Longrightarrow> count_entries d = length d"
  by (rule count_entries_all) (auto simp: wf_type_def plain_field_def list_all_iff)

lemma known_unique:
  assumes "wf_ns ns" "known_type ns d1" "known_type ns d2" "f \<in> set d1" "g \<in> set d2" "nm f = nm g"
  shows "d1 = d2"
  using assms unfolding wf_ns_def known_type_def pairwise_def by blast

lemma wf_typeD: "wf_type d \<Longrightarrow> d \<noteq> []" "wf_type d \<Longrightarrow> length d < MAX_DESCR_SIZE" "wf_type d \<Longrightarrow> list_all plain_field d"
  "wf_type d \<Longrightarrow> i < length d \<Longrightarrow> plain_field (d ! i)"
  by (simp_all add: wf_type_def list_all_length)

lemma wf_type_nm: "wf_type d \<Longrightarrow> i < length d \<Longrightarrow> nm (d ! i) = nm (d ! 0) + int i"
  unfolding wf_type_def by blast

lemma wf_type_inj: "wf_type d \<Longrightarrow> i < length d \<Longrightarrow> k < length d \<Longrightarrow> nm (d ! i) = nm (d ! k) \<Longrightarrow> i = k"
  using wf_type_nm[of d i] wf_type_nm[of d k] by simp

text \<open>Both lookups find every type.\<close>

lemma static_for_known:
  assumes "wf_ns ns" "known_type ns d"
  shows "ocs_cull_descr_static_for ns (nm (d ! 0)) = Some d"
proof -
  have entry: "known_type ns d' \<and> nm (d' ! 0) = k" if "(k, d') \<in> set (static_index ns)" for k d'
    using that by (force simp: static_index_def known_type_def split: option.splits list.splits if_splits)
  have "wf_type d" using assms known_wf by blast
  then obtain f fs where d: "d = f # fs" "mt_get_type (mt f) \<noteq> lEndT"
    by (cases d) (auto simp: wf_type_def plain_field_def)
  then have "(nm (d ! 0), d) \<in> set (static_index ns)"
    using assms(2) by (force simp: static_index_def known_type_def)
  then have "nm (d ! 0) \<in> fst ` set (static_index ns)" by force
  then obtain d' where d': "map_of (static_index ns) (nm (d ! 0)) = Some d'"
    by (metis map_of_eq_None_iff not_Some_eq)
  then have "(nm (d ! 0), d') \<in> set (static_index ns)" by (rule map_of_SomeD)
  then have "known_type ns d'" "nm (d' ! 0) = nm (d ! 0)" using entry by blast+
  moreover have "d' \<noteq> []" "d \<noteq> []"
    using calculation(1) assms known_wf unfolding wf_type_def by blast+
  then have "d' ! 0 \<in> set d'" "d ! 0 \<in> set d" by simp_all
  ultimately have "d' = d" using known_unique[OF assms(1) _ assms(2), of d' "d' ! 0" "d ! 0"] by simp
  then show ?thesis using d' by (simp add: ocs_cull_descr_static_for_def)
qed

lemma static_for_only_known: "ocs_cull_descr_static_for ns k = Some d \<Longrightarrow> known_type ns d \<and> nm (d ! 0) = k"
  unfolding ocs_cull_descr_static_for_def
  by (drule map_of_SomeD) (force simp: static_index_def known_type_def split: option.splits list.splits if_splits)

lemma containing_loop_finds:
  assumes "list_all (\<lambda>e. case descr e of None \<Rightarrow> True | Some d \<Rightarrow> wf_type d \<and> lower e = nm (d ! 0) \<and> block_size e = int (length d)) es"
    and "e \<in> set es" "descr e = Some d" "i < length d"
    and "\<forall>e' \<in> set es. \<forall>d'. descr e' = Some d' \<longrightarrow> (\<forall>f \<in> set d'. nm f = nm (d ! i) \<longrightarrow> d' = d)"
  shows "static_containing_loop es (nm (d ! i)) = Some (d, i)"
  using assms
proof (induction es)
  case (Cons e1 es)
  show ?case
  proof (cases "descr e1")
    case None
    then have "e \<in> set es" using Cons.prems(2,3) by auto
    then show ?thesis using Cons None by simp
  next
    case (Some d1)
    then have w: "wf_type d1" "lower e1 = nm (d1 ! 0)" "block_size e1 = int (length d1)" using Cons.prems(1) by simp_all
    show ?thesis
    proof (cases "lower e1 \<le> nm (d ! i) \<and> nm (d ! i) < lower e1 + block_size e1")
      case True
      define k where "k = nat (nm (d ! i) - lower e1)"
      have k: "k < length d1" "nm (d1 ! k) = nm (d ! i)" using True w(2,3) wf_type_nm[OF w(1), of k] by (auto simp: k_def)
      then have "d1 = d" using Cons.prems(5) Some nth_mem[OF k(1)] by (metis list.set_intros(1))
      then have "wf_type d" "k < length d" "nm (d ! k) = nm (d ! i)" using w k by auto
      then have "k = i" using wf_type_inj Cons.prems(4) by blast
      then show ?thesis using True Some k \<open>d1 = d\<close> by (simp add: k_def[symmetric] Let_def)
    next
      case False
      have "e \<noteq> e1"
      proof
        assume "e = e1"
        then have "d1 = d" using Some Cons.prems(3) by simp
        then show False using False w(2,3) wf_type_nm[OF w(1), of i] Cons.prems(4) by simp
      qed
      then have "static_containing_loop es (nm (d ! i)) = Some (d, i)" using Cons by simp
      then show ?thesis using Some False by auto
    qed
  qed
qed simp

lemma static_containing_known:
  assumes "wf_ns ns" "known_type ns d" "i < length d"
  shows "ocs_cull_descr_static_containing ns (nm (d ! i)) = Some (d, i)"
proof -
  obtain e where e: "e \<in> set (blocks ns)" "descr e = Some d" using assms(2) by (auto simp: known_type_def)
  have "d' = d" if "e' \<in> set (blocks ns)" "descr e' = Some d'" "f \<in> set d'" "nm f = nm (d ! i)" for e' d' f
    using known_unique[OF assms(1) _ assms(2) that(3) nth_mem[OF assms(3)] that(4)] that(1,2) by (auto simp: known_type_def)
  then show ?thesis
    unfolding ocs_cull_descr_static_containing_def
    using assms(1) e assms(3) by (intro containing_loop_finds) (auto simp: wf_ns_def)
qed

lemma containing_loop_known:
  "static_containing_loop es name = Some (d, k) \<Longrightarrow> k < length d \<and> nm (d ! k) = name \<and> (\<exists>e \<in> set es. descr e = Some d)"
  by (induction es) (auto simp: Let_def split: option.splits if_splits)

lemma static_containing_only_known:
  "ocs_cull_descr_static_containing ns name = Some (d, k) \<Longrightarrow> k < length d \<and> nm (d ! k) = name \<and> known_type ns d"
  unfolding ocs_cull_descr_static_containing_def known_type_def by (rule containing_loop_known)


section \<open>Kept fields\<close>

definition kept :: "bool list \<Rightarrow> nat list" where
  "kept keep = filter (\<lambda>i. keep ! i) [0..<length keep]"

definition rank :: "bool list \<Rightarrow> nat \<Rightarrow> nat" where
  "rank keep i = length (filter (\<lambda>j. keep ! j) [0..<i])"

lemma kept_rank: "i < length keep \<Longrightarrow> keep ! i \<Longrightarrow> rank keep i < length (kept keep) \<and> kept keep ! rank keep i = i"
proof -
  assume i: "i < length keep" "keep ! i"
  then have "[0..<length keep] = [0..<i] @ i # [Suc i..<length keep]"
    using upt_add_eq_append[of 0 i "length keep - i"] by (simp add: upt_conv_Cons)
  then show ?thesis using i by (simp add: kept_def rank_def nth_append)
qed

lemma rank_Suc: "rank keep (Suc i) = (if keep ! i then Suc (rank keep i) else rank keep i)"
  by (simp add: rank_def)

lemma kept_length: "length (kept keep) = rank keep (length keep)"
  by (simp add: kept_def rank_def)

lemma set_kept [simp]: "set (kept keep) = {i. i < length keep \<and> keep ! i}"
  by (auto simp: kept_def)

lemma distinct_kept [simp]: "distinct (kept keep)"
  by (simp add: kept_def)

lemma sorted_kept: "sorted (kept keep)"
  by (simp add: kept_def sorted_filter[of "\<lambda>x. x", simplified])

lemma kept_all: "length (kept keep) = length keep \<longleftrightarrow> list_all (\<lambda>b. b) keep"
proof -
  have "length (filter (\<lambda>i. keep ! i) [0..<length keep]) = length [0..<length keep] \<longleftrightarrow> (\<forall>i \<in> set [0..<length keep]. keep ! i)"
    by (metis filter_id_conv length_filter_less linorder_not_less order_refl)
  then show ?thesis by (auto simp: kept_def list_all_length)
qed

definition reduced_field :: "bool list \<Rightarrow> nat \<Rightarrow> lDescr \<Rightarrow> lDescr" where
  "reduced_field keep i f =
     \<lparr>nm = nm f, mt = mt f OR CULL_IS_REDUCED, off = if keep ! i then int (rank keep i) - int i else OCS_CULL_ABSENT\<rparr>"

definition reduced :: "fields \<Rightarrow> bool list \<Rightarrow> fields" where
  "reduced d keep = map (\<lambda>i. reduced_field keep i (d ! i)) [0..<length d]"

lemma layout_loop_reduced:
  assumes "length keep = length d" "list_all plain_field d" "i \<le> length d"
  shows "layout_loop (drop i d) (drop i keep) i (rank keep i) =
    Some (rank keep (length d), map (\<lambda>j. reduced_field keep j (d ! j)) [i..<length d])"
  using assms(3)
proof (induction "length d - i" arbitrary: i)
  case 0
  then show ?case using assms(1) by simp
next
  case (Suc n)
  then have i: "i < length d" by simp
  then have "off (d ! i) = 0" "clear_interned (mt (d ! i)) = mt (d ! i)"
    using assms(2) by (simp_all add: list_all_length plain_field_def)
  moreover have "drop i d = d ! i # drop (Suc i) d" "drop i keep = keep ! i # drop (Suc i) keep"
    using i assms(1) by (simp_all add: Cons_nth_drop_Suc)
  moreover have "(if keep ! i then Suc (rank keep i) else rank keep i) = rank keep (Suc i)" by (simp add: rank_Suc)
  moreover have "layout_loop (drop (Suc i) d) (drop (Suc i) keep) (Suc i) (rank keep (Suc i)) =
      Some (rank keep (length d), map (\<lambda>j. reduced_field keep j (d ! j)) [Suc i..<length d])"
    using Suc.hyps(1)[of "Suc i"] Suc.hyps(2) i by simp
  ultimately show ?case using i by (simp add: Let_def OCS_CULL_ABSENT_def upt_conv_Cons reduced_field_def)
qed

lemma layout_reduced:
  assumes "wf_type d" "length keep = length d" "length (kept keep) < length d"
  shows "ocs_cull_descr_layout d keep = Some (length (kept keep), reduced d keep)"
proof -
  have "layout_loop d keep 0 0 = Some (length (kept keep), reduced d keep)"
    using layout_loop_reduced[of keep d 0] assms(1,2) by (simp add: wf_typeD rank_def kept_length[unfolded rank_def] reduced_def)
  then show ?thesis
    using assms count_entries_type[OF assms(1)] by (simp add: ocs_cull_descr_layout_def Let_def wf_typeD)
qed

lemma layout_kept:
  assumes "wf_type d" "length keep = length d"
  shows "\<exists>out. ocs_cull_descr_layout d keep = Some (length (kept keep), out)"
proof -
  have "layout_loop d keep 0 0 = Some (length (kept keep), reduced d keep)"
    using layout_loop_reduced[of keep d 0] assms by (simp add: wf_typeD rank_def kept_length[unfolded rank_def] reduced_def)
  then show ?thesis
    using assms count_entries_type[OF assms(1)] by (simp add: ocs_cull_descr_layout_def Let_def wf_typeD)
qed

lemma nth_reduced [simp]: "i < length d \<Longrightarrow> reduced d keep ! i = reduced_field keep i (d ! i)" "length (reduced d keep) = length d"
  by (simp_all add: reduced_def)

lemma count_entries_reduced: "wf_type d \<Longrightarrow> count_entries (reduced d keep) = length d"
  using count_entries_all[of "reduced d keep"] wf_typeD(4)[of d]
  by (simp add: list_all_length reduced_field_def plain_field_def)

lemma rank_small: "rank keep i \<le> i"
  unfolding rank_def by (metis length_filter_le length_upt minus_nat.diff_0)

lemma reduced_absent: "i < length d \<Longrightarrow> length d < MAX_DESCR_SIZE \<Longrightarrow> off (reduced d keep ! i) \<noteq> OCS_CULL_ABSENT \<longleftrightarrow> keep ! i"
  using rank_small[of keep i] by (simp add: reduced_field_def OCS_CULL_ABSENT_def MAX_DESCR_SIZE_def)

lemma count_present_reduced: "wf_type d \<Longrightarrow> length keep = length d \<Longrightarrow> count_present (reduced d keep) (length d) = length (kept keep)"
  unfolding count_present_def kept_def
  by (rule arg_cong[of _ _ length], rule filter_cong) (auto simp: reduced_absent wf_typeD simp del: nth_reduced)

lemma mark_nth: "i < length e \<Longrightarrow> off (mark_interned e ! i) = off (e ! i) \<and> nm (mark_interned e ! i) = nm (e ! i) \<and>
    clear_interned (mt (mark_interned e ! i)) = clear_interned (mt (e ! i)) \<and> mt_get_type (mt (mark_interned e ! i)) = mt_get_type (mt (e ! i)) \<and>
    mt_do_transfer (mt (mark_interned e ! i)) = mt_do_transfer (mt (e ! i))"
  by (cases e; cases i) (simp_all add: mark_interned_def)

lemma mark_length [simp]: "length (mark_interned e) = length e"
  by (cases e) (simp_all add: mark_interned_def)

lemma build_rmap_reduced:
  assumes "wf_type d" "length keep = length d"
  shows "build_rmap (mark_interned (reduced d keep)) (length d) (length (kept keep)) = Some (kept keep)"
proof -
  define e where "e = mark_interned (reduced d keep)"
  have e: "off (e ! i) = (if keep ! i then int (rank keep i) - int i else OCS_CULL_ABSENT)" if "i < length d" for i
    using that mark_nth[of i "reduced d keep"] by (simp add: e_def reduced_field_def)
  have a: "off (e ! i) \<noteq> OCS_CULL_ABSENT \<longleftrightarrow> keep ! i" if "i < length d" for i
    using that reduced_absent[of i d keep] mark_nth[of i "reduced d keep"] assms(1) by (simp add: e_def wf_typeD)
  define I where "I = (\<lambda>(prev :: nat list) (m :: nat list). length m = length (kept keep) \<and> (\<forall>i \<in> set prev. keep ! i \<longrightarrow> m ! rank keep i = i))"
  let ?f = "\<lambda>pos m. if off (e ! pos) \<noteq> OCS_CULL_ABSENT then
               (let slot = int pos + off (e ! pos) in if 0 \<le> slot \<and> slot < int (length (kept keep)) then Some (m[nat slot := pos]) else None)
             else Some m"
  have inj: "rank keep i \<noteq> rank keep j" if "i \<noteq> j" "i < length d" "j < length d" "keep ! i" "keep ! j" for i j
    using that assms(2) kept_rank[of i keep] kept_rank[of j keep] by auto
  have "\<exists>m. foldo ?f [0..<length d] (replicate (length (kept keep)) 0) = Some m \<and> I' [0..<length d] m"
    if "I' = (\<lambda>prev m. I prev m \<and> set prev \<subseteq> {..<length d})" for I'
  proof (rule foldo_invariant)
    show "I' [] (replicate (length (kept keep)) 0)" by (simp add: that I_def)
    fix prev x m
    assume x: "x \<in> set [0..<length d]" and inv: "I' prev m"
    show "\<exists>m'. ?f x m = Some m' \<and> I' (prev @ [x]) m'"
    proof (cases "keep ! x")
      case True
      then have r: "rank keep x < length (kept keep)" using kept_rank x assms(2) by simp
      have "?f x m = Some (m[rank keep x := x])" using True x r a[of x] e[of x] by (simp add: Let_def)
      moreover have "I' (prev @ [x]) (m[rank keep x := x])"
        using inv r x inj[of x] True unfolding that I_def by (auto simp: nth_list_update subset_iff)
      ultimately show ?thesis by blast
    next
      case False
      then show ?thesis using x a[of x] inv by (simp add: that I_def)
    qed
  qed
  then obtain m where m: "build_rmap e (length d) (length (kept keep)) = Some m" "I [0..<length d] m"
    unfolding build_rmap_def by blast
  have "m = kept keep"
  proof (rule nth_equalityI)
    show "length m = length (kept keep)" using m(2) by (simp add: I_def)
    fix j
    assume "j < length m"
    then have j: "j < length (kept keep)" using m(2) by (simp add: I_def)
    define i where "i = kept keep ! j"
    have "i \<in> set (kept keep)" using j by (simp add: i_def del: set_kept)
    then have i: "i < length d" "keep ! i" using assms(2) by simp_all
    then have "kept keep ! rank keep i = kept keep ! j" "rank keep i < length (kept keep)"
      using kept_rank[of i keep] assms(2) by (simp_all add: i_def)
    then have "rank keep i = j" using j distinct_kept nth_eq_iff_index_eq by blast
    then show "m ! j = kept keep ! j" using m(2) i by (auto simp: I_def i_def)
  qed
  then show ?thesis using m(1) by (simp add: e_def)
qed


section \<open>Descriptors that lists and elements hold\<close>

definition holds :: "name_space \<Rightarrow> descriptor \<Rightarrow> fields \<Rightarrow> bool list \<Rightarrow> bool" where
  \<comment> \<open>the descriptor is the one for the fields \<open>keep\<close> of the type \<open>d\<close>\<close>
  "holds ns dp d keep \<longleftrightarrow> known_type ns d \<and> length keep = length d \<and> 0 < length (kept keep) \<and>
     (case dp of
        Static d' \<Rightarrow> d' = d \<and> length (kept keep) = length d
      | Counted a h \<Rightarrow> length (kept keep) < length d \<and> entries h = mark_interned (reduced d keep) \<and> hn h = length d \<and>
          np h = length (kept keep) \<and> rmap h = kept keep
      | Plain d' \<Rightarrow> False)"

lemma holds_static: "wf_ns ns \<Longrightarrow> known_type ns d \<Longrightarrow> holds ns (Static d) d (replicate (length d) True)"
  using known_wf[of ns d] kept_all[of "replicate (length d) True"] wf_typeD(1)[of d] by (simp add: holds_def list_all_iff)

lemma holdsD:
  assumes "wf_ns ns" "holds ns dp d keep"
  shows "known_type ns d" "wf_type d" "length keep = length d" "0 < length (kept keep)"
    "length (fields_of dp) = length d" "count_entries (fields_of dp) = length d"
    "i < length d \<Longrightarrow> nm (fields_of dp ! i) = nm (d ! i)"
    "i < length d \<Longrightarrow> mt_get_type (mt (fields_of dp ! i)) = mt_get_type (mt (d ! i))"
    "i < length d \<Longrightarrow> mt_do_transfer (mt (fields_of dp ! i)) = mt_do_transfer (mt (d ! i))"
    "ocs_cull_descr_is_counted dp \<longleftrightarrow> length (kept keep) < length d"
proof -
  show k: "known_type ns d" "length keep = length d" "0 < length (kept keep)" using assms(2) by (simp_all add: holds_def)
  show w: "wf_type d" using known_wf assms(1) k(1) by blast
  note f = wf_typeD(4)[OF w, unfolded plain_field_def]
  show l: "length (fields_of dp) = length d" using assms(2) by (cases dp) (auto simp: holds_def)
  have n: "nm (fields_of dp ! i) = nm (d ! i) \<and> mt_get_type (mt (fields_of dp ! i)) = mt_get_type (mt (d ! i)) \<and>
      mt_do_transfer (mt (fields_of dp ! i)) = mt_do_transfer (mt (d ! i))" if "i < length d" for i
    using assms(2) that mark_nth[of i "reduced d keep"] by (cases dp) (auto simp: holds_def reduced_field_def)
  show "i < length d \<Longrightarrow> nm (fields_of dp ! i) = nm (d ! i)"
    "i < length d \<Longrightarrow> mt_get_type (mt (fields_of dp ! i)) = mt_get_type (mt (d ! i))"
    "i < length d \<Longrightarrow> mt_do_transfer (mt (fields_of dp ! i)) = mt_do_transfer (mt (d ! i))" using n by simp_all
  show "count_entries (fields_of dp) = length d"
    using count_entries_all[of "fields_of dp"] n f l by (auto simp: list_all_length)
  obtain x xs where d: "d = x # xs" using wf_typeD(1)[OF w] by (cases d) auto
  then have x: "clear_interned (mt x) = mt x" using f[of 0] by simp
  have "clear_interned (mt x) AND CULL_DESCR_INTERNED = 0"
    by (simp add: clear_interned_def and.assoc)
  then have "mt x AND CULL_DESCR_INTERNED = 0" by (simp only: x)
  moreover have "(m OR CULL_DESCR_INTERNED) AND CULL_DESCR_INTERNED \<noteq> 0" for m
  proof -
    have "(m OR CULL_DESCR_INTERNED) AND CULL_DESCR_INTERNED = CULL_DESCR_INTERNED" by (rule bit_word_eqI) (auto simp: bit_simps)
    then show ?thesis by (simp add: CULL_DESCR_INTERNED_def)
  qed
  moreover have "reduced d keep = reduced_field keep 0 x # tl (reduced d keep)"
    using d by (simp add: reduced_def upt_conv_Cons del: upt_Suc)
  ultimately show "ocs_cull_descr_is_counted dp \<longleftrightarrow> length (kept keep) < length d"
    using assms(2) d by (cases dp) (auto simp: holds_def ocs_cull_descr_is_counted_def mark_interned_def split: list.splits)
qed


lemma flag_set: "(m OR CULL_DESCR_INTERNED) AND CULL_DESCR_INTERNED = CULL_DESCR_INTERNED"
  "((m OR CULL_IS_REDUCED) OR CULL_DESCR_INTERNED) AND CULL_IS_REDUCED = CULL_IS_REDUCED"
  by (rule bit_word_eqI; auto simp: bit_simps)+

lemma flag_nonzero: "CULL_DESCR_INTERNED \<noteq> 0" "CULL_IS_REDUCED \<noteq> 0"
  by (simp_all add: CULL_DESCR_INTERNED_def CULL_IS_REDUCED_def)

lemma reduced_Cons: "d \<noteq> [] \<Longrightarrow> reduced d keep = reduced_field keep 0 (d ! 0) # tl (reduced d keep)"
  by (cases d) (simp_all add: reduced_def upt_conv_Cons del: upt_Suc)

lemma kept_full: "length (kept keep) = length keep \<Longrightarrow> kept keep = [0..<length keep]"
  unfolding kept_all by (simp add: kept_def list_all_length)

lemma present_fields_holds:
  assumes "wf_ns ns" "holds ns dp d keep"
  shows "ocs_cull_present_fields dp = map (\<lambda>j. (kept keep ! j, int j)) [0..<length (kept keep)]"
proof -
  note h = holdsD[OF assms]
  have ne: "d \<noteq> []" using wf_typeD(1)[OF h(2)] .
  show ?thesis
  proof (cases dp)
    case (Static d')
    then have d': "d' = d" "kept keep = [0..<length d]" using assms(2) kept_full[of keep] h(3) by (auto simp: holds_def)
    have "mt (d ! 0) AND CULL_IS_REDUCED = 0" using wf_typeD(4)[OF h(2), of 0] ne by (simp add: plain_field_def)
    then show ?thesis using d' Static ne h(6) by (auto simp: ocs_cull_present_fields_def Let_def simp del: upt_Suc split: list.splits)
  next
    case (Counted a x)
    then have x: "entries x = mark_interned (reduced d keep)" "np x < hn x" "np x = length (kept keep)" "rmap x = kept keep"
      using assms(2) by (auto simp: holds_def)
    define f where "f = (reduced_field keep 0 (d ! 0))\<lparr>mt := mt (reduced_field keep 0 (d ! 0)) OR CULL_DESCR_INTERNED\<rparr>"
    have e: "entries x = f # tl (reduced d keep)"
      unfolding x(1) mark_interned_def f_def by (subst reduced_Cons[OF ne]) simp
    have "mt f AND CULL_IS_REDUCED \<noteq> 0" "mt f AND CULL_DESCR_INTERNED \<noteq> 0"
      using flag_set flag_nonzero by (simp_all add: f_def reduced_field_def)
    then show ?thesis using x(2-4) Counted e by (simp add: ocs_cull_present_fields_def Let_def)
  qed (use assms(2) in \<open>simp add: holds_def\<close>)
qed

lemma lCountPresent_holds:
  assumes "wf_ns ns" "holds ns dp d keep"
  shows "lCountPresent dp = length (kept keep)"
proof (cases dp)
  case (Static d')
  then have d': "d' = d" "length (kept keep) = length d" using assms(2) by (auto simp: holds_def)
  have "off (d ! i) \<noteq> OCS_CULL_ABSENT" if "i < length d" for i
    using wf_typeD(4)[OF holdsD(2)[OF assms] that] by (simp add: plain_field_def OCS_CULL_ABSENT_def)
  then have "count_present d (length d) = length d" unfolding count_present_def by (subst filter_True) auto
  then show ?thesis using Static d' holdsD(6)[OF assms] by (simp add: lCountPresent_def)
next
  case (Counted a x)
  then show ?thesis using assms(2) holdsD(10)[OF assms] by (simp add: lCountPresent_def holds_def)
qed (use assms(2) in \<open>simp add: holds_def\<close>)

lemma is_static_known: "wf_ns ns \<Longrightarrow> known_type ns d \<Longrightarrow> ocs_cull_descr_is_static ns (Static d)"
proof -
  assume a: "wf_ns ns" "known_type ns d"
  note h = holds_static[OF a]
  have k: "length (kept (replicate (length d) True)) = length d" using h by (simp add: holds_def)
  then have "\<not> ocs_cull_descr_is_counted (Static d)" using holdsD(10)[OF a(1) h] by simp
  moreover have "static_block_for ns d = Some d"
    using static_for_known[OF a] wf_typeD(1)[OF known_wf[OF a]] by (cases d) (simp_all add: static_block_for_def)
  ultimately show ?thesis by (simp add: ocs_cull_descr_is_static_def)
qed

text \<open>The builder yields the descriptor of the kept fields.\<close>

lemma intern_reduced:
  assumes "wf_ns ns" "known_type ns d" "length keep = length d" "0 < length (kept keep)" "length (kept keep) < length d"
  shows "\<exists>dp. intern share (reduced d keep) = Some dp \<and> holds ns dp d keep"
proof -
  have w: "wf_type d" using known_wf assms(1,2) by blast
  have "build_rmap (mark_interned (take (length d) (reduced d keep))) (length d) (length (kept keep)) = Some (kept keep)"
    using build_rmap_reduced[OF w assms(3)] by simp
  then show ?thesis
    using assms count_entries_reduced[OF w] count_present_reduced[OF w assms(3)]
    by (simp add: intern_def alloc_counted_def Let_def holds_def)
qed

lemma build_holds:
  assumes "wf_ns ns" "known_type ns d" "length keep = length d" "0 < length (kept keep)"
  shows "\<exists>dp. ocs_cull_descr_build ns share (Static d) keep = Some (Some dp) \<and> holds ns dp d keep"
proof (cases "length (kept keep) < length d")
  case True
  then show ?thesis
    using intern_reduced[OF assms True, of share] layout_reduced[OF known_wf[OF assms(1,2)] assms(3) True] assms(4)
      count_entries_type[OF known_wf[OF assms(1,2)]]
    by (auto simp: ocs_cull_descr_build_def)
next
  case False
  then have full: "length (kept keep) = length d" using rank_small[of keep "length keep"] assms(3) by (simp add: kept_length)
  obtain out where "ocs_cull_descr_layout d keep = Some (length d, out)"
    using layout_kept[OF known_wf[OF assms(1,2)] assms(3)] full by auto
  moreover have s: "ocs_cull_descr_is_static ns (Static d)" by (rule is_static_known[OF assms(1,2)])
  ultimately have "ocs_cull_descr_build ns share (Static d) keep = Some (Some (Static d))"
    using full assms(4) count_entries_type[OF known_wf[OF assms(1,2)]]
    by (simp add: ocs_cull_descr_build_def ocs_cull_descr_acquire_def Let_def ocs_cull_descr_is_static_def)
  then show ?thesis using assms full by (simp add: holds_def)
qed

end
