(* ===== verification/CullPack_Correct.thy ===== *)
theory CullPack_Correct
  imports CullPack CullDescr_Correct PackBuffer_Correct
begin

text \<open>
  What is packed is unpacked: \<open>emits\<close> says which bytes a step of packing adds, \<open>reads\<close> what a step of unpacking
  makes of them, and \<open>transmits\<close> joins both, with the tables of descriptors of sender and receiver kept in step.
\<close>

section \<open>Bytes added and bytes read\<close>

definition adds :: "byte list \<Rightarrow> sge_pack_buffer \<Rightarrow> sge_pack_buffer \<Rightarrow> bool" where
  "adds bs pb pb' \<longleftrightarrow> wf_pack pb' \<and> contents pb' = contents pb @ bs \<and> version pb' = version pb \<and> auth_info pb' = auth_info pb"

definition emits :: "packer \<Rightarrow> descriptor list \<Rightarrow> byte list \<Rightarrow> descriptor list \<Rightarrow> bool" where
  "emits f tab bs tab' \<longleftrightarrow> (\<forall>pb. wf_pack pb \<longrightarrow> (\<exists>pb'. f (pb, tab) = Some (PACK_SUCCESS, (pb', tab')) \<and> adds bs pb pb'))"

definition reads :: "'a unpacker \<Rightarrow> descriptor list \<Rightarrow> byte list \<Rightarrow> 'a \<Rightarrow> descriptor list \<Rightarrow> bool" where
  "reads u tab bs x tab' \<longleftrightarrow> (\<forall>pb r. wf_pack pb \<longrightarrow> rest pb = bs @ r \<longrightarrow>
     (\<exists>pb'. u (pb, tab) = Some (Inr x, (pb', tab')) \<and> wf_pack pb' \<and> rest pb' = r))"

lemma emits_pseq: "emits f tab bs tab1 \<Longrightarrow> emits g tab1 cs tab2 \<Longrightarrow> emits (pseq f g) tab (bs @ cs) tab2"
proof -
  assume f: "emits f tab bs tab1" and g: "emits g tab1 cs tab2"
  show ?thesis
    unfolding emits_def
  proof (intro allI impI)
    fix pb
    assume "wf_pack pb"
    then obtain pb1 where 1: "f (pb, tab) = Some (PACK_SUCCESS, (pb1, tab1))" "adds bs pb pb1"
      using f unfolding emits_def by blast
    then obtain pb2 where "g (pb1, tab1) = Some (PACK_SUCCESS, (pb2, tab2))" "adds cs pb1 pb2"
      using g unfolding emits_def adds_def by blast
    then show "\<exists>pb'. pseq f g (pb, tab) = Some (PACK_SUCCESS, (pb', tab2)) \<and> adds (bs @ cs) pb pb'"
      using 1 by (auto simp: pseq_def adds_def)
  qed
qed

lemma reads_ubind: "reads m tab bs x tab1 \<Longrightarrow> reads (k x) tab1 cs y tab2 \<Longrightarrow> reads (ubind m k) tab (bs @ cs) y tab2"
proof -
  assume m: "reads m tab bs x tab1" and k: "reads (k x) tab1 cs y tab2"
  show ?thesis
    unfolding reads_def
  proof (intro allI impI)
    fix pb r
    assume "wf_pack pb" "rest pb = (bs @ cs) @ r"
    then obtain pb1 where 1: "m (pb, tab) = Some (Inr x, (pb1, tab1))" "wf_pack pb1" "rest pb1 = cs @ r"
      using m unfolding reads_def by (metis append.assoc)
    then obtain pb2 where "k x (pb1, tab1) = Some (Inr y, (pb2, tab2))" "wf_pack pb2" "rest pb2 = r"
      using k unfolding reads_def by blast
    then show "\<exists>pb'. ubind m k (pb, tab) = Some (Inr y, (pb', tab2)) \<and> wf_pack pb' \<and> rest pb' = r"
      using 1 by (simp add: ubind_def)
  qed
qed

lemma emits_pdone: "emits pdone tab [] tab"
  by (simp add: emits_def pdone_def adds_def)

lemma reads_uret: "reads (uret x) tab [] x tab"
  by (simp add: reads_def uret_def)

lemma reads_map: "reads m tab bs x tab' \<Longrightarrow> reads (ubind m (\<lambda>x. uret (h x))) tab bs (h x) tab'"
  using reads_ubind[of m tab bs x tab' "\<lambda>x. uret (h x)" "[]", OF _ reads_uret] by simp

text \<open>The functions of the pack buffer, which need no bound on the size.\<close>

lemma lift_emits:
  assumes "\<And>pb. wf_pack pb \<Longrightarrow> \<exists>pb'. f pb = Some (PACK_SUCCESS, pb') \<and> appends bs pb pb'"
  shows "emits (lift_pack f) tab bs tab"
  unfolding emits_def lift_pack_def
proof (intro allI impI)
  fix pb
  assume "wf_pack pb"
  then obtain pb' where "f pb = Some (PACK_SUCCESS, pb')" "appends bs pb pb'" using assms by blast
  then show "\<exists>pb'. (case (pb, tab) of (pb, tab) \<Rightarrow> f pb \<bind> (\<lambda>(ret, pb1). Some (ret, pb1, tab))) = Some (PACK_SUCCESS, pb', tab) \<and> adds bs pb pb'"
    by (auto simp: appends_def adds_def)
qed

lemma lift_reads:
  assumes "\<And>pb r. wf_pack pb \<Longrightarrow> rest pb = bs @ r \<Longrightarrow> f pb = Some (PACK_SUCCESS, x, advance (length bs) pb)"
  shows "reads (lift_unpack f) tab bs x tab"
  unfolding reads_def lift_unpack_def using assms wf_advance[of _ "length bs"] by simp

lemma emits_pint [intro!]: "emits (pint i) tab (net_bytes INTSIZE i) tab"
  unfolding pint_def packint_def
  by (intro lift_emits pack_bytes_appends) (auto intro: enlarges_once sizes_le)

lemma reads_uint32 [intro!]: "reads uint32 tab (net_bytes INTSIZE i) i tab"
  unfolding uint32_def by (rule lift_reads) (simp add: unpack_simps)

lemma emits_int64: "emits (lift_pack (packint64 i)) tab (net_bytes (INTSIZE * 2) i) tab"
  unfolding packint64_def
  by (intro lift_emits pack_bytes_appends) (auto intro: enlarges_once sizes_le)

lemma reads_int64: "reads (lift_unpack unpackint64) tab (net_bytes (INTSIZE * 2) i) i tab"
  by (rule lift_reads) (simp add: unpack_simps)

lemma emits_double: "emits (lift_pack (packdouble i)) tab (net_bytes DOUBLESIZE i) tab"
  unfolding packdouble_def
  by (intro lift_emits pack_bytes_appends) (auto intro: enlarges_once sizes_le)

lemma reads_double: "reads (lift_unpack unpackdouble) tab (net_bytes DOUBLESIZE i) i tab"
  by (rule lift_reads) (simp add: unpack_simps)

lemma packstr_appends: "wf_pack pb \<Longrightarrow> \<exists>pb'. packstr t pb = Some (PACK_SUCCESS, pb') \<and> appends (enc_str t) pb pb'"
  using pack_bytes_appends[of pb "grow_once 1" "[0]"] enlarges_once[of pb 1] sizes_le
    pack_bytes_appends[of pb "grow_to (length (the t) + 1)" "bytes_of_string (the t) @ [0]"] enlarges_to[of pb "length (the t) + 1"]
  by (cases t) (simp_all add: packstr_def enc_str_def Let_def)

lemma emits_pstr: "emits (pstr t) tab (enc_str t) tab"
  unfolding pstr_def by (rule lift_emits) (rule packstr_appends)

lemma reads_ustr: "valid_str t \<Longrightarrow> reads ustr tab (enc_str t) (norm_str t) tab"
  unfolding ustr_def by (rule lift_reads) (rule unpackstr_reads)

section \<open>Sender and receiver in step\<close>

definition agree :: "name_space \<Rightarrow> descriptor \<Rightarrow> descriptor \<Rightarrow> bool" where
  "agree ns d dR \<longleftrightarrow> (\<exists>t keep. holds ns d t keep \<and> holds ns dR t keep)"

definition of_heap :: "(nat \<Rightarrow> cull_descr_header) \<Rightarrow> descriptor \<Rightarrow> bool" where
  \<comment> \<open>an address determines its contents\<close>
  "of_heap hp d \<longleftrightarrow> (case d of Counted a h \<Rightarrow> h = hp a | _ \<Rightarrow> True)"

definition tables :: "name_space \<Rightarrow> (nat \<Rightarrow> cull_descr_header) \<Rightarrow> descriptor list \<Rightarrow> descriptor list \<Rightarrow> bool" where
  "tables ns hp tab tabR \<longleftrightarrow> list_all2 (agree ns) tab tabR \<and> list_all (of_heap hp) tab"

definition transmits ::
    "name_space \<Rightarrow> (nat \<Rightarrow> cull_descr_header) \<Rightarrow> packer \<Rightarrow> (nat \<Rightarrow> 'a unpacker) \<Rightarrow> ('a \<Rightarrow> bool) \<Rightarrow> nat \<Rightarrow> bool" where
  \<comment> \<open>at most \<open>k\<close> descriptors enter the tables; the fuel is at least the number of bytes\<close>
  "transmits ns hp f u Q k \<longleftrightarrow> (\<forall>tab tabR. tables ns hp tab tabR \<longrightarrow> length tab + k \<le> 2 ^ 32 \<longrightarrow>
     (\<exists>bs tab' tabR' x. emits f tab bs tab' \<and> (\<forall>fuel. length bs \<le> fuel \<longrightarrow> reads (u fuel) tabR bs x tabR') \<and>
        tables ns hp tab' tabR' \<and> length tab' \<le> length tab + k \<and> Q x))"

lemma transmits_bind:
  assumes "transmits ns hp f u Q k" "\<And>x. Q x \<Longrightarrow> transmits ns hp g (\<lambda>fuel. v fuel x) R j"
  shows "transmits ns hp (pseq f g) (\<lambda>fuel. ubind (u fuel) (v fuel)) R (k + j)"
  unfolding transmits_def
proof (intro allI impI)
  fix tab tabR
  assume t: "tables ns hp tab tabR" "length tab + (k + j) \<le> 2 ^ 32"
  then obtain bs tab1 tabR1 x where 1: "emits f tab bs tab1" "\<forall>fuel. length bs \<le> fuel \<longrightarrow> reads (u fuel) tabR bs x tabR1"
      "tables ns hp tab1 tabR1" "length tab1 \<le> length tab + k" "Q x"
    using assms(1) unfolding transmits_def by (metis add.assoc add_leD1)
  have "length tab1 + j \<le> 2 ^ 32" using 1(4) t(2) by simp
  then obtain cs tab2 tabR2 y where 2: "emits g tab1 cs tab2" "\<forall>fuel. length cs \<le> fuel \<longrightarrow> reads (v fuel x) tabR1 cs y tabR2"
      "tables ns hp tab2 tabR2" "length tab2 \<le> length tab1 + j" "R y"
    using assms(2)[OF 1(5)] 1(3) unfolding transmits_def by blast
  have "reads (ubind (u fuel) (v fuel)) tabR (bs @ cs) y tabR2" if "length (bs @ cs) \<le> fuel" for fuel
    by (rule reads_ubind[of _ _ _ x tabR1]) (use 1(2) 2(2) that in auto)
  then have "\<forall>fuel. length (bs @ cs) \<le> fuel \<longrightarrow> reads (ubind (u fuel) (v fuel)) tabR (bs @ cs) y tabR2" by blast
  moreover have "emits (pseq f g) tab (bs @ cs) tab2" using emits_pseq 1(1) 2(1) by blast
  ultimately show "\<exists>bs tab' tabR' x. emits (pseq f g) tab bs tab' \<and> (\<forall>fuel. length bs \<le> fuel \<longrightarrow> reads (ubind (u fuel) (v fuel)) tabR bs x tabR') \<and>
      tables ns hp tab' tabR' \<and> length tab' \<le> length tab + (k + j) \<and> R x"
    using 1(4) 2(3-5) by (metis add.assoc add_le_mono1 order_trans)
qed

lemma transmits_leaf:
  assumes "\<And>tab. emits f tab bs tab" "\<And>tab. reads u tab bs x tab" "Q x"
  shows "transmits ns hp f (\<lambda>fuel. u) Q k"
  using assms unfolding transmits_def by (metis le_add1)

lemma transmits_int: "Q i \<Longrightarrow> transmits ns hp (pint i) (\<lambda>fuel. uint32) Q k"
  by (rule transmits_leaf) auto

lemma transmits_conseq:
  assumes "transmits ns hp f u Q k" "\<And>x. Q x \<Longrightarrow> R x" "k \<le> j"
  shows "transmits ns hp f u R j"
  unfolding transmits_def
proof (intro allI impI)
  fix tab tabR
  assume t: "tables ns hp tab tabR" "length tab + j \<le> 2 ^ 32"
  then have "length tab + k \<le> 2 ^ 32" using assms(3) by simp
  then obtain bs tab' tabR' x where "emits f tab bs tab'" "\<forall>fuel. length bs \<le> fuel \<longrightarrow> reads (u fuel) tabR bs x tabR'"
      "tables ns hp tab' tabR'" "length tab' \<le> length tab + k" "Q x"
    using assms(1) t(1) unfolding transmits_def by blast
  moreover have "length tab' \<le> length tab + j" using calculation(4) assms(3) by simp
  ultimately show "\<exists>bs tab' tabR' x. emits f tab bs tab' \<and> (\<forall>fuel. length bs \<le> fuel \<longrightarrow> reads (u fuel) tabR bs x tabR') \<and>
      tables ns hp tab' tabR' \<and> length tab' \<le> length tab + j \<and> R x"
    using assms(2) by blast
qed

lemma transmits_map: "transmits ns hp f u (\<lambda>x. Q (h x)) k \<Longrightarrow> transmits ns hp f (\<lambda>fuel. ubind (u fuel) (\<lambda>x. uret (h x))) Q k"
  unfolding transmits_def
proof (intro allI impI)
  fix tab tabR
  assume f: "\<forall>tab tabR. tables ns hp tab tabR \<longrightarrow> length tab + k \<le> 2 ^ 32 \<longrightarrow>
     (\<exists>bs tab' tabR' x. emits f tab bs tab' \<and> (\<forall>fuel. length bs \<le> fuel \<longrightarrow> reads (u fuel) tabR bs x tabR') \<and>
        tables ns hp tab' tabR' \<and> length tab' \<le> length tab + k \<and> Q (h x))" and t: "tables ns hp tab tabR" "length tab + k \<le> 2 ^ 32"
  then obtain bs tab' tabR' x where "emits f tab bs tab'" "\<forall>fuel. length bs \<le> fuel \<longrightarrow> reads (u fuel) tabR bs x tabR'"
      "tables ns hp tab' tabR'" "length tab' \<le> length tab + k" "Q (h x)" by blast
  moreover have "\<forall>fuel. length bs \<le> fuel \<longrightarrow> reads (ubind (u fuel) (\<lambda>x. uret (h x))) tabR bs (h x) tabR'"
    by (intro allI impI reads_map) (use calculation(2) in simp)
  ultimately show "\<exists>bs tab' tabR' x. emits f tab bs tab' \<and> (\<forall>fuel. length bs \<le> fuel \<longrightarrow> reads (ubind (u fuel) (\<lambda>x. uret (h x))) tabR bs x tabR') \<and>
      tables ns hp tab' tabR' \<and> length tab' \<le> length tab + k \<and> Q x" by blast
qed

text \<open>Nested data is read with one unit of fuel less, behind an integer of at least one byte.\<close>

lemma transmits_nested:
  assumes "transmits ns hp g (\<lambda>fuel. v fuel i) Q k" "\<And>fuel. u (Suc fuel) = ubind uint32 (v fuel)"
  shows "transmits ns hp (pseq (pint i) g) u Q k"
  unfolding transmits_def
proof (intro allI impI)
  fix tab tabR
  assume "tables ns hp tab tabR" "length tab + k \<le> 2 ^ 32"
  then obtain bs tab' tabR' x where 1: "emits g tab bs tab'" "\<forall>fuel. length bs \<le> fuel \<longrightarrow> reads (v fuel i) tabR bs x tabR'"
      "tables ns hp tab' tabR'" "length tab' \<le> length tab + k" "Q x"
    using assms(1) unfolding transmits_def by blast
  have "reads (u fuel) tabR (net_bytes INTSIZE i @ bs) x tabR'" if l: "length (net_bytes INTSIZE i @ bs) \<le> fuel" for fuel
  proof -
    obtain f where f: "fuel = Suc f" "length bs \<le> f" using l by (cases fuel) (auto simp: INTSIZE_def)
    then show ?thesis using reads_ubind[OF reads_uint32, of "v f"] 1(2) assms(2) by simp
  qed
  then show "\<exists>bs tab' tabR' x. emits (pseq (pint i) g) tab bs tab' \<and> (\<forall>fuel. length bs \<le> fuel \<longrightarrow> reads (u fuel) tabR bs x tabR') \<and>
      tables ns hp tab' tabR' \<and> length tab' \<le> length tab + k \<and> Q x"
    using emits_pseq[OF emits_pint 1(1), of i] 1(3-5) by blast
qed


section \<open>Descriptors\<close>

lemma reads_int_bind: "reads (k i) tab cs y tab2 \<Longrightarrow> reads (ubind uint32 k) tab (net_bytes INTSIZE i @ cs) y tab2"
  by (rule reads_ubind[OF reads_uint32])

lemma unat_small [simp]: "n < 2 ^ 32 \<Longrightarrow> unat (word_of_nat n :: 32 word) = n"
  by (simp add: unat_of_nat take_bit_nat_eq_self)

lemma sint_small [simp]: "0 \<le> k \<Longrightarrow> k < 2 ^ 31 \<Longrightarrow> sint (word_of_int k :: 32 word) = k"
  by (simp add: signed_word_eqI sint_uint uint_word_of_int take_bit_int_eq_self signed_take_bit_int_eq_self)

definition marks :: "nat list \<Rightarrow> bool list \<Rightarrow> bool list" where
  "marks ps keep = fold (\<lambda>p k. k[p := True]) ps keep"

lemma marks_nth: "length (marks ps keep) = length keep \<and> (i < length keep \<longrightarrow> marks ps keep ! i = (i \<in> set ps \<or> keep ! i))"
proof (induction ps arbitrary: keep)
  case (Cons p ps)
  have "i < length keep \<Longrightarrow> keep[p := True] ! i = (i = p \<or> keep ! i)"
    by (cases "p < length keep") (auto simp: nth_list_update list_update_beyond)
  then show ?case using Cons[of "keep[p := True]"] by (auto simp: marks_def)
qed (simp add: marks_def)

lemma marks_kept: "marks (kept keep) (replicate (length keep) False) = keep"
  by (rule nth_equalityI) (use marks_nth[of "kept keep" "replicate (length keep) False"] in auto)

definition int_bytes :: "nat list \<Rightarrow> byte list" where
  "int_bytes ps = concat (map (\<lambda>p. net_bytes INTSIZE (word_of_nat p :: 32 word)) ps)"

lemma emits_ints: "emits (pall (\<lambda>p. pint (word_of_nat p)) ps) tab (int_bytes ps) tab"
proof (induction ps)
  case Nil
  then show ?case by (simp add: emits_def int_bytes_def adds_def)
next
  case (Cons p ps)
  have "pall (\<lambda>p. pint (word_of_nat p)) (p # ps) = pseq (pint (word_of_nat p)) (pall (\<lambda>p. pint (word_of_nat p)) ps)" by (rule ext) simp
  then show ?case using emits_pseq[OF emits_pint Cons.IH] by (simp add: int_bytes_def)
qed

lemma reads_indices:
  assumes "sorted_wrt (<) ps" "\<forall>p \<in> set ps. p < length keep \<and> lst < int p" "length keep < 2 ^ 32"
  shows "reads (read_indices (length ps) lst keep) tab (int_bytes ps) (marks ps keep) tab"
  using assms
proof (induction ps arbitrary: lst keep)
  case Nil
  then show ?case using reads_uret[of keep tab] by (simp add: int_bytes_def marks_def)
next
  case (Cons p ps)
  have p: "unat (word_of_nat p :: 32 word) = p" "uint (word_of_nat p :: 32 word) = int p"
    using Cons.prems(2,3) by (simp_all add: take_bit_nat_eq_self unsigned_of_nat)
  have "reads (read_indices (length ps) (int p) (keep[p := True])) tab (int_bytes ps) (marks ps (keep[p := True])) tab"
    by (rule Cons.IH) (use Cons.prems in auto)
  then have "reads (ubind uint32 (\<lambda>i. if unat i \<ge> length keep \<or> uint i \<le> lst then ufail PACK_FORMAT
       else read_indices (length ps) (uint i) (keep[unat i := True]))) tab
       (net_bytes INTSIZE (word_of_nat p :: 32 word) @ int_bytes ps) (marks ps (keep[p := True])) tab"
    by (intro reads_int_bind) (use p Cons.prems(2) in simp)
  then show ?case by (simp add: int_bytes_def marks_def)
qed

lemma field_indices_kept:
  assumes "wf_ns ns" "holds ns d t keep" "set ps \<subseteq> {..<length t}"
  shows "field_indices ns t (fields_of d) ps = Some ps"
  using assms(3)
proof (induction ps)
  case (Cons p ps)
  then have p: "p < length t" by simp
  have "ocs_cull_descr_static_containing ns (nm (fields_of d ! p)) = Some (t, p)"
    using static_containing_known[OF assms(1) holdsD(1)[OF assms(1,2)] p] holdsD(7)[OF assms(1,2) p] by simp
  then show ?case using Cons holdsD(8)[OF assms(1,2) p] by simp
qed simp

lemma table_index_Some: "table_index tab dp = Some k \<Longrightarrow> k < length tab \<and> same_ptr (tab ! k) dp"
  by (induction tab arbitrary: k) (auto split: if_splits)

lemma same_ptr_heap: "same_ptr d d' \<Longrightarrow> of_heap hp d \<Longrightarrow> of_heap hp d' \<Longrightarrow> d = d'"
  by (cases d; cases d') (auto simp: of_heap_def)

lemma holds_unique:
  assumes "wf_ns ns" "holds ns d t keep" "holds ns d t' keep'"
  shows "t = t' \<and> kept keep = kept keep'"
proof -
  note h = holdsD[OF assms(1,2)] and h' = holdsD[OF assms(1,3)]
  have "d ! 0 \<in> set d" if "wf_type d" for d using wf_typeD(1)[OF that] by simp
  moreover have l: "length t = length t'" using h(5) h'(5) by simp
  moreover have "nm (t ! 0) = nm (t' ! 0)" using h(7)[of 0] h'(7)[of 0] wf_typeD(1)[OF h(2)] wf_typeD(1)[OF h'(2)] by simp
  ultimately have t: "t = t'" using known_unique[OF assms(1) h(1) h'(1)] h(2) h'(2) by blast
  show ?thesis
  proof (cases d)
    case (Static x)
    then have "length (kept keep) = length keep" "length (kept keep') = length keep'" using assms(2,3) by (auto simp: holds_def)
    then show ?thesis using t kept_full[of keep] kept_full[of keep'] h(3) h'(3) by simp
  next
    case (Counted a x)
    then show ?thesis using t assms(2,3) by (simp add: holds_def)
  next
    case (Plain x)
    then show ?thesis using assms(2) by (simp add: holds_def)
  qed
qed

lemma kept_determines: "length keep = length keep' \<Longrightarrow> kept keep = kept keep' \<Longrightarrow> keep = keep'"
  using marks_kept by metis

lemma markers: "CULL_PACK_DESCR_TYPE_REF \<noteq> CULL_PACK_DESCR_TABLE_REF" "CULL_PACK_DESCR_TYPE_REF \<noteq> CULL_PACK_DESCR_TABLE_DEF"
  "CULL_PACK_DESCR_TABLE_REF \<noteq> CULL_PACK_DESCR_TABLE_DEF" "CULL_PACK_DESCR_TABLE_REF \<noteq> CULL_PACK_DESCR_TYPE_REF"
  "CULL_PACK_DESCR_TABLE_DEF \<noteq> CULL_PACK_DESCR_TYPE_REF" "CULL_PACK_DESCR_TABLE_DEF \<noteq> CULL_PACK_DESCR_TABLE_REF"
  by (simp_all add: CULL_PACK_DESCR_TYPE_REF_def CULL_PACK_DESCR_TABLE_REF_def CULL_PACK_DESCR_TABLE_DEF_def)


definition got :: "name_space \<Rightarrow> fields \<Rightarrow> bool list \<Rightarrow> descriptor \<times> 32 word \<Rightarrow> bool" where
  \<comment> \<open>the receiver has a descriptor of the same fields and knows how many values follow\<close>
  "got ns t keep r \<longleftrightarrow> holds ns (fst r) t keep \<and> snd r = word_of_nat (length (kept keep))"

lemma length_kept_small: "wf_ns ns \<Longrightarrow> holds ns d t keep \<Longrightarrow> length (kept keep) < 200 \<and> length (kept keep) \<le> length t"
  using rank_small[of keep "length keep"] holdsD(2,3)[of ns d t keep] wf_typeD(2)[of t]
  by (simp add: kept_length MAX_DESCR_SIZE_def)

lemma type_nm_range: "wf_type t \<Longrightarrow> i < length t \<Longrightarrow> 0 \<le> nm (t ! i) \<and> nm (t ! i) < 2 ^ 31"
  using wf_typeD(4)[of t i] by (simp add: plain_field_def)

lemma sint_of_small_nat: "n < 200 \<Longrightarrow> sint (word_of_nat n :: 32 word) = int n"
  using sint_small[of "int n"] by simp

lemma small_nat_nonzero: "0 < n \<Longrightarrow> n < 200 \<Longrightarrow> (word_of_nat n :: 32 word) \<noteq> 0"
proof
  assume n: "0 < n" "n < 200" and "(word_of_nat n :: 32 word) = 0"
  then have "unat (word_of_nat n :: 32 word) = 0" by simp
  moreover have "unat (word_of_nat n :: 32 word) = n" by (rule unat_small) (use n in simp)
  ultimately show False using n by simp
qed

lemma emits_shared_static:
  assumes "wf_ns ns" "holds ns d t keep" "\<not> ocs_cull_descr_is_counted d"
  shows "emits (pack_shared_descr ns d) tab (net_bytes INTSIZE CULL_PACK_DESCR_TYPE_REF @
      net_bytes INTSIZE (word_of_int (nm (t ! 0)) :: 32 word) @ net_bytes INTSIZE (word_of_nat (length (kept keep)) :: 32 word)) tab"
proof -
  have "nm (fields_of d ! 0) = nm (t ! 0)"
    using holdsD(7)[OF assms(1,2), of 0] wf_typeD(1)[OF holdsD(2)[OF assms(1,2)]] by simp
  then have "pack_shared_descr ns d = pseq (pint CULL_PACK_DESCR_TYPE_REF) (pseq (pint (word_of_int (nm (t ! 0)))) (pint (word_of_nat (length (kept keep)))))"
    using assms(3) lCountPresent_holds[OF assms(1,2)] by (intro ext) (simp add: pack_shared_descr_def Let_def)
  then show ?thesis by (auto intro!: emits_pseq)
qed

lemma reads_type_ref:
  assumes "wf_ns ns" "holds ns d t keep" "length (kept keep) = length t"
  shows "reads (cull_unpack_descr ns share 0 None) tab (net_bytes INTSIZE CULL_PACK_DESCR_TYPE_REF @
      net_bytes INTSIZE (word_of_int (nm (t ! 0)) :: 32 word) @ net_bytes INTSIZE (word_of_nat (length (kept keep)) :: 32 word))
      (Static t, word_of_nat (length (kept keep))) tab"
proof -
  note h = holdsD[OF assms(1,2)]
  have n: "0 < length (kept keep)" "length (kept keep) < 200" using h(4) length_kept_small[OF assms(1,2)] by simp_all
  have nm: "0 \<le> nm (t ! 0)" "nm (t ! 0) < 2 ^ 31" using type_nm_range[OF h(2), of 0] wf_typeD(1)[OF h(2)] by simp_all
  have "reads (uret (Static t, word_of_nat (length (kept keep)) :: 32 word)) tab [] (Static t, word_of_nat (length (kept keep))) tab"
    by (rule reads_uret)
  then have "reads (ubind uint32 (\<lambda>count. case ocs_cull_descr_static_for ns (nm (t ! 0)) of
             None \<Rightarrow> ufail PACK_FORMAT
           | Some block \<Rightarrow>
               if count = 0 \<or> sint count > int (lCountDescr block) then ufail PACK_FORMAT
               else uret (Static block, count))) tab (net_bytes INTSIZE (word_of_nat (length (kept keep)) :: 32 word) @ [])
      (Static t, word_of_nat (length (kept keep))) tab"
    using static_for_known[OF assms(1) h(1)] n small_nat_nonzero[OF n] sint_of_small_nat[OF n(2)] assms(3) count_entries_type[OF h(2)]
    by (intro reads_int_bind) (simp add: lCountDescr_def)
  then show ?thesis
    unfolding cull_unpack_descr_def using nm by (intro reads_int_bind) (simp add: reads_int_bind)
qed

lemma emits_shared_known:
  assumes "ocs_cull_descr_is_counted d" "table_index tab d = Some k"
  shows "emits (pack_shared_descr ns d) tab (net_bytes INTSIZE CULL_PACK_DESCR_TABLE_REF @ net_bytes INTSIZE (word_of_nat k :: 32 word)) tab"
proof -
  have "pack_shared_descr ns d (pb, tab) = pseq (pint CULL_PACK_DESCR_TABLE_REF) (pint (word_of_nat k)) (pb, tab)" for pb
    using assms by (simp add: pack_shared_descr_def Let_def)
  moreover have "emits (pseq (pint CULL_PACK_DESCR_TABLE_REF) (pint (word_of_nat k))) tab
      (net_bytes INTSIZE CULL_PACK_DESCR_TABLE_REF @ net_bytes INTSIZE (word_of_nat k :: 32 word)) tab"
    by (auto intro!: emits_pseq)
  ultimately show ?thesis by (simp add: emits_def)
qed

lemma reads_table_ref:
  assumes "k < length tab" "k < 2 ^ 32" "lCountPresent (tab ! k) = n"
  shows "reads (cull_unpack_descr ns share 0 None) tab
      (net_bytes INTSIZE CULL_PACK_DESCR_TABLE_REF @ net_bytes INTSIZE (word_of_nat k :: 32 word)) (tab ! k, word_of_nat n) tab"
proof -
  have "reads (table_entry (word_of_nat k)) tab [] (tab ! k, word_of_nat n) tab"
    using assms by (simp add: reads_def table_entry_def)
  then have "reads (ubind uint32 table_entry) tab (net_bytes INTSIZE (word_of_nat k :: 32 word) @ []) (tab ! k, word_of_nat n) tab"
    by (rule reads_int_bind)
  then show ?thesis
    unfolding cull_unpack_descr_def using markers by (intro reads_int_bind) simp
qed

lemma emits_shared_new:
  assumes "wf_ns ns" "holds ns d t keep" "ocs_cull_descr_is_counted d" "table_index tab d = None"
  shows "emits (pack_shared_descr ns d) tab (net_bytes INTSIZE CULL_PACK_DESCR_TABLE_DEF @ net_bytes INTSIZE CULL_PACK_DESCR_BY_INDEX @
      net_bytes INTSIZE (word_of_int (nm (t ! 0)) :: 32 word) @ net_bytes INTSIZE (word_of_nat (length (kept keep)) :: 32 word) @
      int_bytes (kept keep)) (tab @ [d])"
proof -
  note h = holdsD[OF assms(1,2)]
  have ne: "0 < length t" using wf_typeD(1)[OF h(2)] by simp
  let ?f = "pseq (pint CULL_PACK_DESCR_TABLE_DEF) (pseq (pint CULL_PACK_DESCR_BY_INDEX)
      (pseq (pint (word_of_int (nm (t ! 0)))) (pseq (pint (word_of_nat (length (kept keep)))) (pall (\<lambda>p. pint (word_of_nat p)) (kept keep)))))"
  have "ocs_cull_descr_static_containing ns (nm (fields_of d ! 0)) = Some (t, 0)"
    using static_containing_known[OF assms(1) h(1) ne] h(7)[OF ne] by simp
  moreover have "map fst (ocs_cull_present_fields d) = kept keep"
    unfolding present_fields_holds[OF assms(1,2)] by (simp add: comp_def map_nth)
  moreover have "field_indices ns t (fields_of d) (kept keep) = Some (kept keep)"
    by (rule field_indices_kept[OF assms(1,2)]) (use h(3) in auto)
  ultimately have "pack_shared_descr ns d (pb, tab) = ?f (pb, tab @ [d])" for pb
    using assms(3,4) lCountPresent_holds[OF assms(1,2)] h(4) by (simp add: pack_shared_descr_def Let_def)
  moreover have "emits ?f (tab @ [d]) (net_bytes INTSIZE CULL_PACK_DESCR_TABLE_DEF @ net_bytes INTSIZE CULL_PACK_DESCR_BY_INDEX @
      net_bytes INTSIZE (word_of_int (nm (t ! 0)) :: 32 word) @ net_bytes INTSIZE (word_of_nat (length (kept keep)) :: 32 word) @
      int_bytes (kept keep)) (tab @ [d])"
    by (rule emits_pseq[OF emits_pint emits_pseq[OF emits_pint emits_pseq[OF emits_pint emits_pseq[OF emits_pint emits_ints]]]])
  ultimately show ?thesis by (simp add: emits_def)
qed

lemma reads_table_def:
  assumes "wf_ns ns" "holds ns d t keep"
  shows "\<exists>dR. holds ns dR t keep \<and> reads (cull_unpack_descr ns share 0 None) tab
     (net_bytes INTSIZE CULL_PACK_DESCR_TABLE_DEF @ net_bytes INTSIZE CULL_PACK_DESCR_BY_INDEX @
      net_bytes INTSIZE (word_of_int (nm (t ! 0)) :: 32 word) @ net_bytes INTSIZE (word_of_nat (length (kept keep)) :: 32 word) @
      int_bytes (kept keep)) (dR, word_of_nat (length (kept keep))) (tab @ [dR])"
proof -
  note h = holdsD[OF assms]
  have n: "0 < length (kept keep)" "length (kept keep) < 200" "length (kept keep) \<le> length t"
    using h(4) length_kept_small[OF assms] by simp_all
  have nm: "0 \<le> nm (t ! 0)" "nm (t ! 0) < 2 ^ 31" using type_nm_range[OF h(2), of 0] wf_typeD(1)[OF h(2)] by simp_all
  obtain dR where dR: "ocs_cull_descr_build ns share (Static t) keep = Some (Some dR)" "holds ns dR t keep"
    using build_holds[OF assms(1) h(1,3,4)] by blast
  have c: "lCountDescr t = length t" using count_entries_type[OF h(2)] by (simp add: lCountDescr_def)
  have "sorted_wrt (<) (kept keep)" using sorted_kept distinct_kept by (simp add: strict_sorted_iff)
  then have idx: "reads (read_indices (length (kept keep)) (- 1) (replicate (length t) False)) tab (int_bytes (kept keep)) keep tab"
    using reads_indices[of "kept keep" "replicate (length t) False" "- 1"] marks_kept[of keep] h(3) wf_typeD(2)[OF h(2)]
    by (simp add: MAX_DESCR_SIZE_def)
  have "reads (enter (Some (Some dR))) tab [] dR (tab @ [dR])" by (simp add: reads_def enter_def)
  then have "reads (ubind (enter (Some (Some dR))) (\<lambda>d. uret (d, word_of_nat (length (kept keep)) :: 32 word))) tab []
      (dR, word_of_nat (length (kept keep))) (tab @ [dR])"
    by (rule reads_map)
  then have "reads (ubind (read_indices (length (kept keep)) (- 1) (replicate (length t) False)) (\<lambda>keep.
             if (word_of_nat (length (kept keep')) :: 32 word) = 0 then ufail PACK_FORMAT
             else ubind (enter (ocs_cull_descr_build ns share (Static t) keep)) (\<lambda>d. uret (d, word_of_nat (length (kept keep')) :: 32 word))))
      tab (int_bytes (kept keep) @ []) (dR, word_of_nat (length (kept keep))) (tab @ [dR])" if "keep' = keep" for keep'
    unfolding that by (intro reads_ubind[OF idx]) (use small_nat_nonzero[OF n(1,2)] dR(1) in simp)
  from this[OF refl]
  have "reads (unpack_descr_indices ns share) tab
     (net_bytes INTSIZE (word_of_int (nm (t ! 0)) :: 32 word) @ net_bytes INTSIZE (word_of_nat (length (kept keep)) :: 32 word) @
      int_bytes (kept keep)) (dR, word_of_nat (length (kept keep))) (tab @ [dR])"
    unfolding unpack_descr_indices_def using nm static_for_known[OF assms(1) h(1)] n c
    by (intro reads_int_bind) simp
  then have "reads (cull_unpack_descr ns share 0 None) tab
     (net_bytes INTSIZE CULL_PACK_DESCR_TABLE_DEF @ net_bytes INTSIZE CULL_PACK_DESCR_BY_INDEX @
      net_bytes INTSIZE (word_of_int (nm (t ! 0)) :: 32 word) @ net_bytes INTSIZE (word_of_nat (length (kept keep)) :: 32 word) @
      int_bytes (kept keep)) (dR, word_of_nat (length (kept keep))) (tab @ [dR])"
    unfolding cull_unpack_descr_def using markers by (intro reads_int_bind) (simp add: reads_int_bind)
  then show ?thesis using dR(2) by blast
qed


lemma pack_descr_held:
  assumes "wf_ns ns" "holds ns d t keep"
  shows "cull_pack_descr ns share d 0 = pack_shared_descr ns d"
proof -
  have "ocs_cull_descr_is_counted d \<or> ocs_cull_descr_is_static ns d"
  proof (cases d)
    case (Static t')
    then show ?thesis using assms is_static_known by (auto simp: holds_def)
  next
    case (Counted a h)
    then show ?thesis using assms holdsD(10) by (auto simp: holds_def)
  qed (use assms(2) in \<open>simp add: holds_def\<close>)
  then show ?thesis by (simp add: cull_pack_descr_def)
qed

lemma tables_grow: "tables ns hp tab tabR \<Longrightarrow> of_heap hp d \<Longrightarrow> holds ns d t keep \<Longrightarrow> holds ns dR t keep \<Longrightarrow>
    tables ns hp (tab @ [d]) (tabR @ [dR])"
  unfolding tables_def using list_all2_appendI[of "agree ns" tab tabR "[d]" "[dR]"] by (auto simp: agree_def)

lemma descr_transmits:
  assumes "wf_ns ns" "holds ns d t keep" "of_heap hp d"
  shows "transmits ns hp (cull_pack_descr ns share d 0) (\<lambda>fuel. cull_unpack_descr ns share' 0 None) (got ns t keep) 1"
  unfolding transmits_def pack_descr_held[OF assms(1,2)]
proof (intro allI impI)
  fix tab tabR
  assume t: "tables ns hp tab tabR" "length tab + 1 \<le> 2 ^ 32"
  note h = holdsD[OF assms(1,2)]
  let ?P = "\<lambda>bs tab' tabR' x. emits (pack_shared_descr ns d) tab bs tab' \<and> (\<forall>fuel. length bs \<le> fuel \<longrightarrow> reads (cull_unpack_descr ns share' 0 None) tabR bs x tabR') \<and>
      tables ns hp tab' tabR' \<and> length tab' \<le> length tab + 1 \<and> got ns t keep x"
  show "\<exists>bs tab' tabR' x. ?P bs tab' tabR' x"
  proof (cases "ocs_cull_descr_is_counted d")
    case False
    then have full: "length (kept keep) = length t" using h(10) length_kept_small[OF assms(1,2)] by simp
    then have "holds ns (Static t) t keep" using assms(2) by (simp add: holds_def)
    then have "?P (net_bytes INTSIZE CULL_PACK_DESCR_TYPE_REF @ net_bytes INTSIZE (word_of_int (nm (t ! 0)) :: 32 word) @
        net_bytes INTSIZE (word_of_nat (length (kept keep)) :: 32 word)) tab tabR (Static t, word_of_nat (length (kept keep)))"
      using emits_shared_static[OF assms(1,2) False] reads_type_ref[OF assms(1,2) full] t(1) by (simp add: got_def)
    then show ?thesis by blast
  next
    case True
    show ?thesis
    proof (cases "table_index tab d")
      case None
      obtain dR where "holds ns dR t keep" "reads (cull_unpack_descr ns share' 0 None) tabR
         (net_bytes INTSIZE CULL_PACK_DESCR_TABLE_DEF @ net_bytes INTSIZE CULL_PACK_DESCR_BY_INDEX @
          net_bytes INTSIZE (word_of_int (nm (t ! 0)) :: 32 word) @ net_bytes INTSIZE (word_of_nat (length (kept keep)) :: 32 word) @
          int_bytes (kept keep)) (dR, word_of_nat (length (kept keep))) (tabR @ [dR])"
        using reads_table_def[OF assms(1,2)] by blast
      then have "?P (net_bytes INTSIZE CULL_PACK_DESCR_TABLE_DEF @ net_bytes INTSIZE CULL_PACK_DESCR_BY_INDEX @
          net_bytes INTSIZE (word_of_int (nm (t ! 0)) :: 32 word) @ net_bytes INTSIZE (word_of_nat (length (kept keep)) :: 32 word) @
          int_bytes (kept keep)) (tab @ [d]) (tabR @ [dR]) (dR, word_of_nat (length (kept keep)))"
        using emits_shared_new[OF assms(1,2) True None] tables_grow[OF t(1) assms(3,2)] by (simp add: got_def)
      then show ?thesis by blast
    next
      case (Some k)
      then have k: "k < length tab" "same_ptr (tab ! k) d" using table_index_Some by blast+
      then have "tab ! k = d" using t(1) assms(3) same_ptr_heap[of "tab ! k" d hp] by (simp add: tables_def list_all_length)
      moreover have "agree ns (tab ! k) (tabR ! k)" "length tabR = length tab"
        using t(1) k(1) by (auto simp: tables_def list_all2_conv_all_nth)
      ultimately obtain t' keep' where a: "holds ns d t' keep'" "holds ns (tabR ! k) t' keep'" by (auto simp: agree_def)
      then have "t' = t" "kept keep' = kept keep" using holds_unique[OF assms(1,2) a(1)] by simp_all
      then have "keep' = keep" using kept_determines holdsD(3)[OF assms(1) a(1)] h(3) by metis
      then have d: "holds ns (tabR ! k) t keep" using a \<open>t' = t\<close> by simp
      have "k < 2 ^ 32" using k(1) t(2) by simp
      then have "reads (cull_unpack_descr ns share' 0 None) tabR
          (net_bytes INTSIZE CULL_PACK_DESCR_TABLE_REF @ net_bytes INTSIZE (word_of_nat k :: 32 word)) (tabR ! k, word_of_nat (length (kept keep))) tabR"
        using reads_table_ref[of k tabR] lCountPresent_holds[OF assms(1) d] k(1) \<open>length tabR = length tab\<close> by simp
      then have "?P (net_bytes INTSIZE CULL_PACK_DESCR_TABLE_REF @ net_bytes INTSIZE (word_of_nat k :: 32 word)) tab tabR
          (tabR ! k, word_of_nat (length (kept keep)))"
        using emits_shared_known[OF True Some] t(1) d by (simp add: got_def)
      then show ?thesis by blast
    qed
  qed
qed

section \<open>What the receiver gets\<close>

fun strip_descr :: "descriptor \<Rightarrow> descriptor" where
  \<comment> \<open>without what belongs to the process: the address, the count and the hash value\<close>
  "strip_descr (Counted a h) = Counted 0 (h\<lparr>refs := 0, hash := 0\<rparr>)"
| "strip_descr d = d"

fun strip_value :: "lMultiType \<Rightarrow> lMultiType" and strip_list :: "lList \<Rightarrow> lList" and strip_elem :: "lListElem \<Rightarrow> lListElem" where
  "strip_value (M_glp l) = M_glp (map_option strip_list l)"
| "strip_value (M_obj e) = M_obj (map_option strip_elem e)"
| "strip_value v = v"
| "strip_list (lList name d es) = lList name (strip_descr d) (map strip_elem es)"
| "strip_elem (lListElem k d cp) = lListElem k (strip_descr d) (map strip_value cp)"

definition field_types :: "descriptor \<Rightarrow> 32 word list" where
  \<comment> \<open>types and attributes of the fields that have a value, in the order of their slots\<close>
  "field_types d = map (\<lambda>(pos, slot). mt (fields_of d ! pos)) (ocs_cull_present_fields d)"

fun sent_value :: "lMultiType \<Rightarrow> lMultiType" and sent_list :: "lList \<Rightarrow> lList" and sent_elem :: "cull_elem_kind \<Rightarrow> lListElem \<Rightarrow> lListElem" where
  \<comment> \<open>an empty string becomes a null pointer, a reference is not sent, a field that must not leave the process is zero\<close>
  "sent_value (M_str t) = M_str (norm_str t)"
| "sent_value (M_host t) = M_host (norm_str t)"
| "sent_value (M_ref r) = M_ref 0"
| "sent_value (M_glp l) = M_glp (map_option sent_list l)"
| "sent_value (M_obj e) = M_obj (map_option (sent_elem OBJECT_ELEM) e)"
| "sent_value v = v"
| "sent_list (lList name d es) = lList (norm_str name) (strip_descr d) (map (sent_elem BOUND_ELEM) es)"
| "sent_elem k' (lListElem k d cp) = lListElem k' (strip_descr d)
     (map2 (\<lambda>m v. if mt_do_transfer m then v else zero_value (mt_get_type m)) (field_types d) (map sent_value cp))"

text \<open>Values that belong to their descriptors.\<close>

definition ok_descr :: "name_space \<Rightarrow> (nat \<Rightarrow> cull_descr_header) \<Rightarrow> descriptor \<Rightarrow> bool" where
  "ok_descr ns hp d \<longleftrightarrow> (\<exists>t keep. holds ns d t keep) \<and> of_heap hp d"

fun ok_value :: "name_space \<Rightarrow> (nat \<Rightarrow> cull_descr_header) \<Rightarrow> lMultiType \<Rightarrow> 32 word \<Rightarrow> bool"
  and ok_list :: "name_space \<Rightarrow> (nat \<Rightarrow> cull_descr_header) \<Rightarrow> lList \<Rightarrow> bool"
  and ok_elem :: "name_space \<Rightarrow> (nat \<Rightarrow> cull_descr_header) \<Rightarrow> lListElem \<Rightarrow> bool" where
  "ok_value ns hp (M_db x) ty = (ty = lDoubleT)"
| "ok_value ns hp (M_ul x) ty = (ty = lUlongT)"
| "ok_value ns hp (M_ul64 x) ty = (ty = lUlong64T)"
| "ok_value ns hp (M_b x) ty = (ty = lBoolT)"
| "ok_value ns hp (M_str t) ty = (ty = lStringT \<and> valid_str t)"
| "ok_value ns hp (M_host t) ty = (ty = lHostT \<and> valid_str t)"
| "ok_value ns hp (M_ref r) ty = (ty = lRefT)"
| "ok_value ns hp (M_glp l) ty = (ty = lListT \<and> pred_option (ok_list ns hp) l)"
| "ok_value ns hp (M_obj e) ty =
     (ty = lObjectT \<and> pred_option (\<lambda>e. ok_elem ns hp e \<and> (case e of lListElem k d cp \<Rightarrow> k = OBJECT_ELEM)) e)"
| "ok_list ns hp (lList name d es) =
     (valid_str name \<and> ok_descr ns hp d \<and>
      list_all (\<lambda>e. ok_elem ns hp e \<and> (case e of lListElem k d' cp \<Rightarrow> k = BOUND_ELEM \<and> d' = d)) es)"
| "ok_elem ns hp (lListElem k d cp) =
     (ok_descr ns hp d \<and> list_all2 (\<lambda>m p. p (mt_get_type m)) (field_types d) (map (ok_value ns hp) cp))"


section \<open>Contents\<close>

lemma pall_Cons: "pall f (x # xs) = pseq (f x) (pall f xs)"
  by (rule ext) simp

lemma transmits_done: "Q x \<Longrightarrow> transmits ns hp pdone (\<lambda>fuel. uret x) Q k"
  using transmits_leaf[of pdone "[]" "uret x" x Q, OF emits_pdone reads_uret] .

lemma strip_same: "holds ns d t keep \<Longrightarrow> holds ns d' t keep \<Longrightarrow> strip_descr d = strip_descr d'"
  by (cases d; cases d') (auto simp: holds_def)

lemma field_types_holds:
  assumes "wf_ns ns" "holds ns d t keep"
  shows "length (field_types d) = length (kept keep)"
    "j < length (kept keep) \<Longrightarrow> mt_get_type (field_types d ! j) = mt_get_type (mt (t ! (kept keep ! j)))"
    "j < length (kept keep) \<Longrightarrow> mt_do_transfer (field_types d ! j) = mt_do_transfer (mt (t ! (kept keep ! j)))"
    "j < length (kept keep) \<Longrightarrow> field_types d ! j = mt (fields_of d ! (kept keep ! j))"
proof -
  have k: "kept keep ! j < length t" if "j < length (kept keep)" for j
    using nth_mem[OF that] holdsD(3)[OF assms] by simp
  have f: "field_types d = map (\<lambda>j. mt (fields_of d ! (kept keep ! j))) [0..<length (kept keep)]"
    unfolding field_types_def present_fields_holds[OF assms] by simp
  then show "length (field_types d) = length (kept keep)" by simp
  show "j < length (kept keep) \<Longrightarrow> field_types d ! j = mt (fields_of d ! (kept keep ! j))" unfolding f by simp
  show "j < length (kept keep) \<Longrightarrow> mt_get_type (field_types d ! j) = mt_get_type (mt (t ! (kept keep ! j)))"
    "j < length (kept keep) \<Longrightarrow> mt_do_transfer (field_types d ! j) = mt_do_transfer (mt (t ! (kept keep ! j)))"
    unfolding f using holdsD(8,9)[OF assms k] by simp_all
qed

text \<open>Values that are transmitted one by one are transmitted as the contents of an element.\<close>

lemma values_transmit:
  assumes "length cpR = m" "length ps = m" "i \<le> m"
    and each: "\<And>j. j < m \<Longrightarrow> transmits ns hp (g j) (\<lambda>fuel. switch fuel (mt_get_type (mt (dR ! (ps ! j))))) (\<lambda>x. strip_value x = w j) (k j)"
  shows "transmits ns hp (pall g [i..<m]) (\<lambda>fuel. read_values (switch fuel) dR 0 (map (\<lambda>j. (ps ! j, int j)) [i..<m]) cpR)
    (\<lambda>cp'. length cp' = m \<and> (\<forall>j < m. strip_value (cp' ! j) = (if j < i then strip_value (cpR ! j) else w j))) (\<Sum>j\<leftarrow>[i..<m]. k j)"
  using assms(1,3)
proof (induction "m - i" arbitrary: i cpR)
  case 0
  have "pall g [] = pdone" by (rule ext) (simp add: pdone_def)
  then show ?case using 0 by (simp add: transmits_done)
next
  case (Suc n)
  then have i: "i < m" by simp
  have rest: "transmits ns hp (pall g [Suc i..<m]) (\<lambda>fuel. read_values (switch fuel) dR 0 (map (\<lambda>j. (ps ! j, int j)) [Suc i..<m]) (cpR[i := x]))
    (\<lambda>cp'. length cp' = m \<and> (\<forall>j < m. strip_value (cp' ! j) = (if j < Suc i then strip_value (cpR[i := x] ! j) else w j)))
    (\<Sum>j\<leftarrow>[Suc i..<m]. k j)" for x
    by (rule Suc.hyps(1)) (use Suc.hyps(2) Suc.prems i in auto)
  have "transmits ns hp (pseq (g i) (pall g [Suc i..<m])) (\<lambda>fuel. ubind (switch fuel (mt_get_type (mt (dR ! (ps ! i)))))
      (\<lambda>v. if 0 \<le> int i \<and> int i < int (length cpR) then read_values (switch fuel) dR 0 (map (\<lambda>j. (ps ! j, int j)) [Suc i..<m]) (cpR[nat (int i) := v]) else ufault))
    (\<lambda>cp'. length cp' = m \<and> (\<forall>j < m. strip_value (cp' ! j) = (if j < i then strip_value (cpR ! j) else w j))) (k i + (\<Sum>j\<leftarrow>[Suc i..<m]. k j))"
  proof (rule transmits_bind[OF each[OF i]])
    fix x
    assume x: "strip_value x = w i"
    show "transmits ns hp (pall g [Suc i..<m]) (\<lambda>fuel. if 0 \<le> int i \<and> int i < int (length cpR)
         then read_values (switch fuel) dR 0 (map (\<lambda>j. (ps ! j, int j)) [Suc i..<m]) (cpR[nat (int i) := x]) else ufault)
       (\<lambda>cp'. length cp' = m \<and> (\<forall>j < m. strip_value (cp' ! j) = (if j < i then strip_value (cpR ! j) else w j))) (\<Sum>j\<leftarrow>[Suc i..<m]. k j)"
      using i Suc.prems(1) x
      by (simp, intro transmits_conseq[OF rest[of x]]) (auto simp: nth_list_update less_Suc_eq)
  qed
  then show ?case using i by (simp add: upt_conv_Cons pall_Cons flag_matches_def)
qed


lemma pall_map: "pall f (map h xs) = pall (\<lambda>x. f (h x)) xs"
proof (induction xs)
  case Nil
  then show ?case by (simp add: fun_eq_iff)
next
  case (Cons x xs)
  then show ?case by (simp only: list.map pall_Cons)
qed

lemma cont_transmits:
  assumes ns: "wf_ns ns" "holds ns d t keep" "holds ns dR t keep" and m: "length cp = m" "length (kept keep) = m"
    and each: "\<And>j. j < m \<Longrightarrow> transmits ns hp
      (sw (if mt_do_transfer (field_types d ! j) then cp ! j else zero_value (mt_get_type (field_types d ! j))) None (mt_get_type (field_types d ! j)))
      (\<lambda>fuel. switch fuel (mt_get_type (field_types d ! j))) (\<lambda>x. strip_value x = w j) (k j)"
  shows "transmits ns hp (cull_pack_cont sw cp d None 0) (\<lambda>fuel. cull_unpack_cont (switch fuel) dR (word_of_nat m) 0)
    (\<lambda>cp'. map strip_value cp' = map w [0..<m]) (\<Sum>j\<leftarrow>[0..<m]. k j)"
proof -
  define g where "g j = sw (if mt_do_transfer (field_types d ! j) then cp ! j else zero_value (mt_get_type (field_types d ! j))) None
      (mt_get_type (field_types d ! j))" for j
  note f = field_types_holds[OF ns(1,2)] and fR = field_types_holds[OF ns(1,3)]
  have pack: "cull_pack_cont sw cp d None 0 = pall g [0..<m]"
    unfolding cull_pack_cont_def present_fields_holds[OF ns(1,2)] option.case pall_map m(2)
  proof (rule pall_cong[OF refl], rule ext)
    fix j s
    assume "j \<in> set [0..<m]"
    then have j: "j < m" by simp
    have ty: "mt (fields_of d ! (kept keep ! j)) = field_types d ! j" using f(4) j m(2) by simp
    show "(case (kept keep ! j, int j) of (pos, slot) \<Rightarrow> let mm = mt (fields_of d ! pos) in
            if flag_matches 0 mm then
              if mt_do_transfer mm then at_slot cp slot (\<lambda>v. sw v None (mt_get_type mm))
              else sw (zero_value (mt_get_type mm)) None (mt_get_type mm)
            else pdone) s = g j s"
      using j m(1) by (simp add: ty Let_def flag_matches_def at_slot_def g_def)
  qed
  have small: "m < 2 ^ 32" using length_kept_small[OF ns(1,2)] m(2) by simp
  have "take m (ocs_cull_present_fields dR) = map (\<lambda>j. (kept keep ! j, int j)) [0..<m]"
    unfolding present_fields_holds[OF ns(1,3)] using m(2) by simp
  then have unpack: "cull_unpack_cont (switch fuel) dR (word_of_nat m) 0 =
      read_values (switch fuel) (fields_of dR) 0 (map (\<lambda>j. (kept keep ! j, int j)) [0..<m])
        (map (\<lambda>(pos, slot). zero_value (mt_get_type (mt (fields_of dR ! pos)))) (ocs_cull_present_fields dR))" for fuel
    unfolding cull_unpack_cont_def using lCountPresent_holds[OF ns(1,3)] small m(2) by (simp add: Let_def)
  have "transmits ns hp (pall g [0..<m])
    (\<lambda>fuel. read_values (switch fuel) (fields_of dR) 0 (map (\<lambda>j. (kept keep ! j, int j)) [0..<m])
      (map (\<lambda>(pos, slot). zero_value (mt_get_type (mt (fields_of dR ! pos)))) (ocs_cull_present_fields dR)))
    (\<lambda>cp'. length cp' = m \<and> (\<forall>j < m. strip_value (cp' ! j) = (if j < 0 then strip_value
      (map (\<lambda>(pos, slot). zero_value (mt_get_type (mt (fields_of dR ! pos)))) (ocs_cull_present_fields dR) ! j) else w j))) (\<Sum>j\<leftarrow>[0..<m]. k j)"
  proof (rule values_transmit)
    show "transmits ns hp (g j) (\<lambda>fuel. switch fuel (mt_get_type (mt (fields_of dR ! (kept keep ! j))))) (\<lambda>x. strip_value x = w j) (k j)" if "j < m" for j
      using each[OF that] fR(2,4)[of j] f(2)[of j] that m(2) by (simp add: g_def)
  qed (use m(2) present_fields_holds[OF ns(1,3)] in simp_all)
  then show ?thesis unfolding pack unpack by (rule transmits_conseq) (auto intro: nth_equalityI)
qed

section \<open>Elements of a list\<close>

definition loop :: "(nat \<Rightarrow> lListElem unpacker) \<Rightarrow> nat \<Rightarrow> nat \<Rightarrow> lList \<Rightarrow> lList unpacker" where
  \<comment> \<open>the loop over the elements with the integer in front of it\<close>
  "loop elem fuel n lp = ubind uint32 (\<lambda>has_more. unpack_elems (elem fuel) n has_more lp)"

lemma elems_transmit:
  assumes each: "\<And>e. e \<in> set es \<Longrightarrow> transmits ns hp (pack e) elem (\<lambda>x. \<exists>cp'. x = lListElem TRANS_BOUND_ELEM dR cp' \<and> strip_elem (lListElem BOUND_ELEM dR cp') = w e) (k e)"
    and t: "tables ns hp tab tabR" "length tab + (\<Sum>e\<leftarrow>es. k e) \<le> 2 ^ 32"
  shows "\<exists>bs tab' tabR' esR. emits (pseq (pall (\<lambda>e. pseq (pint 1) (pack e)) es) (pint 0)) tab bs tab' \<and>
     (\<forall>fuel n. length bs \<le> fuel \<longrightarrow> length bs \<le> n \<longrightarrow> reads (loop elem fuel n (lList name dR es0)) tabR bs (lList name dR (es0 @ esR)) tabR') \<and>
     tables ns hp tab' tabR' \<and> length tab' \<le> length tab + (\<Sum>e\<leftarrow>es. k e) \<and> map strip_elem esR = map w es"
  using assms
proof (induction es arbitrary: tab tabR es0)
  case Nil
  have "reads (loop elem fuel n (lList name dR es0)) tabR (net_bytes INTSIZE (0 :: 32 word) @ []) (lList name dR es0) tabR" for fuel n
    unfolding loop_def by (intro reads_int_bind) (simp add: unpack_elems.simps reads_uret)
  then have r: "\<forall>fuel n. length (net_bytes INTSIZE (0 :: 32 word)) \<le> fuel \<longrightarrow> length (net_bytes INTSIZE (0 :: 32 word)) \<le> n \<longrightarrow>
      reads (loop elem fuel n (lList name dR es0)) tabR (net_bytes INTSIZE (0 :: 32 word)) (lList name dR (es0 @ [])) tabR" by simp
  have "pseq (pall (\<lambda>e. pseq (pint 1) (pack e)) []) (pint 0) = pint 0" by (rule ext) (simp add: pseq_def)
  then have "emits (pseq (pall (\<lambda>e. pseq (pint 1) (pack e)) []) (pint 0)) tab (net_bytes INTSIZE (0 :: 32 word)) tab" by (simp add: emits_pint)
  then show ?case using r Nil.prems(2) by (metis le_add1 list.simps(8))
next
  case (Cons e es)
  have e: "transmits ns hp (pack e) elem (\<lambda>x. \<exists>cp'. x = lListElem TRANS_BOUND_ELEM dR cp' \<and> strip_elem (lListElem BOUND_ELEM dR cp') = w e) (k e)"
    by (rule Cons.prems(1)) simp
  have "length tab + k e \<le> 2 ^ 32" using Cons.prems(3) by simp
  then obtain bs tab1 tabR1 cp' where 1: "emits (pack e) tab bs tab1"
      "\<forall>fuel. length bs \<le> fuel \<longrightarrow> reads (elem fuel) tabR bs (lListElem TRANS_BOUND_ELEM dR cp') tabR1" "tables ns hp tab1 tabR1"
      "length tab1 \<le> length tab + k e" "strip_elem (lListElem BOUND_ELEM dR cp') = w e"
    using e Cons.prems(2) unfolding transmits_def by blast
  have "length tab1 + (\<Sum>e\<leftarrow>es. k e) \<le> 2 ^ 32" using 1(4) Cons.prems(3) by simp
  then obtain cs tab2 tabR2 esR where 2: "emits (pseq (pall (\<lambda>e. pseq (pint 1) (pack e)) es) (pint 0)) tab1 cs tab2"
      "\<forall>fuel n. length cs \<le> fuel \<longrightarrow> length cs \<le> n \<longrightarrow> reads (loop elem fuel n (lList name dR (es0 @ [lListElem BOUND_ELEM dR cp']))) tabR1 cs
         (lList name dR ((es0 @ [lListElem BOUND_ELEM dR cp']) @ esR)) tabR2"
      "tables ns hp tab2 tabR2" "length tab2 \<le> length tab1 + (\<Sum>e\<leftarrow>es. k e)" "map strip_elem esR = map w es"
    using Cons.IH[of tab1 tabR1 "es0 @ [lListElem BOUND_ELEM dR cp']"] Cons.prems(1) 1(3) by auto
  let ?bs = "net_bytes INTSIZE (1 :: 32 word) @ bs @ cs"
  have "pseq (pall (\<lambda>e. pseq (pint 1) (pack e)) (e # es)) (pint 0) = pseq (pint 1) (pseq (pack e) (pseq (pall (\<lambda>e. pseq (pint 1) (pack e)) es) (pint 0)))"
    unfolding pall_Cons by (rule ext) (auto simp: pseq_def split: Option.bind_splits)
  then have em: "emits (pseq (pall (\<lambda>e. pseq (pint 1) (pack e)) (e # es)) (pint 0)) tab ?bs tab2"
    using emits_pseq[OF emits_pint emits_pseq[OF 1(1) 2(1)]] by simp
  have "reads (loop elem fuel n (lList name dR es0)) tabR ?bs (lList name dR (es0 @ (lListElem BOUND_ELEM dR cp' # esR))) tabR2"
    if l: "length ?bs \<le> fuel" "length ?bs \<le> n" for fuel n
  proof -
    obtain n' where n': "n = Suc n'" "length cs \<le> n'" using l(2) by (cases n) (auto simp: INTSIZE_def)
    have "reads (loop elem fuel n' (lList name dR (es0 @ [lListElem BOUND_ELEM dR cp']))) tabR1 cs
         (lList name dR (es0 @ (lListElem BOUND_ELEM dR cp' # esR))) tabR2"
      using 2(2) l(1) n'(2) by simp
    moreover have "reads (elem fuel) tabR bs (lListElem TRANS_BOUND_ELEM dR cp') tabR1" using 1(2) l(1) by simp
    ultimately have "reads (unpack_elems (elem fuel) n 1 (lList name dR es0)) tabR (bs @ cs)
        (lList name dR (es0 @ (lListElem BOUND_ELEM dR cp' # esR))) tabR2"
      unfolding n'(1) by (subst unpack_elems.simps) (simp, rule reads_ubind, assumption, simp add: loop_def)
    then show ?thesis unfolding loop_def by (rule reads_int_bind)
  qed
  moreover have "length tab2 \<le> length tab + (\<Sum>e\<leftarrow>e # es. k e)" using 1(4) 2(4) by simp
  moreover have "map strip_elem (lListElem BOUND_ELEM dR cp' # esR) = map w (e # es)" using 1(5) 2(5) by simp
  ultimately show ?case using em 2(3) by blast
qed


section \<open>Nested values\<close>

lemma pseq_pdone [simp]: "pseq f pdone = f" "pseq pdone f = f"
proof -
  show "pseq pdone f = f" by (rule ext) (simp add: pseq_def pdone_def)
  show "pseq f pdone = f"
  proof
    fix s
    show "pseq f pdone s = f s" by (cases "f s") (auto simp: pseq_def pdone_def)
  qed
qed

lemma ubind_assoc: "ubind (ubind m f) g = ubind m (\<lambda>x. ubind (f x) g)"
  by (rule ext) (auto simp: ubind_def split: Option.bind_splits sum.splits)

abbreviation unpack_nested :: "name_space \<Rightarrow> (fields \<Rightarrow> nat) \<Rightarrow> nat \<Rightarrow> 32 word \<Rightarrow> lMultiType unpacker" where
  "unpack_nested ns share fuel \<equiv> cull_unpack_switch (cull_unpack_list_partial ns share 0 fuel) (cull_unpack_object ns share 0 fuel)"

lemma transmits_null:
  assumes "Q None" "\<And>fuel. u (Suc fuel) = ubind uint32 (v fuel)" "\<And>fuel. v fuel 0 = uret None"
  shows "transmits ns hp (pint 0) u Q k"
  using transmits_nested[where g = pdone and i = 0 and v = v and u = u] transmits_done[of Q None] assms by simp

lemma none_transmits:
  "Q None \<Longrightarrow> transmits ns hp (pint 0) (cull_unpack_list_partial ns share' 0) Q k"
  "Q' None \<Longrightarrow> transmits ns hp (pint 0) (cull_unpack_object ns share' 0) Q' k"
  by (rule transmits_null, assumption, rule cull_unpack_list_partial.simps cull_unpack_object.simps, simp)+

lemmas types = lBoolT_def lUlongT_def lUlong64T_def lStringT_def lHostT_def lListT_def lObjectT_def lDoubleT_def lRefT_def

lemma zero_transmits:
  assumes "ok_value ns hp v ty"
  shows "transmits ns hp (cull_pack_switch ns share 0 (zero_value ty) None ty) (\<lambda>fuel. unpack_nested ns share' fuel ty)
    (\<lambda>x. strip_value x = zero_value ty) k"
proof -
  have "valid_str None" by (simp add: valid_str_def)
  note s = transmits_leaf[OF emits_pstr reads_ustr[OF this]]
  have z: "norm_str None = None" by (simp add: norm_str_def)
  show ?thesis
    using assms
    by (cases v; simp add: cull_pack_switch.simps cull_unpack_switch_def zero_value_def types)
      (intro transmits_map transmits_int none_transmits transmits_leaf[OF emits_int64 reads_int64] transmits_leaf[OF emits_double reads_double]
        s transmits_done; simp add: z)+
qed

lemma elem_transmits:
  assumes "k = BOUND_ELEM \<or> k = OBJECT_ELEM"
    "transmits ns hp (cull_pack_cont (cull_pack_switch ns share 0) cp d None 0) (\<lambda>fuel. cull_unpack_cont (switch fuel) dR n 0) Q j"
  shows "transmits ns hp (cull_pack_elem_partial ns share 0 (lListElem k d cp) None)
    (\<lambda>fuel. ocs_cull_unpack_elem ns share' (switch fuel) (Some dR) n 0) (\<lambda>x. \<exists>cp'. x = lListElem TRANS_BOUND_ELEM dR cp' \<and> Q cp') j"
proof -
  have w: "elem_kind_from_wire (elem_kind_to_wire k) = Some k" "k \<noteq> FREE_ELEM"
    using assms(1) by (auto simp: elem_kind_from_wire_def CULL_PACK_BOUND_ELEM_def CULL_PACK_FREE_ELEM_def CULL_PACK_OBJECT_ELEM_def
      CULL_PACK_TRANS_BOUND_ELEM_def)
  have "transmits ns hp (pseq (pint (elem_kind_to_wire k)) (cull_pack_cont (cull_pack_switch ns share 0) cp d None 0))
    (\<lambda>fuel. ocs_cull_unpack_elem ns share' (switch fuel) (Some dR) n 0) (\<lambda>x. \<exists>cp'. x = lListElem TRANS_BOUND_ELEM dR cp' \<and> Q cp') (0 + j)"
    unfolding ocs_cull_unpack_elem_def
  proof (rule transmits_bind[OF transmits_int, of "\<lambda>i. i = elem_kind_to_wire k"])
    fix x
    assume x: "x = elem_kind_to_wire k"
    show "transmits ns hp (cull_pack_cont (cull_pack_switch ns share 0) cp d None 0) (\<lambda>fuel.
       case elem_kind_from_wire x of
         None \<Rightarrow> ufail PACK_FORMAT
       | Some kind \<Rightarrow>
           if kind = FREE_ELEM then
             ubind (cull_unpack_descr ns share' 0 (if (0 :: 32 word) \<noteq> 0 then Some dR else None)) (\<lambda>(d, n).
               ubind (cull_unpack_cont (switch fuel) d n 0) (\<lambda>cp. uret (lListElem FREE_ELEM d cp)))
           else
             case Some dR of
               None \<Rightarrow> ufail PACK_BADARG
             | Some d \<Rightarrow> ubind (cull_unpack_cont (switch fuel) d n 0) (\<lambda>cp. uret (lListElem TRANS_BOUND_ELEM d cp)))
       (\<lambda>x. \<exists>cp'. x = lListElem TRANS_BOUND_ELEM dR cp' \<and> Q cp') j"
      using w x by (simp, intro transmits_map transmits_conseq[OF assms(2)]) simp_all
  qed simp
  then show ?thesis using w(2) by simp
qed

lemma list_transmits:
  assumes "wf_ns ns" "ok_list ns hp (lList name d es)"
    and each: "\<And>e t keep dR. e \<in> set es \<Longrightarrow> holds ns d t keep \<Longrightarrow> holds ns dR t keep \<Longrightarrow>
      transmits ns hp (cull_pack_elem_partial ns share 0 e None)
        (\<lambda>fuel. ocs_cull_unpack_elem ns share' (unpack_nested ns share' fuel) (Some dR) (word_of_nat (length (kept keep))) 0)
        (\<lambda>x. \<exists>cp'. x = lListElem TRANS_BOUND_ELEM dR cp' \<and> strip_elem (lListElem BOUND_ELEM dR cp') = sent_elem BOUND_ELEM e) (size e)"
  shows "transmits ns hp (cull_pack_list_partial ns share 0 (Some (lList name d es)) None) (cull_unpack_list_partial ns share' 0)
    (\<lambda>x. map_option strip_list x = Some (sent_list (lList name d es))) (1 + (\<Sum>e\<leftarrow>es. size e))"
proof -
  obtain t keep where d: "holds ns d t keep" "of_heap hp d" "valid_str name" using assms(2) by (auto simp: ok_descr_def)
  let ?elem = "\<lambda>dR n fuel. ocs_cull_unpack_elem ns share' (unpack_nested ns share' fuel) (Some dR) n 0"
  let ?pack = "pseq (pall (\<lambda>e. pseq (pint 1) (cull_pack_elem_partial ns share 0 e None)) es) (pint 0)"
  let ?Q = "\<lambda>x. map_option strip_list x = Some (sent_list (lList name d es))"
  have elems: "transmits ns hp ?pack (\<lambda>fuel. ubind (loop (?elem dR (word_of_nat (length (kept keep)))) fuel fuel (lList (norm_str name) dR [])) (\<lambda>lp. uret (Some lp)))
      ?Q (\<Sum>e\<leftarrow>es. size e)" if dR: "holds ns dR t keep" for dR
  proof (rule transmits_map, unfold transmits_def, intro allI impI)
    fix tab tabR
    assume "tables ns hp tab tabR" "length tab + (\<Sum>e\<leftarrow>es. size e) \<le> 2 ^ 32"
    from elems_transmit[OF each[OF _ d(1) dR] this, of "norm_str name" "[]"]
    obtain bs tab' tabR' esR where e: "emits ?pack tab bs tab'" "\<forall>fuel n. length bs \<le> fuel \<longrightarrow> length bs \<le> n \<longrightarrow>
        reads (loop (?elem dR (word_of_nat (length (kept keep)))) fuel n (lList (norm_str name) dR [])) tabR bs (lList (norm_str name) dR esR) tabR'"
        "tables ns hp tab' tabR'" "length tab' \<le> length tab + (\<Sum>e\<leftarrow>es. size e)" "map strip_elem esR = map (sent_elem BOUND_ELEM) es"
      by auto
    have "?Q (Some (lList (norm_str name) dR esR))" using e(5) strip_same[OF dR d(1)] by simp
    then show "\<exists>bs tab' tabR' x. emits ?pack tab bs tab' \<and> (\<forall>fuel. length bs \<le> fuel \<longrightarrow>
        reads (loop (?elem dR (word_of_nat (length (kept keep)))) fuel fuel (lList (norm_str name) dR [])) tabR bs x tabR') \<and>
        tables ns hp tab' tabR' \<and> length tab' \<le> length tab + (\<Sum>e\<leftarrow>es. size e) \<and> ?Q (Some x)"
      using e(1-4) by blast
  qed
  have "transmits ns hp (pseq (cull_pack_descr ns share d 0) ?pack)
      (\<lambda>fuel. ubind (cull_unpack_descr ns share' 0 None) (\<lambda>(dp, wire_n).
         ubind uint32 (\<lambda>has_more. ubind (unpack_elems (?elem dp wire_n fuel) fuel has_more (lList (norm_str name) dp [])) (\<lambda>lp. uret (Some lp)))))
      ?Q (1 + (\<Sum>e\<leftarrow>es. size e))"
  proof (rule transmits_bind[OF descr_transmits[OF assms(1) d(1,2)]])
    fix r
    assume "got ns t keep r"
    then obtain dR where "r = (dR, word_of_nat (length (kept keep)))" "holds ns dR t keep" by (cases r) (auto simp: got_def)
    then show "transmits ns hp ?pack (\<lambda>fuel. case r of (dp, wire_n) \<Rightarrow>
         ubind uint32 (\<lambda>has_more. ubind (unpack_elems (?elem dp wire_n fuel) fuel has_more (lList (norm_str name) dp [])) (\<lambda>lp. uret (Some lp))))
         ?Q (\<Sum>e\<leftarrow>es. size e)"
      using elems[of dR] by (simp add: loop_def ubind_assoc)
  qed
  then have "transmits ns hp (pseq (pstr name) (pseq (cull_pack_descr ns share d 0) ?pack))
      (\<lambda>fuel. ubind ustr (\<lambda>name. ubind (cull_unpack_descr ns share' 0 None) (\<lambda>(dp, wire_n).
         ubind uint32 (\<lambda>has_more. ubind (unpack_elems (?elem dp wire_n fuel) fuel has_more (lList name dp [])) (\<lambda>lp. uret (Some lp))))))
      ?Q (0 + (1 + (\<Sum>e\<leftarrow>es. size e)))"
    by (intro transmits_bind[OF transmits_leaf[OF emits_pstr reads_ustr[OF d(3)], of "\<lambda>x. x = norm_str name"]]) simp_all
  then have "transmits ns hp (pseq (pint 1) (pseq (pstr name) (pseq (cull_pack_descr ns share d 0) ?pack))) (cull_unpack_list_partial ns share' 0)
      ?Q (1 + (\<Sum>e\<leftarrow>es. size e))"
    by (intro transmits_nested[where v = "\<lambda>fuel i. if i = 0 then uret None else ubind ustr (\<lambda>name. ubind (cull_unpack_descr ns share' 0 None) (\<lambda>(dp, wire_n).
         ubind uint32 (\<lambda>has_more. ubind (unpack_elems (?elem dp wire_n fuel) fuel has_more (lList name dp [])) (\<lambda>lp. uret (Some lp)))))"])
      simp_all
  then show ?thesis by (simp add: pack_type_def)
qed


lemma object_transmits:
  assumes "wf_ns ns" "holds ns d t keep" "of_heap hp d" "k = BOUND_ELEM \<or> k = OBJECT_ELEM"
    and cont: "\<And>dR. holds ns dR t keep \<Longrightarrow> transmits ns hp (cull_pack_cont (cull_pack_switch ns share 0) cp d None 0)
      (\<lambda>fuel. cull_unpack_cont (unpack_nested ns share' fuel) dR (word_of_nat (length (kept keep))) 0)
      (\<lambda>cp'. strip_elem (lListElem OBJECT_ELEM dR cp') = sent_elem OBJECT_ELEM (lListElem k d cp)) j"
  shows "transmits ns hp (cull_pack_object ns share 0 (Some (lListElem k d cp)) None) (cull_unpack_object ns share' 0)
    (\<lambda>x. map_option strip_elem x = Some (sent_elem OBJECT_ELEM (lListElem k d cp))) (1 + j)"
proof -
  let ?u = "\<lambda>fuel. ubind (cull_unpack_descr ns share' 0 None) (\<lambda>(dp, wire_n).
         ubind (ocs_cull_unpack_elem ns share' (unpack_nested ns share' fuel) (Some dp) wire_n 0) (\<lambda>ep. uret (Some (as_object ep))))"
  let ?Q = "\<lambda>x. map_option strip_elem x = Some (sent_elem OBJECT_ELEM (lListElem k d cp))"
  have "transmits ns hp (pseq (cull_pack_descr ns share d 0) (cull_pack_elem_partial ns share 0 (lListElem k d cp) None))
      ?u ?Q (1 + j)"
  proof (rule transmits_bind[OF descr_transmits[OF assms(1-3)]])
    fix r
    assume "got ns t keep r"
    then obtain dR where r: "r = (dR, word_of_nat (length (kept keep)))" "holds ns dR t keep" by (cases r) (auto simp: got_def)
    show "transmits ns hp (cull_pack_elem_partial ns share 0 (lListElem k d cp) None) (\<lambda>fuel. case r of (dp, wire_n) \<Rightarrow>
         ubind (ocs_cull_unpack_elem ns share' (unpack_nested ns share' fuel) (Some dp) wire_n 0) (\<lambda>ep. uret (Some (as_object ep)))) ?Q j"
      unfolding r(1) prod.case
      by (intro transmits_map transmits_conseq[OF elem_transmits[OF assms(4) cont[OF r(2)]]]) auto
  qed
  then have "transmits ns hp (pseq (pint 1) (pseq (cull_pack_descr ns share d 0) (cull_pack_elem_partial ns share 0 (lListElem k d cp) None)))
      (cull_unpack_object ns share' 0) ?Q (1 + j)"
    by (intro transmits_nested[where v = "\<lambda>fuel i. if i = 0 then uret None else ?u fuel"]) simp_all
  then show ?thesis by (simp add: pack_type_def)
qed

lemma sent_elem_nth:
  assumes "length cp = length (field_types d)"
  shows "sent_elem k' (lListElem k d cp) = lListElem k' (strip_descr d) (map (\<lambda>j. if mt_do_transfer (field_types d ! j) then sent_value (cp ! j)
     else zero_value (mt_get_type (field_types d ! j))) [0..<length cp])"
  using assms by (auto intro!: nth_equalityI)

lemma size_list_sum: "size_list size xs = (\<Sum>x\<leftarrow>xs. size x) + length xs"
  by (induction xs) auto

lemma sum_nth: "(\<Sum>j\<leftarrow>[0..<length xs]. f (xs ! j)) = (\<Sum>x\<leftarrow>xs. f x)"
  using map_nth[of xs] by (metis (no_types, lifting) map_eq_conv map_map comp_apply)

lemma data_transmits:
  assumes ns: "wf_ns ns"
  shows "ok_value ns hp v ty \<Longrightarrow> transmits ns hp (cull_pack_switch ns share 0 v None ty) (\<lambda>fuel. unpack_nested ns share' fuel ty)
      (\<lambda>x. strip_value x = sent_value v) (size v)"
    and "ok_list ns hp l \<Longrightarrow> transmits ns hp (cull_pack_list_partial ns share 0 (Some l) None) (cull_unpack_list_partial ns share' 0)
      (\<lambda>x. map_option strip_list x = Some (sent_list l)) (size l)"
    and "ok_elem ns hp e \<Longrightarrow> (case e of lListElem k d cp \<Rightarrow> \<forall>t keep dR k'. holds ns d t keep \<longrightarrow> holds ns dR t keep \<longrightarrow>
      transmits ns hp (cull_pack_cont (cull_pack_switch ns share 0) cp d None 0)
        (\<lambda>fuel. cull_unpack_cont (unpack_nested ns share' fuel) dR (word_of_nat (length (kept keep))) 0)
        (\<lambda>cp'. strip_elem (lListElem k' dR cp') = sent_elem k' e) (\<Sum>v\<leftarrow>cp. size v))"
proof (induction v and l and e arbitrary: ty rule: lMultiType.induct lList.induct lListElem.induct)
  case (M_db x)
  then show ?case by (simp add: cull_pack_switch.simps cull_unpack_switch_def types) (intro transmits_map transmits_leaf[OF emits_double reads_double], simp)
next
  case (M_ul x)
  then show ?case by (simp add: cull_pack_switch.simps cull_unpack_switch_def types) (intro transmits_map transmits_int, simp)
next
  case (M_ul64 x)
  then show ?case by (simp add: cull_pack_switch.simps cull_unpack_switch_def types) (intro transmits_map transmits_leaf[OF emits_int64 reads_int64], simp)
next
  case (M_b x)
  then show ?case by (simp add: cull_pack_switch.simps cull_unpack_switch_def types) (intro conjI impI transmits_map transmits_int; simp)
next
  case (M_str x)
  then show ?case
    by (simp add: cull_pack_switch.simps cull_unpack_switch_def types) (intro transmits_map transmits_leaf[OF emits_pstr reads_ustr]; simp)
next
  case (M_host x)
  then show ?case
    by (simp add: cull_pack_switch.simps cull_unpack_switch_def types) (intro transmits_map transmits_leaf[OF emits_pstr reads_ustr]; simp)
next
  case (M_ref x)
  then show ?case by (simp add: cull_pack_switch.simps cull_unpack_switch_def types) (intro transmits_done, simp)
next
  case (M_glp x)
  have "transmits ns hp (cull_pack_list_partial ns share 0 x None) (cull_unpack_list_partial ns share' 0)
      (\<lambda>y. map_option strip_list y = map_option sent_list x) (size (M_glp x))"
  proof (cases x)
    case None
    then show ?thesis using none_transmits(1)[of "\<lambda>y. map_option strip_list y = None"] by simp
  next
    case (Some l)
    then show ?thesis using M_glp by (auto intro: transmits_conseq)
  qed
  then show ?case using M_glp.prems by (simp add: cull_pack_switch.simps cull_unpack_switch_def types transmits_map)
next
  case (M_obj x)
  have "transmits ns hp (cull_pack_object ns share 0 x None) (cull_unpack_object ns share' 0)
      (\<lambda>y. map_option strip_elem y = map_option (sent_elem OBJECT_ELEM) x) (size (M_obj x))"
  proof (cases x)
    case None
    then show ?thesis using none_transmits(2)[of "\<lambda>y. map_option strip_elem y = None"] by simp
  next
    case (Some e)
    obtain k d cp where e: "e = lListElem k d cp" by (cases e)
    have ok: "ok_elem ns hp e" "k = OBJECT_ELEM" using M_obj.prems Some e by simp_all
    then obtain t keep where d: "holds ns d t keep" "of_heap hp d" using e by (auto simp: ok_descr_def)
    have "transmits ns hp (cull_pack_object ns share 0 (Some (lListElem k d cp)) None) (cull_unpack_object ns share' 0)
      (\<lambda>x. map_option strip_elem x = Some (sent_elem OBJECT_ELEM (lListElem k d cp))) (1 + (\<Sum>v\<leftarrow>cp. size v))"
      using ok M_obj.IH[of e] Some e d(1) by (intro object_transmits[OF ns d]) auto
    then show ?thesis unfolding Some e by (rule transmits_conseq) (auto simp: size_list_sum)
  qed
  then show ?case using M_obj.prems by (simp add: cull_pack_switch.simps cull_unpack_switch_def types transmits_map)
next
  case (lList name d es)
  have "transmits ns hp (cull_pack_list_partial ns share 0 (Some (lList name d es)) None) (cull_unpack_list_partial ns share' 0)
    (\<lambda>x. map_option strip_list x = Some (sent_list (lList name d es))) (1 + (\<Sum>e\<leftarrow>es. size e))"
  proof (rule list_transmits[OF ns lList.prems])
    fix e t keep dR
    assume a: "e \<in> set es" "holds ns d t keep" "holds ns dR t keep"
    obtain k d' cp where e: "e = lListElem k d' cp" by (cases e)
    have ok: "ok_elem ns hp e" "k = BOUND_ELEM" "d' = d" using lList.prems a(1) e by (auto simp: list_all_iff)
    have "transmits ns hp (cull_pack_cont (cull_pack_switch ns share 0) cp d None 0)
        (\<lambda>fuel. cull_unpack_cont (unpack_nested ns share' fuel) dR (word_of_nat (length (kept keep))) 0)
        (\<lambda>cp'. strip_elem (lListElem BOUND_ELEM dR cp') = sent_elem BOUND_ELEM e) (\<Sum>v\<leftarrow>cp. size v)"
      using lList.IH[OF a(1) ok(1)] a(2,3) e ok(3) by auto
    then have el: "transmits ns hp (cull_pack_elem_partial ns share 0 (lListElem k d cp) None)
        (\<lambda>fuel. ocs_cull_unpack_elem ns share' (unpack_nested ns share' fuel) (Some dR) (word_of_nat (length (kept keep))) 0)
        (\<lambda>x. \<exists>cp'. x = lListElem TRANS_BOUND_ELEM dR cp' \<and> strip_elem (lListElem BOUND_ELEM dR cp') = sent_elem BOUND_ELEM e) (\<Sum>v\<leftarrow>cp. size v)"
      using ok(2) by (intro elem_transmits) simp_all
    show "transmits ns hp (cull_pack_elem_partial ns share 0 e None)
        (\<lambda>fuel. ocs_cull_unpack_elem ns share' (unpack_nested ns share' fuel) (Some dR) (word_of_nat (length (kept keep))) 0)
        (\<lambda>x. \<exists>cp'. x = lListElem TRANS_BOUND_ELEM dR cp' \<and> strip_elem (lListElem BOUND_ELEM dR cp') = sent_elem BOUND_ELEM e) (size e)"
      by (rule transmits_conseq[OF el[folded ok(3), folded e]]) (auto simp: e size_list_sum)
  qed
  then show ?case by (rule transmits_conseq) (auto simp: size_list_sum)
next
  case (lListElem k d cp)
  show ?case
    unfolding lListElem.case
  proof (intro allI impI)
    fix t keep dR k'
    assume h: "holds ns d t keep" "holds ns dR t keep"
    have ok: "list_all2 (\<lambda>m p. p (mt_get_type m)) (field_types d) (map (ok_value ns hp) cp)" using lListElem.prems by simp
    then have len: "length cp = length (field_types d)" "length cp = length (kept keep)"
      using field_types_holds(1)[OF ns h(1)] by (auto dest: list_all2_lengthD)
    let ?w = "\<lambda>j. if mt_do_transfer (field_types d ! j) then sent_value (cp ! j) else zero_value (mt_get_type (field_types d ! j))"
    have "transmits ns hp (cull_pack_cont (cull_pack_switch ns share 0) cp d None 0)
        (\<lambda>fuel. cull_unpack_cont (unpack_nested ns share' fuel) dR (word_of_nat (length cp)) 0)
        (\<lambda>cp'. map strip_value cp' = map ?w [0..<length cp]) (\<Sum>j\<leftarrow>[0..<length cp]. size (cp ! j))"
    proof (rule cont_transmits[OF ns h refl len(2)[symmetric]])
      fix j
      assume j: "j < length cp"
      then have okj: "ok_value ns hp (cp ! j) (mt_get_type (field_types d ! j))" using ok len(1) by (auto simp: list_all2_conv_all_nth)
      show "transmits ns hp (cull_pack_switch ns share 0 (if mt_do_transfer (field_types d ! j) then cp ! j else zero_value (mt_get_type (field_types d ! j)))
          None (mt_get_type (field_types d ! j))) (\<lambda>fuel. unpack_nested ns share' fuel (mt_get_type (field_types d ! j))) (\<lambda>x. strip_value x = ?w j) (size (cp ! j))"
        using lListElem.IH[OF nth_mem[OF j] okj] zero_transmits[OF okj] by simp
    qed
    then show "transmits ns hp (cull_pack_cont (cull_pack_switch ns share 0) cp d None 0)
        (\<lambda>fuel. cull_unpack_cont (unpack_nested ns share' fuel) dR (word_of_nat (length (kept keep))) 0)
        (\<lambda>cp'. strip_elem (lListElem k' dR cp') = sent_elem k' (lListElem k d cp)) (\<Sum>v\<leftarrow>cp. size v)"
      unfolding sent_elem_nth[OF len(1)] sum_nth[of size cp] len(2)[symmetric]
      by (rule transmits_conseq) (use strip_same[OF h] in simp_all)
  qed
qed

end
