(* ===== verification/CullPack_Safe.thy ===== *)
theory CullPack_Safe
  imports CullPack_Correct
begin

text \<open>
  Reading arbitrary bytes: every step of unpacking ends with a result, stays in the memory of the buffer and
  leaves only descriptors of known types in the table. \<open>safe ns n u k Q\<close> says so of the step \<open>u\<close> for at most
  \<open>n\<close> unread bytes, at least \<open>k\<close> of which are read when it succeeds.
\<close>

section \<open>Safe steps\<close>

definition known :: "name_space \<Rightarrow> descriptor \<Rightarrow> bool" where
  "known ns d \<longleftrightarrow> (\<exists>t keep. holds ns d t keep)"

definition safe :: "name_space \<Rightarrow> nat \<Rightarrow> 'a unpacker \<Rightarrow> nat \<Rightarrow> ('a \<Rightarrow> bool) \<Rightarrow> bool" where
  "safe ns n u k Q \<longleftrightarrow> (\<forall>pb tab. wf_pack pb \<longrightarrow> list_all (known ns) tab \<longrightarrow> length (rest pb) \<le> n \<longrightarrow>
     (\<exists>r pb' tab'. u (pb, tab) = Some (r, (pb', tab')) \<and> wf_pack pb' \<and> list_all (known ns) tab' \<and> length (rest pb') \<le> length (rest pb) \<and>
        (\<forall>x. r = Inr x \<longrightarrow> length (rest pb') + k \<le> length (rest pb) \<and> Q x)))"

lemma safe_bind:
  assumes u: "safe ns n u k Q" and f: "\<And>x. Q x \<Longrightarrow> k \<le> n \<Longrightarrow> safe ns (n - k) (f x) j R"
  shows "safe ns n (ubind u f) (k + j) R"
  unfolding safe_def
proof (intro allI impI)
  fix pb tab
  assume a: "wf_pack pb" "list_all (known ns) tab" "length (rest pb) \<le> n"
  obtain r pb1 tab1 where 1: "u (pb, tab) = Some (r, (pb1, tab1))" "wf_pack pb1" "list_all (known ns) tab1"
      "length (rest pb1) \<le> length (rest pb)" "\<forall>x. r = Inr x \<longrightarrow> length (rest pb1) + k \<le> length (rest pb) \<and> Q x"
    using u a unfolding safe_def by blast
  show "\<exists>r pb' tab'. ubind u f (pb, tab) = Some (r, (pb', tab')) \<and> wf_pack pb' \<and> list_all (known ns) tab' \<and>
      length (rest pb') \<le> length (rest pb) \<and> (\<forall>x. r = Inr x \<longrightarrow> length (rest pb') + (k + j) \<le> length (rest pb) \<and> R x)"
  proof (cases r)
    case (Inl e)
    then show ?thesis using 1 by (simp add: ubind_def)
  next
    case (Inr x)
    then have x: "Q x" "length (rest pb1) + k \<le> length (rest pb)" using 1(5) by simp_all
    then have "k \<le> n" "length (rest pb1) \<le> n - k" using a(3) by simp_all
    then obtain r2 pb2 tab2 where 2: "f x (pb1, tab1) = Some (r2, (pb2, tab2))" "wf_pack pb2" "list_all (known ns) tab2"
        "length (rest pb2) \<le> length (rest pb1)" "\<forall>y. r2 = Inr y \<longrightarrow> length (rest pb2) + j \<le> length (rest pb1) \<and> R y"
      using f[OF x(1)] 1(2,3) unfolding safe_def by blast
    have "length (rest pb2) + (k + j) \<le> length (rest pb) \<and> R y" if "r2 = Inr y" for y
      using 2(5) that x(2) by fastforce
    then show ?thesis using 1(1,4) 2 Inr by (simp add: ubind_def)
  qed
qed

lemma safe_ret: "Q x \<Longrightarrow> safe ns n (uret x) 0 Q"
  by (simp add: safe_def uret_def)

lemma safe_fail: "safe ns n (ufail e) k Q"
  by (simp add: safe_def ufail_def)

lemma safe_conseq: "safe ns n u k Q \<Longrightarrow> m \<le> n \<Longrightarrow> j \<le> k \<Longrightarrow> (\<And>x. Q x \<Longrightarrow> R x) \<Longrightarrow> safe ns m u j R"
  unfolding safe_def by (meson add_left_mono order_trans)

lemma safe_map: "safe ns n u k (\<lambda>x. Q (h x)) \<Longrightarrow> safe ns n (ubind u (\<lambda>x. uret (h x))) k Q"
  using safe_bind[of ns n u k "\<lambda>x. Q (h x)" "\<lambda>x. uret (h x)" 0 Q] by (simp add: safe_ret)

lemma lift_safe:
  assumes "\<And>pb. wf_pack pb \<Longrightarrow> f pb = Some (if b pb then (PACK_FORMAT, d, pb) else (PACK_SUCCESS, g pb, advance (c pb) pb))"
    "\<And>pb. wf_pack pb \<Longrightarrow> \<not> b pb \<Longrightarrow> k \<le> c pb \<and> c pb \<le> length (rest pb)"
  shows "safe ns n (lift_unpack f) k (\<lambda>_. True)"
  unfolding safe_def
proof (intro allI impI)
  fix pb tab
  assume a: "wf_pack pb" "list_all (known ns) tab"
  show "\<exists>r pb' tab'. lift_unpack f (pb, tab) = Some (r, (pb', tab')) \<and> wf_pack pb' \<and> list_all (known ns) tab' \<and>
      length (rest pb') \<le> length (rest pb) \<and> (\<forall>x. r = Inr x \<longrightarrow> length (rest pb') + k \<le> length (rest pb) \<and> True)"
    using assms(1)[OF a(1)] assms(2)[OF a(1)] wf_advance[OF a(1), of "c pb"] a
    by (cases "b pb") (auto simp: lift_unpack_def)
qed

lemma safe_uint32: "safe ns n uint32 4 (\<lambda>_. True)"
  unfolding uint32_def by (rule lift_safe[OF unpack_simps(1)]) (simp_all add: INTSIZE_def)

lemma safe_int64: "safe ns n (lift_unpack unpackint64) 8 (\<lambda>_. True)"
  by (rule lift_safe[OF unpack_simps(2)]) (simp_all add: INTSIZE_def)

lemma safe_double: "safe ns n (lift_unpack unpackdouble) 8 (\<lambda>_. True)"
  by (rule lift_safe[OF unpack_simps(3)]) (simp_all add: DOUBLESIZE_def)

lemma safe_ustr: "safe ns n ustr 1 (\<lambda>_. True)"
  unfolding ustr_def by (rule lift_safe[OF unpackstr_simp[unfolded Let_def]]) (auto dest: zero_within)

lemma safe_int_bind: "(\<And>i. 4 \<le> n \<Longrightarrow> safe ns (n - 4) (f i) j R) \<Longrightarrow> safe ns n (ubind uint32 f) (4 + j) R"
  by (rule safe_bind[OF safe_uint32])

lemma safe_int_bind0: "(\<And>i. safe ns (n - 4) (f i) 0 R) \<Longrightarrow> safe ns n (ubind uint32 f) 0 R"
  by (rule safe_conseq[OF safe_int_bind[of n ns f 0]]) simp_all

lemma safe_if: "(b \<Longrightarrow> safe ns n u k Q) \<Longrightarrow> (\<not> b \<Longrightarrow> safe ns n v k Q) \<Longrightarrow> safe ns n (if b then u else v) k Q"
  by simp

lemma safe_option: "(r = None \<Longrightarrow> safe ns n u k Q) \<Longrightarrow> (\<And>x. r = Some x \<Longrightarrow> safe ns n (f x) k Q) \<Longrightarrow>
    safe ns n (case r of None \<Rightarrow> u | Some x \<Rightarrow> f x) k Q"
  by (cases r) simp_all

lemma safe_sum: "(\<And>x. r = Inl x \<Longrightarrow> safe ns n (f x) k Q) \<Longrightarrow> (\<And>x. r = Inr x \<Longrightarrow> safe ns n (g x) k Q) \<Longrightarrow>
    safe ns n (case r of Inl x \<Rightarrow> f x | Inr x \<Rightarrow> g x) k Q"
  by (cases r) simp_all

lemma safe_prod: "(\<And>x y. r = (x, y) \<Longrightarrow> safe ns n (f x y) k Q) \<Longrightarrow> safe ns n (case r of (x, y) \<Rightarrow> f x y) k Q"
  by (cases r) simp_all

section \<open>Descriptors\<close>

lemma build_known:
  assumes "wf_ns ns" "known_type ns t" "length keep = length t"
  shows "ocs_cull_descr_build ns share (Static t) keep = Some None \<or> (\<exists>d. ocs_cull_descr_build ns share (Static t) keep = Some (Some d) \<and> known ns d)"
proof (cases "0 < length (kept keep)")
  case True
  then show ?thesis using build_holds[OF assms, of share] by (auto simp: known_def)
next
  case False
  then obtain out where "ocs_cull_descr_layout t keep = Some (0, out)"
    using layout_kept[OF known_wf[OF assms(1,2)] assms(3)] by auto
  then show ?thesis by (simp add: ocs_cull_descr_build_def)
qed

lemma safe_enter:
  assumes "r = Some None \<or> (\<exists>d. r = Some (Some d) \<and> known ns d)"
  shows "safe ns n (enter r) 0 (known ns)"
  using assms by (auto simp: safe_def enter_def)

lemma safe_read_fields: "safe ns n (read_fields m prev) 0 (\<lambda>_. True)"
proof (induction m arbitrary: n prev)
  case (Suc m)
  show ?case
    unfolding read_fields.simps Let_def
    by (intro safe_int_bind0 safe_if safe_fail safe_map Suc.IH)
qed (simp add: safe_ret)

lemma safe_read_indices: "safe ns n (read_indices m l keep) 0 (\<lambda>keep'. length keep' = length keep)"
proof (induction m arbitrary: n l keep)
  case (Suc m)
  have "safe ns (n - 4) (read_indices m (uint i) (keep[unat i := True])) 0 (\<lambda>keep'. length keep' = length keep)" for i :: "32 word"
    using Suc.IH[of "n - 4" "uint i" "keep[unat i := True]"] by simp
  then show ?case
    unfolding read_indices.simps by (intro safe_int_bind0 safe_if safe_fail)
qed (simp add: safe_ret)

lemma keep_named_length: "keep_named t fs keep = Some keep' \<Longrightarrow> length keep' = length keep"
  by (induction t fs keep rule: keep_named.induct) (auto simp: Let_def split: if_splits)

lemma prefix_type_known: "ocs_cull_unpack_prefix_type ns dp = Inr (Some t) \<Longrightarrow> known_type ns t"
  by (auto simp: ocs_cull_unpack_prefix_type_def split: if_splits option.splits dest: static_containing_only_known)

lemma known_static: "wf_ns ns \<Longrightarrow> known_type ns t \<Longrightarrow> known ns (Static t)"
  using holds_static by (auto simp: known_def)

lemma named_known:
  assumes "wf_ns ns" "(if dp \<noteq> [] then ocs_cull_descr_static_containing ns (fst (dp ! 0)) else None) = Some p" "p = (t, first)"
    "keep_named t dp (replicate (lCountDescr t) False) = Some keep"
  shows "ocs_cull_descr_build ns share (Static t) keep = Some None \<or> (\<exists>d. ocs_cull_descr_build ns share (Static t) keep = Some (Some d) \<and> known ns d)"
proof (rule build_known[OF assms(1)])
  show k: "known_type ns t" using assms(2,3) by (auto split: if_splits dest: static_containing_only_known)
  show "length keep = length t"
    using keep_named_length[OF assms(4)] count_entries_type[OF known_wf[OF assms(1) k]] by (simp add: lCountDescr_def)
qed

lemma safe_descr_fields:
  assumes "wf_ns ns"
  shows "safe ns n (unpack_descr_fields ns share m enter_table expected) 0 (\<lambda>(d, c). known ns d)"
proof -
  have read: "safe ns n (ubind (read_fields (unat m) None) k) 0 R" if "\<And>x. safe ns n (k x) 0 R" for k :: "_ \<Rightarrow> (descriptor \<times> 32 word) unpacker" and R
    using safe_bind[OF safe_read_fields, where f = k and j = 0 and R = R] that by simp
  have pair: "safe ns n u 0 (known ns) \<Longrightarrow> safe ns n (ubind u (\<lambda>d. uret (d, m))) 0 (\<lambda>(d, c). known ns d)" for u
    by (rule safe_map) simp
  show ?thesis
    unfolding unpack_descr_fields_def Let_def
  proof (intro safe_if safe_fail read safe_sum safe_option safe_prod pair, goal_cases)
    case (1 dp type p t first keep)
    show ?case by (rule safe_enter[OF named_known[OF assms 1(5-7)]])
  next
    case (2 dp type p t first keep)
    then show ?case using named_known[OF assms 2(5-7), of share] by simp
  next
    case (3 dp type p t first keep r d)
    then show ?case using named_known[OF assms 3(5-7), of share] by (simp add: safe_ret)
  next
    case (4 dp type t)
    then show ?case using prefix_type_known known_static[OF assms] by (auto intro!: safe_ret split: if_splits)
  qed
qed

lemma safe_descr_indices:
  assumes "wf_ns ns"
  shows "safe ns n (unpack_descr_indices ns share) 0 (\<lambda>(d, c). known ns d)"
  unfolding unpack_descr_indices_def
proof (intro safe_int_bind0 safe_option safe_if safe_fail)
  fix name count :: "32 word" and t
  assume "ocs_cull_descr_static_for ns (sint name) = Some t"
  then have t: "known_type ns t" using static_for_only_known by blast
  have l: "lCountDescr t = length t" using count_entries_type[OF known_wf[OF assms t]] by (simp add: lCountDescr_def)
  let ?built = "\<lambda>keep. if count = 0 then ufail PACK_FORMAT else ubind (enter (ocs_cull_descr_build ns share (Static t) keep)) (\<lambda>d. uret (d, count))"
  have "safe ns j (?built keep) 0 (\<lambda>(d, c). known ns d)" if "length keep = length t" for keep j
  proof (intro safe_if safe_fail safe_map)
    show "safe ns j (enter (ocs_cull_descr_build ns share (Static t) keep)) 0 (\<lambda>d. case (d, count) of (d, c) \<Rightarrow> known ns d)"
      using safe_enter[OF build_known[OF assms t that, of share]] by simp
  qed
  then show "safe ns (n - 4 - 4) (ubind (read_indices (unat count) (- 1) (replicate (lCountDescr t) False)) ?built) 0 (\<lambda>(d, c). known ns d)"
    using safe_bind[OF safe_read_indices, where f = ?built and j = 0 and R = "\<lambda>(d, c). known ns d" and ?keep1 = "replicate (lCountDescr t) False"]
    by (simp add: l)
qed

lemma safe_table_entry: "safe ns n (table_entry i) 0 (\<lambda>(d, c). known ns d)"
  by (auto simp: safe_def table_entry_def list_all_length)

lemma safe_descr:
  assumes "wf_ns ns"
  shows "safe ns n (cull_unpack_descr ns share flags expected) 4 (\<lambda>(d, c). known ns d)"
proof -
  have "safe ns n (cull_unpack_descr ns share flags expected) (4 + 0) (\<lambda>(d, c). known ns d)"
    unfolding cull_unpack_descr_def
  proof (intro safe_int_bind safe_if safe_int_bind0 safe_option safe_fail safe_descr_fields[OF assms] safe_descr_indices[OF assms]
      safe_table_entry safe_ret)
    fix first count :: "32 word" and t
    assume "ocs_cull_descr_static_for ns (sint first) = Some t"
    then show "case (Static t, count) of (d, c) \<Rightarrow> known ns d" using static_for_only_known known_static[OF assms] by auto
  qed
  then show ?thesis by simp
qed

lemma safe_descr_bind:
  assumes "wf_ns ns" "\<And>d c. known ns d \<Longrightarrow> safe ns (n - 4) (f d c) 0 R"
  shows "safe ns n (ubind (cull_unpack_descr ns share flags expected) (\<lambda>(d, c). f d c)) 0 R"
proof -
  have "safe ns n (ubind (cull_unpack_descr ns share flags expected) (\<lambda>(d, c). f d c)) (4 + 0) R"
    by (rule safe_bind[OF safe_descr[OF assms(1)]]) (use assms(2) in auto)
  then show ?thesis by (rule safe_conseq) simp_all
qed

section \<open>Values and elements\<close>

fun has_type :: "32 word \<Rightarrow> lMultiType \<Rightarrow> bool" where
  \<comment> \<open>the member that the type selects\<close>
  "has_type ty (M_db x) = (ty = lDoubleT)"
| "has_type ty (M_ul x) = (ty = lUlongT)"
| "has_type ty (M_ul64 x) = (ty = lUlong64T)"
| "has_type ty (M_b x) = (ty = lBoolT)"
| "has_type ty (M_str t) = (ty = lStringT)"
| "has_type ty (M_host t) = (ty = lHostT)"
| "has_type ty (M_ref r) = (ty = lRefT)"
| "has_type ty (M_glp l) = (ty = lListT)"
| "has_type ty (M_obj e) = (ty = lObjectT)"

definition typed_values :: "descriptor \<Rightarrow> lMultiType list \<Rightarrow> bool" where
  \<comment> \<open>one value for each field that has one, of the type of the field or zero\<close>
  "typed_values d cp \<longleftrightarrow> list_all2 (\<lambda>m v. has_type (mt_get_type m) v \<or> v = zero_value (mt_get_type m)) (field_types d) cp"

lemma safe_switch:
  assumes "safe ns n sub_list 4 (\<lambda>_. True)" "safe ns n sub_object 4 (\<lambda>_. True)"
  shows "safe ns n (cull_unpack_switch sub_list sub_object ty) 0 (has_type ty)"
  unfolding cull_unpack_switch_def
  by (intro safe_if safe_map safe_ret safe_fail; (rule safe_conseq[OF safe_uint32 order_refl] safe_conseq[OF safe_int64 order_refl] safe_conseq[OF safe_double order_refl]
     safe_conseq[OF safe_ustr order_refl] safe_conseq[OF assms(1) order_refl] safe_conseq[OF assms(2) order_refl])?; simp)

lemma safe_values:
  assumes "\<And>ty. safe ns n (switch ty) 0 (P ty)"
    "list_all (\<lambda>(pos, slot). 0 \<le> slot \<and> slot < int (length tys) \<and> tys ! nat slot = mt (d ! pos)) ps"
    "list_all2 (\<lambda>m v. P (mt_get_type m) v \<or> Z m v) tys cp"
  shows "safe ns n (read_values switch d flags ps cp) 0 (list_all2 (\<lambda>m v. P (mt_get_type m) v \<or> Z m v) tys)"
  using assms(2,3)
proof (induction ps arbitrary: cp)
  case (Cons p ps)
  obtain pos slot where p: "p = (pos, slot)" by (cases p)
  have l: "length cp = length tys" using Cons.prems(2) by (auto dest: list_all2_lengthD)
  have slot: "0 \<le> slot" "slot < int (length cp)" "tys ! nat slot = mt (d ! pos)" using Cons.prems(1) p l by simp_all
  let ?R = "list_all2 (\<lambda>m v. P (mt_get_type m) v \<or> Z m v) tys"
  let ?k = "\<lambda>v. if 0 \<le> slot \<and> slot < int (length cp) then read_values switch d flags ps (cp[nat slot := v]) else ufault"
  have "safe ns n (ubind (switch (mt_get_type (mt (d ! pos)))) ?k) (0 + 0) ?R"
  proof (rule safe_bind[OF assms(1)])
    fix v
    assume v: "P (mt_get_type (mt (d ! pos))) v"
    have "?R (cp[nat slot := v])"
      using Cons.prems(2) v slot l by (auto simp: list_all2_conv_all_nth nth_list_update)
    then show "safe ns (n - 0) (?k v) 0 ?R" using Cons.IH[of "cp[nat slot := v]"] Cons.prems(1) slot(1,2) by simp
  qed
  then show ?case using Cons by (simp add: p)
qed (simp add: safe_ret)

lemma safe_cont:
  assumes "wf_ns ns" "known ns d" "\<And>ty. safe ns n (switch ty) 0 (has_type ty)"
  shows "safe ns n (cull_unpack_cont switch d wire_n flags) 0 (typed_values d)"
proof -
  obtain t keep where h: "holds ns d t keep" using assms(2) by (auto simp: known_def)
  note f = field_types_holds[OF assms(1) h] and p = present_fields_holds[OF assms(1) h]
  let ?zero = "map (\<lambda>(pos, slot). zero_value (mt_get_type (mt (fields_of d ! pos)))) (ocs_cull_present_fields d)"
  have z: "typed_values d ?zero" using f(1,4) by (simp add: typed_values_def list_all2_conv_all_nth p)
  have "list_all (\<lambda>(pos, slot). 0 \<le> slot \<and> slot < int (length (field_types d)) \<and> field_types d ! nat slot = mt (fields_of d ! pos)) (ocs_cull_present_fields d)"
    using f(1,4) by (simp add: p list_all_length)
  then have ps: "list_all (\<lambda>(pos, slot). 0 \<le> slot \<and> slot < int (length (field_types d)) \<and> field_types d ! nat slot = mt (fields_of d ! pos))
      (take (unat wire_n) (ocs_cull_present_fields d))"
    by (auto simp: list_all_iff dest: in_set_takeD)
  have "safe ns n (read_values switch (fields_of d) flags (take (unat wire_n) (ocs_cull_present_fields d)) ?zero) 0 (typed_values d)"
    unfolding typed_values_def[abs_def] by (rule safe_values[OF assms(3) ps]) (use z in \<open>simp add: typed_values_def\<close>)
  then show ?thesis unfolding cull_unpack_cont_def Let_def by (intro safe_if safe_fail)
qed

fun fresh_elem :: "name_space \<Rightarrow> lListElem \<Rightarrow> bool" where
  "fresh_elem ns (lListElem k d cp) \<longleftrightarrow> (k = FREE_ELEM \<or> k = TRANS_BOUND_ELEM) \<and> known ns d \<and> typed_values d cp"

lemma safe_elem:
  assumes "wf_ns ns" "pred_option (known ns) dp" "\<And>ty. safe ns n (switch ty) 0 (has_type ty)"
  shows "safe ns n (ocs_cull_unpack_elem ns share switch dp wire_n flags) 4 (fresh_elem ns)"
proof -
  have "safe ns n (ocs_cull_unpack_elem ns share switch dp wire_n flags) (4 + 0) (fresh_elem ns)"
    unfolding ocs_cull_unpack_elem_def
  proof (intro safe_int_bind safe_option safe_if safe_fail)
    have sw: "safe ns j (switch ty) 0 (has_type ty)" if "j \<le> n" for j ty
      by (rule safe_conseq[OF assms(3) that order_refl])
    let ?k = "\<lambda>(d, c). ubind (cull_unpack_cont switch d c flags) (\<lambda>cp. uret (lListElem FREE_ELEM d cp))"
    have "safe ns (n - 4) (ubind (cull_unpack_descr ns share flags (if flags \<noteq> 0 then dp else None)) ?k) (4 + 0) (fresh_elem ns)"
    proof (rule safe_bind[OF safe_descr[OF assms(1)]])
      fix r :: "descriptor \<times> 32 word"
      assume "case r of (d, c) \<Rightarrow> known ns d"
      then obtain d c where r: "r = (d, c)" "known ns d" by (cases r) auto
      show "safe ns (n - 4 - 4) (?k r) 0 (fresh_elem ns)"
        unfolding r(1) prod.case
        by (rule safe_map) (use safe_conseq[OF safe_cont[OF assms(1) r(2) sw] order_refl order_refl, of "n - 4 - 4"] r(2) in simp)
    qed
    then show "safe ns (n - 4) (ubind (cull_unpack_descr ns share flags (if flags \<noteq> 0 then dp else None)) ?k) 0 (fresh_elem ns)"
      by (rule safe_conseq) simp_all
    fix d
    assume "dp = Some d"
    then have d: "known ns d" using assms(2) by simp
    show "safe ns (n - 4) (ubind (cull_unpack_cont switch d wire_n flags) (\<lambda>cp. uret (lListElem TRANS_BOUND_ELEM d cp))) 0 (fresh_elem ns)"
      by (rule safe_map) (use safe_conseq[OF safe_cont[OF assms(1) d sw] order_refl order_refl, of "n - 4"] d in simp)
  qed
  then show ?thesis by simp
qed

section \<open>Lists and objects\<close>

fun bound_list :: "name_space \<Rightarrow> nat \<Rightarrow> lList \<Rightarrow> bool" where
  \<comment> \<open>every element took at least eight of the given number of bytes\<close>
  "bound_list ns m (lList name d es) \<longleftrightarrow>
     known ns d \<and> list_all (\<lambda>e. case e of lListElem k d' cp \<Rightarrow> k = BOUND_ELEM \<and> d' = d) es \<and> 8 * length es \<le> m"

lemma safe_elems:
  assumes "bound_list ns m lp" "n < fuel" "safe ns n elem 4 (fresh_elem ns)"
  shows "safe ns n (unpack_elems elem fuel has_more lp) 0 (bound_list ns (m + n))"
  using assms
proof (induction fuel arbitrary: n m has_more lp)
  case (Suc fuel)
  let ?k = "\<lambda>ep. case lAppendElem lp ep of None \<Rightarrow> ufault | Some lp1 \<Rightarrow> ubind uint32 (\<lambda>has_more1. unpack_elems elem fuel has_more1 lp1)"
  have "safe ns n (ubind elem ?k) (4 + 4) (bound_list ns (m + n))"
  proof (rule safe_bind[OF Suc.prems(3)])
    fix e
    assume e: "fresh_elem ns e" "4 \<le> n"
    obtain name d es k d' cp where l: "lp = lList name d es" "e = lListElem k d' cp" by (cases lp; cases e)
    define lp1 where "lp1 = lList name d (es @ [lListElem BOUND_ELEM d cp])"
    have a: "lAppendElem lp e = Some lp1" "bound_list ns (m + 8) lp1" using e(1) Suc.prems(1) l by (auto simp: lp1_def)
    have "safe ns (n - 4 - 4) (unpack_elems elem fuel h lp1) 0 (bound_list ns (m + 8 + (n - 4 - 4)))" for h
      by (rule Suc.IH[OF a(2)]) (use Suc.prems(2) e(2) safe_conseq[OF Suc.prems(3), of "n - 4 - 4" 4 "fresh_elem ns"] in simp_all)
    moreover have "m + 8 + (n - 4 - 4) = m + n" if "4 \<le> n - 4" using that by simp
    ultimately have "safe ns (n - 4) (ubind uint32 (\<lambda>h. unpack_elems elem fuel h lp1)) (4 + 0) (bound_list ns (m + n))"
      by (intro safe_int_bind) metis
    then show "safe ns (n - 4) (?k e) 4 (bound_list ns (m + n))" unfolding a(1) by simp
  qed
  moreover have "bound_list ns (m + n) lp" using Suc.prems(1) by (cases lp) simp
  ultimately show ?case unfolding unpack_elems.simps[of elem "Suc fuel"] nat.case
    by (intro safe_if safe_ret) (simp, rule safe_conseq[OF _ order_refl], simp_all)
qed simp

lemma safe_nested:
  assumes "wf_ns ns"
  shows "safe ns n (cull_unpack_list_partial ns share flags (Suc n)) 4 (pred_option (bound_list ns (n - 13))) \<and>
    safe ns n (cull_unpack_object ns share flags (Suc n)) 4 (\<lambda>_. True)"
proof (induction n rule: less_induct)
  case (less n)
  define sw where "sw = cull_unpack_switch (cull_unpack_list_partial ns share flags n) (cull_unpack_object ns share flags n)"
  have sw: "safe ns j (sw ty) 0 (has_type ty)" if j: "j < n" for j ty
    unfolding sw_def
  proof (rule safe_switch)
    obtain m where m: "n = Suc m" "j \<le> m" using j by (cases n) auto
    have IH: "safe ns m (cull_unpack_list_partial ns share flags n) 4 (pred_option (bound_list ns (m - 13)))"
      "safe ns m (cull_unpack_object ns share flags n) 4 (\<lambda>_. True)" using less[of m] m(1) by simp_all
    show "safe ns j (cull_unpack_list_partial ns share flags n) 4 (\<lambda>_. True)" by (rule safe_conseq[OF IH(1) m(2)]) simp_all
    show "safe ns j (cull_unpack_object ns share flags n) 4 (\<lambda>_. True)" by (rule safe_conseq[OF IH(2) m(2)]) simp_all
  qed
  have elem: "safe ns j (ocs_cull_unpack_elem ns share sw (Some d) c flags) 4 (fresh_elem ns)" if "j < n" "known ns d" for j d c
    by (rule safe_elem[OF assms]) (use sw that in simp_all)
  have body: "safe ns (n - 4) (ubind ustr (\<lambda>name. ubind (cull_unpack_descr ns share flags None) (\<lambda>(dp, wire_n). ubind uint32 (\<lambda>has_more.
      ubind (unpack_elems (ocs_cull_unpack_elem ns share sw (Some dp) wire_n flags) n has_more (lList name dp [])) (\<lambda>lp. uret (Some lp))))))
      0 (pred_option (bound_list ns (n - 13)))" if n: "4 \<le> n"
  proof (rule safe_conseq[OF safe_bind[OF safe_ustr, of _ _ _ 0]], intro safe_descr_bind[OF assms] safe_int_bind0 safe_map)
    fix name d c h
    assume "known ns d"
    then show "safe ns (n - 4 - 1 - 4 - 4) (unpack_elems (ocs_cull_unpack_elem ns share sw (Some d) c flags) n h (lList name d [])) 0
        (\<lambda>x. pred_option (bound_list ns (n - 13)) (Some x))"
      using safe_elems[of ns 0 "lList name d []" "n - 4 - 1 - 4 - 4" n] elem[of "n - 4 - 1 - 4 - 4" d c] n by simp
  qed simp_all
  have "safe ns n (cull_unpack_list_partial ns share flags (Suc n)) (4 + 0) (pred_option (bound_list ns (n - 13)))"
    unfolding cull_unpack_list_partial.simps sw_def[symmetric] using body by (intro safe_int_bind safe_if) (auto intro: safe_ret)
  moreover have "safe ns n (cull_unpack_object ns share flags (Suc n)) (4 + 0) (\<lambda>_. True)"
    unfolding cull_unpack_object.simps sw_def[symmetric]
  proof (intro safe_int_bind safe_if safe_ret TrueI safe_descr_bind[OF assms] safe_map)
    fix d c
    assume "4 \<le> n" "known ns d"
    then show "safe ns (n - 4 - 4) (ocs_cull_unpack_elem ns share sw (Some d) c flags) 0 (\<lambda>x. True)"
      by (intro safe_conseq[OF elem[of "n - 4 - 4" d c]]) simp_all
  qed
  ultimately show ?case by simp
qed

section \<open>What was sent\<close>

text \<open>What the bytes say of an element: its kind, its descriptor and how many of its fields follow. An
  element that is free brings a descriptor of its own.\<close>

definition announced ::
    "name_space \<Rightarrow> (fields \<Rightarrow> nat) \<Rightarrow> descriptor option \<Rightarrow> 32 word \<Rightarrow> pstate \<Rightarrow> (cull_elem_kind \<times> descriptor \<times> 32 word) option" where
  "announced ns share dp flags st =
     (case uint32 st of
        Some (Inr wire, st1) \<Rightarrow>
          (case elem_kind_from_wire wire of
             None \<Rightarrow> None
           | Some kind \<Rightarrow>
               if kind = FREE_ELEM then
                 (case cull_unpack_descr ns share flags (if flags \<noteq> 0 then dp else None) st1 of
                    Some (Inr (d, n), _) \<Rightarrow> Some (FREE_ELEM, d, n)
                  | _ \<Rightarrow> None)
               else map_option (\<lambda>d. (TRANS_BOUND_ELEM, d, word_of_nat (lCountPresent d))) dp)
      | _ \<Rightarrow> None)"

text \<open>A value of the right type for each field that was sent, and zero for each other one: those behind the
  first \<open>n\<close>, and those that the flags leave out.\<close>

definition fits :: "nat \<Rightarrow> 32 word \<Rightarrow> descriptor \<Rightarrow> lMultiType list \<Rightarrow> bool" where
  "fits n flags d cp \<longleftrightarrow> length cp = length (field_types d) \<and> n \<le> length cp \<and>
     (\<forall>i<length cp. if i < n \<and> flag_matches flags (field_types d ! i)
        then has_type (mt_get_type (field_types d ! i)) (cp ! i)
        else cp ! i = zero_value (mt_get_type (field_types d ! i)))"

lemma ubind_Inr:
  assumes "ubind m f st = Some (Inr x, st')"
  obtains y st1 where "m st = Some (Inr y, st1)" "f y st1 = Some (Inr x, st')"
  using assms by (auto simp: ubind_def split: Option.bind_splits sum.splits)

lemma ufail_Inr [simp]: "ufail e st \<noteq> Some (Inr x, st')" "ufault st = None"
  by (simp_all add: ufail_def ufault_def)

lemma switch_type:
  assumes "cull_unpack_switch sub_list sub_object ty st = Some (Inr v, st')"
  shows "has_type ty v"
  using assms unfolding cull_unpack_switch_def
  by (auto elim!: ubind_Inr simp: uret_def split: if_splits)

lemma read_values_result:
  assumes "read_values switch d flags ps cp st = Some (Inr cp', st')" "distinct (map snd ps)"
    "list_all (\<lambda>p. 0 \<le> snd p \<and> snd p < int (length cp)) ps"
    "\<And>ty st v st'. switch ty st = Some (Inr v, st') \<Longrightarrow> has_type ty v"
  shows "length cp' = length cp \<and> (\<forall>i<length cp. int i \<notin> snd ` set ps \<longrightarrow> cp' ! i = cp ! i) \<and>
    (\<forall>(pos, slot)\<in>set ps. if flag_matches flags (mt (d ! pos)) then has_type (mt_get_type (mt (d ! pos))) (cp' ! nat slot)
       else cp' ! nat slot = cp ! nat slot)"
  using assms(1-3)
proof (induction ps arbitrary: cp st)
  case Nil
  then show ?case by (simp add: uret_def)
next
  case (Cons p ps)
  obtain pos slot where p: "p = (pos, slot)" by (cases p)
  have slot: "0 \<le> slot" "slot < int (length cp)" "slot \<notin> snd ` set ps" using Cons.prems(2,3) p by simp_all
  have rest: "distinct (map snd ps)" "list_all (\<lambda>p. 0 \<le> snd p \<and> snd p < int (length cp)) ps"
    using Cons.prems(2,3) by simp_all
  show ?case
  proof (cases "flag_matches flags (mt (d ! pos))")
    case True
    have "ubind (switch (mt_get_type (mt (d ! pos)))) (\<lambda>v. if 0 \<le> slot \<and> slot < int (length cp)
        then read_values switch d flags ps (cp[nat slot := v]) else ufault) st = Some (Inr cp', st')"
      using Cons.prems(1) True p by simp
    then obtain v st1 where v: "switch (mt_get_type (mt (d ! pos))) st = Some (Inr v, st1)"
        "read_values switch d flags ps (cp[nat slot := v]) st1 = Some (Inr cp', st')"
      using slot by (auto elim: ubind_Inr)
    note IH = Cons.IH[OF v(2) rest(1)]
    have "cp' ! nat slot = v" using IH rest(2) slot by (auto simp: nat_less_iff)
    moreover have "cp[nat slot := v] ! nat (snd q) = cp ! nat (snd q)" if "q \<in> set ps" for q
      using that slot rest(2) by (intro nth_list_update_neq) (force simp: list_all_iff)
    moreover have "cp[nat slot := v] ! i = cp ! i" if "int i \<noteq> slot" for i
      using that slot(1) by (intro nth_list_update_neq) auto
    ultimately show ?thesis
      using IH rest(2) True assms(4)[OF v(1)] by (fastforce simp: p)
  next
    case False
    then have "read_values switch d flags ps cp st = Some (Inr cp', st')" using Cons.prems(1) p by simp
    from Cons.IH[OF this rest] show ?thesis using False slot by (auto simp: p nat_less_iff)
  qed
qed

lemma cont_fits:
  assumes "wf_ns ns" "known ns d" "cull_unpack_cont switch d n flags st = Some (Inr cp, st')"
    "\<And>ty st v st'. switch ty st = Some (Inr v, st') \<Longrightarrow> has_type ty v"
  shows "fits (unat n) flags d cp"
proof -
  obtain t keep where h: "holds ns d t keep" using assms(2) by (auto simp: known_def)
  note f = field_types_holds[OF assms(1) h] and p = present_fields_holds[OF assms(1) h]
  let ?ps = "take (unat n) (ocs_cull_present_fields d)"
  let ?zero = "map (\<lambda>(pos, slot). zero_value (mt_get_type (mt (fields_of d ! pos)))) (ocs_cull_present_fields d)"
  have n: "unat n \<le> length (kept keep)" and run: "read_values switch (fields_of d) flags ?ps ?zero st = Some (Inr cp, st')"
    using assms(3) lCountPresent_holds[OF assms(1) h] by (auto simp: cull_unpack_cont_def Let_def split: if_splits)
  have ps: "?ps = map (\<lambda>j. (kept keep ! j, int j)) [0..<unat n]" using n by (simp add: p take_map)
  have "distinct (map snd ?ps)" unfolding ps by (simp add: distinct_map inj_on_def)
  moreover have "list_all (\<lambda>q. 0 \<le> snd q \<and> snd q < int (length ?zero)) ?ps" unfolding ps using n by (auto simp: p list_all_iff)
  ultimately have r: "length cp = length ?zero \<and> (\<forall>i<length ?zero. int i \<notin> snd ` set ?ps \<longrightarrow> cp ! i = ?zero ! i) \<and>
    (\<forall>(pos, slot)\<in>set ?ps. if flag_matches flags (mt (fields_of d ! pos))
       then has_type (mt_get_type (mt (fields_of d ! pos))) (cp ! nat slot) else cp ! nat slot = ?zero ! nat slot)"
    by (rule read_values_result[OF run _ _ assms(4)])
  have len: "length ?zero = length (kept keep)" by (simp add: p)
  have z: "?zero ! i = zero_value (mt_get_type (field_types d ! i))" if "i < length (kept keep)" for i
    using that f(4) by (simp add: p)
  have slots: "int i \<in> snd ` set ?ps \<longleftrightarrow> i < unat n" for i unfolding ps by force
  have "if i < unat n \<and> flag_matches flags (field_types d ! i) then has_type (mt_get_type (field_types d ! i)) (cp ! i)
      else cp ! i = zero_value (mt_get_type (field_types d ! i))" if i: "i < length (kept keep)" for i
  proof (cases "i < unat n")
    case True
    then have "(kept keep ! i, int i) \<in> set ?ps" unfolding ps by auto
    then have "if flag_matches flags (mt (fields_of d ! (kept keep ! i)))
        then has_type (mt_get_type (mt (fields_of d ! (kept keep ! i)))) (cp ! i) else cp ! i = ?zero ! i"
      using r by fastforce
    then show ?thesis using True f(4)[OF i] z[OF i] by simp
  next
    case False
    then show ?thesis using r slots[of i] len z[OF i] i by simp
  qed
  then show ?thesis using r len f(1) n by (simp add: fits_def)
qed

lemma elem_announced:
  assumes "ocs_cull_unpack_elem ns share switch dp (case dp of Some d \<Rightarrow> word_of_nat (lCountPresent d) | None \<Rightarrow> 0) flags st =
      Some (Inr (lListElem k d cp), st')"
  obtains n st2 st3 where "announced ns share dp flags st = Some (k, d, n)"
    "cull_unpack_cont switch d n flags st2 = Some (Inr cp, st3)"
proof -
  obtain wire st1 where w: "uint32 st = Some (Inr wire, st1)" and run: "(case elem_kind_from_wire wire of
        None \<Rightarrow> ufail PACK_FORMAT
      | Some kind \<Rightarrow>
          if kind = FREE_ELEM then
            ubind (cull_unpack_descr ns share flags (if flags \<noteq> 0 then dp else None)) (\<lambda>(d, n).
              ubind (cull_unpack_cont switch d n flags) (\<lambda>cp. uret (lListElem FREE_ELEM d cp)))
          else case dp of
              None \<Rightarrow> ufail PACK_BADARG
            | Some d \<Rightarrow> ubind (cull_unpack_cont switch d
                  (case dp of Some d \<Rightarrow> word_of_nat (lCountPresent d) | None \<Rightarrow> 0) flags)
                (\<lambda>cp. uret (lListElem TRANS_BOUND_ELEM d cp))) st1 = Some (Inr (lListElem k d cp), st')"
    using assms unfolding ocs_cull_unpack_elem_def by (elim ubind_Inr) (rule that)
  obtain kind where kind: "elem_kind_from_wire wire = Some kind"
    using run by (cases "elem_kind_from_wire wire") simp_all
  show ?thesis
  proof (cases "kind = FREE_ELEM")
    case True
    then show ?thesis
      using run w kind that by (auto elim!: ubind_Inr simp: announced_def uret_def)
  next
    case False
    then obtain d' where d': "dp = Some d'" using run kind by (cases dp) simp_all
    then have "ubind (cull_unpack_cont switch d' (word_of_nat (lCountPresent d')) flags)
        (\<lambda>cp. uret (lListElem TRANS_BOUND_ELEM d' cp)) st1 = Some (Inr (lListElem k d cp), st')"
      using run kind False by simp
    then obtain cp1 st2 where c: "cull_unpack_cont switch d' (word_of_nat (lCountPresent d')) flags st1 = Some (Inr cp1, st2)"
        "uret (lListElem TRANS_BOUND_ELEM d' cp1) st2 = Some (Inr (lListElem k d cp), st')"
      by (rule ubind_Inr)
    then have "d' = d" "k = TRANS_BOUND_ELEM" "cp1 = cp" by (simp_all add: uret_def)
    with c(1) show ?thesis using w kind False d' by (intro that) (simp_all add: announced_def)
  qed
qed

end
