(* ===== verification/CullPack_Props.thy ===== *)
theory CullPack_Props
  imports CullPack_Safe PackBuffer_Props
begin

text \<open>
  What a list is after it was packed by one process and unpacked by another, and what happens with bytes that
  nobody packed.
\<close>

section \<open>An example\<close>

definition T_host :: fields where
  "T_host = [\<lparr>nm = 100, mt = lHostT, off = 0\<rparr>, \<lparr>nm = 101, mt = lListT, off = 0\<rparr>, \<lparr>nm = 102, mt = lUlongT OR CULL_NO_TRANSFER, off = 0\<rparr>]"

definition T_value :: fields where
  "T_value = [\<lparr>nm = 200, mt = lStringT, off = 0\<rparr>, \<lparr>nm = 201, mt = lUlongT, off = 0\<rparr>, \<lparr>nm = 202, mt = lBoolT, off = 0\<rparr>]"

definition demo_ns :: name_space where
  "demo_ns = Some [\<lparr>lower = 100, block_size = 3, descr = Some T_host\<rparr>, \<lparr>lower = 200, block_size = 3, descr = Some T_value\<rparr>,
     \<lparr>lower = 0, block_size = 0, descr = None\<rparr>]"

lemmas type_words = lEndT_def lDoubleT_def lUlongT_def lLongT_def lBoolT_def lIntT_def lStringT_def lListT_def lObjectT_def lRefT_def lHostT_def
  lUlong64T_def CULL_NO_TRANSFER_def CULL_DESCR_INTERNED_def CULL_IS_REDUCED_def

lemma demo_blocks: "blocks demo_ns = [\<lparr>lower = 100, block_size = 3, descr = Some T_host\<rparr>, \<lparr>lower = 200, block_size = 3, descr = Some T_value\<rparr>]"
  by (simp add: blocks_def demo_ns_def)

lemma demo_types: "wf_type T_host" "wf_type T_value"
  by (auto simp: wf_type_def T_host_def T_value_def plain_field_def MAX_DESCR_SIZE_def clear_interned_def mt_get_type_def type_words less_Suc_eq)

lemma wf_demo_ns: "wf_ns demo_ns"
  using demo_types unfolding wf_ns_def demo_blocks
  by (auto simp: pairwise_def T_host_def T_value_def)

lemma demo_known: "known_type demo_ns T_host" "known_type demo_ns T_value"
  by (simp_all add: known_type_def demo_blocks)

definition demo_reduced :: descriptor where
  "demo_reduced = (case ocs_cull_descr_build demo_ns (\<lambda>_. 7) (Static T_value) [True, False, True] of Some (Some d) \<Rightarrow> d | _ \<Rightarrow> Plain [])"

definition demo_heap :: "nat \<Rightarrow> cull_descr_header" where
  "demo_heap a = (case demo_reduced of Counted b h \<Rightarrow> h)"

definition demo_list :: lList where
  "demo_list = lList (Some ''hosts'') (Static T_host)
     [lListElem BOUND_ELEM (Static T_host) [M_host (Some ''node1''),
        M_glp (Some (lList None demo_reduced [lListElem BOUND_ELEM demo_reduced [M_str (Some ''arch''), M_b True]])), M_ul 5],
      lListElem BOUND_ELEM (Static T_host) [M_host (Some ''''), M_glp None, M_ul 6]]"

lemma demo_kept: "kept [True, False, True] = [0, 2]"
  by (simp add: kept_def upt_conv_Cons)

lemma demo_holds: "holds demo_ns demo_reduced T_value [True, False, True]" "holds demo_ns (Static T_host) T_host [True, True, True]"
proof -
  have "length T_value = 3" "length T_host = 3" by (simp_all add: T_value_def T_host_def)
  then show "holds demo_ns demo_reduced T_value [True, False, True]"
    using build_holds[OF wf_demo_ns demo_known(2), of "[True, False, True]" "\<lambda>_. 7"] demo_kept by (auto simp: demo_reduced_def)
  show "holds demo_ns (Static T_host) T_host [True, True, True]"
    using holds_static[OF wf_demo_ns demo_known(1)] \<open>length T_host = 3\<close> by (simp add: numeral_3_eq_3)
qed

lemma demo_ok: "ok_list demo_ns demo_heap demo_list"
proof -
  have f: "field_types (Static T_host) = [lHostT, lListT, lUlongT OR CULL_NO_TRANSFER]"
    unfolding field_types_def present_fields_holds[OF wf_demo_ns demo_holds(2)] by (simp add: kept_def T_host_def upt_conv_Cons)
  have g: "length (field_types demo_reduced) = 2" "mt_get_type (field_types demo_reduced ! 0) = lStringT" "mt_get_type (field_types demo_reduced ! 1) = lBoolT"
    using field_types_holds(1)[OF wf_demo_ns demo_holds(1)] field_types_holds(2)[OF wf_demo_ns demo_holds(1), of 0]
      field_types_holds(2)[OF wf_demo_ns demo_holds(1), of 1] demo_kept
    by (simp_all add: T_value_def mt_get_type_def type_words)
  have "of_heap (\<lambda>a. case d of Counted b h \<Rightarrow> h) d" for d by (cases d) (simp_all add: of_heap_def)
  then have h: "of_heap demo_heap demo_reduced" unfolding demo_heap_def[abs_def] .
  have "list_all2 (\<lambda>m p. p (mt_get_type m)) (field_types demo_reduced) (map (ok_value demo_ns demo_heap) [M_str (Some ''arch''), M_b True])"
    using g by (simp add: list_all2_conv_all_nth less_2_cases_iff valid_str_def)
  then have "ok_list demo_ns demo_heap (lList None demo_reduced [lListElem BOUND_ELEM demo_reduced [M_str (Some ''arch''), M_b True]])"
    using h demo_holds(1) by (auto simp: ok_descr_def valid_str_def)
  then show ?thesis
    using f demo_holds(2) by (auto simp: demo_list_def ok_descr_def valid_str_def of_heap_def mt_get_type_def type_words)
qed

section \<open>Round trip\<close>

text \<open>C21. A list that is packed by one process and unpacked by another arrives: packing succeeds, the
  receiver accepts the bytes, and gets the list with the same name, the same selection of fields and the same
  values at every depth, where an empty string has become the null pointer, a reference and a field that
  must not be transferred are zero, and all elements are bound. The addresses at which sender and receiver keep
  their shared descriptors play no role, and no byte is left. The descriptors of the list are descriptors of the
  name space or selections from them, its values have the types of their fields, its strings have no zero
  byte, it has at most \<open>2 ^ 32\<close> nodes, the header and the fresh buffer fit into 32 bits, and the receiver accepts
  the authentication information if it is used.\<close>

theorem list_round_trip:
  assumes "wf_ns ns" "ok_list ns hp l" "size l \<le> 2 ^ 32"
    "with_auth_info \<longrightarrow> auth \<noteq> None" "info = (if with_auth_info then auth else None)" "valid_str info"
    "first_size n info + length (header info) + 3 * CHUNK < u32_mod" "with_auth_info \<longrightarrow> parse (norm_str info)"
  shows "\<exists>pb pb' tab q q' tab' x. init_packbuffer auth n False with_auth_info = Some (PACK_SUCCESS, pb) \<and>
     cull_pack_list ns share (Some l) (pb, []) = Some (PACK_SUCCESS, (pb', tab)) \<and>
     init_packbuffer_from_buffer parse (take (pb_used pb') (mem pb')) with_auth_info = Some (PACK_SUCCESS, q) \<and>
     cull_unpack_list ns share' (q, []) = Some (Inr (Some x), (q', tab')) \<and> strip_list x = sent_list l \<and> pb_unused q' = 0"
proof -
  obtain pb where pb: "init_packbuffer auth n False with_auth_info = Some (PACK_SUCCESS, pb)" "wf_pack pb" "contents pb = header info"
    using init_packbuffer_header[OF assms(4-6), of n] assms(7) by auto
  have "tables ns hp [] []" by (simp add: tables_def)
  then obtain bs tab tab' y where t: "emits (cull_pack_list_partial ns share 0 (Some l) None) [] bs tab"
      "\<forall>fuel. length bs \<le> fuel \<longrightarrow> reads (cull_unpack_list_partial ns share' 0 fuel) [] bs y tab'" "map_option strip_list y = Some (sent_list l)"
    using data_transmits(2)[OF assms(1,2), of share share'] assms(3) unfolding transmits_def by (metis add_0 list.size(3))
  obtain pb' where p: "cull_pack_list ns share (Some l) (pb, []) = Some (PACK_SUCCESS, (pb', tab))" "adds bs pb pb'"
    using t(1) pb(2) unfolding emits_def cull_pack_list_def by blast
  then have c: "take (pb_used pb') (mem pb') = header info @ bs" using pb(3) by (simp add: adds_def contents_def pb_used_def wf_pack_def)
  obtain q where q: "init_packbuffer_from_buffer parse (header info @ bs) with_auth_info = Some (PACK_SUCCESS, q)" "wf_pack q" "rest q = bs"
    using from_buffer_reads_header[of info with_auth_info parse, OF assms(6,8)] by blast
  have "length bs \<le> enough (q, [])" using q(2,3) wf_room(2)[OF q(2)] by (simp add: enough_def pb_unused_def)
  then have "reads (cull_unpack_list_partial ns share' 0 (enough (q, []))) [] bs y tab'" using t(2) by blast
  then obtain q' where q': "cull_unpack_list ns share' (q, []) = Some (Inr y, (q', tab'))" "wf_pack q'" "rest q' = []"
    using q(2,3) unfolding reads_def cull_unpack_list_def by (metis append_Nil2)
  obtain x where "y = Some x" "strip_list x = sent_list l" using t(3) by auto
  moreover have "pb_unused q' = 0" using wf_room(2)[OF q'(2)] q'(3) by (simp add: pb_unused_def)
  ultimately show ?thesis using pb(1) p(1) q(1) q'(1) c by metis
qed

theorem list_round_trip_witness:
  "\<exists>pb pb' tab q q' tab' x. init_packbuffer None 0 False False = Some (PACK_SUCCESS, pb) \<and>
     cull_pack_list demo_ns (\<lambda>_. 7) (Some demo_list) (pb, []) = Some (PACK_SUCCESS, (pb', tab)) \<and>
     init_packbuffer_from_buffer (\<lambda>_. True) (take (pb_used pb') (mem pb')) False = Some (PACK_SUCCESS, q) \<and>
     cull_unpack_list demo_ns (\<lambda>_. 11) (q, []) = Some (Inr (Some x), (q', tab')) \<and> strip_list x = sent_list demo_list \<and> pb_unused q' = 0"
proof -
  have "size demo_list \<le> 2 ^ 32" by (simp add: demo_list_def)
  then show ?thesis
    using list_round_trip[OF wf_demo_ns demo_ok, of False None None 0 "\<lambda>_. True" "\<lambda>_. 7" "\<lambda>_. 11"]
    by (simp add: valid_str_def first_size_def header_def enc_str_def CHUNK_def INTSIZE_def)
qed

section \<open>Arbitrary bytes\<close>

lemma enough_rest: "wf_pack pb \<Longrightarrow> enough (pb, tab) = Suc (length (rest pb)) \<and> pb_unused pb = length (rest pb)"
  using wf_room(2)[of pb] by (simp add: enough_def pb_unused_def)

lemma unpack_list_safe:
  assumes "wf_ns ns" "wf_pack pb"
  shows "\<exists>r pb' tab'. cull_unpack_list_partial ns share flags (enough (pb, [])) (pb, []) = Some (r, (pb', tab')) \<and> wf_pack pb' \<and>
      (\<forall>x. r = Inr x \<longrightarrow> pred_option (bound_list ns (pb_unused pb - 13)) x)"
proof -
  have "safe ns (length (rest pb)) (cull_unpack_list_partial ns share flags (enough (pb, []))) 4 (pred_option (bound_list ns (pb_unused pb - 13)))"
    using safe_nested[OF assms(1), of "length (rest pb)" share flags] enough_rest[OF assms(2)] by simp
  moreover have "list_all (known ns) []" by simp
  ultimately show ?thesis using assms(2) unfolding safe_def by blast
qed

text \<open>C22. Reading a list from arbitrary bytes ends, with a result code or with a list, and stays within the
  received memory: as much fuel as there are unread bytes, plus one, always is enough. A list that is accepted
  has a descriptor of a type of the name space, and all its elements are bound to it. Flags make no difference.\<close>

theorem unpack_list_total:
  assumes "wf_ns ns"
  shows "\<exists>ret pb. init_packbuffer_from_buffer parse buf with_auth_info = Some (ret, pb) \<and>
     (\<exists>r pb' tab'. cull_unpack_list_partial ns share flags (enough (pb, [])) (pb, []) = Some (r, (pb', tab')) \<and>
        cur_ptr pb' = bytes_used pb' \<and> bytes_used pb' \<le> mem_size pb' \<and> length (mem pb') = mem_size pb' \<and>
        (case r of Inr (Some (lList name d es)) \<Rightarrow> known ns d \<and> list_all (\<lambda>e. case e of lListElem k d' cp \<Rightarrow> k = BOUND_ELEM \<and> d' = d) es | _ \<Rightarrow> True))"
proof -
  obtain ret pb where p: "init_packbuffer_from_buffer parse buf with_auth_info = Some (ret, pb)" "wf_pack pb" using from_buffer_safe by blast
  obtain r pb' tab' where "cull_unpack_list_partial ns share flags (enough (pb, [])) (pb, []) = Some (r, (pb', tab'))" "wf_pack pb'"
      "\<forall>x. r = Inr x \<longrightarrow> pred_option (bound_list ns (pb_unused pb - 13)) x"
    using unpack_list_safe[OF assms p(2)] by blast
  then show ?thesis using p(1) by (auto simp: wf_pack_def split: sum.splits option.splits lList.splits)
qed

theorem unpack_list_total_witness:
  "\<exists>ret pb. init_packbuffer_from_buffer (\<lambda>_. True) [1, 2, 3] False = Some (ret, pb) \<and>
     (\<exists>r pb' tab'. cull_unpack_list_partial demo_ns (\<lambda>_. 7) 0 (enough (pb, [])) (pb, []) = Some (r, (pb', tab')) \<and>
        cur_ptr pb' = bytes_used pb' \<and> bytes_used pb' \<le> mem_size pb' \<and> length (mem pb') = mem_size pb' \<and>
        (case r of Inr (Some (lList name d es)) \<Rightarrow> known demo_ns d \<and> list_all (\<lambda>e. case e of lListElem k d' cp \<Rightarrow> k = BOUND_ELEM \<and> d' = d) es | _ \<Rightarrow> True))"
  by (rule unpack_list_total[OF wf_demo_ns])

text \<open>C27. The memory that a message makes the receiver allocate for the elements of a list is bounded by
  its length: every element that is accepted took at least eight bytes of the buffer.\<close>

theorem unpack_list_bounded:
  assumes "wf_ns ns" "wf_pack pb" "cull_unpack_list ns share (pb, []) = Some (Inr (Some (lList name d es)), s)"
  shows "8 * length es \<le> pb_unused pb - 13"
proof -
  have "pred_option (bound_list ns (pb_unused pb - 13)) (Some (lList name d es))"
    using unpack_list_safe[OF assms(1,2), of share 0] assms(3) unfolding cull_unpack_list_def by auto
  then show ?thesis by auto
qed

definition demo_buffer :: "byte list \<Rightarrow> sge_pack_buffer" where
  "demo_buffer bs = cleared\<lparr>mem := bs, mem_size := length bs\<rparr>"

lemma wf_demo_buffer: "wf_pack (demo_buffer bs)"
  by (simp add: demo_buffer_def wf_pack_def cleared_def)

theorem unpack_list_bounded_witness:
  "\<exists>d es s. cull_unpack_list demo_ns (\<lambda>_. 7) (demo_buffer ([0, 0, 0, 1, 0, 255, 255, 255, 0, 0, 0, 0, 200, 0, 0, 0, 3] @
        [0, 0, 0, 1, 0, 0, 0, 2, 97, 0, 0, 0, 0, 9, 0, 0, 0, 1, 0, 0, 0, 0]), []) =
      Some (Inr (Some (lList None d es)), s) \<and> 0 < length es \<and>
      8 * length es \<le> pb_unused (demo_buffer ([0, 0, 0, 1, 0, 255, 255, 255, 0, 0, 0, 0, 200, 0, 0, 0, 3] @
        [0, 0, 0, 1, 0, 0, 0, 2, 97, 0, 0, 0, 0, 9, 0, 0, 0, 1, 0, 0, 0, 0])) - 13"
proof -
  let ?pb = "demo_buffer ([0, 0, 0, 1, 0, 255, 255, 255, 0, 0, 0, 0, 200, 0, 0, 0, 3] @ [0, 0, 0, 1, 0, 0, 0, 2, 97, 0, 0, 0, 0, 9, 0, 0, 0, 1, 0, 0, 0, 0])"
  have u: "cull_unpack_list demo_ns (\<lambda>_. 7) (?pb, []) =
      Some (Inr (Some (lList None (Static T_value) [lListElem BOUND_ELEM (Static T_value) [M_str (Some ''a''), M_ul 9, M_b True]])),
        (?pb\<lparr>cur_ptr := 39, bytes_used := 39\<rparr>, []))"
    by code_simp
  show ?thesis using unpack_list_bounded[OF wf_demo_ns wf_demo_buffer u] u by fastforce
qed

text \<open>C23. Reading an element from arbitrary bytes ends, for a name space and a buffer that are well formed and a
  known descriptor. An element that is accepted has the kind and the descriptor that the bytes announce and
  fits them: it has one value for each field of the descriptor that is present; the fields that were sent, the first
  ones up to the announced number without those that the flags leave out, have a value of their type, and
  every field that was not sent is zero.\<close>

theorem unpack_elem_fits:
  assumes "wf_ns ns" "wf_pack pb" "pred_option (known ns) dp"
  shows "\<exists>r pb' tab'. cull_unpack_elem_partial ns share dp flags (pb, []) = Some (r, (pb', tab')) \<and> wf_pack pb' \<and>
     (case r of Inr (lListElem k d cp) \<Rightarrow> known ns d \<and> k \<in> {FREE_ELEM, TRANS_BOUND_ELEM} \<and>
        (\<exists>n. announced ns share dp flags (pb, []) = Some (k, d, n) \<and> fits (unat n) flags d cp) | Inl e \<Rightarrow> True)"
proof -
  have n: "safe ns (length (rest pb)) (cull_unpack_list_partial ns share flags (enough (pb, []))) 4 (\<lambda>_. True)"
    "safe ns (length (rest pb)) (cull_unpack_object ns share flags (enough (pb, []))) 4 (\<lambda>_. True)"
    using safe_nested[OF assms(1), of "length (rest pb)" share flags] enough_rest[OF assms(2), of "[]"]
    by (auto intro: safe_conseq)
  let ?wire_n = "case dp of Some d \<Rightarrow> word_of_nat (lCountPresent d) | None \<Rightarrow> 0"
  let ?sw = "cull_unpack_switch (cull_unpack_list_partial ns share flags (enough (pb, []))) (cull_unpack_object ns share flags (enough (pb, [])))"
  have "safe ns (length (rest pb)) (ocs_cull_unpack_elem ns share ?sw dp ?wire_n flags) 4 (fresh_elem ns)"
    by (rule safe_elem[OF assms(1,3) safe_switch[OF n]])
  moreover have "list_all (known ns) []" by simp
  ultimately obtain r pb' tab' where r: "ocs_cull_unpack_elem ns share ?sw dp ?wire_n flags (pb, []) = Some (r, (pb', tab'))" "wf_pack pb'"
      "\<forall>x. r = Inr x \<longrightarrow> fresh_elem ns x"
    using assms(2) unfolding safe_def by blast
  have "\<exists>n. announced ns share dp flags (pb, []) = Some (k, d, n) \<and> fits (unat n) flags d cp"
    if e: "r = Inr (lListElem k d cp)" for k d cp
  proof -
    obtain n st2 st3 where n: "announced ns share dp flags (pb, []) = Some (k, d, n)"
        "cull_unpack_cont ?sw d n flags st2 = Some (Inr cp, st3)"
      using elem_announced[OF r(1)[unfolded e]] .
    have "known ns d" using r(3) e by simp
    then have "fits (unat n) flags d cp" by (rule cont_fits[OF assms(1) _ n(2)]) (rule switch_type)
    with n(1) show ?thesis by blast
  qed
  then show ?thesis using r unfolding cull_unpack_elem_partial_def by (auto split: sum.splits lListElem.splits)
qed

theorem unpack_elem_fits_witness:
  "\<exists>r pb' tab'. cull_unpack_elem_partial demo_ns (\<lambda>_. 7) (Some (Static T_value)) 0 (demo_buffer [0, 0, 0, 2, 97, 0, 0, 0, 0, 9, 0, 0, 0, 1], []) =
       Some (r, (pb', tab')) \<and> wf_pack pb' \<and>
     (case r of Inr (lListElem k d cp) \<Rightarrow> known demo_ns d \<and> k \<in> {FREE_ELEM, TRANS_BOUND_ELEM} \<and>
        (\<exists>n. announced demo_ns (\<lambda>_. 7) (Some (Static T_value)) 0
            (demo_buffer [0, 0, 0, 2, 97, 0, 0, 0, 0, 9, 0, 0, 0, 1], []) = Some (k, d, n) \<and>
          fits (unat n) 0 d cp) | Inl e \<Rightarrow> True)"
  by (rule unpack_elem_fits[OF wf_demo_ns wf_demo_buffer]) (simp add: known_static[OF wf_demo_ns demo_known(2)])

text \<open>An element that is marked as free inside a list brings a descriptor of its own, but is then appended to
  the list, which gives it the descriptor of the list: here the type has three fields and the element
  one value.\<close>

lemma free_element_in_list_loses_its_descriptor:
  "\<exists>pb' tab'. cull_unpack_list demo_ns (\<lambda>_. 7) (demo_buffer ([0, 0, 0, 1, 0, 255, 255, 255, 0, 0, 0, 0, 200, 0, 0, 0, 3, 0, 0, 0, 1] @
      [0, 0, 0, 1, 255, 255, 255, 1, 0, 0, 0, 0, 0, 0, 0, 200, 0, 0, 0, 1, 0, 0, 0, 0, 97, 0, 0, 0, 0, 0]), []) =
    Some (Inr (Some (lList None (Static T_value) [lListElem BOUND_ELEM (Static T_value) [M_str (Some ''a'')]])), (pb', tab'))"
proof -
  let ?r = "cull_unpack_list demo_ns (\<lambda>_. 7) (demo_buffer ([0, 0, 0, 1, 0, 255, 255, 255, 0, 0, 0, 0, 200, 0, 0, 0, 3, 0, 0, 0, 1] @
      [0, 0, 0, 1, 255, 255, 255, 1, 0, 0, 0, 0, 0, 0, 0, 200, 0, 0, 0, 1, 0, 0, 0, 0, 97, 0, 0, 0, 0, 0]), [])"
  have "map_option fst ?r = Some (Inr (Some (lList None (Static T_value) [lListElem BOUND_ELEM (Static T_value) [M_str (Some ''a'')]])))"
    by code_simp
  then show ?thesis by auto
qed

text \<open>A nested selection of all fields is rejected, although the documentation of \<^verbatim>\<open>lWhat\<close> calls it the same as no
  nested selection.\<close>

lemma nested_selection_of_all_is_rejected:
  "map_option fst (cull_pack_list_partial demo_ns (\<lambda>_. 7) 0 (Some demo_list)
     (Some [Enumeration 1 lListT 101 (Some [Enumeration WHAT_ALL (- 99) (- 99) None])]) (cleared\<lparr>just_count := True\<rparr>, [])) = Some PACK_FORMAT"
  "map_option fst (cull_pack_list_partial demo_ns (\<lambda>_. 7) 0 (Some demo_list)
     (Some [Enumeration 1 lListT 101 None]) (cleared\<lparr>just_count := True\<rparr>, [])) = Some PACK_SUCCESS"
  by code_simp+

section \<open>Descriptors\<close>

text \<open>C24. A descriptor that is built for a selection of the fields of a type: the iterator visits exactly the
  selected fields, in the order of the type, whether it walks the fields or the map that the descriptor carries;
  the slots it reports are the ones the offsets give, and number the values \<open>0, 1, 2, \<dots>\<close> without a gap.\<close>

theorem built_descriptor_fields:
  assumes "wf_ns ns" "known_type ns type" "length keep = length type" "True \<in> set keep"
  shows "\<exists>dp. ocs_cull_descr_build ns share (Static type) keep = Some (Some dp) \<and>
     map fst (ocs_cull_present_fields dp) = filter (\<lambda>i. keep ! i) [0..<length type] \<and>
     map snd (ocs_cull_present_fields dp) = map int [0..<lCountPresent dp] \<and>
     map snd (ocs_cull_present_fields dp) = map (ocs_cull_slot (fields_of dp)) (map fst (ocs_cull_present_fields dp))"
proof -
  obtain i where "i < length keep" "keep ! i" using assms(4) by (auto simp: in_set_conv_nth)
  then have "i \<in> set (kept keep)" by simp
  then have k: "0 < length (kept keep)" by (rule length_pos_if_in_set)
  obtain dp where dp: "ocs_cull_descr_build ns share (Static type) keep = Some (Some dp)" "holds ns dp type keep"
    using build_holds[OF assms(1-3) k] by blast
  note h = holdsD[OF assms(1) dp(2)] and p = present_fields_holds[OF assms(1) dp(2)] and c = lCountPresent_holds[OF assms(1) dp(2)]
  have s: "ocs_cull_slot (fields_of dp) (kept keep ! j) = int j" if j: "j < length (kept keep)" for j
  proof -
    have i: "kept keep ! j < length keep" "keep ! (kept keep ! j)" using nth_mem[OF j] by simp_all
    then have r: "rank keep (kept keep ! j) = j" using kept_rank[OF i] nth_eq_iff_index_eq[OF distinct_kept] j by blast
    show ?thesis
    proof (cases dp)
      case (Static d)
      then have "d = type" "kept keep = [0..<length keep]" using dp(2) kept_full[of keep] h(3) by (auto simp: holds_def)
      then show ?thesis using Static wf_typeD(4)[OF h(2), of j] i(1) h(3) j by (simp add: ocs_cull_slot_def plain_field_def)
    next
      case (Counted a x)
      then have "entries x = mark_interned (reduced type keep)" using dp(2) by (simp add: holds_def)
      then show ?thesis using Counted mark_nth[of "kept keep ! j" "reduced type keep"] i h(3) r by (simp add: ocs_cull_slot_def reduced_field_def)
    qed (use dp(2) in \<open>simp add: holds_def\<close>)
  qed
  have "map int [0..<length (kept keep)] = map (ocs_cull_slot (fields_of dp)) (kept keep)"
    by (rule nth_equalityI) (simp_all add: s)
  then show ?thesis using dp(1) by (intro exI[of _ dp]) (simp add: p c comp_def map_nth kept_def[symmetric] h(3)[symmetric])
qed

theorem built_descriptor_fields_witness:
  "\<exists>dp. ocs_cull_descr_build demo_ns (\<lambda>_. 7) (Static T_value) [True, False, True] = Some (Some dp) \<and>
     map fst (ocs_cull_present_fields dp) = [0, 2] \<and>
     map snd (ocs_cull_present_fields dp) = map int [0..<lCountPresent dp] \<and>
     map snd (ocs_cull_present_fields dp) = map (ocs_cull_slot (fields_of dp)) (map fst (ocs_cull_present_fields dp))"
  using built_descriptor_fields[OF wf_demo_ns demo_known(2), of "[True, False, True]" "\<lambda>_. 7"]
  by (simp add: T_value_def upt_conv_Cons numeral_2_eq_2)

end
