(* ===== verification/CullRegistry.thy ===== *)
theory CullRegistry
  imports CullDescr
begin

text \<open>
  The registry of shared descriptors of \<^verbatim>\<open>source/libs/cull/ocs_cull_descr.cc\<close>, with its reference counts. The
  memory is a map from addresses to headers; \<open>None\<close> is a use of memory that is not allocated. What runs
  under the mutex of the registry is one step. A release is up to three steps: the count, the removal
  from the registry under the mutex, and the free. The address of a new header is an argument.
\<close>

definition OCS_CULL_DESCR_SOFT_CAP :: nat where "OCS_CULL_DESCR_SOFT_CAP = 4096"

record cull_descr_registry =
  heap :: "nat \<rightharpoonup> cull_descr_header"
  dmap :: "(64 word \<times> nat) list"
  soft_cap :: nat
  cap_reported :: bool
  warnings :: nat \<comment> \<open>the messages about the soft cap that were logged\<close>

definition empty_registry :: cull_descr_registry where
  "empty_registry = \<lparr>heap = Map.empty, dmap = [], soft_cap = OCS_CULL_DESCR_SOFT_CAP, cap_reported = False, warnings = 0\<rparr>"

definition put_header :: "nat \<Rightarrow> cull_descr_header \<Rightarrow> cull_descr_registry \<Rightarrow> cull_descr_registry" where
  "put_header a h r = r\<lparr>heap := (heap r)(a \<mapsto> h)\<rparr>"

definition ref_if_alive :: "nat \<Rightarrow> cull_descr_registry \<Rightarrow> (bool \<times> cull_descr_registry) option" where
  "ref_if_alive a r =
     do { h \<leftarrow> heap r a;
          Some (if refs h \<noteq> 0 then (True, put_header a (h\<lparr>refs := add32 (refs h) 1\<rparr>) r) else (False, r)) }"

fun equal_entry :: "(nat \<rightharpoonup> cull_descr_header) \<Rightarrow> 64 word \<Rightarrow> fields \<Rightarrow> nat \<Rightarrow> (64 word \<times> nat) list \<Rightarrow> nat option option" where
  \<comment> \<open>the index of the first entry for equal fields; the inner \<open>None\<close> if there is none\<close>
  "equal_entry hp key dp n [] = Some None"
| "equal_entry hp key dp n ((k, a) # es) =
     (if k \<noteq> key then map_option (map_option Suc) (equal_entry hp key dp n es)
      else do { h \<leftarrow> hp a;
                if hn h = n \<and> same_entries (entries h) dp n then Some (Some 0)
                else map_option (map_option Suc) (equal_entry hp key dp n es) })"

definition ocs_cull_descr_intern :: "nat \<Rightarrow> fields \<Rightarrow> cull_descr_registry \<Rightarrow> (nat \<times> cull_descr_registry) option" where
  "ocs_cull_descr_intern fresh dp r =
     (let n = count_entries dp; key = ocs_cull_descr_hash dp n in
      do { found \<leftarrow> equal_entry (heap r) key dp n (dmap r);
           case found of
             Some i \<Rightarrow>
               do { (alive, r1) \<leftarrow> ref_if_alive (snd (dmap r ! i)) r;
                    if alive then Some (snd (dmap r ! i), r1)
                    else do { h \<leftarrow> alloc_counted dp n key;
                              Some (fresh, (put_header fresh h r)\<lparr>dmap := (dmap r)[i := (fst (dmap r ! i), fresh)]\<rparr>) } }
           | None \<Rightarrow>
               do { h \<leftarrow> alloc_counted dp n key;
                    let r1 = put_header fresh h r in
                    Some (fresh,
                      if length (dmap r) < soft_cap r then r1\<lparr>dmap := dmap r @ [(key, fresh)]\<rparr>
                      else if cap_reported r then r1
                      else r1\<lparr>cap_reported := True, warnings := Suc (warnings r)\<rparr>) } })"

definition ocs_cull_descr_private :: "nat \<Rightarrow> fields \<Rightarrow> cull_descr_registry \<Rightarrow> (nat \<times> cull_descr_registry) option" where
  "ocs_cull_descr_private fresh dp r =
     (let n = count_entries dp in
      do { h \<leftarrow> alloc_counted dp n (ocs_cull_descr_hash dp n); Some (fresh, put_header fresh h r) })"

definition ocs_cull_descr_ref :: "nat \<Rightarrow> cull_descr_registry \<Rightarrow> cull_descr_registry option" where
  "ocs_cull_descr_ref a r = do { h \<leftarrow> heap r a; Some (put_header a (h\<lparr>refs := add32 (refs h) 1\<rparr>) r) }"

definition release_count :: "nat \<Rightarrow> cull_descr_registry \<Rightarrow> (bool \<times> cull_descr_registry) option" where
  \<comment> \<open>whether the last reference was given up\<close>
  "release_count a r = do { h \<leftarrow> heap r a; Some (refs h = 1, put_header a (h\<lparr>refs := sub32 (refs h) 1\<rparr>) r) }"

definition release_unlink :: "nat \<Rightarrow> cull_descr_registry \<Rightarrow> cull_descr_registry option" where
  "release_unlink a r =
     do { h \<leftarrow> heap r a;
          let es = remove1 (hash h, a) (dmap r) in
          Some (r\<lparr>dmap := es, cap_reported := (cap_reported r \<and> \<not> length es < soft_cap r)\<rparr>) }"

definition free_counted :: "nat \<Rightarrow> cull_descr_registry \<Rightarrow> cull_descr_registry option" where
  "free_counted a r = do { h \<leftarrow> heap r a; Some (r\<lparr>heap := (heap r)(a := None)\<rparr>) }"

definition ocs_cull_descr_release :: "nat \<Rightarrow> cull_descr_registry \<Rightarrow> cull_descr_registry option" where
  \<comment> \<open>the three steps without interruption\<close>
  "ocs_cull_descr_release a r =
     do { (lst, r1) \<leftarrow> release_count a r;
          if \<not> lst then Some r1 else do { r2 \<leftarrow> release_unlink a r1; free_counted a r2 } }"

definition ocs_cull_descr_refs :: "nat \<Rightarrow> cull_descr_registry \<Rightarrow> nat option" where
  "ocs_cull_descr_refs a r = map_option refs (heap r a)"

definition ocs_cull_descr_registry_size :: "cull_descr_registry \<Rightarrow> nat" where
  "ocs_cull_descr_registry_size r = length (dmap r)"

definition ocs_cull_descr_set_soft_cap :: "nat \<Rightarrow> cull_descr_registry \<Rightarrow> nat \<times> cull_descr_registry" where
  "ocs_cull_descr_set_soft_cap cap r = (soft_cap r, r\<lparr>soft_cap := cap, cap_reported := False\<rparr>)"

section \<open>Threads\<close>

text \<open>
  Any number of threads hold references: \<open>held a\<close> is how many there are to the descriptor at \<open>a\<close>. A thread
  that gave up the last one is between two of its steps; the descriptor is then in \<open>unlinking\<close> or \<open>freeing\<close>.
\<close>

record registry_state =
  registry :: cull_descr_registry
  held :: "nat \<Rightarrow> nat"
  unlinking :: "nat set"
  freeing :: "nat set"

definition registry_start :: registry_state where
  "registry_start = \<lparr>registry = empty_registry, held = (\<lambda>_. 0), unlinking = {}, freeing = {}\<rparr>"

definition copyable :: "fields \<Rightarrow> bool" where
  \<comment> \<open>at least one field, and the slots of the present ones fit into the reverse map\<close>
  "copyable dp \<longleftrightarrow> 0 < count_entries dp \<and> alloc_counted dp (count_entries dp) (ocs_cull_descr_hash dp (count_entries dp)) \<noteq> None"

definition max_refs :: nat where "max_refs = u32_mod - 1"

inductive registry_step :: "registry_state \<Rightarrow> registry_state \<Rightarrow> bool" where
  Intern: "heap (registry s) fresh = None \<Longrightarrow> copyable dp \<Longrightarrow> (\<And>a. held s a < max_refs) \<Longrightarrow>
     ocs_cull_descr_intern fresh dp (registry s) = Some (a, r) \<Longrightarrow>
     registry_step s (s\<lparr>registry := r, held := (held s)(a := Suc (held s a))\<rparr>)"
| Private: "heap (registry s) fresh = None \<Longrightarrow> copyable dp \<Longrightarrow> ocs_cull_descr_private fresh dp (registry s) = Some (a, r) \<Longrightarrow>
     registry_step s (s\<lparr>registry := r, held := (held s)(a := Suc (held s a))\<rparr>)"
| Ref: "0 < held s a \<Longrightarrow> held s a < max_refs \<Longrightarrow> ocs_cull_descr_ref a (registry s) = Some r \<Longrightarrow>
     registry_step s (s\<lparr>registry := r, held := (held s)(a := Suc (held s a))\<rparr>)"
| Release: "0 < held s a \<Longrightarrow> release_count a (registry s) = Some (lst, r) \<Longrightarrow>
     registry_step s (s\<lparr>registry := r, held := (held s)(a := held s a - 1),
       unlinking := (if lst then insert a (unlinking s) else unlinking s)\<rparr>)"
| Unlink: "a \<in> unlinking s \<Longrightarrow> release_unlink a (registry s) = Some r \<Longrightarrow>
     registry_step s (s\<lparr>registry := r, unlinking := unlinking s - {a}, freeing := insert a (freeing s)\<rparr>)"
| Free: "a \<in> freeing s \<Longrightarrow> free_counted a (registry s) = Some r \<Longrightarrow>
     registry_step s (s\<lparr>registry := r, freeing := freeing s - {a}\<rparr>)"
| SetCap: "ocs_cull_descr_set_soft_cap cap (registry s) = (prev, r) \<Longrightarrow> registry_step s (s\<lparr>registry := r\<rparr>)"

inductive_cases registry_stepE: "registry_step s s'"

end
