(* ===== verification/CullRegistry_Correct.thy ===== *)
theory CullRegistry_Correct
  imports CullRegistry CullDescr_Correct
begin

text \<open>
  The invariant of the registry: every allocated header counts the references to it, the registry names only
  allocated headers, and no two of them have the same fields.
\<close>

section \<open>Equal fields\<close>

definition norm_fields :: "fields \<Rightarrow> fields" where
  \<comment> \<open>without the flag that marks a counted descriptor\<close>
  "norm_fields fs = map (\<lambda>f. f\<lparr>mt := clear_interned (mt f)\<rparr>) fs"

lemma norm_fields_mark [simp]: "norm_fields (mark_interned fs) = norm_fields fs"
  by (cases fs) (simp_all add: norm_fields_def mark_interned_def)

lemma length_norm [simp]: "length (norm_fields fs) = length fs"
  by (simp add: norm_fields_def)

lemma norm_field_eq: "(f\<lparr>mt := clear_interned (mt f)\<rparr>) = (g\<lparr>mt := clear_interned (mt g)\<rparr>) \<longleftrightarrow>
    nm f = nm g \<and> clear_interned (mt f) = clear_interned (mt g) \<and> off f = off (g :: lDescr)"
  by (cases f; cases g) auto

lemma count_entries_le: "count_entries dp \<le> length dp"
  by (simp add: count_entries_def length_takeWhile_le)

lemma same_entries_norm:
  assumes "length e = n" "n \<le> length dp"
  shows "same_entries e dp n \<longleftrightarrow> norm_fields e = norm_fields (take n dp)"
proof -
  have "norm_fields e = norm_fields (take n dp) \<longleftrightarrow>
      (\<forall>i < n. (e ! i)\<lparr>mt := clear_interned (mt (e ! i))\<rparr> = (dp ! i)\<lparr>mt := clear_interned (mt (dp ! i))\<rparr>)"
    using assms unfolding list_eq_iff_nth_eq[of "norm_fields e"] by (simp add: norm_fields_def)
  then show ?thesis unfolding norm_field_eq same_entries_def list_all_iff by auto
qed

lemma hash_norm:
  assumes "norm_fields (take n e) = norm_fields (take m e')"
  shows "ocs_cull_descr_hash e n = ocs_cull_descr_hash e' m"
proof -
  let ?g = "\<lambda>f h. hash_value (word_of_int (off f)) (hash_value (mt f) (hash_value (word_of_int (nm f)) h))"
  have "fold (\<lambda>f h. hash_value (word_of_int (off f)) (hash_value (clear_interned (mt f)) (hash_value (word_of_int (nm f)) h))) fs x = fold ?g (norm_fields fs) x"
    for fs x by (induction fs arbitrary: x) (simp_all add: norm_fields_def)
  then show ?thesis using assms by (simp add: ocs_cull_descr_hash_def)
qed

lemma registered_nth: "a \<in> snd ` set es \<Longrightarrow> \<exists>i < length es. a = snd (es ! i)"
  by (metis (no_types) imageE in_set_conv_nth)

section \<open>Headers\<close>

definition wf_header :: "cull_descr_header \<Rightarrow> bool" where
  "wf_header h \<longleftrightarrow> hn h = length (entries h) \<and> hash h = ocs_cull_descr_hash (entries h) (hn h)"

definition fields_at :: "cull_descr_registry \<Rightarrow> nat \<Rightarrow> fields option" where
  "fields_at r a = map_option (\<lambda>h. norm_fields (entries h)) (heap r a)"

lemma alloc_counted_header:
  assumes "alloc_counted dp (count_entries dp) (ocs_cull_descr_hash dp (count_entries dp)) = Some h"
  shows "refs h = 1" "wf_header h" "norm_fields (entries h) = norm_fields (take (count_entries dp) dp)"
    "hash h = ocs_cull_descr_hash dp (count_entries dp)"
proof -
  let ?n = "count_entries dp"
  have e: "entries h = mark_interned (take ?n dp)" "hn h = ?n" "hash h = ocs_cull_descr_hash dp ?n" and r: "refs h = 1"
    using assms by (auto simp: alloc_counted_def Let_def split: Option.bind_splits)
  have l: "length (take ?n dp) = ?n" using count_entries_le by simp
  show "refs h = 1" by (rule r)
  show "norm_fields (entries h) = norm_fields (take ?n dp)" "hash h = ocs_cull_descr_hash dp ?n" using e by simp_all
  have "ocs_cull_descr_hash dp ?n = ocs_cull_descr_hash (mark_interned (take ?n dp)) ?n"
    by (rule hash_norm) (use l in \<open>simp add: take_all\<close>)
  then show "wf_header h" using e l by (simp add: wf_header_def)
qed

text \<open>The search in the registry finds the entry with the given fields.\<close>

definition linked :: "(nat \<rightharpoonup> cull_descr_header) \<Rightarrow> 64 word \<times> nat \<Rightarrow> bool" where
  "linked hp e \<longleftrightarrow> (\<exists>h. hp (snd e) = Some h \<and> fst e = hash h \<and> wf_header h)"

lemma equal_entry_finds:
  assumes "list_all (linked hp) es" "n = count_entries dp" "key = ocs_cull_descr_hash dp n"
  shows "case equal_entry hp key dp n es of
     None \<Rightarrow> False
   | Some (Some i) \<Rightarrow> i < length es \<and> map_option (\<lambda>h. norm_fields (entries h)) (hp (snd (es ! i))) = Some (norm_fields (take n dp))
   | Some None \<Rightarrow> \<forall>e \<in> set es. map_option (\<lambda>h. norm_fields (entries h)) (hp (snd e)) \<noteq> Some (norm_fields (take n dp))"
  using assms(1)
proof (induction es)
  case (Cons e es)
  obtain k a where e: "e = (k, a)" by (cases e)
  then obtain h where h: "hp a = Some h" "k = hash h" "wf_header h" using Cons.prems by (auto simp: linked_def)
  have eq: "norm_fields (entries h) = norm_fields (take n dp) \<longleftrightarrow> k = key \<and> hn h = n \<and> same_entries (entries h) dp n"
  proof
    assume f: "norm_fields (entries h) = norm_fields (take n dp)"
    then have "length (entries h) = n" using count_entries_le[of dp] assms(2) by (metis length_norm length_take min.absorb2)
    then show "k = key \<and> hn h = n \<and> same_entries (entries h) dp n"
      using f h(2,3) hash_norm[of n "entries h" n dp] same_entries_norm[of "entries h" n dp] count_entries_le[of dp] assms(2,3)
      by (simp add: wf_header_def)
  next
    assume "k = key \<and> hn h = n \<and> same_entries (entries h) dp n"
    then show "norm_fields (entries h) = norm_fields (take n dp)"
      using h(3) same_entries_norm[of "entries h" n dp] count_entries_le[of dp] assms(2) by (simp add: wf_header_def)
  qed
  then show ?case using Cons h(1) by (auto simp: e split: option.splits)
qed simp

section \<open>The invariant\<close>

definition registry_inv :: "registry_state \<Rightarrow> bool" where
  "registry_inv s \<longleftrightarrow>
     (\<forall>a h. heap (registry s) a = Some h \<longrightarrow> refs h = held s a \<and> wf_header h) \<and>
     (\<forall>a. heap (registry s) a \<noteq> None \<longleftrightarrow> 0 < held s a \<or> a \<in> unlinking s \<or> a \<in> freeing s) \<and>
     (\<forall>a. held s a < u32_mod) \<and>
     (\<forall>a \<in> unlinking s \<union> freeing s. held s a = 0) \<and> unlinking s \<inter> freeing s = {} \<and>
     list_all (linked (heap (registry s))) (dmap (registry s)) \<and>
     distinct (map (\<lambda>e. fields_at (registry s) (snd e)) (dmap (registry s))) \<and>
     snd ` set (dmap (registry s)) \<inter> freeing s = {}"

lemma registry_invD:
  assumes "registry_inv s"
  shows "heap (registry s) a = Some h \<Longrightarrow> refs h = held s a \<and> wf_header h"
    "heap (registry s) a \<noteq> None \<longleftrightarrow> 0 < held s a \<or> a \<in> unlinking s \<or> a \<in> freeing s"
    "held s a < u32_mod" "a \<in> unlinking s \<Longrightarrow> held s a = 0" "a \<in> freeing s \<Longrightarrow> held s a = 0"
    "a \<in> unlinking s \<Longrightarrow> a \<notin> freeing s"
    "list_all (linked (heap (registry s))) (dmap (registry s))"
    "distinct (map (\<lambda>e. fields_at (registry s) (snd e)) (dmap (registry s)))"
    "e \<in> set (dmap (registry s)) \<Longrightarrow> snd e \<notin> freeing s"
  using assms unfolding registry_inv_def by (auto; fail)+

lemma start_inv: "registry_inv registry_start"
  by (simp add: registry_inv_def registry_start_def empty_registry_def)

lemma put_header_sel [simp]: "dmap (put_header a h r) = dmap r" "soft_cap (put_header a h r) = soft_cap r"
  "cap_reported (put_header a h r) = cap_reported r" "warnings (put_header a h r) = warnings r"
  by (simp_all add: put_header_def)

text \<open>Changing a count changes neither the registry nor the fields.\<close>

lemma count_changed:
  assumes "heap r a = Some h"
  shows "list_all (linked (heap (put_header a (h\<lparr>refs := c\<rparr>) r))) es = list_all (linked (heap r)) es"
    "fields_at (put_header a (h\<lparr>refs := c\<rparr>) r) = fields_at r"
  using assms by (auto simp: linked_def put_header_def wf_header_def list_all_iff fields_at_def fun_eq_iff)

lemma count_inv:
  assumes inv: "registry_inv s" and h: "heap (registry s) a = Some h" and c: "c < u32_mod"
    and s': "registry s' = put_header a (h\<lparr>refs := c\<rparr>) (registry s)" "held s' = (held s)(a := c)" "freeing s' = freeing s"
    and u: "unlinking s' = (if c = 0 then insert a (unlinking s) else unlinking s)" "0 < held s a \<or> a \<in> unlinking s" "a \<in> unlinking s \<Longrightarrow> c = 0"
  shows "registry_inv s'"
proof -
  have "a \<notin> freeing s" using u(2) registry_invD(5,6)[OF inv, of a] by auto
  moreover have "wf_header (h\<lparr>refs := c\<rparr>)" using registry_invD(1)[OF inv h] by (simp add: wf_header_def)
  moreover have "heap (registry s') b \<noteq> None \<longleftrightarrow> 0 < held s' b \<or> b \<in> unlinking s' \<or> b \<in> freeing s'" for b
    using registry_invD(2)[OF inv, of b] s' u h by (auto simp: put_header_def)
  moreover have "dmap (registry s') = dmap (registry s)" by (simp add: s' put_header_def)
  ultimately show ?thesis
    using registry_invD[OF inv] c u(1,3) count_changed[OF h, of c]
    unfolding registry_inv_def s' by (auto simp: put_header_def)
qed

text \<open>A new header.\<close>

lemma other_linked:
  assumes "registry_inv s" "heap (registry s) fresh = None" "e \<in> set (dmap (registry s))"
  shows "snd e \<noteq> fresh" "linked (heap (put_header fresh h (registry s))) e" "fields_at (put_header fresh h (registry s)) (snd e) = fields_at (registry s) (snd e)"
proof -
  have l: "linked (heap (registry s)) e" using registry_invD(7)[OF assms(1)] assms(3) by (simp add: list_all_iff)
  then show f: "snd e \<noteq> fresh" using assms(2) by (auto simp: linked_def)
  show "linked (heap (put_header fresh h (registry s))) e" using l f by (simp add: linked_def put_header_def)
  show "fields_at (put_header fresh h (registry s)) (snd e) = fields_at (registry s) (snd e)" using f by (simp add: fields_at_def put_header_def)
qed

lemma new_inv:
  assumes inv: "registry_inv s" and f: "heap (registry s) fresh = None" and h: "refs h = 1" "wf_header h"
    and r: "heap r = heap (put_header fresh h (registry s))" and es: "list_all (linked (heap r)) (dmap r)"
      "distinct (map (\<lambda>e. fields_at r (snd e)) (dmap r))" "snd ` set (dmap r) \<subseteq> insert fresh (snd ` set (dmap (registry s)))"
  shows "registry_inv (s\<lparr>registry := r, held := (held s)(fresh := Suc (held s fresh))\<rparr>)"
proof -
  have n: "held s fresh = 0" "fresh \<notin> unlinking s" "fresh \<notin> freeing s" using registry_invD(2)[OF inv, of fresh] f by auto
  have d: "heap r b \<noteq> None \<longleftrightarrow> b = fresh \<or> 0 < held s b \<or> b \<in> unlinking s \<or> b \<in> freeing s" for b
    using registry_invD(2)[OF inv, of b] by (auto simp: r put_header_def)
  have c: "refs g = (if b = fresh then 1 else held s b) \<and> wf_header g" if "heap r b = Some g" for b g
    using that h registry_invD(1)[OF inv, of b g] by (auto simp: r put_header_def split: if_splits)
  show ?thesis
    unfolding registry_inv_def using n d c es registry_invD(3-6,9)[OF inv] by (auto simp: disjoint_iff)
qed

lemma distinct_registered: "registry_inv s \<Longrightarrow> i < length (dmap (registry s)) \<Longrightarrow> j < length (dmap (registry s)) \<Longrightarrow>
    fields_at (registry s) (snd (dmap (registry s) ! i)) = fields_at (registry s) (snd (dmap (registry s) ! j)) \<Longrightarrow> i = j"
  using registry_invD(8)[of s] by (simp add: distinct_conv_nth) (metis (no_types))

lemma intern_cases:
  assumes inv: "registry_inv s" and f: "heap (registry s) fresh = None" "copyable dp"
  obtains (Hit) a h where "a \<in> snd ` set (dmap (registry s))" "heap (registry s) a = Some h" "0 < held s a"
      "fields_at (registry s) a = Some (norm_fields (take (count_entries dp) dp))"
      "ocs_cull_descr_intern fresh dp (registry s) = Some (a, put_header a (h\<lparr>refs := add32 (refs h) 1\<rparr>) (registry s))"
    | (New) h r where "ocs_cull_descr_intern fresh dp (registry s) = Some (fresh, r)" "refs h = 1" "wf_header h"
      "norm_fields (entries h) = norm_fields (take (count_entries dp) dp)"
      "heap r = heap (put_header fresh h (registry s))" "list_all (linked (heap r)) (dmap r)"
      "distinct (map (\<lambda>e. fields_at r (snd e)) (dmap r))" "snd ` set (dmap r) \<subseteq> insert fresh (snd ` set (dmap (registry s)))"
      "\<And>a. a \<in> snd ` set (dmap (registry s)) \<Longrightarrow> 0 < held s a \<Longrightarrow> fields_at (registry s) a \<noteq> Some (norm_fields (take (count_entries dp) dp))"
      "\<And>a. a \<in> snd ` set (dmap (registry s)) \<Longrightarrow> 0 < held s a \<Longrightarrow> a \<in> snd ` set (dmap r)"
      "length (dmap (registry s)) < soft_cap (registry s) \<Longrightarrow> fresh \<in> snd ` set (dmap r)"
      "soft_cap r = soft_cap (registry s)" "length (dmap r) \<le> max (length (dmap (registry s))) (soft_cap r)"
proof -
  define n where "n = count_entries dp"
  define key where "key = ocs_cull_descr_hash dp n"
  let ?rg = "registry s"
  obtain h where h: "alloc_counted dp n key = Some h" using f(2) by (auto simp: copyable_def n_def key_def)
  note hp = alloc_counted_header[OF h[unfolded n_def key_def], folded n_def key_def]
  have find: "case equal_entry (heap ?rg) key dp n (dmap ?rg) of
       None \<Rightarrow> False
     | Some (Some i) \<Rightarrow> i < length (dmap ?rg) \<and> fields_at ?rg (snd (dmap ?rg ! i)) = Some (norm_fields (take n dp))
     | Some None \<Rightarrow> \<forall>e \<in> set (dmap ?rg). fields_at ?rg (snd e) \<noteq> Some (norm_fields (take n dp))"
    using equal_entry_finds[OF registry_invD(7)[OF inv] n_def key_def] unfolding fields_at_def .
  show thesis
  proof (cases "equal_entry (heap ?rg) key dp n (dmap ?rg)")
    case None
    then show thesis using find by simp
  next
    case (Some found)
    let ?R = "put_header fresh h ?rg"
    have keep: "linked (heap ?R) e" "fields_at ?R (snd e) = fields_at ?rg (snd e)" if "e \<in> set (dmap ?rg)" for e
      using other_linked[OF inv f(1)] that by simp_all
    have fresh: "linked (heap ?R) (key, fresh)" "fields_at ?R fresh = Some (norm_fields (take n dp))"
      using hp by (simp_all add: linked_def fields_at_def put_header_def key_def)
    show thesis
    proof (cases found)
      case None
      define r where "r = (if length (dmap ?rg) < soft_cap ?rg then ?R\<lparr>dmap := dmap ?rg @ [(key, fresh)]\<rparr>
        else if cap_reported ?rg then ?R else ?R\<lparr>cap_reported := True, warnings := Suc (warnings ?rg)\<rparr>)"
      have i: "ocs_cull_descr_intern fresh dp ?rg = Some (fresh, r)"
        using Some None h by (simp add: ocs_cull_descr_intern_def Let_def n_def[symmetric] key_def[symmetric] r_def)
      have r: "heap r = heap ?R" "fields_at r = fields_at ?R" "soft_cap r = soft_cap ?rg"
        "dmap r = (if length (dmap ?rg) < soft_cap ?rg then dmap ?rg @ [(key, fresh)] else dmap ?rg)"
        by (simp_all add: r_def fields_at_def put_header_def fun_eq_iff)
      have none: "fields_at ?rg (snd e) \<noteq> Some (norm_fields (take n dp))" if "e \<in> set (dmap ?rg)" for e
        using find Some None that by simp
      have l: "list_all (linked (heap r)) (dmap r)" using keep(1) fresh(1) by (auto simp: r list_all_iff)
      have m: "map (\<lambda>e. fields_at r (snd e)) (dmap r) = map (\<lambda>e. fields_at ?rg (snd e)) (dmap ?rg) @
          (if length (dmap ?rg) < soft_cap ?rg then [Some (norm_fields (take n dp))] else [])" using keep(2) fresh(2) by (simp add: r)
      have d: "distinct (map (\<lambda>e. fields_at r (snd e)) (dmap r))" unfolding m using registry_invD(8)[OF inv] none by fastforce
      have sub: "snd ` set (dmap r) \<subseteq> insert fresh (snd ` set (dmap ?rg))" "length (dmap r) \<le> max (length (dmap ?rg)) (soft_cap r)" by (auto simp: r)
      show thesis by (rule New[OF i hp(1,2) hp(3)[unfolded n_def] r(1) l d sub(1) _ _ _ r(3) sub(2)]) (use none in \<open>auto simp: n_def r\<close>)
    next
      case (Some i)
      then have i: "i < length (dmap ?rg)" "fields_at ?rg (snd (dmap ?rg ! i)) = Some (norm_fields (take n dp))"
        using find \<open>equal_entry (heap ?rg) key dp n (dmap ?rg) = Some found\<close> by simp_all
      define a where "a = snd (dmap ?rg ! i)"
      have m: "dmap ?rg ! i \<in> set (dmap ?rg)" using i(1) by simp
      then have "linked (heap ?rg) (dmap ?rg ! i)" using registry_invD(7)[OF inv] by (auto simp: list_all_iff)
      then obtain g where g: "heap ?rg a = Some g" "fst (dmap ?rg ! i) = hash g" "wf_header g" by (auto simp: linked_def a_def)
      have rf: "refs g = held s a" using registry_invD(1)[OF inv] g(1) by simp
      have eq: "ocs_cull_descr_intern fresh dp ?rg = do { (alive, r1) \<leftarrow> ref_if_alive a ?rg;
          if alive then Some (a, r1) else Some (fresh, ?R\<lparr>dmap := (dmap ?rg)[i := (hash g, fresh)]\<rparr>) }"
        using \<open>equal_entry (heap ?rg) key dp n (dmap ?rg) = Some found\<close> Some h
        unfolding ocs_cull_descr_intern_def Let_def n_def[symmetric] key_def[symmetric]
        by (cases "ref_if_alive a ?rg") (simp_all add: a_def[symmetric] g(2) split: prod.splits)
      show thesis
      proof (cases "held s a = 0")
        case False
        then have "ocs_cull_descr_intern fresh dp ?rg = Some (a, put_header a (g\<lparr>refs := add32 (refs g) 1\<rparr>) ?rg)"
          using eq rf g(1) by (simp add: ref_if_alive_def)
        then show thesis using Hit[of a g] m g(1) False i(2) by (auto simp: n_def a_def)
      next
        case True
        define r where "r = ?R\<lparr>dmap := (dmap ?rg)[i := (hash g, fresh)]\<rparr>"
        have e: "ocs_cull_descr_intern fresh dp ?rg = Some (fresh, r)" using eq rf g(1) True by (simp add: ref_if_alive_def r_def)
        have r: "heap r = heap ?R" "fields_at r = fields_at ?R" "dmap r = (dmap ?rg)[i := (hash g, fresh)]" "soft_cap r = soft_cap ?rg"
          by (simp_all add: r_def fields_at_def put_header_def fun_eq_iff)
        have "norm_fields (take n dp) = norm_fields (take (hn g) (entries g))" using i(2) g by (simp add: fields_at_def a_def wf_header_def)
        then have "hash g = key" using g(3) hash_norm[of n dp "hn g" "entries g"] by (simp add: key_def wf_header_def)
        then have l: "list_all (linked (heap r)) (dmap r)"
          using keep(1) fresh(1) by (auto simp: r list_all_iff dest!: set_update_subset_insert[THEN subsetD])
        have m: "map (\<lambda>e. fields_at r (snd e)) (dmap r) = map (\<lambda>e. fields_at ?rg (snd e)) (dmap ?rg)"
          by (rule nth_equalityI) (use i keep(2) fresh(2) in \<open>auto simp: r nth_list_update\<close>)
        have no: "fields_at ?rg b \<noteq> Some (norm_fields (take n dp))" if b: "b \<in> snd ` set (dmap ?rg)" "0 < held s b" for b
        proof
          assume eqb: "fields_at ?rg b = Some (norm_fields (take n dp))"
          obtain j where j: "j < length (dmap ?rg)" "b = snd (dmap ?rg ! j)" using registered_nth[OF b(1)] by blast
          then have "i = j" using distinct_registered[OF inv, of i j] i eqb by simp
          then show False using True b(2) j(2) by (simp add: a_def)
        qed
        have sub: "snd ` set (dmap r) \<subseteq> insert fresh (snd ` set (dmap ?rg))" by (auto simp: r dest!: set_update_subset_insert[THEN subsetD])
        have d: "distinct (map (\<lambda>e. fields_at r (snd e)) (dmap r))" unfolding m by (rule registry_invD(8)[OF inv])
        have stays: "b \<in> snd ` set (dmap r)" if b: "b \<in> snd ` set (dmap ?rg)" "0 < held s b" for b
        proof -
          obtain j where j: "j < length (dmap ?rg)" "b = snd (dmap ?rg ! j)" using registered_nth[OF b(1)] by blast
          then have "i \<noteq> j" using b(2) True by (auto simp: a_def)
          then have "dmap r ! j = dmap ?rg ! j" by (simp add: r)
          then show ?thesis using j by (metis (no_types) imageI length_list_update nth_mem r(3))
        qed
        have "(hash g, fresh) \<in> set (dmap r)" using i(1) by (simp add: r set_update_memI)
        then have "fresh \<in> snd ` set (dmap r)" by force
        then show thesis by (intro New[OF e hp(1,2) hp(3)[unfolded n_def] r(1) l d sub no[unfolded n_def] stays _ r(4)]) (simp_all add: r)
      qed
    qed
  qed
qed

section \<open>Steps\<close>

lemma intern_inv:
  assumes "registry_inv s" "heap (registry s) fresh = None" "copyable dp" "\<And>a. held s a < max_refs"
    "ocs_cull_descr_intern fresh dp (registry s) = Some (a, r)"
  shows "registry_inv (s\<lparr>registry := r, held := (held s)(a := Suc (held s a))\<rparr>)"
  using assms(1-3)
proof (cases rule: intern_cases)
  case (Hit b h)
  have e: "a = b" "r = put_header b (h\<lparr>refs := add32 (refs h) 1\<rparr>) (registry s)" using assms(5) Hit(5) by auto
  have c: "add32 (refs h) 1 = Suc (held s b)" "Suc (held s b) < u32_mod"
    using registry_invD(1)[OF assms(1) Hit(2)] assms(4)[of b] by (simp_all add: add32_exact max_refs_def)
  then have r: "r = put_header a (h\<lparr>refs := Suc (held s a)\<rparr>) (registry s)" using e by simp
  show ?thesis by (rule count_inv[OF assms(1) Hit(2)[folded e(1)] c(2)[folded e(1)]]) (use r Hit(3) e(1) registry_invD(4)[OF assms(1), of b] in auto)
next
  case (New h r')
  then have "a = fresh" "r = r'" using assms(5) by simp_all
  then show ?thesis using new_inv[OF assms(1,2) New(2,3) New(5-8)] by simp
qed

lemma private_inv:
  assumes "registry_inv s" "heap (registry s) fresh = None" "copyable dp" "ocs_cull_descr_private fresh dp (registry s) = Some (a, r)"
  shows "registry_inv (s\<lparr>registry := r, held := (held s)(a := Suc (held s a))\<rparr>)"
proof -
  obtain h where h: "alloc_counted dp (count_entries dp) (ocs_cull_descr_hash dp (count_entries dp)) = Some h" "a = fresh"
      "r = put_header fresh h (registry s)"
    using assms(4) by (auto simp: ocs_cull_descr_private_def Let_def split: Option.bind_splits)
  have d: "dmap r = dmap (registry s)" by (simp add: h(3) put_header_def)
  have "list_all (linked (heap r)) (dmap r)" using other_linked(2)[OF assms(1,2)] by (simp add: d h(3) list_all_iff)
  moreover have m: "map (\<lambda>e. fields_at r (snd e)) (dmap r) = map (\<lambda>e. fields_at (registry s) (snd e)) (dmap (registry s))"
    using other_linked(3)[OF assms(1,2)] by (simp add: d h(3))
  have "distinct (map (\<lambda>e. fields_at r (snd e)) (dmap r))" unfolding m by (rule registry_invD(8)[OF assms(1)])
  ultimately show ?thesis
    unfolding h(2) by (intro new_inv[OF assms(1,2) alloc_counted_header(1,2)[OF h(1)]]) (auto simp: d h(3))
qed

lemma release_inv:
  assumes "registry_inv s" "0 < held s a" "release_count a (registry s) = Some (lst, r)"
  shows "registry_inv (s\<lparr>registry := r, held := (held s)(a := held s a - 1), unlinking := (if lst then insert a (unlinking s) else unlinking s)\<rparr>)"
proof -
  obtain h where h: "heap (registry s) a = Some h" "lst = (refs h = 1)" "r = put_header a (h\<lparr>refs := sub32 (refs h) 1\<rparr>) (registry s)"
    using assms(3) by (auto simp: release_count_def split: Option.bind_splits)
  have rf: "refs h = held s a" "held s a < u32_mod" using registry_invD(1,3)[OF assms(1)] h(1) by auto
  then have "sub32 (refs h) 1 = held s a - 1" using assms(2) sub32_exact[of 1 "held s a"] by simp
  then have r: "r = put_header a (h\<lparr>refs := held s a - 1\<rparr>) (registry s)" using h(3) by simp
  show ?thesis
    by (rule count_inv[OF assms(1) h(1), of "held s a - 1"]) (use r rf h(2) assms(2) registry_invD(4)[OF assms(1), of a] in auto)
qed

lemma unlink_inv:
  assumes "registry_inv s" "a \<in> unlinking s" "release_unlink a (registry s) = Some r"
  shows "registry_inv (s\<lparr>registry := r, unlinking := unlinking s - {a}, freeing := insert a (freeing s)\<rparr>)"
proof -
  obtain h where h: "heap (registry s) a = Some h" "heap r = heap (registry s)" "dmap r = remove1 (hash h, a) (dmap (registry s))"
    using assms(3) by (auto simp: release_unlink_def Let_def split: Option.bind_splits)
  have f: "fields_at r = fields_at (registry s)" by (simp add: fields_at_def h(2) fun_eq_iff)
  have dm: "distinct (map snd (dmap (registry s)))"
    using registry_invD(8)[OF assms(1)] by (metis (mono_tags, lifting) distinct_map inj_on_def map_eq_conv)
  have gone: "a \<notin> snd ` set (dmap r)"
  proof
    assume "a \<in> snd ` set (dmap r)"
    then obtain k where k: "(k, a) \<in> set (dmap r)" by auto
    have "(k, a) \<in> set (dmap (registry s))" using k h(3) notin_set_remove1 by metis
    moreover have "linked (heap (registry s)) (k, a)" using registry_invD(7)[OF assms(1)] calculation by (auto simp: list_all_iff)
    then have "k = hash h" using h(1) by (simp add: linked_def)
    moreover have "distinct (dmap (registry s))" using dm distinct_map by blast
    ultimately show False using k h(3) by simp
  qed
  have sub: "set (dmap r) \<subseteq> set (dmap (registry s))" using h(3) set_remove1_subset by metis
  have "list_all (linked (heap r)) (dmap r)" using registry_invD(7)[OF assms(1)] sub by (auto simp: h(2) list_all_iff)
  moreover have "distinct (map (\<lambda>e. fields_at r (snd e)) (dmap r))"
    using registry_invD(8)[OF assms(1)] unfolding f h(3) by (auto simp: distinct_map intro: inj_on_subset dest: notin_set_remove1)
  moreover have "snd ` set (dmap r) \<inter> insert a (freeing s) = {}" using gone sub registry_invD(9)[OF assms(1)] by auto
  moreover have "heap r b \<noteq> None \<longleftrightarrow> 0 < held s b \<or> b \<in> unlinking s - {a} \<or> b \<in> insert a (freeing s)" for b
    using registry_invD(2)[OF assms(1), of b] h(2) assms(2) by auto
  ultimately show ?thesis
    using registry_invD(1,3-6)[OF assms(1)] assms(2) unfolding registry_inv_def by (auto simp: h(2))
qed

lemma free_inv:
  assumes "registry_inv s" "a \<in> freeing s" "free_counted a (registry s) = Some r"
  shows "registry_inv (s\<lparr>registry := r, freeing := freeing s - {a}\<rparr>)"
proof -
  have r: "r = (registry s)\<lparr>heap := (heap (registry s))(a := None)\<rparr>"
    using assms(3) by (auto simp: free_counted_def split: Option.bind_splits)
  have ne: "snd e \<noteq> a" if "e \<in> set (dmap (registry s))" for e using registry_invD(9)[OF assms(1) that] assms(2) by auto
  have "list_all (linked (heap r)) (dmap r)" using registry_invD(7)[OF assms(1)] ne by (auto simp: r list_all_iff linked_def)
  moreover have "map (\<lambda>e. fields_at r (snd e)) (dmap r) = map (\<lambda>e. fields_at (registry s) (snd e)) (dmap (registry s))"
    using ne by (simp add: r fields_at_def)
  then have "distinct (map (\<lambda>e. fields_at r (snd e)) (dmap r))" using registry_invD(8)[OF assms(1)] by simp
  moreover have "heap r b \<noteq> None \<longleftrightarrow> 0 < held s b \<or> b \<in> unlinking s \<or> b \<in> freeing s - {a}" for b
    using registry_invD(2,4-6)[OF assms(1), of b] registry_invD(5)[OF assms(1,2)] registry_invD(6)[OF assms(1), of a] assms(2) by (auto simp: r)
  ultimately show ?thesis
    using registry_invD(1,3-6,8,9)[OF assms(1)] unfolding registry_inv_def by (auto simp: r disjoint_iff)
qed

lemma registry_step_inv: "registry_step s s' \<Longrightarrow> registry_inv s \<Longrightarrow> registry_inv s'"
proof (induction rule: registry_step.induct)
  case (Ref s a r)
  obtain h where h: "heap (registry s) a = Some h" "r = put_header a (h\<lparr>refs := add32 (refs h) 1\<rparr>) (registry s)"
    using Ref(3) by (auto simp: ocs_cull_descr_ref_def split: Option.bind_splits)
  have "add32 (refs h) 1 = Suc (held s a)" "Suc (held s a) < u32_mod"
    using registry_invD(1)[OF Ref.prems h(1)] Ref(2) by (simp_all add: add32_exact max_refs_def)
  then show ?case
    by (intro count_inv[OF Ref.prems h(1)]) (use h(2) Ref(1) registry_invD(4)[OF Ref.prems, of a] in auto)
next
  case (SetCap cap s prev r)
  then have "heap r = heap (registry s)" "dmap r = dmap (registry s)" by (auto simp: ocs_cull_descr_set_soft_cap_def)
  then show ?case using SetCap.prems by (simp add: registry_inv_def fields_at_def)
qed (blast intro: intern_inv private_inv release_inv unlink_inv free_inv)+

lemma reachable_registry_inv: "registry_step\<^sup>*\<^sup>* registry_start s \<Longrightarrow> registry_inv s"
  by (induction rule: rtranclp_induct) (auto intro: start_inv registry_step_inv)

end
