(* ===== verification/CullRegistry_Props.thy ===== *)
theory CullRegistry_Props
  imports CullRegistry_Correct
begin

text \<open>
  What the users of the registry rely on, for any interleaving of threads that intern, reference and release
  descriptors.
\<close>

section \<open>An example\<close>

definition name_only :: fields where
  "name_only = [\<lparr>nm = 200, mt = lStringT OR CULL_IS_REDUCED, off = 0\<rparr>, \<lparr>nm = 201, mt = lUlongT OR CULL_IS_REDUCED, off = OCS_CULL_ABSENT\<rparr>]"

definition name_registry :: cull_descr_registry where
  "name_registry = snd (the (ocs_cull_descr_intern 7 name_only empty_registry))"

definition name_held :: registry_state where
  "name_held = registry_start\<lparr>registry := name_registry, held := (held registry_start)(7 := Suc (held registry_start 7))\<rparr>"

lemma name_copyable: "copyable name_only"
  unfolding copyable_def by code_simp

lemma name_interned: "ocs_cull_descr_intern 7 name_only empty_registry = Some (7, name_registry)"
proof -
  have "map_option fst (ocs_cull_descr_intern 7 name_only empty_registry) = Some 7" by code_simp
  then show ?thesis unfolding name_registry_def by (cases "ocs_cull_descr_intern 7 name_only empty_registry") auto
qed

lemma name_registered: "7 \<in> snd ` set (dmap name_registry)"
proof -
  have "map snd (dmap name_registry) = [7]" by code_simp
  then show ?thesis by (metis image_set list.set_intros(1))
qed

lemma name_held_reachable: "registry_step\<^sup>*\<^sup>* registry_start name_held"
proof -
  have "registry_step registry_start name_held"
    unfolding name_held_def
    by (rule registry_step.Intern[of _ 7 name_only]) (simp_all add: registry_start_def name_copyable name_interned max_refs_def, simp add: empty_registry_def)
  then show ?thesis by blast
qed

section \<open>Memory\<close>

text \<open>C28. Whatever the threads do, no step uses memory that was freed or frees it twice: a descriptor to which
  there are references can be referenced and released, and its count is the number of references; a thread
  that gave up the last reference finds the descriptor until it has freed it itself; and every search of the
  registry reads only allocated descriptors.\<close>

theorem registry_never_uses_freed_memory:
  assumes "registry_step\<^sup>*\<^sup>* registry_start s"
  shows "(\<forall>a. 0 < held s a \<longrightarrow> ocs_cull_descr_refs a (registry s) = Some (held s a) \<and> ocs_cull_descr_ref a (registry s) \<noteq> None \<and>
        release_count a (registry s) \<noteq> None) \<and>
     (\<forall>a \<in> unlinking s. held s a = 0 \<and> release_unlink a (registry s) \<noteq> None) \<and>
     (\<forall>a \<in> freeing s. held s a = 0 \<and> free_counted a (registry s) \<noteq> None) \<and>
     (\<forall>fresh dp. heap (registry s) fresh = None \<longrightarrow> copyable dp \<longrightarrow> ocs_cull_descr_intern fresh dp (registry s) \<noteq> None)"
proof -
  have inv: "registry_inv s" using reachable_registry_inv[OF assms] .
  have live: "\<exists>h. heap (registry s) a = Some h \<and> refs h = held s a" if "0 < held s a \<or> a \<in> unlinking s \<or> a \<in> freeing s" for a
    using registry_invD(1,2)[OF inv, of a] that by auto
  have "ocs_cull_descr_intern fresh dp (registry s) \<noteq> None" if "heap (registry s) fresh = None" "copyable dp" for fresh dp
    using inv that by (cases rule: intern_cases) simp_all
  moreover have "ocs_cull_descr_refs a (registry s) = Some (held s a) \<and> ocs_cull_descr_ref a (registry s) \<noteq> None \<and> release_count a (registry s) \<noteq> None"
    if "0 < held s a" for a
    using live[of a] that by (auto simp: ocs_cull_descr_refs_def ocs_cull_descr_ref_def release_count_def)
  moreover have "held s a = 0 \<and> release_unlink a (registry s) \<noteq> None" if "a \<in> unlinking s" for a
    using live[of a] that registry_invD(4)[OF inv] by (auto simp: release_unlink_def Let_def)
  moreover have "held s a = 0 \<and> free_counted a (registry s) \<noteq> None" if "a \<in> freeing s" for a
    using live[of a] that registry_invD(5)[OF inv] by (auto simp: free_counted_def)
  ultimately show ?thesis by blast
qed

theorem registry_never_uses_freed_memory_witness:
  "ocs_cull_descr_refs 7 (registry name_held) = Some 1 \<and> release_count 7 (registry name_held) \<noteq> None \<and>
   ocs_cull_descr_intern 2 name_only (registry name_held) \<noteq> None"
proof -
  have "held name_held 7 = 1" "heap (registry name_held) 2 = None"
    by (simp_all add: name_held_def registry_start_def) code_simp
  then show ?thesis using registry_never_uses_freed_memory[OF name_held_reachable] name_copyable by auto
qed

text \<open>C29. Nothing is left behind: when all references were given up and all threads have finished their
  releases, no descriptor is allocated and the registry is empty.\<close>

theorem registry_leaves_nothing:
  assumes "registry_step\<^sup>*\<^sup>* registry_start s" "\<And>a. held s a = 0" "unlinking s = {}" "freeing s = {}"
  shows "heap (registry s) = Map.empty \<and> ocs_cull_descr_registry_size (registry s) = 0"
proof -
  have inv: "registry_inv s" using reachable_registry_inv[OF assms(1)] .
  have h: "heap (registry s) a = None" for a using registry_invD(2)[OF inv, of a] assms(2-4) by auto
  then have "dmap (registry s) = []" using registry_invD(7)[OF inv] by (cases "dmap (registry s)") (auto simp: linked_def)
  then show ?thesis using h by (auto simp: ocs_cull_descr_registry_size_def)
qed

theorem registry_leaves_nothing_witness:
  "\<exists>s. registry_step\<^sup>*\<^sup>* name_held s \<and> heap (registry s) = Map.empty \<and> ocs_cull_descr_registry_size (registry s) = 0"
proof -
  have inv: "registry_inv name_held" by (rule reachable_registry_inv[OF name_held_reachable])
  have h: "held name_held = (\<lambda>a. if a = 7 then 1 else 0)" "unlinking name_held = {}" "freeing name_held = {}"
    by (auto simp: name_held_def registry_start_def)
  obtain x where x: "heap (registry name_held) 7 = Some x" "refs x = 1"
    using registry_invD(1,2)[OF inv, of 7] h by auto
  then obtain r1 where r1: "release_count 7 (registry name_held) = Some (True, r1)" by (simp add: release_count_def)
  define s1 where "s1 = name_held\<lparr>registry := r1, held := (held name_held)(7 := 0), unlinking := {7}\<rparr>"
  have s1: "registry_step name_held s1" using registry_step.Release[OF _ r1] h by (simp add: s1_def)
  have inv1: "registry_inv s1" by (rule registry_step_inv[OF s1 inv])
  obtain r2 where r2: "release_unlink 7 (registry s1) = Some r2"
    using registry_invD(2)[OF inv1, of 7] by (auto simp: s1_def release_unlink_def Let_def)
  define s2 where "s2 = s1\<lparr>registry := r2, unlinking := {}, freeing := {7}\<rparr>"
  have s2: "registry_step s1 s2" using registry_step.Unlink[OF _ r2] h by (simp add: s1_def s2_def)
  have inv2: "registry_inv s2" by (rule registry_step_inv[OF s2 inv1])
  obtain r3 where r3: "free_counted 7 (registry s2) = Some r3"
    using registry_invD(2)[OF inv2, of 7] by (auto simp: s2_def free_counted_def)
  define s3 where "s3 = s2\<lparr>registry := r3, freeing := {}\<rparr>"
  have s3: "registry_step s2 s3" using registry_step.Free[OF _ r3] by (simp add: s2_def s3_def)
  have p: "registry_step\<^sup>*\<^sup>* name_held s3" using s1 s2 s3 by (meson converse_rtranclp_into_rtranclp r_into_rtranclp)
  have "held s3 a = 0" for a using h by (simp add: s1_def s2_def s3_def)
  then show ?thesis
    using registry_leaves_nothing[of s3] rtranclp_trans[OF name_held_reachable p] p by (auto simp: s1_def s2_def s3_def)
qed

section \<open>Sharing\<close>

text \<open>While there are references to a registered descriptor, no step changes its fields or takes it out of the
  registry.\<close>

definition shared_as :: "nat \<Rightarrow> fields \<Rightarrow> registry_state \<Rightarrow> bool" where
  "shared_as a fs s \<longleftrightarrow> 0 < held s a \<and> a \<in> snd ` set (dmap (registry s)) \<and> fields_at (registry s) a = Some fs"

inductive keeping :: "nat \<Rightarrow> registry_state \<Rightarrow> registry_state \<Rightarrow> bool" for a where
  "keeping a s s"
| "keeping a s s1 \<Longrightarrow> registry_step s1 s2 \<Longrightarrow> 0 < held s2 a \<Longrightarrow> keeping a s s2"

lemma shared_step:
  assumes "registry_step s s'" "registry_inv s" "shared_as a fs s" "0 < held s' a"
  shows "shared_as a fs s'"
  using assms
proof (induction rule: registry_step.induct)
  case (Intern s fresh dp b r)
  have "a \<in> snd ` set (dmap r) \<and> fields_at r a = fields_at (registry s) a"
    using Intern(5) Intern(1,2)
  proof (cases rule: intern_cases)
    case (Hit c h)
    then have "r = put_header c (h\<lparr>refs := add32 (refs h) 1\<rparr>) (registry s)" using Intern(4) by simp
    then show ?thesis using count_changed(2)[OF Hit(2)] Intern.prems(2) by (simp add: shared_as_def)
  next
    case (New h r')
    then have "r = r'" using Intern(4) by simp
    moreover have "a \<noteq> fresh" using Intern(1) Intern.prems(2) by (auto simp: shared_as_def fields_at_def)
    ultimately show ?thesis using New(5,10) Intern.prems(2) by (simp add: shared_as_def fields_at_def put_header_def)
  qed
  then show ?case using Intern.prems by (simp add: shared_as_def)
next
  case (Private s fresh dp b r)
  then obtain h where "r = put_header fresh h (registry s)" by (auto simp: ocs_cull_descr_private_def Let_def split: Option.bind_splits)
  moreover have "a \<noteq> fresh" using Private by (auto simp: shared_as_def fields_at_def)
  ultimately show ?case using Private.prems by (simp add: shared_as_def fields_at_def put_header_def)
next
  case (Ref s b r)
  then obtain h where "heap (registry s) b = Some h" "r = put_header b (h\<lparr>refs := add32 (refs h) 1\<rparr>) (registry s)"
    by (auto simp: ocs_cull_descr_ref_def split: Option.bind_splits)
  then show ?case using Ref.prems count_changed(2) by (simp add: shared_as_def)
next
  case (Release s b lst r)
  then obtain h where "heap (registry s) b = Some h" "r = put_header b (h\<lparr>refs := sub32 (refs h) 1\<rparr>) (registry s)"
    by (auto simp: release_count_def split: Option.bind_splits)
  then show ?case using Release.prems count_changed(2) by (simp add: shared_as_def)
next
  case (Unlink b s r)
  obtain h where "heap (registry s) b = Some h" using Unlink(2) by (auto simp: release_unlink_def split: Option.bind_splits)
  then have r: "heap r = heap (registry s)" "dmap r = remove1 (hash h, b) (dmap (registry s))"
    using Unlink(2) by (auto simp: release_unlink_def Let_def)
  have "a \<noteq> b" using Unlink registry_invD(4)[of s b] by (auto simp: shared_as_def)
  moreover obtain k where "(k, a) \<in> set (dmap (registry s))" using Unlink.prems(2) by (auto simp: shared_as_def)
  ultimately have "(k, a) \<in> set (dmap r)" by (simp add: r in_set_remove1)
  then show ?case using Unlink.prems r(1) by (force simp: shared_as_def fields_at_def)
next
  case (Free b s r)
  then have "r = (registry s)\<lparr>heap := (heap (registry s))(b := None)\<rparr>" by (auto simp: free_counted_def split: Option.bind_splits)
  moreover have "a \<noteq> b" using Free registry_invD(5)[of s b] by (auto simp: shared_as_def)
  ultimately show ?case using Free.prems by (simp add: shared_as_def fields_at_def)
next
  case (SetCap cap s prev r)
  then show ?case by (auto simp: shared_as_def fields_at_def ocs_cull_descr_set_soft_cap_def)
qed

lemma shared_keeping: "keeping a s s' \<Longrightarrow> registry_inv s \<Longrightarrow> shared_as a fs s \<Longrightarrow> registry_inv s' \<and> shared_as a fs s'"
  by (induction rule: keeping.induct) (auto intro: registry_step_inv shared_step)

lemma intern_shares:
  assumes "registry_inv s" "shared_as a (norm_fields (take (count_entries dp) dp)) s" "heap (registry s) fresh = None" "copyable dp"
  shows "\<exists>r. ocs_cull_descr_intern fresh dp (registry s) = Some (a, r)"
  using assms(1,3,4)
proof (cases rule: intern_cases)
  case (Hit b h)
  have a: "a \<in> snd ` set (dmap (registry s))" using assms(2) by (simp add: shared_as_def)
  obtain i j where ij: "i < length (dmap (registry s))" "a = snd (dmap (registry s) ! i)" "j < length (dmap (registry s))" "b = snd (dmap (registry s) ! j)"
    using registered_nth[OF a] registered_nth[OF Hit(1)] by auto
  then have "i = j" using distinct_registered[OF assms(1), of i j] Hit(4) assms(2) by (simp add: shared_as_def)
  then show ?thesis using ij Hit(5) by simp
next
  case (New h r)
  then show ?thesis using assms(2) by (auto simp: shared_as_def)
qed

lemma interned_is_shared:
  assumes "registry_inv s" "heap (registry s) fresh = None" "copyable dp" "ocs_cull_descr_intern fresh dp (registry s) = Some (a, r)"
    "ocs_cull_descr_registry_size (registry s) < soft_cap (registry s)"
  shows "shared_as a (norm_fields (take (count_entries dp) dp)) (s\<lparr>registry := r, held := (held s)(a := Suc (held s a))\<rparr>)"
  using assms(1-3)
proof (cases rule: intern_cases)
  case (Hit b h)
  then have "a = b" "r = put_header b (h\<lparr>refs := add32 (refs h) 1\<rparr>) (registry s)" using assms(4) by auto
  then show ?thesis using Hit(1,4) count_changed(2)[OF Hit(2)] by (simp add: shared_as_def)
next
  case (New h r')
  then have "a = fresh" "r = r'" using assms(4) by auto
  then show ?thesis
    using New(4,5,11) assms(5) by (simp add: shared_as_def fields_at_def put_header_def ocs_cull_descr_registry_size_def)
qed

text \<open>Equal descriptors are shared: below the soft cap of the registry, a thread that interns fields gets the
  address at which an equal descriptor was interned before, as long as a reference to that one was held all the
  time in between, whatever other threads did meanwhile.\<close>

lemma equal_fields_are_shared:
  assumes "registry_step\<^sup>*\<^sup>* registry_start s" "heap (registry s) fresh = None" "copyable dp" "\<And>a. held s a < max_refs"
    "ocs_cull_descr_registry_size (registry s) < soft_cap (registry s)" "ocs_cull_descr_intern fresh dp (registry s) = Some (a, r)"
    "keeping a (s\<lparr>registry := r, held := (held s)(a := Suc (held s a))\<rparr>) s'"
    "heap (registry s') fresh' = None" "copyable dp'" "norm_fields (take (count_entries dp') dp') = norm_fields (take (count_entries dp) dp)"
  shows "\<exists>r'. ocs_cull_descr_intern fresh' dp' (registry s') = Some (a, r')"
proof -
  have inv: "registry_inv s" by (rule reachable_registry_inv[OF assms(1)])
  have "registry_inv s' \<and> shared_as a (norm_fields (take (count_entries dp) dp)) s'"
    by (rule shared_keeping[OF assms(7) intern_inv[OF inv assms(2-4,6)] interned_is_shared[OF inv assms(2,3,6,5)]])
  then show ?thesis using intern_shares[of s' a dp' fresh'] assms(8-10) by simp
qed

text \<open>The registry does not grow beyond the soft cap.\<close>

lemma registry_size_bounded:
  assumes "registry_step s s'" "registry_inv s"
  shows "ocs_cull_descr_registry_size (registry s') \<le> max (ocs_cull_descr_registry_size (registry s)) (soft_cap (registry s))"
  using assms
proof (induction rule: registry_step.induct)
  case (Intern s fresh dp a r)
  show ?case using Intern(5) Intern(1,2)
  proof (cases rule: intern_cases)
    case (Hit b h)
    then show ?thesis using Intern(4) by (auto simp: ocs_cull_descr_registry_size_def)
  next
    case (New h r')
    then show ?thesis using Intern(4) by (auto simp: ocs_cull_descr_registry_size_def)
  qed
next
  case (Unlink a s r)
  then show ?case
    by (auto simp: release_unlink_def Let_def ocs_cull_descr_registry_size_def length_remove1 split: Option.bind_splits)
qed (auto simp: ocs_cull_descr_private_def ocs_cull_descr_ref_def release_count_def free_counted_def ocs_cull_descr_set_soft_cap_def
    ocs_cull_descr_registry_size_def Let_def split: Option.bind_splits)

end
