(* ===== verification/TaskDepend.thy ===== *)
theory TaskDepend
  imports JobTasks_Correct EvalExpression_Correct
begin

text \<open>
  Dependencies between array tasks, \<^verbatim>\<open>source/daemons/qmaster/sge_task_depend.cc\<close> with its callers in
  \<^verbatim>\<open>sge_give_jobs.cc\<close> and \<^verbatim>\<open>sge_job_qmaster.cc\<close>. A job that was submitted with \<^verbatim>\<open>-hold_jid_ad\<close> has
  predecessors; a task of it is held until the tasks of the predecessors that cover the same indices have
  finished. The master list of jobs is a HOL list that is threaded through; an element is changed by
  writing it back. \<open>None\<close> is an abort of the daemon or a loop that does not end. A job is not its own predecessor or
  successor, so a job that is passed along stays as it is while others change.
\<close>

unbundle bit_operations_syntax

section \<open>Jobs and the master list\<close>

text \<open>The attributes of a job beside those of \<open>job\<close>. A list of \<^verbatim>\<open>JRE_Type\<close> is the list of its job numbers or names; null and
  empty are the same here.\<close>

record array_job =
  JB_job_number :: nat
  JB_type :: flags
  JB_owner :: string
  JB_job_name :: string
  JB_jid_request_list :: "string list"
  JB_jid_predecessor_list :: "nat list"
  JB_jid_successor_list :: "nat list"
  JB_ja_ad_request_list :: "string list"
  JB_ja_ad_predecessor_list :: "nat list"
  JB_ja_ad_successor_list :: "nat list"
  ja :: job

datatype event = sgeE_JOB_MOD nat | sgeE_JATASK_MOD nat nat | sgeE_JOB_DEL nat | sgeE_JATASK_DEL nat nat

definition JOB_TYPE_ARRAY :: flags where "JOB_TYPE_ARRAY = 0x80"

definition job_is_array :: "array_job \<Rightarrow> bool" where
  "job_is_array j \<longleftrightarrow> JB_type j AND JOB_TYPE_ARRAY \<noteq> 0"

definition job_numbered :: "nat \<Rightarrow> array_job list \<Rightarrow> array_job option" where
  "job_numbered n m = find (\<lambda>j. JB_job_number j = n) m"

definition put_job :: "array_job \<Rightarrow> array_job list \<Rightarrow> array_job list" where
  "put_job j m = update_first (\<lambda>k. JB_job_number k = JB_job_number j) (\<lambda>_. j) m"

fun drop_first :: "('a \<Rightarrow> bool) \<Rightarrow> 'a list \<Rightarrow> 'a list" where
  "drop_first P [] = []"
| "drop_first P (x # xs) = (if P x then xs else x # drop_first P xs)"

section \<open>The tasks that a task depends on\<close>

definition STATUS_EUNKNOWN :: nat where "STATUS_EUNKNOWN = 4"

definition nearest_index_in_A :: "nat \<Rightarrow> nat \<Rightarrow> nat \<Rightarrow> nat option" where
  "nearest_index_in_A i t0 sa = do { q \<leftarrow> div32 (sub32 i t0) sa; Some (add32 t0 (mul32 q sa)) }"

definition task_depend :: "nat \<Rightarrow> nat \<Rightarrow> nat \<Rightarrow> nat \<Rightarrow> (nat \<times> nat) option" where
  "task_depend t0 sa sb step_b_id =
     do { lb \<leftarrow> nearest_index_in_A step_b_id t0 sa;
          ub \<leftarrow> nearest_index_in_A (sub32 (add32 step_b_id sb) 1) t0 sa;
          Some (lb, ub) }"

definition sge_task_depend_is_same_range :: "array_job \<Rightarrow> array_job \<Rightarrow> bool" where
  "sge_task_depend_is_same_range pre_jep suc_jep \<longleftrightarrow>
     job_is_array pre_jep \<and> job_is_array suc_jep \<and>
     (let (a0, a1, sa) = job_get_submit_task_ids (ja pre_jep); (b0, b1, sb) = job_get_submit_task_ids (ja suc_jep)
      in a0 = b0 \<and> a1 = b1)"

definition sge_task_depend_get_range :: "range option \<Rightarrow> array_job \<Rightarrow> array_job \<Rightarrow> nat \<Rightarrow> (nat + range) option" where
  "sge_task_depend_get_range rng pre_jep suc_jep task_id =
     (let (a0, a1, sa) = job_get_submit_task_ids (ja pre_jep); (b0, b1, sb) = job_get_submit_task_ids (ja suc_jep) in
      if \<not> sge_task_depend_is_same_range pre_jep suc_jep then Some (Inl STATUS_EUNKNOWN)
      else if task_id < b0 \<or> sub32 task_id b0 mod sb \<noteq> 0 then Some (Inl STATUS_EUNKNOWN)
      else do { (rmin, rmax) \<leftarrow> task_depend a0 sa sb task_id;
                if rmin < a0 \<or> rmax > a1 then Some (Inl STATUS_EUNKNOWN)
                else Some (Inr (range_set_all_ids (case rng of None \<Rightarrow> lCreateElem_RN | Some r \<Rightarrow> r) rmin rmax sa)) })"

section \<open>Updating the hold state\<close>

definition task_depend_is_finished :: "array_job \<Rightarrow> nat \<Rightarrow> bool option" where
  \<comment> \<open>a parallel task has no field \<^verbatim>\<open>JB_ja_tasks\<close>: reading it aborts\<close>
  "task_depend_is_finished j i =
     do { e \<leftarrow> job_is_enrolled (ja j) i;
          if \<not> e then Some False
          else (case job_search_task (ja j) i of
                  Some t \<Rightarrow> if JAT_status t \<noteq> JFINISHED then Some False
                            else if JAT_task_list t \<noteq> [] then None
                            else Some True
                | None \<Rightarrow> Some True) }"

definition unfinished_in :: "array_job \<Rightarrow> range \<Rightarrow> bool option" where
  "unfinished_in pred_jep dep_range =
     do { xs \<leftarrow> range_id_loop dep_range;
          foldo (\<lambda>i d. do { f \<leftarrow> task_depend_is_finished pred_jep i; Some (if \<not> f then True else d) }) xs False }"

fun depends :: "array_job list \<Rightarrow> array_job \<Rightarrow> nat \<Rightarrow> nat list \<Rightarrow> bool option" where
  "depends m jep task_id [] = Some False"
| "depends m jep task_id (pre # ps) =
     (case job_numbered pre m of
        None \<Rightarrow> depends m jep task_id ps
      | Some pred_jep \<Rightarrow>
          do { r \<leftarrow> sge_task_depend_get_range None pred_jep jep task_id;
               case r of
                 Inl _ \<Rightarrow> Some True
               | Inr dep_range \<Rightarrow>
                   do { d \<leftarrow> unfinished_in pred_jep dep_range;
                        if d then Some True else depends m jep task_id ps } })"

definition sge_task_depend_update :: "array_job list \<Rightarrow> array_job \<Rightarrow> nat \<Rightarrow> (bool \<times> array_job \<times> event list) option" where
  "sge_task_depend_update m jep task_id =
     do { fin \<leftarrow> task_depend_is_finished jep task_id;
          if fin then Some (False, jep, [])
          else
            do { depend \<leftarrow> depends m jep task_id (JB_ja_ad_predecessor_list jep);
                 hold_state \<leftarrow> job_get_hold_state (ja jep) task_id;
                 let new_state = (if depend then hold_state OR MINUS_H_TGT_JA_AD else hold_state AND NOT MINUS_H_TGT_JA_AD) in
                 if new_state = hold_state then Some (False, jep, [])
                 else
                   do { j \<leftarrow> job_set_hold_state (ja jep) task_id new_state;
                        e \<leftarrow> job_is_enrolled j task_id;
                        let jep' = jep\<lparr>ja := j\<rparr> in
                        if \<not> e then Some (True, jep', [])
                        else Some (False, jep',
                          (case job_search_task j task_id of
                             Some t \<Rightarrow> [sgeE_JATASK_MOD (JB_job_number jep) (JAT_task_number t)]
                           | None \<Rightarrow> [])) } } }"

definition clear_hold :: "nat \<Rightarrow> job \<Rightarrow> job option" where
  "clear_hold i j = do { hold_state \<leftarrow> job_get_hold_state j i; job_set_hold_state j i (hold_state AND NOT MINUS_H_TGT_JA_AD) }"

definition clear_task_hold :: "nat \<Rightarrow> nat \<Rightarrow> job \<times> event list \<Rightarrow> (job \<times> event list) option" where
  "clear_task_hold number i st =
     do { hold_state \<leftarrow> job_get_hold_state (fst st) i;
          if hold_state AND MINUS_H_TGT_JA_AD \<noteq> 0 then
            do { j \<leftarrow> job_set_hold_state (fst st) i (hold_state AND NOT MINUS_H_TGT_JA_AD);
                 Some (j, snd st @ [sgeE_JATASK_MOD number i]) }
          else Some st }"

definition flush_pending :: "job \<Rightarrow> (bool \<times> job) option" where
  "flush_pending j =
     (case JB_ja_a_h_ids j of
        None \<Rightarrow> Some (False, j)
      | Some a_h_ids \<Rightarrow>
          do { j' \<leftarrow> foldo (\<lambda>r j. do { xs \<leftarrow> range_id_loop r; foldo clear_hold xs j }) a_h_ids j;
               Some (True, j'\<lparr>JB_ja_a_h_ids := None\<rparr>) })"

definition sge_task_depend_flush :: "array_job \<Rightarrow> (bool \<times> array_job \<times> event list) option" where
  "sge_task_depend_flush jep =
     (if JB_ja_ad_request_list jep \<noteq> [] \<and> JB_ja_ad_predecessor_list jep = [] then
        do { (ret, j) \<leftarrow> flush_pending (ja jep);
             (j', evs) \<leftarrow> foldo (clear_task_hold (JB_job_number jep)) (map JAT_task_number (tasks j)) (j, []);
             Some (ret, jep\<lparr>ja := j'\<rparr>, evs) }
      else Some (False, jep, []))"

definition update_task :: "array_job list \<Rightarrow> nat \<Rightarrow> bool \<times> array_job \<times> event list \<Rightarrow> (bool \<times> array_job \<times> event list) option" where
  "update_task m i st =
     (let (ret, jep, evs) = st in
      do { (md, jep', es) \<leftarrow> sge_task_depend_update m jep i; Some (ret \<or> md, jep', evs @ es) })"

definition sge_task_depend_init :: "array_job list \<Rightarrow> array_job \<Rightarrow> (bool \<times> array_job \<times> event list) option" where
  "sge_task_depend_init m jep =
     (if JB_ja_ad_request_list jep \<noteq> [] then
        (if JB_ja_ad_predecessor_list jep = [] then sge_task_depend_flush jep
         else
           (let (b0, b1, sb) = job_get_submit_task_ids (ja jep) in
            do { xs \<leftarrow> id_loop b0 b1 sb; foldo (update_task m) xs (False, jep, []) }))
      else Some (False, jep, []))"

section \<open>Registering with the predecessors\<close>

definition PE_TASK_PAST_USAGE_CONTAINER :: string where "PE_TASK_PAST_USAGE_CONTAINER = ''past_usage''"

definition has_exited :: "job \<Rightarrow> bool" where
  "has_exited j \<longleftrightarrow>
     list_all (\<lambda>a. get_ids a j = None) [N_H, U_H, O_H, A_H, S_H] \<and>
     (\<forall>t \<in> set (tasks j). JAT_status t = JFINISHED \<and>
        (\<forall>p \<in> set (JAT_task_list t). PET_id p = PE_TASK_PAST_USAGE_CONTAINER \<or> PET_status p = JFINISHED))"

definition pre_list :: "bool \<Rightarrow> array_job \<Rightarrow> nat list" where
  "pre_list array_deps j = (if array_deps then JB_ja_ad_predecessor_list j else JB_jid_predecessor_list j)"

definition set_pre_list :: "bool \<Rightarrow> nat list \<Rightarrow> array_job \<Rightarrow> array_job" where
  "set_pre_list array_deps l j = (if array_deps then j\<lparr>JB_ja_ad_predecessor_list := l\<rparr> else j\<lparr>JB_jid_predecessor_list := l\<rparr>)"

definition add_successor :: "bool \<Rightarrow> nat \<Rightarrow> array_job \<Rightarrow> array_job" where
  "add_successor array_deps n j =
     (if array_deps then j\<lparr>JB_ja_ad_successor_list := JB_ja_ad_successor_list j @ [n]\<rparr>
      else j\<lparr>JB_jid_successor_list := JB_jid_successor_list j @ [n]\<rparr>)"

definition suc_pre_step :: "bool \<Rightarrow> nat \<Rightarrow> array_job \<times> array_job list \<Rightarrow> array_job \<times> array_job list" where
  "suc_pre_step array_deps pre_ident st =
     (let (jep, m) = st in
      case job_numbered pre_ident m of
        Some parent_jep \<Rightarrow>
          if \<not> has_exited (ja parent_jep) then (jep, put_job (add_successor array_deps (JB_job_number jep) parent_jep) m)
          else (set_pre_list array_deps (remove1 pre_ident (pre_list array_deps jep)) jep, m)
      | None \<Rightarrow> (set_pre_list array_deps (remove1 pre_ident (pre_list array_deps jep)) jep, m))"

definition job_suc_pre_doit :: "bool \<Rightarrow> array_job \<Rightarrow> array_job list \<Rightarrow> array_job \<times> array_job list" where
  "job_suc_pre_doit array_deps jep m = fold (suc_pre_step array_deps) (pre_list array_deps jep) (jep, m)"

definition job_suc_pre :: "array_job \<Rightarrow> array_job list \<Rightarrow> array_job \<times> array_job list" where
  "job_suc_pre jep m = job_suc_pre_doit False jep m"

definition job_suc_pre_ad :: "array_job \<Rightarrow> array_job list \<Rightarrow> array_job \<times> array_job list" where
  "job_suc_pre_ad jep m = job_suc_pre_doit True jep m"

section \<open>Verifying the requested predecessors\<close>

definition digit_value :: "char \<Rightarrow> nat" where "digit_value c = of_char c - 48"

definition isdigit :: "char \<Rightarrow> bool" where "isdigit c \<longleftrightarrow> 48 \<le> (of_char c :: nat) \<and> (of_char c :: nat) \<le> 57"

definition decimal :: "string \<Rightarrow> nat" where
  "decimal cs = foldl (\<lambda>n c. 10 * n + digit_value c) 0 (takeWhile isdigit cs)"

definition SGE_STRTOU_LONG32 :: "string \<Rightarrow> nat" where
  \<comment> \<open>\<^verbatim>\<open>unsigned long\<close> of 64 bits: too large a number gives the largest one\<close>
  "SGE_STRTOU_LONG32 cs = min (decimal cs) (2 ^ 64 - 1)"

definition atoi :: "string \<Rightarrow> nat" where
  \<comment> \<open>the result as it is stored in an unsigned field of 32 bits\<close>
  "atoi cs = min (decimal cs) (2 ^ 63 - 1) mod u32_mod"

definition string_base_cmp :: "matchers \<Rightarrow> Type \<Rightarrow> string \<Rightarrow> string \<Rightarrow> int option" where
  "string_base_cmp lib type s1 s2 = map_option fst (sge_eval_expression lib type (Some s1) (Some s2) None False False)"

definition jobs_matching :: "matchers \<Rightarrow> array_job list \<Rightarrow> array_job \<Rightarrow> string \<Rightarrow> nat list option" where
  \<comment> \<open>the jobs of the owner whose name matches\<close>
  "jobs_matching lib m job pre_ident =
     foldo (\<lambda>user_job nums.
       do { result \<leftarrow> string_base_cmp lib RESTR pre_ident (JB_job_name user_job);
            Some (if result = 0 \<and> JB_job_number user_job \<noteq> JB_job_number job then nums @ [JB_job_number user_job] else nums) })
       (filter (\<lambda>j. JB_owner j = JB_owner job) m) []"

fun resolve_predecessors :: "matchers \<Rightarrow> array_job list \<Rightarrow> array_job \<Rightarrow> string list \<Rightarrow> nat list \<Rightarrow> (nat + nat list) option" where
  \<comment> \<open>the loop over the requested predecessors, which both functions have\<close>
  "resolve_predecessors lib m job [] nums = Some (Inr nums)"
| "resolve_predecessors lib m job (pre_ident # req) nums =
     (if pre_ident \<noteq> [] \<and> isdigit (hd pre_ident) then
        (if CHR ''.'' \<in> set pre_ident then Some (Inl STATUS_EUNKNOWN)
         else if SGE_STRTOU_LONG32 pre_ident = JB_job_number job then Some (Inl STATUS_EUNKNOWN)
         else resolve_predecessors lib m job req (nums @ [atoi pre_ident]))
      else do { more \<leftarrow> jobs_matching lib m job pre_ident; resolve_predecessors lib m job req (nums @ more) })"

definition job_verify_predecessors :: "matchers \<Rightarrow> array_job list \<Rightarrow> array_job \<Rightarrow> (nat + array_job) option" where
  "job_verify_predecessors lib m job =
     do { r \<leftarrow> resolve_predecessors lib m job (JB_jid_request_list job) [];
          Some (case r of Inl e \<Rightarrow> Inl e | Inr nums \<Rightarrow> Inr (job\<lparr>JB_jid_predecessor_list := nums\<rparr>)) }"

fun predecessors_fit :: "array_job list \<Rightarrow> array_job \<Rightarrow> nat list \<Rightarrow> bool" where
  "predecessors_fit m job [] \<longleftrightarrow> True"
| "predecessors_fit m job (pre # ps) \<longleftrightarrow>
     (case job_numbered pre m of
        None \<Rightarrow> predecessors_fit m job ps
      | Some pred_job \<Rightarrow> job_is_array pred_job \<and> sge_task_depend_is_same_range pred_job job \<and> predecessors_fit m job ps)"

definition job_verify_predecessors_ad :: "matchers \<Rightarrow> array_job list \<Rightarrow> array_job \<Rightarrow> (nat + array_job \<times> event list) option" where
  "job_verify_predecessors_ad lib m job =
     (if JB_ja_ad_request_list job \<noteq> [] \<and> \<not> job_is_array job then Some (Inl STATUS_EUNKNOWN)
      else
        do { r \<leftarrow> resolve_predecessors lib m job (JB_ja_ad_request_list job) [];
             case r of
               Inl e \<Rightarrow> Some (Inl e)
             | Inr nums \<Rightarrow>
                 if nums = [] then
                   do { (_, job', evs) \<leftarrow> sge_task_depend_flush (job\<lparr>JB_ja_ad_predecessor_list := []\<rparr>); Some (Inr (job', evs)) }
                 else if \<not> predecessors_fit m job nums then Some (Inl STATUS_EUNKNOWN)
                 else
                   do { (_, job', evs) \<leftarrow> sge_task_depend_init m (job\<lparr>JB_ja_ad_predecessor_list := nums\<rparr>); Some (Inr (job', evs)) } })"

section \<open>When a task finishes\<close>

definition release_job :: "nat \<Rightarrow> nat \<Rightarrow> array_job list \<times> event list \<Rightarrow> array_job list \<times> event list" where
  \<comment> \<open>one successor; \<^verbatim>\<open>lDelSubUlong\<close> reports success also when there is nothing to delete\<close>
  "release_job job_ident jid st =
     (case job_numbered jid (fst st) of
        None \<Rightarrow> st
      | Some suc_jep \<Rightarrow>
          (put_job (suc_jep\<lparr>JB_jid_predecessor_list := remove1 job_ident (JB_jid_predecessor_list suc_jep)\<rparr>) (fst st),
           snd st @ [sgeE_JOB_MOD jid]))"

definition release_successor_jobs :: "array_job \<Rightarrow> array_job list \<times> event list \<Rightarrow> array_job list \<times> event list" where
  "release_successor_jobs jep st = fold (release_job (JB_job_number jep)) (JB_jid_successor_list jep) st"

definition release_job_ad :: "nat \<Rightarrow> nat \<Rightarrow> array_job list \<times> event list \<Rightarrow> (array_job list \<times> event list) option" where
  "release_job_ad job_ident jid st =
     (case job_numbered jid (fst st) of
        None \<Rightarrow> Some st
      | Some suc_jep \<Rightarrow>
          do { (_, suc_jep', es) \<leftarrow> sge_task_depend_flush
                 (suc_jep\<lparr>JB_ja_ad_predecessor_list := remove1 job_ident (JB_ja_ad_predecessor_list suc_jep)\<rparr>);
               Some (put_job suc_jep' (fst st), snd st @ es @ [sgeE_JOB_MOD jid]) })"

definition release_successor_jobs_ad :: "array_job \<Rightarrow> array_job list \<times> event list \<Rightarrow> (array_job list \<times> event list) option" where
  "release_successor_jobs_ad jep st = foldo (release_job_ad (JB_job_number jep)) (JB_ja_ad_successor_list jep) st"

definition update_in_list :: "nat \<Rightarrow> nat \<Rightarrow> bool \<times> array_job list \<times> event list \<Rightarrow> (bool \<times> array_job list \<times> event list) option" where
  "update_in_list jid i st =
     (let (md, m, evs) = st in
      do { suc_jep \<leftarrow> job_numbered jid m;
           (r, suc_jep', es) \<leftarrow> sge_task_depend_update m suc_jep i;
           Some (md \<or> r, put_job suc_jep' m, evs @ es) })"

definition release_tasks_of :: "array_job \<Rightarrow> nat \<Rightarrow> nat \<Rightarrow> array_job list \<times> event list \<Rightarrow> (array_job list \<times> event list) option" where
  "release_tasks_of jep task_id jid st =
     (case job_numbered jid (fst st) of
        None \<Rightarrow> Some st
      | Some suc_jep \<Rightarrow>
          do { r \<leftarrow> sge_task_depend_get_range None suc_jep jep task_id;
               case r of
                 Inl _ \<Rightarrow> Some st
               | Inr suc_range \<Rightarrow>
                   do { xs \<leftarrow> range_id_loop suc_range;
                        (md, m, evs) \<leftarrow> foldo (update_in_list jid) xs (False, st);
                        Some (m, if md then evs @ [sgeE_JOB_MOD jid] else evs) } })"

definition release_successor_tasks_ad :: "array_job \<Rightarrow> nat \<Rightarrow> array_job list \<times> event list \<Rightarrow> (array_job list \<times> event list) option" where
  "release_successor_tasks_ad jep task_id st = foldo (release_tasks_of jep task_id) (JB_ja_ad_successor_list jep) st"

definition sge_finish_ja_task :: "array_job \<Rightarrow> nat \<Rightarrow> array_job list \<times> event list \<Rightarrow> (bool \<times> array_job list \<times> event list) option" where
  \<comment> \<open>the boolean is \<^verbatim>\<open>job_done\<close>: the job gives up its place in the counts of its owner\<close>
  "sge_finish_ja_task job ja_task_id st =
     do { st1 \<leftarrow> release_successor_jobs_ad job st;
          st2 \<leftarrow> release_successor_tasks_ad job ja_task_id st1;
          n \<leftarrow> job_get_ja_tasks (ja job);
          k \<leftarrow> job_get_not_enrolled_ja_tasks (ja job);
          let job_done = (n = 1 \<or> k = 0 \<and> (\<forall>t \<in> set (tasks (ja job)). JAT_status t = JFINISHED)) in
          Some (job_done, if job_done then release_successor_jobs job st2 else st2) }"

definition sge_bury_ja_task :: "array_job \<Rightarrow> nat \<Rightarrow> array_job list \<times> event list \<Rightarrow> (array_job list \<times> event list) option" where
  "sge_bury_ja_task job ja_task_id st =
     (let (m, evs) = st in
      do { n \<leftarrow> job_get_ja_tasks (ja job);
           if n = 1 then
             Some (drop_first (\<lambda>j. JB_job_number j = JB_job_number job) m, evs @ [sgeE_JOB_DEL (JB_job_number job)])
           else
             do { e \<leftarrow> job_is_enrolled (ja job) ja_task_id;
                  j \<leftarrow> (if e then Some ((ja job)\<lparr>JB_ja_tasks :=
                                map_option (drop_first (\<lambda>t. JAT_task_number t = ja_task_id)) (JB_ja_tasks (ja job))\<rparr>)
                        else job_delete_not_enrolled_ja_task (ja job) ja_task_id);
                  Some (put_job (job\<lparr>ja := j\<rparr>) m, evs @ [sgeE_JATASK_DEL (JB_job_number job) ja_task_id]) } })"

definition set_task :: "nat \<Rightarrow> (ja_task \<Rightarrow> ja_task) \<Rightarrow> array_job \<Rightarrow> array_job" where
  "set_task i f j = j\<lparr>ja := (ja j)\<lparr>JB_ja_tasks := map_option (update_first (\<lambda>t. JAT_task_number t = i) f) (JB_ja_tasks (ja j))\<rparr>\<rparr>"

definition commit_finished :: "bool \<Rightarrow> nat \<Rightarrow> nat \<Rightarrow> array_job list \<Rightarrow> (array_job list \<times> event list) option" where
  \<comment> \<open>\<^verbatim>\<open>COMMIT_ST_FINISHED_FAILED_EE\<close>: what it does to the jobs; \<open>retention\<close> is whether finished jobs are kept\<close>
  "commit_finished retention number jataskid m =
     do { jep \<leftarrow> job_numbered number m;
          let jep1 = set_task jataskid (JAT_status_update (\<lambda>_. JFINISHED)) jep;
          st \<leftarrow> (if jataskid \<noteq> 0 then release_successor_tasks_ad jep1 jataskid (put_job jep1 m, []) else Some (put_job jep1 m, []));
          let jep2 = set_task jataskid (JAT_task_list_update (\<lambda>_. [])) jep1;
          (_, st2) \<leftarrow> sge_finish_ja_task jep2 jataskid (put_job jep2 (fst st), snd st);
          if retention then Some (fst st2, snd st2 @ [sgeE_JATASK_MOD number jataskid])
          else sge_bury_ja_task jep2 jataskid st2 }"

end
