(* ===== verification/TaskDepend_Correct.thy ===== *)
theory TaskDepend_Correct
  imports TaskDepend
begin

text \<open>
  What the dependency functions compute. A task of a job with step \<open>s\<close> covers \<open>s\<close> indices from its id on; a task depends on
  the tasks of a predecessor that cover an index that it covers itself. The hold state of a task is exact if it
  carries the dependency hold exactly while such a task is not finished.
\<close>

unbundle bit_operations_syntax

section \<open>Overlapping tasks\<close>

definition covers :: "array_job \<Rightarrow> nat \<Rightarrow> nat set" where
  "covers j x = (let (a0, a1, sa) = job_get_submit_task_ids (ja j) in {x..<x + sa})"

definition task_ids :: "array_job \<Rightarrow> nat set" where
  "task_ids j = (let (a0, a1, sa) = job_get_submit_task_ids (ja j) in ap a0 a1 sa)"

definition aligned :: "array_job \<Rightarrow> bool" where
  \<comment> \<open>the tasks cover the range of the submission without a rest\<close>
  "aligned j \<longleftrightarrow> (let (a0, a1, sa) = job_get_submit_task_ids (ja j) in a0 \<le> a1 \<and> a1 < id_limit \<and> sa dvd (a1 + 1 - a0))"

definition overlap :: "array_job \<Rightarrow> nat \<Rightarrow> array_job \<Rightarrow> nat \<Rightarrow> bool" where
  "overlap a x b i \<longleftrightarrow> covers a x \<inter> covers b i \<noteq> {}"

lemma overlap_sym: "overlap a x b i \<longleftrightarrow> overlap b i a x"
  by (auto simp: overlap_def)

lemma step_pos: "job_get_submit_task_ids j = (a0, a1, sa) \<Longrightarrow> 0 < sa"
  by (auto simp: job_get_submit_task_ids_def split: list.splits if_splits)

lemma nearest_index_in_A_exact:
  assumes "t0 \<le> i" "i < u32_mod" "0 < sa"
  shows "nearest_index_in_A i t0 sa = Some (t0 + (i - t0) div sa * sa)"
proof -
  have "(i - t0) div sa * sa \<le> i - t0" by (rule div_times_less_eq_dividend)
  then have "t0 + (i - t0) div sa * sa < u32_mod" using assms by linarith
  then show ?thesis using assms by (simp add: nearest_index_in_A_def u32_simps)
qed

lemma ap_iff: "x \<in> ap a b d \<longleftrightarrow> (\<exists>k. x = a + k * d) \<and> x \<le> b"
  unfolding ap_def by (auto simp: dvd_def mult.commute) (metis le_add_diff_inverse mult.commute)

lemma ap_of_blocks:
  assumes "0 < d" "0 < (n::nat)" "t \<le> i"
  shows "x \<in> ap (t + (i - t) div d * d) (t + (i + n - 1 - t) div d * d) d \<longleftrightarrow> (\<exists>k. x = t + k * d) \<and> x < i + n \<and> i < x + d"
    (is "?l \<longleftrightarrow> ?r")
proof -
  have below: "t + k * d \<le> t + (i + n - 1 - t) div d * d \<longleftrightarrow> t + k * d < i + n" for k
  proof -
    have "k \<le> (i + n - 1 - t) div d \<longleftrightarrow> k * d \<le> i + n - 1 - t" using assms(1) by (simp add: less_eq_div_iff_mult_less_eq)
    then show ?thesis using assms by auto
  qed
  have above: "(i - t) div d \<le> k \<longleftrightarrow> i < t + k * d + d" for k
  proof -
    have "(i - t) div d < Suc k \<longleftrightarrow> i - t < Suc k * d" using assms(1) by (simp only: div_less_iff_less_mult)
    then show ?thesis using assms by (auto simp: less_Suc_eq_le)
  qed
  show ?thesis
  proof
    assume ?l
    then obtain k where k: "x = t + ((i - t) div d + k) * d" "x \<le> t + (i + n - 1 - t) div d * d"
      by (auto simp: ap_iff algebra_simps)
    then have "x < i + n" "i < x + d" using below[of "(i - t) div d + k"] above[of "(i - t) div d + k"] by auto
    then show ?r using k(1) by blast
  next
    assume ?r
    then obtain k where k: "x = t + k * d" "x < i + n" "i < x + d" by blast
    then have "x = t + (i - t) div d * d + (k - (i - t) div d) * d"
      using above[of k] by (simp add: diff_mult_distrib)
    moreover have "x \<le> t + (i + n - 1 - t) div d * d" using below[of k] k by simp
    ultimately show ?l unfolding ap_iff by blast
  qed
qed

lemma intervals_meet: "0 < (m::nat) \<Longrightarrow> 0 < n \<Longrightarrow> {x..<x + m} \<inter> {i..<i + n} \<noteq> {} \<longleftrightarrow> x < i + n \<and> i < x + m"
  by (auto simp: ex_in_conv[symmetric] intro: exI[of _ "max x i"])

lemma last_block:
  assumes "i \<in> ap t b n" "t \<le> b" "n dvd (b + 1 - t)" "0 < n"
  shows "i + n \<le> b + 1"
proof -
  obtain k where k: "i = t + k * n" "i \<le> b" using assms(1) by (auto simp: ap_iff)
  obtain c where c: "b + 1 - t = c * n" using assms(3) by (metis dvd_def mult.commute)
  have "k * n < c * n" unfolding c[symmetric] using k assms(2) by linarith
  then have "Suc k * n \<le> c * n" by (metis Suc_leI mult_le_mono1 mult_less_cancel2)
  then have "k * n + n \<le> b + 1 - t" unfolding c by simp
  then show ?thesis using k assms(2) by linarith
qed

lemma task_depend_get_range_overlap:
  assumes same: "sge_task_depend_is_same_range a b" and al: "aligned a" "aligned b" and i: "i \<in> task_ids b"
  obtains r where "sge_task_depend_get_range rng a b i = Some (Inr r)" "wf_range r" "range_ids r = {x \<in> task_ids a. overlap a x b i}"
proof -
  obtain t a1 sa where a: "job_get_submit_task_ids (ja a) = (t, a1, sa)" by (metis prod_cases3)
  obtain sb where b: "job_get_submit_task_ids (ja b) = (t, a1, sb)"
    using same a unfolding sge_task_depend_is_same_range_def by (cases "job_get_submit_task_ids (ja b)") auto
  have pos: "0 < sa" "0 < sb" using step_pos a b by blast+
  have rng: "t \<le> a1" "a1 < id_limit" "sb dvd (a1 + 1 - t)" using al a b by (auto simp: aligned_def)
  have ib: "i \<in> ap t a1 sb" using i b by (simp add: task_ids_def)
  then have i: "t \<le> i" "i \<le> a1" "sb dvd (i - t)" by (auto simp: ap_def)
  have last: "i + sb \<le> a1 + 1" by (rule last_block[OF ib rng(1,3) pos(2)])
  then have wrap: "i + sb < u32_mod" using rng by simp
  define lo where "lo = t + (i - t) div sa * sa"
  define hi where "hi = t + (i + sb - 1 - t) div sa * sa"
  have "i - t \<le> i + sb - 1 - t" using pos by linarith
  then have lohi: "t \<le> lo" "lo \<le> hi" by (auto simp: lo_def hi_def dest: div_le_mono)
  have hi: "hi \<le> a1"
    unfolding hi_def using div_times_less_eq_dividend[of "i + sb - 1 - t" sa] last i(1) pos by linarith
  have "task_depend t sa sb i = Some (lo, hi)"
    using i wrap pos by (simp add: task_depend_def nearest_index_in_A_exact u32_simps lo_def hi_def)
  moreover have "sub32 i t mod sb = 0" using i wrap by (simp add: u32_simps)
  ultimately have r: "sge_task_depend_get_range rng a b i =
      Some (Inr (range_set_all_ids (case rng of None \<Rightarrow> lCreateElem_RN | Some r \<Rightarrow> r) lo hi sa))"
    using same lohi hi i a b by (simp add: sge_task_depend_get_range_def)
  have "hi - lo = ((i + sb - 1 - t) div sa - (i - t) div sa) * sa"
    by (simp add: lo_def hi_def diff_mult_distrib)
  then have "sa dvd (hi - lo)" by simp
  then have wf: "wf_range (range_set_all_ids q lo hi sa)" for q
    using lohi hi rng pos by (simp add: wf_range_set)
  have "x \<in> ap lo hi sa \<longleftrightarrow> x \<in> task_ids a \<and> overlap a x b i" for x
    unfolding lo_def hi_def ap_of_blocks[OF pos i(1)]
    using a b last pos by (auto simp: task_ids_def overlap_def covers_def ap_iff intervals_meet)
  then have "range_ids (range_set_all_ids q lo hi sa) = {x \<in> task_ids a. overlap a x b i}" for q by auto
  then show ?thesis using that[OF r wf] by blast
qed

section \<open>Finished tasks and dependencies\<close>

definition finished :: "array_job \<Rightarrow> nat \<Rightarrow> bool" where
  "finished j i \<longleftrightarrow> i \<notin> unenrolled (ja j) \<and> (\<forall>t. job_search_task (ja j) i = Some t \<longrightarrow> JAT_status t = JFINISHED)"

definition ad_job :: "array_job \<Rightarrow> bool" where
  \<comment> \<open>a consistent job whose finished tasks have no parallel tasks left\<close>
  "ad_job j \<longleftrightarrow> job_inv (ja j) \<and> aligned j \<and> (\<forall>t \<in> set (tasks (ja j)). JAT_status t = JFINISHED \<longrightarrow> JAT_task_list t = [])"

definition waits_for :: "array_job list \<Rightarrow> array_job \<Rightarrow> nat \<Rightarrow> nat list \<Rightarrow> bool" where
  "waits_for m j i ps \<longleftrightarrow>
     (\<exists>p \<in> set ps. \<exists>a. job_numbered p m = Some a \<and> (\<exists>x \<in> task_ids a. overlap a x j i \<and> \<not> finished a x))"

lemma job_search_task_mem: "job_search_task j i = Some t \<Longrightarrow> t \<in> set (tasks j) \<and> JAT_task_number t = i"
  by (auto simp: job_search_task_def dest: find_SomeD)

lemma task_depend_is_finished_correct:
  assumes "ad_job j"
  shows "task_depend_is_finished j i = Some (finished j i)"
proof -
  have "wf_job (ja j)" using assms by (simp add: ad_job_def job_inv_def)
  moreover have "JAT_task_list t = []" if "job_search_task (ja j) i = Some t" "JAT_status t = JFINISHED" for t
    using assms that job_search_task_mem by (auto simp: ad_job_def)
  ultimately show ?thesis
    by (auto simp: task_depend_is_finished_def job_is_enrolled_correct finished_def split: option.splits)
qed

lemma unfinished_in_correct:
  assumes "ad_job a" "wf_range r"
  shows "unfinished_in a r = Some (\<exists>x \<in> range_ids r. \<not> finished a x)"
proof -
  obtain xs where xs: "range_id_loop r = Some xs" "set xs = range_ids r" using range_id_loop_correct[OF assms(2)] .
  have "foldo (\<lambda>i d. do { f \<leftarrow> task_depend_is_finished a i; Some (if \<not> f then True else d) }) ys d
      = Some (d \<or> (\<exists>x \<in> set ys. \<not> finished a x))" for ys d
    by (induction ys arbitrary: d) (auto simp: task_depend_is_finished_correct[OF assms(1)])
  then show ?thesis using xs by (simp add: unfinished_in_def)
qed

definition fits :: "array_job list \<Rightarrow> array_job \<Rightarrow> nat list \<Rightarrow> bool" where
  \<comment> \<open>the jobs with these numbers can be predecessors\<close>
  "fits m j ps \<longleftrightarrow> (\<forall>p \<in> set ps. \<forall>a. job_numbered p m = Some a \<longrightarrow> ad_job a \<and> sge_task_depend_is_same_range a j)"

lemma depends_correct:
  assumes "fits m j ps" "aligned j" "i \<in> task_ids j"
  shows "depends m j i ps = Some (waits_for m j i ps)"
  using assms(1)
proof (induction ps)
  case Nil
  then show ?case by (simp add: waits_for_def)
next
  case (Cons p ps)
  have tl: "fits m j ps" using Cons.prems by (simp add: fits_def)
  show ?case
  proof (cases "job_numbered p m")
    case None
    then show ?thesis using Cons.IH[OF tl] by (simp add: waits_for_def)
  next
    case (Some a)
    then have a: "ad_job a" "sge_task_depend_is_same_range a j" using Cons.prems by (auto simp: fits_def)
    then obtain r where r: "sge_task_depend_get_range None a j i = Some (Inr r)" "wf_range r"
        "range_ids r = {x \<in> task_ids a. overlap a x j i}"
      using task_depend_get_range_overlap[of a j i None] assms(2,3) by (auto simp: ad_job_def)
    show ?thesis using Cons.IH[OF tl] Some r unfinished_in_correct[OF a(1) r(2)] by (auto simp: waits_for_def)
  qed
qed

section \<open>Setting one hold\<close>

text \<open>What a dependency sees of a task, and what setting a hold leaves alone.\<close>

definition task_view :: "job \<Rightarrow> (nat \<times> flags \<times> pe_task list) list" where
  "task_view j = map (\<lambda>t. (JAT_task_number t, JAT_status t, JAT_task_list t)) (tasks j)"

definition keeps :: "array_job \<Rightarrow> array_job \<Rightarrow> bool" where
  "keeps j j' \<longleftrightarrow> j' = j\<lparr>ja := ja j'\<rparr> \<and> (job_inv (ja j) \<longrightarrow> job_inv (ja j')) \<and> unenrolled (ja j') = unenrolled (ja j) \<and>
     JB_ja_structure (ja j') = JB_ja_structure (ja j) \<and> task_view (ja j') = task_view (ja j)"

lemma keeps_refl: "keeps j j"
  by (simp add: keeps_def)

lemma keeps_trans:
  assumes "keeps j k" "keeps k l"
  shows "keeps j l"
proof -
  have "k = j\<lparr>ja := ja k\<rparr>" "l = k\<lparr>ja := ja l\<rparr>" using assms by (simp_all add: keeps_def)
  then have "l = (j\<lparr>ja := ja k\<rparr>)\<lparr>ja := ja l\<rparr>" by metis
  then have "l = j\<lparr>ja := ja l\<rparr>" by simp
  then show ?thesis using assms by (simp add: keeps_def)
qed

lemma search_view:
  "map_option (\<lambda>t. (JAT_task_number t, JAT_status t, JAT_task_list t)) (job_search_task j i) = find (\<lambda>v. fst v = i) (task_view j)"
  unfolding job_search_task_def task_view_def by (rule find_map_eq) simp

lemma finished_view:
  "finished j i \<longleftrightarrow> i \<notin> unenrolled (ja j) \<and> (\<forall>v. find (\<lambda>v. fst v = i) (task_view (ja j)) = Some v \<longrightarrow> fst (snd v) = JFINISHED)"
  unfolding finished_def search_view[symmetric] by (cases "job_search_task (ja j) i") auto

lemma keeps_view:
  assumes "keeps j j'"
  shows "finished j' = finished j" "covers j' = covers j" "task_ids j' = task_ids j" "aligned j' = aligned j"
    "overlap j' x b i = overlap j x b i" "overlap b i j' x = overlap b i j x"
    "sge_task_depend_is_same_range j' b = sge_task_depend_is_same_range j b"
    "sge_task_depend_is_same_range b j' = sge_task_depend_is_same_range b j"
    "ad_job j \<Longrightarrow> ad_job j'" "JB_job_number j' = JB_job_number j"
    "JB_ja_ad_predecessor_list j' = JB_ja_ad_predecessor_list j" "JB_ja_ad_successor_list j' = JB_ja_ad_successor_list j"
proof -
  have j': "j' = j\<lparr>ja := ja j'\<rparr>" and inv: "job_inv (ja j) \<Longrightarrow> job_inv (ja j')"
    and un: "unenrolled (ja j') = unenrolled (ja j)" and str: "JB_ja_structure (ja j') = JB_ja_structure (ja j)"
    and view: "task_view (ja j') = task_view (ja j)"
    using assms by (simp_all add: keeps_def)
  have ids: "job_get_submit_task_ids (ja j') = job_get_submit_task_ids (ja j)"
    using str by (simp add: job_get_submit_task_ids_def)
  show "finished j' = finished j" using un view by (simp add: fun_eq_iff finished_view)
  show c: "covers j' = covers j" "task_ids j' = task_ids j" "aligned j' = aligned j"
    by (simp_all add: fun_eq_iff covers_def task_ids_def aligned_def ids)
  then show "overlap j' x b i = overlap j x b i" "overlap b i j' x = overlap b i j x" by (simp_all add: overlap_def)
  show jn: "JB_job_number j' = JB_job_number j"
    "JB_ja_ad_predecessor_list j' = JB_ja_ad_predecessor_list j" "JB_ja_ad_successor_list j' = JB_ja_ad_successor_list j"
    by (subst j', simp)+
  have "JB_type j' = JB_type j" by (subst j') simp
  then show "sge_task_depend_is_same_range j' b = sge_task_depend_is_same_range j b"
      "sge_task_depend_is_same_range b j' = sge_task_depend_is_same_range b j"
    by (simp_all add: sge_task_depend_is_same_range_def job_is_array_def ids)
  have all: "(\<forall>t \<in> set (tasks k). JAT_status t = JFINISHED \<longrightarrow> JAT_task_list t = []) \<longleftrightarrow>
      (\<forall>v \<in> set (task_view k). fst (snd v) = JFINISHED \<longrightarrow> snd (snd v) = [])" for k
    by (auto simp: task_view_def)
  show "ad_job j \<Longrightarrow> ad_job j'" using inv c view by (simp add: ad_job_def all)
qed

lemma find_update_first_other:
  "(\<And>x. P x \<Longrightarrow> Q x \<Longrightarrow> False) \<Longrightarrow> (\<And>x. P x \<Longrightarrow> \<not> Q (f x)) \<Longrightarrow> find Q (update_first P f xs) = find Q xs"
  by (induction xs) auto

lemma hold_state_total: "wf_job j \<Longrightarrow> \<exists>h. job_get_hold_state j i = Some h \<and> h AND MINUS_H_TGT_ALL = h"
proof -
  assume wf: "wf_job j"
  have "hold_of j i AND 15 = hold_of j i"
    by (auto simp: hold_of_def bit.conj_disj_distrib2)
  then show ?thesis using wf
    by (auto simp: job_get_hold_state_def job_is_enrolled_correct job_accumulate_hold_flags_correct hold_masks and.assoc split: option.splits)
qed

lemma set_hold:
  assumes inv: "job_inv j" and i: "i \<in> unenrolled j \<or> job_search_task j i \<noteq> None"
  obtains j' where "job_set_hold_state j i h = Some j'" "job_inv j'" "unenrolled j' = unenrolled j"
    "JB_ja_structure j' = JB_ja_structure j" "task_view j' = task_view j" "job_get_hold_state j' i = Some (h AND MINUS_H_TGT_ALL)"
    "\<forall>k. k \<noteq> i \<longrightarrow> job_get_hold_state j' k = job_get_hold_state j k"
proof (cases "i \<in> unenrolled j")
  case True
  have wf: "wf_job j" using inv by (simp add: job_inv_def)
  obtain j' where j': "job_set_hold_state j i h = Some j'" "lists_set UNIV h i j j'"
    using job_set_hold_state_pending[OF wf True] .
  note p = job_set_hold_state_inv[OF inv True j'(1)]
  have "JB_ja_structure j' = JB_ja_structure j" using j'(2) by (simp add: lists_set_def same_rest_def)
  then show ?thesis using that[OF j'(1) p(1,2)] p(3,4,5) by (simp add: task_view_def hold_masks)
next
  case False
  then obtain t where t: "job_search_task j i = Some t" using i by auto
  obtain j' where j': "job_set_hold_state j i h = Some j'" "job_inv j'" "unenrolled j' = unenrolled j"
      "job_get_hold_state j' i = Some (h AND 15)"
    using job_set_hold_state_enrolled[OF inv t] by metis
  have wf: "wf_job j" "wf_job j'" using inv j'(2) by (simp_all add: job_inv_def)
  have eq: "j' = j\<lparr>JB_ja_tasks := map_option (update_first (\<lambda>t. JAT_task_number t = i) (set_task_hold h)) (JB_ja_tasks j)\<rparr>"
    using j'(1) False wf(1) by (simp add: job_set_hold_state_def job_is_enrolled_correct)
  have ts: "tasks j' = update_first (\<lambda>t. JAT_task_number t = i) (set_task_hold h) (tasks j)"
    unfolding eq tasks_def by (cases "JB_ja_tasks j") simp_all
  have view: "task_view j' = task_view j"
    unfolding task_view_def ts by (rule map_update_first) (simp add: set_task_hold_def)
  have "job_search_task j' k = job_search_task j k" if "k \<noteq> i" for k
    unfolding job_search_task_def ts using that by (intro find_update_first_other) auto
  moreover have "hold_of j' k = hold_of j k" for k unfolding eq by (simp add: hold_of_def)
  ultimately have "job_get_hold_state j' k = job_get_hold_state j k" if "k \<noteq> i" for k
    using that wf j'(3) by (simp add: job_get_hold_state_def job_is_enrolled_correct job_accumulate_hold_flags_correct)
  moreover have "JB_ja_structure j' = JB_ja_structure j" unfolding eq by simp
  ultimately show ?thesis using that[OF j'(1-3)] view j'(4) by (simp add: hold_masks)
qed

section \<open>Updating one task\<close>

definition ad_held :: "array_job \<Rightarrow> nat \<Rightarrow> bool" where
  "ad_held j i \<longleftrightarrow> the (job_get_hold_state (ja j) i) AND MINUS_H_TGT_JA_AD \<noteq> 0"

definition other_holds :: "array_job \<Rightarrow> nat \<Rightarrow> flags" where
  "other_holds j i = the (job_get_hold_state (ja j) i) AND NOT MINUS_H_TGT_JA_AD"

lemma ad_bit:
  fixes h :: flags
  shows "(h OR MINUS_H_TGT_JA_AD) AND MINUS_H_TGT_JA_AD \<noteq> 0" "(h AND NOT MINUS_H_TGT_JA_AD) AND MINUS_H_TGT_JA_AD = 0"
    "(h OR MINUS_H_TGT_JA_AD) AND NOT MINUS_H_TGT_JA_AD = h AND NOT MINUS_H_TGT_JA_AD"
    "(h AND NOT MINUS_H_TGT_JA_AD) AND NOT MINUS_H_TGT_JA_AD = h AND NOT MINUS_H_TGT_JA_AD"
    "h AND MINUS_H_TGT_ALL = h \<Longrightarrow> (h OR MINUS_H_TGT_JA_AD) AND MINUS_H_TGT_ALL = h OR MINUS_H_TGT_JA_AD"
    "h AND MINUS_H_TGT_ALL = h \<Longrightarrow> (h AND NOT MINUS_H_TGT_JA_AD) AND MINUS_H_TGT_ALL = h AND NOT MINUS_H_TGT_JA_AD"
proof -
  have "(h OR MINUS_H_TGT_JA_AD) AND MINUS_H_TGT_JA_AD = MINUS_H_TGT_JA_AD" by (rule bit_word_eqI) (auto simp: bit_simps)
  then show "(h OR MINUS_H_TGT_JA_AD) AND MINUS_H_TGT_JA_AD \<noteq> 0" by (simp add: MINUS_H_TGT_JA_AD_def)
  show "(h AND NOT MINUS_H_TGT_JA_AD) AND MINUS_H_TGT_JA_AD = 0" by (rule bit_word_eqI) (auto simp: bit_simps)
  show "(h OR MINUS_H_TGT_JA_AD) AND NOT MINUS_H_TGT_JA_AD = h AND NOT MINUS_H_TGT_JA_AD" by (rule bit_word_eqI) (auto simp: bit_simps)
  show "(h AND NOT MINUS_H_TGT_JA_AD) AND NOT MINUS_H_TGT_JA_AD = h AND NOT MINUS_H_TGT_JA_AD" by (rule bit_word_eqI) (auto simp: bit_simps)
  have all: "MINUS_H_TGT_JA_AD AND MINUS_H_TGT_ALL = MINUS_H_TGT_JA_AD" by (simp add: hold_masks)
  show "(h OR MINUS_H_TGT_JA_AD) AND MINUS_H_TGT_ALL = h OR MINUS_H_TGT_JA_AD" if "h AND MINUS_H_TGT_ALL = h"
    using that all by (simp add: bit.conj_disj_distrib2)
  show "(h AND NOT MINUS_H_TGT_JA_AD) AND MINUS_H_TGT_ALL = h AND NOT MINUS_H_TGT_JA_AD" if "h AND MINUS_H_TGT_ALL = h"
    using that by (metis and.assoc and.commute)
qed

text \<open>Only the dependency hold of one task may differ.\<close>

definition only_at :: "nat set \<Rightarrow> array_job \<Rightarrow> array_job \<Rightarrow> bool" where
  "only_at ks j j' \<longleftrightarrow> keeps j j' \<and> (\<forall>k. other_holds j' k = other_holds j k) \<and> (\<forall>k. k \<notin> ks \<longrightarrow> ad_held j' k = ad_held j k)"

lemma only_at_keeps: "only_at ks j j' \<Longrightarrow> keeps j j'"
  by (simp add: only_at_def)

lemma only_at_refl: "only_at ks j j"
  by (simp add: only_at_def keeps_refl)

lemma only_at_trans: "only_at ks j k \<Longrightarrow> only_at ls k l \<Longrightarrow> only_at (ks \<union> ls) j l"
  by (auto simp: only_at_def intro: keeps_trans)

lemma set_ad_hold:
  assumes inv: "job_inv (ja j)" and i: "i \<in> unenrolled (ja j) \<or> job_search_task (ja j) i \<noteq> None"
    and h: "job_get_hold_state (ja j) i = Some h" and new: "new = h OR MINUS_H_TGT_JA_AD \<or> new = h AND NOT MINUS_H_TGT_JA_AD"
  obtains k where "job_set_hold_state (ja j) i new = Some k" "only_at {i} j (j\<lparr>ja := k\<rparr>)" "job_inv k"
    "ad_held (j\<lparr>ja := k\<rparr>) i \<longleftrightarrow> new AND MINUS_H_TGT_JA_AD \<noteq> 0"
proof -
  obtain k where k: "job_set_hold_state (ja j) i new = Some k" "job_inv k" "unenrolled k = unenrolled (ja j)"
    "JB_ja_structure k = JB_ja_structure (ja j)" "task_view k = task_view (ja j)" "job_get_hold_state k i = Some (new AND MINUS_H_TGT_ALL)"
    "\<forall>n. n \<noteq> i \<longrightarrow> job_get_hold_state k n = job_get_hold_state (ja j) n"
    using set_hold[OF inv i, of new] .
  have "h AND MINUS_H_TGT_ALL = h"
    using hold_state_total[of "ja j" i] inv h by (auto simp: job_inv_def)
  then have new15: "new AND MINUS_H_TGT_ALL = new" using new ad_bit(5,6) by blast
  have keep: "keeps j (j\<lparr>ja := k\<rparr>)" using inv k by (simp add: keeps_def)
  have "other_holds (j\<lparr>ja := k\<rparr>) n = other_holds j n" for n
    using k(6,7) new15 h new ad_bit(3,4) by (cases "n = i") (auto simp: other_holds_def)
  moreover have "ad_held (j\<lparr>ja := k\<rparr>) n = ad_held j n" if "n \<noteq> i" for n
    using k(7) that by (simp add: ad_held_def)
  ultimately have "only_at {i} j (j\<lparr>ja := k\<rparr>)" using keep by (simp add: only_at_def)
  moreover have "ad_held (j\<lparr>ja := k\<rparr>) i \<longleftrightarrow> new AND MINUS_H_TGT_JA_AD \<noteq> 0" using k(6) new15 by (simp add: ad_held_def)
  ultimately show ?thesis using that[OF k(1) _ k(2)] by blast
qed

lemma depend_update_correct:
  assumes j: "ad_job j" and ps: "fits m j (JB_ja_ad_predecessor_list j)" and i: "i \<in> task_ids j"
  obtains md j' es where "sge_task_depend_update m j i = Some (md, j', es)" "only_at {i} j j'"
    "\<not> finished j i \<Longrightarrow> ad_held j' i \<longleftrightarrow> waits_for m j i (JB_ja_ad_predecessor_list j)"
proof (cases "finished j i")
  case True
  then have "sge_task_depend_update m j i = Some (False, j, [])"
    using task_depend_is_finished_correct[OF j] by (simp add: sge_task_depend_update_def)
  then show ?thesis using that only_at_refl True by blast
next
  case False
  have inv: "job_inv (ja j)" "wf_job (ja j)" using j by (simp_all add: ad_job_def job_inv_def)
  define d where "d = waits_for m j i (JB_ja_ad_predecessor_list j)"
  have d: "depends m j i (JB_ja_ad_predecessor_list j) = Some d"
    unfolding d_def using depends_correct[OF ps _ i] j by (simp add: ad_job_def)
  obtain h where h: "job_get_hold_state (ja j) i = Some h" using hold_state_total[OF inv(2)] by blast
  define new where "new = (if d then h OR MINUS_H_TGT_JA_AD else h AND NOT MINUS_H_TGT_JA_AD)"
  have nw: "new = h OR MINUS_H_TGT_JA_AD \<or> new = h AND NOT MINUS_H_TGT_JA_AD" by (simp add: new_def)
  have bit: "new AND MINUS_H_TGT_JA_AD \<noteq> 0 \<longleftrightarrow> d" using ad_bit(1,2) by (simp add: new_def)
  show ?thesis
  proof (cases "new = h")
    case True
    then have "sge_task_depend_update m j i = Some (False, j, [])"
      using task_depend_is_finished_correct[OF j] False d h by (simp add: sge_task_depend_update_def new_def Let_def)
    moreover have "ad_held j i \<longleftrightarrow> d" using h True bit by (simp add: ad_held_def)
    ultimately show ?thesis using that only_at_refl d_def by blast
  next
    case neq: False
    have found: "i \<in> unenrolled (ja j) \<or> job_search_task (ja j) i \<noteq> None"
      using False unfolding finished_def by auto
    obtain k where k: "job_set_hold_state (ja j) i new = Some k" "only_at {i} j (j\<lparr>ja := k\<rparr>)" "job_inv k"
        "ad_held (j\<lparr>ja := k\<rparr>) i \<longleftrightarrow> new AND MINUS_H_TGT_JA_AD \<noteq> 0"
      using set_ad_hold[OF inv(1) found h nw] .
    have e: "job_is_enrolled k i = Some (i \<notin> unenrolled k)" using k(3) by (simp add: job_is_enrolled_correct job_inv_def)
    have "\<exists>md es. sge_task_depend_update m j i = Some (md, j\<lparr>ja := k\<rparr>, es)"
      unfolding sge_task_depend_update_def task_depend_is_finished_correct[OF j] d h
      using False neq k(1) e by (auto simp: new_def Let_def split: option.splits)
    then show ?thesis using that[OF _ k(2)] k(4) bit d_def by blast
  qed
qed

section \<open>The master list\<close>

lemma job_numbered_number: "job_numbered n m = Some j \<Longrightarrow> JB_job_number j = n"
  by (auto simp: job_numbered_def dest: find_SomeD)

lemma job_numbered_put:
  "job_numbered n (put_job j m) = (if n = JB_job_number j then map_option (\<lambda>_. j) (job_numbered n m) else job_numbered n m)"
  unfolding job_numbered_def put_job_def by (induction m) auto

definition jobs_only_at :: "(nat \<Rightarrow> nat set) \<Rightarrow> array_job list \<Rightarrow> array_job list \<Rightarrow> bool" where
  \<comment> \<open>in the job with number \<open>n\<close> only the dependency holds of tasks in \<open>ks n\<close> may differ\<close>
  "jobs_only_at ks m m' \<longleftrightarrow> (\<forall>n. rel_option (only_at (ks n)) (job_numbered n m) (job_numbered n m'))"

lemma jobs_only_atD:
  assumes "jobs_only_at ks m m'"
  shows "job_numbered n m = Some j \<Longrightarrow> \<exists>j'. job_numbered n m' = Some j' \<and> only_at (ks n) j j'"
    "job_numbered n m' = Some j' \<Longrightarrow> \<exists>j. job_numbered n m = Some j \<and> only_at (ks n) j j'"
    "job_numbered n m = None \<Longrightarrow> job_numbered n m' = None"
proof -
  have "rel_option (only_at (ks n)) (job_numbered n m) (job_numbered n m')" using assms by (simp add: jobs_only_at_def)
  then show "job_numbered n m = Some j \<Longrightarrow> \<exists>j'. job_numbered n m' = Some j' \<and> only_at (ks n) j j'"
    "job_numbered n m' = Some j' \<Longrightarrow> \<exists>j. job_numbered n m = Some j \<and> only_at (ks n) j j'"
    "job_numbered n m = None \<Longrightarrow> job_numbered n m' = None"
    by (auto simp: option_rel_Some1 option_rel_Some2)
qed

lemma jobs_only_at_refl: "jobs_only_at ks m m"
  by (simp add: jobs_only_at_def option.rel_refl only_at_refl)

lemma jobs_only_at_trans:
  assumes "jobs_only_at ks m m1" "jobs_only_at ls m1 m2"
  shows "jobs_only_at (\<lambda>n. ks n \<union> ls n) m m2"
  unfolding jobs_only_at_def
proof
  fix n
  have "rel_option (only_at (ks n)) (job_numbered n m) (job_numbered n m1)" "rel_option (only_at (ls n)) (job_numbered n m1) (job_numbered n m2)"
    using assms by (simp_all add: jobs_only_at_def)
  then show "rel_option (only_at (ks n \<union> ls n)) (job_numbered n m) (job_numbered n m2)"
    by (cases "job_numbered n m"; cases "job_numbered n m1"; cases "job_numbered n m2") (auto intro: only_at_trans)
qed

lemma jobs_only_at_put:
  assumes "job_numbered n m = Some j" "only_at ks j j'"
  shows "jobs_only_at (\<lambda>k. if k = n then ks else {}) m (put_job j' m)"
proof -
  have "JB_job_number j' = n" using assms keeps_view(10) job_numbered_number by (auto simp: only_at_def)
  then show ?thesis using assms by (auto simp: jobs_only_at_def job_numbered_put option.rel_refl only_at_refl)
qed

lemma waits_for_only_at:
  assumes "jobs_only_at ks m m'" "keeps j j'"
  shows "waits_for m' j' i ps = waits_for m j i ps"
proof -
  have "(\<exists>a. job_numbered p m' = Some a \<and> (\<exists>x \<in> task_ids a. overlap a x j' i \<and> \<not> finished a x)) \<longleftrightarrow>
        (\<exists>a. job_numbered p m = Some a \<and> (\<exists>x \<in> task_ids a. overlap a x j i \<and> \<not> finished a x))" for p
  proof (cases "job_numbered p m")
    case None
    then show ?thesis using jobs_only_atD(3)[OF assms(1)] by simp
  next
    case (Some a)
    then obtain a' where "job_numbered p m' = Some a'" "keeps a a'" using jobs_only_atD(1)[OF assms(1)] only_at_keeps by blast
    then show ?thesis using Some keeps_view[OF assms(2)] keeps_view[of a a'] by simp
  qed
  then show ?thesis by (simp add: waits_for_def)
qed

definition wf_jobs :: "array_job list \<Rightarrow> bool" where
  "wf_jobs m \<longleftrightarrow> (\<forall>n j. job_numbered n m = Some j \<longrightarrow> ad_job j \<and> fits m j (JB_ja_ad_predecessor_list j))"

lemma wf_jobs_only_at:
  assumes "jobs_only_at ks m m'" "wf_jobs m"
  shows "wf_jobs m'"
  unfolding wf_jobs_def
proof (intro allI impI)
  fix n j' assume "job_numbered n m' = Some j'"
  then obtain j where j: "job_numbered n m = Some j" "keeps j j'" using jobs_only_atD(2)[OF assms(1)] only_at_keeps by blast
  then have wf: "ad_job j" "fits m j (JB_ja_ad_predecessor_list j)" using assms(2) by (auto simp: wf_jobs_def)
  have "fits m' j' (JB_ja_ad_predecessor_list j')"
    unfolding fits_def
  proof (intro ballI allI impI)
    fix p a' assume p: "p \<in> set (JB_ja_ad_predecessor_list j')" "job_numbered p m' = Some a'"
    then obtain a where a: "job_numbered p m = Some a" "keeps a a'" using jobs_only_atD(2)[OF assms(1)] only_at_keeps by blast
    have "ad_job a" "sge_task_depend_is_same_range a j" using wf(2) p(1) a(1) keeps_view(11)[OF j(2)] by (auto simp: fits_def)
    then show "ad_job a' \<and> sge_task_depend_is_same_range a' j'" using keeps_view[OF a(2)] keeps_view[OF j(2)] by simp
  qed
  then show "ad_job j' \<and> fits m' j' (JB_ja_ad_predecessor_list j')" using keeps_view(9)[OF j(2) wf(1)] by simp
qed

section \<open>Releasing the tasks of the successors\<close>

definition settled :: "array_job list \<Rightarrow> array_job \<Rightarrow> nat set \<Rightarrow> bool" where
  \<comment> \<open>the unfinished tasks in the set are held exactly while they wait\<close>
  "settled m j ks \<longleftrightarrow> (\<forall>i \<in> task_ids j \<inter> ks. \<not> finished j i \<longrightarrow> (ad_held j i \<longleftrightarrow> waits_for m j i (JB_ja_ad_predecessor_list j)))"

lemma settled_Un: "settled m j (ks \<union> ls) \<longleftrightarrow> settled m j ks \<and> settled m j ls"
  by (auto simp: settled_def)

lemma settled_only_at:
  assumes "jobs_only_at ls m m'" "only_at ks' j j'" "settled m j ks" "ks \<inter> ks' = {}"
  shows "settled m' j' ks"
  unfolding settled_def
proof (intro ballI impI)
  fix i assume i: "i \<in> task_ids j' \<inter> ks" "\<not> finished j' i"
  have k: "keeps j j'" using assms(2) by (simp add: only_at_def)
  have "ad_held j' i = ad_held j i" using assms(2,4) i(1) by (auto simp: only_at_def)
  then show "ad_held j' i \<longleftrightarrow> waits_for m' j' i (JB_ja_ad_predecessor_list j')"
    using waits_for_only_at[OF assms(1) k] keeps_view[OF k] i assms(3) by (auto simp: settled_def)
qed

lemma update_in_list_correct:
  assumes wf: "wf_jobs m" and b: "job_numbered jid m = Some b" and i: "i \<in> task_ids b"
  obtains md' m' evs' b' where "update_in_list jid i (md, m, evs) = Some (md', m', evs')"
    "jobs_only_at (\<lambda>n. if n = jid then {i} else {}) m m'" "job_numbered jid m' = Some b'" "only_at {i} b b'" "settled m' b' {i}"
proof -
  have "ad_job b" "fits m b (JB_ja_ad_predecessor_list b)" using wf b by (auto simp: wf_jobs_def)
  then obtain r b' es where u: "sge_task_depend_update m b i = Some (r, b', es)" "only_at {i} b b'"
      "\<not> finished b i \<Longrightarrow> ad_held b' i \<longleftrightarrow> waits_for m b i (JB_ja_ad_predecessor_list b)"
    using depend_update_correct[OF _ _ i] by metis
  have put: "jobs_only_at (\<lambda>n. if n = jid then {i} else {}) m (put_job b' m)" by (rule jobs_only_at_put[OF b u(2)])
  have k: "keeps b b'" using u(2) by (simp add: only_at_def)
  have b': "job_numbered jid (put_job b' m) = Some b'"
    using b keeps_view(10)[OF k] job_numbered_number[OF b] by (simp add: job_numbered_put)
  have "settled (put_job b' m) b' {i}"
    using u(3) waits_for_only_at[OF put k] keeps_view[OF k] by (auto simp: settled_def)
  then show ?thesis using that[of "md \<or> r" "put_job b' m" "evs @ es" b'] u(1,2) put b b' by (simp add: update_in_list_def)
qed

lemma update_loop_correct:
  assumes wf: "wf_jobs m" and b: "job_numbered jid m = Some b" and xs: "set xs \<subseteq> task_ids b"
  obtains md' m' evs' b' where "foldo (update_in_list jid) xs (md, m, evs) = Some (md', m', evs')"
    "jobs_only_at (\<lambda>n. if n = jid then set xs else {}) m m'" "job_numbered jid m' = Some b'" "only_at (set xs) b b'" "settled m' b' (set xs)"
proof -
  define I where "I prev st \<longleftrightarrow> (\<exists>b'. jobs_only_at (\<lambda>n. if n = jid then set prev else {}) m (fst (snd st)) \<and>
    job_numbered jid (fst (snd st)) = Some b' \<and> only_at (set prev) b b' \<and> settled (fst (snd st)) b' (set prev))"
    for prev and st :: "bool \<times> array_job list \<times> event list"
  have "\<exists>st'. foldo (update_in_list jid) xs (md, m, evs) = Some st' \<and> I xs st'"
  proof (rule foldo_invariant)
    show "I [] (md, m, evs)" using b jobs_only_at_refl only_at_refl by (auto simp: I_def settled_def)
  next
    fix prev i and st :: "bool \<times> array_job list \<times> event list"
    assume i: "i \<in> set xs" and "I prev st"
    then obtain b1 where I: "jobs_only_at (\<lambda>n. if n = jid then set prev else {}) m (fst (snd st))"
        "job_numbered jid (fst (snd st)) = Some b1" "only_at (set prev) b b1" "settled (fst (snd st)) b1 (set prev)"
      by (auto simp: I_def)
    have i1: "i \<in> task_ids b1" using keeps_view(3)[of b b1] I(3) xs i by (auto simp: only_at_def)
    obtain md' m' evs' b' where u: "update_in_list jid i (fst st, fst (snd st), snd (snd st)) = Some (md', m', evs')"
      "jobs_only_at (\<lambda>n. if n = jid then {i} else {}) (fst (snd st)) m'" "job_numbered jid m' = Some b'" "only_at {i} b1 b'" "settled m' b' {i}"
      using update_in_list_correct[OF wf_jobs_only_at[OF I(1) wf] I(2) i1] .
    have "settled m' b' (set prev - {i})"
      using settled_only_at[OF u(2,4), of "set prev - {i}"] I(4) by (auto simp: settled_def)
    then have "settled m' b' (set (prev @ [i]))" using u(5) by (auto simp: settled_def)
    moreover have "jobs_only_at (\<lambda>n. if n = jid then set (prev @ [i]) else {}) m m'"
    proof -
      have "(\<lambda>n. if n = jid then set (prev @ [i]) else {}) =
          (\<lambda>n. (if n = jid then set prev else {}) \<union> (if n = jid then {i} else {}))" by (auto simp: fun_eq_iff)
      then show ?thesis using jobs_only_at_trans[OF I(1) u(2)] by simp
    qed
    moreover have "only_at (set (prev @ [i])) b b'" using only_at_trans[OF I(3) u(4)] by simp
    ultimately show "\<exists>st'. update_in_list jid i st = Some st' \<and> I (prev @ [i]) st'"
      using u(1,3) by (auto simp: I_def)
  qed
  then obtain st' where "foldo (update_in_list jid) xs (md, m, evs) = Some st'" "I xs st'" by blast
  then show ?thesis using that by (cases st') (auto simp: I_def)
qed

lemma same_range_sym: "sge_task_depend_is_same_range a b \<longleftrightarrow> sge_task_depend_is_same_range b a"
  by (auto simp: sge_task_depend_is_same_range_def split: prod.splits)

definition touched :: "array_job list \<Rightarrow> array_job \<Rightarrow> nat \<Rightarrow> nat \<Rightarrow> nat set" where
  "touched m a x n = (case job_numbered n m of None \<Rightarrow> {} | Some b \<Rightarrow> {i \<in> task_ids b. overlap b i a x})"

lemma touched_only_at: "jobs_only_at ks m m' \<Longrightarrow> touched m' a x n = touched m a x n"
proof (cases "job_numbered n m")
  case None
  then show "jobs_only_at ks m m' \<Longrightarrow> ?thesis" using jobs_only_atD(3) by (simp add: touched_def)
next
  case (Some b)
  assume "jobs_only_at ks m m'"
  then obtain b' where "job_numbered n m' = Some b'" "keeps b b'" using jobs_only_atD(1)[OF _ Some] only_at_keeps by blast
  then show ?thesis using Some keeps_view[of b b'] by (simp add: touched_def)
qed

definition settled_in :: "array_job list \<Rightarrow> nat \<Rightarrow> nat set \<Rightarrow> bool" where
  "settled_in m n ks \<longleftrightarrow> (\<forall>b. job_numbered n m = Some b \<longrightarrow> settled m b ks)"

lemma settled_in_only_at:
  assumes "jobs_only_at ls m m'" "settled_in m n ks" "ks \<inter> ls n = {}"
  shows "settled_in m' n ks"
  unfolding settled_in_def
proof (intro allI impI)
  fix b' assume "job_numbered n m' = Some b'"
  then obtain b where "job_numbered n m = Some b" "only_at (ls n) b b'" using jobs_only_atD(2)[OF assms(1)] by blast
  then show "settled m' b' ks" using settled_only_at[OF assms(1)] assms(2,3) by (auto simp: settled_in_def)
qed

lemma release_tasks_of_correct:
  assumes wf: "wf_jobs m" and a: "aligned a" "x \<in> task_ids a"
    and same: "\<And>b. job_numbered jid m = Some b \<Longrightarrow> sge_task_depend_is_same_range a b"
  obtains m' evs' where "release_tasks_of a x jid (m, evs) = Some (m', evs')"
    "jobs_only_at (\<lambda>n. if n = jid then touched m a x jid else {}) m m'" "settled_in m' jid (touched m a x jid)"
proof (cases "job_numbered jid m")
  case None
  then show ?thesis using that[of m evs] jobs_only_at_refl by (simp add: release_tasks_of_def settled_in_def)
next
  case (Some b)
  have "sge_task_depend_is_same_range b a" using same[OF Some] same_range_sym by blast
  moreover have "aligned b" using wf Some by (auto simp: wf_jobs_def ad_job_def)
  ultimately obtain r where r: "sge_task_depend_get_range None b a x = Some (Inr r)" "wf_range r" "range_ids r = touched m a x jid"
    using task_depend_get_range_overlap[OF _ _ a, of b None] Some by (auto simp: touched_def)
  obtain xs where xs: "range_id_loop r = Some xs" "set xs = touched m a x jid" using range_id_loop_correct[OF r(2)] r(3) by metis
  then have "set xs \<subseteq> task_ids b" using Some by (auto simp: touched_def)
  then obtain md' m' evs' b' where u: "foldo (update_in_list jid) xs (False, m, evs) = Some (md', m', evs')"
      "jobs_only_at (\<lambda>n. if n = jid then set xs else {}) m m'" "job_numbered jid m' = Some b'" "settled m' b' (set xs)"
    using update_loop_correct[OF wf Some] by metis
  have "release_tasks_of a x jid (m, evs) = Some (m', if md' then evs' @ [sgeE_JOB_MOD jid] else evs')"
    using Some r xs(1) u(1) by (simp add: release_tasks_of_def)
  then show ?thesis using that u(2)[unfolded xs(2)] u(3,4) xs(2) by (simp add: settled_in_def)
qed

lemma release_successor_tasks_correct:
  assumes wf: "wf_jobs m" and a: "aligned a" "x \<in> task_ids a"
    and same: "\<And>n b. n \<in> set (JB_ja_ad_successor_list a) \<Longrightarrow> job_numbered n m = Some b \<Longrightarrow> sge_task_depend_is_same_range a b"
  obtains m' evs' where "release_successor_tasks_ad a x (m, evs) = Some (m', evs')"
    "jobs_only_at (\<lambda>n. if n \<in> set (JB_ja_ad_successor_list a) then touched m a x n else {}) m m'"
    "\<forall>n \<in> set (JB_ja_ad_successor_list a). settled_in m' n (touched m a x n)"
proof -
  define I where "I prev st \<longleftrightarrow> jobs_only_at (\<lambda>n. if n \<in> set prev then touched m a x n else {}) m (fst st) \<and>
    (\<forall>n \<in> set prev. settled_in (fst st) n (touched m a x n))" for prev and st :: "array_job list \<times> event list"
  have "\<exists>st'. foldo (release_tasks_of a x) (JB_ja_ad_successor_list a) (m, evs) = Some st' \<and> I (JB_ja_ad_successor_list a) st'"
  proof (rule foldo_invariant)
    show "I [] (m, evs)" using jobs_only_at_refl by (simp add: I_def)
  next
    fix prev jid and st :: "array_job list \<times> event list"
    assume jid: "jid \<in> set (JB_ja_ad_successor_list a)" and "I prev st"
    then have I: "jobs_only_at (\<lambda>n. if n \<in> set prev then touched m a x n else {}) m (fst st)"
      "\<forall>n \<in> set prev. settled_in (fst st) n (touched m a x n)" by (auto simp: I_def)
    note t = touched_only_at[OF I(1)]
    have "sge_task_depend_is_same_range a b" if b: "job_numbered jid (fst st) = Some b" for b
    proof -
      obtain b0 where "job_numbered jid m = Some b0" "keeps b0 b" using jobs_only_atD(2)[OF I(1) b] only_at_keeps by blast
      then show ?thesis using same[OF jid] keeps_view(8) by blast
    qed
    then obtain m' evs' where u: "release_tasks_of a x jid (fst st, snd st) = Some (m', evs')"
        "jobs_only_at (\<lambda>n. if n = jid then touched m a x jid else {}) (fst st) m'" "settled_in m' jid (touched m a x jid)"
      using release_tasks_of_correct[OF wf_jobs_only_at[OF I(1) wf] a] t by metis
    have "settled_in m' n (touched m a x n)" if "n \<in> set prev" "n \<noteq> jid" for n
      using settled_in_only_at[OF u(2)] I(2) that by simp
    moreover have "(\<lambda>n. if n \<in> set (prev @ [jid]) then touched m a x n else {}) =
        (\<lambda>n. (if n \<in> set prev then touched m a x n else {}) \<union> (if n = jid then touched m a x jid else {}))"
      by (auto simp: fun_eq_iff)
    ultimately show "\<exists>st'. release_tasks_of a x jid st = Some st' \<and> I (prev @ [jid]) st'"
      using u(1,3) jobs_only_at_trans[OF I(1) u(2)] by (auto simp: I_def)
  qed
  then obtain st' where "release_successor_tasks_ad a x (m, evs) = Some st'" "I (JB_ja_ad_successor_list a) st'"
    by (auto simp: release_successor_tasks_ad_def)
  then show ?thesis using that[of "fst st'" "snd st'"] by (simp add: I_def)
qed

section \<open>Finishing a task\<close>

definition all_settled :: "array_job list \<Rightarrow> bool" where
  "all_settled m \<longleftrightarrow> (\<forall>n. settled_in m n UNIV)"

definition finish_task :: "nat \<Rightarrow> array_job \<Rightarrow> array_job" where
  "finish_task x = set_task x (JAT_status_update (\<lambda>_. JFINISHED))"

lemma finish_task_sel [simp]:
  "JB_job_number (finish_task x j) = JB_job_number j" "JB_type (finish_task x j) = JB_type j"
  "JB_ja_ad_predecessor_list (finish_task x j) = JB_ja_ad_predecessor_list j"
  "JB_ja_ad_successor_list (finish_task x j) = JB_ja_ad_successor_list j"
  "get_ids k (ja (finish_task x j)) = get_ids k (ja j)"
  "JB_ja_structure (ja (finish_task x j)) = JB_ja_structure (ja j)"
  by (simp_all add: finish_task_def set_task_def) (cases k; simp)

lemma finish_task_tasks: "tasks (ja (finish_task x j)) = update_first (\<lambda>t. JAT_task_number t = x) (JAT_status_update (\<lambda>_. JFINISHED)) (tasks (ja j))"
  by (simp add: finish_task_def set_task_def tasks_def split: option.splits)

lemma find_update_key:
  "(\<And>t. JAT_task_number (f t) = JAT_task_number t) \<Longrightarrow> find (\<lambda>t. JAT_task_number t = k) (update_first (\<lambda>t. JAT_task_number t = x) f ts) =
     (if k = x then map_option f (find (\<lambda>t. JAT_task_number t = k) ts) else find (\<lambda>t. JAT_task_number t = k) ts)"
  by (induction ts) auto

lemma finish_task_search:
  "job_search_task (ja (finish_task x j)) k =
     (if k = x then map_option (JAT_status_update (\<lambda>_. JFINISHED)) (job_search_task (ja j) k) else job_search_task (ja j) k)"
  unfolding job_search_task_def finish_task_tasks by (simp add: find_update_key)

lemma set_update_first: "y \<in> set (update_first P f xs) \<Longrightarrow> y \<in> set xs \<or> (\<exists>x. find P xs = Some x \<and> y = f x)"
  by (induction xs) (auto split: if_splits)

lemma finish_task_same:
  "job_get_submit_task_ids (ja (finish_task x j)) = job_get_submit_task_ids (ja j)"
  "covers (finish_task x j) = covers j" "task_ids (finish_task x j) = task_ids j" "aligned (finish_task x j) = aligned j"
  "unenrolled (ja (finish_task x j)) = unenrolled (ja j)"
proof -
  show ids: "job_get_submit_task_ids (ja (finish_task x j)) = job_get_submit_task_ids (ja j)"
    by (simp add: job_get_submit_task_ids_def)
  show "covers (finish_task x j) = covers j" "task_ids (finish_task x j) = task_ids j" "aligned (finish_task x j) = aligned j"
    by (simp_all add: fun_eq_iff covers_def task_ids_def aligned_def ids)
  show "unenrolled (ja (finish_task x j)) = unenrolled (ja j)"
    by (simp add: finish_task_def set_task_def unenrolled_def held_ids_def)
qed

lemma finish_task_overlap:
  "overlap (finish_task x a) y b i = overlap a y b i" "overlap b i (finish_task x a) y = overlap b i a y"
  "sge_task_depend_is_same_range (finish_task x a) b = sge_task_depend_is_same_range a b"
  by (simp_all add: overlap_def finish_task_same sge_task_depend_is_same_range_def job_is_array_def)

lemma finish_task_finished:
  "finished (finish_task x j) k \<longleftrightarrow> finished j k \<or> k = x \<and> x \<notin> unenrolled (ja j)"
  by (auto simp: finished_def finish_task_search finish_task_same)

lemma finish_task_ad_job:
  assumes "ad_job j" "\<And>t. job_search_task (ja j) x = Some t \<Longrightarrow> JAT_task_list t = []"
  shows "ad_job (finish_task x j)"
proof -
  have inv: "job_inv (ja j)" using assms(1) by (simp add: ad_job_def)
  have en: "enrolled (ja (finish_task x j)) = enrolled (ja j)"
    unfolding enrolled_def finish_task_tasks by (rule map_update_first) simp
  have "wf_job (ja (finish_task x j))" using inv by (simp add: wf_job_def job_inv_def)
  moreover have "held_ids (ja (finish_task x j)) = held_ids (ja j)" "JB_ja_n_h_ids (ja (finish_task x j)) = JB_ja_n_h_ids (ja j)"
    by (simp_all add: finish_task_def set_task_def held_ids_def)
  ultimately have "job_inv (ja (finish_task x j))" using inv en by (simp add: job_inv_def finish_task_same)
  moreover have "JAT_task_list t = []" if "t \<in> set (tasks (ja (finish_task x j)))" "JAT_status t = JFINISHED" for t
    using set_update_first[OF that(1)[unfolded finish_task_tasks]] that(2) assms
    by (auto simp: ad_job_def job_search_task_def)
  ultimately show ?thesis using assms(1) by (simp add: ad_job_def finish_task_same)
qed

lemma finish_task_hold:
  assumes "job_inv (ja j)"
  shows "job_get_hold_state (ja (finish_task x j)) k = job_get_hold_state (ja j) k"
proof -
  have wf: "wf_job (ja j)" "wf_job (ja (finish_task x j))" using assms by (simp_all add: job_inv_def wf_job_def)
  have "hold_of (ja (finish_task x j)) k = hold_of (ja j) k" by (simp add: hold_of_def finish_task_def set_task_def)
  then show ?thesis
    using wf by (auto simp: job_get_hold_state_def job_is_enrolled_correct job_accumulate_hold_flags_correct finish_task_same
        finish_task_search split: option.splits)
qed

definition linked :: "array_job list \<Rightarrow> array_job \<Rightarrow> bool" where
  \<comment> \<open>the successors of a job are registered with it, and have the same range\<close>
  "linked m a \<longleftrightarrow> JB_job_number a \<notin> set (JB_ja_ad_predecessor_list a) \<and> (\<forall>n b. job_numbered n m = Some b \<longrightarrow>
     (JB_job_number a \<in> set (JB_ja_ad_predecessor_list b) \<longrightarrow> n \<in> set (JB_ja_ad_successor_list a)) \<and>
     (n \<in> set (JB_ja_ad_successor_list a) \<longrightarrow> sge_task_depend_is_same_range a b))"

definition finishing :: "array_job list \<Rightarrow> nat \<Rightarrow> array_job \<Rightarrow> nat \<Rightarrow> bool" where
  \<comment> \<open>task \<open>x\<close> of the job with number \<open>n\<close> may finish\<close>
  "finishing m n a x \<longleftrightarrow> wf_jobs m \<and> job_numbered n m = Some a \<and> x \<in> task_ids a \<and>
     (\<forall>t. job_search_task (ja a) x = Some t \<longrightarrow> JAT_task_list t = []) \<and> linked m a"

lemma finishingD:
  assumes "finishing m n a x"
  shows "wf_jobs m" "job_numbered n m = Some a" "x \<in> task_ids a" "job_search_task (ja a) x = Some t \<Longrightarrow> JAT_task_list t = []" "linked m a"
    "ad_job a" "JB_job_number a = n" "n \<notin> set (JB_ja_ad_predecessor_list a)"
  using assms job_numbered_number[of n m a] by (auto simp: finishing_def wf_jobs_def linked_def)

lemma finishing_lookup:
  "finishing m n a x \<Longrightarrow> job_numbered k (put_job (finish_task x a) m) = (if k = n then Some (finish_task x a) else job_numbered k m)"
  using finishingD(2,7) by (auto simp: job_numbered_put)

lemma finishing_ad_job: "finishing m n a x \<Longrightarrow> ad_job (finish_task x a)"
  using finish_task_ad_job finishingD(4,6) by metis

lemma finishing_wf:
  assumes f: "finishing m n a x"
  shows "wf_jobs (put_job (finish_task x a) m)"
  unfolding wf_jobs_def
proof (intro allI impI)
  fix k j assume j: "job_numbered k (put_job (finish_task x a) m) = Some j"
  have "fits (put_job (finish_task x a) m) b ps" if "fits m b ps" for b ps
    using that finishing_ad_job[OF f] finishingD(2)[OF f] unfolding fits_def finishing_lookup[OF f]
    by (auto simp: finish_task_overlap)
  moreover have "fits m (finish_task x a) (JB_ja_ad_predecessor_list a)" if "fits m a (JB_ja_ad_predecessor_list a)"
    using that same_range_sym unfolding fits_def by (metis finish_task_overlap(3))
  ultimately show "ad_job j \<and> fits (put_job (finish_task x a) m) j (JB_ja_ad_predecessor_list j)"
    using j finishing_ad_job[OF f] finishingD(1,2)[OF f] by (auto simp: finishing_lookup[OF f] wf_jobs_def split: if_splits)
qed

lemma finishing_waits_for:
  assumes f: "finishing m n a x" and "n \<in> set ps \<Longrightarrow> \<not> overlap a x b i"
  shows "waits_for (put_job (finish_task x a) m) b i ps = waits_for m b i ps"
proof -
  have "(\<exists>c. job_numbered p (put_job (finish_task x a) m) = Some c \<and> (\<exists>y \<in> task_ids c. overlap c y b i \<and> \<not> finished c y)) \<longleftrightarrow>
      (\<exists>c. job_numbered p m = Some c \<and> (\<exists>y \<in> task_ids c. overlap c y b i \<and> \<not> finished c y))" if "p \<in> set ps" for p
    using that assms finishingD(2)[OF f]
    by (auto simp: finishing_lookup[OF f] finish_task_overlap finish_task_same finish_task_finished)
  then show ?thesis by (auto simp: waits_for_def)
qed

lemma finishing_own_settled:
  assumes f: "finishing m n a x" and "all_settled m"
  shows "settled (put_job (finish_task x a) m) (finish_task x a) UNIV"
proof -
  have "waits_for (put_job (finish_task x a) m) (finish_task x a) i ps = waits_for m a i ps" if "n \<notin> set ps" for i ps
    using finishing_waits_for[OF f, of ps "finish_task x a" i] that by (simp add: waits_for_def finish_task_overlap)
  moreover have "settled m a UNIV" using assms(2) finishingD(2)[OF f] by (simp add: all_settled_def settled_in_def)
  moreover have "job_inv (ja a)" using finishingD(6)[OF f] by (simp add: ad_job_def)
  ultimately show ?thesis
    using finishingD(8)[OF f] finish_task_hold by (auto simp: settled_def finish_task_same finish_task_finished ad_held_def)
qed

lemma finishing_untouched:
  assumes f: "finishing m n a x" and "all_settled m" and b: "job_numbered k m = Some b" "k \<noteq> n"
    and ks: "k \<in> set (JB_ja_ad_successor_list a) \<Longrightarrow> touched (put_job (finish_task x a) m) (finish_task x a) x k \<subseteq> ks"
  shows "settled (put_job (finish_task x a) m) b (- ks)"
  unfolding settled_def
proof (intro ballI impI)
  fix i assume i: "i \<in> task_ids b \<inter> - ks" "\<not> finished b i"
  have "\<not> overlap a x b i" if n: "n \<in> set (JB_ja_ad_predecessor_list b)"
  proof -
    have "k \<in> set (JB_ja_ad_successor_list a)" using finishingD(5,7)[OF f] b n by (auto simp: linked_def)
    then have "i \<notin> touched (put_job (finish_task x a) m) (finish_task x a) x k" using ks i by auto
    then show ?thesis using i b overlap_sym[of a x b i] by (simp add: touched_def finishing_lookup[OF f] finish_task_overlap)
  qed
  then have "waits_for (put_job (finish_task x a) m) b i (JB_ja_ad_predecessor_list b) = waits_for m b i (JB_ja_ad_predecessor_list b)"
    by (rule finishing_waits_for[OF f])
  then show "ad_held b i \<longleftrightarrow> waits_for (put_job (finish_task x a) m) b i (JB_ja_ad_predecessor_list b)"
    using assms(2) b i by (auto simp: all_settled_def settled_in_def settled_def)
qed

lemma release_settles:
  assumes f: "finishing m n a x" and "all_settled m"
  obtains m' evs where "release_successor_tasks_ad (finish_task x a) x (put_job (finish_task x a) m, []) = Some (m', evs)"
    "wf_jobs m'" "all_settled m'"
    "jobs_only_at (\<lambda>k. if k \<in> set (JB_ja_ad_successor_list a) then touched (put_job (finish_task x a) m) (finish_task x a) x k else {})
       (put_job (finish_task x a) m) m'"
proof -
  define a' m1 where "a' = finish_task x a" and "m1 = put_job a' m"
  have suc: "JB_ja_ad_successor_list a' = JB_ja_ad_successor_list a" by (simp add: a'_def)
  have al: "aligned a'" "x \<in> task_ids a'"
    using finishing_ad_job[OF f] finishingD(3)[OF f] by (simp_all add: ad_job_def a'_def finish_task_same)
  have same: "sge_task_depend_is_same_range a' b" if "k \<in> set (JB_ja_ad_successor_list a')" "job_numbered k m1 = Some b" for k b
  proof -
    have "sge_task_depend_is_same_range a c" if "job_numbered k m = Some c" for c
      using finishingD(5)[OF f] that \<open>k \<in> _\<close> suc by (auto simp: linked_def)
    moreover have "sge_task_depend_is_same_range a a'" if "sge_task_depend_is_same_range a a"
      using that same_range_sym[of a a'] by (simp add: a'_def finish_task_overlap)
    ultimately have "sge_task_depend_is_same_range a b"
      using that(2) finishingD(2)[OF f] unfolding m1_def a'_def finishing_lookup[OF f] by (simp split: if_splits)
    then show ?thesis by (simp add: a'_def finish_task_overlap)
  qed
  obtain m' evs where r: "release_successor_tasks_ad a' x (m1, []) = Some (m', evs)"
      "jobs_only_at (\<lambda>k. if k \<in> set (JB_ja_ad_successor_list a') then touched m1 a' x k else {}) m1 m'"
      "\<forall>k \<in> set (JB_ja_ad_successor_list a'). settled_in m' k (touched m1 a' x k)"
    using release_successor_tasks_correct[OF finishing_wf[OF f, folded a'_def m1_def] al same] .
  have "settled_in m' k UNIV" for k
  proof -
    define ks where "ks = (if k \<in> set (JB_ja_ad_successor_list a) then touched m1 a' x k else {})"
    have "settled m1 a' (- ks)" using finishing_own_settled[OF assms] by (auto simp: m1_def a'_def settled_def)
    moreover have "settled m1 b (- ks)" if "job_numbered k m = Some b" "k \<noteq> n" for b
      unfolding m1_def a'_def by (rule finishing_untouched[OF assms that]) (simp add: ks_def m1_def a'_def)
    ultimately have "settled_in m1 k (- ks)"
      using finishing_lookup[OF f, of k] by (auto simp: settled_in_def m1_def a'_def split: if_splits)
    then have "settled_in m' k (- ks)" by (rule settled_in_only_at[OF r(2)]) (simp add: suc ks_def)
    moreover have "settled_in m' k ks" using r(3) by (auto simp: suc ks_def settled_in_def settled_def)
    ultimately show ?thesis using settled_Un[of m' _ "- ks" ks] by (simp add: settled_in_def)
  qed
  then show ?thesis
    using that[folded a'_def m1_def, OF r(1) wf_jobs_only_at[OF r(2) finishing_wf[OF f, folded a'_def m1_def]]] r(2)
    by (simp add: all_settled_def suc)
qed

end
