(* ===== verification/TaskDepend_Submit.thy ===== *)
theory TaskDepend_Submit
  imports TaskDepend_Correct
begin

text \<open>
  Setting up and giving up dependencies: the holds are settled when a job is submitted with predecessors, and all
  dependency holds are gone once there are no predecessors any more.
\<close>

unbundle bit_operations_syntax

section \<open>Setting up\<close>

lemma task_ids_loop:
  assumes "aligned j" "job_get_submit_task_ids (ja j) = (b0, b1, sb)"
  obtains xs where "id_loop b0 b1 sb = Some xs" "set xs = task_ids j"
proof -
  have b: "b0 \<le> b1" "b1 < id_limit" "sb dvd (b1 + 1 - b0)" using assms by (auto simp: aligned_def)
  have pos: "0 < sb" using step_pos assms(2) by blast
  have "sb \<le> b1 + 1 - b0" using b by (intro dvd_imp_le) auto
  then have "b1 + sb < u32_mod" using b by simp
  then show ?thesis using id_loop_correct[OF pos] that assms(2) by (fastforce simp: task_ids_def)
qed

lemma update_task_loop:
  assumes j: "ad_job j" "fits m j (JB_ja_ad_predecessor_list j)" and xs: "set xs \<subseteq> task_ids j"
  obtains ret j' es where "foldo (update_task m) xs (False, j, []) = Some (ret, j', es)" "only_at (set xs) j j'" "settled m j' (set xs)"
proof -
  define I where "I prev st \<longleftrightarrow> only_at (set prev) j (fst (snd st)) \<and> settled m (fst (snd st)) (set prev)"
    for prev and st :: "bool \<times> array_job \<times> event list"
  have "\<exists>st'. foldo (update_task m) xs (False, j, []) = Some st' \<and> I xs st'"
  proof (rule foldo_invariant)
    show "I [] (False, j, [])" by (simp add: I_def only_at_refl settled_def)
  next
    fix prev i and st :: "bool \<times> array_job \<times> event list"
    assume i: "i \<in> set xs" and "I prev st"
    define b where "b = fst (snd st)"
    have I: "only_at (set prev) j b" "settled m b (set prev)" using \<open>I prev st\<close> by (simp_all add: I_def b_def)
    note k = keeps_view[OF only_at_keeps[OF I(1)]]
    have b: "ad_job b" "fits m b (JB_ja_ad_predecessor_list b)" "i \<in> task_ids b" using k j xs i by (auto simp: fits_def)
    obtain md b' es where u: "sge_task_depend_update m b i = Some (md, b', es)" "only_at {i} b b'"
        "\<not> finished b i \<Longrightarrow> ad_held b' i \<longleftrightarrow> waits_for m b i (JB_ja_ad_predecessor_list b)"
      using depend_update_correct[OF b] by metis
    note k' = keeps_view[OF only_at_keeps[OF u(2)]]
    have "settled m b' {i}"
      using u(3) waits_for_only_at[OF jobs_only_at_refl only_at_keeps[OF u(2)]] k' by (auto simp: settled_def)
    moreover have "settled m b' (set prev - {i})"
      using settled_only_at[OF jobs_only_at_refl u(2), of m "set prev - {i}"] I(2) by (auto simp: settled_def)
    ultimately have "settled m b' (set (prev @ [i]))" by (auto simp: settled_def)
    moreover have "only_at (set (prev @ [i])) j b'" using only_at_trans[OF I(1) u(2)] by simp
    moreover have "update_task m i st = Some (fst st \<or> md, b', snd (snd st) @ es)"
      using u(1) by (simp add: update_task_def b_def case_prod_beta)
    ultimately show "\<exists>st'. update_task m i st = Some st' \<and> I (prev @ [i]) st'" by (simp add: I_def)
  qed
  then obtain st' where "foldo (update_task m) xs (False, j, []) = Some st'" "I xs st'" by blast
  then show ?thesis using that by (cases st') (auto simp: I_def)
qed

lemma depend_init_correct:
  assumes j: "ad_job j" "fits m j (JB_ja_ad_predecessor_list j)" and "JB_ja_ad_request_list j \<noteq> []" "JB_ja_ad_predecessor_list j \<noteq> []"
  obtains ret j' es where "sge_task_depend_init m j = Some (ret, j', es)" "only_at (task_ids j) j j'" "settled m j' UNIV"
proof -
  obtain b0 b1 sb where b: "job_get_submit_task_ids (ja j) = (b0, b1, sb)" by (metis prod_cases3)
  have al: "aligned j" using j by (simp add: ad_job_def)
  obtain xs where xs: "id_loop b0 b1 sb = Some xs" "set xs = task_ids j" using task_ids_loop[OF al b] .
  then have sub: "set xs \<subseteq> task_ids j" by simp
  obtain ret j' es where l: "foldo (update_task m) xs (False, j, []) = Some (ret, j', es)" "only_at (set xs) j j'" "settled m j' (set xs)"
    using update_task_loop[OF j sub] .
  have "settled m j' UNIV" using l(3) xs(2) keeps_view(3)[OF only_at_keeps[OF l(2)]] by (auto simp: settled_def)
  then show ?thesis using that l(2) xs(2) assms b xs(1) l(1) by (simp add: sge_task_depend_init_def)
qed

section \<open>Giving up\<close>

lemma ad_held_pending:
  assumes "job_inv (ja j)" "i \<in> unenrolled (ja j)"
  shows "ad_held j i \<longleftrightarrow> i \<in> ids (JB_ja_a_h_ids (ja j))"
  using assms hold_of_bits(4)[of "ja j" i]
  by (simp add: ad_held_def job_get_hold_state_def job_is_enrolled_correct job_accumulate_hold_flags_correct job_inv_def hold_masks)

lemma ad_held_gone:
  assumes "job_inv (ja j)" "i \<notin> unenrolled (ja j)" "job_search_task (ja j) i = None"
  shows "\<not> ad_held j i"
  using assms by (simp add: ad_held_def job_get_hold_state_def job_is_enrolled_correct job_inv_def)

lemma clear_hold_correct:
  assumes "job_inv (ja j)" "i \<in> unenrolled (ja j) \<or> job_search_task (ja j) i \<noteq> None"
  obtains k where "clear_hold i (ja j) = Some k" "only_at {i} j (j\<lparr>ja := k\<rparr>)" "\<not> ad_held (j\<lparr>ja := k\<rparr>) i" "job_inv k"
proof -
  obtain h where h: "job_get_hold_state (ja j) i = Some h" using hold_state_total[of "ja j" i] assms(1) by (auto simp: job_inv_def)
  obtain k where "job_set_hold_state (ja j) i (h AND NOT MINUS_H_TGT_JA_AD) = Some k" "only_at {i} j (j\<lparr>ja := k\<rparr>)" "job_inv k"
    "ad_held (j\<lparr>ja := k\<rparr>) i \<longleftrightarrow> (h AND NOT MINUS_H_TGT_JA_AD) AND MINUS_H_TGT_JA_AD \<noteq> 0"
    by (rule set_ad_hold[OF assms h, of "h AND NOT MINUS_H_TGT_JA_AD"]) auto
  then show ?thesis using that h ad_bit(2) by (simp add: clear_hold_def)
qed

lemma clear_pending:
  assumes "job_inv (ja j)" "JB_ja_a_h_ids (ja j) = Some l"
  obtains k where "foldo (\<lambda>r j. do { xs \<leftarrow> range_id_loop r; foldo clear_hold xs j }) l (ja j) = Some k" "job_inv k"
    "only_at (list_ids l) j (j\<lparr>ja := k\<rparr>)" "\<And>i. i \<in> unenrolled (ja j) \<Longrightarrow> \<not> ad_held (j\<lparr>ja := k\<rparr>) i"
proof -
  define I where "I A k \<longleftrightarrow> job_inv k \<and> only_at A j (j\<lparr>ja := k\<rparr>) \<and> (\<forall>i \<in> A. \<not> ad_held (j\<lparr>ja := k\<rparr>) i)" for A k
  have un: "list_ids l \<subseteq> unenrolled (ja j)" using assms(2) by (auto simp: unenrolled_def held_ids_def ids_def)
  have "\<exists>k. foldo (\<lambda>r j. do { xs \<leftarrow> range_id_loop r; foldo clear_hold xs j }) l (ja j) = Some k \<and> I (list_ids l) k"
  proof (rule nested_id_loop)
    show "wf_range r" if "r \<in> set l" for r
      using assms that wf_from_elem by (fastforce simp: job_inv_def wf_job_def all_attr wf_ranges_def)
    show "I {} (ja j)" using assms(1) only_at_refl by (simp add: I_def)
  next
    fix A i k assume i: "i \<in> list_ids l" and I: "I A k"
    have "unenrolled k = unenrolled (ja j)" using I by (simp add: I_def only_at_def keeps_def)
    then have "i \<in> unenrolled (ja (j\<lparr>ja := k\<rparr>))" "job_inv (ja (j\<lparr>ja := k\<rparr>))" using un i I by (auto simp: I_def)
    then obtain k' where k': "clear_hold i k = Some k'" "only_at {i} (j\<lparr>ja := k\<rparr>) (j\<lparr>ja := k'\<rparr>)" "\<not> ad_held (j\<lparr>ja := k'\<rparr>) i" "job_inv k'"
      using clear_hold_correct[of "j\<lparr>ja := k\<rparr>" i] by auto
    have "only_at (insert i A) j (j\<lparr>ja := k'\<rparr>)"
      using only_at_trans[of A j "j\<lparr>ja := k\<rparr>", OF _ k'(2)] I by (simp add: I_def)
    moreover have "\<not> ad_held (j\<lparr>ja := k'\<rparr>) n" if "n \<in> A" for n
      using that I k'(2,3) by (cases "n = i") (auto simp: I_def only_at_def)
    ultimately show "\<exists>k'. clear_hold i k = Some k' \<and> I (insert i A) k'" using k'(1,3,4) by (auto simp: I_def)
  qed
  then obtain k where k: "foldo (\<lambda>r j. do { xs \<leftarrow> range_id_loop r; foldo clear_hold xs j }) l (ja j) = Some k" "I (list_ids l) k" by blast
  have "\<not> ad_held (j\<lparr>ja := k\<rparr>) i" if "i \<in> unenrolled (ja j)" for i
    using k(2) that ad_held_pending[OF assms(1) that] assms(2)
    by (cases "i \<in> list_ids l") (auto simp: I_def only_at_def ids_def)
  then show ?thesis using that k by (simp add: I_def)
qed

lemma drop_empty_list:
  assumes "job_inv (ja j)" "ids (JB_ja_a_h_ids (ja j)) = {}"
  shows "only_at {} j (j\<lparr>ja := (ja j)\<lparr>JB_ja_a_h_ids := None\<rparr>\<rparr>)"
proof -
  define k where "k = (ja j)\<lparr>JB_ja_a_h_ids := None\<rparr>"
  have none: "ids None = {}" "wf_ranges None" by (simp_all add: ids_def wf_ranges_def)
  have wf: "wf_job (ja j)" using assms(1) by (simp add: job_inv_def)
  then have wfk: "wf_job k" using none by (simp add: wf_job_def all_attr k_def)
  have un: "unenrolled k = unenrolled (ja j)" "held_ids k = held_ids (ja j)" "hold_of k i = hold_of (ja j) i" for i
    using assms(2) none by (simp_all add: unenrolled_def held_ids_def hold_of_def k_def)
  have ts: "tasks k = tasks (ja j)" by (simp add: k_def tasks_def)
  have "job_inv k" using assms(1) wfk un ts by (simp add: job_inv_def enrolled_def k_def)
  then have "keeps j (j\<lparr>ja := k\<rparr>)" using un ts by (simp add: keeps_def task_view_def k_def)
  moreover have "job_get_hold_state k i = job_get_hold_state (ja j) i" for i
    using wf wfk un ts by (simp add: job_get_hold_state_def job_is_enrolled_correct job_accumulate_hold_flags_correct job_search_task_def)
  ultimately show ?thesis by (simp add: only_at_def other_holds_def ad_held_def k_def)
qed

lemma clear_enrolled:
  assumes "job_inv (ja j)" "\<And>i. i \<in> unenrolled (ja j) \<Longrightarrow> \<not> ad_held j i"
  obtains k es where "foldo (clear_task_hold n) (map JAT_task_number (tasks (ja j))) (ja j, []) = Some (k, es)"
    "only_at UNIV j (j\<lparr>ja := k\<rparr>)" "\<And>i. \<not> ad_held (j\<lparr>ja := k\<rparr>) i"
proof -
  define I where "I prev st \<longleftrightarrow> job_inv (fst st) \<and> only_at UNIV j (j\<lparr>ja := fst st\<rparr>) \<and>
    (\<forall>i. i \<in> set prev \<or> \<not> ad_held j i \<longrightarrow> \<not> ad_held (j\<lparr>ja := fst st\<rparr>) i)" for prev and st :: "job \<times> event list"
  have "\<exists>st. foldo (clear_task_hold n) (map JAT_task_number (tasks (ja j))) (ja j, []) = Some st \<and> I (map JAT_task_number (tasks (ja j))) st"
  proof (rule foldo_invariant)
    show "I [] (ja j, [])" using assms(1) only_at_refl by (simp add: I_def)
  next
    fix prev i and st :: "job \<times> event list"
    assume "i \<in> set (map JAT_task_number (tasks (ja j)))" and I: "I prev st"
    then have "i \<in> set (enrolled (ja j))" by (simp add: enrolled_def)
    moreover have "task_view (fst st) = task_view (ja j)" using I by (simp add: I_def only_at_def keeps_def)
    then have "map fst (task_view (fst st)) = map fst (task_view (ja j))" by simp
    then have "enrolled (fst st) = enrolled (ja j)" by (simp add: task_view_def enrolled_def comp_def)
    ultimately obtain t where t: "job_search_task (fst st) i = Some t" using search_enrolled by metis
    define b where "b = j\<lparr>ja := fst st\<rparr>"
    have b: "job_inv (ja b)" "ja b = fst st" "i \<in> unenrolled (ja b) \<or> job_search_task (ja b) i \<noteq> None"
      using I t by (simp_all add: I_def b_def)
    obtain h where h: "job_get_hold_state (ja b) i = Some h" using hold_state_total[of "ja b" i] b(1) by (auto simp: job_inv_def)
    show "\<exists>st'. clear_task_hold n i st = Some st' \<and> I (prev @ [i]) st'"
    proof (cases "h AND MINUS_H_TGT_JA_AD = 0")
      case True
      then have "\<not> ad_held b i" using h by (simp add: ad_held_def)
      then show ?thesis using True h b(2) I by (auto simp: clear_task_hold_def I_def b_def)
    next
      case False
      obtain k where k: "job_set_hold_state (ja b) i (h AND NOT MINUS_H_TGT_JA_AD) = Some k" "only_at {i} b (b\<lparr>ja := k\<rparr>)" "job_inv k"
          "ad_held (b\<lparr>ja := k\<rparr>) i \<longleftrightarrow> (h AND NOT MINUS_H_TGT_JA_AD) AND MINUS_H_TGT_JA_AD \<noteq> 0"
        by (rule set_ad_hold[OF b(1,3) h, of "h AND NOT MINUS_H_TGT_JA_AD"]) auto
      have bk: "b\<lparr>ja := k\<rparr> = j\<lparr>ja := k\<rparr>" by (simp add: b_def)
      have "only_at UNIV j (j\<lparr>ja := k\<rparr>)" using only_at_trans[of UNIV j b, OF _ k(2)] I by (simp add: I_def b_def)
      moreover have "\<not> ad_held (j\<lparr>ja := k\<rparr>) l" if "l \<in> set prev \<or> l = i \<or> \<not> ad_held j l" for l
        using that I k(2,4) ad_bit(2) unfolding bk by (cases "l = i") (auto simp: I_def only_at_def b_def)
      ultimately show ?thesis using False h b(2) k(1,3) by (auto simp: clear_task_hold_def I_def)
    qed
  qed
  then obtain k es where k: "foldo (clear_task_hold n) (map JAT_task_number (tasks (ja j))) (ja j, []) = Some (k, es)"
      "I (map JAT_task_number (tasks (ja j))) (k, es)" by auto
  have "\<not> ad_held (j\<lparr>ja := k\<rparr>) i" for i
  proof (cases "i \<in> set (map JAT_task_number (tasks (ja j)))")
    case False
    then have "job_search_task (ja j) i = None" using job_search_task_None by (simp add: enrolled_def)
    then have "\<not> ad_held j i" using assms ad_held_gone by blast
    then show ?thesis using k(2) by (simp add: I_def)
  qed (use k(2) in \<open>simp add: I_def\<close>)
  then show ?thesis using that k by (simp add: I_def)
qed

lemma flush_pending_correct:
  assumes inv: "job_inv (ja j)"
  obtains ret k where "flush_pending (ja j) = Some (ret, k)" "job_inv k" "only_at UNIV j (j\<lparr>ja := k\<rparr>)"
    "\<And>i. i \<in> unenrolled k \<Longrightarrow> \<not> ad_held (j\<lparr>ja := k\<rparr>) i"
proof (cases "JB_ja_a_h_ids (ja j)")
  case None
  then have "\<not> ad_held j i" if "i \<in> unenrolled (ja j)" for i using ad_held_pending[OF inv that] by (simp add: ids_def)
  then show ?thesis using that[of False "ja j"] None inv only_at_refl by (simp add: flush_pending_def)
next
  case (Some l)
  obtain k where k: "foldo (\<lambda>r j. do { xs \<leftarrow> range_id_loop r; foldo clear_hold xs j }) l (ja j) = Some k" "job_inv k"
      "only_at (list_ids l) j (j\<lparr>ja := k\<rparr>)" "\<And>i. i \<in> unenrolled (ja j) \<Longrightarrow> \<not> ad_held (j\<lparr>ja := k\<rparr>) i"
    using clear_pending[OF inv Some] by metis
  define b where "b = j\<lparr>ja := k\<rparr>"
  define k' where "k' = k\<lparr>JB_ja_a_h_ids := None\<rparr>"
  have un: "unenrolled k = unenrolled (ja j)" using k(3) by (simp add: only_at_def keeps_def)
  have "i \<notin> ids (JB_ja_a_h_ids k)" for i
    using ad_held_pending[of b i] k(2,4) un by (auto simp: b_def unenrolled_def held_ids_def)
  then have drop: "only_at {} b (b\<lparr>ja := k'\<rparr>)" using drop_empty_list[of b] k(2) by (auto simp: b_def k'_def)
  have jb: "b\<lparr>ja := k'\<rparr> = j\<lparr>ja := k'\<rparr>" by (simp add: b_def)
  have "only_at UNIV j (j\<lparr>ja := k'\<rparr>)" using only_at_trans[OF k(3)[folded b_def] drop[unfolded jb]] by (simp add: only_at_def)
  moreover have "job_inv k'" "unenrolled k' = unenrolled k" using drop k(2) by (simp_all add: only_at_def keeps_def b_def)
  moreover have "\<not> ad_held (j\<lparr>ja := k'\<rparr>) i" if "i \<in> unenrolled k" for i
    using drop[unfolded jb] k(4) that un by (simp add: only_at_def b_def)
  ultimately show ?thesis using that[of True k'] Some k(1) by (simp add: flush_pending_def k'_def)
qed

lemma depend_flush_correct:
  assumes "ad_job j" "JB_ja_ad_request_list j \<noteq> []" "JB_ja_ad_predecessor_list j = []"
  obtains ret j' es where "sge_task_depend_flush j = Some (ret, j', es)" "only_at UNIV j j'" "\<And>i. \<not> ad_held j' i"
proof -
  have inv: "job_inv (ja j)" using assms(1) by (simp add: ad_job_def)
  obtain ret k where k: "flush_pending (ja j) = Some (ret, k)" "job_inv k" "only_at UNIV j (j\<lparr>ja := k\<rparr>)"
      "\<And>i. i \<in> unenrolled k \<Longrightarrow> \<not> ad_held (j\<lparr>ja := k\<rparr>) i"
    using flush_pending_correct[OF inv] by metis
  have k2: "job_inv (ja (j\<lparr>ja := k\<rparr>))" "\<And>i. i \<in> unenrolled (ja (j\<lparr>ja := k\<rparr>)) \<Longrightarrow> \<not> ad_held (j\<lparr>ja := k\<rparr>) i" using k by simp_all
  obtain k' es where k': "foldo (clear_task_hold (JB_job_number j)) (map JAT_task_number (tasks k)) (k, []) = Some (k', es)"
      "only_at UNIV (j\<lparr>ja := k\<rparr>) (j\<lparr>ja := k'\<rparr>)" "\<And>i. \<not> ad_held (j\<lparr>ja := k'\<rparr>) i"
    using clear_enrolled[OF k2, of "JB_job_number j"] by auto
  have "sge_task_depend_flush j = Some (ret, j\<lparr>ja := k'\<rparr>, es)"
    unfolding sge_task_depend_flush_def k(1) using assms(2,3) k'(1) by simp
  then show ?thesis using that only_at_trans[OF k(3) k'(2)] k'(3) by simp
qed

end
