(* ===== verification/TaskDepend_Props.thy ===== *)
theory TaskDepend_Props
  imports TaskDepend_Submit "HOL-Library.Code_Target_Nat"
begin

text \<open>
  What holds for dependencies between array tasks, and where the code that finishes a task departs from it.
\<close>

unbundle bit_operations_syntax

section \<open>An example\<close>

text \<open>Job 5 has the tasks 3 and 7, which cover four indices each and are running; the tasks 3, 5, 7 and 9 of job 6 depend on them.\<close>

definition ids_from :: "nat \<Rightarrow> nat \<Rightarrow> nat \<Rightarrow> range_list" where
  "ids_from a b c = Some [\<lparr>RN_min = a, RN_max = b, RN_step = c\<rparr>]"

definition running_task :: "nat \<Rightarrow> ja_task" where
  "running_task n = \<lparr>JAT_task_number = n, JAT_status = 1, JAT_state = 0, JAT_hold = 0, JAT_task_list = []\<rparr>"

definition pre_job :: array_job where
  "pre_job = \<lparr>JB_job_number = 5, JB_type = JOB_TYPE_ARRAY, JB_owner = ''u'', JB_job_name = ''pre'', JB_jid_request_list = [],
     JB_jid_predecessor_list = [], JB_jid_successor_list = [], JB_ja_ad_request_list = [], JB_ja_ad_predecessor_list = [],
     JB_ja_ad_successor_list = [6],
     ja = \<lparr>JB_ja_structure = ids_from 3 10 4, JB_ja_n_h_ids = None, JB_ja_u_h_ids = None, JB_ja_o_h_ids = None, JB_ja_s_h_ids = None,
       JB_ja_a_h_ids = None, JB_ja_tasks = Some [running_task 3, running_task 7], JB_ja_template = []\<rparr>\<rparr>"

definition suc_job :: array_job where
  "suc_job = \<lparr>JB_job_number = 6, JB_type = JOB_TYPE_ARRAY, JB_owner = ''u'', JB_job_name = ''suc'', JB_jid_request_list = [],
     JB_jid_predecessor_list = [], JB_jid_successor_list = [], JB_ja_ad_request_list = [''5''], JB_ja_ad_predecessor_list = [],
     JB_ja_ad_successor_list = [],
     ja = \<lparr>JB_ja_structure = ids_from 3 10 2, JB_ja_n_h_ids = ids_from 3 9 2, JB_ja_u_h_ids = None, JB_ja_o_h_ids = None, JB_ja_s_h_ids = None,
       JB_ja_a_h_ids = None, JB_ja_tasks = None, JB_ja_template = []\<rparr>\<rparr>"

definition suc_held :: array_job where
  "suc_held = suc_job\<lparr>JB_ja_ad_predecessor_list := [5], ja := (ja suc_job)\<lparr>JB_ja_n_h_ids := None, JB_ja_a_h_ids := ids_from 3 9 2\<rparr>\<rparr>"

definition no_matchers :: matchers where
  "no_matchers = \<lparr>fnmatch = (\<lambda>_ _. 1), sge_hostmatch = (\<lambda>_ _. 1), matchers.sge_hostcmp = (\<lambda>_ _. 1)\<rparr>"

lemma dep_ids:
  "job_get_submit_task_ids (ja pre_job) = (3, 10, 4)" "job_get_submit_task_ids (ja suc_job) = (3, 10, 2)" "job_get_submit_task_ids (ja suc_held) = (3, 10, 2)"
  "job_is_array pre_job" "job_is_array suc_job" "job_is_array suc_held"
  by code_simp+

lemma ap_numerals: "ap 3 10 4 = {3, 7}" "ap 3 10 2 = {3, 5, 7, 9}" "ap 3 9 2 = {3, 5, 7, 9}"
proof -
  have four: "x = 3 + k * 4 \<Longrightarrow> x \<le> 10 \<Longrightarrow> x = 3 \<or> x = 7" for x k :: nat by presburger
  have two: "x = 3 + k * 2 \<Longrightarrow> x \<le> 10 \<Longrightarrow> x = 3 \<or> x = 5 \<or> x = 7 \<or> x = 9" for x k :: nat by presburger
  show "ap 3 10 4 = {3, 7}" using four unfolding ap_iff set_eq_iff by (auto intro: exI[of _ 0] exI[of _ 1])
  show "ap 3 10 2 = {3, 5, 7, 9}"
    using two unfolding ap_iff set_eq_iff by (auto intro: exI[of _ 0] exI[of _ 1] exI[of _ 2] exI[of _ 3])
  show "ap 3 9 2 = {3, 5, 7, 9}"
    using two unfolding ap_iff set_eq_iff by (auto intro: exI[of _ 0] exI[of _ 1] exI[of _ 2] exI[of _ 3])
qed

lemma dep_sets:
  "task_ids pre_job = {3, 7}" "task_ids suc_job = {3, 5, 7, 9}" "task_ids suc_held = {3, 5, 7, 9}"
  "aligned pre_job" "aligned suc_job" "aligned suc_held" "sge_task_depend_is_same_range pre_job suc_job" "sge_task_depend_is_same_range pre_job suc_held"
  by (simp_all add: task_ids_def aligned_def sge_task_depend_is_same_range_def dep_ids ap_numerals)

lemma dep_inv: "ad_job pre_job" "ad_job suc_job" "ad_job suc_held"
proof -
  have wf: "wf_ranges None" "wf_ranges (ids_from 3 9 2)" "ids None = {}" "ids (ids_from 3 9 2) = {3, 5, 7, 9}"
    by (simp_all add: wf_ranges_def ids_from_def wf_range_def ids_def range_ids_def ap_numerals)
  show "ad_job pre_job" "ad_job suc_job" "ad_job suc_held"
    unfolding ad_job_def using wf dep_sets(4-6)
    by (simp_all add: pre_job_def suc_job_def suc_held_def job_inv_def wf_job_def all_attr held_ids_def unenrolled_def enrolled_def tasks_def
        running_task_def JFINISHED_def)
qed

section \<open>Which tasks depend on each other\<close>

text \<open>C32. A task depends on exactly the tasks of the predecessor that cover an index it covers itself, and the
  same function with the jobs exchanged finds the dependent tasks: a task is in the range of another if
  and only if the other is in its range. This needs tasks that cover the common range without a rest.\<close>

theorem depends_on_overlapping_tasks:
  assumes "sge_task_depend_is_same_range a b" "aligned a" "aligned b" "i \<in> task_ids b"
  shows "\<exists>r. sge_task_depend_get_range None a b i = Some (Inr r) \<and> range_ids r = {x \<in> task_ids a. covers a x \<inter> covers b i \<noteq> {}} \<and>
    (\<forall>x \<in> task_ids a. \<exists>q. sge_task_depend_get_range None b a x = Some (Inr q) \<and> (i \<in> range_ids q \<longleftrightarrow> x \<in> range_ids r))"
proof -
  obtain r where r: "sge_task_depend_get_range None a b i = Some (Inr r)" "range_ids r = {x \<in> task_ids a. overlap a x b i}"
    using task_depend_get_range_overlap[OF assms] by metis
  have "\<exists>q. sge_task_depend_get_range None b a x = Some (Inr q) \<and> (i \<in> range_ids q \<longleftrightarrow> x \<in> range_ids r)" if x: "x \<in> task_ids a" for x
  proof -
    have "sge_task_depend_is_same_range b a" using assms(1) same_range_sym by blast
    then obtain q where "sge_task_depend_get_range None b a x = Some (Inr q)" "range_ids q = {y \<in> task_ids b. overlap b y a x}"
      using task_depend_get_range_overlap[OF _ assms(3,2) x] by metis
    then show ?thesis using r(2) x assms(4) overlap_sym[of a x b i] by auto
  qed
  then show ?thesis using r by (auto simp: overlap_def)
qed

theorem depends_on_overlapping_tasks_witness:
  "\<exists>r. sge_task_depend_get_range None pre_job suc_job 9 = Some (Inr r) \<and> range_ids r = {7} \<and>
     (\<exists>q. sge_task_depend_get_range None suc_job pre_job 7 = Some (Inr q) \<and> 9 \<in> range_ids q)"
proof -
  have "{x \<in> task_ids pre_job. covers pre_job x \<inter> covers suc_job 9 \<noteq> {}} = {7}"
    by (auto simp: dep_sets covers_def dep_ids)
  then show ?thesis using depends_on_overlapping_tasks[OF dep_sets(7,4,5), of 9] by (simp add: dep_sets) blast
qed

section \<open>Submission\<close>

lemma resolve_total: "\<exists>r. resolve_predecessors lib m j req nums = Some r"
proof (induction req arbitrary: nums)
  case (Cons p req)
  have "\<exists>nums'. foldo (\<lambda>u nums. do { result \<leftarrow> string_base_cmp lib RESTR p (JB_job_name u);
      Some (if result = 0 \<and> JB_job_number u \<noteq> JB_job_number j then nums @ [JB_job_number u] else nums) }) us nums = Some nums'" for us nums
  proof (induction us arbitrary: nums)
    case (Cons u us)
    then show ?case using eval_expression_ends[of lib RESTR "Some p" "Some (JB_job_name u)" None False False] by (auto simp: string_base_cmp_def)
  qed simp
  then obtain more where "jobs_matching lib m j p = Some more" unfolding jobs_matching_def by blast
  then show ?case using Cons by simp
qed simp

lemma predecessors_fit_fits:
  assumes "wf_jobs m" "predecessors_fit m j ps"
  shows "fits m j ps"
  using assms(2)
proof (induction ps)
  case (Cons p ps)
  then show ?case using assms(1) by (auto simp: fits_def wf_jobs_def split: option.splits)
qed (simp add: fits_def)

definition set_up :: "array_job list \<Rightarrow> array_job \<Rightarrow> array_job \<Rightarrow> bool" where
  \<comment> \<open>the second job is the first one with predecessors and settled holds\<close>
  "set_up m j j' \<longleftrightarrow>
    (\<forall>i \<in> task_ids j. \<not> finished j i \<longrightarrow>
       (ad_held j' i \<longleftrightarrow> (\<exists>p \<in> set (JB_ja_ad_predecessor_list j'). \<exists>a. job_numbered p m = Some a \<and>
          (\<exists>x \<in> task_ids a. covers a x \<inter> covers j i \<noteq> {} \<and> \<not> finished a x)))) \<and>
    (\<forall>i. other_holds j' i = other_holds j i) \<and> finished j' = finished j"

lemma set_upI:
  assumes "only_at ks (j\<lparr>JB_ja_ad_predecessor_list := nums\<rparr>) k" "settled m k UNIV"
  shows "set_up m j k"
proof -
  note v = keeps_view[OF only_at_keeps[OF assms(1)]]
  have same: "task_ids (j\<lparr>JB_ja_ad_predecessor_list := nums\<rparr>) = task_ids j" "finished (j\<lparr>JB_ja_ad_predecessor_list := nums\<rparr>) = finished j"
      "other_holds (j\<lparr>JB_ja_ad_predecessor_list := nums\<rparr>) i = other_holds j i"
      "overlap b y (j\<lparr>JB_ja_ad_predecessor_list := nums\<rparr>) i = overlap b y j i" for b y i
    by (simp_all add: fun_eq_iff task_ids_def finished_def other_holds_def overlap_def covers_def)
  have "waits_for m k i ps = waits_for m j i ps" for i ps
    unfolding waits_for_def v(6) same(4) ..
  then show ?thesis using assms v(1,3) same by (auto simp: settled_def only_at_def set_up_def waits_for_def overlap_def)
qed

lemma set_up_without:
  assumes "ad_job j" "JB_ja_ad_request_list j \<noteq> []"
  shows "\<exists>ret k es. sge_task_depend_flush (j\<lparr>JB_ja_ad_predecessor_list := []\<rparr>) = Some (ret, k, es) \<and> set_up m j k"
proof -
  have "ad_job (j\<lparr>JB_ja_ad_predecessor_list := []\<rparr>)" using assms(1) by (simp add: ad_job_def aligned_def)
  then obtain ret k es where k: "sge_task_depend_flush (j\<lparr>JB_ja_ad_predecessor_list := []\<rparr>) = Some (ret, k, es)"
      "only_at UNIV (j\<lparr>JB_ja_ad_predecessor_list := []\<rparr>) k" "\<And>i. \<not> ad_held k i"
    using depend_flush_correct[of "j\<lparr>JB_ja_ad_predecessor_list := []\<rparr>"] assms(2) by auto
  have "settled m k UNIV" using k(3) keeps_view(11)[OF only_at_keeps[OF k(2)]] by (simp add: settled_def waits_for_def)
  then show ?thesis using set_upI[OF k(2)] k(1) by blast
qed

lemma set_up_with:
  assumes "wf_jobs m" "ad_job j" "JB_ja_ad_request_list j \<noteq> []" "nums \<noteq> []" "predecessors_fit m j nums"
  shows "\<exists>ret k es. sge_task_depend_init m (j\<lparr>JB_ja_ad_predecessor_list := nums\<rparr>) = Some (ret, k, es) \<and> set_up m j k"
proof -
  have "ad_job (j\<lparr>JB_ja_ad_predecessor_list := nums\<rparr>)" using assms(2) by (simp add: ad_job_def aligned_def)
  moreover have "sge_task_depend_is_same_range a (j\<lparr>JB_ja_ad_predecessor_list := nums\<rparr>) = sge_task_depend_is_same_range a j" for a
    by (simp add: sge_task_depend_is_same_range_def job_is_array_def)
  then have "fits m (j\<lparr>JB_ja_ad_predecessor_list := nums\<rparr>) nums"
    using predecessors_fit_fits[OF assms(1,5)] by (simp add: fits_def)
  ultimately obtain ret k es where "sge_task_depend_init m (j\<lparr>JB_ja_ad_predecessor_list := nums\<rparr>) = Some (ret, k, es)"
      "only_at (task_ids (j\<lparr>JB_ja_ad_predecessor_list := nums\<rparr>)) (j\<lparr>JB_ja_ad_predecessor_list := nums\<rparr>) k" "settled m k UNIV"
    using depend_init_correct[of "j\<lparr>JB_ja_ad_predecessor_list := nums\<rparr>" m] assms(3,4) by auto
  then show ?thesis using set_upI by blast
qed

text \<open>C31. When the predecessors of a job are set, with a request that names at least one, the function returns, and the
  request is refused or every task that is not finished is held for dependencies exactly if one of the tasks it
  depends on is not finished; the other holds and the finished tasks stay as they were. This needs jobs, the
  new one and those in the master list, whose id lists are consistent, whose step divides their range without a
  rest and whose finished tasks have no parallel tasks left, and jobs in the list whose predecessors have the
  same range. Without them the last task stays held (\<open>last_task_stays_held\<close>) or the daemon aborts
  (\<open>parallel_task_aborts\<close>).\<close>

theorem submitted_dependencies_are_settled:
  assumes "wf_jobs m" "ad_job j" "JB_ja_ad_request_list j \<noteq> []"
  shows "\<exists>r. job_verify_predecessors_ad lib m j = Some r \<and> (case r of Inl e \<Rightarrow> e = STATUS_EUNKNOWN | Inr (j', evs) \<Rightarrow> set_up m j j')"
proof -
  obtain r where r: "resolve_predecessors lib m j (JB_ja_ad_request_list j) [] = Some r" using resolve_total by blast
  have e: "e = STATUS_EUNKNOWN" if "resolve_predecessors lib m j req nums = Some (Inl e)" for e req nums
    using that by (induction req arbitrary: nums) (auto split: if_splits Option.bind_splits)
  show ?thesis
  proof (cases r)
    case (Inl err)
    then show ?thesis using r e by (auto simp: job_verify_predecessors_ad_def)
  next
    case (Inr nums)
    show ?thesis
    proof (cases "nums = []")
      case True
      then show ?thesis using r Inr set_up_without[OF assms(2,3), of m] by (auto simp: job_verify_predecessors_ad_def)
    next
      case False
      then show ?thesis
        using r Inr set_up_with[OF assms False] by (cases "predecessors_fit m j nums") (auto simp: job_verify_predecessors_ad_def)
    qed
  qed
qed

lemma dep_numbered:
  "job_numbered n [pre_job] = (if n = 5 then Some pre_job else None)"
  "job_numbered n [pre_job, suc_held] = (if n = 5 then Some pre_job else if n = 6 then Some suc_held else None)"
  by (simp_all add: job_numbered_def pre_job_def suc_held_def suc_job_def)

lemma dep_wf: "wf_jobs [pre_job]" "wf_jobs [pre_job, suc_held]"
proof -
  have "JB_ja_ad_predecessor_list pre_job = []" "JB_ja_ad_predecessor_list suc_held = [5]" by code_simp+
  then show "wf_jobs [pre_job]" "wf_jobs [pre_job, suc_held]"
    using dep_inv dep_sets(8) by (auto simp: wf_jobs_def fits_def dep_numbered split: if_splits)
qed

lemma dep_verified: "job_verify_predecessors_ad no_matchers [pre_job] suc_job = Some (Inr (suc_held, []))"
  by code_simp

theorem submitted_dependencies_are_settled_witness: "set_up [pre_job] suc_job suc_held"
proof -
  have "JB_ja_ad_request_list suc_job \<noteq> []" by code_simp
  then show ?thesis
    using submitted_dependencies_are_settled[OF dep_wf(1) dep_inv(2), of no_matchers] dep_verified by simp
qed

section \<open>Tasks that finish\<close>

text \<open>C30. \<open>release_successor_tasks_ad\<close>, the first thing that finishing a task does to its successors, keeps the
  holds right: if in all jobs exactly those tasks are held for dependencies that depend on a task that is not
  finished, then this is so again after the task was marked as finished and \<open>release_successor_tasks_ad\<close> has
  updated the tasks that depend on it. Only tasks of its successors that overlap it are touched. The jobs in the
  master list have consistent id lists, a step that divides their range without a rest, finished tasks
  without parallel tasks and predecessors of the same range; the finishing task has no parallel tasks left, its job
  is no predecessor of itself, every job that names it as a predecessor is registered as its successor, and its
  successors have the same range. The call of \<open>release_successor_jobs_ad\<close> that follows in the code is not
  part of the statement: it drops the dependency altogether (\<open>first_finished_task_drops_dependency\<close>).\<close>

theorem finished_task_releases_successors:
  assumes "finishing m n a x" "all_settled m"
  shows "\<exists>m' evs. release_successor_tasks_ad (finish_task x a) x (put_job (finish_task x a) m, []) = Some (m', evs) \<and> wf_jobs m' \<and>
    (\<forall>k b. job_numbered k m' = Some b \<longrightarrow> (\<forall>i \<in> task_ids b. \<not> finished b i \<longrightarrow>
       (ad_held b i \<longleftrightarrow> (\<exists>p \<in> set (JB_ja_ad_predecessor_list b). \<exists>c. job_numbered p m' = Some c \<and>
          (\<exists>y \<in> task_ids c. covers c y \<inter> covers b i \<noteq> {} \<and> \<not> finished c y))))) \<and>
    (\<forall>k b. k \<noteq> n \<longrightarrow> job_numbered k m = Some b \<longrightarrow> (\<exists>b'. job_numbered k m' = Some b' \<and> (\<forall>i. other_holds b' i = other_holds b i) \<and>
       (\<forall>i. \<not> overlap b i a x \<longrightarrow> ad_held b' i = ad_held b i)))"
proof -
  obtain m' evs where r: "release_successor_tasks_ad (finish_task x a) x (put_job (finish_task x a) m, []) = Some (m', evs)"
      "wf_jobs m'" "all_settled m'"
      "jobs_only_at (\<lambda>k. if k \<in> set (JB_ja_ad_successor_list a) then touched (put_job (finish_task x a) m) (finish_task x a) x k else {})
         (put_job (finish_task x a) m) m'"
    using release_settles[OF assms] .
  have "\<exists>b'. job_numbered k m' = Some b' \<and> (\<forall>i. other_holds b' i = other_holds b i) \<and> (\<forall>i. \<not> overlap b i a x \<longrightarrow> ad_held b' i = ad_held b i)"
    if k: "k \<noteq> n" "job_numbered k m = Some b" for k b
  proof -
    have l: "job_numbered k (put_job (finish_task x a) m) = Some b" using k finishing_lookup[OF assms(1)] by simp
    then show ?thesis
      using jobs_only_atD(1)[OF r(4) l] by (auto simp: only_at_def touched_def finish_task_overlap)
  qed
  then show ?thesis using r(1-3) by (auto simp: all_settled_def settled_in_def settled_def waits_for_def overlap_def)
qed

lemma dep_finishing: "finishing [pre_job, suc_held] 5 pre_job 3"
proof -
  have "\<forall>t \<in> set (tasks (ja pre_job)). JAT_task_list t = []" by (simp add: pre_job_def tasks_def running_task_def)
  then have "JAT_task_list t = []" if "job_search_task (ja pre_job) 3 = Some t" for t
    using job_search_task_mem[OF that] by blast
  moreover have "JB_job_number pre_job = 5" "JB_ja_ad_predecessor_list pre_job = []" "JB_ja_ad_successor_list pre_job = [6]" by code_simp+
  ultimately show ?thesis
    using dep_wf(2) dep_sets by (auto simp: finishing_def linked_def dep_numbered split: if_splits)
qed

lemma dep_settled: "all_settled [pre_job, suc_held]"
proof -
  have "settled [pre_job, suc_held] pre_job UNIV"
  proof -
    have "job_get_hold_state (ja pre_job) 3 = Some 0" "job_get_hold_state (ja pre_job) 7 = Some 0" "JB_ja_ad_predecessor_list pre_job = []" by code_simp+
    then show ?thesis by (auto simp: settled_def dep_sets ad_held_def waits_for_def)
  qed
  moreover have "settled [pre_job, suc_held] suc_held UNIV"
  proof -
    have held: "ad_held suc_held i" if "i \<in> {3, 5, 7, 9}" for i
    proof -
      have "job_get_hold_state (ja suc_held) 3 = Some 8" "job_get_hold_state (ja suc_held) 5 = Some 8"
        "job_get_hold_state (ja suc_held) 7 = Some 8" "job_get_hold_state (ja suc_held) 9 = Some 8" by code_simp+
      then show ?thesis using that by (auto simp: ad_held_def hold_masks)
    qed
    have un: "task_depend_is_finished pre_job 3 = Some False" "task_depend_is_finished pre_job 7 = Some False" by code_simp+
    have pre: "JB_ja_ad_predecessor_list suc_held = [5]" by code_simp
    have "waits_for [pre_job, suc_held] suc_held i [5]" if "i \<in> {3, 5, 7, 9}" for i
    proof -
      have "overlap pre_job (if i < 7 then 3 else 7) suc_held i" using that by (auto simp: overlap_def covers_def dep_ids)
      moreover have "\<not> finished pre_job (if i < 7 then 3 else 7)" using un task_depend_is_finished_correct[OF dep_inv(1)] by simp
      moreover have "(if i < 7 then 3 else 7) \<in> task_ids pre_job" by (simp add: dep_sets)
      ultimately have "\<exists>x \<in> task_ids pre_job. overlap pre_job x suc_held i \<and> \<not> finished pre_job x" by blast
      then show ?thesis by (simp add: waits_for_def dep_numbered)
    qed
    then show ?thesis using held pre by (auto simp: settled_def dep_sets)
  qed
  ultimately show ?thesis by (auto simp: all_settled_def settled_in_def dep_numbered split: if_splits)
qed

theorem finished_task_releases_successors_witness:
  "\<exists>m' evs b. release_successor_tasks_ad (finish_task 3 pre_job) 3 (put_job (finish_task 3 pre_job) [pre_job, suc_held], []) = Some (m', evs) \<and>
     job_numbered 6 m' = Some b \<and> ad_held b 9"
proof -
  obtain m' evs where m': "release_successor_tasks_ad (finish_task 3 pre_job) 3 (put_job (finish_task 3 pre_job) [pre_job, suc_held], []) = Some (m', evs)"
      "\<And>k b. k \<noteq> 5 \<Longrightarrow> job_numbered k [pre_job, suc_held] = Some b \<Longrightarrow>
         \<exists>b'. job_numbered k m' = Some b' \<and> (\<forall>i. \<not> overlap b i pre_job 3 \<longrightarrow> ad_held b' i = ad_held b i)"
    using finished_task_releases_successors[OF dep_finishing dep_settled] by (elim exE conjE) metis
  have "\<not> overlap suc_held 9 pre_job 3" by (simp add: overlap_def covers_def dep_ids)
  moreover have "ad_held suc_held 9" unfolding ad_held_def by code_simp
  ultimately show ?thesis using m'(1) m'(2)[of 6 suc_held] by (auto simp: dep_numbered)
qed

section \<open>What the code does otherwise\<close>

text \<open>\<^verbatim>\<open>sge_finish_ja_task\<close> calls \<^verbatim>\<open>release_successor_jobs_ad\<close> for every task, not only for the last one of the job:
  when the first task finishes, the dependency on the whole job is dropped, and tasks are released that depend on a task that still runs.\<close>

lemma first_finished_task_drops_dependency:
  "commit_finished True 5 3 [pre_job, suc_held] =
     Some ([set_task 3 (JAT_status_update (\<lambda>_. JFINISHED)) pre_job, suc_job], [sgeE_JOB_MOD 6, sgeE_JOB_MOD 6, sgeE_JATASK_MOD 5 3]) \<and>
   task_depend_is_finished (set_task 3 (JAT_status_update (\<lambda>_. JFINISHED)) pre_job) 7 = Some False \<and>
   sge_task_depend_get_range None pre_job suc_job 9 = Some (Inr \<lparr>RN_min = 7, RN_max = 7, RN_step = 1\<rparr>) \<and>
   job_get_hold_state (ja suc_job) 9 = Some 0"
  by (intro conjI; code_simp)

text \<open>A finished task that still has parallel tasks makes the daemon abort when its successors are updated, since the code
  looks for \<^verbatim>\<open>JB_ja_tasks\<close> in an element of type \<^verbatim>\<open>PET_Type\<close>.\<close>

lemma parallel_task_aborts:
  "commit_finished True 5 3 [set_task 3 (JAT_task_list_update (\<lambda>_. [\<lparr>PET_id = PE_TASK_PAST_USAGE_CONTAINER, PET_status = JFINISHED\<rparr>])) pre_job, suc_held] = None"
  by code_simp

text \<open>If the last task of the successor covers indices behind the range, its dependencies are taken for unknown, and
  it stays held although all tasks of the predecessor are finished.\<close>

definition all_finished_job :: array_job where
  "all_finished_job = pre_job\<lparr>ja := (ja pre_job)\<lparr>JB_ja_structure := ids_from 3 9 2, JB_ja_tasks := None\<rparr>\<rparr>"

definition unaligned_job :: array_job where
  "unaligned_job = suc_held\<lparr>ja := (ja suc_held)\<lparr>JB_ja_structure := ids_from 3 9 3, JB_ja_a_h_ids := ids_from 3 9 3\<rparr>\<rparr>"

lemma last_task_stays_held:
  "sge_task_depend_is_same_range all_finished_job unaligned_job \<and> unfinished_in all_finished_job \<lparr>RN_min = 3, RN_max = 9, RN_step = 2\<rparr> = Some False \<and>
   sge_task_depend_get_range None all_finished_job unaligned_job 9 = Some (Inl STATUS_EUNKNOWN) \<and>
   sge_task_depend_update [all_finished_job] unaligned_job 9 = Some (False, unaligned_job, []) \<and>
   job_get_hold_state (ja unaligned_job) 9 = Some MINUS_H_TGT_JA_AD"
  by (intro conjI; code_simp)

end
