(* ===== verification/Calendar.thy ===== *)
theory Calendar
  imports QueueStates
begin

text \<open>
  The calendars of the scheduler, from the parsed form on: the times, ranges and
  entries of a calendar (\<^verbatim>\<open>TM_Type\<close>, \<^verbatim>\<open>TMR_Type\<close>,
  \<^verbatim>\<open>CA_Type\<close>, \<^verbatim>\<open>CAL_Type\<close>), the operations on ranges the parser ends
  with (splitting at midnight and at the end of the week, joining, normalising), and the
  evaluation of a calendar at a point in time: is an entry active, when will that
  change, which state does the calendar ask for, and is it open during a time frame.

  The fields of \<^verbatim>\<open>TM_Type\<close> are 32 bit words, compared by a difference read as a signed number.
  \<^verbatim>\<open>localtime_r\<close> and \<^verbatim>\<open>mktime\<close> depend on the time zone of the host
  and are arguments of the definitions that call them; times (\<^verbatim>\<open>time_t\<close>) are integers.
  A list of \<^verbatim>\<open>TM_Type\<close> in a range holds at most one element: the begin of a range
  is a time, its end a time option. \<open>None\<close> as the result of an operation stands for the
  abort of \<^verbatim>\<open>lGetUlong\<close> on a null element, or for a recursion or loop that does not end.
\<close>

section \<open>Times, ranges and entries\<close>

record struct_tm =
  tm_sec :: int
  tm_min :: int
  tm_hour :: int
  tm_mday :: int
  tm_mon :: int
  tm_year :: int
  tm_wday :: int
  tm_yday :: int
  tm_isdst :: int

record tm =
  TM_mday :: "32 word"
  TM_mon :: "32 word"
  TM_year :: "32 word"
  TM_sec :: "32 word"
  TM_min :: "32 word"
  TM_hour :: "32 word"
  TM_wday :: "32 word"
  TM_yday :: "32 word"
  TM_isdst :: "32 word"

record tmr =
  TMR_begin :: tm
  TMR_end :: "tm option"

record ca =
  CA_yday_range_list :: "tmr list option"
  CA_wday_range_list :: "tmr list option"
  CA_daytime_range_list :: "tmr list option"
  CA_state :: "32 word"

text \<open>\<^verbatim>\<open>lCreateElem (TM_Type)\<close>: all fields are zero.\<close>

definition new_tm :: tm where
  "new_tm = \<lparr>TM_mday = 0, TM_mon = 0, TM_year = 0, TM_sec = 0, TM_min = 0, TM_hour = 0, TM_wday = 0, TM_yday = 0, TM_isdst = 0\<rparr>"

definition cullify_tm :: "struct_tm \<Rightarrow> tm" where
  "cullify_tm t =
     \<lparr>TM_mday = word_of_int (tm_mday t), TM_mon = word_of_int (tm_mon t), TM_year = word_of_int (tm_year t),
      TM_sec = word_of_int (tm_sec t), TM_min = word_of_int (tm_min t), TM_hour = word_of_int (tm_hour t),
      TM_wday = word_of_int (tm_wday t), TM_yday = word_of_int (tm_yday t), TM_isdst = word_of_int (tm_isdst t)\<rparr>"

definition uncullify_tm :: "tm \<Rightarrow> struct_tm" where
  "uncullify_tm t =
     \<lparr>tm_sec = sint (TM_sec t), tm_min = sint (TM_min t), tm_hour = sint (TM_hour t),
      tm_mday = sint (TM_mday t), tm_mon = sint (TM_mon t), tm_year = sint (TM_year t),
      tm_wday = sint (TM_wday t), tm_yday = sint (TM_yday t), tm_isdst = sint (TM_isdst t)\<rparr>"

section \<open>Comparing times\<close>

type_synonym cmp_func = "tm \<Rightarrow> tm \<Rightarrow> int"

definition tm_yday_cmp :: cmp_func where
  "tm_yday_cmp t1 t2 =
     (let t = sint (TM_year t1 - TM_year t2) in
      if t \<noteq> 0 then t
      else let t = sint (TM_mon t1 - TM_mon t2) in
      if t \<noteq> 0 then t
      else sint (TM_mday t1 - TM_mday t2))"

definition tm_wday_cmp :: cmp_func where
  "tm_wday_cmp t1 t2 = sint (TM_wday t1 - TM_wday t2)"

definition tm_daytime_cmp :: cmp_func where
  "tm_daytime_cmp t1 t2 =
     (let t = sint (TM_hour t1 - TM_hour t2) in
      if t \<noteq> 0 then t
      else let t = sint (TM_min t1 - TM_min t2) in
      if t \<noteq> 0 then t
      else sint (TM_sec t1 - TM_sec t2))"

section \<open>Membership in ranges\<close>

definition in_range :: "tm \<Rightarrow> tmr \<Rightarrow> cmp_func \<Rightarrow> bool" where
  "in_range t r cmp_func =
     (case TMR_end r of
        Some t2 \<Rightarrow> cmp_func (TMR_begin r) t \<le> 0 \<and> cmp_func t t2 \<le> 0
      | None \<Rightarrow> cmp_func (TMR_begin r) t = 0)"

definition in_range_list :: "tm \<Rightarrow> tmr list option \<Rightarrow> cmp_func \<Rightarrow> bool" where
  "in_range_list t rl cmp_func =
     (case rl of None \<Rightarrow> True | Some rs \<Rightarrow> list_ex (\<lambda>r. in_range t r cmp_func) rs)"

section \<open>Normalising a list of ranges\<close>

definition overlapping :: "cmp_func \<Rightarrow> tmr \<Rightarrow> tmr \<Rightarrow> bool" where
  "overlapping cmp_func r q =
     (in_range (TMR_begin r) q cmp_func \<or>
      (case TMR_end r of Some r2 \<Rightarrow> in_range r2 q cmp_func | None \<Rightarrow> False) \<or>
      in_range (TMR_begin q) r cmp_func \<or>
      (case TMR_end q of Some q2 \<Rightarrow> in_range q2 r cmp_func | None \<Rightarrow> False))"

text \<open>
  Both ends are swapped into \<open>r\<close>. The maximum of the ends compares null pointers unless
  \<open>q\<close> has an end, and then the comparison aborts.
\<close>

definition combine_ranges :: "cmp_func \<Rightarrow> tmr \<Rightarrow> tmr \<Rightarrow> tmr option" where
  "combine_ranges cmp_func r q =
     (let b = (if cmp_func (TMR_begin r) (TMR_begin q) > 0 then TMR_begin q else TMR_begin r) in
      case (TMR_end r, TMR_end q) of
        (_, None) \<Rightarrow> None
      | (None, Some q2) \<Rightarrow> Some \<lparr>TMR_begin = b, TMR_end = Some q2\<rparr>
      | (Some r2, Some q2) \<Rightarrow> Some \<lparr>TMR_begin = b, TMR_end = Some (if cmp_func r2 q2 < 0 then q2 else r2)\<rparr>)"

text \<open>
  The inner loop over the elements after \<open>r\<close>: \<open>ps\<close> are the elements between \<open>r\<close> and the
  current \<open>q\<close>. After a merge the loop starts again right behind \<open>r\<close>.
\<close>

function merge_loop :: "cmp_func \<Rightarrow> tmr \<Rightarrow> tmr list \<Rightarrow> tmr list \<Rightarrow> (tmr \<times> tmr list) option" where
  "merge_loop cmp_func r ps [] = Some (r, ps)"
| "merge_loop cmp_func r ps (q # qs) =
     (if overlapping cmp_func r q then
        (case combine_ranges cmp_func r q of
           None \<Rightarrow> None
         | Some r' \<Rightarrow> merge_loop cmp_func r' [] (ps @ qs))
      else merge_loop cmp_func r (ps @ [q]) qs)"
  by pat_completeness auto
termination
  by (relation "measures [\<lambda>(c, r, ps, qs). length ps + length qs, \<lambda>(c, r, ps, qs). length qs]") auto

lemma merge_loop_length: "merge_loop cmp_func r ps qs = Some (r', rest) \<Longrightarrow> length rest \<le> length ps + length qs"
  by (induction cmp_func r ps qs rule: merge_loop.induct) (fastforce split: if_splits option.splits)+

function normalize_range_list :: "cmp_func \<Rightarrow> tmr list \<Rightarrow> tmr list option" where
  "normalize_range_list cmp_func [] = Some []"
| "normalize_range_list cmp_func (r # rl) =
     (case merge_loop cmp_func r [] rl of
        None \<Rightarrow> None
      | Some (r', rest) \<Rightarrow> map_option ((#) r') (normalize_range_list cmp_func rest))"
  by pat_completeness auto
termination
  by (relation "measure (\<lambda>(c, rl). length rl)") (auto dest: merge_loop_length)

section \<open>The whole day and the whole week\<close>

definition full_daytime_range :: "tmr list" where
  "full_daytime_range = [\<lparr>TMR_begin = new_tm\<lparr>TM_hour := 0\<rparr>, TMR_end = Some (new_tm\<lparr>TM_hour := 24\<rparr>)\<rparr>]"

definition full_weekday_range :: "tmr list" where
  "full_weekday_range = [\<lparr>TMR_begin = new_tm\<lparr>TM_wday := 0\<rparr>, TMR_end = Some (new_tm\<lparr>TM_wday := 6\<rparr>)\<rparr>]"

section \<open>Splitting ranges that end before they begin\<close>

text \<open>
  Both functions split the range that was appended last: the list without it, the range.
\<close>

definition split_daytime_range :: "tmr list \<Rightarrow> tmr \<Rightarrow> tmr list" where
  "split_daytime_range dtrl r =
     (case TMR_end r of
        None \<Rightarrow> dtrl @ [r]
      | Some t2 \<Rightarrow>
          if tm_daytime_cmp (TMR_begin r) t2 > 0
          then dtrl @ [r\<lparr>TMR_end := Some (new_tm\<lparr>TM_hour := 24\<rparr>)\<rparr>, \<lparr>TMR_begin = new_tm\<lparr>TM_hour := 0\<rparr>, TMR_end = Some t2\<rparr>]
          else dtrl @ [r])"

definition split_wday_range :: "tmr list \<Rightarrow> tmr \<Rightarrow> tmr list" where
  "split_wday_range wdrl r =
     (case TMR_end r of
        None \<Rightarrow> wdrl @ [r]
      | Some t2 \<Rightarrow>
          if tm_wday_cmp (TMR_begin r) t2 > 0
          then wdrl @ [r\<lparr>TMR_end := Some (new_tm\<lparr>TM_wday := 6\<rparr>)\<rparr>, \<lparr>TMR_begin = new_tm\<lparr>TM_wday := 0\<rparr>, TMR_end = Some t2\<rparr>]
          else wdrl @ [r])"

section \<open>Joining and extending ranges of week days\<close>

definition begin_wday :: "tmr \<Rightarrow> 32 word" where
  "begin_wday r = TM_wday (TMR_begin r)"

definition end_wday :: "tmr \<Rightarrow> 32 word" where
  "end_wday r = (case TMR_end r of Some e \<Rightarrow> TM_wday e | None \<Rightarrow> begin_wday r)"

text \<open>
  The body of the inner loop, for a range \<open>r\<close> that was \<open>r0\<close> when the loop began:
  \<^verbatim>\<open>begin1\<close>, \<^verbatim>\<open>end1\<close> and \<^verbatim>\<open>endList1\<close> are read once. The first part of the
  result says whether \<open>q\<close> is removed.
\<close>

definition join_step :: "tmr \<Rightarrow> tmr \<Rightarrow> tmr \<Rightarrow> bool \<times> tmr" where
  "join_step r0 q r =
     (if begin_wday q \<le> end_wday r0 + 1 \<and> begin_wday r0 \<le> begin_wday q then
        (True,
         if end_wday r0 < end_wday q then
           (case TMR_end r0 of
              Some _ \<Rightarrow> r\<lparr>TMR_end := map_option (\<lambda>e. e\<lparr>TM_wday := end_wday q\<rparr>) (TMR_end r)\<rparr>
            | None \<Rightarrow> r\<lparr>TMR_end := TMR_end q\<rparr>)
         else r)
      else (False, r))"

fun join_inner :: "tmr \<Rightarrow> tmr list \<Rightarrow> tmr \<Rightarrow> tmr list \<times> tmr" where
  "join_inner r0 [] r = ([], r)"
| "join_inner r0 (q # qs) r =
     (let (gone, r') = join_step r0 q r; (qs', r'') = join_inner r0 qs r' in
      (if gone then qs' else q # qs', r''))"

text \<open>
  The outer loop with the ranges before and after the current one: the inner loop walks
  through both, and the loop goes on with the first range left after the current one.
\<close>

lemma join_inner_length: "join_inner r0 qs r = (qs', r') \<Longrightarrow> length qs' \<le> length qs"
  by (induction qs arbitrary: r qs' r') (fastforce simp: Let_def split: prod.splits if_splits)+

function join_outer :: "tmr list \<Rightarrow> tmr list \<Rightarrow> tmr list" where
  "join_outer front [] = front"
| "join_outer front (r # back) =
     (let (front', r1) = join_inner r front r; (back', r2) = join_inner r back r1 in
      join_outer (front' @ [r2]) back')"
  by pat_completeness auto
termination
  by (relation "measure (\<lambda>(b, a). length a)") (auto dest!: join_inner_length[OF sym])

definition join_wday_range :: "tmr list \<Rightarrow> tmr list" where
  "join_wday_range week_day = join_outer [] week_day"

definition extend_step :: "tmr \<Rightarrow> tmr \<Rightarrow> tmr \<Rightarrow> tmr" where
  "extend_step r0 q r =
     (if end_wday r0 = 6 \<and> begin_wday q = 0 then
        r\<lparr>TMR_end := Some ((case TMR_end r of Some e \<Rightarrow> e | None \<Rightarrow> TMR_begin r)\<lparr>TM_wday := end_wday r0 + 1 + end_wday q\<rparr>)\<rparr>
      else r)"

fun extend_outer :: "tmr list \<Rightarrow> tmr list \<Rightarrow> tmr list" where
  "extend_outer front [] = front"
| "extend_outer front (r # back) = extend_outer (front @ [fold (extend_step r) (front @ back) r]) back"

definition extend_wday_range :: "tmr list \<Rightarrow> tmr list" where
  "extend_wday_range week_day = extend_outer [] week_day"

section \<open>When the state of an entry changes\<close>

definition is_full_day_range :: "tmr \<Rightarrow> bool option" where
  "is_full_day_range r =
     (case TMR_end r of
        None \<Rightarrow> None
      | Some e \<Rightarrow> Some (TM_sec e = 0 \<and> TM_min e = 0 \<and> TM_hour e = 24 \<and>
                        TM_sec (TMR_begin r) = 0 \<and> TM_min (TMR_begin r) = 0 \<and> TM_hour (TMR_begin r) = 0))"

text \<open>The end of the day range that is active, year calendar: its end, or the day itself.\<close>

fun active_year_end :: "tm \<Rightarrow> tmr list \<Rightarrow> tm option" where
  "active_year_end now [] = None"
| "active_year_end now (r # rs) =
     (if in_range now r tm_yday_cmp
      then Some (case TMR_end r of Some e \<Rightarrow> e | None \<Rightarrow> TMR_begin r)
      else active_year_end now rs)"

text \<open>
  The same for the week calendar, where the end is counted in days from now. The flag is
  \<^verbatim>\<open>is_allways_inactive\<close>: every range seen so far covers the whole week.
\<close>

fun active_week_end :: "bool \<Rightarrow> tm \<Rightarrow> bool \<Rightarrow> tmr list \<Rightarrow> bool \<times> tm option" where
  "active_week_end is_full_day now always [] = (always, None)"
| "active_week_end is_full_day now always (r # rs) =
     (let always' = (always \<and> is_full_day \<and>
                     (case TMR_end r of Some e \<Rightarrow> TM_wday e - TM_wday (TMR_begin r) = 6 | None \<Rightarrow> False)) in
      if in_range now r tm_wday_cmp
      then (always', Some (now\<lparr>TM_mday := TM_mday now + (end_wday r - TM_wday now)\<rparr>))
      else active_week_end is_full_day now always' rs)"

text \<open>The loops that look for the nearest begin of a range.\<close>

fun nearest_begin :: "(tm \<Rightarrow> bool) \<Rightarrow> cmp_func \<Rightarrow> tmr list \<Rightarrow> tm option \<Rightarrow> tm option" where
  "nearest_begin P cmp_func [] lep = lep"
| "nearest_begin P cmp_func (r # rs) lep =
     nearest_begin P cmp_func rs
       (if P (TMR_begin r) \<and> (case lep of None \<Rightarrow> True | Some l \<Rightarrow> cmp_func l (TMR_begin r) > 0)
        then Some (TMR_begin r) else lep)"

definition inactive_week_begin :: "tm \<Rightarrow> tmr list \<Rightarrow> tm option" where
  "inactive_week_begin now week_time =
     (let lep = nearest_begin (\<lambda>b. tm_wday_cmp now b < 0) tm_wday_cmp week_time None;
          is_next_week = (lep = None);
          lep = (if is_next_week then nearest_begin (\<lambda>b. True) tm_wday_cmp week_time None else lep) in
      map_option (\<lambda>l. l\<lparr>TM_mday := (if is_next_week then TM_mday now + (7 - TM_wday now) + TM_wday l
                                    else TM_mday now + (TM_wday l - TM_wday now)),
                        TM_mon := TM_mon now, TM_year := TM_year now\<rparr>) lep)"

text \<open>
  The first half of \<^verbatim>\<open>compute_limit\<close>: the day of the next change. \<open>Next_Never\<close> is
  the early return for an entry that covers the whole week, \<open>Next_None\<close> a year calendar
  with no range to come.
\<close>

datatype next_day = Next_Never | Next_None | Next_Day tm

definition compute_limit_day ::
    "bool \<Rightarrow> bool \<Rightarrow> tmr list option \<Rightarrow> tmr list option \<Rightarrow> tm \<Rightarrow> next_day option" where
  "compute_limit_day is_full_day active year_time week_time now =
     (if active then
        (let last = (\<lambda>l. Next_Day (l\<lparr>TM_sec := 59, TM_min := 59, TM_hour := 23, TM_isdst := - 1\<rparr>)) in
         case (year_time, week_time) of
           (Some ys, _) \<Rightarrow> map_option last (active_year_end now ys)
         | (None, Some ws) \<Rightarrow>
             (case active_week_end is_full_day now True ws of
                (always, lep) \<Rightarrow> if always then Some Next_Never else map_option last lep)
         | (None, None) \<Rightarrow> None)
      else
        (case (year_time, week_time) of
           (Some ys, _) \<Rightarrow>
             Some (case nearest_begin (\<lambda>b. tm_yday_cmp now b < 0) tm_yday_cmp ys None of
                     None \<Rightarrow> Next_None
                   | Some l \<Rightarrow> Next_Day (l\<lparr>TM_isdst := - 1\<rparr>))
         | (None, Some ws) \<Rightarrow> map_option (\<lambda>l. Next_Day (l\<lparr>TM_isdst := - 1\<rparr>)) (inactive_week_begin now ws)
         | (None, None) \<Rightarrow> None))"

text \<open>
  The second half: the time of the change on the day of \<open>new_now\<close>. No change on that day is
  recorded as the end of the day (the second part of the result).
\<close>

definition compute_limit_time :: "bool \<Rightarrow> tmr list \<Rightarrow> tm \<Rightarrow> (struct_tm \<times> bool \<times> bool) option" where
  "compute_limit_time active day_time new_now =
     (let lep = (if active
                 then (case find (\<lambda>r. in_range new_now r tm_daytime_cmp) day_time of
                         None \<Rightarrow> None | Some r \<Rightarrow> TMR_end r)
                 else nearest_begin (\<lambda>b. tm_daytime_cmp new_now b \<le> 0) tm_daytime_cmp day_time None);
          is_end_of_day_reached = (lep = None);
          l = (case lep of None \<Rightarrow> new_now\<lparr>TM_hour := 24, TM_min := 0, TM_sec := 0\<rparr> | Some l \<Rightarrow> l);
          end_of_day = (TM_hour l = 24);
          l = (if end_of_day then l\<lparr>TM_hour := 23, TM_min := 59, TM_sec := 59\<rparr> else l) in
      Some ((uncullify_tm new_now)\<lparr>tm_hour := sint (TM_hour l), tm_min := sint (TM_min l), tm_sec := sint (TM_sec l)\<rparr>,
            end_of_day, is_end_of_day_reached))"

definition make_limit :: "(struct_tm \<Rightarrow> int) \<Rightarrow> struct_tm \<Rightarrow> bool \<Rightarrow> int" where
  "make_limit mktime tm_limit end_of_day = (if end_of_day then mktime tm_limit + 1 else mktime tm_limit)"

definition compute_limit ::
    "(struct_tm \<Rightarrow> int) \<Rightarrow> bool \<Rightarrow> bool \<Rightarrow> tmr list option \<Rightarrow> tmr list option \<Rightarrow> tmr list option \<Rightarrow> tm \<Rightarrow> (int \<times> bool) option" where
  "compute_limit mktime today active year_time week_time day_time now =
     (case day_time of
        None \<Rightarrow> Some (0, False)
      | Some dts \<Rightarrow>
          if year_time \<noteq> None \<and> week_time \<noteq> None then Some (0, False)
          else if year_time = None \<and> week_time = None then Some (0, False)
          else (case dts of
            [] \<Rightarrow> None
          | time # _ \<Rightarrow> do {
              is_full_day \<leftarrow> is_full_day_range time;
              let on_day = (\<lambda>new_now. do {
                    (tm_limit, end_of_day, reached) \<leftarrow> compute_limit_time active dts new_now;
                    Some (make_limit mktime tm_limit end_of_day, reached) });
              if is_full_day \<or> \<not> today then do {
                next \<leftarrow> compute_limit_day is_full_day active year_time week_time now;
                (case next of
                   Next_Never \<Rightarrow> Some (0, False)
                 | Next_None \<Rightarrow> Some (0, False)
                 | Next_Day lep \<Rightarrow>
                     if is_full_day then Some (make_limit mktime (uncullify_tm lep) active, False)
                     else on_day lep) }
              else on_day now }))"

text \<open>
  An entry of the year calendar: its state now, and when that changes. The recursion looks at
  the next day when nothing changes for the rest of this one.
\<close>

partial_function (option) is_year_entry_active ::
    "(int \<Rightarrow> struct_tm) \<Rightarrow> (struct_tm \<Rightarrow> int) \<Rightarrow> tm \<Rightarrow> ca \<Rightarrow> (32 word \<times> int) option" where
  "is_year_entry_active localtime_r mktime t year_entry =
     (let in_yday_range = in_range_list t (CA_yday_range_list year_entry) tm_yday_cmp;
          in_daytime_range = (in_yday_range \<and> in_range_list t (CA_daytime_range_list year_entry) tm_daytime_cmp);
          state = (if in_yday_range \<and> in_daytime_range then CA_state year_entry
                   else if in_daytime_range then QI_DO_ENABLE else 0) in
      do {
        (limit, is_end_of_the_day_reached) \<leftarrow>
          compute_limit mktime in_yday_range in_daytime_range (CA_yday_range_list year_entry) None
            (CA_daytime_range_list year_entry) t;
        if is_end_of_the_day_reached then do {
          let next_day = limit + 1;
          (next_day_state, limit') \<leftarrow> is_year_entry_active localtime_r mktime (cullify_tm (localtime_r next_day)) year_entry;
          Some (if next_day_state \<noteq> state then (state, next_day) else (next_day_state, limit')) }
        else Some (state, limit) })"

text \<open>
  An entry of the week calendar. The recursion passes the old value of its counter (a
  post-increment), and its state replaces the state computed for now.
\<close>

partial_function (option) is_week_entry_active ::
    "(int \<Rightarrow> struct_tm) \<Rightarrow> (struct_tm \<Rightarrow> int) \<Rightarrow> tm \<Rightarrow> ca \<Rightarrow> nat \<Rightarrow> (32 word \<times> int \<times> 32 word) option" where
  "is_week_entry_active localtime_r mktime t week_entry rec_count =
     (let in_wday_range = in_range_list t (CA_wday_range_list week_entry) tm_wday_cmp;
          in_daytime_range = (in_wday_range \<and> in_range_list t (CA_daytime_range_list week_entry) tm_daytime_cmp);
          (state, next_state) = (if in_wday_range \<and> in_daytime_range then (CA_state week_entry, 0) else (0, CA_state week_entry)) in
      do {
        (limit, is_end_of_the_day_reached) \<leftarrow>
          compute_limit mktime in_wday_range in_daytime_range None (CA_wday_range_list week_entry)
            (CA_daytime_range_list week_entry) t;
        (state, limit, next_state) \<leftarrow>
          (if is_end_of_the_day_reached then
             (let limit = limit + 1 in
              if rec_count < 4
              then is_week_entry_active localtime_r mktime (cullify_tm (localtime_r limit)) week_entry rec_count
              else Some (state, limit, next_state))
           else Some (state, limit, next_state));
        Some (state, limit, if limit = 0 then 0 else next_state) })"

section \<open>The state of a calendar\<close>

definition year_step ::
    "(int \<Rightarrow> struct_tm) \<Rightarrow> (struct_tm \<Rightarrow> int) \<Rightarrow> tm \<Rightarrow> ca \<Rightarrow> 32 word \<times> int \<Rightarrow> (32 word \<times> int) option" where
  "year_step localtime_r mktime t yc = (\<lambda>(state, temp_next_event). do {
     (y_is_active, limit) \<leftarrow> is_year_entry_active localtime_r mktime t yc;
     Some (if state \<noteq> y_is_active \<or> state = QI_DO_NOTHING then
             (state OR y_is_active,
              if temp_next_event = 0 \<or> (limit \<noteq> 0 \<and> temp_next_event > limit) then limit else temp_next_event)
           else
             (state,
              if temp_next_event = 0 \<or> (limit \<noteq> 0 \<and> temp_next_event < limit) then limit else temp_next_event)) })"

record week_scan =
  ws_tm :: tm
  ws_state :: "32 word"
  ws_event :: int
  ws_visited :: "bool list"
  ws_overlapping :: bool

text \<open>One pass of the loop over the entries of the week calendar; \<open>counter\<close> is the index of the first entry left.\<close>

fun week_pass ::
    "(int \<Rightarrow> struct_tm) \<Rightarrow> (struct_tm \<Rightarrow> int) \<Rightarrow> nat \<Rightarrow> ca list \<Rightarrow> week_scan \<Rightarrow> week_scan option" where
  "week_pass localtime_r mktime counter [] w = Some w"
| "week_pass localtime_r mktime counter (wc # wcs) w = do {
     (w_is_active, limit, next_state) \<leftarrow> is_week_entry_active localtime_r mktime (ws_tm w) wc 0;
     let w = w\<lparr>ws_state := ws_state w OR w_is_active\<rparr>;
     let finish = (\<lambda>w limit next_state. week_pass localtime_r mktime (counter + 1) wcs
           (if ws_state w \<noteq> next_state \<and> (ws_event w = 0 \<or> (limit \<noteq> 0 \<and> ws_event w > limit))
            then w\<lparr>ws_event := limit\<rparr> else w));
     if limit \<noteq> 0 \<and> ws_state w = next_state \<and> ws_event w \<ge> limit then
       (if \<not> ws_visited w ! counter then do {
          let w = w\<lparr>ws_overlapping := True, ws_visited := (ws_visited w)[counter := True],
                    ws_tm := cullify_tm (localtime_r (ws_event w + 1)), ws_event := 0\<rparr>;
          (w_is_active, limit, next_state) \<leftarrow> is_week_entry_active localtime_r mktime (ws_tm w) wc 0;
          finish (w\<lparr>ws_state := ws_state w OR w_is_active\<rparr>) limit next_state }
        else Some (w\<lparr>ws_event := 0, ws_overlapping := False\<rparr>))
     else finish w limit next_state }"

partial_function (option) week_scan_loop ::
    "(int \<Rightarrow> struct_tm) \<Rightarrow> (struct_tm \<Rightarrow> int) \<Rightarrow> ca list \<Rightarrow> week_scan \<Rightarrow> week_scan option" where
  "week_scan_loop localtime_r mktime wcal w = do {
     w' \<leftarrow> week_pass localtime_r mktime 0 wcal (w\<lparr>ws_overlapping := False\<rparr>);
     if ws_overlapping w' then week_scan_loop localtime_r mktime wcal w' else Some w' }"

definition strongest_state :: "32 word \<Rightarrow> 32 word" where
  "strongest_state state =
     (if state AND QI_DO_ENABLE \<noteq> 0 then QI_DO_ENABLE
      else if state AND QI_DO_SUSPEND \<noteq> 0 then QI_DO_SUSPEND
      else if state AND QI_DO_DISABLE \<noteq> 0 then QI_DO_DISABLE
      else QI_DO_ENABLE)"

definition state_at ::
    "(int \<Rightarrow> struct_tm) \<Rightarrow> (struct_tm \<Rightarrow> int) \<Rightarrow> int \<Rightarrow> ca list \<Rightarrow> ca list \<Rightarrow> (32 word \<times> int) option" where
  "state_at localtime_r mktime now ycal wcal = do {
     let t = cullify_tm (localtime_r now);
     (state, event) \<leftarrow> foldo (year_step localtime_r mktime t) ycal (0, 0);
     (state, event) \<leftarrow>
       (if state = 0 then do {
          w \<leftarrow> week_scan_loop localtime_r mktime wcal
                 \<lparr>ws_tm = t, ws_state = state, ws_event = event, ws_visited = replicate (length wcal) False, ws_overlapping = False\<rparr>;
          Some (ws_state w, ws_event w) }
        else Some (state, event));
     Some (strongest_state state, event) }"

section \<open>Calendars\<close>

record cal =
  CAL_name :: string
  CAL_year_calendar :: "string option"
  CAL_week_calendar :: "string option"
  CAL_parsed_year_calendar :: "ca list"
  CAL_parsed_week_calendar :: "ca list"

record cqu =
  CQU_state :: "32 word"
  CQU_till :: "64 word"

definition sge_gmt64_to_time_t :: "64 word \<Rightarrow> int" where
  "sge_gmt64_to_time_t timestamp = sint (timestamp div 1000000)"

definition sge_time_t_to_gmt64 :: "int \<Rightarrow> 64 word" where
  "sge_time_t_to_gmt64 timestamp = word_of_int timestamp * 1000000"

definition duration_add_offset :: "64 word \<Rightarrow> 64 word \<Rightarrow> 64 word" where
  "duration_add_offset duration offset =
     (if duration = - 1 \<or> offset = - 1 then - 1
      else if (- 1) - offset < duration then - 1
      else duration + offset)"

definition calendar_get_current_state_and_end ::
    "(int \<Rightarrow> struct_tm) \<Rightarrow> (struct_tm \<Rightarrow> int) \<Rightarrow> cal \<Rightarrow> int \<Rightarrow> (32 word \<times> int) option" where
  "calendar_get_current_state_and_end localtime_r mktime cep now = do {
     (new_state, till) \<leftarrow> state_at localtime_r mktime now (CAL_parsed_year_calendar cep) (CAL_parsed_week_calendar cep);
     Some (if new_state = QI_DO_DISABLE then QI_DO_CAL_DISABLE
           else if new_state = QI_DO_SUSPEND then QI_DO_CAL_SUSPEND
           else QI_DO_NOTHING, till) }"

text \<open>
  The two loops of \<^verbatim>\<open>calender_state_changes\<close>: go from change to change until the
  state differs, no change is left, or \<^verbatim>\<open>max_state_changes\<close> changes were looked at. The
  result is the last time the loop started from, the state there, the end of that state and the
  number of changes.
\<close>

definition max_state_changes :: nat where "max_state_changes = 60"

function change_loop ::
    "(int \<Rightarrow> (32 word \<times> int) option) \<Rightarrow> 32 word \<Rightarrow> int \<Rightarrow> nat \<Rightarrow> (int \<times> 32 word \<times> int \<times> nat) option" where
  "change_loop get state0 temp_when state_changes =
     (case get (temp_when + 1) of
        None \<Rightarrow> None
      | Some (state1, temp_when') \<Rightarrow>
          if temp_when' \<noteq> 0 \<and> state0 = state1 \<and> state_changes + 1 < max_state_changes
          then change_loop get state0 temp_when' (state_changes + 1)
          else Some (temp_when, state1, temp_when', state_changes + 1))"
  by pat_completeness auto
termination
  by (relation "measure (\<lambda>(g, s, w, n). max_state_changes - n)") auto

declare change_loop.simps [simp del]

text \<open>The result: the state, the list of the state changes and the time of the next change.\<close>

definition calender_state_changes ::
    "(int \<Rightarrow> struct_tm) \<Rightarrow> (struct_tm \<Rightarrow> int) \<Rightarrow> cal \<Rightarrow> int \<Rightarrow> (32 word \<times> cqu list \<times> 64 word) option" where
  "calender_state_changes localtime_r mktime cep now = do {
     let get = calendar_get_current_state_and_end localtime_r mktime cep;
     (state0, temp_when) \<leftarrow> get now;
     (when, state1, when1) \<leftarrow>
       (if temp_when \<noteq> 0 then do {
          (w, state1, temp_when, state_changes) \<leftarrow> change_loop get state0 temp_when 0;
          let when = (if state0 = state1 then temp_when else w);
          if temp_when \<noteq> 0 then do {
            (w1, state2, temp_when, state_changes) \<leftarrow> change_loop get state1 temp_when state_changes;
            Some (when, state1, if state1 = state2 then temp_when else w1) }
          else Some (when, state1, temp_when) }
        else Some (temp_when, 0, 0));
     let when64 = sge_time_t_to_gmt64 when;
     Some (state0,
           \<lparr>CQU_state = state0, CQU_till = when64\<rparr> #
             (if when64 \<noteq> 0 then [\<lparr>CQU_state = state1, CQU_till = sge_time_t_to_gmt64 when1\<rparr>] else []),
           when64) }"

partial_function (option) open_loop ::
    "(int \<Rightarrow> (32 word \<times> int) option) \<Rightarrow> int \<Rightarrow> 32 word \<Rightarrow> int \<Rightarrow> 32 word option" where
  "open_loop state_of end state next_change =
     (if state = QI_DO_ENABLE \<and> next_change \<noteq> 0 \<and> next_change \<le> end then do {
        (state', next_change') \<leftarrow> state_of next_change;
        open_loop state_of end state' next_change' }
      else Some state)"

definition calendar_open_in_time_frame ::
    "(int \<Rightarrow> struct_tm) \<Rightarrow> (struct_tm \<Rightarrow> int) \<Rightarrow> cal option \<Rightarrow> 64 word \<Rightarrow> 64 word \<Rightarrow> bool option" where
  "calendar_open_in_time_frame localtime_r mktime cep start_time duration = do {
     let year_list = (case cep of None \<Rightarrow> [] | Some c \<Rightarrow> CAL_parsed_year_calendar c);
     let week_list = (case cep of None \<Rightarrow> [] | Some c \<Rightarrow> CAL_parsed_week_calendar c);
     let state_of = (\<lambda>t. state_at localtime_r mktime t year_list week_list);
     (state, next_change) \<leftarrow> state_of (sge_gmt64_to_time_t start_time);
     state \<leftarrow> open_loop state_of (sge_gmt64_to_time_t (duration_add_offset start_time duration)) state next_change;
     Some (state = QI_DO_ENABLE) }"

section \<open>References to a calendar\<close>

text \<open>The part of a cluster queue that matters here: its name and the values of its calendar attribute.\<close>

record calendar_user =
  CQ_name :: string
  CQ_calendar :: "string option list"

text \<open>The answers are the names of the calendar and of the queue that refers to it.\<close>

definition calendar_is_referenced ::
    "cal \<Rightarrow> (string \<times> string) list \<Rightarrow> calendar_user list \<Rightarrow> bool \<times> (string \<times> string) list" where
  "calendar_is_referenced calendar answers master_cqueue_list =
     foldl (\<lambda>(ret, as) cqueue.
         if list_ex (\<lambda>v. v = Some (CAL_name calendar)) (CQ_calendar cqueue)
         then (True, as @ [(CAL_name calendar, CQ_name cqueue)]) else (ret, as))
       (False, answers) master_cqueue_list"

definition sge_generic_cal :: "string option \<Rightarrow> cal" where
  "sge_generic_cal cal_name =
     \<lparr>CAL_name = (case cal_name of Some n \<Rightarrow> n | None \<Rightarrow> ''template''), CAL_year_calendar = None, CAL_week_calendar = None,
      CAL_parsed_year_calendar = [], CAL_parsed_week_calendar = []\<rparr>"

declare is_year_entry_active.simps [code] is_week_entry_active.simps [code] week_scan_loop.simps [code] open_loop.simps [code]

end
