(* ===== verification/CalendarParse.thy ===== *)
theory CalendarParse
  imports Calendar
begin

text \<open>
  The parser of calendar specifications: the scanner with its one token of lookahead
  (the static variables of the file are the fields of the record \<open>parser\<close>), the recursive
  descent through entries, day ranges, daytime ranges and numbers, and the two operations that
  store a parsed calendar. Every function returns an error or its result and the parser state.
  Error messages are constructors with the arguments of the message; \<open>Store_Overflow\<close> is
  the write past the end of \<^verbatim>\<open>store\<close> by a token of 1000 characters or more, and
  \<open>Null_Element\<close> the abort of a comparison on a null element. Numbers are read
  as 32 bit integers that wrap around.
\<close>

section \<open>Tokens and the state of the parser\<close>

datatype token = DOT | COLON | EQUAL_SIGN | MINUS | COMMA | SPACE | NUMBER | STRING | NO_TOKEN | ERR_TOKEN

datatype cal_error =
    Out_Of_Range string int int string
  | Not_A string string
  | Missing_Point_After_Day
  | Missing_Point_After_Month
  | First_Day_After_Second
  | Missing_Dash
  | Begin_Equals_End
  | Beyond_24
  | Not_A_State string
  | Equal_Without_Range
  | Useless_Week_Range
  | Expected_Week_Day
  | Not_A_Week_Day string
  | Unrecognized_String string
  | Unrecognized_Token
  | No_Message
  | Store_Overflow
  | Null_Element

record parser =
  p_text :: string
  p_set :: "token list"
  p_token :: token
  p_valid :: bool
  p_store :: string
  p_number :: int

type_synonym 'a parse = "parser \<Rightarrow> cal_error + 'a \<times> parser"

definition pret :: "'a \<Rightarrow> 'a parse" where
  "pret x p = Inr (x, p)"

definition pbind :: "'a parse \<Rightarrow> ('a \<Rightarrow> 'b parse) \<Rightarrow> 'b parse" where
  "pbind f g p = (case f p of Inl e \<Rightarrow> Inl e | Inr (x, p') \<Rightarrow> g x p')"

definition perror :: "cal_error \<Rightarrow> 'a parse" where
  "perror e p = Inl e"

section \<open>The scanner\<close>

definition is_digit :: "char \<Rightarrow> bool" where
  "is_digit c = (48 \<le> (of_char c :: nat) \<and> (of_char c :: nat) \<le> 57)"

definition is_alpha :: "char \<Rightarrow> bool" where
  "is_alpha c = (let n = of_char c :: nat in (65 \<le> n \<and> n \<le> 90) \<or> (97 \<le> n \<and> n \<le> 122))"

definition is_alnum :: "char \<Rightarrow> bool" where
  "is_alnum c = (is_alpha c \<or> is_digit c)"

definition char_digit :: "char \<Rightarrow> int" where
  "char_digit c = int (of_char c) - 48"

text \<open>\<open>old * 10 + d\<close> on an \<^verbatim>\<open>int\<close>.\<close>

definition next_number :: "int \<Rightarrow> char \<Rightarrow> int" where
  "next_number old c = sint (word_of_int (old * 10 + char_digit c) :: 32 word)"

text \<open>The loop over the digits: whether it ran into the overflow check, and the last number.\<close>

fun scan_digits :: "int \<Rightarrow> string \<Rightarrow> bool \<times> int" where
  "scan_digits old [] = (False, old)"
| "scan_digits old (c # cs) =
     (if is_digit c then
        (let n = next_number old c in if n < old then (True, n) else scan_digits n cs)
      else (False, old))"

fun token_text :: "token \<Rightarrow> string" where
  "token_text DOT = ''.''"
| "token_text COLON = '':''"
| "token_text EQUAL_SIGN = ''=''"
| "token_text MINUS = ''-''"
| "token_text COMMA = '',''"
| "token_text SPACE = '' ''"
| "token_text _ = ''''"

definition store_size :: nat where "store_size = 1000"

text \<open>
  The loop over the token set, on the text that is left. A token that is a single character
  copies the first character of the text to \<^verbatim>\<open>store\<close>, found or not.
\<close>

definition found_token :: "token \<Rightarrow> string \<Rightarrow> nat \<Rightarrow> parser \<Rightarrow> cal_error + token \<times> parser" where
  "found_token tk st n p =
     Inr (tk, p\<lparr>p_store := st, p_text := drop n (p_text p), p_valid := True, p_token := tk\<rparr>)"

fun try_tokens :: "token list \<Rightarrow> token parse" where
  "try_tokens [] p = Inr (ERR_TOKEN, p\<lparr>p_valid := True, p_token := ERR_TOKEN\<rparr>)"
| "try_tokens (tk # tks) p =
     (if tk = NUMBER then
        (let digits = takeWhile is_digit (p_text p); (over, n) = scan_digits 0 (p_text p) in
         if digits = [] then try_tokens tks p
         else if over then Inr (ERR_TOKEN, p\<lparr>p_number := n, p_valid := True, p_token := ERR_TOKEN\<rparr>)
         else if length digits \<ge> store_size then Inl Store_Overflow
         else found_token NUMBER digits (length digits) (p\<lparr>p_number := n\<rparr>))
      else if tk = STRING then
        (let word = (case p_text p of [] \<Rightarrow> [] | c # cs \<Rightarrow> if is_alpha c then c # takeWhile is_alnum cs else []) in
         if word = [] then try_tokens tks p
         else if length word \<ge> store_size then Inl Store_Overflow
         else found_token STRING word (length word) p)
      else
        (let len = length (token_text tk); st = take len (p_text p) in
         if map tolower (token_text tk) = map tolower st
         then found_token tk st len p
         else try_tokens tks (p\<lparr>p_store := st\<rparr>)))"

definition scan :: "token parse" where
  "scan p =
     (if p_valid p then Inr (p_token p, p)
      else if p_text p = [] then Inr (NO_TOKEN, p\<lparr>p_valid := True, p_token := NO_TOKEN\<rparr>)
      else try_tokens (p_set p) p)"

definition eat_token :: "unit parse" where
  "eat_token p = Inr ((), p\<lparr>p_valid := False\<rparr>)"

definition get_string :: "string parse" where
  "get_string p = Inr (p_store p, p)"

definition get_number :: "int parse" where
  "get_number p = Inr (p_number p, p)"

definition start_scan :: "string \<Rightarrow> token list \<Rightarrow> parser" where
  "start_scan text token_set = \<lparr>p_text = text, p_set = token_set, p_token = NO_TOKEN, p_valid = False, p_store = [], p_number = 0\<rparr>"

definition year_token_set :: "token list" where
  "year_token_set = [DOT, COLON, EQUAL_SIGN, MINUS, COMMA, SPACE, STRING, NUMBER]"

definition week_token_set :: "token list" where
  "week_token_set = [COLON, EQUAL_SIGN, MINUS, COMMA, SPACE, STRING, NUMBER]"

definition cheap_scan :: "string \<Rightarrow> ('a \<times> string) list \<Rightarrow> nat \<Rightarrow> 'a option" where
  "cheap_scan str tokenv n =
     map_option fst (find (\<lambda>(k, txt).
       if length str < n then map tolower txt = map tolower str
       else take (length str) (map tolower txt) = map tolower str) tokenv)"

definition statev :: "(32 word \<times> string) list" where
  "statev = [(QI_DO_ENABLE, ''on''), (QI_DO_DISABLE, ''off''), (QI_DO_SUSPEND, ''suspended'')]"

definition monthv :: "(int \<times> string) list" where
  "monthv = [(1, ''january''), (2, ''february''), (3, ''march''), (4, ''april''), (5, ''may''), (6, ''june''), (7, ''july''),
     (8, ''august''), (9, ''september''), (10, ''october''), (11, ''november''), (12, ''december'')]"

definition weekdayv :: "(32 word \<times> string) list" where
  "weekdayv = [(0, ''sunday''), (1, ''monday''), (2, ''tuesday''), (3, ''wednesday''), (4, ''thursday''), (5, ''friday''), (6, ''saturday'')]"

section \<open>Numbers, months and dates\<close>

definition range_number :: "int \<Rightarrow> int \<Rightarrow> string \<Rightarrow> int parse" where
  "range_number lo hi name =
     pbind scan (\<lambda>tk.
     if tk = NUMBER then
       pbind get_number (\<lambda>this_number.
       pbind eat_token (\<lambda>_.
       if this_number > hi \<or> this_number < lo
       then pbind get_string (\<lambda>str. perror (Out_Of_Range str lo hi name))
       else pret this_number))
     else pbind get_string (\<lambda>str. perror (Not_A str name)))"

definition month :: "int parse" where
  "month =
     pbind scan (\<lambda>tk.
     if tk = STRING then
       pbind get_string (\<lambda>str.
       case cheap_scan str monthv 3 of
         None \<Rightarrow> perror No_Message
       | Some m \<Rightarrow> pbind eat_token (\<lambda>_. pret (m - 1)))
     else pbind (range_number 1 12 ''month'') (\<lambda>m. pret (m - 1)))"

definition day :: "int parse" where
  "day = range_number 1 31 ''day''"

definition year :: "int parse" where
  "year = range_number 1970 2037 ''year''"

text \<open>\<^verbatim>\<open>if (scan () != tk) { error; return -1; } eat_token ();\<close>\<close>

definition expect :: "token \<Rightarrow> cal_error \<Rightarrow> unit parse" where
  "expect tk e = pbind scan (\<lambda>tk'. if tk' \<noteq> tk then perror e else eat_token)"

definition year_day :: "tm parse" where
  "year_day =
     pbind day (\<lambda>d.
     pbind (expect DOT Missing_Point_After_Day) (\<lambda>_.
     pbind month (\<lambda>m.
     pbind (expect DOT Missing_Point_After_Month) (\<lambda>_.
     pbind year (\<lambda>y.
     pret (new_tm\<lparr>TM_year := word_of_int (y - 1900), TM_mon := word_of_int m, TM_mday := word_of_int d\<rparr>))))))"

definition year_day_range :: "tmr parse" where
  "year_day_range =
     pbind year_day (\<lambda>t1.
     pbind scan (\<lambda>tk.
     if tk = MINUS then
       pbind eat_token (\<lambda>_.
       pbind year_day (\<lambda>t2.
       if tm_yday_cmp t1 t2 > 0 then perror First_Day_After_Second
       else pret \<lparr>TMR_begin = t1, TMR_end = Some t2\<rparr>))
     else pret \<lparr>TMR_begin = t1, TMR_end = None\<rparr>))"

section \<open>Daytimes\<close>

definition hour :: "int parse" where
  "hour = range_number 0 24 ''hour''"

definition minute :: "int parse" where
  "minute = range_number 0 59 ''minute''"

definition seconds :: "int parse" where
  "seconds = range_number 0 59 ''second''"

definition make_daytime :: "int \<Rightarrow> int \<Rightarrow> int \<Rightarrow> tm parse" where
  "make_daytime h m sec =
     (if h = 24 \<and> (m \<noteq> 0 \<or> sec \<noteq> 0) then perror Beyond_24
      else pret (new_tm\<lparr>TM_hour := word_of_int h, TM_min := word_of_int m, TM_sec := word_of_int sec\<rparr>))"

definition daytime :: "tm parse" where
  "daytime =
     pbind hour (\<lambda>h.
     pbind scan (\<lambda>tk.
     if tk \<noteq> COLON then make_daytime h 0 0
     else
       pbind eat_token (\<lambda>_.
       pbind minute (\<lambda>m.
       pbind scan (\<lambda>tk.
       if tk \<noteq> COLON then make_daytime h m 0
       else pbind eat_token (\<lambda>_. pbind seconds (\<lambda>sec. make_daytime h m sec)))))))"

definition daytime_range :: "tmr parse" where
  "daytime_range =
     pbind daytime (\<lambda>t1.
     pbind (expect MINUS Missing_Dash) (\<lambda>_.
     pbind daytime (\<lambda>t2.
     if tm_daytime_cmp t1 t2 = 0 then perror Begin_Equals_End
     else pret \<lparr>TMR_begin = t1, TMR_end = Some t2\<rparr>)))"

section \<open>States and week days\<close>

definition action :: "(32 word) parse" where
  "action =
     pbind scan (\<lambda>tk.
     pbind get_string (\<lambda>str.
     if tk \<noteq> STRING then perror (Not_A_State str)
     else
       (case cheap_scan str statev 3 of
          None \<Rightarrow> perror (Not_A_State str)
        | Some state \<Rightarrow> pbind eat_token (\<lambda>_. pret state))))"

definition week_day :: "tm parse" where
  "week_day =
     pbind scan (\<lambda>tk.
     if tk \<noteq> STRING then perror Expected_Week_Day
     else
       pbind get_string (\<lambda>str.
       case cheap_scan str weekdayv 3 of
         None \<Rightarrow> perror (Not_A_Week_Day str)
       | Some wday \<Rightarrow> pbind eat_token (\<lambda>_. pret (new_tm\<lparr>TM_wday := wday\<rparr>))))"

definition week_day_range :: "tmr parse" where
  "week_day_range =
     pbind week_day (\<lambda>t1.
     pbind scan (\<lambda>tk.
     if tk = MINUS then
       pbind eat_token (\<lambda>_.
       pbind week_day (\<lambda>t2.
       if tm_wday_cmp t1 t2 = 0 then perror Useless_Week_Range
       else pret \<lparr>TMR_begin = t1, TMR_end = Some t2\<rparr>))
     else pret \<lparr>TMR_begin = t1, TMR_end = None\<rparr>))"

section \<open>What is left to read\<close>

text \<open>
  The loops of the parser end because every round eats a token. The text that is left together
  with a token that was scanned and not eaten never grows.
\<close>

definition left_to_read :: "parser \<Rightarrow> nat" where
  "left_to_read p = length (p_text p) + (if p_valid p \<and> p_token p \<noteq> NO_TOKEN \<and> p_token p \<noteq> ERR_TOKEN then 1 else 0)"

definition shrinks :: "'a parse \<Rightarrow> bool" where
  "shrinks f = (\<forall>p x p'. f p = Inr (x, p') \<longrightarrow> left_to_read p' \<le> left_to_read p)"

named_theorems shrinks_intros \<open>parsers that leave no more to read than they were given\<close>

lemma shrinksD: "shrinks f \<Longrightarrow> f p = Inr (x, p') \<Longrightarrow> left_to_read p' \<le> left_to_read p"
  by (auto simp: shrinks_def)

lemma shrinks_pret [shrinks_intros]: "shrinks (pret x)"
  by (simp add: shrinks_def pret_def)

lemma shrinks_perror [shrinks_intros]: "shrinks (perror e)"
  by (simp add: shrinks_def perror_def)

lemma shrinks_pbind [shrinks_intros]:
  assumes "shrinks f" "\<And>x. shrinks (g x)"
  shows "shrinks (pbind f g)"
  unfolding shrinks_def
proof (intro allI impI)
  fix p x p'
  assume "pbind f g p = Inr (x, p')"
  then obtain y p1 where "f p = Inr (y, p1)" "g y p1 = Inr (x, p')"
    by (auto simp: pbind_def split: sum.splits prod.splits)
  with assms show "left_to_read p' \<le> left_to_read p" by (meson order_trans shrinksD)
qed

lemma shrinks_if [shrinks_intros]: "shrinks f \<Longrightarrow> shrinks g \<Longrightarrow> shrinks (if b then f else g)"
  by simp

lemma shrinks_option [shrinks_intros]: "shrinks f \<Longrightarrow> (\<And>y. shrinks (g y)) \<Longrightarrow> shrinks (case x of None \<Rightarrow> f | Some y \<Rightarrow> g y)"
  by (cases x) simp_all

lemma found_token_shrinks:
  assumes "found_token tk st n q = Inr (x, p')" "p_text q = p_text p" "p_text p \<noteq> []" "0 < n \<or> tk = NO_TOKEN \<or> tk = ERR_TOKEN"
  shows "left_to_read p' \<le> length (p_text p) \<and> p_valid p' \<and> p_token p' = x"
proof -
  obtain c cs where "p_text p = c # cs" using assms(3) by (cases "p_text p") auto
  with assms show ?thesis by (cases n) (auto simp: found_token_def left_to_read_def)
qed

lemma try_tokens_shrinks:
  "try_tokens tks p = Inr (tk, p') \<Longrightarrow> p_text p \<noteq> [] \<Longrightarrow>
   left_to_read p' \<le> length (p_text p) \<and> p_valid p' \<and> p_token p' = tk"
proof (induction tks arbitrary: p)
  case Nil
  then show ?case by (auto simp: left_to_read_def)
next
  case (Cons tk0 tks)
  consider "tk0 = NUMBER" | "tk0 = STRING" | "tk0 \<noteq> NUMBER" "tk0 \<noteq> STRING" by blast
  then show ?case
  proof cases
    case 1
    obtain over n where d: "scan_digits 0 (p_text p) = (over, n)" by (cases "scan_digits 0 (p_text p)")
    consider "takeWhile is_digit (p_text p) = []" | "takeWhile is_digit (p_text p) \<noteq> []" over
      | "takeWhile is_digit (p_text p) \<noteq> []" "\<not> over" by blast
    then show ?thesis
    proof cases
      case a: 1
      with Cons 1 d show ?thesis by simp
    next
      case 2
      with Cons.prems 1 d show ?thesis by (auto simp: Let_def left_to_read_def)
    next
      case 3
      with Cons.prems 1 d show ?thesis
        by (intro found_token_shrinks[where p = p and q = "p\<lparr>p_number := n\<rparr>" and tk = NUMBER
              and st = "takeWhile is_digit (p_text p)" and n = "length (takeWhile is_digit (p_text p))"])
          (auto simp: Let_def split: if_splits)
    qed
  next
    case 2
    let ?w = "case p_text p of [] \<Rightarrow> [] | c # cs \<Rightarrow> if is_alpha c then c # takeWhile is_alnum cs else []"
    show ?thesis
    proof (cases "?w = []")
      case True
      with Cons 2 show ?thesis by (simp add: Let_def)
    next
      case False
      with Cons.prems 2 show ?thesis
        by (intro found_token_shrinks[where p = p and q = p]) (auto simp: Let_def split: if_splits)
    qed
  next
    case 3
    then have len: "0 < length (token_text tk0) \<or> tk0 = NO_TOKEN \<or> tk0 = ERR_TOKEN" by (cases tk0) auto
    show ?thesis
    proof (cases "map tolower (token_text tk0) = map tolower (take (length (token_text tk0)) (p_text p))")
      case True
      with Cons.prems 3 len show ?thesis
        by (intro found_token_shrinks[where p = p and q = p]) (auto simp: Let_def)
    next
      case False
      with Cons.prems 3 have "try_tokens tks (p\<lparr>p_store := take (length (token_text tk0)) (p_text p)\<rparr>) = Inr (tk, p')"
        by (simp add: Let_def)
      from Cons.IH[OF this] Cons.prems(2) show ?thesis by simp
    qed
  qed
qed

lemma scan_shrinks:
  "scan p = Inr (tk, p') \<Longrightarrow> left_to_read p' \<le> left_to_read p \<and> p_valid p' \<and> p_token p' = tk"
  using try_tokens_shrinks[of "p_set p" p tk p']
  by (auto simp: scan_def left_to_read_def split: if_splits)

lemma shrinks_scan [shrinks_intros]: "shrinks scan"
  by (auto simp: shrinks_def dest: scan_shrinks)

lemma shrinks_eat_token [shrinks_intros]: "shrinks eat_token"
  by (auto simp: shrinks_def eat_token_def left_to_read_def)

lemma shrinks_get [shrinks_intros]: "shrinks get_string" "shrinks get_number"
  by (simp_all add: shrinks_def get_string_def get_number_def)

lemma shrinks_range_number [shrinks_intros]: "shrinks (range_number lo hi name)"
  unfolding range_number_def by (intro shrinks_intros)

lemma shrinks_year_day [shrinks_intros]: "shrinks year_day"
  unfolding year_day_def day_def month_def year_def expect_def by (intro shrinks_intros)

lemma shrinks_year_day_range [shrinks_intros]: "shrinks year_day_range"
  unfolding year_day_range_def by (intro shrinks_intros)

lemma shrinks_daytime [shrinks_intros]: "shrinks daytime"
  unfolding daytime_def hour_def minute_def seconds_def make_daytime_def by (intro shrinks_intros)

lemma shrinks_daytime_range [shrinks_intros]: "shrinks daytime_range"
  unfolding daytime_range_def expect_def by (intro shrinks_intros)

lemma shrinks_week_day [shrinks_intros]: "shrinks week_day"
  unfolding week_day_def by (intro shrinks_intros)

lemma shrinks_week_day_range [shrinks_intros]: "shrinks week_day_range"
  unfolding week_day_range_def by (intro shrinks_intros)

lemma shrinks_action [shrinks_intros]: "shrinks action"
  unfolding action_def by (intro shrinks_intros)

text \<open>One round of a loop: scan a separator, eat it, read an item.\<close>

lemma separator_round:
  assumes "scan p = Inr (tk, p1)" "tk \<noteq> NO_TOKEN" "tk \<noteq> ERR_TOKEN" "shrinks f" "pbind eat_token (\<lambda>_. f) p1 = Inr (x, p2)"
  shows "left_to_read p2 < left_to_read p"
proof -
  note s = scan_shrinks[OF assms(1)]
  have "f (p1\<lparr>p_valid := False\<rparr>) = Inr (x, p2)" using assms(5) by (simp add: pbind_def eat_token_def)
  from shrinksD[OF assms(4) this] have "left_to_read p2 \<le> length (p_text p1)" by (simp add: left_to_read_def)
  moreover have "left_to_read p1 = Suc (length (p_text p1))" using s assms(2,3) by (simp add: left_to_read_def)
  ultimately show ?thesis using s by linarith
qed

lemma scan_eat_less: "scan p = Inr (SPACE, p1) \<Longrightarrow> left_to_read (p1\<lparr>p_valid := False\<rparr>) < left_to_read p"
  by (rule separator_round[of p SPACE p1 "pret ()" "()"]) (simp_all add: shrinks_pret pbind_def eat_token_def pret_def)

section \<open>Lists of ranges\<close>

text \<open>
  The loops \<^verbatim>\<open>while (scan () == COMMA) { eat_token (); ... }\<close>, with the ranges read so far. Daytime
  and week day ranges are split as they are appended.
\<close>

function year_day_range_loop :: "tmr list \<Rightarrow> tmr list parse" where
  "year_day_range_loop ydrl p =
     (case scan p of
        Inl e \<Rightarrow> Inl e
      | Inr (tk, p1) \<Rightarrow>
          if tk = COMMA then
            (case pbind eat_token (\<lambda>_. year_day_range) p1 of
               Inl e \<Rightarrow> Inl e
             | Inr (r, p2) \<Rightarrow> year_day_range_loop (ydrl @ [r]) p2)
          else Inr (ydrl, p1))"
  by pat_completeness auto
termination
  by (relation "measure (\<lambda>(rs, p). left_to_read p)") (auto elim!: separator_round[OF _ _ _ shrinks_year_day_range])

definition year_day_range_list :: "tmr list parse" where
  "year_day_range_list = pbind year_day_range (\<lambda>r. year_day_range_loop [r])"

function daytime_range_loop :: "tmr list \<Rightarrow> tmr list parse" where
  "daytime_range_loop dtrl p =
     (case scan p of
        Inl e \<Rightarrow> Inl e
      | Inr (tk, p1) \<Rightarrow>
          if tk = COMMA then
            (case pbind eat_token (\<lambda>_. daytime_range) p1 of
               Inl e \<Rightarrow> Inl e
             | Inr (r, p2) \<Rightarrow> daytime_range_loop (split_daytime_range dtrl r) p2)
          else Inr (dtrl, p1))"
  by pat_completeness auto
termination
  by (relation "measure (\<lambda>(rs, p). left_to_read p)") (auto elim!: separator_round[OF _ _ _ shrinks_daytime_range])

definition daytime_range_list :: "tmr list parse" where
  "daytime_range_list = pbind daytime_range (\<lambda>r. daytime_range_loop (split_daytime_range [] r))"

function week_day_range_loop :: "tmr list \<Rightarrow> tmr list parse" where
  "week_day_range_loop wdrl p =
     (case scan p of
        Inl e \<Rightarrow> Inl e
      | Inr (tk, p1) \<Rightarrow>
          if tk = COMMA then
            (case pbind eat_token (\<lambda>_. week_day_range) p1 of
               Inl e \<Rightarrow> Inl e
             | Inr (r, p2) \<Rightarrow> week_day_range_loop (split_wday_range wdrl r) p2)
          else Inr (wdrl, p1))"
  by pat_completeness auto
termination
  by (relation "measure (\<lambda>(rs, p). left_to_read p)") (auto elim!: separator_round[OF _ _ _ shrinks_week_day_range])

definition week_day_range_list :: "tmr list parse" where
  "week_day_range_list =
     pbind week_day_range (\<lambda>r.
     pbind (week_day_range_loop (split_wday_range [] r)) (\<lambda>wdrl.
     pret (extend_wday_range (join_wday_range wdrl))))"

section \<open>Entries\<close>

text \<open>The interface the three loops share: what a client needs to know of them is their equation.\<close>

locale comma_loop =
  fixes loop :: "tmr list \<Rightarrow> tmr list parse"
    and item :: "tmr parse"
    and add :: "tmr list \<Rightarrow> tmr \<Rightarrow> tmr list"
  assumes loop_eq: "loop rs p =
      (case scan p of
         Inl e \<Rightarrow> Inl e
       | Inr (tk, p1) \<Rightarrow>
           if tk = COMMA then
             (case pbind eat_token (\<lambda>_. item) p1 of
                Inl e \<Rightarrow> Inl e
              | Inr (r, p2) \<Rightarrow> loop (add rs r) p2)
           else Inr (rs, p1))"
    and item_shrinks: "shrinks item"
begin

lemma loop_cases:
  assumes "loop rs p = Inr (x, p')"
  obtains tk where "scan p = Inr (tk, p')" "tk \<noteq> COMMA" "x = rs"
  | p1 r p2 where "scan p = Inr (COMMA, p1)" "pbind eat_token (\<lambda>_. item) p1 = Inr (r, p2)"
      "left_to_read p2 < left_to_read p" "loop (add rs r) p2 = Inr (x, p')"
  using assms separator_round[OF _ _ _ item_shrinks, of p COMMA]
  by (subst (asm) loop_eq) (auto split: sum.splits prod.splits if_splits)

lemma loop_shrinks: "shrinks (loop rs)"
proof -
  have "loop rs p = Inr (x, p') \<Longrightarrow> left_to_read p' \<le> left_to_read p" for x p p'
  proof (induction "left_to_read p" arbitrary: rs p rule: less_induct)
    case less
    from less(2) show ?case
    proof (cases rule: loop_cases)
      case (1 tk)
      then show ?thesis using scan_shrinks by blast
    next
      case (2 p1 r p2)
      with less(1) show ?thesis by (meson less_or_eq_imp_le order_trans)
    qed
  qed
  then show ?thesis by (simp add: shrinks_def)
qed

end

interpretation year_days: comma_loop year_day_range_loop year_day_range "\<lambda>rs r. rs @ [r]"
  by unfold_locales (rule year_day_range_loop.simps shrinks_year_day_range)+

interpretation daytimes: comma_loop daytime_range_loop daytime_range split_daytime_range
  by unfold_locales (rule daytime_range_loop.simps shrinks_daytime_range)+

interpretation week_days: comma_loop week_day_range_loop week_day_range split_wday_range
  by unfold_locales (rule week_day_range_loop.simps shrinks_week_day_range)+

lemmas shrinks_loops [shrinks_intros] = year_days.loop_shrinks daytimes.loop_shrinks week_days.loop_shrinks

definition normalized :: "tmr list \<Rightarrow> tmr list parse" where
  "normalized dtrl = (case normalize_range_list tm_daytime_cmp dtrl of None \<Rightarrow> perror Null_Element | Some rs \<Rightarrow> pret rs)"

text \<open>
  \<^verbatim>\<open>disabled_year_entry\<close> and \<^verbatim>\<open>disabled_week_entry\<close> jump to their end as soon as no
  \<^verbatim>\<open>=\<close> follows; the functions below are the parts between the jumps, from the last one on.
\<close>

definition year_entry :: "tmr list option \<Rightarrow> tmr list option \<Rightarrow> 32 word \<Rightarrow> ca" where
  "year_entry ydrl dtrl state =
     \<lparr>CA_yday_range_list = ydrl, CA_wday_range_list = None,
      CA_daytime_range_list = Some (case dtrl of None \<Rightarrow> full_daytime_range | Some rs \<Rightarrow> rs), CA_state = state\<rparr>"

definition week_entry :: "tmr list option \<Rightarrow> tmr list option \<Rightarrow> 32 word \<Rightarrow> ca" where
  "week_entry wdrl dtrl state =
     \<lparr>CA_yday_range_list = None, CA_wday_range_list = Some (case wdrl of None \<Rightarrow> full_weekday_range | Some rs \<Rightarrow> rs),
      CA_daytime_range_list = Some (case dtrl of None \<Rightarrow> full_daytime_range | Some rs \<Rightarrow> rs), CA_state = state\<rparr>"

definition entry_state :: "(tmr list option \<Rightarrow> 32 word \<Rightarrow> ca) \<Rightarrow> tmr list option \<Rightarrow> ca parse" where
  "entry_state mk dtrl =
     pbind scan (\<lambda>tk.
     if tk = STRING then pbind action (\<lambda>state. pret (mk dtrl state)) else perror Equal_Without_Range)"

definition entry_daytimes :: "(tmr list option \<Rightarrow> 32 word \<Rightarrow> ca) \<Rightarrow> ca parse" where
  "entry_daytimes mk =
     pbind scan (\<lambda>tk.
     if tk = NUMBER then
       pbind daytime_range_list (\<lambda>dtrl.
       pbind (normalized dtrl) (\<lambda>dtrl.
       pbind scan (\<lambda>tk.
       if tk \<noteq> EQUAL_SIGN then pret (mk (Some dtrl) QI_DO_DISABLE)
       else pbind eat_token (\<lambda>_. entry_state mk (Some dtrl)))))
     else entry_state mk None)"

definition disabled_year_entry :: "ca parse" where
  "disabled_year_entry =
     pbind scan (\<lambda>tk.
     if tk = NUMBER then
       pbind year_day_range_list (\<lambda>ydrl.
       pbind scan (\<lambda>tk.
       if tk \<noteq> EQUAL_SIGN then pret (year_entry (Some ydrl) None QI_DO_DISABLE)
       else pbind eat_token (\<lambda>_. entry_daytimes (year_entry (Some ydrl)))))
     else entry_daytimes (year_entry None))"

definition disabled_week_entry :: "ca parse" where
  "disabled_week_entry =
     pbind scan (\<lambda>tk.
     pbind get_string (\<lambda>str.
     if tk = STRING \<and> cheap_scan str statev 3 = None then
       pbind week_day_range_list (\<lambda>wdrl.
       pbind scan (\<lambda>tk.
       if tk \<noteq> EQUAL_SIGN then pret (week_entry (Some wdrl) None QI_DO_DISABLE)
       else pbind eat_token (\<lambda>_. entry_daytimes (week_entry (Some wdrl)))))
     else entry_daytimes (week_entry None)))"

lemma shrinks_entries [shrinks_intros]: "shrinks disabled_year_entry" "shrinks disabled_week_entry"
  unfolding disabled_year_entry_def disabled_week_entry_def entry_daytimes_def entry_state_def normalized_def
    year_day_range_list_def daytime_range_list_def week_day_range_list_def
  by (intro shrinks_intros)+

function eat_spaces :: "unit parse" where
  "eat_spaces p =
     (case scan p of
        Inl e \<Rightarrow> Inl e
      | Inr (tk, p1) \<Rightarrow>
          if tk = SPACE then
            (case eat_token p1 of Inl e \<Rightarrow> Inl e | Inr (_, p2) \<Rightarrow> eat_spaces p2)
          else Inr ((), p1))"
  by pat_completeness auto
termination
  by (relation "measure left_to_read") (auto simp: eat_token_def scan_eat_less)

lemma eat_spaces_shrinks: "eat_spaces p = Inr (x, p') \<Longrightarrow> left_to_read p' \<le> left_to_read p"
proof (induction p rule: eat_spaces.induct)
  case (1 p)
  show ?case
  proof (cases "\<exists>p1. scan p = Inr (SPACE, p1)")
    case True
    then obtain p1 where p1: "scan p = Inr (SPACE, p1)" by blast
    with 1(2) have "eat_spaces (p1\<lparr>p_valid := False\<rparr>) = Inr (x, p')"
      by (subst (asm) eat_spaces.simps) (simp add: eat_token_def)
    with 1(1)[OF p1 refl refl, of "((), p1\<lparr>p_valid := False\<rparr>)"] scan_eat_less[OF p1] show ?thesis
      by (simp add: eat_token_def)
  next
    case False
    with 1(2) show ?thesis
      by (subst (asm) eat_spaces.simps) (auto split: sum.splits prod.splits if_splits dest: scan_shrinks)
  qed
qed

lemma shrinks_eat_spaces [shrinks_intros]: "shrinks eat_spaces"
  using eat_spaces_shrinks by (simp add: shrinks_def)

text \<open>The loops over the entries of a specification, separated by spaces.\<close>

definition next_entry :: "ca parse \<Rightarrow> ca parse" where
  "next_entry entry = pbind eat_token (\<lambda>_. pbind eat_spaces (\<lambda>_. entry))"

function year_entries_loop :: "ca list \<Rightarrow> ca list parse" where
  "year_entries_loop cal p =
     (case scan p of
        Inl e \<Rightarrow> Inl e
      | Inr (tk, p1) \<Rightarrow>
          if tk = SPACE then
            (case next_entry disabled_year_entry p1 of
               Inl e \<Rightarrow> Inl e
             | Inr (calep, p2) \<Rightarrow> year_entries_loop (cal @ [calep]) p2)
          else if tk \<noteq> NO_TOKEN then Inl (Unrecognized_String (p_store p1))
          else Inr (cal, p1))"
  by pat_completeness auto
termination
  by (relation "measure (\<lambda>(cs, p). left_to_read p)")
    (auto simp: next_entry_def elim!: separator_round[OF _ _ _ shrinks_pbind[OF shrinks_eat_spaces shrinks_entries(1)]])

function week_entries_loop :: "ca list \<Rightarrow> ca list parse" where
  "week_entries_loop cal p =
     (case scan p of
        Inl e \<Rightarrow> Inl e
      | Inr (tk, p1) \<Rightarrow>
          if tk = SPACE then
            (case next_entry disabled_week_entry p1 of
               Inl e \<Rightarrow> Inl e
             | Inr (calep, p2) \<Rightarrow> week_entries_loop (cal @ [calep]) p2)
          else if tk \<noteq> NO_TOKEN then Inl Unrecognized_Token
          else Inr (cal, p1))"
  by pat_completeness auto
termination
  by (relation "measure (\<lambda>(cs, p). left_to_read p)")
    (auto simp: next_entry_def elim!: separator_round[OF _ _ _ shrinks_pbind[OF shrinks_eat_spaces shrinks_entries(2)]])

declare year_day_range_loop.simps [simp del] daytime_range_loop.simps [simp del] week_day_range_loop.simps [simp del]
  eat_spaces.simps [simp del] year_entries_loop.simps [simp del] week_entries_loop.simps [simp del]

section \<open>Specifications\<close>

definition is_none :: "string option \<Rightarrow> bool" where
  "is_none str = (case str of None \<Rightarrow> True | Some txt \<Rightarrow> map tolower txt = ''none'')"

definition disabled_year_list :: "string option \<Rightarrow> cal_error + ca list" where
  "disabled_year_list str =
     (if is_none str then Inr []
      else map_sum id fst (pbind disabled_year_entry (\<lambda>calep. year_entries_loop [calep]) (start_scan (the str) year_token_set)))"

definition disabled_week_list :: "string option \<Rightarrow> cal_error + ca list" where
  "disabled_week_list str =
     (if is_none str then Inr []
      else map_sum id fst (pbind disabled_week_entry (\<lambda>calep. week_entries_loop [calep]) (start_scan (the str) week_token_set)))"

text \<open>The result is the returned flag, the calendar and the errors that were answered.\<close>

definition calendar_parse_year :: "cal \<Rightarrow> cal_error list \<Rightarrow> bool \<times> cal \<times> cal_error list" where
  "calendar_parse_year cal answers =
     (case disabled_year_list (CAL_year_calendar cal) of
        Inl e \<Rightarrow> (False, cal, answers @ [e])
      | Inr yc \<Rightarrow> (True, cal\<lparr>CAL_parsed_year_calendar := yc\<rparr>, answers))"

definition calendar_parse_week :: "cal \<Rightarrow> cal_error list \<Rightarrow> bool \<times> cal \<times> cal_error list" where
  "calendar_parse_week cal answers =
     (case disabled_week_list (CAL_week_calendar cal) of
        Inl e \<Rightarrow> (False, cal, answers @ [e])
      | Inr wc \<Rightarrow> (True, cal\<lparr>CAL_parsed_week_calendar := wc\<rparr>, answers))"

end
