(* ===== verification/Calendar_Ranges.thy ===== *)
theory Calendar_Ranges
  imports Calendar
begin

text \<open>
  Ranges of times as sets. The three comparisons of calendar times are the order of a key:
  the second of the day, the day of the year count, the day of the week. The locale
  \<open>time_order\<close> states that interface; membership, overlap, merging and the search for the
  nearest begin are proved once in it and hold for all three comparisons by interpretation.
\<close>

section \<open>Differences of words read as signed numbers\<close>

lemma sint_diff_small:
  fixes a b :: "32 word"
  assumes "uint a < 2 ^ 31" "uint b < 2 ^ 31"
  shows "sint (a - b) = uint a - uint b"
proof -
  have "sint a = uint a" "sint b = uint b"
    using assms by (simp_all add: sint_uint signed_take_bit_int_eq_self order_trans[OF _ uint_ge_0])
  moreover have "- (2 ^ 31) \<le> uint a - uint b" "uint a - uint b < 2 ^ 31"
    using assms uint_ge_0[of a] uint_ge_0[of b] by linarith+
  ultimately show ?thesis
    by (simp add: sint_word_ariths(2) signed_take_bit_int_eq_self)
qed

section \<open>The interface: a comparison that orders keys\<close>

locale time_order =
  fixes cmp_func :: cmp_func
    and key :: "tm \<Rightarrow> int"
    and valid :: "tm \<Rightarrow> bool"
  assumes cmp_less: "valid a \<Longrightarrow> valid b \<Longrightarrow> cmp_func a b < 0 \<longleftrightarrow> key a < key b"
    and cmp_zero: "valid a \<Longrightarrow> valid b \<Longrightarrow> cmp_func a b = 0 \<longleftrightarrow> key a = key b"
begin

lemma cmp_le: "valid a \<Longrightarrow> valid b \<Longrightarrow> cmp_func a b \<le> 0 \<longleftrightarrow> key a \<le> key b"
  using cmp_less[of a b] cmp_zero[of a b] by linarith

lemma cmp_greater: "valid a \<Longrightarrow> valid b \<Longrightarrow> cmp_func a b > 0 \<longleftrightarrow> key b < key a"
  using cmp_less[of a b] cmp_zero[of a b] by linarith

lemmas cmp_key = cmp_less cmp_zero cmp_le cmp_greater

definition end_key :: "tmr \<Rightarrow> int" where
  "end_key r = (case TMR_end r of Some e \<Rightarrow> key e | None \<Rightarrow> key (TMR_begin r))"

definition span :: "tmr \<Rightarrow> int set" where
  "span r = {key (TMR_begin r)..end_key r}"

definition valid_range :: "tmr \<Rightarrow> bool" where
  "valid_range r =
     (valid (TMR_begin r) \<and>
      (case TMR_end r of Some e \<Rightarrow> valid e \<and> key (TMR_begin r) \<le> key e | None \<Rightarrow> True))"

definition closed_range :: "tmr \<Rightarrow> bool" where
  "closed_range r = (valid_range r \<and> TMR_end r \<noteq> None)"

lemma in_range_span: "valid t \<Longrightarrow> valid_range r \<Longrightarrow> in_range t r cmp_func \<longleftrightarrow> key t \<in> span r"
  by (auto simp: in_range_def span_def end_key_def valid_range_def cmp_key split: option.splits)

lemma in_range_list_span:
  assumes "valid t" "\<forall>r\<in>set rs. valid_range r"
  shows "in_range_list t (Some rs) cmp_func \<longleftrightarrow> key t \<in> (\<Union>r\<in>set rs. span r)"
  using assms by (auto simp: in_range_list_def list_ex_iff in_range_span)

lemma overlapping_span:
  assumes "valid_range r" "valid_range q"
  shows "overlapping cmp_func r q \<longleftrightarrow> span r \<inter> span q \<noteq> {}"
proof -
  have "span r \<inter> span q \<noteq> {} \<longleftrightarrow> key (TMR_begin r) \<in> span q \<or> key (TMR_begin q) \<in> span r"
    using assms by (fastforce simp: span_def end_key_def valid_range_def split: option.splits)
  with assms show ?thesis
    by (auto simp: overlapping_def in_range_span valid_range_def end_key_def span_def split: option.splits)
qed

lemma combine_ranges_span:
  assumes "closed_range r" "closed_range q" "span r \<inter> span q \<noteq> {}"
  obtains r' where "combine_ranges cmp_func r q = Some r'" "closed_range r'" "span r' = span r \<union> span q"
proof -
  obtain r2 q2 where e: "TMR_end r = Some r2" "TMR_end q = Some q2"
    using assms by (auto simp: closed_range_def)
  have v: "valid (TMR_begin r)" "valid (TMR_begin q)" "valid r2" "valid q2"
    "key (TMR_begin r) \<le> key r2" "key (TMR_begin q) \<le> key q2"
    using assms e by (auto simp: closed_range_def valid_range_def)
  have o: "key (TMR_begin r) \<le> key q2" "key (TMR_begin q) \<le> key r2"
    using assms(3) by (auto simp: span_def end_key_def e)
  show thesis
    by (rule that) (use v o in \<open>auto simp: combine_ranges_def Let_def e closed_range_def valid_range_def
                          span_def end_key_def cmp_key split: if_splits\<close>)
qed

lemma merge_loop_span:
  assumes "closed_range r" "\<forall>q\<in>set (ps @ qs). closed_range q" "\<forall>p\<in>set ps. span r \<inter> span p = {}"
  shows "\<exists>r' rest. merge_loop cmp_func r ps qs = Some (r', rest) \<and> closed_range r' \<and>
           (\<forall>q\<in>set rest. closed_range q \<and> span r' \<inter> span q = {}) \<and>
           span r' \<union> (\<Union>q\<in>set rest. span q) = span r \<union> (\<Union>q\<in>set (ps @ qs). span q)"
  using assms
proof (induction cmp \<equiv> cmp_func r ps qs rule: merge_loop.induct)
  case (1 r ps)
  then show ?case by auto
next
  case (2 r ps q qs)
  show ?case
  proof (cases "span r \<inter> span q = {}")
    case True
    with 2 have "\<not> overlapping cmp_func r q"
      by (simp add: overlapping_span closed_range_def)
    with 2(2)[OF this] 2(3-) True show ?thesis by auto
  next
    case False
    with 2(3,4) have o: "overlapping cmp_func r q"
      by (simp add: overlapping_span closed_range_def)
    obtain r' where r': "combine_ranges cmp_func r q = Some r'" "closed_range r'" "span r' = span r \<union> span q"
      using combine_ranges_span[OF _ _ False] 2(3,4) by auto
    from 2(1)[OF o r'(1) r'(2)] 2(4) obtain r'' rest where *:
      "merge_loop cmp_func r' [] (ps @ qs) = Some (r'', rest)" "closed_range r''"
      "\<forall>q\<in>set rest. closed_range q \<and> span r'' \<inter> span q = {}"
      "span r'' \<union> (\<Union>q\<in>set rest. span q) = span r' \<union> (\<Union>q\<in>set (ps @ qs). span q)"
      by auto
    show ?thesis
      by (rule exI[of _ r''], rule exI[of _ rest]) (use o r' * in auto)
  qed
qed

lemma normalize_span:
  assumes "\<forall>r\<in>set rl. closed_range r"
  shows "\<exists>rs. normalize_range_list cmp_func rl = Some rs \<and> (\<forall>r\<in>set rs. closed_range r) \<and>
           (\<Union>r\<in>set rs. span r) = (\<Union>r\<in>set rl. span r) \<and> sorted_wrt (\<lambda>r q. span r \<inter> span q = {}) rs"
  using assms
proof (induction cmp \<equiv> cmp_func rl rule: normalize_range_list.induct)
  case 1
  then show ?case by simp
next
  case (2 r rl)
  obtain r' rest where m: "merge_loop cmp_func r [] rl = Some (r', rest)" "closed_range r'"
    "\<forall>q\<in>set rest. closed_range q \<and> span r' \<inter> span q = {}"
    "span r' \<union> (\<Union>q\<in>set rest. span q) = span r \<union> (\<Union>q\<in>set rl. span q)"
    using merge_loop_span[of r "[]" rl] 2(2) by auto
  from 2(1)[OF m(1) refl] m(3) obtain rs where rs:
    "normalize_range_list cmp_func rest = Some rs" "\<forall>r\<in>set rs. closed_range r"
    "(\<Union>r\<in>set rs. span r) = (\<Union>r\<in>set rest. span r)" "sorted_wrt (\<lambda>r q. span r \<inter> span q = {}) rs"
    by auto
  have "\<forall>q\<in>set rs. span r' \<inter> span q = {}"
    using m(3) rs(3) by blast
  with m rs show ?case by (intro exI[of _ "r' # rs"]) auto
qed

text \<open>The search for the nearest begin of a range.\<close>

lemma nearest_begin_None:
  assumes "\<forall>r\<in>set rs. valid_range r" "case lep of Some l \<Rightarrow> valid l | None \<Rightarrow> True"
  shows "nearest_begin P cmp_func rs lep = None \<longleftrightarrow> lep = None \<and> (\<forall>r\<in>set rs. \<not> P (TMR_begin r))"
  using assms by (induction rs arbitrary: lep) (auto simp: valid_range_def split: option.splits)

lemma nearest_begin_Some:
  assumes "\<forall>r\<in>set rs. valid_range r" "case lep of Some l \<Rightarrow> valid l | None \<Rightarrow> True"
    and "nearest_begin P cmp_func rs lep = Some l"
  shows "valid l \<and> (lep = Some l \<or> (\<exists>r\<in>set rs. P (TMR_begin r) \<and> l = TMR_begin r)) \<and>
         (\<forall>r\<in>set rs. P (TMR_begin r) \<longrightarrow> key l \<le> key (TMR_begin r)) \<and>
         (case lep of Some l0 \<Rightarrow> key l \<le> key l0 | None \<Rightarrow> True)"
  using assms
proof (induction rs arbitrary: lep)
  case Nil
  then show ?case by simp
next
  case (Cons r rs)
  let ?c = "P (TMR_begin r) \<and> (case lep of None \<Rightarrow> True | Some l \<Rightarrow> cmp_func l (TMR_begin r) > 0)"
  have v: "valid (TMR_begin r)" using Cons.prems(1) by (simp add: valid_range_def)
  show ?case
  proof (cases ?c)
    case True
    with Cons.IH[of "Some (TMR_begin r)"] Cons.prems v show ?thesis
      by (cases lep) (auto simp: cmp_key)
  next
    case False
    with Cons.IH[of lep] Cons.prems v show ?thesis
      by (cases lep) (auto simp: cmp_key)
  qed
qed

end

section \<open>The three comparisons\<close>

definition daytime_key :: "tm \<Rightarrow> int" where
  "daytime_key t = uint (TM_hour t) * 3600 + uint (TM_min t) * 60 + uint (TM_sec t)"

definition daytime_valid :: "tm \<Rightarrow> bool" where
  "daytime_valid t = (uint (TM_hour t) \<le> 24 \<and> uint (TM_min t) < 60 \<and> uint (TM_sec t) < 60)"

definition yday_key :: "tm \<Rightarrow> int" where
  "yday_key t = (uint (TM_year t) * 12 + uint (TM_mon t)) * 32 + uint (TM_mday t)"

definition yday_valid :: "tm \<Rightarrow> bool" where
  "yday_valid t = (uint (TM_year t) < 2 ^ 31 \<and> uint (TM_mon t) < 12 \<and> uint (TM_mday t) < 32)"

definition wday_key :: "tm \<Rightarrow> int" where
  "wday_key t = uint (TM_wday t)"

definition wday_valid :: "tm \<Rightarrow> bool" where
  "wday_valid t = (uint (TM_wday t) < 14)"

lemma lex3_less:
  fixes a b c a' b' c' m n :: int
  assumes "0 \<le> b" "b < m" "0 \<le> c" "c < n" "0 \<le> b'" "b' < m" "0 \<le> c'" "c' < n"
  shows "(a * m + b) * n + c < (a' * m + b') * n + c' \<longleftrightarrow> a < a' \<or> (a = a' \<and> (b < b' \<or> (b = b' \<and> c < c')))"
proof -
  have step: "x * k + y < x' * k + y' \<longleftrightarrow> x < x' \<or> (x = x' \<and> y < y')"
    if "0 \<le> y" "y < k" "0 \<le> y'" "y' < k" for x x' y y' k :: int
  proof -
    have "x * k + y < x' * k + y'" if "x < x'"
    proof -
      have "(x + 1) * k \<le> x' * k" using that \<open>y < k\<close> \<open>0 \<le> y\<close> by (intro mult_right_mono) auto
      then show ?thesis using \<open>y < k\<close> \<open>0 \<le> y'\<close> by (simp add: algebra_simps)
    qed
    moreover have "x' * k + y' < x * k + y" if "x' < x"
    proof -
      have "(x' + 1) * k \<le> x * k" using that \<open>y < k\<close> \<open>0 \<le> y\<close> by (intro mult_right_mono) auto
      then show ?thesis using \<open>y' < k\<close> \<open>0 \<le> y\<close> by (simp add: algebra_simps)
    qed
    ultimately show ?thesis by (metis add_less_cancel_left less_asym linorder_less_linear)
  qed
  have inner: "a * m + b = a' * m + b' \<longleftrightarrow> a = a' \<and> b = b'"
    using step[OF assms(1,2,5,6), of a a'] step[OF assms(5,6,1,2), of a' a]
    by (metis linorder_less_linear order_less_irrefl)
  show ?thesis
    using step[OF assms(3,4,7,8), of "a * m + b" "a' * m + b'"] step[OF assms(1,2,5,6), of a a'] inner by auto
qed

lemma lex3_eq:
  fixes a b c a' b' c' m n :: int
  assumes "0 \<le> b" "b < m" "0 \<le> c" "c < n" "0 \<le> b'" "b' < m" "0 \<le> c'" "c' < n"
  shows "(a * m + b) * n + c = (a' * m + b') * n + c' \<longleftrightarrow> a = a' \<and> b = b' \<and> c = c'"
  using lex3_less[OF assms, of a a'] lex3_less[OF assms(5-8,1-4), of a' a]
  by (metis linorder_less_linear order_less_irrefl)

interpretation dt: time_order tm_daytime_cmp daytime_key daytime_valid
proof
  fix a b
  assume v: "daytime_valid a" "daytime_valid b"
  then have d: "sint (TM_hour a - TM_hour b) = uint (TM_hour a) - uint (TM_hour b)"
    "sint (TM_min a - TM_min b) = uint (TM_min a) - uint (TM_min b)"
    "sint (TM_sec a - TM_sec b) = uint (TM_sec a) - uint (TM_sec b)"
    by (simp_all add: daytime_valid_def sint_diff_small)
  have k: "daytime_key t = (uint (TM_hour t) * 60 + uint (TM_min t)) * 60 + uint (TM_sec t)" for t
    by (simp add: daytime_key_def algebra_simps)
  note lex = lex3_less[of "uint (TM_min a)" 60 "uint (TM_sec a)" 60 "uint (TM_min b)" "uint (TM_sec b)"]
    lex3_eq[of "uint (TM_min a)" 60 "uint (TM_sec a)" 60 "uint (TM_min b)" "uint (TM_sec b)"]
  show "tm_daytime_cmp a b < 0 \<longleftrightarrow> daytime_key a < daytime_key b"
    "tm_daytime_cmp a b = 0 \<longleftrightarrow> daytime_key a = daytime_key b"
    unfolding k using v lex[of "uint (TM_hour a)" "uint (TM_hour b)"]
    by (auto simp only: tm_daytime_cmp_def Let_def d daytime_valid_def uint_ge_0 split: if_splits)
qed

interpretation yd: time_order tm_yday_cmp yday_key yday_valid
proof
  fix a b
  assume v: "yday_valid a" "yday_valid b"
  then have d: "sint (TM_year a - TM_year b) = uint (TM_year a) - uint (TM_year b)"
    "sint (TM_mon a - TM_mon b) = uint (TM_mon a) - uint (TM_mon b)"
    "sint (TM_mday a - TM_mday b) = uint (TM_mday a) - uint (TM_mday b)"
    by (simp_all add: yday_valid_def sint_diff_small)
  note lex = lex3_less[of "uint (TM_mon a)" 12 "uint (TM_mday a)" 32 "uint (TM_mon b)" "uint (TM_mday b)"]
    lex3_eq[of "uint (TM_mon a)" 12 "uint (TM_mday a)" 32 "uint (TM_mon b)" "uint (TM_mday b)"]
  show "tm_yday_cmp a b < 0 \<longleftrightarrow> yday_key a < yday_key b"
    "tm_yday_cmp a b = 0 \<longleftrightarrow> yday_key a = yday_key b"
    unfolding yday_key_def using v lex[of "uint (TM_year a)" "uint (TM_year b)"]
    by (auto simp only: tm_yday_cmp_def Let_def d yday_valid_def uint_ge_0 split: if_splits)
qed

interpretation wd: time_order tm_wday_cmp wday_key wday_valid
  by unfold_locales (auto simp: tm_wday_cmp_def wday_key_def wday_valid_def sint_diff_small)

end
