(* ===== verification/Calendar_Week.thy ===== *)
theory Calendar_Week
  imports Calendar_Ranges
begin

text \<open>
  The ranges of week days: joining never adds a day, keeps ranges that do not touch, and leaves
  at most one range per first day, which bounds what the extension over the end of the week can
  reach. The extension changes no day of the week.
\<close>

definition wday_range_ok :: "tmr \<Rightarrow> bool" where
  "wday_range_ok r = (uint (begin_wday r) \<le> uint (end_wday r) \<and> uint (end_wday r) \<le> 6)"

definition days_of :: "tmr \<Rightarrow> int set" where
  "days_of r = {uint (begin_wday r)..uint (end_wday r)}"

definition week_days :: "tmr list \<Rightarrow> int set" where
  "week_days rs = (\<Union>r\<in>set rs. days_of r)"

text \<open>The condition under which \<^verbatim>\<open>join_wday_range\<close> removes \<open>q\<close> in favour of \<open>r\<close>.\<close>

definition joins :: "tmr \<Rightarrow> tmr \<Rightarrow> bool" where
  "joins r q = (uint (begin_wday q) \<le> uint (end_wday r) + 1 \<and> uint (begin_wday r) \<le> uint (begin_wday q))"

lemma uint_suc: "uint a \<le> 13 \<Longrightarrow> uint (a + 1 :: 32 word) = uint a + 1"
  by (simp add: uint_add_lem[THEN iffD1])

lemma join_step_eq:
  assumes "wday_range_ok r0"
  shows "join_step r0 q r =
     (if joins r0 q then
        (True,
         if uint (end_wday r0) < uint (end_wday q) then
           (case TMR_end r0 of
              Some _ \<Rightarrow> r\<lparr>TMR_end := map_option (\<lambda>e. e\<lparr>TM_wday := end_wday q\<rparr>) (TMR_end r)\<rparr>
            | None \<Rightarrow> r\<lparr>TMR_end := TMR_end q\<rparr>)
         else r)
      else (False, r))"
proof -
  have "uint (end_wday r0 + 1) = uint (end_wday r0) + 1" using assms by (simp add: wday_range_ok_def uint_suc)
  then show ?thesis by (simp add: join_step_def joins_def word_le_def word_less_def)
qed

text \<open>
  What a range \<open>r\<close> can have become in the inner loop for \<open>r0\<close> over the ranges \<open>qs\<close>: its first
  day is that of \<open>r0\<close>, its last day that of \<open>r0\<close>, the first day, or that of a range that was removed.
\<close>

definition grown :: "tmr \<Rightarrow> tmr set \<Rightarrow> tmr \<Rightarrow> bool" where
  "grown r0 Q r =
     (begin_wday r = begin_wday r0 \<and> (TMR_end r0 \<noteq> None \<longrightarrow> TMR_end r \<noteq> None) \<and>
      (end_wday r = end_wday r0 \<or> end_wday r = begin_wday r0 \<or>
       (\<exists>q\<in>Q. joins r0 q \<and> end_wday r = end_wday q \<and> uint (end_wday r0) < uint (end_wday q))))"

lemma grown_step:
  assumes "wday_range_ok r0" "grown r0 Q r" "join_step r0 q r = (gone, r')"
  shows "grown r0 (insert q Q) r'"
proof (cases "joins r0 q \<and> uint (end_wday r0) < uint (end_wday q)")
  case True
  show ?thesis
  proof (cases "TMR_end r0")
    case None
    with True assms have "r' = r\<lparr>TMR_end := TMR_end q\<rparr>" by (auto simp: join_step_eq)
    with None True assms(2) show ?thesis
      by (cases "TMR_end q") (auto simp: grown_def begin_wday_def end_wday_def)
  next
    case (Some e)
    with assms(2) obtain e' where e': "TMR_end r = Some e'" by (auto simp: grown_def)
    with Some True assms have "r' = r\<lparr>TMR_end := Some (e'\<lparr>TM_wday := end_wday q\<rparr>)\<rparr>" by (auto simp: join_step_eq)
    with Some e' True assms(2) show ?thesis
      by (auto simp: grown_def begin_wday_def end_wday_def)
  qed
next
  case False
  with assms have "r' = r" by (auto simp: join_step_eq split: if_splits)
  with assms(2) show ?thesis by (auto simp: grown_def)
qed

lemma join_inner_grown:
  assumes "wday_range_ok r0" "join_inner r0 qs r = (qs', r')" "grown r0 Q r"
  shows "grown r0 (Q \<union> set qs) r' \<and> qs' = filter (\<lambda>q. \<not> joins r0 q) qs"
  using assms(2,3)
proof (induction qs arbitrary: r qs' r' Q)
  case Nil
  then show ?case by simp
next
  case (Cons q qs)
  obtain gone r1 where j: "join_step r0 q r = (gone, r1)" by (cases "join_step r0 q r")
  obtain qs1 r2 where i: "join_inner r0 qs r1 = (qs1, r2)" by (cases "join_inner r0 qs r1")
  have g: "gone \<longleftrightarrow> joins r0 q" using j assms(1) by (auto simp: join_step_eq split: if_splits)
  from Cons.IH[OF i grown_step[OF assms(1) Cons.prems(2) j]] Cons.prems(1) j i g show ?case by auto
qed

lemma grown_days:
  assumes "wday_range_ok r0" "\<forall>q\<in>Q. wday_range_ok q" "grown r0 Q r"
  shows "wday_range_ok r \<and> days_of r \<subseteq> days_of r0 \<union> (\<Union>q\<in>Q. days_of q)"
proof -
  consider "end_wday r = end_wday r0" | "end_wday r = begin_wday r0"
    | q where "q \<in> Q" "joins r0 q" "end_wday r = end_wday q" "uint (end_wday r0) < uint (end_wday q)"
    using assms(3) by (auto simp: grown_def)
  then show ?thesis
  proof cases
    case (3 q)
    then have "wday_range_ok q" using assms(2) by blast
    then have "days_of r \<subseteq> days_of r0 \<union> days_of q" "wday_range_ok r"
      using 3 assms(1,3) by (auto simp: days_of_def wday_range_ok_def joins_def grown_def)
    with 3(1) show ?thesis by blast
  qed (use assms in \<open>auto simp: grown_def days_of_def wday_range_ok_def\<close>)
qed

lemma grown_refl: "grown r {} r"
  by (simp add: grown_def)

lemma join_outer_days:
  assumes "\<forall>r\<in>set (front @ rear). wday_range_ok r"
  shows "(\<forall>r\<in>set (join_outer front rear). wday_range_ok r) \<and> week_days (join_outer front rear) \<subseteq> week_days (front @ rear)"
  using assms
proof (induction front rear rule: join_outer.induct)
  case (1 front)
  then show ?case by simp
next
  case (2 front r rear)
  obtain front' r1 where f: "join_inner r front r = (front', r1)" by (cases "join_inner r front r")
  obtain rear' r2 where b: "join_inner r rear r1 = (rear', r2)" by (cases "join_inner r rear r1")
  have r: "wday_range_ok r" using 2(2) by simp
  note gf = join_inner_grown[OF r f grown_refl]
  then have g1: "grown r (set front) r1" by simp
  note gb = join_inner_grown[OF r b g1]
  have "\<forall>q\<in>set front \<union> set rear. wday_range_ok q" using 2(2) by auto
  from grown_days[OF r this conjunct1[OF gb]]
  have r2: "wday_range_ok r2" "days_of r2 \<subseteq> week_days (front @ r # rear)" by (auto simp: week_days_def)
  have "\<forall>q\<in>set ((front' @ [r2]) @ rear'). wday_range_ok q" using r2(1) gf gb 2(2) by auto
  moreover have "week_days ((front' @ [r2]) @ rear') \<subseteq> week_days (front @ r # rear)"
    using r2(2) gf gb by (auto simp: week_days_def)
  moreover have "join_outer front (r # rear) = join_outer (front' @ [r2]) rear'" using f b by simp
  ultimately show ?case
    using 2(1)[OF f[symmetric] refl b[symmetric] refl] by (metis order_trans)
qed

lemma join_outer_begins:
  assumes "\<forall>r\<in>set (front @ rear). wday_range_ok r" "distinct (map begin_wday front)"
    "begin_wday ` set front \<inter> begin_wday ` set rear = {}"
  shows "distinct (map begin_wday (join_outer front rear))"
  using assms
proof (induction front rear rule: join_outer.induct)
  case (1 front)
  then show ?case by simp
next
  case (2 front r rear)
  obtain front' r1 where f: "join_inner r front r = (front', r1)" by (cases "join_inner r front r")
  obtain rear' r2 where b: "join_inner r rear r1 = (rear', r2)" by (cases "join_inner r rear r1")
  have r: "wday_range_ok r" using 2(2) by simp
  note gf = join_inner_grown[OF r f grown_refl]
  then have g1: "grown r (set front) r1" by simp
  note gb = join_inner_grown[OF r b g1]
  have ok: "\<forall>q\<in>set front \<union> set rear. wday_range_ok q" using 2(2) by auto
  from grown_days[OF r this conjunct1[OF gb]] have r2: "wday_range_ok r2" "begin_wday r2 = begin_wday r"
    using gb by (auto simp: grown_def)
  have other: "begin_wday q \<noteq> begin_wday r" if "q \<in> set rear'" for q
    using that gb r by (auto simp: joins_def wday_range_ok_def)
  have "\<forall>q\<in>set ((front' @ [r2]) @ rear'). wday_range_ok q" using r2(1) gf gb 2(2) by auto
  moreover have "distinct (map begin_wday (front' @ [r2]))"
    using 2(3,4) gf r2(2) by (auto simp: distinct_map_filter)
  moreover have "begin_wday ` set (front' @ [r2]) \<inter> begin_wday ` set rear' = {}"
    using 2(4) gf gb r2(2) other by fastforce
  moreover have "join_outer front (r # rear) = join_outer (front' @ [r2]) rear'" using f b by simp
  ultimately show ?case
    using 2(1)[OF f[symmetric] refl b[symmetric] refl] by metis
qed

lemma join_outer_apart:
  assumes "\<forall>r\<in>set (front @ rear). wday_range_ok r"
    and "\<forall>r\<in>set rear. \<forall>q\<in>set front. \<not> joins r q" "sorted_wrt (\<lambda>r q. \<not> joins r q \<and> \<not> joins q r) rear"
  shows "join_outer front rear = front @ rear"
  using assms
proof (induction rear arbitrary: front)
  case Nil
  then show ?case by simp
next
  case (Cons r rear)
  have same: "join_inner r qs r = (qs, r)" if "\<forall>q\<in>set qs. \<not> joins r q" for qs
    using that Cons.prems(1) by (induction qs) (auto simp: join_step_eq)
  have "join_inner r front r = (front, r)" "join_inner r rear r = (rear, r)"
    using Cons.prems by (auto intro!: same)
  moreover have "join_outer (front @ [r]) rear = (front @ [r]) @ rear"
    using Cons.prems by (intro Cons.IH) auto
  ultimately show ?case by simp
qed

text \<open>The extension over the end of the week.\<close>

definition extended_ok :: "tmr \<Rightarrow> bool" where
  "extended_ok r = (uint (begin_wday r) \<le> 6 \<and> uint (begin_wday r) \<le> uint (end_wday r) \<and> uint (end_wday r) \<le> 13)"

text \<open>
  A range that reaches into the next week does so for the range that begins on Sunday, which is itself
  never extended.
\<close>

definition spill :: "tmr list \<Rightarrow> tmr \<Rightarrow> tmr \<Rightarrow> bool" where
  "spill ws r0 r =
     (begin_wday r = begin_wday r0 \<and>
      (r = r0 \<or> (end_wday r0 = 6 \<and> begin_wday r0 \<noteq> 0 \<and>
                  (\<exists>q\<in>set ws. begin_wday q = 0 \<and> uint (end_wday r) = 7 + uint (end_wday q)))))"

lemma uint_6: "uint (w :: 32 word) = 6 \<longleftrightarrow> w = 6"
  by (auto simp: word_uint_eq_iff)

lemma fold_extend_spill:
  assumes "\<forall>q\<in>set qs. begin_wday q = 0 \<longrightarrow> wday_range_ok q \<and> q \<in> set ws \<and> begin_wday r0 \<noteq> 0" "spill ws r0 r"
  shows "spill ws r0 (fold (extend_step r0) qs r)"
  using assms
proof (induction qs arbitrary: r)
  case Nil
  then show ?case by simp
next
  case (Cons q qs)
  have "spill ws r0 (extend_step r0 q r)"
  proof (cases "end_wday r0 = 6 \<and> begin_wday q = 0")
    case True
    have "uint (7 + end_wday q) = 7 + uint (end_wday q)"
      using Cons.prems(1) True by (simp add: wday_range_ok_def uint_add_lem[THEN iffD1])
    with True Cons.prems show ?thesis
      by (auto simp: spill_def extend_step_def begin_wday_def end_wday_def split: option.splits)
  next
    case False
    then show ?thesis using Cons.prems(2) by (auto simp: extend_step_def)
  qed
  moreover have "\<forall>q\<in>set qs. begin_wday q = 0 \<longrightarrow> wday_range_ok q \<and> q \<in> set ws \<and> begin_wday r0 \<noteq> 0"
    using Cons.prems(1) by simp
  ultimately show ?case using Cons.IH by simp
qed

lemma extend_outer_spill:
  assumes ok: "\<forall>r\<in>set ws. wday_range_ok r" "distinct (map begin_wday ws)"
    and "length xs = length front" "ws = xs @ rear" "list_all2 (spill ws) xs front"
  shows "list_all2 (spill ws) ws (extend_outer front rear)"
  using assms(3-)
proof (induction rear arbitrary: xs front)
  case Nil
  then show ?case by simp
next
  case (Cons r rear)
  let ?r = "fold (extend_step r) (front @ rear) r"
  have nth: "\<exists>x\<in>set xs. spill ws x q" if "q \<in> set front" for q
    using that Cons.prems(3) by (auto simp: list_all2_conv_all_nth in_set_conv_nth) (metis nth_mem)
  have "\<forall>q\<in>set (front @ rear). begin_wday q = 0 \<longrightarrow> wday_range_ok q \<and> q \<in> set ws \<and> begin_wday r \<noteq> 0"
  proof (intro ballI impI)
    fix q
    assume q: "q \<in> set (front @ rear)" "begin_wday q = 0"
    show "wday_range_ok q \<and> q \<in> set ws \<and> begin_wday r \<noteq> 0"
    proof (cases "q \<in> set rear")
      case True
      then show ?thesis using q(2) ok Cons.prems(2) by (force simp: image_iff)
    next
      case False
      then obtain x where "x \<in> set xs" "spill ws x q" using q(1) nth by auto
      with q(2) have "q = x" "x \<in> set xs" by (auto simp: spill_def)
      then show ?thesis using q(2) ok Cons.prems(2) by (force simp: image_iff)
    qed
  qed
  then have "spill ws r ?r" by (rule fold_extend_spill) (simp add: spill_def)
  then have "list_all2 (spill ws) (xs @ [r]) (front @ [?r])"
    using Cons.prems by (simp add: list_all2_appendI)
  with Cons.IH[of "xs @ [r]" "front @ [?r]"] Cons.prems show ?case by simp
qed

lemma extend_days:
  assumes "\<forall>r\<in>set ws. wday_range_ok r" "distinct (map begin_wday ws)"
  shows "\<forall>r\<in>set (extend_wday_range ws). extended_ok r"
    and "{0..6} \<inter> week_days (extend_wday_range ws) = week_days ws"
proof -
  have s: "list_all2 (spill ws) ws (extend_wday_range ws)"
    using extend_outer_spill[OF assms, of "[]" "[]"] by (simp add: extend_wday_range_def)
  have one: "extended_ok r" "{0..6} \<inter> days_of r = days_of x" if "spill ws x r" "x \<in> set ws" for x r
  proof -
    have x: "wday_range_ok x" using assms(1) that(2) by blast
    have "r = x \<or> (uint (end_wday x) = 6 \<and> 7 \<le> uint (end_wday r) \<and> uint (end_wday r) \<le> 13)"
      using that assms(1) by (auto simp: spill_def wday_range_ok_def)
    moreover have "begin_wday r = begin_wday x" using that(1) by (simp add: spill_def)
    ultimately show "extended_ok r" "{0..6} \<inter> days_of r = days_of x"
      using x uint_ge_0[of "begin_wday x"] by (auto simp: extended_ok_def days_of_def wday_range_ok_def simp del: uint_ge_0)
  qed
  have pair: "\<exists>x\<in>set ws. spill ws x r" if "r \<in> set (extend_wday_range ws)" for r
    using that s by (auto simp: list_all2_conv_all_nth in_set_conv_nth) (metis nth_mem)
  have pair': "\<exists>r\<in>set (extend_wday_range ws). spill ws x r" if "x \<in> set ws" for x
    using that s by (auto simp: list_all2_conv_all_nth in_set_conv_nth) (metis nth_mem)
  show "\<forall>r\<in>set (extend_wday_range ws). extended_ok r" using pair one(1) by blast
  show "{0..6} \<inter> week_days (extend_wday_range ws) = week_days ws"
  proof
    show "{0..6} \<inter> week_days (extend_wday_range ws) \<subseteq> week_days ws"
      using pair one(2) by (fastforce simp: week_days_def)
    show "week_days ws \<subseteq> {0..6} \<inter> week_days (extend_wday_range ws)"
    proof
      fix w
      assume "w \<in> week_days ws"
      then obtain x where x: "x \<in> set ws" "w \<in> days_of x" by (auto simp: week_days_def)
      from pair'[OF x(1)] obtain r where r: "r \<in> set (extend_wday_range ws)" "spill ws x r" by blast
      from one(2)[OF r(2) x(1)] x(2) have "w \<in> {0..6} \<inter> days_of r" by simp
      with r(1) show "w \<in> {0..6} \<inter> week_days (extend_wday_range ws)" by (auto simp: week_days_def)
    qed
  qed
qed

text \<open>The week days of a specification, split, joined and extended.\<close>

definition requested_day :: "tmr \<Rightarrow> int \<Rightarrow> bool" where
  "requested_day r w =
     (if uint (begin_wday r) \<le> uint (end_wday r) then uint (begin_wday r) \<le> w \<and> w \<le> uint (end_wday r)
      else uint (begin_wday r) \<le> w \<or> w \<le> uint (end_wday r))"

lemma split_wday_range_days:
  assumes "\<forall>q\<in>set ws. wday_range_ok q" "uint (begin_wday r) \<le> 6" "uint (end_wday r) \<le> 6"
  shows "\<forall>q\<in>set (split_wday_range ws r). wday_range_ok q"
    and "week_days (split_wday_range ws r) = week_days ws \<union> {w. 0 \<le> w \<and> w \<le> 6 \<and> requested_day r w}"
proof -
  have c: "tm_wday_cmp (TMR_begin r) e > 0 \<longleftrightarrow> uint (end_wday r) < uint (begin_wday r)" if "TMR_end r = Some e" for e
    using assms that wd.cmp_greater[of "TMR_begin r" e] by (simp add: begin_wday_def end_wday_def wday_key_def wday_valid_def)
  show "\<forall>q\<in>set (split_wday_range ws r). wday_range_ok q"
    using assms c
    by (auto simp: split_wday_range_def wday_range_ok_def begin_wday_def end_wday_def new_tm_def split: option.splits)
  show "week_days (split_wday_range ws r) = week_days ws \<union> {w. 0 \<le> w \<and> w \<le> 6 \<and> requested_day r w}"
  proof (cases "TMR_end r")
    case None
    then show ?thesis
      using assms(2) by (auto simp: split_wday_range_def week_days_def days_of_def requested_day_def end_wday_def)
  next
    case (Some e)
    with c[OF Some] assms show ?thesis
      by (auto simp: split_wday_range_def week_days_def days_of_def requested_day_def begin_wday_def end_wday_def new_tm_def
          intro: order_trans[OF uint_ge_0])
  qed
qed

lemma joined_week_days:
  assumes "\<forall>r\<in>set ws. wday_range_ok r"
  shows "\<forall>r\<in>set (extend_wday_range (join_wday_range ws)). extended_ok r"
    and "{0..6} \<inter> week_days (extend_wday_range (join_wday_range ws)) \<subseteq> week_days ws"
    and "sorted_wrt (\<lambda>r q. \<not> joins r q \<and> \<not> joins q r) ws \<Longrightarrow>
         {0..6} \<inter> week_days (extend_wday_range (join_wday_range ws)) = week_days ws"
proof -
  have j: "\<forall>r\<in>set (join_wday_range ws). wday_range_ok r" "week_days (join_wday_range ws) \<subseteq> week_days ws"
    using join_outer_days[of "[]" ws] assms by (simp_all add: join_wday_range_def)
  have d: "distinct (map begin_wday (join_wday_range ws))"
    using join_outer_begins[of "[]" ws] assms by (simp add: join_wday_range_def)
  show "\<forall>r\<in>set (extend_wday_range (join_wday_range ws)). extended_ok r" by (rule extend_days[OF j(1) d])
  note e = extend_days(2)[OF j(1) d]
  show "{0..6} \<inter> week_days (extend_wday_range (join_wday_range ws)) \<subseteq> week_days ws" using e j(2) by simp
  show "{0..6} \<inter> week_days (extend_wday_range (join_wday_range ws)) = week_days ws"
    if "sorted_wrt (\<lambda>r q. \<not> joins r q \<and> \<not> joins q r) ws"
    using e join_outer_apart[of "[]" ws] assms that by (simp add: join_wday_range_def)
qed

end
