(* ===== verification/Calendar_Time.thy ===== *)
theory Calendar_Time
  imports Calendar_Ranges
begin

text \<open>
  What the calendars rely on in \<^verbatim>\<open>localtime_r\<close> and \<^verbatim>\<open>mktime\<close>, in a time
  zone without daylight saving time: the day of a time, the fields of its broken down form, and
  that \<^verbatim>\<open>mktime\<close> takes these fields back, also when the day of the month is beyond the
  end of the month. The locale \<open>civil_time\<close> states it; coordinated universal time, computed day by
  day in the Gregorian calendar, is an instance.
\<close>

definition date_key :: "struct_tm \<Rightarrow> int" where
  "date_key st = (tm_year st * 12 + tm_mon st) * 32 + tm_mday st"

definition same_date :: "struct_tm \<Rightarrow> struct_tm \<Rightarrow> bool" where
  "same_date a b = (tm_year a = tm_year b \<and> tm_mon a = tm_mon b \<and> tm_mday a = tm_mday b)"

definition day_of :: "int \<Rightarrow> int \<Rightarrow> int" where
  "day_of zone t = (t + zone) div 86400"

definition second_of :: "int \<Rightarrow> int \<Rightarrow> int" where
  "second_of zone t = (t + zone) mod 86400"

locale civil_time =
  fixes localtime_r :: "int \<Rightarrow> struct_tm"
    and mktime :: "struct_tm \<Rightarrow> int"
    and zone :: int
  assumes hour_of: "0 \<le> t \<Longrightarrow> tm_hour (localtime_r t) = second_of zone t div 3600"
    and min_of: "0 \<le> t \<Longrightarrow> tm_min (localtime_r t) = second_of zone t mod 3600 div 60"
    and sec_of: "0 \<le> t \<Longrightarrow> tm_sec (localtime_r t) = second_of zone t mod 60"
    and wday_of: "0 \<le> t \<Longrightarrow> tm_wday (localtime_r t) = (day_of zone t + 4) mod 7"
    and isdst_of: "0 \<le> t \<Longrightarrow> tm_isdst (localtime_r t) = 0"
    and date_bounds: "0 \<le> t \<Longrightarrow> t < 2 ^ 40 \<Longrightarrow> 0 \<le> tm_year (localtime_r t) \<and> tm_year (localtime_r t) < 2 ^ 31 \<and> 0 \<le> tm_mon (localtime_r t) \<and> tm_mon (localtime_r t) < 12 \<and>
                        1 \<le> tm_mday (localtime_r t) \<and> tm_mday (localtime_r t) < 32"
    and same_day: "0 \<le> t \<Longrightarrow> 0 \<le> u \<Longrightarrow> day_of zone t = day_of zone u \<Longrightarrow> same_date (localtime_r t) (localtime_r u)"
    and later_day: "0 \<le> t \<Longrightarrow> 0 \<le> u \<Longrightarrow> day_of zone t < day_of zone u \<Longrightarrow> date_key (localtime_r t) < date_key (localtime_r u)"
    and mktime_of: "0 \<le> t \<Longrightarrow> 0 \<le> k \<Longrightarrow> 0 \<le> tm_hour st \<Longrightarrow> tm_hour st < 24 \<Longrightarrow> 0 \<le> tm_min st \<Longrightarrow> tm_min st < 60 \<Longrightarrow>
                      0 \<le> tm_sec st \<Longrightarrow> tm_sec st < 60 \<Longrightarrow> tm_isdst st \<in> {- 1, 0} \<Longrightarrow>
                      same_date (st\<lparr>tm_mday := tm_mday st - k\<rparr>) (localtime_r t) \<Longrightarrow>
                      mktime st = (day_of zone t + k) * 86400 - zone + tm_hour st * 3600 + tm_min st * 60 + tm_sec st"

section \<open>Coordinated universal time\<close>

definition leap_year :: "nat \<Rightarrow> bool" where
  "leap_year y = (4 dvd y \<and> (\<not> 100 dvd y \<or> 400 dvd y))"

text \<open>Months count from 0, years from 1900, as in \<^verbatim>\<open>struct tm\<close>.\<close>

definition month_length :: "nat \<Rightarrow> nat \<Rightarrow> nat" where
  "month_length y m =
     (if m = 1 then (if leap_year (1900 + y) then 29 else 28) else if m \<in> {3, 5, 8, 10} then 30 else 31)"

fun next_date :: "nat \<times> nat \<times> nat \<Rightarrow> nat \<times> nat \<times> nat" where
  "next_date (y, m, d) =
     (if d < month_length y m then (y, m, d + 1) else if m < 11 then (y, m + 1, 1) else (y + 1, 0, 1))"

definition civil_date :: "nat \<Rightarrow> nat \<times> nat \<times> nat" where
  "civil_date n = (next_date ^^ n) (70, 0, 1)"

definition days_to_month :: "nat \<Rightarrow> nat \<Rightarrow> nat" where
  "days_to_month y m = sum_list (map (month_length y) [0..<m])"

definition days_to_year :: "nat \<Rightarrow> nat" where
  "days_to_year y = sum_list (map (\<lambda>k. days_to_month k 12) [70..<y])"

definition utc_localtime :: "int \<Rightarrow> struct_tm" where
  "utc_localtime t =
     (case civil_date (nat (t div 86400)) of
        (y, m, d) \<Rightarrow>
          \<lparr>tm_sec = t mod 86400 mod 60, tm_min = t mod 86400 mod 3600 div 60, tm_hour = t mod 86400 div 3600,
           tm_mday = int d, tm_mon = int m, tm_year = int y, tm_wday = (t div 86400 + 4) mod 7,
           tm_yday = int (days_to_month y m + d - 1), tm_isdst = 0\<rparr>)"

definition utc_mktime :: "struct_tm \<Rightarrow> int" where
  "utc_mktime st =
     (int (days_to_year (nat (tm_year st))) + int (days_to_month (nat (tm_year st)) (nat (tm_mon st))) + tm_mday st - 1) * 86400
     + tm_hour st * 3600 + tm_min st * 60 + tm_sec st"

definition date_valid :: "nat \<times> nat \<times> nat \<Rightarrow> bool" where
  "date_valid = (\<lambda>(y, m, d). 70 \<le> y \<and> m < 12 \<and> 1 \<le> d \<and> d \<le> month_length y m)"

definition day_number :: "nat \<times> nat \<times> nat \<Rightarrow> nat" where
  "day_number = (\<lambda>(y, m, d). days_to_year y + days_to_month y m + d - 1)"

lemma month_length_bounds: "28 \<le> month_length y m" "month_length y m \<le> 31"
  by (auto simp: month_length_def)

lemma next_date_valid: "date_valid dt \<Longrightarrow> date_valid (next_date dt)"
proof (cases dt)
  case (fields y m d)
  have "1 \<le> month_length y' m'" for y' m' using month_length_bounds(1)[of y' m'] by linarith
  then show "date_valid dt \<Longrightarrow> date_valid (next_date dt)" by (auto simp: fields date_valid_def)
qed

lemma days_to_month_Suc: "days_to_month y (Suc m) = days_to_month y m + month_length y m"
  by (simp add: days_to_month_def)

lemma day_number_next: "date_valid dt \<Longrightarrow> day_number (next_date dt) = Suc (day_number dt)"
proof (cases dt)
  case (fields y m d)
  assume "date_valid dt"
  then have v: "70 \<le> y" "m < 12" "1 \<le> d" "d \<le> month_length y m" by (simp_all add: date_valid_def fields)
  have year: "days_to_year (Suc y) = days_to_year y + days_to_month y 12"
    using v(1) by (simp add: days_to_year_def)
  have "days_to_month y 12 = days_to_month y 11 + month_length y 11"
    using days_to_month_Suc[of y 11] by (simp add: numeral_eq_Suc)
  moreover have "days_to_month y' 0 = 0" for y' by (simp add: days_to_month_def)
  ultimately show ?thesis
    using v year days_to_month_Suc[of y m]
    by (auto simp: fields day_number_def not_less le_antisym less_Suc_eq numeral_eq_Suc)
qed

definition nat_date_key :: "nat \<times> nat \<times> nat \<Rightarrow> int" where
  "nat_date_key = (\<lambda>(y, m, d). (int y * 12 + int m) * 32 + int d)"

lemma next_date_later: "date_valid dt \<Longrightarrow> nat_date_key dt < nat_date_key (next_date dt)"
proof (cases dt)
  case (fields y m d)
  assume "date_valid dt"
  then show ?thesis
    using month_length_bounds(2)[of y m] by (auto simp: fields date_valid_def nat_date_key_def)
qed

lemma civil_date_valid: "date_valid (civil_date n)"
proof (induction n)
  case 0
  show ?case by (simp add: civil_date_def date_valid_def month_length_def)
next
  case (Suc n)
  then show ?case using next_date_valid by (simp add: civil_date_def)
qed

lemma civil_date_year: "fst (civil_date n) \<le> 70 + n"
proof (induction n)
  case 0
  show ?case by (simp add: civil_date_def)
next
  case (Suc n)
  then show ?case by (cases "civil_date n") (simp add: civil_date_def)
qed

lemma day_number_civil: "day_number (civil_date n) = n"
proof (induction n)
  case 0
  show ?case by (simp add: civil_date_def day_number_def days_to_year_def days_to_month_def)
next
  case (Suc n)
  then show ?case using day_number_next[OF civil_date_valid[of n]] by (simp add: civil_date_def)
qed

lemma civil_date_later: "m < n \<Longrightarrow> nat_date_key (civil_date m) < nat_date_key (civil_date n)"
proof (induction n)
  case 0
  then show ?case by simp
next
  case (Suc n)
  have "nat_date_key (civil_date n) < nat_date_key (civil_date (Suc n))"
    using next_date_later[OF civil_date_valid[of n]] by (simp add: civil_date_def)
  with Suc show ?case by (cases "m = n") auto
qed

lemma utc_fields:
  assumes "civil_date (nat (t div 86400)) = (y, m, d)"
  shows "tm_year (utc_localtime t) = int y" "tm_mon (utc_localtime t) = int m" "tm_mday (utc_localtime t) = int d"
    "tm_isdst (utc_localtime t) = 0" "date_key (utc_localtime t) = nat_date_key (y, m, d)"
  using assms by (simp_all add: utc_localtime_def date_key_def nat_date_key_def)

interpretation utc: civil_time utc_localtime utc_mktime 0
proof
  fix t u k :: int and st
  obtain y m d where c: "civil_date (nat (t div 86400)) = (y, m, d)" by (cases "civil_date (nat (t div 86400))")
  obtain y' m' d' where c': "civil_date (nat (u div 86400)) = (y', m', d')" by (cases "civil_date (nat (u div 86400))")
  have v: "date_valid (y, m, d)" using civil_date_valid[of "nat (t div 86400)"] c by simp
  show "0 \<le> t \<Longrightarrow> tm_hour (utc_localtime t) = second_of 0 t div 3600"
    "0 \<le> t \<Longrightarrow> tm_min (utc_localtime t) = second_of 0 t mod 3600 div 60"
    "0 \<le> t \<Longrightarrow> tm_sec (utc_localtime t) = second_of 0 t mod 60"
    "0 \<le> t \<Longrightarrow> tm_wday (utc_localtime t) = (day_of 0 t + 4) mod 7"
    "0 \<le> t \<Longrightarrow> tm_isdst (utc_localtime t) = 0"
    by (simp_all add: utc_localtime_def c second_of_def day_of_def)
  show "0 \<le> tm_year (utc_localtime t) \<and> tm_year (utc_localtime t) < 2 ^ 31 \<and> 0 \<le> tm_mon (utc_localtime t) \<and>
          tm_mon (utc_localtime t) < 12 \<and> 1 \<le> tm_mday (utc_localtime t) \<and> tm_mday (utc_localtime t) < 32"
    if "0 \<le> t" "t < 2 ^ 40"
  proof -
    have "y \<le> 70 + nat (t div 86400)" using civil_date_year[of "nat (t div 86400)"] c by simp
    moreover have "t div 86400 < 2 ^ 30" using that by simp
    ultimately show ?thesis
      using v month_length_bounds(2)[of y m] by (simp add: utc_fields[OF c] date_valid_def)
  qed
  show "same_date (utc_localtime t) (utc_localtime u)" if "0 \<le> t" "0 \<le> u" "day_of 0 t = day_of 0 u"
    using that c c' by (simp add: same_date_def day_of_def utc_fields[OF c] utc_fields[OF c'])
  show "date_key (utc_localtime t) < date_key (utc_localtime u)" if "0 \<le> t" "0 \<le> u" "day_of 0 t < day_of 0 u"
    using that civil_date_later[of "nat (t div 86400)" "nat (u div 86400)"]
    by (simp add: utc_fields[OF c] utc_fields[OF c'] c c' day_of_def pos_imp_zdiv_nonneg_iff)
  show "utc_mktime st = (day_of 0 t + k) * 86400 - 0 + tm_hour st * 3600 + tm_min st * 60 + tm_sec st"
    if "0 \<le> t" "0 \<le> k" "same_date (st\<lparr>tm_mday := tm_mday st - k\<rparr>) (utc_localtime t)"
  proof -
    have f: "tm_year st = int y" "tm_mon st = int m" "tm_mday st = int d + k"
      using that(3) by (auto simp: same_date_def utc_fields[OF c])
    have "int (day_number (y, m, d)) = t div 86400"
      using day_number_civil[of "nat (t div 86400)"] c that(1) by (simp add: pos_imp_zdiv_nonneg_iff)
    moreover have "int (day_number (y, m, d)) = int (days_to_year y) + int (days_to_month y m) + int d - 1"
      using v by (auto simp: day_number_def date_valid_def)
    ultimately show ?thesis by (simp add: utc_mktime_def f day_of_def)
  qed
qed

end
