(* ===== verification/Calendar_Year.thy ===== *)
theory Calendar_Year
  imports Calendar_Time
begin

text \<open>
  The year calendar under the laws of \<open>civil_time\<close>: the state of an entry and the time it
  lasts. First the fields of a time as the calendar sees them, then the change within a day,
  the day of the next change, and the two together with the recursion into the next day.
\<close>

lemma uint_of_small: "0 \<le> k \<Longrightarrow> k < 2 ^ 31 \<Longrightarrow> uint (word_of_int k :: 32 word) = k"
  by (simp add: uint_word_of_int take_bit_int_eq_self)

lemma sint_of_small_uint: "uint (w :: 32 word) < 2 ^ 31 \<Longrightarrow> sint w = uint w"
  by (simp add: sint_uint signed_take_bit_int_eq_self order_trans[OF _ uint_ge_0])

text \<open>The daytime ranges of an entry: at least one, not only midnight.\<close>

definition daytimes_ok :: "tmr list \<Rightarrow> bool" where
  "daytimes_ok dts = (list_all dt.closed_range dts \<and> list_ex (\<lambda>r. 1 \<le> dt.end_key r) dts)"

definition active_seconds :: "tmr list \<Rightarrow> int set" where
  "active_seconds dts = (\<Union>r\<in>set dts. dt.span r)"

lemma daytimes_okD:
  assumes "daytimes_ok dts"
  shows "\<And>r. r \<in> set dts \<Longrightarrow> dt.closed_range r" "\<And>r. r \<in> set dts \<Longrightarrow> dt.valid_range r"
    "\<exists>r\<in>set dts. 1 \<le> dt.end_key r"
  using assms by (auto simp: daytimes_ok_def list_all_iff list_ex_iff dt.closed_range_def)

lemma daytime_key_nonneg: "0 \<le> daytime_key t"
  by (simp add: daytime_key_def)

text \<open>The second of the day a change at daytime \<open>t\<close> falls on; 24 o'clock is the next midnight.\<close>

definition change_second :: "tm \<Rightarrow> int" where
  "change_second t = (if TM_hour t = 24 then 86400 else daytime_key t)"

lemma change_second_bounds:
  assumes "daytime_valid t"
  shows "change_second t \<le> 86400" "change_second t \<le> daytime_key t" "0 \<le> change_second t"
    "s < 86400 \<Longrightarrow> s < change_second t \<longleftrightarrow> s < daytime_key t"
    "daytime_key t < 86400 \<Longrightarrow> change_second t = daytime_key t"
proof -
  from assms show "change_second t \<le> 86400" "change_second t \<le> daytime_key t" "0 \<le> change_second t"
    "s < 86400 \<Longrightarrow> s < change_second t \<longleftrightarrow> s < daytime_key t"
    "daytime_key t < 86400 \<Longrightarrow> change_second t = daytime_key t"
    unfolding change_second_def daytime_key_def daytime_valid_def word_uint_eq_iff 
    by (auto split: if_splits) (use uint_ge_0[of "TM_min t"] uint_ge_0[of "TM_sec t"] in linarith)+
qed

lemma change_second_less: "daytime_valid t \<Longrightarrow> TM_hour t \<noteq> 24 \<Longrightarrow> change_second t < 86400"
  by (auto simp: change_second_def daytime_key_def daytime_valid_def word_uint_eq_iff)

text \<open>
  A date of an entry that exists: it is the day of some time. The ranges of a year calendar that
  \<open>year_entry_ok\<close> accepts begin and end with existing dates.
\<close>

definition has_date :: "(int \<Rightarrow> struct_tm) \<Rightarrow> int \<Rightarrow> tm \<Rightarrow> bool" where
  "has_date localtime_r u t = (0 \<le> u \<and> u < 2 ^ 40 \<and> same_date (uncullify_tm t) (localtime_r u))"

definition existing_range :: "(int \<Rightarrow> struct_tm) \<Rightarrow> tmr \<Rightarrow> bool" where
  "existing_range localtime_r r =
     (yd.valid_range r \<and> TM_hour (TMR_begin r) = 0 \<and> TM_min (TMR_begin r) = 0 \<and> TM_sec (TMR_begin r) = 0 \<and>
      (\<exists>u. has_date localtime_r u (TMR_begin r)) \<and>
      (\<forall>e. TMR_end r = Some e \<longrightarrow> (\<exists>u. has_date localtime_r u e)))"

definition year_entry_ok :: "(int \<Rightarrow> struct_tm) \<Rightarrow> ca \<Rightarrow> bool" where
  "year_entry_ok localtime_r e =
     (CA_state e \<noteq> 0 \<and>
      (case CA_yday_range_list e of
         Some ys \<Rightarrow> list_all (existing_range localtime_r) ys
       | None \<Rightarrow> CA_daytime_range_list e = Some full_daytime_range) \<and>
      (case CA_daytime_range_list e of Some dts \<Rightarrow> daytimes_ok dts | None \<Rightarrow> False))"

text \<open>The specification: an entry is active on its days during its daytimes.\<close>

definition year_active :: "(int \<Rightarrow> struct_tm) \<Rightarrow> ca \<Rightarrow> int \<Rightarrow> bool" where
  "year_active localtime_r e t =
     (in_range_list (cullify_tm (localtime_r t)) (CA_yday_range_list e) tm_yday_cmp \<and>
      in_range_list (cullify_tm (localtime_r t)) (CA_daytime_range_list e) tm_daytime_cmp)"

context civil_time
begin

definition now_tm :: "int \<Rightarrow> tm" where
  "now_tm t = cullify_tm (localtime_r t)"

lemma second_bounds: "0 \<le> second_of zone t" "second_of zone t < 86400"
  by (simp_all add: second_of_def)

lemma now_daytime:
  assumes "0 \<le> t"
  shows "daytime_valid (now_tm t)" "daytime_key (now_tm t) = second_of zone t"
proof -
  let ?s = "second_of zone t"
  have s: "0 \<le> ?s" "?s < 86400" by (rule second_bounds)+
  have f: "uint (TM_hour (now_tm t)) = ?s div 3600" "uint (TM_min (now_tm t)) = ?s mod 3600 div 60"
    "uint (TM_sec (now_tm t)) = ?s mod 60"
    using s by (simp_all add: now_tm_def cullify_tm_def hour_of min_of sec_of assms uint_of_small)
  from s have "?s mod 3600 mod 60 = ?s mod 60" by (simp add: mod_mod_cancel)
  then show "daytime_key (now_tm t) = ?s"
    using s by (simp add: daytime_key_def f) (metis add.assoc div_mult_mod_eq)
  have "?s div 3600 < 24" using s by (simp add: div_less_iff_less_mult)
  moreover have "?s mod 3600 div 60 < 60" by (simp add: div_less_iff_less_mult)
  ultimately show "daytime_valid (now_tm t)" by (simp add: daytime_valid_def f)
qed

lemma now_date:
  assumes "0 \<le> t" "t < 2 ^ 40"
  shows "yday_valid (now_tm t)" "yday_key (now_tm t) = date_key (localtime_r t)"
    "same_date (uncullify_tm (now_tm t)) (localtime_r t)" "tm_isdst (uncullify_tm (now_tm t)) = 0"
  using date_bounds[OF assms] isdst_of[OF assms(1)]
  by (simp_all add: now_tm_def cullify_tm_def yday_valid_def yday_key_def date_key_def same_date_def uncullify_tm_def
      uint_of_small sint_of_small_uint)

text \<open>Times and days.\<close>

lemma day_second: "t = day_of zone t * 86400 - zone + second_of zone t"
  unfolding day_of_def second_of_def using div_mult_mod_eq[of "t + zone" 86400] by linarith

lemma day_mono: "t \<le> v \<Longrightarrow> day_of zone t \<le> day_of zone v"
  by (simp add: day_of_def zdiv_mono1)

lemma before_change:
  assumes "v < d * 86400 - zone + s" "s \<le> 86400"
  shows "day_of zone v < d \<or> (day_of zone v = d \<and> second_of zone v < s)"
  using assms second_bounds[of v] day_second[of v] by (smt (verit))

lemma not_before_change:
  assumes "d * 86400 - zone + s \<le> v" "0 \<le> s"
  shows "d < day_of zone v \<or> (d = day_of zone v \<and> s \<le> second_of zone v)"
  using assms second_bounds[of v] day_second[of v] by (smt (verit))

lemma day_of_change: "0 \<le> s \<Longrightarrow> s < 86400 \<Longrightarrow> day_of zone (d * 86400 - zone + s) = d \<and> second_of zone (d * 86400 - zone + s) = s"
  by (simp add: day_of_def second_of_def)

lemma day_le_date:
  assumes "0 \<le> t" "0 \<le> u"
  shows "day_of zone t \<le> day_of zone u \<longleftrightarrow> date_key (localtime_r t) \<le> date_key (localtime_r u)"
proof (cases "day_of zone t" "day_of zone u" rule: linorder_cases)
  case less
  then show ?thesis using later_day[OF assms] by simp
next
  case equal
  then show ?thesis using same_day[OF assms] by (simp add: date_key_def same_date_def)
next
  case greater
  then show ?thesis using later_day[OF assms(2,1)] by simp
qed

text \<open>The change within a day.\<close>

definition dated :: "int \<Rightarrow> int \<Rightarrow> tm \<Rightarrow> bool" where
  "dated u k t = (0 \<le> u \<and> 0 \<le> k \<and> tm_isdst (uncullify_tm t) \<in> {- 1, 0} \<and>
     same_date ((uncullify_tm t)\<lparr>tm_mday := tm_mday (uncullify_tm t) - k\<rparr>) (localtime_r u))"

lemma limit_within_day:
  assumes "dated u k new_now" "daytime_valid l"
  shows "make_limit mktime
           ((uncullify_tm new_now)\<lparr>tm_hour := sint (TM_hour (if TM_hour l = 24 then l\<lparr>TM_hour := 23, TM_min := 59, TM_sec := 59\<rparr> else l)),
              tm_min := sint (TM_min (if TM_hour l = 24 then l\<lparr>TM_hour := 23, TM_min := 59, TM_sec := 59\<rparr> else l)),
              tm_sec := sint (TM_sec (if TM_hour l = 24 then l\<lparr>TM_hour := 23, TM_min := 59, TM_sec := 59\<rparr> else l))\<rparr>) (TM_hour l = 24) =
         (day_of zone u + k) * 86400 - zone + change_second l"
proof -
  have b: "uint (TM_hour l) \<le> 24" "uint (TM_min l) < 60" "uint (TM_sec l) < 60"
    using assms(2) by (simp_all add: daytime_valid_def)
  have s: "sint (TM_hour l) = uint (TM_hour l)" "sint (TM_min l) = uint (TM_min l)" "sint (TM_sec l) = uint (TM_sec l)"
    using b by (simp_all add: sint_of_small_uint)
  have mk: "mktime ((uncullify_tm new_now)\<lparr>tm_hour := h, tm_min := m, tm_sec := s\<rparr>) =
      (day_of zone u + k) * 86400 - zone + h * 3600 + m * 60 + s"
    if "0 \<le> h" "h < 24" "0 \<le> m" "m < 60" "0 \<le> s" "s < 60" for h m s
    using assms(1) that mktime_of[of u k "(uncullify_tm new_now)\<lparr>tm_hour := h, tm_min := m, tm_sec := s\<rparr>"]
    by (simp add: dated_def same_date_def)
  show ?thesis
  proof (cases "TM_hour l = 24")
    case True
    then show ?thesis by (simp add: make_limit_def mk change_second_def)
  next
    case False
    with b have "uint (TM_hour l) < 24" by (auto simp: word_uint_eq_iff)
    with False b show ?thesis by (simp add: make_limit_def mk s change_second_def daytime_key_def)
  qed
qed

definition day_change :: "bool \<Rightarrow> tmr list \<Rightarrow> tm \<Rightarrow> (int \<times> bool) option" where
  "day_change active dts new_now =
     do { (tm_limit, end_of_day, reached) \<leftarrow> compute_limit_time active dts new_now;
          Some (make_limit mktime tm_limit end_of_day, reached) }"

lemma day_change_eq:
  assumes "dated u k new_now" "daytime_valid new_now"
    and "lep = (if active then (case find (\<lambda>r. in_range new_now r tm_daytime_cmp) dts of None \<Rightarrow> None | Some r \<Rightarrow> TMR_end r)
                else nearest_begin (\<lambda>b. tm_daytime_cmp new_now b \<le> 0) tm_daytime_cmp dts None)"
    and "case lep of Some l \<Rightarrow> daytime_valid l | None \<Rightarrow> True"
  shows "day_change active dts new_now =
           Some ((day_of zone u + k) * 86400 - zone + (case lep of Some l \<Rightarrow> change_second l | None \<Rightarrow> 86400), lep = None)"
proof (cases lep)
  case None
  have v: "daytime_valid (new_now\<lparr>TM_hour := 24, TM_min := 0, TM_sec := 0\<rparr>)" by (simp add: daytime_valid_def)
  show ?thesis
    using limit_within_day[OF assms(1) v] None
    by (simp add: day_change_def compute_limit_time_def Let_def assms(3)[symmetric] change_second_def)
next
  case (Some l)
  with assms(4) have v: "daytime_valid l" by simp
  show ?thesis
    using limit_within_day[OF assms(1) v] Some
    by (cases "TM_hour l = 24") (simp_all add: day_change_def compute_limit_time_def Let_def assms(3)[symmetric])
qed

lemma day_change_active:
  assumes "dated u k new_now" "daytime_valid new_now" "daytimes_ok dts"
    and "daytime_key new_now \<in> active_seconds dts" "daytime_key new_now < 86400"
  obtains x where "day_change True dts new_now = Some ((day_of zone u + k) * 86400 - zone + x, False)"
    "daytime_key new_now \<le> x" "x \<le> 86400" "{daytime_key new_now..<x} \<subseteq> active_seconds dts"
proof -
  note ok = daytimes_okD[OF assms(3)]
  have "\<exists>r\<in>set dts. in_range new_now r tm_daytime_cmp"
    using assms(2,4) ok(2) by (auto simp: active_seconds_def dt.in_range_span)
  then obtain r where f: "find (\<lambda>r. in_range new_now r tm_daytime_cmp) dts = Some r"
    by (cases "find (\<lambda>r. in_range new_now r tm_daytime_cmp) dts") (auto simp: find_None_iff)
  then have r: "r \<in> set dts" "in_range new_now r tm_daytime_cmp" by (auto dest: find_SomeD)
  then obtain e where e: "TMR_end r = Some e" "daytime_valid e"
    using ok(1)[OF r(1)] by (auto simp: dt.closed_range_def dt.valid_range_def)
  have span: "daytime_key (TMR_begin r) \<le> daytime_key new_now" "daytime_key new_now \<le> daytime_key e"
    using r ok(2)[OF r(1)] assms(2) by (auto simp: dt.in_range_span dt.span_def dt.end_key_def e)
  note b = change_second_bounds[OF e(2)]
  show thesis
  proof (rule that)
    show "day_change True dts new_now = Some ((day_of zone u + k) * 86400 - zone + change_second e, False)"
      using day_change_eq[OF assms(1,2), of "Some e" True dts] f e by simp
    show "daytime_key new_now \<le> change_second e" using span assms(5) b(1) by (auto simp: change_second_def)
    show "{daytime_key new_now..<change_second e} \<subseteq> active_seconds dts"
    proof
      fix s
      assume "s \<in> {daytime_key new_now..<change_second e}"
      with span b(2) have "s \<in> dt.span r" by (simp add: dt.span_def dt.end_key_def e)
      with r(1) show "s \<in> active_seconds dts" by (auto simp: active_seconds_def)
    qed
  qed (rule b(1))
qed

lemma day_change_inactive:
  assumes "dated u k new_now" "daytime_valid new_now" "daytimes_ok dts"
    and "daytime_key new_now \<notin> active_seconds dts \<or> daytime_key new_now = 0" "daytime_key new_now < 86400"
  obtains x reached where
    "day_change False dts new_now = Some ((day_of zone u + k) * 86400 - zone + x, reached)"
    "daytime_key new_now \<le> x" "x \<le> 86400" "{daytime_key new_now..<x} \<inter> active_seconds dts = {}"
    "reached \<longrightarrow> x = 86400 \<and> (\<forall>r\<in>set dts. daytime_key (TMR_begin r) < daytime_key new_now)"
    "\<not> reached \<and> x < 86400 \<longrightarrow> x \<in> active_seconds dts"
    "\<not> reached \<and> x = 86400 \<longrightarrow> (\<exists>r\<in>set dts. TM_hour (TMR_begin r) = 24)"
proof -
  let ?s = "daytime_key new_now"
  let ?P = "\<lambda>b. tm_daytime_cmp new_now b \<le> 0"
  let ?lep = "nearest_begin ?P tm_daytime_cmp dts None"
  note ok = daytimes_okD[OF assms(3)]
  have all: "\<forall>r\<in>set dts. dt.valid_range r" using ok(2) by blast
  have P: "?P (TMR_begin r) \<longleftrightarrow> ?s \<le> daytime_key (TMR_begin r)" if "r \<in> set dts" for r
    using ok(2)[OF that] assms(2) by (simp add: dt.cmp_le dt.valid_range_def)
  have later: "?s \<le> daytime_key (TMR_begin r)" if "r \<in> set dts" "s \<in> dt.span r" "?s \<le> s" for r s
  proof (rule ccontr)
    assume "\<not> ?thesis"
    with that(2,3) have "?s \<in> dt.span r" "?s \<noteq> 0"
      using daytime_key_nonneg[of "TMR_begin r"] by (auto simp: dt.span_def)
    with that(1) have "?s \<in> active_seconds dts" "?s \<noteq> 0"
      by (auto simp: active_seconds_def)
    with assms(4) show False by blast
  qed
  show thesis
  proof (cases ?lep)
    case None
    then have n: "\<forall>r\<in>set dts. daytime_key (TMR_begin r) < ?s"
      using dt.nearest_begin_None[OF all, of None ?P] P by fastforce
    show thesis
    proof (rule that)
      show "day_change False dts new_now = Some ((day_of zone u + k) * 86400 - zone + 86400, True)"
        using day_change_eq[OF assms(1,2), of None False dts] None by simp
      show "{?s..<86400} \<inter> active_seconds dts = {}"
        using n later by (fastforce simp: active_seconds_def)
    qed (use n assms(5) in auto)
  next
    case (Some l)
    have l: "daytime_valid l" "\<exists>r\<in>set dts. l = TMR_begin r" "?s \<le> daytime_key l"
      "\<forall>r\<in>set dts. ?s \<le> daytime_key (TMR_begin r) \<longrightarrow> daytime_key l \<le> daytime_key (TMR_begin r)"
      using dt.nearest_begin_Some[OF all _ Some] P by auto
    note b = change_second_bounds[OF l(1)]
    have in_span: "daytime_key (TMR_begin r) \<in> dt.span r" if "r \<in> set dts" for r
      using ok(1)[OF that] by (auto simp: dt.span_def dt.end_key_def dt.closed_range_def dt.valid_range_def)
    show thesis
    proof (rule that)
      show "day_change False dts new_now = Some ((day_of zone u + k) * 86400 - zone + change_second l, False)"
        using day_change_eq[OF assms(1,2), of "Some l" False dts] Some l(1) by simp
      show "?s \<le> change_second l" using l(3) assms(5) by (auto simp: change_second_def)
      show "{?s..<change_second l} \<inter> active_seconds dts = {}"
      proof -
        have "change_second l \<le> s" if "r \<in> set dts" "s \<in> dt.span r" "?s \<le> s" for r s
          using later[OF that] l(4) that b(2) by (fastforce simp: dt.span_def)
        then show ?thesis by (fastforce simp: active_seconds_def)
      qed
      show "\<not> False \<and> change_second l < 86400 \<longrightarrow> change_second l \<in> active_seconds dts"
        using l(2) in_span by (auto simp: active_seconds_def change_second_def split: if_splits)
      show "\<not> False \<and> change_second l = 86400 \<longrightarrow> (\<exists>r\<in>set dts. TM_hour (TMR_begin r) = 24)"
        using l(2) change_second_less[OF l(1)] by (metis less_irrefl)
    qed (use b(1) in auto)
  qed
qed

text \<open>The day of the next change.\<close>

lemma has_date_key:
  assumes "has_date localtime_r u t" "yday_valid t"
  shows "yday_key t = date_key (localtime_r u)"
proof -
  have "sint (TM_year t) = uint (TM_year t)" "sint (TM_mon t) = uint (TM_mon t)" "sint (TM_mday t) = uint (TM_mday t)"
    using assms(2) by (simp_all add: yday_valid_def sint_of_small_uint)
  with assms(1) show ?thesis by (simp add: has_date_def same_date_def uncullify_tm_def yday_key_def date_key_def)
qed

lemma existing_range_days:
  assumes "existing_range localtime_r r"
  obtains b e where "has_date localtime_r b (TMR_begin r)" "yday_valid (TMR_begin r)"
    "has_date localtime_r e (case TMR_end r of Some x \<Rightarrow> x | None \<Rightarrow> TMR_begin r)" "day_of zone b \<le> day_of zone e"
    "\<forall>t. 0 \<le> t \<and> t < 2 ^ 40 \<longrightarrow>
        (in_range (now_tm t) r tm_yday_cmp \<longleftrightarrow> day_of zone b \<le> day_of zone t \<and> day_of zone t \<le> day_of zone e)"
proof -
  let ?e = "case TMR_end r of Some x \<Rightarrow> x | None \<Rightarrow> TMR_begin r"
  obtain b e where d: "has_date localtime_r b (TMR_begin r)" "has_date localtime_r e ?e"
    using assms by (cases "TMR_end r") (auto simp: existing_range_def)
  have v: "yday_valid (TMR_begin r)" "yday_valid ?e" "yd.valid_range r" "yd.end_key r = yday_key ?e"
    "yday_key (TMR_begin r) \<le> yday_key ?e"
    using assms by (auto simp: existing_range_def yd.valid_range_def yd.end_key_def split: option.splits)
  have k: "yday_key (TMR_begin r) = date_key (localtime_r b)" "yday_key ?e = date_key (localtime_r e)"
    using has_date_key d v by blast+
  have nn: "0 \<le> b" "0 \<le> e" using d by (simp_all add: has_date_def)
  show thesis
    by (rule that[OF d(1) v(1) d(2)])
      (use v nn in \<open>auto simp: yd.in_range_span now_date yd.span_def k day_le_date\<close>)
qed

definition day_active :: "tmr list \<Rightarrow> int \<Rightarrow> bool" where
  "day_active ys t = (\<exists>r\<in>set ys. in_range (now_tm t) r tm_yday_cmp)"

lemma next_year_day_None:
  assumes ok: "list_all (existing_range localtime_r) ys" and t: "0 \<le> t" "t < 2 ^ 40" "\<not> day_active ys t"
    and n: "nearest_begin (\<lambda>b. tm_yday_cmp (now_tm t) b < 0) tm_yday_cmp ys None = None"
    and v: "t \<le> v" "v < 2 ^ 40"
  shows "\<not> day_active ys v"
proof
  assume "day_active ys v"
  then obtain r where r: "r \<in> set ys" "in_range (now_tm v) r tm_yday_cmp" by (auto simp: day_active_def)
  with ok have "existing_range localtime_r r" by (simp add: list_all_iff)
  from existing_range_days[OF this] obtain b e where be:
    "has_date localtime_r b (TMR_begin r)" "yday_valid (TMR_begin r)"
    "\<forall>t. 0 \<le> t \<and> t < 2 ^ 40 \<longrightarrow>
       (in_range (now_tm t) r tm_yday_cmp \<longleftrightarrow> day_of zone b \<le> day_of zone t \<and> day_of zone t \<le> day_of zone e)"
    by metis
  have "\<not> tm_yday_cmp (now_tm t) (TMR_begin r) < 0"
    using n r(1) ok yd.nearest_begin_None[of ys None "\<lambda>b. tm_yday_cmp (now_tm t) b < 0"]
    by (auto simp: list_all_iff existing_range_def)
  then have "day_of zone b \<le> day_of zone t"
    using be t has_date_key[OF be(1,2)] day_le_date[of b t] by (simp add: yd.cmp_less now_date has_date_def)
  with be(3) r(2) t v day_mono[OF v(1)] have "in_range (now_tm t) r tm_yday_cmp" by auto
  with r(1) t(3) show False by (auto simp: day_active_def)
qed

lemma next_year_day_Some:
  assumes ok: "list_all (existing_range localtime_r) ys" and t: "0 \<le> t" "t < 2 ^ 40" "\<not> day_active ys t"
    and n: "nearest_begin (\<lambda>b. tm_yday_cmp (now_tm t) b < 0) tm_yday_cmp ys None = Some l"
  obtains u where "has_date localtime_r u l" "day_of zone t < day_of zone u"
    "TM_hour l = 0" "TM_min l = 0" "TM_sec l = 0"
    "\<forall>v. t \<le> v \<and> v < 2 ^ 40 \<and> day_of zone v < day_of zone u \<longrightarrow> \<not> day_active ys v"
    "\<forall>v. 0 \<le> v \<and> v < 2 ^ 40 \<and> day_of zone v = day_of zone u \<longrightarrow> day_active ys v"
proof -
  let ?P = "\<lambda>b. tm_yday_cmp (now_tm t) b < 0"
  have valid: "\<forall>r\<in>set ys. yd.valid_range r" using ok by (simp add: list_all_iff existing_range_def)
  obtain r where r: "r \<in> set ys" "?P (TMR_begin r)" "l = TMR_begin r"
    and least: "\<forall>r\<in>set ys. ?P (TMR_begin r) \<longrightarrow> yday_key l \<le> yday_key (TMR_begin r)"
    using yd.nearest_begin_Some[OF valid _ n] by auto
  have ex: "existing_range localtime_r q" if "q \<in> set ys" for q using ok that by (simp add: list_all_iff)
  from existing_range_days[OF ex[OF r(1)]] obtain u e where u: "has_date localtime_r u l" "yday_valid l"
    "day_of zone u \<le> day_of zone e"
    "\<forall>t. 0 \<le> t \<and> t < 2 ^ 40 \<longrightarrow>
       (in_range (now_tm t) r tm_yday_cmp \<longleftrightarrow> day_of zone u \<le> day_of zone t \<and> day_of zone t \<le> day_of zone e)"
    unfolding r(3) by metis
  have P: "?P (TMR_begin q) \<longleftrightarrow> day_of zone t < day_of zone b"
    if "has_date localtime_r b (TMR_begin q)" "yday_valid (TMR_begin q)" for b q
    using that t has_date_key[OF that] day_le_date[of b t] by (auto simp: yd.cmp_less now_date has_date_def)
  have early: "\<not> day_active ys v" if v: "t \<le> v" "v < 2 ^ 40" "day_of zone v < day_of zone u" for v
  proof
    assume "day_active ys v"
    then obtain q where q: "q \<in> set ys" "in_range (now_tm v) q tm_yday_cmp" by (auto simp: day_active_def)
    from existing_range_days[OF ex[OF q(1)]] obtain b f where bf:
      "has_date localtime_r b (TMR_begin q)" "yday_valid (TMR_begin q)"
      "\<forall>t. 0 \<le> t \<and> t < 2 ^ 40 \<longrightarrow>
         (in_range (now_tm t) q tm_yday_cmp \<longleftrightarrow> day_of zone b \<le> day_of zone t \<and> day_of zone t \<le> day_of zone f)"
      by metis
    with q t v have b: "day_of zone b \<le> day_of zone v" "day_of zone v \<le> day_of zone f" by auto
    show False
    proof (cases "?P (TMR_begin q)")
      case True
      with least q(1) have "date_key (localtime_r u) \<le> date_key (localtime_r b)"
        using has_date_key[OF u(1,2)] has_date_key[OF bf(1,2)] by auto
      then have "day_of zone u \<le> day_of zone b"
        using day_le_date[of u b] u(1) bf(1) by (simp add: has_date_def)
      with b v show False by simp
    next
      case False
      with P[OF bf(1,2)] have "day_of zone b \<le> day_of zone t" by simp
      with bf(3) b t day_mono[OF v(1)] have "in_range (now_tm t) q tm_yday_cmp" by auto
      with q(1) t(3) show False by (auto simp: day_active_def)
    qed
  qed
  show thesis
  proof (rule that[OF u(1)])
    show "day_of zone t < day_of zone u" using P[of u r] u r by simp
    show "TM_hour l = 0" "TM_min l = 0" "TM_sec l = 0" using ex[OF r(1)] r(3) by (simp_all add: existing_range_def)
    show "\<forall>v. t \<le> v \<and> v < 2 ^ 40 \<and> day_of zone v < day_of zone u \<longrightarrow> \<not> day_active ys v" using early by blast
    show "\<forall>v. 0 \<le> v \<and> v < 2 ^ 40 \<and> day_of zone v = day_of zone u \<longrightarrow> day_active ys v"
      using u(3,4) r(1) by (auto simp: day_active_def)
  qed
qed

text \<open>Both halves together: the next change of an entry, except that the rest of this day may pass without one.\<close>

definition no_change :: "ca \<Rightarrow> int \<Rightarrow> int \<Rightarrow> bool" where
  "no_change e t limit =
     (\<forall>v. t \<le> v \<and> v < 2 ^ 40 \<and> (limit = 0 \<or> v < limit) \<longrightarrow> year_active localtime_r e v = year_active localtime_r e t)"

lemma day_changes_cover_day:
  assumes "daytimes_ok (r # dts)" "is_full_day_range r = Some True" "0 \<le> s" "s < 86400"
  shows "s \<in> active_seconds (r # dts)"
  using assms
  by (auto simp: is_full_day_range_def active_seconds_def dt.span_def dt.end_key_def daytime_key_def split: option.splits)

lemma year_active_iff:
  assumes "CA_yday_range_list e = Some ys" "CA_daytime_range_list e = Some dts" "daytimes_ok dts" "0 \<le> t"
  shows "year_active localtime_r e t \<longleftrightarrow> day_active ys t \<and> second_of zone t \<in> active_seconds dts"
  using assms(1,2,4) daytimes_okD(2)[OF assms(3)] dt.in_range_list_span[of "now_tm t" dts] now_daytime[OF assms(4)]
  by (auto simp: year_active_def in_range_list_def list_ex_iff day_active_def now_tm_def active_seconds_def)

lemma dated_now: "0 \<le> t \<Longrightarrow> t < 2 ^ 40 \<Longrightarrow> dated t 0 (now_tm t)"
  by (simp add: dated_def now_date)

lemma dated_has_date: "has_date localtime_r u l \<Longrightarrow> dated u 0 (l\<lparr>TM_isdst := - 1\<rparr>)"
  by (simp add: dated_def has_date_def same_date_def uncullify_tm_def)

lemma active_year_end_days:
  assumes "list_all (existing_range localtime_r) ys" "0 \<le> t" "t < 2 ^ 40" "day_active ys t"
  obtains l u where "active_year_end (now_tm t) ys = Some l" "has_date localtime_r u l" "day_of zone t \<le> day_of zone u"
    "\<forall>v. t \<le> v \<and> v < 2 ^ 40 \<and> day_of zone v \<le> day_of zone u \<longrightarrow> day_active ys v"
  using assms
proof (induction ys arbitrary: thesis)
  case Nil
  then show ?case by (simp add: day_active_def)
next
  case (Cons r ys)
  show ?case
  proof (cases "in_range (now_tm t) r tm_yday_cmp")
    case True
    have "existing_range localtime_r r" using Cons.prems(2) by simp
    from existing_range_days[OF this] obtain b e where be:
      "has_date localtime_r e (case TMR_end r of Some x \<Rightarrow> x | None \<Rightarrow> TMR_begin r)"
      "\<forall>t. 0 \<le> t \<and> t < 2 ^ 40 \<longrightarrow>
         (in_range (now_tm t) r tm_yday_cmp \<longleftrightarrow> day_of zone b \<le> day_of zone t \<and> day_of zone t \<le> day_of zone e)"
      by metis
    show ?thesis
      using True be Cons.prems(3,4) day_mono
      by (intro Cons.prems(1)[of "case TMR_end r of Some x \<Rightarrow> x | None \<Rightarrow> TMR_begin r" e])
        (force simp: day_active_def)+
  next
    case False
    with Cons.prems have "list_all (existing_range localtime_r) ys" "day_active ys t" by (auto simp: day_active_def)
    from Cons.IH[OF _ this(1) Cons.prems(3,4) this(2)] obtain l u where
      "active_year_end (now_tm t) ys = Some l" "has_date localtime_r u l" "day_of zone t \<le> day_of zone u"
      "\<forall>v. t \<le> v \<and> v < 2 ^ 40 \<and> day_of zone v \<le> day_of zone u \<longrightarrow> day_active ys v" by blast
    with False show ?thesis by (intro Cons.prems(1)[of l u]) (auto simp: day_active_def)
  qed
qed

lemma mktime_dated:
  assumes "dated u k l" "sint (TM_hour l) = h" "sint (TM_min l) = m" "sint (TM_sec l) = s"
    and "0 \<le> h" "h < 24" "0 \<le> m" "m < 60" "0 \<le> s" "s < 60"
  shows "mktime (uncullify_tm l) = (day_of zone u + k) * 86400 - zone + h * 3600 + m * 60 + s"
proof -
  have "tm_hour (uncullify_tm l) = h" "tm_min (uncullify_tm l) = m" "tm_sec (uncullify_tm l) = s"
    using assms(2-4) by (simp_all add: uncullify_tm_def)
  with assms mktime_of[of u k "uncullify_tm l"] show ?thesis by (simp add: dated_def)
qed

definition limit_ok :: "ca \<Rightarrow> tmr list \<Rightarrow> int \<Rightarrow> int \<Rightarrow> bool \<Rightarrow> bool" where
  "limit_ok e dts t limit reached =
     (no_change e t limit \<and> (limit = 0 \<or> t \<le> limit) \<and>
      (reached \<longrightarrow> day_active (the (CA_yday_range_list e)) t \<and> \<not> year_active localtime_r e t \<and> limit = (day_of zone t + 1) * 86400 - zone \<and>
         (\<forall>r\<in>set dts. daytime_key (TMR_begin r) < second_of zone t)) \<and>
      (\<not> reached \<and> \<not> year_active localtime_r e t \<and> limit \<noteq> 0 \<and> limit < 2 ^ 40 \<and> (\<forall>r\<in>set dts. TM_hour (TMR_begin r) \<noteq> 24) \<longrightarrow>
         year_active localtime_r e limit))"

lemma compute_limit_full_day:
  assumes e: "CA_yday_range_list e = Some ys" "CA_daytime_range_list e = Some (r # dts)"
    and ok: "list_all (existing_range localtime_r) ys" "daytimes_ok (r # dts)"
    and t: "0 < t" "t < 2 ^ 40" and full: "is_full_day_range r = Some True"
  obtains limit where
    "compute_limit mktime (day_active ys t) (year_active localtime_r e t) (Some ys) None (Some (r # dts)) (now_tm t) = Some (limit, False)"
    "limit_ok e (r # dts) t limit False"
proof -
  have act: "year_active localtime_r e v \<longleftrightarrow> day_active ys v" if "0 \<le> v" for v
    using year_active_iff[OF e ok(2) that] day_changes_cover_day[OF ok(2) full] second_bounds[of v] by simp
  have t0: "0 \<le> t" using t by simp
  show thesis
  proof (cases "day_active ys t")
    case True
    from active_year_end_days[OF ok(1) t0 t(2) True] obtain l u where l:
      "active_year_end (now_tm t) ys = Some l" "has_date localtime_r u l" "day_of zone t \<le> day_of zone u"
      "\<forall>v. t \<le> v \<and> v < 2 ^ 40 \<and> day_of zone v \<le> day_of zone u \<longrightarrow> day_active ys v" by blast
    let ?l = "l\<lparr>TM_sec := 59, TM_min := 59, TM_hour := 23, TM_isdst := - 1\<rparr>"
    let ?limit = "day_of zone u * 86400 - zone + 86400"
    have "dated u 0 ?l" using dated_has_date[OF l(2)] by (simp add: dated_def uncullify_tm_def same_date_def)
    from mktime_dated[OF this, of 23 59 59] have mk: "mktime (uncullify_tm ?l) + 1 = ?limit" by simp
    have later: "t < ?limit" using l(3) day_second[of t] second_bounds[of t] by simp
    have same: "no_change e t ?limit"
      unfolding no_change_def
    proof (intro allI impI)
      fix v
      assume v: "t \<le> v \<and> v < 2 ^ 40 \<and> (?limit = 0 \<or> v < ?limit)"
      then have "day_of zone v \<le> day_of zone u"
        using before_change[of v "day_of zone u" 86400] later t by auto
      with l(4) v t0 True show "year_active localtime_r e v = year_active localtime_r e t" by (simp add: act)
    qed
    show thesis
      by (rule that[of ?limit])
        (use full same later True l(1) t0 mk in \<open>simp_all add: compute_limit_def compute_limit_day_def make_limit_def limit_ok_def act\<close>)
  next
    case False
    let ?n = "nearest_begin (\<lambda>b. tm_yday_cmp (now_tm t) b < 0) tm_yday_cmp ys None"
    show thesis
    proof (cases ?n)
      case None
      have "no_change e t 0"
        using next_year_day_None[OF ok(1) t0 t(2) False None] False t0 by (auto simp: no_change_def act)
      with None False t0 full show thesis
        by (intro that[of 0]) (simp_all add: compute_limit_def compute_limit_day_def limit_ok_def act)
    next
      case (Some l)
      from next_year_day_Some[OF ok(1) t0 t(2) False Some] obtain u where u:
        "has_date localtime_r u l" "day_of zone t < day_of zone u" "TM_hour l = 0" "TM_min l = 0" "TM_sec l = 0"
        "\<forall>v. t \<le> v \<and> v < 2 ^ 40 \<and> day_of zone v < day_of zone u \<longrightarrow> \<not> day_active ys v"
        "\<forall>v. 0 \<le> v \<and> v < 2 ^ 40 \<and> day_of zone v = day_of zone u \<longrightarrow> day_active ys v" by blast
      let ?limit = "day_of zone u * 86400 - zone + 0"
      from mktime_dated[OF dated_has_date[OF u(1)], of 0 0 0] u(3-5)
      have mk: "mktime (uncullify_tm (l\<lparr>TM_isdst := - 1\<rparr>)) = ?limit" by simp
      have later: "t < ?limit" using u(2) day_second[of t] second_bounds[of t] by simp
      have same: "no_change e t ?limit"
        unfolding no_change_def
      proof (intro allI impI)
        fix v
        assume v: "t \<le> v \<and> v < 2 ^ 40 \<and> (?limit = 0 \<or> v < ?limit)"
        then have "day_of zone v < day_of zone u"
          using before_change[of v "day_of zone u" 0] later t second_bounds[of v] by auto
        with u(6) v t0 False show "year_active localtime_r e v = year_active localtime_r e t" by (simp add: act)
      qed
      have "year_active localtime_r e ?limit" if "?limit < 2 ^ 40"
        using u(7) that later t0 day_of_change[of 0 "day_of zone u"] by (simp add: act)
      then show thesis
        by (intro that[of ?limit])
          (use full same later False Some t0 mk in \<open>simp_all add: compute_limit_def compute_limit_day_def make_limit_def limit_ok_def act\<close>)
    qed
  qed
qed

lemma compute_limit_part_day:
  assumes "is_full_day_range r = Some False"
  shows "compute_limit mktime True active (Some ys) None (Some (r # dts)) now = day_change active (r # dts) now"
    and "compute_limit mktime False False (Some ys) None (Some (r # dts)) now =
           (case nearest_begin (\<lambda>b. tm_yday_cmp now b < 0) tm_yday_cmp ys None of
              None \<Rightarrow> Some (0, False) | Some l \<Rightarrow> day_change False (r # dts) (l\<lparr>TM_isdst := - 1\<rparr>))"
  using assms by (simp_all add: compute_limit_def compute_limit_day_def day_change_def split: option.splits)

lemma day_active_same_day:
  assumes "0 \<le> v" "0 \<le> t" "day_of zone v = day_of zone t"
  shows "day_active ys v = day_active ys t"
proof -
  have "same_date (localtime_r v) (localtime_r t)" using same_day assms by blast
  then have "TM_year (now_tm v) = TM_year (now_tm t)" "TM_mon (now_tm v) = TM_mon (now_tm t)" "TM_mday (now_tm v) = TM_mday (now_tm t)"
    by (simp_all add: now_tm_def cullify_tm_def same_date_def)
  then have "tm_yday_cmp b (now_tm v) = tm_yday_cmp b (now_tm t)" "tm_yday_cmp (now_tm v) b = tm_yday_cmp (now_tm t) b" for b
    unfolding tm_yday_cmp_def by (simp_all only:)
  then have "in_range (now_tm v) r tm_yday_cmp = in_range (now_tm t) r tm_yday_cmp" for r
    by (cases "TMR_end r") (simp_all add: in_range_def)
  then show ?thesis by (simp add: day_active_def)
qed

lemma limit_today:
  assumes e: "CA_yday_range_list e = Some ys" "CA_daytime_range_list e = Some dts"
    and ok: "list_all (existing_range localtime_r) ys" "daytimes_ok dts"
    and t: "0 < t" "t < 2 ^ 40" and today: "day_active ys t"
  obtains limit reached where "day_change (year_active localtime_r e t) dts (now_tm t) = Some (limit, reached)"
    "limit_ok e dts t limit reached"
proof -
  have t0: "0 \<le> t" using t by simp
  let ?d = "day_of zone t" and ?s = "second_of zone t" and ?S = "active_seconds dts"
  note now = now_daytime[OF t0] and dated = dated_now[OF t0 t(2)] and s = second_bounds[of t]
  have act: "year_active localtime_r e v \<longleftrightarrow> second_of zone v \<in> ?S"
    if "t \<le> v" "v < 2 ^ 40" "day_of zone v = ?d" for v
  proof -
    have "day_active ys v = day_active ys t"
      by (rule day_active_same_day) (use that t0 in auto)
    then show ?thesis using year_active_iff[OF e ok(2)] that t0 today by simp
  qed
  have act_t: "year_active localtime_r e t \<longleftrightarrow> ?s \<in> ?S" by (rule act) (use t in auto)
  have same: "no_change e t (?d * 86400 - zone + x)"
    if x: "?s \<le> x" "x \<le> 86400" "\<forall>s. ?s \<le> s \<and> s < x \<longrightarrow> (s \<in> ?S \<longleftrightarrow> ?s \<in> ?S)" for x
    unfolding no_change_def
  proof (intro allI impI)
    fix v
    assume v: "t \<le> v \<and> v < 2 ^ 40 \<and> (?d * 86400 - zone + x = 0 \<or> v < ?d * 86400 - zone + x)"
    have "t \<le> ?d * 86400 - zone + x" using day_second[of t] x(1) by linarith
    with v t have "v < ?d * 86400 - zone + x" by auto
    with before_change[OF this x(2)] day_mono[of t v] v
    have d: "day_of zone v = ?d" "second_of zone v < x" by auto
    moreover have "?s \<le> second_of zone v" using v d(1) day_second[of t] day_second[of v] by simp
    ultimately have "second_of zone v \<in> ?S \<longleftrightarrow> ?s \<in> ?S" using x(3) by blast
    moreover have "year_active localtime_r e v \<longleftrightarrow> second_of zone v \<in> ?S" by (rule act) (use v d in auto)
    ultimately show "year_active localtime_r e v = year_active localtime_r e t" using act_t by blast
  qed
  have later: "t \<le> ?d * 86400 - zone + x" if "?s \<le> x" for x using that day_second[of t] by linarith
  show thesis
  proof (cases "year_active localtime_r e t")
    case True
    then have "daytime_key (now_tm t) \<in> ?S" "daytime_key (now_tm t) < 86400" using act_t now(2) s(2) by simp_all
    from day_change_active[OF dated now(1) ok(2) this] obtain x where x:
      "day_change True dts (now_tm t) = Some ((?d + 0) * 86400 - zone + x, False)" "?s \<le> x" "x \<le> 86400" "{?s..<x} \<subseteq> ?S"
      by (auto simp: now(2))
    have "no_change e t (?d * 86400 - zone + x)"
      by (rule same[OF x(2,3)]) (use x(4) True act_t in auto)
    with x True later[of x] show thesis
      by (intro that[of "?d * 86400 - zone + x" False]) (auto simp: limit_ok_def)
  next
    case False
    then have "daytime_key (now_tm t) \<notin> ?S \<or> daytime_key (now_tm t) = 0" "daytime_key (now_tm t) < 86400"
      using act_t now(2) s(2) by simp_all
    from day_change_inactive[OF dated now(1) ok(2) this] obtain x reached where x:
      "day_change False dts (now_tm t) = Some ((?d + 0) * 86400 - zone + x, reached)" "?s \<le> x" "x \<le> 86400"
      "{?s..<x} \<inter> ?S = {}" "reached \<longrightarrow> x = 86400 \<and> (\<forall>r\<in>set dts. daytime_key (TMR_begin r) < ?s)"
      "\<not> reached \<and> x < 86400 \<longrightarrow> x \<in> ?S" "\<not> reached \<and> x = 86400 \<longrightarrow> (\<exists>r\<in>set dts. TM_hour (TMR_begin r) = 24)"
      unfolding now(2) by blast
    have "year_active localtime_r e (?d * 86400 - zone + x)"
      if "\<not> reached" "?d * 86400 - zone + x < 2 ^ 40" "\<forall>r\<in>set dts. TM_hour (TMR_begin r) \<noteq> 24"
    proof -
      have "x < 86400" using x(3,7) that by (cases "x = 86400") auto
      moreover from this have "day_of zone (?d * 86400 - zone + x) = ?d" "second_of zone (?d * 86400 - zone + x) = x"
        using day_of_change[of x ?d] x(2) s(1) by auto
      ultimately show ?thesis
        using act[OF later[OF x(2)] that(2)] x(6) that(1) by simp
    qed
    moreover have "no_change e t (?d * 86400 - zone + x)"
      by (rule same[OF x(2,3)]) (use x(4) False act_t in auto)
    ultimately show thesis
      using x(1,5) False later[OF x(2)]
      by (intro that[of "?d * 86400 - zone + x" reached]) (auto simp: limit_ok_def algebra_simps e(1) today)
  qed
qed

lemma limit_other_day:
  assumes e: "CA_yday_range_list e = Some ys" "CA_daytime_range_list e = Some dts"
    and ok: "list_all (existing_range localtime_r) ys" "daytimes_ok dts"
    and t: "0 < t" "t < 2 ^ 40" and today: "\<not> day_active ys t"
    and n: "nearest_begin (\<lambda>b. tm_yday_cmp (now_tm t) b < 0) tm_yday_cmp ys None = Some l"
  obtains limit where "day_change False dts (l\<lparr>TM_isdst := - 1\<rparr>) = Some (limit, False)" "limit_ok e dts t limit False"
proof -
  have t0: "0 \<le> t" using t by simp
  let ?S = "active_seconds dts" and ?l = "l\<lparr>TM_isdst := - 1\<rparr>"
  from next_year_day_Some[OF ok(1) t0 t(2) today n] obtain u where u:
    "has_date localtime_r u l" "day_of zone t < day_of zone u" "TM_hour l = 0" "TM_min l = 0" "TM_sec l = 0"
    "\<forall>v. t \<le> v \<and> v < 2 ^ 40 \<and> day_of zone v < day_of zone u \<longrightarrow> \<not> day_active ys v"
    "\<forall>v. 0 \<le> v \<and> v < 2 ^ 40 \<and> day_of zone v = day_of zone u \<longrightarrow> day_active ys v" by blast
  let ?d = "day_of zone u"
  have key: "daytime_valid ?l" "daytime_key ?l = 0" using u(3-5) by (simp_all add: daytime_valid_def daytime_key_def)
  have z: "daytime_key ?l \<notin> ?S \<or> daytime_key ?l = 0" "daytime_key ?l < 86400" using key by simp_all
  from day_change_inactive[OF dated_has_date[OF u(1)] key(1) ok(2) z] obtain x reached where x:
    "day_change False dts ?l = Some ((?d + 0) * 86400 - zone + x, reached)" "0 \<le> x" "x \<le> 86400"
    "{0..<x} \<inter> ?S = {}" "reached \<longrightarrow> x = 86400 \<and> (\<forall>r\<in>set dts. daytime_key (TMR_begin r) < 0)"
    "\<not> reached \<and> x < 86400 \<longrightarrow> x \<in> ?S" "\<not> reached \<and> x = 86400 \<longrightarrow> (\<exists>r\<in>set dts. TM_hour (TMR_begin r) = 24)"
    unfolding key(2) by blast
  have nr: "\<not> reached"
  proof
    assume reached
    moreover obtain r where "r \<in> set dts" using daytimes_okD(3)[OF ok(2)] by blast
    ultimately show False using x(5) daytime_key_nonneg[of "TMR_begin r"] by auto
  qed
  let ?limit = "?d * 86400 - zone + x"
  have later: "t < ?limit" using u(2) day_second[of t] second_bounds[of t] x(2) by simp
  have act: "year_active localtime_r e v \<longleftrightarrow> day_active ys v \<and> second_of zone v \<in> ?S" if "0 \<le> v" for v
    by (rule year_active_iff[OF e ok(2) that])
  have same: "no_change e t ?limit"
    unfolding no_change_def
  proof (intro allI impI)
    fix v
    assume v: "t \<le> v \<and> v < 2 ^ 40 \<and> (?limit = 0 \<or> v < ?limit)"
    then have "v < ?limit" using later t by auto
    from before_change[OF this x(3)] have "\<not> year_active localtime_r e v"
    proof
      assume "day_of zone v < ?d"
      with u(6) v t0 show ?thesis by (simp add: act)
    next
      assume d: "day_of zone v = ?d \<and> second_of zone v < x"
      then have "second_of zone v \<in> {0..<x}" using second_bounds(1)[of v] by simp
      with x(4) have "second_of zone v \<notin> ?S" by blast
      with v t0 show ?thesis by (simp add: act)
    qed
    then show "year_active localtime_r e v = year_active localtime_r e t" using today t0 by (simp add: act)
  qed
  have "year_active localtime_r e ?limit" if "?limit < 2 ^ 40" "\<forall>r\<in>set dts. TM_hour (TMR_begin r) \<noteq> 24"
  proof -
    have "x < 86400" using x(3,7) nr that by (cases "x = 86400") auto
    with x(2) have d: "day_of zone ?limit = ?d" "second_of zone ?limit = x" using day_of_change[of x ?d] by auto
    have "0 \<le> ?limit" using later t by simp
    with d u(7) that(1) x(6) nr \<open>x < 86400\<close> show ?thesis by (simp add: act)
  qed
  with same later nr x(1) show thesis by (intro that[of ?limit]) (auto simp: limit_ok_def)
qed

lemma compute_limit_year:
  assumes e: "CA_yday_range_list e = Some ys" "CA_daytime_range_list e = Some dts"
    and ok: "list_all (existing_range localtime_r) ys" "daytimes_ok dts"
    and t: "0 < t" "t < 2 ^ 40"
  obtains limit reached where
    "compute_limit mktime (day_active ys t) (year_active localtime_r e t) (Some ys) None (Some dts) (now_tm t) = Some (limit, reached)"
    "limit_ok e dts t limit reached"
proof -
  have t0: "0 \<le> t" using t by simp
  obtain r ds where dts: "dts = r # ds" using daytimes_okD(3)[OF ok(2)] by (cases dts) auto
  then obtain full where full: "is_full_day_range r = Some full"
    using daytimes_okD(1)[OF ok(2), of r] by (auto simp: is_full_day_range_def dt.closed_range_def)
  show thesis
  proof (cases full)
    case True
    with full have "is_full_day_range r = Some True" by simp
    from compute_limit_full_day[OF e(1) e(2)[unfolded dts] ok(1) ok(2)[unfolded dts] t this] obtain limit where
      "compute_limit mktime (day_active ys t) (year_active localtime_r e t) (Some ys) None (Some dts) (now_tm t) = Some (limit, False)"
      "limit_ok e dts t limit False"
      unfolding dts by blast
    then show thesis by (rule that)
  next
    case False
    with full have part: "is_full_day_range r = Some False" by simp
    have c: "compute_limit mktime True a (Some ys) None (Some dts) (now_tm t) = day_change a dts (now_tm t)"
      "compute_limit mktime False False (Some ys) None (Some dts) (now_tm t) =
         (case nearest_begin (\<lambda>b. tm_yday_cmp (now_tm t) b < 0) tm_yday_cmp ys None of
            None \<Rightarrow> Some (0, False) | Some l \<Rightarrow> day_change False dts (l\<lparr>TM_isdst := - 1\<rparr>))" for a
      unfolding dts by (rule compute_limit_part_day[OF part])+
    show thesis
    proof (cases "day_active ys t")
      case True
      from limit_today[OF e ok t True] obtain limit reached where
        "day_change (year_active localtime_r e t) dts (now_tm t) = Some (limit, reached)" "limit_ok e dts t limit reached" by blast
      with c(1) True show thesis by (intro that) auto
    next
      case today: False
      then have na: "\<not> year_active localtime_r e t" using year_active_iff[OF e ok(2) t0] by simp
      show thesis
      proof (cases "nearest_begin (\<lambda>b. tm_yday_cmp (now_tm t) b < 0) tm_yday_cmp ys None")
        case None
        have "no_change e t 0"
          using next_year_day_None[OF ok(1) t0 t(2) today None] na t0 year_active_iff[OF e ok(2)] by (auto simp: no_change_def)
        with c(2) None today na show thesis by (intro that[of 0 False]) (auto simp: limit_ok_def)
      next
        case (Some l)
        from limit_other_day[OF e ok t today Some] obtain limit where
          "day_change False dts (l\<lparr>TM_isdst := - 1\<rparr>) = Some (limit, False)" "limit_ok e dts t limit False" by blast
        with c(2) Some today na show thesis by (intro that[of limit False]) auto
      qed
    qed
  qed
qed

text \<open>
  The operation itself. One step into the next day is enough, and the only second the answer may
  be wrong about is midnight, because the next day is looked at from one second past midnight.
\<close>

lemma year_state:
  assumes "CA_yday_range_list e = Some ys" "CA_daytime_range_list e = Some dts" "daytimes_ok dts" "0 \<le> t"
  shows "in_range_list (now_tm t) (Some ys) tm_yday_cmp \<longleftrightarrow> day_active ys t"
    "in_range_list (now_tm t) (Some ys) tm_yday_cmp \<and> in_range_list (now_tm t) (Some dts) tm_daytime_cmp \<longleftrightarrow>
       year_active localtime_r e t"
  using assms by (auto simp: in_range_list_def list_ex_iff day_active_def year_active_def now_tm_def)

lemma is_year_entry_active_step:
  assumes e: "CA_yday_range_list e = Some ys" "CA_daytime_range_list e = Some dts" and ok: "daytimes_ok dts" and t: "0 \<le> t"
    and c: "compute_limit mktime (day_active ys t) (year_active localtime_r e t) (Some ys) None (Some dts) (now_tm t) = Some (limit, reached)"
  shows "is_year_entry_active localtime_r mktime (now_tm t) e =
    (let state = (if year_active localtime_r e t then CA_state e else 0) in
     if reached then do {
       (next_day_state, limit') \<leftarrow> is_year_entry_active localtime_r mktime (now_tm (limit + 1)) e;
       Some (if next_day_state \<noteq> state then (state, limit + 1) else (next_day_state, limit')) }
     else Some (state, limit))"
proof -
  note s = year_state[OF e ok t]
  show ?thesis
    by (subst is_year_entry_active.simps)
      (use s c in \<open>cases "year_active localtime_r e t"; auto simp: Let_def e now_tm_def[of "limit + 1", symmetric]\<close>)
qed

definition year_answer_ok :: "ca \<Rightarrow> int \<Rightarrow> 32 word \<times> int \<Rightarrow> bool" where
  "year_answer_ok e t = (\<lambda>(state, limit).
     state = (if year_active localtime_r e t then CA_state e else 0) \<and> (limit = 0 \<or> t \<le> limit) \<and>
     (\<forall>v. t \<le> v \<and> v < 2 ^ 40 \<and> (limit = 0 \<or> v < limit) \<and> second_of zone v \<noteq> 0 \<longrightarrow>
        year_active localtime_r e v = year_active localtime_r e t) \<and>
     (\<not> year_active localtime_r e t \<and> limit \<noteq> 0 \<and> limit < 2 ^ 40 \<and>
      list_all (\<lambda>r. TM_hour (TMR_begin r) \<noteq> 24) (the (CA_daytime_range_list e)) \<longrightarrow> year_active localtime_r e limit))"

lemma no_second_step:
  assumes e: "CA_yday_range_list e = Some ys" "CA_daytime_range_list e = Some dts" and ok: "daytimes_ok dts"
    and u: "0 \<le> u" "second_of zone u = 1" and l: "limit_ok e dts u limit reached"
  shows "\<not> reached"
proof
  assume reached
  with l have r: "day_active ys u" "\<not> year_active localtime_r e u" "\<forall>r\<in>set dts. daytime_key (TMR_begin r) < 1"
    by (simp_all add: limit_ok_def e u)
  from daytimes_okD(3)[OF ok] obtain r where "r \<in> set dts" "1 \<le> dt.end_key r" by blast
  with r(3) have "1 \<in> active_seconds dts"
    by (auto simp: active_seconds_def dt.span_def intro!: bexI[of _ r])
  with r(1,2) show False using year_active_iff[OF e ok u(1)] u(2) by simp
qed

lemma year_answer_direct:
  assumes "CA_daytime_range_list e = Some dts" "limit_ok e dts t limit False"
  shows "year_answer_ok e t (if year_active localtime_r e t then CA_state e else 0, limit)"
  using assms by (auto simp: year_answer_ok_def limit_ok_def no_change_def list_all_iff)

lemma year_answer_next_day:
  assumes l: "limit_ok e dts t limit True" and e: "CA_daytime_range_list e = Some dts" "CA_state e \<noteq> 0" and t: "0 < t"
    and u: "year_answer_ok e (limit + 1) (state', limit')"
  shows "year_answer_ok e t (if state' \<noteq> 0 then (0, limit + 1) else (0, limit'))"
proof -
  have a: "\<not> year_active localtime_r e t" "limit = (day_of zone t + 1) * 86400 - zone + 0" "t \<le> limit" "no_change e t limit"
    using l day_second[of t] second_bounds[of t] by (auto simp: limit_ok_def)
  have midnight: "second_of zone limit = 0" using a(2) day_of_change[of 0 "day_of zone t + 1"] by simp
  have before: "\<not> year_active localtime_r e v" if "t \<le> v" "v < 2 ^ 40" "v < limit + 1" "second_of zone v \<noteq> 0" for v
  proof -
    have "v \<noteq> limit" using that(4) midnight by auto
    with that a show ?thesis by (auto simp: no_change_def)
  qed
  have later: "t < limit + 1" using a(3) by simp
  show ?thesis
  proof (cases "state' = 0")
    case True
    with u e(2) have na: "\<not> year_active localtime_r e (limit + 1)" by (auto simp: year_answer_ok_def split: if_splits)
    have "\<not> year_active localtime_r e v"
      if "t \<le> v" "v < 2 ^ 40" "limit' = 0 \<or> v < limit'" "second_of zone v \<noteq> 0" for v
    proof (cases "v < limit + 1")
      case True
      with before that show ?thesis by blast
    next
      case False
      with that na u show ?thesis by (auto simp: year_answer_ok_def)
    qed
    moreover have "limit' = 0 \<or> t \<le> limit'" using u later by (auto simp: year_answer_ok_def)
    ultimately show ?thesis using True na u a(1) by (auto simp: year_answer_ok_def)
  next
    case False
    with u e(2) have "year_active localtime_r e (limit + 1)" by (auto simp: year_answer_ok_def split: if_splits)
    with False before later a(1) t show ?thesis by (auto simp: year_answer_ok_def)
  qed
qed

lemma year_entry_answer:
  assumes ok: "year_entry_ok localtime_r e" and t: "0 < t" "t < 2 ^ 39"
  obtains r where "is_year_entry_active localtime_r mktime (now_tm t) e = Some r" "year_answer_ok e t r"
proof -
  obtain dts where dts: "CA_daytime_range_list e = Some dts" "daytimes_ok dts" "CA_state e \<noteq> 0"
    using ok by (auto simp: year_entry_ok_def split: option.splits)
  show thesis
  proof (cases "CA_yday_range_list e")
    case None
    have f: "dts = full_daytime_range" using ok dts None by (simp add: year_entry_ok_def)
    have "year_active localtime_r e v" if "0 \<le> v" for v
    proof -
      have "second_of zone v \<in> active_seconds dts"
        unfolding f full_daytime_range_def
        by (rule day_changes_cover_day)
          (use dts(2) second_bounds in \<open>simp_all add: f full_daytime_range_def is_full_day_range_def new_tm_def\<close>)
      then have "in_range_list (now_tm v) (Some dts) tm_daytime_cmp"
        using dt.in_range_list_span[of "now_tm v" dts] daytimes_okD(2)[OF dts(2)] now_daytime[OF that]
        by (simp add: active_seconds_def)
      then show ?thesis by (simp add: year_active_def None dts in_range_list_def now_tm_def)
    qed
    moreover from this[of t] t have "in_range_list (now_tm t) (Some dts) tm_daytime_cmp"
      by (simp add: year_active_def dts now_tm_def)
    ultimately show thesis
      using t by (intro that[of "(CA_state e, 0)"])
        (simp_all add: is_year_entry_active.simps None dts in_range_list_def compute_limit_def year_answer_ok_def)
  next
    case (Some ys)
    have ex: "list_all (existing_range localtime_r) ys" using ok Some by (simp add: year_entry_ok_def)
    have t0: "0 \<le> t" "t < 2 ^ 40" using t by simp_all
    from compute_limit_year[OF Some dts(1) ex dts(2) t(1) t0(2)] obtain limit reached where c:
      "compute_limit mktime (day_active ys t) (year_active localtime_r e t) (Some ys) None (Some dts) (now_tm t) = Some (limit, reached)"
      "limit_ok e dts t limit reached" by blast
    note step = is_year_entry_active_step[OF Some dts(1,2) t0(1) c(1)]
    show thesis
    proof (cases reached)
      case False
      with step c(2) year_answer_direct[OF dts(1)] show thesis by (intro that) (auto simp: Let_def)
    next
      case True
      let ?u = "limit + 1"
      have l: "limit = (day_of zone t + 1) * 86400 - zone" "\<not> year_active localtime_r e t"
        using c(2) True by (auto simp: limit_ok_def)
      have eq: "?u = (day_of zone t + 1) * 86400 - zone + 1" by (simp add: l(1))
      have "?u = t - second_of zone t + 86401" using eq day_second[of t] by (simp add: algebra_simps)
      then have "t < ?u" "?u \<le> t + 86401" using second_bounds[of t] by linarith+
      then have u: "second_of zone ?u = 1" "0 < ?u" "?u < 2 ^ 40"
        using day_of_change[of 1 "day_of zone t + 1"] t unfolding eq by simp_all
      from compute_limit_year[OF Some dts(1) ex dts(2) u(2,3)] obtain limit' reached' where c':
        "compute_limit mktime (day_active ys ?u) (year_active localtime_r e ?u) (Some ys) None (Some dts) (now_tm ?u) = Some (limit', reached')"
        "limit_ok e dts ?u limit' reached'" by blast
      have nr: "\<not> reached'" using no_second_step[OF Some dts(1,2) _ u(1) c'(2)] u(2) by simp
      have u0: "0 \<le> ?u" using u(2) by simp
      note step' = is_year_entry_active_step[OF Some dts(1,2) u0 c'(1)]
      have ans: "year_answer_ok e ?u (if year_active localtime_r e ?u then CA_state e else 0, limit')"
        using year_answer_direct[OF dts(1)] c'(2) nr by simp
      have lt: "limit_ok e dts t limit True" using c(2) True by simp
      show thesis
        using step step' True nr l(2) year_answer_next_day[OF lt dts(1,3) t(1) ans]
        by (intro that[of "if (if year_active localtime_r e ?u then CA_state e else 0) \<noteq> 0 then (0, ?u) else (0, limit')"])
          (auto simp: Let_def)
    qed
  qed
qed

text \<open>All entries of a year calendar together.\<close>

lemma year_step_state:
  assumes "year_entry_ok localtime_r e" "0 < t" "t < 2 ^ 39"
  shows "\<exists>event'. year_step localtime_r mktime (now_tm t) e (state, event) =
           Some (state OR (if year_active localtime_r e t then CA_state e else 0), event')"
proof -
  obtain r where r: "is_year_entry_active localtime_r mktime (now_tm t) e = Some r" "year_answer_ok e t r"
    by (rule year_entry_answer[OF assms])
  then obtain limit where "r = (if year_active localtime_r e t then CA_state e else 0, limit)"
    by (cases r) (auto simp: year_answer_ok_def)
  with r(1) show ?thesis by (auto simp: year_step_def QI_DO_NOTHING_def)
qed

lemma year_fold_state:
  assumes "\<forall>e\<in>set ycal. year_entry_ok localtime_r e" "0 < t" "t < 2 ^ 39"
  shows "\<exists>event'. foldo (year_step localtime_r mktime (now_tm t)) ycal (state, event) =
           Some (fold (\<lambda>e st. st OR (if year_active localtime_r e t then CA_state e else 0)) ycal state, event')"
  using assms(1)
proof (induction ycal arbitrary: state event)
  case Nil
  then show ?case by simp
next
  case (Cons e ycal)
  obtain event1 where "year_step localtime_r mktime (now_tm t) e (state, event) =
      Some (state OR (if year_active localtime_r e t then CA_state e else 0), event1)"
    using year_step_state[of e t state event] Cons.prems assms(2,3) by auto
  with Cons.IH[of "state OR (if year_active localtime_r e t then CA_state e else 0)" event1] Cons.prems show ?case by auto
qed

end

section \<open>Which state wins\<close>

lemma bit_fold_states: "bit (fold (\<lambda>x st. st OR f x) xs st) n \<longleftrightarrow> bit st n \<or> (\<exists>x\<in>set xs. bit (f x) n)"
  for st :: "32 word"
  by (induction xs arbitrary: st) (auto simp: bit_or_iff)

lemma QI_DO_bits:
  "bit QI_DO_ENABLE 3" "\<not> bit QI_DO_ENABLE 8" "\<not> bit QI_DO_ENABLE 2"
  "\<not> bit QI_DO_SUSPEND 3" "bit QI_DO_SUSPEND 8" "\<not> bit QI_DO_SUSPEND 2"
  "\<not> bit QI_DO_DISABLE 3" "\<not> bit QI_DO_DISABLE 8" "bit QI_DO_DISABLE 2"
  by (simp_all add: QI_DO_defs)

lemma and_QI_DO: "st AND QI_DO_ENABLE \<noteq> 0 \<longleftrightarrow> bit st 3" "st AND QI_DO_SUSPEND \<noteq> 0 \<longleftrightarrow> bit st 8"
  "st AND QI_DO_DISABLE \<noteq> 0 \<longleftrightarrow> bit st 2" for st :: "32 word"
  using and_exp_eq_0_iff_not_bit[of st 3] and_exp_eq_0_iff_not_bit[of st 8] and_exp_eq_0_iff_not_bit[of st 2]
  by (simp_all add: QI_DO_defs)

end
