(* ===== verification/CalendarParse_Correct.thy ===== *)
theory CalendarParse_Correct
  imports CalendarParse Calendar_Week Calendar_Year
begin

text \<open>
  What the parser of calendar specifications yields: numbers that are the decimal value of their
  digits although the scanner wraps around, times and ranges within their bounds, and entries with
  normalised daytimes. \<open>yields f P\<close> says that every result of the parser \<open>f\<close> satisfies \<open>P\<close>.
\<close>

section \<open>Numbers\<close>

definition decimal_value :: "int \<Rightarrow> string \<Rightarrow> int" where
  "decimal_value old ds = foldl (\<lambda>n c. n * 10 + char_digit c) old ds"

lemma char_digit_bounds: "is_digit c \<Longrightarrow> 0 \<le> char_digit c \<and> char_digit c \<le> 9"
  by (auto simp: is_digit_def char_digit_def)

lemma scan_digits_ge: "scan_digits old cs = (False, n) \<Longrightarrow> old \<le> n"
  by (induction cs arbitrary: old) (force simp: Let_def split: if_splits)+

lemma sint_word_of_small: "0 \<le> k \<Longrightarrow> k < 2 ^ 31 \<Longrightarrow> sint (word_of_int k :: 32 word) = k"
  using sint_of_small_uint[of "word_of_int k"] uint_of_small[of k] by simp

lemma next_number_exact: "0 \<le> old \<Longrightarrow> old < 214748364 \<Longrightarrow> is_digit c \<Longrightarrow> next_number old c = old * 10 + char_digit c"
  unfolding next_number_def using char_digit_bounds[of c] by (intro sint_word_of_small) auto

text \<open>A number that wrapped around and passed the check is at least 214748364.\<close>

lemma scan_digits_decimal:
  assumes "scan_digits old cs = (False, n)" "0 \<le> old" "n < 214748364"
  shows "n = decimal_value old (takeWhile is_digit cs)"
  using assms
proof (induction cs arbitrary: old)
  case Nil
  then show ?case by (simp add: decimal_value_def)
next
  case (Cons c cs)
  show ?case
  proof (cases "is_digit c")
    case True
    with Cons.prems(1) have nn: "\<not> next_number old c < old" "scan_digits (next_number old c) cs = (False, n)"
      by (auto simp: Let_def split: if_splits)
    then have "old < 214748364" using scan_digits_ge[OF nn(2)] Cons.prems(3) by simp
    with True Cons.prems(2) have "next_number old c = old * 10 + char_digit c" by (simp add: next_number_exact)
    with Cons.IH[OF nn(2)] nn(1) Cons.prems(2,3) True show ?thesis by (simp add: decimal_value_def)
  next
    case False
    with Cons.prems(1) show ?thesis by (simp add: decimal_value_def)
  qed
qed

lemma try_tokens_number:
  assumes "try_tokens tks p = Inr (NUMBER, p')"
  shows "scan_digits 0 (p_text p) = (False, p_number p') \<and> takeWhile is_digit (p_text p) \<noteq> [] \<and>
         p_text p' = dropWhile is_digit (p_text p) \<and> p_store p' = takeWhile is_digit (p_text p)"
  using assms
proof (induction tks arbitrary: p)
  case Nil
  then show ?case by simp
next
  case (Cons tk tks)
  show ?case
  proof (cases "tk = NUMBER")
    case True
    obtain over n where d: "scan_digits 0 (p_text p) = (over, n)" by (cases "scan_digits 0 (p_text p)")
    show ?thesis
    proof (cases "takeWhile is_digit (p_text p) = []")
      case no: True
      with Cons.prems True d have "try_tokens tks p = Inr (NUMBER, p')" by simp
      from Cons.IH[OF this] show ?thesis .
    next
      case False
      with Cons.prems True d show ?thesis
        by (auto simp: Let_def found_token_def dropWhile_eq_drop split: if_splits)
    qed
  next
    case False
    note ne = this
    show ?thesis
    proof (cases "tk = STRING")
      case True
      with Cons.prems have "try_tokens tks p = Inr (NUMBER, p')"
        by (auto simp: Let_def found_token_def split: if_splits)
      from Cons.IH[OF this] show ?thesis .
    next
      case False
      let ?st = "take (length (token_text tk)) (p_text p)"
      from Cons.prems False ne have "try_tokens tks (p\<lparr>p_store := ?st\<rparr>) = Inr (NUMBER, p')"
        by (auto simp: Let_def found_token_def split: if_splits)
      from Cons.IH[OF this] show ?thesis by simp
    qed
  qed
qed

section \<open>What parsers yield\<close>

definition yields :: "'a parse \<Rightarrow> ('a \<Rightarrow> bool) \<Rightarrow> bool" where
  "yields f P = (\<forall>p x p'. f p = Inr (x, p') \<longrightarrow> P x)"

lemma yieldsI: "(\<And>p x p'. f p = Inr (x, p') \<Longrightarrow> P x) \<Longrightarrow> yields f P"
  by (auto simp: yields_def)

lemma yieldsD: "yields f P \<Longrightarrow> f p = Inr (x, p') \<Longrightarrow> P x"
  by (auto simp: yields_def)

lemma yields_pret: "P x \<Longrightarrow> yields (pret x) P"
  by (simp add: yields_def pret_def)

lemma yields_perror: "yields (perror e) P"
  by (simp add: yields_def perror_def)

lemma yields_pbind: "yields f Q \<Longrightarrow> (\<And>x. Q x \<Longrightarrow> yields (g x) P) \<Longrightarrow> yields (pbind f g) P"
proof (rule yieldsI)
  fix p x p'
  assume f: "yields f Q" and g: "\<And>x. Q x \<Longrightarrow> yields (g x) P" and "pbind f g p = Inr (x, p')"
  from this(3) obtain y p1 where "f p = Inr (y, p1)" "g y p1 = Inr (x, p')"
    by (auto simp: pbind_def split: sum.splits prod.splits)
  with yieldsD[OF f] yieldsD[OF g] show "P x" by blast
qed

lemma yields_any: "yields f (\<lambda>_. True)"
  by (simp add: yields_def)

lemma yields_then: "(\<And>x. yields (g x) P) \<Longrightarrow> yields (pbind f g) P"
  by (rule yields_pbind[OF yields_any])

lemma yields_if: "(b \<Longrightarrow> yields f P) \<Longrightarrow> (\<not> b \<Longrightarrow> yields g P) \<Longrightarrow> yields (if b then f else g) P"
  by simp

lemma yields_option:
  "(x = None \<Longrightarrow> yields f P) \<Longrightarrow> (\<And>y. x = Some y \<Longrightarrow> yields (g y) P) \<Longrightarrow> yields (case x of None \<Rightarrow> f | Some y \<Rightarrow> g y) P"
  by (cases x) simp_all

lemma yields_mono: "yields f Q \<Longrightarrow> (\<And>x. Q x \<Longrightarrow> P x) \<Longrightarrow> yields f P"
  by (auto simp: yields_def)

lemmas yields_steps = yields_if yields_option yields_perror yields_pret

lemma range_number_yields: "yields (range_number lo hi name) (\<lambda>n. lo \<le> n \<and> n \<le> hi)"
  unfolding range_number_def by (intro yields_then yields_steps) auto

lemma cheap_scan_SomeD: "cheap_scan str tokenv n = Some k \<Longrightarrow> k \<in> fst ` set tokenv"
  by (force simp: cheap_scan_def dest!: find_SomeD)

lemma month_yields: "yields month (\<lambda>m. 0 \<le> m \<and> m \<le> 11)"
  unfolding month_def
proof (rule yields_then, rule yields_if)
  show "yields (pbind (range_number 1 12 ''month'') (\<lambda>m. pret (m - 1))) (\<lambda>m. 0 \<le> m \<and> m \<le> 11)"
    by (rule yields_pbind[OF range_number_yields]) (auto intro: yields_pret)
  show "yields (pbind get_string (\<lambda>str. case cheap_scan str monthv 3 of None \<Rightarrow> perror No_Message
          | Some m \<Rightarrow> pbind eat_token (\<lambda>_. pret (m - 1)))) (\<lambda>m. 0 \<le> m \<and> m \<le> 11)"
    by (intro yields_then yields_steps) (auto simp: monthv_def dest!: cheap_scan_SomeD)
qed

text \<open>Dates.\<close>

definition date_ok :: "tm \<Rightarrow> bool" where
  "date_ok t = (uint (TM_year t) \<in> {70..137} \<and> uint (TM_mon t) \<le> 11 \<and> uint (TM_mday t) \<in> {1..31} \<and>
     TM_hour t = 0 \<and> TM_min t = 0 \<and> TM_sec t = 0)"

lemma year_day_yields: "yields year_day date_ok"
  unfolding year_day_def day_def year_def
  by (rule yields_pbind[OF range_number_yields], rule yields_then, rule yields_pbind[OF month_yields], rule yields_then,
      rule yields_pbind[OF range_number_yields], rule yields_pret)
    (simp add: date_ok_def uint_of_small new_tm_def del: of_int_diff)

definition year_range_ok :: "tmr \<Rightarrow> bool" where
  "year_range_ok r = (date_ok (TMR_begin r) \<and> yd.valid_range r \<and> (case TMR_end r of Some e \<Rightarrow> date_ok e | None \<Rightarrow> True))"

lemma date_ok_valid: "date_ok t \<Longrightarrow> yday_valid t"
  by (auto simp: date_ok_def yday_valid_def)

lemma year_day_range_yields: "yields year_day_range year_range_ok"
  unfolding year_day_range_def
proof (rule yields_pbind[OF year_day_yields], rule yields_then, rule yields_if)
  fix t1
  assume t1: "date_ok t1"
  show "yields (pret \<lparr>TMR_begin = t1, TMR_end = None\<rparr>) year_range_ok"
    using t1 by (intro yields_pret) (simp add: year_range_ok_def yd.valid_range_def date_ok_valid)
  show "yields (pbind eat_token (\<lambda>_. pbind year_day (\<lambda>t2. if tm_yday_cmp t1 t2 > 0 then perror First_Day_After_Second
          else pret \<lparr>TMR_begin = t1, TMR_end = Some t2\<rparr>))) year_range_ok"
  proof (rule yields_then, rule yields_pbind[OF year_day_yields], rule yields_if)
    fix t2
    assume t2: "date_ok t2" and "\<not> tm_yday_cmp t1 t2 > 0"
    with t1 have "yday_key t1 \<le> yday_key t2" by (simp add: yd.cmp_greater date_ok_valid)
    with t1 t2 show "yields (pret \<lparr>TMR_begin = t1, TMR_end = Some t2\<rparr>) year_range_ok"
      by (intro yields_pret) (simp add: year_range_ok_def yd.valid_range_def date_ok_valid)
  qed (rule yields_perror)
qed

text \<open>Daytimes.\<close>

definition clock_ok :: "tm \<Rightarrow> bool" where
  "clock_ok t = (daytime_valid t \<and> daytime_key t \<le> 86400)"

lemma make_daytime_yields:
  assumes "0 \<le> h" "h \<le> 24" "0 \<le> m" "m \<le> 59" "0 \<le> sec" "sec \<le> 59"
  shows "yields (make_daytime h m sec) clock_ok"
  unfolding make_daytime_def
  by (intro yields_steps) (use assms in \<open>auto simp: clock_ok_def daytime_valid_def daytime_key_def uint_of_small new_tm_def\<close>)

lemma daytime_yields: "yields daytime clock_ok"
  unfolding daytime_def hour_def minute_def seconds_def
proof (rule yields_pbind[OF range_number_yields], rule yields_then, rule yields_if)
  fix h :: int
  assume h: "0 \<le> h \<and> h \<le> 24"
  then show "yields (make_daytime h 0 0) clock_ok" by (intro make_daytime_yields) auto
  show "yields (pbind eat_token (\<lambda>_. pbind (range_number 0 59 ''minute'') (\<lambda>m. pbind scan (\<lambda>tk.
      if tk \<noteq> COLON then make_daytime h m 0
      else pbind eat_token (\<lambda>_. pbind (range_number 0 59 ''second'') (\<lambda>sec. make_daytime h m sec)))))) clock_ok"
    by (rule yields_then, rule yields_pbind[OF range_number_yields], rule yields_then, rule yields_if)
      (use h in \<open>auto intro!: yields_then yields_pbind[OF range_number_yields] make_daytime_yields\<close>)
qed

definition raw_daytime_ok :: "tmr \<Rightarrow> bool" where
  "raw_daytime_ok r =
     (clock_ok (TMR_begin r) \<and>
      (case TMR_end r of Some e \<Rightarrow> clock_ok e \<and> daytime_key (TMR_begin r) \<noteq> daytime_key e | None \<Rightarrow> False))"

lemma daytime_range_yields: "yields daytime_range raw_daytime_ok"
  unfolding daytime_range_def
  by (rule yields_pbind[OF daytime_yields], rule yields_then, rule yields_pbind[OF daytime_yields], intro yields_steps)
    (auto simp: raw_daytime_ok_def clock_ok_def dt.cmp_zero)

section \<open>Lists of ranges\<close>

context comma_loop
begin

lemma loop_yields:
  assumes "yields item P" "\<And>rs r. I rs \<Longrightarrow> P r \<Longrightarrow> I (add rs r)" "I rs"
  shows "yields (loop rs) I"
proof (rule yieldsI)
  fix p x p'
  assume "loop rs p = Inr (x, p')"
  with assms(3) show "I x"
  proof (induction "left_to_read p" arbitrary: rs p rule: less_induct)
    case less
    from less(3) show ?case
    proof (cases rule: loop_cases)
      case (1 tk)
      with less(2) show ?thesis by simp
    next
      case (2 p1 r p2)
      have "item (p1\<lparr>p_valid := False\<rparr>) = Inr (r, p2)" using 2(2) by (simp add: pbind_def eat_token_def)
      from yieldsD[OF assms(1) this] have "I (add rs r)" using assms(2) less(2) by blast
      from less(1)[OF 2(3) this 2(4)] show ?thesis .
    qed
  qed
qed

end

lemma year_day_range_list_yields: "yields year_day_range_list (\<lambda>rs. rs \<noteq> [] \<and> list_all year_range_ok rs)"
  unfolding year_day_range_list_def
  by (rule yields_pbind[OF year_day_range_yields], rule year_days.loop_yields[OF year_day_range_yields]) auto

text \<open>The second of the day as the administrator wrote the range: it may go past midnight.\<close>

definition requested_second :: "tmr \<Rightarrow> int \<Rightarrow> bool" where
  "requested_second r s =
     (if daytime_key (TMR_begin r) < dt.end_key r
      then daytime_key (TMR_begin r) \<le> s \<and> s \<le> dt.end_key r
      else daytime_key (TMR_begin r) \<le> s \<or> s \<le> dt.end_key r)"

lemma split_daytime_cases:
  assumes "raw_daytime_ok r"
  obtains e where "TMR_end r = Some e" "clock_ok e" "clock_ok (TMR_begin r)"
    "daytime_key (TMR_begin r) < daytime_key e" "split_daytime_range dts r = dts @ [r]"
  | e where "TMR_end r = Some e" "clock_ok e" "clock_ok (TMR_begin r)" "daytime_key e < daytime_key (TMR_begin r)"
    "split_daytime_range dts r =
       dts @ [r\<lparr>TMR_end := Some (new_tm\<lparr>TM_hour := 24\<rparr>)\<rparr>, \<lparr>TMR_begin = new_tm\<lparr>TM_hour := 0\<rparr>, TMR_end = Some e\<rparr>]"
proof -
  obtain e where e: "TMR_end r = Some e" "clock_ok e" "clock_ok (TMR_begin r)" "daytime_key (TMR_begin r) \<noteq> daytime_key e"
    using assms by (auto simp: raw_daytime_ok_def split: option.splits)
  then have "tm_daytime_cmp (TMR_begin r) e > 0 \<longleftrightarrow> daytime_key e < daytime_key (TMR_begin r)"
    by (simp add: dt.cmp_greater clock_ok_def)
  with e that show thesis by (cases "daytime_key e < daytime_key (TMR_begin r)") (auto simp: split_daytime_range_def)
qed

lemma new_tm_keys: "daytime_key (new_tm\<lparr>TM_hour := 24\<rparr>) = 86400" "daytime_key (new_tm\<lparr>TM_hour := 0\<rparr>) = 0"
  "daytime_valid (new_tm\<lparr>TM_hour := 24\<rparr>)" "daytime_valid (new_tm\<lparr>TM_hour := 0\<rparr>)"
  by (simp_all add: daytime_key_def daytime_valid_def new_tm_def)

lemma split_daytime_range_ok:
  assumes "list_all dt.closed_range dts" "raw_daytime_ok r"
  shows "daytimes_ok (split_daytime_range dts r)"
  using assms(2)
proof (cases rule: split_daytime_cases[where dts = dts])
  case (1 e)
  then show ?thesis
    using assms(1) daytime_key_nonneg[of "TMR_begin r"]
    by (auto simp: daytimes_ok_def dt.closed_range_def dt.valid_range_def dt.end_key_def clock_ok_def)
next
  case (2 e)
  then show ?thesis
    using assms(1) daytime_key_nonneg[of e]
    by (auto simp: daytimes_ok_def dt.closed_range_def dt.valid_range_def dt.end_key_def clock_ok_def new_tm_keys)
qed

lemma split_daytime_range_seconds:
  assumes "raw_daytime_ok r" "0 \<le> s" "s < 86400"
  shows "s \<in> active_seconds (split_daytime_range dts r) \<longleftrightarrow> s \<in> active_seconds dts \<or> requested_second r s"
  using assms(1)
proof (cases rule: split_daytime_cases[where dts = dts])
  case (1 e)
  then show ?thesis by (auto simp: active_seconds_def requested_second_def dt.span_def dt.end_key_def)
next
  case (2 e)
  then show ?thesis
    using assms(2,3) by (auto simp: active_seconds_def requested_second_def dt.span_def dt.end_key_def new_tm_keys)
qed

lemma daytime_range_list_yields: "yields daytime_range_list daytimes_ok"
  unfolding daytime_range_list_def
proof (rule yields_pbind[OF daytime_range_yields], rule daytimes.loop_yields[OF daytime_range_yields])
  show "daytimes_ok (split_daytime_range rs r)" if "daytimes_ok rs" "raw_daytime_ok r" for rs r
    using that split_daytime_range_ok[of rs r] by (simp add: daytimes_ok_def)
  show "daytimes_ok (split_daytime_range [] r)" if "raw_daytime_ok r" for r
    using that split_daytime_range_ok[of "[]" r] by simp
qed

definition parsed_daytimes :: "tmr list \<Rightarrow> bool" where
  "parsed_daytimes dts = (daytimes_ok dts \<and> sorted_wrt (\<lambda>r q. dt.span r \<inter> dt.span q = {}) dts)"

lemma normalize_daytimes:
  assumes "daytimes_ok dts"
  obtains rs where "normalize_range_list tm_daytime_cmp dts = Some rs" "parsed_daytimes rs" "active_seconds rs = active_seconds dts"
proof -
  from assms have "\<forall>r\<in>set dts. dt.closed_range r" by (simp add: daytimes_ok_def list_all_iff)
  from dt.normalize_span[OF this] obtain rs where rs: "normalize_range_list tm_daytime_cmp dts = Some rs"
    "\<forall>r\<in>set rs. dt.closed_range r" "(\<Union>r\<in>set rs. dt.span r) = (\<Union>r\<in>set dts. dt.span r)"
    "sorted_wrt (\<lambda>r q. dt.span r \<inter> dt.span q = {}) rs" by blast
  from daytimes_okD[OF assms] obtain r where r: "r \<in> set dts" "1 \<le> dt.end_key r" "dt.closed_range r" by blast
  then have "dt.end_key r \<in> dt.span r"
    by (auto simp: dt.span_def dt.end_key_def dt.closed_range_def dt.valid_range_def)
  with r(1) rs(3) obtain q where "q \<in> set rs" "dt.end_key r \<in> dt.span q" by blast
  with r(2) have "\<exists>q\<in>set rs. 1 \<le> dt.end_key q" by (auto simp: dt.span_def intro!: bexI[of _ q])
  with rs show thesis
    by (intro that[of rs]) (auto simp: parsed_daytimes_def daytimes_ok_def active_seconds_def list_all_iff list_ex_iff)
qed

lemma normalized_yields: "daytimes_ok dts \<Longrightarrow> yields (normalized dts) parsed_daytimes"
  by (erule normalize_daytimes) (simp add: normalized_def yields_pret)

lemma parsed_full_daytime: "parsed_daytimes full_daytime_range"
  by (simp add: parsed_daytimes_def daytimes_ok_def full_daytime_range_def dt.closed_range_def dt.valid_range_def
      dt.end_key_def new_tm_keys)

text \<open>Week days.\<close>

lemma week_day_yields: "yields week_day (\<lambda>t. uint (TM_wday t) \<le> 6)"
  unfolding week_day_def by (intro yields_then yields_steps) (auto simp: weekdayv_def dest!: cheap_scan_SomeD)

lemma week_day_range_yields: "yields week_day_range (\<lambda>r. uint (begin_wday r) \<le> 6 \<and> uint (end_wday r) \<le> 6)"
  unfolding week_day_range_def
  by (rule yields_pbind[OF week_day_yields], rule yields_then, rule yields_if, rule yields_then,
      rule yields_pbind[OF week_day_yields]) (auto intro!: yields_steps simp: begin_wday_def end_wday_def)

lemma split_wday_range_nonempty: "split_wday_range ws r \<noteq> []"
  by (auto simp: split_wday_range_def split: option.splits)

lemma join_extend_nonempty: "ws \<noteq> [] \<Longrightarrow> extend_wday_range (join_wday_range ws) \<noteq> []"
proof -
  have "join_outer front rear \<noteq> []" if "front \<noteq> [] \<or> rear \<noteq> []" for front rear
    using that by (induction front rear rule: join_outer.induct) (auto split: prod.splits)
  moreover have "extend_outer front rear \<noteq> []" if "front \<noteq> [] \<or> rear \<noteq> []" for front rear
    using that by (induction rear arbitrary: front) auto
  ultimately show "ws \<noteq> [] \<Longrightarrow> extend_wday_range (join_wday_range ws) \<noteq> []"
    by (simp add: extend_wday_range_def join_wday_range_def)
qed

lemma week_day_range_list_yields: "yields week_day_range_list (\<lambda>ws. ws \<noteq> [] \<and> list_all extended_ok ws)"
  unfolding week_day_range_list_def
proof (rule yields_pbind[OF week_day_range_yields], rule yields_pbind[OF week_days.loop_yields[OF week_day_range_yields]])
  let ?I = "\<lambda>ws. ws \<noteq> [] \<and> (\<forall>q\<in>set ws. wday_range_ok q)"
  show "?I (split_wday_range rs r)" if "?I rs" "uint (begin_wday r) \<le> 6 \<and> uint (end_wday r) \<le> 6" for rs r
    using that split_wday_range_days(1)[of rs r] split_wday_range_nonempty by blast
  show "?I (split_wday_range [] r)" if "uint (begin_wday r) \<le> 6 \<and> uint (end_wday r) \<le> 6" for r
    using that split_wday_range_days(1)[of "[]" r] split_wday_range_nonempty by simp
  show "yields (pret (extend_wday_range (join_wday_range ws))) (\<lambda>ws. ws \<noteq> [] \<and> list_all extended_ok ws)" if "?I ws" for ws
    using that joined_week_days(1)[of ws] join_extend_nonempty[of ws]
    by (intro yields_pret) (simp add: list_all_iff)
qed

section \<open>Entries\<close>

definition parsed_state :: "32 word \<Rightarrow> bool" where
  "parsed_state st = (st = QI_DO_DISABLE \<or> st = QI_DO_ENABLE \<or> st = QI_DO_SUSPEND)"

definition parsed_year_entry :: "ca \<Rightarrow> bool" where
  "parsed_year_entry e =
     (parsed_state (CA_state e) \<and> CA_wday_range_list e = None \<and>
      (case CA_daytime_range_list e of Some dts \<Rightarrow> parsed_daytimes dts | None \<Rightarrow> False) \<and>
      (case CA_yday_range_list e of
         Some ys \<Rightarrow> ys \<noteq> [] \<and> list_all year_range_ok ys
       | None \<Rightarrow> CA_daytime_range_list e = Some full_daytime_range))"

definition parsed_week_entry :: "ca \<Rightarrow> bool" where
  "parsed_week_entry e =
     (parsed_state (CA_state e) \<and> CA_yday_range_list e = None \<and>
      (case CA_daytime_range_list e of Some dts \<Rightarrow> parsed_daytimes dts | None \<Rightarrow> False) \<and>
      (case CA_wday_range_list e of Some ws \<Rightarrow> ws \<noteq> [] \<and> list_all extended_ok ws | None \<Rightarrow> False))"

lemma action_yields: "yields action parsed_state"
  unfolding action_def
  by (intro yields_then yields_steps) (auto simp: statev_def parsed_state_def dest!: cheap_scan_SomeD)

lemma entry_state_yields:
  assumes "\<And>st. parsed_state st \<Longrightarrow> P (mk dtrl st)"
  shows "yields (entry_state mk dtrl) P"
  unfolding entry_state_def
  by (rule yields_then, rule yields_if, rule yields_pbind[OF action_yields]) (auto intro: yields_steps assms)

lemma entry_daytimes_yields:
  assumes "\<And>dts st. parsed_daytimes dts \<Longrightarrow> parsed_state st \<Longrightarrow> P (mk (Some dts) st)" "\<And>st. parsed_state st \<Longrightarrow> P (mk None st)"
  shows "yields (entry_daytimes mk) P"
  unfolding entry_daytimes_def
proof (rule yields_then, rule yields_if)
  show "yields (entry_state mk None) P" by (rule entry_state_yields) (rule assms(2))
  show "yields (pbind daytime_range_list (\<lambda>dtrl. pbind (normalized dtrl) (\<lambda>dtrl. pbind scan (\<lambda>tk.
      if tk \<noteq> EQUAL_SIGN then pret (mk (Some dtrl) QI_DO_DISABLE)
      else pbind eat_token (\<lambda>_. entry_state mk (Some dtrl)))))) P"
    by (rule yields_pbind[OF daytime_range_list_yields], erule yields_pbind[OF normalized_yields],
        intro yields_then yields_steps entry_state_yields) (auto intro: assms simp: parsed_state_def)
qed

lemma scan_again: "scan p = Inr (tk, p1) \<Longrightarrow> scan p1 = Inr (tk, p1)"
  using scan_shrinks[of p tk p1] by (simp add: scan_def)

lemma disabled_year_entry_yields: "yields disabled_year_entry parsed_year_entry"
proof (rule yieldsI)
  fix p x p'
  assume r: "disabled_year_entry p = Inr (x, p')"
  obtain tk p1 where s: "scan p = Inr (tk, p1)"
    using r by (auto simp: disabled_year_entry_def pbind_def split: sum.splits)
  show "parsed_year_entry x"
  proof (cases "tk = NUMBER")
    case True
    let ?f = "pbind year_day_range_list (\<lambda>ydrl. pbind scan (\<lambda>tk.
       if tk \<noteq> EQUAL_SIGN then pret (year_entry (Some ydrl) None QI_DO_DISABLE)
       else pbind eat_token (\<lambda>_. entry_daytimes (year_entry (Some ydrl)))))"
    have "yields ?f parsed_year_entry"
    proof (rule yields_pbind[OF year_day_range_list_yields], rule yields_then, rule yields_if)
      fix ys assume "ys \<noteq> [] \<and> list_all year_range_ok ys"
      then show "yields (pret (year_entry (Some ys) None QI_DO_DISABLE)) parsed_year_entry"
        "yields (pbind eat_token (\<lambda>_. entry_daytimes (year_entry (Some ys)))) parsed_year_entry"
        by (auto intro!: yields_pret yields_then entry_daytimes_yields
            simp: parsed_year_entry_def year_entry_def parsed_full_daytime parsed_state_def)
    qed
    moreover have "?f p1 = Inr (x, p')" using r s True by (simp add: disabled_year_entry_def pbind_def)
    ultimately show ?thesis by (rule yieldsD)
  next
    case False
    have "entry_state (year_entry None) None p1 = Inr (x, p')"
      using r s False scan_again[OF s] by (simp add: disabled_year_entry_def entry_daytimes_def pbind_def)
    moreover have "yields (entry_state (year_entry None) None) parsed_year_entry"
      by (rule entry_state_yields) (simp add: parsed_year_entry_def year_entry_def parsed_full_daytime)
    ultimately show ?thesis using yieldsD by metis
  qed
qed

lemma full_weekday_ok: "list_all extended_ok full_weekday_range" "full_weekday_range \<noteq> []"
  by (simp_all add: full_weekday_range_def extended_ok_def begin_wday_def end_wday_def new_tm_def)

lemma disabled_week_entry_yields: "yields disabled_week_entry parsed_week_entry"
  unfolding disabled_week_entry_def
proof (rule yields_then, rule yields_then, rule yields_if)
  show "yields (entry_daytimes (week_entry None)) parsed_week_entry"
    by (rule entry_daytimes_yields)
      (auto simp: parsed_week_entry_def week_entry_def parsed_full_daytime parsed_state_def full_weekday_ok)
  show "yields (pbind week_day_range_list (\<lambda>wdrl. pbind scan (\<lambda>tk.
       if tk \<noteq> EQUAL_SIGN then pret (week_entry (Some wdrl) None QI_DO_DISABLE)
       else pbind eat_token (\<lambda>_. entry_daytimes (week_entry (Some wdrl)))))) parsed_week_entry"
  proof (rule yields_pbind[OF week_day_range_list_yields], rule yields_then, rule yields_if)
    fix ws assume "ws \<noteq> [] \<and> list_all extended_ok ws"
    then show "yields (pret (week_entry (Some ws) None QI_DO_DISABLE)) parsed_week_entry"
      "yields (pbind eat_token (\<lambda>_. entry_daytimes (week_entry (Some ws)))) parsed_week_entry"
      by (auto intro!: yields_pret yields_then entry_daytimes_yields
          simp: parsed_week_entry_def week_entry_def parsed_full_daytime parsed_state_def)
  qed
qed

section \<open>Specifications\<close>

lemma year_entries_loop_yields: "list_all parsed_year_entry cal \<Longrightarrow> year_entries_loop cal p = Inr (x, p') \<Longrightarrow> list_all parsed_year_entry x"
proof (induction cal p rule: year_entries_loop.induct)
  case (1 cal p)
  obtain tk p1 where s: "scan p = Inr (tk, p1)"
    using 1(3) by (subst (asm) year_entries_loop.simps) (auto split: sum.splits)
  show ?case
  proof (cases "tk = SPACE")
    case True
    with 1(3) s obtain e p2 where e: "next_entry disabled_year_entry p1 = Inr (e, p2)" "year_entries_loop (cal @ [e]) p2 = Inr (x, p')"
      by (subst (asm) year_entries_loop.simps) (auto split: sum.splits)
    have "yields (next_entry disabled_year_entry) parsed_year_entry"
      unfolding next_entry_def by (intro yields_then disabled_year_entry_yields)
    from yieldsD[OF this e(1)] 1(1)[OF s refl True e(1) refl _ e(2)] 1(2) show ?thesis by simp
  next
    case False
    with 1(2,3) s show ?thesis by (subst (asm) year_entries_loop.simps) (auto split: if_splits)
  qed
qed

lemma week_entries_loop_yields: "list_all parsed_week_entry cal \<Longrightarrow> week_entries_loop cal p = Inr (x, p') \<Longrightarrow> list_all parsed_week_entry x"
proof (induction cal p rule: week_entries_loop.induct)
  case (1 cal p)
  obtain tk p1 where s: "scan p = Inr (tk, p1)"
    using 1(3) by (subst (asm) week_entries_loop.simps) (auto split: sum.splits)
  show ?case
  proof (cases "tk = SPACE")
    case True
    with 1(3) s obtain e p2 where e: "next_entry disabled_week_entry p1 = Inr (e, p2)" "week_entries_loop (cal @ [e]) p2 = Inr (x, p')"
      by (subst (asm) week_entries_loop.simps) (auto split: sum.splits)
    have "yields (next_entry disabled_week_entry) parsed_week_entry"
      unfolding next_entry_def by (intro yields_then disabled_week_entry_yields)
    from yieldsD[OF this e(1)] 1(1)[OF s refl True e(1) refl _ e(2)] 1(2) show ?thesis by simp
  next
    case False
    with 1(2,3) s show ?thesis by (subst (asm) week_entries_loop.simps) (auto split: if_splits)
  qed
qed

lemma map_sum_fst_InrD: "map_sum id fst r = Inr x \<Longrightarrow> \<exists>p. r = Inr (x, p)"
  by (cases r) auto

lemma pbind_InrE:
  assumes "pbind f g p = Inr (x, p')"
  obtains y p1 where "f p = Inr (y, p1)" "g y p1 = Inr (x, p')"
  using assms by (auto simp: pbind_def split: sum.splits prod.splits)

lemma disabled_year_list_parsed:
  assumes "disabled_year_list str = Inr cal"
  shows "list_all parsed_year_entry cal"
proof (cases "is_none str")
  case True
  with assms show ?thesis by (simp add: disabled_year_list_def)
next
  case False
  with assms obtain p where "pbind disabled_year_entry (\<lambda>calep. year_entries_loop [calep]) (start_scan (the str) year_token_set) = Inr (cal, p)"
    by (auto simp: disabled_year_list_def dest: map_sum_fst_InrD)
  then show ?thesis
    by (rule pbind_InrE) (rule year_entries_loop_yields, auto dest: yieldsD[OF disabled_year_entry_yields])
qed

lemma disabled_week_list_parsed:
  assumes "disabled_week_list str = Inr cal"
  shows "list_all parsed_week_entry cal"
proof (cases "is_none str")
  case True
  with assms show ?thesis by (simp add: disabled_week_list_def)
next
  case False
  with assms obtain p where "pbind disabled_week_entry (\<lambda>calep. week_entries_loop [calep]) (start_scan (the str) week_token_set) = Inr (cal, p)"
    by (auto simp: disabled_week_list_def dest: map_sum_fst_InrD)
  then show ?thesis
    by (rule pbind_InrE) (rule week_entries_loop_yields, auto dest: yieldsD[OF disabled_week_entry_yields])
qed

section \<open>The parser stays in its memory\<close>

text \<open>
  No comparison meets a null element, and a token runs past the end of the buffer only if at least as
  many characters were left to read.
\<close>

definition safe_error :: "parser \<Rightarrow> cal_error \<Rightarrow> bool" where
  "safe_error p e = (e \<noteq> Null_Element \<and> (e = Store_Overflow \<longrightarrow> store_size \<le> left_to_read p))"

definition no_abort :: "'a parse \<Rightarrow> bool" where
  "no_abort f = (shrinks f \<and> (\<forall>p e. f p = Inl e \<longrightarrow> safe_error p e))"

named_theorems no_abort_intros \<open>parsers that never abort\<close>

lemma safe_error_mono: "safe_error p' e \<Longrightarrow> left_to_read p' \<le> left_to_read p \<Longrightarrow> safe_error p e"
  by (auto simp: safe_error_def)

lemma no_abortI: "shrinks f \<Longrightarrow> (\<And>p e. f p = Inl e \<Longrightarrow> safe_error p e) \<Longrightarrow> no_abort f"
  by (simp add: no_abort_def)

lemma no_abortD: "no_abort f \<Longrightarrow> f p = Inl e \<Longrightarrow> safe_error p e"
  by (simp add: no_abort_def)

lemma no_abort_pret [no_abort_intros]: "no_abort (pret x)"
  by (rule no_abortI) (simp_all add: shrinks_pret pret_def)

lemma no_abort_perror [no_abort_intros]: "e \<noteq> Null_Element \<Longrightarrow> e \<noteq> Store_Overflow \<Longrightarrow> no_abort (perror e)"
  by (rule no_abortI) (simp_all add: shrinks_perror perror_def safe_error_def)

lemma no_abort_if [no_abort_intros]: "no_abort f \<Longrightarrow> no_abort g \<Longrightarrow> no_abort (if b then f else g)"
  by simp

lemma no_abort_option [no_abort_intros]: "no_abort f \<Longrightarrow> (\<And>y. no_abort (g y)) \<Longrightarrow> no_abort (case x of None \<Rightarrow> f | Some y \<Rightarrow> g y)"
  by (cases x) simp_all

text \<open>The second parser of a sequence is safe on the results of the first one; all of it leaves no more to read.\<close>

lemma no_abort_pbind_yields:
  assumes "no_abort f" "yields f Q" "\<And>x. Q x \<Longrightarrow> no_abort (g x)" "shrinks (pbind f g)"
  shows "no_abort (pbind f g)"
proof (rule no_abortI[OF assms(4)])
  fix p e
  assume "pbind f g p = Inl e"
  then consider "f p = Inl e" | x p' where "f p = Inr (x, p')" "g x p' = Inl e"
    by (auto simp: pbind_def split: sum.splits prod.splits)
  then show "safe_error p e"
  proof cases
    case 1
    then show ?thesis by (rule no_abortD[OF assms(1)])
  next
    case (2 x p')
    have "left_to_read p' \<le> left_to_read p" using assms(1) 2(1) by (auto simp: no_abort_def dest: shrinksD)
    with no_abortD[OF assms(3)[OF yieldsD[OF assms(2) 2(1)]] 2(2)] show ?thesis by (rule safe_error_mono)
  qed
qed

lemma no_abort_pbind [no_abort_intros]: "no_abort f \<Longrightarrow> (\<And>x. no_abort (g x)) \<Longrightarrow> no_abort (pbind f g)"
  by (rule no_abort_pbind_yields[OF _ yields_any]) (auto simp: no_abort_def intro: shrinks_pbind)

lemma try_tokens_no_abort: "try_tokens tks p = Inl e \<Longrightarrow> e = Store_Overflow \<and> store_size \<le> length (p_text p)"
proof (induction tks arbitrary: p)
  case Nil
  then show ?case by simp
next
  case (Cons tk tks)
  let ?word = "case p_text p of [] \<Rightarrow> [] | c # cs \<Rightarrow> if is_alpha c then c # takeWhile is_alnum cs else []"
  have n: "length (takeWhile is_digit (p_text p)) \<le> length (p_text p)" by (rule length_takeWhile_le)
  have w: "length ?word \<le> length (p_text p)" by (auto simp: length_takeWhile_le split: list.splits)
  consider "tk = NUMBER" | "tk = STRING" | "tk \<noteq> NUMBER" "tk \<noteq> STRING" by blast
  then show ?case
  proof cases
    case 1
    with Cons n show ?thesis by (auto simp: Let_def found_token_def split: prod.splits if_splits)
  next
    case 2
    from Cons.prems 2 have "try_tokens tks p = Inl e \<or> e = Store_Overflow \<and> store_size \<le> length ?word"
      by (auto simp: Let_def found_token_def simp del: list.case split: if_splits)
    with Cons.IH[of p] w show ?thesis by linarith
  next
    case 3
    with Cons.prems Cons.IH[of "p\<lparr>p_store := take (length (token_text tk)) (p_text p)\<rparr>"] show ?thesis
      by (simp add: Let_def found_token_def split: if_splits)
  qed
qed

lemma no_abort_scan [no_abort_intros]: "no_abort scan"
  by (rule no_abortI[OF shrinks_scan])
    (auto simp: scan_def safe_error_def left_to_read_def split: if_splits dest!: try_tokens_no_abort)

lemma no_abort_basic [no_abort_intros]: "no_abort eat_token" "no_abort get_string" "no_abort get_number"
  by (rule no_abortI; simp add: shrinks_eat_token shrinks_get eat_token_def get_string_def get_number_def)+

lemma no_abort_range_number [no_abort_intros]: "no_abort (range_number lo hi name)"
  unfolding range_number_def by (intro no_abort_intros) simp_all

lemma no_abort_items [no_abort_intros]: "no_abort year_day_range" "no_abort daytime_range" "no_abort week_day_range" "no_abort action"
  unfolding year_day_range_def year_day_def day_def month_def year_def expect_def daytime_range_def daytime_def hour_def minute_def
    seconds_def make_daytime_def week_day_range_def week_day_def action_def
  by (intro no_abort_intros; simp)+

context comma_loop
begin

lemma loop_no_abort:
  assumes "no_abort item"
  shows "no_abort (loop rs)"
proof (rule no_abortI[OF loop_shrinks])
  show "loop rs p = Inl e \<Longrightarrow> safe_error p e" for p e
  proof (induction "left_to_read p" arbitrary: rs p rule: less_induct)
    case less
    have i: "no_abort (pbind eat_token (\<lambda>_. item))" using assms by (intro no_abort_intros)
    from less(2) consider "scan p = Inl e"
      | p1 where "scan p = Inr (COMMA, p1)" "pbind eat_token (\<lambda>_. item) p1 = Inl e"
      | p1 r p2 where "scan p = Inr (COMMA, p1)" "pbind eat_token (\<lambda>_. item) p1 = Inr (r, p2)" "loop (add rs r) p2 = Inl e"
      by (subst (asm) loop_eq) (auto split: sum.splits prod.splits if_splits)
    then show ?case
    proof cases
      case 1
      then show ?thesis by (rule no_abortD[OF no_abort_scan])
    next
      case (2 p1)
      then show ?thesis using no_abortD[OF i] scan_shrinks safe_error_mono by blast
    next
      case (3 p1 r p2)
      then have "left_to_read p2 < left_to_read p" using separator_round[OF 3(1) _ _ item_shrinks 3(2)] by simp
      with less(1)[OF this 3(3)] show ?thesis by (auto intro: safe_error_mono)
    qed
  qed
qed

end

lemmas no_abort_loops [no_abort_intros] =
  year_days.loop_no_abort[OF no_abort_items(1)] daytimes.loop_no_abort[OF no_abort_items(2)] week_days.loop_no_abort[OF no_abort_items(3)]

lemma normalized_no_abort: "daytimes_ok dts \<Longrightarrow> no_abort (normalized dts)"
  by (erule normalize_daytimes) (simp add: normalized_def no_abort_pret)

lemma daytime_range_list_no_abort: "no_abort daytime_range_list"
  unfolding daytime_range_list_def by (intro no_abort_intros)

lemma entry_state_no_abort [no_abort_intros]: "no_abort (entry_state mk dtrl)"
  unfolding entry_state_def by (intro no_abort_intros; simp)

lemma entry_daytimes_no_abort [no_abort_intros]: "no_abort (entry_daytimes mk)"
  unfolding entry_daytimes_def
  by (rule no_abort_pbind, rule no_abort_scan, rule no_abort_if,
      rule no_abort_pbind_yields[OF daytime_range_list_no_abort daytime_range_list_yields],
      rule no_abort_pbind, erule normalized_no_abort, intro no_abort_intros,
      unfold daytime_range_list_def normalized_def entry_state_def, intro shrinks_intros, fold entry_state_def, intro no_abort_intros)

lemma no_abort_entries [no_abort_intros]: "no_abort disabled_year_entry" "no_abort disabled_week_entry"
  unfolding disabled_year_entry_def disabled_week_entry_def year_day_range_list_def week_day_range_list_def
  by (intro no_abort_intros; simp)+

lemma no_abort_eat_spaces [no_abort_intros]: "no_abort eat_spaces"
proof (rule no_abortI[OF shrinks_eat_spaces])
  show "eat_spaces p = Inl e \<Longrightarrow> safe_error p e" for p e
  proof (induction p rule: eat_spaces.induct)
    case (1 p)
    from 1(2) consider "scan p = Inl e" | p1 where "scan p = Inr (SPACE, p1)" "eat_spaces (p1\<lparr>p_valid := False\<rparr>) = Inl e"
      by (subst (asm) eat_spaces.simps) (auto simp: eat_token_def split: sum.splits if_splits)
    then show ?case
    proof cases
      case 1
      then show ?thesis by (rule no_abortD[OF no_abort_scan])
    next
      case (2 p1)
      from 1(1)[OF 2(1) refl refl, of "((), p1\<lparr>p_valid := False\<rparr>)"] 2(2) have "safe_error (p1\<lparr>p_valid := False\<rparr>) e"
        by (simp add: eat_token_def)
      then show ?thesis using scan_eat_less[OF 2(1)] by (auto intro: safe_error_mono)
    qed
  qed
qed

text \<open>The loops over the entries, from what one round does.\<close>

lemma entries_round:
  assumes "no_abort entry" "scan p = Inr (SPACE, p1)"
  shows "next_entry entry p1 = Inl e \<Longrightarrow> safe_error p e"
    and "next_entry entry p1 = Inr (x, p2) \<Longrightarrow> left_to_read p2 \<le> left_to_read p"
proof -
  have n: "no_abort (next_entry entry)" unfolding next_entry_def by (intro no_abort_intros assms(1))
  have "left_to_read p1 \<le> left_to_read p" using scan_shrinks[OF assms(2)] by simp
  then show "next_entry entry p1 = Inl e \<Longrightarrow> safe_error p e" "next_entry entry p1 = Inr (x, p2) \<Longrightarrow> left_to_read p2 \<le> left_to_read p"
    using n by (auto simp: no_abort_def intro: safe_error_mono dest: shrinksD)
qed

lemma no_abort_year_entries: "year_entries_loop cal p = Inl e \<Longrightarrow> safe_error p e"
proof (induction cal p rule: year_entries_loop.induct)
  case (1 cal p)
  note r = entries_round[OF no_abort_entries(1)]
  from 1(2) consider "scan p = Inl e" | p1 where "scan p = Inr (SPACE, p1)" "next_entry disabled_year_entry p1 = Inl e"
    | p1 x p2 where "scan p = Inr (SPACE, p1)" "next_entry disabled_year_entry p1 = Inr (x, p2)" "year_entries_loop (cal @ [x]) p2 = Inl e"
    | str where "e = Unrecognized_String str"
    by (subst (asm) year_entries_loop.simps) (auto split: sum.splits if_splits)
  then show ?case
  proof cases
    case (3 p1 x p2)
    from 1(1)[OF 3(1) refl refl 3(2) refl 3(3)] r(2)[OF 3(1,2)] show ?thesis by (rule safe_error_mono)
  qed (auto simp: safe_error_def[of p "Unrecognized_String _"] intro: r(1) no_abortD[OF no_abort_scan])
qed

lemma no_abort_week_entries: "week_entries_loop cal p = Inl e \<Longrightarrow> safe_error p e"
proof (induction cal p rule: week_entries_loop.induct)
  case (1 cal p)
  note r = entries_round[OF no_abort_entries(2)]
  from 1(2) consider "scan p = Inl e" | p1 where "scan p = Inr (SPACE, p1)" "next_entry disabled_week_entry p1 = Inl e"
    | p1 x p2 where "scan p = Inr (SPACE, p1)" "next_entry disabled_week_entry p1 = Inr (x, p2)" "week_entries_loop (cal @ [x]) p2 = Inl e"
    | "e = Unrecognized_Token"
    by (subst (asm) week_entries_loop.simps) (auto split: sum.splits if_splits)
  then show ?case
  proof cases
    case (3 p1 x p2)
    from 1(1)[OF 3(1) refl refl 3(2) refl 3(3)] r(2)[OF 3(1,2)] show ?thesis by (rule safe_error_mono)
  qed (auto simp: safe_error_def[of p Unrecognized_Token] intro: r(1) no_abortD[OF no_abort_scan])
qed

lemma map_sum_fst_Inl: "map_sum id fst r = Inl e \<longleftrightarrow> r = Inl e"
  by (cases r) auto

text \<open>Hence an error of a whole specification is never an abort, and an overflow only for a text of 1000 characters or more.\<close>

definition memory_safe :: "string option \<Rightarrow> cal_error \<Rightarrow> bool" where
  "memory_safe str e = (e \<noteq> Null_Element \<and> (e = Store_Overflow \<longrightarrow> (\<exists>text. str = Some text \<and> store_size \<le> length text)))"

lemma entries_memory_safe:
  assumes "no_abort entry" "\<And>x p e. loop x p = Inl e \<Longrightarrow> safe_error p e" "pbind entry loop (start_scan text tks) = Inl e"
  shows "memory_safe (Some text) e"
proof -
  have "safe_error (start_scan text tks) e"
  proof (cases "entry (start_scan text tks)")
    case (Inl e')
    with assms(1,3) show ?thesis by (auto simp: pbind_def dest: no_abortD)
  next
    case (Inr xp)
    obtain x p where xp: "xp = (x, p)" by (cases xp)
    with Inr assms(1) have "left_to_read p \<le> left_to_read (start_scan text tks)" by (auto simp: no_abort_def dest: shrinksD)
    moreover have "safe_error p e" using assms(2,3) Inr xp by (simp add: pbind_def)
    ultimately show ?thesis by (blast intro: safe_error_mono)
  qed
  then show ?thesis by (simp add: safe_error_def memory_safe_def left_to_read_def start_scan_def)
qed

lemma lists_memory_safe:
  "disabled_year_list str = Inl e \<Longrightarrow> memory_safe str e" "disabled_week_list str = Inl e \<Longrightarrow> memory_safe str e"
  by (cases str; simp add: disabled_year_list_def is_none_def map_sum_fst_Inl split: if_splits;
      erule entries_memory_safe[OF no_abort_entries(1), rotated]; erule no_abort_year_entries)
    (cases str; simp add: disabled_week_list_def is_none_def map_sum_fst_Inl split: if_splits;
      erule entries_memory_safe[OF no_abort_entries(2), rotated]; erule no_abort_week_entries)

end
