(* ===== verification/Calendar_Props.thy ===== *)
theory Calendar_Props
  imports CalendarParse_Correct "HOL-Library.Code_Target_Nat"
begin

text \<open>
  The properties of the calendars: what a specification is read as, which state an entry
  asks for and until when, and the places where the code departs from its documentation.
\<close>

section \<open>Year calendars\<close>

definition dates_exist :: "(int \<Rightarrow> struct_tm) \<Rightarrow> ca \<Rightarrow> bool" where
  "dates_exist localtime_r e =
     (case CA_yday_range_list e of
        None \<Rightarrow> True
      | Some ys \<Rightarrow> \<forall>r\<in>set ys. (\<exists>u. has_date localtime_r u (TMR_begin r)) \<and>
                              (\<forall>x. TMR_end r = Some x \<longrightarrow> (\<exists>u. has_date localtime_r u x)))"

lemma parsed_year_entry_ok:
  assumes "disabled_year_list str = Inr cal" "e \<in> set cal" "dates_exist localtime_r e"
  shows "year_entry_ok localtime_r e" "parsed_state (CA_state e)"
proof -
  have p: "parsed_year_entry e" using disabled_year_list_parsed[OF assms(1)] assms(2) by (simp add: list_all_iff)
  then show "parsed_state (CA_state e)" by (simp add: parsed_year_entry_def)
  then have "CA_state e \<noteq> 0" by (auto simp: parsed_state_def QI_DO_defs)
  with p assms(3) show "year_entry_ok localtime_r e"
    by (auto simp: parsed_year_entry_def year_entry_ok_def parsed_daytimes_def dates_exist_def existing_range_def
        list_all_iff year_range_ok_def date_ok_def split: option.splits)
qed

text \<open>C33. \<^verbatim>\<open>is_year_entry_active\<close> returns for every entry of a parsed year calendar: its own
  state at the times that lie on its days and in its daytimes, and no state otherwise. The entry keeps its state until the reported time
  (for ever if that is 0), apart from the second at midnight, and an inactive entry is active at the
  reported time, unless a daytime range of it begins at 24 o'clock. The reported time is not before the time asked for. Assumed is a time
  zone with a constant offset (\<open>civil_time\<close>: \<^verbatim>\<open>localtime_r\<close> and \<^verbatim>\<open>mktime\<close> of such a zone),
  that every date of the entry exists (no 31 February), and times after 1970 with
  less than \<open>2 ^ 39\<close> seconds for the time asked for, \<open>2 ^ 40\<close> for the others.\<close>

theorem year_entry_state_and_end:
  assumes "civil_time localtime_r mktime zone" "disabled_year_list str = Inr cal" "e \<in> set cal" "dates_exist localtime_r e"
    and "0 < t" "t < 2 ^ 39"
  shows "\<exists>state limit.
    is_year_entry_active localtime_r mktime (cullify_tm (localtime_r t)) e = Some (state, limit) \<and>
    state = (if year_active localtime_r e t then CA_state e else 0) \<and> (limit = 0 \<or> t \<le> limit) \<and>
    (\<forall>v. t \<le> v \<and> v < 2 ^ 40 \<and> (limit = 0 \<or> v < limit) \<and> second_of zone v \<noteq> 0 \<longrightarrow>
       year_active localtime_r e v = year_active localtime_r e t) \<and>
    (\<not> year_active localtime_r e t \<and> limit \<noteq> 0 \<and> limit < 2 ^ 40 \<and>
     list_all (\<lambda>r. TM_hour (TMR_begin r) \<noteq> 24) (the (CA_daytime_range_list e)) \<longrightarrow> year_active localtime_r e limit)"
proof -
  obtain r where
    "is_year_entry_active localtime_r mktime (civil_time.now_tm localtime_r t) e = Some r"
    "civil_time.year_answer_ok localtime_r zone e t r"
    by (rule civil_time.year_entry_answer[OF assms(1) parsed_year_entry_ok(1)[OF assms(2-4)] assms(5,6)])
  then show ?thesis
    by (cases r) (simp add: civil_time.now_tm_def[OF assms(1)] civil_time.year_answer_ok_def[OF assms(1)])
qed

definition sample_year_text :: string where
  "sample_year_text = ''3.1.1970-4.feb.1970=9-17:30=suspended''"

definition sample_day :: "32 word \<Rightarrow> 32 word \<Rightarrow> tm" where
  "sample_day d m = new_tm\<lparr>TM_mday := d, TM_mon := m, TM_year := 70\<rparr>"

definition sample_year_entry :: ca where
  "sample_year_entry = year_entry (Some [\<lparr>TMR_begin = sample_day 3 0, TMR_end = Some (sample_day 4 1)\<rparr>])
     (Some [\<lparr>TMR_begin = new_tm\<lparr>TM_hour := 9\<rparr>, TMR_end = Some (new_tm\<lparr>TM_hour := 17, TM_min := 30\<rparr>)\<rparr>]) QI_DO_SUSPEND"

lemma sample_year_parsed: "disabled_year_list (Some sample_year_text) = Inr [sample_year_entry]"
  by code_simp

lemma sample_has_dates: "has_date utc_localtime (2 * 86400) (sample_day 3 0)" "has_date utc_localtime (34 * 86400) (sample_day 4 1)"
  by code_simp+

lemma sample_dates_exist: "dates_exist utc_localtime sample_year_entry"
  using sample_has_dates by (auto simp: dates_exist_def sample_year_entry_def year_entry_def)

theorem year_entry_state_and_end_witness:
  "\<exists>state limit. is_year_entry_active utc_localtime utc_mktime (cullify_tm (utc_localtime 100)) sample_year_entry = Some (state, limit) \<and>
     state = (if year_active utc_localtime sample_year_entry 100 then QI_DO_SUSPEND else 0)"
  using year_entry_state_and_end[OF utc.civil_time_axioms sample_year_parsed _ sample_dates_exist, of 100]
  by (auto simp: sample_year_entry_def year_entry_def)

text \<open>C34. If an entry of a parsed year calendar is active, \<^verbatim>\<open>state_at\<close> returns whatever the week calendar holds, and
  the state is the strongest of the active entries: on before suspended before off. Assumed are a time
  zone with a constant offset (\<open>civil_time\<close>), that all dates of the year calendar exist, and
  a time after 1970 of less than \<open>2 ^ 39\<close> seconds.\<close>

theorem year_calendar_decides:
  assumes "civil_time localtime_r mktime zone" "disabled_year_list str = Inr ycal" "\<forall>e\<in>set ycal. dates_exist localtime_r e"
    and "0 < t" "t < 2 ^ 39" "\<exists>e\<in>set ycal. year_active localtime_r e t"
  shows "\<exists>event. state_at localtime_r mktime t ycal wcal =
    Some (if \<exists>e\<in>set ycal. year_active localtime_r e t \<and> CA_state e = QI_DO_ENABLE then QI_DO_ENABLE
          else if \<exists>e\<in>set ycal. year_active localtime_r e t \<and> CA_state e = QI_DO_SUSPEND then QI_DO_SUSPEND
          else QI_DO_DISABLE, event)"
proof -
  let ?f = "\<lambda>e. if year_active localtime_r e t then CA_state e else 0"
  let ?st = "fold (\<lambda>e st. st OR ?f e) ycal (0 :: 32 word)"
  have ok: "year_entry_ok localtime_r e" "parsed_state (CA_state e)" if "e \<in> set ycal" for e
    using parsed_year_entry_ok[OF assms(2) that] assms(3) that by blast+
  obtain event where f: "foldo (year_step localtime_r mktime (cullify_tm (localtime_r t))) ycal (0, 0) = Some (?st, event)"
    using civil_time.year_fold_state[OF assms(1), of ycal t 0 0] ok(1) assms(4,5)
    by (auto simp: civil_time.now_tm_def[OF assms(1)])
  have f_bits: "bit (?f e) 3 \<longleftrightarrow> year_active localtime_r e t \<and> CA_state e = QI_DO_ENABLE"
    "bit (?f e) 8 \<longleftrightarrow> year_active localtime_r e t \<and> CA_state e = QI_DO_SUSPEND"
    "bit (?f e) 2 \<longleftrightarrow> year_active localtime_r e t \<and> CA_state e = QI_DO_DISABLE" if "e \<in> set ycal" for e
    using ok(2)[OF that] QI_DO_bits by (auto simp: parsed_state_def)
  have bits: "bit ?st 3 \<longleftrightarrow> (\<exists>e\<in>set ycal. year_active localtime_r e t \<and> CA_state e = QI_DO_ENABLE)"
    "bit ?st 8 \<longleftrightarrow> (\<exists>e\<in>set ycal. year_active localtime_r e t \<and> CA_state e = QI_DO_SUSPEND)"
    "bit ?st 2 \<longleftrightarrow> (\<exists>e\<in>set ycal. year_active localtime_r e t \<and> CA_state e = QI_DO_DISABLE)"
    unfolding bit_fold_states using f_bits by (auto cong: bex_cong)
  obtain e where e: "e \<in> set ycal" "year_active localtime_r e t" using assms(6) by blast
  with ok(2)[OF e(1)] bits have one: "bit ?st 3 \<or> bit ?st 8 \<or> bit ?st 2" unfolding parsed_state_def by blast
  then have "?st \<noteq> 0" by (metis bit_0_eq bot_apply bot_bool_def)
  then have "state_at localtime_r mktime t ycal wcal = Some (strongest_state ?st, event)"
    by (simp add: state_at_def f)
  moreover have "strongest_state ?st = (if bit ?st 3 then QI_DO_ENABLE else if bit ?st 8 then QI_DO_SUSPEND else QI_DO_DISABLE)"
    using one by (auto simp: strongest_state_def and_QI_DO)
  ultimately show ?thesis unfolding bits by (intro exI[of _ event]) (simp only:)
qed

lemma sample_active: "year_active utc_localtime sample_year_entry (3 * 86400 + 36000)"
  by code_simp

theorem year_calendar_decides_witness:
  "\<exists>event. state_at utc_localtime utc_mktime (3 * 86400 + 36000) [sample_year_entry] [] = Some (QI_DO_SUSPEND, event)"
  using year_calendar_decides[OF utc.civil_time_axioms sample_year_parsed, of "3 * 86400 + 36000" "[]"] sample_dates_exist sample_active
  by (auto simp: sample_year_entry_def year_entry_def QI_DO_defs)

section \<open>Specifications\<close>

text \<open>C35. Parsing either succeeds, stores entries that are well formed and answers
  nothing, or leaves the calendar as it was and answers one error. Well formed means: one of the three states; a nonempty
  list of pairwise disjoint daytimes, each with an end that is not before its begin; in the year calendar dates of the years 1970 to
  2037 in ranges that do not end before they begin, or no dates at all and the whole day; in the week calendar a nonempty list of ranges
  that begin within the week and end, not before they begin, at the latest in the following week. No text makes a comparison meet a null element, and none
  shorter than 1000 characters makes the scanner write past its buffer for the current token (\<open>memory_safe\<close>).\<close>

theorem parsed_calendars_are_well_formed:
  "(case calendar_parse_year cal answers of (ok, cal', answers') \<Rightarrow>
      if ok then list_all parsed_year_entry (CAL_parsed_year_calendar cal') \<and> answers' = answers
      else cal' = cal \<and> (\<exists>e. answers' = answers @ [e] \<and> memory_safe (CAL_year_calendar cal) e)) \<and>
   (case calendar_parse_week cal answers of (ok, cal', answers') \<Rightarrow>
      if ok then list_all parsed_week_entry (CAL_parsed_week_calendar cal') \<and> answers' = answers
      else cal' = cal \<and> (\<exists>e. answers' = answers @ [e] \<and> memory_safe (CAL_week_calendar cal) e))"
  using disabled_year_list_parsed[of "CAL_year_calendar cal"] disabled_week_list_parsed[of "CAL_week_calendar cal"]
    lists_memory_safe(1)[of "CAL_year_calendar cal"] lists_memory_safe(2)[of "CAL_week_calendar cal"]
  by (auto simp: calendar_parse_year_def calendar_parse_week_def split: sum.splits)

text \<open>A number the parser accepts is the decimal value of its digits, although the scanner
  computes with 32 bits and its overflow check misses some numbers that wrap around: those are larger
  than every bound the grammar has.\<close>

lemma accepted_numbers_are_exact:
  assumes "\<not> p_valid p" "range_number lo hi name p = Inr (n, p')" "hi < 214748364"
  shows "takeWhile is_digit (p_text p) \<noteq> [] \<and> n = decimal_value 0 (takeWhile is_digit (p_text p)) \<and> lo \<le> n \<and> n \<le> hi \<and>
         p_text p' = dropWhile is_digit (p_text p)"
proof -
  have b: "lo \<le> n \<and> n \<le> hi" using yieldsD[OF range_number_yields assms(2)] .
  from assms(2) obtain tk p1 where s: "scan p = Inr (tk, p1)" "tk = NUMBER" "n = p_number p1" "p_text p' = p_text p1"
    unfolding range_number_def
    by (elim pbind_InrE)
      (auto simp: pbind_def get_number_def eat_token_def pret_def perror_def get_string_def split: if_splits)
  with assms(1) have "try_tokens (p_set p) p = Inr (NUMBER, p1)" by (simp add: scan_def split: if_splits)
  from try_tokens_number[OF this] b s(3,4) assms(3) show ?thesis
    using scan_digits_decimal[of 0 "p_text p" n] by simp
qed

lemma sample_number:
  "range_number 1 31 ''day'' (start_scan ''0031.feb'' year_token_set) =
     Inr (31, \<lparr>p_text = ''.feb'', p_set = year_token_set, p_token = NUMBER, p_valid = False, p_store = ''0031'', p_number = 31\<rparr>)"
  by code_simp

lemma sample_digits: "takeWhile is_digit (p_text (start_scan ''0031.feb'' year_token_set)) = ''0031''"
    "\<not> p_valid (start_scan ''0031.feb'' year_token_set)"
  by code_simp+

section \<open>Daytimes and week days\<close>

lemma foldl_split_daytimes:
  assumes "\<forall>r\<in>set rs. raw_daytime_ok r" "list_all dt.closed_range dts"
  shows "list_all dt.closed_range (foldl split_daytime_range dts rs) \<and>
         (rs \<noteq> [] \<longrightarrow> daytimes_ok (foldl split_daytime_range dts rs)) \<and>
         (\<forall>s. 0 \<le> s \<and> s < 86400 \<longrightarrow>
            (s \<in> active_seconds (foldl split_daytime_range dts rs) \<longleftrightarrow>
             s \<in> active_seconds dts \<or> (\<exists>r\<in>set rs. requested_second r s)))"
  using assms
proof (induction rs arbitrary: dts)
  case Nil
  then show ?case by simp
next
  case (Cons r rs)
  have ok: "daytimes_ok (split_daytime_range dts r)" using split_daytime_range_ok Cons.prems by simp
  then have "list_all dt.closed_range (split_daytime_range dts r)" by (simp add: daytimes_ok_def)
  from Cons.IH[OF _ this] Cons.prems ok split_daytime_range_seconds[of r _ dts] show ?case
    by (cases rs) auto
qed

text \<open>C36. A nonempty list of daytime ranges as the parser reads them (times up to 24:00, with an end that differs from
  the begin) is split at midnight and normalised without an abort. The ranges that result do not overlap, and a time of the day lies in
  one of them exactly if one of the ranges covers it as it was written: both ends included, and going past
  midnight if it ends before it begins.\<close>

theorem daytimes_cover_what_was_written:
  assumes "rs \<noteq> []" "list_all raw_daytime_ok rs"
  shows "\<exists>dts. normalize_range_list tm_daytime_cmp (foldl split_daytime_range [] rs) = Some dts \<and>
    sorted_wrt (\<lambda>r q. \<not> overlapping tm_daytime_cmp r q) dts \<and>
    (\<forall>t. daytime_valid t \<and> daytime_key t < 86400 \<longrightarrow>
       (in_range_list t (Some dts) tm_daytime_cmp \<longleftrightarrow> (\<exists>r\<in>set rs. requested_second r (daytime_key t))))"
proof -
  have all: "\<forall>r\<in>set rs. raw_daytime_ok r" using assms(2) by (simp add: list_all_iff)
  note f = foldl_split_daytimes[OF all, of "[]"]
  then have ok: "daytimes_ok (foldl split_daytime_range [] rs)" using assms(1) by simp
  obtain dts where d: "normalize_range_list tm_daytime_cmp (foldl split_daytime_range [] rs) = Some dts" "parsed_daytimes dts"
    "active_seconds dts = active_seconds (foldl split_daytime_range [] rs)"
    by (rule normalize_daytimes[OF ok])
  then have v: "\<forall>r\<in>set dts. dt.valid_range r" using daytimes_okD(2) by (auto simp: parsed_daytimes_def)
  have "sorted_wrt (\<lambda>r q. \<not> overlapping tm_daytime_cmp r q) dts"
    using d(2) v by (auto simp: parsed_daytimes_def dt.overlapping_span intro: sorted_wrt_mono_rel[rotated])
  moreover have "in_range_list t (Some dts) tm_daytime_cmp \<longleftrightarrow> (\<exists>r\<in>set rs. requested_second r (daytime_key t))"
    if "daytime_valid t" "daytime_key t < 86400" for t
  proof -
    have "in_range_list t (Some dts) tm_daytime_cmp \<longleftrightarrow> daytime_key t \<in> active_seconds dts"
      unfolding active_seconds_def by (rule dt.in_range_list_span[OF that(1) v])
    moreover have "daytime_key t \<in> active_seconds (foldl split_daytime_range [] rs) \<longleftrightarrow> (\<exists>r\<in>set rs. requested_second r (daytime_key t))"
      using f daytime_key_nonneg[of t] that(2) by (simp add: active_seconds_def)
    ultimately show ?thesis using d(3) by simp
  qed
  ultimately show ?thesis using d(1) by blast
qed

definition sample_daytimes :: "tmr list" where
  "sample_daytimes = [\<lparr>TMR_begin = new_tm\<lparr>TM_hour := 20\<rparr>, TMR_end = Some (new_tm\<lparr>TM_hour := 6\<rparr>)\<rparr>,
     \<lparr>TMR_begin = new_tm\<lparr>TM_hour := 5\<rparr>, TMR_end = Some (new_tm\<lparr>TM_hour := 7\<rparr>)\<rparr>]"

lemma sample_daytimes_ok: "list_all raw_daytime_ok sample_daytimes" "sample_daytimes \<noteq> []"
  by (simp_all add: sample_daytimes_def raw_daytime_ok_def clock_ok_def daytime_valid_def daytime_key_def new_tm_def)

theorem daytimes_cover_what_was_written_witness:
  "\<exists>dts. normalize_range_list tm_daytime_cmp (foldl split_daytime_range [] sample_daytimes) = Some dts \<and>
     in_range_list (new_tm\<lparr>TM_hour := 23\<rparr>) (Some dts) tm_daytime_cmp = (\<exists>r\<in>set sample_daytimes. requested_second r 82800)"
proof -
  have k: "daytime_valid (new_tm\<lparr>TM_hour := 23\<rparr>)" "daytime_key (new_tm\<lparr>TM_hour := 23\<rparr>) = 82800"
    by (simp_all add: daytime_valid_def daytime_key_def new_tm_def)
  from daytimes_cover_what_was_written[OF sample_daytimes_ok(2,1)] obtain dts where
    "normalize_range_list tm_daytime_cmp (foldl split_daytime_range [] sample_daytimes) = Some dts"
    "\<forall>t. daytime_valid t \<and> daytime_key t < 86400 \<longrightarrow>
       (in_range_list t (Some dts) tm_daytime_cmp \<longleftrightarrow> (\<exists>r\<in>set sample_daytimes. requested_second r (daytime_key t)))"
    by blast
  with k show ?thesis by (intro exI[of _ dts]) simp
qed

lemma foldl_split_week_days:
  assumes "\<forall>r\<in>set rs. uint (begin_wday r) \<le> 6 \<and> uint (end_wday r) \<le> 6" "\<forall>q\<in>set ws. wday_range_ok q"
  shows "(\<forall>q\<in>set (foldl split_wday_range ws rs). wday_range_ok q) \<and>
         week_days (foldl split_wday_range ws rs) = week_days ws \<union> {w. 0 \<le> w \<and> w \<le> 6 \<and> (\<exists>r\<in>set rs. requested_day r w)}"
  using assms
proof (induction rs arbitrary: ws)
  case Nil
  then show ?case by simp
next
  case (Cons r rs)
  have b: "uint (begin_wday r) \<le> 6" "uint (end_wday r) \<le> 6" using Cons.prems(1) by auto
  note s = split_wday_range_days[OF Cons.prems(2) b]
  have "\<forall>r\<in>set rs. uint (begin_wday r) \<le> 6 \<and> uint (end_wday r) \<le> 6" using Cons.prems(1) by simp
  from Cons.IH[OF this s(1)] s(2) show ?case by auto
qed

text \<open>The week days of an entry, split at the end of the week, joined and extended, contain
  no day that none of the ranges covers as it was written; if no two of the split ranges touch, they
  contain all of them.\<close>

lemma week_days_are_requested:
  assumes "list_all (\<lambda>r. uint (begin_wday r) \<le> 6 \<and> uint (end_wday r) \<le> 6) rs" "uint (TM_wday t) \<le> 6"
    and "split = foldl split_wday_range [] rs" "ws = extend_wday_range (join_wday_range split)"
  shows "(in_range_list t (Some ws) tm_wday_cmp \<longrightarrow> (\<exists>r\<in>set rs. requested_day r (uint (TM_wday t)))) \<and>
         (sorted_wrt (\<lambda>r q. \<not> joins r q \<and> \<not> joins q r) split \<longrightarrow>
            in_range_list t (Some ws) tm_wday_cmp = (\<exists>r\<in>set rs. requested_day r (uint (TM_wday t))))"
proof -
  have all: "\<forall>r\<in>set rs. uint (begin_wday r) \<le> 6 \<and> uint (end_wday r) \<le> 6" using assms(1) by (simp add: list_all_iff)
  have f: "\<forall>q\<in>set split. wday_range_ok q" "week_days split = {w. 0 \<le> w \<and> w \<le> 6 \<and> (\<exists>r\<in>set rs. requested_day r w)}"
    using foldl_split_week_days[OF all, of "[]"] by (simp_all add: assms(3) week_days_def)
  note j = joined_week_days[OF f(1), folded assms(4)]
  have v: "wd.valid_range r \<and> wd.span r = days_of r" if "r \<in> set ws" for r
    using j(1) that
    by (auto simp: extended_ok_def wd.valid_range_def wd.span_def wd.end_key_def days_of_def wday_valid_def wday_key_def
        begin_wday_def end_wday_def split: option.splits)
  have "wday_valid t" using assms(2) by (simp add: wday_valid_def)
  from wd.in_range_list_span[OF this, of ws] v
  have "in_range_list t (Some ws) tm_wday_cmp \<longleftrightarrow> uint (TM_wday t) \<in> week_days ws"
    by (auto simp: wday_key_def week_days_def)
  moreover have "uint (TM_wday t) \<in> {0..6}" using assms(2) by simp
  ultimately show ?thesis using j(2,3) f(2) by auto
qed

definition sample_week_days :: "tmr list" where
  "sample_week_days = [\<lparr>TMR_begin = new_tm\<lparr>TM_wday := 5\<rparr>, TMR_end = Some (new_tm\<lparr>TM_wday := 1\<rparr>)\<rparr>,
     \<lparr>TMR_begin = new_tm\<lparr>TM_wday := 3\<rparr>, TMR_end = None\<rparr>]"

section \<open>Departures from the documentation\<close>

text \<open>
  A time frame is checked by going from change to change. A change that is reported for the very time it is asked
  at is never left again.
\<close>

lemma open_loop_never_ends:
  assumes "open_loop so l st k = Some y" "so n = Some (QI_DO_ENABLE, n)" "n \<noteq> 0" "n \<le> l"
  shows "\<not> (st = QI_DO_ENABLE \<and> k = n)"
  using assms
proof (induction rule: open_loop.raw_induct[rotated, consumes 1, case_names step])
  case (step f so l st k y)
  show ?case
  proof
    assume "st = QI_DO_ENABLE \<and> k = n"
    with step(2-) have "f so l QI_DO_ENABLE n = Some y" by simp
    from step(1)[OF this] step(3-) show False by simp
  qed
qed

lemma open_loop_stuck:
  assumes "state_of n = Some (QI_DO_ENABLE, n)" "n \<noteq> 0" "n \<le> limit"
  shows "open_loop state_of limit QI_DO_ENABLE n = None"
  using open_loop_never_ends[of state_of limit QI_DO_ENABLE n _ n] assms by (cases "open_loop state_of limit QI_DO_ENABLE n") auto

definition weekday_hours :: "32 word \<Rightarrow> 32 word \<Rightarrow> 32 word \<Rightarrow> ca" where
  "weekday_hours h1 h2 st =
     week_entry (Some [\<lparr>TMR_begin = new_tm\<lparr>TM_wday := 1\<rparr>, TMR_end = Some (new_tm\<lparr>TM_wday := 5\<rparr>)\<rparr>])
       (Some [\<lparr>TMR_begin = new_tm\<lparr>TM_hour := h1\<rparr>, TMR_end = Some (new_tm\<lparr>TM_hour := h2\<rparr>)\<rparr>]) st"

lemma office_hours_parsed: "disabled_week_list (Some ''mon-fri=9-17=on'') = Inr [weekday_hours 9 17 QI_DO_ENABLE]"
  by code_simp

text \<open>17 o'clock on Monday, 5 January 1970, is the end of the range and belongs to it.\<close>

lemma office_hours_end: "state_at utc_localtime utc_mktime 406800 [] [weekday_hours 9 17 QI_DO_ENABLE] = Some (QI_DO_ENABLE, 406800)"
  by code_simp

lemma office_hours_morning: "state_at utc_localtime utc_mktime 381600 [] [weekday_hours 9 17 QI_DO_ENABLE] = Some (QI_DO_ENABLE, 406800)"
  by code_simp

definition office_calendar :: cal where
  "office_calendar = \<lparr>CAL_name = ''office'', CAL_year_calendar = None, CAL_week_calendar = Some ''mon-fri=9-17=on'',
     CAL_parsed_year_calendar = [], CAL_parsed_week_calendar = [weekday_hours 9 17 QI_DO_ENABLE]\<rparr>"

lemma open_in_time_frame_hangs:
  "calendar_open_in_time_frame utc_localtime utc_mktime (Some office_calendar) (sge_time_t_to_gmt64 381600) (sge_time_t_to_gmt64 36000) = None"
proof -
  have "sge_gmt64_to_time_t (sge_time_t_to_gmt64 381600) = 381600"
    "sge_gmt64_to_time_t (duration_add_offset (sge_time_t_to_gmt64 381600) (sge_time_t_to_gmt64 36000)) = 417600"
    by code_simp+
  then show ?thesis
    by (simp add: calendar_open_in_time_frame_def Let_def office_calendar_def office_hours_morning open_loop_stuck office_hours_end)
qed

text \<open>At eight on Monday evening a queue that is closed from midnight to six is reported closed.\<close>

lemma evening_is_next_morning:
  "disabled_week_list (Some ''mon-fri=0-6'') = Inr [weekday_hours 0 6 QI_DO_DISABLE]"
  "map_option fst (state_at utc_localtime utc_mktime (4 * 86400 + 72000) [] [weekday_hours 0 6 QI_DO_DISABLE]) = Some QI_DO_DISABLE"
  "\<not> in_range_list (cullify_tm (utc_localtime (4 * 86400 + 72000))) (CA_daytime_range_list (weekday_hours 0 6 QI_DO_DISABLE)) tm_daytime_cmp"
  by code_simp+

definition single_day :: "32 word \<Rightarrow> tmr" where
  "single_day w = \<lparr>TMR_begin = new_tm\<lparr>TM_wday := w\<rparr>, TMR_end = None\<rparr>"

definition days :: "32 word \<Rightarrow> 32 word \<Rightarrow> tmr" where
  "days w1 w2 = \<lparr>TMR_begin = new_tm\<lparr>TM_wday := w1\<rparr>, TMR_end = Some (new_tm\<lparr>TM_wday := w2\<rparr>)\<rparr>"

lemma tuesday_is_lost: "disabled_week_list (Some ''mon,tue'') = Inr [week_entry (Some [single_day 1]) None QI_DO_DISABLE]"
  by code_simp

lemma end_of_week_is_lost:
  "disabled_week_list (Some ''mon-tue,tue-sat,wed-thu'') = Inr [week_entry (Some [days 1 4]) None QI_DO_DISABLE]"
  by code_simp

lemma week_of_eight_days:
  "disabled_week_list (Some ''mon-tue,tue-thu,thu-sun'') = Inr [week_entry (Some [days 4 11, days 0 4]) None QI_DO_DISABLE]"
  by code_simp

text \<open>February has no 31st: the entry ends on the 28th but its end is reported for 4 March.\<close>

definition day_range :: "tm \<Rightarrow> tm \<Rightarrow> 32 word \<Rightarrow> ca" where
  "day_range d1 d2 st = year_entry (Some [\<lparr>TMR_begin = d1, TMR_end = Some d2\<rparr>]) None st"

lemma february_ends_in_march:
  "disabled_year_list (Some ''1.feb.1970-31.feb.1970'') = Inr [day_range (sample_day 1 1) (sample_day 31 1) QI_DO_DISABLE]"
  "state_at utc_localtime utc_mktime (58 * 86400) [day_range (sample_day 1 1) (sample_day 31 1) QI_DO_DISABLE] [] = Some (QI_DO_DISABLE, 62 * 86400)"
  "state_at utc_localtime utc_mktime (59 * 86400) [day_range (sample_day 1 1) (sample_day 31 1) QI_DO_DISABLE] [] = Some (QI_DO_ENABLE, 0)"
  by code_simp+

text \<open>
  Off from 2 to 5 and from 2 to 9 January, suspended on the 4th: on the 2nd the next change is reported for
  the 10th, although the state is another one on the 4th.
\<close>

definition overlapping_year :: "ca list" where
  "overlapping_year =
     [day_range (sample_day 4 0) (sample_day 4 0) QI_DO_SUSPEND, day_range (sample_day 2 0) (sample_day 5 0) QI_DO_DISABLE,
      day_range (sample_day 2 0) (sample_day 9 0) QI_DO_DISABLE]"

lemma change_is_missed:
  "state_at utc_localtime utc_mktime (1 * 86400 + 3600) overlapping_year [] = Some (QI_DO_DISABLE, 9 * 86400)"
  "map_option fst (state_at utc_localtime utc_mktime (3 * 86400 + 3600) overlapping_year []) = Some QI_DO_SUSPEND"
  by code_simp+

text \<open>
  On Monday off from 9 to 12 and from 11 to 15, suspended from 12 to 14: the first pass over
  the entries at ten already collects the suspension.
\<close>

definition monday_hours :: "32 word \<Rightarrow> 32 word \<Rightarrow> 32 word \<Rightarrow> ca" where
  "monday_hours h1 h2 st =
     week_entry (Some [single_day 1]) (Some [\<lparr>TMR_begin = new_tm\<lparr>TM_hour := h1\<rparr>, TMR_end = Some (new_tm\<lparr>TM_hour := h2\<rparr>)\<rparr>]) st"

definition ten_oclock :: tm where
  "ten_oclock = cullify_tm (utc_localtime 381600)"

definition past_noon :: tm where
  "past_noon = cullify_tm (utc_localtime 388801)"

lemma monday_answer_1:
  "is_week_entry_active utc_localtime utc_mktime ten_oclock (monday_hours 9 12 QI_DO_DISABLE) 0 = Some (QI_DO_DISABLE, 388800, 0)"
  by code_simp

lemma monday_answer_2:
  "is_week_entry_active utc_localtime utc_mktime ten_oclock (monday_hours 11 15 QI_DO_DISABLE) 0 = Some (0, 385200, QI_DO_DISABLE)"
  by code_simp

lemma monday_answer_3:
  "is_week_entry_active utc_localtime utc_mktime past_noon (monday_hours 11 15 QI_DO_DISABLE) 0 = Some (QI_DO_DISABLE, 399600, 0)"
  by code_simp

lemma monday_answer_4:
  "is_week_entry_active utc_localtime utc_mktime past_noon (monday_hours 12 14 QI_DO_SUSPEND) 0 = Some (QI_DO_SUSPEND, 396000, 0)"
  by code_simp

lemmas monday_answers = monday_answer_1 monday_answer_2 monday_answer_3 monday_answer_4

lemma later_state_is_early:
  "map_option ws_state (week_pass utc_localtime utc_mktime 0
     [monday_hours 9 12 QI_DO_DISABLE, monday_hours 11 15 QI_DO_DISABLE, monday_hours 12 14 QI_DO_SUSPEND]
     \<lparr>ws_tm = ten_oclock, ws_state = 0, ws_event = 0, ws_visited = replicate 3 False, ws_overlapping = False\<rparr>) =
   Some (QI_DO_DISABLE OR QI_DO_SUSPEND)"
proof -
  have "QI_DO_DISABLE \<noteq> 0" "QI_DO_DISABLE OR QI_DO_SUSPEND \<noteq> 0" by (simp_all add: QI_DO_defs)
  then show ?thesis by (simp add: monday_answers Let_def flip: past_noon_def)
qed

text \<open>A change at midnight is reported one second late.\<close>

definition morning :: ca where
  "morning = year_entry (Some [\<lparr>TMR_begin = sample_day 2 0, TMR_end = Some (sample_day 9 0)\<rparr>])
     (Some [\<lparr>TMR_begin = new_tm, TMR_end = Some (new_tm\<lparr>TM_hour := 6\<rparr>)\<rparr>]) QI_DO_DISABLE"

lemma midnight_is_late:
  "is_year_entry_active utc_localtime utc_mktime (cullify_tm (utc_localtime (3 * 86400 + 72000))) morning = Some (0, 4 * 86400 + 1)"
  "year_active utc_localtime morning (4 * 86400)"
  by code_simp+

text \<open>The end of a daytime range belongs to it: 12.3.2004=12-11 is closed at eleven.\<close>

lemma range_end_is_closed: "in_range (new_tm\<lparr>TM_hour := 11\<rparr>) \<lparr>TMR_begin = new_tm, TMR_end = Some (new_tm\<lparr>TM_hour := 11\<rparr>)\<rparr> tm_daytime_cmp"
  by code_simp

text \<open>A word of 1000 letters is written past the end of the buffer for the current token.\<close>

lemma word_overflows_store: "scan (start_scan (replicate 1000 CHR ''a'') week_token_set) = Inl Store_Overflow"
proof -
  have c: "tolower CHR ''a'' = CHR ''a''" "is_alpha CHR ''a''" "is_alnum CHR ''a''"
    by code_simp+
  have r: "replicate 1000 x = x # replicate 999 x" for x :: char by (simp add: numeral_eq_Suc)
  show ?thesis
    by (simp add: scan_def start_scan_def week_token_set_def r c store_size_def Let_def takeWhile_replicate tolower_def)
qed

end
