(* ===== verification/Spec2Isabelle.thy ===== *)
theory Spec2Isabelle
  imports Range_Props JobTasks_Props FifoLock_Props TaskQueue_Props SimpleList_Props
    EvalExpression_Props Htable_Props Bitfield_Props ResourceUtilization_Props HostGroups_Props
    QueueStates_Props PackBuffer_Props CullPack_Props CullRegistry_Props TaskDepend_Props
    Calendar_Props
begin

text \<open>
  A verification development for the core libraries of the cluster scheduler: the data
  structures and algorithms under \<^verbatim>\<open>src/source/libs/uti\<close>, \<^verbatim>\<open>src/source/libs/sgeobj\<close> and
  \<^verbatim>\<open>src/source/libs/sched\<close> that the master daemon, the scheduler and the execution
  daemon are built from, and the requests of the master daemon that change them.

  \<^bold>\<open>The program.\<close> A master daemon keeps jobs, queues and hosts as typed lists. Clients send
  requests; a listener stores them in a task queue (\<^verbatim>\<open>uti/sge_tq.cc\<close>, on the linked lists of
  \<^verbatim>\<open>uti/sge_sl.cc\<close>), worker and reader threads take them out and work under reader/writer locks
  (\<^verbatim>\<open>uti/sge_lock_fifo.cc\<close>). An array job stands for many tasks: a pending task is only an id in
  one of the range lists of the job (\<^verbatim>\<open>sgeobj/sge_range.cc\<close>), and becomes an element when it is
  enrolled (\<^verbatim>\<open>sgeobj/sge_job.cc\<close>). Resource requests are matched by a small expression language
  (\<^verbatim>\<open>sgeobj/sge_eval_expression.cc\<close>). Lists are indexed by hash tables (\<^verbatim>\<open>uti/sge_htable.cc\<close>), and
  changed attributes are marked in bit fields (\<^verbatim>\<open>uti/sge_bitfield.cc\<close>). Hosts are named in several
  spellings (\<^verbatim>\<open>uti/sge_hostname.cc\<close>) and collected in groups that contain each other
  (\<^verbatim>\<open>sgeobj/sge_href.cc\<close>, \<^verbatim>\<open>sgeobj/sge_hgroup.cc\<close>), which the master changes on request
  (\<^verbatim>\<open>daemons/qmaster/sge_hgroup_qmaster.cc\<close>). The scheduler plans ahead in diagrams of how much of a
  resource is used when (\<^verbatim>\<open>sched/sge_resource_utilization.cc\<close>). A queue on a host is disabled,
  suspended or in error for several reasons at once (\<^verbatim>\<open>sgeobj/sge_qinstance_state.cc\<close>,
  \<^verbatim>\<open>daemons/qmaster/sge_qinstance_qmaster.cc\<close>); its jobs are stopped and continued by signals, and the
  advance reservations that need it count its errors. One of the reasons is a calendar, a text that names days and daytimes with
  states (\<^verbatim>\<open>sgeobj/sge_calendar.cc\<close>). All components keep their data in lists of
  elements that are described by descriptors, full ones for the types of the program and reduced ones for a
  selection of fields (\<^verbatim>\<open>cull/ocs_cull_descr.cc\<close>), and exchange them as byte streams (\<^verbatim>\<open>cull/cull_pack.cc\<close> on
  \<^verbatim>\<open>cull/pack.cc\<close>).

  \<^bold>\<open>The theories.\<close> Each component \<open>X\<close> has a theory \<open>X\<close> with its data and one definition per
  function of the source, a theory \<open>X_Correct\<close> with invariants, interfaces and lemmas, and a
  theory \<open>X_Props\<close> with the properties and their instances on concrete inputs.

  \<^item> \<open>Prelude\<close>: unsigned 32 bit arithmetic on natural numbers with its wrap-around (\<open>add32\<close>,
    \<open>sub32\<close>, \<open>mul32\<close>), the loop \<open>foldo\<close> in the option monad, answer lists.
  \<^item> \<open>Range\<close>, \<open>Range_Correct\<close>, \<open>Range_Props\<close>: range lists. A list pointer is an option, a range a
    record of minimum, maximum and step. \<open>wf_ranges\<close> is the normal form, \<open>ids\<close> the set that a list
    stands for. Insertion, removal, compression, sorting and the three set operations keep the
    normal form and compute the set operation; the queries read the set.
  \<^item> \<open>IdLists\<close>: the locales \<open>id_list\<close> and \<open>id_list_sets\<close>, which say what the users of range lists
    rely on, interpreted on the functions of \<open>Range\<close>.
  \<^item> \<open>JobTasks\<close>, \<open>JobTasks_Correct\<close>, \<open>JobTasks_Props\<close>: the array tasks of a job. \<open>job_inv\<close> says
    that the five id lists and the task list describe each task once; every operation keeps it
    (\<open>job_step\<close> and the reachable jobs), if no task is enrolled that is held. Hold states are read back as written, the counts count.
  \<^item> \<open>TaskDepend\<close>, \<open>TaskDepend_Correct\<close>, \<open>TaskDepend_Submit\<close>, \<open>TaskDepend_Props\<close>: dependencies between the tasks of array
    jobs (\<^verbatim>\<open>daemons/qmaster/sge_task_depend.cc\<close> and its callers), on the jobs of \<open>JobTasks\<close> in a master list. \<open>overlap\<close>
    says which tasks depend on each other, \<open>settled\<close> that exactly the waiting ones are held; submission makes
    the holds settled, and the release after a task has finished keeps them so.
  \<^item> \<open>FifoLock\<close>, \<open>FifoLock_Correct\<close>, \<open>FifoLock_Props\<close>: the reader/writer lock. A function is cut at
    its waits into sections that run under the mutex; \<open>fifo_step\<close> interleaves the sections of any
    number of requests, and a waiting request may wake up at any time. The ring buffer refines a
    queue (\<open>spec_step\<close>); mutual exclusion, no overtaking, and every queued request can be served.
  \<^item> \<open>SimpleList\<close>, \<open>SimpleList_Correct\<close>, \<open>SimpleList_Props\<close>: the linked lists as a program on a
    heap of nodes. \<open>dll\<close> relates heap and list header to the sequence they represent; the locale
    \<open>searchable_list\<close> holds what the task queue uses.
  \<^item> \<open>TaskQueue\<close>, \<open>TaskQueue_Correct\<close>, \<open>TaskQueue_Props\<close>: the task queue, cut at its wait like the
    lock. \<open>tq_step\<close> interleaves threads that store, wait, wake and move tasks from a second queue; tasks of a type leave in the
    order they came in, each once, and a thread sleeps while a task for it is queued only until the thread that moved
    the task has made its wakeup call.
  \<^item> \<open>EvalExpression\<close>, \<open>EvalExpression_Correct\<close>, \<open>EvalExpression_Props\<close>: resource expressions. The
    recursive descent takes fuel, \<open>3 * length + 3\<close> for an expression, which is proved never to run
    out. Printing an abstract expression and evaluating it gives the meaning of the expression.
    \<^verbatim>\<open>fnmatch\<close>, \<^verbatim>\<open>sge_hostmatch\<close> and \<^verbatim>\<open>sge_hostcmp\<close> are arguments (\<open>matchers\<close>) about which nothing
    is assumed.
  \<^item> \<open>Htable\<close>, \<open>Htable_Correct\<close>, \<open>Htable_Props\<close>: hash tables. The locale \<open>key_functions\<close> states what
    duplicate, hash and compare functions promise, interpreted on all five key types of the source;
    \<open>dict\<close> is a finite map, which the table refines through every resize.
  \<^item> \<open>Bitfield\<close>, \<open>Bitfield_Props\<close>: bit fields on bytes, interpreted as the locale \<open>bit_array\<close>.
  \<^item> \<open>ResourceUtilization\<close>, \<open>ResourceUtilization_Correct\<close>, \<open>ResourceUtilization_Props\<close>: resource
    diagrams. A diagram is a list of times and amounts and stands for the function from times to
    amounts; booking adds whole amounts in the booked window and nowhere else, the peak of a window is
    its maximum, and the search for a window returns one that fits and, for ordinary requests, the
    earliest.
  \<^item> \<open>HostNames\<close>, \<open>HostNames_Props\<close>: host names. \<open>key\<close> is the normal form of a name; the comparison of
    two names, the search in a list and the hash table decide equality of keys.
  \<^item> \<open>HostGroups\<close>, \<open>HostGroups_Correct\<close>, \<open>HostGroups_Props\<close>: host groups. \<open>edges\<close> is the graph of the
    references, \<open>effective_hosts\<close> the hosts that a list of names stands for. The searches that follow
    references return exactly on graphs without a reachable cycle; the master keeps the graph
    acyclic and closed (\<open>groups_inv\<close>, \<open>groups_step\<close>), reports exact differences, and its cache
    answers like the search.
  \<^item> \<open>QueueStates\<close>, \<open>QueueStates_Correct\<close>, \<open>QueueStates_Props\<close>: queue instances. \<open>queue_step\<close> is one
    change by a command, the calendar or its removal, subordination or a daemon; in every reachable state the jobs of a
    queue that is suspended are stopped, if every change could be spooled, and no others are stopped, if also no calendar was removed; a reservation is in
    error exactly when one of its queues is. Letters that stand for states are read back as printed.
  \<^item> \<open>PackBuffer\<close>, \<open>PackBuffer_Correct\<close>, \<open>PackBuffer_Props\<close>: pack buffers as memory and an offset. The
    locale \<open>codec\<close> states what a pair of packing and unpacking functions promises, for one value and,
    proved once, for sequences; it is interpreted on integers, doubles, strings, blocks and values of
    mixed types. What was packed is unpacked, and no bytes whatever make the unpacking leave the memory.
  \<^item> \<open>CullDescr\<close>, \<open>CullDescr_Correct\<close>: types, name spaces and descriptors. \<open>holds\<close> says that a descriptor is the
    one for some fields of a type; the builder makes such descriptors, and the three ways in which
    the iterator walks one visit the same fields.
  \<^item> \<open>CullPack\<close>, \<open>CullPack_Correct\<close>, \<open>CullPack_Safe\<close>, \<open>CullPack_Props\<close>: packing and unpacking of lists, elements
    and descriptors. \<open>transmits\<close> relates a step of the sender to a step of the receiver, with their tables of
    descriptors in step, and composes; so a list arrives as it was sent at every depth. \<open>safe\<close> says that
    a step of unpacking ends on all bytes and stays in the memory; so unpacking always ends, with fuel one more
    than the number of unread bytes, and what it accepts has the shape of its descriptor.
  \<^item> \<open>CullRegistry\<close>, \<open>CullRegistry_Correct\<close>, \<open>CullRegistry_Props\<close>: the registry that shares equal descriptors, with
    reference counts on a heap. A section under its mutex is one step; a release is the decrement, the
    removal from the registry and the free, and \<open>registry_step\<close> interleaves these steps of any number of threads. No step
    uses freed memory, nothing is left behind, and equal descriptors are shared while one is held.
  \<^item> \<open>Calendar\<close>, \<open>CalendarParse\<close>, \<open>Calendar_Ranges\<close>, \<open>Calendar_Time\<close>, \<open>Calendar_Year\<close>, \<open>Calendar_Week\<close>,
    \<open>CalendarParse_Correct\<close>, \<open>Calendar_Props\<close>: calendars, from the text to the state at a time. \<open>Calendar\<close> has the ranges and their evaluation,
    \<open>CalendarParse\<close> the parser with its scanner. The locale of \<open>Calendar_Ranges\<close> says what a comparison of times promises and is interpreted on
    daytimes, dates and week days; \<open>civil_time\<close> in \<open>Calendar_Time\<close> says what \<^verbatim>\<open>localtime_r\<close> and \<^verbatim>\<open>mktime\<close> promise in a time zone with a
    constant offset and is interpreted on the Gregorian calendar. What the parser accepts is well formed, the daytimes mean what was written, and
    entries of a year calendar have their state at their times, with the time of the next change.

  \<^bold>\<open>Conventions.\<close> The option monad stands for undefined behaviour and for loops that do not end: a
  division by a step of 0, a use of a pointer to no node, a counter that overflows, an abort of the daemon. The properties
  prove that the result is \<open>Some\<close>, or, for the search in cyclic groups, that it is \<open>None\<close>. Memory allocation succeeds, and so do the calls of the thread
  library. Unsigned numbers of the source are natural numbers with explicit wrap-around, or words
  where the source works on bits. Counters of the locks are integers. Ids are bounded by
  \<open>id_limit\<close> where a loop of the source would otherwise wrap around. The amounts of the resource
  diagrams, doubles in the source, are rational numbers that are rounded to 53 bits after every operation (\<open>round_double\<close>); the time functions of the
  system are arguments. A shared descriptor is known by the address under which
  the registry keeps it, an argument of packing; \<open>CullRegistry\<close> has the registry itself, with its reference counts. Operations on topology strings,
  \<^verbatim>\<open>fnmatch\<close>, the authentication of a message and the resolver \<^verbatim>\<open>getuniquehostname\<close> are arguments; of the resolver it is assumed
  that it gives a resolved name back unchanged. Messages in answer lists are left out where only
  their text would be added.

  \<^bold>\<open>What the code does not do.\<close> Lemmas at the end of the \<open>Props\<close> theories show by example where the
  code departs from its documentation: \<open>range_list_move_first_n_ids\<close> moves too many ids, the smallest
  task id that is not enrolled is wrong for array dependency holds, trying for a read lock can wait,
  a bitwise copy marks an unchanged field as changed, a booking can drop the binding of the entry
  before it, the window for an exclusive request is not always the earliest, appending several
  members of which one exists appends none, the error counter of a reservation wraps around when a queue is
  resumed, a suspension that cannot be spooled leaves the jobs stopped, a command without effect reports
  success, a large block overflows a pack buffer, a fresh pack buffer counts as filled, an element that
  arrives as free inside a list gets a descriptor that its values do not fit, a nested selection of all
  fields cannot be packed, the first task of a job that finishes ends the dependency on the whole job, a
  finished task with parallel tasks aborts the daemon, the last task of a job whose step does not divide its range
  stays held, a held task that is enrolled counts twice, no time below a limit is reported as now, a queue whose calendar is removed leaves its jobs
  stopped, and the counter of subordination wraps around. Of the calendars: the test of a time frame does not end at the end of an "on" entry, the evening has the
  state of the next morning, days of the week are lost when ranges are joined or make a range of eight days, 31 February is accepted, the time of the next change can be too late,
  the end of a range belongs to it, and long words overflow a buffer.

  \<^bold>\<open>Not modelled.\<close> Parsing and printing of range lists; parallel tasks, parsing and verification
  of jobs; the bookkeeping of a job over all diagrams; the changes of cluster queues that follow a
  change of a host group; functions that only free memory; the communication library, the spool
  database, the daemons apart from the functions named, the clients and the other objects. Next in
  the plan: range parsing and printing, conditions and hash tables of
  the generic lists, queue selection.
\<close>

end
